(* ===== verification/Prelude.thy ===== *)
theory Prelude
  imports Main "HOL-Library.Word"
begin

text \<open>
  Shared vocabulary of the development: the machine integers of the firmware (an LPC43xx, 32-bit
  little-endian), memory faults as values, checked reads and writes of byte arrays, little-endian
  fields of packed structures, and the list and word lemmas the component theories share.
\<close>

unbundle bit_operations_syntax

section \<open>Machine integers\<close>

type_synonym u8 = "8 word"
type_synonym u16 = "16 word"
type_synonym u32 = "32 word"

named_theorems len_simps \<open>lengths of arrays after the operations of the model\<close>
named_theorems res_elims \<open>inversion of results that are not faults\<close>

section \<open>Faults as values\<close>

text \<open>
  What C leaves undefined on memory is a value of the model: an access outside an array is
  \<open>Inl OutOfBounds\<close>, a call or access through a null pointer is \<open>Inl NullPointer\<close>, an integer
  division by zero is \<open>Inl DivByZero\<close>. An operation that can do none of them has a plain result.
\<close>

datatype fault = OutOfBounds | NullPointer | DivByZero

type_synonym 'a res = "fault + 'a"

definition rbind :: "'a res \<Rightarrow> ('a \<Rightarrow> 'b res) \<Rightarrow> 'b res" where
  "rbind m f = (case m of Inl e \<Rightarrow> Inl e | Inr a \<Rightarrow> f a)"

lemma rbind_simps [simp]:
  "rbind (Inl e) f = Inl e"
  "rbind (Inr a) f = f a"
  by (simp_all add: rbind_def)

lemma rbind_Inr_iff [res_elims]: "rbind m f = Inr b \<longleftrightarrow> (\<exists>a. m = Inr a \<and> f a = Inr b)"
  by (cases m) auto

text \<open>
  An operation that may also fail to return, because of an endless loop, has a result of type \<open>'a res option\<close>.
\<close>

definition xbind :: "'a res option \<Rightarrow> ('a \<Rightarrow> 'b res option) \<Rightarrow> 'b res option" where
  "xbind m f = (case m of None \<Rightarrow> None | Some r \<Rightarrow> (case r of Inl e \<Rightarrow> Some (Inl e) | Inr a \<Rightarrow> f a))"

lemma xbind_simps [simp]:
  "xbind None f = None" "xbind (Some (Inl e)) f = Some (Inl e)" "xbind (Some (Inr a)) f = f a"
  by (simp_all add: xbind_def)

lemma xbind_Inr_iff: "xbind m f = Some (Inr y) \<longleftrightarrow> (\<exists>x. m = Some (Inr x) \<and> f x = Some (Inr y))"
  by (auto simp: xbind_def split: option.splits sum.splits)

text \<open>
  \<open>wp t P m\<close>: the operation does not fault, its result satisfies \<open>P\<close> when it returns, and with \<open>t\<close> it returns.
\<close>

definition wp :: "bool \<Rightarrow> ('a \<Rightarrow> bool) \<Rightarrow> 'a res option \<Rightarrow> bool" where
  "wp t P m = (case m of None \<Rightarrow> \<not> t | Some r \<Rightarrow> (case r of Inl e \<Rightarrow> False | Inr a \<Rightarrow> P a))"

lemma wp_simps [simp]: "wp t P (Some (Inr a)) = P a" "wp t P (Some (Inl e)) = False" "wp t P None = (\<not> t)"
  by (simp_all add: wp_def)

lemma wp_xbind: "wp t P (xbind m f) = wp t (\<lambda>a. wp t P (f a)) m"
  by (simp add: wp_def xbind_def split: option.split sum.split)

lemma wp_mono: "wp t P m \<Longrightarrow> (\<And>a. P a \<Longrightarrow> Q a) \<Longrightarrow> wp t Q m"
  by (simp add: wp_def split: option.splits sum.splits)

lemma wp_xbindI: "wp t Q m \<Longrightarrow> (\<And>a. Q a \<Longrightarrow> wp t P (f a)) \<Longrightarrow> wp t P (xbind m f)"
  unfolding wp_xbind by (rule wp_mono)

lemma wpD:
  assumes "wp t P m"
  shows "m = Some (Inr a) \<Longrightarrow> P a" "m \<noteq> Some (Inl e)" "t \<Longrightarrow> \<exists>a. m = Some (Inr a)"
  using assms by (auto simp: wp_def split: option.splits sum.splits)

definition load :: "'a list \<Rightarrow> nat \<Rightarrow> 'a res" where
  "load xs i = (if i < length xs then Inr (xs ! i) else Inl OutOfBounds)"

definition store :: "'a list \<Rightarrow> nat \<Rightarrow> 'a \<Rightarrow> 'a list res" where
  "store xs i v = (if i < length xs then Inr (xs[i := v]) else Inl OutOfBounds)"

text \<open>
  \<open>blit dst off src\<close> is \<open>memcpy (dst + off, src, length src)\<close> into an array of the given
  length; \<open>blit_res\<close> is the same with the fault when the block does not fit.
\<close>

definition blit :: "'a list \<Rightarrow> nat \<Rightarrow> 'a list \<Rightarrow> 'a list" where
  "blit dst off src = take off dst @ src @ drop (off + length src) dst"

definition blit_res :: "'a list \<Rightarrow> nat \<Rightarrow> 'a list \<Rightarrow> 'a list res" where
  "blit_res dst off src =
     (if off + length src \<le> length dst then Inr (blit dst off src) else Inl OutOfBounds)"

lemma load_Inr_iff [res_elims]: "load xs i = Inr v \<longleftrightarrow> i < length xs \<and> v = xs ! i"
  by (auto simp: load_def)

lemma store_Inr_iff [res_elims]: "store xs i v = Inr ys \<longleftrightarrow> i < length xs \<and> ys = xs[i := v]"
  by (auto simp: store_def)

lemma length_blit [len_simps, simp]:
  "off + length src \<le> length dst \<Longrightarrow> length (blit dst off src) = length dst"
  by (simp add: blit_def)

lemma blit_Nil [simp]: "blit dst off [] = dst"
  by (simp add: blit_def)

lemma nth_blit:
  assumes "off + length src \<le> length dst" "i < length dst"
  shows "blit dst off src ! i =
           (if off \<le> i \<and> i < off + length src then src ! (i - off) else dst ! i)"
  using assms by (auto simp: blit_def nth_append not_less)

lemma take_blit_before [simp]:
  "n \<le> off \<Longrightarrow> off \<le> length dst \<Longrightarrow> take n (blit dst off src) = take n dst"
  by (simp add: blit_def min_def)

lemma drop_take_blit [simp]:
  "off \<le> length dst \<Longrightarrow> take (length src) (drop off (blit dst off src)) = src"
  by (simp add: blit_def)

lemma drop_take_blit_len:
  "off \<le> length dst \<Longrightarrow> n = length src \<Longrightarrow> take n (drop off (blit dst off src)) = src"
  by simp

lemma drop_blit_after [simp]:
  "off + length src \<le> n \<Longrightarrow> off + length src \<le> length dst \<Longrightarrow>
   drop n (blit dst off src) = drop n dst"
  by (simp add: blit_def)

text \<open>A copied block leaves what lies beside it as it is.\<close>

lemma take_drop_blit_other:
  assumes "b + length ys \<le> length xs" and "a + n \<le> b \<or> b + length ys \<le> a"
  shows "take n (drop a (blit xs b ys)) = take n (drop a xs)"
  using assms by (intro nth_equalityI) (auto simp: nth_blit)

text \<open>\<open>memcpy (dst + off, src, n)\<close>, faulting when either array is too short.\<close>

definition memcpy :: "'a list \<Rightarrow> nat \<Rightarrow> 'a list \<Rightarrow> nat \<Rightarrow> 'a list res" where
  "memcpy dst off src n =
     (if n \<le> length src \<and> off + n \<le> length dst then Inr (blit dst off (take n src)) else Inl OutOfBounds)"

lemma memcpy_in [simp]:
  "n \<le> length src \<Longrightarrow> off + n \<le> length dst \<Longrightarrow> memcpy dst off src n = Inr (blit dst off (take n src))"
  by (simp add: memcpy_def)

lemma memcpy_Inr_iff [res_elims]:
  "memcpy dst off src n = Inr r \<longleftrightarrow> n \<le> length src \<and> off + n \<le> length dst \<and> r = blit dst off (take n src)"
  by (auto simp: memcpy_def)

text \<open>A loop over a list of inputs that stops at the first fault.\<close>

fun rfold :: "('a \<Rightarrow> 's \<Rightarrow> 's res) \<Rightarrow> 'a list \<Rightarrow> 's \<Rightarrow> 's res" where
  "rfold f [] s = Inr s"
| "rfold f (x # xs) s = rbind (f x s) (rfold f xs)"

lemma rfold_append: "rfold f (xs @ ys) s = rbind (rfold f xs s) (rfold f ys)"
proof (induction xs arbitrary: s)
  case (Cons x xs)
  then show ?case by (cases "f x s") simp_all
qed simp

lemma rfold_inv:
  assumes "\<And>x s. P s \<Longrightarrow> x \<in> set xs \<Longrightarrow> \<exists>s'. f x s = Inr s' \<and> P s'" and "P s"
  shows "\<exists>s'. rfold f xs s = Inr s' \<and> P s'"
  using assms
proof (induction xs arbitrary: s)
  case (Cons x xs)
  then obtain s1 where "f x s = Inr s1" "P s1" by (meson list.set_intros(1))
  moreover have "\<exists>s'. rfold f xs s1 = Inr s' \<and> P s'"
    using \<open>P s1\<close> Cons.prems(1) by (intro Cons.IH) auto
  ultimately show ?case by simp
qed simp

section \<open>Little-endian fields\<close>

definition lo8 :: "u16 \<Rightarrow> u8" where "lo8 w = ucast w"

definition hi8 :: "u16 \<Rightarrow> u8" where "hi8 w = ucast (drop_bit 8 w)"

definition mk16 :: "u8 \<Rightarrow> u8 \<Rightarrow> u16" where
  "mk16 lo hi = ucast lo OR push_bit 8 (ucast hi)"

lemma bit_word8_ge: "n \<ge> 8 \<Longrightarrow> \<not> bit (w :: u8) n"
  using bit_imp_le_length [of w n] by fastforce

lemma bit_word16_ge: "n \<ge> 16 \<Longrightarrow> \<not> bit (w :: u16) n"
  using bit_imp_le_length [of w n] by fastforce

lemma mk16_lo8_hi8 [simp]: "mk16 (lo8 w) (hi8 w) = w"
  by (rule bit_word_eqI)
    (auto simp: mk16_def lo8_def hi8_def bit_or_iff bit_push_bit_iff bit_ucast_iff bit_drop_bit_eq)

lemma lo8_mk16 [simp]: "lo8 (mk16 a b) = a"
  by (rule bit_word_eqI)
    (auto simp: mk16_def lo8_def bit_or_iff bit_push_bit_iff bit_ucast_iff)

lemma hi8_mk16 [simp]: "hi8 (mk16 a b) = b"
  by (rule bit_word_eqI)
    (auto simp: mk16_def hi8_def bit_or_iff bit_push_bit_iff bit_ucast_iff bit_drop_bit_eq
      bit_word8_ge)

lemma mk16_inject [simp]: "mk16 a b = mk16 c d \<longleftrightarrow> a = c \<and> b = d"
  by (metis lo8_mk16 hi8_mk16)

definition bytes16 :: "u16 \<Rightarrow> u8 list" where
  "bytes16 w = [lo8 w, hi8 w]"

definition bytes32 :: "u32 \<Rightarrow> u8 list" where
  "bytes32 w = [ucast w, ucast (drop_bit 8 w), ucast (drop_bit 16 w), ucast (drop_bit 24 w)]"

definition mk32 :: "u8 \<Rightarrow> u8 \<Rightarrow> u8 \<Rightarrow> u8 \<Rightarrow> u32" where
  "mk32 b0 b1 b2 b3 = ucast b0 OR push_bit 8 (ucast b1) OR push_bit 16 (ucast b2)
                      OR push_bit 24 (ucast b3)"

lemma length_bytes16 [len_simps, simp]: "length (bytes16 w) = 2"
  by (simp add: bytes16_def)

lemma length_bytes32 [len_simps, simp]: "length (bytes32 w) = 4"
  by (simp add: bytes32_def)

lemma mk32_bytes32: "mk32 (ucast w) (ucast (drop_bit 8 w)) (ucast (drop_bit 16 w)) (ucast (drop_bit 24 w)) = (w :: u32)"
proof (rule bit_word_eqI)
  fix n :: nat
  assume "n < LENGTH(32)"
  then consider "n < 8" | "8 \<le> n" "n < 16" | "16 \<le> n" "n < 24" | "24 \<le> n" "n < 32" by fastforce
  then show "bit (mk32 (ucast w) (ucast (drop_bit 8 w)) (ucast (drop_bit 16 w)) (ucast (drop_bit 24 w))) n = bit w n"
    by cases (auto simp: mk32_def bit_or_iff bit_push_bit_iff bit_ucast_iff bit_drop_bit_eq)
qed

text \<open>The 16-bit field at byte offset \<open>i\<close> of an array.\<close>

definition get16 :: "u8 list \<Rightarrow> nat \<Rightarrow> u16" where
  "get16 bs i = mk16 (bs ! i) (bs ! Suc i)"

definition put16 :: "u8 list \<Rightarrow> nat \<Rightarrow> u16 \<Rightarrow> u8 list" where
  "put16 bs i w = bs[i := lo8 w, Suc i := hi8 w]"

lemma length_put16 [len_simps, simp]: "length (put16 bs i w) = length bs"
  by (simp add: put16_def)

lemma get16_put16 [simp]: "Suc i < length bs \<Longrightarrow> get16 (put16 bs i w) i = w"
  by (simp add: get16_def put16_def)

lemma get16_put16_other [simp]:
  "Suc i < j \<or> Suc j < i \<Longrightarrow> get16 (put16 bs i w) j = get16 bs j"
  by (auto simp: get16_def put16_def)

lemma nth_put16_other [simp]: "j \<noteq> i \<Longrightarrow> j \<noteq> Suc i \<Longrightarrow> put16 bs i w ! j = bs ! j"
  by (simp add: put16_def)

lemma take_put16 [simp]: "n \<le> i \<Longrightarrow> take n (put16 bs i w) = take n bs"
  by (simp add: put16_def)

lemma drop_put16 [simp]: "Suc i < n \<Longrightarrow> drop n (put16 bs i w) = drop n bs"
  by (simp add: put16_def)

lemma get16_list_update_other [simp]: "k \<noteq> j \<Longrightarrow> k \<noteq> Suc j \<Longrightarrow> get16 (bs[k := v]) j = get16 bs j"
  by (simp add: get16_def)

definition load16 :: "u8 list \<Rightarrow> nat \<Rightarrow> u16 res" where
  "load16 bs i = (if Suc i < length bs then Inr (get16 bs i) else Inl OutOfBounds)"

lemma load16_in [simp]: "Suc i < length bs \<Longrightarrow> load16 bs i = Inr (get16 bs i)"
  by (simp add: load16_def)

lemma load_in [simp]: "i < length xs \<Longrightarrow> load xs i = Inr (xs ! i)"
  by (simp add: load_def)

definition get32 :: "u8 list \<Rightarrow> nat \<Rightarrow> u32" where
  "get32 bs i = mk32 (bs ! i) (bs ! (i + 1)) (bs ! (i + 2)) (bs ! (i + 3))"

section \<open>Words as numbers\<close>

lemma unat_lt_256 [simp]: "unat (b :: u8) < 256"
  using unsigned_less [of b] by simp

lemma unat_lt_65536 [simp]: "unat (w :: u16) < 65536"
  using unsigned_less [of w] by simp

lemma unat_ucast_u8_u16 [simp]: "unat (ucast (x :: u8) :: u16) = unat x"
proof -
  have "unat x < 65536" using unat_lt_256 [of x] by linarith
  then show ?thesis by (simp add: unsigned_ucast_eq take_bit_eq_mod)
qed

lemma unat_of_nat_u16 [simp]: "n < 65536 \<Longrightarrow> unat (of_nat n :: u16) = n"
  by (simp add: unat_of_nat take_bit_eq_mod)

lemma unat_of_nat_u32: "n < 4294967296 \<Longrightarrow> unat (of_nat n :: u32) = n"
  by (simp add: unat_of_nat take_bit_eq_mod)

text \<open>The increment of an unsigned 16-bit variable held as a number.\<close>

definition inc16 :: "nat \<Rightarrow> nat" where "inc16 n = (n + 1) mod 65536"

lemma inc16_small [simp]: "n < 65535 \<Longrightarrow> inc16 n = n + 1"
  by (simp add: inc16_def)

section \<open>C integers as numbers\<close>

text \<open>
  Where the code computes in \<open>int\<close> and stores into a narrower variable, the model computes in \<open>int\<close>
  and converts at the store: \<open>to_i16\<close> to \<open>int16_t\<close>, \<open>to_u8\<close>, \<open>to_u16\<close>, \<open>to_u32\<close> to the unsigned types.
\<close>

definition to_i16 :: "int \<Rightarrow> int" where "to_i16 x = (x + 32768) mod 65536 - 32768"

definition to_u8 :: "int \<Rightarrow> int" where "to_u8 x = x mod 256"

definition to_u16 :: "int \<Rightarrow> int" where "to_u16 x = x mod 65536"

definition to_u32 :: "int \<Rightarrow> int" where "to_u32 x = x mod 4294967296"

lemma to_i16_id [simp]: "- 32768 \<le> x \<Longrightarrow> x < 32768 \<Longrightarrow> to_i16 x = x"
  by (simp add: to_i16_def)

lemma to_u8_id [simp]: "0 \<le> x \<Longrightarrow> x < 256 \<Longrightarrow> to_u8 x = x"
  by (simp add: to_u8_def)

lemma to_u16_id [simp]: "0 \<le> x \<Longrightarrow> x < 65536 \<Longrightarrow> to_u16 x = x"
  by (simp add: to_u16_def)

lemma to_u32_id [simp]: "0 \<le> x \<Longrightarrow> x < 4294967296 \<Longrightarrow> to_u32 x = x"
  by (simp add: to_u32_def)

text \<open>
  Array accesses and \<open>memcpy\<close> at C indices; \<open>memcpy_at dst off src n\<close> copies the first \<open>n\<close> elements of
  \<open>src\<close> to \<open>dst + off\<close> and faults when either array is too short (a negative count is a huge
  \<open>size_t\<close>).
\<close>

definition load_at :: "'a list \<Rightarrow> int \<Rightarrow> 'a res" where
  "load_at xs i = (if 0 \<le> i then load xs (nat i) else Inl OutOfBounds)"

definition store_at :: "'a list \<Rightarrow> int \<Rightarrow> 'a \<Rightarrow> 'a list res" where
  "store_at xs i v = (if 0 \<le> i then store xs (nat i) v else Inl OutOfBounds)"

definition memcpy_at :: "'a list \<Rightarrow> int \<Rightarrow> 'a list \<Rightarrow> int \<Rightarrow> 'a list res" where
  "memcpy_at dst off src n =
     (if 0 \<le> off \<and> 0 \<le> n \<and> n \<le> int (length src) \<and> off + n \<le> int (length dst)
      then Inr (blit dst (nat off) (take (nat n) src)) else Inl OutOfBounds)"

lemma load_at_in [simp]: "0 \<le> i \<Longrightarrow> i < int (length xs) \<Longrightarrow> load_at xs i = Inr (xs ! nat i)"
  by (simp add: load_at_def load_def nat_less_iff)

lemma store_at_in [simp]:
  "0 \<le> i \<Longrightarrow> i < int (length xs) \<Longrightarrow> store_at xs i v = Inr (xs[nat i := v])"
  by (simp add: store_at_def store_def nat_less_iff)

lemma store_at_out [simp]: "int (length xs) \<le> i \<Longrightarrow> store_at xs i v = Inl OutOfBounds"
  by (simp add: store_at_def store_def)

end
