(* ===== verification/Crc16.thy ===== *)
theory Crc16
  imports Prelude
begin

text \<open>
  The CRC of the DataIO packets: \<^verbatim>\<open>src/src/comm/CRC16.C\<close> and \<^verbatim>\<open>src/inc/comm/crc16.h\<close>. The table is
  the one of the source, entry by entry; \<open>crc_x8\<close> is the reference, eight steps of division by
  the polynomial \<open>x^16 + x^12 + x^5 + 1\<close>. The lemmas show that the table-driven update is the
  reference, that it is linear over XOR and one-to-one in the running value, and what errors in a
  block the checksum finds.
\<close>

section \<open>The table and the update functions\<close>

definition Crc16Table :: "u16 list" where
  "Crc16Table =
    [0x0000, 0x1021, 0x2042, 0x3063, 0x4084, 0x50a5, 0x60c6, 0x70e7,
     0x8108, 0x9129, 0xa14a, 0xb16b, 0xc18c, 0xd1ad, 0xe1ce, 0xf1ef,
     0x1231, 0x0210, 0x3273, 0x2252, 0x52b5, 0x4294, 0x72f7, 0x62d6,
     0x9339, 0x8318, 0xb37b, 0xa35a, 0xd3bd, 0xc39c, 0xf3ff, 0xe3de,
     0x2462, 0x3443, 0x0420, 0x1401, 0x64e6, 0x74c7, 0x44a4, 0x5485,
     0xa56a, 0xb54b, 0x8528, 0x9509, 0xe5ee, 0xf5cf, 0xc5ac, 0xd58d,
     0x3653, 0x2672, 0x1611, 0x0630, 0x76d7, 0x66f6, 0x5695, 0x46b4,
     0xb75b, 0xa77a, 0x9719, 0x8738, 0xf7df, 0xe7fe, 0xd79d, 0xc7bc,
     0x48c4, 0x58e5, 0x6886, 0x78a7, 0x0840, 0x1861, 0x2802, 0x3823,
     0xc9cc, 0xd9ed, 0xe98e, 0xf9af, 0x8948, 0x9969, 0xa90a, 0xb92b,
     0x5af5, 0x4ad4, 0x7ab7, 0x6a96, 0x1a71, 0x0a50, 0x3a33, 0x2a12,
     0xdbfd, 0xcbdc, 0xfbbf, 0xeb9e, 0x9b79, 0x8b58, 0xbb3b, 0xab1a,
     0x6ca6, 0x7c87, 0x4ce4, 0x5cc5, 0x2c22, 0x3c03, 0x0c60, 0x1c41,
     0xedae, 0xfd8f, 0xcdec, 0xddcd, 0xad2a, 0xbd0b, 0x8d68, 0x9d49,
     0x7e97, 0x6eb6, 0x5ed5, 0x4ef4, 0x3e13, 0x2e32, 0x1e51, 0x0e70,
     0xff9f, 0xefbe, 0xdfdd, 0xcffc, 0xbf1b, 0xaf3a, 0x9f59, 0x8f78,
     0x9188, 0x81a9, 0xb1ca, 0xa1eb, 0xd10c, 0xc12d, 0xf14e, 0xe16f,
     0x1080, 0x00a1, 0x30c2, 0x20e3, 0x5004, 0x4025, 0x7046, 0x6067,
     0x83b9, 0x9398, 0xa3fb, 0xb3da, 0xc33d, 0xd31c, 0xe37f, 0xf35e,
     0x02b1, 0x1290, 0x22f3, 0x32d2, 0x4235, 0x5214, 0x6277, 0x7256,
     0xb5ea, 0xa5cb, 0x95a8, 0x8589, 0xf56e, 0xe54f, 0xd52c, 0xc50d,
     0x34e2, 0x24c3, 0x14a0, 0x0481, 0x7466, 0x6447, 0x5424, 0x4405,
     0xa7db, 0xb7fa, 0x8799, 0x97b8, 0xe75f, 0xf77e, 0xc71d, 0xd73c,
     0x26d3, 0x36f2, 0x0691, 0x16b0, 0x6657, 0x7676, 0x4615, 0x5634,
     0xd94c, 0xc96d, 0xf90e, 0xe92f, 0x99c8, 0x89e9, 0xb98a, 0xa9ab,
     0x5844, 0x4865, 0x7806, 0x6827, 0x18c0, 0x08e1, 0x3882, 0x28a3,
     0xcb7d, 0xdb5c, 0xeb3f, 0xfb1e, 0x8bf9, 0x9bd8, 0xabbb, 0xbb9a,
     0x4a75, 0x5a54, 0x6a37, 0x7a16, 0x0af1, 0x1ad0, 0x2ab3, 0x3a92,
     0xfd2e, 0xed0f, 0xdd6c, 0xcd4d, 0xbdaa, 0xad8b, 0x9de8, 0x8dc9,
     0x7c26, 0x6c07, 0x5c64, 0x4c45, 0x3ca2, 0x2c83, 0x1ce0, 0x0cc1,
     0xef1f, 0xff3e, 0xcf5d, 0xdf7c, 0xaf9b, 0xbfba, 0x8fd9, 0x9ff8,
     0x6e17, 0x7e36, 0x4e55, 0x5e74, 0x2e93, 0x3eb2, 0x0ed1, 0x1ef0]"

definition UpdateCRC16 :: "u8 \<Rightarrow> u16 \<Rightarrow> u16" where
  "UpdateCRC16 Octet CRC =
     Crc16Table ! unat (drop_bit 8 CRC AND 255) XOR push_bit 8 CRC XOR ucast Octet"

text \<open>The macro \<open>UPDATE_CRC16\<close> of \<^verbatim>\<open>crc16.h\<close>, which the receiver of layer 2 uses.\<close>

definition UPDATE_CRC16 :: "u8 \<Rightarrow> u16 \<Rightarrow> u16" where
  "UPDATE_CRC16 Octet CRC =
     Crc16Table ! unat (drop_bit 8 CRC AND 255) XOR push_bit 8 CRC XOR ucast Octet"

definition UpdateCRC :: "u8 \<Rightarrow> u16 \<Rightarrow> u16" where
  "UpdateCRC Octet CRC = push_bit 8 CRC XOR Crc16Table ! unat (drop_bit 8 CRC XOR ucast Octet)"

text \<open>
  \<open>calcBlockCRC16i\<close> reads \<open>sz\<close> bytes from \<open>data\<close>; a read past the end of the array is the fault.
\<close>

fun calcBlockCRC16i :: "u8 list \<Rightarrow> nat \<Rightarrow> u16 \<Rightarrow> u16 res" where
  "calcBlockCRC16i data 0 crc = Inr crc"
| "calcBlockCRC16i [] (Suc sz) crc = Inl OutOfBounds"
| "calcBlockCRC16i (b # data) (Suc sz) crc =
     calcBlockCRC16i data sz
       (Crc16Table ! unat (drop_bit 8 crc AND 255) XOR push_bit 8 crc XOR ucast b)"

section \<open>The reference: division by the polynomial\<close>

definition crc_bit :: "u16 \<Rightarrow> u16" where
  "crc_bit c = (if bit c 15 then push_bit 1 c XOR 0x1021 else push_bit 1 c)"

definition crc_x8 :: "u16 \<Rightarrow> u16" where
  "crc_x8 c = crc_bit (crc_bit (crc_bit (crc_bit (crc_bit (crc_bit (crc_bit (crc_bit c)))))))"

definition crc_block :: "u8 list \<Rightarrow> u16 \<Rightarrow> u16" where
  "crc_block bs c = fold (\<lambda>b c. crc_x8 c XOR ucast b) bs c"

lemma crc_block_simps [simp]:
  "crc_block [] c = c"
  "crc_block (b # bs) c = crc_block bs (crc_x8 c XOR ucast b)"
  "crc_block (bs @ cs) c = crc_block cs (crc_block bs c)"
  by (simp_all add: crc_block_def)

section \<open>The table against the reference\<close>

fun tab_steps :: "u16 list \<Rightarrow> u16 list \<Rightarrow> bool" where
  "tab_steps (t # ts) (a # b # us) = (a = crc_bit t \<and> b = crc_bit t XOR 0x1021 \<and> tab_steps ts us)"
| "tab_steps ts [] = True"
| "tab_steps ts us = False"

lemma bit15_iff: "bit (c :: u16) 15 \<longleftrightarrow> 0x8000 \<le> c"
proof -
  have "bit c 15 \<longleftrightarrow> odd (unat c div 32768)"
    using bit_iff_odd [of "unat c" 15] by (simp add: bit_unsigned_iff)
  also have "\<dots> \<longleftrightarrow> 32768 \<le> unat c"
  proof (cases "32768 \<le> unat c")
    case True
    then have "unat c div 32768 = 1"
      using unat_lt_65536 [of c] by (intro div_nat_eqI) simp_all
    with True show ?thesis by simp
  qed simp
  finally show ?thesis by (simp add: word_le_nat_alt)
qed

lemma crc_bit_if: "crc_bit c = (if 0x8000 \<le> c then (c + c) XOR 0x1021 else c + c)"
  by (simp add: crc_bit_def bit15_iff push_bit_eq_mult mult_2_right)

lemma tab_steps_Crc16Table: "tab_steps Crc16Table Crc16Table"
  unfolding Crc16Table_def by (simp add: crc_bit_if)

lemma tab_steps_nth:
  "tab_steps ts us \<Longrightarrow> 2 * n + 1 < length us \<Longrightarrow>
     us ! (2 * n) = crc_bit (ts ! n) \<and> us ! (2 * n + 1) = crc_bit (ts ! n) XOR 0x1021"
proof (induction ts us arbitrary: n rule: tab_steps.induct)
  case (1 t ts a b us)
  then show ?case by (cases n) auto
qed auto

lemma length_Crc16Table [len_simps, simp]: "length Crc16Table = 256"
  by (simp add: Crc16Table_def)

lemma crc_bit_xor: "crc_bit (a XOR b) = crc_bit a XOR crc_bit b"
  by (auto simp: crc_bit_def bit_xor_iff push_bit_xor xor.assoc xor.left_commute xor.commute)

lemma crc_x8_xor: "crc_x8 (a XOR b) = crc_x8 a XOR crc_x8 b"
  by (simp add: crc_x8_def crc_bit_xor)

lemma crc_x8_zero [simp]: "crc_x8 0 = 0"
  by (simp add: crc_x8_def crc_bit_def)

lemma crc_x8_crc_bit: "crc_x8 (crc_bit c) = crc_bit (crc_x8 c)"
  by (simp add: crc_x8_def)

lemma push8_double:
  assumes "n < 128"
  shows "push_bit 8 (of_nat (2 * n)) = crc_bit (push_bit 8 (of_nat n))"
    and "push_bit 8 (of_nat (2 * n + 1)) = crc_bit (push_bit 8 (of_nat n)) XOR (0x100 :: u16)"
proof -
  have n: "n \<in> {0..<128}" using assms by simp
  have u: "unat (push_bit 8 (of_nat n) :: u16) = n * 256"
    using assms by (simp add: push_bit_eq_mult unat_word_ariths unat_of_nat take_bit_eq_mod)
  then have le: "\<not> (0x8000 :: u16) \<le> push_bit 8 (of_nat n)"
    using assms by (simp add: word_le_nat_alt)
  show 1: "push_bit 8 (of_nat (2 * n)) = crc_bit (push_bit 8 (of_nat n))"
    using le by (simp add: crc_bit_if push_bit_eq_mult algebra_simps)
  have "of_nat (2 * n + 1) = (of_nat (2 * n) XOR 1 :: u16)"
    by (simp add: xor_one_eq)
  then have "push_bit 8 (of_nat (2 * n + 1)) = (push_bit 8 (of_nat (2 * n)) XOR push_bit 8 1 :: u16)"
    by (simp only: push_bit_xor)
  then show "push_bit 8 (of_nat (2 * n + 1)) = crc_bit (push_bit 8 (of_nat n)) XOR (0x100 :: u16)"
    using 1 by simp
qed

lemma crc_x8_256: "crc_x8 0x100 = 0x1021"
  by (simp add: crc_x8_def crc_bit_if)

lemma Crc16Table_ref: "i < 256 \<Longrightarrow> Crc16Table ! i = crc_x8 (push_bit 8 (of_nat i))"
proof (induction i rule: less_induct)
  case (less i)
  show ?case
  proof (cases "i = 0")
    case True
    then show ?thesis by (simp add: Crc16Table_def)
  next
    case False
    define n where "n = i div 2"
    have n: "n < 128" "n < i" using False less.prems by (auto simp: n_def)
    have T: "Crc16Table ! (2 * n) = crc_bit (Crc16Table ! n)"
        "Crc16Table ! (2 * n + 1) = crc_bit (Crc16Table ! n) XOR 0x1021"
      using tab_steps_nth [OF tab_steps_Crc16Table, of n] n by simp_all
    have IH: "Crc16Table ! n = crc_x8 (push_bit 8 (of_nat n))"
      using less.IH n by simp
    have "i = 2 * n \<or> i = 2 * n + 1" by (auto simp: n_def)
    then show ?thesis
      using T push8_double [OF n(1)]
      by (elim disjE) (simp_all only: IH crc_x8_crc_bit crc_x8_xor crc_x8_256)
  qed
qed

section \<open>The update functions\<close>

lemma hi_and_255: "unat (drop_bit 8 (c :: u16) AND 255) = unat (drop_bit 8 c)"
proof -
  have "drop_bit 8 c AND 255 = drop_bit 8 c AND mask 8" by (simp add: mask_eq_exp_minus_1)
  also have "\<dots> = drop_bit 8 c"
    by (rule bit_word_eqI) (auto simp: bit_and_iff bit_mask_iff bit_drop_bit_eq dest: bit_imp_le_length)
  finally show ?thesis by simp
qed

lemma unat_hi_lt: "unat (drop_bit 8 (c :: u16)) < 256"
  using unat_lt_65536 [of c] unat_drop_bit_eq [of 8 c] 
  by (simp add: drop_bit_eq_div [of 8 "unat c"] less_mult_imp_div_less)

lemma crc_bit_low: "unat c < 32768 \<Longrightarrow> crc_bit c = push_bit 1 c"
  by (simp add: crc_bit_def bit15_iff word_le_nat_alt)

lemma crc_x8_low:
  assumes "unat c < 256"
  shows "crc_x8 c = push_bit 8 c"
proof -
  have step: "crc_bit (push_bit k c) = push_bit (Suc k) c" if "k < 8" for k
  proof -
    have "(2::nat) ^ k \<le> 2 ^ 7" using that by (intro power_increasing) auto
    then have "unat c * 2 ^ k < 256 * 2 ^ 7"
      using assms by (intro mult_less_le_imp_less) auto
    then have "unat (push_bit k c) < 32768"
      using unsigned_push_bit_eq [of k c, where 'a = nat]
      by (simp add: take_bit_eq_mod push_bit_eq_mult [of k "unat c"])
    then show ?thesis by (simp add: crc_bit_low)
  qed
  show ?thesis
    using step [of 0] step [of 1] step [of 2] step [of 3] step [of 4] step [of 5] step [of 6] step [of 7]
    by (simp add: crc_x8_def numeral_eq_Suc)
qed

lemma crc_x8_ucast: "crc_x8 (ucast (b :: u8)) = push_bit 8 (ucast b)"
  by (rule crc_x8_low) simp

lemma crc_x8_split: "crc_x8 c = Crc16Table ! unat (drop_bit 8 c) XOR push_bit 8 c"
proof -
  have c: "c = push_bit 8 (drop_bit 8 c) XOR take_bit 8 c"
    by (rule bit_word_eqI) (auto simp: bit_xor_iff bit_push_bit_iff bit_take_bit_iff bit_drop_bit_eq)
  have "unat (take_bit 8 c) < 256"
    using unsigned_take_bit_eq [of 8 c, where 'a = nat] by (simp add: take_bit_eq_mod [of 8 "unat c"])
  then have lo: "crc_x8 (take_bit 8 c) = push_bit 8 c"
    by (simp add: crc_x8_low push_bit_take_bit) (rule bit_word_eqI, auto simp: bit_simps)
  have hi: "crc_x8 (push_bit 8 (drop_bit 8 c)) = Crc16Table ! unat (drop_bit 8 c)"
    using Crc16Table_ref [OF unat_hi_lt [of c]] by simp
  have "crc_x8 c = crc_x8 (push_bit 8 (drop_bit 8 c)) XOR crc_x8 (take_bit 8 c)"
    using crc_x8_xor c by metis
  then show ?thesis by (simp add: hi lo)
qed

lemma UpdateCRC16_ref: "UpdateCRC16 b c = crc_x8 c XOR ucast b"
  by (simp add: UpdateCRC16_def hi_and_255 crc_x8_split xor.assoc)

lemma UPDATE_CRC16_ref: "UPDATE_CRC16 b c = crc_x8 c XOR ucast b"
  by (simp add: UPDATE_CRC16_def hi_and_255 crc_x8_split xor.assoc)

lemma calcBlockCRC16i_ref:
  "calcBlockCRC16i data sz c =
     (if sz \<le> length data then Inr (crc_block (take sz data) c) else Inl OutOfBounds)"
  by (induction data sz c rule: calcBlockCRC16i.induct) (simp_all add: hi_and_255 crc_x8_split xor.assoc)

section \<open>What the checksum detects\<close>

lemma xor_eq_zero_iff: "a XOR b = 0 \<longleftrightarrow> a = (b :: u16)"
  by (metis xor.assoc xor_self_eq xor.right_neutral xor.left_neutral)

lemma crc_bit_eq_0: "crc_bit c = 0 \<longleftrightarrow> c = 0"
proof
  assume 0: "crc_bit c = 0"
  have odd: "\<not> bit (push_bit 1 c) 0" by (simp add: bit_0)
  have "\<not> bit c 15"
  proof
    assume "bit c 15"
    then have "push_bit 1 c = (0x1021 :: u16)" using 0 by (simp add: crc_bit_def xor_eq_zero_iff)
    then show False using odd by simp
  qed
  then have p: "push_bit 1 c = 0" and b: "\<not> bit c 15" using 0 by (simp_all add: crc_bit_def)
  show "c = 0"
  proof (rule bit_word_eqI)
    fix n assume "n < LENGTH(16)"
    then have n: "n < 15 \<or> n = 15" by auto
    have "bit (push_bit 1 c) (Suc n) = bit c n" if "n < 15"
      using that bit_push_bit_iff [of 1 c "Suc n"] by (simp del: push_bit_Suc)
    then show "bit c n = bit 0 n" using n b p by auto
  qed
qed (simp add: crc_bit_def)

lemma crc_x8_eq_0: "crc_x8 c = 0 \<longleftrightarrow> c = 0"
  by (simp add: crc_x8_def crc_bit_eq_0)

lemma crc_x8_inj: "crc_x8 a = crc_x8 b \<longleftrightarrow> a = b"
  by (metis crc_x8_eq_0 crc_x8_xor xor_eq_zero_iff)

lemma xor_right_cancel: "a XOR c = b XOR c \<longleftrightarrow> a = (b :: u16)"
  by (metis xor.assoc xor_self_eq xor.right_neutral)

lemma crc_block_inj: "crc_block bs a = crc_block bs b \<longleftrightarrow> a = b"
  by (induction bs arbitrary: a b) (simp_all add: xor_right_cancel crc_x8_inj)

lemma crc_block_xor:
  "length as = length bs \<Longrightarrow>
   crc_block (map2 (XOR) as bs) (c XOR d) = crc_block as c XOR crc_block bs d"
proof (induction as bs arbitrary: c d rule: list_induct2)
  case (Cons a as b bs)
  have u: "ucast (a XOR b) = (ucast a XOR ucast b :: u16)"
    by (rule bit_word_eqI) (simp add: bit_ucast_iff bit_xor_iff)
  show ?case
    using Cons.IH [of "crc_x8 c XOR ucast a" "crc_x8 d XOR ucast b"]
    by (simp add: crc_x8_xor u ac_simps)
qed simp

lemma crc_two_bytes:
  assumes "crc_block [a, b] c = crc_block [a', b'] c"
  shows "a = a' \<and> b = b'"
proof -
  have "crc_x8 (ucast a) XOR ucast b = crc_x8 (ucast a') XOR (ucast b' :: u16)"
    using assms by (simp add: crc_x8_xor xor.assoc) (metis xor.assoc xor.commute xor_right_cancel)
  then have eq: "push_bit 8 (ucast a) XOR ucast b = (push_bit 8 (ucast a') XOR ucast b' :: u16)"
    by (simp add: crc_x8_ucast)
  have "push_bit 8 (ucast x) XOR ucast y = mk16 y x" for x y :: u8
    by (rule bit_word_eqI)
      (auto simp: mk16_def bit_xor_iff bit_or_iff bit_push_bit_iff bit_ucast_iff bit_word8_ge)
  with eq show ?thesis by simp
qed

lemma UpdateCRC_ref: "UpdateCRC b c = crc_x8 (c XOR push_bit 8 (ucast b))"
proof -
  have hi: "drop_bit 8 (c XOR push_bit 8 (ucast b)) = drop_bit 8 c XOR ucast b"
    by (rule bit_word_eqI)
      (auto simp: bit_drop_bit_eq bit_xor_iff bit_push_bit_iff bit_ucast_iff dest: bit_imp_le_length)
  have "push_bit 8 (c XOR push_bit 8 (ucast b)) = push_bit 8 c"
    by (rule bit_word_eqI)
      (auto simp: bit_xor_iff bit_push_bit_iff bit_ucast_iff dest: bit_imp_le_length)
  with hi show ?thesis
    by (simp add: UpdateCRC_def crc_x8_split xor.commute)
qed

lemma fold_UpdateCRC:
  "fold UpdateCRC m (crc_x8 (crc_x8 c)) = crc_x8 (crc_x8 (fold UpdateCRC16 m c))"
proof (induction m arbitrary: c)
  case (Cons b m)
  have "UpdateCRC b (crc_x8 (crc_x8 c)) = crc_x8 (crc_x8 (UpdateCRC16 b c))"
    by (simp add: UpdateCRC_ref UpdateCRC16_ref crc_x8_xor flip: crc_x8_ucast)
  then show ?case by (simp add: Cons.IH)
qed simp

lemma fold_UpdateCRC16: "fold UpdateCRC16 bs c = crc_block bs c"
  by (induction bs arbitrary: c) (simp_all add: UpdateCRC16_ref)

section \<open>Properties\<close>

text \<open>
  C36: the table-driven CRC is division by the CCITT polynomial. One update multiplies the running
  value by \<open>x^8\<close> modulo \<open>x^16 + x^12 + x^5 + 1\<close> and adds the octet, the macro and the function agree,
  and the block routine is the fold of the update over the first \<open>sz\<close> bytes, reading outside the
  array exactly when \<open>sz\<close> exceeds its length.
\<close>

theorem crc_is_polynomial_division:
  "UpdateCRC16 b c = crc_x8 c XOR ucast b \<and> UPDATE_CRC16 b c = UpdateCRC16 b c \<and>
   calcBlockCRC16i data sz c =
     (if sz \<le> length data then Inr (fold UpdateCRC16 (take sz data) c) else Inl OutOfBounds)"
  by (simp add: UpdateCRC16_ref UPDATE_CRC16_ref calcBlockCRC16i_ref fold_UpdateCRC16)

text \<open>
  The checksum of a block detects every error confined to two adjacent bytes, whatever precedes
  and follows them and whatever the initial value.
\<close>

lemma crc_detects_two_byte_error:
  assumes "(a, b) \<noteq> (a', b')"
  shows "calcBlockCRC16i (p @ [a, b] @ s) (length p + 2 + length s) c
       \<noteq> calcBlockCRC16i (p @ [a', b'] @ s) (length p + 2 + length s) c"
  using assms crc_two_bytes [of a b "crc_block p c" a' b']
  by (auto simp: calcBlockCRC16i_ref crc_block_inj)

lemma crc_detects_two_byte_error_example:
  "calcBlockCRC16i ([1] @ [2, 3] @ [4]) (length [1 :: u8] + 2 + length [4 :: u8]) 0xFFFF
   \<noteq> calcBlockCRC16i ([1] @ [3, 2] @ [4]) (length [1 :: u8] + 2 + length [4 :: u8]) 0xFFFF"
  by (rule crc_detects_two_byte_error) simp

text \<open>
  The two update functions compute the same checksum: \<open>UpdateCRC\<close> over a message equals
  \<open>UpdateCRC16\<close> over the message followed by two zero octets, both started from zero.
\<close>

lemma UpdateCRC_augmented: "fold UpdateCRC m 0 = fold UpdateCRC16 (m @ [0, 0]) 0"
  using fold_UpdateCRC [of m 0] by (simp add: UpdateCRC16_ref)

end
