(* ===== verification/Fifo_Spec.thy ===== *)
theory Fifo_Spec
  imports Prelude
begin

text \<open>
  The interface of a bounded first-in first-out buffer, as the firmware's clients of its two ring
  buffers use it: a push that keeps the buffer unchanged when it is full, a pop that drops the
  oldest element, and a look at the oldest element. The laws speak of the list of elements a state
  stands for (\<open>cont\<close>); the lemmas are what a producer and a consumer rely on.
\<close>

locale bounded_fifo =
  fixes inv :: "'q \<Rightarrow> bool"
    and cap :: "'q \<Rightarrow> nat"
    and cont :: "'q \<Rightarrow> 'a list"
    and push :: "'a \<Rightarrow> 'q \<Rightarrow> 'q res"
    and pop :: "'q \<Rightarrow> 'q res"
    and front :: "'q \<Rightarrow> 'a option"
  assumes push_law: "inv q \<Longrightarrow> \<exists>q'. push x q = Inr q' \<and> inv q' \<and> cap q' = cap q \<and>
             cont q' = (if length (cont q) < cap q then cont q @ [x] else cont q)"
    and pop_law: "inv q \<Longrightarrow> \<exists>q'. pop q = Inr q' \<and> inv q' \<and> cap q' = cap q \<and> cont q' = tl (cont q)"
    and front_law: "inv q \<Longrightarrow> front q = (case cont q of [] \<Rightarrow> None | x # _ \<Rightarrow> Some x)"
    and cap_law: "inv q \<Longrightarrow> length (cont q) \<le> cap q"
begin

text \<open>A burst of pushes keeps the oldest elements and drops what does not fit.\<close>

lemma push_all:
  "inv q \<Longrightarrow> \<exists>q'. rfold push xs q = Inr q' \<and> inv q' \<and> cap q' = cap q \<and>
      cont q' = take (cap q) (cont q @ xs)"
proof (induction xs arbitrary: q)
  case Nil
  then show ?case using cap_law by simp
next
  case (Cons x xs)
  obtain q1 where q1: "push x q = Inr q1" "inv q1" "cap q1 = cap q"
      "cont q1 = (if length (cont q) < cap q then cont q @ [x] else cont q)"
    using push_law [OF Cons.prems] by blast
  obtain q2 where "rfold push xs q1 = Inr q2" "inv q2" "cap q2 = cap q1"
      "cont q2 = take (cap q1) (cont q1 @ xs)"
    using Cons.IH [OF q1(2)] by blast
  then show ?case using q1 cap_law [OF Cons.prems] by (auto simp: take_Cons')
qed

text \<open>A burst of pops drops the oldest elements.\<close>

lemma pop_all:
  "inv q \<Longrightarrow> \<exists>q'. rfold (\<lambda>_. pop) (replicate n ()) q = Inr q' \<and> inv q' \<and> cap q' = cap q \<and>
      cont q' = drop n (cont q)"
proof (induction n arbitrary: q)
  case (Suc n)
  obtain q1 where q1: "pop q = Inr q1" "inv q1" "cap q1 = cap q" "cont q1 = tl (cont q)"
    using pop_law [OF Suc.prems] by blast
  show ?case using Suc.IH [OF q1(2)] q1 by (auto simp: drop_Suc)
qed simp

text \<open>What was pushed comes out in the order it was pushed in.\<close>

lemma fifo_order:
  assumes "inv q" and "cont q = []" and "length xs \<le> cap q" and "i < length xs"
  shows "\<exists>q1 q2. rfold push xs q = Inr q1 \<and> rfold (\<lambda>_. pop) (replicate i ()) q1 = Inr q2 \<and>
           front q2 = Some (xs ! i)"
proof -
  obtain q1 where q1: "rfold push xs q = Inr q1" "inv q1" "cont q1 = take (cap q) (cont q @ xs)"
    using push_all [OF assms(1)] by blast
  obtain q2 where q2: "rfold (\<lambda>_. pop) (replicate i ()) q1 = Inr q2" "inv q2"
      "cont q2 = drop i (cont q1)"
    using pop_all [OF q1(2)] by blast
  have "cont q2 = xs ! i # drop (Suc i) xs"
    using assms q1 q2 by (simp add: Cons_nth_drop_Suc)
  then show ?thesis using q1 q2 front_law [OF q2(2)] by simp
qed

end

end
