(* ===== verification/Ring.thy ===== *)
theory Ring
  imports Prelude
begin

text \<open>
  The arithmetic of ring buffers, shared by the request queue (\<open>TQueue\<close>) and the byte buffer
  (\<open>TBuffer\<close>): \<open>ring buf r n\<close> is the list of the \<open>n\<close> elements that start at index \<open>r\<close> of the array
  and wrap around at its end.
\<close>

definition ring :: "'a list \<Rightarrow> nat \<Rightarrow> nat \<Rightarrow> 'a list" where
  "ring buf r n = map (\<lambda>k. buf ! ((r + k) mod length buf)) [0..<n]"

lemma length_ring [len_simps, simp]: "length (ring buf r n) = n"
  by (simp add: ring_def)

lemma nth_ring [simp]: "k < n \<Longrightarrow> ring buf r n ! k = buf ! ((r + k) mod length buf)"
  by (simp add: ring_def)

lemma ring_0 [simp]: "ring buf r 0 = []"
  by (simp add: ring_def)

lemma ring_eq_Nil [simp]: "ring buf r n = [] \<longleftrightarrow> n = 0"
  by (simp add: ring_def)

lemma ring_add: "ring buf r (m + n) = ring buf r m @ ring buf ((r + m) mod length buf) n"
proof (rule nth_equalityI)
  fix i assume i: "i < length (ring buf r (m + n))"
  show "ring buf r (m + n) ! i = (ring buf r m @ ring buf ((r + m) mod length buf) n) ! i"
  proof (cases "i < m")
    case False
    then obtain k where "i = m + k" "k < n" using i by (metis le_iff_add length_ring nat_add_left_cancel_less not_less)
    then show ?thesis by (simp add: nth_append mod_add_left_eq add.assoc)
  qed (use i in \<open>simp add: nth_append\<close>)
qed simp

lemma ring_Suc: "ring buf r (Suc n) = buf ! (r mod length buf) # ring buf ((r + 1) mod length buf) n"
  using ring_add [of buf r 1 n] by (simp add: ring_def)

lemma ring_tl: "tl (ring buf r n) = ring buf ((r + 1) mod length buf) (n - 1)"
  by (cases n) (simp_all add: ring_Suc)

lemma ring_hd: "0 < n \<Longrightarrow> r < length buf \<Longrightarrow> hd (ring buf r n) = buf ! r"
  by (cases n) (simp_all add: ring_Suc)

lemma take_ring: "m \<le> n \<Longrightarrow> take m (ring buf r n) = ring buf r m"
  by (rule nth_equalityI) auto

lemma drop_ring: "m \<le> n \<Longrightarrow> drop m (ring buf r n) = ring buf ((r + m) mod length buf) (n - m)"
  using ring_add [of buf r m "n - m"] by simp

lemma ring_straight: "r + n \<le> length buf \<Longrightarrow> ring buf r n = take n (drop r buf)"
  by (rule nth_equalityI) auto

lemma mod_add_ne:
  assumes "k < n" "n < (len :: nat)"
  shows "(r + k) mod len \<noteq> (r + n) mod len"
proof
  assume "(r + k) mod len = (r + n) mod len"
  then have "len dvd (r + n) - (r + k)" using assms by (subst mod_eq_dvd_iff_nat [symmetric]) auto
  then have "len dvd n - k" by simp
  then show False using assms by (auto dest: dvd_imp_le)
qed

lemma ring_snoc:
  assumes "n < length buf"
  shows "ring (buf[(r + n) mod length buf := x]) r (Suc n) = ring buf r n @ [x]"
proof (rule nth_equalityI)
  fix i assume "i < length (ring (buf[(r + n) mod length buf := x]) r (Suc n))"
  then have i: "i < n \<or> i = n" by auto
  have "(r + n) mod length buf < length buf" using assms by (intro mod_less_divisor) linarith
  then show "ring (buf[(r + n) mod length buf := x]) r (Suc n) ! i = (ring buf r n @ [x]) ! i"
    using i mod_add_ne [OF _ assms, of i r] by (auto simp: nth_append)
qed simp

lemma ring_blit:
  assumes "w = (r + n) mod length buf" and "w + length xs \<le> length buf"
    and "n + length xs \<le> length buf"
  shows "ring (blit buf w xs) r (n + length xs) = ring buf r n @ xs"
proof (cases "xs = []")
  case False
  then have len: "0 < length buf" using assms by (cases buf) auto
  show ?thesis
  proof (rule nth_equalityI)
    fix i assume "i < length (ring (blit buf w xs) r (n + length xs))"
    then have i: "i < n + length xs" by simp
    have m: "(r + i) mod length buf < length buf" using len by simp
    show "ring (blit buf w xs) r (n + length xs) ! i = (ring buf r n @ xs) ! i"
    proof (cases "i < n")
      case True
      have "\<not> (w \<le> (r + i) mod length buf \<and> (r + i) mod length buf < w + length xs)"
      proof
        assume a: "w \<le> (r + i) mod length buf \<and> (r + i) mod length buf < w + length xs"
        define k where "k = (r + i) mod length buf - w"
        have k: "k < length xs" "(r + i) mod length buf = w + k" using a by (auto simp: k_def)
        have "(r + (n + k)) mod length buf = (w + k) mod length buf"
          using assms(1) by (simp add: mod_add_left_eq flip: add.assoc)
        also have "\<dots> = w + k" using k assms(2) by simp
        finally have "(r + i) mod length buf = (r + (n + k)) mod length buf" using k by simp
        moreover have "i < n + k" "n + k < length buf" using True k assms(3) by auto
        ultimately show False using mod_add_ne by blast
      qed
      then show ?thesis using True i m assms by (auto simp: nth_append nth_blit)
    next
      case False
      define k where "k = i - n"
      have k: "k < length xs" "i = n + k" using False i by (auto simp: k_def)
      have "(r + i) mod length buf = (w + k) mod length buf"
        using assms(1) k by (simp add: mod_add_left_eq flip: add.assoc)
      also have "\<dots> = w + k" using k assms(2) by simp
      finally show ?thesis using k m assms by (simp add: nth_append nth_blit)
    qed
  qed simp
qed simp

text \<open>A block write that wraps: the first part ends at the end of the array.\<close>

lemma ring_blit_wrap:
  assumes "w = (r + n) mod length buf" and "w + length xs = length buf"
    and "n + length xs + length ys \<le> length buf"
  shows "ring (blit (blit buf w xs) 0 ys) r (n + length xs + length ys) = ring buf r n @ xs @ ys"
proof -
  define buf1 where "buf1 = blit buf w xs"
  have len: "length buf1 = length buf" using assms by (simp add: buf1_def)
  have "(r + (n + length xs)) mod length buf = (w + length xs) mod length buf"
    using assms(1) by (simp add: mod_add_left_eq flip: add.assoc)
  then have "0 = (r + (n + length xs)) mod length buf1" using assms(2) len by simp
  from ring_blit [OF this, of ys] have "ring (blit buf1 0 ys) r (n + length xs + length ys)
      = ring buf1 r (n + length xs) @ ys"
    using assms len by simp
  also have "ring buf1 r (n + length xs) = ring buf r n @ xs"
    unfolding buf1_def using assms by (intro ring_blit) auto
  finally show ?thesis by (simp add: buf1_def)
qed

end
