(* ===== verification/TQueue.thy ===== *)
theory TQueue
  imports Fifo_Spec Ring
begin

text \<open>
  The parameterised queue \<open>TQueue<T>\<close> of \<^verbatim>\<open>src/inc/comm/tqueue.h\<close>, which holds the requests to the
  polled devices. The indices are \<open>unsigned short\<close> (their increment wraps at 65536, written out),
  the array is the external buffer the constructor receives. The queue is an instance of the
  bounded FIFO of \<open>Fifo_Spec\<close>.
\<close>

record 'a tqueue =
  msgBufferSize :: nat
  q_begin :: nat
  q_end :: nat
  msgBuffer :: "'a list"
  isFull :: bool
  isEmpty :: bool

definition tqueue_new :: "'a list \<Rightarrow> nat \<Rightarrow> 'a tqueue" where
  "tqueue_new buffer bufSize =
     \<lparr>msgBufferSize = bufSize, q_begin = 0, q_end = 0, msgBuffer = buffer,
      isFull = False, isEmpty = True\<rparr>"

definition tqueue_clear :: "'a tqueue \<Rightarrow> 'a tqueue" where
  "tqueue_clear q = q\<lparr>q_end := q_begin q, isEmpty := True, isFull := False\<rparr>"

definition tqueue_size :: "'a tqueue \<Rightarrow> nat" where
  "tqueue_size q =
     (if isEmpty q then 0
      else if q_begin q < q_end q then q_end q - q_begin q
      else msgBufferSize q - q_begin q + q_end q)"

definition tqueue_push :: "'a \<Rightarrow> 'a tqueue \<Rightarrow> 'a tqueue res" where
  "tqueue_push msg q =
     (if isFull q then Inr q
      else rbind (store (msgBuffer q) (q_end q) msg) (\<lambda>buf.
        let e = inc16 (q_end q);
            e = (if e = msgBufferSize q then 0 else e)
        in Inr (q\<lparr>msgBuffer := buf, q_end := e,
                  isFull := (if e = q_begin q then True else isFull q), isEmpty := False\<rparr>)))"

text \<open>\<open>front\<close> returns the address of the oldest element, or the null pointer.\<close>

definition tqueue_front :: "'a tqueue \<Rightarrow> nat option" where
  "tqueue_front q = (if \<not> isEmpty q then Some (q_begin q) else None)"

definition tqueue_pop :: "'a tqueue \<Rightarrow> 'a tqueue" where
  "tqueue_pop q =
     (let q = (if \<not> isEmpty q
               then let b = inc16 (q_begin q);
                        b = (if b = msgBufferSize q then 0 else b)
                    in q\<lparr>q_begin := b, isEmpty := (if q_end q = b then True else isEmpty q)\<rparr>
               else q)
      in q\<lparr>isFull := False\<rparr>)"

section \<open>Invariant and contents\<close>

definition tqueue_inv :: "'a tqueue \<Rightarrow> bool" where
  "tqueue_inv q \<longleftrightarrow>
     length (msgBuffer q) = msgBufferSize q \<and> 0 < msgBufferSize q \<and> msgBufferSize q < 65536 \<and>
     q_begin q < msgBufferSize q \<and> q_end q < msgBufferSize q \<and>
     (q_begin q = q_end q \<longleftrightarrow> isFull q \<or> isEmpty q) \<and> \<not> (isFull q \<and> isEmpty q)"

definition tqueue_cont :: "'a tqueue \<Rightarrow> 'a list" where
  "tqueue_cont q = ring (msgBuffer q) (q_begin q) (tqueue_size q)"

text \<open>The element \<open>front\<close> points to.\<close>

definition tqueue_peek :: "'a tqueue \<Rightarrow> 'a option" where
  "tqueue_peek q = map_option (\<lambda>i. msgBuffer q ! i) (tqueue_front q)"

lemma tqueue_next:
  assumes "i < n" "n < 65536"
  shows "(if inc16 i = n then 0 else inc16 i) = (i + 1) mod n"
proof -
  have "inc16 i = i + 1" using assms by (intro inc16_small) simp
  then show ?thesis using assms by (auto simp: mod_Suc)
qed

lemma tqueue_inv_new:
  "length buffer = bufSize \<Longrightarrow> 0 < bufSize \<Longrightarrow> bufSize < 65536 \<Longrightarrow>
   tqueue_inv (tqueue_new buffer bufSize) \<and> tqueue_cont (tqueue_new buffer bufSize) = []"
  by (simp add: tqueue_inv_def tqueue_new_def tqueue_cont_def tqueue_size_def)

lemma tqueue_inv_clear:
  "tqueue_inv q \<Longrightarrow> tqueue_inv (tqueue_clear q) \<and> tqueue_cont (tqueue_clear q) = []"
  by (simp add: tqueue_inv_def tqueue_clear_def tqueue_cont_def tqueue_size_def)

lemma tqueue_size_le: "tqueue_inv q \<Longrightarrow> tqueue_size q \<le> msgBufferSize q"
  by (auto simp: tqueue_inv_def tqueue_size_def)

lemma tqueue_full_iff: "tqueue_inv q \<Longrightarrow> isFull q \<longleftrightarrow> tqueue_size q = msgBufferSize q"
  by (auto simp: tqueue_inv_def tqueue_size_def)

lemma tqueue_empty_iff: "tqueue_inv q \<Longrightarrow> isEmpty q \<longleftrightarrow> tqueue_size q = 0"
  by (auto simp: tqueue_inv_def tqueue_size_def)

lemma tqueue_end_eq:
  "tqueue_inv q \<Longrightarrow> q_end q = (q_begin q + tqueue_size q) mod msgBufferSize q"
  by (auto simp: tqueue_inv_def tqueue_size_def mod_if)

lemma tqueue_push_law:
  assumes inv: "tqueue_inv q"
  shows "\<exists>q'. tqueue_push x q = Inr q' \<and> tqueue_inv q' \<and> msgBufferSize q' = msgBufferSize q \<and>
     tqueue_cont q' = (if length (tqueue_cont q) < msgBufferSize q then tqueue_cont q @ [x]
                       else tqueue_cont q)"
proof (cases "isFull q")
  case True
  then show ?thesis
    using inv tqueue_full_iff [OF inv] by (auto simp: tqueue_push_def tqueue_cont_def)
next
  case False
  define n where "n = msgBufferSize q"
  define e where "e = (q_end q + 1) mod n"
  define q' where "q' = q\<lparr>msgBuffer := (msgBuffer q)[q_end q := x], q_end := e,
                  isFull := (if e = q_begin q then True else isFull q), isEmpty := False\<rparr>"
  have n: "0 < n" "n < 65536" "q_end q < n" "q_begin q < n" "length (msgBuffer q) = n"
    using inv by (auto simp: tqueue_inv_def n_def)
  have push: "tqueue_push x q = Inr q'"
    using False n tqueue_next [OF n(3,2)]
    by (simp add: tqueue_push_def store_def q'_def e_def Let_def n_def)
  have sz: "tqueue_size q < n"
    using False tqueue_full_iff [OF inv] tqueue_size_le [OF inv] by (auto simp: n_def)
  have inv': "tqueue_inv q'"
    using inv False n by (auto simp: tqueue_inv_def q'_def e_def n_def)
  have "tqueue_size q' = Suc (tqueue_size q)"
    using inv False n unfolding tqueue_inv_def q'_def e_def tqueue_size_def n_def by (auto simp: mod_Suc)
  then have "tqueue_cont q' = tqueue_cont q @ [x]"
    using ring_snoc [of "tqueue_size q" "msgBuffer q" "q_begin q" x] sz n tqueue_end_eq [OF inv]
    by (simp add: tqueue_cont_def q'_def n_def)
  then show ?thesis using push inv' sz by (simp add: q'_def tqueue_cont_def n_def)
qed

lemma tqueue_pop_law:
  assumes inv: "tqueue_inv q"
  shows "tqueue_inv (tqueue_pop q) \<and> msgBufferSize (tqueue_pop q) = msgBufferSize q \<and>
         tqueue_cont (tqueue_pop q) = tl (tqueue_cont q)"
proof (cases "isEmpty q")
  case True
  then show ?thesis
    using inv by (auto simp: tqueue_pop_def tqueue_inv_def tqueue_cont_def tqueue_size_def)
next
  case False
  define n where "n = msgBufferSize q"
  define b where "b = (q_begin q + 1) mod n"
  define q' where "q' = q\<lparr>q_begin := b, isEmpty := (if q_end q = b then True else isEmpty q),
      isFull := False\<rparr>"
  have n: "0 < n" "n < 65536" "q_end q < n" "q_begin q < n" "length (msgBuffer q) = n"
    using inv by (auto simp: tqueue_inv_def n_def)
  have pop: "tqueue_pop q = q'"
    using False n tqueue_next [OF n(4,2)] by (simp add: tqueue_pop_def q'_def b_def Let_def n_def)
  have inv': "tqueue_inv q'"
    using inv False n by (auto simp: tqueue_inv_def q'_def b_def n_def)
  have "tqueue_size q' = tqueue_size q - 1"
    using inv False n unfolding tqueue_inv_def q'_def b_def tqueue_size_def n_def
    by (auto simp: mod_Suc split: if_splits)
  then have "tqueue_cont q' = tl (tqueue_cont q)"
    using n by (simp add: tqueue_cont_def ring_tl q'_def b_def n_def)
  then show ?thesis using pop inv' by (simp add: q'_def)
qed

lemma tqueue_peek_law:
  assumes inv: "tqueue_inv q"
  shows "tqueue_peek q = (case tqueue_cont q of [] \<Rightarrow> None | x # _ \<Rightarrow> Some x)"
proof (cases "tqueue_size q")
  case 0
  then show ?thesis
    using tqueue_empty_iff [OF inv] by (simp add: tqueue_peek_def tqueue_front_def tqueue_cont_def)
next
  case (Suc n)
  then show ?thesis
    using tqueue_empty_iff [OF inv] inv
    by (simp add: tqueue_peek_def tqueue_front_def tqueue_cont_def ring_Suc tqueue_inv_def)
qed

lemma tqueue_cap_law: "tqueue_inv q \<Longrightarrow> length (tqueue_cont q) \<le> msgBufferSize q"
  using tqueue_size_le by (simp add: tqueue_cont_def)

interpretation tq: bounded_fifo tqueue_inv msgBufferSize tqueue_cont tqueue_push
  "\<lambda>q. Inr (tqueue_pop q)" tqueue_peek
  by unfold_locales (simp_all add: tqueue_push_law tqueue_pop_law tqueue_peek_law tqueue_cap_law)

section \<open>Properties\<close>

text \<open>
  C37: the request queue refines a bounded list queue: under its invariant, a push never leaves the
  array, appends the request or, when the queue is full, drops it; a pop removes the oldest; \<open>size\<close>,
  \<open>full\<close>, \<open>empty\<close> and \<open>front\<close> report the length, the two bounds and the head of the list.
\<close>

theorem tqueue_refines_list:
  assumes "tqueue_inv q"
  shows "(\<exists>q'. tqueue_push x q = Inr q' \<and> tqueue_inv q' \<and>
            tqueue_cont q' = take (msgBufferSize q) (tqueue_cont q @ [x])) \<and>
         tqueue_inv (tqueue_pop q) \<and> tqueue_cont (tqueue_pop q) = tl (tqueue_cont q) \<and>
         tqueue_cont (tqueue_clear q) = [] \<and> tqueue_size q = length (tqueue_cont q) \<and>
         (isFull q \<longleftrightarrow> length (tqueue_cont q) = msgBufferSize q) \<and>
         (isEmpty q \<longleftrightarrow> tqueue_cont q = []) \<and>
         map_option ((!) (msgBuffer q)) (tqueue_front q) =
           (if tqueue_cont q = [] then None else Some (hd (tqueue_cont q)))"
proof -
  have "\<exists>q'. tqueue_push x q = Inr q' \<and> tqueue_inv q' \<and>
            tqueue_cont q' = take (msgBufferSize q) (tqueue_cont q @ [x])"
    using tq.push_all [OF assms, of "[x]"] by (auto simp: res_elims)
  moreover have "map_option ((!) (msgBuffer q)) (tqueue_front q) =
           (if tqueue_cont q = [] then None else Some (hd (tqueue_cont q)))"
    using tqueue_peek_law [OF assms] by (cases "tqueue_cont q") (simp_all add: tqueue_peek_def)
  ultimately show ?thesis
    using assms tqueue_pop_law [OF assms] tqueue_inv_clear [OF assms] tqueue_full_iff [OF assms]
      tqueue_empty_iff [OF assms]
    by (simp add: tqueue_cont_def)
qed

theorem tqueue_refines_list_witness:
  "\<exists>q'. tqueue_push 5 (tqueue_new [0, 0 :: nat] 2) = Inr q' \<and> tqueue_inv q' \<and>
     tqueue_cont q' = take 2 (tqueue_cont (tqueue_new [0, 0 :: nat] 2) @ [5])"
  using tqueue_refines_list [of "tqueue_new [0, 0 :: nat] 2" 5] tqueue_inv_new [of "[0, 0 :: nat]" 2]
  by (simp add: tqueue_new_def)

end
