(* ===== verification/TBuffer.thy ===== *)
theory TBuffer
  imports Fifo_Spec Ring
begin

text \<open>
  The byte ring buffer \<open>TBuffer\<close> of \<^verbatim>\<open>src/inc/comm/tbuffer.h\<close> through which received bytes reach the
  protocol, with the block operations in their \<open>memcpy\<close> variant (\<open>TBUFFER_MEMCPY\<close> is defined). Indices
  are \<open>int16_t\<close>, sizes \<open>uint16_t\<close>; computations are in \<open>int\<close> and converted where they are stored.
  The interrupt lock of \<open>free\<close> and \<open>dataSize\<close> makes the pair of reads atomic and is not a step of the
  model. The single-byte operations are an instance of \<open>Fifo_Spec\<close>.
\<close>

record 'a tbuffer =
  buffer :: "'a list"
  tb_size :: int
  iread :: int
  iwrite :: int
  tb_full :: bool

definition incrementIRead :: "'a tbuffer \<Rightarrow> 'a tbuffer" where
  "incrementIRead b =
     (let r = to_i16 (iread b + 1); r = (if r \<ge> tb_size b then 0 else r)
      in b\<lparr>iread := r, tb_full := False\<rparr>)"

definition incrementIWrite :: "'a tbuffer \<Rightarrow> 'a tbuffer" where
  "incrementIWrite b =
     (let w = to_i16 (iwrite b + 1); w = (if w \<ge> tb_size b then 0 else w)
      in b\<lparr>iwrite := w, tb_full := (if w = iread b then True else tb_full b)\<rparr>)"

definition tbuffer_new :: "'a list \<Rightarrow> int \<Rightarrow> 'a tbuffer" where
  "tbuffer_new abuffer asize =
     \<lparr>buffer = abuffer, tb_size = to_i16 asize, iread = 0, iwrite = 0, tb_full = False\<rparr>"

text \<open>The constructor over an array that already holds \<open>len\<close> bytes.\<close>

definition tbuffer_new_filled :: "'a list \<Rightarrow> int \<Rightarrow> int \<Rightarrow> 'a tbuffer" where
  "tbuffer_new_filled abuffer asize len =
     \<lparr>buffer = abuffer, tb_size = to_i16 asize, iread = 0, iwrite = to_i16 len,
      tb_full = (if len = asize then True else False)\<rparr>"

definition tbuffer_flush :: "'a tbuffer \<Rightarrow> 'a tbuffer" where
  "tbuffer_flush b = b\<lparr>iwrite := 0, iread := 0, tb_full := False\<rparr>"

definition tbuffer_free :: "'a tbuffer \<Rightarrow> int" where
  "tbuffer_free b =
     (if tb_full b then 0
      else let r = iread b; w = iwrite b
           in if r > w then to_u16 (r - w - 1) else to_u16 (tb_size b + r - w - 1))"

definition dataSize :: "'a tbuffer \<Rightarrow> int" where
  "dataSize b =
     (if tb_full b then to_u16 (tb_size b)
      else let r = iread b; w = iwrite b
           in if r \<le> w then to_u16 (w - r) else to_u16 (tb_size b + w - r))"

definition write_wo_check :: "'a \<Rightarrow> 'a tbuffer \<Rightarrow> 'a tbuffer res" where
  "write_wo_check c b =
     rbind (store_at (buffer b) (iwrite b) c) (\<lambda>buf. Inr (incrementIWrite (b\<lparr>buffer := buf\<rparr>)))"

definition tbuffer_write :: "'a \<Rightarrow> 'a tbuffer \<Rightarrow> (int \<times> 'a tbuffer) res" where
  "tbuffer_write c b =
     (if tb_full b then Inr (0, b)
      else rbind (store_at (buffer b) (iwrite b) c) (\<lambda>buf.
             Inr (1, incrementIWrite (b\<lparr>buffer := buf\<rparr>))))"

definition tbuffer_write_block :: "'a list \<Rightarrow> int \<Rightarrow> 'a tbuffer \<Rightarrow> (int \<times> 'a tbuffer) res" where
  "tbuffer_write_block buf n b =
     (let n1 = (if tbuffer_free b > n then n else tbuffer_free b)
      in rbind
          (if iwrite b + n1 < tb_size b
           then rbind (memcpy_at (buffer b) (iwrite b) buf n1) (\<lambda>bs.
                  Inr (b\<lparr>buffer := bs, iwrite := to_i16 (iwrite b + n1)\<rparr>))
           else let d = to_u16 (tb_size b - iwrite b)
                in rbind (memcpy_at (buffer b) (iwrite b) buf d) (\<lambda>bs.
                   rbind (memcpy_at bs 0 (drop (nat d) buf) (n1 - d)) (\<lambda>bs.
                     Inr (b\<lparr>buffer := bs, iwrite := to_i16 (n1 - d)\<rparr>))))
          (\<lambda>b. Inr (n1, b\<lparr>tb_full := (if iwrite b = iread b then True else tb_full b)\<rparr>)))"

definition read_wo_check :: "'a tbuffer \<Rightarrow> ('a \<times> 'a tbuffer) res" where
  "read_wo_check b = rbind (load_at (buffer b) (iread b)) (\<lambda>c. Inr (c, incrementIRead b))"

definition tbuffer_read :: "u8 tbuffer \<Rightarrow> (u8 \<times> u8 tbuffer) res" where
  "tbuffer_read b =
     (if dataSize b \<noteq> 0
      then rbind (load_at (buffer b) (iread b)) (\<lambda>c. Inr (c, incrementIRead b))
      else Inr (0, b))"

definition tbuffer_read_block :: "'a list \<Rightarrow> int \<Rightarrow> 'a tbuffer \<Rightarrow> (int \<times> 'a list \<times> 'a tbuffer) res" where
  "tbuffer_read_block buf n b =
     (let n1 = (if dataSize b > n then n else dataSize b)
      in rbind
          (if iread b + n1 < tb_size b
           then rbind (memcpy_at buf 0 (drop (nat (iread b)) (buffer b)) n1) (\<lambda>out.
                  Inr (out, b\<lparr>iread := to_i16 (iread b + n1)\<rparr>))
           else let d = to_u16 (tb_size b - iread b)
                in rbind (memcpy_at buf 0 (drop (nat (iread b)) (buffer b)) d) (\<lambda>out.
                   rbind (memcpy_at out d (buffer b) (n1 - d)) (\<lambda>out.
                     Inr (out, b\<lparr>iread := to_i16 (n1 - d)\<rparr>))))
          (\<lambda>(out, b). Inr (n1, out, b\<lparr>tb_full := False\<rparr>)))"

text \<open>\<open>TBufferWRandomAccess::get\<close>: the element written \<open>index + 1\<close> writes ago.\<close>

definition tbuffer_get :: "int \<Rightarrow> 'a tbuffer \<Rightarrow> 'a res" where
  "tbuffer_get index b =
     (if iwrite b \<ge> index + 1 then load_at (buffer b) (iwrite b - index - 1)
      else load_at (buffer b) (tb_size b - 1 - index + iwrite b))"

section \<open>Invariant and contents\<close>

definition tbuffer_inv :: "'a tbuffer \<Rightarrow> bool" where
  "tbuffer_inv b \<longleftrightarrow>
     int (length (buffer b)) = tb_size b \<and> 0 < tb_size b \<and> tb_size b < 32768 \<and>
     0 \<le> iread b \<and> iread b < tb_size b \<and> 0 \<le> iwrite b \<and> iwrite b < tb_size b \<and>
     (tb_full b \<longrightarrow> iread b = iwrite b)"

definition tbuffer_cont :: "'a tbuffer \<Rightarrow> 'a list" where
  "tbuffer_cont b = ring (buffer b) (nat (iread b)) (nat (dataSize b))"

lemma tbuffer_inv_new:
  "0 < asize \<Longrightarrow> asize < 32768 \<Longrightarrow> int (length abuffer) = asize \<Longrightarrow>
   tbuffer_inv (tbuffer_new abuffer asize) \<and> tbuffer_cont (tbuffer_new abuffer asize) = []"
  by (simp add: tbuffer_inv_def tbuffer_new_def tbuffer_cont_def dataSize_def)

lemma tbuffer_inv_flush:
  "tbuffer_inv b \<Longrightarrow> tbuffer_inv (tbuffer_flush b) \<and> tbuffer_cont (tbuffer_flush b) = []"
  by (simp add: tbuffer_inv_def tbuffer_flush_def tbuffer_cont_def dataSize_def)

lemma dataSize_bounds: "tbuffer_inv b \<Longrightarrow> 0 \<le> dataSize b \<and> dataSize b \<le> tb_size b"
  by (auto simp: tbuffer_inv_def dataSize_def Let_def)

lemma dataSize_full: "tbuffer_inv b \<Longrightarrow> dataSize b = tb_size b \<longleftrightarrow> tb_full b"
  by (auto simp: tbuffer_inv_def dataSize_def Let_def)

text \<open>\<open>free\<close> keeps one cell in reserve unless the buffer is full.\<close>

lemma tbuffer_free_eq:
  "tbuffer_inv b \<Longrightarrow> tbuffer_free b = (if tb_full b then 0 else tb_size b - 1 - dataSize b)"
  by (auto simp: tbuffer_inv_def tbuffer_free_def dataSize_def Let_def)

lemma iwrite_eq:
  assumes "tbuffer_inv b"
  shows "nat (iwrite b) = (nat (iread b) + nat (dataSize b)) mod length (buffer b)"
proof -
  have l: "length (buffer b) = nat (tb_size b)" using assms by (auto simp: tbuffer_inv_def)
  have w: "iwrite b = (iread b + dataSize b) mod tb_size b"
  proof (cases "iread b + dataSize b < tb_size b")
    case True
    then show ?thesis using assms by (auto simp: tbuffer_inv_def dataSize_def Let_def split: if_splits)
  next
    case False
    then have "(iread b + dataSize b) mod tb_size b = iread b + dataSize b - tb_size b"
      using assms dataSize_bounds [OF assms]
      by (intro int_mod_pos_eq [where q = 1]) (auto simp: tbuffer_inv_def)
    with False show ?thesis
      using assms by (auto simp: tbuffer_inv_def dataSize_def Let_def split: if_splits)
  qed
  show ?thesis
    using assms dataSize_bounds [OF assms]
    by (simp add: w l nat_mod_distrib nat_add_distrib tbuffer_inv_def)
qed

section \<open>The single-byte operations\<close>

lemma tbuffer_write_law:
  assumes inv: "tbuffer_inv b"
  shows "\<exists>b' k. tbuffer_write c b = Inr (k, b') \<and> tbuffer_inv b' \<and> tb_size b' = tb_size b \<and>
     k = (if tb_full b then 0 else 1) \<and>
     tbuffer_cont b' = (if dataSize b < tb_size b then tbuffer_cont b @ [c] else tbuffer_cont b)"
proof (cases "tb_full b")
  case True
  then show ?thesis using inv dataSize_full [OF inv] by (simp add: tbuffer_write_def)
next
  case False
  define b' where "b' = incrementIWrite (b\<lparr>buffer := (buffer b)[nat (iwrite b) := c]\<rparr>)"
  have lt: "dataSize b < tb_size b"
    using False dataSize_full [OF inv] dataSize_bounds [OF inv] by auto
  have wr: "tbuffer_write c b = Inr (1, b')"
    using inv False by (simp add: tbuffer_write_def b'_def tbuffer_inv_def)
  have inv': "tbuffer_inv b'"
    using inv False by (auto simp: tbuffer_inv_def b'_def incrementIWrite_def Let_def)
  have ds: "dataSize b' = dataSize b + 1"
    using inv False
    by (auto simp: tbuffer_inv_def b'_def incrementIWrite_def dataSize_def Let_def split: if_splits)
  have pr: "buffer b' = (buffer b)[nat (iwrite b) := c]" "iread b' = iread b"
    by (simp_all add: b'_def incrementIWrite_def Let_def)
  have sn: "nat (dataSize b + 1) = Suc (nat (dataSize b))"
    using dataSize_bounds [OF inv] by (simp add: nat_add_distrib)
  have "tbuffer_cont b' = tbuffer_cont b @ [c]"
    using ring_snoc [of "nat (dataSize b)" "buffer b" "nat (iread b)" c] lt inv dataSize_bounds [OF inv]
      iwrite_eq [OF inv]
    by (simp add: tbuffer_cont_def ds pr tbuffer_inv_def sn nat_less_iff)
  then show ?thesis using wr inv' lt False by (simp add: b'_def incrementIWrite_def Let_def)
qed

lemma incrementIRead_law:
  assumes inv: "tbuffer_inv b" and ne: "dataSize b \<noteq> 0"
  shows "tbuffer_inv (incrementIRead b) \<and> tb_size (incrementIRead b) = tb_size b \<and>
         tbuffer_cont (incrementIRead b) = tl (tbuffer_cont b)"
proof -
  have inv': "tbuffer_inv (incrementIRead b)"
    using inv by (auto simp: tbuffer_inv_def incrementIRead_def Let_def)
  have ds: "dataSize (incrementIRead b) = dataSize b - 1"
    using inv ne by (auto simp: tbuffer_inv_def incrementIRead_def dataSize_def Let_def split: if_splits)
  have r: "nat (iread (incrementIRead b)) = (nat (iread b) + 1) mod length (buffer b)"
  proof (cases "iread b + 1 < tb_size b")
    case True
    then show ?thesis
      using inv by (auto simp: tbuffer_inv_def incrementIRead_def Let_def nat_add_distrib)
  next
    case False
    then have "length (buffer b) = nat (iread b) + 1" using inv by (auto simp: tbuffer_inv_def)
    with False show ?thesis using inv by (auto simp: tbuffer_inv_def incrementIRead_def Let_def)
  qed
  have dn: "nat (dataSize b - 1) = nat (dataSize b) - Suc 0" by linarith
  have buf: "buffer (incrementIRead b) = buffer b" by (simp add: incrementIRead_def Let_def)
  have "tbuffer_cont (incrementIRead b) = tl (tbuffer_cont b)"
    using ring_tl [of "buffer b" "nat (iread b)" "nat (dataSize b)"] r ds buf
    by (simp add: tbuffer_cont_def dn)
  then show ?thesis using inv' by (simp add: incrementIRead_def Let_def)
qed

lemma tbuffer_cont_hd:
  assumes inv: "tbuffer_inv b" and ne: "dataSize b \<noteq> 0"
  shows "tbuffer_cont b \<noteq> [] \<and> hd (tbuffer_cont b) = buffer b ! nat (iread b)"
  using assms dataSize_bounds [OF inv]
  by (auto simp: tbuffer_cont_def tbuffer_inv_def intro!: ring_hd)

lemma tbuffer_read_law:
  assumes inv: "tbuffer_inv b"
  shows "\<exists>c b'. tbuffer_read b = Inr (c, b') \<and> tbuffer_inv b' \<and> tb_size b' = tb_size b \<and>
     tbuffer_cont b' = tl (tbuffer_cont b) \<and>
     c = (case tbuffer_cont b of [] \<Rightarrow> 0 | x # _ \<Rightarrow> x)"
proof (cases "dataSize b = 0")
  case True
  then show ?thesis using inv by (simp add: tbuffer_read_def tbuffer_cont_def)
next
  case False
  have "tbuffer_read b = Inr (buffer b ! nat (iread b), incrementIRead b)"
    using False inv by (simp add: tbuffer_read_def tbuffer_inv_def)
  then show ?thesis
    using incrementIRead_law [OF inv False] tbuffer_cont_hd [OF inv False]
    by (auto simp: neq_Nil_conv)
qed

text \<open>The oldest byte, as a reader that looks at \<open>dataSize\<close> first sees it.\<close>

definition tbuffer_peek :: "u8 tbuffer \<Rightarrow> u8 option" where
  "tbuffer_peek b = (if dataSize b = 0 then None else Some (buffer b ! nat (iread b)))"

lemma tbuffer_peek_law:
  assumes inv: "tbuffer_inv b"
  shows "tbuffer_peek b = (case tbuffer_cont b of [] \<Rightarrow> None | x # _ \<Rightarrow> Some x)"
proof (cases "dataSize b = 0")
  case False
  then show ?thesis
    using tbuffer_cont_hd [OF inv False] by (auto simp: tbuffer_peek_def neq_Nil_conv)
qed (simp add: tbuffer_peek_def tbuffer_cont_def)

lemma length_tbuffer_cont: "length (tbuffer_cont b) = nat (dataSize b)"
  by (simp add: tbuffer_cont_def)

interpretation tb: bounded_fifo tbuffer_inv "\<lambda>b. nat (tb_size b)" tbuffer_cont
  "\<lambda>c b. map_sum id snd (tbuffer_write c b)" "\<lambda>b. map_sum id snd (tbuffer_read b)" tbuffer_peek
proof unfold_locales
  fix b :: "u8 tbuffer" and c
  assume inv: "tbuffer_inv b"
  show "\<exists>b'. map_sum id snd (tbuffer_write c b) = Inr b' \<and> tbuffer_inv b' \<and>
      nat (tb_size b') = nat (tb_size b) \<and>
      tbuffer_cont b' = (if length (tbuffer_cont b) < nat (tb_size b) then tbuffer_cont b @ [c]
                         else tbuffer_cont b)"
    using tbuffer_write_law [OF inv, of c] dataSize_bounds [OF inv]
    by (auto simp: length_tbuffer_cont nat_less_eq_zless)
  show "\<exists>b'. map_sum id snd (tbuffer_read b) = Inr b' \<and> tbuffer_inv b' \<and>
      nat (tb_size b') = nat (tb_size b) \<and> tbuffer_cont b' = tl (tbuffer_cont b)"
    using tbuffer_read_law [OF inv] by auto
  show "tbuffer_peek b = (case tbuffer_cont b of [] \<Rightarrow> None | x # _ \<Rightarrow> Some x)"
    by (rule tbuffer_peek_law [OF inv])
  show "length (tbuffer_cont b) \<le> nat (tb_size b)"
    using dataSize_bounds [OF inv] by (simp add: length_tbuffer_cont nat_mono)
qed

section \<open>The block operations\<close>

definition write_count :: "int \<Rightarrow> 'a tbuffer \<Rightarrow> int" where
  "write_count n b = min n (tbuffer_free b)"

lemma tbuffer_write_block_law:
  assumes inv: "tbuffer_inv b" and n: "0 \<le> n" "n \<le> int (length buf)"
    and ne: "0 < write_count n b \<or> 0 < dataSize b"
  shows "\<exists>b'. tbuffer_write_block buf n b = Inr (write_count n b, b') \<and> tbuffer_inv b' \<and>
     tb_size b' = tb_size b \<and> tbuffer_cont b' = tbuffer_cont b @ take (nat (write_count n b)) buf"
proof -
  define k where "k = write_count n b"
  define xs where "xs = take (nat k) buf"
  have free0: "0 \<le> tbuffer_free b"
    using tbuffer_free_eq [OF inv] dataSize_bounds [OF inv] dataSize_full [OF inv] by auto
  have k: "0 \<le> k" "k \<le> int (length buf)" "k \<le> tbuffer_free b" "(if tbuffer_free b > n then n else tbuffer_free b) = k"
    using n free0 by (auto simp: k_def write_count_def)
  have lxs: "length xs = nat k" using k by (simp add: xs_def)
  have room: "dataSize b + k \<le> tb_size b"
    using k tbuffer_free_eq [OF inv] dataSize_full [OF inv] by (auto split: if_splits)
  have lb: "length (buffer b) = nat (tb_size b)" using inv by (auto simp: tbuffer_inv_def)
  show ?thesis
  proof (cases "iwrite b + k < tb_size b")
    case True
    define b' where "b' = b\<lparr>buffer := blit (buffer b) (nat (iwrite b)) xs, iwrite := iwrite b + k,
       tb_full := (if iwrite b + k = iread b then True else tb_full b)\<rparr>"
    have A: "tbuffer_write_block buf n b = Inr (k, b')"
      using True inv k by (simp add: tbuffer_write_block_def memcpy_at_def b'_def tbuffer_inv_def xs_def)
    have B: "tbuffer_inv b'"
      using inv True k(1-3) lxs tbuffer_free_eq [OF inv] by (auto simp: tbuffer_inv_def b'_def)
    have ds: "dataSize b' = dataSize b + k"
      using inv True k ne tbuffer_free_eq [OF inv]
      by (auto simp: tbuffer_inv_def b'_def dataSize_def Let_def k_def [symmetric] split: if_splits)
    have pr: "buffer b' = blit (buffer b) (nat (iwrite b)) xs" "iread b' = iread b"
      by (simp_all add: b'_def)
    have C: "tbuffer_cont b' = tbuffer_cont b @ xs"
      using ring_blit [OF iwrite_eq [OF inv], of xs] True room inv k lxs dataSize_bounds [OF inv] lb
      by (simp add: tbuffer_cont_def ds pr tbuffer_inv_def nat_add_distrib)
    have "tb_size b' = tb_size b" by (simp add: b'_def)
    then show ?thesis using A B C unfolding k_def xs_def by blast
  next
    case False
    define d where "d = tb_size b - iwrite b"
    define b' where "b' = b\<lparr>buffer := blit (blit (buffer b) (nat (iwrite b)) (take (nat d) buf)) 0
          (take (nat (k - d)) (drop (nat d) buf)), iwrite := k - d,
       tb_full := (if k - d = iread b then True else tb_full b)\<rparr>"
    have d: "0 < d" "d \<le> k" "to_u16 (tb_size b - iwrite b) = d" "nat (iwrite b) + nat d = length (buffer b)"
      using inv False lb by (auto simp: tbuffer_inv_def d_def)
    have nd: "nat k = nat d + nat (k - d)" using d by simp
    have xs: "xs = take (nat d) buf @ take (nat (k - d)) (drop (nat d) buf)"
      by (simp add: xs_def nd take_add)
    have lk: "k - d < tb_size b" "int (length (buffer b)) = tb_size b"
      using room inv d dataSize_bounds [OF inv] by (auto simp: tbuffer_inv_def)
    have A: "tbuffer_write_block buf n b = Inr (k, b')"
      using False inv k d lk
      by (simp add: tbuffer_write_block_def memcpy_at_def b'_def tbuffer_inv_def Let_def)
    have B: "tbuffer_inv b'"
      using inv k(1-3) d lk tbuffer_free_eq [OF inv] by (auto simp: tbuffer_inv_def b'_def)
    have ds: "dataSize b' = dataSize b + k"
      using inv False k ne tbuffer_free_eq [OF inv] lk
      by (auto simp: tbuffer_inv_def b'_def d_def dataSize_def Let_def k_def [symmetric] split: if_splits)
    have pr: "buffer b' = blit (blit (buffer b) (nat (iwrite b)) (take (nat d) buf)) 0
          (take (nat (k - d)) (drop (nat d) buf))" "iread b' = iread b"
      by (simp_all add: b'_def)
    have lens: "length (take (nat d) buf) = nat d"
        "length (take (nat (k - d)) (drop (nat d) buf)) = nat (k - d)"
      using k d by auto
    have nk: "nat (dataSize b + k) = nat (dataSize b) + nat d + nat (k - d)"
        "nat (dataSize b) + nat d + nat (k - d) \<le> length (buffer b)"
      using k d room dataSize_bounds [OF inv] lb by auto
    have C: "tbuffer_cont b' = tbuffer_cont b @ xs"
      using ring_blit_wrap [OF iwrite_eq [OF inv], of "take (nat d) buf" "take (nat (k - d)) (drop (nat d) buf)"]
        d lens nk by (simp add: tbuffer_cont_def ds pr xs)
    have "tb_size b' = tb_size b" by (simp add: b'_def)
    then show ?thesis using A B C unfolding k_def xs_def by blast
  qed
qed

lemma tbuffer_read_block_law:
  fixes dst :: "'a list"
  assumes inv: "tbuffer_inv b" and n: "0 \<le> n"
    and k: "k = min n (dataSize b)" and dst: "k \<le> int (length dst)"
    and ne: "0 < k \<or> \<not> tb_full b"
  shows "\<exists>b'. tbuffer_read_block dst n b = Inr (k, blit dst 0 (take (nat k) (tbuffer_cont b)), b') \<and>
     tbuffer_inv b' \<and> tb_size b' = tb_size b \<and> tbuffer_cont b' = drop (nat k) (tbuffer_cont b)"
proof -
  have kb: "0 \<le> k" "k \<le> dataSize b" "k \<le> tb_size b"
      "(if dataSize b > n then n else dataSize b) = k"
    using n k dataSize_bounds [OF inv] by auto
  have lb: "length (buffer b) = nat (tb_size b)" "int (length (buffer b)) = tb_size b"
    using inv by (auto simp: tbuffer_inv_def)
  have tk: "take (nat k) (tbuffer_cont b) = ring (buffer b) (nat (iread b)) (nat k)"
    using kb by (simp add: tbuffer_cont_def take_ring nat_mono)
  show ?thesis
  proof (cases "iread b + k < tb_size b")
    case True
    define b' where "b' = b\<lparr>iread := iread b + k, tb_full := False\<rparr>"
    have st: "ring (buffer b) (nat (iread b)) (nat k) = take (nat k) (drop (nat (iread b)) (buffer b))"
      using True kb inv lb by (intro ring_straight) (simp add: tbuffer_inv_def, linarith)
    have A: "tbuffer_read_block dst n b = Inr (k, blit dst 0 (take (nat k) (tbuffer_cont b)), b')"
      using True inv kb dst lb
      by (simp add: tbuffer_read_block_def memcpy_at_def b'_def tbuffer_inv_def tk st)
    have B: "tbuffer_inv b'" using inv True kb by (auto simp: tbuffer_inv_def b'_def)
    have ds: "dataSize b' = dataSize b - k"
      using inv True kb ne by (auto simp: tbuffer_inv_def b'_def dataSize_def Let_def split: if_splits)
    have C: "tbuffer_cont b' = drop (nat k) (tbuffer_cont b)"
    proof -
      have "nat (iread b) + nat k < length (buffer b)"
        using True kb inv lb by (simp add: tbuffer_inv_def, linarith)
      then have "nat (iread b + k) = (nat (iread b) + nat k) mod length (buffer b)"
        using kb inv by (simp add: tbuffer_inv_def nat_add_distrib)
      moreover have "nat (dataSize b - k) = nat (dataSize b) - nat k"
        using kb by (simp add: nat_diff_distrib)
      moreover have "buffer b' = buffer b" "iread b' = iread b + k" by (simp_all add: b'_def)
      ultimately show ?thesis
        using kb by (simp add: tbuffer_cont_def drop_ring ds nat_mono)
    qed
    have "tb_size b' = tb_size b" by (simp add: b'_def)
    then show ?thesis using A B C by blast
  next
    case False
    define d where "d = tb_size b - iread b"
    define b' where "b' = b\<lparr>iread := k - d, tb_full := False\<rparr>"
    have d: "0 < d" "d \<le> k" "to_u16 (tb_size b - iread b) = d" "k - d < tb_size b"
        "nat (iread b) + nat d = length (buffer b)"
      using inv False lb kb by (auto simp: tbuffer_inv_def d_def)
    have nd: "nat k = nat d + nat (k - d)" using d by simp
    have z: "(nat (iread b) + nat d) mod length (buffer b) = 0" using d by simp
    have st: "ring (buffer b) (nat (iread b)) (nat k)
        = take (nat d) (drop (nat (iread b)) (buffer b)) @ take (nat (k - d)) (buffer b)"
      using ring_straight [of "nat (iread b)" "nat d" "buffer b"] ring_straight [of 0 "nat (k - d)" "buffer b"]
        d kb lb unfolding nd ring_add z by (simp add: nat_mono)
    have bl: "blit (blit dst 0 xs) (length xs) ys = blit dst 0 (xs @ ys)"
      if "length xs + length ys \<le> length dst" for xs ys :: "'a list"
      using that by (simp add: blit_def add.commute)
    have ll: "length (drop (nat (iread b)) (buffer b)) = nat d"
        "length (take (nat (k - d)) (buffer b)) = nat (k - d)"
      using d lb by auto
    have kd: "nat d + nat (k - d) \<le> length dst" using dst nd by linarith
    have e: "blit (blit dst 0 (drop (nat (iread b)) (buffer b))) (nat d) (take (nat (k - d)) (buffer b))
        = blit dst 0 (drop (nat (iread b)) (buffer b) @ take (nat (k - d)) (buffer b))"
      using bl [of "drop (nat (iread b)) (buffer b)" "take (nat (k - d)) (buffer b)"] ll kd by simp
    have A: "tbuffer_read_block dst n b = Inr (k, blit dst 0 (take (nat k) (tbuffer_cont b)), b')"
      using False inv kb dst lb d e
      by (simp add: tbuffer_read_block_def memcpy_at_def b'_def tbuffer_inv_def Let_def tk st)
    have B: "tbuffer_inv b'" using inv d by (auto simp: tbuffer_inv_def b'_def)
    have ds: "dataSize b' = dataSize b - k"
      using inv False kb ne
      by (auto simp: tbuffer_inv_def b'_def d_def dataSize_def Let_def split: if_splits)
    have C: "tbuffer_cont b' = drop (nat k) (tbuffer_cont b)"
    proof -
      have "nat (k - d) = (nat (iread b) + nat k) mod length (buffer b)"
        using d lb z unfolding nd by (simp flip: add.assoc)
      moreover have "nat (dataSize b - k) = nat (dataSize b) - nat k"
        using kb by (simp add: nat_diff_distrib)
      moreover have "buffer b' = buffer b" "iread b' = k - d" by (simp_all add: b'_def)
      ultimately show ?thesis
        using kb by (simp add: tbuffer_cont_def drop_ring ds nat_mono)
    qed
    have "tb_size b' = tb_size b" by (simp add: b'_def)
    then show ?thesis using A B C by blast
  qed
qed

section \<open>Properties\<close>

text \<open>
  Blocks go through the byte buffer unchanged: into an empty buffer of \<open>size\<close> bytes a block of
  \<open>n < size\<close> bytes is accepted whole, and reading it back yields the same bytes and the empty buffer,
  wherever the indices stand, so also when both copies wrap around the end of the array.
\<close>

lemma tbuffer_block_roundtrip:
  assumes "tbuffer_inv b" and "dataSize b = 0" and "0 < n" and "n < tb_size b"
    and "int (length xs) = n" and "length dst = length xs"
  shows "\<exists>b1 b2. tbuffer_write_block xs n b = Inr (n, b1) \<and> dataSize b1 = n \<and>
           tbuffer_read_block dst n b1 = Inr (n, xs, b2) \<and> tbuffer_inv b2 \<and> dataSize b2 = 0"
proof -
  have w: "write_count n b = n"
    using assms tbuffer_free_eq [OF assms(1)] dataSize_full [OF assms(1)] by (simp add: write_count_def)
  obtain b1 where b1: "tbuffer_write_block xs n b = Inr (n, b1)" "tbuffer_inv b1"
      "tb_size b1 = tb_size b" "tbuffer_cont b1 = tbuffer_cont b @ take (nat n) xs"
    using tbuffer_write_block_law [OF assms(1), of n xs] assms w by auto
  have c1: "tbuffer_cont b1 = xs" using b1 assms by (simp add: tbuffer_cont_def [of b] nat_eq_iff)
  then have d1: "dataSize b1 = n"
    using length_tbuffer_cont [of b1] dataSize_bounds [OF b1(2)] assms by simp
  obtain b2 where b2: "tbuffer_read_block dst n b1 = Inr (n, blit dst 0 (take (nat n) xs), b2)"
      "tbuffer_inv b2" "tbuffer_cont b2 = drop (nat n) xs"
    using tbuffer_read_block_law [OF b1(2), of n n dst] d1 c1 assms by auto
  have "dataSize b2 = 0"
    using length_tbuffer_cont [of b2] b2(3) assms dataSize_bounds [OF b2(2)] by simp
  moreover have "blit dst 0 (take (nat n) xs) = xs"
    using assms by (simp add: blit_def nat_eq_iff)
  ultimately show ?thesis using b1(1) d1 b2(1,2) by auto
qed

lemma tbuffer_block_roundtrip_example:
  "\<exists>b1 b2. tbuffer_write_block [1, 2, 3 :: u8] 3
         \<lparr>buffer = [0, 0, 0, 0], tb_size = 4, iread = 2, iwrite = 2, tb_full = False\<rparr> = Inr (3, b1) \<and>
      dataSize b1 = 3 \<and> tbuffer_read_block [0, 0, 0] 3 b1 = Inr (3, [1, 2, 3], b2) \<and>
      tbuffer_inv b2 \<and> dataSize b2 = 0"
  by (rule tbuffer_block_roundtrip) (simp_all add: tbuffer_inv_def dataSize_def)

text \<open>
  The buffer is a bounded FIFO byte by byte: whatever single-byte writes do not exceed the
  capacity are read back in order.
\<close>

lemma tbuffer_fifo:
  assumes "0 < n" and "n < 32768" and "int (length arr) = n" and "int (length xs) \<le> n"
    and "i < length xs"
  shows "\<exists>b1 b2. rfold (\<lambda>c b. map_sum id snd (tbuffer_write c b)) xs (tbuffer_new arr n) = Inr b1 \<and>
      rfold (\<lambda>_ b. map_sum id snd (tbuffer_read b)) (replicate i ()) b1 = Inr b2 \<and>
      tbuffer_peek b2 = Some (xs ! i)"
  using assms tbuffer_inv_new [of n arr]
  by (intro tb.fifo_order) (auto simp: tbuffer_new_def)

lemma tbuffer_fifo_example:
  "\<exists>b1 b2. rfold (\<lambda>c b. map_sum id snd (tbuffer_write c b)) [7, 8] (tbuffer_new [0, 0] 2) = Inr b1 \<and>
      rfold (\<lambda>_ b. map_sum id snd (tbuffer_read b)) (replicate 1 ()) b1 = Inr b2 \<and>
      tbuffer_peek b2 = Some ([7, 8] ! 1)"
  by (rule tbuffer_fifo) simp_all

lemma tbuffer_write_nothing:
  assumes "tbuffer_inv b" and "dataSize b = 0"
  shows "\<exists>b'. tbuffer_write_block buf 0 b = Inr (0, b') \<and> dataSize b' = tb_size b"
proof -
  have "iwrite b = iread b" "\<not> tb_full b"
    using assms by (auto simp: tbuffer_inv_def dataSize_def Let_def split: if_splits)
  then show ?thesis
    using assms tbuffer_free_eq [OF assms(1)]
    by (auto simp: tbuffer_write_block_def memcpy_at_def tbuffer_inv_def Let_def dataSize_def)
qed

lemma tbuffer_read_nothing:
  assumes "tbuffer_inv b" and "tb_full b"
  shows "\<exists>b'. tbuffer_read_block dst 0 b = Inr (0, dst, b') \<and> dataSize b' = 0"
  using assms dataSize_full [OF assms(1)]
  by (auto simp: tbuffer_read_block_def memcpy_at_def tbuffer_inv_def Let_def dataSize_def)

text \<open>
  A block transfer of zero bytes destroys the state at the two ends of the range: writing
  nothing into an empty buffer marks it full, so that \<open>size\<close> stale bytes become readable, and reading
  nothing from a full buffer empties it.
\<close>

lemma tbuffer_zero_block:
  assumes "tbuffer_inv b"
  shows "(dataSize b = 0 \<longrightarrow>
           (\<exists>b'. tbuffer_write_block buf 0 b = Inr (0, b') \<and> dataSize b' = tb_size b)) \<and>
         (tb_full b \<longrightarrow>
           (\<exists>b'. tbuffer_read_block dst 0 b = Inr (0, dst, b') \<and> dataSize b' = 0))"
  using assms tbuffer_write_nothing tbuffer_read_nothing by blast

lemma tbuffer_zero_block_witness:
  "(\<exists>b'. tbuffer_write_block [] 0 (tbuffer_new [5, 6 :: u8] 2) = Inr (0, b') \<and>
      dataSize b' = tb_size (tbuffer_new [5, 6 :: u8] 2)) \<and>
   (\<exists>b'. tbuffer_read_block [] 0 \<lparr>buffer = [5, 6 :: u8], tb_size = 2, iread = 0, iwrite = 0, tb_full = True\<rparr>
      = Inr (0, [], b') \<and> dataSize b' = 0)"
  using tbuffer_zero_block [of "tbuffer_new [5, 6 :: u8] 2" "[]"]
    tbuffer_zero_block [of "\<lparr>buffer = [5, 6 :: u8], tb_size = 2, iread = 0, iwrite = 0, tb_full = True\<rparr>" _ "[]"]
  by (simp add: tbuffer_inv_def tbuffer_new_def dataSize_def)

text \<open>
  The constructor for an array that is already full leaves the write index one past the end:
  after one byte has been read, the next write is outside the array.
\<close>

lemma tbuffer_new_filled_overruns:
  assumes "0 < n" and "n < 32768" and "int (length arr) = n"
  shows "\<exists>c b. tbuffer_read (tbuffer_new_filled arr n n) = Inr (c, b) \<and>
               tbuffer_write x b = Inl OutOfBounds"
  using assms
  by (auto simp: tbuffer_new_filled_def tbuffer_read_def dataSize_def incrementIRead_def Let_def
      tbuffer_write_def)

lemma tbuffer_new_filled_overruns_witness:
  "\<exists>c b. tbuffer_read (tbuffer_new_filled [1, 2] 2 2) = Inr (c, b) \<and>
               tbuffer_write 9 b = Inl OutOfBounds"
  by (rule tbuffer_new_filled_overruns) simp_all

end
