(* ===== verification/DataIO_Layer2.thy ===== *)
theory DataIO_Layer2
  imports Crc16
begin

text \<open>
  Layer 2 of the DataIO protocol (data link and network): the class \<open>DataIOLayer2\<close> of
  \<^verbatim>\<open>src/inc/dataio/dataio3.h\<close>. A packet is the byte array \<open>LR2_PACKET\<close>: preamble (bytes 0-1),
  destination (2), source (3), data size (4-5), header CRC (6-7), data CRC (8-9), data (10..253),
  the 16-bit fields little-endian. The receiver is a state machine fed byte by byte; every store into
  the packet is checked against the array's 254 bytes. The state type has the seven values of the
  enumeration, so the \<open>default\<close> branch of the switch (result -99) has no counterpart.
\<close>

section \<open>Constants and state\<close>

definition MaxLayer2DataSize :: nat where "MaxLayer2DataSize = 244"

definition Layer2Preamble :: u16 where "Layer2Preamble = 0x55AA"

definition Layer2PreambleB0 :: u8 where "Layer2PreambleB0 = 0xAA"

definition Layer2PreambleB1 :: u8 where "Layer2PreambleB1 = 0x55"

definition Layer2PreambleCRC16 :: u16 where "Layer2PreambleCRC16 = 0xB75A"

definition DataIOLtPreambleB1 :: u8 where "DataIOLtPreambleB1 = 0x99"

text \<open>\<open>sizeof(LR2_HEADER)\<close> and \<open>sizeof(LR2_PACKET)\<close>.\<close>

definition LR2_HEADER_size :: nat where "LR2_HEADER_size = 8"

definition LR2_PACKET_size :: nat where "LR2_PACKET_size = LR2_HEADER_size + MaxLayer2DataSize + 2"

abbreviation h_destAddress :: "u8 list \<Rightarrow> u8" where "h_destAddress p \<equiv> p ! 2"
abbreviation h_srcAddress :: "u8 list \<Rightarrow> u8" where "h_srcAddress p \<equiv> p ! 3"
abbreviation h_dataSize :: "u8 list \<Rightarrow> u16" where "h_dataSize p \<equiv> get16 p 4"
abbreviation h_crc16 :: "u8 list \<Rightarrow> u16" where "h_crc16 p \<equiv> get16 p 6"
abbreviation p_crc16 :: "u8 list \<Rightarrow> u16" where "p_crc16 p \<equiv> get16 p 8"

text \<open>Indices of the error counters (\<open>TErrors\<close> of \<^verbatim>\<open>dataio_types.h\<close>).\<close>

datatype TErrors = errorRxDataCRC | errorRxHeaderCRC | errorRxTimeout | errorLossRxPacket
  | errorTxFrame | errorUnknownMsgId

fun TErrors_code :: "TErrors \<Rightarrow> nat" where
  "TErrors_code errorRxDataCRC = 0"
| "TErrors_code errorRxHeaderCRC = 1"
| "TErrors_code errorRxTimeout = 2"
| "TErrors_code errorLossRxPacket = 3"
| "TErrors_code errorTxFrame = 4"
| "TErrors_code errorUnknownMsgId = 5"

datatype TRxState = stWait | stPreamble2 | stRxHeader | stCRC0 | stCRC1 | stRxData | stPacketReady

record layer2 =
  l2_errors :: "u16 list"
  l2_packet :: "u8 list"
  l2_state :: TRxState
  l2_rxCrc16 :: u16
  l2_index :: nat
  l2_selfAddress :: u8
  l2_broadcastAddress :: u8
  l2_enableDataIOLt :: bool

section \<open>Configuration\<close>

definition l2_configure :: "u16 \<Rightarrow> u16 \<Rightarrow> layer2 \<Rightarrow> layer2" where
  "l2_configure aselfAddress abroadcastAddress l =
     l\<lparr>l2_selfAddress := ucast aselfAddress, l2_broadcastAddress := ucast abroadcastAddress\<rparr>"

definition l2_startRx :: "layer2 \<Rightarrow> layer2" where
  "l2_startRx l = l\<lparr>l2_index := 0, l2_state := stWait\<rparr>"

definition l2_getErrors :: "TErrors \<Rightarrow> layer2 \<Rightarrow> u16" where
  "l2_getErrors i l = (if TErrors_code i \<le> 4 then l2_errors l ! TErrors_code i else 0)"

definition l2_clearErrors :: "layer2 \<Rightarrow> layer2" where
  "l2_clearErrors l = l\<lparr>l2_errors := replicate 5 0\<rparr>"

definition l2_enableLt :: "bool \<Rightarrow> layer2 \<Rightarrow> layer2" where
  "l2_enableLt v l = l\<lparr>l2_enableDataIOLt := v\<rparr>"

definition l2_setPreambleRecieved :: "layer2 \<Rightarrow> layer2" where
  "l2_setPreambleRecieved l =
     l\<lparr>l2_index := 2, l2_rxCrc16 := Layer2PreambleCRC16, l2_state := stRxHeader\<rparr>"

text \<open>The constructor; the fields it leaves uninitialised are arguments.\<close>

definition l2_new :: "u8 list \<Rightarrow> u16 \<Rightarrow> u8 \<Rightarrow> u8 \<Rightarrow> layer2" where
  "l2_new raw crc self bcast =
     l2_clearErrors (l2_startRx \<lparr>l2_errors = replicate 5 0, l2_packet = raw, l2_state = stWait,
        l2_rxCrc16 = crc, l2_index = 0, l2_selfAddress = self, l2_broadcastAddress = bcast,
        l2_enableDataIOLt = False\<rparr>)"

section \<open>Transmission\<close>

text \<open>
  \<open>finishTxPacket\<close> fills in preamble, addresses and both checksums of a packet whose data and data
  size are already in place.
\<close>

definition l2_finishTxPacket :: "u8 \<Rightarrow> u8 list \<Rightarrow> layer2 \<Rightarrow> u8 list res" where
  "l2_finishTxPacket destAddress p2 l =
     (if length p2 < 10 then Inl OutOfBounds
      else
        let p = put16 p2 0 Layer2Preamble;
            p = p[3 := l2_selfAddress l];
            p = p[2 := destAddress]
        in rbind (calcBlockCRC16i p (LR2_HEADER_size - 2) 0xffff) (\<lambda>hc.
           let p = put16 p 6 hc
           in rbind (calcBlockCRC16i (drop 10 p) (unat (h_dataSize p)) 0xffff) (\<lambda>dc.
                Inr (put16 p 8 dc))))"

section \<open>Reception\<close>

definition l2_getRxDataSize :: "layer2 \<Rightarrow> nat" where
  "l2_getRxDataSize l = (if l2_state l = stPacketReady then l2_index l else 0)"

text \<open>
  \<open>getRxDataPtr\<close> yields the size, and when a packet is ready the offset of the data block in the
  packet with the two addresses.
\<close>

definition l2_getRxDataPtr :: "layer2 \<Rightarrow> u16 \<times> (nat \<times> u8 \<times> u8) option" where
  "l2_getRxDataPtr l =
     (if l2_state l \<noteq> stPacketReady then (0, None)
      else (h_dataSize (l2_packet l),
            Some (10, h_destAddress (l2_packet l), h_srcAddress (l2_packet l))))"

definition l2_countError :: "TErrors \<Rightarrow> layer2 \<Rightarrow> layer2" where
  "l2_countError e l =
     l\<lparr>l2_errors := (l2_errors l)[TErrors_code e := l2_errors l ! TErrors_code e + 1]\<rparr>"

text \<open>
  \<open>rxHandler\<close>: 0 waiting for a packet, 1 receiving, 2 packet received, 3 DataIOLt preamble, negative
  on errors (-1 data CRC, -2 header format, -3 not our address, -4 header CRC).
\<close>

definition l2_rxHeaderDone :: "layer2 \<Rightarrow> int \<times> layer2" where
  "l2_rxHeaderDone l =
     (if unat (h_dataSize (l2_packet l)) > MaxLayer2DataSize then (-2, l2_startRx l)
      else if l2_rxCrc16 l = h_crc16 (l2_packet l) then
        (if h_destAddress (l2_packet l) = l2_selfAddress l
            \<or> h_destAddress (l2_packet l) = l2_broadcastAddress l
         then (1, l\<lparr>l2_state := stCRC0\<rparr>)
         else (-3, l2_startRx l))
      else (-4, l2_startRx (l2_countError errorRxHeaderCRC l)))"

definition l2_rxHandler :: "u8 \<Rightarrow> layer2 \<Rightarrow> (int \<times> layer2) res" where
  "l2_rxHandler b l =
     (case l2_state l of
        stPacketReady \<Rightarrow> Inr (2, l)
      | stRxData \<Rightarrow>
          rbind (store (l2_packet l) (l2_index l) b) (\<lambda>p.
            let l = l\<lparr>l2_packet := p, l2_index := inc16 (l2_index l),
                      l2_rxCrc16 := UPDATE_CRC16 b (l2_rxCrc16 l)\<rparr>
            in Inr (if l2_index l = unat (h_dataSize p) + LR2_HEADER_size + 2 then
                      (if p_crc16 p = l2_rxCrc16 l then (2, l\<lparr>l2_state := stPacketReady\<rparr>)
                       else (-1, l2_startRx (l2_countError errorRxDataCRC l)))
                    else (1, l)))
      | stWait \<Rightarrow>
          if b = Layer2PreambleB0
          then rbind (store (l2_packet l) 0 b) (\<lambda>p.
                 Inr (0, l\<lparr>l2_packet := p, l2_state := stPreamble2\<rparr>))
          else Inr (0, l)
      | stPreamble2 \<Rightarrow>
          if b = Layer2PreambleB1
          then rbind (store (l2_packet l) 1 b) (\<lambda>p.
                 Inr (1, l\<lparr>l2_packet := p, l2_index := 2, l2_rxCrc16 := Layer2PreambleCRC16,
                           l2_state := stRxHeader\<rparr>))
          else Inr (if l2_enableDataIOLt l \<and> b = DataIOLtPreambleB1 then 3 else 1, l2_startRx l)
      | stRxHeader \<Rightarrow>
          rbind (store (l2_packet l) (l2_index l) b) (\<lambda>p.
            let l = l\<lparr>l2_packet := p,
                      l2_rxCrc16 := (if l2_index l < LR2_HEADER_size - 2
                                     then UPDATE_CRC16 b (l2_rxCrc16 l) else l2_rxCrc16 l),
                      l2_index := inc16 (l2_index l)\<rparr>
            in Inr (if l2_index l = LR2_HEADER_size then l2_rxHeaderDone l else (1, l)))
      | stCRC0 \<Rightarrow>
          rbind (store (l2_packet l) (l2_index l) b) (\<lambda>p.
            Inr (1, l\<lparr>l2_packet := p, l2_index := inc16 (l2_index l), l2_state := stCRC1\<rparr>))
      | stCRC1 \<Rightarrow>
          rbind (store (l2_packet l) (l2_index l) b) (\<lambda>p.
            Inr (1, l\<lparr>l2_packet := p, l2_index := inc16 (l2_index l), l2_state := stRxData,
                      l2_rxCrc16 := 0xFFFF\<rparr>)))"

text \<open>A run of the handler over received bytes, with the result code of the last one.\<close>

definition l2_rxBytes :: "u8 list \<Rightarrow> int \<times> layer2 \<Rightarrow> (int \<times> layer2) res" where
  "l2_rxBytes = rfold (\<lambda>b s. l2_rxHandler b (snd s))"

section \<open>The receiver's invariant\<close>

lemma take_drop_snoc:
  "i = off + k \<Longrightarrow> i < length p \<Longrightarrow> take (Suc k) (drop off (p[i := b])) = take k (drop off p) @ [b]"
  by (rule nth_equalityI) (auto simp: nth_append nth_list_update less_Suc_eq)

definition hdr_crc :: "u8 list \<Rightarrow> nat \<Rightarrow> u16" where
  "hdr_crc p n = crc_block ([0xAA, 0x55] @ take n (drop 2 p)) 0xffff"

definition data_crc :: "u8 list \<Rightarrow> nat \<Rightarrow> u16" where
  "data_crc p n = crc_block (take n (drop 10 p)) 0xffff"

definition hdr_ok :: "layer2 \<Rightarrow> bool" where
  "hdr_ok l \<longleftrightarrow>
     unat (h_dataSize (l2_packet l)) \<le> MaxLayer2DataSize \<and>
     h_crc16 (l2_packet l) = hdr_crc (l2_packet l) 4 \<and>
     (h_destAddress (l2_packet l) = l2_selfAddress l \<or>
      h_destAddress (l2_packet l) = l2_broadcastAddress l)"

definition l2_sizes :: "layer2 \<Rightarrow> bool" where
  "l2_sizes l \<longleftrightarrow> length (l2_packet l) = LR2_PACKET_size \<and> length (l2_errors l) = 5"

definition rx_inv :: "layer2 \<Rightarrow> bool" where
  "rx_inv l \<longleftrightarrow>
     (case l2_state l of
        stWait \<Rightarrow> True
      | stPreamble2 \<Rightarrow> True
      | stRxHeader \<Rightarrow> 2 \<le> l2_index l \<and> l2_index l < 8 \<and>
          l2_rxCrc16 l = hdr_crc (l2_packet l) (min (l2_index l) 6 - 2)
      | stCRC0 \<Rightarrow> l2_index l = 8 \<and> hdr_ok l \<and> h_dataSize (l2_packet l) \<noteq> 0
      | stCRC1 \<Rightarrow> l2_index l = 9 \<and> hdr_ok l \<and> h_dataSize (l2_packet l) \<noteq> 0
      | stRxData \<Rightarrow> 10 \<le> l2_index l \<and> l2_index l < unat (h_dataSize (l2_packet l)) + 10 \<and> hdr_ok l \<and>
          l2_rxCrc16 l = data_crc (l2_packet l) (l2_index l - 10)
      | stPacketReady \<Rightarrow> hdr_ok l \<and> h_dataSize (l2_packet l) \<noteq> 0 \<and>
          l2_index l = unat (h_dataSize (l2_packet l)) + 10 \<and>
          p_crc16 (l2_packet l) = data_crc (l2_packet l) (unat (h_dataSize (l2_packet l))))"

definition l2_inv :: "layer2 \<Rightarrow> bool" where
  "l2_inv l \<longleftrightarrow> l2_sizes l \<and> rx_inv l"

text \<open>A header that announces no data has been accepted.\<close>

definition zero_header :: "layer2 \<Rightarrow> bool" where
  "zero_header l \<longleftrightarrow> l2_sizes l \<and> l2_state l = stCRC0 \<and> l2_index l = 8 \<and> hdr_ok l \<and>
     h_dataSize (l2_packet l) = 0"

lemmas l2_consts = MaxLayer2DataSize_def LR2_HEADER_size_def LR2_PACKET_size_def
  Layer2PreambleB0_def Layer2PreambleB1_def

lemma preamble_crc: "Layer2PreambleCRC16 = hdr_crc p 0"
  by (simp add: Layer2PreambleCRC16_def hdr_crc_def crc_x8_split Crc16Table_def)

lemma hdr_crc_snoc:
  "i = 2 + n \<Longrightarrow> i < length p \<Longrightarrow> hdr_crc (p[i := b]) (Suc n) = UPDATE_CRC16 b (hdr_crc p n)"
  by (simp add: hdr_crc_def take_drop_snoc UPDATE_CRC16_ref)

lemma data_crc_snoc:
  "i = 10 + n \<Longrightarrow> i < length p \<Longrightarrow> data_crc (p[i := b]) (Suc n) = UPDATE_CRC16 b (data_crc p n)"
  by (simp add: data_crc_def take_drop_snoc UPDATE_CRC16_ref)

lemma data_crc_0 [simp]: "data_crc p 0 = 0xffff"
  by (simp add: data_crc_def)

lemma hdr_crc_frame [simp]: "6 \<le> i \<Longrightarrow> n \<le> 4 \<Longrightarrow> hdr_crc (p[i := b]) n = hdr_crc p n"
  by (simp add: hdr_crc_def drop_update_swap take_update_cancel)

lemma hdr_crc_frame0 [simp]: "hdr_crc (p[0 := b]) n = hdr_crc p n" "hdr_crc (p[Suc 0 := b]) n = hdr_crc p n"
  by (simp_all add: hdr_crc_def)

lemma startRx_inv [simp]: "rx_inv (l2_startRx l)"
  by (simp add: rx_inv_def l2_startRx_def)

lemma startRx_sizes [simp]: "l2_sizes (l2_startRx l) = l2_sizes l"
  by (simp add: l2_sizes_def l2_startRx_def)

lemma countError_sizes [simp]: "l2_sizes (l2_countError e l) = l2_sizes l"
  by (simp add: l2_sizes_def l2_countError_def)

lemma setPreambleRecieved_inv: "l2_sizes l \<Longrightarrow> l2_inv (l2_setPreambleRecieved l)"
  by (simp add: l2_inv_def l2_sizes_def rx_inv_def l2_setPreambleRecieved_def preamble_crc [of "l2_packet l"])

lemma rx_preamble_step:
  assumes "l2_inv l" and "l2_state l = stWait \<or> l2_state l = stPreamble2"
  shows "\<exists>rc l'. l2_rxHandler b l = Inr (rc, l') \<and> l2_inv l'"
  using assms preamble_crc
  by (auto simp: l2_inv_def l2_sizes_def rx_inv_def l2_rxHandler_def store_def l2_consts l2_startRx_def)

lemma rxHeaderDone_ok:
  assumes "l2_sizes l" and "l2_index l = 8" and "l2_rxCrc16 l = hdr_crc (l2_packet l) 4"
  shows "case l2_rxHeaderDone l of (rc, l') \<Rightarrow> l2_inv l' \<or> zero_header l'"
proof -
  have "l2_inv (l\<lparr>l2_state := stCRC0\<rparr>) \<or> zero_header (l\<lparr>l2_state := stCRC0\<rparr>)" if "hdr_ok l"
    using that assms by (auto simp: l2_inv_def rx_inv_def zero_header_def hdr_ok_def l2_sizes_def)
  moreover have "l2_inv (l2_startRx l)" "l2_inv (l2_startRx (l2_countError e l))" for e
    using assms by (simp_all add: l2_inv_def)
  ultimately show ?thesis
    using assms(3) by (auto simp: l2_rxHeaderDone_def hdr_ok_def not_less)
qed

lemma rx_header_step:
  assumes "l2_inv l" and "l2_state l = stRxHeader"
  shows "\<exists>rc l'. l2_rxHandler b l = Inr (rc, l') \<and> (l2_inv l' \<or> zero_header l')"
proof -
  define i where "i = l2_index l"
  define p where "p = (l2_packet l)[i := b]"
  define c where "c = (if i < 6 then UPDATE_CRC16 b (l2_rxCrc16 l) else l2_rxCrc16 l)"
  define l1 where "l1 = l\<lparr>l2_packet := p, l2_rxCrc16 := c, l2_index := i + 1\<rparr>"
  have i: "2 \<le> i" "i < 8" "length (l2_packet l) = 254"
      "l2_rxCrc16 l = hdr_crc (l2_packet l) (min i 6 - 2)" and sz: "l2_sizes l1"
    using assms by (auto simp: l2_inv_def rx_inv_def l2_sizes_def l2_consts i_def l1_def p_def)
  have step: "l2_rxHandler b l = Inr (if i + 1 = 8 then l2_rxHeaderDone l1 else (1, l1))"
    using assms(2) i
    by (simp add: l2_rxHandler_def store_def l2_consts Let_def l1_def p_def c_def flip: i_def)
  have c: "c = hdr_crc p (min (i + 1) 6 - 2)"
  proof (cases "i < 6")
    case True
    then have "hdr_crc p (Suc (i - 2)) = UPDATE_CRC16 b (hdr_crc (l2_packet l) (i - 2))"
      using i unfolding p_def by (intro hdr_crc_snoc) auto
    moreover have "Suc (i - 2) = min (i + 1) 6 - 2" using True i by simp
    ultimately show ?thesis using True i by (simp add: c_def)
  next
    case False
    then show ?thesis using i by (simp add: c_def p_def)
  qed
  show ?thesis
  proof (cases "i + 1 = 8")
    case False
    then have "l2_inv l1"
      using i c sz assms(2) by (simp add: l2_inv_def rx_inv_def l1_def)
    then show ?thesis using step False by simp
  next
    case True
    then have c4: "c = hdr_crc p 4" using c by simp
    then have "case l2_rxHeaderDone l1 of (rc, l') \<Rightarrow> l2_inv l' \<or> zero_header l'"
      using sz True by (intro rxHeaderDone_ok) (simp_all add: l1_def)
    then show ?thesis using step True by (cases "l2_rxHeaderDone l1") simp
  qed
qed

lemma hdr_ok_frame:
  assumes "8 \<le> i" and "hdr_ok l"
  shows "hdr_ok (l\<lparr>l2_packet := (l2_packet l)[i := b]\<rparr>)"
  using assms by (simp add: hdr_ok_def)

lemma hdr_ok_cong:
  "l2_packet l' = l2_packet l \<Longrightarrow> l2_selfAddress l' = l2_selfAddress l \<Longrightarrow>
   l2_broadcastAddress l' = l2_broadcastAddress l \<Longrightarrow> hdr_ok l' = hdr_ok l"
  by (simp add: hdr_ok_def)

lemma rx_crc_step:
  assumes "l2_inv l" and "l2_state l = stCRC0 \<or> l2_state l = stCRC1"
  shows "\<exists>rc l'. l2_rxHandler b l = Inr (rc, l') \<and> l2_inv l'"
proof -
  have "0 < unat (h_dataSize (l2_packet l))"
    using assms by (auto simp: l2_inv_def rx_inv_def unat_gt_0)
  then show ?thesis
    using assms
    by (auto simp: l2_inv_def l2_sizes_def rx_inv_def l2_rxHandler_def store_def l2_consts hdr_ok_def)
qed

lemma rx_data_step:
  assumes "l2_inv l" and "l2_state l = stRxData"
  shows "\<exists>rc l'. l2_rxHandler b l = Inr (rc, l') \<and> l2_inv l'"
proof -
  define i where "i = l2_index l"
  define p where "p = (l2_packet l)[i := b]"
  define n where "n = unat (h_dataSize (l2_packet l))"
  define l1 where "l1 = l\<lparr>l2_packet := p, l2_index := i + 1,
      l2_rxCrc16 := UPDATE_CRC16 b (l2_rxCrc16 l)\<rparr>"
  have i: "10 \<le> i" "i < n + 10" "n \<le> 244" "length (l2_packet l) = 254" "hdr_ok l"
      "l2_rxCrc16 l = data_crc (l2_packet l) (i - 10)" and sz: "l2_sizes l1"
    using assms by (auto simp: l2_inv_def rx_inv_def hdr_ok_def l2_sizes_def l2_consts i_def l1_def p_def n_def)
  have ds: "h_dataSize p = h_dataSize (l2_packet l)" using i by (simp add: p_def)
  have ok: "hdr_ok l1" using i by (simp add: l1_def p_def hdr_ok_def)
  have c: "UPDATE_CRC16 b (l2_rxCrc16 l) = data_crc p (i - 9)"
    using data_crc_snoc [of i "i - 10" "l2_packet l" b] i Suc_diff_le [OF i(1), symmetric]
    by (simp add: p_def)
  have step: "l2_rxHandler b l = Inr (if i + 1 = n + 10 then
       (if p_crc16 p = l2_rxCrc16 l1 then (2, l1\<lparr>l2_state := stPacketReady\<rparr>)
        else (-1, l2_startRx (l2_countError errorRxDataCRC l1))) else (1, l1))"
    using assms(2) i ds
    by (simp add: l2_rxHandler_def store_def l2_consts Let_def l1_def p_def n_def flip: i_def)
  show ?thesis
  proof (cases "i + 1 = n + 10")
    case False
    then have "l2_inv l1"
      using i sz ok c ds assms(2) by (simp add: l2_inv_def rx_inv_def l1_def n_def)
    then show ?thesis using step False by simp
  next
    case True
    then have "i - 9 = n" "n \<noteq> 0" using i by auto
    then have "p_crc16 p = l2_rxCrc16 l1 \<Longrightarrow> l2_inv (l1\<lparr>l2_state := stPacketReady\<rparr>)"
      using i sz ok c ds True
      by (auto simp: l2_inv_def rx_inv_def l1_def n_def l2_sizes_def hdr_ok_def)
    moreover have "l2_inv (l2_startRx (l2_countError errorRxDataCRC l1))"
      using sz by (simp add: l2_inv_def)
    ultimately show ?thesis using step True by auto
  qed
qed

lemma rx_step:
  assumes "l2_inv l"
  shows "\<exists>rc l'. l2_rxHandler b l = Inr (rc, l') \<and> (l2_inv l' \<or> zero_header l')"
proof (cases "l2_state l")
  case stPacketReady
  then show ?thesis using assms by (simp add: l2_rxHandler_def)
qed (use assms rx_preamble_step rx_header_step rx_crc_step rx_data_step in \<open>blast\<close>)+

section \<open>The zero-length header\<close>

lemma zero_data_step:
  assumes "l2_sizes l" and "l2_state l = stRxData" and "h_dataSize (l2_packet l) = 0"
    and "10 \<le> l2_index l"
  shows "l2_rxHandler b l =
    (if l2_index l < 254
     then Inr (1, l\<lparr>l2_packet := (l2_packet l)[l2_index l := b], l2_index := l2_index l + 1,
                    l2_rxCrc16 := UPDATE_CRC16 b (l2_rxCrc16 l)\<rparr>)
     else Inl OutOfBounds)"
  using assms by (simp add: l2_rxHandler_def store_def l2_sizes_def l2_consts Let_def)

lemma zero_data_run:
  assumes "l2_sizes l" and "l2_state l = stRxData" and "h_dataSize (l2_packet l) = 0"
    and "10 \<le> l2_index l" and "254 \<le> l2_index l + length bs - 1" and "l2_index l \<le> 254" and "bs \<noteq> []"
  shows "l2_rxBytes bs (rc, l) = Inl OutOfBounds"
  using assms
proof (induction bs arbitrary: rc l)
  case (Cons b bs)
  show ?case
  proof (cases "l2_index l < 254")
    case False
    then show ?thesis using zero_data_step [of l b] Cons.prems by (simp add: l2_rxBytes_def)
  next
    case True
    define l1 where "l1 = l\<lparr>l2_packet := (l2_packet l)[l2_index l := b], l2_index := l2_index l + 1,
                    l2_rxCrc16 := UPDATE_CRC16 b (l2_rxCrc16 l)\<rparr>"
    have "l2_rxBytes bs (1, l1) = Inl OutOfBounds"
      using Cons.prems True by (intro Cons.IH) (auto simp: l1_def l2_sizes_def)
    then show ?thesis
      using True zero_data_step [of l b] Cons.prems by (simp add: l2_rxBytes_def l1_def)
  qed
qed simp

lemma zero_header_overruns:
  assumes "zero_header l" and "247 \<le> length bs"
  shows "l2_rxBytes bs (rc, l) = Inl OutOfBounds"
proof -
  obtain b0 b1 cs where bs: "bs = b0 # b1 # cs" "245 \<le> length cs"
    using assms(2) by (cases bs; cases "tl bs") auto
  define l2 where "l2 = l\<lparr>l2_packet := (l2_packet l)[8 := b0, 9 := b1], l2_index := 10,
      l2_state := stRxData, l2_rxCrc16 := 0xFFFF\<rparr>"
  have "l2_rxBytes bs (rc, l) = l2_rxBytes cs (1, l2)"
    using assms(1)
    by (simp add: bs l2_rxBytes_def zero_header_def l2_rxHandler_def store_def l2_sizes_def l2_consts l2_def)
  also have "\<dots> = Inl OutOfBounds"
    using assms(1) bs by (intro zero_data_run) (auto simp: l2_def zero_header_def l2_sizes_def)
  finally show ?thesis .
qed

section \<open>From the transmitter to the receiver\<close>

text \<open>The bytes on the wire of a packet with the given addresses and data.\<close>

definition frame_hdr :: "u8 \<Rightarrow> u8 \<Rightarrow> nat \<Rightarrow> u8 list" where
  "frame_hdr d s n = [0xAA, 0x55, d, s] @ bytes16 (of_nat n)"

definition frame :: "u8 \<Rightarrow> u8 \<Rightarrow> u8 list \<Rightarrow> u8 list" where
  "frame d s ds = frame_hdr d s (length ds) @ bytes16 (crc_block (frame_hdr d s (length ds)) 0xffff)
      @ bytes16 (crc_block ds 0xffff) @ ds"

lemma length_frame_hdr [len_simps, simp]: "length (frame_hdr d s n) = 6"
  by (simp add: frame_hdr_def)

lemma length_frame [len_simps, simp]: "length (frame d s ds) = 10 + length ds"
  by (simp add: frame_def)

lemma bytes16_get16: "Suc i < length p \<Longrightarrow> bytes16 (get16 p i) = [p ! i, p ! Suc i]"
  by (simp add: bytes16_def get16_def)

lemma take_10_list: "10 \<le> length p \<Longrightarrow>
   take 10 p = [p ! 0, p ! 1, p ! 2, p ! 3, p ! 4, p ! 5, p ! 6, p ! 7, p ! 8, p ! 9]"
  by (rule nth_equalityI) (auto simp: nth_Cons numeral_eq_Suc less_Suc_eq split: nat.splits)

lemma take_6_list: "6 \<le> length p \<Longrightarrow> take 6 p = [p ! 0, p ! 1, p ! 2, p ! 3, p ! 4, p ! 5]"
  by (rule nth_equalityI) (auto simp: nth_Cons numeral_eq_Suc less_Suc_eq split: nat.splits)

lemma l2_finishTxPacket_frame:
  assumes "length p2 \<ge> 10 + length ds" and "h_dataSize p2 = of_nat (length ds)"
    and "length ds < 65536" and "take (length ds) (drop 10 p2) = ds"
  shows "\<exists>p. l2_finishTxPacket d p2 l = Inr p \<and> length p = length p2 \<and>
     take (10 + length ds) p = frame d (l2_selfAddress l) ds \<and> drop 10 p = drop 10 p2 \<and>
     h_dataSize p = h_dataSize p2"
proof -
  define n where "n = length ds"
  define p1 where "p1 = (put16 p2 0 Layer2Preamble)[3 := l2_selfAddress l, 2 := d]"
  define hc where "hc = crc_block (frame_hdr d (l2_selfAddress l) n) 0xffff"
  define p3 where "p3 = put16 (put16 p1 6 hc) 8 (crc_block ds 0xffff)"
  have len: "length p1 = length p2" "10 + n \<le> length p2" using assms by (simp_all add: p1_def n_def)
  have ne: "p2 \<noteq> []" using len by auto
  have ds4: "p2 ! 4 = lo8 (of_nat n)" "p2 ! 5 = hi8 (of_nat n)"
    using assms(2) by (auto simp: get16_def n_def dest: arg_cong [where f = lo8] arg_cong [where f = hi8])
  have pre: "lo8 Layer2Preamble = 0xAA" "hi8 Layer2Preamble = 0x55"
    by (simp_all add: Layer2Preamble_def lo8_def hi8_def)
  have "take 6 p1 = frame_hdr d (l2_selfAddress l) n"
    using len ds4 ne by (simp add: take_6_list p1_def put16_def frame_hdr_def pre bytes16_def)
  then have h: "calcBlockCRC16i p1 6 0xffff = Inr hc"
    using len by (simp add: calcBlockCRC16i_ref hc_def)
  have dr: "drop 10 (put16 p1 6 hc) = drop 10 p2" by (simp add: p1_def)
  have sz: "h_dataSize (put16 p1 6 hc) = of_nat n"
    using assms(2) by (simp add: p1_def n_def)
  have "calcBlockCRC16i (drop 10 p2) n 0xffff = Inr (crc_block ds 0xffff)"
    using assms(1,4) by (simp add: calcBlockCRC16i_ref n_def)
  then have fin: "l2_finishTxPacket d p2 l = Inr p3"
    using h dr sz len assms(2,3)
    by (simp add: l2_finishTxPacket_def LR2_HEADER_size_def Let_def p3_def n_def flip: p1_def)
  have "take 10 p3 = frame_hdr d (l2_selfAddress l) n @ bytes16 hc @ bytes16 (crc_block ds 0xffff)"
    using len ds4 ne by (simp add: take_10_list p3_def p1_def put16_def frame_hdr_def pre bytes16_def)
  moreover have dr3: "drop 10 p3 = drop 10 p2" by (simp add: p3_def p1_def)
  ultimately have "take (10 + n) p3 = frame d (l2_selfAddress l) ds"
    using assms(4) by (simp add: take_add frame_def hc_def n_def)
  then show ?thesis
    using fin dr3 len sz assms(2) by (simp add: p3_def n_def p1_def)
qed

lemma rx_data_run:
  assumes "l2_sizes l" and "l2_state l = stRxData" and "l2_index l = 10 + m"
    and "unat (h_dataSize (l2_packet l)) = m + length bs" and "m + length bs \<le> 244" and "bs \<noteq> []"
    and "p_crc16 (l2_packet l) = crc_block bs (l2_rxCrc16 l)"
  shows "\<exists>l'. l2_rxBytes bs (rc, l) = Inr (2, l') \<and> l2_state l' = stPacketReady \<and>
           l2_packet l' = blit (l2_packet l) (10 + m) bs"
  using assms
proof (induction bs arbitrary: rc l m)
  case (Cons b bs)
  define p where "p = (l2_packet l)[10 + m := b]"
  define l1 where "l1 = l\<lparr>l2_packet := p, l2_index := 11 + m,
      l2_rxCrc16 := UPDATE_CRC16 b (l2_rxCrc16 l)\<rparr>"
  have len: "length (l2_packet l) = 254" using Cons.prems by (simp add: l2_sizes_def l2_consts)
  have pb: "p = blit (l2_packet l) (10 + m) [b]"
    using len Cons.prems(5) by (simp add: p_def blit_def upd_conv_take_nth_drop)
  show ?case
  proof (cases "bs = []")
    case True
    then have "l2_rxHandler b l = Inr (2, l1\<lparr>l2_state := stPacketReady\<rparr>)"
      using Cons.prems len
      by (simp add: l2_rxHandler_def store_def l2_consts l1_def p_def Let_def UPDATE_CRC16_ref)
    then show ?thesis using True pb by (simp add: l2_rxBytes_def l1_def)
  next
    case False
    then have st: "l2_rxHandler b l = Inr (1, l1)"
      using Cons.prems len by (simp add: l2_rxHandler_def store_def l2_consts l1_def p_def Let_def)
    have "\<exists>l'. l2_rxBytes bs (1, l1) = Inr (2, l') \<and> l2_state l' = stPacketReady \<and>
           l2_packet l' = blit (l2_packet l1) (10 + Suc m) bs"
      using Cons.prems False
      by (intro Cons.IH) (simp_all add: l1_def p_def l2_sizes_def UPDATE_CRC16_ref)
    moreover have "blit p (10 + Suc m) bs = blit (l2_packet l) (10 + m) (b # bs)"
      using len Cons.prems(5) by (simp add: pb blit_def add.commute add.left_commute)
    ultimately show ?thesis using st by (simp add: l2_rxBytes_def l1_def)
  qed
qed simp

lemma rx_frame_header:
  assumes "l2_sizes l" and "l2_state l = stWait" and "n \<le> 244"
    and "d = l2_selfAddress l \<or> d = l2_broadcastAddress l"
  shows "l2_rxBytes (frame_hdr d s n @ bytes16 (crc_block (frame_hdr d s n) 0xffff) @ [c0, c1]) (rc, l)
     = Inr (1, l\<lparr>l2_packet := (l2_packet l)[0 := 0xAA, 1 := 0x55, 2 := d, 3 := s, 4 := lo8 (of_nat n),
                   5 := hi8 (of_nat n), 6 := lo8 (crc_block (frame_hdr d s n) 0xffff),
                   7 := hi8 (crc_block (frame_hdr d s n) 0xffff), 8 := c0, 9 := c1],
                l2_index := 10, l2_state := stRxData, l2_rxCrc16 := 0xffff\<rparr>)"
proof -
  have len: "length (l2_packet l) = 254" using assms by (simp add: l2_sizes_def l2_consts)
  have crc: "UPDATE_CRC16 (hi8 (of_nat n)) (UPDATE_CRC16 (lo8 (of_nat n)) (UPDATE_CRC16 s (UPDATE_CRC16 d
      Layer2PreambleCRC16))) = crc_block (frame_hdr d s n) 0xffff"
    by (simp add: frame_hdr_def bytes16_def UPDATE_CRC16_ref preamble_crc [of "[]"] hdr_crc_def)
  define hc where "hc = crc_block (frame_hdr d s n) 0xffff"
  show ?thesis
    using assms len crc unfolding hc_def [symmetric] frame_hdr_def
    by (simp add: l2_rxBytes_def bytes16_def l2_rxHandler_def store_def l2_consts Let_def
        l2_rxHeaderDone_def get16_def)
qed

lemma rx_frame:
  assumes "l2_sizes l" and "l2_state l = stWait" and "ds \<noteq> []" and "length ds \<le> 244"
    and "d = l2_selfAddress l \<or> d = l2_broadcastAddress l"
  shows "\<exists>l'. l2_rxBytes (frame d s ds) (rc, l) = Inr (2, l') \<and> l2_state l' = stPacketReady \<and>
     take (length ds) (drop 10 (l2_packet l')) = ds \<and> h_dataSize (l2_packet l') = of_nat (length ds) \<and>
     h_destAddress (l2_packet l') = d \<and> h_srcAddress (l2_packet l') = s"
proof -
  define c where "c = crc_block ds 0xffff"
  define hd0 where "hd0 = frame_hdr d s (length ds) @ bytes16 (crc_block (frame_hdr d s (length ds)) 0xffff)
      @ [lo8 c, hi8 c]"
  define p where "p = (l2_packet l)[0 := 0xAA, 1 := 0x55, 2 := d, 3 := s, 4 := lo8 (of_nat (length ds)),
                   5 := hi8 (of_nat (length ds)), 6 := lo8 (crc_block (frame_hdr d s (length ds)) 0xffff),
                   7 := hi8 (crc_block (frame_hdr d s (length ds)) 0xffff), 8 := lo8 c, 9 := hi8 c]"
  define l1 where "l1 = l\<lparr>l2_packet := p, l2_index := 10, l2_state := stRxData, l2_rxCrc16 := 0xffff\<rparr>"
  have len: "length p = 254" using assms(1) by (simp add: p_def l2_sizes_def l2_consts)
  have sz: "h_dataSize p = of_nat (length ds)" and pc: "p_crc16 p = c"
    and a: "p ! 2 = d" "p ! 3 = s"
    using assms(1) by (simp_all add: p_def get16_def l2_sizes_def l2_consts)
  have h: "l2_rxBytes hd0 (rc, l) = Inr (1, l1)"
    unfolding hd0_def l1_def p_def using assms by (intro rx_frame_header)
  obtain l' where l': "l2_rxBytes ds (1, l1) = Inr (2, l')" "l2_state l' = stPacketReady"
      "l2_packet l' = blit p 10 ds"
    using rx_data_run [of l1 0 ds 1] assms sz pc len
    by (auto simp: l1_def l2_sizes_def c_def LR2_PACKET_size_def LR2_HEADER_size_def MaxLayer2DataSize_def)
  have fr: "frame d s ds = hd0 @ ds" by (simp add: frame_def hd0_def c_def bytes16_def)
  have "l2_rxBytes (frame d s ds) (rc, l) = Inr (2, l')"
    using h l'(1) by (simp add: fr l2_rxBytes_def rfold_append)
  moreover have "get16 (blit p 10 ds) 4 = get16 p 4" "blit p 10 ds ! 2 = p ! 2" "blit p 10 ds ! 3 = p ! 3"
    using len assms(4) by (simp_all add: get16_def nth_blit)
  ultimately show ?thesis using l' sz a len by simp
qed

lemma l2_inv_new: "length raw = LR2_PACKET_size \<Longrightarrow> l2_inv (l2_new raw crc self bcast)"
  by (simp add: l2_new_def l2_clearErrors_def l2_startRx_def l2_inv_def l2_sizes_def rx_inv_def)

section \<open>Properties\<close>

text \<open>
  C4: a packet finished by the transmitter of one node is received by every node it is addressed to:
  fed byte by byte into a receiver that waits for a packet and whose own or broadcast address is the
  destination, the last byte returns 2, and the receiver holds the same data, size and addresses.
\<close>

theorem layer2_roundtrip:
  assumes "10 + length ds \<le> length p2" and "h_dataSize p2 = of_nat (length ds)"
    and "take (length ds) (drop 10 p2) = ds" and "ds \<noteq> []" and "length ds \<le> MaxLayer2DataSize"
    and "length (l2_packet r) = LR2_PACKET_size" and "length (l2_errors r) = 5"
    and "l2_state r = stWait" and "d = l2_selfAddress r \<or> d = l2_broadcastAddress r"
  shows "\<exists>p r'. l2_finishTxPacket d p2 t = Inr p \<and>
     l2_rxBytes (take (10 + length ds) p) (0, r) = Inr (2, r') \<and>
     l2_getRxDataPtr r' = (of_nat (length ds), Some (10, d, l2_selfAddress t)) \<and>
     take (length ds) (drop 10 (l2_packet r')) = ds"
proof -
  have n: "length ds \<le> 244" "length ds < 65536" using assms(5) by (simp_all add: MaxLayer2DataSize_def)
  obtain p where p: "l2_finishTxPacket d p2 t = Inr p"
      "take (10 + length ds) p = frame d (l2_selfAddress t) ds"
    using l2_finishTxPacket_frame [OF assms(1,2) n(2) assms(3), of d t] by blast
  moreover have "l2_sizes r" using assms by (simp add: l2_sizes_def)
  from rx_frame [OF this assms(8,4) n(1) assms(9), of "l2_selfAddress t" 0]
  obtain r' where "l2_rxBytes (frame d (l2_selfAddress t) ds) (0, r) = Inr (2, r')"
      "l2_state r' = stPacketReady" "take (length ds) (drop 10 (l2_packet r')) = ds"
      "h_dataSize (l2_packet r') = of_nat (length ds)" "h_destAddress (l2_packet r') = d"
      "h_srcAddress (l2_packet r') = l2_selfAddress t" by blast
  ultimately show ?thesis by (auto simp: l2_getRxDataPtr_def)
qed

theorem layer2_roundtrip_witness:
  "\<exists>p r'. l2_finishTxPacket 5 ([0, 0, 0, 0, 3, 0, 0, 0, 0, 0] @ [7, 8, 9]) (l2_new [] 0 1 0xff) = Inr p \<and>
     l2_rxBytes (take (10 + length [7, 8, 9 :: u8]) p) (0, l2_new (replicate 254 0) 0 5 0xff) = Inr (2, r') \<and>
     l2_getRxDataPtr r' = (of_nat (length [7, 8, 9 :: u8]), Some (10, 5, l2_selfAddress (l2_new [] 0 1 0xff))) \<and>
     take (length [7, 8, 9 :: u8]) (drop 10 (l2_packet r')) = [7, 8, 9]"
  by (rule layer2_roundtrip)
    (simp_all add: l2_new_def l2_clearErrors_def l2_startRx_def LR2_PACKET_size_def LR2_HEADER_size_def
      MaxLayer2DataSize_def get16_def mk16_def)

text \<open>
  C3: whatever bytes arrive, the receiver stays inside its packet array and hands over only intact
  packets, as long as no header that announces zero data bytes is accepted: from a state that
  satisfies the invariant each byte gives a result, and afterwards the invariant holds again (in
  particular a packet that is ready has a correct header CRC, a correct data CRC, our own or the
  broadcast address and between 1 and 244 data bytes), or such a header has just been accepted.
\<close>

theorem layer2_receiver_safe:
  assumes "l2_inv l"
  shows "\<exists>rc l'. l2_rxHandler b l = Inr (rc, l') \<and>
     (l2_inv l' \<or> l2_state l' = stCRC0 \<and> h_dataSize (l2_packet l') = 0) \<and>
     (l2_inv l' \<and> l2_state l' = stPacketReady \<longrightarrow>
        h_crc16 (l2_packet l') = crc_block ([0xAA, 0x55] @ take 4 (drop 2 (l2_packet l'))) 0xffff \<and>
        p_crc16 (l2_packet l') =
          crc_block (take (unat (h_dataSize (l2_packet l'))) (drop 10 (l2_packet l'))) 0xffff \<and>
        h_destAddress (l2_packet l') \<in> {l2_selfAddress l', l2_broadcastAddress l'} \<and>
        h_dataSize (l2_packet l') \<noteq> 0 \<and> unat (h_dataSize (l2_packet l')) \<le> MaxLayer2DataSize)"
  using rx_step [OF assms, of b]
  by (auto simp: zero_header_def l2_inv_def rx_inv_def hdr_ok_def hdr_crc_def data_crc_def)

theorem layer2_receiver_safe_witness:
  "\<exists>rc l'. l2_rxHandler 0xAA (l2_new (replicate 254 0) 0 1 0xff) = Inr (rc, l') \<and>
     (l2_inv l' \<or> l2_state l' = stCRC0 \<and> h_dataSize (l2_packet l') = 0)"
proof -
  have "l2_inv (l2_new (replicate 254 0) 0 1 0xff)"
    by (rule l2_inv_new) (simp add: LR2_PACKET_size_def LR2_HEADER_size_def MaxLayer2DataSize_def)
  from layer2_receiver_safe [OF this] show ?thesis by blast
qed

text \<open>
  C35: a header with a valid CRC that announces zero data bytes makes the receiver write outside the
  packet array: the test for the last data byte is an equality that has already been passed when the
  first data byte is stored, so every following byte is stored and the 245th is out of bounds.
\<close>

theorem layer2_zero_length_overrun:
  assumes "length (l2_packet r) = LR2_PACKET_size" and "length (l2_errors r) = 5"
    and "l2_state r = stWait" and "d = l2_selfAddress r \<or> d = l2_broadcastAddress r"
    and "245 \<le> length junk"
  shows "l2_rxBytes (frame d s [] @ junk) (0, r) = Inl OutOfBounds"
proof -
  define c where "c = crc_block ([] :: u8 list) 0xffff"
  have sz: "l2_sizes r" using assms by (simp add: l2_sizes_def)
  define l1 where "l1 = r\<lparr>l2_packet := (l2_packet r)[0 := 0xAA, 1 := 0x55, 2 := d, 3 := s,
        4 := lo8 (of_nat 0), 5 := hi8 (of_nat 0), 6 := lo8 (crc_block (frame_hdr d s 0) 0xffff),
        7 := hi8 (crc_block (frame_hdr d s 0) 0xffff), 8 := lo8 c, 9 := hi8 c],
      l2_index := 10, l2_state := stRxData, l2_rxCrc16 := 0xffff\<rparr>"
  have fr: "frame d s [] = frame_hdr d s 0 @ bytes16 (crc_block (frame_hdr d s 0) 0xffff) @ [lo8 c, hi8 c]"
    by (simp add: frame_def bytes16_def c_def)
  have "l2_rxBytes (frame d s []) (0, r) = Inr (1, l1)"
    unfolding fr l1_def using sz assms(3,4) by (intro rx_frame_header) simp_all
  then have "l2_rxBytes (frame d s [] @ junk) (0, r) = l2_rxBytes junk (1, l1)"
    by (simp add: l2_rxBytes_def rfold_append)
  also have "\<dots> = Inl OutOfBounds"
    using assms by (intro zero_data_run)
      (auto simp: l1_def l2_sizes_def get16_def lo8_def hi8_def mk16_def l2_consts)
  finally show ?thesis .
qed

theorem layer2_zero_length_overrun_witness:
  "l2_rxBytes (frame 1 9 [] @ replicate 245 0) (0, l2_new (replicate 254 0) 0 1 0xff) = Inl OutOfBounds"
  by (rule layer2_zero_length_overrun)
    (simp_all add: l2_new_def l2_clearErrors_def l2_startRx_def LR2_PACKET_size_def LR2_HEADER_size_def
      MaxLayer2DataSize_def)

text \<open>
  The constant \<open>Layer2PreambleCRC16\<close>, with which reception of a header starts, is the CRC of the
  two preamble bytes.
\<close>

lemma preamble_crc_constant:
  "calcBlockCRC16i [Layer2PreambleB0, Layer2PreambleB1] 2 0xffff = Inr Layer2PreambleCRC16"
  by (simp add: calcBlockCRC16i_ref preamble_crc [of "[]"] hdr_crc_def Layer2PreambleB0_def
      Layer2PreambleB1_def)

end
