(* ===== verification/DataIO_Layer3.thy ===== *)
theory DataIO_Layer3
  imports DataIO_Layer2
begin

text \<open>
  Layer 3 of the DataIO protocol (presentation): the class \<open>DataIOLayer3\<close> of
  \<^verbatim>\<open>src/inc/dataio/dataio3.h\<close>. The transmit side packs messages into the data block of a packet, the
  receive side walks through the messages of a block. A message is its bytes in memory; the message
  structures of \<^verbatim>\<open>dataio_types.h\<close> are packed little-endian records. The pointer \<open>rxDataPtr\<close> is the list
  of the bytes from there to the end of the array it points into, \<open>txPacket\<close> is the array itself.
\<close>

section \<open>Messages\<close>

definition MsgParameterWrite :: u8 where "MsgParameterWrite = 0x10"
definition MsgParameterRead :: u8 where "MsgParameterRead = 0x11"
definition MsgParameterValue :: u8 where "MsgParameterValue = 0x12"
definition MsgReadBlock :: u8 where "MsgReadBlock = 0x13"
definition MsgReadBlock2 :: u8 where "MsgReadBlock2 = 0x14"
definition MsgAppType :: u8 where "MsgAppType = 0x80"

lemmas msg_ids = MsgParameterWrite_def MsgParameterRead_def MsgParameterValue_def MsgReadBlock_def
  MsgReadBlock2_def MsgAppType_def

text \<open>The message structures, with the values of their fields.\<close>

definition TMsgParameterWrite :: "u8 \<Rightarrow> u16 \<Rightarrow> u32 \<Rightarrow> u8 list" where
  "TMsgParameterWrite sn pn v = [MsgParameterWrite, sn] @ bytes16 pn @ bytes32 v"

definition TMsgParameterRead :: "u8 \<Rightarrow> u16 \<Rightarrow> u8 list" where
  "TMsgParameterRead sn pn = [MsgParameterRead, sn] @ bytes16 pn"

definition TMsgReadBlock :: "u8 \<Rightarrow> u16 \<Rightarrow> u8 \<Rightarrow> u8 \<Rightarrow> u8 list" where
  "TMsgReadBlock sn base sz reserved = [MsgReadBlock, sn] @ bytes16 base @ [sz, reserved]"

definition TMsgParameterValue :: "u8 \<Rightarrow> u16 \<Rightarrow> u32 \<Rightarrow> u16 \<Rightarrow> u16 \<Rightarrow> u8 list" where
  "TMsgParameterValue sn pn v result reserved =
     [MsgParameterValue, sn] @ bytes16 pn @ bytes32 v @ bytes16 result @ bytes16 reserved"

definition TMsgAppTypeHeader :: "u8 \<Rightarrow> u16 \<Rightarrow> u16 \<Rightarrow> u8 list" where
  "TMsgAppTypeHeader sn type dataSize = [MsgAppType, sn] @ bytes16 type @ bytes16 dataSize"

text \<open>The sizes of the messages of fixed size, the common part of the two \<open>switch\<close> statements.\<close>

definition fixedSize :: "u8 \<Rightarrow> u16 option" where
  "fixedSize i =
     (if i = MsgParameterWrite then Some 8
      else if i = MsgParameterRead then Some 4
      else if i = MsgParameterValue then Some 12
      else if i = MsgReadBlock then Some 6
      else None)"

section \<open>State and operations\<close>

record layer3 =
  l3_txPacket :: "u8 list"
  l3_txIndex :: u16
  l3_rxData :: "u8 list"
  l3_rxIndex :: u16
  l3_rxSize :: u16
  l3_maxTxAppSize :: u16

definition l3_setTxAppSize :: "u16 \<Rightarrow> layer3 \<Rightarrow> layer3" where
  "l3_setTxAppSize sz l = l\<lparr>l3_maxTxAppSize := sz\<rparr>"

definition getTxBufferFree :: "layer3 \<Rightarrow> u16" where
  "getTxBufferFree l = l3_maxTxAppSize l - l3_txIndex l"

definition getTxDataSize :: "layer3 \<Rightarrow> u16" where
  "getTxDataSize l = l3_txIndex l"

definition l3_startTxPacket :: "u8 list \<Rightarrow> layer3 \<Rightarrow> layer3" where
  "l3_startTxPacket buffer l = l\<lparr>l3_txIndex := 0, l3_txPacket := buffer\<rparr>"

text \<open>
  \<open>addMessage\<close>: 0 when the message was added, -1 when there is no room, -2 for an unknown type. The
  data block of a packet starts at byte 10.
\<close>

definition l3_put :: "u8 list \<Rightarrow> u16 \<Rightarrow> layer3 \<Rightarrow> layer3 res" where
  "l3_put bytes n l =
     rbind (memcpy (l3_txPacket l) (10 + unat (l3_txIndex l)) bytes (unat n)) (\<lambda>p.
       Inr (l\<lparr>l3_txPacket := p, l3_txIndex := l3_txIndex l + n\<rparr>))"

definition l3_addMessage :: "u8 list \<Rightarrow> u8 list \<Rightarrow> layer3 \<Rightarrow> (int \<times> layer3) res" where
  "l3_addMessage msg data l =
     rbind (load msg 0) (\<lambda>i.
       if i = MsgAppType then
         rbind (load16 msg 4) (\<lambda>dataSize.
           if 6 + dataSize > getTxBufferFree l then Inr (-1, l)
           else rbind (l3_put msg 6 l) (\<lambda>l.
             if dataSize \<noteq> 0 then rbind (l3_put data dataSize l) (\<lambda>l. Inr (0, l))
             else Inr (0, l)))
       else case fixedSize i of
         None \<Rightarrow> Inr (-2, l)
       | Some sz \<Rightarrow>
           if sz > getTxBufferFree l then Inr (-1, l)
           else rbind (l3_put msg sz l) (\<lambda>l. Inr (0, l)))"

text \<open>\<open>finishTxPacket\<close> returns the size of the whole packet, 0 when no message was added.\<close>

definition l3_finishTxPacket :: "u8 \<Rightarrow> layer2 \<Rightarrow> layer3 \<Rightarrow> (u16 \<times> layer3) res" where
  "l3_finishTxPacket destAddress lr2 l =
     (if l3_txIndex l \<noteq> 0 then
        (if length (l3_txPacket l) < 6 then Inl OutOfBounds
         else rbind (l2_finishTxPacket destAddress (put16 (l3_txPacket l) 4 (l3_txIndex l)) lr2) (\<lambda>p.
           Inr (10 + h_dataSize p, l\<lparr>l3_txPacket := p, l3_txIndex := 0\<rparr>)))
      else Inr (0, l))"

text \<open>
  \<open>readPacket\<close> takes the data block of the packet in layer 2 (the pointer is left alone when no packet
  is ready) and returns its size with the destination and source addresses.
\<close>

definition l3_readPacket :: "layer2 \<Rightarrow> layer3 \<Rightarrow> (u16 \<times> (u8 \<times> u8) option) \<times> layer3" where
  "l3_readPacket lr2 l =
     (case l2_getRxDataPtr lr2 of
        (n, None) \<Rightarrow> ((n, None), l\<lparr>l3_rxIndex := 0, l3_rxSize := n\<rparr>)
      | (n, Some (off, dest, src)) \<Rightarrow>
          ((n, Some (dest, src)),
           l\<lparr>l3_rxIndex := 0, l3_rxSize := n, l3_rxData := drop off (l2_packet lr2)\<rparr>))"

definition l3_rxDataSize :: "layer3 \<Rightarrow> u16" where
  "l3_rxDataSize l = (if l3_rxSize l > l3_rxIndex l then l3_rxSize l - l3_rxIndex l else 0)"

text \<open>
  \<open>getMessagePtr\<close>: 0 with the bytes from the message on, -1 when there is nothing left, -2 for an
  unknown identifier, -3 when the message's size exceeds the rest of the block.
\<close>

definition l3_getMessagePtr :: "layer3 \<Rightarrow> (int \<times> (u8 \<times> u8 list) option \<times> layer3) res" where
  "l3_getMessagePtr l =
     (let ds = l3_rxDataSize l; i = unat (l3_rxIndex l)
      in if ds = 0 then Inr (-1, None, l)
         else rbind (load (l3_rxData l) i) (\<lambda>msgId.
           rbind (if msgId = MsgAppType
                  then rbind (load16 (l3_rxData l) (i + 4)) (\<lambda>dataSize. Inr (Some (6 + dataSize)))
                  else Inr (fixedSize msgId)) (\<lambda>so.
             case so of
               None \<Rightarrow> Inr (-2, None, l)
             | Some sz \<Rightarrow>
                 if sz > ds then Inr (-3, None, l)
                 else Inr (0, Some (msgId, drop i (l3_rxData l)),
                           l\<lparr>l3_rxIndex := l3_rxIndex l + sz\<rparr>))))"

definition l3_setRxAppData :: "u8 list \<Rightarrow> u16 \<Rightarrow> layer3 \<Rightarrow> layer3" where
  "l3_setRxAppData buffer n l = l\<lparr>l3_rxData := buffer, l3_rxIndex := 0, l3_rxSize := n\<rparr>"

section \<open>Transmit side\<close>

text \<open>A message handed to \<open>addMessage\<close>: the structure and, for an application message, its data.\<close>

definition msg_ok :: "u8 list \<Rightarrow> u8 list \<Rightarrow> bool" where
  "msg_ok m d \<longleftrightarrow> m \<noteq> [] \<and>
     (if m ! 0 = MsgAppType
      then length m = 6 \<and> unat (get16 m 4) = length d \<and> length d < 65530
      else (case fixedSize (m ! 0) of None \<Rightarrow> False | Some sz \<Rightarrow> length m = unat sz \<and> d = []))"

definition l3_tx_inv :: "layer3 \<Rightarrow> bool" where
  "l3_tx_inv l \<longleftrightarrow> l3_txIndex l \<le> l3_maxTxAppSize l \<and> 10 + unat (l3_maxTxAppSize l) \<le> length (l3_txPacket l)"

definition l3_txData :: "layer3 \<Rightarrow> u8 list" where
  "l3_txData l = take (unat (l3_txIndex l)) (drop 10 (l3_txPacket l))"

lemma length_l3_txData [simp]: "l3_tx_inv l \<Longrightarrow> length (l3_txData l) = unat (l3_txIndex l)"
  by (auto simp: l3_tx_inv_def l3_txData_def word_le_nat_alt)

lemma unat_getTxBufferFree:
  "l3_tx_inv l \<Longrightarrow> unat (getTxBufferFree l) = unat (l3_maxTxAppSize l) - unat (l3_txIndex l)"
  by (simp add: getTxBufferFree_def l3_tx_inv_def unat_sub)

lemma unat_add_u16: "unat (a :: u16) + unat b < 65536 \<Longrightarrow> unat (a + b) = unat a + unat b"
  by (simp add: unat_word_ariths)

lemma blit_extend:
  "off + k \<le> length p \<Longrightarrow> off + k + length bs \<le> length p \<Longrightarrow>
   take (k + length bs) (drop off (blit p (off + k) bs)) = take k (drop off p) @ bs"
  by (simp add: blit_def drop_take)

lemma l3_put_ok:
  assumes "l3_tx_inv l" and "unat n \<le> length bs"
    and "unat (l3_txIndex l) + unat n \<le> unat (l3_maxTxAppSize l)"
  shows "\<exists>l'. l3_put bs n l = Inr l' \<and> l3_tx_inv l' \<and> l3_txData l' = l3_txData l @ take (unat n) bs \<and>
     l' = l\<lparr>l3_txPacket := l3_txPacket l', l3_txIndex := l3_txIndex l + n\<rparr> \<and>
     length (l3_txPacket l') = length (l3_txPacket l)"
proof -
  have "unat (l3_maxTxAppSize l) < 65536" by simp
  then have s: "unat (l3_txIndex l + n) = unat (l3_txIndex l) + unat n"
    using assms(3) by (intro unat_add_u16) linarith
  show ?thesis
    using assms s blit_extend [of 10 "unat (l3_txIndex l)" "l3_txPacket l" "take (unat n) bs"]
    by (simp add: l3_put_def l3_tx_inv_def l3_txData_def word_le_nat_alt min_absorb2)
qed

lemma fixedSize_bound: "fixedSize i = Some sz \<Longrightarrow> 4 \<le> unat sz \<and> unat sz \<le> 12"
  by (auto simp: fixedSize_def split: if_splits)

lemma fixedSize_AppType [simp]: "fixedSize MsgAppType = None"
  by (simp add: fixedSize_def msg_ids)

lemma l3_addMessage_ok:
  assumes "l3_tx_inv l" and "msg_ok m d"
    and "unat (l3_txIndex l) + length m + length d \<le> unat (l3_maxTxAppSize l)"
  shows "\<exists>l'. l3_addMessage m d l = Inr (0, l') \<and> l3_tx_inv l' \<and> l3_txData l' = l3_txData l @ m @ d \<and>
     l' = l\<lparr>l3_txPacket := l3_txPacket l', l3_txIndex := l3_txIndex l'\<rparr> \<and>
     length (l3_txPacket l') = length (l3_txPacket l)"
proof (cases "m ! 0 = MsgAppType")
  case True
  with assms(2) have m: "length m = 6" "unat (get16 m 4) = length d" "length d < 65530" "m \<noteq> []"
    by (auto simp: msg_ok_def)
  have u: "unat (6 + get16 m 4) = 6 + length d" using m by (subst unat_add_u16) simp_all
  have fit: "\<not> getTxBufferFree l < 6 + get16 m 4"
    using assms m u by (simp add: word_less_nat_alt unat_getTxBufferFree)
  obtain l1 where l1: "l3_put m 6 l = Inr l1" "l3_tx_inv l1" "l3_txData l1 = l3_txData l @ take (unat (6::u16)) m"
      "l1 = l\<lparr>l3_txPacket := l3_txPacket l1, l3_txIndex := l3_txIndex l + 6\<rparr>"
      "length (l3_txPacket l1) = length (l3_txPacket l)"
    using l3_put_ok [of l 6 m] assms m by auto
  have len: "length (l3_txData l1) = unat (l3_txIndex l) + 6" using l1(3) assms(1) m by simp
  then have i1: "unat (l3_txIndex l1) = unat (l3_txIndex l) + 6" using l1(2) by simp
  have m1: "l3_maxTxAppSize l1 = l3_maxTxAppSize l" by (subst l1(4)) simp
  show ?thesis
  proof (cases "d = []")
    case True
    then have "get16 m 4 = 0" using m by (simp add: unat_eq_0)
    with m fit True \<open>m ! 0 = MsgAppType\<close> l1 show ?thesis
      by (auto simp: l3_addMessage_def load_def) (metis layer3.surjective layer3.update_convs(1,2))
  next
    case False
    then have nz: "get16 m 4 \<noteq> 0" using m by (auto simp flip: unat_eq_0)
    obtain l2 where l2: "l3_put d (get16 m 4) l1 = Inr l2" "l3_tx_inv l2"
      "l3_txData l2 = l3_txData l1 @ take (unat (get16 m 4)) d"
      "l2 = l1\<lparr>l3_txPacket := l3_txPacket l2, l3_txIndex := l3_txIndex l1 + get16 m 4\<rparr>"
      "length (l3_txPacket l2) = length (l3_txPacket l1)"
      using l3_put_ok [of l1 "get16 m 4" d] l1(2) m i1 m1 assms(3) by auto
    have "l2 = l\<lparr>l3_txPacket := l3_txPacket l2, l3_txIndex := l3_txIndex l2\<rparr>"
      by (subst l2(4), subst l1(4)) (subst (2) l2(4), simp)
    with m fit nz True l1 l2 show ?thesis by (auto simp: l3_addMessage_def load_def)
  qed
next
  case False
  with assms(2) obtain sz where sz: "fixedSize (m ! 0) = Some sz" "length m = unat sz" "d = []" "m \<noteq> []"
    by (auto simp: msg_ok_def split: option.splits)
  moreover have "\<not> getTxBufferFree l < sz"
    using assms sz by (simp add: word_less_nat_alt unat_getTxBufferFree)
  moreover obtain l1 where "l3_put m sz l = Inr l1" "l3_tx_inv l1" "l3_txData l1 = l3_txData l @ m"
      "l1 = l\<lparr>l3_txPacket := l3_txPacket l1, l3_txIndex := l3_txIndex l + sz\<rparr>"
      "length (l3_txPacket l1) = length (l3_txPacket l)"
    using l3_put_ok [of l sz m] assms sz by auto
  moreover have "0 < unat sz" using fixedSize_bound [OF sz(1)] by simp
  ultimately show ?thesis using False
    by (auto simp: l3_addMessage_def load_def) (metis layer3.surjective layer3.update_convs(1,2))
qed

lemma l3_addMessage_full:
  assumes "l3_tx_inv l" and "msg_ok m d"
    and "unat (l3_maxTxAppSize l) < unat (l3_txIndex l) + length m + length d"
  shows "l3_addMessage m d l = Inr (-1, l)"
proof (cases "m ! 0 = MsgAppType")
  case True
  with assms(2) have m: "length m = 6" "unat (get16 m 4) = length d" "length d < 65530" "m \<noteq> []"
    by (auto simp: msg_ok_def)
  have u: "unat (6 + get16 m 4) = 6 + length d" using m by (subst unat_add_u16) simp_all
  have "getTxBufferFree l < 6 + get16 m 4"
    using assms m u by (auto simp: word_less_nat_alt unat_getTxBufferFree l3_tx_inv_def word_le_nat_alt)
  then show ?thesis using m True by (simp add: l3_addMessage_def load_def)
next
  case False
  with assms show ?thesis
    by (auto simp: l3_addMessage_def load_def msg_ok_def word_less_nat_alt unat_getTxBufferFree
        l3_tx_inv_def word_le_nat_alt split: option.splits)
qed

section \<open>Receive side\<close>

definition l3_rx_inv :: "layer3 \<Rightarrow> bool" where
  "l3_rx_inv l \<longleftrightarrow> l3_rxIndex l \<le> l3_rxSize l \<and> unat (l3_rxSize l) \<le> length (l3_rxData l)"

definition l3_rxRest :: "layer3 \<Rightarrow> u8 list" where
  "l3_rxRest l = take (unat (l3_rxSize l) - unat (l3_rxIndex l)) (drop (unat (l3_rxIndex l)) (l3_rxData l))"

lemma length_l3_rxRest [simp]:
  "l3_rx_inv l \<Longrightarrow> length (l3_rxRest l) = unat (l3_rxSize l) - unat (l3_rxIndex l)"
  by (auto simp: l3_rx_inv_def l3_rxRest_def word_le_nat_alt)

lemma unat_l3_rxDataSize: "l3_rx_inv l \<Longrightarrow> unat (l3_rxDataSize l) = length (l3_rxRest l)"
  by (auto simp: l3_rxDataSize_def unat_sub l3_rx_inv_def l3_rxRest_def word_le_nat_alt word_less_nat_alt)

lemma l3_getMessagePtr_end: "l3_rx_inv l \<Longrightarrow> l3_rxRest l = [] \<Longrightarrow> l3_getMessagePtr l = Inr (-1, None, l)"
proof -
  assume "l3_rx_inv l" "l3_rxRest l = []"
  then have "l3_rxDataSize l = 0" using unat_l3_rxDataSize [of l] by (metis list.size(3) unat_eq_0)
  then show ?thesis by (simp add: l3_getMessagePtr_def)
qed

lemma msg_ok_len: "msg_ok m d \<Longrightarrow> 4 \<le> length m"
  by (auto simp: msg_ok_def dest: fixedSize_bound split: if_splits option.splits)

text \<open>The next message of a block that starts with a well-formed message.\<close>

lemma l3_getMessagePtr_ok:
  assumes "l3_rx_inv l" and "msg_ok m d" and "l3_rxRest l = m @ d @ rest"
  shows "\<exists>l' ptr. l3_getMessagePtr l = Inr (0, Some (m ! 0, ptr), l') \<and>
     take (length m + length d) ptr = m @ d \<and> l3_rx_inv l' \<and> l3_rxRest l' = rest \<and>
     l' = l\<lparr>l3_rxIndex := l3_rxIndex l'\<rparr>"
proof -
  define i where "i = unat (l3_rxIndex l)"
  define n where "n = length m + length d"
  have len: "length (l3_rxRest l) = n + length rest" using assms(3) by (simp add: n_def)
  have n16: "n < 65536" using len length_l3_rxRest [OF assms(1)] unat_lt_65536 [of "l3_rxSize l"] by linarith
  have m4: "4 \<le> length m" by (rule msg_ok_len [OF assms(2)])
  have nz: "l3_rxDataSize l \<noteq> 0"
    using unat_l3_rxDataSize [OF assms(1)] len m4 by (auto simp: n_def)
  have ptr: "take (n + length rest) (drop i (l3_rxData l)) = m @ d @ rest"
  proof -
    have "unat (l3_rxSize l) - unat (l3_rxIndex l) = n + length rest"
      using len length_l3_rxRest [OF assms(1)] by simp
    then show ?thesis using assms(3) by (simp add: l3_rxRest_def i_def)
  qed
  then have tk: "take n (drop i (l3_rxData l)) = m @ d"
    by (metis append.assoc append_eq_conv_conj length_append n_def take_take min.absorb1 le_add1)
  have bound: "i + n \<le> length (l3_rxData l)"
    using len assms(1) m4 by (auto simp: i_def l3_rx_inv_def word_le_nat_alt)
  have nth: "l3_rxData l ! (i + k) = m ! k" if "k < length m" for k
    using arg_cong [OF tk, of "\<lambda>xs. xs ! k"] that bound by (simp add: nth_append n_def)
  have f0: "l3_rxData l ! i = m ! 0" using nth [of 0] m4 by force
  have i_lt: "i < length (l3_rxData l)" using bound m4 by (simp add: n_def)
  have le: "i + n \<le> unat (l3_rxSize l)" using len assms(1) m4 by (simp add: i_def n_def)
  have step: "\<exists>sz. unat sz = n \<and> l3_getMessagePtr l = Inr (0, Some (m ! 0, drop i (l3_rxData l)), l\<lparr>l3_rxIndex := l3_rxIndex l + sz\<rparr>)"
  proof (cases "m ! 0 = MsgAppType")
    case True
    with assms(2) have m: "length m = 6" "unat (get16 m 4) = length d" "length d < 65530"
      by (auto simp: msg_ok_def)
    have g: "get16 (l3_rxData l) (i + 4) = get16 m 4"
      using nth [of 4] nth [of 5] m by (simp add: get16_def add.commute)
    have u: "unat (6 + get16 m 4) = n" using m by (subst unat_add_u16) (simp_all add: n_def)
    then have "\<not> l3_rxDataSize l < 6 + get16 m 4"
      using unat_l3_rxDataSize [OF assms(1)] len by (simp add: word_less_nat_alt)
    with u True f0 i_lt g nz m bound show ?thesis
      by (intro exI [of _ "6 + get16 m 4"])
         (simp add: l3_getMessagePtr_def load_def load16_def i_def Let_def n_def)
  next
    case False
    with assms(2) obtain sz where sz: "fixedSize (m ! 0) = Some sz" "length m = unat sz" "d = []"
      by (auto simp: msg_ok_def split: option.splits)
    then have "\<not> l3_rxDataSize l < sz"
      using unat_l3_rxDataSize [OF assms(1)] len by (simp add: word_less_nat_alt n_def)
    with sz False f0 i_lt nz show ?thesis
      by (intro exI [of _ sz]) (simp add: l3_getMessagePtr_def load_def i_def Let_def n_def)
  qed
  then obtain sz where sz: "unat sz = n"
    "l3_getMessagePtr l = Inr (0, Some (m ! 0, drop i (l3_rxData l)), l\<lparr>l3_rxIndex := l3_rxIndex l + sz\<rparr>)" by blast
  have u: "unat (l3_rxIndex l + sz) = i + n"
    using le sz(1) order.strict_trans1 [OF le unat_lt_65536] by (subst unat_add_u16) (simp_all add: i_def)
  have rest: "take (unat (l3_rxSize l) - (i + n)) (drop (i + n) (l3_rxData l)) = rest"
  proof -
    have "unat (l3_rxSize l) - (i + n) = length rest"
      using len length_l3_rxRest [OF assms(1)] le by (simp add: i_def)
    then show ?thesis using arg_cong [OF ptr, of "drop n"]
      by (simp add: drop_take n_def add.commute)
  qed
  show ?thesis
    using sz u tk le assms(1) rest
    by (auto simp: l3_rx_inv_def l3_rxRest_def word_le_nat_alt n_def)
qed


text \<open>A message whose announced size wraps around in 16 bits.\<close>

lemma l3_getMessagePtr_wrap:
  assumes "l3_rx_inv l" and "l3_rxRest l \<noteq> []" and "unat (l3_rxIndex l) + 5 < length (l3_rxData l)"
    and "l3_rxRest l ! 0 = MsgAppType" and "get16 (l3_rxData l) (unat (l3_rxIndex l) + 4) = 0xFFFA"
  shows "l3_getMessagePtr l = Inr (0, Some (MsgAppType, drop (unat (l3_rxIndex l)) (l3_rxData l)), l)"
proof -
  have "l3_rxDataSize l \<noteq> 0"
    using unat_l3_rxDataSize [OF assms(1)] assms(2) by auto
  moreover have "l3_rxData l ! unat (l3_rxIndex l) = MsgAppType"
    using assms(2-4) by (simp add: l3_rxRest_def)
  moreover have "6 + get16 (l3_rxData l) (unat (l3_rxIndex l) + 4) = 0" unfolding assms(5) by simp
  ultimately show ?thesis using assms(3)
    by (simp add: l3_getMessagePtr_def Let_def load_def load16_def)
qed

section \<open>Properties\<close>

text \<open>
  Adding a well-formed message to the packet under construction never writes outside it: the
  message with its data is appended to the data block and 0 is returned when it fits into the rest of
  the configured payload, otherwise the packet is left unchanged and -1 is returned; the state keeps
  its invariant.
\<close>

lemma layer3_addMessage:
  assumes "l3_tx_inv l" and "msg_ok m d"
  shows "\<exists>rc l'. l3_addMessage m d l = Inr (rc, l') \<and> l3_tx_inv l' \<and>
     (if unat (l3_txIndex l) + length m + length d \<le> unat (l3_maxTxAppSize l)
      then rc = 0 \<and> l3_txData l' = l3_txData l @ m @ d
      else rc = -1 \<and> l' = l)"
  using l3_addMessage_ok [OF assms] l3_addMessage_full [OF assms] assms(1)
  by (cases "unat (l3_txIndex l) + length m + length d \<le> unat (l3_maxTxAppSize l)") auto

lemma layer3_addMessage_example:
  "\<exists>rc l'. l3_addMessage (TMsgParameterRead 1 0x1234) []
        \<lparr>l3_txPacket = replicate 254 0, l3_txIndex = 0, l3_rxData = [], l3_rxIndex = 0, l3_rxSize = 0,
          l3_maxTxAppSize = 244\<rparr> = Inr (rc, l') \<and> rc = 0 \<and> l3_txData l' = [0x11, 1, 0x34, 0x12]"
proof -
  have "l3_tx_inv \<lparr>l3_txPacket = replicate 254 0, l3_txIndex = 0, l3_rxData = [], l3_rxIndex = 0,
          l3_rxSize = 0, l3_maxTxAppSize = 244\<rparr>" by (simp add: l3_tx_inv_def)
  moreover have m: "TMsgParameterRead 1 0x1234 = [0x11, 1, 0x34, 0x12]"
    by (simp add: TMsgParameterRead_def bytes16_def lo8_def hi8_def msg_ids)
  then have "msg_ok (TMsgParameterRead 1 0x1234) []"
    by (simp add: msg_ok_def fixedSize_def msg_ids)
  ultimately show ?thesis using layer3_addMessage [of _ "TMsgParameterRead 1 0x1234" "[]"] m
    by (fastforce simp: l3_txData_def)
qed

text \<open>
  The 16-bit sum of header and data size wraps around: an application message that announces
  65530 or more bytes of data passes the test for free space of a packet with at least six free bytes,
  and copying its data runs outside every packet of at most 64 KByte.
\<close>

lemma layer3_addMessage_size_wrap:
  assumes "l3_tx_inv l" and "6 \<le> unat (getTxBufferFree l)" and "length m = 6"
    and "m ! 0 = MsgAppType" and "65530 \<le> unat (get16 m 4)" and "length (l3_txPacket l) \<le> 65536"
  shows "l3_addMessage m d l = Inl OutOfBounds"
proof -
  have "unat (6 + get16 m 4) = (6 + unat (get16 m 4)) mod 65536" by (simp add: unat_word_ariths)
  also have "\<dots> = 6 + unat (get16 m 4) - 65536"
    using assms(5) unat_lt_65536 [of "get16 m 4"]
    by (subst le_mod_geq) (simp_all del: unat_lt_65536)
  finally have u: "unat (6 + get16 m 4) < 6" using unat_lt_65536 [of "get16 m 4"] by linarith
  then have fit: "\<not> getTxBufferFree l < 6 + get16 m 4" using assms(2) by (simp add: word_less_nat_alt)
  have nz: "get16 m 4 \<noteq> 0" using assms(5) by auto
  have "unat (l3_txIndex l) + 6 \<le> unat (l3_maxTxAppSize l)"
    using assms(2) unat_getTxBufferFree [OF assms(1)] by linarith
  then obtain l1 where l1: "l3_put m 6 l = Inr l1" "length (l3_txPacket l1) = length (l3_txPacket l)"
    using l3_put_ok [of l 6 m] assms by auto
  moreover have "l3_put d (get16 m 4) l1 = Inl OutOfBounds"
    using assms l1(2) by (simp add: l3_put_def memcpy_def)
  ultimately show ?thesis using assms fit nz by (simp add: l3_addMessage_def load_def)
qed

lemma layer3_addMessage_size_wrap_example:
  "l3_addMessage (TMsgAppTypeHeader 1 2 0xFFFA) []
     \<lparr>l3_txPacket = replicate 254 0, l3_txIndex = 0, l3_rxData = [], l3_rxIndex = 0, l3_rxSize = 0,
      l3_maxTxAppSize = 244\<rparr> = Inl OutOfBounds"
  by (rule layer3_addMessage_size_wrap)
    (simp_all add: l3_tx_inv_def getTxBufferFree_def TMsgAppTypeHeader_def bytes16_def get16_def)

text \<open>
  The size of an application message is read before the code knows that its header is inside the
  block: an application message identifier in the last five bytes of a packet of maximal size makes
  the parser read beyond the packet array.
\<close>

lemma layer3_truncated_header_overread:
  assumes "l2_state lr2 = stPacketReady" and "length (l2_packet lr2) = LR2_PACKET_size"
    and "unat (h_dataSize (l2_packet lr2)) = MaxLayer2DataSize"
    and "239 \<le> i" and "i < 244" and "l2_packet lr2 ! (10 + i) = MsgAppType"
  shows "l3_getMessagePtr ((snd (l3_readPacket lr2 l))\<lparr>l3_rxIndex := of_nat i\<rparr>) = Inl OutOfBounds"
proof -
  define l1 where "l1 = (snd (l3_readPacket lr2 l))\<lparr>l3_rxIndex := of_nat i\<rparr>"
  have l1: "l3_rxData l1 = drop 10 (l2_packet lr2)" "l3_rxSize l1 = h_dataSize (l2_packet lr2)"
      "unat (l3_rxIndex l1) = i"
    using assms(1,5) by (simp_all add: l1_def l3_readPacket_def l2_getRxDataPtr_def)
  then have "l3_rx_inv l1" "length (l3_rxRest l1) = 244 - i" 
    using assms by (simp_all add: l3_rx_inv_def word_le_nat_alt l2_consts l3_rxRest_def)
  then have "l3_rxDataSize l1 \<noteq> 0" using unat_l3_rxDataSize [of l1] assms(5) by auto
  moreover have "l3_rxData l1 ! i = MsgAppType" "length (l3_rxData l1) = 244"
    using assms(2,5,6) l1 by (simp_all add: l2_consts)
  ultimately have "l3_getMessagePtr l1 = Inl OutOfBounds"
    using assms(4,5) l1(3) by (auto simp: l3_getMessagePtr_def Let_def load_def load16_def)
  then show ?thesis by (simp add: l1_def)
qed

lemma layer3_truncated_header_overread_example:
  "l3_getMessagePtr ((snd (l3_readPacket
      ((l2_new (([0, 0, 0, 0, 244, 0] @ replicate 247 0) @ [0x80]) 0 1 255)\<lparr>l2_state := stPacketReady\<rparr>)
      \<lparr>l3_txPacket = [], l3_txIndex = 0, l3_rxData = [], l3_rxIndex = 0, l3_rxSize = 0,
       l3_maxTxAppSize = 244\<rparr>))\<lparr>l3_rxIndex := of_nat 243\<rparr>) = Inl OutOfBounds"
  by (rule layer3_truncated_header_overread)
    (simp_all add: l2_new_def l2_clearErrors_def l2_startRx_def l2_consts get16_def mk16_def msg_ids
      nth_append)

end
