(* ===== verification/Protocol.thy ===== *)
theory Protocol
  imports DataIO_Layer3 TBuffer
begin

text \<open>
  The protocol engine: \<open>TProtocol\<close> (\<^verbatim>\<open>p_tprotocol.h\<close>, \<^verbatim>\<open>p_tprotocol.cpp\<close>), its binding to a link
  \<open>TProtocolInstance\<close> (\<^verbatim>\<open>p_tprotocolinst.h\<close>, \<^verbatim>\<open>p_tprotocolinst.cpp\<close>) and the variant for packets without
  header \<open>TProtocolInstance_AppPackets\<close> (\<^verbatim>\<open>p_tapprotocol_app_packets.h\<close>). One record holds the objects
  that are linked by pointers in the code (both layers, the engine and the instance); the array of the
  packet under construction, \<open>txBuffer\<close>, is the packet of layer 3. A plain instance is one whose
  \<open>linkID\<close> stays \<open>LINK_ID_0\<close>.

  Outside of the program are the UART ring buffers of the chip library and the UDP transmit callback:
  the record \<open>links\<close>, functions on a state of type \<open>'w\<close>, is a parameter. The handler of received
  messages (\<open>TRxMessageHandler\<close>, a virtual method) and the end-of-packet notification are parameters of
  the receiving functions.
\<close>

section \<open>Time\<close>

definition difftime :: "u32 \<Rightarrow> u32 \<Rightarrow> u32" where
  "difftime ticks1 ticks2 = (if ticks2 \<ge> ticks1 then ticks2 - ticks1 else ticks2 + (0xffffffff - ticks1))"

definition TIMEOUT :: "u32 \<Rightarrow> u32 \<Rightarrow> u32 \<Rightarrow> bool" where
  "TIMEOUT now timer msec \<longleftrightarrow> difftime timer now \<ge> msec"

section \<open>Links\<close>

record 'w links =
  RingBuffer_GetFree :: "nat \<Rightarrow> 'w \<Rightarrow> u32"
  Chip_UART_SendRB :: "nat \<Rightarrow> u8 list \<Rightarrow> 'w \<Rightarrow> u32 \<times> 'w"
  processTxAppData :: "(u8 list \<Rightarrow> 'w \<Rightarrow> int \<times> 'w) option"

text \<open>\<open>hal::uarts\<close>, reached through \<open>TLayer1TxInterface\<close>: the count is a \<open>uint8_t\<close>.\<close>

definition uarts_write :: "'w links \<Rightarrow> u16 \<Rightarrow> u8 list \<Rightarrow> u16 \<Rightarrow> 'w \<Rightarrow> (u16 \<times> 'w) res" where
  "uarts_write k num bytes n w =
     (let cnt = unat (ucast n :: u8) in
      if num = 1 \<or> num = 3 then
        (if cnt \<le> length bytes
         then (case Chip_UART_SendRB k (unat num) (take cnt bytes) w of (r, w') \<Rightarrow> Inr (ucast r, w'))
         else Inl OutOfBounds)
      else Inr (0, w))"

definition uarts_getTxFree :: "'w links \<Rightarrow> u16 \<Rightarrow> 'w \<Rightarrow> u16" where
  "uarts_getTxFree k num w =
     (if num = 1 \<or> num = 3 then ucast (RingBuffer_GetFree k (unat num) w) else 0)"

section \<open>State\<close>

record 'w proto =
  pr_layer2 :: layer2
  pr_layer3 :: layer3
  pr_rxTimeout :: u32
  pr_rxTicks :: u32
  pr_broadcastAddress :: u16
  pr_srcAddress :: u16
  pr_layer1Number :: u16
  pr_linkID :: u16
  pr_world :: 'w

definition LINK_ID_0 :: u16 where "LINK_ID_0 = 0"
definition LINK_ID_1 :: u16 where "LINK_ID_1 = 1"

definition proto_configure :: "u16 \<Rightarrow> u16 \<Rightarrow> u16 \<Rightarrow> 'w proto \<Rightarrow> 'w proto" where
  "proto_configure aselfAddress abroadcastAddress arxTimeout p =
     p\<lparr>pr_broadcastAddress := abroadcastAddress, pr_rxTimeout := ucast arxTimeout,
       pr_layer2 := l2_configure aselfAddress abroadcastAddress (pr_layer2 p)\<rparr>"

definition proto_setPayload :: "u16 \<Rightarrow> 'w proto \<Rightarrow> 'w proto" where
  "proto_setPayload n p = p\<lparr>pr_layer3 := l3_setTxAppSize n (pr_layer3 p)\<rparr>"

section \<open>Transmission\<close>

definition proto_startTxPacket :: "'w proto \<Rightarrow> 'w proto" where
  "proto_startTxPacket p =
     p\<lparr>pr_layer3 := l3_startTxPacket (l3_txPacket (pr_layer3 p)) (pr_layer3 p)\<rparr>"

text \<open>\<open>dest\<close> is an \<open>int16_t\<close>; -1 addresses the source of the last received packet.\<close>

definition proto_finishTxPacket :: "int \<Rightarrow> 'w proto \<Rightarrow> (u16 \<times> 'w proto) res" where
  "proto_finishTxPacket dest p =
     rbind (l3_finishTxPacket (if dest = -1 then ucast (pr_srcAddress p) else word_of_int dest)
              (pr_layer2 p) (pr_layer3 p)) (\<lambda>(n, l).
       Inr (n, p\<lparr>pr_layer3 := l\<rparr>))"

definition inst_sendPacket :: "'w links \<Rightarrow> int \<Rightarrow> 'w proto \<Rightarrow> (u16 \<times> 'w proto) res" where
  "inst_sendPacket k dest p =
     rbind (proto_finishTxPacket dest p) (\<lambda>(n, p).
       if n \<noteq> 0 \<and> uarts_getTxFree k (pr_layer1Number p) (pr_world p) > n
       then rbind (uarts_write k (pr_layer1Number p) (l3_txPacket (pr_layer3 p)) n (pr_world p)) (\<lambda>(r, w).
              Inr (r, p\<lparr>pr_world := w\<rparr>))
       else Inr (0, p))"

definition sendPacket :: "'w links \<Rightarrow> int \<Rightarrow> 'w proto \<Rightarrow> (u16 \<times> 'w proto) res" where
  "sendPacket k dest p =
     (if pr_linkID p = LINK_ID_0 then inst_sendPacket k dest p
      else let sz = getTxDataSize (pr_layer3 p) in
        if sz \<noteq> 0 then
          (case processTxAppData k of
             None \<Rightarrow> Inr (0, p)
           | Some f \<Rightarrow>
               (if 10 + unat sz \<le> length (l3_txPacket (pr_layer3 p)) then
                  (case f (take (unat sz) (drop 10 (l3_txPacket (pr_layer3 p)))) (pr_world p) of (rc2, w) \<Rightarrow>
                     Inr (if rc2 > 0 then word_of_int rc2 else 0, proto_startTxPacket (p\<lparr>pr_world := w\<rparr>)))
                else Inl OutOfBounds))
        else Inr (0, p))"

text \<open>The packet handlers (\<open>TPacketHandlersInst\<close>, \<open>TPacketHandlersInst_AppPackets\<close>).\<close>

definition onBeginRxPacketProcess :: "'w proto \<Rightarrow> 'w proto" where
  "onBeginRxPacketProcess p = proto_startTxPacket p"

definition onEndRxPacketProcess :: "'w links \<Rightarrow> 'w proto \<Rightarrow> 'w proto res" where
  "onEndRxPacketProcess k p =
     (if getTxDataSize (pr_layer3 p) \<noteq> 0 then rbind (sendPacket k (-1) p) (\<lambda>(_, p). Inr p) else Inr p)"

definition onTxBufferFull :: "'w links \<Rightarrow> 'w proto \<Rightarrow> 'w proto res" where
  "onTxBufferFull k p =
     (if getTxDataSize (pr_layer3 p) \<noteq> 0 then rbind (sendPacket k (-1) p) (\<lambda>(_, p). Inr p) else Inr p)"

definition proto_addMessage :: "'w links \<Rightarrow> u8 list \<Rightarrow> u8 list \<Rightarrow> 'w proto \<Rightarrow> (int \<times> 'w proto) res" where
  "proto_addMessage k msg data p =
     rbind (l3_addMessage msg data (pr_layer3 p)) (\<lambda>(rc, l).
       if rc = -1 then
         rbind (onTxBufferFull k (p\<lparr>pr_layer3 := l\<rparr>)) (\<lambda>p.
           rbind (l3_addMessage msg data (pr_layer3 p)) (\<lambda>(rc, l).
             Inr (rc, p\<lparr>pr_layer3 := l\<rparr>)))
       else Inr (rc, p\<lparr>pr_layer3 := l\<rparr>))"

section \<open>Reception\<close>

text \<open>
  The handler of a message gets the bytes from the message on, the two addresses, and may change the
  state of the application \<open>'a\<close> and of the protocol (it answers with \<open>proto_addMessage\<close>).
\<close>

type_synonym ('a, 'w) rx_handler = "u8 list \<Rightarrow> u16 \<Rightarrow> u16 \<Rightarrow> 'a \<Rightarrow> 'w proto \<Rightarrow> ('a \<times> 'w proto) res"

type_synonym ('a, 'w) rx_end = "u16 \<Rightarrow> 'a \<Rightarrow> 'w proto \<Rightarrow> ('a \<times> 'w proto) res"

text \<open>
  The loop over the messages of a block, with the number of messages in an \<open>int16_t\<close>. \<open>None\<close> is a loop
  that does not end.
\<close>

partial_function (option) rxMsgLoop ::
    "('a, 'w) rx_handler \<Rightarrow> u16 \<Rightarrow> u16 \<Rightarrow> int \<Rightarrow> 'a \<Rightarrow> 'w proto \<Rightarrow> (int \<times> 'a \<times> 'w proto) res option" where
  "rxMsgLoop rxh dest src n a p =
     (case l3_getMessagePtr (pr_layer3 p) of
        Inl e \<Rightarrow> Some (Inl e)
      | Inr (rc, m, l) \<Rightarrow>
          (case m of
             None \<Rightarrow> Some (Inr (n, a, p\<lparr>pr_layer3 := l\<rparr>))
           | Some (msgId, ptr) \<Rightarrow>
               (case rxh ptr dest src a (p\<lparr>pr_layer3 := l\<rparr>) of
                  Inl e \<Rightarrow> Some (Inl e)
                | Inr (a', p') \<Rightarrow> rxMsgLoop rxh dest src (to_i16 (n + 1)) a' p')))"

text \<open>A packet that layer 2 has completed.\<close>

definition rxPacket :: "('a, 'w) rx_handler \<Rightarrow> ('a, 'w) rx_end \<Rightarrow> 'a \<Rightarrow> 'w proto \<Rightarrow> ('a \<times> 'w proto) res option" where
  "rxPacket rxh onEnd a p =
     (case l3_readPacket (pr_layer2 p) (pr_layer3 p) of
        ((n, None), l) \<Rightarrow> Some (Inl NullPointer)
      | ((n, Some (dest, src)), l) \<Rightarrow>
          let p = p\<lparr>pr_layer3 := l, pr_srcAddress := ucast src\<rparr>;
              p = onBeginRxPacketProcess p
          in case rxMsgLoop rxh (ucast dest) (ucast src) 0 a p of
               None \<Rightarrow> None
             | Some (Inl e) \<Rightarrow> Some (Inl e)
             | Some (Inr (_, a, p)) \<Rightarrow>
                 Some (rbind (onEnd (ucast src) a p) (\<lambda>(a, p).
                   Inr (a, p\<lparr>pr_layer2 := l2_startRx (pr_layer2 p)\<rparr>))))"

fun rxBytesLoop :: "('a, 'w) rx_handler \<Rightarrow> ('a, 'w) rx_end \<Rightarrow> nat \<Rightarrow> int \<Rightarrow> 'a \<Rightarrow> 'w proto \<Rightarrow> u8 tbuffer
    \<Rightarrow> (int \<times> 'a \<times> 'w proto \<times> u8 tbuffer) res option" where
  "rxBytesLoop rxh onEnd 0 rc a p b = Some (Inr (rc, a, p, b))"
| "rxBytesLoop rxh onEnd (Suc n) rc a p b =
     (case rbind (read_wo_check b) (\<lambda>(c, b). rbind (l2_rxHandler c (pr_layer2 p)) (\<lambda>(r, l). Inr (r, l, b))) of
        Inl e \<Rightarrow> Some (Inl e)
      | Inr (r, l, b) \<Rightarrow>
          let p = p\<lparr>pr_layer2 := l\<rparr> in
          if r = 2 then
            (case rxPacket rxh onEnd a p of
               None \<Rightarrow> None
             | Some (Inl e) \<Rightarrow> Some (Inl e)
             | Some (Inr (a, p)) \<Rightarrow> rxBytesLoop rxh onEnd n 2 a p b)
          else if r = 3 then Some (Inr (3, a, p, b))
          else rxBytesLoop rxh onEnd n rc a p b)"

definition proto_processInputData :: "('a, 'w) rx_handler \<Rightarrow> ('a, 'w) rx_end \<Rightarrow> u32 \<Rightarrow> u16 \<Rightarrow> bool \<Rightarrow>
    'a \<Rightarrow> 'w proto \<Rightarrow> u8 tbuffer \<Rightarrow> (int \<times> 'a \<times> 'w proto \<times> u8 tbuffer) res option" where
  "proto_processInputData rxh onEnd now n preambleRecieved a p b =
     (let p = (if difftime (pr_rxTicks p) now \<ge> pr_rxTimeout p
               then p\<lparr>pr_layer2 := l2_startRx (pr_layer2 p)\<rparr> else p);
          p = p\<lparr>pr_rxTicks := now\<rparr>;
          p = (if preambleRecieved then p\<lparr>pr_layer2 := l2_setPreambleRecieved (pr_layer2 p)\<rparr> else p)
      in rxBytesLoop rxh onEnd (unat n) 0 a p b)"

definition proto_processInputAppData :: "('a, 'w) rx_handler \<Rightarrow> ('a, 'w) rx_end \<Rightarrow> u8 list \<Rightarrow> u16 \<Rightarrow>
    u16 \<Rightarrow> u16 \<Rightarrow> 'a \<Rightarrow> 'w proto \<Rightarrow> (int \<times> 'a \<times> 'w proto) res option" where
  "proto_processInputAppData rxh onEnd bytes n dest src a p =
     (let p = p\<lparr>pr_srcAddress := src\<rparr>;
          p = onBeginRxPacketProcess p;
          p = p\<lparr>pr_layer3 := l3_setRxAppData bytes n (pr_layer3 p)\<rparr>
      in case rxMsgLoop rxh dest src 0 a p of
           None \<Rightarrow> None
         | Some (Inl e) \<Rightarrow> Some (Inl e)
         | Some (Inr (msgCounter, a, p)) \<Rightarrow>
             Some (rbind (onEnd src a p) (\<lambda>(a, p). Inr (msgCounter, a, p))))"

text \<open>\<open>TProtocolInstance_AppPackets\<close> records which kind of packet is to be answered.\<close>

definition inst_processInputData :: "('a, 'w) rx_handler \<Rightarrow> ('a, 'w) rx_end \<Rightarrow> u32 \<Rightarrow> u16 \<Rightarrow>
    'a \<Rightarrow> 'w proto \<Rightarrow> u8 tbuffer \<Rightarrow> (int \<times> 'a \<times> 'w proto \<times> u8 tbuffer) res option" where
  "inst_processInputData rxh onEnd now n a p b =
     proto_processInputData rxh onEnd now n False a (p\<lparr>pr_linkID := LINK_ID_0\<rparr>) b"

definition inst_processInputAppData :: "('a, 'w) rx_handler \<Rightarrow> ('a, 'w) rx_end \<Rightarrow> u8 list \<Rightarrow> u16 \<Rightarrow>
    u16 \<Rightarrow> u16 \<Rightarrow> 'a \<Rightarrow> 'w proto \<Rightarrow> (int \<times> 'a \<times> 'w proto) res option" where
  "inst_processInputAppData rxh onEnd bytes n dest src a p =
     proto_processInputAppData rxh onEnd bytes n dest src a (p\<lparr>pr_linkID := LINK_ID_1\<rparr>)"

section \<open>The message loop\<close>

text \<open>What a message handler must leave alone: the block that is being parsed.\<close>

definition rx_same :: "layer3 \<Rightarrow> layer3 \<Rightarrow> bool" where
  "rx_same l l' \<longleftrightarrow> l3_rxData l' = l3_rxData l \<and> l3_rxIndex l' = l3_rxIndex l \<and> l3_rxSize l' = l3_rxSize l"

lemma rx_same_simps:
  assumes "rx_same l l'"
  shows "l3_rx_inv l' = l3_rx_inv l" "l3_rxRest l' = l3_rxRest l"
  using assms by (simp_all add: rx_same_def l3_rx_inv_def l3_rxRest_def)

text \<open>The calls of the handler for messages of the given lengths, one after the other.\<close>

fun rxDeliver :: "('a, 'w) rx_handler \<Rightarrow> u16 \<Rightarrow> u16 \<Rightarrow> nat list \<Rightarrow> int \<Rightarrow> 'a \<Rightarrow> 'w proto
    \<Rightarrow> (int \<times> 'a \<times> 'w proto) res" where
  "rxDeliver rxh dest src [] n a p = Inr (n, a, p)"
| "rxDeliver rxh dest src (k # ks) n a p =
     (let l = pr_layer3 p in
      rbind (rxh (drop (unat (l3_rxIndex l)) (l3_rxData l)) dest src a
               (p\<lparr>pr_layer3 := l\<lparr>l3_rxIndex := l3_rxIndex l + of_nat k\<rparr>\<rparr>)) (\<lambda>(a, p).
        rxDeliver rxh dest src ks (to_i16 (n + 1)) a p))"

text \<open>Application messages whose 16-bit size wraps around to zero.\<close>

definition zero_step :: "layer3 \<Rightarrow> nat \<Rightarrow> bool" where
  "zero_step l i \<longleftrightarrow> i + 5 < length (l3_rxData l) \<and> l3_rxData l ! i = MsgAppType \<and>
     get16 (l3_rxData l) (i + 4) = 0xFFFA"

lemma l3_getMessagePtr_exact:
  assumes "l3_rx_inv l" and "msg_ok m d" and "l3_rxRest l = m @ d @ rest"
  shows "l3_getMessagePtr l = Inr (0, Some (m ! 0, drop (unat (l3_rxIndex l)) (l3_rxData l)),
     l\<lparr>l3_rxIndex := l3_rxIndex l + of_nat (length m + length d)\<rparr>)"
    and "l3_rx_inv (l\<lparr>l3_rxIndex := l3_rxIndex l + of_nat (length m + length d)\<rparr>)"
    and "l3_rxRest (l\<lparr>l3_rxIndex := l3_rxIndex l + of_nat (length m + length d)\<rparr>) = rest"
proof -
  obtain l' ptr where s: "l3_getMessagePtr l = Inr (0, Some (m ! 0, ptr), l')" "l3_rx_inv l'"
      "l3_rxRest l' = rest" "l' = l\<lparr>l3_rxIndex := l3_rxIndex l'\<rparr>"
    using l3_getMessagePtr_ok [OF assms] by blast
  have ptr: "ptr = drop (unat (l3_rxIndex l)) (l3_rxData l)"
    using s(1) by (auto simp: l3_getMessagePtr_def Let_def res_elims split: if_splits option.splits)
  have sz: "l3_rxSize l' = l3_rxSize l" by (subst s(4)) simp
  have le: "unat (l3_rxIndex l') \<le> unat (l3_rxSize l)" "unat (l3_rxIndex l) \<le> unat (l3_rxSize l)"
    using s(2) sz assms(1) by (simp_all add: l3_rx_inv_def word_le_nat_alt)
  have "unat (l3_rxSize l) - unat (l3_rxIndex l) = length m + length d + length rest"
    using length_l3_rxRest [OF assms(1)] assms(3) by simp
  moreover have "unat (l3_rxSize l) - unat (l3_rxIndex l') = length rest"
    using length_l3_rxRest [OF s(2)] s(3) sz by simp
  ultimately have "unat (l3_rxIndex l') = unat (l3_rxIndex l) + (length m + length d)"
    using le by linarith
  then have "l3_rxIndex l' = of_nat (unat (l3_rxIndex l) + (length m + length d))"
    by (metis of_nat_unat ucast_id)
  then have "l3_rxIndex l' = l3_rxIndex l + of_nat (length m + length d)" by simp
  then have "l' = l\<lparr>l3_rxIndex := l3_rxIndex l + of_nat (length m + length d)\<rparr>" using s(4) by simp
  then show "l3_getMessagePtr l = Inr (0, Some (m ! 0, drop (unat (l3_rxIndex l)) (l3_rxData l)),
     l\<lparr>l3_rxIndex := l3_rxIndex l + of_nat (length m + length d)\<rparr>)"
    and "l3_rx_inv (l\<lparr>l3_rxIndex := l3_rxIndex l + of_nat (length m + length d)\<rparr>)"
    and "l3_rxRest (l\<lparr>l3_rxIndex := l3_rxIndex l + of_nat (length m + length d)\<rparr>) = rest"
    using s ptr by simp_all
qed

text \<open>One step of the parser either ends, faults, moves forward or stands on a zero step.\<close>

lemma l3_getMessagePtr_cases:
  assumes "l3_getMessagePtr l = Inr (rc, Some x, l')"
  shows "l' = l\<lparr>l3_rxIndex := l3_rxIndex l'\<rparr>" and "l3_rxIndex l' \<le> l3_rxSize l"
    and "l3_rxIndex l < l3_rxIndex l' \<or> zero_step l (unat (l3_rxIndex l))" and "l3_rxIndex l < l3_rxSize l"
proof -
  let ?i = "unat (l3_rxIndex l)"
  obtain mid so where so: "(if mid = MsgAppType
        then rbind (load16 (l3_rxData l) (?i + 4)) (\<lambda>dataSize. Inr (Some (6 + dataSize)))
        else Inr (fixedSize mid)) = (Inr so :: u16 option res)"
      "mid = l3_rxData l ! ?i" "l3_rxDataSize l \<noteq> 0"
      "(case so of None \<Rightarrow> Inr (-2, None, l) | Some sz \<Rightarrow> if sz > l3_rxDataSize l then Inr (-3, None, l)
          else Inr (0, Some (mid, drop ?i (l3_rxData l)), l\<lparr>l3_rxIndex := l3_rxIndex l + sz\<rparr>))
        = (Inr (rc, Some x, l') :: (int \<times> (u8 \<times> u8 list) option \<times> layer3) res)"
    using assms by (auto simp: l3_getMessagePtr_def Let_def res_elims split: if_split_asm)
  then obtain sz where sz0: "so = Some sz" "l' = l\<lparr>l3_rxIndex := l3_rxIndex l + sz\<rparr>" "sz \<le> l3_rxDataSize l"
    by (auto simp: not_less split: option.splits if_split_asm)
  have "zero_step l ?i" if "sz = 0"
  proof (cases "mid = MsgAppType")
    case True
    with so(1,2) sz0(1) that have "?i + 5 < length (l3_rxData l)" "6 + get16 (l3_rxData l) (?i + 4) = 0"
      by (auto simp: load16_def split: if_split_asm)
    moreover have "get16 (l3_rxData l) (?i + 4) = 0xFFFA" if "6 + get16 (l3_rxData l) (?i + 4) = 0"
      using that by (simp add: add_eq_0_iff)
    ultimately show ?thesis using True so(2) by (simp add: zero_step_def)
  next
    case False
    with so(1) sz0(1) that show ?thesis by (auto dest: fixedSize_bound)
  qed
  with sz0 so(3) have sz: "l' = l\<lparr>l3_rxIndex := l3_rxIndex l + sz\<rparr>" "sz \<le> l3_rxDataSize l" "l3_rxDataSize l \<noteq> 0"
      "sz = 0 \<longrightarrow> zero_step l ?i" by simp_all
  then have lt: "l3_rxIndex l < l3_rxSize l" and ds: "l3_rxDataSize l = l3_rxSize l - l3_rxIndex l"
    by (auto simp: l3_rxDataSize_def split: if_splits)
  have le: "unat sz \<le> unat (l3_rxSize l) - unat (l3_rxIndex l)"
    using sz(2) ds lt by (simp add: word_le_nat_alt word_less_nat_alt unat_sub)
  have "unat (l3_rxIndex l) + unat sz \<le> unat (l3_rxSize l)"
    using le lt by (simp add: word_less_nat_alt)
  then have u: "unat (l3_rxIndex l + sz) = unat (l3_rxIndex l) + unat sz"
    by (intro unat_add_u16) (rule order.strict_trans1 [OF _ unat_lt_65536])
  show "l' = l\<lparr>l3_rxIndex := l3_rxIndex l'\<rparr>" "l3_rxIndex l < l3_rxSize l" using sz lt by simp_all
  show "l3_rxIndex l' \<le> l3_rxSize l"
    using sz(1) u le lt by (simp add: word_le_nat_alt word_less_nat_alt)
  show "l3_rxIndex l < l3_rxIndex l' \<or> zero_step l (unat (l3_rxIndex l))"
    using sz u by (cases "sz = 0") (auto simp: word_less_nat_alt unat_gt_0)
qed

lemma zero_step_stays:
  assumes "zero_step l (unat (l3_rxIndex l))" and "l3_rxIndex l < l3_rxSize l"
  shows "l3_getMessagePtr l = Inr (0, Some (MsgAppType, drop (unat (l3_rxIndex l)) (l3_rxData l)), l)"
proof -
  have "l3_rxDataSize l \<noteq> 0" using assms(2) by (auto simp: l3_rxDataSize_def)
  moreover have wrap: "(65536 :: u16) = 0" by simp
  ultimately show ?thesis using assms(1)
    by (simp add: zero_step_def l3_getMessagePtr_def Let_def load_def load16_def wrap)
qed

section \<open>Handlers that respect the parser\<close>

locale rx_message_handler =
  fixes rxh :: "('a, 'w) rx_handler"
  assumes keeps: "rxh ptr dest src a p = Inr (a', p') \<Longrightarrow> rx_same (pr_layer3 p) (pr_layer3 p')"
begin

lemma loop_delivers:
  assumes "l3_rx_inv (pr_layer3 p)" and "\<forall>(m, d) \<in> set ms. msg_ok m d"
    and "l3_rxRest (pr_layer3 p) = concat (map (\<lambda>(m, d). m @ d) ms)"
  shows "rxMsgLoop rxh dest src n a p = Some (rxDeliver rxh dest src (map (\<lambda>(m, d). length m + length d) ms) n a p)"
  using assms
proof (induction ms arbitrary: n a p)
  case Nil
  then have "l3_getMessagePtr (pr_layer3 p) = Inr (-1, None, pr_layer3 p)"
    by (intro l3_getMessagePtr_end) auto
  then show ?case by (subst rxMsgLoop.simps) simp
next
  case (Cons x ms)
  obtain m d where x: "x = (m, d)" by (cases x)
  let ?l = "pr_layer3 p"
  define l' where "l' = ?l\<lparr>l3_rxIndex := l3_rxIndex ?l + of_nat (length m + length d)\<rparr>"
  have g: "l3_getMessagePtr ?l = Inr (0, Some (m ! 0, drop (unat (l3_rxIndex ?l)) (l3_rxData ?l)), l')"
      "l3_rx_inv l'" "l3_rxRest l' = concat (map (\<lambda>(m, d). m @ d) ms)"
    using l3_getMessagePtr_exact [of ?l m d] Cons.prems x by (auto simp: l'_def)
  show ?case
  proof (cases "rxh (drop (unat (l3_rxIndex ?l)) (l3_rxData ?l)) dest src a (p\<lparr>pr_layer3 := l'\<rparr>)")
    case (Inl e)
    then show ?thesis by (subst rxMsgLoop.simps) (simp add: g x l'_def Let_def)
  next
    case (Inr r)
    obtain a' p' where r: "r = (a', p')" by (cases r)
    have "rx_same l' (pr_layer3 p')" using keeps [of _ dest src a "p\<lparr>pr_layer3 := l'\<rparr>"] Inr r by fastforce
    then have "rxMsgLoop rxh dest src (to_i16 (n + 1)) a' p' =
        Some (rxDeliver rxh dest src (map (\<lambda>(m, d). length m + length d) ms) (to_i16 (n + 1)) a' p')"
      using Cons.prems(2) g by (intro Cons.IH) (simp_all add: rx_same_simps)
    then show ?thesis using Inr by (subst rxMsgLoop.simps) (simp add: g x r l'_def Let_def)
  qed
qed

lemma loop_terminates:
  assumes "\<And>i. i < unat (l3_rxSize (pr_layer3 p)) \<Longrightarrow> \<not> zero_step (pr_layer3 p) i"
  shows "\<exists>r. rxMsgLoop rxh dest src n a p = Some r"
  using assms
proof (induction "unat (l3_rxSize (pr_layer3 p)) - unat (l3_rxIndex (pr_layer3 p))" arbitrary: n a p rule: less_induct)
  case less
  show ?case
  proof (cases "l3_getMessagePtr (pr_layer3 p)")
    case (Inl e)
    then show ?thesis by (subst rxMsgLoop.simps) simp
  next
    case (Inr r)
    obtain rc m l where r: "r = (rc, m, l)" by (cases r)
    show ?thesis
    proof (cases m)
      case None
      then show ?thesis using Inr r by (subst rxMsgLoop.simps) simp
    next
      case (Some x)
      obtain i ptr where x: "x = (i, ptr)" by (cases x)
      have g: "l3_getMessagePtr (pr_layer3 p) = Inr (rc, Some x, l)" using Inr r Some by simp
      note c = l3_getMessagePtr_cases [OF g]
      have lt: "unat (l3_rxIndex (pr_layer3 p)) < unat (l3_rxSize (pr_layer3 p))"
        using c(4) by (simp add: word_less_nat_alt)
      then have fwd: "unat (l3_rxIndex (pr_layer3 p)) < unat (l3_rxIndex l)"
        using c(3) less.prems by (auto simp: word_less_nat_alt)
      show ?thesis
      proof (cases "rxh ptr dest src a (p\<lparr>pr_layer3 := l\<rparr>)")
        case (Inl e)
        then show ?thesis using g x by (subst rxMsgLoop.simps) simp
      next
        case (Inr q)
        obtain a' p' where q: "q = (a', p')" by (cases q)
        have s: "rx_same l (pr_layer3 p')" using keeps [of ptr dest src a "p\<lparr>pr_layer3 := l\<rparr>"] Inr q by fastforce
        have d: "l3_rxData l = l3_rxData (pr_layer3 p)" "l3_rxSize l = l3_rxSize (pr_layer3 p)"
          by (subst c(1), simp)+
        have "\<exists>r. rxMsgLoop rxh dest src (to_i16 (n + 1)) a' p' = Some r"
          using s d fwd lt less.prems by (intro less.hyps) (auto simp: rx_same_def zero_step_def)
        then show ?thesis using g x Inr q by (subst rxMsgLoop.simps) simp
      qed
    qed
  qed
qed

lemma loop_diverges:
  assumes "\<And>ptr a p. \<exists>r. rxh ptr dest src a p = Inr r"
    and "zero_step (pr_layer3 p) (unat (l3_rxIndex (pr_layer3 p)))"
    and "l3_rxIndex (pr_layer3 p) < l3_rxSize (pr_layer3 p)"
  shows "rxMsgLoop rxh dest src n a p = None"
proof -
  define W where "W l \<longleftrightarrow> zero_step l (unat (l3_rxIndex l)) \<and> l3_rxIndex l < l3_rxSize l" for l
  have W_same: "W l'" if "W l" "rx_same l l'" for l l'
    using that by (simp add: W_def rx_same_def zero_step_def)
  have False if "rxMsgLoop rxh dest src n a p = Some y" for y
  proof -
    have "rxh = rxh \<and> dest = dest \<and> src = src \<and> W (pr_layer3 p) \<longrightarrow> False"
    proof (rule rxMsgLoop.raw_induct [where P = "\<lambda>h de sr n a p y.
          h = rxh \<and> de = dest \<and> sr = src \<and> W (pr_layer3 p) \<longrightarrow> False", OF _ that])
      fix loop :: "('a, 'w) rx_handler \<Rightarrow> u16 \<Rightarrow> u16 \<Rightarrow> int \<Rightarrow> 'a \<Rightarrow> 'w proto \<Rightarrow> (int \<times> 'a \<times> 'w proto) res option"
      fix h de sr n a p y
      assume IH: "\<And>h de sr n a p y. loop h de sr n a p = Some y \<Longrightarrow>
          h = rxh \<and> de = dest \<and> sr = src \<and> W (pr_layer3 p) \<longrightarrow> False"
        and body: "(case l3_getMessagePtr (pr_layer3 p) of Inl e \<Rightarrow> Some (Inl e)
          | Inr (rc, m, l) \<Rightarrow> (case m of None \<Rightarrow> Some (Inr (n, a, p\<lparr>pr_layer3 := l\<rparr>))
             | Some (msgId, ptr) \<Rightarrow> (case h ptr de sr a (p\<lparr>pr_layer3 := l\<rparr>) of Inl e \<Rightarrow> Some (Inl e)
                | Inr (a', p') \<Rightarrow> loop h de sr (to_i16 (n + 1)) a' p'))) = Some y"
      show "h = rxh \<and> de = dest \<and> sr = src \<and> W (pr_layer3 p) \<longrightarrow> False"
      proof
        assume h: "h = rxh \<and> de = dest \<and> sr = src \<and> W (pr_layer3 p)"
        define ptr where "ptr = drop (unat (l3_rxIndex (pr_layer3 p))) (l3_rxData (pr_layer3 p))"
        have g: "l3_getMessagePtr (pr_layer3 p) = Inr (0, Some (MsgAppType, ptr), pr_layer3 p)"
          using h by (simp add: W_def ptr_def zero_step_stays)
        obtain a' p' where r: "rxh ptr dest src a p = Inr (a', p')"
          using assms(1) [of ptr a p] by auto
        have "loop rxh dest src (to_i16 (n + 1)) a' p' = Some y" using body h g r by simp
        then show False using IH W_same [OF _ keeps [OF r]] h by blast
      qed
    qed
    then show False using assms by (simp add: W_def)
  qed
  then show ?thesis by (cases "rxMsgLoop rxh dest src n a p") auto
qed

end

section \<open>Runs of the receiver inside the engine\<close>

lemma rx_data_prefix:
  assumes "l2_sizes l" and "l2_state l = stRxData" and "l2_index l = 10 + m"
    and "m + length bs < unat (h_dataSize (l2_packet l))" and "unat (h_dataSize (l2_packet l)) \<le> 244"
  shows "\<exists>r l'. l2_rxBytes bs (rc, l) = Inr (r, l') \<and> l2_state l' = stRxData"
  using assms
proof (induction bs arbitrary: rc l m)
  case (Cons b bs)
  define l1 where "l1 = l\<lparr>l2_packet := (l2_packet l)[10 + m := b], l2_index := 10 + Suc m,
      l2_rxCrc16 := UPDATE_CRC16 b (l2_rxCrc16 l)\<rparr>"
  have "l2_rxHandler b l = Inr (1, l1)"
    using Cons.prems by (simp add: l2_rxHandler_def store_def l2_consts l1_def Let_def l2_sizes_def)
  moreover have "\<exists>r l'. l2_rxBytes bs (1, l1) = Inr (r, l') \<and> l2_state l' = stRxData"
    using Cons.prems by (intro Cons.IH [of _ "Suc m"]) (simp_all add: l1_def l2_sizes_def)
  ultimately show ?case by (simp add: l2_rxBytes_def)
qed (simp add: l2_rxBytes_def)

lemma l2_rxHandler_codes:
  assumes "l2_rxHandler b l = Inr (r, l')" and "\<not> l2_enableDataIOLt l"
  shows "r = 2 \<longleftrightarrow> l2_state l' = stPacketReady" and "r \<noteq> 3" and "\<not> l2_enableDataIOLt l'"
    and "l2_state l = stPacketReady \<Longrightarrow> l' = l"
  using assms
  by (auto simp: l2_rxHandler_def l2_rxHeaderDone_def l2_startRx_def l2_countError_def Let_def res_elims
      split: TRxState.splits if_split_asm)

lemma ready_stays:
  "l2_state l = stPacketReady \<Longrightarrow> \<exists>r. l2_rxBytes bs (rc, l) = Inr (r, l)"
proof (induction bs arbitrary: rc)
  case (Cons b bs)
  then have "l2_rxHandler b l = Inr (2, l)" by (simp add: l2_rxHandler_def)
  with Cons show ?case by (simp add: l2_rxBytes_def)
qed (simp add: l2_rxBytes_def)

text \<open>A byte buffer whose array \<open>xs\<close> has been read up to position \<open>i\<close>.\<close>

definition tb_at :: "u8 tbuffer \<Rightarrow> u8 list \<Rightarrow> nat \<Rightarrow> bool" where
  "tb_at b xs i \<longleftrightarrow> buffer b = xs \<and> tb_size b = int (length xs) \<and> length xs < 32768 \<and> iread b = int i"

lemma tb_at_read:
  assumes "tb_at b xs i" and "i < length xs"
  shows "\<exists>b'. read_wo_check b = Inr (xs ! i, b') \<and> (Suc i < length xs \<longrightarrow> tb_at b' xs (Suc i))"
  using assms by (auto simp: tb_at_def read_wo_check_def incrementIRead_def Let_def to_i16_def)

lemma rxBytesLoop_quiet:
  assumes "l2_rxBytes bs (r0, pr_layer2 p) = Inr (r1, l')" and "l2_state l' \<noteq> stPacketReady"
    and "\<not> l2_enableDataIOLt (pr_layer2 p)" and "tb_at b xs i" and "take (length bs) (drop i xs) = bs"
    and "i + length bs < length xs"
  shows "\<exists>b'. rxBytesLoop rxh onEnd (length bs + k) rc a p b = rxBytesLoop rxh onEnd k rc a (p\<lparr>pr_layer2 := l'\<rparr>) b'
     \<and> tb_at b' xs (i + length bs) \<and> \<not> l2_enableDataIOLt l'"
  using assms
proof (induction bs arbitrary: r0 p b i)
  case Nil
  then show ?case by (auto simp: l2_rxBytes_def)
next
  case (Cons c bs)
  have c: "xs ! i = c" and rest: "take (length bs) (drop (Suc i) xs) = bs"
    using Cons.prems(5,6) Cons_nth_drop_Suc [of i xs] by (simp_all, metis list.inject take_Suc_Cons)+
  obtain r l where st: "l2_rxHandler c (pr_layer2 p) = Inr (r, l)" "l2_rxBytes bs (r, l) = Inr (r1, l')"
    using Cons.prems(1) by (auto simp: l2_rxBytes_def res_elims)
  have nr: "l2_state l \<noteq> stPacketReady" using ready_stays [of l bs r] st(2) Cons.prems(2) by auto
  note codes = l2_rxHandler_codes [OF st(1) Cons.prems(3)]
  obtain b1 where b1: "read_wo_check b = Inr (c, b1)" "tb_at b1 xs (Suc i)"
    using tb_at_read [OF Cons.prems(4)] Cons.prems(6) c by auto
  have "\<exists>b'. rxBytesLoop rxh onEnd (length bs + k) rc a (p\<lparr>pr_layer2 := l\<rparr>) b1 =
      rxBytesLoop rxh onEnd k rc a ((p\<lparr>pr_layer2 := l\<rparr>)\<lparr>pr_layer2 := l'\<rparr>) b'
     \<and> tb_at b' xs (Suc i + length bs) \<and> \<not> l2_enableDataIOLt l'"
    using st(2) Cons.prems codes b1 rest by (intro Cons.IH) simp_all
  with b1 st nr codes show ?case by (auto simp: Let_def)
qed

section \<open>From messages to messages\<close>

abbreviation msgs_bytes :: "(u8 list \<times> u8 list) list \<Rightarrow> u8 list" where
  "msgs_bytes ms \<equiv> concat (map (\<lambda>(m, d). m @ d) ms)"

abbreviation msgs_lens :: "(u8 list \<times> u8 list) list \<Rightarrow> nat list" where
  "msgs_lens ms \<equiv> map (\<lambda>(m, d). length m + length d) ms"

text \<open>Adding the messages one after the other, each with result 0.\<close>

definition l3_addAll :: "(u8 list \<times> u8 list) list \<Rightarrow> int \<times> layer3 \<Rightarrow> (int \<times> layer3) res" where
  "l3_addAll = rfold (\<lambda>(m, d) (rc, l). if rc = 0 then l3_addMessage m d l else Inr (rc, l))"

lemma l3_addAll_ok:
  assumes "l3_tx_inv l" and "\<forall>(m, d) \<in> set ms. msg_ok m d"
    and "unat (l3_txIndex l) + length (msgs_bytes ms) \<le> unat (l3_maxTxAppSize l)"
  shows "\<exists>l'. l3_addAll ms (0, l) = Inr (0, l') \<and> l3_tx_inv l' \<and> l3_txData l' = l3_txData l @ msgs_bytes ms \<and>
     length (l3_txPacket l') = length (l3_txPacket l)"
  using assms
proof (induction ms arbitrary: l)
  case Nil
  then show ?case by (simp add: l3_addAll_def)
next
  case (Cons x ms)
  obtain m d where x: "x = (m, d)" by (cases x)
  obtain l1 where l1: "l3_addMessage m d l = Inr (0, l1)" "l3_tx_inv l1" "l3_txData l1 = l3_txData l @ m @ d"
      "l1 = l\<lparr>l3_txPacket := l3_txPacket l1, l3_txIndex := l3_txIndex l1\<rparr>"
      "length (l3_txPacket l1) = length (l3_txPacket l)"
    using l3_addMessage_ok [of l m d] Cons.prems x by auto
  have "l3_maxTxAppSize l1 = l3_maxTxAppSize l" by (subst l1(4)) simp
  moreover have "unat (l3_txIndex l1) = unat (l3_txIndex l) + length m + length d"
    using arg_cong [OF l1(3), of length] l1(2) Cons.prems(1) by simp
  ultimately have "\<exists>l'. l3_addAll ms (0, l1) = Inr (0, l') \<and> l3_tx_inv l' \<and>
      l3_txData l' = l3_txData l1 @ msgs_bytes ms \<and> length (l3_txPacket l') = length (l3_txPacket l1)"
    using l1(2) Cons.prems x by (intro Cons.IH) auto
  with l1 x show ?case by (auto simp: l3_addAll_def)
qed

lemma l3_finishTxPacket_frame:
  assumes "l3_tx_inv l" and "l3_txData l = ds" and "ds \<noteq> []"
  shows "\<exists>l'. l3_finishTxPacket d lr2 l = Inr (10 + l3_txIndex l, l') \<and> l3_txIndex l' = 0 \<and>
     take (10 + length ds) (l3_txPacket l') = frame d (l2_selfAddress lr2) ds \<and>
     length (l3_txPacket l') = length (l3_txPacket l)"
proof -
  define p2 where "p2 = put16 (l3_txPacket l) 4 (l3_txIndex l)"
  have n: "length ds = unat (l3_txIndex l)" using assms by auto
  have len: "10 + length ds \<le> length p2" "6 \<le> length (l3_txPacket l)"
    using assms(1) n by (auto simp: p2_def l3_tx_inv_def word_le_nat_alt)
  have sz: "h_dataSize p2 = of_nat (length ds)" "h_dataSize p2 = l3_txIndex l"
    using len n by (simp_all add: p2_def)
  have "take (length ds) (drop 10 p2) = ds" using assms(2) n by (simp add: p2_def l3_txData_def)
  from l2_finishTxPacket_frame [OF len(1) sz(1) _ this, of d lr2] n
  obtain p where p: "l2_finishTxPacket d p2 lr2 = Inr p" "length p = length p2"
      "take (10 + length ds) p = frame d (l2_selfAddress lr2) ds" "h_dataSize p = h_dataSize p2"
    by auto
  have "l3_txIndex l \<noteq> 0" using n assms(3) by auto
  with p len sz show ?thesis by (simp add: l3_finishTxPacket_def p2_def [symmetric]) (simp add: p2_def)
qed


lemma rx_frame_split:
  assumes "l2_sizes l" and "l2_state l = stWait" and "ds \<noteq> []" and "length ds \<le> 244"
    and "d = l2_selfAddress l \<or> d = l2_broadcastAddress l"
  shows "\<exists>r lq l'. l2_rxBytes (butlast (frame d s ds)) (rc, l) = Inr (r, lq) \<and> l2_state lq = stRxData \<and>
     l2_rxHandler (last ds) lq = Inr (2, l') \<and> l2_state l' = stPacketReady \<and>
     take (length ds) (drop 10 (l2_packet l')) = ds \<and> h_dataSize (l2_packet l') = of_nat (length ds) \<and>
     h_destAddress (l2_packet l') = d \<and> h_srcAddress (l2_packet l') = s"
proof -
  define c where "c = crc_block ds 0xffff"
  define hd0 where "hd0 = frame_hdr d s (length ds) @ bytes16 (crc_block (frame_hdr d s (length ds)) 0xffff)
      @ [lo8 c, hi8 c]"
  have fr: "frame d s ds = (hd0 @ butlast ds) @ [last ds]"
    using assms(3) by (simp add: frame_def hd0_def c_def bytes16_def)
  obtain l1 where h: "l2_rxBytes hd0 (rc, l) = Inr (1, l1)" "l2_sizes l1" "l2_state l1 = stRxData"
      "l2_index l1 = 10" "h_dataSize (l2_packet l1) = of_nat (length ds)"
    unfolding hd0_def using rx_frame_header [OF assms(1,2,4,5)] assms(1)
    by (simp add: l2_sizes_def get16_def l2_consts)
  obtain r lq where q: "l2_rxBytes (butlast ds) (1, l1) = Inr (r, lq)" "l2_state lq = stRxData"
    using rx_data_prefix [of l1 0 "butlast ds" 1] h assms(3,4) by auto
  obtain l' where l': "l2_rxBytes (frame d s ds) (rc, l) = Inr (2, l')" "l2_state l' = stPacketReady"
     "take (length ds) (drop 10 (l2_packet l')) = ds" "h_dataSize (l2_packet l') = of_nat (length ds)"
     "h_destAddress (l2_packet l') = d" "h_srcAddress (l2_packet l') = s"
    using rx_frame [OF assms, of s rc] by blast
  have i: "l2_rxBytes (hd0 @ butlast ds) (rc, l) = Inr (r, lq)"
    using h(1) q(1) by (simp add: l2_rxBytes_def rfold_append)
  then have "l2_rxHandler (last ds) lq = Inr (2, l')"
    using l'(1) h(1) q(1) unfolding fr by (auto simp: l2_rxBytes_def rfold_append res_elims)
  moreover have "butlast (frame d s ds) = hd0 @ butlast ds" unfolding fr by (rule butlast_snoc)
  ultimately show ?thesis using i q(2) l'(2-6) by auto
qed

text \<open>The engine on the bytes of one frame.\<close>

lemma rxBytesLoop_frame:
  assumes "l2_sizes (pr_layer2 p)" and "l2_state (pr_layer2 p) = stWait" and "\<not> l2_enableDataIOLt (pr_layer2 p)"
    and "ds \<noteq> []" and "length ds \<le> 244"
    and "d = l2_selfAddress (pr_layer2 p) \<or> d = l2_broadcastAddress (pr_layer2 p)"
    and "tb_at b (frame d s ds) 0"
  shows "\<exists>l b'. l2_state l = stPacketReady \<and> take (length ds) (drop 10 (l2_packet l)) = ds \<and>
     h_dataSize (l2_packet l) = of_nat (length ds) \<and> h_destAddress (l2_packet l) = d \<and>
     h_srcAddress (l2_packet l) = s \<and>
     rxBytesLoop rxh onEnd (10 + length ds) rc a p b =
       (case rxPacket rxh onEnd a (p\<lparr>pr_layer2 := l\<rparr>) of
          None \<Rightarrow> None | Some (Inl e) \<Rightarrow> Some (Inl e) | Some (Inr (a, p)) \<Rightarrow> Some (Inr (2, a, p, b')))"
proof -
  define fr where "fr = frame d s ds"
  have len: "length fr = 10 + length ds" by (simp add: fr_def frame_def)
  have last: "fr ! (9 + length ds) = last ds" and bl: "take (9 + length ds) fr = butlast fr" "length (butlast fr) = 9 + length ds"
  proof -
    have "fr \<noteq> []" "last fr = last ds" using assms(4) by (auto simp: fr_def frame_def)
    then show "fr ! (9 + length ds) = last ds" using len by (simp add: last_conv_nth)
    show "take (9 + length ds) fr = butlast fr" "length (butlast fr) = 9 + length ds"
      using len by (simp_all add: butlast_conv_take)
  qed
  obtain r lq l' where q: "l2_rxBytes (butlast fr) (0, pr_layer2 p) = Inr (r, lq)" "l2_state lq = stRxData"
      "l2_rxHandler (last ds) lq = Inr (2, l')" "l2_state l' = stPacketReady"
      "take (length ds) (drop 10 (l2_packet l')) = ds" "h_dataSize (l2_packet l') = of_nat (length ds)"
      "h_destAddress (l2_packet l') = d" "h_srcAddress (l2_packet l') = s"
    using rx_frame_split [OF assms(1,2,4,5,6), of s 0] by (auto simp: fr_def)
  obtain b1 where b1: "rxBytesLoop rxh onEnd (9 + length ds + 1) rc a p b =
      rxBytesLoop rxh onEnd 1 rc a (p\<lparr>pr_layer2 := lq\<rparr>) b1" "tb_at b1 fr (9 + length ds)"
    using rxBytesLoop_quiet [OF q(1) _ assms(3) assms(7), of rxh onEnd 1 rc a] q(2) bl len
    by (auto simp: fr_def)
  obtain b2 where "read_wo_check b1 = Inr (last ds, b2)"
    using tb_at_read [OF b1(2)] len last by auto
  then have "rxBytesLoop rxh onEnd 1 rc a (p\<lparr>pr_layer2 := lq\<rparr>) b1 =
       (case rxPacket rxh onEnd a (p\<lparr>pr_layer2 := l'\<rparr>) of
          None \<Rightarrow> None | Some (Inl e) \<Rightarrow> Some (Inl e) | Some (Inr (a, p)) \<Rightarrow> Some (Inr (2, a, p, b2)))"
    using q(3) by (simp add: One_nat_def Let_def split: option.splits sum.splits)
  then show ?thesis using q b1(1) by (auto simp: add.commute)
qed


text \<open>A handler that records its calls.\<close>

definition rx_record :: "((u8 list \<times> u16 \<times> u16) list, 'w) rx_handler" where
  "rx_record ptr dest src a p = Inr (a @ [(ptr, dest, src)], p)"

interpretation rec: rx_message_handler rx_record
  by unfold_locales (auto simp: rx_record_def rx_same_def)

lemma rx_record_delivers:
  assumes "l3_rx_inv (pr_layer3 p)" and "\<forall>(m, d) \<in> set ms. msg_ok m d"
    and "l3_rxRest (pr_layer3 p) = msgs_bytes ms"
  shows "\<exists>log n' l'. rxDeliver rx_record dest src (msgs_lens ms) n a p = Inr (n', a @ log, p\<lparr>pr_layer3 := l'\<rparr>) \<and>
     list_all2 (\<lambda>(m, d) (ptr, de, sr). take (length m + length d) ptr = m @ d \<and> de = dest \<and> sr = src) ms log"
  using assms
proof (induction ms arbitrary: n a p)
  case Nil
  then show ?case by (intro exI [of _ "[]"] exI [of _ n] exI [of _ "pr_layer3 p"]) simp
next
  case (Cons x ms)
  obtain m d where x: "x = (m, d)" by (cases x)
  let ?l = "pr_layer3 p"
  define ptr where "ptr = drop (unat (l3_rxIndex ?l)) (l3_rxData ?l)"
  define l' where "l' = ?l\<lparr>l3_rxIndex := l3_rxIndex ?l + of_nat (length m + length d)\<rparr>"
  have g: "l3_rx_inv l'" "l3_rxRest l' = msgs_bytes ms"
    using l3_getMessagePtr_exact [of ?l m d] Cons.prems x by (auto simp: l'_def)
  have "take (length m + length d) (l3_rxRest ?l) = m @ d" using Cons.prems(3) x by simp
  moreover have "length m + length d \<le> unat (l3_rxSize ?l) - unat (l3_rxIndex ?l)"
    using length_l3_rxRest [OF Cons.prems(1)] Cons.prems(3) x by simp
  ultimately have "take (length m + length d) ptr = m @ d"
    by (simp add: l3_rxRest_def ptr_def min_absorb1)
  moreover obtain log n' l2 where "rxDeliver rx_record dest src (msgs_lens ms) (to_i16 (n + 1))
        (a @ [(ptr, dest, src)]) (p\<lparr>pr_layer3 := l'\<rparr>) = Inr (n', (a @ [(ptr, dest, src)]) @ log, (p\<lparr>pr_layer3 := l'\<rparr>)\<lparr>pr_layer3 := l2\<rparr>)"
      "list_all2 (\<lambda>(m, d) (ptr, de, sr). take (length m + length d) ptr = m @ d \<and> de = dest \<and> sr = src) ms log"
    using Cons.IH [of "p\<lparr>pr_layer3 := l'\<rparr>" "to_i16 (n + 1)" "a @ [(ptr, dest, src)]"] g Cons.prems(2)
    by auto
  ultimately show ?case
    by (intro exI [of _ "(ptr, dest, src) # log"] exI [of _ n'] exI [of _ l2])
      (simp add: x rx_record_def [of "drop _ _"] Let_def ptr_def l'_def)
qed

lemma rxPacket_record:
  assumes "l2_state (pr_layer2 p) = stPacketReady" and "take (length ds) (drop 10 (l2_packet (pr_layer2 p))) = ds"
    and "length ds \<le> 244" and "h_dataSize (l2_packet (pr_layer2 p)) = of_nat (length ds)"
    and "\<forall>(m, d) \<in> set ms. msg_ok m d" and "ds = msgs_bytes ms"
  shows "\<exists>log p'. rxPacket rx_record (\<lambda>src a p. Inr (a, p)) a p = Some (Inr (a @ log, p')) \<and>
     l2_state (pr_layer2 p') = stWait \<and>
     list_all2 (\<lambda>(m, d) (ptr, de, sr). take (length m + length d) ptr = m @ d \<and>
       de = ucast (h_destAddress (l2_packet (pr_layer2 p))) \<and> sr = ucast (h_srcAddress (l2_packet (pr_layer2 p)))) ms log"
proof -
  define de sr where "de = h_destAddress (l2_packet (pr_layer2 p))" and "sr = h_srcAddress (l2_packet (pr_layer2 p))"
  define l where "l = (pr_layer3 p)\<lparr>l3_rxIndex := 0, l3_rxSize := of_nat (length ds), l3_rxData := drop 10 (l2_packet (pr_layer2 p))\<rparr>"
  define q where "q = onBeginRxPacketProcess (p\<lparr>pr_layer3 := l, pr_srcAddress := ucast sr\<rparr>)"
  have rd: "l3_readPacket (pr_layer2 p) (pr_layer3 p) = ((of_nat (length ds), Some (de, sr)), l)"
    using assms(1,4) by (simp add: l3_readPacket_def l2_getRxDataPtr_def l_def de_def sr_def)
  have "length ds \<le> length (drop 10 (l2_packet (pr_layer2 p)))" using arg_cong [OF assms(2), of length] by simp
  then have q: "l3_rx_inv (pr_layer3 q)" "l3_rxRest (pr_layer3 q) = msgs_bytes ms" "pr_layer2 q = pr_layer2 p"
    using assms(2,3,6) by (simp_all add: q_def l_def onBeginRxPacketProcess_def proto_startTxPacket_def
        l3_startTxPacket_def l3_rx_inv_def l3_rxRest_def)
  obtain log n' l' where d: "rxDeliver rx_record (ucast de) (ucast sr) (msgs_lens ms) 0 a q = Inr (n', a @ log, q\<lparr>pr_layer3 := l'\<rparr>)"
     "list_all2 (\<lambda>(m, d) (ptr, de', sr'). take (length m + length d) ptr = m @ d \<and> de' = ucast de \<and> sr' = ucast sr) ms log"
    using rx_record_delivers [OF q(1) assms(5) q(2)] by blast
  have "rxMsgLoop rx_record (ucast de) (ucast sr) 0 a q = Some (Inr (n', a @ log, q\<lparr>pr_layer3 := l'\<rparr>))"
    using rec.loop_delivers [OF q(1) assms(5) q(2)] d(1) by simp
  then have "rxPacket rx_record (\<lambda>src a p. Inr (a, p)) a p =
      Some (Inr (a @ log, (q\<lparr>pr_layer3 := l'\<rparr>)\<lparr>pr_layer2 := l2_startRx (pr_layer2 q)\<rparr>))"
    by (simp add: rxPacket_def rd Let_def q_def [symmetric])
  then show ?thesis using d(2) by (auto simp: de_def sr_def l2_startRx_def)
qed

text \<open>What the message handler and the end of a packet keep of the application's state, the engine keeps.\<close>

lemma rxMsgLoop_app:
  assumes "rxMsgLoop rxh dest src n a p = Some (Inr (n', a', p'))" and "I a"
    and keeps: "\<And>ptr a p a' p'. I a \<Longrightarrow> rxh ptr dest src a p = Inr (a', p') \<Longrightarrow> I a'"
  shows "I a'"
proof -
  have "(\<forall>ptr a p a' p'. I a \<longrightarrow> rxh ptr dest src a p = Inr (a', p') \<longrightarrow> I a') \<longrightarrow> I a \<longrightarrow>
      (case r of Inl e \<Rightarrow> True | Inr (n', a', p') \<Rightarrow> I a')" if "rxMsgLoop rxh dest src n a p = Some r" for r
  proof (rule rxMsgLoop.raw_induct [OF _ that], intro impI)
    fix loop rxh dest src n a p r
    assume IH: "\<And>rxh dest src n a p y. loop rxh dest src n a p = Some y \<Longrightarrow>
        (\<forall>ptr a p a' p'. I a \<longrightarrow> rxh ptr dest src a p = Inr (a', p') \<longrightarrow> I a') \<longrightarrow> I a \<longrightarrow>
        (case y of Inl e \<Rightarrow> True | Inr (n', a', p') \<Rightarrow> I a')"
      and eq: "(case l3_getMessagePtr (pr_layer3 p) of Inl e \<Rightarrow> Some (Inl e)
        | Inr (rc, m, l) \<Rightarrow> (case m of None \<Rightarrow> Some (Inr (n, a, p\<lparr>pr_layer3 := l\<rparr>))
           | Some (msgId, ptr) \<Rightarrow> (case rxh ptr dest src a (p\<lparr>pr_layer3 := l\<rparr>) of Inl e \<Rightarrow> Some (Inl e)
              | Inr (a', p') \<Rightarrow> loop rxh dest src (to_i16 (n + 1)) a' p'))) = Some r"
      and k: "\<forall>ptr a p a' p'. I a \<longrightarrow> rxh ptr dest src a p = Inr (a', p') \<longrightarrow> I a'" and a: "I a"
    from eq consider (err) e where "r = Inl e" | (stop) n' p' where "r = Inr (n', a, p')"
      | (more) ptr l a' p' where "rxh ptr dest src a (p\<lparr>pr_layer3 := l\<rparr>) = Inr (a', p')"
          "loop rxh dest src (to_i16 (n + 1)) a' p' = Some r"
      by (auto split: sum.splits prod.splits option.splits)
    then show "case r of Inl e \<Rightarrow> True | Inr (n', a', p') \<Rightarrow> I a'"
    proof cases
      case more
      then show ?thesis using IH k a by blast
    qed (use a in simp_all)
  qed
  from this [OF assms(1)] keeps assms(2) show ?thesis by auto
qed


lemma rxPacket_app:
  assumes "rxPacket rxh onEnd a p = Some (Inr (a', p'))" and "I a"
    and rxh: "\<And>ptr dest src a p a' p'. I a \<Longrightarrow> rxh ptr dest src a p = Inr (a', p') \<Longrightarrow> I a'"
    and onEnd: "\<And>src a p a' p'. I a \<Longrightarrow> onEnd src a p = Inr (a', p') \<Longrightarrow> I a'"
  shows "I a'"
proof -
  obtain dest src p0 n1 a1 p1 p2 where l: "rxMsgLoop rxh dest src 0 a p0 = Some (Inr (n1, a1, p1))" "onEnd src a1 p1 = Inr (a', p2)"
    using assms(1) by (auto simp: rxPacket_def Let_def rbind_Inr_iff split: prod.splits option.splits sum.splits)
  have "I a1" by (rule rxMsgLoop_app [where I = I, OF l(1) assms(2)]) (rule rxh)
  then show ?thesis using l(2) by (rule onEnd)
qed

lemma rxBytesLoop_app:
  assumes "rxBytesLoop rxh onEnd n rc a p b = Some (Inr (rc', a', p', b'))" and "I a"
    and rxh: "\<And>ptr dest src a p a' p'. I a \<Longrightarrow> rxh ptr dest src a p = Inr (a', p') \<Longrightarrow> I a'"
    and onEnd: "\<And>src a p a' p'. I a \<Longrightarrow> onEnd src a p = Inr (a', p') \<Longrightarrow> I a'"
  shows "I a'"
  using assms(1,2)
proof (induction n arbitrary: rc a p b)
  case (Suc n)
  from Suc.prems(1) consider (stop) "a' = a"
    | (pack) p0 a1 p1 rc1 b1 where "rxPacket rxh onEnd a p0 = Some (Inr (a1, p1))" "rxBytesLoop rxh onEnd n rc1 a1 p1 b1 = Some (Inr (rc', a', p', b'))"
    | (more) rc1 p1 b1 where "rxBytesLoop rxh onEnd n rc1 a p1 b1 = Some (Inr (rc', a', p', b'))"
    by (auto simp: Let_def split: sum.splits prod.splits option.splits if_split_asm)
  then show ?case
  proof cases
    case pack
    have "I a1" by (rule rxPacket_app [where I = I, OF pack(1) Suc.prems(2)]) (fact rxh, fact onEnd)
    with pack(2) show ?thesis by (rule Suc.IH)
  qed (use Suc in auto)
qed simp

lemma processInputData_app:
  assumes "proto_processInputData rxh onEnd now n pre a p b = Some (Inr (rc', a', p', b'))" and "I a"
    and "\<And>ptr dest src a p a' p'. I a \<Longrightarrow> rxh ptr dest src a p = Inr (a', p') \<Longrightarrow> I a'"
    and "\<And>src a p a' p'. I a \<Longrightarrow> onEnd src a p = Inr (a', p') \<Longrightarrow> I a'"
  shows "I a'"
  using assms(1) unfolding proto_processInputData_def Let_def by (rule rxBytesLoop_app) (use assms(2-) in blast)+

section \<open>Properties\<close>

text \<open>
  C1: from messages to messages: well-formed messages (together at most one packet) added to an
  empty packet and finished on one node give bytes from which the engine of every addressed node whose
  receiver is waiting hands exactly these messages, in order and complete, with the two addresses, to
  its message handler, and then waits for the next packet. The handler here records its calls.
\<close>

theorem messages_delivered:
  assumes "l3_tx_inv l" and "l3_txIndex l = 0" and "ms \<noteq> []" and "\<forall>(m, d) \<in> set ms. msg_ok m d"
    and "length (msgs_bytes ms) \<le> unat (l3_maxTxAppSize l)" and "length (msgs_bytes ms) \<le> MaxLayer2DataSize"
    and "length (l2_packet (pr_layer2 p)) = LR2_PACKET_size" and "length (l2_errors (pr_layer2 p)) = 5"
    and "l2_state (pr_layer2 p) = stWait" and "\<not> l2_enableDataIOLt (pr_layer2 p)"
    and "dest = l2_selfAddress (pr_layer2 p) \<or> dest = l2_broadcastAddress (pr_layer2 p)"
  shows "\<exists>l1 n l2 log p' b'. l3_addAll ms (0, l) = Inr (0, l1) \<and> l3_finishTxPacket dest t l1 = Inr (n, l2) \<and>
     proto_processInputData rx_record (\<lambda>src a p. Inr (a, p)) now n False a p
       (tbuffer_new (take (unat n) (l3_txPacket l2)) (int (unat n))) = Some (Inr (2, a @ log, p', b')) \<and>
     list_all2 (\<lambda>(m, d) (ptr, de, sr). take (length m + length d) ptr = m @ d \<and>
       de = ucast dest \<and> sr = ucast (l2_selfAddress t)) ms log \<and> l2_state (pr_layer2 p') = stWait"
proof -
  define ds where "ds = msgs_bytes ms"
  have n: "length ds \<le> 244" using assms(6) by (simp add: ds_def MaxLayer2DataSize_def)
  have ne: "ds \<noteq> []"
  proof -
    obtain m d ms' where "ms = (m, d) # ms'" using assms(3) by (cases ms) auto
    then show ?thesis using assms(4) msg_ok_len [of m d] by (auto simp: ds_def)
  qed
  obtain l1 where l1: "l3_addAll ms (0, l) = Inr (0, l1)" "l3_tx_inv l1" "l3_txData l1 = ds"
    using l3_addAll_ok [OF assms(1,4)] assms(2,5) by (auto simp: ds_def l3_txData_def)
  have idx: "unat (l3_txIndex l1) = length ds" using length_l3_txData [OF l1(2)] l1(3) by simp
  have n10: "unat (10 + l3_txIndex l1) = 10 + length ds" using idx n by (subst unat_add_u16) simp_all
  obtain l2 where l2: "l3_finishTxPacket dest t l1 = Inr (10 + l3_txIndex l1, l2)"
      "take (10 + length ds) (l3_txPacket l2) = frame dest (l2_selfAddress t) ds"
    using l3_finishTxPacket_frame [OF l1(2,3) ne] by blast
  let ?p = "if difftime (pr_rxTicks p) now \<ge> pr_rxTimeout p then p\<lparr>pr_layer2 := l2_startRx (pr_layer2 p)\<rparr> else p"
  define q where "q = ?p\<lparr>pr_rxTicks := now\<rparr>"
  have q: "l2_sizes (pr_layer2 q)" "l2_state (pr_layer2 q) = stWait" "\<not> l2_enableDataIOLt (pr_layer2 q)"
      "dest = l2_selfAddress (pr_layer2 q) \<or> dest = l2_broadcastAddress (pr_layer2 q)"
    using assms(7-11) by (simp_all add: q_def l2_sizes_def l2_startRx_def)
  define fr where "fr = frame dest (l2_selfAddress t) ds"
  have frlen: "length fr = 10 + length ds" by (simp add: fr_def frame_def)
  have b: "tb_at (tbuffer_new fr (int (10 + length ds))) fr 0"
    using n frlen by (simp add: tb_at_def tbuffer_new_def)
  obtain k b' where k: "l2_state k = stPacketReady" "take (length ds) (drop 10 (l2_packet k)) = ds"
     "h_dataSize (l2_packet k) = of_nat (length ds)" "h_destAddress (l2_packet k) = dest"
     "h_srcAddress (l2_packet k) = l2_selfAddress t"
     "rxBytesLoop rx_record (\<lambda>src a p. Inr (a, p)) (10 + length ds) 0 a q (tbuffer_new fr (int (10 + length ds))) =
       (case rxPacket rx_record (\<lambda>src a p. Inr (a, p)) a (q\<lparr>pr_layer2 := k\<rparr>) of
          None \<Rightarrow> None | Some (Inl e) \<Rightarrow> Some (Inl e) | Some (Inr (a, p)) \<Rightarrow> Some (Inr (2, a, p, b')))"
    using rxBytesLoop_frame [OF q(1,2,3) ne n q(4) b [unfolded fr_def], of rx_record _ 0 a]
    unfolding fr_def by blast
  obtain log p' where r: "rxPacket rx_record (\<lambda>src a p. Inr (a, p)) a (q\<lparr>pr_layer2 := k\<rparr>) = Some (Inr (a @ log, p'))"
     "l2_state (pr_layer2 p') = stWait"
     "list_all2 (\<lambda>(m, d) (ptr, de, sr). take (length m + length d) ptr = m @ d \<and>
       de = ucast dest \<and> sr = ucast (l2_selfAddress t)) ms log"
    using rxPacket_record [of "q\<lparr>pr_layer2 := k\<rparr>" ds ms a] k n assms(4) by (auto simp: ds_def)
  have "proto_processInputData rx_record (\<lambda>src a p. Inr (a, p)) now (10 + l3_txIndex l1) False a p
       (tbuffer_new (take (unat (10 + l3_txIndex l1)) (l3_txPacket l2)) (int (unat (10 + l3_txIndex l1))))
       = Some (Inr (2, a @ log, p', b'))"
    using k(6) r(1) n10 l2(2) by (simp add: proto_processInputData_def Let_def q_def fr_def)
  with l1 l2 r show ?thesis by blast
qed


theorem messages_delivered_witness:
  "\<exists>l1 n l2 log p' b'. l3_addAll [(TMsgParameterRead 1 0x1234, [])]
        (0, \<lparr>l3_txPacket = replicate 254 0, l3_txIndex = 0, l3_rxData = [], l3_rxIndex = 0, l3_rxSize = 0,
          l3_maxTxAppSize = 244\<rparr>) = Inr (0, l1) \<and>
     l3_finishTxPacket 5 (l2_new [] 0 1 0xff) l1 = Inr (n, l2) \<and>
     proto_processInputData rx_record (\<lambda>src a p. Inr (a, p)) 100 n False []
       \<lparr>pr_layer2 = l2_new (replicate 254 0) 0 5 0xff,
        pr_layer3 = \<lparr>l3_txPacket = [], l3_txIndex = 0, l3_rxData = [], l3_rxIndex = 0, l3_rxSize = 0,
          l3_maxTxAppSize = 244\<rparr>, pr_rxTimeout = 5, pr_rxTicks = 0, pr_broadcastAddress = 0xff,
        pr_srcAddress = 0, pr_layer1Number = 3, pr_linkID = 0, pr_world = ()\<rparr>
       (tbuffer_new (take (unat n) (l3_txPacket l2)) (int (unat n))) = Some (Inr (2, [] @ log, p', b')) \<and>
     list_all2 (\<lambda>(m, d) (ptr, de, sr). take (length m + length d) ptr = m @ d \<and> de = ucast (5 :: u8) \<and>
       sr = ucast (l2_selfAddress (l2_new [] 0 1 0xff))) [(TMsgParameterRead 1 0x1234, [])] log \<and>
     l2_state (pr_layer2 p') = stWait"
  by (rule messages_delivered)
    (simp_all add: l3_tx_inv_def l2_new_def l2_clearErrors_def l2_startRx_def l2_consts msg_ok_def
      TMsgParameterRead_def fixedSize_def msg_ids)

text \<open>
  C31: parsing the messages of a block ends for every handler that leaves the block alone, unless the
  block holds an application message header that announces 65530 bytes of data (whose size wraps
  around to zero); on such a header the loop does not end when the handler returns.
\<close>

theorem rx_loop_termination:
  assumes "\<And>ptr dest src a p a' p'. rxh ptr dest src a p = Inr (a', p') \<Longrightarrow> rx_same (pr_layer3 p) (pr_layer3 p')"
  shows "((\<forall>i < unat (l3_rxSize (pr_layer3 p)). \<not> zero_step (pr_layer3 p) i) \<longrightarrow> rxMsgLoop rxh dest src n a p \<noteq> None) \<and>
     ((\<forall>ptr a p. rxh ptr dest src a p \<in> range Inr) \<and> l3_rxIndex (pr_layer3 p) < l3_rxSize (pr_layer3 p) \<and>
       zero_step (pr_layer3 p) (unat (l3_rxIndex (pr_layer3 p))) \<longrightarrow> rxMsgLoop rxh dest src n a p = None)"
proof
  have h: "rx_message_handler rxh" by unfold_locales (rule assms)
  show "(\<forall>i < unat (l3_rxSize (pr_layer3 p)). \<not> zero_step (pr_layer3 p) i) \<longrightarrow> rxMsgLoop rxh dest src n a p \<noteq> None"
    using rx_message_handler.loop_terminates [OF h] by fastforce
  show "(\<forall>ptr a p. rxh ptr dest src a p \<in> range Inr) \<and> l3_rxIndex (pr_layer3 p) < l3_rxSize (pr_layer3 p) \<and>
       zero_step (pr_layer3 p) (unat (l3_rxIndex (pr_layer3 p))) \<longrightarrow> rxMsgLoop rxh dest src n a p = None"
    using rx_message_handler.loop_diverges [OF h] by (metis image_iff)
qed

theorem rx_loop_termination_witness:
  "rxMsgLoop rx_record 0 0 0 [] \<lparr>pr_layer2 = l2_new (replicate 254 0) 0 5 0xff,
        pr_layer3 = \<lparr>l3_txPacket = [], l3_txIndex = 0, l3_rxData = [0x11, 1, 2], l3_rxIndex = 0, l3_rxSize = 3,
          l3_maxTxAppSize = 244\<rparr>, pr_rxTimeout = 5, pr_rxTicks = 0, pr_broadcastAddress = 0xff,
        pr_srcAddress = 0, pr_layer1Number = 3, pr_linkID = 0, pr_world = ()\<rparr> \<noteq> None \<and>
   rxMsgLoop rx_record 0 0 0 [] \<lparr>pr_layer2 = l2_new (replicate 254 0) 0 5 0xff,
        pr_layer3 = \<lparr>l3_txPacket = [], l3_txIndex = 0, l3_rxData = [0x80, 1, 2, 0, 0xFA, 0xFF], l3_rxIndex = 0,
          l3_rxSize = 6, l3_maxTxAppSize = 244\<rparr>, pr_rxTimeout = 5, pr_rxTicks = 0, pr_broadcastAddress = 0xff,
        pr_srcAddress = 0, pr_layer1Number = 3, pr_linkID = 0, pr_world = ()\<rparr> = None"
proof (intro conjI)
  have z: "\<forall>i < unat (3 :: u16). \<not> zero_step \<lparr>l3_txPacket = [], l3_txIndex = 0, l3_rxData = [0x11, 1, 2], l3_rxIndex = 0,
        l3_rxSize = 3, l3_maxTxAppSize = 244\<rparr> i" by (simp add: zero_step_def)
  show "rxMsgLoop rx_record 0 0 0 [] \<lparr>pr_layer2 = l2_new (replicate 254 0) 0 5 0xff,
        pr_layer3 = \<lparr>l3_txPacket = [], l3_txIndex = 0, l3_rxData = [0x11, 1, 2], l3_rxIndex = 0, l3_rxSize = 3,
          l3_maxTxAppSize = 244\<rparr>, pr_rxTimeout = 5, pr_rxTicks = 0, pr_broadcastAddress = 0xff,
        pr_srcAddress = 0, pr_layer1Number = 3, pr_linkID = 0, pr_world = ()\<rparr> \<noteq> None"
    using z by (intro rx_loop_termination [OF rec.keeps, THEN conjunct1, THEN mp]) simp_all
  show "rxMsgLoop rx_record 0 0 0 [] \<lparr>pr_layer2 = l2_new (replicate 254 0) 0 5 0xff,
        pr_layer3 = \<lparr>l3_txPacket = [], l3_txIndex = 0, l3_rxData = [0x80, 1, 2, 0, 0xFA, 0xFF], l3_rxIndex = 0,
          l3_rxSize = 6, l3_maxTxAppSize = 244\<rparr>, pr_rxTimeout = 5, pr_rxTicks = 0, pr_broadcastAddress = 0xff,
        pr_srcAddress = 0, pr_layer1Number = 3, pr_linkID = 0, pr_world = ()\<rparr> = None"
    by (rule rx_loop_termination [OF rec.keeps, THEN conjunct2, THEN mp])
      (simp_all add: rx_record_def zero_step_def msg_ids get16_def mk16_def)
qed

text \<open>
  If \<open>k\<close> ticks have passed since the reading \<open>t\<close> of the tick counter, \<open>difftime\<close> yields \<open>k\<close> as long as
  the 32-bit counter has not wrapped around in between, and \<open>k - 1\<close> when it has.
\<close>

lemma difftime_spec:
  "difftime t (t + k) = (if unat t + unat k < 2 ^ 32 then k else k - 1)"
proof -
  have "t \<le> t + k \<longleftrightarrow> unat t + unat k < 2 ^ 32"
    using no_olen_add_nat [of t k] by simp
  then show ?thesis by (simp add: difftime_def)
qed

end
