(* ===== verification/MasterTx.thy ===== *)
theory MasterTx
  imports Protocol TQueue
begin

text \<open>
  The master's transmitter: \<open>TTxRequest\<close> and \<open>TMasterTx\<close> (\<^verbatim>\<open>src/inc/protocol/p_tmastertx.h\<close>,
  \<^verbatim>\<open>src/src/protocol/p_tmastertx.cpp\<close>) and the functions of \<^verbatim>\<open>src/src/protocol/protocol.cpp\<close> that put
  requests into its queue. One \<open>process\<close> call in the idle state takes requests to one address out of the
  queue, packs them into one packet and sends it; then the automaton waits for the answer and for the
  line to become free. \<open>TTxRequest*\<close> obtained from \<open>front\<close> is read before the slot is reused, so the
  model reads the request once.
\<close>

section \<open>Requests\<close>

record TTxRequest =
  rq_parameter0 :: u32
  rq_parameter1 :: u32
  rq_flags :: u32
  rq_type :: u16
  rq_address :: u16

definition FRqAnswer :: nat where "FRqAnswer = 0"
definition FBreakPacket :: nat where "FBreakPacket = 1"

definition mkTxRequest :: "u16 \<Rightarrow> u16 \<Rightarrow> u32 \<Rightarrow> u32 \<Rightarrow> u32 \<Rightarrow> TTxRequest" where
  "mkTxRequest t a p0 p1 f =
     \<lparr>rq_parameter0 = p0, rq_parameter1 = p1, rq_flags = f, rq_type = t, rq_address = a\<rparr>"

text \<open>The two flags are bits 0 and 1 of \<open>flags\<close>.\<close>

definition rq_answer :: "TTxRequest \<Rightarrow> bool" where "rq_answer r = bit (rq_flags r) FRqAnswer"
definition rq_break :: "TTxRequest \<Rightarrow> bool" where "rq_break r = bit (rq_flags r) FBreakPacket"

definition LINK_ID_LOCAL :: u8 where "LINK_ID_LOCAL = 1"
definition LINK_ID_HI_IO :: u8 where "LINK_ID_HI_IO = 3"

text \<open>The functions that queue a request; there is a queue for the local bus only.\<close>

definition isTxBufferFree :: "u8 \<Rightarrow> TTxRequest tqueue \<Rightarrow> bool" where
  "isTxBufferFree i q = (if i = LINK_ID_LOCAL then \<not> isFull q else False)"

definition isTxBufferEmpty :: "u8 \<Rightarrow> TTxRequest tqueue \<Rightarrow> bool" where
  "isTxBufferEmpty i q = (if i = LINK_ID_LOCAL then isEmpty q else False)"

definition flushTxBuffer :: "u8 \<Rightarrow> TTxRequest tqueue \<Rightarrow> TTxRequest tqueue" where
  "flushTxBuffer i q = (if i = LINK_ID_LOCAL then tqueue_clear q else q)"

definition addTxMsgWrite :: "u16 \<Rightarrow> u32 \<Rightarrow> u32 \<Rightarrow> u32 \<Rightarrow> u8 \<Rightarrow> TTxRequest tqueue \<Rightarrow> TTxRequest tqueue res" where
  "addTxMsgWrite a p0 p1 f i q =
     (if i = LINK_ID_LOCAL then tqueue_push (mkTxRequest (ucast MsgParameterWrite) a p0 p1 f) q else Inr q)"

definition addTxMsgRead :: "u16 \<Rightarrow> u32 \<Rightarrow> u32 \<Rightarrow> u8 \<Rightarrow> TTxRequest tqueue \<Rightarrow> TTxRequest tqueue res" where
  "addTxMsgRead a p0 f i q =
     (if i = LINK_ID_LOCAL then tqueue_push (mkTxRequest (ucast MsgParameterRead) a p0 0 f) q else Inr q)"

definition addTxMsgApp :: "u16 \<Rightarrow> u32 \<Rightarrow> u32 \<Rightarrow> u32 \<Rightarrow> u32 \<Rightarrow> u8 \<Rightarrow> TTxRequest tqueue
    \<Rightarrow> (bool \<times> TTxRequest tqueue) res" where
  "addTxMsgApp a t sz data f i q =
     (if sz \<le> 4 then
        rbind (if i = LINK_ID_LOCAL
               then tqueue_push (mkTxRequest (ucast MsgAppType) a (push_bit 16 t OR sz) data f) q
               else Inr q) (\<lambda>q. Inr (True, q))
      else Inr (False, q))"

definition addTxMsgReadBlock :: "u16 \<Rightarrow> u16 \<Rightarrow> u16 \<Rightarrow> u32 \<Rightarrow> u8 \<Rightarrow> TTxRequest tqueue \<Rightarrow> TTxRequest tqueue res" where
  "addTxMsgReadBlock a base n f i q =
     (if i = LINK_ID_LOCAL
      then tqueue_push (mkTxRequest (ucast MsgReadBlock) a (ucast base) (ucast n) f) q else Inr q)"

section \<open>The automaton\<close>

datatype TState = stReadyToTx | stWaitAnswer | stWaitRxComplete

record 'w master =
  mt_sn :: u8
  mt_id :: u8
  mt_txSize :: u16
  mt_state :: TState
  mt_address :: u16
  mt_timer :: u32
  mt_timeoutSlaveAnswer :: u32
  mt_timeoutEndPacket :: u32
  mt_protocol :: "'w proto"
  mt_txQueue :: "TTxRequest tqueue"

definition MaxTxSize :: u16 where "MaxTxSize = 128"

definition mt_new :: "u8 \<Rightarrow> 'w proto \<Rightarrow> TTxRequest tqueue \<Rightarrow> u16 \<Rightarrow> u32 \<Rightarrow> u32 \<Rightarrow> 'w master" where
  "mt_new aid aprotocol atxQueue address0 atimeoutSlaveAnswer atimeoutEndPacket =
     \<lparr>mt_sn = 0, mt_id = aid, mt_txSize = 0, mt_state = stReadyToTx, mt_address = address0, mt_timer = 0,
      mt_timeoutSlaveAnswer = atimeoutSlaveAnswer, mt_timeoutEndPacket = atimeoutEndPacket,
      mt_protocol = aprotocol, mt_txQueue = atxQueue\<rparr>"

definition getSeqNumber :: "'w master \<Rightarrow> u8 \<times> 'w master" where
  "getSeqNumber m = (mt_sn m, m\<lparr>mt_sn := (if mt_sn m \<ge> 254 then 0 else mt_sn m + 1)\<rparr>)"

text \<open>
  The message of a request (with the data of an application message), or nothing for an unknown type.
  \<open>stk\<close> is the byte the code leaves uninitialised in the block read request; the data of an application
  message is the four bytes of a local variable.
\<close>

definition mt_message :: "u8 \<Rightarrow> u8 \<Rightarrow> TTxRequest \<Rightarrow> (u8 list \<times> u8 list) option" where
  "mt_message stk s rq =
     (if rq_type rq = ucast MsgParameterWrite then
        Some (TMsgParameterWrite s (ucast (rq_parameter0 rq)) (rq_parameter1 rq), [])
      else if rq_type rq = ucast MsgParameterRead then
        Some (TMsgParameterRead s (ucast (rq_parameter0 rq)), [])
      else if rq_type rq = ucast MsgReadBlock then
        Some (TMsgReadBlock s (ucast (rq_parameter0 rq)) (ucast (rq_parameter1 rq)) stk, [])
      else if rq_type rq = ucast MsgAppType then
        Some (TMsgAppTypeHeader s (ucast (drop_bit 16 (rq_parameter0 rq))) (ucast (rq_parameter0 rq)),
              bytes32 (rq_parameter1 rq))
      else None)"

definition mt_seq :: "bool \<Rightarrow> 'w master \<Rightarrow> u8 \<times> 'w master" where
  "mt_seq rqAnswer m = (if rqAnswer then getSeqNumber m else (0xff, m))"

definition mt_addMessage :: "'w links \<Rightarrow> u8 \<Rightarrow> TTxRequest \<Rightarrow> bool \<Rightarrow> 'w master \<Rightarrow> 'w master res" where
  "mt_addMessage k stk rq rqAnswer m =
     (case mt_message stk (fst (mt_seq rqAnswer m)) rq of
        None \<Rightarrow> Inr m
      | Some (msg, data) \<Rightarrow>
          let m = snd (mt_seq rqAnswer m) in
          rbind (proto_addMessage k msg data (mt_protocol m)) (\<lambda>(_, p).
            Inr (m\<lparr>mt_protocol := p, mt_txSize := getTxDataSize (pr_layer3 p)\<rparr>)))"

text \<open>
  The loop that takes further requests to the same address; \<open>None\<close> is a loop that does not end.
\<close>

partial_function (option) mt_collect :: "'w links \<Rightarrow> u8 \<Rightarrow> bool \<Rightarrow> 'w master \<Rightarrow> (bool \<times> 'w master) res option" where
  "mt_collect k stk rqAnswer m =
     (case tqueue_peek (mt_txQueue m) of
        None \<Rightarrow> Some (Inr (rqAnswer, m))
      | Some rq \<Rightarrow>
          if mt_address m = rq_address rq then
            (case mt_addMessage k stk rq (rq_answer rq) m of
               Inl e \<Rightarrow> Some (Inl e)
             | Inr m \<Rightarrow>
                 let m = m\<lparr>mt_txQueue := tqueue_pop (mt_txQueue m)\<rparr>;
                     rqAnswer = (if rq_answer rq then True else rqAnswer)
                 in if \<not> rq_break rq \<and> mt_txSize m < MaxTxSize
                    then mt_collect k stk rqAnswer m
                    else Some (Inr (rqAnswer, m)))
          else Some (Inr (rqAnswer, m)))"

text \<open>\<open>process\<close>; \<open>dest\<close> of the packet is the address converted to \<open>int16_t\<close>.\<close>

definition mt_finish :: "'w links \<Rightarrow> u32 \<Rightarrow> bool \<Rightarrow> 'w master \<Rightarrow> 'w master res" where
  "mt_finish k now rqAnswer m =
     rbind (inst_sendPacket k (sint (mt_address m)) (mt_protocol m)) (\<lambda>(n, p).
       let m = m\<lparr>mt_protocol := p, mt_txSize := n\<rparr>
       in Inr (if rqAnswer then m\<lparr>mt_timer := now, mt_state := stWaitAnswer\<rparr> else m))"

definition mt_process :: "'w links \<Rightarrow> u8 \<Rightarrow> u32 \<Rightarrow> 'w master \<Rightarrow> 'w master res option" where
  "mt_process k stk now m =
     (case mt_state m of
        stReadyToTx \<Rightarrow>
          (case tqueue_peek (mt_txQueue m) of
             None \<Rightarrow> Some (Inr m)
           | Some rq \<Rightarrow>
               if uarts_getTxFree k (ucast (mt_id m)) (pr_world (mt_protocol m)) \<noteq> 0 then
                 let m = m\<lparr>mt_address := rq_address rq, mt_protocol := proto_startTxPacket (mt_protocol m)\<rparr>
                 in (case mt_addMessage k stk rq (rq_answer rq) m of
                       Inl e \<Rightarrow> Some (Inl e)
                     | Inr m \<Rightarrow>
                         let m = m\<lparr>mt_txQueue := tqueue_pop (mt_txQueue m)\<rparr>
                         in (case (if \<not> rq_break rq then mt_collect k stk (rq_answer rq) m
                                   else Some (Inr (rq_answer rq, m))) of
                               None \<Rightarrow> None
                             | Some (Inl e) \<Rightarrow> Some (Inl e)
                             | Some (Inr (rqAnswer, m)) \<Rightarrow> Some (mt_finish k now rqAnswer m)))
               else Some (Inr m))
      | stWaitAnswer \<Rightarrow>
          Some (Inr (if TIMEOUT now (mt_timer m) (mt_timeoutSlaveAnswer m)
                     then m\<lparr>mt_state := stReadyToTx, mt_timer := now\<rparr> else m))
      | stWaitRxComplete \<Rightarrow>
          Some (Inr (if TIMEOUT now (mt_timer m) (mt_timeoutEndPacket m)
                     then m\<lparr>mt_state := stReadyToTx, mt_timer := now\<rparr> else m)))"

definition onRxSlaveData :: "u32 \<Rightarrow> 'w master \<Rightarrow> 'w master" where
  "onRxSlaveData now m =
     (if mt_state m = stReadyToTx \<or> mt_state m = stWaitRxComplete
      then m\<lparr>mt_state := stWaitRxComplete, mt_timer := now\<rparr> else m)"

definition onRxSlavePacket :: "u32 \<Rightarrow> u16 \<Rightarrow> 'w master \<Rightarrow> 'w master" where
  "onRxSlavePacket now address m =
     (if mt_state m = stWaitAnswer then m\<lparr>mt_state := stWaitRxComplete, mt_timer := now\<rparr> else m)"

definition mt_idle :: "'w master \<Rightarrow> bool" where "mt_idle m \<longleftrightarrow> mt_state m = stReadyToTx"

section \<open>What one packet of the master holds\<close>

definition rq_ok :: "TTxRequest \<Rightarrow> bool" where
  "rq_ok r \<longleftrightarrow> rq_type r \<in> {ucast MsgParameterWrite, ucast MsgParameterRead, ucast MsgReadBlock, ucast MsgAppType} \<and>
     (rq_type r = ucast MsgAppType \<longrightarrow> unat (ucast (rq_parameter0 r) :: u16) \<le> 4)"

definition rq_msg :: "u8 \<Rightarrow> u8 \<Rightarrow> TTxRequest \<Rightarrow> u8 list \<times> u8 list" where
  "rq_msg stk s r = (case mt_message stk s r of
     None \<Rightarrow> ([], [])
   | Some (m, d) \<Rightarrow> (m, if rq_type r = ucast MsgAppType then take (unat (ucast (rq_parameter0 r) :: u16)) d else []))"

definition rq_bytes :: "u8 \<Rightarrow> u8 \<Rightarrow> TTxRequest \<Rightarrow> u8 list" where
  "rq_bytes stk s r = fst (rq_msg stk s r) @ snd (rq_msg stk s r)"

definition rq_len :: "TTxRequest \<Rightarrow> nat" where
  "rq_len r = (if rq_type r = ucast MsgParameterWrite then 8
     else if rq_type r = ucast MsgParameterRead then 4
     else if rq_type r = ucast MsgReadBlock then 6
     else 6 + unat (ucast (rq_parameter0 r) :: u16))"

definition next_sn :: "u8 \<Rightarrow> u8" where "next_sn s = (if s \<ge> 254 then 0 else s + 1)"

text \<open>The requests that go into one packet, and the data block of that packet.\<close>

fun mt_batch :: "u16 \<Rightarrow> nat \<Rightarrow> TTxRequest list \<Rightarrow> TTxRequest list" where
  "mt_batch a n [] = []"
| "mt_batch a n (r # rs) =
     (if rq_address r = a
      then r # (if rq_break r \<or> 128 \<le> n + rq_len r then [] else mt_batch a (n + rq_len r) rs)
      else [])"

fun batch_bytes :: "u8 \<Rightarrow> u8 \<Rightarrow> TTxRequest list \<Rightarrow> u8 list" where
  "batch_bytes stk s [] = []"
| "batch_bytes stk s (r # rs) =
     rq_bytes stk (if rq_answer r then s else 0xff) r @ batch_bytes stk (if rq_answer r then next_sn s else s) rs"

lemma l3_addMessage_take:
  assumes "length m = 6" and "m ! 0 = MsgAppType" and "unat (get16 m 4) \<le> length d"
  shows "l3_addMessage m d l = l3_addMessage m (take (unat (get16 m 4)) d) l"
proof -
  have "l3_put (take (unat (get16 m 4)) d) (get16 m 4) = l3_put d (get16 m 4)"
    using assms(3) by (simp add: fun_eq_iff l3_put_def memcpy_def min_absorb2)
  then show ?thesis using assms(1,2) by (simp add: l3_addMessage_def cong: if_cong)
qed

lemma rq_msg_ok:
  assumes "rq_ok r"
  shows "msg_ok (fst (rq_msg stk s r)) (snd (rq_msg stk s r))" and "length (rq_bytes stk s r) = rq_len r"
    and "\<exists>d. mt_message stk s r = Some (fst (rq_msg stk s r), d) \<and>
       l3_addMessage (fst (rq_msg stk s r)) d l = l3_addMessage (fst (rq_msg stk s r)) (snd (rq_msg stk s r)) l"
proof -
  consider "rq_type r = ucast MsgParameterWrite" | "rq_type r = ucast MsgParameterRead"
    | "rq_type r = ucast MsgReadBlock" | "rq_type r = ucast MsgAppType" "unat (ucast (rq_parameter0 r) :: u16) \<le> 4"
    using assms by (auto simp: rq_ok_def)
  then have "msg_ok (fst (rq_msg stk s r)) (snd (rq_msg stk s r)) \<and> length (rq_bytes stk s r) = rq_len r \<and>
    (\<exists>d. mt_message stk s r = Some (fst (rq_msg stk s r), d) \<and>
       l3_addMessage (fst (rq_msg stk s r)) d l = l3_addMessage (fst (rq_msg stk s r)) (snd (rq_msg stk s r)) l)"
  proof cases
    case 4
    let ?n = "ucast (rq_parameter0 r) :: u16"
    let ?m = "TMsgAppTypeHeader s (ucast (drop_bit 16 (rq_parameter0 r))) ?n"
    have m: "length ?m = 6" "?m ! 0 = MsgAppType" "get16 ?m 4 = ?n"
      by (simp_all add: TMsgAppTypeHeader_def get16_def bytes16_def)
    have "unat ?n < 65530" using 4(2) by linarith
    moreover have "mt_message stk s r = Some (?m, bytes32 (rq_parameter1 r))"
      using 4(1) by (simp add: mt_message_def msg_ids)
    moreover have "rq_len r = 6 + unat ?n" using 4(1) by (simp add: rq_len_def msg_ids)
    moreover have "?m \<noteq> []" using m(1) by auto
    ultimately show ?thesis using 4 m l3_addMessage_take [OF m(1,2), of "bytes32 (rq_parameter1 r)" l]
      by (simp add: rq_msg_def rq_bytes_def msg_ok_def min_absorb2)
  qed (simp_all add: rq_msg_def mt_message_def msg_ids rq_bytes_def rq_len_def msg_ok_def fixedSize_def
      TMsgParameterWrite_def TMsgParameterRead_def TMsgReadBlock_def)
  then show "msg_ok (fst (rq_msg stk s r)) (snd (rq_msg stk s r))" "length (rq_bytes stk s r) = rq_len r"
    "\<exists>d. mt_message stk s r = Some (fst (rq_msg stk s r), d) \<and>
       l3_addMessage (fst (rq_msg stk s r)) d l = l3_addMessage (fst (rq_msg stk s r)) (snd (rq_msg stk s r)) l"
    by blast+
qed

lemma rq_len_bound: "rq_ok r \<Longrightarrow> 4 \<le> rq_len r \<and> rq_len r \<le> 10"
  by (auto simp: rq_ok_def rq_len_def)

text \<open>The master between two messages of the packet: \<open>bs\<close> is in the packet.\<close>

definition mt_filled :: "u8 list \<Rightarrow> 'w master \<Rightarrow> bool" where
  "mt_filled bs m \<longleftrightarrow> l3_tx_inv (pr_layer3 (mt_protocol m)) \<and> l3_maxTxAppSize (pr_layer3 (mt_protocol m)) = 244 \<and>
     l3_txData (pr_layer3 (mt_protocol m)) = bs"

definition mt_frame :: "'w master \<Rightarrow> 'w master \<Rightarrow> bool" where
  "mt_frame m m' \<longleftrightarrow> (\<exists>l. mt_protocol m' = (mt_protocol m)\<lparr>pr_layer3 := l\<rparr>) \<and>
     mt_id m' = mt_id m \<and> mt_address m' = mt_address m \<and> mt_state m' = mt_state m \<and> mt_timer m' = mt_timer m"

lemma mt_frame_refl [simp]: "mt_frame m m"
  by (auto simp: mt_frame_def intro: exI [of _ "pr_layer3 (mt_protocol m)"])

lemma mt_frame_trans: "mt_frame a b \<Longrightarrow> mt_frame b c \<Longrightarrow> mt_frame a c"
  by (auto simp: mt_frame_def)

lemma mt_addMessage_ok:
  assumes "mt_filled bs m" and "rq_ok r" and "length bs + rq_len r \<le> 244"
  shows "\<exists>m'. mt_addMessage k stk r (rq_answer r) m = Inr m' \<and> mt_frame m m' \<and> mt_txQueue m' = mt_txQueue m \<and>
     mt_filled (bs @ rq_bytes stk (if rq_answer r then mt_sn m else 0xff) r) m' \<and>
     unat (mt_txSize m') = length bs + rq_len r \<and>
     mt_sn m' = (if rq_answer r then next_sn (mt_sn m) else mt_sn m)"
proof -
  define s where "s = (if rq_answer r then mt_sn m else 0xff)"
  define m1 where "m1 = (if rq_answer r then m\<lparr>mt_sn := next_sn (mt_sn m)\<rparr> else m)"
  have sq: "mt_seq (rq_answer r) m = (s, m1)"
    by (simp add: mt_seq_def getSeqNumber_def s_def m1_def next_sn_def)
  let ?l = "pr_layer3 (mt_protocol m)"
  let ?m = "fst (rq_msg stk s r)" and ?d = "snd (rq_msg stk s r)"
  have f: "l3_tx_inv ?l" "l3_maxTxAppSize ?l = 244" "l3_txData ?l = bs" using assms(1) by (auto simp: mt_filled_def)
  have idx: "unat (l3_txIndex ?l) = length bs" using length_l3_txData [OF f(1)] f(3) by simp
  have len: "length ?m + length ?d = rq_len r" using rq_msg_ok(2) [OF assms(2), of stk s] by (simp add: rq_bytes_def)
  have le: "unat (l3_txIndex ?l) + length ?m + length ?d \<le> unat (l3_maxTxAppSize ?l)"
    using f(2) idx len assms(3) by simp
  obtain l1 where l1: "l3_addMessage ?m ?d ?l = Inr (0, l1)" "l3_tx_inv l1" "l3_txData l1 = bs @ ?m @ ?d"
      "l1 = ?l\<lparr>l3_txPacket := l3_txPacket l1, l3_txIndex := l3_txIndex l1\<rparr>"
    using l3_addMessage_ok [OF f(1) rq_msg_ok(1) [OF assms(2)] le] unfolding f(3) by blast
  obtain d where d: "mt_message stk s r = Some (?m, d)" "l3_addMessage ?m d ?l = Inr (0, l1)"
    using rq_msg_ok(3) [OF assms(2), of stk s ?l] l1(1) by auto
  have mx: "l3_maxTxAppSize l1 = 244" by (subst l1(4)) (simp add: f)
  have sz: "unat (l3_txIndex l1) = length bs + rq_len r"
    using length_l3_txData [OF l1(2)] l1(3) len by simp
  have p1: "mt_protocol m1 = mt_protocol m" by (simp add: m1_def)
  have "mt_addMessage k stk r (rq_answer r) m =
      Inr (m1\<lparr>mt_protocol := (mt_protocol m)\<lparr>pr_layer3 := l1\<rparr>, mt_txSize := l3_txIndex l1\<rparr>)"
    using d by (simp add: mt_addMessage_def sq proto_addMessage_def p1 getTxDataSize_def)
  then show ?thesis using l1(2,3) mx sz
    by (auto simp: mt_frame_def mt_filled_def m1_def s_def rq_bytes_def)
qed

lemma mt_filled_queue [simp]: "mt_filled bs (m\<lparr>mt_txQueue := q\<rparr>) = mt_filled bs m"
  by (simp add: mt_filled_def)

lemma mt_frame_queue [simp]: "mt_frame m (m'\<lparr>mt_txQueue := q\<rparr>) = mt_frame m m'"
  by (simp add: mt_frame_def)

lemma peek_cont:
  assumes "tqueue_inv q"
  shows "tqueue_peek q = (case tqueue_cont q of [] \<Rightarrow> None | r # rs \<Rightarrow> Some r)"
    and "tqueue_cont q = r # rs \<Longrightarrow> tqueue_inv (tqueue_pop q) \<and> tqueue_cont (tqueue_pop q) = rs"
  using tqueue_peek_law [OF assms] tqueue_pop_law [OF assms] by (auto split: list.splits)

lemma mt_collect_ok:
  assumes "mt_filled bs m" and "tqueue_inv (mt_txQueue m)" and "tqueue_cont (mt_txQueue m) = rs"
    and "\<forall>r \<in> set rs. rq_ok r" and "length bs < 128" and "B = mt_batch (mt_address m) (length bs) rs"
  shows "\<exists>m'. mt_collect k stk ans m = Some (Inr (ans \<or> (\<exists>r \<in> set B. rq_answer r), m')) \<and> mt_frame m m' \<and>
     mt_filled (bs @ batch_bytes stk (mt_sn m) B) m' \<and> tqueue_inv (mt_txQueue m') \<and>
     tqueue_cont (mt_txQueue m') = drop (length B) rs \<and> length (bs @ batch_bytes stk (mt_sn m) B) < 138"
  using assms
proof (induction rs arbitrary: bs m ans B)
  case Nil
  then show ?case by (subst mt_collect.simps) (simp add: peek_cont)
next
  case (Cons r rs)
  have pk: "tqueue_peek (mt_txQueue m) = Some r" using Cons.prems(2,3) by (simp add: peek_cont)
  have rk: "rq_ok r" using Cons.prems(4) by simp
  show ?case
  proof (cases "rq_address r = mt_address m")
    case False
    then show ?thesis using Cons.prems pk by (subst mt_collect.simps) simp
  next
    case True
    let ?bs = "bs @ rq_bytes stk (if rq_answer r then mt_sn m else 0xff) r"
    have len: "length ?bs = length bs + rq_len r" using rq_msg_ok(2) [OF rk] by simp
    have le: "length bs + rq_len r < 138" using Cons.prems(5) rq_len_bound [OF rk] by linarith
    obtain m1 where m1: "mt_addMessage k stk r (rq_answer r) m = Inr m1" "mt_frame m m1" "mt_txQueue m1 = mt_txQueue m"
        "mt_filled ?bs m1" "unat (mt_txSize m1) = length bs + rq_len r"
        "mt_sn m1 = (if rq_answer r then next_sn (mt_sn m) else mt_sn m)"
      using mt_addMessage_ok [OF Cons.prems(1) rk] le by fastforce
    define m2 where "m2 = m1\<lparr>mt_txQueue := tqueue_pop (mt_txQueue m1)\<rparr>"
    have q2: "tqueue_inv (mt_txQueue m2)" "tqueue_cont (mt_txQueue m2) = rs"
      using peek_cont(2) [OF Cons.prems(2,3)] m1(3) by (simp_all add: m2_def)
    have f2: "mt_filled ?bs m2" "mt_frame m m2" "mt_sn m2 = (if rq_answer r then next_sn (mt_sn m) else mt_sn m)"
      "mt_address m2 = mt_address m" "mt_txSize m2 = mt_txSize m1"
      using m1 by (auto simp: m2_def mt_frame_def)
    define a2 where "a2 = (if rq_answer r then True else ans)"
    have step: "mt_collect k stk ans m = (if \<not> rq_break r \<and> mt_txSize m2 < MaxTxSize
        then mt_collect k stk a2 m2 else Some (Inr (a2, m2)))"
      using pk True m1(1) by (subst mt_collect.simps) (simp add: Let_def m2_def a2_def)
    have lt: "mt_txSize m2 < MaxTxSize \<longleftrightarrow> length bs + rq_len r < 128"
      using m1(5) f2(5) by (simp add: word_less_nat_alt MaxTxSize_def)
    show ?thesis
    proof (cases "rq_break r \<or> 128 \<le> length bs + rq_len r")
      case True
      then have "B = [r]" using Cons.prems(6) \<open>rq_address r = mt_address m\<close> by simp
      then show ?thesis using True step lt f2 q2 len le by (auto simp: a2_def)
    next
      case False
      define C where "C = mt_batch (mt_address m2) (length ?bs) rs"
      have B: "B = r # C" using Cons.prems(6) \<open>rq_address r = mt_address m\<close> False unfolding C_def len f2(4) by simp
      obtain m3 where "mt_collect k stk a2 m2 = Some (Inr (a2 \<or> (\<exists>r \<in> set C. rq_answer r), m3))" "mt_frame m2 m3"
        "mt_filled (?bs @ batch_bytes stk (mt_sn m2) C) m3" "tqueue_inv (mt_txQueue m3)"
        "tqueue_cont (mt_txQueue m3) = drop (length C) rs" "length (?bs @ batch_bytes stk (mt_sn m2) C) < 138"
        using Cons.IH [OF f2(1) q2 _ _ C_def, of a2] Cons.prems(4) False len by auto
      then show ?thesis using step lt False f2 B mt_frame_trans [OF f2(2)] by (auto simp: a2_def)
    qed
  qed
qed


lemma inst_sendPacket_frame:
  assumes "l3_tx_inv (pr_layer3 p)" and "l3_txData (pr_layer3 p) = ds" and "ds \<noteq> []" and "length ds < 245"
    and "pr_layer1Number p \<in> {1, 3}" and "254 < unat (uarts_getTxFree k (pr_layer1Number p) (pr_world p))"
    and "dest \<noteq> -1"
  shows "\<exists>r l. inst_sendPacket k dest p = Inr (r, p\<lparr>pr_layer3 := l,
     pr_world := snd (Chip_UART_SendRB k (unat (pr_layer1Number p))
                  (frame (word_of_int dest) (l2_selfAddress (pr_layer2 p)) ds) (pr_world p))\<rparr>) \<and> l3_txIndex l = 0"
proof -
  obtain l where l: "l3_finishTxPacket (word_of_int dest) (pr_layer2 p) (pr_layer3 p) = Inr (10 + l3_txIndex (pr_layer3 p), l)"
     "l3_txIndex l = 0" "take (10 + length ds) (l3_txPacket l) = frame (word_of_int dest) (l2_selfAddress (pr_layer2 p)) ds"
     "length (l3_txPacket l) = length (l3_txPacket (pr_layer3 p))"
    using l3_finishTxPacket_frame [OF assms(1,2,3)] by blast
  have idx: "unat (l3_txIndex (pr_layer3 p)) = length ds" using length_l3_txData [OF assms(1)] assms(2) by simp
  define n where "n = 10 + l3_txIndex (pr_layer3 p)"
  have n: "unat n = 10 + length ds" unfolding n_def using idx assms(4) by (subst unat_add_u16) simp_all
  have nz: "n \<noteq> 0" using n by auto
  have n8: "unat (ucast n :: u8) = 10 + length ds"
    using n assms(4) by (simp add: unsigned_ucast_eq take_bit_eq_mod)
  have fits: "10 + length ds \<le> length (l3_txPacket l)"
    using l(4) assms(1) idx by (auto simp: l3_tx_inv_def word_le_nat_alt)
  have free: "n < uarts_getTxFree k (pr_layer1Number p) (pr_world p)"
    using assms(4,6) n unfolding word_less_nat_alt by linarith
  show ?thesis
    using l nz n8 fits free assms(5,7)
    by (auto simp: inst_sendPacket_def proto_finishTxPacket_def uarts_write_def Let_def n_def [symmetric]
        split: prod.splits)
qed

section \<open>Reachable states of the automaton\<close>

text \<open>
  The environment may call \<open>process\<close>, report received data or a received packet, and queue requests, in
  any order and at any time.
\<close>

inductive mt_step :: "'w links \<Rightarrow> 'w master \<Rightarrow> 'w master \<Rightarrow> bool" for k where
  do_process: "mt_process k stk now m = Some (Inr m') \<Longrightarrow> mt_step k m m'"
| rx_data: "mt_step k m (onRxSlaveData now m)"
| rx_packet: "mt_step k m (onRxSlavePacket now a m)"
| add_write: "addTxMsgWrite a p0 p1 f i (mt_txQueue m) = Inr q \<Longrightarrow> mt_step k m (m\<lparr>mt_txQueue := q\<rparr>)"
| add_read: "addTxMsgRead a p0 f i (mt_txQueue m) = Inr q \<Longrightarrow> mt_step k m (m\<lparr>mt_txQueue := q\<rparr>)"
| add_app: "addTxMsgApp a t sz d f i (mt_txQueue m) = Inr (b, q) \<Longrightarrow> mt_step k m (m\<lparr>mt_txQueue := q\<rparr>)"
| add_block: "addTxMsgReadBlock a base n f i (mt_txQueue m) = Inr q \<Longrightarrow> mt_step k m (m\<lparr>mt_txQueue := q\<rparr>)"
| do_flush: "mt_step k m (m\<lparr>mt_txQueue := flushTxBuffer i (mt_txQueue m)\<rparr>)"

definition mt_inv :: "'w master \<Rightarrow> bool" where
  "mt_inv m \<longleftrightarrow> tqueue_inv (mt_txQueue m) \<and> (\<forall>r \<in> set (tqueue_cont (mt_txQueue m)). rq_ok r) \<and>
     254 \<le> length (l3_txPacket (pr_layer3 (mt_protocol m))) \<and> l3_maxTxAppSize (pr_layer3 (mt_protocol m)) = 244"

lemma inst_sendPacket_safe:
  assumes "l3_tx_inv (pr_layer3 p)" and "l3_txData (pr_layer3 p) = ds" and "ds \<noteq> []" and "length ds < 245"
  shows "\<exists>r l w. inst_sendPacket k dest p = Inr (r, p\<lparr>pr_layer3 := l, pr_world := w\<rparr>) \<and>
     length (l3_txPacket l) = length (l3_txPacket (pr_layer3 p)) \<and>
     l3_maxTxAppSize l = l3_maxTxAppSize (pr_layer3 p)"
proof -
  define de :: u8 where "de = (if dest = -1 then ucast (pr_srcAddress p) else word_of_int dest)"
  obtain l where l: "l3_finishTxPacket de (pr_layer2 p) (pr_layer3 p) = Inr (10 + l3_txIndex (pr_layer3 p), l)"
     "length (l3_txPacket l) = length (l3_txPacket (pr_layer3 p))"
    using l3_finishTxPacket_frame [OF assms(1,2,3)] by blast
  have mx: "l3_maxTxAppSize l = l3_maxTxAppSize (pr_layer3 p)"
    using l(1) by (auto simp: l3_finishTxPacket_def res_elims split: if_split_asm)
  have idx: "unat (l3_txIndex (pr_layer3 p)) = length ds" using length_l3_txData [OF assms(1)] assms(2) by simp
  define n where "n = 10 + l3_txIndex (pr_layer3 p)"
  have n: "unat n = 10 + length ds" unfolding n_def using idx assms(4) by (subst unat_add_u16) simp_all
  have n8: "unat (ucast n :: u8) \<le> length (l3_txPacket l)"
    using n assms(1,4) idx l(2) by (auto simp: unsigned_ucast_eq take_bit_eq_mod l3_tx_inv_def word_le_nat_alt)
  have fin: "proto_finishTxPacket dest p = Inr (n, p\<lparr>pr_layer3 := l\<rparr>)"
    using l(1) by (simp add: proto_finishTxPacket_def de_def n_def)
  have "\<exists>x. uarts_write k (pr_layer1Number p) (l3_txPacket l) n (pr_world p) = Inr x"
    using n8 by (simp add: uarts_write_def Let_def split: prod.splits)
  then obtain r w where "uarts_write k (pr_layer1Number p) (l3_txPacket l) n (pr_world p) = Inr (r, w)" by auto
  then have "inst_sendPacket k dest p \<in> {Inr (r, p\<lparr>pr_layer3 := l, pr_world := w\<rparr>),
      Inr (0, p\<lparr>pr_layer3 := l, pr_world := pr_world p\<rparr>)}"
    by (simp add: inst_sendPacket_def fin)
  then show ?thesis using l(2) mx by blast
qed

lemma mt_process_safe:
  assumes "mt_inv m"
  shows "\<exists>m'. mt_process k stk now m = Some (Inr m') \<and> mt_inv m'"
proof -
  note inv = assms [unfolded mt_inv_def]
  show ?thesis
  proof (cases "mt_state m = stReadyToTx \<and> tqueue_peek (mt_txQueue m) \<noteq> None \<and>
      uarts_getTxFree k (ucast (mt_id m)) (pr_world (mt_protocol m)) \<noteq> 0")
    case False
    then show ?thesis using assms by (auto simp: mt_process_def mt_inv_def split: TState.splits option.splits)
  next
    case True
    then obtain r rs where c: "tqueue_cont (mt_txQueue m) = r # rs" "tqueue_peek (mt_txQueue m) = Some r"
      using inv peek_cont(1) [of "mt_txQueue m"] by (auto split: list.splits)
    define m0 where "m0 = m\<lparr>mt_address := rq_address r, mt_protocol := proto_startTxPacket (mt_protocol m)\<rparr>"
    have f0: "mt_filled [] m0" using inv
      by (simp add: m0_def mt_filled_def proto_startTxPacket_def l3_startTxPacket_def l3_tx_inv_def l3_txData_def)
    have rk: "rq_ok r" "\<forall>r \<in> set rs. rq_ok r" using inv c by simp_all
    obtain bs m1 where m1: "mt_addMessage k stk r (rq_answer r) m0 = Inr m1" "mt_frame m0 m1"
        "mt_txQueue m1 = mt_txQueue m" "mt_filled bs m1" "length bs = rq_len r"
      using mt_addMessage_ok [OF f0 rk(1), of k stk] rq_len_bound [OF rk(1)] rq_msg_ok(2) [OF rk(1)]
      by (fastforce simp: m0_def)
    define m2 where "m2 = m1\<lparr>mt_txQueue := tqueue_pop (mt_txQueue m1)\<rparr>"
    have q2: "tqueue_inv (mt_txQueue m2)" "tqueue_cont (mt_txQueue m2) = rs"
      using peek_cont(2) [of "mt_txQueue m" r rs] inv c m1(3) by (simp_all add: m2_def)
    obtain ans m3 ds where m3: "(if \<not> rq_break r then mt_collect k stk (rq_answer r) m2 else Some (Inr (rq_answer r, m2)))
          = Some (Inr (ans, m3))" "mt_frame m2 m3" "mt_filled ds m3" "tqueue_inv (mt_txQueue m3)"
        "\<forall>r \<in> set (tqueue_cont (mt_txQueue m3)). rq_ok r" "length ds < 138" "ds \<noteq> []"
    proof (cases "rq_break r")
      case True
      have "bs \<noteq> []" using m1(5) rq_len_bound [OF rk(1)] by auto
      with True show ?thesis using that [of "rq_answer r" m2 bs] m1(4,5) q2 rk rq_len_bound [OF rk(1)] by (auto simp: m2_def)
    next
      case False
      have "mt_filled bs m2" "length bs < 128" "bs \<noteq> []" using m1(4,5) rq_len_bound [OF rk(1)] by (auto simp: m2_def)
      with mt_collect_ok [OF _ q2 rk(2) _ refl, of bs k stk "rq_answer r"] False that rk(2) show ?thesis
        by (fastforce dest: in_set_dropD)
    qed
    have fr: "mt_frame m0 m3" using mt_frame_trans [of m0 m2 m3] m1(2) m3(2) by (simp add: m2_def)
    have f3: "l3_tx_inv (pr_layer3 (mt_protocol m3))" "l3_txData (pr_layer3 (mt_protocol m3)) = ds"
      "l3_maxTxAppSize (pr_layer3 (mt_protocol m3)) = 244" using m3(3) by (auto simp: mt_filled_def)
    have ds245: "length ds < 245" using m3(6) by simp
    obtain rr l w where s: "inst_sendPacket k (sint (mt_address m3)) (mt_protocol m3) =
        Inr (rr, (mt_protocol m3)\<lparr>pr_layer3 := l, pr_world := w\<rparr>)"
        "length (l3_txPacket l) = length (l3_txPacket (pr_layer3 (mt_protocol m3)))" "l3_maxTxAppSize l = 244"
      using inst_sendPacket_safe [OF f3(1,2) m3(7) ds245] f3(3) by metis
    obtain m4 where m4: "mt_finish k now ans m3 = Inr m4" "mt_txQueue m4 = mt_txQueue m3"
        "mt_protocol m4 = (mt_protocol m3)\<lparr>pr_layer3 := l, pr_world := w\<rparr>"
      using s(1) by (auto simp: mt_finish_def Let_def)
    have "mt_process k stk now m = Some (Inr m4)"
      using True c(2) m1(1) m3(1) m4(1)
      by (simp add: mt_process_def Let_def m0_def [symmetric] m2_def [symmetric])
    moreover have "254 \<le> length (l3_txPacket (pr_layer3 (mt_protocol m3)))"
      using f3(1,3) by (simp add: l3_tx_inv_def)
    ultimately show ?thesis using m4 m3(4,5) s(2,3) by (simp add: mt_inv_def)
  qed
qed

lemma push_inv:
  assumes "mt_inv m" and "tqueue_push r (mt_txQueue m) = Inr q" and "rq_ok r"
  shows "mt_inv (m\<lparr>mt_txQueue := q\<rparr>)"
proof -
  have "tqueue_inv (mt_txQueue m)" using assms(1) by (simp add: mt_inv_def)
  from tqueue_push_law [OF this, of r] assms show ?thesis by (auto simp: mt_inv_def split: if_split_asm)
qed

lemma rq_ok_app: "sz \<le> 4 \<Longrightarrow> rq_ok (mkTxRequest (ucast MsgAppType) a (push_bit 16 t OR sz) d f)"
proof -
  assume sz: "sz \<le> 4"
  have "(ucast (push_bit 16 t OR sz) :: u16) = ucast sz"
    by (rule bit_word_eqI) (auto simp: bit_ucast_iff bit_or_iff bit_push_bit_iff)
  moreover have "unat (ucast sz :: u16) \<le> 4"
  proof -
    have "unat sz \<le> 4" using sz by (simp add: word_le_nat_alt)
    then show ?thesis by (simp add: unsigned_ucast_eq take_bit_eq_mod)
  qed
  ultimately show ?thesis by (simp add: rq_ok_def mkTxRequest_def)
qed

lemma mt_inv_step:
  assumes "mt_step k m m'" and "mt_inv m"
  shows "mt_inv m'"
  using assms
proof cases
  case (do_process stk now)
  then show ?thesis using mt_process_safe [OF assms(2), of k stk now] by auto
next
  case (add_app a t sz d f i b q)
  then show ?thesis using assms(2) push_inv [OF assms(2) _ rq_ok_app]
    by (auto simp: addTxMsgApp_def res_elims split: if_split_asm)
next
  case (do_flush i)
  have q: "tqueue_inv (mt_txQueue m)" using assms(2) by (simp add: mt_inv_def)
  then show ?thesis using do_flush assms(2) tqueue_inv_clear [OF q]
    by (auto simp: flushTxBuffer_def mt_inv_def)
qed (use assms(2) push_inv [OF assms(2)] in \<open>auto simp: mt_inv_def onRxSlaveData_def onRxSlavePacket_def
   addTxMsgWrite_def addTxMsgRead_def addTxMsgReadBlock_def rq_ok_def mkTxRequest_def msg_ids split: if_split_asm\<close>)

text \<open>A call of \<open>process\<close> removes requests and adds none.\<close>

definition queue_sub :: "'a tqueue \<Rightarrow> 'a tqueue \<Rightarrow> bool" where
  "queue_sub q q' \<longleftrightarrow> (tqueue_inv q \<longrightarrow> tqueue_inv q' \<and> set (tqueue_cont q') \<subseteq> set (tqueue_cont q))"

lemma queue_sub_refl [simp]: "queue_sub q q" by (simp add: queue_sub_def)

lemma queue_sub_pop: "queue_sub (tqueue_pop q) q' \<Longrightarrow> queue_sub q q'"
  using tqueue_pop_law [of q] by (cases "tqueue_cont q") (auto simp: queue_sub_def)

lemma mt_addMessage_queue: "mt_addMessage k stk rq b m = Inr m' \<Longrightarrow> mt_txQueue m' = mt_txQueue m"
  by (auto simp: mt_addMessage_def Let_def mt_seq_def getSeqNumber_def rbind_Inr_iff split: option.splits if_split_asm)

lemma mt_collect_queue:
  assumes "mt_collect k stk a m = Some r"
  shows "case r of Inl e \<Rightarrow> True | Inr (a', m') \<Rightarrow> queue_sub (mt_txQueue m) (mt_txQueue m')"
proof (rule mt_collect.raw_induct [OF _ assms])
  fix loop k stk a m r
  assume IH: "\<And>k stk a m y. loop k stk a m = Some y \<Longrightarrow>
      case y of Inl e \<Rightarrow> True | Inr (a', m') \<Rightarrow> queue_sub (mt_txQueue m) (mt_txQueue m')"
    and eq: "(case tqueue_peek (mt_txQueue m) of None \<Rightarrow> Some (Inr (a, m))
      | Some rq \<Rightarrow> if mt_address m = rq_address rq then
            (case mt_addMessage k stk rq (rq_answer rq) m of
               Inl e \<Rightarrow> Some (Inl e)
             | Inr m \<Rightarrow>
                 let m = m\<lparr>mt_txQueue := tqueue_pop (mt_txQueue m)\<rparr>;
                     rqAnswer = (if rq_answer rq then True else a)
                 in if \<not> rq_break rq \<and> mt_txSize m < MaxTxSize
                    then loop k stk rqAnswer m
                    else Some (Inr (rqAnswer, m)))
          else Some (Inr (a, m))) = Some r"
  from eq consider (err) e where "r = Inl e" | (stop) a' where "r = Inr (a', m)"
    | (last) rq b m1 a' where "mt_addMessage k stk rq b m = Inr m1" "r = Inr (a', m1\<lparr>mt_txQueue := tqueue_pop (mt_txQueue m1)\<rparr>)"
    | (more) rq b m1 a' where "mt_addMessage k stk rq b m = Inr m1"
        "loop k stk a' (m1\<lparr>mt_txQueue := tqueue_pop (mt_txQueue m1)\<rparr>) = Some r"
    by (auto simp: Let_def split: option.splits if_split_asm sum.splits)
  then show "case r of Inl e \<Rightarrow> True | Inr (a', m') \<Rightarrow> queue_sub (mt_txQueue m) (mt_txQueue m')"
  proof cases
    case last
    then show ?thesis using mt_addMessage_queue [OF last(1)] by (simp add: queue_sub_pop)
  next
    case more
    then show ?thesis using IH [OF more(2)] mt_addMessage_queue [OF more(1)] by (auto intro: queue_sub_pop split: sum.splits)
  qed simp_all
qed

lemma mt_process_queue:
  assumes "mt_process k stk now m = Some (Inr m')"
  shows "queue_sub (mt_txQueue m) (mt_txQueue m')"
proof -
  have fin: "mt_txQueue m' = mt_txQueue m2" if "mt_finish k now a m2 = Inr m'" for a m2
    using that by (auto simp: mt_finish_def Let_def rbind_Inr_iff)
  consider (same) "mt_txQueue m' = mt_txQueue m"
    | (sent) rq m0 m1 a m2 where "mt_txQueue m0 = mt_txQueue m" "mt_addMessage k stk rq (rq_answer rq) m0 = Inr m1"
      "(if \<not> rq_break rq then mt_collect k stk (rq_answer rq) (m1\<lparr>mt_txQueue := tqueue_pop (mt_txQueue m1)\<rparr>)
        else Some (Inr (rq_answer rq, m1\<lparr>mt_txQueue := tqueue_pop (mt_txQueue m1)\<rparr>))) = Some (Inr (a, m2))"
      "mt_finish k now a m2 = Inr m'"
  proof (cases "mt_state m = stReadyToTx \<and> tqueue_peek (mt_txQueue m) \<noteq> None \<and>
      uarts_getTxFree k (ucast (mt_id m)) (pr_world (mt_protocol m)) \<noteq> 0")
    case False
    then show ?thesis using same assms by (auto simp: mt_process_def split: TState.splits option.splits if_split_asm)
  next
    case True
    then obtain rq where rq: "tqueue_peek (mt_txQueue m) = Some rq" by blast
    let ?m0 = "m\<lparr>mt_address := rq_address rq, mt_protocol := proto_startTxPacket (mt_protocol m)\<rparr>"
    obtain m1 where m1: "mt_addMessage k stk rq (rq_answer rq) ?m0 = Inr m1"
      using assms True rq by (auto simp: mt_process_def Let_def split: sum.splits)
    show ?thesis using sent [OF _ m1] assms True rq m1
      by (auto simp: mt_process_def Let_def split: sum.splits option.splits if_split_asm)
  qed
  then show ?thesis
  proof cases
    case sent
    have "queue_sub (mt_txQueue (m1\<lparr>mt_txQueue := tqueue_pop (mt_txQueue m1)\<rparr>)) (mt_txQueue m2)"
      using sent(3) mt_collect_queue [of k stk "rq_answer rq" "m1\<lparr>mt_txQueue := tqueue_pop (mt_txQueue m1)\<rparr>" "Inr (a, m2)"] by (auto split: if_split_asm)
    then show ?thesis using fin [OF sent(4)] mt_addMessage_queue [OF sent(2)] sent(1) by (simp add: queue_sub_pop)
  qed simp
qed

section \<open>Properties\<close>

text \<open>
  C6: one call of \<open>process\<close> in the idle state with room in the UART buffer sends exactly one packet: it
  takes the oldest request and, up to a request with the break flag or 128 bytes of data, the requests
  behind it that go to the same address; their messages, in order and numbered consecutively, are the
  data of the frame handed to the UART; exactly these requests leave the queue, and the automaton waits
  for an answer if and only if one of them asks for it.
\<close>

theorem master_sends_batch:
  assumes "mt_state m = stReadyToTx" and "tqueue_inv (mt_txQueue m)" and "tqueue_cont (mt_txQueue m) = r # rs"
    and "\<forall>r \<in> set (r # rs). rq_ok r"
    and "254 \<le> length (l3_txPacket (pr_layer3 (mt_protocol m)))"
    and "l3_maxTxAppSize (pr_layer3 (mt_protocol m)) = 244"
    and "pr_layer1Number (mt_protocol m) = ucast (mt_id m)" and "mt_id m \<in> {1, 3}"
    and "254 < unat (uarts_getTxFree k (ucast (mt_id m)) (pr_world (mt_protocol m)))"
    and "rq_address r \<noteq> 0xFFFF"
    and "B = r # (if rq_break r then [] else mt_batch (rq_address r) (rq_len r) rs)"
  shows "\<exists>m'. mt_process k stk now m = Some (Inr m') \<and>
     tqueue_inv (mt_txQueue m') \<and> tqueue_cont (mt_txQueue m') = drop (length B) (r # rs) \<and>
     pr_world (mt_protocol m') = snd (Chip_UART_SendRB k (unat (mt_id m))
        (frame (ucast (rq_address r)) (l2_selfAddress (pr_layer2 (mt_protocol m))) (batch_bytes stk (mt_sn m) B))
        (pr_world (mt_protocol m))) \<and>
     mt_state m' = (if \<exists>r \<in> set B. rq_answer r then stWaitAnswer else stReadyToTx)"
proof -
  define m0 where "m0 = m\<lparr>mt_address := rq_address r, mt_protocol := proto_startTxPacket (mt_protocol m)\<rparr>"
  have pk: "tqueue_peek (mt_txQueue m) = Some r" using assms(2,3) by (simp add: peek_cont)
  have f0: "mt_filled [] m0" using assms(5,6)
    by (simp add: m0_def mt_filled_def proto_startTxPacket_def l3_startTxPacket_def l3_tx_inv_def l3_txData_def)
  have rk: "rq_ok r" using assms(4) by simp
  obtain m1 where m1: "mt_addMessage k stk r (rq_answer r) m0 = Inr m1" "mt_frame m0 m1"
      "mt_txQueue m1 = mt_txQueue m0" "mt_filled (rq_bytes stk (if rq_answer r then mt_sn m0 else 0xff) r) m1"
      "mt_sn m1 = (if rq_answer r then next_sn (mt_sn m0) else mt_sn m0)"
    using mt_addMessage_ok [OF f0 rk, of k stk] rq_len_bound [OF rk] by fastforce
  define m2 where "m2 = m1\<lparr>mt_txQueue := tqueue_pop (mt_txQueue m1)\<rparr>"
  define bs where "bs = rq_bytes stk (if rq_answer r then mt_sn m else 0xff) r"
  have len: "length bs = rq_len r" using rq_msg_ok(2) [OF rk] by (simp add: bs_def)
  have sn0: "mt_sn m0 = mt_sn m" "mt_txQueue m0 = mt_txQueue m" by (simp_all add: m0_def)
  have q2: "tqueue_inv (mt_txQueue m2)" "tqueue_cont (mt_txQueue m2) = rs"
    using peek_cont(2) [OF assms(2,3)] m1(3) by (simp_all add: m2_def sn0)
  have f2: "mt_filled bs m2" "mt_frame m0 m2" "mt_address m2 = rq_address r"
      "mt_sn m2 = (if rq_answer r then next_sn (mt_sn m) else mt_sn m)"
    using m1 by (auto simp: m2_def bs_def sn0 mt_frame_def m0_def)
  define C where "C = (if rq_break r then [] else mt_batch (rq_address r) (rq_len r) rs)"
  obtain m3 where m3: "(if \<not> rq_break r then mt_collect k stk (rq_answer r) m2 else Some (Inr (rq_answer r, m2)))
        = Some (Inr (rq_answer r \<or> (\<exists>r \<in> set C. rq_answer r), m3))" "mt_frame m2 m3"
      "mt_filled (bs @ batch_bytes stk (mt_sn m2) C) m3" "tqueue_inv (mt_txQueue m3)"
      "tqueue_cont (mt_txQueue m3) = drop (length C) rs" "length (bs @ batch_bytes stk (mt_sn m2) C) < 138"
  proof (cases "rq_break r")
    case True
    then show ?thesis using that [of m2] f2 q2 len rq_len_bound [OF rk] by (simp add: C_def)
  next
    case False
    then have "C = mt_batch (mt_address m2) (length bs) rs" by (simp add: C_def f2 len)
    from mt_collect_ok [OF f2(1) q2 _ _ this, of k stk "rq_answer r"] False assms(4) len rq_len_bound [OF rk] that
    show ?thesis by fastforce
  qed
  have B: "B = r # C" using assms(11) by (simp add: C_def)
  have bb: "bs @ batch_bytes stk (mt_sn m2) C = batch_bytes stk (mt_sn m) B" by (simp add: B bs_def f2)
  obtain l where p3: "mt_protocol m3 = (mt_protocol m)\<lparr>pr_layer3 := l\<rparr>" "mt_address m3 = rq_address r" "mt_state m3 = mt_state m"
    using mt_frame_trans [OF f2(2) m3(2)] by (auto simp: mt_frame_def m0_def proto_startTxPacket_def)
  have s1: "sint (rq_address r) \<noteq> -1"
  proof
    assume "sint (rq_address r) = -1"
    then have "(word_of_int (sint (rq_address r)) :: u16) = word_of_int (-1)" by simp
    then have "rq_address r = -1" by simp
    then show False using assms(10) by simp
  qed
  have ne: "bs \<noteq> []" using len rq_len_bound [OF rk] by auto
  have wd: "(word_of_int (sint (rq_address r)) :: u8) = ucast (rq_address r)" by (rule bit_word_eqI) (auto simp: bit_word_of_int_iff bit_sint_iff bit_ucast_iff bit_signed_iff)
  obtain rr l' where snd: "inst_sendPacket k (sint (rq_address r)) (mt_protocol m3) = Inr (rr, (mt_protocol m3)\<lparr>pr_layer3 := l',
     pr_world := snd (Chip_UART_SendRB k (unat (pr_layer1Number (mt_protocol m3)))
                  (frame (word_of_int (sint (rq_address r))) (l2_selfAddress (pr_layer2 (mt_protocol m3)))
                    (batch_bytes stk (mt_sn m) B)) (pr_world (mt_protocol m3)))\<rparr>)"
    using inst_sendPacket_frame [of "mt_protocol m3" "batch_bytes stk (mt_sn m) B" k "sint (rq_address r)"]
      m3(3,6) ne s1 assms(7,8,9) p3 unfolding bb by (auto simp: mt_filled_def bb [symmetric])
  have u: "unat (ucast (mt_id m) :: u16) = unat (mt_id m)" by simp
  have fr: "uarts_getTxFree k (ucast (mt_id m)) (pr_world (mt_protocol m)) \<noteq> 0" using assms(9) by auto
  have "mt_process k stk now m = Some (mt_finish k now (rq_answer r \<or> (\<exists>r \<in> set C. rq_answer r)) m3)"
    using assms(1) fr pk m1(1) m3(1) by (simp add: mt_process_def Let_def m0_def [symmetric] m2_def [symmetric] del: mt_collect.simps)
  then show ?thesis
    using snd m3(4,5) p3 assms(1,7) u wd B by (auto simp: mt_finish_def Let_def)
qed


text \<open>Concrete instances for the witnesses: one read request in a queue of two places.\<close>

definition ex_links :: "u8 list links" where
  "ex_links = \<lparr>RingBuffer_GetFree = (\<lambda>_ w. 256 - of_nat (length w)),
     Chip_UART_SendRB = (\<lambda>_ bs w. (of_nat (length bs), w @ bs)), processTxAppData = None\<rparr>"

definition ex_request :: TTxRequest where "ex_request = mkTxRequest 0x11 5 0x1234 0 1"

definition ex_master :: "u8 list master" where
  "ex_master = mt_new 1 \<lparr>pr_layer2 = l2_new (replicate 254 0) 0 9 0xff,
     pr_layer3 = \<lparr>l3_txPacket = replicate 254 0, l3_txIndex = 0, l3_rxData = [], l3_rxIndex = 0, l3_rxSize = 0,
       l3_maxTxAppSize = 244\<rparr>, pr_rxTimeout = 5, pr_rxTicks = 0, pr_broadcastAddress = 0xff,
     pr_srcAddress = 0, pr_layer1Number = 1, pr_linkID = 0, pr_world = []\<rparr>
     \<lparr>msgBufferSize = 2, q_begin = 0, q_end = 1, msgBuffer = [ex_request, ex_request], isFull = False,
      isEmpty = False\<rparr> 0 20 2"

lemmas ex_defs = ex_master_def ex_links_def ex_request_def mt_new_def mkTxRequest_def

lemma ex_master_queue:
  "tqueue_inv (mt_txQueue ex_master)" "tqueue_cont (mt_txQueue ex_master) = [ex_request]"
  by (simp_all add: ex_defs tqueue_inv_def tqueue_cont_def tqueue_size_def ring_def)

lemma ex_request_ok: "rq_ok ex_request"
  by (simp add: rq_ok_def ex_defs msg_ids)

theorem master_sends_batch_witness:
  "\<exists>m'. mt_process ex_links 0 100 ex_master = Some (Inr m') \<and> tqueue_inv (mt_txQueue m') \<and>
     tqueue_cont (mt_txQueue m') = drop (length [ex_request]) [ex_request] \<and>
     pr_world (mt_protocol m') = snd (Chip_UART_SendRB ex_links (unat (mt_id ex_master))
        (frame (ucast (rq_address ex_request)) (l2_selfAddress (pr_layer2 (mt_protocol ex_master)))
          (batch_bytes 0 (mt_sn ex_master) [ex_request])) (pr_world (mt_protocol ex_master))) \<and>
     mt_state m' = (if \<exists>r \<in> set [ex_request]. rq_answer r then stWaitAnswer else stReadyToTx)"
  using ex_master_queue ex_request_ok
  by (intro master_sends_batch)
    (simp_all add: ex_defs uarts_getTxFree_def rq_break_def FBreakPacket_def)

text \<open>
  C7: whatever sequence of calls is made on the automaton (polling, notifications, queueing of requests
  of every kind, flushing), every call of \<open>process\<close> ends without a memory fault, and the queue keeps its
  invariant and holds only well-formed requests.
\<close>

theorem master_always_safe:
  assumes "mt_inv m0" and "(mt_step k)\<^sup>*\<^sup>* m0 m"
  shows "mt_inv m \<and> (\<forall>stk now. \<exists>m'. mt_process k stk now m = Some (Inr m'))"
proof -
  from assms(2,1) have "mt_inv m" by (induction rule: rtranclp_induct) (simp_all add: mt_inv_step)
  then show ?thesis using mt_process_safe by blast
qed

theorem master_always_safe_witness:
  "mt_inv ex_master \<and> (\<forall>stk now. \<exists>m'. mt_process ex_links stk now ex_master = Some (Inr m'))"
proof -
  have i: "mt_inv ex_master" using ex_master_queue ex_request_ok by (simp add: mt_inv_def) (simp add: ex_defs)
  show ?thesis using master_always_safe [OF i rtranclp.rtrancl_refl] by blast
qed

text \<open>
  The sequence numbers of requests count through 0, 1, ..., 254 cyclically: 0xff, which marks a
  request without answer, is never used, but 0xfe, which is reserved for messages that a device sends
  on its own, is.
\<close>

lemma sequence_numbers:
  assumes "mt_sn m = 0"
  shows "unat (fst (getSeqNumber (((snd \<circ> getSeqNumber) ^^ n) m))) = n mod 255"
proof -
  have "unat (mt_sn (((snd \<circ> getSeqNumber) ^^ n) m)) = n mod 255"
  proof (induction n)
    case 0
    then show ?case using assms by simp
  next
    case (Suc n)
    define s where "s = mt_sn (((snd \<circ> getSeqNumber) ^^ n) m)"
    define t where "t = mt_sn (((snd \<circ> getSeqNumber) ^^ Suc n) m)"
    have t: "t = (if s \<ge> 254 then 0 else s + 1)" by (simp add: getSeqNumber_def s_def t_def)
    have u: "unat s = n mod 255" unfolding s_def by (rule Suc)
    have "unat (s + 1) = unat s + 1" if "unat s < 254"
      using that by (simp add: unat_word_ariths)
    then have "unat t = Suc n mod 255"
      using t u by (auto simp: word_le_nat_alt mod_Suc)
    then show ?case by (simp only: t_def)
  qed
  then show ?thesis by (simp add: getSeqNumber_def)
qed

lemma sequence_numbers_witness:
  "fst (getSeqNumber (((snd \<circ> getSeqNumber) ^^ 254) ex_master)) = 0xfe"
proof -
  have "unat (fst (getSeqNumber (((snd \<circ> getSeqNumber) ^^ 254) ex_master))) = 254 mod 255"
    by (rule sequence_numbers) (simp add: ex_defs)
  then show ?thesis by (simp add: word_unat_eq_iff)
qed

end
