(* ===== verification/DataBuffers.thy ===== *)
theory DataBuffers
  imports Protocol
begin

text \<open>
  The store for data blocks: \<open>TDataBuffer\<close> (\<^verbatim>\<open>src/inc/dataio/tdatabuffer.h\<close>), the container of block buffers
  \<open>TDataBuffersContainer\<close> (\<^verbatim>\<open>src/inc/tdatabufferscontainer.h\<close>) and the module \<open>data_buffers\<close>
  (\<^verbatim>\<open>src/src/data_buffers.cpp\<close>) that fills it from received blocks and hands blocks to the host. An
  element of the container is the block its pointer refers to (\<open>None\<close> the null pointer) and its state,
  \<open>True\<close> for \<open>stFull\<close>; the blocks of the container are distinct pieces of \<open>rawBuffer\<close>, so they are stored
  in place. Counters and indices of the container stay below its size and are numbers.
\<close>

section \<open>One block\<close>

definition kMaxDataSize :: nat where "kMaxDataSize = 512 - 8"

record TDataBuffer =
  db_packet :: u16
  db_size :: u16
  db_sync :: u32
  db_data :: "u8 list"

definition getServiceInfoSize :: nat where "getServiceInfoSize = 8"

text \<open>
  The loop that copies one sample of \<open>t_size\<close> bytes to \<open>data[index]\<close> (its counter is 16 bits wide, so the
  sample size is below 65536), with the index after it.
\<close>

definition db_copySample :: "u8 list \<Rightarrow> nat \<Rightarrow> u8 list \<times> nat \<Rightarrow> (u8 list \<times> nat) res" where
  "db_copySample b t_size =
     rfold (\<lambda>i (data, index). rbind (load b i) (\<lambda>v. rbind (store data index v) (\<lambda>data.
              Inr (data, inc16 index)))) [0..<t_size]"

definition db_write :: "u8 list \<Rightarrow> nat \<Rightarrow> TDataBuffer \<Rightarrow> TDataBuffer res" where
  "db_write b t_size d =
     rbind (db_copySample b t_size (db_data d, (unat (db_size d) * t_size) mod 65536)) (\<lambda>(data, _).
       Inr (d\<lparr>db_data := data, db_size := db_size d + 1\<rparr>))"

text \<open>
  Several samples; the condition of the loop is evaluated in unsigned 32-bit arithmetic. Its recursion
  counts the samples that remain.
\<close>

fun db_write_loop :: "u8 list \<Rightarrow> nat \<Rightarrow> nat \<Rightarrow> nat \<Rightarrow> nat \<Rightarrow> TDataBuffer \<Rightarrow> (nat \<times> TDataBuffer) res" where
  "db_write_loop b t_size 0 j index d = Inr (j, d)"
| "db_write_loop b t_size (Suc n) j index d =
     (if (of_nat kMaxDataSize - ucast (db_size d) * of_nat t_size :: u32) \<ge> of_nat t_size
      then rbind (db_copySample b t_size (db_data d, index)) (\<lambda>(data, index).
             db_write_loop b t_size n (j + 1) index (d\<lparr>db_data := data, db_size := db_size d + 1\<rparr>))
      else Inr (j, d))"

definition db_write_n :: "u8 list \<Rightarrow> nat \<Rightarrow> u16 \<Rightarrow> TDataBuffer \<Rightarrow> (nat \<times> TDataBuffer) res" where
  "db_write_n b t_size n d = db_write_loop b t_size (unat n) 0 ((unat (db_size d) * t_size) mod 65536) d"

text \<open>The bytes of a block in memory, and the block a pointer to such bytes refers to.\<close>

definition db_bytes :: "TDataBuffer \<Rightarrow> u8 list" where
  "db_bytes d = bytes16 (db_packet d) @ bytes16 (db_size d) @ bytes32 (db_sync d) @ db_data d"

section \<open>The container\<close>

record container =
  dc_buffers :: "(TDataBuffer option \<times> bool) list"
  dc_size :: nat
  dc_bufferCapacity :: nat
  dc_nFree :: nat
  dc_nFull :: nat
  dc_iFree :: nat
  dc_iFull :: nat
  dc_sizeofTData :: u16

definition DATA_BUFFERS_N :: nat where "DATA_BUFFERS_N = 32"

definition kRcErr :: int where "kRcErr = -1"

definition dc_new :: container where
  "dc_new = \<lparr>dc_buffers = replicate DATA_BUFFERS_N (None, False), dc_size = DATA_BUFFERS_N,
     dc_bufferCapacity = kMaxDataSize, dc_nFree = DATA_BUFFERS_N, dc_nFull = 0, dc_iFree = 0, dc_iFull = 0,
     dc_sizeofTData = 0\<rparr>"

definition dc_reset :: "container \<Rightarrow> container" where
  "dc_reset c = c\<lparr>dc_buffers := map (\<lambda>(b, _). (b, False)) (dc_buffers c), dc_nFree := dc_size c,
     dc_nFull := 0, dc_iFree := 0, dc_iFull := 0\<rparr>"

definition dc_setup :: "nat \<Rightarrow> TDataBuffer option \<Rightarrow> container \<Rightarrow> container res" where
  "dc_setup n p c =
     (if n < dc_size c
      then rbind (load (dc_buffers c) n) (\<lambda>(_, st). Inr (c\<lparr>dc_buffers := (dc_buffers c)[n := (p, st)]\<rparr>))
      else Inr c)"

definition dc_block :: "nat \<Rightarrow> container \<Rightarrow> TDataBuffer res" where
  "dc_block n c = rbind (load (dc_buffers c) n) (\<lambda>(b, _). case b of None \<Rightarrow> Inl NullPointer | Some d \<Rightarrow> Inr d)"

definition dc_put :: "nat \<Rightarrow> TDataBuffer \<Rightarrow> bool \<Rightarrow> container \<Rightarrow> container" where
  "dc_put n d st c = c\<lparr>dc_buffers := (dc_buffers c)[n := (Some d, st)]\<rparr>"

definition dc_getFreeBuffer :: "container \<Rightarrow> int" where
  "dc_getFreeBuffer c = (if dc_nFree c = 0 then kRcErr else int (dc_iFree c))"

text \<open>The search for a free buffer: the position looked at and the index that moves along with it.\<close>

fun lock_scan :: "nat \<Rightarrow> bool list \<Rightarrow> nat \<Rightarrow> nat \<Rightarrow> nat \<times> nat" where
  "lock_scan n [] i index = (i, index)"
| "lock_scan n (st # sts) i index =
     (if st then lock_scan n sts (i + 1) (if index + 1 \<ge> n then 0 else index + 1) else (i, index))"

definition lockFreeBuffer :: "container \<Rightarrow> (int \<times> container) res" where
  "lockFreeBuffer c =
     (if dc_nFree c = 0 then Inr (kRcErr, c)
      else
        let c' = c\<lparr>dc_iFree := (if dc_iFree c + 1 \<ge> dc_size c then 0 else dc_iFree c + 1),
                  dc_nFree := dc_nFree c - 1\<rparr>
        in case lock_scan (dc_size c) (map snd (take (dc_size c) (dc_buffers c))) 0 (dc_iFree c) of
             (i, index) \<Rightarrow>
               if i < dc_size c
               then rbind (dc_block index c') (\<lambda>d.
                      Inr (int index, dc_put index (d\<lparr>db_packet := 0, db_size := 0\<rparr>) True c'))
               else Inr (kRcErr, c'))"

definition releaseBuffer :: "nat \<Rightarrow> container \<Rightarrow> container res" where
  "releaseBuffer n c =
     rbind (load (dc_buffers c) n) (\<lambda>(_, st).
       let c = (if st
                then c\<lparr>dc_nFree := (if dc_nFree c > 0 then dc_nFree c - 1 else dc_nFree c),
                       dc_iFull := (if dc_nFull c > 0
                                    then (if dc_iFull c + 1 = dc_size c then 0 else dc_iFull c + 1)
                                    else dc_iFull c)\<rparr>
                else c);
           c = (if st
                then let nf = (if dc_nFree c < dc_size c then dc_nFree c + 1 else dc_nFree c)
                     in c\<lparr>dc_nFree := nf, dc_iFree := (if nf = 1 then n else dc_iFree c)\<rparr>
                else c)
       in rbind (dc_block n c) (\<lambda>d. Inr (dc_put n (d\<lparr>db_packet := 0\<rparr>) False c)))"

definition unlockBuffer :: "nat \<Rightarrow> container \<Rightarrow> container res" where
  "unlockBuffer n c =
     rbind (dc_block n c) (\<lambda>d.
       if db_size d \<noteq> 0 then
         let nf = (if dc_nFull c < dc_size c then dc_nFull c + 1 else dc_nFull c)
         in Inr ((dc_put n d True c)\<lparr>dc_nFull := nf, dc_iFull := (if nf = 1 then n else dc_iFull c)\<rparr>)
       else releaseBuffer n c)"

fun releaseByNumber_loop :: "u16 \<Rightarrow> nat list \<Rightarrow> container \<Rightarrow> (bool \<times> container) res" where
  "releaseByNumber_loop pn [] c = Inr (False, c)"
| "releaseByNumber_loop pn (i # is) c =
     rbind (dc_block i c) (\<lambda>d.
       if db_packet d = pn then rbind (releaseBuffer i c) (\<lambda>c. Inr (True, c))
       else releaseByNumber_loop pn is c)"

definition releaseBufferByPacketNumber :: "u16 \<Rightarrow> container \<Rightarrow> (bool \<times> container) res" where
  "releaseBufferByPacketNumber pn c = releaseByNumber_loop pn [0..<dc_size c] c"

text \<open>The full buffer with the smallest value of \<open>sync\<close>.\<close>

definition sync_step :: "container \<Rightarrow> nat \<Rightarrow> u32 \<times> int \<Rightarrow> (u32 \<times> int) res" where
  "sync_step c i acc =
     (case acc of (syncMin, index) \<Rightarrow>
        rbind (load (dc_buffers c) i) (\<lambda>(b, st).
          if st then
            (case b of
               None \<Rightarrow> Inl NullPointer
             | Some d \<Rightarrow> Inr (if db_sync d < syncMin then (db_sync d, int i) else acc))
          else Inr acc))"

definition getFullBufferSortBySync :: "container \<Rightarrow> (int \<times> container) res" where
  "getFullBufferSortBySync c =
     rbind (rfold (sync_step c) [0..<dc_size c] (0xFFFFFFFF, -1)) (\<lambda>(_, index).
       Inr (if index \<ge> 0 then (index, c\<lparr>dc_iFull := nat index\<rparr>) else (kRcErr, c)))"

section \<open>The module\<close>

definition kDataId :: u16 where "kDataId = 0x6b"
definition kDataSampleSize :: nat where "kDataSampleSize = 12"

datatype rc_t = kIsFullBuffer | kNoData | kNoBuffers | kIncorrectSize | kIncorrectId

fun rc_code :: "rc_t \<Rightarrow> int" where
  "rc_code kIsFullBuffer = 2"
| "rc_code kNoData = 0"
| "rc_code kNoBuffers = -1"
| "rc_code kIncorrectSize = -2"
| "rc_code kIncorrectId = -3"

text \<open>\<open>init\<close> places the blocks in \<open>rawBuffer\<close>, whose content is the argument.\<close>

definition data_init :: "(nat \<Rightarrow> TDataBuffer) \<Rightarrow> container \<Rightarrow> container res" where
  "data_init raw c = rfold (\<lambda>i. dc_setup i (Some (raw i))) [0..<DATA_BUFFERS_N] c"

definition handleParameters :: "bool \<Rightarrow> u16 \<Rightarrow> container \<Rightarrow> int option" where
  "handleParameters opRead n c =
     (if opRead
      then (if n = 40 then Some (int (dc_nFull c)) else if n = 41 then Some (int (dc_nFree c)) else None)
      else None)"

definition addMsgData :: "'w links \<Rightarrow> u8 \<Rightarrow> TDataBuffer \<Rightarrow> 'w proto \<Rightarrow> (int \<times> 'w proto) res" where
  "addMsgData k seqNumber d p =
     rbind (proto_addMessage k
              (TMsgAppTypeHeader seqNumber kDataId
                 (of_nat (getServiceInfoSize + unat (db_size d) * kDataSampleSize)))
              (db_bytes d) p) (\<lambda>(result, p).
       Inr (if result = 0 then 0 else -1, p))"

definition handleMsgRequestData :: "'w links \<Rightarrow> u8 \<Rightarrow> container \<Rightarrow> 'w proto \<Rightarrow> (container \<times> 'w proto) res" where
  "handleMsgRequestData k sequenceNumber c p =
     rbind (getFullBufferSortBySync c) (\<lambda>(n, c).
       if n \<noteq> kRcErr
       then rbind (dc_block (nat n) c) (\<lambda>d. rbind (addMsgData k sequenceNumber d p) (\<lambda>(_, p). Inr (c, p)))
       else Inr (c, p))"

definition handleMsgDataAcknowledge :: "u16 \<Rightarrow> container \<Rightarrow> container res" where
  "handleMsgDataAcknowledge packetNumber c =
     rbind (releaseBufferByPacketNumber packetNumber c) (\<lambda>(_, c). Inr c)"

definition getDataReadyInfo :: "container \<Rightarrow> rc_t" where
  "getDataReadyInfo c = (if dc_nFull c > 0 then kIsFullBuffer else kNoData)"

text \<open>
  \<open>writeBuffer\<close> gets the bytes from the received block on; \<open>memcpy\<close> overwrites the service fields and the
  first \<open>dataSize\<close> bytes of the data.
\<close>

definition writeBuffer :: "u8 list \<Rightarrow> u32 \<Rightarrow> container \<Rightarrow> (int \<times> container) res" where
  "writeBuffer buf dataId c =
     (if dataId \<noteq> ucast kDataId then Inr (rc_code kIncorrectId, c)
      else rbind (lockFreeBuffer c) (\<lambda>(n, c).
        if n \<noteq> kRcErr then
          rbind (dc_block (nat n) c) (\<lambda>b.
          rbind (load16 buf 2) (\<lambda>sz.
            let dataSize = unat sz * kDataSampleSize in
            if dataSize \<le> kMaxDataSize then
              (if getServiceInfoSize + dataSize \<le> length buf then
                 rbind (memcpy (db_data b) 0 (drop 8 buf) dataSize) (\<lambda>data.
                   Inr (int (getServiceInfoSize + dataSize),
                        dc_put (nat n) \<lparr>db_packet = get16 buf 0, db_size = sz, db_sync = get32 buf 4,
                                        db_data = data\<rparr> True c))
               else Inl OutOfBounds)
            else Inr (rc_code kIncorrectSize, c)))
        else Inr (rc_code kNoBuffers, c)))"

section \<open>Lemmas\<close>

lemma rfold_snoc: "rfold f (xs @ [x]) s = rbind (rfold f xs s) (f x)"
proof -
  have "rfold f [x] t = f x t" for t by (cases "f x t") simp_all
  then show ?thesis by (cases "rfold f xs s") (simp_all add: rfold_append)
qed

lemma db_copySample_blit:
  assumes "t \<le> length b" and "index + t \<le> length data" and "length data < 65536"
  shows "db_copySample b t (data, index) = Inr (blit data index (take t b), (index + t) mod 65536)"
  using assms
proof (induction t)
  case 0
  then show ?case by (simp add: db_copySample_def)
next
  case (Suc t)
  then have "db_copySample b t (data, index) = Inr (blit data index (take t b), (index + t) mod 65536)"
    by simp
  moreover have "(blit data index (take t b))[index + t := b ! t] = blit data index (take (Suc t) b)"
    using Suc.prems by (intro nth_equalityI) (auto simp: nth_blit nth_list_update min_absorb2)
  ultimately show ?case using Suc.prems
    by (simp add: db_copySample_def rfold_append store_def inc16_def min_absorb2)
qed

definition dc_inv :: "container \<Rightarrow> bool" where
  "dc_inv c \<longleftrightarrow> length (dc_buffers c) = dc_size c \<and> 1 < dc_size c \<and> dc_iFree c < dc_size c \<and>
     dc_nFree c \<le> dc_size c \<and>
     (\<forall>(b, st) \<in> set (dc_buffers c). \<exists>d. b = Some d \<and> length (db_data d) = kMaxDataSize)"

lemma dc_inv_nth:
  assumes "dc_inv c" and "n < dc_size c"
  obtains d st where "dc_buffers c ! n = (Some d, st)" and "length (db_data d) = kMaxDataSize"
proof -
  obtain b st where b: "dc_buffers c ! n = (b, st)" by (cases "dc_buffers c ! n")
  have "n < length (dc_buffers c)" using assms by (simp add: dc_inv_def)
  then have "(b, st) \<in> set (dc_buffers c)" using b nth_mem [of n "dc_buffers c"] by simp
  then obtain d where "b = Some d" "length (db_data d) = kMaxDataSize" using assms(1) unfolding dc_inv_def by blast
  then show ?thesis using that b by simp
qed

lemma dc_block_len:
  assumes "dc_inv c" and "dc_block n c = Inr d"
  shows "length (db_data d) = kMaxDataSize"
proof -
  have "n < dc_size c" using assms by (auto simp: dc_block_def dc_inv_def res_elims)
  then obtain d' st where "dc_buffers c ! n = (Some d', st)" "length (db_data d') = kMaxDataSize"
    using dc_inv_nth [OF assms(1)] by blast
  then show ?thesis using assms(2) by (simp add: dc_block_def rbind_Inr_iff load_Inr_iff)
qed

lemma dc_inv_put:
  assumes "dc_inv c" and "length (db_data d) = kMaxDataSize"
  shows "dc_inv (dc_put n d st c)"
proof -
  have "\<exists>d. b = Some d \<and> length (db_data d) = kMaxDataSize"
    if "(b, s) \<in> set ((dc_buffers c)[n := (Some d, st)])" for b s
  proof -
    have "(b, s) = (Some d, st) \<or> (b, s) \<in> set (dc_buffers c)"
      using that set_update_subset_insert [of "dc_buffers c" n "(Some d, st)"] by blast
    then show ?thesis using assms unfolding dc_inv_def by blast
  qed
  then show ?thesis using assms(1) unfolding dc_inv_def dc_put_def by auto
qed

lemma dc_inv_counts:
  "dc_inv c \<Longrightarrow> i < dc_size c \<Longrightarrow> k \<le> dc_size c \<Longrightarrow>
   dc_inv (c\<lparr>dc_iFree := i, dc_nFree := k\<rparr>) \<and> dc_inv (c\<lparr>dc_nFree := k, dc_iFree := i\<rparr>) \<and> dc_inv (c\<lparr>dc_iFull := j\<rparr>)
   \<and> dc_inv (c\<lparr>dc_nFull := m\<rparr>)"
  by (simp add: dc_inv_def)

lemma lock_scan_bound:
  "index < n \<Longrightarrow> lock_scan n sts i index = (i', j) \<Longrightarrow> j < n \<and> i \<le> i' \<and> i' \<le> i + length sts \<and>
     (i' < i + length sts \<longrightarrow> \<not> sts ! (i' - i)) \<and> (\<forall>k < i' - i. sts ! k)"
proof (induction sts arbitrary: i index)
  case (Cons st sts)
  show ?case
  proof (cases st)
    case True
    have *: "(if index + 1 \<ge> n then 0 else index + 1) < n" using Cons.prems(1) by auto
    have "lock_scan n sts (i + 1) (if index + 1 \<ge> n then 0 else index + 1) = (i', j)"
      using Cons.prems(2) True by simp
    from Cons.IH [OF * this] True show ?thesis
      by (auto simp: nth_Cons' Suc_diff_le)
  next
    case False
    with Cons.prems show ?thesis by auto
  qed
qed auto

text \<open>What a successful lock does.\<close>

lemma lockFreeBuffer_ok:
  assumes "dc_inv c"
  shows "\<exists>rc c'. lockFreeBuffer c = Inr (rc, c') \<and> dc_inv c' \<and> dc_nFull c' = dc_nFull c \<and> dc_size c' = dc_size c \<and>
     dc_nFree c' = dc_nFree c - 1 \<and>
     (rc = kRcErr \<and> dc_buffers c' = dc_buffers c \<or>
      (\<exists>n d st. rc = int n \<and> n < dc_size c \<and> dc_buffers c ! n = (Some d, st) \<and> 0 < dc_nFree c \<and>
         dc_buffers c' = (dc_buffers c)[n := (Some (d\<lparr>db_packet := 0, db_size := 0\<rparr>), True)]))"
proof (cases "dc_nFree c = 0")
  case True
  then show ?thesis using assms by (simp add: lockFreeBuffer_def)
next
  case False
  define c1 where "c1 = c\<lparr>dc_iFree := (if dc_iFree c + 1 \<ge> dc_size c then 0 else dc_iFree c + 1),
                  dc_nFree := dc_nFree c - 1\<rparr>"
  have inv1: "dc_inv c1" using assms by (auto simp: c1_def dc_inv_def)
  have b1: "dc_buffers c1 = dc_buffers c" "dc_size c1 = dc_size c" "dc_nFull c1 = dc_nFull c" "dc_nFree c1 = dc_nFree c - 1"
    by (simp_all add: c1_def)
  obtain i index where s: "lock_scan (dc_size c) (map snd (take (dc_size c) (dc_buffers c))) 0 (dc_iFree c) = (i, index)"
    by (cases "lock_scan (dc_size c) (map snd (take (dc_size c) (dc_buffers c))) 0 (dc_iFree c)")
  have ix: "index < dc_size c" using lock_scan_bound [OF _ s] assms by (simp add: dc_inv_def)
  have lk: "lockFreeBuffer c = (if i < dc_size c
       then rbind (dc_block index c1) (\<lambda>d. Inr (int index, dc_put index (d\<lparr>db_packet := 0, db_size := 0\<rparr>) True c1))
       else Inr (kRcErr, c1))"
    using False s unfolding lockFreeBuffer_def c1_def Let_def by simp
  show ?thesis
  proof (cases "i < dc_size c")
    case False
    then have "lockFreeBuffer c = Inr (kRcErr, c1)" using lk by simp
    then show ?thesis using inv1 b1 by auto
  next
    case True
    obtain d st where d: "dc_buffers c ! index = (Some d, st)" "length (db_data d) = kMaxDataSize"
      using dc_inv_nth [OF assms ix] by blast
    have blk: "dc_block index c1 = Inr d"
      using d ix assms b1 by (simp add: dc_block_def load_def dc_inv_def)
    have "lockFreeBuffer c = Inr (int index, dc_put index (d\<lparr>db_packet := 0, db_size := 0\<rparr>) True c1)"
      using lk True blk by simp
    moreover have "dc_inv (dc_put index (d\<lparr>db_packet := 0, db_size := 0\<rparr>) True c1)"
      by (rule dc_inv_put [OF inv1]) (simp add: d)
    ultimately show ?thesis using d ix b1 \<open>dc_nFree c \<noteq> 0\<close> by (auto simp: dc_put_def)
  qed
qed

lemma releaseBuffer_ok:
  assumes "dc_inv c" and "n < dc_size c"
  shows "\<exists>c'. releaseBuffer n c = Inr c' \<and> dc_inv c' \<and> dc_nFull c' = dc_nFull c \<and> dc_size c' = dc_size c \<and>
     dc_nFree c' = (if snd (dc_buffers c ! n) then max 1 (dc_nFree c) else dc_nFree c) \<and>
     dc_buffers c' = (dc_buffers c)[n := (map_option (\<lambda>d. d\<lparr>db_packet := 0\<rparr>) (fst (dc_buffers c ! n)), False)]"
proof -
  obtain d st where d: "dc_buffers c ! n = (Some d, st)" "length (db_data d) = kMaxDataSize"
    using dc_inv_nth [OF assms] by blast
  have n: "n < length (dc_buffers c)" and sz: "1 < dc_size c" "dc_nFree c \<le> dc_size c" using assms by (simp_all add: dc_inv_def)
  define f where "f = (if dc_nFull c > 0 then (if dc_iFull c + 1 = dc_size c then 0 else dc_iFull c + 1) else dc_iFull c)"
  define nf where "nf = max 1 (dc_nFree c)"
  define c1 where "c1 = (if st then c\<lparr>dc_iFull := f, dc_nFree := nf, dc_iFree := (if nf = 1 then n else dc_iFree c)\<rparr> else c)"
  have inv1: "dc_inv c1" using assms sz by (auto simp: c1_def dc_inv_def nf_def)
  have b1: "dc_buffers c1 = dc_buffers c" by (simp add: c1_def)
  have blk: "dc_block n c1 = Inr d" using d n b1 by (simp add: dc_block_def load_def)
  have "releaseBuffer n c = Inr (dc_put n (d\<lparr>db_packet := 0\<rparr>) False c1)"
    using d n sz by (cases st) (auto simp: releaseBuffer_def dc_block_def load_def Let_def c1_def f_def nf_def max_def)
  moreover have "dc_inv (dc_put n (d\<lparr>db_packet := 0\<rparr>) False c1)"
    by (rule dc_inv_put [OF inv1]) (simp add: d)
  ultimately show ?thesis using d b1 by (auto simp: dc_put_def c1_def nf_def)
qed

lemma releaseByNumber_ok:
  assumes "dc_inv c" and "\<forall>i \<in> set is. i < dc_size c"
  shows "\<exists>r c'. releaseByNumber_loop pn is c = Inr (r, c') \<and> dc_inv c' \<and> dc_nFull c' = dc_nFull c \<and> dc_size c' = dc_size c"
  using assms(2)
proof (induction "is")
  case (Cons i "is")
  obtain d st where d: "dc_buffers c ! i = (Some d, st)" using dc_inv_nth [OF assms(1), of i] Cons.prems by (metis list.set_intros(1))
  have "dc_block i c = Inr d" using d assms(1) Cons.prems by (simp add: dc_block_def load_def dc_inv_def)
  then show ?case using Cons releaseBuffer_ok [OF assms(1), of i] by auto
qed (auto simp: assms(1))

lemma sync_fold:
  assumes "dc_inv c" and "k \<le> dc_size c"
  shows "\<exists>m j. rfold (sync_step c) [0..<k] (0xFFFFFFFF, -1) = Inr (m, j) \<and>
     (j = -1 \<and> m = 0xFFFFFFFF \<or> (\<exists>n d. j = int n \<and> n < k \<and> dc_buffers c ! n = (Some d, True) \<and> db_sync d = m \<and> m < 0xFFFFFFFF)) \<and>
     (\<forall>i < k. \<forall>d. dc_buffers c ! i = (Some d, True) \<longrightarrow> m \<le> db_sync d \<and> (int i < j \<longrightarrow> m < db_sync d))"
  using assms(2)
proof (induction k)
  case 0
  then show ?case by simp
next
  case (Suc k)
  then obtain m j where IH: "rfold (sync_step c) [0..<k] (0xFFFFFFFF, -1) = Inr (m, j)"
     "j = -1 \<and> m = 0xFFFFFFFF \<or> (\<exists>n d. j = int n \<and> n < k \<and> dc_buffers c ! n = (Some d, True) \<and> db_sync d = m \<and> m < 0xFFFFFFFF)"
     "\<forall>i < k. \<forall>d. dc_buffers c ! i = (Some d, True) \<longrightarrow> m \<le> db_sync d \<and> (int i < j \<longrightarrow> m < db_sync d)"
    by auto
  obtain d st where d: "dc_buffers c ! k = (Some d, st)" using dc_inv_nth [OF assms(1), of k] Suc.prems by (metis Suc_le_eq)
  have lk: "k < length (dc_buffers c)" using Suc.prems assms(1) by (simp add: dc_inv_def)
  have step: "rfold (sync_step c) [0..<Suc k] (0xFFFFFFFF, -1) =
      Inr (if st \<and> db_sync d < m then (db_sync d, int k) else (m, j))"
    using IH(1) d lk by (simp add: rfold_append sync_step_def load_def)
  show ?case
  proof (cases "st \<and> db_sync d < m")
    case True
    have "(0xFFFFFFFF :: u32) = -1" by simp
    then have mx: "m \<le> 0xFFFFFFFF" by (metis word_order.extremum)
    have "\<forall>i < Suc k. \<forall>d'. dc_buffers c ! i = (Some d', True) \<longrightarrow>
        db_sync d \<le> db_sync d' \<and> (int i < int k \<longrightarrow> db_sync d < db_sync d')"
      using IH(3) True d by (auto simp: less_Suc_eq intro: order.strict_implies_order order.strict_trans1 order.strict_trans2)
    then show ?thesis using step True d mx by (auto simp: less_Suc_eq intro: order.strict_trans2)
  next
    case False
    have jk: "j \<le> int k" using IH(2) by auto
    have "\<forall>i < Suc k. \<forall>d'. dc_buffers c ! i = (Some d', True) \<longrightarrow> m \<le> db_sync d' \<and> (int i < j \<longrightarrow> m < db_sync d')"
      using IH(3) False d jk by (auto simp: less_Suc_eq not_less)
    then show ?thesis using step False IH(2) by (auto simp: less_Suc_eq)
  qed
qed


lemma data_init_ok:
  assumes "\<And>i. length (db_data (raw i)) = kMaxDataSize"
  shows "\<exists>c. data_init raw dc_new = Inr c \<and> dc_inv c \<and> dc_nFull c = 0 \<and> dc_nFree c = 32 \<and> dc_size c = 32 \<and>
     dc_buffers c = map (\<lambda>i. (Some (raw i), False)) [0..<32]"
proof -
  have *: "rfold (\<lambda>i. dc_setup i (Some (raw i))) [0..<k] dc_new =
      Inr (dc_new\<lparr>dc_buffers := map (\<lambda>i. (if i < k then Some (raw i) else None, False)) [0..<32]\<rparr>)" if "k \<le> 32" for k
    using that
  proof (induction k)
    case 0
    then show ?case by (simp add: dc_new_def DATA_BUFFERS_N_def map_replicate_trivial)
  next
    case (Suc k)
    have "(map (\<lambda>i. (if i < k then Some (raw i) else None, False)) [0..<32])[k := (Some (raw k), False)] =
        map (\<lambda>i. (if i < Suc k then Some (raw i) else None, False)) [0..<32]"
      using Suc.prems by (intro nth_equalityI) (auto simp: nth_list_update less_Suc_eq)
    moreover have "rfold (\<lambda>i. dc_setup i (Some (raw i))) [0..<Suc k] dc_new =
        rbind (rfold (\<lambda>i. dc_setup i (Some (raw i))) [0..<k] dc_new) (dc_setup k (Some (raw k)))"
      by (simp add: rfold_snoc)
    moreover have "k < 32" using Suc.prems by simp
    ultimately show ?case using Suc.IH
      by (simp add: dc_setup_def [of k] load_def) (simp add: dc_new_def DATA_BUFFERS_N_def)
  qed
  have "map (\<lambda>i. (if i < 32 then Some (raw i) else None, False)) [0..<32] = map (\<lambda>i. (Some (raw i), False)) [0..<32]"
    by (rule map_cong) auto
  then have "data_init raw dc_new = Inr (dc_new\<lparr>dc_buffers := map (\<lambda>i. (Some (raw i), False)) [0..<32]\<rparr>)"
    using * [of 32] by (simp add: data_init_def DATA_BUFFERS_N_def)
  then show ?thesis using assms by (auto simp: dc_new_def DATA_BUFFERS_N_def dc_inv_def)
qed

lemma writeBuffer_ok:
  assumes "dc_inv c" and "8 + 504 \<le> length buf"
  shows "\<exists>rc c'. writeBuffer buf i c = Inr (rc, c') \<and> dc_inv c' \<and> dc_nFull c' = dc_nFull c"
proof (cases "i = ucast kDataId")
  case False
  then show ?thesis using assms by (simp add: writeBuffer_def)
next
  case True
  obtain rc c1 where l: "lockFreeBuffer c = Inr (rc, c1)" "dc_inv c1" "dc_nFull c1 = dc_nFull c" "dc_size c1 = dc_size c"
      "rc = kRcErr \<or> (\<exists>n. rc = int n \<and> n < dc_size c)"
    using lockFreeBuffer_ok [OF assms(1)] by blast
  show ?thesis
  proof (cases "rc = kRcErr")
    case True
    then show ?thesis using l \<open>i = ucast kDataId\<close> by (simp add: writeBuffer_def)
  next
    case False
    then obtain n where n: "rc = int n" "n < dc_size c1" using l by auto
    obtain d st where d: "dc_buffers c1 ! n = (Some d, st)" "length (db_data d) = kMaxDataSize"
      using dc_inv_nth [OF l(2) n(2)] by blast
    have blk: "dc_block n c1 = Inr d" using d n l(2) by (simp add: dc_block_def load_def dc_inv_def)
    have p: "dc_inv (dc_put n \<lparr>db_packet = x, db_size = y, db_sync = z, db_data = blit (db_data d) 0 (take k (drop 8 buf))\<rparr> True c1)"
      if "k \<le> kMaxDataSize" for x y z k
      using that d(2) assms(2) by (intro dc_inv_put [OF l(2)]) (simp add: kMaxDataSize_def)
    show ?thesis
      using l n blk \<open>i = ucast kDataId\<close> False assms(2) p d(2)
      by (auto simp: writeBuffer_def Let_def kMaxDataSize_def getServiceInfoSize_def dc_put_def)
  qed
qed

text \<open>The calls the firmware makes on the module once it is initialised.\<close>

inductive data_step :: "container \<Rightarrow> container \<Rightarrow> bool" where
  store: "writeBuffer buf i c = Inr (rc, c') \<Longrightarrow> data_step c c'"
| request: "getFullBufferSortBySync c = Inr (n, c') \<Longrightarrow> data_step c c'"
| acknowledge: "handleMsgDataAcknowledge pn c = Inr c' \<Longrightarrow> data_step c c'"
| reset: "data_step c (dc_reset c)"

lemma writeBuffer_keeps:
  assumes "dc_inv c" and "writeBuffer buf i c = Inr (rc, c')"
  shows "dc_inv c' \<and> dc_nFull c' = dc_nFull c"
proof -
  obtain r c1 where l: "lockFreeBuffer c = Inr (r, c1)" "dc_inv c1" "dc_nFull c1 = dc_nFull c" "dc_size c1 = dc_size c"
      "r = kRcErr \<or> (\<exists>n. r = int n \<and> n < dc_size c1)"
    using lockFreeBuffer_ok [OF assms(1)] by (metis (no_types, lifting))
  have b: "length (db_data d) = kMaxDataSize" if "dc_block n c1 = Inr d" for n d
    by (rule dc_block_len [OF l(2) that])
  have "c' = c \<or> c' = c1 \<or> (\<exists>n sz data d. dc_block n c1 = Inr d \<and>
      memcpy (db_data d) 0 (drop 8 buf) (unat sz * kDataSampleSize) = Inr data \<and>
      c' = dc_put n \<lparr>db_packet = get16 buf 0, db_size = sz, db_sync = get32 buf 4, db_data = data\<rparr> True c1)"
  proof (cases "i = ucast kDataId \<and> r \<noteq> kRcErr")
    case False
    then have "c' = c \<or> c' = c1"
      using assms(2) l(1) by (cases "i = ucast kDataId") (simp_all add: writeBuffer_def)
    then show ?thesis by blast
  next
    case True
    then obtain d sz where d: "dc_block (nat r) c1 = Inr d" "load16 buf 2 = Inr sz"
      using assms(2) l(1) by (simp add: writeBuffer_def rbind_Inr_iff) blast
    have "c' = c1 \<or> (\<exists>data. memcpy (db_data d) 0 (drop 8 buf) (unat sz * kDataSampleSize) = Inr data \<and>
        c' = dc_put (nat r) \<lparr>db_packet = get16 buf 0, db_size = sz, db_sync = get32 buf 4, db_data = data\<rparr> True c1)"
      using assms(2) True by (simp add: writeBuffer_def l(1) d Let_def rbind_Inr_iff split: if_split_asm) blast
    then show ?thesis using d(1) by blast
  qed
  then show ?thesis
  proof (elim disjE exE conjE)
    fix n sz data d
    assume d: "dc_block n c1 = Inr d" "memcpy (db_data d) 0 (drop 8 buf) (unat sz * kDataSampleSize) = Inr data"
      "c' = dc_put n \<lparr>db_packet = get16 buf 0, db_size = sz, db_sync = get32 buf 4, db_data = data\<rparr> True c1"
    then have "length data = kMaxDataSize" using b [OF d(1)] by (auto simp: res_elims)
    then show ?thesis using d(3) dc_inv_put [OF l(2)] l(3) by (simp add: dc_put_def)
  qed (use assms(1) l in auto)
qed

lemma data_step_inv:
  assumes "data_step c c'" and "dc_inv c" and "dc_nFull c = 0"
  shows "dc_inv c' \<and> dc_nFull c' = 0"
  using assms(1)
proof cases
  case (store buf i rc)
  then show ?thesis using writeBuffer_keeps [OF assms(2)] assms(3) by auto
next
  case (request n)
  then have "c' = c \<or> (\<exists>j. c' = c\<lparr>dc_iFull := j\<rparr>)"
    by (auto simp: getFullBufferSortBySync_def res_elims split: if_split_asm)
  then show ?thesis using assms(2,3) by (auto simp: dc_inv_def)
next
  case (acknowledge pn)
  then show ?thesis
    using releaseByNumber_ok [OF assms(2), of "[0..<dc_size c]" pn] assms(3)
    by (auto simp: handleMsgDataAcknowledge_def releaseBufferByPacketNumber_def res_elims)
next
  case reset
  have "\<exists>d. b = Some d \<and> length (db_data d) = kMaxDataSize" if "(b, st) \<in> set (map (\<lambda>(b, _). (b, False)) (dc_buffers c))" for b st
    using that assms(2) unfolding dc_inv_def by auto
  then show ?thesis using reset assms(2) by (auto simp: dc_reset_def dc_inv_def)
qed

section \<open>Properties\<close>

text \<open>
  C32: after initialisation no sequence of the calls the firmware makes (storing received blocks, requests
  of the host, acknowledgements, reset) ever makes \<open>getDataReadyInfo\<close> report data: the counter of full
  buffers is only incremented by \<open>unlockBuffer\<close>, which storing a block does not call. Every request of
  the host is therefore answered with the absence of data.
\<close>

theorem data_never_reported:
  assumes "\<And>i. length (db_data (raw i)) = kMaxDataSize" and "data_init raw dc_new = Inr c0"
    and "data_step\<^sup>*\<^sup>* c0 c"
  shows "getDataReadyInfo c = kNoData"
proof -
  have "dc_inv c0 \<and> dc_nFull c0 = 0" using data_init_ok [of raw] assms(1,2) by auto
  with assms(3) have "dc_inv c \<and> dc_nFull c = 0"
    by (induction rule: rtranclp_induct) (auto dest: data_step_inv)
  then show ?thesis by (simp add: getDataReadyInfo_def)
qed

definition ex_block :: TDataBuffer where
  "ex_block = \<lparr>db_packet = 7, db_size = 1, db_sync = 5, db_data = replicate 504 1\<rparr>"

lemma ex_block_len: "length (db_data ex_block) = kMaxDataSize"
  by (simp add: ex_block_def kMaxDataSize_def)

theorem data_never_reported_witness:
  "\<exists>c0 rc c. data_init (\<lambda>_. ex_block) dc_new = Inr c0 \<and> writeBuffer (db_bytes ex_block) 0x6b c0 = Inr (rc, c) \<and>
     getDataReadyInfo c = kNoData"
proof -
  obtain c0 where c0: "data_init (\<lambda>_. ex_block) dc_new = Inr c0" "dc_inv c0"
    using data_init_ok [of "\<lambda>_. ex_block"] ex_block_len by auto
  have len: "8 + 504 \<le> length (db_bytes ex_block)" by (simp add: db_bytes_def ex_block_def)
  obtain rc c where c: "writeBuffer (db_bytes ex_block) 0x6b c0 = Inr (rc, c)"
    using writeBuffer_ok [OF c0(2) len] by blast
  have "data_step\<^sup>*\<^sup>* c0 c" using data_step.store [OF c] by blast
  then show ?thesis using data_never_reported [of "\<lambda>_. ex_block", OF ex_block_len c0(1)] c0 c by blast
qed

text \<open>
  \<open>lockFreeBuffer\<close> looks for a free buffer from index 0 on but counts from \<open>iFree\<close>: when buffer 0 is in use
  and buffer 1 is free it takes the buffer after \<open>iFree\<close>, whatever the state of that buffer is, and a
  block stored there is lost although there are free buffers.
\<close>

lemma lock_ignores_state:
  assumes "dc_inv c" and "0 < dc_nFree c" and "snd (dc_buffers c ! 0)" and "\<not> snd (dc_buffers c ! 1)"
    and "j = (dc_iFree c + 1) mod dc_size c"
  shows "\<exists>d st c'. dc_buffers c ! j = (Some d, st) \<and> lockFreeBuffer c = Inr (int j, c') \<and>
     dc_buffers c' ! j = (Some (d\<lparr>db_packet := 0, db_size := 0\<rparr>), True)"
proof -
  have sz: "length (dc_buffers c) = dc_size c" "1 < dc_size c" "dc_iFree c < dc_size c"
    using assms(1) by (simp_all add: dc_inv_def)
  obtain x y zs where xs: "dc_buffers c = x # y # zs" using sz by (cases "dc_buffers c"; cases "tl (dc_buffers c)") auto
  have jn: "j = (if dc_iFree c + 1 \<ge> dc_size c then 0 else dc_iFree c + 1)"
    using assms(5) sz by (auto simp: mod_if)
  have jlt: "j < dc_size c" using assms(5) sz by simp
  have scan: "lock_scan (dc_size c) (map snd (take (dc_size c) (dc_buffers c))) 0 (dc_iFree c) = (1, j)"
    using assms(3,4) sz xs jn by auto
  obtain d st where d: "dc_buffers c ! j = (Some d, st)" using dc_inv_nth [OF assms(1) jlt] by metis
  then show ?thesis using scan assms(2) sz jlt
    by (auto simp: lockFreeBuffer_def Let_def dc_block_def load_def dc_put_def)
qed

definition ex_container :: container where
  "ex_container = \<lparr>dc_buffers = [(Some ex_block, True), (Some ex_block, False), (Some ex_block, True)], dc_size = 3,
     dc_bufferCapacity = 504, dc_nFree = 2, dc_nFull = 0, dc_iFree = 2, dc_iFull = 0, dc_sizeofTData = 0\<rparr>"

lemma ex_container_inv: "dc_inv ex_container"
  by (simp add: dc_inv_def ex_container_def ex_block_len)

lemma lock_ignores_state_witness:
  "\<exists>d st c'. dc_buffers ex_container ! 0 = (Some d, st) \<and> lockFreeBuffer ex_container = Inr (int 0, c') \<and>
     dc_buffers c' ! 0 = (Some (d\<lparr>db_packet := 0, db_size := 0\<rparr>), True)"
  by (rule lock_ignores_state [OF ex_container_inv]) (simp_all add: ex_container_def)

text \<open>
  Taking a buffer and giving it back loses a free buffer: \<open>releaseBuffer\<close> decrements and increments the
  counter of free buffers, so after a lock and a release of the same buffer it is one less than before.
\<close>

lemma free_counter_leak:
  assumes "dc_inv c" and "1 < dc_nFree c" and "lockFreeBuffer c = Inr (int n, c1)"
  shows "\<exists>c2. releaseBuffer n c1 = Inr c2 \<and> dc_nFree c2 = dc_nFree c - 1"
proof -
  have k: "int n \<noteq> kRcErr" by (simp add: kRcErr_def)
  have l: "dc_inv c1" "dc_nFree c1 = dc_nFree c - 1" "n < dc_size c1" "snd (dc_buffers c1 ! n)"
    using lockFreeBuffer_ok [OF assms(1)] assms(1,3) k by (auto simp: dc_inv_def)
  then show ?thesis using releaseBuffer_ok [OF l(1,3)] assms(2) by auto
qed

lemma free_counter_leak_witness:
  "\<exists>c1 c2. lockFreeBuffer ex_container = Inr (int 0, c1) \<and> releaseBuffer 0 c1 = Inr c2 \<and> dc_nFree c2 = 2 - 1"
proof -
  obtain c1 where c1: "lockFreeBuffer ex_container = Inr (int 0, c1)"
    by (simp add: lockFreeBuffer_def ex_container_def Let_def dc_block_def load_def)
  have "\<exists>c2. releaseBuffer 0 c1 = Inr c2 \<and> dc_nFree c2 = dc_nFree ex_container - 1"
    by (rule free_counter_leak [OF ex_container_inv _ c1]) (simp add: ex_container_def)
  then show ?thesis using c1 by (simp add: ex_container_def)
qed

text \<open>
  The block chosen for transmission is a full buffer with the smallest value of \<open>sync\<close>, the one with
  the smallest index among several; there is none exactly when no full buffer has a value below the
  largest 32-bit number.
\<close>

lemma oldest_block_first:
  assumes "dc_inv c"
  shows "\<exists>r c'. getFullBufferSortBySync c = Inr (r, c') \<and>
     (if \<exists>i d. i < dc_size c \<and> dc_buffers c ! i = (Some d, True) \<and> db_sync d < 0xFFFFFFFF
      then \<exists>n d. r = int n \<and> n < dc_size c \<and> dc_buffers c ! n = (Some d, True) \<and>
         (\<forall>i d'. i < dc_size c \<and> dc_buffers c ! i = (Some d', True) \<longrightarrow>
            db_sync d \<le> db_sync d' \<and> (i < n \<longrightarrow> db_sync d < db_sync d'))
      else r = -1)"
proof -
  obtain m j where f: "rfold (sync_step c) [0..<dc_size c] (0xFFFFFFFF, -1) = Inr (m, j)"
     "j = -1 \<and> m = 0xFFFFFFFF \<or> (\<exists>n d. j = int n \<and> n < dc_size c \<and> dc_buffers c ! n = (Some d, True) \<and> db_sync d = m \<and> m < 0xFFFFFFFF)"
     "\<forall>i < dc_size c. \<forall>d. dc_buffers c ! i = (Some d, True) \<longrightarrow> m \<le> db_sync d \<and> (int i < j \<longrightarrow> m < db_sync d)"
    using sync_fold [OF assms order.refl] by blast
  show ?thesis
  proof (cases "j = -1")
    case True
    then have "m = 0xFFFFFFFF" using f(2) by auto
    then have "\<not> (\<exists>i d. i < dc_size c \<and> dc_buffers c ! i = (Some d, True) \<and> db_sync d < 0xFFFFFFFF)"
      using f(3) leD by blast
    then show ?thesis using f(1) True by (simp add: getFullBufferSortBySync_def kRcErr_def)
  next
    case False
    then obtain n d where n: "j = int n" "n < dc_size c" "dc_buffers c ! n = (Some d, True)" "db_sync d = m" "m < 0xFFFFFFFF"
      using f(2) by auto
    then have "\<exists>i d. i < dc_size c \<and> dc_buffers c ! i = (Some d, True) \<and> db_sync d < 0xFFFFFFFF" by blast
    then show ?thesis using f(1,3) n by (auto simp: getFullBufferSortBySync_def)
  qed
qed

lemma oldest_block_first_example:
  "\<exists>r c'. getFullBufferSortBySync ex_container = Inr (r, c') \<and> r \<noteq> -1"
proof -
  have "\<exists>i d. i < dc_size ex_container \<and> dc_buffers ex_container ! i = (Some d, True) \<and> db_sync d < 0xFFFFFFFF"
    by (intro exI [of _ 0] exI [of _ ex_block]) (simp add: ex_container_def ex_block_def)
  then obtain r c' n where "getFullBufferSortBySync ex_container = Inr (r, c')" "r = int n"
    using oldest_block_first [OF ex_container_inv] by auto
  then show ?thesis by auto
qed

text \<open>
  Writing several samples at once into an empty block repeats the first sample: the index into the
  source restarts with every sample, so the samples behind the first are never copied.
\<close>

lemma multi_sample_write_repeats:
  assumes "db_size d = 0" and "length (db_data d) = kMaxDataSize" and "0 < t" and "t \<le> length b"
    and "unat n * t \<le> kMaxDataSize"
  shows "\<exists>d'. db_write_n b t n d = Inr (unat n, d') \<and> unat (db_size d') = unat n \<and>
     take (unat n * t) (db_data d') = concat (replicate (unat n) (take t b))"
proof -
  have loop: "\<exists>d'. db_write_loop b t k j (j * t) e = Inr (j + k, d') \<and> unat (db_size d') = j + k \<and>
      take ((j + k) * t) (db_data d') = take (j * t) (db_data e) @ concat (replicate k (take t b))"
    if "unat (db_size e) = j" "length (db_data e) = kMaxDataSize" "(j + k) * t \<le> kMaxDataSize" for k j e
    using that
  proof (induction k arbitrary: j e)
    case 0
    then show ?case by simp
  next
    case (Suc k)
    have fit: "j * t + t \<le> 504" using Suc.prems(3) by (simp add: kMaxDataSize_def algebra_simps)
    then have jt: "j * t \<le> 504" "t \<le> 504" by simp_all
    have jl: "j \<le> 504" using jt(1) assms(3) by (metis le_trans mult.right_neutral mult_le_mono2 Suc_leI One_nat_def)
    have u: "unat (ucast (db_size e) * of_nat t :: u32) = j * t"
    proof -
      have "(ucast (db_size e) :: u32) = of_nat j" using Suc.prems(1) by (metis of_nat_unat)
      then have "(ucast (db_size e) * of_nat t :: u32) = of_nat (j * t)" by simp
      then show ?thesis using jt by (simp add: unat_of_nat_u32 del: of_nat_mult)
    qed
    have cond: "(of_nat kMaxDataSize - ucast (db_size e) * of_nat t :: u32) \<ge> of_nat t"
      using u fit by (simp add: word_le_nat_alt unat_sub unat_of_nat_u32 kMaxDataSize_def)
    let ?e = "e\<lparr>db_data := blit (db_data e) (j * t) (take t b), db_size := db_size e + 1\<rparr>"
    have cp: "db_copySample b t (db_data e, j * t) = Inr (blit (db_data e) (j * t) (take t b), j * t + t)"
      using db_copySample_blit [of t b "j * t" "db_data e"] assms(4) Suc.prems(2) fit by (simp add: kMaxDataSize_def)
    have s1: "unat (db_size e + 1) = Suc j" using Suc.prems(1) jl by (subst unat_add_u16) simp_all
    have IH: "\<exists>d'. db_write_loop b t k (Suc j) (Suc j * t) ?e = Inr (Suc j + k, d') \<and> unat (db_size d') = Suc j + k \<and>
      take ((Suc j + k) * t) (db_data d') = take (Suc j * t) (db_data ?e) @ concat (replicate k (take t b))"
      using Suc.prems s1 fit assms(4) by (intro Suc.IH) (simp_all add: kMaxDataSize_def)
    have "take (Suc j * t) (db_data ?e) = take (j * t) (db_data e) @ take t b"
      using blit_extend [of 0 "j * t" "db_data e" "take t b"] fit assms(4) Suc.prems(2)
      by (simp add: kMaxDataSize_def add.commute min_absorb2)
    then show ?case using IH cond cp by (auto simp: add.commute)
  qed
  show ?thesis using loop [of d 0 "unat n"] assms by (simp add: db_write_n_def)
qed

lemma multi_sample_write_repeats_witness:
  "\<exists>d'. db_write_n [1, 2] 1 2 (ex_block\<lparr>db_size := 0\<rparr>) = Inr (unat (2 :: u16), d') \<and> unat (db_size d') = unat (2 :: u16) \<and>
     take (unat (2 :: u16) * 1) (db_data d') = concat (replicate (unat (2 :: u16)) (take 1 [1, 2]))"
  by (rule multi_sample_write_repeats) (simp_all add: ex_block_def kMaxDataSize_def)


lemma db_bytes_fields:
  "get16 (db_bytes d) 0 = db_packet d" "get16 (db_bytes d) 2 = db_size d" "get32 (db_bytes d) 4 = db_sync d"
  "drop 8 (db_bytes d) = db_data d" "length (db_bytes d) = 8 + length (db_data d)"
  by (simp_all add: db_bytes_def get16_def get32_def bytes16_def bytes32_def mk32_bytes32)

text \<open>
  A block that fits is stored unchanged: when the block of another device arrives and a buffer is
  available, \<open>writeBuffer\<close> returns the size of the block, and the chosen buffer holds its packet number,
  size, synchronisation time and samples.
\<close>

lemma block_stored_unchanged:
  assumes "dc_inv c" and "unat (db_size d) * kDataSampleSize \<le> kMaxDataSize" and "length (db_data d) = kMaxDataSize"
    and "lockFreeBuffer c = Inr (int n, c1)"
  shows "\<exists>c' d'. writeBuffer (db_bytes d) (ucast kDataId) c = Inr (int (8 + unat (db_size d) * kDataSampleSize), c') \<and>
     dc_buffers c' ! n = (Some d', True) \<and> db_packet d' = db_packet d \<and> db_size d' = db_size d \<and>
     db_sync d' = db_sync d \<and>
     take (unat (db_size d) * kDataSampleSize) (db_data d') = take (unat (db_size d) * kDataSampleSize) (db_data d)"
proof -
  have k: "int n \<noteq> kRcErr" by (simp add: kRcErr_def)
  have l: "dc_inv c1" "n < dc_size c1"
    using lockFreeBuffer_ok [OF assms(1)] assms(1,4) k by (auto simp: dc_inv_def)
  obtain e st where e: "dc_buffers c1 ! n = (Some e, st)" "length (db_data e) = kMaxDataSize"
    using dc_inv_nth [OF l] by blast
  have n: "n < length (dc_buffers c1)" using l by (simp add: dc_inv_def)
  have blk: "dc_block n c1 = Inr e" using e n by (simp add: dc_block_def load_def)
  let ?ds = "unat (db_size d) * kDataSampleSize"
  have "writeBuffer (db_bytes d) (ucast kDataId) c = Inr (int (8 + ?ds),
      dc_put n \<lparr>db_packet = db_packet d, db_size = db_size d, db_sync = db_sync d,
                db_data = blit (db_data e) 0 (take ?ds (db_data d))\<rparr> True c1)"
    using assms(2,3,4) k blk e(2)
    by (simp add: writeBuffer_def Let_def load16_def db_bytes_fields getServiceInfoSize_def)
  moreover have "take ?ds (blit (db_data e) 0 (take ?ds (db_data d))) = take ?ds (db_data d)"
    using assms(2,3) by (simp add: blit_def)
  ultimately show ?thesis using n by (simp add: dc_put_def)
qed

lemma block_stored_unchanged_example:
  "\<exists>c' d'. writeBuffer (db_bytes ex_block) (ucast kDataId) ex_container = Inr (int (8 + unat (db_size ex_block) * kDataSampleSize), c') \<and>
     dc_buffers c' ! 0 = (Some d', True) \<and> db_packet d' = db_packet ex_block \<and> db_size d' = db_size ex_block \<and>
     db_sync d' = db_sync ex_block \<and>
     take (unat (db_size ex_block) * kDataSampleSize) (db_data d') = take (unat (db_size ex_block) * kDataSampleSize) (db_data ex_block)"
proof -
  obtain c1 where c1: "lockFreeBuffer ex_container = Inr (int 0, c1)"
    by (simp add: lockFreeBuffer_def ex_container_def Let_def dc_block_def load_def)
  show ?thesis
    by (rule block_stored_unchanged [OF ex_container_inv _ ex_block_len c1])
      (simp add: ex_block_def kDataSampleSize_def kMaxDataSize_def)
qed

end
