(* ===== verification/SlavePoll.thy ===== *)
theory SlavePoll
  imports MasterTx DataBuffers
begin

text \<open>
  Polling of the devices on the local bus: the class \<open>SlavePoll\<close> (\<^verbatim>\<open>src/inc/p_slave_poll.h\<close>), the module
  around it (\<^verbatim>\<open>src/src/p_slave_data_io.cpp\<close>) and the handlers of the messages these devices send
  (\<^verbatim>\<open>p_slavemsghandlers_local.cpp\<close>, \<^verbatim>\<open>p_slavemsghandlers_local_inst.cpp\<close>). The state of the local side of
  the firmware is the automaton, the request queue of the master's transmitter and the container of data
  blocks. The diagnostic output of the data handler is left out.
\<close>

section \<open>State\<close>

datatype rq_res_t = kResIdle | kResWait | kResRcvData | kResNoData | kResTimeout

datatype state_t = kStIdle | kStStart | kStStartPeriod | kStSendRq | kStWait | kStNext | kStWaitRqInterval | kStStop

record slave_info_t =
  si_address :: u16
  si_packet :: u16
  si_state :: rq_res_t

record poll =
  sp_state :: state_t
  sp_slaves :: "slave_info_t list"
  sp_rqPeriod :: u32
  sp_rqTimeout :: u32
  sp_tmPeriod :: u32
  sp_tmRq :: u32
  sp_index :: nat
  sp_sequenceNumber :: u8
  sp_rcvData :: bool
  sp_rcvNoData :: bool

definition kMaxSlaves :: nat where "kMaxSlaves = 4"

definition kPnBufferFree :: u16 where "kPnBufferFree = 0xFFFF"

definition MsgApp_RequestData :: u16 where "MsgApp_RequestData = 0x10"
definition MsgApp_DataAcknowledge :: u16 where "MsgApp_DataAcknowledge = 0x11"
definition MsgApp_DataAbsence :: u16 where "MsgApp_DataAbsence = 0x12"

text \<open>The local side: automaton, request queue and data blocks.\<close>

record loc =
  lo_poll :: poll
  lo_queue :: "TTxRequest tqueue"
  lo_data :: container

section \<open>Operations of the automaton\<close>

text \<open>The constructor; uninitialised fields are taken from the argument.\<close>

definition sp_new :: "poll \<Rightarrow> poll" where
  "sp_new p = p\<lparr>sp_state := kStIdle, sp_index := 0, sp_sequenceNumber := 0\<rparr>"

definition sp_configure :: "u32 \<Rightarrow> u32 \<Rightarrow> poll \<Rightarrow> poll" where
  "sp_configure period timeout p = p\<lparr>sp_rqPeriod := period, sp_rqTimeout := timeout\<rparr>"

definition sp_setup :: "u16 list \<Rightarrow> poll \<Rightarrow> poll" where
  "sp_setup address p =
     p\<lparr>sp_slaves := map (\<lambda>(s, a). s\<lparr>si_address := a\<rparr>) (zip (sp_slaves p) address)\<rparr>"

definition sp_start :: "poll \<Rightarrow> poll" where "sp_start p = p\<lparr>sp_state := kStStart\<rparr>"

definition sp_stop :: "poll \<Rightarrow> poll" where "sp_stop p = p\<lparr>sp_state := kStStop\<rparr>"

definition sp_sendRequest :: "u16 \<Rightarrow> TTxRequest tqueue \<Rightarrow> TTxRequest tqueue res" where
  "sp_sendRequest addr q =
     rbind (addTxMsgApp addr (ucast MsgApp_RequestData) 0 0 3 LINK_ID_LOCAL q) (\<lambda>(_, q). Inr q)"

text \<open>The acknowledgement of a block; its data is the variable \<open>dataSize\<close>, not the packet number.\<close>

definition sp_sendDataAck :: "u16 \<Rightarrow> u16 \<Rightarrow> TTxRequest tqueue \<Rightarrow> TTxRequest tqueue res" where
  "sp_sendDataAck addr pn q =
     (let dataSize = (2 :: u16) in
      rbind (addTxMsgApp addr (ucast MsgApp_DataAcknowledge) 2 (ucast dataSize) 3 LINK_ID_LOCAL q) (\<lambda>(_, q). Inr q))"

definition sp_process :: "u32 \<Rightarrow> poll \<times> TTxRequest tqueue \<Rightarrow> (poll \<times> TTxRequest tqueue) res" where
  "sp_process now s =
     (case s of (p, q) \<Rightarrow>
      (case sp_state p of
         kStIdle \<Rightarrow> Inr (p, q)
       | kStStart \<Rightarrow>
           Inr (p\<lparr>sp_slaves := map (\<lambda>x. x\<lparr>si_packet := kPnBufferFree\<rparr>) (sp_slaves p),
                  sp_sequenceNumber := 0, sp_state := kStStartPeriod\<rparr>, q)
       | kStStop \<Rightarrow> Inr (p\<lparr>sp_state := kStIdle\<rparr>, q)
       | kStStartPeriod \<Rightarrow>
           Inr (p\<lparr>sp_index := 0, sp_tmPeriod := now, sp_state := kStSendRq\<rparr>, q)
       | kStSendRq \<Rightarrow>
           rbind (load (sp_slaves p) (sp_index p)) (\<lambda>x.
             if si_address x > 0 then
               rbind (sp_sendRequest (si_address x) q) (\<lambda>q.
                 Inr (p\<lparr>sp_rcvData := False, sp_rcvNoData := False,
                        sp_slaves := (sp_slaves p)[sp_index p := x\<lparr>si_state := kResWait\<rparr>],
                        sp_tmRq := now, sp_state := kStWaitRqInterval\<rparr>, q))
             else Inr (p\<lparr>sp_state := kStNext\<rparr>, q))
       | kStWait \<Rightarrow>
           if TIMEOUT now (sp_tmRq p) (sp_rqTimeout p) then
             rbind (load (sp_slaves p) (sp_index p)) (\<lambda>x.
               Inr (p\<lparr>sp_slaves := (sp_slaves p)[sp_index p := x\<lparr>si_state := kResTimeout\<rparr>],
                      sp_state := kStNext\<rparr>, q))
           else if sp_rcvData p then Inr (p\<lparr>sp_state := kStNext\<rparr>, q)
           else if sp_rcvNoData p then Inr (p\<lparr>sp_state := kStNext\<rparr>, q)
           else Inr (p, q)
       | kStNext \<Rightarrow>
           Inr (if sp_index p + 1 = kMaxSlaves
                then p\<lparr>sp_index := 0, sp_state := kStWaitRqInterval\<rparr>
                else p\<lparr>sp_index := sp_index p + 1, sp_state := kStSendRq\<rparr>, q)
       | kStWaitRqInterval \<Rightarrow>
           Inr (if TIMEOUT now (sp_tmPeriod p) (sp_rqPeriod p) then p\<lparr>sp_state := kStStartPeriod\<rparr> else p, q)))"

section \<open>Messages of the polled devices\<close>

text \<open>\<open>ptr\<close> are the bytes from the data block on.\<close>

definition sp_dataHandler :: "u8 list \<Rightarrow> u16 \<Rightarrow> loc \<Rightarrow> (int \<times> loc) res" where
  "sp_dataHandler ptr dataId s =
     rbind (writeBuffer ptr (ucast dataId) (lo_data s)) (\<lambda>(rc, c). Inr (rc, s\<lparr>lo_data := c\<rparr>))"

definition sp_handleData :: "u16 \<Rightarrow> u8 list \<Rightarrow> u16 \<Rightarrow> loc \<Rightarrow> (int \<times> loc) res" where
  "sp_handleData srcAddress ptr dataId s =
     (let s = s\<lparr>lo_poll := (lo_poll s)\<lparr>sp_rcvData := True\<rparr>\<rparr>; i = sp_index (lo_poll s) in
      rbind (load16 ptr 0) (\<lambda>packet.
      rbind (sp_sendDataAck srcAddress packet (lo_queue s)) (\<lambda>q.
      rbind (load (sp_slaves (lo_poll s)) i) (\<lambda>x.
        let s = s\<lparr>lo_queue := q\<rparr> in
        if srcAddress = si_address x then
          (if packet \<noteq> si_packet x then
             sp_dataHandler ptr dataId
               (s\<lparr>lo_poll := (lo_poll s)\<lparr>sp_slaves := (sp_slaves (lo_poll s))[i := x\<lparr>si_state := kResRcvData, si_packet := packet\<rparr>]\<rparr>\<rparr>)
           else Inr (0, s\<lparr>lo_poll := (lo_poll s)\<lparr>sp_slaves := (sp_slaves (lo_poll s))[i := x\<lparr>si_state := kResRcvData\<rparr>]\<rparr>\<rparr>))
        else Inr (0, s)))))"

definition sp_handleNoData :: "u16 \<Rightarrow> poll \<Rightarrow> poll res" where
  "sp_handleNoData srcAddress p =
     rbind (load (sp_slaves p) (sp_index p)) (\<lambda>x.
       Inr (p\<lparr>sp_rcvNoData := True,
              sp_slaves := (if srcAddress = si_address x
                            then (sp_slaves p)[sp_index p := x\<lparr>si_state := kResNoData\<rparr>] else sp_slaves p)\<rparr>))"

text \<open>\<open>P_SlaveMsgHandlers_Local\<close>; the handler of parameter values does nothing.\<close>

definition loc_handleMsgAppType :: "u8 list \<Rightarrow> u16 \<Rightarrow> loc \<Rightarrow> loc res" where
  "loc_handleMsgAppType msg srcAddress s =
     rbind (load16 msg 2) (\<lambda>type.
       if type = kDataId then
         (let ptr = drop 6 msg in
          rbind (sp_handleData srcAddress ptr type s) (\<lambda>(rc, s).
            if rc > 0 then
              rbind (load16 ptr 0) (\<lambda>packet.
              rbind (addTxMsgApp srcAddress (ucast MsgApp_DataAcknowledge) 2 (ucast packet) 0 LINK_ID_LOCAL (lo_queue s)) (\<lambda>(_, q).
                Inr (s\<lparr>lo_queue := q\<rparr>)))
            else Inr s))
       else if type = MsgApp_DataAbsence then
         rbind (sp_handleNoData srcAddress (lo_poll s)) (\<lambda>p. Inr (s\<lparr>lo_poll := p\<rparr>))
       else Inr s)"

definition loc_RxMessageHandler :: "(loc, 'w) rx_handler" where
  "loc_RxMessageHandler msg destAddress srcAddress s p =
     rbind (load msg 0) (\<lambda>i.
       if i = MsgParameterValue then Inr (s, p)
       else if i = MsgAppType then rbind (loc_handleMsgAppType msg srcAddress s) (\<lambda>s. Inr (s, p))
       else Inr (s, p))"

section \<open>Reachable states\<close>

text \<open>
  The states of an automaton set up with the addresses \<open>addrs\<close> under every interleaving of \<open>process\<close>, start and
  stop, and messages of devices; the request queue may change in between.
\<close>

inductive poll_reach :: "u16 list \<Rightarrow> poll \<Rightarrow> bool" for addrs where
  initial: "sp_state p = kStIdle \<Longrightarrow> sp_index p = 0 \<Longrightarrow> map si_address (sp_slaves p) = addrs \<Longrightarrow> poll_reach addrs p"
| step: "poll_reach addrs p \<Longrightarrow> sp_process now (p, q) = Inr (p', q') \<Longrightarrow> poll_reach addrs p'"
| start: "poll_reach addrs p \<Longrightarrow> poll_reach addrs (sp_start p)"
| stop: "poll_reach addrs p \<Longrightarrow> poll_reach addrs (sp_stop p)"
| data: "poll_reach addrs (lo_poll s) \<Longrightarrow> sp_handleData src ptr i s = Inr (rc, s') \<Longrightarrow> poll_reach addrs (lo_poll s')"
| nodata: "poll_reach addrs p \<Longrightarrow> sp_handleNoData src p = Inr p' \<Longrightarrow> poll_reach addrs p'"

definition poll_inv :: "u16 list \<Rightarrow> poll \<Rightarrow> bool" where
  "poll_inv addrs p \<longleftrightarrow> map si_address (sp_slaves p) = addrs \<and> sp_index p < kMaxSlaves \<and> sp_state p \<noteq> kStWait \<and>
     (sp_state p = kStSendRq \<longrightarrow> (\<forall>j < sp_index p. addrs ! j = 0)) \<and>
     (sp_state p = kStNext \<longrightarrow> (\<forall>j \<le> sp_index p. addrs ! j = 0))"

lemma map_address_update:
  "i < length xs \<Longrightarrow> si_address y = si_address (xs ! i) \<Longrightarrow> map si_address (xs[i := y]) = map si_address xs"
  by (metis map_update list_update_id nth_map)

lemma sp_handleData_poll:
  assumes "sp_handleData src ptr i s = Inr (rc, s')"
  shows "\<exists>b sl. lo_poll s' = (lo_poll s)\<lparr>sp_rcvData := b, sp_slaves := sl\<rparr> \<and>
     map si_address sl = map si_address (sp_slaves (lo_poll s))"
proof -
  define j where "j = sp_index (lo_poll s)"
  obtain x where x: "load (sp_slaves (lo_poll s)) j = Inr x"
    using assms by (auto simp: sp_handleData_def Let_def res_elims j_def)
  then have jx: "j < length (sp_slaves (lo_poll s))" "x = sp_slaves (lo_poll s) ! j" by (auto simp: res_elims)
  have upd: "map si_address ((sp_slaves (lo_poll s))[j := y]) = map si_address (sp_slaves (lo_poll s))"
    if "si_address y = si_address x" for y using map_address_update jx that by blast
  let ?f = "\<lambda>sl. (lo_poll s)\<lparr>sp_rcvData := True, sp_slaves := sl\<rparr>"
  have "lo_poll s' = ?f (sp_slaves (lo_poll s)) \<or>
      lo_poll s' = ?f ((sp_slaves (lo_poll s))[j := x\<lparr>si_state := kResRcvData\<rparr>]) \<or>
      lo_poll s' = ?f ((sp_slaves (lo_poll s))[j := x\<lparr>si_state := kResRcvData, si_packet := get16 ptr 0\<rparr>])"
    using assms x
    by (auto simp: sp_handleData_def sp_dataHandler_def Let_def rbind_Inr_iff load16_def j_def split: if_split_asm)
  then show ?thesis using upd by fastforce
qed

lemma poll_reach_inv:
  assumes "poll_reach addrs p" and "length addrs = kMaxSlaves"
  shows "poll_inv addrs p"
  using assms(1)
proof (induction rule: poll_reach.induct)
  case (initial p)
  then show ?case by (simp add: poll_inv_def kMaxSlaves_def)
next
  case (step p now q p' q')
  have len: "length (sp_slaves p) = kMaxSlaves" "sp_index p < length (sp_slaves p)"
    using step.IH assms(2) by (auto simp: poll_inv_def dest: arg_cong [of _ _ length])
  have ad: "si_address (sp_slaves p ! sp_index p) = addrs ! sp_index p"
    using step.IH len by (auto simp: poll_inv_def)
  have upd: "map si_address ((sp_slaves p)[sp_index p := (sp_slaves p ! sp_index p)\<lparr>si_state := k\<rparr>]) = addrs" for k
    using map_address_update [OF len(2)] step.IH by (simp add: poll_inv_def)
  have cmap: "map (si_address \<circ> (\<lambda>x. x\<lparr>si_packet := kPnBufferFree\<rparr>)) (sp_slaves p) = map si_address (sp_slaves p)"
    by simp
  show ?case
  proof (cases "sp_state p")
    case kStSendRq
    show ?thesis
    proof (cases "si_address (sp_slaves p ! sp_index p) > 0")
      case True
      then show ?thesis using step kStSendRq len upd
        by (auto simp: sp_process_def load_def res_elims poll_inv_def)
    next
      case False
      then have "addrs ! sp_index p = 0" using ad by (simp add: word_gt_0)
      then show ?thesis using step kStSendRq len False
        by (auto simp: sp_process_def load_def poll_inv_def le_less)
    qed
  next
    case kStNext
    then show ?thesis using step len
      by (auto simp: sp_process_def poll_inv_def less_Suc_eq_le kMaxSlaves_def split: if_split_asm)
  qed (use step in \<open>auto simp: sp_process_def poll_inv_def kMaxSlaves_def comp_def split: if_split_asm\<close>)
next
  case (data s src ptr i rc s')
  obtain b sl where "lo_poll s' = (lo_poll s)\<lparr>sp_rcvData := b, sp_slaves := sl\<rparr>"
     "map si_address sl = map si_address (sp_slaves (lo_poll s))"
    using sp_handleData_poll [OF data.hyps(2)] by blast
  then show ?case using data.IH by (simp add: poll_inv_def)
next
  case (nodata p src p')
  have i: "sp_index p < length (sp_slaves p)" using nodata.hyps(2) by (auto simp: sp_handleNoData_def res_elims)
  have "p' = p\<lparr>sp_rcvNoData := True, sp_slaves := (if src = si_address (sp_slaves p ! sp_index p)
      then (sp_slaves p)[sp_index p := (sp_slaves p ! sp_index p)\<lparr>si_state := kResNoData\<rparr>] else sp_slaves p)\<rparr>"
    using nodata.hyps(2) i by (auto simp: sp_handleNoData_def load_def)
  then show ?case using nodata.IH map_address_update [OF i] by (auto simp: poll_inv_def)
qed (auto simp: poll_inv_def sp_start_def sp_stop_def)

lemma push_app:
  assumes "tqueue_inv q" and "length (tqueue_cont q) < msgBufferSize q" and "sz \<le> 4"
  shows "\<exists>q'. addTxMsgApp a t sz d f LINK_ID_LOCAL q = Inr (True, q') \<and> tqueue_inv q' \<and>
     msgBufferSize q' = msgBufferSize q \<and>
     tqueue_cont q' = tqueue_cont q @ [mkTxRequest (ucast MsgAppType) a (push_bit 16 t OR sz) d f]"
proof -
  obtain q' where "tqueue_push (mkTxRequest (ucast MsgAppType) a (push_bit 16 t OR sz) d f) q = Inr q'" "tqueue_inv q'"
      "msgBufferSize q' = msgBufferSize q"
      "tqueue_cont q' = tqueue_cont q @ [mkTxRequest (ucast MsgAppType) a (push_bit 16 t OR sz) d f]"
    using tqueue_push_law [OF assms(1)] assms(2) by (metis (no_types))
  then show ?thesis using assms(3) by (simp add: addTxMsgApp_def)
qed

interpretation local_rx: rx_message_handler loc_RxMessageHandler
  by unfold_locales (auto simp: loc_RxMessageHandler_def res_elims rx_same_def split: if_split_asm)

section \<open>Properties\<close>

text \<open>
  C33: the automaton never waits for the answer of a device (\<open>kStWait\<close> is unreachable), and the only device
  it ever sends requests to is the first one in the list with an address: whatever happens in between,
  a call of \<open>process\<close> either leaves the request queue alone or asks that device for data.
\<close>

theorem poll_first_device_only:
  assumes "poll_reach addrs p" and "length addrs = kMaxSlaves" and "sp_process now (p, q) = Inr (p', q')"
  shows "sp_state p \<noteq> kStWait \<and>
     (q' = q \<or> (\<exists>i < kMaxSlaves. addrs ! i \<noteq> 0 \<and> (\<forall>j < i. addrs ! j = 0) \<and>
        addTxMsgApp (addrs ! i) (ucast MsgApp_RequestData) 0 0 3 LINK_ID_LOCAL q = Inr (True, q')))"
proof -
  have inv: "poll_inv addrs p" by (rule poll_reach_inv [OF assms(1,2)])
  have ad: "sp_slaves p \<noteq> [] \<longrightarrow> sp_index p < length (sp_slaves p) \<longrightarrow>
      si_address (sp_slaves p ! sp_index p) = addrs ! sp_index p" using inv by (auto simp: poll_inv_def)
  have "q' = q \<or> sp_state p = kStSendRq \<and> si_address (sp_slaves p ! sp_index p) \<noteq> 0 \<and> sp_index p < length (sp_slaves p) \<and>
      sp_sendRequest (si_address (sp_slaves p ! sp_index p)) q = Inr q'"
  proof (cases "sp_state p = kStSendRq")
    case True
    then obtain x where x: "load (sp_slaves p) (sp_index p) = Inr x" using assms(3) by (auto simp: sp_process_def rbind_Inr_iff)
    then have "x = sp_slaves p ! sp_index p" "sp_index p < length (sp_slaves p)" by (simp_all add: load_Inr_iff)
    then show ?thesis using assms(3) True x
      by (cases "si_address x = 0") (auto simp: sp_process_def rbind_Inr_iff word_gt_0)
  next
    case False
    then show ?thesis using assms(3) by (cases "sp_state p") (auto simp: sp_process_def rbind_Inr_iff split: if_split_asm)
  qed
  then show ?thesis
  proof (elim disjE conjE)
    assume c: "sp_state p = kStSendRq" "si_address (sp_slaves p ! sp_index p) \<noteq> 0" "sp_index p < length (sp_slaves p)"
      "sp_sendRequest (si_address (sp_slaves p ! sp_index p)) q = Inr q'"
    then have a: "si_address (sp_slaves p ! sp_index p) = addrs ! sp_index p" using ad by fastforce
    have "addTxMsgApp (addrs ! sp_index p) (ucast MsgApp_RequestData) 0 0 3 LINK_ID_LOCAL q = Inr (True, q')"
      using c(4) unfolding a by (auto simp: sp_sendRequest_def addTxMsgApp_def rbind_Inr_iff)
    then have "sp_index p < kMaxSlaves \<and> addrs ! sp_index p \<noteq> 0 \<and> (\<forall>j < sp_index p. addrs ! j = 0) \<and>
        addTxMsgApp (addrs ! sp_index p) (ucast MsgApp_RequestData) 0 0 3 LINK_ID_LOCAL q = Inr (True, q')"
      using inv c a by (simp add: poll_inv_def)
    then show ?thesis using inv by (auto simp: poll_inv_def)
  qed (use inv in \<open>simp add: poll_inv_def\<close>)
qed

definition ex_slave :: "u16 \<Rightarrow> slave_info_t" where
  "ex_slave a = \<lparr>si_address = a, si_packet = 0xFFFF, si_state = kResIdle\<rparr>"

definition ex_poll :: poll where
  "ex_poll = \<lparr>sp_state = kStIdle, sp_slaves = map ex_slave [1, 2, 0, 0], sp_rqPeriod = 200, sp_rqTimeout = 50,
     sp_tmPeriod = 0, sp_tmRq = 0, sp_index = 0, sp_sequenceNumber = 0, sp_rcvData = False, sp_rcvNoData = False\<rparr>"

definition ex_queue :: "TTxRequest tqueue" where
  "ex_queue = tqueue_new [ex_request, ex_request] 2"

lemma ex_queue_ok: "tqueue_inv ex_queue" "tqueue_cont ex_queue = []" "msgBufferSize ex_queue = 2"
  by (simp_all add: ex_queue_def tqueue_new_def tqueue_inv_def tqueue_cont_def tqueue_size_def)

lemma ex_poll_reach: "poll_reach [1, 2, 0, 0] (ex_poll\<lparr>sp_state := kStSendRq, sp_tmPeriod := 5\<rparr>)"
proof -
  have "poll_reach [1, 2, 0, 0] (sp_start ex_poll)"
    by (intro poll_reach.start poll_reach.initial) (simp_all add: ex_poll_def ex_slave_def)
  then have "poll_reach [1, 2, 0, 0] (ex_poll\<lparr>sp_state := kStStartPeriod\<rparr>)"
    by (rule poll_reach.step [where now = 5 and q = ex_queue])
      (simp add: sp_process_def sp_start_def ex_poll_def ex_slave_def kPnBufferFree_def)
  then show ?thesis
    by (rule poll_reach.step [where now = 5 and q = ex_queue]) (simp add: sp_process_def ex_poll_def)
qed

theorem poll_first_device_only_witness:
  "\<exists>p' q'. sp_process 5 (ex_poll\<lparr>sp_state := kStSendRq, sp_tmPeriod := 5\<rparr>, ex_queue) = Inr (p', q') \<and>
     (q' = ex_queue \<or> (\<exists>i < kMaxSlaves. [1, 2, 0, 0] ! i \<noteq> (0 :: u16) \<and>
        addTxMsgApp ([1, 2, 0, 0] ! i) (ucast MsgApp_RequestData) 0 0 3 LINK_ID_LOCAL ex_queue = Inr (True, q')))"
proof -
  obtain q' where q': "addTxMsgApp 1 (ucast MsgApp_RequestData) 0 0 3 LINK_ID_LOCAL ex_queue = Inr (True, q')"
    using push_app [of ex_queue 0] ex_queue_ok by fastforce
  then have "\<exists>p'. sp_process 5 (ex_poll\<lparr>sp_state := kStSendRq, sp_tmPeriod := 5\<rparr>, ex_queue) = Inr (p', q')"
    by (simp add: sp_process_def ex_poll_def ex_slave_def load_def sp_sendRequest_def)
  then obtain p' where p': "sp_process 5 (ex_poll\<lparr>sp_state := kStSendRq, sp_tmPeriod := 5\<rparr>, ex_queue) = Inr (p', q')" by blast
  have "length [1, 2, 0, 0 :: u16] = kMaxSlaves" by (simp add: kMaxSlaves_def)
  from poll_first_device_only [OF ex_poll_reach this p'] p' show ?thesis by blast
qed

text \<open>
  A repeated block is acknowledged with a wrong number: when a device sends a block again (its
  acknowledgement was lost), the only thing that happens on the bus is one acknowledgement whose packet
  number is 2, whatever the number of the block is.
\<close>

lemma repeated_block_acknowledged_as_2:
  assumes "tqueue_inv (lo_queue s)" and "length (tqueue_cont (lo_queue s)) < msgBufferSize (lo_queue s)"
    and "sp_index (lo_poll s) < length (sp_slaves (lo_poll s))"
    and "src = si_address (sp_slaves (lo_poll s) ! sp_index (lo_poll s))"
    and "8 \<le> length msg" and "get16 msg 2 = kDataId"
    and "get16 msg 6 = si_packet (sp_slaves (lo_poll s) ! sp_index (lo_poll s))"
  shows "\<exists>s'. loc_handleMsgAppType msg src s = Inr s' \<and> lo_data s' = lo_data s \<and>
     tqueue_cont (lo_queue s') = tqueue_cont (lo_queue s) @
       [mkTxRequest (ucast MsgAppType) src (push_bit 16 (ucast MsgApp_DataAcknowledge) OR 2) 2 3]"
proof -
  obtain q' where q': "addTxMsgApp src (ucast MsgApp_DataAcknowledge) 2 2 3 LINK_ID_LOCAL (lo_queue s) = Inr (True, q')"
     "tqueue_cont q' = tqueue_cont (lo_queue s) @
       [mkTxRequest (ucast MsgAppType) src (push_bit 16 (ucast MsgApp_DataAcknowledge) OR 2) 2 3]"
    using push_app [OF assms(1,2), of 2] by fastforce
  have p0: "load16 (drop 6 msg) 0 = Inr (get16 msg 6)"
    using assms(5) by (simp add: load16_def get16_def)
  have "load16 msg 2 = Inr kDataId" using assms(5,6) by (simp add: load16_def)
  then show ?thesis
    using q' p0 assms(3,4,7)
    by (simp add: loc_handleMsgAppType_def sp_handleData_def sp_sendDataAck_def Let_def load_def)
qed

definition ex_loc :: loc where
  "ex_loc = \<lparr>lo_poll = ex_poll, lo_queue = ex_queue, lo_data = ex_container\<rparr>"

lemma repeated_block_acknowledged_as_2_example:
  "\<exists>s'. loc_handleMsgAppType [0x80, 0, 0x6b, 0, 8, 0, 0xFF, 0xFF, 0, 0, 0, 0, 0, 0] 1 ex_loc = Inr s' \<and>
     lo_data s' = lo_data ex_loc \<and> tqueue_cont (lo_queue s') = tqueue_cont (lo_queue ex_loc) @
       [mkTxRequest (ucast MsgAppType) 1 (push_bit 16 (ucast MsgApp_DataAcknowledge) OR 2) 2 3]"
  by (rule repeated_block_acknowledged_as_2)
    (simp_all add: ex_loc_def ex_queue_ok ex_poll_def ex_slave_def kDataId_def get16_def mk16_def)

text \<open>
  Polling is periodic: once the period has passed since the start of the last cycle, three calls of
  \<open>process\<close> put a request to the first device into the queue, provided it has an address and the queue
  has room.
\<close>

lemma poll_periodic:
  assumes "sp_state p = kStWaitRqInterval" and "difftime (sp_tmPeriod p) t1 \<ge> sp_rqPeriod p"
    and "sp_slaves p = x # xs" and "si_address x \<noteq> 0"
    and "tqueue_inv q" and "length (tqueue_cont q) < msgBufferSize q"
  shows "\<exists>p' q'. rbind (sp_process t1 (p, q)) (\<lambda>s. rbind (sp_process t2 s) (sp_process t3)) = Inr (p', q') \<and>
     sp_state p' = kStWaitRqInterval \<and> sp_tmPeriod p' = t2 \<and>
     tqueue_cont q' = tqueue_cont q @
       [mkTxRequest (ucast MsgAppType) (si_address x) (push_bit 16 (ucast MsgApp_RequestData) OR 0) 0 3]"
proof -
  obtain q' where q': "addTxMsgApp (si_address x) (ucast MsgApp_RequestData) 0 0 3 LINK_ID_LOCAL q = Inr (True, q')"
     "tqueue_cont q' = tqueue_cont q @
       [mkTxRequest (ucast MsgAppType) (si_address x) (push_bit 16 (ucast MsgApp_RequestData) OR 0) 0 3]"
    using push_app [OF assms(5,6), of 0] by fastforce
  define p1 where "p1 = p\<lparr>sp_state := kStStartPeriod\<rparr>"
  define p2 where "p2 = p1\<lparr>sp_index := 0, sp_tmPeriod := t2, sp_state := kStSendRq\<rparr>"
  have "sp_process t1 (p, q) = Inr (p1, q)" using assms(1,2) by (simp add: sp_process_def TIMEOUT_def p1_def)
  moreover have "sp_process t2 (p1, q) = Inr (p2, q)" by (simp add: sp_process_def p1_def p2_def)
  moreover have "\<exists>p'. sp_process t3 (p2, q) = Inr (p', q') \<and> sp_state p' = kStWaitRqInterval \<and> sp_tmPeriod p' = t2"
    using assms(3,4) q'(1)
    by (simp add: sp_process_def p2_def p1_def load_def sp_sendRequest_def word_gt_0)
  ultimately show ?thesis using q'(2) by auto
qed

lemma poll_periodic_example:
  "\<exists>p' q'. rbind (sp_process 300 (ex_poll\<lparr>sp_state := kStWaitRqInterval\<rparr>, ex_queue))
       (\<lambda>s. rbind (sp_process 301 s) (sp_process 302)) = Inr (p', q') \<and>
     sp_state p' = kStWaitRqInterval \<and> sp_tmPeriod p' = 301 \<and>
     tqueue_cont q' = tqueue_cont ex_queue @
       [mkTxRequest (ucast MsgAppType) (si_address (ex_slave 1)) (push_bit 16 (ucast MsgApp_RequestData) OR 0) 0 3]"
  by (rule poll_periodic) (simp_all add: ex_poll_def difftime_def ex_queue_ok, simp_all add: ex_slave_def)

end
