(* ===== verification/SlaveHandlers.thy ===== *)
theory SlaveHandlers
  imports SlavePoll
begin

text \<open>
  The device's answers to the host: the register file (\<open>TDevice_Parameters\<close>, \<^verbatim>\<open>src/src/device_parameters.cpp\<close>)
  and the handlers of the host's messages (\<^verbatim>\<open>p_slavemsghandlers_hiio.cpp\<close>, \<^verbatim>\<open>p_extMsgAppTypeHandler.cpp\<close>)
  in the configuration of \<^verbatim>\<open>p_slavemsghandlers_hiio_config.h\<close> (parameter reading and writing and the
  external handler of application messages). Values the code takes from its surroundings (tick counter,
  version number of the build, an uninitialised local variable) are in a record \<open>henv\<close>.
\<close>

section \<open>Registers\<close>

record henv =
  he_now :: u32
  he_version :: u32
  he_stack :: u32

record dev =
  dv_R14 :: u32
  dv_R15 :: u32
  dv_data :: container
  dv_block :: "u8 list"

definition R14_MASK_WR_REG :: u32 where "R14_MASK_WR_REG = 0x10170000"

definition param_write :: "u16 \<Rightarrow> u32 \<Rightarrow> dev \<Rightarrow> bool \<times> dev" where
  "param_write n v d =
     (let rc = (40 \<le> n \<and> n \<le> 41 \<and> handleParameters False n (dv_data d) \<noteq> None) in
      if n = 2 then
        (if dv_R14 d = R14_MASK_WR_REG OR 2 then (True, d\<lparr>dv_R14 := 0\<rparr>) else (False, d))
      else if n = 3 \<or> n = 4 then (True, d)
      else if n = 14 then (True, d\<lparr>dv_R14 := v\<rparr>)
      else if n = 15 \<or> n = 19 \<or> n = 21 then (True, d)
      else (rc, d))"

definition param_read :: "henv \<Rightarrow> u16 \<Rightarrow> dev \<Rightarrow> u32 option" where
  "param_read e n d =
     (if 40 \<le> n \<and> n \<le> 41 then map_option word_of_int (handleParameters True n (dv_data d))
      else if n = 0 then Some 2501
      else if n = 1 then Some (he_version e)
      else if n = 2 then Some 52975
      else if n = 3 then Some 9
      else if n = 4 then Some 115200
      else if n = 14 then Some (dv_R14 d)
      else if n = 15 then Some (dv_R15 d)
      else if n = 21 then Some (he_now e)
      else None)"

text \<open>\<open>Parameters.write\<close> and \<open>Parameters.read\<close> return 0 or -1.\<close>

definition Parameters_write :: "u16 \<Rightarrow> u32 \<Rightarrow> dev \<Rightarrow> int \<times> dev" where
  "Parameters_write n v d = (case param_write n v d of (ok, d) \<Rightarrow> (if ok then 0 else -1, d))"

definition Parameters_read :: "henv \<Rightarrow> u16 \<Rightarrow> dev \<Rightarrow> int \<times> u32 option" where
  "Parameters_read e n d = (case param_read e n d of None \<Rightarrow> (-1, None) | Some v \<Rightarrow> (0, Some v))"

text \<open>The result field of an answer.\<close>

definition resultCode :: "int \<Rightarrow> u16" where
  "resultCode result = (if result = 0 then 0 else if result = -1 then -1 else -3)"

definition PROTOCOL_BROADCAST_ADDRESS :: u16 where "PROTOCOL_BROADCAST_ADDRESS = 0xff"

section \<open>Handlers\<close>

definition handleMsgPWrite :: "henv \<Rightarrow> 'w links \<Rightarrow> u8 list \<Rightarrow> u16 \<Rightarrow> dev \<Rightarrow> 'w proto \<Rightarrow> (dev \<times> 'w proto) res" where
  "handleMsgPWrite e k msg destAddress d p =
     rbind (load msg 1) (\<lambda>sn. rbind (load16 msg 2) (\<lambda>pn.
     rbind (load16 msg 6) (\<lambda>v1. rbind (load16 msg 4) (\<lambda>v0.
       let v = push_bit 16 (ucast v1) OR ucast v0 in
       case Parameters_write pn v d of (result, d) \<Rightarrow>
         if destAddress \<noteq> PROTOCOL_BROADCAST_ADDRESS \<and> sn \<noteq> 0xFF
         then rbind (proto_addMessage k
                (TMsgParameterValue sn pn v (resultCode result) (ucast (he_stack e))) [] p) (\<lambda>(_, p).
                Inr (d, p))
         else Inr (d, p)))))"

definition handleMsgPRead :: "henv \<Rightarrow> 'w links \<Rightarrow> u8 list \<Rightarrow> u16 \<Rightarrow> dev \<Rightarrow> 'w proto \<Rightarrow> (dev \<times> 'w proto) res" where
  "handleMsgPRead e k msg destAddress d p =
     rbind (load msg 1) (\<lambda>sn. rbind (load16 msg 2) (\<lambda>pn.
       case Parameters_read e pn d of (result, vo) \<Rightarrow>
         let v = (case vo of None \<Rightarrow> he_stack e | Some v \<Rightarrow> v) in
         rbind (proto_addMessage k
           (TMsgParameterValue sn pn v (resultCode result) (ucast (he_stack e))) [] p) (\<lambda>(_, p).
           Inr (d, p))))"

text \<open>
  The answer to a block read is built in the static structure \<open>msgParameterBlock\<close>: header (6 bytes), base
  register, size, error count, reserved bytes, and 48 values of 4 bytes. The data size is computed from
  the 8-bit \<open>size\<close> field.
\<close>

definition blockSize :: nat where "blockSize = 12 + 192"

definition setParameters :: "u16 \<Rightarrow> u16 \<Rightarrow> u8 list \<Rightarrow> u8 list" where
  "setParameters b sz blk =
     put16 ((put16 blk 6 b)[8 := ucast sz]) 4 (of_nat (unat (ucast sz :: u8) * 4 + 6))"

definition readBlock_step :: "henv \<Rightarrow> u16 \<Rightarrow> dev \<Rightarrow> nat \<Rightarrow> u8 list \<Rightarrow> u8 list res" where
  "readBlock_step e base d i blk =
     (case Parameters_read e (base + of_nat i) d of
        (_, None) \<Rightarrow> Inr blk
      | (_, Some v) \<Rightarrow> memcpy blk (12 + 4 * i) (bytes32 v) 4)"

definition handleMsgPReadBlock :: "henv \<Rightarrow> 'w links \<Rightarrow> u8 list \<Rightarrow> u16 \<Rightarrow> dev \<Rightarrow> 'w proto \<Rightarrow> (dev \<times> 'w proto) res" where
  "handleMsgPReadBlock e k msg destAddress d p =
     rbind (load msg 1) (\<lambda>sn. rbind (load16 msg 2) (\<lambda>base. rbind (load msg 4) (\<lambda>sz8.
       let sz = (ucast sz8 :: u16);
           sz = (if unat sz > MaxLayer2DataSize div 4 then of_nat (MaxLayer2DataSize div 4) else sz);
           blk = setParameters base sz ((dv_block d)[1 := sn])
       in rbind (rfold (readBlock_step e base d) [0..<unat sz] blk) (\<lambda>blk.
            rbind (proto_addMessage k blk (drop 6 blk) p) (\<lambda>(_, p).
              Inr (d\<lparr>dv_block := blk\<rparr>, p))))))"

definition extMsgAppTypeHandler :: "'w links \<Rightarrow> u8 list \<Rightarrow> u16 \<Rightarrow> dev \<Rightarrow> 'w proto \<Rightarrow> (dev \<times> 'w proto) res" where
  "extMsgAppTypeHandler k msg srcAddress d p =
     rbind (load msg 1) (\<lambda>sn. rbind (load16 msg 2) (\<lambda>type.
       if type = MsgApp_RequestData then
         (if getDataReadyInfo (dv_data d) = kNoData then
            rbind (proto_addMessage k (TMsgAppTypeHeader sn MsgApp_DataAbsence 0) [] p) (\<lambda>(_, p).
            rbind (sendPacket k (sint srcAddress) p) (\<lambda>(_, p). Inr (d, p)))
          else rbind (handleMsgRequestData k sn (dv_data d) p) (\<lambda>(c, p). Inr (d\<lparr>dv_data := c\<rparr>, p)))
       else if type = MsgApp_DataAcknowledge then
         rbind (load16 msg 6) (\<lambda>pn. rbind (handleMsgDataAcknowledge pn (dv_data d)) (\<lambda>c.
           Inr (d\<lparr>dv_data := c\<rparr>, p)))
       else Inr (d, p)))"

definition hi_RxMessageHandler :: "henv \<Rightarrow> 'w links \<Rightarrow> (dev, 'w) rx_handler" where
  "hi_RxMessageHandler e k msg destAddress srcAddress d p =
     rbind (load msg 0) (\<lambda>i.
       if i = MsgParameterWrite then handleMsgPWrite e k msg destAddress d p
       else if i = MsgParameterRead then handleMsgPRead e k msg destAddress d p
       else if i = MsgReadBlock then handleMsgPReadBlock e k msg srcAddress d p
       else if i = MsgAppType then extMsgAppTypeHandler k msg srcAddress d p
       else Inr (d, p))"

text \<open>
  Dispatch of received data to the two links (\<open>Protocol::processInputData\<close> and \<open>processInputAppData\<close>); the
  payload of the host link follows the kind of packet that was received last.
\<close>

datatype protocolType = kProtocolDataIO | kProtocolApp

definition hi_processInputData :: "henv \<Rightarrow> 'w links \<Rightarrow> u16 \<Rightarrow> protocolType \<Rightarrow> dev \<Rightarrow> 'w proto \<Rightarrow> u8 tbuffer
    \<Rightarrow> (int \<times> dev \<times> 'w proto \<times> u8 tbuffer) res option \<times> protocolType" where
  "hi_processInputData e k n ty d p b =
     (let p = (if ty \<noteq> kProtocolDataIO then proto_setPayload 244 p else p) in
      (inst_processInputData (hi_RxMessageHandler e k)
         (\<lambda>src d p. rbind (onEndRxPacketProcess k p) (\<lambda>p. Inr (d, p))) (he_now e) n d p b, kProtocolDataIO))"

definition hi_processInputAppData :: "henv \<Rightarrow> 'w links \<Rightarrow> u8 list \<Rightarrow> u16 \<Rightarrow> u16 \<Rightarrow> u16 \<Rightarrow> protocolType \<Rightarrow> dev \<Rightarrow>
    'w proto \<Rightarrow> (int \<times> dev \<times> 'w proto) res option \<times> protocolType" where
  "hi_processInputAppData e k bytes n dest src ty d p =
     (let p = (if ty \<noteq> kProtocolApp then proto_setPayload 1472 p else p) in
      (inst_processInputAppData (hi_RxMessageHandler e k)
         (\<lambda>src d p. rbind (onEndRxPacketProcess k p) (\<lambda>p. Inr (d, p))) bytes n dest src d p, kProtocolApp))"

text \<open>
  On the local link every block of received bytes and every received packet is reported to the master's
  transmitter, whose instance is the one that receives. The engine and the master share the protocol
  object and the request queue.
\<close>

definition loc_onEnd :: "'w links \<Rightarrow> u32 \<Rightarrow> (loc \<times> 'w master, 'w) rx_end" where
  "loc_onEnd k now src a p =
     (case a of (s, m) \<Rightarrow>
        let m = onRxSlavePacket now src m in
        rbind (onEndRxPacketProcess k p) (\<lambda>p. Inr ((s, m), p)))"

definition loc_rxHandler :: "(loc \<times> 'w master, 'w) rx_handler" where
  "loc_rxHandler msg dest src a p =
     rbind (loc_RxMessageHandler msg dest src (fst a) p) (\<lambda>(s, p). Inr ((s, snd a), p))"

text \<open>\<open>Protocol::processInputData\<close> for the local link; \<open>loc\<close> holds the queue while the bytes are processed.\<close>

definition loc_processInputData :: "'w links \<Rightarrow> u32 \<Rightarrow> u16 \<Rightarrow> loc \<Rightarrow> 'w master \<Rightarrow> u8 tbuffer
    \<Rightarrow> (int \<times> loc \<times> 'w master) res option" where
  "loc_processInputData k now n s m b =
     (let m = onRxSlaveData now m in
      case proto_processInputData loc_rxHandler (loc_onEnd k now) now n False (s, m) (mt_protocol m) b of
        None \<Rightarrow> None
      | Some (Inl e) \<Rightarrow> Some (Inl e)
      | Some (Inr (r, (s, m), p, b)) \<Rightarrow> Some (Inr (r, s, m\<lparr>mt_protocol := p, mt_txQueue := lo_queue s\<rparr>)))"

section \<open>The host's handler respects the parser\<close>

lemma rx_same_refl [simp]: "rx_same l l" by (simp add: rx_same_def)

lemma rx_same_trans: "rx_same a b \<Longrightarrow> rx_same b c \<Longrightarrow> rx_same a c" by (simp add: rx_same_def)

lemma l3_put_rx: "l3_put bs n l = Inr l' \<Longrightarrow> rx_same l l'"
  by (auto simp: l3_put_def rbind_Inr_iff rx_same_def)

lemma l3_addMessage_rx:
  assumes "l3_addMessage m d l = Inr (rc, l')"
  shows "rx_same l l'"
proof -
  obtain i where i: "load m 0 = Inr i" using assms by (auto simp: l3_addMessage_def rbind_Inr_iff)
  show ?thesis
  proof (cases "i = MsgAppType")
    case True
    then obtain ds where ds: "load16 m 4 = Inr ds" using assms i by (auto simp: l3_addMessage_def rbind_Inr_iff)
    have "l' = l \<or> (\<exists>l1. l3_put m 6 l = Inr l1 \<and> (l' = l1 \<or> l3_put d ds l1 = Inr l'))"
      using assms i ds True by (simp add: l3_addMessage_def rbind_Inr_iff split: if_split_asm) blast
    then show ?thesis by (elim disjE exE conjE) (auto dest: l3_put_rx intro: rx_same_trans)
  next
    case False
    have "l' = l \<or> (\<exists>sz. l3_put m sz l = Inr l')"
      using assms i False
      by (cases "fixedSize i") (simp_all add: l3_addMessage_def rbind_Inr_iff split: if_split_asm, blast)
    then show ?thesis by (elim disjE exE) (auto dest: l3_put_rx)
  qed
qed

lemma l3_finishTxPacket_rx: "l3_finishTxPacket d lr2 l = Inr (n, l') \<Longrightarrow> rx_same l l'"
  by (auto simp: l3_finishTxPacket_def rbind_Inr_iff rx_same_def split: if_split_asm)

lemma sendPacket_rx:
  assumes "sendPacket k dest p = Inr (n, p')"
  shows "rx_same (pr_layer3 p) (pr_layer3 p')"
proof (cases "pr_linkID p = LINK_ID_0")
  case True
  then obtain m l where l: "l3_finishTxPacket (if dest = -1 then ucast (pr_srcAddress p) else word_of_int dest)
      (pr_layer2 p) (pr_layer3 p) = Inr (m, l)"
    using assms by (auto simp: sendPacket_def inst_sendPacket_def proto_finishTxPacket_def rbind_Inr_iff)
  have "pr_layer3 p' = l"
    using assms True l
    by (auto simp: sendPacket_def inst_sendPacket_def proto_finishTxPacket_def rbind_Inr_iff split: if_split_asm)
  then show ?thesis using l3_finishTxPacket_rx [OF l] by simp
next
  case False
  then show ?thesis using assms
    by (auto simp: sendPacket_def Let_def proto_startTxPacket_def l3_startTxPacket_def rx_same_def
        split: if_split_asm option.splits prod.splits)
qed

lemma proto_addMessage_rx:
  assumes "proto_addMessage k m d p = Inr (rc, p')"
  shows "rx_same (pr_layer3 p) (pr_layer3 p')"
proof -
  obtain r l where l: "l3_addMessage m d (pr_layer3 p) = Inr (r, l)"
    using assms by (auto simp: proto_addMessage_def rbind_Inr_iff)
  note s1 = l3_addMessage_rx [OF l]
  show ?thesis
  proof (cases "r = -1")
    case False
    then show ?thesis using assms l s1 by (auto simp: proto_addMessage_def)
  next
    case True
    then obtain p1 r2 l2 where p1: "onTxBufferFull k (p\<lparr>pr_layer3 := l\<rparr>) = Inr p1"
        "l3_addMessage m d (pr_layer3 p1) = Inr (r2, l2)" "p' = p1\<lparr>pr_layer3 := l2\<rparr>"
      using assms l by (simp add: proto_addMessage_def rbind_Inr_iff) blast
    have "rx_same l (pr_layer3 p1)"
      using p1(1) sendPacket_rx [of k "-1" "p\<lparr>pr_layer3 := l\<rparr>"]
      by (auto simp: onTxBufferFull_def rbind_Inr_iff split: if_split_asm)
    with s1 have "rx_same (pr_layer3 p) (pr_layer3 p1)" by (rule rx_same_trans)
    then have "rx_same (pr_layer3 p) l2" using l3_addMessage_rx [OF p1(2)] by (rule rx_same_trans)
    then show ?thesis using p1(3) by simp
  qed
qed

lemma handlers_rx:
  "handleMsgPWrite e k msg dest d p = Inr (d', p') \<Longrightarrow> rx_same (pr_layer3 p) (pr_layer3 p')"
  "handleMsgPRead e k msg dest d p = Inr (d', p') \<Longrightarrow> rx_same (pr_layer3 p) (pr_layer3 p')"
  "handleMsgPReadBlock e k msg dest d p = Inr (d', p') \<Longrightarrow> rx_same (pr_layer3 p) (pr_layer3 p')"
  by (auto simp: handleMsgPWrite_def handleMsgPRead_def handleMsgPReadBlock_def rbind_Inr_iff Let_def
      case_prod_beta dest: proto_addMessage_rx split: if_split_asm)

lemma ext_handler_rx:
  assumes "extMsgAppTypeHandler k msg src d p = Inr (d', p')"
  shows "rx_same (pr_layer3 p) (pr_layer3 p')"
proof -
  have r: "rx_same (pr_layer3 p) (pr_layer3 q)" if "handleMsgRequestData k sn c p = Inr (c', q)" for sn c c' q
    using that proto_addMessage_rx
    by (auto simp: handleMsgRequestData_def addMsgData_def rbind_Inr_iff split: if_split_asm)
  obtain sn ty where h: "load msg 1 = Inr sn" "load16 msg 2 = Inr ty"
    using assms by (auto simp: extMsgAppTypeHandler_def rbind_Inr_iff)
  consider "ty = MsgApp_RequestData" "getDataReadyInfo (dv_data d) = kNoData"
    | "ty = MsgApp_RequestData" "getDataReadyInfo (dv_data d) \<noteq> kNoData" | "ty \<noteq> MsgApp_RequestData" by blast
  then show ?thesis
  proof cases
    case 1
    then obtain r1 p1 r2 p2 where "proto_addMessage k (TMsgAppTypeHeader sn MsgApp_DataAbsence 0) [] p = Inr (r1, p1)"
        "sendPacket k (sint src) p1 = Inr (r2, p2)" "p' = p2"
      using assms h by (auto simp: extMsgAppTypeHandler_def rbind_Inr_iff)
    then show ?thesis using proto_addMessage_rx sendPacket_rx rx_same_trans by blast
  next
    case 2
    then show ?thesis using assms h r by (auto simp: extMsgAppTypeHandler_def rbind_Inr_iff)
  next
    case 3
    then have "p' = p" using assms h by (auto simp: extMsgAppTypeHandler_def rbind_Inr_iff split: if_split_asm)
    then show ?thesis by simp
  qed
qed

interpretation host_rx: rx_message_handler "hi_RxMessageHandler e k"
  by unfold_locales
    (auto simp: hi_RxMessageHandler_def rbind_Inr_iff dest: handlers_rx ext_handler_rx split: if_split_asm)

section \<open>What the devices can make the firmware queue\<close>

definition is_ack :: "TTxRequest \<Rightarrow> bool" where
  "is_ack r \<longleftrightarrow> rq_type r = ucast MsgAppType \<and> rq_parameter0 r = push_bit 16 (ucast MsgApp_DataAcknowledge) OR 2"

definition acks_only :: "TTxRequest tqueue \<Rightarrow> bool" where
  "acks_only q \<longleftrightarrow> tqueue_inv q \<and> (\<forall>r \<in> set (tqueue_cont q). is_ack r)"

lemma acks_only_sub: "queue_sub q q' \<Longrightarrow> acks_only q \<Longrightarrow> acks_only q'"
  by (auto simp: queue_sub_def acks_only_def)

lemma acks_only_add:
  assumes "addTxMsgApp a (ucast MsgApp_DataAcknowledge) 2 d f LINK_ID_LOCAL q = Inr (b, q')" and "acks_only q"
  shows "acks_only q'"
proof -
  let ?r = "mkTxRequest (ucast MsgAppType) a (push_bit 16 (ucast MsgApp_DataAcknowledge) OR 2) d f"
  have "tqueue_push ?r q = Inr q'" using assms(1) by (auto simp: addTxMsgApp_def rbind_Inr_iff split: if_split_asm)
  moreover have "is_ack ?r" by (simp add: is_ack_def mkTxRequest_def)
  ultimately show ?thesis using assms(2) tqueue_push_law [of q ?r] by (auto simp: acks_only_def split: if_split_asm)
qed

lemma sp_handleData_acks:
  assumes "sp_handleData src ptr i s = Inr (rc, s')" and "acks_only (lo_queue s)"
  shows "acks_only (lo_queue s')"
proof -
  obtain q where q: "sp_sendDataAck src (get16 ptr 0) (lo_queue s) = Inr q" "lo_queue s' = q"
    using assms(1) by (auto simp: sp_handleData_def sp_dataHandler_def Let_def rbind_Inr_iff load16_def split: if_split_asm)
  then show ?thesis using assms(2) acks_only_add by (auto simp: sp_sendDataAck_def Let_def rbind_Inr_iff)
qed

lemma loc_RxMessageHandler_keeps:
  assumes "loc_RxMessageHandler msg dest src s p = Inr (s', p')" and "acks_only (lo_queue s)"
  shows "acks_only (lo_queue s') \<and> sp_state (lo_poll s') = sp_state (lo_poll s)"
proof -
  consider "s' = s" | "loc_handleMsgAppType msg src s = Inr s'"
    using assms(1) by (auto simp: loc_RxMessageHandler_def rbind_Inr_iff split: if_split_asm)
  then show ?thesis
  proof cases
    case 2
    then consider "s' = s" | pl where "sp_handleNoData src (lo_poll s) = Inr pl" "s' = s\<lparr>lo_poll := pl\<rparr>"
      | ptr ty rc where "sp_handleData src ptr ty s = Inr (rc, s')"
      | ptr ty rc s1 d b q where "sp_handleData src ptr ty s = Inr (rc, s1)" "s' = s1\<lparr>lo_queue := q\<rparr>"
          "addTxMsgApp src (ucast MsgApp_DataAcknowledge) 2 d 0 LINK_ID_LOCAL (lo_queue s1) = Inr (b, q)"
      by (auto simp: loc_handleMsgAppType_def Let_def rbind_Inr_iff split: if_split_asm)
    then show ?thesis
    proof cases
      case 2
      then show ?thesis using assms(2) by (auto simp: sp_handleNoData_def rbind_Inr_iff)
    next
      case 3
      then show ?thesis using sp_handleData_acks [OF 3 assms(2)] sp_handleData_poll [OF 3] by auto
    next
      case 4
      have "acks_only (lo_queue s1)" using sp_handleData_acks [OF 4(1) assms(2)] .
      moreover have "sp_state (lo_poll s1) = sp_state (lo_poll s)" using sp_handleData_poll [OF 4(1)] by auto
      ultimately show ?thesis using 4(2,3) acks_only_add by auto
    qed (use assms(2) in simp)
  qed (use assms(2) in simp)
qed

lemma loc_processInputData_keeps:
  assumes "loc_processInputData k now n s m b = Some (Inr (r, s', m'))" and "acks_only (lo_queue s)"
  shows "acks_only (mt_txQueue m') \<and> sp_state (lo_poll s') = sp_state (lo_poll s)"
proof -
  let ?I = "\<lambda>a :: loc \<times> 'a master. acks_only (lo_queue (fst a)) \<and> sp_state (lo_poll (fst a)) = sp_state (lo_poll s)"
  obtain m1 p1 b1 where run: "proto_processInputData loc_rxHandler (loc_onEnd k now) now n False (s, onRxSlaveData now m)
      (mt_protocol (onRxSlaveData now m)) b = Some (Inr (r, (s', m1), p1, b1))" "m' = m1\<lparr>mt_protocol := p1, mt_txQueue := lo_queue s'\<rparr>"
    using assms(1) by (auto simp: loc_processInputData_def Let_def split: option.splits sum.splits prod.splits)
  have "?I (s', m1)"
  proof (rule processInputData_app [where I = ?I, OF run(1)])
    fix ptr dest src a p a' p'
    assume "?I a" "loc_rxHandler ptr dest src a p = Inr (a', p')"
    then show "?I a'" using loc_RxMessageHandler_keeps [of ptr dest src "fst a" p] by (auto simp: loc_rxHandler_def rbind_Inr_iff)
  next
    fix src a p a' p'
    assume "?I a" "loc_onEnd k now src a p = Inr (a', p')"
    then show "?I a'" by (auto simp: loc_onEnd_def Let_def rbind_Inr_iff split: prod.splits)
  qed (use assms(2) in simp)
  then show ?thesis using run(2) by simp
qed

section \<open>The block read\<close>

lemma ucast_u8_u16_u8 [simp]: "(ucast (ucast (x :: u8) :: u16) :: u8) = x"
  by (rule bit_word_eqI) (simp add: bit_ucast_iff)

definition slot :: "u8 list \<Rightarrow> nat \<Rightarrow> u8 list" where "slot blk i = take 4 (drop (12 + 4 * i) blk)"

definition read_value :: "henv \<Rightarrow> u16 \<Rightarrow> dev \<Rightarrow> u8 list \<Rightarrow> nat \<Rightarrow> u8 list" where
  "read_value e base d blk i = (case param_read e (base + of_nat i) d of None \<Rightarrow> slot blk i | Some v \<Rightarrow> bytes32 v)"

lemma readBlock_step_cases:
  "readBlock_step e base d i blk = (case param_read e (base + of_nat i) d of None \<Rightarrow> Inr blk
     | Some v \<Rightarrow> memcpy blk (12 + 4 * i) (bytes32 v) 4)"
  by (simp add: readBlock_step_def Parameters_read_def split: option.splits)

lemma readBlock_any:
  assumes "length blk = blockSize"
  shows "rfold (readBlock_step e base d) [0..<n] blk = Inl OutOfBounds \<or>
     (\<exists>b. rfold (readBlock_step e base d) [0..<n] blk = Inr b \<and> length b = blockSize \<and> take 12 b = take 12 blk)"
proof (induction n)
  case (Suc n)
  show ?case
  proof (cases "rfold (readBlock_step e base d) [0..<n] blk")
    case (Inr b)
    with Suc have b: "length b = blockSize" "take 12 b = take 12 blk" by auto
    then show ?thesis using Inr
      by (cases "param_read e (base + of_nat n) d")
        (auto simp: rfold_snoc readBlock_step_cases [of e base d n] memcpy_def blockSize_def)
  qed (use Suc in \<open>simp add: rfold_snoc\<close>)
qed (simp add: assms)

lemma readBlock_values:
  assumes "length blk = blockSize" and "n \<le> 48"
  shows "\<exists>b. rfold (readBlock_step e base d) [0..<n] blk = Inr b \<and> length b = blockSize \<and> take 12 b = take 12 blk \<and>
     (\<forall>i < 48. slot b i = (if i < n then read_value e base d blk i else slot blk i))"
  using assms(2)
proof (induction n)
  case 0
  then show ?case using assms(1) by simp
next
  case (Suc n)
  then obtain b where b: "rfold (readBlock_step e base d) [0..<n] blk = Inr b" "length b = blockSize"
     "take 12 b = take 12 blk" "\<forall>i < 48. slot b i = (if i < n then read_value e base d blk i else slot blk i)" by auto
  show ?case
  proof (cases "param_read e (base + of_nat n) d")
    case None
    then show ?thesis using b Suc.prems
      by (auto simp: rfold_snoc readBlock_step_cases [of e base d n] read_value_def less_Suc_eq)
  next
    case (Some v)
    let ?b = "blit b (12 + 4 * n) (bytes32 v)"
    have fit: "12 + 4 * n + 4 \<le> length b" using Suc.prems b(2) by (simp add: blockSize_def)
    have st: "rfold (readBlock_step e base d) [0..<Suc n] blk = Inr ?b"
      using b(1) Some fit by (simp add: rfold_snoc readBlock_step_cases [of e base d n])
    have same: "slot ?b i = slot b i" if "i \<noteq> n" for i
      unfolding slot_def using that fit by (intro take_drop_blit_other) auto
    have new: "slot ?b n = bytes32 v"
      unfolding slot_def by (rule drop_take_blit_len) (use fit in simp_all)
    have "slot ?b i = (if i < Suc n then read_value e base d blk i else slot blk i)" if "i < 48" for i
    proof (cases "i = n")
      case True
      then show ?thesis using new Some by (simp add: read_value_def)
    next
      case False
      then show ?thesis using same [OF False] b(4) that by (simp add: less_Suc_eq)
    qed
    then have "\<forall>i < 48. slot ?b i = (if i < Suc n then read_value e base d blk i else slot blk i)" by blast
    moreover have "take 12 ?b = take 12 blk" using b(3) fit by simp
    ultimately show ?thesis using st b(2) fit by simp
  qed
qed

text \<open>The header the handler prepares for \<open>n\<close> values.\<close>

lemma setParameters_fields:
  assumes "length blk = blockSize" and "blk ! 0 = MsgAppType" and "b = setParameters base sz (blk[1 := sn])"
  shows "length b = blockSize" "b ! 0 = MsgAppType" "get16 b 4 = of_nat (unat (ucast sz :: u8) * 4 + 6)"
    "drop 12 b = drop 12 blk"
  using assms by (auto simp: setParameters_def blockSize_def put16_def get16_def)

lemma nth_take_eq: "take n xs = take n ys \<Longrightarrow> i < n \<Longrightarrow> xs ! i = ys ! i"
  by (metis nth_take)

text \<open>Concrete instances for the witnesses.\<close>

definition ex_dev :: dev where
  "ex_dev = \<lparr>dv_R14 = 0, dv_R15 = 0, dv_data = ex_container, dv_block = 0x80 # replicate 203 0\<rparr>"

definition ex_henv :: henv where "ex_henv = \<lparr>he_now = 100, he_version = 0x100, he_stack = 0\<rparr>"

abbreviation "ex_proto \<equiv> mt_protocol ex_master"

section \<open>Properties\<close>

text \<open>
  On a block made of well-formed messages the device's message loop ends, and it is the sequence of
  the calls of its handler on these messages, in order, each from the place where the message starts;
  the answers the handlers put into the outgoing packet, and packets they send in between, do not disturb
  the parsing of the block.
\<close>

lemma host_messages_handled_in_order:
  assumes "l3_rx_inv (pr_layer3 p)" and "\<forall>(m, d) \<in> set ms. msg_ok m d"
    and "l3_rxRest (pr_layer3 p) = msgs_bytes ms"
  shows "rxMsgLoop (hi_RxMessageHandler e k) dest src n a p =
     Some (rxDeliver (hi_RxMessageHandler e k) dest src (msgs_lens ms) n a p)"
  by (rule host_rx.loop_delivers [OF assms])

lemma host_messages_handled_in_order_example:
  "rxMsgLoop (hi_RxMessageHandler ex_henv ex_links) 9 1 0 ex_dev
       (ex_proto\<lparr>pr_layer3 := (pr_layer3 ex_proto)\<lparr>l3_rxData := [0x11, 1, 0, 0], l3_rxSize := 4\<rparr>\<rparr>) =
     Some (rxDeliver (hi_RxMessageHandler ex_henv ex_links) 9 1 (msgs_lens [([0x11, 1, 0, 0], [])]) 0 ex_dev
       (ex_proto\<lparr>pr_layer3 := (pr_layer3 ex_proto)\<lparr>l3_rxData := [0x11, 1, 0, 0], l3_rxSize := 4\<rparr>\<rparr>))"
  by (rule host_messages_handled_in_order)
    (simp_all add: ex_defs l3_rx_inv_def l3_rxRest_def msg_ok_def fixedSize_def msg_ids)

text \<open>
  Register 2 is protected: a write succeeds only when register 14 holds the enabling value for it, and
  it consumes the permission; no other write of a register except 14 changes the state.
\<close>

lemma protected_register:
  "(fst (Parameters_write 2 v d) = 0 \<longleftrightarrow> dv_R14 d = 0x10170002) \<and>
   (fst (Parameters_write 2 v d) = 0 \<longrightarrow> fst (Parameters_write 2 w (snd (Parameters_write 2 v d))) = -1) \<and>
   (snd (Parameters_write n v d) \<noteq> d \<longrightarrow> n = 14 \<or> n = 2 \<and> dv_R14 d = 0x10170002)"
  by (auto simp: Parameters_write_def param_write_def R14_MASK_WR_REG_def Let_def)

lemma protected_register_example:
  "fst (Parameters_write 2 7 (ex_dev\<lparr>dv_R14 := 0x10170002\<rparr>)) = 0 \<and>
   fst (Parameters_write 2 7 (snd (Parameters_write 2 7 (ex_dev\<lparr>dv_R14 := 0x10170002\<rparr>)))) = -1"
  using protected_register [of 7 "ex_dev\<lparr>dv_R14 := 0x10170002\<rparr>" 7] by simp


text \<open>
  The answer to a block read of up to 48 registers: one message with as many values as asked for is
  added to the packet; the value of a register that exists is its value, and the value of a register
  that does not exist is whatever an earlier answer left in that place.
\<close>

lemma block_read_answer:
  assumes "length msg = 6" and "unat (msg ! 4) \<le> 48" and "length (dv_block d) = blockSize"
    and "dv_block d ! 0 = MsgAppType" and "l3_tx_inv (pr_layer3 p)"
    and "unat (l3_txIndex (pr_layer3 p)) + 12 + 4 * unat (msg ! 4) \<le> unat (l3_maxTxAppSize (pr_layer3 p))"
  shows "\<exists>d' p'. handleMsgPReadBlock e k msg dest d p = Inr (d', p') \<and>
     l3_txData (pr_layer3 p') = l3_txData (pr_layer3 p) @ take (12 + 4 * unat (msg ! 4)) (dv_block d') \<and>
     (\<forall>i < unat (msg ! 4). slot (dv_block d') i =
        (case param_read e (get16 msg 2 + of_nat i) d of None \<Rightarrow> slot (dv_block d) i | Some v \<Rightarrow> bytes32 v))"
proof -
  define n where "n = unat (msg ! 4)"
  define sz where "sz = (ucast (msg ! 4) :: u16)"
  have sz: "unat sz = n" by (simp add: sz_def n_def)
  define blk where "blk = setParameters (get16 msg 2) sz ((dv_block d)[1 := msg ! 1])"
  have f: "length blk = blockSize" "blk ! 0 = MsgAppType" "get16 blk 4 = of_nat (unat (ucast sz :: u8) * 4 + 6)"
      "drop 12 blk = drop 12 (dv_block d)"
    using setParameters_fields [OF assms(3,4) blk_def] by simp_all
  have n8: "(ucast sz :: u8) = msg ! 4" by (simp add: sz_def)
  obtain b where b: "rfold (readBlock_step e (get16 msg 2) d) [0..<n] blk = Inr b" "length b = blockSize"
      "take 12 b = take 12 blk" "\<forall>i < 48. slot b i = (if i < n then read_value e (get16 msg 2) d blk i else slot blk i)"
    using readBlock_values [OF f(1)] assms(2) n_def by blast
  have b0: "b ! 0 = MsgAppType" "get16 b 4 = of_nat (n * 4 + 6)"
    using nth_take_eq [OF b(3)] f(2,3) by (simp_all add: get16_def n8 n_def)
  have n48: "n \<le> 48" using assms(2) n_def by simp
  have u: "unat (get16 b 4) = 4 * n + 6" using b0(2) n48 by (simp add: unat_of_nat_u16 del: of_nat_add of_nat_mult)
  have lenb: "length b = 204" using b(2) by (simp add: blockSize_def)
  have ne: "b \<noteq> []" using lenb by auto
  have ok: "msg_ok (take 6 b) (take (4 * n + 6) (drop 6 b))"
    using b0(1) lenb ne n48 u by (simp add: msg_ok_def get16_def)
  have tk: "l3_addMessage b (drop 6 b) l = l3_addMessage (take 6 b) (take (4 * n + 6) (drop 6 b)) l" for l
  proof -
    have "l3_put b 6 = l3_put (take 6 b) 6" using lenb by (simp add: fun_eq_iff l3_put_def memcpy_def)
    moreover have "l3_put (drop 6 b) (get16 b 4) = l3_put (take (4 * n + 6) (drop 6 b)) (get16 b 4)"
      using lenb n48 u by (simp add: fun_eq_iff l3_put_def memcpy_def)
    moreover have "get16 (take 6 b) 4 = get16 b 4" using lenb by (simp add: get16_def)
    ultimately show ?thesis using lenb b0(1) by (simp add: l3_addMessage_def load16_def cong: if_cong)
  qed
  obtain l where l: "l3_addMessage b (drop 6 b) (pr_layer3 p) = Inr (0, l)"
      "l3_txData l = l3_txData (pr_layer3 p) @ take 6 b @ take (4 * n + 6) (drop 6 b)"
    using l3_addMessage_ok [OF assms(5) ok] assms(6) lenb n48 unfolding tk n_def [symmetric] by auto
  have cat: "take 6 b @ take (4 * n + 6) (drop 6 b) = take (12 + 4 * n) b"
    by (metis add.commute add.left_commute numeral_Bit0 take_add)
  have old: "slot blk i = slot (dv_block d) i" for i
  proof -
    have "drop (12 + 4 * i) blk = drop (12 + 4 * i) (dv_block d)"
      using f(4) by (metis add.commute drop_drop)
    then show ?thesis by (simp add: slot_def)
  qed
  have m61: "\<not> unat (msg ! 4) > MaxLayer2DataSize div 4" using assms(2) by (simp add: MaxLayer2DataSize_def)
  have "handleMsgPReadBlock e k msg dest d p = Inr (d\<lparr>dv_block := b\<rparr>, p\<lparr>pr_layer3 := l\<rparr>)"
    using assms(1) b(1) l(1) m61
    by (simp add: handleMsgPReadBlock_def Let_def load16_def sz_def blk_def n_def proto_addMessage_def)
  then show ?thesis
    using l(2) b(4) n48 old cat n_def by (auto simp: read_value_def split: option.splits)
qed

lemma block_read_answer_example:
  "\<exists>d' p'. handleMsgPReadBlock ex_henv ex_links [0x13, 1, 0, 0, 2, 0] 0 ex_dev ex_proto = Inr (d', p') \<and>
     l3_txData (pr_layer3 p') = take 20 (dv_block d') \<and>
     slot (dv_block d') 0 = bytes32 2501 \<and> slot (dv_block d') 1 = bytes32 0x100"
proof -
  have "\<exists>d' p'. handleMsgPReadBlock ex_henv ex_links [0x13, 1, 0, 0, 2, 0] 0 ex_dev ex_proto = Inr (d', p') \<and>
     l3_txData (pr_layer3 p') = l3_txData (pr_layer3 ex_proto) @ take (12 + 4 * unat ([0x13, 1, 0, 0, 2, 0 :: u8] ! 4)) (dv_block d') \<and>
     (\<forall>i < unat ([0x13, 1, 0, 0, 2, 0 :: u8] ! 4). slot (dv_block d') i =
        (case param_read ex_henv (get16 [0x13, 1, 0, 0, 2, 0] 2 + of_nat i) ex_dev of
           None \<Rightarrow> slot (dv_block ex_dev) i | Some v \<Rightarrow> bytes32 v))"
    by (rule block_read_answer) (simp_all add: ex_dev_def ex_defs blockSize_def msg_ids l3_tx_inv_def)
  then obtain d' p' where r: "handleMsgPReadBlock ex_henv ex_links [0x13, 1, 0, 0, 2, 0] 0 ex_dev ex_proto = Inr (d', p')"
     "l3_txData (pr_layer3 p') = l3_txData (pr_layer3 ex_proto) @ take 20 (dv_block d')"
     "\<forall>i < 2. slot (dv_block d') i = (case param_read ex_henv (of_nat i) ex_dev of
           None \<Rightarrow> slot (dv_block ex_dev) i | Some v \<Rightarrow> bytes32 v)"
    by (auto simp: get16_def mk16_def)
  have "l3_txData (pr_layer3 ex_proto) = []" by (simp add: ex_defs l3_txData_def)
  moreover have "param_read ex_henv (of_nat 0) ex_dev = Some 2501" "param_read ex_henv (of_nat 1) ex_dev = Some 0x100"
    by (simp_all add: param_read_def ex_henv_def word_le_nat_alt)
  then have "slot (dv_block d') 0 = bytes32 2501" "slot (dv_block d') 1 = bytes32 0x100"
    using r(3) [rule_format, of 0] r(3) [rule_format, of 1] by (simp_all del: of_nat_0 of_nat_1)
  ultimately show ?thesis using r(1,2) by simp
qed

text \<open>
  A block read of 49 to 58 registers runs outside the static structure with the answer: the limit in
  the handler is the size of a packet, not of the structure.
\<close>

lemma block_read_overrun:
  assumes "length msg = 6" and "49 \<le> unat (msg ! 4)" and "unat (msg ! 4) \<le> 58"
    and "length (dv_block d) = blockSize" and "dv_block d ! 0 = MsgAppType"
    and "l3_tx_inv (pr_layer3 p)" and "12 + 4 * unat (msg ! 4) \<le> unat (getTxBufferFree (pr_layer3 p))"
  shows "handleMsgPReadBlock e k msg dest d p = Inl OutOfBounds"
proof -
  define n where "n = unat (msg ! 4)"
  define sz where "sz = (ucast (msg ! 4) :: u16)"
  have sz: "unat sz = n" by (simp add: sz_def n_def)
  define blk where "blk = setParameters (get16 msg 2) sz ((dv_block d)[1 := msg ! 1])"
  have f: "length blk = blockSize" "blk ! 0 = MsgAppType" "get16 blk 4 = of_nat (unat (ucast sz :: u8) * 4 + 6)"
    using setParameters_fields [OF assms(4,5) blk_def] by simp_all
  have m61: "\<not> unat (msg ! 4) > MaxLayer2DataSize div 4" using assms(3) by (simp add: MaxLayer2DataSize_def)
  have h: "handleMsgPReadBlock e k msg dest d p =
      rbind (rfold (readBlock_step e (get16 msg 2) d) [0..<n] blk) (\<lambda>blk.
            rbind (proto_addMessage k blk (drop 6 blk) p) (\<lambda>(_, p). Inr (d\<lparr>dv_block := blk\<rparr>, p)))"
    using assms(1) m61 by (simp add: handleMsgPReadBlock_def Let_def load16_def sz_def blk_def n_def)
  have "proto_addMessage k b (drop 6 b) p = Inl OutOfBounds"
    if b: "length b = blockSize" "take 12 b = take 12 blk" for b
  proof -
    have n58: "n \<le> 58" "49 \<le> n" using assms n_def by simp_all
    have b0: "b ! 0 = MsgAppType" "get16 b 4 = of_nat (n * 4 + 6)"
      using nth_take_eq [OF b(2)] f(2,3) by (simp_all add: get16_def sz_def n_def)
    have u: "unat (get16 b 4) = 4 * n + 6" using b0(2) n58 by (simp add: unat_of_nat_u16 del: of_nat_add of_nat_mult)
    have lenb: "length b = 204" using b(1) by (simp add: blockSize_def)
    have "unat (6 + get16 b 4) = 4 * n + 12" using u n58 by (subst unat_add_u16) simp_all
    then have fit: "\<not> getTxBufferFree (pr_layer3 p) < 6 + get16 b 4"
      using assms(7) by (simp add: word_less_nat_alt n_def)
    have nz: "get16 b 4 \<noteq> 0" using u by auto
    have room: "unat (l3_txIndex (pr_layer3 p)) + unat (6 :: u16) \<le> unat (l3_maxTxAppSize (pr_layer3 p))"
      using assms(7) unat_getTxBufferFree [OF assms(6)] by simp
    have l6: "unat (6 :: u16) \<le> length b" using lenb by simp
    obtain l1 where l1: "l3_put b 6 (pr_layer3 p) = Inr l1" using l3_put_ok [OF assms(6) l6 room] by blast
    have "l3_put (drop 6 b) (get16 b 4) l1 = Inl OutOfBounds"
      using lenb u n58 by (simp add: l3_put_def memcpy_def)
    then show ?thesis using b0(1) lenb fit nz l1
      by (simp add: proto_addMessage_def l3_addMessage_def load_def load16_def)
  qed
  then show ?thesis using readBlock_any [OF f(1), of e "get16 msg 2" d n] unfolding h by auto
qed

lemma block_read_overrun_example:
  "handleMsgPReadBlock ex_henv ex_links [0x13, 1, 0, 0, 50, 0] 0 ex_dev ex_proto = Inl OutOfBounds"
  by (rule block_read_overrun)
    (simp_all add: ex_dev_def ex_defs blockSize_def msg_ids l3_tx_inv_def getTxBufferFree_def)

end
