(* ===== verification/Console.thy ===== *)
theory Console
  imports SlaveHandlers
begin

text \<open>
  The console on the RS232 line: the line editor and the search for commands
  (\<^verbatim>\<open>src/src/comm/constrinput.c\<close>), the output of numbers (\<^verbatim>\<open>src/src/comm/putx.c\<close>) and the commands
  (\<^verbatim>\<open>src/src/coninput.cpp\<close>). Characters are bytes; a C string that lies in an array is the part of the array
  before the first zero. The output is the list of the bytes that were given to \<open>__putc\<close> and \<open>__puts\<close>.
\<close>

section \<open>The line editor\<close>

record cons =
  co_cstr :: "u8 list"
  co_cbcnt :: u16
  co_cbyte :: u8
  co_echo :: bool
  co_out :: "u8 list"

definition CSTR_SZ :: nat where "CSTR_SZ = 164"

definition cprocbyte :: "u8 \<Rightarrow> cons \<Rightarrow> cons res" where
  "cprocbyte b c =
     (let c = c\<lparr>co_cbyte := b\<rparr> in
      if b = 10 then Inr c
      else if b = 126 \<or> b = 42 then Inr c
      else
        let c = (if co_cbcnt c AND 0x80 \<noteq> 0 then c\<lparr>co_cbcnt := 0\<rparr> else c);
            c = (if co_echo c then c\<lparr>co_out := co_out c @ [b]\<rparr> else c)
        in if b = 8 \<and> co_cbcnt c \<noteq> 0x80 \<and> co_cbcnt c \<noteq> 0 then Inr (c\<lparr>co_cbcnt := co_cbcnt c - 1\<rparr>)
           else if b = 13 then
             rbind (store (co_cstr c) (unat (co_cbcnt c)) 0) (\<lambda>s. Inr (c\<lparr>co_cstr := s, co_cbcnt := co_cbcnt c OR 0x80\<rparr>))
           else if unat (co_cbcnt c) \<ge> CSTR_SZ then
             rbind (store (co_cstr c) CSTR_SZ 0) (\<lambda>s. Inr (c\<lparr>co_cstr := s, co_cbcnt := co_cbcnt c OR 0x80\<rparr>))
           else rbind (store (co_cstr c) (unat (co_cbcnt c)) b) (\<lambda>s. Inr (c\<lparr>co_cstr := s, co_cbcnt := co_cbcnt c + 1\<rparr>)))"

definition cgetc :: "cons \<Rightarrow> u8 \<times> cons" where
  "cgetc c = (co_cbyte c, c\<lparr>co_cbyte := 0\<rparr>)"

text \<open>The result is a pointer to the array of the line.\<close>

definition cgets :: "cons \<Rightarrow> u8 list option \<times> cons" where
  "cgets c = (if co_cbcnt c AND 0x80 = 0 then (None, c) else (Some (co_cstr c), c\<lparr>co_cbcnt := 0\<rparr>))"

definition cstring :: "u8 list \<Rightarrow> u8 list" where
  "cstring a = takeWhile (\<lambda>b. b \<noteq> 0) a"

section \<open>Invariant and behaviour of the editor\<close>

definition line_done :: "cons \<Rightarrow> bool" where
  "line_done c \<longleftrightarrow> co_cbcnt c AND 0x80 \<noteq> 0"

text \<open>The characters from position 128 on are never written: the array always ends with a zero.\<close>

definition con_inv :: "cons \<Rightarrow> bool" where
  "con_inv c \<longleftrightarrow> length (co_cstr c) = CSTR_SZ + 1 \<and> (\<not> line_done c \<longrightarrow> unat (co_cbcnt c) < 128) \<and>
     drop 128 (co_cstr c) = replicate 37 0"

text \<open>What the editor is meant to do with the line typed so far; a backspace on an empty line is stored.\<close>

definition edit :: "u8 list \<Rightarrow> u8 \<Rightarrow> u8 list" where
  "edit l b = (if b = 10 \<or> b = 126 \<or> b = 42 then l else if b = 8 \<and> l \<noteq> [] then butlast l else l @ [b])"

definition typed :: "cons \<Rightarrow> u8 list" where
  "typed c = (if line_done c then [] else take (unat (co_cbcnt c)) (co_cstr c))"

lemma done_iff: "line_done c \<longleftrightarrow> bit (co_cbcnt c) 7"
  using and_exp_eq_0_iff_not_bit [of "co_cbcnt c" 7] by (simp add: line_done_def)

lemma bit7_u16: "unat (x :: u16) < 128 \<Longrightarrow> \<not> bit x 7" "bit (128 :: u16) 7" "bit (x OR 128) 7"
proof -
  have "bit (unat x) 7 = bit x 7" by (simp add: bit_unsigned_iff)
  then show "unat x < 128 \<Longrightarrow> \<not> bit x 7" by (simp add: bit_iff_odd [of "unat x"])
  show b: "bit (128 :: u16) 7" by (simp add: bit_numeral_rec)
  show "bit (x OR 128) 7" using b by (simp add: bit_or_iff)
qed

text \<open>The line after the start of a new one, and the step on a character that is stored.\<close>

definition fresh :: "cons \<Rightarrow> cons" where
  "fresh c = (if line_done c then c\<lparr>co_cbcnt := 0\<rparr> else c)"

lemma fresh_law:
  assumes "con_inv c"
  shows "unat (co_cbcnt (fresh c)) < 128" "take (unat (co_cbcnt (fresh c))) (co_cstr (fresh c)) = typed c"
    "co_cstr (fresh c) = co_cstr c"
  using assms by (auto simp: fresh_def typed_def con_inv_def)

lemma con_inv_store:
  assumes "con_inv c" and "n < 128"
  shows "length ((co_cstr c)[n := b]) = CSTR_SZ + 1" "drop 128 ((co_cstr c)[n := b]) = replicate 37 0"
  using assms by (simp_all add: con_inv_def)

lemma typed_length: "con_inv c \<Longrightarrow> length (typed c) = (if line_done c then 0 else unat (co_cbcnt c))"
  by (auto simp: typed_def con_inv_def CSTR_SZ_def)

lemma cprocbyte_law:
  assumes inv: "con_inv c"
  shows "\<exists>c'. cprocbyte b c = Inr c' \<and> con_inv c' \<and>
    (if b = 13 then line_done c' \<and> take (length (typed c)) (co_cstr c') = typed c \<and> co_cstr c' ! length (typed c) = 0
     else if length (edit (typed c) b) < 128 then typed c' = edit (typed c) b \<and> (line_done c' \<longrightarrow> line_done c \<and> (b = 10 \<or> b = 126 \<or> b = 42))
     else line_done c' \<and> take 128 (co_cstr c') = edit (typed c) b)"
proof (cases "b = 10 \<or> b = 126 \<or> b = 42")
  case True
  then have "cprocbyte b c = Inr (c\<lparr>co_cbyte := b\<rparr>)" by (auto simp: cprocbyte_def Let_def)
  moreover have "length (typed c) < 128" using typed_length [OF inv] inv by (simp add: con_inv_def)
  ultimately show ?thesis using True inv by (auto simp: edit_def typed_def con_inv_def line_done_def)
next
  case ord: False
  define n where "n = co_cbcnt (fresh c)"
  define d where "d = (fresh c)\<lparr>co_cbyte := b, co_out := (if co_echo c then co_out c @ [b] else co_out c)\<rparr>"
  note fr = fresh_law [OF inv, folded n_def]
  have d: "co_cbcnt d = n" "co_cstr d = co_cstr c" by (simp_all add: d_def n_def fr(3))
  have len: "length (typed c) = unat n" using typed_length [OF inv] by (simp add: n_def fresh_def)
  have n128: "n \<noteq> 0x80" using fr(1) by auto
  have sz: "length (co_cstr c) = 165" "drop 128 (co_cstr c) = replicate 37 0" using inv by (simp_all add: con_inv_def CSTR_SZ_def)
  have ty: "typed c = take (unat n) (co_cstr c)" using fr(2,3) by simp
  have step: "cprocbyte b c =
      (if b = 8 \<and> n \<noteq> 0 then Inr (d\<lparr>co_cbcnt := n - 1\<rparr>)
       else if b = 13 then Inr (d\<lparr>co_cstr := (co_cstr c)[unat n := 0], co_cbcnt := n OR 0x80\<rparr>)
       else Inr (d\<lparr>co_cstr := (co_cstr c)[unat n := b], co_cbcnt := n + 1\<rparr>))"
    using ord n128 fr(1) sz(1) d
    by (auto simp: cprocbyte_def Let_def d_def n_def fresh_def line_done_def store_def CSTR_SZ_def)
  consider (bs) "b = 8" "n \<noteq> 0" | (cr) "b = 13" | (chr) "b \<noteq> 13" "\<not> (b = 8 \<and> n \<noteq> 0)" by auto
  then show ?thesis
  proof cases
    case bs
    have m: "unat (n - 1) = unat n - 1" using bs(2) by (simp add: unat_sub word_le_nat_alt unat_gt_0 Suc_leI)
    have ne: "typed c \<noteq> []" using bs(2) len by (auto simp: unat_eq_zero)
    have "\<not> line_done (d\<lparr>co_cbcnt := n - 1\<rparr>)" using m fr(1) bit7_u16(1) [of "n - 1"] by (simp add: done_iff)
    moreover have "butlast (typed c) = take (unat n - 1) (co_cstr c)" using ty fr(1) sz(1) by (simp add: butlast_take)
    ultimately show ?thesis using step bs m fr(1) sz d ne len
      by (auto simp: edit_def typed_def con_inv_def CSTR_SZ_def)
  next
    case cr
    have "line_done (d\<lparr>co_cstr := (co_cstr c)[unat n := 0], co_cbcnt := n OR 0x80\<rparr>)" by (simp add: done_iff bit7_u16)
    then show ?thesis using step cr fr(1) sz ty len con_inv_store [OF inv fr(1), of 0]
      by (auto simp: con_inv_def)
  next
    case chr
    have m: "unat (n + 1) = unat n + 1" using fr(1) by (subst unat_add_u16) simp_all
    have ed: "edit (typed c) b = take (unat n + 1) ((co_cstr c)[unat n := b])"
      using chr ord len ty fr(1) sz(1) by (auto simp: edit_def take_Suc_conv_app_nth unat_eq_zero)
    define e where "e = d\<lparr>co_cstr := (co_cstr c)[unat n := b], co_cbcnt := n + 1\<rparr>"
    have e: "cprocbyte b c = Inr e" using step chr by (simp add: e_def)
    show ?thesis
    proof (cases "unat n < 127")
      case True
      then have "\<not> line_done e" using m bit7_u16(1) [of "n + 1"] by (simp add: done_iff e_def)
      then show ?thesis using e ed m True chr(1) sz con_inv_store [OF inv fr(1), of b]
        by (auto simp: con_inv_def typed_def e_def)
    next
      case False
      then have "unat (n + 1) = unat (128 :: u16)" using fr(1) m by simp
      then have n1: "n + 1 = 128" by (rule word_unat_eq_iff [THEN iffD2])
      then have "line_done e" using bit7_u16(2) by (simp add: done_iff e_def)
      moreover have "unat n + 1 = 128" using False fr(1) by simp
      ultimately show ?thesis using e ed chr(1) sz con_inv_store [OF inv fr(1), of b]
        by (auto simp: con_inv_def e_def)
    qed
  qed
qed

lemma edit_run:
  assumes "con_inv c" and "13 \<notin> set bs" and "\<forall>k \<le> length bs. length (foldl edit (typed c) (take k bs)) < 128"
  shows "\<exists>c'. rfold cprocbyte bs c = Inr c' \<and> con_inv c' \<and> typed c' = foldl edit (typed c) bs \<and> (line_done c' \<longrightarrow> line_done c)"
  using assms
proof (induction bs arbitrary: c)
  case (Cons b bs)
  have len: "length (edit (typed c) b) < 128" using Cons.prems(3) [rule_format, of 1] by simp
  obtain c1 where c1: "cprocbyte b c = Inr c1" "con_inv c1" "typed c1 = edit (typed c) b" "line_done c1 \<longrightarrow> line_done c"
    using cprocbyte_law [OF Cons.prems(1), of b] Cons.prems(2) len by auto
  have "\<forall>k \<le> length bs. length (foldl edit (typed c1) (take k bs)) < 128"
    using Cons.prems(3) c1(3) by (metis Suc_le_mono foldl_Cons length_Cons take_Suc_Cons)
  then obtain c' where "rfold cprocbyte bs c1 = Inr c'" "con_inv c'" "typed c' = foldl edit (typed c1) bs" "line_done c' \<longrightarrow> line_done c1"
    using Cons.IH [OF c1(2)] Cons.prems(2) by auto
  then show ?case using c1 by simp
qed simp

lemma cstring_prefix:
  assumes "take n a = l" and "n < length a" and "a ! n = 0"
  shows "cstring a = takeWhile (\<lambda>b. b \<noteq> 0) l"
proof -
  obtain r where a: "a = l @ 0 # r" using assms id_take_nth_drop [OF assms(2)] by metis
  show ?thesis unfolding cstring_def a by (rule takeWhile_tail) simp
qed

lemma cgets_done:
  assumes "con_inv c" and "line_done c"
  shows "cgets c = (Some (co_cstr c), c\<lparr>co_cbcnt := 0\<rparr>)" "con_inv (c\<lparr>co_cbcnt := 0\<rparr>)" "typed (c\<lparr>co_cbcnt := 0\<rparr>) = []"
    "fst (cgets (c\<lparr>co_cbcnt := 0\<rparr>)) = None"
  using assms by (auto simp: cgets_def line_done_def con_inv_def typed_def)

section \<open>The search for a command\<close>

definition MAXCMD_SZ :: nat where "MAXCMD_SZ = 160"

fun cstrncmp :: "u8 list \<Rightarrow> u8 list \<Rightarrow> bool" where
  "cstrncmp (a # s1) (b # s2) = (if a \<noteq> b then False else cstrncmp s1 s2)"
| "cstrncmp s1 s2 = (s1 = [] \<and> s2 = [])"

text \<open>The blanks before the command, at most 160 of them, and the command, at most 160 characters.\<close>

fun skip_blanks :: "nat \<Rightarrow> u8 list \<Rightarrow> u8 list" where
  "skip_blanks i [] = []"
| "skip_blanks i (b # s) = (if (b = 32 \<or> b = 9) \<and> i < MAXCMD_SZ then skip_blanks (i + 1) s else b # s)"

definition cparse_word :: "u8 list \<Rightarrow> u8 list" where
  "cparse_word s = take MAXCMD_SZ (takeWhile (\<lambda>b. b \<noteq> 32 \<and> b \<noteq> 61) s)"

text \<open>The loop over the list of commands; the counter is an \<open>unsigned char\<close>.\<close>

function cparse_loop :: "u8 list \<Rightarrow> u8 list \<Rightarrow> u8 \<Rightarrow> int" where
  "cparse_loop cl sc ccnt =
     (let cl = dropWhile (\<lambda>b. b = 32 \<or> b = 92) cl in
      if cl = [] then -1
      else let cc = take MAXCMD_SZ (takeWhile (\<lambda>b. b \<noteq> 92) cl) in
        if cstrncmp sc cc then int (unat ccnt) else cparse_loop (drop (length cc) cl) sc (ccnt + 1))"
  by auto
termination
proof (relation "measure (\<lambda>(cl, _, _). length cl)")
  fix cl sc :: "u8 list" and ccnt :: u8 and x y
  assume x: "x = dropWhile (\<lambda>b. b = 32 \<or> b = 92) cl" "x \<noteq> []" and y: "y = take MAXCMD_SZ (takeWhile (\<lambda>b. b \<noteq> 92) x)"
  have "hd x \<noteq> 92" using hd_dropWhile [of "\<lambda>b. b = 32 \<or> b = 92" cl] x by auto
  then have "y \<noteq> []" using x(2) y by (cases x) (auto simp: MAXCMD_SZ_def)
  moreover have "length x \<le> length cl" using x(1) by (simp add: length_dropWhile_le)
  ultimately show "((drop (length y) x, sc, ccnt + 1), cl, sc, ccnt) \<in> measure (\<lambda>(cl, _, _). length cl)"
    using x(2) by (cases y; cases x) auto
qed simp

declare cparse_loop.simps [simp del]

text \<open>\<open>s\<close> is a string, or a null pointer for the line of the editor.\<close>

definition cparse :: "u8 list \<Rightarrow> u8 list option \<Rightarrow> cons \<Rightarrow> int \<times> cons" where
  "cparse cl s c =
     (let go = (\<lambda>s. let s = skip_blanks 0 s in if s = [] then -3 else cparse_loop cl (cparse_word s) 0) in
      case s of
        None \<Rightarrow> if co_cbcnt c AND 0x80 = 0 then (-2, c) else (go (cstring (co_cstr c)), c\<lparr>co_cbcnt := 0\<rparr>)
      | Some s \<Rightarrow> (go s, c))"

lemma cstrncmp_eq: "cstrncmp s1 s2 \<longleftrightarrow> s1 = s2"
  by (induction s1 s2 rule: cstrncmp.induct) auto

text \<open>A list of commands as the code writes it down, and the position of the first equal one.\<close>

fun command_list :: "u8 list list \<Rightarrow> u8 list" where
  "command_list [] = []"
| "command_list [c] = c"
| "command_list (c # cs) = c @ 92 # command_list cs"

definition command_ok :: "u8 list \<Rightarrow> bool" where
  "command_ok c \<longleftrightarrow> c \<noteq> [] \<and> hd c \<noteq> 32 \<and> 92 \<notin> set c \<and> length c \<le> MAXCMD_SZ"

lemma cparse_loop_law:
  assumes "\<forall>c \<in> set cmds. command_ok c" and "unat k + length cmds < 256" and "z = [] \<or> z = [92]"
  shows "cparse_loop (z @ command_list cmds) w k =
    (if w \<in> set cmds then int (unat k) + int (length (takeWhile (\<lambda>c. c \<noteq> w) cmds)) else -1)"
  using assms
proof (induction cmds arbitrary: k z)
  case Nil
  then show ?case by (auto simp: cparse_loop.simps)
next
  case (Cons c cs)
  have c: "c \<noteq> []" "hd c \<noteq> 32" "92 \<notin> set c" "length c \<le> MAXCMD_SZ" using Cons.prems(1) by (simp_all add: command_ok_def)
  define rest where "rest = (if cs = [] then [] else [92] @ command_list cs)"
  have split: "command_list (c # cs) = c @ rest" by (cases cs) (simp_all add: rest_def)
  have cl: "dropWhile (\<lambda>b. b = 32 \<or> b = 92) (z @ command_list (c # cs)) = c @ rest"
    using Cons.prems(3) c unfolding split by (cases c) auto
  have tw: "takeWhile (\<lambda>b. b \<noteq> 92) (c @ rest) = c" using c(3) by (auto simp: rest_def takeWhile_append)
  have nx: "unat (k + 1) = unat k + 1" using Cons.prems(2) by (simp add: unat_word_ariths)
  have "cparse_loop (z @ command_list (c # cs)) w k = (if w = c then int (unat k) else cparse_loop rest w (k + 1))"
    using cl tw c(1,4) by (subst cparse_loop.simps) (simp add: Let_def cstrncmp_eq)
  moreover have "cparse_loop rest w (k + 1) =
      (if w \<in> set cs then int (unat (k + 1)) + int (length (takeWhile (\<lambda>c. c \<noteq> w) cs)) else -1)"
  proof (cases "cs = []")
    case False
    then show ?thesis using Cons.IH [of "k + 1" "[92]"] Cons.prems nx by (simp add: rest_def)
  qed (simp add: rest_def cparse_loop.simps)
  ultimately show ?case using nx by auto
qed

section \<open>Numbers\<close>

text \<open>
  The loop of \<open>putd\<close>, \<open>putl\<close>, \<open>putw\<close> and \<open>putdw\<close>, which writes the digits from the end of the buffer;
  \<open>p\<close> is the pointer as an index into the buffer.
\<close>

function put_digits :: "u32 \<Rightarrow> nat \<Rightarrow> u8 list \<Rightarrow> (nat \<times> u8 list) res" where
  "put_digits w p buf =
     (if p = 0 then Inl OutOfBounds
      else rbind (store buf (p - 1) (ucast (w mod 10) + 0x30)) (\<lambda>buf.
        if w div 10 = 0 then Inr (p - 1, buf) else put_digits (w div 10) (p - 1) buf))"
  by auto
termination
proof (relation "measure (\<lambda>(w, _, _). unat w)")
  fix w :: u32 and p :: nat and buf buf' :: "u8 list"
  assume "p \<noteq> 0" "w div 10 \<noteq> 0"
  then have "unat w div 10 \<noteq> 0" using unat_div [of w 10] by (auto simp flip: unat_eq_zero)
  then show "((w div 10, p - 1, buf'), w, p, buf) \<in> measure (\<lambda>(w, _, _). unat w)" by (simp add: unat_div)
qed simp

declare put_digits.simps [simp del]

definition con_puts :: "u8 list \<Rightarrow> cons \<Rightarrow> cons" where
  "con_puts s c = c\<lparr>co_out := co_out c @ s\<rparr>"

definition putdw :: "u32 \<Rightarrow> cons \<Rightarrow> cons res" where
  "putdw w c = rbind (put_digits w 10 (replicate 11 0)) (\<lambda>(p, buf). Inr (con_puts (cstring (drop p buf)) c))"

text \<open>The absolute value as an unsigned number, of 32 bits for \<open>putl\<close> and cut to 16 bits for \<open>putd\<close>.\<close>

definition put_signed :: "nat \<Rightarrow> u32 \<Rightarrow> u32 \<Rightarrow> cons \<Rightarrow> cons res" where
  "put_signed n d w c =
     rbind (put_digits w (n - 1) (replicate n 0)) (\<lambda>(p, buf).
     rbind (if d <s 0 then (if p = 0 then Inl OutOfBounds else rbind (store buf (p - 1) 45) (\<lambda>buf. Inr (p - 1, buf)))
            else Inr (p, buf)) (\<lambda>(p, buf).
       Inr (con_puts (cstring (drop p buf)) c)))"

definition putl :: "u32 \<Rightarrow> cons \<Rightarrow> cons res" where
  "putl d c = put_signed 12 d (if d <s 0 then - d else d) c"

definition putd :: "u32 \<Rightarrow> cons \<Rightarrow> cons res" where
  "putd d c = put_signed 7 d (ucast (ucast (if d <s 0 then - d else d) :: u16)) c"

text \<open>The decimal notation of a number.\<close>

fun dec :: "nat \<Rightarrow> u8 list" where
  "dec n = (if n < 10 then [of_nat n + 48] else dec (n div 10) @ [of_nat (n mod 10) + 48])"

declare dec.simps [simp del]

lemma dec_not_Nil [simp]: "dec n \<noteq> []" by (subst dec.simps) simp

lemma length_dec: "0 < k \<Longrightarrow> n < 10 ^ k \<Longrightarrow> length (dec n) \<le> k"
proof (induction n arbitrary: k rule: dec.induct)
  case (1 n)
  show ?case
  proof (cases "n < 10")
    case True
    then show ?thesis using 1(2) by (subst dec.simps) simp
  next
    case False
    then have "k \<noteq> 1" using 1(3) by (auto intro: ccontr)
    then obtain j where j: "k = Suc j" "0 < j" using 1(2) by (cases k) auto
    then have "n div 10 < 10 ^ j" using 1(3) by (simp add: less_mult_imp_div_less mult.commute)
    then show ?thesis using False 1(1) [OF False j(2)] j(1) by (subst dec.simps) simp
  qed
qed

lemma digit_range: "m < 10 \<Longrightarrow> unat (of_nat m + 48 :: u8) = m + 48"
  by (simp add: unat_word_ariths unat_of_nat)

lemma set_dec: "b \<in> set (dec n) \<Longrightarrow> 48 \<le> unat b \<and> unat b < 58"
proof (induction n rule: dec.induct)
  case (1 n)
  then show ?case
    by (subst (asm) (2) dec.simps) (auto simp: digit_range split: if_split_asm)
qed

lemma put_digits_law:
  assumes "length (dec (unat w)) \<le> p" and "p \<le> length buf"
  shows "\<exists>buf'. put_digits w p buf = Inr (p - length (dec (unat w)), buf') \<and> length buf' = length buf \<and>
    drop (p - length (dec (unat w))) buf' = dec (unat w) @ drop p buf"
  using assms
proof (induction w p buf rule: put_digits.induct)
  case (1 w p buf)
  define b :: u8 where "b = ucast (w mod 10) + 0x30"
  have m: "unat (w mod 10) = unat w mod 10" by (simp add: unat_mod)
  have "(ucast (w mod 10) :: u8) = of_nat (unat (w mod 10))" by simp
  then have b: "b = of_nat (unat w mod 10) + 48" by (simp add: b_def m)
  have p: "0 < p" using 1(2) by (cases p) auto
  have z: "w div 10 = 0 \<longleftrightarrow> unat w < 10" using unat_div [of w 10] by (auto simp flip: unat_eq_zero)
  have st: "store buf (p - 1) b = Inr (buf[p - 1 := b])" using p 1(3) by (simp add: store_def)
  have dr: "drop (p - 1) (buf[p - 1 := b]) = b # drop p buf"
    using p 1(3) by (cases p) (simp_all add: Cons_nth_drop_Suc [symmetric])
  show ?case
  proof (cases "unat w < 10")
    case True
    then have "dec (unat w) = [b]" using b by (subst dec.simps) simp
    then show ?thesis using True z p st dr 1(3) by (subst put_digits.simps) (auto simp: b_def)
  next
    case False
    then have d: "dec (unat w) = dec (unat (w div 10)) @ [b]" using b by (subst dec.simps) (simp add: unat_div)
    have le: "p - 1 \<le> length (buf[p - 1 := b])" using 1(3) by simp
    have "length (dec (unat (w div 10))) \<le> p - 1" using 1(2) d by simp
    then obtain buf' where "put_digits (w div 10) (p - 1) (buf[p - 1 := b]) =
        Inr (p - 1 - length (dec (unat (w div 10))), buf')" "length buf' = length buf"
        "drop (p - 1 - length (dec (unat (w div 10)))) buf' = dec (unat (w div 10)) @ drop (p - 1) (buf[p - 1 := b])"
      using 1(1) [of "buf[p - 1 := b]"] p False z le by auto
    then show ?thesis using False z p st dr d by (subst put_digits.simps) (simp add: b_def)
  qed
qed

lemma cstring_dec: "cstring (dec n @ 0 # s) = dec n"
proof -
  have "takeWhile (\<lambda>b. b \<noteq> 0) (dec n) = dec n" using set_dec [of 0 n] by (auto simp: takeWhile_eq_all_conv)
  then show ?thesis by (simp add: cstring_def takeWhile_tail)
qed

lemma put_digits_string:
  assumes "length (dec (unat w)) < n"
  shows "\<exists>p buf. put_digits w (n - 1) (replicate n 0) = Inr (p, buf) \<and> p = n - 1 - length (dec (unat w)) \<and> length buf = n \<and>
    drop p buf = dec (unat w) @ [0]"
proof -
  have "drop (n - 1) (replicate n 0) = [0 :: u8]" using assms by (simp only: drop_replicate) (cases n, auto)
  then show ?thesis using put_digits_law [of w "n - 1" "replicate n 0"] assms by auto
qed

lemma length_dec_u32: "length (dec (unat (w :: u32))) \<le> 10"
proof (rule length_dec)
  have "unat w < 2 ^ 32" using unsigned_less [of w] by simp
  then show "unat w < 10 ^ 10" by simp
qed simp

lemma putdw_law: "putdw w c = Inr (con_puts (dec (unat w)) c)"
  using put_digits_string [of w 11] length_dec_u32 [of w] cstring_dec [of "unat w" "[]"] by (auto simp: putdw_def)

text \<open>Signed output: the sign and the digits.\<close>

lemma put_signed_law:
  assumes "length (dec (unat w)) + 1 < n"
  shows "put_signed n d w c = Inr (con_puts ((if d <s 0 then [45] else []) @ dec (unat w)) c)"
proof -
  obtain p buf where p: "put_digits w (n - 1) (replicate n 0) = Inr (p, buf)" "p = n - 1 - length (dec (unat w))" "length buf = n"
      "drop p buf = dec (unat w) @ [0]" using put_digits_string [of w n] assms by auto
  have p1: "0 < p" "p < n" using p(2) assms by auto
  have "drop (p - 1) (buf[p - 1 := 45]) = 45 # drop p buf"
    using p1 p(3) by (cases p) (simp_all add: Cons_nth_drop_Suc [symmetric])
  moreover have "cstring (45 # dec (unat w) @ [0]) = 45 # dec (unat w)" using cstring_dec [of "unat w" "[]"] by (simp add: cstring_def)
  ultimately show ?thesis using p(1,3,4) p1 cstring_dec [of "unat w" "[]"] by (simp add: put_signed_def store_def less_imp_diff_less)
qed

lemma putl_law: "putl d c = Inr (con_puts ((if d <s 0 then [45] else []) @ dec (unat (if d <s 0 then - d else d))) c)"
proof -
  have "length (dec (unat (if d <s 0 then - d else d))) + 1 < 12" using length_dec_u32 [of "if d <s 0 then - d else d"] by simp
  from put_signed_law [OF this, of d c] show ?thesis by (simp add: putl_def)
qed

lemma putd_law: "putd d c = Inr (con_puts ((if d <s 0 then [45] else []) @ dec (unat (if d <s 0 then - d else d) mod 65536)) c)"
proof -
  let ?x = "if d <s 0 then - d else d"
  have u: "unat (ucast (ucast ?x :: u16) :: u32) = unat ?x mod 65536"
    by (simp add: unsigned_ucast_eq take_bit_eq_mod unat_mod)
  have "length (dec (unat ?x mod 65536)) \<le> 5" by (rule length_dec) (auto intro: less_trans [of _ 65536])
  then have "length (dec (unat (ucast (ucast ?x :: u16) :: u32))) + 1 < 7" unfolding u by simp
  from put_signed_law [OF this, of d c] show ?thesis unfolding putd_def u by simp
qed

section \<open>Commands\<close>

text \<open>
  What the commands use of \<open>sscanf\<close>: characters that must be there, white space, and unsigned numbers in a
  base. A number may have a sign; a number that is too large is read as the largest one; the result is
  the list of the numbers that were read.
\<close>

datatype directive = Lit u8 | White | Num nat

definition isspace :: "u8 \<Rightarrow> bool" where
  "isspace b \<longleftrightarrow> b = 32 \<or> (9 \<le> b \<and> b \<le> 13)"

definition digit_value :: "u8 \<Rightarrow> nat" where
  "digit_value b =
     (if 48 \<le> b \<and> b \<le> 57 then unat b - 48 else if 97 \<le> b \<and> b \<le> 122 then unat b - 87
      else if 65 \<le> b \<and> b \<le> 90 then unat b - 55 else 36)"

definition number_value :: "nat \<Rightarrow> u8 list \<Rightarrow> nat" where
  "number_value base ds = foldl (\<lambda>v b. base * v + digit_value b) 0 ds"

definition scan_prefix :: "nat \<Rightarrow> u8 list \<Rightarrow> u8 list" where
  "scan_prefix base s =
     (case s of
        a # b # c # r \<Rightarrow> if base = 16 \<and> a = 48 \<and> (b = 120 \<or> b = 88) \<and> digit_value c < 16 then c # r else s
      | _ \<Rightarrow> s)"

definition scan_num :: "nat \<Rightarrow> u8 list \<Rightarrow> (u32 \<times> u8 list) option" where
  "scan_num base s =
     (let s = dropWhile isspace s;
          neg = (s \<noteq> [] \<and> hd s = 45);
          s = (if s \<noteq> [] \<and> (hd s = 45 \<or> hd s = 43) then tl s else s);
          s = scan_prefix base s;
          ds = takeWhile (\<lambda>b. digit_value b < base) s
      in if ds = [] then None
         else let n = number_value base ds;
                  v = (if n < 2 ^ 32 then (if neg then - of_nat n else of_nat n) else (-1 :: u32))
              in Some (v, drop (length ds) s))"

fun sscanf :: "directive list \<Rightarrow> u8 list \<Rightarrow> u32 list" where
  "sscanf [] s = []"
| "sscanf (Lit b # f) s = (case s of [] \<Rightarrow> [] | c # s \<Rightarrow> if c = b then sscanf f s else [])"
| "sscanf (White # f) s = sscanf f (dropWhile isspace s)"
| "sscanf (Num base # f) s = (case scan_num base s of None \<Rightarrow> [] | Some (v, s) \<Rightarrow> v # sscanf f s)"

definition str :: "string \<Rightarrow> u8 list" where "str s = map of_char s"

definition commands :: "u8 list" where
  "commands = command_list [str ''?'', str ''??'', str ''reset'', str ''r'', str ''w'', str ''wx'', str ''nvdata'', str ''out'']"

definition help_text :: "u8 list" where
  "help_text = str '' reset'' @ [10] @ str '' r  <register_num>                - read register'' @ [10] @
     str '' w  <register_num> <value_dec>    - write register'' @ [10] @
     str '' wx <register_num> <value_hex>    - write register'' @ [10] @
     str '' nvdata <cmd>  - send cmd to test-nvdata'' @ [10]"

definition hexAsciiTable :: "u8 list" where "hexAsciiTable = str ''0123456789ABCDEF''"

definition putwx :: "u32 \<Rightarrow> cons \<Rightarrow> cons" where
  "putwx w c = con_puts (map (\<lambda>k. hexAsciiTable ! unat (drop_bit k w AND 0x0f)) [12, 8, 4, 0]) c"

definition putdwx :: "u32 \<Rightarrow> cons \<Rightarrow> cons" where
  "putdwx dw c = putwx dw (putwx (drop_bit 16 dw) c)"

text \<open>The state of the commands: the console, the registers and the variable \<open>out\<close>.\<close>

type_synonym con_state = "cons \<times> dev \<times> u8"

definition cmd_r :: "henv \<Rightarrow> u8 list \<Rightarrow> con_state \<Rightarrow> con_state res" where
  "cmd_r e sp s =
     (case s of (c, d, o') \<Rightarrow>
      rbind (case sscanf [Lit 114, White, Num 10] sp of
               [i] \<Rightarrow> (case Parameters_read e (ucast i) d of (rc, vo) \<Rightarrow> case (rc = 0, vo) of
                  (True, Some vi) \<Rightarrow>
                    rbind (putd i (con_puts (10 # str ''p'') c)) (\<lambda>c.
                    rbind (putl vi (con_puts (str '':'') c)) (\<lambda>c. Inr (con_puts [10] c)))
                | _ \<Rightarrow> Inr (con_puts (str ''??'' @ [10]) c))
             | _ \<Rightarrow> Inr (con_puts (str ''?'' @ [10]) c)) (\<lambda>c.
        Inr (con_puts (str ''>'') c, d, o')))"

definition cmd_w :: "u8 list \<Rightarrow> con_state \<Rightarrow> con_state res" where
  "cmd_w sp s =
     (case s of (c, d, o') \<Rightarrow>
      (case sscanf [Lit 119, White, Num 10, White, Lit 61, White, Num 10] sp of
         [i, v] \<Rightarrow> (case Parameters_write (ucast i) v d of (rc, d) \<Rightarrow>
           if rc = 0
           then rbind (putd i (con_puts (str ''p'') c)) (\<lambda>c.
                rbind (putl v (con_puts (str '':'') c)) (\<lambda>c. Inr (con_puts [10] c, d, o')))
           else Inr (con_puts (str ''?'' @ [10]) c, d, o'))
       | _ \<Rightarrow> Inr (con_puts (str ''?'' @ [10]) c, d, o')))"

definition cmd_wx :: "u8 list \<Rightarrow> con_state \<Rightarrow> con_state res" where
  "cmd_wx sp s =
     (case s of (c, d, o') \<Rightarrow>
      rbind (case sscanf [Lit 119, Lit 120, White, Num 10, White, Lit 61, White, Num 16] sp of
         [i, v] \<Rightarrow> (case Parameters_write (ucast i) v d of (rc, d) \<Rightarrow>
           if rc = 0
           then rbind (putd i (con_puts (10 # str ''p'') c)) (\<lambda>c. Inr (con_puts [10] (putdwx v (con_puts (str '':'') c)), d))
           else Inr (con_puts (str ''??'' @ [10]) c, d))
       | _ \<Rightarrow> Inr (con_puts (str ''?'' @ [10]) c, d)) (\<lambda>(c, d).
        Inr (con_puts (str ''>'') c, d, o')))"

definition processConsoleInput :: "henv \<Rightarrow> con_state \<Rightarrow> con_state res" where
  "processConsoleInput e s =
     (case s of (c, d, o') \<Rightarrow>
      (case cgets c of
         (None, c) \<Rightarrow> Inr (c, d, o')
       | (Some a, c) \<Rightarrow>
           let sp = cstring a in
           (case cparse commands (Some sp) c of (k, c) \<Rightarrow>
              if k = -1 then Inr (con_puts ([34] @ sp @ [34] @ str ''?'' @ [10] @ str ''>'') c, d, o')
              else if k = 0 then Inr (con_puts ([10] @ commands @ [10] @ str ''>'') c, d, o')
              else if k = 1 then Inr (con_puts ([10] @ help_text) c, d, o')
              else if k = 3 then cmd_r e sp (c, d, o')
              else if k = 4 then cmd_w sp (c, d, o')
              else if k = 5 then cmd_wx sp (c, d, o')
              else if k = 7 then
                (case sscanf [White, Lit 111, Lit 117, Lit 116, White, Num 10] sp of
                   [] \<Rightarrow> Inr (con_puts ([10] @ str ''>'') c, d, o')
                 | i # _ \<Rightarrow> Inr (con_puts ([10] @ str ''>'') c, d, ucast i))
              else Inr (c, d, o'))))"

section \<open>What the commands do\<close>

text \<open>The console changes the registers only through \<open>Parameters.write\<close>.\<close>

lemma console_registers:
  assumes "processConsoleInput e (c, d, o') = Inr (c', d', o'')"
  shows "d' = d \<or> (\<exists>i v. d' = snd (Parameters_write i v d))"
proof -
  have w: "d' = d \<or> (\<exists>i v. d' = snd (Parameters_write i v d))" if "cmd_w sp (c1, d, o1) = Inr (c', d', o'')" for sp c1 o1
    using that by (auto simp: cmd_w_def rbind_Inr_iff split: list.splits prod.splits if_splits) (metis snd_conv)+
  have wx: "d' = d \<or> (\<exists>i v. d' = snd (Parameters_write i v d))" if "cmd_wx sp (c1, d, o1) = Inr (c', d', o'')" for sp c1 o1
    using that by (auto simp: cmd_wx_def rbind_Inr_iff split: list.splits prod.splits if_splits) (metis snd_conv)+
  have r: "d' = d" if "cmd_r e sp (c1, d, o1) = Inr (c', d', o'')" for sp c1 o1
    using that by (auto simp: cmd_r_def rbind_Inr_iff)
  show ?thesis using assms w wx r
    by (auto simp: processConsoleInput_def Let_def split: prod.splits option.splits if_splits list.splits)
qed

lemma str_simps: "str ''?'' = [63]" "str ''??'' = [63, 63]" "str ''reset'' = [114, 101, 115, 101, 116]" "str ''r'' = [114]" "str ''w'' = [119]"
  "str ''wx'' = [119, 120]" "str ''nvdata'' = [110, 118, 100, 97, 116, 97]" "str ''out'' = [111, 117, 116]" "str ''p'' = [112]" "str '':'' = [58]"
  by (simp_all add: str_def)

lemma commands_ok: "cparse_loop commands w 0 =
    (let cmds = [str ''?'', str ''??'', str ''reset'', str ''r'', str ''w'', str ''wx'', str ''nvdata'', str ''out''] in
     if w \<in> set cmds then int (length (takeWhile (\<lambda>c. c \<noteq> w) cmds)) else -1)"
  using cparse_loop_law [of "[str ''?'', str ''??'', str ''reset'', str ''r'', str ''w'', str ''wx'', str ''nvdata'', str ''out'']" 0 "[]" w]
  by (simp add: commands_def command_ok_def str_simps MAXCMD_SZ_def Let_def)

lemma digit_value_dec: "m < 10 \<Longrightarrow> digit_value (of_nat m + 48) = m"
  by (simp add: digit_value_def word_le_nat_alt digit_range)

lemma digit_value_small: "b \<in> set (dec n) \<Longrightarrow> digit_value b < 10"
  using set_dec [of b n] by (auto simp: digit_value_def word_le_nat_alt)

lemma number_value_dec: "number_value 10 (dec n) = n"
proof (induction n rule: dec.induct)
  case (1 n)
  show ?case
  proof (cases "n < 10")
    case True
    then show ?thesis by (subst dec.simps) (simp add: number_value_def digit_value_dec)
  next
    case False
    then show ?thesis using 1 by (subst dec.simps) (simp add: number_value_def digit_value_dec)
  qed
qed

lemma dec_head: "\<exists>a ds. dec n = a # ds \<and> \<not> isspace a \<and> a \<noteq> 45 \<and> a \<noteq> 43"
proof -
  obtain a ds where ds: "dec n = a # ds" by (cases "dec n") auto
  have "48 \<le> unat a" "unat a < 58" using set_dec [of a n] ds by auto
  then show ?thesis using ds by (auto simp: isspace_def word_le_nat_alt)
qed

lemma scan_dec:
  assumes "n < 2 ^ 32" and "r = [] \<or> \<not> digit_value (hd r) < 10"
  shows "scan_num 10 (dec n @ r) = Some (of_nat n, r)"
proof -
  obtain a ds where ds: "dec n = a # ds" and sp: "\<not> isspace a" "a \<noteq> 45" "a \<noteq> 43" using dec_head by blast
  have "takeWhile (\<lambda>b. digit_value b < 10) (dec n @ r) = dec n @ takeWhile (\<lambda>b. digit_value b < 10) r"
    using digit_value_small [of _ n] by (simp add: takeWhile_append2)
  moreover have "takeWhile (\<lambda>b. digit_value b < 10) r = []" using assms(2) by (cases r) auto
  ultimately have tw: "takeWhile (\<lambda>b. digit_value b < 10) (dec n @ r) = dec n" by simp
  have pre: "scan_prefix 10 s = s" for s by (simp add: scan_prefix_def split: list.splits)
  have dw: "dropWhile isspace (dec n @ r) = dec n @ r" using sp(1) ds by simp
  show ?thesis unfolding scan_num_def dw using sp ds tw pre number_value_dec [of n] assms(1) by (simp add: Let_def)
qed

definition ex_cons :: cons where
  "ex_cons = \<lparr>co_cstr = replicate 165 0, co_cbcnt = 0, co_cbyte = 0, co_echo = False, co_out = []\<rparr>"

lemma ex_cons_inv: "con_inv ex_cons" "typed ex_cons = []"
  by (simp_all add: con_inv_def ex_cons_def CSTR_SZ_def line_done_def typed_def)

text \<open>A line typed and ended with a carriage return.\<close>

lemma line_typed:
  assumes "con_inv c" and "typed c = []" and "13 \<notin> set bs" and "\<forall>k \<le> length bs. length (foldl edit [] (take k bs)) < 128"
  shows "\<exists>c1. rfold cprocbyte (bs @ [13]) c = Inr c1 \<and> con_inv c1 \<and> line_done c1 \<and>
     cstring (co_cstr c1) = takeWhile (\<lambda>b. b \<noteq> 0) (foldl edit [] bs)"
proof -
  obtain c' where c': "rfold cprocbyte bs c = Inr c'" "con_inv c'" "typed c' = foldl edit [] bs"
    using edit_run [OF assms(1,3)] assms(2,4) by auto
  obtain c1 where c1: "cprocbyte 13 c' = Inr c1" "con_inv c1" "line_done c1" "take (length (typed c')) (co_cstr c1) = typed c'"
      "co_cstr c1 ! length (typed c') = 0"
    using cprocbyte_law [OF c'(2), of 13] by auto
  have "length (typed c') < length (co_cstr c1)"
    using c1(2) c'(3) assms(4) [rule_format, of "length bs"] by (simp add: con_inv_def CSTR_SZ_def)
  then have "cstring (co_cstr c1) = takeWhile (\<lambda>b. b \<noteq> 0) (typed c')" using cstring_prefix c1(4,5) by blast
  moreover have "rfold cprocbyte (bs @ [13]) c = Inr c1" using c'(1) c1(1) by (simp add: rfold_append)
  ultimately show ?thesis using c1(2,3) c'(3) by simp
qed

lemma short_line: "length bs < 128 \<Longrightarrow> length (foldl edit [] (take k bs)) < 128"
proof -
  assume len: "length bs < 128"
  have "length (foldl edit l xs) \<le> length l + length xs" for l xs
  proof (induction xs arbitrary: l)
    case (Cons x xs)
    have "length (edit l x) \<le> Suc (length l)" by (auto simp: edit_def)
    then show ?case using Cons.IH [of "edit l x"] by simp
  qed simp
  from this [of "[]" "take k bs"] show ?thesis using len by simp
qed

section \<open>Properties\<close>

text \<open>
  What the editor and \<open>cgets\<close> promise, over the line typed so far and whether it is finished: a line feed, a tilde
  and an asterisk are ignored; any other character after a finished line starts a new one; a carriage return finishes the
  line; a backspace takes back the last character, or is stored when there is none; a character is appended, and
  the 128th finishes the line as well. \<open>cgets\<close> returns a finished line and starts an empty one.
\<close>

definition editor_byte :: "u8 \<Rightarrow> u8 list \<times> bool \<Rightarrow> u8 list \<times> bool" where
  "editor_byte b e =
     (if b = 10 \<or> b = 126 \<or> b = 42 then e
      else let l = (if snd e then [] else fst e)
           in if b = 13 then (l, True)
              else if b = 8 \<and> l \<noteq> [] then (butlast l, False)
              else (l @ [b], length l = 127))"

definition editor_gets :: "u8 list \<times> bool \<Rightarrow> u8 list option \<times> u8 list \<times> bool" where
  "editor_gets e = (if snd e then (Some (fst e), [], False) else (None, e))"

text \<open>What happens to the editor: the interrupt for a received byte, or a call of \<open>cgets\<close>.\<close>

datatype con_event = Received u8 | Gets

text \<open>The strings that the calls of \<open>cgets\<close> return, in order.\<close>

fun con_run :: "con_event list \<Rightarrow> cons \<Rightarrow> (u8 list option list \<times> cons) res" where
  "con_run [] c = Inr ([], c)"
| "con_run (Received b # evs) c = rbind (cprocbyte b c) (con_run evs)"
| "con_run (Gets # evs) c =
     (case cgets c of (a, c) \<Rightarrow> rbind (con_run evs c) (\<lambda>(ls, c). Inr (map_option cstring a # ls, c)))"

fun editor_run :: "con_event list \<Rightarrow> u8 list \<times> bool \<Rightarrow> u8 list option list \<times> u8 list \<times> bool" where
  "editor_run [] e = ([], e)"
| "editor_run (Received b # evs) e = editor_run evs (editor_byte b e)"
| "editor_run (Gets # evs) e =
     (case editor_gets e of (a, e) \<Rightarrow> case editor_run evs e of (ls, e) \<Rightarrow> (map_option cstring a # ls, e))"

text \<open>The line of the editor; a finished one lies in the array as a C string.\<close>

definition con_abs :: "cons \<Rightarrow> u8 list \<times> bool \<Rightarrow> bool" where
  "con_abs c e \<longleftrightarrow> con_inv c \<and> snd e = line_done c \<and> (if snd e then cstring (co_cstr c) = cstring (fst e) else typed c = fst e)"

lemma con_abs_empty: "con_inv c \<Longrightarrow> \<not> line_done c \<Longrightarrow> typed c = l \<Longrightarrow> con_abs c (l, False)"
  by (simp add: con_abs_def)

lemma con_abs_done:
  assumes "con_inv c" "line_done c" "take n (co_cstr c) = l" "n \<le> 128" "co_cstr c ! n = 0"
  shows "con_abs c (l, True)"
proof -
  have "length (co_cstr c) = 165" using assms(1) by (simp add: con_inv_def CSTR_SZ_def)
  then have "cstring (co_cstr c) = takeWhile (\<lambda>b. b \<noteq> 0) l" by (intro cstring_prefix [OF assms(3) _ assms(5)]) (use assms(4) in simp)
  then show ?thesis using assms(1,2) by (simp add: con_abs_def cstring_def)
qed

lemma con_inv_end: "con_inv c \<Longrightarrow> co_cstr c ! 128 = 0"
proof -
  assume "con_inv c"
  then have "length (co_cstr c) = 165" "drop 128 (co_cstr c) = replicate 37 0" by (simp_all add: con_inv_def CSTR_SZ_def)
  moreover from this have "drop 128 (co_cstr c) ! 0 = co_cstr c ! (128 + 0)" by (intro nth_drop) simp
  ultimately show ?thesis by simp
qed

lemma con_abs_byte:
  assumes abs: "con_abs c e"
  shows "\<exists>c'. cprocbyte b c = Inr c' \<and> con_abs c' (editor_byte b e)"
proof (cases "b = 10 \<or> b = 126 \<or> b = 42")
  case True
  then have "cprocbyte b c = Inr (c\<lparr>co_cbyte := b\<rparr>)" by (auto simp: cprocbyte_def Let_def)
  then show ?thesis using True abs by (auto simp: editor_byte_def con_abs_def con_inv_def typed_def line_done_def)
next
  case ord: False
  have inv: "con_inv c" using abs by (simp add: con_abs_def)
  have l: "(if snd e then [] else fst e) = typed c" using abs by (auto simp: con_abs_def typed_def)
  have len: "length (typed c) < 128" using typed_length [OF inv] inv by (simp add: con_inv_def)
  obtain c' where c': "cprocbyte b c = Inr c'" "con_inv c'"
    "if b = 13 then line_done c' \<and> take (length (typed c)) (co_cstr c') = typed c \<and> co_cstr c' ! length (typed c) = 0
     else if length (edit (typed c) b) < 128 then typed c' = edit (typed c) b \<and> \<not> line_done c'
     else line_done c' \<and> take 128 (co_cstr c') = edit (typed c) b"
    using cprocbyte_law [OF inv, of b] ord by metis
  show ?thesis
  proof (cases "b = 13")
    case True
    have "con_abs c' (typed c, True)" by (rule con_abs_done [of c' "length (typed c)"]) (use c'(2,3) True len in auto)
    then show ?thesis using c'(1) True l by (simp add: editor_byte_def)
  next
    case ne: False
    have ed: "editor_byte b e = (edit (typed c) b, \<not> length (edit (typed c) b) < 128)"
      using ord ne l len by (auto simp: editor_byte_def edit_def Let_def)
    show ?thesis
    proof (cases "length (edit (typed c) b) < 128")
      case True
      then show ?thesis using c' ne ed con_abs_empty [of c' "edit (typed c) b"] by auto
    next
      case False
      have "con_abs c' (edit (typed c) b, True)"
        by (rule con_abs_done [of c' 128]) (use c'(2,3) ne False con_inv_end [OF c'(2)] in auto)
      then show ?thesis using c'(1) ed False by auto
    qed
  qed
qed

lemma con_abs_gets:
  assumes "con_abs c e"
  shows "map_option cstring (fst (cgets c)) = map_option cstring (fst (editor_gets e)) \<and> con_abs (snd (cgets c)) (snd (editor_gets e))"
proof (cases "line_done c")
  case True
  have inv: "con_inv c" using assms by (simp add: con_abs_def)
  note g = cgets_done [OF inv True]
  have "\<not> line_done (c\<lparr>co_cbcnt := 0\<rparr>)" by (simp add: line_done_def)
  then show ?thesis using g True assms by (simp add: con_abs_def editor_gets_def)
next
  case False
  then have "cgets c = (None, c)" by (simp add: cgets_def line_done_def)
  then show ?thesis using False assms by (simp add: con_abs_def editor_gets_def)
qed

text \<open>
  C34: the line editor refines this specification on every input: under every sequence of received bytes and calls
  of \<open>cgets\<close>, lines of any length included, no access leaves the array, and each call of \<open>cgets\<close> returns what the
  specification returns, as a C string.
\<close>

theorem console_line_edited:
  assumes "con_abs c e"
  shows "\<exists>ls c' e'. con_run evs c = Inr (ls, c') \<and> editor_run evs e = (ls, e') \<and> con_abs c' e' \<and> length (co_cstr c') = CSTR_SZ + 1"
  using assms
proof (induction evs arbitrary: c e)
  case Nil
  then show ?case by (simp add: con_abs_def con_inv_def)
next
  case (Cons ev evs)
  show ?case
  proof (cases ev)
    case (Received b)
    obtain c1 where "cprocbyte b c = Inr c1" "con_abs c1 (editor_byte b e)" using con_abs_byte [OF Cons.prems] by blast
    then show ?thesis using Cons.IH Received by simp
  next
    case Gets
    obtain a c1 where g: "cgets c = (a, c1)" by fastforce
    obtain a' e1 where e: "editor_gets e = (a', e1)" by (cases "editor_gets e") blast
    have "map_option cstring a = map_option cstring a'" "con_abs c1 e1" using con_abs_gets [OF Cons.prems] g e by simp_all
    moreover from this(2) obtain ls c' e' where "con_run evs c1 = Inr (ls, c')" "editor_run evs e1 = (ls, e')" "con_abs c' e'"
        "length (co_cstr c') = CSTR_SZ + 1" using Cons.IH by blast
    ultimately show ?thesis using g e Gets by simp
  qed
qed

theorem console_line_edited_witness:
  "\<exists>c'. con_run (map Received [114, 32, 52, 8, 51, 13] @ [Gets, Gets]) ex_cons = Inr ([Some [114, 32, 51], None], c')"
proof -
  have "con_abs ex_cons ([], False)" using ex_cons_inv by (intro con_abs_empty) (simp_all add: line_done_def ex_cons_def)
  from console_line_edited [OF this, of "map Received [114, 32, 52, 8, 51, 13] @ [Gets, Gets]"]
  show ?thesis by (auto simp: editor_byte_def editor_gets_def cstring_def)
qed

text \<open>
  A line of 128 characters is taken for a finished line although no carriage return has been typed:
  the counter reaches the bit that marks a finished line.
\<close>

lemma console_long_line_split:
  assumes "con_inv c" and "typed c = []" and "length bs = 128" and "set bs \<inter> {0, 8, 10, 13, 42, 126} = {}"
  shows "\<exists>c1 a c2. rfold cprocbyte bs c = Inr c1 \<and> cgets c1 = (Some a, c2) \<and> cstring a = bs"
proof -
  obtain cs b where cs: "bs = cs @ [b]" "length cs = 127" using assms(3) by (cases bs rule: rev_cases) auto
  have app: "foldl edit l xs = l @ xs" if "set xs \<inter> {0, 8, 10, 13, 42, 126} = {}" for l xs
    using that by (induction xs arbitrary: l) (auto simp: edit_def)
  have sub: "set cs \<inter> {0, 8, 10, 13, 42, 126} = {}" "b \<notin> {0, 8, 10, 13, 42, 126}" using assms(4) cs(1) by auto
  have k: "foldl edit [] (take k cs) = take k cs" for k using app [of "take k cs" "[]"] sub(1) set_take_subset [of k cs] by auto
  obtain c' where c': "rfold cprocbyte cs c = Inr c'" "con_inv c'" "typed c' = cs"
    using edit_run [of c cs] assms(1,2) sub(1) k cs(2) app [of cs "[]"] by auto
  have e: "edit cs b = bs" using sub(2) cs by (auto simp: edit_def)
  obtain c1 where c1: "cprocbyte b c' = Inr c1" "con_inv c1" "line_done c1" "take 128 (co_cstr c1) = bs"
    using cprocbyte_law [OF c'(2), of b] sub(2) c'(3) e assms(3) by auto
  have "co_cstr c1 ! 128 = 0" "128 < length (co_cstr c1)"
  proof -
    have z: "drop 128 (co_cstr c1) = replicate 37 0" "length (co_cstr c1) = 165" using c1(2) by (simp_all add: con_inv_def CSTR_SZ_def)
    then show "128 < length (co_cstr c1)" by simp
    have "drop 128 (co_cstr c1) ! 0 = co_cstr c1 ! 128" using z(2) by simp
    then show "co_cstr c1 ! 128 = 0" using z(1) by simp
  qed
  then have "cstring (co_cstr c1) = takeWhile (\<lambda>b. b \<noteq> 0) bs" using cstring_prefix c1(4) by blast
  moreover have "takeWhile (\<lambda>b. b \<noteq> 0) bs = bs" using assms(4) by (auto simp: takeWhile_eq_all_conv)
  ultimately show ?thesis using c'(1) c1(1) cs(1) cgets_done(1) [OF c1(2,3)] by (simp add: rfold_append)
qed

lemma console_long_line_split_witness:
  "\<exists>c1 a c2. rfold cprocbyte (replicate 128 65) ex_cons = Inr c1 \<and> cgets c1 = (Some a, c2) \<and> cstring a = replicate 128 65"
  using console_long_line_split [OF ex_cons_inv, of "replicate 128 65"] by simp

text \<open>
  The search for a command finds the first entry of the list that is equal to the first word of the
  line (up to a blank or an equals sign, after leading blanks), and reports -1 when there is none and -3
  for a line of blanks. The entries are separated by backslashes, do not start with a blank, and have at
  most 160 characters; there are fewer than 256 of them.
\<close>

lemma command_lookup:
  assumes "\<forall>c \<in> set cmds. command_ok c" and "length cmds < 256"
  shows "cparse (command_list cmds) (Some s) c =
    (if skip_blanks 0 s = [] then -3
     else let w = cparse_word (skip_blanks 0 s) in
       if w \<in> set cmds then int (length (takeWhile (\<lambda>x. x \<noteq> w) cmds)) else -1, c)"
  using cparse_loop_law [OF assms(1), of 0 "[]"] assms(2) by (simp add: cparse_def Let_def)

lemma command_lookup_example:
  "cparse (command_list [[97], [97, 98]]) (Some [32, 97, 98, 61, 49]) ex_cons = (1, ex_cons)"
  using command_lookup [of "[[97], [97, 98]]" "[32, 97, 98, 61, 49]" ex_cons]
  by (simp add: command_ok_def MAXCMD_SZ_def cparse_word_def Let_def)

text \<open>
  The write command. A line \<open>w n = v\<close> with the register and the value in decimal notation writes
  exactly this value into this register, and reports the register and the value in the same notation, or a
  question mark when the register cannot be written; the line is used up.
\<close>

lemma console_write_command:
  assumes "con_inv c" and "line_done c" and "n < 65536" and "v < 2 ^ 31"
    and "cstring (co_cstr c) = [119, 32] @ dec n @ [32, 61, 32] @ dec v" and "Parameters_write (of_nat n) (of_nat v) d = (rc, d')"
  shows "\<exists>c'. processConsoleInput e (c, d, o') = Inr (c', d', o') \<and> fst (cgets c') = None \<and>
     co_out c' = co_out c @ (if rc = 0 then [112] @ dec n @ [58] @ dec v @ [10] else [63, 10])"
proof -
  define sp where "sp = cstring (co_cstr c)"
  define c1 where "c1 = c\<lparr>co_cbcnt := 0\<rparr>"
  have g: "cgets c = (Some (co_cstr c), c1)" "fst (cgets c1) = None" using cgets_done [OF assms(1,2)] by (simp_all add: c1_def)
  have sp: "sp = 119 # 32 # dec n @ 32 # 61 # 32 # dec v" using assms(5) by (simp add: sp_def)
  have "cparse commands (Some sp) c1 = (4, c1)"
    using commands_ok [of "cparse_word sp"] by (simp add: cparse_def sp cparse_word_def MAXCMD_SZ_def str_simps Let_def)
  then have p: "processConsoleInput e (c, d, o') = cmd_w sp (c1, d, o')"
    using g(1) by (simp add: processConsoleInput_def sp_def [symmetric])
  have scan: "sscanf [Lit 119, White, Num 10, White, Lit 61, White, Num 10] sp = [of_nat n, of_nat v]"
  proof -
    have ns: "dropWhile isspace (dec m @ r) = dec m @ r" for m r
      using dec_head [of m] by auto
    have "digit_value 32 = 36" by (simp add: digit_value_def)
    then show ?thesis using scan_dec [of n "32 # 61 # 32 # dec v"] scan_dec [of v "[]"] assms(3,4) ns [of n] ns [of v "[]"]
      by (simp add: sp isspace_def)
  qed
  have pos: "\<not> (of_nat m :: u32) <s 0" "unat (of_nat m :: u32) = m" if "m < 2 ^ 31" for m
    using that signed_take_bit_int_eq_self [of 31 "int m"]
    by (simp_all add: word_sless_alt signed_of_nat unat_of_nat del: signed_take_bit_nonnegative_iff)
  have n31: "n < 2 ^ 31" using assms(3) by simp
  have u: "(ucast (of_nat n :: u32) :: u16) = of_nat n"
    using assms(3) by (intro word_unat_eq_iff [THEN iffD2]) (simp add: unsigned_ucast_eq unat_of_nat take_bit_eq_mod)
  have pd: "putd (of_nat n) x = Inr (con_puts (dec n) x)" for x using putd_law [of "of_nat n" x] pos [OF n31] assms(3) by simp
  have pl: "putl (of_nat v) x = Inr (con_puts (dec v) x)" for x using putl_law [of "of_nat v" x] pos [OF assms(4)] by simp
  have "cmd_w sp (c1, d, o') = Inr (con_puts (if rc = 0 then [112] @ dec n @ [58] @ dec v @ [10] else [63, 10]) c1, d', o')"
    using scan assms(6) u pd pl by (cases "rc = 0") (simp_all add: cmd_w_def con_puts_def str_simps)
  then show ?thesis using p g(2) by (simp add: con_puts_def c1_def cgets_def)
qed

lemma console_write_command_example:
  "\<exists>c1 c'. rfold cprocbyte ([119, 32] @ dec 14 @ [32, 61, 32] @ dec 7 @ [13]) ex_cons = Inr c1 \<and>
     processConsoleInput ex_henv (c1, ex_dev, 0) = Inr (c', ex_dev\<lparr>dv_R14 := 7\<rparr>, 0) \<and>
     co_out c' = co_out c1 @ [112] @ dec 14 @ [58] @ dec 7 @ [10]"
proof -
  let ?l = "[119, 32] @ dec 14 @ [32, 61, 32] @ dec 7"
  have d: "dec 14 = [49, 52]" "dec 7 = [55]" by (simp_all add: dec.simps)
  have "foldl edit [] ?l = ?l" by (simp add: d edit_def)
  moreover have "takeWhile (\<lambda>b. b \<noteq> 0) ?l = ?l" by (simp add: d)
  ultimately obtain c1 where c1: "rfold cprocbyte (?l @ [13]) ex_cons = Inr c1" "con_inv c1" "line_done c1" "cstring (co_cstr c1) = ?l"
    using line_typed [OF ex_cons_inv, of ?l] short_line [of ?l] by (auto simp: d)
  have "Parameters_write (of_nat 14) (of_nat 7) ex_dev = (0, ex_dev\<lparr>dv_R14 := 7\<rparr>)" by (simp add: Parameters_write_def param_write_def)
  from console_write_command [OF c1(2,3) _ _ c1(4) this, of ex_henv 0] show ?thesis using c1(1) by auto
qed

end
