(* ===== verification/ConsoleHex.thy ===== *)
theory ConsoleHex
  imports Console
begin

text \<open>
  The rest of the number output of the console (\<^verbatim>\<open>src/src/comm/putx.c\<close>): short decimal numbers, bytes in hexadecimal
  notation, and hexadecimal numbers without leading zeros; what is written can be read back.
\<close>

section \<open>Output functions\<close>

definition putw :: "u16 \<Rightarrow> cons \<Rightarrow> cons res" where
  "putw w c = rbind (put_digits (ucast w) 5 (replicate 6 0)) (\<lambda>(p, buf). Inr (con_puts (cstring (drop p buf)) c))"

definition hexb2asciiw :: "u8 \<Rightarrow> u16" where
  "hexb2asciiw b =
     (let wl = ucast (hexAsciiTable ! unat (b AND 0x0f)); wh = ucast (hexAsciiTable ! unat (drop_bit 4 b AND 0x0f))
      in push_bit 8 wl OR wh)"

definition putbx :: "u8 \<Rightarrow> cons \<Rightarrow> cons" where
  "putbx b c = con_puts [hexAsciiTable ! unat (b AND 0x0f)] (con_puts [hexAsciiTable ! unat (drop_bit 4 b AND 0x0f)] c)"

text \<open>One half of a byte in the loop of \<open>putdwx_zs\<close>; \<open>b1\<close> tells that a digit has been written.\<close>

definition zs_digit :: "u8 \<Rightarrow> u8 \<times> cons \<Rightarrow> u8 \<times> cons" where
  "zs_digit b0 s = (case s of (b1, c) \<Rightarrow> if b0 \<noteq> 0 \<or> b1 \<noteq> 0 then (0xff, con_puts [hexAsciiTable ! unat b0] c) else (b1, c))"

definition putdwx_zs :: "u32 \<Rightarrow> cons \<Rightarrow> cons" where
  "putdwx_zs w c =
     (let p = map (\<lambda>k. ucast (drop_bit k w) :: u8) [24, 16, 8, 0] in
      case fold (\<lambda>b s. zs_digit (b AND 0x0f) (zs_digit (drop_bit 4 b AND 0x0f) s)) p (0, c) of
        (b1, c) \<Rightarrow> if b1 = 0 then con_puts [48] c else c)"

section \<open>Reading back\<close>

lemma putw_law: "putw w c = Inr (con_puts (dec (unat w)) c)"
proof -
  have u: "unat (ucast w :: u32) = unat w" by (simp add: unsigned_ucast_eq take_bit_nat_eq_self_iff less_trans [OF unsigned_less])
  have "unat w < 10 ^ 5" using unat_lt_65536 [of w] by (rule less_trans) simp
  then have "length (dec (unat w)) \<le> 5" by (intro length_dec) auto
  then show ?thesis using put_digits_string [of "ucast w" 6] cstring_dec [of "unat w" "[]"] by (auto simp: putw_def u)
qed

lemma con_puts_append [simp]: "con_puts ys (con_puts xs c) = con_puts (xs @ ys) c"
  by (simp add: con_puts_def)

lemma con_puts_Nil [simp]: "con_puts [] c = c"
  by (simp add: con_puts_def)

definition hexdigit :: "nat \<Rightarrow> u8" where "hexdigit n = hexAsciiTable ! n"

lemma hexdigit_props:
  assumes "n < 16"
  shows "digit_value (hexdigit n) = n" "\<not> isspace (hexdigit n)" "hexdigit n \<noteq> 45" "hexdigit n \<noteq> 43" "hexdigit n \<noteq> 120" "hexdigit n \<noteq> 88"
proof -
  have "list_all (\<lambda>n. digit_value (hexdigit n) = n \<and> \<not> isspace (hexdigit n) \<and> hexdigit n \<notin> {45, 43, 120, 88}) [0..<16]" by code_simp
  then have "digit_value (hexdigit n) = n \<and> \<not> isspace (hexdigit n) \<and> hexdigit n \<notin> {45, 43, 120, 88}" using assms by (simp add: list_all_iff)
  then show "digit_value (hexdigit n) = n" "\<not> isspace (hexdigit n)" "hexdigit n \<noteq> 45" "hexdigit n \<noteq> 43" "hexdigit n \<noteq> 120" "hexdigit n \<noteq> 88"
    by simp_all
qed

text \<open>The value of a list of digits of base 16.\<close>

definition hexval :: "nat list \<Rightarrow> nat" where "hexval ns = foldl (\<lambda>v n. 16 * v + n) 0 ns"

lemma scan_hex:
  assumes "ns \<noteq> []" "\<And>n. n \<in> set ns \<Longrightarrow> n < 16" "hexval ns < 2 ^ 32"
  shows "scan_num 16 (map hexdigit ns) = Some (of_nat (hexval ns), [])"
proof -
  note hx = hexdigit_props [OF assms(2)]
  define xs where "xs = map hexdigit ns"
  have x: "digit_value b < 16 \<and> \<not> isspace b \<and> b \<noteq> 45 \<and> b \<noteq> 43 \<and> b \<noteq> 120 \<and> b \<noteq> 88" if "b \<in> set xs" for b
    using that hx assms(2) by (auto simp: xs_def)
  have ne: "xs \<noteq> []" using assms(1) by (simp add: xs_def)
  have dw: "dropWhile isspace xs = xs" using ne x by (cases xs) auto
  have h: "hd xs \<noteq> 45" "hd xs \<noteq> 43" using x [OF list.set_sel(1) [OF ne]] by simp_all
  have px: "scan_prefix 16 xs = xs" using x by (auto simp: scan_prefix_def split: list.splits)
  have tw: "takeWhile (\<lambda>b. digit_value b < 16) xs = xs" using x by (simp add: takeWhile_eq_all_conv)
  have "foldl (\<lambda>v b. 16 * v + digit_value b) a (map hexdigit ns) = foldl (\<lambda>v n. 16 * v + n) a ns" for a
    using hx(1) by (induction ns arbitrary: a) auto
  then have "number_value 16 xs = hexval ns" by (simp add: number_value_def hexval_def xs_def)
  then show ?thesis using ne assms(3) unfolding scan_num_def xs_def [symmetric] dw Let_def by (simp add: h px tw del: takeWhile_eq_all_conv)
qed

definition nibbles :: "u32 \<Rightarrow> nat list" where
  "nibbles w = map (\<lambda>k. unat w div 2 ^ k mod 16) [28, 24, 20, 16, 12, 8, 4, 0]"

lemma nibble_word: "unat (drop_bit k w AND 0x0f) = unat w div 2 ^ k mod 16" for w :: "'a::len word"
proof -
  have "drop_bit k w AND 0x0f = take_bit 4 (drop_bit k w)" by (simp add: take_bit_eq_mask mask_eq_exp_minus_1)
  then have "unat (drop_bit k w AND 0x0f) = take_bit 4 (drop_bit k (unat w))" by (simp only: unsigned_take_bit_eq unat_drop_bit_eq)
  then show ?thesis by (simp add: take_bit_eq_mod drop_bit_eq_div)
qed

lemma length_nibbles: "length (nibbles w) = 8"
  by (simp add: nibbles_def)

lemma nibbles_small: "n \<in> set (nibbles w) \<Longrightarrow> n < 16"
  by (auto simp: nibbles_def)

lemma hexval_nibbles: "hexval (nibbles w) = unat w"
proof -
  have step: "16 * (n div (16 * m)) + n div m mod 16 = n div m" for n m :: nat
    by (metis div_mult2_eq mult.commute mult_div_mod_eq)
  have "unat w < 2 ^ 32" using unsigned_less [of w, where 'a = nat] by simp
  then have top: "unat w div 268435456 mod 16 = unat w div 268435456" by simp
  show ?thesis unfolding hexval_def nibbles_def
    using step [of "unat w" 16777216] step [of "unat w" 1048576] step [of "unat w" 65536] step [of "unat w" 4096] step [of "unat w" 256]
      step [of "unat w" 16] step [of "unat w" 1] top by simp
qed

lemma putdwx_nibbles: "putdwx w c = con_puts (map hexdigit (nibbles w)) c"
proof -
  have d: "unat (drop_bit 16 w) div 2 ^ k = unat w div 2 ^ (k + 16)" for k
  proof -
    have "unat (drop_bit 16 w) div 2 ^ k = unat w div 2 ^ 16 div 2 ^ k" unfolding unat_drop_bit_eq by (simp add: drop_bit_eq_div)
    then show ?thesis by (simp add: div_mult2_eq power_add mult.commute [of "2 ^ k"])
  qed
  show ?thesis unfolding putdwx_def putwx_def nibble_word d hexdigit_def nibbles_def by simp
qed

lemma hexval_dropWhile: "hexval (dropWhile (\<lambda>n. n = 0) ns) = hexval ns"
  unfolding hexval_def by (induction ns) auto

lemma zs_digit_nibbles:
  assumes "b0 = of_nat n" "n < 16"
  shows "zs_digit b0 (b1, c) = (if n = 0 \<and> b1 = 0 then (b1, c) else (0xff, con_puts [hexdigit n] c))"
proof -
  have "unat b0 = n" using assms by (simp add: unat_of_nat)
  then show ?thesis using unat_eq_zero [of b0] by (auto simp: zs_digit_def hexdigit_def)
qed

text \<open>The loop skips the leading zeros.\<close>

lemma zs_fold:
  "(\<And>n. n \<in> set ns \<Longrightarrow> n < 16) \<Longrightarrow>
   fold (\<lambda>n. zs_digit (of_nat n)) ns (b1, c) =
     (let ds = (if b1 = 0 then dropWhile (\<lambda>n. n = 0) ns else ns) in (if ds = [] then b1 else 0xff, con_puts (map hexdigit ds) c))"
proof (induction ns arbitrary: b1 c)
  case (Cons n ns)
  have "fold (\<lambda>n. zs_digit (of_nat n)) ns s = (let ds = (if fst s = 0 then dropWhile (\<lambda>n. n = 0) ns else ns) in (if ds = [] then fst s else 0xff, con_puts (map hexdigit ds) (snd s)))" for s
    using Cons.IH [of "fst s" "snd s"] Cons.prems by simp
  then show ?case using Cons.prems by (auto simp: zs_digit_nibbles Let_def)
qed simp

lemma fold_nibbles:
  "fold (\<lambda>b s. zs_digit (b AND 0x0f) (zs_digit (drop_bit 4 b AND 0x0f) s)) (map (\<lambda>k. ucast (drop_bit k w) :: u8) [24, 16, 8, 0]) s =
   fold (\<lambda>n. zs_digit (of_nat n)) (nibbles w) s"
proof -
  have u: "unat (ucast (drop_bit k w) :: u8) = unat w div 2 ^ k mod 256" for k
    unfolding unsigned_ucast_eq unat_drop_bit_eq by (simp add: drop_bit_eq_div take_bit_eq_mod)
  have lo: "(ucast (drop_bit k w) :: u8) AND 0x0f = of_nat (unat w div 2 ^ k mod 16)" for k
  proof -
    have "unat (drop_bit 0 (ucast (drop_bit k w) :: u8) AND 0x0f) = unat w div 2 ^ k mod 16"
      unfolding nibble_word u by (simp add: mod_mod_cancel)
    then have "of_nat (unat (drop_bit 0 (ucast (drop_bit k w) :: u8) AND 0x0f)) = (of_nat (unat w div 2 ^ k mod 16) :: u8)" by (rule arg_cong)
    then show ?thesis by simp
  qed
  have hi: "drop_bit 4 (ucast (drop_bit k w) :: u8) AND 0x0f = of_nat (unat w div 2 ^ (k + 4) mod 16)" for k
  proof -
    have m: "x mod 256 div 16 mod 16 = x div 16 mod 16" for x :: nat using mod_mult2_eq [of x 16 16] by simp
    have "unat (drop_bit 4 (ucast (drop_bit k w) :: u8) AND 0x0f) = unat w div 2 ^ k mod 256 div 16 mod 16"
      unfolding nibble_word u by simp
    also have "\<dots> = unat w div 2 ^ (k + 4) mod 16" unfolding m by (simp add: div_mult2_eq power_add)
    finally have "of_nat (unat (drop_bit 4 (ucast (drop_bit k w) :: u8) AND 0x0f)) = (of_nat (unat w div 2 ^ (k + 4) mod 16) :: u8)" by (rule arg_cong)
    then show ?thesis by simp
  qed
  show ?thesis unfolding nibbles_def list.map fold.simps o_apply lo hi by simp
qed

lemma putdwx_zs_nibbles:
  "putdwx_zs w c = con_puts (if w = 0 then [48] else map hexdigit (dropWhile (\<lambda>n. n = 0) (nibbles w))) c"
proof -
  define ds where "ds = dropWhile (\<lambda>n. n = 0) (nibbles w)"
  have v: "hexval ds = unat w" by (simp add: hexval_dropWhile hexval_nibbles ds_def)
  have "w = 0" if "ds = []" using v unfolding that by (simp add: hexval_def unat_eq_zero)
  moreover have "w = 0 \<Longrightarrow> ds = []" by (simp add: nibbles_def ds_def)
  ultimately have e: "ds = [] \<longleftrightarrow> w = 0" by blast
  have "fold (\<lambda>n. zs_digit (of_nat n)) (nibbles w) (0, c) = (if ds = [] then 0 else 0xff, con_puts (map hexdigit ds) c)"
    unfolding ds_def using zs_fold [of "nibbles w" 0 c] nibbles_small by (simp add: Let_def)
  then show ?thesis unfolding putdwx_zs_def Let_def fold_nibbles ds_def [symmetric] using e by auto
qed

text \<open>
  A number that the console writes in hexadecimal notation, with or without leading zeros, is read back by
  the commands as the same number.
\<close>

lemma hex_output_roundtrip:
  "\<exists>s z. putdwx w c = con_puts s c \<and> length s = 8 \<and> scan_num 16 s = Some (w, []) \<and>
         putdwx_zs w c = con_puts z c \<and> scan_num 16 z = Some (w, [])"
proof -
  have lt: "unat w < 2 ^ 32" using unsigned_less [of w, where 'a = nat] by simp
  have 1: "scan_num 16 (map hexdigit (nibbles w)) = Some (w, [])"
    using scan_hex [of "nibbles w"] nibbles_small [of _ w] hexval_nibbles [of w] length_nibbles [of w] lt by (cases "nibbles w") simp_all
  show ?thesis
  proof (cases "w = 0")
    case True
    have "scan_num 16 [48] = Some (0, [])" using scan_hex [of "[0]"] by (simp add: hexdigit_def hexAsciiTable_def str_def hexval_def)
    then show ?thesis using 1 True
      by (intro exI [of _ "map hexdigit (nibbles w)"] exI [of _ "[48]"]) (simp add: putdwx_nibbles putdwx_zs_nibbles length_nibbles)
  next
    case False
    let ?ds = "dropWhile (\<lambda>n. n = 0) (nibbles w)"
    have v: "hexval ?ds = unat w" by (simp add: hexval_dropWhile hexval_nibbles)
    have "?ds \<noteq> []" using v False by (metis foldl_Nil hexval_def unat_eq_zero)
    moreover have "n < 16" if "n \<in> set ?ds" for n using that nibbles_small set_dropWhileD by fast
    ultimately have "scan_num 16 (map hexdigit ?ds) = Some (w, [])" using scan_hex [of ?ds] v lt by simp
    then show ?thesis using 1 False
      by (intro exI [of _ "map hexdigit (nibbles w)"] exI [of _ "map hexdigit ?ds"]) (simp add: putdwx_nibbles putdwx_zs_nibbles length_nibbles)
  qed
qed

end
