(* ===== verification/MovAvg.thy ===== *)
theory MovAvg
  imports Ring "HOL-Library.Signed_Division"
begin

text \<open>
  The moving average filter \<open>TMovAvgFilter\<close> (\<^verbatim>\<open>src/inc/comm/tmavrgfilt.h\<close>). The element type of the template is
  given by its conversion \<open>T\<close> from \<open>long\<close>; \<open>long\<close> has 32 bits.
\<close>

section \<open>The filter\<close>

record mafilter =
  fsize :: u16
  findex :: u16
  fn :: u16
  fdata :: "int list"
  fsum :: int

definition to_long :: "int \<Rightarrow> int" where "to_long = signed_take_bit 31"

definition maf_reset :: "mafilter \<Rightarrow> mafilter res" where
  "maf_reset f =
     (if unat (fsize f) \<le> length (fdata f)
      then Inr (f\<lparr>fdata := replicate (unat (fsize f)) 0 @ drop (unat (fsize f)) (fdata f), findex := fsize f - 1, fsum := 0, fn := 0\<rparr>)
      else Inl OutOfBounds)"

definition maf_new :: "u16 \<Rightarrow> int list \<Rightarrow> mafilter res" where
  "maf_new sz buffer = maf_reset \<lparr>fsize = sz, findex = 0, fn = 0, fdata = buffer, fsum = 0\<rparr>"

definition maf_setSize :: "u16 \<Rightarrow> mafilter \<Rightarrow> mafilter res" where
  "maf_setSize sz f = maf_reset (f\<lparr>fsize := sz\<rparr>)"

definition maf_getSize :: "mafilter \<Rightarrow> u16" where "maf_getSize f = fsize f"

definition maf_process :: "(int \<Rightarrow> int) \<Rightarrow> int \<Rightarrow> mafilter \<Rightarrow> (int \<times> mafilter) res" where
  "maf_process T v f =
     rbind (load (fdata f) (unat (findex f))) (\<lambda>old.
     let s = to_long (fsum f - old);
         s = to_long (s + v);
         i = findex f + 1;
         i = (if i \<ge> fsize f then 0 else i);
         n = (if fn f < fsize f then fn f + 1 else fn f);
         f = f\<lparr>fsum := s, fdata := (fdata f)[unat (findex f) := v], findex := i, fn := n\<rparr>
     in if n = 0 then Inl DivByZero else Inr (T (s sdiv uint n), f))"

fun maf_run :: "(int \<Rightarrow> int) \<Rightarrow> int list \<Rightarrow> mafilter \<Rightarrow> (int list \<times> mafilter) res" where
  "maf_run T [] f = Inr ([], f)"
| "maf_run T (v # vs) f =
     rbind (maf_process T v f) (\<lambda>(y, f). rbind (maf_run T vs f) (\<lambda>(ys, f). Inr (y # ys, f)))"

section \<open>The average of the last values\<close>

text \<open>The average of the last \<open>k\<close> values, or of all of them as long as there are fewer.\<close>

definition average :: "nat \<Rightarrow> int list \<Rightarrow> int" where
  "average k xs = sum_list (drop (length xs - k) xs) sdiv int (min (length xs) k)"

text \<open>The state after the values \<open>xs\<close> since the reset: the array holds the last ones, before them zeros.\<close>

definition maf_inv :: "nat \<Rightarrow> int list \<Rightarrow> mafilter \<Rightarrow> bool" where
  "maf_inv k xs f \<longleftrightarrow> 0 < k \<and> unat (fsize f) = k \<and> k \<le> length (fdata f) \<and> unat (findex f) < k \<and> unat (fn f) = min (length xs) k \<and>
     ring (take k (fdata f)) (unat (findex f)) k = drop (length xs) (replicate k 0 @ xs) \<and> fsum f = sum_list (drop (length xs - k) xs)"

lemma ring_replace:
  assumes "r < length buf"
  shows "ring (buf[r := v]) ((r + 1) mod length buf) (length buf) = tl (ring buf r (length buf)) @ [v]"
proof -
  have l: "0 < length buf" using assms by linarith
  have "((r + 1) mod length buf + (length buf - 1)) mod length buf = (r + 1 + (length buf - 1)) mod length buf" by (rule mod_add_left_eq)
  also have "\<dots> = r" using assms l by simp
  finally show ?thesis using ring_snoc [of "length buf - 1" buf "(r + 1) mod length buf" v] l by (simp add: ring_tl)
qed

lemma sum_list_window: "sum_list (drop (length xs) (replicate k 0 @ xs)) = sum_list (drop (length xs - k) xs)" for xs :: "int list"
  by (cases "length xs \<le> k") (simp_all add: sum_list_replicate)

lemma to_long_id: "\<bar>x\<bar> < 2 ^ 31 \<Longrightarrow> to_long x = x"
  unfolding to_long_def by (rule signed_take_bit_int_eq_self) (auto simp: abs_less_iff)

lemma abs_sum_list: "(\<And>x. x \<in> set xs \<Longrightarrow> \<bar>x\<bar> \<le> B) \<Longrightarrow> \<bar>sum_list xs\<bar> \<le> int (length xs) * B" for xs :: "int list"
proof (induction xs)
  case (Cons x xs)
  have "\<bar>x\<bar> \<le> B" "\<bar>sum_list xs\<bar> \<le> int (length xs) * B" using Cons by auto
  then show ?case using abs_triangle_ineq [of x "sum_list xs"] by (simp add: algebra_simps)
qed simp

lemma maf_process_inv:
  assumes inv: "maf_inv k xs f" and b: "\<And>x. x \<in> set (xs @ [v]) \<Longrightarrow> \<bar>x\<bar> \<le> B" and B: "int k * B < 2 ^ 31"
  obtains f' where "maf_process T v f = Inr (T (average k (xs @ [v])), f')" "maf_inv k (xs @ [v]) f'"
proof -
  have k: "0 < k" "unat (fsize f) = k" "k \<le> length (fdata f)" "unat (findex f) < k" "unat (fn f) = min (length xs) k"
    and r: "ring (take k (fdata f)) (unat (findex f)) k = drop (length xs) (replicate k 0 @ xs)"
    and s: "fsum f = sum_list (drop (length xs - k) xs)" using inv by (auto simp: maf_inv_def)
  have k16: "k < 65536" using k(2) unsigned_less [of "fsize f", where 'a = nat] by simp
  define i where "i = unat (findex f)"
  define W where "W = drop (length xs) (replicate k 0 @ xs)"
  have lW: "length W = k" by (simp add: W_def)
  have old: "fdata f ! i = hd W" using ring_hd [of k i "take k (fdata f)"] k r by (simp add: i_def W_def)
  have W: "W = hd W # tl W" using lW k(1) by (cases W) auto
  have tlW: "tl W @ [v] = drop (length (xs @ [v])) (replicate k 0 @ xs @ [v])"
  proof -
    have s: "drop (Suc n) zs = tl (drop n zs)" for n and zs :: "int list" by (simp add: drop_Suc tl_drop)
    have "drop (length xs) ((replicate k 0 @ xs) @ [v]) = W @ [v]" by (simp add: W_def)
    then have "drop (length (xs @ [v])) (replicate k 0 @ xs @ [v]) = tl (W @ [v])"
      using s [of "length xs" "replicate k 0 @ xs @ [v]"] by (simp del: drop_append)
    then show ?thesis using lW k(1) by (cases W) auto
  qed
  have sW: "fsum f = sum_list W" using s sum_list_window [of xs k] by (simp add: W_def)
  have bW: "\<bar>x\<bar> \<le> B" if "x \<in> set (tl W @ [v])" for x
  proof -
    have "set (tl W) \<subseteq> set W" by (cases W) auto
    also have "set W \<subseteq> set (replicate k 0 @ xs)" unfolding W_def by (rule set_drop_subset)
    finally have "x \<in> set (xs @ [v]) \<or> x = 0" using that by (auto split: if_splits)
    moreover have "0 \<le> B" using b [of v] by simp
    ultimately show ?thesis using b by auto
  qed
  have l: "length (tl W @ [v]) = k" using lW k(1) by simp
  have "\<bar>sum_list (tl W @ [v])\<bar> \<le> int (length (tl W @ [v])) * B" by (rule abs_sum_list) (rule bW)
  then have "\<bar>sum_list (tl W @ [v])\<bar> < 2 ^ 31" using B unfolding l by simp
  moreover have "\<bar>sum_list (tl W)\<bar> < 2 ^ 31"
  proof -
    have "0 \<le> B" using b [of v] by simp
    then have "int (k - 1) * B \<le> int k * B" by (intro mult_right_mono) auto
    moreover have "\<bar>sum_list (tl W)\<bar> \<le> int (length (tl W)) * B" by (rule abs_sum_list) (use bW in auto)
    ultimately show ?thesis using B lW by simp
  qed
  ultimately have sums: "to_long (fsum f - hd W) = sum_list (tl W)" "to_long (sum_list (tl W) + v) = sum_list (tl W @ [v])"
    using sW W by (metis add_diff_cancel_left' sum_list.Cons to_long_id, simp add: to_long_id)
  have sw: "sum_list (tl W @ [v]) = sum_list (drop (length (xs @ [v]) - k) (xs @ [v]))"
    unfolding tlW using sum_list_window [of "xs @ [v]" k] by simp
  define i' where "i' = (if findex f + 1 \<ge> fsize f then 0 else findex f + 1)"
  have "unat (findex f + 1) = i + 1" using k(4) k16 by (simp add: i_def unat_word_ariths(1))
  then have i': "unat i' = (i + 1) mod k" using k(1,2,4) by (auto simp: i'_def i_def word_le_nat_alt mod_Suc)
  define n' where "n' = (if fn f < fsize f then fn f + 1 else fn f)"
  have n': "unat n' = min (length (xs @ [v])) k"
    using k(2,5) k16 by (auto simp: n'_def word_less_nat_alt unat_word_ariths(1))
  define f' where "f' = f\<lparr>fsum := sum_list (tl W @ [v]), fdata := (fdata f)[i := v], findex := i', fn := n'\<rparr>"
  have "n' \<noteq> 0" using n' k(1) by (metis length_append_singleton min_less_iff_conj unat_0 zero_less_Suc less_irrefl)
  moreover have "uint n' = int (min (length (xs @ [v])) k)" using n' by (metis uint_nat)
  ultimately have "maf_process T v f = Inr (T (average k (xs @ [v])), f')"
    using k(3,4) old sums sw
    by (simp add: maf_process_def load_def Let_def average_def f'_def i'_def n'_def i_def del: sum_list_append)
  moreover have "maf_inv k (xs @ [v]) f'"
  proof -
    have "ring (take k ((fdata f)[i := v])) ((i + 1) mod k) k = tl (ring (take k (fdata f)) i k) @ [v]"
      using ring_replace [of i "take k (fdata f)" v] k(3,4) by (simp add: take_update_swap i_def min_absorb2)
    then show ?thesis using k i' n' r tlW sw by (simp add: maf_inv_def f'_def i_def W_def del: sum_list_append length_append)
  qed
  ultimately show thesis by (rule that)
qed

lemma maf_run_inv:
  assumes B: "int k * B < 2 ^ 31"
  shows "maf_inv k xs f \<Longrightarrow> (\<And>x. x \<in> set (xs @ vs) \<Longrightarrow> \<bar>x\<bar> \<le> B) \<Longrightarrow>
    \<exists>f'. maf_run T vs f = Inr (map (\<lambda>j. T (average k (xs @ take (Suc j) vs))) [0..<length vs], f') \<and> maf_inv k (xs @ vs) f'"
proof (induction vs arbitrary: xs f)
  case (Cons v vs)
  obtain f1 where f1: "maf_process T v f = Inr (T (average k (xs @ [v])), f1)" "maf_inv k (xs @ [v]) f1"
    by (rule maf_process_inv [OF Cons.prems(1) _ B, of v T]) (use Cons.prems(2) in auto)
  obtain f' where f': "maf_run T vs f1 = Inr (map (\<lambda>j. T (average k ((xs @ [v]) @ take (Suc j) vs))) [0..<length vs], f')" "maf_inv k ((xs @ [v]) @ vs) f'"
    using Cons.IH [OF f1(2)] Cons.prems(2) by auto
  have "map (\<lambda>j. T (average k (xs @ take (Suc j) (v # vs)))) [0..<length (v # vs)] =
      T (average k (xs @ [v])) # map (\<lambda>j. T (average k ((xs @ [v]) @ take (Suc j) vs))) [0..<length vs]"
    by (simp add: upt_conv_Cons map_Suc_upt [symmetric] del: upt_Suc)
  then show ?case using f1(1) f' by simp
qed simp

text \<open>
  The filter, which keeps only a running sum, gives for every value the average of the last \<open>k\<close> values (of
  all values as long as there are fewer than \<open>k\<close>), rounded towards zero, if \<open>k\<close> values cannot overflow the sum.
\<close>

lemma filter_is_moving_average:
  assumes "sz \<noteq> 0" "unat sz \<le> length buffer" "\<forall>x\<in>set xs. \<bar>x\<bar> \<le> B" "int (unat sz) * B < 2 ^ 31"
  shows "\<exists>f f'. maf_new sz buffer = Inr f \<and>
    maf_run T xs f = Inr (map (\<lambda>j. T (average (unat sz) (take (Suc j) xs))) [0..<length xs], f')"
proof -
  define k where "k = unat sz"
  have k: "0 < k" "k < 65536" using assms(1) unsigned_less [of sz, where 'a = nat] by (simp_all add: k_def unat_gt_0)
  define f where "f = \<lparr>fsize = sz, findex = sz - 1, fn = 0, fdata = replicate k 0 @ drop k buffer, fsum = 0\<rparr>"
  have n: "maf_new sz buffer = Inr f" using assms(2) by (simp add: maf_new_def maf_reset_def f_def k_def)
  have "unat (sz - 1) = k - 1" using assms(1) by (simp add: k_def unat_minus_one)
  moreover have "ring (replicate k 0) (k - 1) k = replicate k (0 :: int)"
    by (rule nth_equalityI) (use k in auto)
  ultimately have "maf_inv k [] f" using k assms(2) by (simp add: maf_inv_def f_def k_def [symmetric])
  from maf_run_inv [OF _ this, of B xs T] show ?thesis using n assms(3,4) by (auto simp: k_def)
qed

lemma filter_is_moving_average_example:
  "\<exists>f f'. maf_new 3 [7, 7, 7, 7] = Inr f \<and> maf_run id [3, 5, - 20, 5] f = Inr ([3, 4, - 4, - 3], f')"
  using filter_is_moving_average [of 3 "[7, 7, 7, 7]" "[3, 5, - 20, 5]" 100 id]
  by (simp add: average_def upt_rec)

end
