(* ===== verification/Timers.thy ===== *)
theory Timers
  imports Prelude "HOL-Library.Multiset"
begin

text \<open>
  The timers of the network stack (\<^verbatim>\<open>src/lwip/src/core/timers.c\<close>) as they are compiled: without an operating system,
  with the timer of the reassembly and that of the ARP table. The list keeps for each timer the time after
  its predecessor. What the timers call is a parameter, as is the allocator, on whose state it works as well; the clock is an argument.
\<close>

section \<open>The list of timeouts\<close>

datatype handler = Ip_reass_timer | Arp_timer

record sys_timeo =
  time :: u32
  hdl :: "handler option"

record ('m, 'w) timers =
  next_timeout :: "sys_timeo list"
  timeouts_last_time :: u32
  tm_mem :: 'm
  tm_world :: 'w

record ('m, 'w) timenv =
  memp_malloc :: "'m \<Rightarrow> 'm option"
  memp_free :: "'m \<Rightarrow> 'm"
  ip_reass_tmr :: "'m \<times> 'w \<Rightarrow> 'm \<times> 'w"
  etharp_tmr :: "'m \<times> 'w \<Rightarrow> 'm \<times> 'w"

text \<open>The search for the place of the new timeout; \<open>m\<close> is its field \<open>time\<close>.\<close>

fun timeout_loop :: "u32 \<Rightarrow> handler option \<Rightarrow> sys_timeo list \<Rightarrow> sys_timeo list" where
  "timeout_loop m x [] = []"
| "timeout_loop m x (t # ts) =
     (let m = m - time t in
      case ts of
        [] \<Rightarrow> [t, \<lparr>time = m, hdl = x\<rparr>]
      | n # ns \<Rightarrow> if time n > m then t # \<lparr>time = m, hdl = x\<rparr> # n\<lparr>time := time n - m\<rparr> # ns
                  else t # timeout_loop m x ts)"

definition timeout_insert :: "u32 \<Rightarrow> handler option \<Rightarrow> sys_timeo list \<Rightarrow> sys_timeo list" where
  "timeout_insert msecs x ts =
     (case ts of
        [] \<Rightarrow> [\<lparr>time = msecs, hdl = x\<rparr>]
      | t # ts' \<Rightarrow> if time t > msecs then \<lparr>time = msecs, hdl = x\<rparr> # t\<lparr>time := time t - msecs\<rparr> # ts'
                   else timeout_loop msecs x ts)"

text \<open>Without memory the assertion stops the program: the result is \<open>None\<close>.\<close>

definition sys_timeout :: "('m, 'w) timenv \<Rightarrow> u32 \<Rightarrow> handler option \<Rightarrow> ('m, 'w) timers \<Rightarrow> ('m, 'w) timers option" where
  "sys_timeout E msecs x s =
     (case memp_malloc E (tm_mem s) of
        None \<Rightarrow> None
      | Some m \<Rightarrow> Some (s\<lparr>tm_mem := m, next_timeout := timeout_insert msecs x (next_timeout s)\<rparr>))"

fun untimeout_loop :: "handler option \<Rightarrow> sys_timeo list \<Rightarrow> sys_timeo list option" where
  "untimeout_loop x [] = None"
| "untimeout_loop x (t # ts) =
     (if hdl t = x
      then Some (case ts of [] \<Rightarrow> [] | n # ns \<Rightarrow> n\<lparr>time := time n + time t\<rparr> # ns)
      else map_option (\<lambda>ts. t # ts) (untimeout_loop x ts))"

definition sys_untimeout :: "('m, 'w) timenv \<Rightarrow> handler option \<Rightarrow> ('m, 'w) timers \<Rightarrow> ('m, 'w) timers" where
  "sys_untimeout E x s =
     (case untimeout_loop x (next_timeout s) of
        None \<Rightarrow> s
      | Some ts \<Rightarrow> s\<lparr>next_timeout := ts, tm_mem := memp_free E (tm_mem s)\<rparr>)"

section \<open>The handlers\<close>

definition IP_TMR_INTERVAL :: u32 where "IP_TMR_INTERVAL = 1000"
definition ARP_TMR_INTERVAL :: u32 where "ARP_TMR_INTERVAL = 5000"

definition tmr_call :: "('m \<times> 'w \<Rightarrow> 'm \<times> 'w) \<Rightarrow> ('m, 'w) timers \<Rightarrow> ('m, 'w) timers" where
  "tmr_call f s = (case f (tm_mem s, tm_world s) of (m, w) \<Rightarrow> s\<lparr>tm_mem := m, tm_world := w\<rparr>)"

definition ip_reass_timer :: "('m, 'w) timenv \<Rightarrow> ('m, 'w) timers \<Rightarrow> ('m, 'w) timers option" where
  "ip_reass_timer E s = sys_timeout E IP_TMR_INTERVAL (Some Ip_reass_timer) (tmr_call (ip_reass_tmr E) s)"

definition arp_timer :: "('m, 'w) timenv \<Rightarrow> ('m, 'w) timers \<Rightarrow> ('m, 'w) timers option" where
  "arp_timer E s = sys_timeout E ARP_TMR_INTERVAL (Some Arp_timer) (tmr_call (etharp_tmr E) s)"

definition call_handler :: "('m, 'w) timenv \<Rightarrow> handler \<Rightarrow> ('m, 'w) timers \<Rightarrow> ('m, 'w) timers option" where
  "call_handler E x s = (case x of Ip_reass_timer \<Rightarrow> ip_reass_timer E s | Arp_timer \<Rightarrow> arp_timer E s)"

definition sys_timeouts_init :: "('m, 'w) timenv \<Rightarrow> u32 \<Rightarrow> ('m, 'w) timers \<Rightarrow> ('m, 'w) timers option" where
  "sys_timeouts_init E now s =
     Option.bind (sys_timeout E IP_TMR_INTERVAL (Some Ip_reass_timer) s) (\<lambda>s.
     Option.bind (sys_timeout E ARP_TMR_INTERVAL (Some Arp_timer) s) (\<lambda>s.
     Some (s\<lparr>timeouts_last_time := now\<rparr>)))"

partial_function (option) check_loop :: "('m, 'w) timenv \<Rightarrow> u32 \<Rightarrow> u32 \<Rightarrow> ('m, 'w) timers \<Rightarrow> ('m, 'w) timers option" where
  "check_loop E now diff s =
     (case next_timeout s of
        [] \<Rightarrow> Some s
      | t # ts \<Rightarrow>
          if time t \<le> diff
          then let s = s\<lparr>timeouts_last_time := now, next_timeout := ts, tm_mem := memp_free E (tm_mem s)\<rparr>
               in (case (case hdl t of None \<Rightarrow> Some s | Some x \<Rightarrow> call_handler E x s) of
                     None \<Rightarrow> None
                   | Some s \<Rightarrow> check_loop E now (diff - time t) s)
          else Some s)"

definition sys_check_timeouts :: "('m, 'w) timenv \<Rightarrow> u32 \<Rightarrow> ('m, 'w) timers \<Rightarrow> ('m, 'w) timers option" where
  "sys_check_timeouts E now s =
     (if next_timeout s \<noteq> [] then check_loop E now (now - timeouts_last_time s) s else Some s)"

definition sys_restart_timeouts :: "u32 \<Rightarrow> ('m, 'w) timers \<Rightarrow> ('m, 'w) timers" where
  "sys_restart_timeouts now s = s\<lparr>timeouts_last_time := now\<rparr>"

section \<open>Deadlines\<close>

text \<open>
  The abstract view: each timer with its deadline, in milliseconds after the time of reference.
\<close>

fun deadlines :: "nat \<Rightarrow> sys_timeo list \<Rightarrow> (nat \<times> handler option) list" where
  "deadlines b [] = []"
| "deadlines b (t # ts) = (b + unat (time t), hdl t) # deadlines (b + unat (time t)) ts"

text \<open>Insertion behind the timers that are due earlier or at the same time.\<close>

fun insert_deadline :: "nat \<Rightarrow> handler option \<Rightarrow> (nat \<times> handler option) list \<Rightarrow> (nat \<times> handler option) list" where
  "insert_deadline d x [] = [(d, x)]"
| "insert_deadline d x (e # es) = (if d < fst e then (d, x) # e # es else e # insert_deadline d x es)"

fun remove_deadline :: "handler option \<Rightarrow> (nat \<times> handler option) list \<Rightarrow> (nat \<times> handler option) list" where
  "remove_deadline x [] = []"
| "remove_deadline x (e # es) = (if snd e = x then es else e # remove_deadline x es)"

lemma deadlines_shift: "deadlines b ts = map (\<lambda>(d, x). (b + d, x)) (deadlines 0 ts)"
proof (induction ts arbitrary: b)
  case (Cons t ts)
  show ?case using Cons.IH [of "b + unat (time t)"] Cons.IH [of "unat (time t)"] by (auto simp: ac_simps)
qed simp

lemma deadlines_ge: "(d, x) \<in> set (deadlines b ts) \<Longrightarrow> b \<le> d"
  by (induction ts arbitrary: b) force+

lemma deadlines_sorted: "sorted (map fst (deadlines b ts))"
  by (induction ts arbitrary: b) (use deadlines_ge in force)+

lemma timeout_loop_deadlines:
  "ts \<noteq> [] \<Longrightarrow> time (hd ts) \<le> m \<Longrightarrow> deadlines b (timeout_loop m x ts) = insert_deadline (b + unat m) x (deadlines b ts)"
proof (induction ts arbitrary: m b)
  case (Cons t ts)
  have t: "time t \<le> m" "unat (time t) \<le> unat m" using Cons.prems by (simp_all add: word_le_nat_alt)
  have s: "unat (m - time t) = unat m - unat (time t)" using t(1) by (simp add: unat_sub)
  show ?case
  proof (cases ts)
    case Nil
    then show ?thesis using t(2) s by (simp add: Let_def)
  next
    case [simp]: (Cons n ns)
    show ?thesis
    proof (cases "m - time t < time n")
      case True
      then have "unat m - unat (time t) < unat (time n)" "unat (time n - (m - time t)) = unat (time n) - (unat m - unat (time t))"
        using s unat_sub [OF less_imp_le [OF True]] by (simp_all add: word_less_nat_alt)
      moreover from this(1) have "unat m < unat (time n) + unat (time t)" using t(2) by linarith
      ultimately show ?thesis using True t(2) s by (simp add: Let_def ac_simps)
    next
      case False
      have "deadlines (b + unat (time t)) (timeout_loop (m - time t) x ts) = insert_deadline (b + unat (time t) + unat (m - time t)) x (deadlines (b + unat (time t)) ts)"
        by (rule Cons.IH) (use False in \<open>simp_all add: not_less\<close>)
      moreover have "\<not> b + unat m < b + (unat (time n) + unat (time t))" using False s t(2) by (simp add: word_less_nat_alt)
      ultimately show ?thesis using False t(2) s by (simp add: Let_def ac_simps)
    qed
  qed
qed simp

text \<open>The insertion into the list of differences is the insertion by deadline; no subtraction wraps around.\<close>

lemma timeout_insert_deadlines: "deadlines 0 (timeout_insert msecs x ts) = insert_deadline (unat msecs) x (deadlines 0 ts)"
proof (cases ts)
  case Nil
  then show ?thesis by (simp add: timeout_insert_def)
next
  case (Cons t ts')
  show ?thesis
  proof (cases "msecs < time t")
    case True
    then have "unat msecs < unat (time t)" "unat (time t - msecs) = unat (time t) - unat msecs"
      using unat_sub [OF less_imp_le [OF True]] by (simp_all add: word_less_nat_alt)
    then show ?thesis using True Cons by (simp add: timeout_insert_def)
  next
    case False
    then have "timeout_insert msecs x ts = timeout_loop msecs x ts" using Cons by (simp add: timeout_insert_def)
    then show ?thesis using timeout_loop_deadlines [of ts msecs 0 x] Cons False by (simp add: not_less del: timeout_loop.simps)
  qed
qed

text \<open>The last deadline fits in a word: this holds of every list built by the operations.\<close>

definition bounded :: "sys_timeo list \<Rightarrow> bool" where
  "bounded ts \<longleftrightarrow> (\<forall>(d, x) \<in> set (deadlines 0 ts). d < 2 ^ 32)"

lemma set_insert_deadline: "set (insert_deadline d x es) = insert (d, x) (set es)"
  by (induction es) auto

lemma bounded_insert: "bounded ts \<Longrightarrow> bounded (timeout_insert msecs x ts)"
  using unsigned_less [of msecs, where 'a = nat] by (auto simp: bounded_def timeout_insert_deadlines set_insert_deadline)

lemma untimeout_loop_deadlines:
  assumes "\<forall>(d, y) \<in> set (deadlines b ts). d < 2 ^ 32"
  shows "untimeout_loop x ts = None \<Longrightarrow> remove_deadline x (deadlines b ts) = deadlines b ts"
    "untimeout_loop x ts = Some ts' \<Longrightarrow> deadlines b ts' = remove_deadline x (deadlines b ts)"
proof -
  show "untimeout_loop x ts = None \<Longrightarrow> remove_deadline x (deadlines b ts) = deadlines b ts"
    by (induction ts arbitrary: b) (auto split: if_splits)
  show "untimeout_loop x ts = Some ts' \<Longrightarrow> deadlines b ts' = remove_deadline x (deadlines b ts)" using assms
  proof (induction ts arbitrary: b ts')
    case (Cons t ts)
    show ?case
    proof (cases "hdl t = x")
      case True
      show ?thesis
      proof (cases ts)
        case (Cons n ns)
        then have "unat (time n + time t) = unat (time n) + unat (time t)"
          using Cons.prems(2) by (simp add: unat_word_ariths(1))
        then show ?thesis using True Cons Cons.prems(1) by (auto simp: ac_simps)
      qed (use True Cons.prems(1) in auto)
    next
      case False
      then show ?thesis using Cons by auto
    qed
  qed simp
qed

section \<open>The cyclic timers\<close>

fun tmr :: "('m, 'w) timenv \<Rightarrow> handler \<Rightarrow> 'm \<times> 'w \<Rightarrow> 'm \<times> 'w" where
  "tmr E Ip_reass_timer w = ip_reass_tmr E w"
| "tmr E Arp_timer w = etharp_tmr E w"

text \<open>How often a timer with the deadline \<open>d\<close> and the interval \<open>iv\<close> is due within \<open>D\<close> milliseconds.\<close>

definition fires :: "nat \<Rightarrow> nat \<Rightarrow> nat \<Rightarrow> nat" where
  "fires d iv D = (if d \<le> D then Suc ((D - d) div iv) else 0)"

lemma fires_shift: "m \<le> d \<Longrightarrow> m \<le> D \<Longrightarrow> fires (d - m) iv (D - m) = fires d iv D"
  by (auto simp: fires_def)

lemma fires_self:
  assumes "0 < iv" "m \<le> D"
  shows "fires m iv D = Suc (fires iv iv (D - m))"
  using assms by (auto simp: fires_def le_div_geq div_less)

text \<open>The timer of the reassembly is due after \<open>a\<close> milliseconds and that of the ARP table after \<open>b\<close>.\<close>

definition live :: "sys_timeo list \<Rightarrow> nat \<Rightarrow> nat \<Rightarrow> bool" where
  "live ts a b \<longleftrightarrow> mset (deadlines 0 ts) = {#(a, Some Ip_reass_timer), (b, Some Arp_timer)#}"

lemma mset_insert_deadline: "mset (insert_deadline d x es) = add_mset (d, x) (mset es)"
  by (induction es) auto

lemma live_Cons:
  assumes "live (t # ts) a b"
  obtains "a = unat (time t)" "hdl t = Some Ip_reass_timer" "a \<le> b" "mset (deadlines 0 ts) = {#(b - a, Some Arp_timer)#}"
    | "b = unat (time t)" "hdl t = Some Arp_timer" "b \<le> a" "mset (deadlines 0 ts) = {#(a - b, Some Ip_reass_timer)#}"
proof -
  let ?m = "unat (time t)"
  have all: "add_mset (?m, hdl t) (mset (deadlines ?m ts)) = {#(a, Some Ip_reass_timer), (b, Some Arp_timer)#}"
    using assms by (simp add: live_def)
  have shift: "mset (deadlines 0 ts) = {#(d - ?m, x)#} \<and> ?m \<le> d" if "mset (deadlines ?m ts) = {#(d, x)#}" for d x
  proof -
    have "map (\<lambda>(d, x). (?m + d, x)) (deadlines 0 ts) = [(d, x)]"
      using that unfolding deadlines_shift [of ?m ts] mset_single_iff .
    then obtain e where e: "deadlines 0 ts = [e]" "(?m + fst e, snd e) = (d, x)" by (auto simp: map_eq_Cons_conv)
    then show ?thesis by (cases e) auto
  qed
  from all consider "(?m, hdl t) = (a, Some Ip_reass_timer)" "mset (deadlines ?m ts) = {#(b, Some Arp_timer)#}"
    | "(?m, hdl t) = (b, Some Arp_timer)" "mset (deadlines ?m ts) = {#(a, Some Ip_reass_timer)#}"
    by (auto simp: add_eq_conv_ex)
  then show thesis using shift that by cases auto
qed

lemma live_nonempty: "live ts a b \<Longrightarrow> ts \<noteq> []"
  by (auto simp: live_def)

lemma sys_timeout_mset:
  assumes "memp_malloc E (tm_mem s) = Some m"
  obtains s' where "sys_timeout E msecs x s = Some s'" "mset (deadlines 0 (next_timeout s')) = add_mset (unat msecs, x) (mset (deadlines 0 (next_timeout s)))"
    "tm_world s' = tm_world s" "timeouts_last_time s' = timeouts_last_time s" "tm_mem s' = m"
  using assms by (auto simp: sys_timeout_def timeout_insert_deadlines mset_insert_deadline)

lemma tmr_call_simps [simp]:
  "next_timeout (tmr_call f s) = next_timeout s" "timeouts_last_time (tmr_call f s) = timeouts_last_time s"
  "tm_mem (tmr_call f s) = fst (f (tm_mem s, tm_world s))" "tm_world (tmr_call f s) = snd (f (tm_mem s, tm_world s))"
  by (simp_all add: tmr_call_def split: prod.split)

fun interval :: "handler \<Rightarrow> u32" where
  "interval Ip_reass_timer = 1000"
| "interval Arp_timer = 5000"

lemma call_handler_timeout: "call_handler E x s = sys_timeout E (interval x) (Some x) (tmr_call (tmr E x) s)"
proof -
  have "tmr E Ip_reass_timer = ip_reass_tmr E" "tmr E Arp_timer = etharp_tmr E" by (rule ext, simp)+
  then show ?thesis by (cases x) (simp_all add: call_handler_def ip_reass_timer_def arp_timer_def IP_TMR_INTERVAL_def ARP_TMR_INTERVAL_def)
qed

text \<open>
  What an expired timer does to the allocator and to the rest of the program: its structure is freed, its function is called, and a new
  structure is allocated. Without memory for it the program stops.
\<close>

definition expire :: "('m, 'w) timenv \<Rightarrow> handler \<Rightarrow> 'm \<times> 'w \<Rightarrow> ('m \<times> 'w) option" where
  "expire E x r = (case tmr E x (memp_free E (fst r), snd r) of (m, w) \<Rightarrow> map_option (\<lambda>m. (m, w)) (memp_malloc E m))"

fun expire_all :: "('m, 'w) timenv \<Rightarrow> handler list \<Rightarrow> 'm \<times> 'w \<Rightarrow> ('m \<times> 'w) option" where
  "expire_all E [] r = Some r"
| "expire_all E (x # xs) r = Option.bind (expire E x r) (expire_all E xs)"

text \<open>One expired timer: it is called and armed again, or the program stops when there is no memory to do so.\<close>

lemma call_handler_None:
  assumes "expire E x (m0, w0) = None" "tm_mem s = memp_free E m0" "tm_world s = w0"
  shows "call_handler E x s = None"
  using assms unfolding call_handler_timeout by (simp add: expire_def sys_timeout_def split: prod.splits)

lemma call_handler_ok:
  assumes "expire E x (m0, w0) = Some (m, w)" "tm_mem s = memp_free E m0" "tm_world s = w0"
  obtains s' where "call_handler E x s = Some s'" "tm_mem s' = m" "tm_world s' = w" "timeouts_last_time s' = timeouts_last_time s"
    "mset (deadlines 0 (next_timeout s')) = add_mset (unat (interval x), Some x) (mset (deadlines 0 (next_timeout s)))"
proof -
  have "memp_malloc E (tm_mem (tmr_call (tmr E x) s)) = Some m" "tm_world (tmr_call (tmr E x) s) = w"
    using assms by (auto simp: expire_def split: prod.splits)
  then obtain s' where "sys_timeout E (interval x) (Some x) (tmr_call (tmr E x) s) = Some s'" "tm_world s' = w" "tm_mem s' = m"
    "timeouts_last_time s' = timeouts_last_time s" "mset (deadlines 0 (next_timeout s')) = add_mset (unat (interval x), Some x) (mset (deadlines 0 (next_timeout s)))"
    using sys_timeout_mset [of E "tmr_call (tmr E x) s" m "interval x" "Some x"] by auto
  then show thesis by (intro that [of s']) (simp_all add: call_handler_timeout)
qed

text \<open>
  What a run of the loop with the difference \<open>D\<close> does: the list \<open>evs\<close> of the calls, and the time \<open>T\<close> of the last of
  them, from which on the remaining deadlines count.
\<close>

definition ran :: "nat \<Rightarrow> nat \<Rightarrow> nat \<Rightarrow> handler list \<Rightarrow> nat \<Rightarrow> ('m, 'w) timers \<Rightarrow> bool" where
  "ran a b D evs T s' \<longleftrightarrow>
     count_list evs Ip_reass_timer = fires a 1000 D \<and> count_list evs Arp_timer = fires b 5000 D \<and>
     T \<le> D \<and> T \<le> a + 1000 * fires a 1000 D \<and> T \<le> b + 5000 * fires b 5000 D \<and>
     live (next_timeout s') (a + 1000 * fires a 1000 D - T) (b + 5000 * fires b 5000 D - T) \<and> (evs = [] \<longrightarrow> T = 0) \<and>
     (fires a 1000 D \<noteq> 0 \<longrightarrow> a + 1000 * fires a 1000 D \<le> T + 1000) \<and> (fires b 5000 D \<noteq> 0 \<longrightarrow> b + 5000 * fires b 5000 D \<le> T + 5000) \<and>
     (evs \<noteq> [] \<longrightarrow> T + 1000 = a + 1000 * fires a 1000 D \<or> T + 5000 = b + 5000 * fires b 5000 D)"

lemma ran_Ip:
  assumes r: "ran 1000 (b - a) (D - a) evs T s'" and ab: "a \<le> D" "a \<le> b"
  shows "ran a b D (Ip_reass_timer # evs) (a + T) s'"
proof -
  define F where "F = fires 1000 1000 (D - a)"
  define G where "G = fires b 5000 D"
  have f: "fires a 1000 D = Suc F" "fires (b - a) 5000 (D - a) = G" using ab by (simp_all add: fires_self fires_shift F_def G_def)
  note R = r [unfolded ran_def f(2), folded F_def]
  have T: "T \<le> D - a" "T \<le> 1000 + 1000 * F" "T \<le> b - a + 5000 * G" "F \<noteq> 0 \<longrightarrow> 1000 + 1000 * F \<le> T + 1000"
    "G \<noteq> 0 \<longrightarrow> b - a + 5000 * G \<le> T + 5000" "evs = [] \<longrightarrow> T = 0" "evs \<noteq> [] \<longrightarrow> T + 1000 = 1000 + 1000 * F \<or> T + 5000 = b - a + 5000 * G"
    "count_list evs Ip_reass_timer = F" using R by blast+
  have e: "a + 1000 * Suc F - (a + T) = 1000 + 1000 * F - T" "b + 5000 * G - (a + T) = b - a + 5000 * G - T" using ab by simp_all
  have z: "evs = [] \<longrightarrow> F = 0" using T(8) by auto
  show ?thesis
    unfolding ran_def f(1) G_def [symmetric] e using R T z ab by (intro conjI) (simp_all, linarith+)
qed

lemma ran_Arp:
  assumes r: "ran (a - b) 5000 (D - b) evs T s'" and ab: "b \<le> D" "b \<le> a"
  shows "ran a b D (Arp_timer # evs) (b + T) s'"
proof -
  define F where "F = fires 5000 5000 (D - b)"
  define G where "G = fires a 1000 D"
  have f: "fires b 5000 D = Suc F" "fires (a - b) 1000 (D - b) = G" using ab by (simp_all add: fires_self fires_shift F_def G_def)
  note R = r [unfolded ran_def f(2), folded F_def]
  have T: "T \<le> D - b" "T \<le> 5000 + 5000 * F" "T \<le> a - b + 1000 * G" "F \<noteq> 0 \<longrightarrow> 5000 + 5000 * F \<le> T + 5000"
    "G \<noteq> 0 \<longrightarrow> a - b + 1000 * G \<le> T + 1000" "evs = [] \<longrightarrow> T = 0" "evs \<noteq> [] \<longrightarrow> T + 1000 = a - b + 1000 * G \<or> T + 5000 = 5000 + 5000 * F"
    "count_list evs Arp_timer = F" using R by blast+
  have e: "b + 5000 * Suc F - (b + T) = 5000 + 5000 * F - T" "a + 1000 * G - (b + T) = a - b + 1000 * G - T" using ab by simp_all
  have z: "evs = [] \<longrightarrow> F = 0" using T(8) by auto
  show ?thesis
    unfolding ran_def f(1) G_def [symmetric] e using R T z ab by (intro conjI) (simp_all, linarith+)
qed

text \<open>
  A run of the loop: for some order \<open>evs\<close> of the expired timers, either one of them has no memory to be armed again and the
  program stops, or the run ends with the allocator and the rest of the program as these timers leave them.
\<close>

definition ran_or_stopped :: "('m, 'w) timenv \<Rightarrow> u32 \<Rightarrow> nat \<Rightarrow> nat \<Rightarrow> nat \<Rightarrow> ('m, 'w) timers \<Rightarrow> ('m, 'w) timers option \<Rightarrow> bool" where
  "ran_or_stopped E now a b D s r \<longleftrightarrow>
     (\<exists>evs. count_list evs Ip_reass_timer = fires a 1000 D \<and> count_list evs Arp_timer = fires b 5000 D \<and>
       (case expire_all E evs (tm_mem s, tm_world s) of
          None \<Rightarrow> r = None
        | Some (m, w) \<Rightarrow> \<exists>s' T. r = Some s' \<and> ran a b D evs T s' \<and> tm_mem s' = m \<and> tm_world s' = w \<and>
            timeouts_last_time s' = (if evs = [] then timeouts_last_time s else now)))"

text \<open>One round of the loop, for either timer.\<close>

lemma ran_or_stopped_step:
  assumes r: "ran_or_stopped E now a' b' D' s1 r" and m: "expire E x (tm_mem s, tm_world s) = Some (tm_mem s1, tm_world s1)" "timeouts_last_time s1 = now"
    and f: "fires a 1000 D = fires a' 1000 D' + (if x = Ip_reass_timer then 1 else 0)" "fires b 5000 D = fires b' 5000 D' + (if x = Arp_timer then 1 else 0)"
    and step: "\<And>evs T s'. ran a' b' D' evs T (s' :: ('m, 'w) timers) \<Longrightarrow> ran a b D (x # evs) (t + T) s'"
  shows "ran_or_stopped E now a b D s (r :: ('m, 'w) timers option)"
proof -
  obtain evs where evs: "count_list evs Ip_reass_timer = fires a' 1000 D'" "count_list evs Arp_timer = fires b' 5000 D'"
    "case expire_all E evs (tm_mem s1, tm_world s1) of None \<Rightarrow> r = None
      | Some (m, w) \<Rightarrow> \<exists>s' T. r = Some s' \<and> ran a' b' D' evs T s' \<and> tm_mem s' = m \<and> tm_world s' = w \<and> timeouts_last_time s' = now"
    using r unfolding ran_or_stopped_def m(2) if_cancel by blast
  have "case expire_all E (x # evs) (tm_mem s, tm_world s) of None \<Rightarrow> r = None
      | Some (m, w) \<Rightarrow> \<exists>s' T. r = Some s' \<and> ran a b D (x # evs) T s' \<and> tm_mem s' = m \<and> tm_world s' = w \<and>
          timeouts_last_time s' = (if x # evs = [] then timeouts_last_time s else now)"
    using evs(3) m(1) step by (cases "expire_all E evs (tm_mem s1, tm_world s1)") (simp, force)
  moreover have "count_list (x # evs) Ip_reass_timer = fires a 1000 D" "count_list (x # evs) Arp_timer = fires b 5000 D"
    using evs(1,2) f by (cases x; simp)+
  ultimately show ?thesis unfolding ran_or_stopped_def by blast
qed

lemma ran_or_stopped_None:
  assumes "expire E x (tm_mem s, tm_world s) = None" "0 < (case x of Ip_reass_timer \<Rightarrow> fires a 1000 D | Arp_timer \<Rightarrow> fires b 5000 D)"
  shows "ran_or_stopped E now a b D s None"
proof -
  have c: "count_list (replicate n y) z = (if y = z then n else 0)" for n and y z :: handler by (induction n) auto
  obtain F G where "count_list (x # replicate F Ip_reass_timer @ replicate G Arp_timer) Ip_reass_timer = fires a 1000 D"
    "count_list (x # replicate F Ip_reass_timer @ replicate G Arp_timer) Arp_timer = fires b 5000 D"
  proof (cases x)
    case Ip_reass_timer
    then show thesis using assms(2) by (intro that [of "fires a 1000 D - 1" "fires b 5000 D"]) (simp_all add: c)
  next
    case Arp_timer
    then show thesis using assms(2) by (intro that [of "fires a 1000 D" "fires b 5000 D - 1"]) (simp_all add: c)
  qed
  then show ?thesis using assms(1) unfolding ran_or_stopped_def
    by (intro exI [of _ "x # replicate F Ip_reass_timer @ replicate G Arp_timer"]) simp
qed

lemma check_loop_ran: "live (next_timeout s) a b \<Longrightarrow> ran_or_stopped E now a b (unat diff) s (check_loop E now diff s)"
proof (induction "fires a 1000 (unat diff) + fires b 5000 (unat diff)" arbitrary: a b diff s rule: less_induct)
  case less
  obtain t ts where ts: "next_timeout s = t # ts" using live_nonempty [OF less.prems] by (cases "next_timeout s") auto
  have live: "live (t # ts) a b" using less.prems ts by simp
  define D where "D = unat diff"
  show ?case
  proof (cases "time t \<le> diff")
    case False
    then have m: "D < unat (time t)" by (simp add: word_le_nat_alt D_def)
    from live have "D < a \<and> D < b" by (cases rule: live_Cons) (use m in auto)
    then have "ran a b D [] 0 s" "fires a 1000 D = 0" "fires b 5000 D = 0" using less.prems by (simp_all add: ran_def fires_def)
    moreover have "check_loop E now diff s = Some s" using False ts by (subst check_loop.simps) simp
    ultimately show ?thesis unfolding D_def [symmetric] ran_or_stopped_def by (auto intro!: exI [of _ "[]"])
  next
    case True
    let ?m = "unat (time t)"
    let ?s = "s\<lparr>timeouts_last_time := now, next_timeout := ts, tm_mem := memp_free E (tm_mem s)\<rparr>"
    have m: "?m \<le> D" "unat (diff - time t) = D - ?m" using True by (simp_all add: word_le_nat_alt D_def unat_sub)
    have f: "a = ?m \<Longrightarrow> fires a 1000 D = Suc (fires 1000 1000 (D - ?m))" "a = ?m \<Longrightarrow> a \<le> b \<Longrightarrow> fires (b - a) 5000 (D - ?m) = fires b 5000 D"
      "b = ?m \<Longrightarrow> fires b 5000 D = Suc (fires 5000 5000 (D - ?m))" "b = ?m \<Longrightarrow> b \<le> a \<Longrightarrow> fires (a - b) 1000 (D - ?m) = fires a 1000 D"
      using m(1) by (simp_all add: fires_self fires_shift)
    obtain x where x: "hdl t = Some x" using live by (cases rule: live_Cons) auto
    show ?thesis
    proof (cases "expire E x (tm_mem s, tm_world s)")
      case None
      have "call_handler E x ?s = None" by (rule call_handler_None [OF None]) simp_all
      then have "check_loop E now diff s = None" using True ts x by (subst check_loop.simps) simp
      moreover have "0 < (case x of Ip_reass_timer \<Rightarrow> fires a 1000 D | Arp_timer \<Rightarrow> fires b 5000 D)"
        using live by (cases rule: live_Cons) (use x f in auto)
      ultimately show ?thesis using ran_or_stopped_None [OF None] by (simp flip: D_def)
    next
      case (Some mw)
      then have ex: "expire E x (tm_mem s, tm_world s) = Some (fst mw, snd mw)" by simp
      obtain s1 where s1: "call_handler E x ?s = Some s1" "tm_mem s1 = fst mw" "tm_world s1 = snd mw" "timeouts_last_time s1 = now"
        "mset (deadlines 0 (next_timeout s1)) = add_mset (unat (interval x), Some x) (mset (deadlines 0 ts))"
        by (rule call_handler_ok [OF ex, of ?s]) simp_all
      have c: "check_loop E now diff s = check_loop E now (diff - time t) s1" using True ts x s1(1) by (subst check_loop.simps) simp
      have e: "expire E x (tm_mem s, tm_world s) = Some (tm_mem s1, tm_world s1)" using ex s1(2,3) by simp
      from live show ?thesis
      proof (cases rule: live_Cons)
        case 1
        have x1: "x = Ip_reass_timer" using 1(2) x by simp
        have l: "live (next_timeout s1) 1000 (b - a)" using s1(5) 1(4) x1 by (simp add: live_def)
        have r: "ran_or_stopped E now 1000 (b - a) (unat (diff - time t)) s1 (check_loop E now (diff - time t) s1)"
          by (rule less.hyps [OF _ l]) (use f(1,2) 1(1,3) m(2) in \<open>simp add: D_def\<close>)
        show ?thesis unfolding c D_def [symmetric]
          by (rule ran_or_stopped_step [OF r e s1(4), where t = a]) (use f(1,2) m 1(1,3) x1 in \<open>auto intro: ran_Ip\<close>)
      next
        case 2
        have x2: "x = Arp_timer" using 2(2) x by simp
        have l: "live (next_timeout s1) (a - b) 5000" using s1(5) 2(4) x2 by (simp add: live_def)
        have r: "ran_or_stopped E now (a - b) 5000 (unat (diff - time t)) s1 (check_loop E now (diff - time t) s1)"
          by (rule less.hyps [OF _ l]) (use f(3,4) 2(1,3) m(2) in \<open>simp add: D_def\<close>)
        show ?thesis unfolding c D_def [symmetric]
          by (rule ran_or_stopped_step [OF r e s1(4), where t = b]) (use f(3,4) m 2(1,3) x2 in \<open>auto intro: ran_Arp\<close>)
      qed
    qed
  qed
qed

section \<open>The running timers\<close>

text \<open>The states from the initialisation on, with calls of \<open>sys_check_timeouts\<close> at any times of the clock.\<close>

inductive timers_reach :: "('m, 'w) timenv \<Rightarrow> ('m, 'w) timers \<Rightarrow> bool" for E where
  init: "next_timeout s = [] \<Longrightarrow> sys_timeouts_init E now s = Some s' \<Longrightarrow> timers_reach E s'"
| check: "timers_reach E s \<Longrightarrow> sys_check_timeouts E now s = Some s' \<Longrightarrow> timers_reach E s'"
| restart: "timers_reach E s \<Longrightarrow> timers_reach E (sys_restart_timeouts now s)"

lemma fires_next:
  assumes "0 < iv"
  shows "D < d + iv * fires d iv D"
proof (cases "d \<le> D")
  case True
  then show ?thesis using dividend_less_times_div [OF assms, of "D - d"] by (simp add: fires_def)
qed (simp add: fires_def)

lemma sys_check_timeouts_ran:
  "live (next_timeout s) a b \<Longrightarrow> ran_or_stopped E now a b (unat (now - timeouts_last_time s)) s (sys_check_timeouts E now s)"
  using check_loop_ran live_nonempty by (fastforce simp: sys_check_timeouts_def)

lemma ran_live:
  assumes "ran a b D evs T s'" "a \<le> 1000" "b \<le> 5000"
  shows "\<exists>a' b'. live (next_timeout s') a' b' \<and> a' \<le> 1000 \<and> b' \<le> 5000"
proof -
  have "a + 1000 * fires a 1000 D - T \<le> 1000" using assms by (cases "fires a 1000 D = 0") (auto simp: ran_def)
  moreover have "b + 5000 * fires b 5000 D - T \<le> 5000" using assms by (cases "fires b 5000 D = 0") (auto simp: ran_def)
  ultimately show ?thesis using assms(1) unfolding ran_def by blast
qed

lemma sys_timeouts_init_live:
  assumes "next_timeout s = []" "sys_timeouts_init E now s = Some s'"
  shows "live (next_timeout s') 1000 5000"
  using assms by (auto simp: sys_timeouts_init_def sys_timeout_def live_def timeout_insert_deadlines IP_TMR_INTERVAL_def
    ARP_TMR_INTERVAL_def bind_eq_Some_conv split: option.splits)

lemma timers_reach_live: "timers_reach E s \<Longrightarrow> \<exists>a b. live (next_timeout s) a b \<and> a \<le> 1000 \<and> b \<le> 5000"
proof (induction rule: timers_reach.induct)
  case (init s now s')
  then show ?case using sys_timeouts_init_live by blast
next
  case (check s now s')
  then obtain a b where ab: "live (next_timeout s) a b" "a \<le> 1000" "b \<le> 5000" by blast
  obtain evs T where "ran a b (unat (now - timeouts_last_time s)) evs T s'"
    using sys_check_timeouts_ran [OF ab(1), of E now] check(2) by (auto simp: ran_or_stopped_def split: option.splits)
  then show ?case by (rule ran_live [OF _ ab(2,3)])
qed (simp add: sys_restart_timeouts_def)

text \<open>When within \<open>D\<close> milliseconds a timer is due for the last time, or 0.\<close>

definition last_due :: "nat \<Rightarrow> nat \<Rightarrow> nat \<Rightarrow> nat" where
  "last_due d iv D = (if d \<le> D then d + iv * ((D - d) div iv) else 0)"

lemma last_due_fires: "last_due d iv D = (if fires d iv D = 0 then 0 else d + iv * (fires d iv D - 1))"
  by (simp add: last_due_def fires_def)

lemma ran_time:
  assumes r: "ran a b D evs T s'" and ab: "a \<le> 1000" "b \<le> 5000"
  shows "T = max (last_due a 1000 D) (last_due b 5000 D)"
proof -
  define F where "F = fires a 1000 D"
  define G where "G = fires b 5000 D"
  have R: "T \<le> D" "evs = [] \<longrightarrow> T = 0" "F \<noteq> 0 \<longrightarrow> a + 1000 * F \<le> T + 1000" "G \<noteq> 0 \<longrightarrow> b + 5000 * G \<le> T + 5000"
    "evs \<noteq> [] \<longrightarrow> T + 1000 = a + 1000 * F \<or> T + 5000 = b + 5000 * G" "count_list evs Ip_reass_timer = F" "count_list evs Arp_timer = G"
    using r unfolding ran_def F_def G_def by blast+
  show "T = max (last_due a 1000 D) (last_due b 5000 D)"
  proof (cases "evs = []")
    case True
    then have "F = 0" "G = 0" using R(6,7) by auto
    then show ?thesis using True R(2) by (simp add: last_due_fires F_def [symmetric] G_def [symmetric])
  next
    case False
    then show ?thesis using R(3-5) ab unfolding last_due_fires F_def [symmetric] G_def [symmetric]
      by (cases F; cases G) auto
  qed
qed

lemma last_due_max:
  assumes "a \<le> 1000"
  shows "max (last_due a 1000 D) (last_due b 5000 D) \<le> D \<and> D < max (last_due a 1000 D) (last_due b 5000 D) + 1000"
proof -
  have le: "last_due d iv D \<le> D" for d iv
  proof (cases "d \<le> D")
    case True
    have "iv * ((D - d) div iv) \<le> D - d" by (rule times_div_less_eq_dividend)
    then have "d + iv * ((D - d) div iv) \<le> D" using True by linarith
    then show ?thesis using True by (simp only: last_due_def if_True)
  qed (simp add: last_due_def)
  have "D < last_due a 1000 D + 1000"
  proof (cases "a \<le> D")
    case True
    have "D - a < 1000 * ((D - a) div 1000) + 1000" using dividend_less_times_div [of 1000 "D - a"] by simp
    then show ?thesis using True by (simp add: last_due_def)
  qed (use assms in \<open>simp add: last_due_def\<close>)
  then show ?thesis using le by auto
qed

lemma no_events: "evs = [] \<longleftrightarrow> count_list evs Ip_reass_timer + count_list evs Arp_timer = 0"
proof (cases evs)
  case (Cons x xs)
  then show ?thesis by (cases x) auto
qed simp

text \<open>
  C29: from the initialisation on, both timers are always armed, the timer of the reassembly at most one second and that of the
  ARP table at most five seconds after the time of reference. Let \<open>D\<close> be the time since then. Each timer is due as often
  as its period fits into \<open>D\<close>, counted from its deadline. For each of these times, in some order \<open>evs\<close>, a call of \<open>sys_check_timeouts\<close>
  frees the structure of the timer, calls its function and allocates a new structure of the same size. If one of these allocations
  fails, the assertion in \<open>sys_timeout\<close> stops the program; otherwise the call returns, with the effects of exactly these
  calls. The time of reference becomes the present time, but the new deadlines are counted from \<open>T\<close>, the time
  when the last of the timers was due: the rest, less than one second, is lost at every call that calls a timer, so that the
  timers run late.
\<close>

theorem timers_called_periodically:
  assumes "timers_reach E s"
  shows "\<exists>a b evs. live (next_timeout s) a b \<and> a \<le> 1000 \<and> b \<le> 5000 \<and>
    (let D = unat (now - timeouts_last_time s); F = fires a 1000 D; G = fires b 5000 D; T = max (last_due a 1000 D) (last_due b 5000 D) in
     T \<le> D \<and> D < T + 1000 \<and> count_list evs Ip_reass_timer = F \<and> count_list evs Arp_timer = G \<and>
     (case expire_all E evs (tm_mem s, tm_world s) of
        None \<Rightarrow> sys_check_timeouts E now s = None
      | Some (m, w) \<Rightarrow> \<exists>s'. sys_check_timeouts E now s = Some s' \<and> tm_mem s' = m \<and> tm_world s' = w \<and>
          live (next_timeout s') (a + 1000 * F - T) (b + 5000 * G - T) \<and>
          timeouts_last_time s' = (if F + G = 0 then timeouts_last_time s else now)))"
proof -
  obtain a b where ab: "live (next_timeout s) a b" "a \<le> 1000" "b \<le> 5000" using timers_reach_live [OF assms] by blast
  define D where "D = unat (now - timeouts_last_time s)"
  define T where "T = max (last_due a 1000 D) (last_due b 5000 D)"
  have T: "T \<le> D" "D < T + 1000" using last_due_max [OF ab(2), of D b] by (simp_all add: T_def)
  obtain evs where evs: "count_list evs Ip_reass_timer = fires a 1000 D" "count_list evs Arp_timer = fires b 5000 D"
    "case expire_all E evs (tm_mem s, tm_world s) of None \<Rightarrow> sys_check_timeouts E now s = None
      | Some (m, w) \<Rightarrow> \<exists>s' T. sys_check_timeouts E now s = Some s' \<and> ran a b D evs T s' \<and> tm_mem s' = m \<and> tm_world s' = w \<and>
          timeouts_last_time s' = (if evs = [] then timeouts_last_time s else now)"
    using sys_check_timeouts_ran [OF ab(1), of E now] unfolding ran_or_stopped_def D_def by blast
  have "case expire_all E evs (tm_mem s, tm_world s) of None \<Rightarrow> sys_check_timeouts E now s = None
      | Some (m, w) \<Rightarrow> \<exists>s'. sys_check_timeouts E now s = Some s' \<and> tm_mem s' = m \<and> tm_world s' = w \<and>
          live (next_timeout s') (a + 1000 * fires a 1000 D - T) (b + 5000 * fires b 5000 D - T) \<and>
          timeouts_last_time s' = (if fires a 1000 D + fires b 5000 D = 0 then timeouts_last_time s else now)"
  proof (cases "expire_all E evs (tm_mem s, tm_world s)")
    case None
    then show ?thesis using evs(3) by simp
  next
    case (Some mw)
    then obtain s' T' where s': "sys_check_timeouts E now s = Some s'" "ran a b D evs T' s'" "tm_mem s' = fst mw" "tm_world s' = snd mw"
      "timeouts_last_time s' = (if evs = [] then timeouts_last_time s else now)" using evs(3) by (auto split: prod.splits)
    have "T' = T" unfolding T_def by (rule ran_time [OF s'(2) ab(2,3)])
    moreover have "evs = [] \<longleftrightarrow> fires a 1000 D + fires b 5000 D = 0" using no_events [of evs] evs(1,2) by simp
    ultimately show ?thesis using Some s' by (auto simp: ran_def split: prod.splits)
  qed
  then show ?thesis using ab T evs(1,2) unfolding Let_def D_def T_def by blast
qed

definition ex_tenv :: "(unit, nat \<times> nat) timenv" where
  "ex_tenv = \<lparr>memp_malloc = (\<lambda>m. Some m), memp_free = (\<lambda>m. m), ip_reass_tmr = (\<lambda>(m, i, j). (m, i + 1, j)), etharp_tmr = (\<lambda>(m, i, j). (m, i, j + 1))\<rparr>"

definition ex_timers :: "(unit, nat \<times> nat) timers" where
  "ex_timers = \<lparr>next_timeout = [\<lparr>time = 1000, hdl = Some Ip_reass_timer\<rparr>, \<lparr>time = 4000, hdl = Some Arp_timer\<rparr>],
     timeouts_last_time = 0xFFFFFFF0, tm_mem = (), tm_world = (0, 0)\<rparr>"

lemma ex_timers_reach: "timers_reach ex_tenv ex_timers"
proof (rule timers_reach.init)
  show "sys_timeouts_init ex_tenv 0xFFFFFFF0 (ex_timers\<lparr>next_timeout := []\<rparr>) = Some ex_timers"
    by (simp add: sys_timeouts_init_def sys_timeout_def ex_tenv_def ex_timers_def timeout_insert_def IP_TMR_INTERVAL_def ARP_TMR_INTERVAL_def)
qed simp

lemma ex_tenv_calls: "expire_all ex_tenv evs (m, i, j) = Some (m, i + count_list evs Ip_reass_timer, j + count_list evs Arp_timer)"
proof (induction evs arbitrary: i j)
  case (Cons x evs)
  then show ?case by (cases x) (simp_all add: ex_tenv_def expire_def)
qed simp

lemma ex_timers_live: "live (next_timeout ex_timers) a b \<longleftrightarrow> a = 1000 \<and> b = 5000"
  by (auto simp: live_def ex_timers_def add_eq_conv_ex)

theorem timers_called_periodically_witness:
  "\<exists>s'. sys_check_timeouts ex_tenv 5984 ex_timers = Some s' \<and> tm_world s' = (6, 1) \<and> live (next_timeout s') 1000 4000"
proof -
  have d: "unat (5984 - timeouts_last_time ex_timers) = 6000" "tm_mem ex_timers = ()" "tm_world ex_timers = (0, 0)" by (simp_all add: ex_timers_def)
  obtain a b s' evs where *: "live (next_timeout ex_timers) a b" "sys_check_timeouts ex_tenv 5984 ex_timers = Some s'"
    "tm_world s' = (0 + count_list evs Ip_reass_timer, 0 + count_list evs Arp_timer)" "count_list evs Ip_reass_timer = fires a 1000 6000" "count_list evs Arp_timer = fires b 5000 6000"
    "live (next_timeout s') (a + 1000 * fires a 1000 6000 - max (last_due a 1000 6000) (last_due b 5000 6000))
       (b + 5000 * fires b 5000 6000 - max (last_due a 1000 6000) (last_due b 5000 6000))"
    using timers_called_periodically [OF ex_timers_reach, where now = 5984] unfolding d Let_def ex_tenv_calls option.case prod.case by blast
  have "tm_world s' = (6, 1)" using *(1,3-5) by (simp add: ex_timers_live fires_def)
  moreover have "live (next_timeout s') 1000 4000" using *(1,6) by (simp add: ex_timers_live fires_def last_due_def)
  ultimately show ?thesis using *(2) by blast
qed

lemma sys_untimeout_deadlines:
  assumes "bounded (next_timeout s)"
  shows "deadlines 0 (next_timeout (sys_untimeout E x s)) = remove_deadline x (deadlines 0 (next_timeout s))"
    "bounded (next_timeout (sys_untimeout E x s))"
proof -
  note b = assms [unfolded bounded_def]
  show 1: "deadlines 0 (next_timeout (sys_untimeout E x s)) = remove_deadline x (deadlines 0 (next_timeout s))"
    using untimeout_loop_deadlines [OF b, of x] by (simp add: sys_untimeout_def split: option.splits)
  have "set (remove_deadline x es) \<subseteq> set es" for es by (induction es) auto
  then show "bounded (next_timeout (sys_untimeout E x s))" using b unfolding bounded_def 1 by blast
qed

section \<open>The clock and the delay\<close>

text \<open>
  \<open>msDelay\<close> (\<^verbatim>\<open>src/lwip/src/arch/lpc18xx_43xx_systick_arch.c\<close>): \<open>clk n\<close> is the value of \<open>systick_timems\<close> that the \<open>n\<close>-th
  read sees. The result is the number of the read that ends the loop.
\<close>

partial_function (option) delay_loop :: "(nat \<Rightarrow> u32) \<Rightarrow> u32 \<Rightarrow> nat \<Rightarrow> nat option" where
  "delay_loop clk to n = (if to > clk n then delay_loop clk to (n + 1) else Some n)"

definition msDelay :: "(nat \<Rightarrow> u32) \<Rightarrow> u32 \<Rightarrow> nat \<Rightarrow> nat option" where
  "msDelay clk ms n = (let to = ms + clk n in delay_loop clk to (n + 1))"

lemma delay_loop_first: "n \<le> k \<Longrightarrow> to \<le> clk k \<Longrightarrow> (\<And>j. n \<le> j \<Longrightarrow> j < k \<Longrightarrow> clk j < to) \<Longrightarrow> delay_loop clk to n = Some k"
proof (induction "k - n" arbitrary: n)
  case 0
  then show ?case by (subst delay_loop.simps) auto
next
  case (Suc m)
  then have "delay_loop clk to (n + 1) = Some k" by simp
  moreover have "clk n < to" using Suc by simp
  ultimately show ?case by (subst delay_loop.simps) simp
qed

text \<open>
  The delay ends at the first read of a time that is not below the target; it ends at once when the
  target wraps around.
\<close>

lemma msDelay_first:
  assumes "n < k" "ms + clk n \<le> clk k" "\<And>j. n < j \<Longrightarrow> j < k \<Longrightarrow> clk j < ms + clk n"
  shows "msDelay clk ms n = Some k"
  unfolding msDelay_def Let_def by (rule delay_loop_first) (use assms in auto)

lemma msDelay_wraps: "ms + clk n \<le> clk (n + 1) \<Longrightarrow> msDelay clk ms n = Some (n + 1)"
  by (rule msDelay_first) auto

end
