(* ===== verification/Pbuf.thy ===== *)
theory Pbuf
  imports Prelude "HOL-Library.Finite_Map" "HOL-Library.Multiset"
begin

text \<open>
  The packet buffers of the network stack (\<^verbatim>\<open>src/lwip/src/core/pbuf.c\<close>) in the configuration of
  \<^verbatim>\<open>src/inc/lwipopts.h\<close>: \<open>mem_malloc\<close>, \<open>memp_malloc\<close> and their counterparts are \<open>malloc\<close> and \<open>free\<close>
  of the C library, TCP is off, custom pbufs are supported. The heap is a finite map from addresses to
  pbufs; a null pointer is \<open>None\<close>. A failed \<open>LWIP_ASSERT\<close> ends in an endless loop
  (\<^verbatim>\<open>src/lwip/src/arch/lpc_debug.c\<close>): an operation that does not return has the value \<open>None\<close>, an access
  through a pointer to freed memory is the fault \<open>OutOfBounds\<close>.
\<close>

section \<open>Data\<close>

datatype pbuf_layer = PBUF_TRANSPORT | PBUF_IP | PBUF_LINK | PBUF_RAW

datatype pbuf_type = PBUF_RAM | PBUF_ROM | PBUF_REF | PBUF_POOL

text \<open>
  \<open>pb_mem\<close> is the memory into which the payload pointer points, \<open>pb_payload\<close> its offset there: for
  \<open>PBUF_RAM\<close> and \<open>PBUF_POOL\<close> the block behind the structure, for \<open>PBUF_ROM\<close> and \<open>PBUF_REF\<close> the memory
  given by the owner.
\<close>

record pbuf =
  pb_next :: "nat option"
  pb_mem :: "u8 list"
  pb_payload :: nat
  pb_tot_len :: u16
  pb_len :: u16
  pb_type :: pbuf_type
  pb_flags :: u8
  pb_ref :: u16

type_synonym heap = "(nat, pbuf) fmap"

text \<open>
  The C library and the free function of custom pbufs: \<open>malloc n h\<close> is the address of a block and its
  \<open>n\<close> bytes.
\<close>

record memlib =
  malloc :: "nat \<Rightarrow> heap \<Rightarrow> (nat \<times> u8 list) option"
  custom_free_function :: "nat \<Rightarrow> heap \<Rightarrow> heap res option"

definition PBUF_FLAG_IS_CUSTOM :: u8 where "PBUF_FLAG_IS_CUSTOM = 2"

definition SIZEOF_STRUCT_PBUF :: nat where "SIZEOF_STRUCT_PBUF = 16"

definition LWIP_MEM_ALIGN_SIZE :: "nat \<Rightarrow> nat" where
  "LWIP_MEM_ALIGN_SIZE n = (n + 3) div 4 * 4"

definition PBUF_POOL_BUFSIZE_ALIGNED :: nat where
  "PBUF_POOL_BUFSIZE_ALIGNED = LWIP_MEM_ALIGN_SIZE (1460 + 40 + 14)"

fun layer_offset :: "pbuf_layer \<Rightarrow> nat" where
  "layer_offset PBUF_TRANSPORT = 14 + 20 + 20"
| "layer_offset PBUF_IP = 14 + 20"
| "layer_offset PBUF_LINK = 14"
| "layer_offset PBUF_RAW = 0"

lemmas pbuf_consts = PBUF_FLAG_IS_CUSTOM_def SIZEOF_STRUCT_PBUF_def LWIP_MEM_ALIGN_SIZE_def PBUF_POOL_BUFSIZE_ALIGNED_def

section \<open>Reference counts\<close>

text \<open>The loop of \<open>pbuf_free\<close>; \<open>memp_free\<close> and \<open>mem_free\<close> are \<open>free\<close>.\<close>

partial_function (option) pbuf_free_loop :: "memlib \<Rightarrow> u8 \<Rightarrow> nat option \<Rightarrow> heap \<Rightarrow> (u8 \<times> heap) res option" where
  "pbuf_free_loop L cnt p h =
     (case p of
        None \<Rightarrow> Some (Inr (cnt, h))
      | Some a \<Rightarrow>
          (case fmlookup h a of
             None \<Rightarrow> Some (Inl OutOfBounds)
           | Some pb \<Rightarrow>
               if pb_ref pb = 0 then None
               else let ref = pb_ref pb - 1; h = fmupd a (pb\<lparr>pb_ref := ref\<rparr>) h in
                 if ref = 0
                 then (case (if pb_flags pb AND PBUF_FLAG_IS_CUSTOM \<noteq> 0 then custom_free_function L a h
                             else Some (Inr (fmdrop a h))) of
                         None \<Rightarrow> None
                       | Some r \<Rightarrow>
                           (case r of
                              Inl e \<Rightarrow> Some (Inl e)
                            | Inr h \<Rightarrow> pbuf_free_loop L (cnt + 1) (pb_next pb) h))
                 else Some (Inr (cnt, h))))"

definition pbuf_free :: "memlib \<Rightarrow> nat option \<Rightarrow> heap \<Rightarrow> (u8 \<times> heap) res option" where
  "pbuf_free L p h = (if p = None then None else pbuf_free_loop L 0 p h)"

definition pbuf_ref :: "nat option \<Rightarrow> heap \<Rightarrow> heap res" where
  "pbuf_ref p h =
     (case p of
        None \<Rightarrow> Inr h
      | Some a \<Rightarrow>
          (case fmlookup h a of
             None \<Rightarrow> Inl OutOfBounds
           | Some pb \<Rightarrow> Inr (fmupd a (pb\<lparr>pb_ref := pb_ref pb + 1\<rparr>) h)))"

partial_function (option) pbuf_clen_loop :: "u8 \<Rightarrow> nat option \<Rightarrow> heap \<Rightarrow> u8 res option" where
  "pbuf_clen_loop n p h =
     (case p of
        None \<Rightarrow> Some (Inr n)
      | Some a \<Rightarrow>
          (case fmlookup h a of
             None \<Rightarrow> Some (Inl OutOfBounds)
           | Some pb \<Rightarrow> pbuf_clen_loop (n + 1) (pb_next pb) h))"

definition pbuf_clen :: "nat option \<Rightarrow> heap \<Rightarrow> u8 res option" where
  "pbuf_clen p h = pbuf_clen_loop 0 p h"

section \<open>Allocation\<close>

text \<open>
  A block of \<open>malloc\<close> seen as a pbuf: the fields that the code has not written yet keep the bytes of the
  block (\<open>flags\<close> is the byte 13 of the structure).
\<close>

definition raw_pbuf :: "u8 list \<Rightarrow> pbuf" where
  "raw_pbuf bs = \<lparr>pb_next = None, pb_mem = drop SIZEOF_STRUCT_PBUF bs, pb_payload = 0, pb_tot_len = 0, pb_len = 0,
                  pb_type = PBUF_RAM, pb_flags = bs ! 13, pb_ref = 0\<rparr>"

definition set_next :: "nat \<Rightarrow> nat option \<Rightarrow> heap \<Rightarrow> heap" where
  "set_next a q h = (case fmlookup h a of None \<Rightarrow> h | Some pb \<Rightarrow> fmupd a (pb\<lparr>pb_next := q\<rparr>) h)"

text \<open>The tail of a chain from the pool: \<open>p\<close> is the head, \<open>r\<close> the last pbuf so far.\<close>

partial_function (option) pool_tail :: "memlib \<Rightarrow> nat \<Rightarrow> nat \<Rightarrow> nat \<Rightarrow> heap \<Rightarrow> (nat option \<times> heap) res option" where
  "pool_tail L p r rem_len h =
     (if rem_len = 0 then Some (Inr (Some p, h))
      else
        (case malloc L (SIZEOF_STRUCT_PBUF + PBUF_POOL_BUFSIZE_ALIGNED) h of
           None \<Rightarrow>
             (case pbuf_free L (Some p) h of
                None \<Rightarrow> None
              | Some (Inl e) \<Rightarrow> Some (Inl e)
              | Some (Inr (_, h)) \<Rightarrow> Some (Inr (None, h)))
         | Some (q, bs) \<Rightarrow>
             if \<not> rem_len < 0xffff then None
             else let ln = min rem_len PBUF_POOL_BUFSIZE_ALIGNED;
                      pb = (raw_pbuf bs)\<lparr>pb_type := PBUF_POOL, pb_flags := 0, pb_next := None, pb_tot_len := of_nat rem_len,
                              pb_len := of_nat ln, pb_payload := 0, pb_ref := 1\<rparr>
                  in pool_tail L p q (rem_len - ln) (set_next r (Some q) (fmupd q pb h))))"

definition pbuf_alloc :: "memlib \<Rightarrow> pbuf_layer \<Rightarrow> u16 \<Rightarrow> pbuf_type \<Rightarrow> heap \<Rightarrow> (nat option \<times> heap) res option" where
  "pbuf_alloc L layer len type h =
     (let offset = layer_offset layer;
          finish = (\<lambda>p h. case fmlookup h p of None \<Rightarrow> h | Some pb \<Rightarrow> fmupd p (pb\<lparr>pb_ref := 1, pb_flags := 0\<rparr>) h)
      in case type of
        PBUF_POOL \<Rightarrow>
          (case malloc L (SIZEOF_STRUCT_PBUF + PBUF_POOL_BUFSIZE_ALIGNED) h of
             None \<Rightarrow> Some (Inr (None, h))
           | Some (p, bs) \<Rightarrow>
               let ln = min (unat len) (PBUF_POOL_BUFSIZE_ALIGNED - LWIP_MEM_ALIGN_SIZE offset);
                   pb = (raw_pbuf bs)\<lparr>pb_type := PBUF_POOL, pb_next := None, pb_payload := LWIP_MEM_ALIGN_SIZE offset,
                           pb_tot_len := len, pb_len := of_nat ln, pb_ref := 1\<rparr>
               in (case pool_tail L p p (unat len - ln) (fmupd p pb h) of
                     None \<Rightarrow> None
                   | Some (Inl e) \<Rightarrow> Some (Inl e)
                   | Some (Inr (None, h)) \<Rightarrow> Some (Inr (None, h))
                   | Some (Inr (Some p, h)) \<Rightarrow> Some (Inr (Some p, finish p h))))
      | PBUF_RAM \<Rightarrow>
          (case malloc L (LWIP_MEM_ALIGN_SIZE (SIZEOF_STRUCT_PBUF + offset) + LWIP_MEM_ALIGN_SIZE (unat len)) h of
             None \<Rightarrow> Some (Inr (None, h))
           | Some (p, bs) \<Rightarrow>
               Some (Inr (Some p, finish p (fmupd p
                 ((raw_pbuf bs)\<lparr>pb_payload := LWIP_MEM_ALIGN_SIZE (SIZEOF_STRUCT_PBUF + offset) - SIZEOF_STRUCT_PBUF,
                    pb_len := len, pb_tot_len := len, pb_next := None, pb_type := PBUF_RAM\<rparr>) h))))
      | _ \<Rightarrow>
          (case malloc L SIZEOF_STRUCT_PBUF h of
             None \<Rightarrow> Some (Inr (None, h))
           | Some (p, bs) \<Rightarrow>
               Some (Inr (Some p, finish p (fmupd p
                 ((raw_pbuf bs)\<lparr>pb_mem := [], pb_payload := 0, pb_len := len, pb_tot_len := len, pb_next := None,
                    pb_type := type\<rparr>) h)))))"

section \<open>Chains\<close>

datatype err_t = ERR_OK | ERR_MEM | ERR_BUF | ERR_TIMEOUT | ERR_RTE | ERR_INPROGRESS | ERR_VAL | ERR_WOULDBLOCK | ERR_USE
  | ERR_ISCONN | ERR_ABRT | ERR_RST | ERR_CLSD | ERR_CONN | ERR_ARG | ERR_IF

text \<open>
  \<open>LWIP_ERROR\<close> calls the same endless loop before its handler, so that a violated condition never reaches
  the handler.
\<close>

partial_function (option) pbuf_cat_loop :: "nat \<Rightarrow> nat \<Rightarrow> heap \<Rightarrow> heap res option" where
  "pbuf_cat_loop t p h =
     (case fmlookup h p of
        None \<Rightarrow> Some (Inl OutOfBounds)
      | Some pb \<Rightarrow>
          (case fmlookup h t of
             None \<Rightarrow> Some (Inl OutOfBounds)
           | Some tb \<Rightarrow>
               (case pb_next pb of
                  None \<Rightarrow>
                    if pb_tot_len pb \<noteq> pb_len pb then None
                    else Some (Inr (fmupd p (pb\<lparr>pb_tot_len := pb_tot_len pb + pb_tot_len tb, pb_next := Some t\<rparr>) h))
                | Some q \<Rightarrow> pbuf_cat_loop t q (fmupd p (pb\<lparr>pb_tot_len := pb_tot_len pb + pb_tot_len tb\<rparr>) h))))"

definition pbuf_cat :: "nat option \<Rightarrow> nat option \<Rightarrow> heap \<Rightarrow> heap res option" where
  "pbuf_cat hp t h = (case (hp, t) of (Some a, Some b) \<Rightarrow> pbuf_cat_loop b a h | _ \<Rightarrow> None)"

definition pbuf_chain :: "nat option \<Rightarrow> nat option \<Rightarrow> heap \<Rightarrow> heap res option" where
  "pbuf_chain hp t h =
     (case pbuf_cat hp t h of
        None \<Rightarrow> None
      | Some (Inl e) \<Rightarrow> Some (Inl e)
      | Some (Inr h) \<Rightarrow> Some (pbuf_ref t h))"

definition pbuf_dechain :: "memlib \<Rightarrow> nat \<Rightarrow> heap \<Rightarrow> (nat option \<times> heap) res option" where
  "pbuf_dechain L p h =
     (case fmlookup h p of
        None \<Rightarrow> Some (Inl OutOfBounds)
      | Some pb \<Rightarrow>
          (case pb_next pb of
             None \<Rightarrow> if pb_tot_len pb = pb_len pb then Some (Inr (None, h)) else None
           | Some q \<Rightarrow>
               (case fmlookup h q of
                  None \<Rightarrow> Some (Inl OutOfBounds)
                | Some qb \<Rightarrow>
                    if pb_tot_len qb \<noteq> pb_tot_len pb - pb_len pb then None
                    else
                      let h = fmupd q (qb\<lparr>pb_tot_len := pb_tot_len pb - pb_len pb\<rparr>) h;
                          h = fmupd p (pb\<lparr>pb_next := None, pb_tot_len := pb_len pb\<rparr>) h
                      in (case pbuf_free L (Some q) h of
                            None \<Rightarrow> None
                          | Some (Inl e) \<Rightarrow> Some (Inl e)
                          | Some (Inr (gone, h)) \<Rightarrow> Some (Inr (if gone > 0 then None else Some q, h))))))"

section \<open>Headers and lengths\<close>

text \<open>\<open>pbuf_header\<close>; the result is the flag of failure. The increment is an \<open>s16_t\<close>.\<close>

definition pbuf_header :: "nat \<Rightarrow> int \<Rightarrow> heap \<Rightarrow> (bool \<times> heap) res option" where
  "pbuf_header p inc h =
     (case fmlookup h p of
        None \<Rightarrow> Some (Inl OutOfBounds)
      | Some pb \<Rightarrow>
          if inc = 0 then Some (Inr (False, h))
          else if inc < 0 \<and> \<not> - inc \<le> uint (pb_len pb) then None
          else
            let off = int (pb_payload pb) - inc;
                pb' = pb\<lparr>pb_payload := nat off, pb_len := pb_len pb + of_int inc, pb_tot_len := pb_tot_len pb + of_int inc\<rparr>
            in if pb_type pb = PBUF_RAM \<or> pb_type pb = PBUF_POOL
               then if off < 0 then Some (Inr (True, h)) else Some (Inr (False, fmupd p pb' h))
               else if inc < 0 \<and> - inc \<le> uint (pb_len pb) then Some (Inr (False, fmupd p pb' h))
               else Some (Inr (True, h)))"

text \<open>
  \<open>pbuf_realloc\<close>: the pbufs before the new last one lose \<open>grow\<close> bytes of their total length; \<open>mem_trim\<close>
  returns its argument.
\<close>

definition realloc_last :: "memlib \<Rightarrow> u16 \<Rightarrow> nat \<Rightarrow> heap \<Rightarrow> heap res option" where
  "realloc_last L rem_len q h =
     (case fmlookup h q of
        None \<Rightarrow> Some (Inl OutOfBounds)
      | Some qb \<Rightarrow>
          let h = fmupd q (qb\<lparr>pb_len := rem_len, pb_tot_len := rem_len\<rparr>) h
          in case pb_next qb of
               None \<Rightarrow> Some (Inr (set_next q None h))
             | Some r \<Rightarrow>
                 (case pbuf_free L (Some r) h of
                    None \<Rightarrow> None
                  | Some (Inl e) \<Rightarrow> Some (Inl e)
                  | Some (Inr (_, h)) \<Rightarrow> Some (Inr (set_next q None h))))"

partial_function (option) realloc_loop :: "memlib \<Rightarrow> u16 \<Rightarrow> u16 \<Rightarrow> nat \<Rightarrow> heap \<Rightarrow> heap res option" where
  "realloc_loop L grow rem_len q h =
     (case fmlookup h q of
        None \<Rightarrow> Some (Inl OutOfBounds)
      | Some qb \<Rightarrow>
          if rem_len > pb_len qb
          then (case pb_next qb of
                  None \<Rightarrow> None
                | Some r \<Rightarrow>
                    realloc_loop L grow (rem_len - pb_len qb) r (fmupd q (qb\<lparr>pb_tot_len := pb_tot_len qb + grow\<rparr>) h))
          else realloc_last L rem_len q h)"

definition pbuf_realloc :: "memlib \<Rightarrow> nat \<Rightarrow> u16 \<Rightarrow> heap \<Rightarrow> heap res option" where
  "pbuf_realloc L p new_len h =
     (case fmlookup h p of
        None \<Rightarrow> Some (Inl OutOfBounds)
      | Some pb \<Rightarrow>
          if new_len \<ge> pb_tot_len pb then Some (Inr h)
          else realloc_loop L (new_len - pb_tot_len pb) new_len p h)"

section \<open>Copies\<close>

text \<open>\<open>pbuf_copy_partial\<close>: \<open>dst\<close> is the array of the application.\<close>

partial_function (option) copy_partial_loop ::
  "u16 \<Rightarrow> u16 \<Rightarrow> u16 \<Rightarrow> u8 list \<Rightarrow> nat option \<Rightarrow> heap \<Rightarrow> (u16 \<times> u8 list) res option" where
  "copy_partial_loop len offset left dst p h =
     (if len = 0 then Some (Inr (left, dst))
      else
        (case p of
           None \<Rightarrow> Some (Inr (left, dst))
         | Some a \<Rightarrow>
             (case fmlookup h a of
                None \<Rightarrow> Some (Inl OutOfBounds)
              | Some pb \<Rightarrow>
                  if offset \<noteq> 0 \<and> offset \<ge> pb_len pb
                  then copy_partial_loop len (offset - pb_len pb) left dst (pb_next pb) h
                  else
                    let n = min (pb_len pb - offset) len
                    in (case memcpy dst (unat left) (drop (pb_payload pb + unat offset) (pb_mem pb)) (unat n) of
                          Inl e \<Rightarrow> Some (Inl e)
                        | Inr dst \<Rightarrow> copy_partial_loop (len - n) 0 (left + n) dst (pb_next pb) h))))"

definition pbuf_copy_partial :: "nat option \<Rightarrow> u8 list \<Rightarrow> u16 \<Rightarrow> u16 \<Rightarrow> heap \<Rightarrow> (u16 \<times> u8 list) res option" where
  "pbuf_copy_partial p dst len offset h = (if p = None then None else copy_partial_loop len offset 0 dst p h)"

partial_function (option) pbuf_take_loop :: "u8 list \<Rightarrow> u16 \<Rightarrow> u16 \<Rightarrow> nat option \<Rightarrow> heap \<Rightarrow> heap res option" where
  "pbuf_take_loop src todo copied p h =
     (if todo = 0 then Some (Inr h)
      else
        (case p of
           None \<Rightarrow> None
         | Some a \<Rightarrow>
             (case fmlookup h a of
                None \<Rightarrow> Some (Inl OutOfBounds)
              | Some pb \<Rightarrow>
                  let n = (if todo > pb_len pb then pb_len pb else todo)
                  in (case memcpy (pb_mem pb) (pb_payload pb) (drop (unat copied) src) (unat n) of
                        Inl e \<Rightarrow> Some (Inl e)
                      | Inr m \<Rightarrow> pbuf_take_loop src (todo - n) (copied + n) (pb_next pb) (fmupd a (pb\<lparr>pb_mem := m\<rparr>) h)))))"

definition pbuf_take :: "nat option \<Rightarrow> u8 list \<Rightarrow> u16 \<Rightarrow> heap \<Rightarrow> (err_t \<times> heap) res option" where
  "pbuf_take p src len h =
     (case p of
        None \<Rightarrow> None
      | Some a \<Rightarrow>
          (case fmlookup h a of
             None \<Rightarrow> Some (Inl OutOfBounds)
           | Some pb \<Rightarrow>
               if pb_tot_len pb < len then Some (Inr (ERR_ARG, h))
               else (case pbuf_take_loop src len 0 p h of
                       None \<Rightarrow> None
                     | Some (Inl e) \<Rightarrow> Some (Inl e)
                     | Some (Inr h) \<Rightarrow> Some (Inr (ERR_OK, h)))))"

partial_function (option) get_at_loop :: "u16 \<Rightarrow> nat option \<Rightarrow> heap \<Rightarrow> u8 res option" where
  "get_at_loop off p h =
     (case p of
        None \<Rightarrow> Some (Inr 0)
      | Some a \<Rightarrow>
          (case fmlookup h a of
             None \<Rightarrow> Some (Inl OutOfBounds)
           | Some pb \<Rightarrow>
               if pb_len pb \<le> off then get_at_loop (off - pb_len pb) (pb_next pb) h
               else Some (load (pb_mem pb) (pb_payload pb + unat off))))"

definition pbuf_get_at :: "nat option \<Rightarrow> u16 \<Rightarrow> heap \<Rightarrow> u8 res option" where
  "pbuf_get_at p offset h = get_at_loop offset p h"

section \<open>The invariant of the reference counts\<close>

definition next_ptrs :: "pbuf \<Rightarrow> nat multiset" where
  "next_ptrs pb = (case pb_next pb of None \<Rightarrow> {#} | Some q \<Rightarrow> {#q#})"

definition ptrs :: "heap \<Rightarrow> nat multiset" where
  "ptrs h = (\<Sum>a\<in>fmdom' h. next_ptrs (the (fmlookup h a)))"

definition refs :: "heap \<Rightarrow> nat \<Rightarrow> nat" where
  "refs h a = (case fmlookup h a of None \<Rightarrow> 0 | Some pb \<Rightarrow> unat (pb_ref pb))"

definition rc_ok :: "heap \<Rightarrow> nat multiset \<Rightarrow> bool" where
  "rc_ok h R \<longleftrightarrow>
     (\<forall>a. refs h a = count (ptrs h) a + count R a) \<and>
     (\<forall>a pb. fmlookup h a = Some pb \<longrightarrow> pb_ref pb \<noteq> 0 \<and> pb_flags pb AND PBUF_FLAG_IS_CUSTOM = 0)"

lemma finite_dom' [simp]: "finite (fmdom' h)"
  by (simp add: fmdom'_alt_def)

lemma ptrs_upd_new: "fmlookup h a = None \<Longrightarrow> ptrs (fmupd a pb h) = ptrs h + next_ptrs pb"
  unfolding ptrs_def by (subst fmdom'_fmupd) (auto simp: fmdom'_notI intro!: sum.cong arg_cong2 [where f = "(+)"])

lemma ptrs_drop:
  assumes "fmlookup h a = Some pb"
  shows "ptrs h = ptrs (fmdrop a h) + next_ptrs pb"
proof -
  have a: "a \<in> fmdom' h" using assms by (rule fmdom'I)
  have "(\<Sum>x\<in>fmdom' h - {a}. next_ptrs (the (fmlookup h x))) = ptrs (fmdrop a h)"
    unfolding ptrs_def by (rule sum.cong) auto
  then show ?thesis using a assms unfolding ptrs_def [of h] by (simp add: sum.remove)
qed

lemma fmdrop_upd: "fmdrop a (fmupd a pb h) = fmdrop a h"
  by (rule fmap_ext) simp

lemma ptrs_upd:
  assumes "fmlookup h a = Some pb"
  shows "ptrs (fmupd a pb' h) + next_ptrs pb = ptrs h + next_ptrs pb'"
  using ptrs_drop [OF assms] ptrs_drop [of "fmupd a pb' h" a pb'] by (simp add: fmdrop_upd)

lemma ptrs_upd_same:
  "fmlookup h a = Some pb \<Longrightarrow> pb_next pb' = pb_next pb \<Longrightarrow> ptrs (fmupd a pb' h) = ptrs h"
  using ptrs_upd [of h a pb pb'] by (simp add: next_ptrs_def)

lemma refs_upd [simp]: "refs (fmupd a pb h) b = (if b = a then unat (pb_ref pb) else refs h b)"
  by (simp add: refs_def)

lemma refs_drop [simp]: "refs (fmdrop a h) b = (if b = a then 0 else refs h b)"
  by (simp add: refs_def)

lemma rc_okD:
  assumes "rc_ok h R"
  shows "refs h a = count (ptrs h) a + count R a"
    and "fmlookup h a = Some pb \<Longrightarrow> pb_ref pb \<noteq> 0"
    and "fmlookup h a = Some pb \<Longrightarrow> pb_flags pb AND PBUF_FLAG_IS_CUSTOM = 0"
  using assms by (auto simp: rc_ok_def)

lemma rc_ok_owner:
  assumes "rc_ok h R" "a \<in># R"
  obtains pb where "fmlookup h a = Some pb"
  using rc_okD(1) [OF assms(1), of a] assms(2) that
  by (cases "fmlookup h a") (auto simp: refs_def simp flip: count_greater_zero_iff)

lemma rc_ok_next:
  assumes "rc_ok h R" "fmlookup h a = Some pb" "pb_next pb = Some q"
  obtains qb where "fmlookup h q = Some qb"
proof -
  have "q \<in># ptrs h" using ptrs_drop [OF assms(2)] assms(3) by (simp add: next_ptrs_def)
  then show thesis using rc_okD(1) [OF assms(1), of q] that
    by (cases "fmlookup h q") (auto simp: refs_def simp flip: count_greater_zero_iff)
qed

lemma rc_ok_owner_dom: "rc_ok h R \<Longrightarrow> a \<in># R \<Longrightarrow> a \<in> fmdom' h"
  by (meson rc_ok_owner fmdom'I)

lemma rc_ok_next_dom: "rc_ok h R \<Longrightarrow> fmlookup h a = Some pb \<Longrightarrow> pb_next pb = Some q \<Longrightarrow> q \<in> fmdom' h"
  by (meson rc_ok_next fmdom'I)

text \<open>An update that keeps pointer and count of a pbuf keeps the invariant.\<close>

lemma rc_ok_upd_same:
  assumes "rc_ok h R" "fmlookup h a = Some pb" "pb_next pb' = pb_next pb" "pb_ref pb' = pb_ref pb"
    "pb_flags pb' AND PBUF_FLAG_IS_CUSTOM = 0"
  shows "rc_ok (fmupd a pb' h) R"
proof -
  have "refs (fmupd a pb' h) b = refs h b" for b using assms(2,4) by (auto simp: refs_def)
  then show ?thesis using assms(1,2,5) assms(4) ptrs_upd_same [OF assms(2,3)] by (auto simp: rc_ok_def)
qed

lemma unat_minus_1: "w \<noteq> 0 \<Longrightarrow> unat (w - 1 :: 'a::len word) = unat w - 1"
  by (metis unat_minus_one)

lemma pbuf_free_step_keep:
  assumes "rc_ok h (add_mset a R)" "fmlookup h a = Some pb" "pb_ref pb - 1 \<noteq> 0"
  shows "rc_ok (fmupd a (pb\<lparr>pb_ref := pb_ref pb - 1\<rparr>) h) R"
proof -
  have r: "pb_ref pb \<noteq> 0" using rc_okD(2) [OF assms(1,2)] .
  have e: "refs h b = count (ptrs h) b + count (add_mset a R) b" for b by (rule rc_okD(1) [OF assms(1)])
  have "unat (pb_ref pb - 1) = count (ptrs h) a + count R a"
    using e [of a] assms(2) r by (simp add: refs_def unat_minus_1)
  then show ?thesis using assms e
    by (auto simp: rc_ok_def ptrs_upd_same [OF assms(2)])
qed

lemma pbuf_free_step_drop:
  assumes "rc_ok h (add_mset a R)" "fmlookup h a = Some pb" "pb_ref pb - 1 = 0"
  shows "rc_ok (fmdrop a h) (R + next_ptrs pb)"
proof -
  have e: "refs h b = count (ptrs h) b + count (add_mset a R) b" for b by (rule rc_okD(1) [OF assms(1)])
  have p: "ptrs h = ptrs (fmdrop a h) + next_ptrs pb" by (rule ptrs_drop [OF assms(2)])
  have "pb_ref pb = 1" using assms(3) by (metis eq_iff_diff_eq_0)
  then have "unat (pb_ref pb) = 1" by simp
  then have 1: "count (ptrs h) a = 0" "count R a = 0" using e [of a] assms(2) by (auto simp: refs_def)
  have "refs (fmdrop a h) b = count (ptrs (fmdrop a h)) b + count (R + next_ptrs pb) b" for b
    using e [of b] 1 p by (cases "b = a") auto
  then show ?thesis using assms(1) by (auto simp: rc_ok_def split: if_splits)
qed

definition owner :: "nat option \<Rightarrow> nat multiset" where
  "owner p = (case p of None \<Rightarrow> {#} | Some a \<Rightarrow> {#a#})"

lemma owner_simps [simp]: "owner None = {#}" "owner (Some a) = {#a#}"
  by (simp_all add: owner_def)

definition owned :: "nat option list \<Rightarrow> nat multiset" where
  "owned xs = (\<Sum>x\<leftarrow>xs. owner x)"

lemma owned_simps [simp]: "owned [] = {#}" "owned (x # xs) = owner x + owned xs" "owned (xs @ ys) = owned xs + owned ys"
  by (simp_all add: owned_def)

lemma Some_owned: "Some p \<in> set xs \<Longrightarrow> p \<in># owned xs"
  by (induction xs) auto

lemma next_ptrs_owner: "next_ptrs pb = owner (pb_next pb)"
  by (simp add: next_ptrs_def owner_def)

text \<open>What a heap keeps of another one: its pbufs are there unchanged but for their reference counts.\<close>

definition same_but_refs :: "heap \<Rightarrow> heap \<Rightarrow> bool" where
  "same_but_refs h' h \<longleftrightarrow> (\<forall>a pb'. fmlookup h' a = Some pb' \<longrightarrow> (\<exists>pb. fmlookup h a = Some pb \<and> pb' = pb\<lparr>pb_ref := pb_ref pb'\<rparr>))"

lemma same_but_refs_refl [simp]: "same_but_refs h h"
  by (simp add: same_but_refs_def)

lemma same_but_refs_trans: "same_but_refs h'' h' \<Longrightarrow> same_but_refs h' h \<Longrightarrow> same_but_refs h'' h"
proof (unfold same_but_refs_def, intro allI impI)
  fix a pb''
  assume "\<forall>a pb'. fmlookup h'' a = Some pb' \<longrightarrow> (\<exists>pb. fmlookup h' a = Some pb \<and> pb' = pb\<lparr>pb_ref := pb_ref pb'\<rparr>)"
    and h: "\<forall>a pb'. fmlookup h' a = Some pb' \<longrightarrow> (\<exists>pb. fmlookup h a = Some pb \<and> pb' = pb\<lparr>pb_ref := pb_ref pb'\<rparr>)"
    and "fmlookup h'' a = Some pb''"
  then obtain pb' where 1: "fmlookup h' a = Some pb'" "pb'' = pb'\<lparr>pb_ref := pb_ref pb''\<rparr>" by blast
  with h obtain pb where 2: "fmlookup h a = Some pb" "pb' = pb\<lparr>pb_ref := pb_ref pb'\<rparr>" by blast
  have "pb'' = pb\<lparr>pb_ref := pb_ref pb', pb_ref := pb_ref pb''\<rparr>" using 1(2) 2(2) by metis
  then show "\<exists>pb. fmlookup h a = Some pb \<and> pb'' = pb\<lparr>pb_ref := pb_ref pb''\<rparr>" using 2(1) by simp
qed

lemma same_but_refsE:
  assumes "same_but_refs h' h" "fmlookup h' a = Some pb'" "fmlookup h a = Some pb"
  obtains r where "pb' = pb\<lparr>pb_ref := r\<rparr>"
  using assms unfolding same_but_refs_def by (metis option.inject)

lemma same_but_refs_drop [simp]: "same_but_refs (fmdrop a h) h"
  by (simp add: same_but_refs_def)

lemma same_but_refs_upd: "fmlookup h a = Some pb \<Longrightarrow> same_but_refs (fmupd a (pb\<lparr>pb_ref := r\<rparr>) h) h"
  by (auto simp: same_but_refs_def)

lemma pbuf_free_loop_None [simp]: "pbuf_free_loop L cnt None h = Some (Inr (cnt, h))"
  by (simp add: pbuf_free_loop.simps)

lemma pbuf_free_loop_Some:
  assumes "fmlookup h a = Some pb" "pb_ref pb \<noteq> 0" "pb_flags pb AND PBUF_FLAG_IS_CUSTOM = 0"
  shows "pbuf_free_loop L cnt (Some a) h =
           (if pb_ref pb - 1 = 0 then pbuf_free_loop L (cnt + 1) (pb_next pb) (fmdrop a h)
            else Some (Inr (cnt, fmupd a (pb\<lparr>pb_ref := pb_ref pb - 1\<rparr>) h)))"
  using assms by (subst pbuf_free_loop.simps) (simp add: Let_def fmdrop_upd)

lemma pbuf_free_loop_ok:
  assumes "rc_ok h (R + owner p)"
  shows "\<exists>n h'. pbuf_free_loop L cnt p h = Some (Inr (n, h')) \<and> rc_ok h' R \<and> same_but_refs h' h"
  using assms
proof (induction "card (fmdom' h)" arbitrary: h p cnt R rule: less_induct)
  case less
  show ?case
  proof (cases p)
    case None
    with less.prems show ?thesis by simp
  next
    case (Some a)
    then have ok: "rc_ok h (add_mset a R)" using less.prems by simp
    obtain pb where pb: "fmlookup h a = Some pb" using rc_ok_owner [OF ok, of a] by auto
    note wf = rc_okD(2,3) [OF ok pb]
    show ?thesis
    proof (cases "pb_ref pb - 1 = 0")
      case True
      have "card (fmdom' (fmdrop a h)) < card (fmdom' h)"
        unfolding fmdom'_drop by (rule card_Diff1_less [OF finite_dom' fmdom'I [OF pb]])
      from less.hyps [OF this pbuf_free_step_drop [OF ok pb True, unfolded next_ptrs_owner], of "cnt + 1"]
      obtain n h' where "pbuf_free_loop L (cnt + 1) (pb_next pb) (fmdrop a h) = Some (Inr (n, h'))"
        "rc_ok h' R" "same_but_refs h' (fmdrop a h)" by blast
      then show ?thesis using Some pb wf True
        by (auto simp: pbuf_free_loop_Some intro: same_but_refs_trans)
    next
      case False
      then show ?thesis using Some pb wf pbuf_free_step_keep [OF ok pb False] same_but_refs_upd [OF pb]
        by (auto simp: pbuf_free_loop_Some)
    qed
  qed
qed

lemma pbuf_free_ok:
  assumes "rc_ok h (add_mset a R)"
  obtains n h' where "pbuf_free L (Some a) h = Some (Inr (n, h'))" "rc_ok h' R" "same_but_refs h' h"
  using pbuf_free_loop_ok [of h R "Some a" L 0] assms by (auto simp: pbuf_free_def)

lemma pbuf_ref_ok:
  assumes "rc_ok h R" "a \<in># R" "refs h a < 65535"
  obtains h' where "pbuf_ref (Some a) h = Inr h'" "rc_ok h' (add_mset a R)" "same_but_refs h' h"
proof -
  obtain pb where pb: "fmlookup h a = Some pb" by (rule rc_ok_owner [OF assms(1,2)])
  let ?h = "fmupd a (pb\<lparr>pb_ref := pb_ref pb + 1\<rparr>) h"
  have u: "unat (pb_ref pb + 1) = unat (pb_ref pb) + 1"
    using assms(3) pb by (simp add: refs_def unat_word_ariths(1))
  have n: "pb_ref pb + 1 \<noteq> 0" using u by (metis add_eq_0_iff_both_eq_0 one_neq_zero unat_0)
  have "refs ?h b = count (ptrs ?h) b + count (add_mset a R) b" for b
    using rc_okD(1) [OF assms(1), of b] u pb by (auto simp: refs_def ptrs_upd_same [OF pb])
  then have "rc_ok ?h (add_mset a R)" using assms(1) pb n by (auto simp: rc_ok_def)
  then show thesis using that pb same_but_refs_upd [OF pb] by (simp add: pbuf_ref_def)
qed

text \<open>Without pointers from outside nothing is left of a heap without cycles.\<close>

definition links :: "heap \<Rightarrow> (nat \<times> nat) set" where
  "links h = {(a, b). \<exists>pb. fmlookup h a = Some pb \<and> pb_next pb = Some b}"

lemma rc_ok_no_leak:
  assumes "rc_ok h {#}" "acyclic (links h)"
  shows "fmdom' h = {}"
proof (rule ccontr)
  let ?E = "{(a, b). \<exists>pb. fmlookup h a = Some pb \<and> pb_next pb = Some b}"
  have sub: "?E \<subseteq> fmdom' h \<times> fmdom' h"
    using rc_ok_next [OF assms(1)] by (auto simp: fmdom'I) (metis fmdom'I)
  then have "finite ?E" by (rule finite_subset) simp
  then have "wf ?E" using assms(2) unfolding links_def by (rule finite_acyclic_wf)
  moreover assume "fmdom' h \<noteq> {}"
  ultimately obtain a where a: "a \<in> fmdom' h" "\<And>b. (b, a) \<in> ?E \<Longrightarrow> b \<notin> fmdom' h" by (meson wfE_min ex_in_conv)
  then obtain pb where pb: "fmlookup h a = Some pb" by (auto simp: fmlookup_dom'_iff)
  have "count (ptrs h) a > 0" using rc_okD(1,2) [OF assms(1)] pb by (metis (no_types, lifting) add.right_neutral count_empty gr0I option.simps(5) refs_def unat_eq_zero)
  then obtain b bb where "fmlookup h b = Some bb" "a \<in># next_ptrs bb"
    by (auto simp: ptrs_def fmlookup_dom'_iff set_mset_sum dest!: count_greater_zero_iff [THEN iffD1])
  then show False using a(2) [of b] by (auto simp: next_ptrs_def fmdom'I split: option.splits)
qed

text \<open>The invariant of the heap: counts that are right and no cycles.\<close>

definition heap_ok :: "heap \<Rightarrow> nat multiset \<Rightarrow> bool" where
  "heap_ok h R \<longleftrightarrow> rc_ok h R \<and> acyclic (links h)"

lemma heap_okD [dest]: "heap_ok h R \<Longrightarrow> rc_ok h R"
  by (simp add: heap_ok_def)

lemma links_same_but_refs: "same_but_refs h' h \<Longrightarrow> links h' \<subseteq> links h"
  unfolding same_but_refs_def links_def by clarsimp (metis pbuf.select_convs(1) pbuf.surjective pbuf.update_convs(8))

lemma links_upd_same: "fmlookup h a = Some pb \<Longrightarrow> pb_next pb' = pb_next pb \<Longrightarrow> links (fmupd a pb' h) = links h"
  by (auto simp: links_def split: if_splits)

lemma heap_ok_free:
  assumes "heap_ok h (add_mset a R)"
  obtains n h' where "pbuf_free L (Some a) h = Some (Inr (n, h'))" "heap_ok h' R" "same_but_refs h' h"
  using pbuf_free_ok [of h a R L] assms links_same_but_refs unfolding heap_ok_def by (metis acyclic_subset)

lemma heap_ok_ref:
  assumes "heap_ok h R" "a \<in># R" "refs h a < 65535"
  obtains h' where "pbuf_ref (Some a) h = Inr h'" "heap_ok h' (add_mset a R)" "same_but_refs h' h"
  using pbuf_ref_ok [of h R a] assms links_same_but_refs unfolding heap_ok_def by (metis acyclic_subset)

lemma heap_ok_upd_same:
  assumes "heap_ok h R" "fmlookup h a = Some pb" "pb_next pb' = pb_next pb" "pb_ref pb' = pb_ref pb"
    "pb_flags pb' AND PBUF_FLAG_IS_CUSTOM = 0"
  shows "heap_ok (fmupd a pb' h) R"
  using assms rc_ok_upd_same [of h R a pb pb'] by (simp add: heap_ok_def links_upd_same)

section \<open>Packets\<close>

definition pb_data :: "pbuf \<Rightarrow> u8 list" where
  "pb_data pb = take (unat (pb_len pb)) (drop (pb_payload pb) (pb_mem pb))"

definition pb_wf :: "pbuf \<Rightarrow> bool" where
  "pb_wf pb \<longleftrightarrow> pb_payload pb + unat (pb_len pb) \<le> length (pb_mem pb)"

lemma length_pb_data [simp]: "pb_wf pb \<Longrightarrow> length (pb_data pb) = unat (pb_len pb)"
  by (simp add: pb_wf_def pb_data_def)

text \<open>\<open>chain h p ps\<close>: the chain that starts at \<open>p\<close> consists of the pbufs \<open>ps\<close>.\<close>

fun chain :: "heap \<Rightarrow> nat option \<Rightarrow> nat list \<Rightarrow> bool" where
  "chain h p [] \<longleftrightarrow> p = None"
| "chain h p (a # ps) \<longleftrightarrow> p = Some a \<and> (\<exists>pb. fmlookup h a = Some pb \<and> chain h (pb_next pb) ps)"

lemma chain_None [simp]: "chain h None ps \<longleftrightarrow> ps = []"
  by (cases ps) auto

lemma chain_Some: "chain h (Some a) ps \<longleftrightarrow> (\<exists>pb qs. ps = a # qs \<and> fmlookup h a = Some pb \<and> chain h (pb_next pb) qs)"
  by (cases ps) auto

lemma chain_unique: "chain h p ps \<Longrightarrow> chain h p qs \<Longrightarrow> ps = qs"
  by (induction ps arbitrary: p qs) (auto simp: chain_Some)

lemma chain_suffix: "chain h p (xs @ ys) \<Longrightarrow> \<exists>q. chain h q ys"
  by (induction xs arbitrary: p) auto

lemma chain_distinct: "chain h p ps \<Longrightarrow> distinct ps"
proof (induction ps arbitrary: p)
  case (Cons a ps)
  then obtain pb where pb: "fmlookup h a = Some pb" and cs: "chain h (pb_next pb) ps" and p: "p = Some a" by auto
  have "a \<notin> set ps"
  proof
    assume "a \<in> set ps"
    then obtain xs ys where ps: "ps = xs @ a # ys" by (meson split_list)
    then obtain q where ds: "chain h q (a # ys)" using cs chain_suffix by blast
    then have "q = Some a" by simp
    then show False using chain_unique [OF Cons.prems(1) [unfolded p], of "a # ys"] ds ps by simp
  qed
  with Cons.IH [OF cs] show ?case by simp
qed simp

lemma chain_dom: "chain h p ps \<Longrightarrow> a \<in> set ps \<Longrightarrow> a \<in> fmdom' h"
  by (induction ps arbitrary: p) (auto intro: fmdom'I)

lemma chain_fresh: "chain h p ps \<Longrightarrow> fmlookup h a = None \<Longrightarrow> a \<notin> set ps"
  by (induction ps arbitrary: p) auto

lemma chain_frame: "chain h p ps \<Longrightarrow> (\<And>a. a \<in> set ps \<Longrightarrow> fmlookup h' a = fmlookup h a) \<Longrightarrow> chain h' p ps"
  by (induction ps arbitrary: p) auto

text \<open>
  \<open>packet h p ps bs\<close>: moreover the chain holds the bytes \<open>bs\<close>, and in every pbuf \<open>tot_len\<close> is the length of
  what the chain holds from there on (the invariant of \<open>struct pbuf\<close>).
\<close>

fun packet :: "heap \<Rightarrow> nat option \<Rightarrow> nat list \<Rightarrow> u8 list \<Rightarrow> bool" where
  "packet h p [] bs \<longleftrightarrow> p = None \<and> bs = []"
| "packet h p (a # ps) bs \<longleftrightarrow> p = Some a \<and>
     (\<exists>pb. fmlookup h a = Some pb \<and> pb_wf pb \<and> unat (pb_tot_len pb) = length bs \<and>
        (\<exists>cs. bs = pb_data pb @ cs \<and> packet h (pb_next pb) ps cs))"

lemma packet_None [simp]: "packet h None ps bs \<longleftrightarrow> ps = [] \<and> bs = []"
  by (cases ps) auto

lemma packet_Some: "packet h (Some a) ps bs \<longleftrightarrow>
     (\<exists>pb qs cs. ps = a # qs \<and> fmlookup h a = Some pb \<and> pb_wf pb \<and> unat (pb_tot_len pb) = length bs \<and>
        bs = pb_data pb @ cs \<and> packet h (pb_next pb) qs cs)"
  by (cases ps) auto

lemma packet_chain: "packet h p ps bs \<Longrightarrow> chain h p ps"
  by (induction ps arbitrary: p bs) auto

lemmas packet_distinct = chain_distinct [OF packet_chain]
lemmas packet_dom = chain_dom [OF packet_chain]

lemma packet_frame: "packet h p ps bs \<Longrightarrow> (\<And>a. a \<in> set ps \<Longrightarrow> fmlookup h' a = fmlookup h a) \<Longrightarrow> packet h' p ps bs"
  by (induction ps arbitrary: p bs) auto

lemma packet_upd_other [simp]: "a \<notin> set ps \<Longrightarrow> packet (fmupd a pb h) p ps bs \<longleftrightarrow> packet h p ps bs"
  by (rule iffI; erule packet_frame) auto

lemma packet_same_but_refs:
  "packet h p ps bs \<Longrightarrow> same_but_refs h' h \<Longrightarrow> set ps \<subseteq> fmdom' h' \<Longrightarrow> packet h' p ps bs"
proof (induction ps arbitrary: p bs)
  case (Cons a ps)
  then obtain pb cs where 1: "p = Some a" "fmlookup h a = Some pb" "pb_wf pb" "unat (pb_tot_len pb) = length bs"
    "bs = pb_data pb @ cs" "packet h (pb_next pb) ps cs" by auto
  obtain pb' where 2: "fmlookup h' a = Some pb'" using Cons.prems(3) by (auto simp: fmlookup_dom'_iff)
  then obtain r where "pb' = pb\<lparr>pb_ref := r\<rparr>" using same_but_refsE [OF Cons.prems(2) _ 1(2)] by blast
  then have "pb_next pb' = pb_next pb" "pb_wf pb' = pb_wf pb" "pb_tot_len pb' = pb_tot_len pb" "pb_data pb' = pb_data pb"
    by (simp_all add: pb_wf_def pb_data_def)
  then show ?case using 1 2 Cons.IH [OF 1(6)] Cons.prems by auto
qed simp

text \<open>Pbufs that are reached from an owner are never deallocated by others.\<close>

lemma rc_ok_chain_dom:
  assumes "same_but_refs h' h" "rc_ok h' R"
  shows "chain h p ps \<Longrightarrow> (p \<noteq> None \<Longrightarrow> the p \<in> fmdom' h') \<Longrightarrow> set ps \<subseteq> fmdom' h'"
proof (induction ps arbitrary: p)
  case (Cons a ps)
  then obtain pb where 1: "fmlookup h a = Some pb" "chain h (pb_next pb) ps" "p = Some a" by auto
  obtain pb' where 2: "fmlookup h' a = Some pb'" using Cons.prems(2) 1(3) by (auto simp: fmlookup_dom'_iff)
  then obtain r where "pb' = pb\<lparr>pb_ref := r\<rparr>" using same_but_refsE [OF assms(1) _ 1(1)] by blast
  then have n: "pb_next pb' = pb_next pb" by simp
  have "pb_next pb \<noteq> None \<Longrightarrow> the (pb_next pb) \<in> fmdom' h'"
    using rc_ok_next_dom [OF assms(2) 2] n by auto
  then show ?case using Cons.IH [OF 1(2)] 2 by (auto intro: fmdom'I)
qed simp

lemma packet_survives:
  assumes "packet h p ps bs" "same_but_refs h' h" "rc_ok h' R" "\<And>a. p = Some a \<Longrightarrow> a \<in># R"
  shows "packet h' p ps bs"
proof (rule packet_same_but_refs [OF assms(1,2)])
  show "set ps \<subseteq> fmdom' h'"
    by (rule rc_ok_chain_dom [OF assms(2,3) packet_chain [OF assms(1)]]) (auto simp: assms(4) rc_ok_owner_dom [OF assms(3)])
qed

lemma pbuf_clen_loop_chain: "chain h p ps \<Longrightarrow> pbuf_clen_loop n p h = Some (Inr (n + of_nat (length ps)))"
proof (induction ps arbitrary: p n)
  case (Cons a ps)
  then show ?case by (subst pbuf_clen_loop.simps) (auto simp: algebra_simps)
qed (simp add: pbuf_clen_loop.simps)

lemma pbuf_clen_chain: "chain h p ps \<Longrightarrow> pbuf_clen p h = Some (Inr (of_nat (length ps)))"
  by (simp add: pbuf_clen_def pbuf_clen_loop_chain)

section \<open>Allocation\<close>

definition malloc_ok :: "memlib \<Rightarrow> bool" where
  "malloc_ok L \<longleftrightarrow> (\<forall>n h a bs. malloc L n h = Some (a, bs) \<longrightarrow> fmlookup h a = None \<and> length bs = n)"

text \<open>The bytes of new blocks do not look like the flag of custom pbufs.\<close>

definition malloc_clean :: "memlib \<Rightarrow> bool" where
  "malloc_clean L \<longleftrightarrow> (\<forall>n h a bs. malloc L n h = Some (a, bs) \<and> 13 < n \<longrightarrow> bs ! 13 AND PBUF_FLAG_IS_CUSTOM = 0)"

lemma malloc_okD:
  assumes "malloc_ok L" "malloc L n h = Some (a, bs)"
  shows "fmlookup h a = None" "length bs = n"
  using assms by (auto simp: malloc_ok_def)

lemma rc_ok_new:
  assumes "rc_ok h R" "fmlookup h a = None" "pb_ref pb = 1" "pb_next pb = None" "pb_flags pb AND PBUF_FLAG_IS_CUSTOM = 0"
  shows "rc_ok (fmupd a pb h) (add_mset a R)"
proof -
  have "refs h a = 0" using assms(2) by (simp add: refs_def)
  then show ?thesis using assms rc_okD(1) [OF assms(1)]
    by (auto simp: rc_ok_def ptrs_upd_new next_ptrs_def)
qed

text \<open>A pointer of the program that is stored in the last pbuf of a chain, and the converse.\<close>

lemma rc_ok_link:
  assumes "rc_ok h (add_mset q R)" "fmlookup h r = Some rb" "pb_next rb = None" "pb_next rb' = Some q" "pb_ref rb' = pb_ref rb"
    "pb_flags rb' = pb_flags rb"
  shows "rc_ok (fmupd r rb' h) R"
proof -
  have "ptrs (fmupd r rb' h) = ptrs h + {#q#}" using ptrs_upd [OF assms(2), of rb'] assms(3,4) by (simp add: next_ptrs_def)
  moreover have "refs (fmupd r rb' h) b = refs h b" for b using assms(2,5) by (auto simp: refs_def)
  ultimately show ?thesis using assms rc_okD(1) [OF assms(1)] by (auto simp: rc_ok_def)
qed

lemma rc_ok_unlink:
  assumes "rc_ok h R" "fmlookup h r = Some rb" "pb_next rb = Some q" "pb_next rb' = None" "pb_ref rb' = pb_ref rb"
    "pb_flags rb' = pb_flags rb"
  shows "rc_ok (fmupd r rb' h) (add_mset q R)"
proof -
  have "ptrs (fmupd r rb' h) + {#q#} = ptrs h" using ptrs_upd [OF assms(2), of rb'] assms(3,4) by (simp add: next_ptrs_def)
  then have "count (ptrs h) b = count (ptrs (fmupd r rb' h)) b + count {#q#} b" for b by (metis count_union)
  moreover have "refs (fmupd r rb' h) b = refs h b" for b using assms(2,5) by (auto simp: refs_def)
  ultimately show ?thesis using assms rc_okD(1) [OF assms(1)] by (auto simp: rc_ok_def)
qed

text \<open>A chain of which every pbuf has one reference is freed as a whole.\<close>

definition single :: "heap \<Rightarrow> nat \<Rightarrow> bool" where
  "single h a \<longleftrightarrow> (\<exists>pb. fmlookup h a = Some pb \<and> pb_ref pb = 1 \<and> pb_flags pb AND PBUF_FLAG_IS_CUSTOM = 0)"

lemma pbuf_free_loop_single:
  "chain h p ps \<Longrightarrow> (\<And>a. a \<in> set ps \<Longrightarrow> single h a) \<Longrightarrow>
   pbuf_free_loop L cnt p h = Some (Inr (cnt + of_nat (length ps), fmdrop_set (set ps) h))"
proof (induction ps arbitrary: p cnt h)
  case (Cons a ps)
  from chain_distinct [OF Cons.prems(1)] have a: "a \<notin> set ps" by simp
  obtain pb where pb: "p = Some a" "fmlookup h a = Some pb" "chain h (pb_next pb) ps" using Cons.prems(1) by auto
  have s: "pb_ref pb = 1" "pb_flags pb AND PBUF_FLAG_IS_CUSTOM = 0"
    using Cons.prems(2) [of a] pb(2) by (auto simp: single_def)
  have "chain (fmdrop a h) (pb_next pb) ps" by (rule chain_frame [OF pb(3)]) (use a in auto)
  moreover have "single (fmdrop a h) b" if "b \<in> set ps" for b
    using Cons.prems(2) [of b] that a by (auto simp: single_def)
  ultimately have "pbuf_free_loop L (cnt + 1) (pb_next pb) (fmdrop a h) =
      Some (Inr (cnt + 1 + of_nat (length ps), fmdrop_set (set ps) (fmdrop a h)))"
    by (rule Cons.IH)
  moreover have "fmdrop_set (set ps) (fmdrop a h) = fmdrop_set (set (a # ps)) h"
    by (rule fmap_ext) auto
  ultimately show ?case using pb s by (simp add: pbuf_free_loop_Some algebra_simps)
qed (simp add: fmdrop_set_null)

text \<open>
  The chain under construction: it shall hold \<open>n\<close> bytes, of which \<open>m\<close> are still missing.
\<close>

fun lens :: "heap \<Rightarrow> nat \<Rightarrow> nat list \<Rightarrow> nat \<Rightarrow> bool" where
  "lens h n [] m \<longleftrightarrow> n = m"
| "lens h n (a # ps) m \<longleftrightarrow> (\<exists>pb. fmlookup h a = Some pb \<and> pb_wf pb \<and> unat (pb_tot_len pb) = n \<and> unat (pb_len pb) \<le> n \<and>
     lens h (n - unat (pb_len pb)) ps m)"

lemma lens_append: "lens h n (ps @ qs) m \<longleftrightarrow> (\<exists>k. lens h n ps k \<and> lens h k qs m)"
  by (induction ps arbitrary: n) auto

definition same_lens :: "pbuf \<Rightarrow> pbuf \<Rightarrow> bool" where
  "same_lens pb pb' \<longleftrightarrow> pb_wf pb' = pb_wf pb \<and> pb_tot_len pb' = pb_tot_len pb \<and> pb_len pb' = pb_len pb"

lemma lens_cong:
  "lens h n ps m \<Longrightarrow> (\<And>a pb. a \<in> set ps \<Longrightarrow> fmlookup h a = Some pb \<Longrightarrow> \<exists>pb'. fmlookup h' a = Some pb' \<and> same_lens pb pb') \<Longrightarrow> lens h' n ps m"
proof (induction ps arbitrary: n)
  case (Cons a ps)
  from Cons.prems(1) obtain pb where 1: "fmlookup h a = Some pb" "pb_wf pb" "unat (pb_tot_len pb) = n" "unat (pb_len pb) \<le> n"
    "lens h (n - unat (pb_len pb)) ps m" by auto
  obtain pb' where 2: "fmlookup h' a = Some pb'" "same_lens pb pb'" using Cons.prems(2) [of a pb] 1(1) by auto
  have "lens h' (n - unat (pb_len pb)) ps m" by (rule Cons.IH [OF 1(5)]) (use Cons.prems(2) in auto)
  then show ?case using 1 2 by (auto simp: same_lens_def)
qed simp

lemma lens_packet: "chain h p ps \<Longrightarrow> lens h n ps 0 \<Longrightarrow> \<exists>bs. packet h p ps bs \<and> length bs = n"
proof (induction ps arbitrary: p n)
  case (Cons a ps)
  from Cons.prems obtain pb where 1: "p = Some a" "fmlookup h a = Some pb" "chain h (pb_next pb) ps" "pb_wf pb"
    "unat (pb_tot_len pb) = n" "unat (pb_len pb) \<le> n" "lens h (n - unat (pb_len pb)) ps 0" by auto
  from Cons.IH [OF 1(3,7)] obtain cs where cs: "packet h (pb_next pb) ps cs" "length cs = n - unat (pb_len pb)" by blast
  then have "packet h p (a # ps) (pb_data pb @ cs) \<and> length (pb_data pb @ cs) = n" using 1 by auto
  then show ?case by blast
qed simp

lemma chain_snoc:
  assumes "chain h p ps" "ps \<noteq> []" "q \<notin> set ps" "fmlookup h' q = Some qb" "pb_next qb = None"
    and "fmlookup h' (last ps) = Some rb" "pb_next rb = Some q"
    and "\<And>a. a \<in> set ps \<Longrightarrow> a \<noteq> last ps \<Longrightarrow> fmlookup h' a = fmlookup h a"
  shows "chain h' p (ps @ [q])"
  using assms
proof (induction ps arbitrary: p)
  case (Cons a ps)
  show ?case
  proof (cases "ps = []")
    case True
    then show ?thesis using Cons.prems by auto
  next
    case False
    from chain_distinct [OF Cons.prems(1)] have "a \<noteq> last ps" using False by auto
    then have "fmlookup h' a = fmlookup h a" using Cons.prems(8) [of a] False by simp
    moreover obtain pb where pb: "p = Some a" "fmlookup h a = Some pb" "chain h (pb_next pb) ps" using Cons.prems(1) by auto
    moreover have "chain h' (pb_next pb) (ps @ [q])" by (rule Cons.IH [OF pb(3)]) (use Cons.prems False in auto)
    ultimately show ?thesis by auto
  qed
qed simp

definition building :: "heap \<Rightarrow> nat multiset \<Rightarrow> nat \<Rightarrow> nat \<Rightarrow> nat \<Rightarrow> nat \<Rightarrow> nat list \<Rightarrow> heap \<Rightarrow> bool" where
  "building h0 R p r n m ps h \<longleftrightarrow>
     ps \<noteq> [] \<and> last ps = r \<and> chain h (Some p) ps \<and> lens h n ps m \<and> fmdrop_set (set ps) h = h0 \<and> (\<forall>a\<in>set ps. single h a) \<and>
     (\<forall>pb. fmlookup h r = Some pb \<longrightarrow> pb_next pb = None) \<and> rc_ok h (add_mset p R)"

lemma building_step:
  assumes B: "building h0 R p r n m ps h" and q: "fmlookup h q = None"
    and pb: "pb_next pb = None" "pb_ref pb = 1" "pb_flags pb AND PBUF_FLAG_IS_CUSTOM = 0" "pb_wf pb" "unat (pb_tot_len pb) = m" "unat (pb_len pb) \<le> m"
  shows "building h0 R p q n (m - unat (pb_len pb)) (ps @ [q]) (set_next r (Some q) (fmupd q pb h))"
proof -
  from B have ps: "ps \<noteq> []" "last ps = r" "chain h (Some p) ps" "lens h n ps m" "fmdrop_set (set ps) h = h0"
    "\<forall>a\<in>set ps. single h a" "\<forall>pb. fmlookup h r = Some pb \<longrightarrow> pb_next pb = None" "rc_ok h (add_mset p R)"
    by (auto simp: building_def)
  have r: "r \<in> set ps" using ps(1,2) by auto
  then obtain rb where rb: "fmlookup h r = Some rb" using chain_dom [OF ps(3)] by (auto simp: fmlookup_dom'_iff)
  have qr: "q \<notin> set ps" by (rule chain_fresh [OF ps(3) q])
  let ?rb = "rb\<lparr>pb_next := Some q\<rparr>"
  have h': "set_next r (Some q) (fmupd q pb h) = fmupd r ?rb (fmupd q pb h)" (is "_ = ?h")
    using rb qr r by (auto simp: set_next_def)
  have c: "chain ?h (Some p) (ps @ [q])"
    by (rule chain_snoc [OF ps(3,1) qr, of _ pb ?rb]) (use ps(2) qr r pb(1) in auto)
  have l: "lens ?h n ps m"
    by (rule lens_cong [OF ps(4)]) (use rb qr in \<open>auto simp: same_lens_def pb_wf_def\<close>)
  have l': "lens ?h m [q] (m - unat (pb_len pb))" using pb qr r by auto
  have d: "fmdrop_set (set (ps @ [q])) ?h = h0"
    unfolding ps(5) [symmetric] by (rule fmap_ext) (use q r in auto)
  have s: "\<forall>a\<in>set (ps @ [q]). single ?h a" using ps(6) pb rb r qr by (auto simp: single_def)
  have "rc_ok (fmupd q pb h) (add_mset q (add_mset p R))" by (rule rc_ok_new [OF ps(8) q pb(2,1,3)])
  then have "rc_ok ?h (add_mset p R)" by (rule rc_ok_link [of _ q _ r rb]) (use rb ps(7) qr r in auto)
  then show ?thesis using c l l' d s pb(1) qr r unfolding h' by (auto simp: building_def lens_append)
qed

lemma pool_tail_ok:
  assumes "malloc_ok L" "n < 65536"
  shows "building h0 R p r n m ps h \<Longrightarrow> m < 65535 \<Longrightarrow>
    pool_tail L p r m h = Some (Inr (None, h0)) \<or>
    (\<exists>r' qs h'. pool_tail L p r m h = Some (Inr (Some p, h')) \<and> building h0 R p r' n 0 qs h')"
proof (induction m arbitrary: r ps h rule: less_induct)
  case (less m)
  note B = less.prems(1)
  show ?case
  proof (cases "m = 0")
    case True
    then have "pool_tail L p r m h = Some (Inr (Some p, h))" by (subst pool_tail.simps) simp
    then show ?thesis using B True by blast
  next
    case False
    show ?thesis
    proof (cases "malloc L (SIZEOF_STRUCT_PBUF + PBUF_POOL_BUFSIZE_ALIGNED) h")
      case None
      have "chain h (Some p) ps" "\<And>a. a \<in> set ps \<Longrightarrow> single h a" "fmdrop_set (set ps) h = h0"
        using B by (auto simp: building_def)
      then have "pbuf_free L (Some p) h = Some (Inr (of_nat (length ps), h0))"
        using pbuf_free_loop_single [of h "Some p" ps L 0] by (simp add: pbuf_free_def)
      then show ?thesis using None False by (subst pool_tail.simps) simp
    next
      case (Some qbs)
      then obtain q bs where q: "malloc L (SIZEOF_STRUCT_PBUF + PBUF_POOL_BUFSIZE_ALIGNED) h = Some (q, bs)" by (cases qbs) auto
      let ?ln = "min m PBUF_POOL_BUFSIZE_ALIGNED"
      let ?pb = "(raw_pbuf bs)\<lparr>pb_type := PBUF_POOL, pb_flags := 0, pb_next := None, pb_tot_len := of_nat m,
                  pb_len := of_nat ?ln, pb_payload := 0, pb_ref := 1\<rparr>"
      have u: "unat (of_nat m :: u16) = m" "unat (of_nat ?ln :: u16) = ?ln"
        using less.prems(2) by (simp_all add: unat_of_nat min_def)
      have "pb_wf ?pb" using malloc_okD(2) [OF assms(1) q] u by (simp add: pb_wf_def raw_pbuf_def)
      then have "building h0 R p q n (m - unat (pb_len ?pb)) (ps @ [q]) (set_next r (Some q) (fmupd q ?pb h))"
        by (intro building_step [OF B malloc_okD(1) [OF assms(1) q]]) (simp_all add: u)
      then have "building h0 R p q n (m - ?ln) (ps @ [q]) (set_next r (Some q) (fmupd q ?pb h))" by (simp add: u)
      moreover have "m - ?ln < m" using False by (simp add: pbuf_consts)
      ultimately have "pool_tail L p q (m - ?ln) (set_next r (Some q) (fmupd q ?pb h)) = Some (Inr (None, h0)) \<or>
          (\<exists>r' qs h'. pool_tail L p q (m - ?ln) (set_next r (Some q) (fmupd q ?pb h)) = Some (Inr (Some p, h')) \<and> building h0 R p r' n 0 qs h')"
        using less.prems(2) by (intro less.IH) auto
      moreover have "pool_tail L p r m h = pool_tail L p q (m - ?ln) (set_next r (Some q) (fmupd q ?pb h))"
        using False q less.prems(2) by (subst pool_tail.simps) (simp add: Let_def)
      ultimately show ?thesis by metis
    qed
  qed
qed

text \<open>What a successful allocation of \<open>n\<close> bytes gives: a new packet, owned by the caller; the other pbufs are unchanged.\<close>

definition allocated :: "heap \<Rightarrow> nat multiset \<Rightarrow> nat \<Rightarrow> nat \<Rightarrow> heap \<Rightarrow> bool" where
  "allocated h R n p h' \<longleftrightarrow>
     (\<exists>ps bs. packet h' (Some p) ps bs \<and> length bs = n \<and> fmdrop_set (set ps) h' = h) \<and> rc_ok h' (add_mset p R)"

lemma building_allocated:
  assumes "building h0 R p r n 0 ps h" "fmlookup h p = Some pb" "pb' = pb\<lparr>pb_ref := 1, pb_flags := 0\<rparr>"
  shows "allocated h0 R n p (fmupd p pb' h)"
proof -
  from assms(1) have ps: "chain h (Some p) ps" "lens h n ps 0" "fmdrop_set (set ps) h = h0" "rc_ok h (add_mset p R)" "single h p"
    by (auto simp: building_def chain_Some)
  then obtain bs where bs: "packet h (Some p) ps bs" "length bs = n" using lens_packet by blast
  have r: "pb_ref pb = 1" using ps(5) assms(2) by (auto simp: single_def)
  obtain qs cs where q: "ps = p # qs" "p \<notin> set qs" "pb_wf pb" "unat (pb_tot_len pb) = length bs" "bs = pb_data pb @ cs"
      "packet h (pb_next pb) qs cs"
    using bs(1) assms(2) packet_distinct [OF bs(1)] by (auto simp: packet_Some)
  have "pb_wf pb'" "pb_data pb' = pb_data pb" "pb_tot_len pb' = pb_tot_len pb" "pb_next pb' = pb_next pb"
    using q(3) assms(3) by (simp_all add: pb_wf_def pb_data_def)
  then have "packet (fmupd p pb' h) (Some p) ps bs" using q by simp
  moreover have "fmdrop_set (set ps) (fmupd p pb' h) = h0" unfolding ps(3) [symmetric] by (rule fmap_ext) (use q in auto)
  moreover have "rc_ok (fmupd p pb' h) (add_mset p R)"
    by (rule rc_ok_upd_same [OF ps(4) assms(2)]) (simp_all add: assms(3) r)
  ultimately show ?thesis using bs(2) unfolding allocated_def by blast
qed

lemma building_start:
  assumes "rc_ok h R" "fmlookup h p = None" "pb_ref pb = 1" "pb_next pb = None" "pb_flags pb AND PBUF_FLAG_IS_CUSTOM = 0"
    "pb_wf pb" "unat (pb_tot_len pb) = n" "unat (pb_len pb) \<le> n"
  shows "building h R p p n (n - unat (pb_len pb)) [p] (fmupd p pb h)"
proof -
  have "fmdrop_set {p} (fmupd p pb h) = h" by (rule fmap_ext) (use assms(2) in auto)
  then show ?thesis using assms rc_ok_new [OF assms(1-5)] by (auto simp: building_def single_def)
qed

lemma pbuf_alloc_single:
  assumes "rc_ok h R" "fmlookup h p = None" "pb_next pb = None" "pb_wf pb" "unat (pb_tot_len pb) = n" "unat (pb_len pb) = n"
    "pb' = pb\<lparr>pb_ref := 1, pb_flags := 0\<rparr>"
  shows "allocated h R n p (fmupd p pb' h)"
proof -
  have "building h R p p n 0 [p] (fmupd p pb' h)"
    using building_start [OF assms(1,2), of pb' n] assms(3-7) by (simp add: pb_wf_def)
  then have "allocated h R n p (fmupd p pb' (fmupd p pb' h))" by (rule building_allocated [of _ _ _ _ _ _ _ pb']) (simp_all add: assms(7))
  then show ?thesis by simp
qed

lemma pool_capacity_pos: "PBUF_POOL_BUFSIZE_ALIGNED - LWIP_MEM_ALIGN_SIZE (layer_offset layer) \<ge> 1460"
  by (cases layer) (simp_all add: pbuf_consts)

lemma pbuf_alloc_POOL:
  assumes "malloc_ok L" "malloc_clean L" "rc_ok h R"
  shows "pbuf_alloc L layer len PBUF_POOL h = Some (Inr (None, h)) \<or>
    (\<exists>p h'. pbuf_alloc L layer len PBUF_POOL h = Some (Inr (Some p, h')) \<and> allocated h R (unat len) p h')"
proof (cases "malloc L (SIZEOF_STRUCT_PBUF + PBUF_POOL_BUFSIZE_ALIGNED) h")
  case None
  then show ?thesis by (simp add: pbuf_alloc_def)
next
  case (Some pbs)
  then obtain p bs where p: "malloc L (SIZEOF_STRUCT_PBUF + PBUF_POOL_BUFSIZE_ALIGNED) h = Some (p, bs)" by (cases pbs) auto
  let ?o = "LWIP_MEM_ALIGN_SIZE (layer_offset layer)"
  let ?ln = "min (unat len) (PBUF_POOL_BUFSIZE_ALIGNED - ?o)"
  let ?pb = "(raw_pbuf bs)\<lparr>pb_type := PBUF_POOL, pb_next := None, pb_payload := ?o, pb_tot_len := len, pb_len := of_nat ?ln, pb_ref := 1\<rparr>"
  have lt: "unat len < 65536" using unsigned_less [of len] by simp
  then have "?ln < 65536" by (rule min.strict_coboundedI1)
  then have u: "unat (of_nat ?ln :: u16) = ?ln" by (simp add: unat_of_nat)
  have "?o \<le> PBUF_POOL_BUFSIZE_ALIGNED" by (cases layer) (simp_all add: pbuf_consts)
  then have "pb_wf ?pb" using malloc_okD(2) [OF assms(1) p] u by (simp add: pb_wf_def raw_pbuf_def)
  moreover have "bs ! 13 AND PBUF_FLAG_IS_CUSTOM = 0"
  proof -
    have "13 < SIZEOF_STRUCT_PBUF + PBUF_POOL_BUFSIZE_ALIGNED" by (simp add: pbuf_consts)
    then show ?thesis using assms(2) p unfolding malloc_clean_def by blast
  qed
  ultimately have "building h R p p (unat len) (unat len - unat (pb_len ?pb)) [p] (fmupd p ?pb h)"
    using p by (intro building_start [OF assms(3) malloc_okD(1) [OF assms(1) p]]) (auto simp: u raw_pbuf_def)
  then have B: "building h R p p (unat len) (unat len - ?ln) [p] (fmupd p ?pb h)" by (simp add: u)
  have "unat len - ?ln < 65535" using lt pool_capacity_pos [of layer] by linarith
  from pool_tail_ok [OF assms(1) _ B this]
  consider "pool_tail L p p (unat len - ?ln) (fmupd p ?pb h) = Some (Inr (None, h))"
    | r qs h' where "pool_tail L p p (unat len - ?ln) (fmupd p ?pb h) = Some (Inr (Some p, h'))" "building h R p r (unat len) 0 qs h'"
    using lt by auto
  then show ?thesis
  proof cases
    case 1
    then show ?thesis using p by (simp add: pbuf_alloc_def Let_def)
  next
    case 2
    then obtain pb where pb: "fmlookup h' p = Some pb" by (auto simp: building_def chain_Some)
    show ?thesis using p 2(1) pb building_allocated [OF 2(2) pb refl] by (simp add: pbuf_alloc_def Let_def)
  qed
qed

lemma align_ge: "n \<le> LWIP_MEM_ALIGN_SIZE n"
  by (simp add: LWIP_MEM_ALIGN_SIZE_def)

lemma pbuf_alloc_RAM:
  assumes "malloc_ok L" "rc_ok h R"
  shows "pbuf_alloc L layer len PBUF_RAM h = Some (Inr (None, h)) \<or>
    (\<exists>p h'. pbuf_alloc L layer len PBUF_RAM h = Some (Inr (Some p, h')) \<and> allocated h R (unat len) p h')"
proof -
  let ?s = "LWIP_MEM_ALIGN_SIZE (SIZEOF_STRUCT_PBUF + layer_offset layer)"
  consider "malloc L (?s + LWIP_MEM_ALIGN_SIZE (unat len)) h = None"
    | p bs where "malloc L (?s + LWIP_MEM_ALIGN_SIZE (unat len)) h = Some (p, bs)" by force
  then show ?thesis
  proof cases
    case 1
    then show ?thesis by (simp add: pbuf_alloc_def)
  next
    case 2
    have "SIZEOF_STRUCT_PBUF \<le> ?s" by (rule order_trans [OF le_add1 align_ge])
    then have "unat len + (?s - SIZEOF_STRUCT_PBUF) \<le> length bs - SIZEOF_STRUCT_PBUF"
      using malloc_okD(2) [OF assms(1) 2] align_ge [of "unat len"] by simp
    then show ?thesis using 2 malloc_okD(1) [OF assms(1) 2]
      by (simp add: pbuf_alloc_def Let_def)
        (rule pbuf_alloc_single [OF assms(2), where pb = "(raw_pbuf bs)\<lparr>pb_payload := ?s - SIZEOF_STRUCT_PBUF, pb_len := len,
            pb_tot_len := len, pb_next := None, pb_type := PBUF_RAM\<rparr>"]; simp add: pb_wf_def raw_pbuf_def)
  qed
qed

section \<open>The contract of the buffer store\<close>

text \<open>Releasing a list of buffers, one after the other.\<close>

fun release_seq :: "('b \<Rightarrow> 'h \<Rightarrow> ('c \<times> 'h) res option) \<Rightarrow> 'b list \<Rightarrow> 'h \<Rightarrow> 'h res option" where
  "release_seq free [] h = Some (Inr h)"
| "release_seq free (a # as) h =
     (case free a h of None \<Rightarrow> None | Some (Inl e) \<Rightarrow> Some (Inl e) | Some (Inr (_, h)) \<Rightarrow> release_seq free as h)"

text \<open>
  What the drivers and the stack rely on when they allocate, share and release buffers: \<open>ok h R\<close> says that
  the store \<open>h\<close> is consistent when \<open>R\<close> are the pointers its users hold.
\<close>

locale buffer_store =
  fixes ok :: "'h \<Rightarrow> 'b multiset \<Rightarrow> bool"
    and alloc :: "'h \<Rightarrow> ('b option \<times> 'h) res option"
    and release :: "'b \<Rightarrow> 'h \<Rightarrow> ('c \<times> 'h) res option"
  assumes alloc_law: "ok h R \<Longrightarrow> \<exists>p h'. alloc h = Some (Inr (p, h')) \<and> ok h' (R + (case p of None \<Rightarrow> {#} | Some a \<Rightarrow> {#a#}))"
    and release_law: "ok h (add_mset a R) \<Longrightarrow> \<exists>n h'. release a h = Some (Inr (n, h')) \<and> ok h' R"
begin

text \<open>Releasing what one holds, in any order, returns the store to the other users.\<close>

lemma release_all_ok: "ok h (mset as + R) \<Longrightarrow> \<exists>h'. release_seq release as h = Some (Inr h') \<and> ok h' R"
proof (induction as arbitrary: h)
  case (Cons a as)
  then obtain n h' where "release a h = Some (Inr (n, h'))" "ok h' (mset as + R)"
    using release_law [of h a "mset as + R"] by auto
  then show ?case using Cons.IH by simp
qed simp

end

definition store_ok :: "memlib \<times> heap \<Rightarrow> nat multiset \<Rightarrow> bool" where
  "store_ok s R \<longleftrightarrow> malloc_ok (fst s) \<and> heap_ok (snd s) R"

definition store_alloc :: "pbuf_layer \<Rightarrow> u16 \<Rightarrow> memlib \<times> heap \<Rightarrow> (nat option \<times> memlib \<times> heap) res option" where
  "store_alloc layer len s =
     map_option (map_sum id (\<lambda>(p, h). (p, fst s, h))) (pbuf_alloc (fst s) layer len PBUF_RAM (snd s))"

definition store_free :: "nat \<Rightarrow> memlib \<times> heap \<Rightarrow> (u8 \<times> memlib \<times> heap) res option" where
  "store_free a s = map_option (map_sum id (\<lambda>(n, h). (n, fst s, h))) (pbuf_free (fst s) (Some a) (snd s))"

lemma allocated_single_links:
  assumes "pbuf_alloc L layer len PBUF_RAM h = Some (Inr (Some p, h'))" "malloc_ok L"
  obtains pb where "h' = fmupd p pb h" "pb_next pb = None" "fmlookup h p = None" "pb_type pb = PBUF_RAM" "pb_ref pb = 1" "pb_flags pb = 0"
    "pb_len pb = len" "pb_tot_len pb = len" "unat len + pb_payload pb \<le> length (pb_mem pb)"
proof -
  let ?s = "LWIP_MEM_ALIGN_SIZE (SIZEOF_STRUCT_PBUF + layer_offset layer)"
  obtain bs where m: "malloc L (?s + LWIP_MEM_ALIGN_SIZE (unat len)) h = Some (p, bs)"
    and h': "h' = fmupd p ((raw_pbuf bs)\<lparr>pb_payload := ?s - SIZEOF_STRUCT_PBUF, pb_len := len, pb_tot_len := len, pb_next := None,
        pb_type := PBUF_RAM, pb_ref := 1, pb_flags := 0\<rparr>) h"
    using assms(1) by (auto simp: pbuf_alloc_def Let_def split: option.splits prod.splits if_splits)
  have "SIZEOF_STRUCT_PBUF \<le> ?s" by (rule order_trans [OF le_add1 align_ge])
  then have "unat len + (?s - SIZEOF_STRUCT_PBUF) \<le> length bs - SIZEOF_STRUCT_PBUF"
    using malloc_okD(2) [OF assms(2) m] align_ge [of "unat len"] by simp
  then show thesis using malloc_okD(1) [OF assms(2) m] by (intro that [OF h']) (simp_all add: raw_pbuf_def)
qed

lemma heap_ok_alloc:
  assumes "malloc_ok L" "heap_ok h R"
  shows "\<exists>p h'. pbuf_alloc L layer len PBUF_RAM h = Some (Inr (p, h')) \<and> heap_ok h' (R + owner p)"
  using pbuf_alloc_RAM [OF assms(1) heap_okD [OF assms(2)], of layer len]
proof
  assume "\<exists>p h'. pbuf_alloc L layer len PBUF_RAM h = Some (Inr (Some p, h')) \<and> allocated h R (unat len) p h'"
  then obtain p h' where h': "pbuf_alloc L layer len PBUF_RAM h = Some (Inr (Some p, h'))" "rc_ok h' (add_mset p R)"
    by (auto simp: allocated_def)
  obtain pb where "h' = fmupd p pb h" "pb_next pb = None" "fmlookup h p = None"
    by (rule allocated_single_links [OF h'(1) assms(1)])
  then have "links h' = links h" by (auto simp: links_def split: if_splits)
  then show ?thesis using h' assms(2) by (auto simp: heap_ok_def)
qed (use assms in auto)

interpretation ps: buffer_store store_ok "store_alloc layer len" store_free for layer len
proof
  show "\<exists>p s'. store_alloc layer len s = Some (Inr (p, s')) \<and> store_ok s' (R + (case p of None \<Rightarrow> {#} | Some a \<Rightarrow> {#a#}))"
    if "store_ok s R" for s R layer len
    using heap_ok_alloc [of "fst s" "snd s" R layer len] that
    by (auto simp: store_ok_def store_alloc_def owner_def)
  show "\<exists>n s'. store_free a s = Some (Inr (n, s')) \<and> store_ok s' R" if ok: "store_ok s (add_mset a R)" for s a R
  proof -
    obtain n h' where "pbuf_free (fst s) (Some a) (snd s) = Some (Inr (n, h'))" "heap_ok h' R"
      by (rule heap_ok_free [of "snd s" a R]) (use ok in \<open>simp add: store_ok_def\<close>)
    then show ?thesis using ok by (auto simp: store_ok_def store_free_def)
  qed
qed

section \<open>Examples\<close>

text \<open>A library whose \<open>malloc\<close> gives the next address, and a heap with a chain of two pbufs.\<close>

definition ex_lib :: memlib where
  "ex_lib = \<lparr>malloc = (\<lambda>n h. Some (Suc (fMax (finsert 0 (fmdom h))), replicate n 0)),
             custom_free_function = (\<lambda>a h. Some (Inr h))\<rparr>"

definition ex_pb :: "nat option \<Rightarrow> u8 list \<Rightarrow> nat \<Rightarrow> pbuf" where
  "ex_pb q bs n = \<lparr>pb_next = q, pb_mem = bs, pb_payload = 0, pb_tot_len = of_nat n, pb_len = of_nat (length bs),
                   pb_type = PBUF_RAM, pb_flags = 0, pb_ref = 1\<rparr>"

definition ex_heap :: heap where
  "ex_heap = fmupd 1 (ex_pb (Some 2) [10, 11] 3) (fmupd 2 (ex_pb None [12] 1) fmempty)"

lemma ex_lib_ok: "malloc_ok ex_lib" "malloc_clean ex_lib"
proof -
  have "fmlookup h (Suc (fMax (finsert 0 (fmdom h)))) = None" for h :: heap
  proof (rule ccontr)
    assume "fmlookup h (Suc (fMax (finsert 0 (fmdom h)))) \<noteq> None"
    then have "Suc (fMax (finsert 0 (fmdom h))) |\<in>| finsert 0 (fmdom h)" by (simp add: fmlookup_dom_iff)
    from fMax_ge [OF this] show False by simp
  qed
  then show "malloc_ok ex_lib" by (auto simp: malloc_ok_def ex_lib_def)
  show "malloc_clean ex_lib" by (auto simp: malloc_clean_def ex_lib_def)
qed

lemma ex_heap_ok: "heap_ok ex_heap {#1#}"
proof -
  have "ptrs ex_heap = {#2#}"
    unfolding ex_heap_def by (simp add: ptrs_upd_new next_ptrs_def ex_pb_def) (simp add: ptrs_def)
  moreover have "links ex_heap = {(1, 2)}" by (auto simp: links_def ex_heap_def ex_pb_def split: if_splits)
  ultimately show ?thesis
    by (auto simp: heap_ok_def rc_ok_def refs_def ex_heap_def ex_pb_def acyclic_def trancl_insert split: if_splits)
qed

lemma ex_packet: "packet ex_heap (Some 1) [1, 2] [10, 11, 12]"
  by (simp add: ex_heap_def ex_pb_def pb_wf_def pb_data_def)

section \<open>Properties\<close>

text \<open>
  C26: giving up one pointer to a packet always returns, never touches freed memory, keeps every reference
  count equal to the number of pointers, and leaves every packet that somebody else still points to
  unchanged.
\<close>

theorem pbuf_free_safe:
  assumes "heap_ok h (add_mset a R)"
  shows "\<exists>n h'. pbuf_free L (Some a) h = Some (Inr (n, h')) \<and> heap_ok h' R \<and>
           (\<forall>b ps bs. b \<in># R \<and> packet h (Some b) ps bs \<longrightarrow> packet h' (Some b) ps bs)"
proof -
  obtain n h' where h': "pbuf_free L (Some a) h = Some (Inr (n, h'))" "heap_ok h' R" "same_but_refs h' h"
    by (rule heap_ok_free [OF assms])
  then show ?thesis using packet_survives [OF _ h'(3) heap_okD [OF h'(2)]] by auto
qed

theorem pbuf_free_safe_witness:
  "\<exists>n h'. pbuf_free ex_lib (Some 1) ex_heap = Some (Inr (n, h')) \<and> heap_ok h' {#}"
  using pbuf_free_safe [of ex_heap 1 "{#}" ex_lib] ex_heap_ok by auto

text \<open>
  When all users have released their pointers, no pbuf is left in the heap.
\<close>

lemma pbuf_release_all:
  assumes "malloc_ok L" "heap_ok h (mset as)"
  shows "\<exists>h'. release_seq (\<lambda>a. pbuf_free L (Some a)) as h = Some (Inr h') \<and> fmdom' h' = {}"
proof -
  have "store_ok (L, h) (mset as + {#})" using assms by (simp add: store_ok_def)
  then obtain s' where s': "release_seq store_free as (L, h) = Some (Inr s')" "store_ok s' {#}" using ps.release_all_ok by blast
  have "release_seq (\<lambda>a. pbuf_free L (Some a)) as h = Some (Inr (snd s'))"
    using s'(1) by (induction as arbitrary: h) (auto simp: store_free_def split: option.splits sum.splits)
  then show ?thesis using s'(2) rc_ok_no_leak [of "snd s'"] by (auto simp: store_ok_def heap_ok_def)
qed

lemma pbuf_release_all_example:
  "\<exists>h'. release_seq (\<lambda>a. pbuf_free ex_lib (Some a)) [1] ex_heap = Some (Inr h') \<and> fmdom' h' = {}"
  using pbuf_release_all [OF ex_lib_ok(1), of ex_heap "[1]"] ex_heap_ok by simp

end
