(* ===== verification/Packets.thy ===== *)
theory Packets
  imports Pbuf
begin

text \<open>
  What the operations on packet buffers (\<^verbatim>\<open>src/lwip/src/core/pbuf.c\<close>, defined in the theory \<open>Pbuf\<close>) do to
  the packets that the chains hold: concatenation, splitting, headers, copies in and out, shortening.
\<close>

section \<open>Behaviour on packets\<close>

text \<open>Concatenation: the bytes are joined, and the pointer to the tail is taken over from the caller.\<close>

lemma pbuf_cat_loop_ok:
  assumes t: "packet h (Some t) ts ys"
  shows "packet h (Some a) ps xs \<Longrightarrow> set ps \<inter> set ts = {} \<Longrightarrow> length xs + length ys < 65536 \<Longrightarrow> rc_ok h (add_mset t R) \<Longrightarrow>
    \<exists>h'. pbuf_cat_loop t a h = Some (Inr h') \<and> packet h' (Some a) (ps @ ts) (xs @ ys) \<and> rc_ok h' R \<and>
      (\<forall>b. b \<notin> set ps \<longrightarrow> fmlookup h' b = fmlookup h b)"
  using t
proof (induction ps arbitrary: a xs h)
  case (Cons b ps)
  from Cons.prems(1) obtain pb cs where pb: "b = a" "fmlookup h a = Some pb" "pb_wf pb" "unat (pb_tot_len pb) = length xs"
    "xs = pb_data pb @ cs" "packet h (pb_next pb) ps cs" by auto
  obtain tb where tb: "fmlookup h t = Some tb" "unat (pb_tot_len tb) = length ys" "t \<in> set ts"
    using Cons.prems(5) by (auto simp: packet_Some)
  have tot: "unat (pb_tot_len pb + pb_tot_len tb) = length xs + length ys"
    using Cons.prems(3) pb(4) tb(2) by (simp add: unat_word_ariths(1))
  have dis: "a \<notin> set ps" "a \<notin> set ts" "set ps \<inter> set ts = {}"
    using packet_distinct [OF Cons.prems(1)] Cons.prems(2) pb(1) by auto
  have fl: "pb_flags pb AND PBUF_FLAG_IS_CUSTOM = 0" by (rule rc_okD(3) [OF Cons.prems(4) pb(2)])
  show ?case
  proof (cases "pb_next pb")
    case None
    then have 1: "ps = []" "cs = []" using pb(6) by auto
    then have l: "pb_tot_len pb = pb_len pb" using pb(3-5) by (simp add: word_unat_eq_iff)
    let ?pb = "pb\<lparr>pb_tot_len := pb_tot_len pb + pb_tot_len tb, pb_next := Some t\<rparr>"
    have "pbuf_cat_loop t a h = Some (Inr (fmupd a ?pb h))"
      using pb(2) tb(1) None l by (subst pbuf_cat_loop.simps) simp
    moreover have "pb_wf ?pb" "pb_data ?pb = pb_data pb" using pb(3) by (simp_all add: pb_wf_def pb_data_def)
    then have "packet (fmupd a ?pb h) (Some a) ((b # ps) @ ts) (xs @ ys)"
      using pb 1 dis tot Cons.prems(5) by (auto simp del: packet.simps simp: packet_Some)
    moreover have "rc_ok (fmupd a ?pb h) R" by (rule rc_ok_link [OF Cons.prems(4) pb(2) None]) simp_all
    ultimately show ?thesis using pb(1) by auto
  next
    case (Some q)
    let ?pb = "pb\<lparr>pb_tot_len := pb_tot_len pb + pb_tot_len tb\<rparr>"
    let ?h = "fmupd a ?pb h"
    have p: "packet ?h (Some q) ps cs" "packet ?h (Some t) ts ys" using pb(6) Some Cons.prems(5) dis by simp_all
    have r: "rc_ok ?h (add_mset t R)" by (rule rc_ok_upd_same [OF Cons.prems(4) pb(2)]) (simp_all add: fl)
    obtain h' where h': "pbuf_cat_loop t q ?h = Some (Inr h')" "packet h' (Some q) (ps @ ts) (cs @ ys)" "rc_ok h' R"
      "\<forall>b. b \<notin> set ps \<longrightarrow> fmlookup h' b = fmlookup ?h b"
      using Cons.IH [OF p(1) dis(3) _ r p(2)] Cons.prems(3) pb(5) by auto
    have "pbuf_cat_loop t a h = Some (Inr h')" using pb(2) tb(1) Some h'(1) by (subst pbuf_cat_loop.simps) simp
    moreover have "fmlookup h' a = Some ?pb" using h'(4) dis(1) by simp
    then have "packet h' (Some a) ((b # ps) @ ts) (xs @ ys)"
      using h'(2) Some pb tot by (auto simp del: packet.simps simp: packet_Some pb_wf_def pb_data_def)
    ultimately show ?thesis using h'(3,4) pb(1) by auto
  qed
qed simp

lemma pbuf_cat_ok:
  assumes "packet h (Some a) ps xs" "packet h (Some t) ts ys" "set ps \<inter> set ts = {}" "length xs + length ys < 65536"
    "rc_ok h (add_mset t R)"
  obtains h' where "pbuf_cat (Some a) (Some t) h = Some (Inr h')" "packet h' (Some a) (ps @ ts) (xs @ ys)" "rc_ok h' R"
    "\<And>b. b \<notin> set ps \<Longrightarrow> fmlookup h' b = fmlookup h b"
  using pbuf_cat_loop_ok [OF assms(2,1,3-5)] by (auto simp: pbuf_cat_def)

lemma pbuf_dechain_ok:
  assumes "packet h (Some a) (a # ps) bs" "rc_ok h R"
  obtains r h' pb where "pbuf_dechain L a h = Some (Inr (r, h'))" "rc_ok h' R"
    "fmlookup h a = Some pb" "a \<in> fmdom' h' \<Longrightarrow> packet h' (Some a) [a] (pb_data pb)"
proof -
  from assms(1) obtain pb cs where pb: "fmlookup h a = Some pb" "pb_wf pb" "unat (pb_tot_len pb) = length bs"
    "bs = pb_data pb @ cs" "packet h (pb_next pb) ps cs" by auto
  show thesis
  proof (cases "pb_next pb")
    case None
    then have "ps = []" "cs = []" using pb(5) by auto
    moreover from this have "pb_tot_len pb = pb_len pb" using pb(2-4) by (simp add: word_unat_eq_iff)
    ultimately show thesis using that [of None h pb] pb assms None by (simp add: pbuf_dechain_def)
  next
    case (Some q)
    then obtain qb qs where q: "ps = q # qs" "fmlookup h q = Some qb" "unat (pb_tot_len qb) = length cs" using pb(5) by (auto simp: packet_Some)
    have aq: "a \<noteq> q" using packet_distinct [OF assms(1)] q(1) by auto
    have len: "unat (pb_tot_len pb - pb_len pb) = length cs"
      using pb(2-4) by (simp add: unat_sub word_le_nat_alt)
    then have tl: "pb_tot_len qb = pb_tot_len pb - pb_len pb" using q(3) by (simp add: word_unat_eq_iff)
    let ?pb = "pb\<lparr>pb_next := None, pb_tot_len := pb_len pb\<rparr>"
    have "fmupd q (qb\<lparr>pb_tot_len := pb_tot_len pb - pb_len pb\<rparr>) h = h" using q(2) tl by (intro fmap_ext) auto
    then have e: "pbuf_dechain L a h = (case pbuf_free L (Some q) (fmupd a ?pb h) of None \<Rightarrow> None | Some (Inl e) \<Rightarrow> Some (Inl e)
        | Some (Inr (gone, h)) \<Rightarrow> Some (Inr (if gone > 0 then None else Some q, h)))"
      using pb(1) Some q(2) tl by (simp add: pbuf_dechain_def)
    have "rc_ok (fmupd a ?pb h) (add_mset q R)" by (rule rc_ok_unlink [OF assms(2) pb(1) Some]) simp_all
    then obtain n h' where h': "pbuf_free L (Some q) (fmupd a ?pb h) = Some (Inr (n, h'))" "rc_ok h' R" "same_but_refs h' (fmupd a ?pb h)"
      by (rule pbuf_free_ok)
    have "packet h' (Some a) [a] (pb_data pb)" if "a \<in> fmdom' h'"
      by (rule packet_same_but_refs [OF _ h'(3)]) (use that pb in \<open>auto simp: pb_wf_def pb_data_def\<close>)
    then show thesis using that e h'(1,2) pb(1) by auto
  qed
qed

text \<open>Hiding a header of \<open>k\<close> bytes removes the first \<open>k\<close> bytes of the packet; they are given back by the opposite increment.\<close>

lemma pb_data_hide:
  assumes "pb_wf pb" "k \<le> unat (pb_len pb)"
  shows "pb_data (pb\<lparr>pb_payload := pb_payload pb + k, pb_len := pb_len pb - of_nat k, pb_tot_len := t\<rparr>) = drop k (pb_data pb)"
    and "pb_wf (pb\<lparr>pb_payload := pb_payload pb + k, pb_len := pb_len pb - of_nat k, pb_tot_len := t\<rparr>)"
proof -
  have k: "unat (of_nat k :: u16) = k" using assms(2) by (rule le_unat_uoi)
  then have "unat (pb_len pb - of_nat k) = unat (pb_len pb) - k" using assms(2) by (simp add: unat_sub word_le_nat_alt)
  then show "pb_data (pb\<lparr>pb_payload := pb_payload pb + k, pb_len := pb_len pb - of_nat k, pb_tot_len := t\<rparr>) = drop k (pb_data pb)"
    "pb_wf (pb\<lparr>pb_payload := pb_payload pb + k, pb_len := pb_len pb - of_nat k, pb_tot_len := t\<rparr>)"
    using assms by (simp_all add: pb_data_def pb_wf_def drop_take add.commute)
qed

lemma pbuf_header_hide:
  assumes "packet h (Some p) (p # ps) bs" "fmlookup h p = Some pb" "0 < k" "k \<le> unat (pb_len pb)"
  obtains h' where "pbuf_header p (- int k) h = Some (Inr (False, h'))" "packet h' (Some p) (p # ps) (drop k bs)"
    "\<And>b. b \<noteq> p \<Longrightarrow> fmlookup h' b = fmlookup h b"
    "k < 32768 \<Longrightarrow> pb_type pb = PBUF_RAM \<or> pb_type pb = PBUF_POOL \<Longrightarrow> pbuf_header p (int k) h' = Some (Inr (False, h))"
proof -
  let ?pb = "pb\<lparr>pb_payload := pb_payload pb + k, pb_len := pb_len pb - of_nat k, pb_tot_len := pb_tot_len pb - of_nat k\<rparr>"
  from assms(1,2) obtain cs where pb: "pb_wf pb" "unat (pb_tot_len pb) = length bs" "bs = pb_data pb @ cs" "packet h (pb_next pb) ps cs"
    by auto
  have k: "unat (of_nat k :: u16) = k" using assms(4) by (rule le_unat_uoi)
  have kb: "k \<le> length bs" using assms(4) pb(1,3) by simp
  have tot: "unat (pb_tot_len pb - of_nat k) = length (drop k bs)" using kb k pb(2) by (simp add: unat_sub word_le_nat_alt)
  have ku: "int k \<le> uint (pb_len pb)" using assms(4) by (simp only: uint_nat of_nat_le_iff)
  have 1: "pbuf_header p (- int k) h = Some (Inr (False, fmupd p ?pb h))"
    using assms(2,3) ku by (auto simp: pbuf_header_def Let_def nat_add_distrib)
  have 2: "packet (fmupd p ?pb h) (Some p) (p # ps) (drop k bs)"
    using pb packet_distinct [OF assms(1)] tot assms(4) pb_data_hide [OF pb(1) assms(4), of "pb_tot_len pb - of_nat k"] by simp
  have 3: "pbuf_header p (int k) (fmupd p ?pb h) = Some (Inr (False, h))" if "pb_type pb = PBUF_RAM \<or> pb_type pb = PBUF_POOL"
    using that assms(2,3) by (auto simp: pbuf_header_def Let_def intro!: fmap_ext)
  show thesis by (rule that [OF 1 2]) (use 3 in auto)
qed

lemma pbuf_header_no_room:
  assumes "fmlookup h p = Some pb" "pb_type pb = PBUF_RAM \<or> pb_type pb = PBUF_POOL" "int (pb_payload pb) < k"
  shows "pbuf_header p k h = Some (Inr (True, h))"
  using assms by (auto simp: pbuf_header_def)

text \<open>Copies out of a packet.\<close>

lemma blit_append:
  "off + length ys + length xs \<le> length dst \<Longrightarrow> blit (blit dst off ys) (off + length ys) xs = blit dst off (ys @ xs)"
  by (simp add: blit_def add.commute add.left_commute)

lemma copy_partial_loop_ok:
  assumes "packet h p ps bs" "unat off \<le> length bs" "unat left + unat len \<le> length dst" "length dst < 65536"
  shows "copy_partial_loop len off left dst p h =
     Some (Inr (left + of_nat (min (unat len) (length bs - unat off)), blit dst (unat left) (take (unat len) (drop (unat off) bs))))"
  using assms
proof (induction ps arbitrary: p bs len off left dst)
  case Nil
  then show ?case by (subst copy_partial_loop.simps) (auto simp: unat_eq_0)
next
  case (Cons a ps)
  from Cons.prems(1) obtain pb cs where pb: "p = Some a" "fmlookup h a = Some pb" "pb_wf pb" "unat (pb_tot_len pb) = length bs"
    "bs = pb_data pb @ cs" "packet h (pb_next pb) ps cs" by auto
  show ?case
  proof (cases "len = 0")
    case True
    then show ?thesis by (subst copy_partial_loop.simps) simp
  next
    case False
    show ?thesis
    proof (cases "off \<noteq> 0 \<and> off \<ge> pb_len pb")
      case True
      then have o: "unat (off - pb_len pb) = unat off - unat (pb_len pb)" "unat (pb_len pb) \<le> unat off"
        by (auto simp: unat_sub word_le_nat_alt)
      have "copy_partial_loop len (off - pb_len pb) left dst (pb_next pb) h =
        Some (Inr (left + of_nat (min (unat len) (length cs - unat (off - pb_len pb))), blit dst (unat left) (take (unat len) (drop (unat (off - pb_len pb)) cs))))"
        using Cons.prems pb o by (intro Cons.IH) auto
      then show ?thesis using pb True False o by (subst copy_partial_loop.simps) (simp add: add.commute)
    next
      case notskip: False
      then have ol: "unat off \<le> unat (pb_len pb)" by (auto simp: word_le_nat_alt)
      let ?n = "min (pb_len pb - off) len"
      have n: "unat ?n = min (unat (pb_len pb) - unat off) (unat len)"
        using ol by (simp add: min_def word_le_nat_alt unat_sub)
      have src: "take (unat ?n) (drop (pb_payload pb + unat off) (pb_mem pb)) = take (unat len) (drop (unat off) (pb_data pb))"
        unfolding n using ol pb(3) by (simp add: pb_data_def pb_wf_def drop_take add.commute min.commute)
      have fits: "unat ?n \<le> length (drop (pb_payload pb + unat off) (pb_mem pb))"
        using n ol pb(3) by (simp add: pb_wf_def)
      define dst' where "dst' = blit dst (unat left) (take (unat ?n) (drop (pb_payload pb + unat off) (pb_mem pb)))"
      have mc: "memcpy dst (unat left) (drop (pb_payload pb + unat off) (pb_mem pb)) (unat ?n) = Inr dst'"
        using fits Cons.prems(3) n by (simp add: memcpy_def dst'_def)
      have l: "unat (len - ?n) = unat len - unat ?n" by (simp add: unat_sub)
      have lf: "unat (left + ?n) = unat left + unat ?n"
        using Cons.prems(3,4) n by (subst unat_word_ariths(1)) (simp add: min_def split: if_splits)
      have len': "length dst' = length dst" using Cons.prems(3) n fits by (simp add: dst'_def)
      have "copy_partial_loop (len - ?n) 0 (left + ?n) dst' (pb_next pb) h =
          Some (Inr (left + ?n + of_nat (min (unat (len - ?n)) (length cs - unat (0::u16))),
            blit dst' (unat (left + ?n)) (take (unat (len - ?n)) (drop (unat (0::u16)) cs))))"
        using Cons.prems pb l lf n len' by (intro Cons.IH) auto
      moreover have "blit dst' (unat (left + ?n)) (take (unat (len - ?n)) cs) = blit dst (unat left) (take (unat len) (drop (unat off) bs))"
      proof -
        have "take (unat len) (drop (unat off) bs) = take (unat len) (drop (unat off) (pb_data pb)) @ take (unat (len - ?n)) cs"
          using pb ol l n by (auto simp: min_def)
        moreover have ly: "length (take (unat len) (drop (unat off) (pb_data pb))) = unat ?n" using pb(3) n by simp
        moreover have "unat left + length (take (unat len) (drop (unat off) (pb_data pb))) + length (take (unat (len - ?n)) cs) \<le> length dst"
        proof -
          have "length (take (unat (len - ?n)) cs) \<le> unat (len - ?n)" "unat ?n \<le> unat len" using n by simp_all
          then show ?thesis using Cons.prems(3) l unfolding ly by linarith
        qed
        from blit_append [OF this] have "blit dst' (unat left + unat ?n) (take (unat (len - ?n)) cs) =
            blit dst (unat left) (take (unat len) (drop (unat off) (pb_data pb)) @ take (unat (len - ?n)) cs)"
          unfolding dst'_def src ly .
        ultimately show ?thesis unfolding lf by simp
      qed
      moreover have "left + ?n + of_nat (min (unat (len - ?n)) (length cs)) = left + of_nat (min (unat len) (length bs - unat off))"
      proof -
        have "unat ?n + min (unat (len - ?n)) (length cs) = min (unat len) (length bs - unat off)"
          using pb ol l n by (auto simp: min_def)
        then have "of_nat (unat ?n) + of_nat (min (unat (len - ?n)) (length cs)) = (of_nat (min (unat len) (length bs - unat off)) :: u16)"
          by (metis of_nat_add)
        then show ?thesis by (simp add: add.assoc)
      qed
      moreover have "copy_partial_loop len off left dst p h = copy_partial_loop (len - ?n) 0 (left + ?n) dst' (pb_next pb) h"
        using pb(1,2) notskip False mc by (subst copy_partial_loop.simps) (auto simp: Let_def)
      ultimately show ?thesis by simp
    qed
  qed
qed

lemma pbuf_copy_partial_ok:
  assumes "packet h (Some p) ps bs" "unat off \<le> length bs" "unat len \<le> length dst" "length dst < 65536"
  shows "pbuf_copy_partial (Some p) dst len off h =
     Some (Inr (of_nat (min (unat len) (length bs - unat off)), blit dst 0 (take (unat len) (drop (unat off) bs))))"
  using copy_partial_loop_ok [OF assms(1,2), of 0 len dst] assms(3,4) by (simp add: pbuf_copy_partial_def)

text \<open>The data of the application replace the first bytes of the packet.\<close>

lemma pb_data_blit:
  assumes "pb_wf pb" "length xs \<le> unat (pb_len pb)"
  shows "pb_data (pb\<lparr>pb_mem := blit (pb_mem pb) (pb_payload pb) xs\<rparr>) = xs @ drop (length xs) (pb_data pb)"
    and "pb_wf (pb\<lparr>pb_mem := blit (pb_mem pb) (pb_payload pb) xs\<rparr>)"
  using assms by (auto simp: pb_data_def pb_wf_def blit_def drop_take min_def add.commute)

lemma pbuf_take_loop_ok:
  assumes "packet h p ps bs" "unat todo \<le> length bs" "unat copied + unat todo \<le> length src" "unat copied + unat todo < 65536"
  shows "\<exists>h'. pbuf_take_loop src todo copied p h = Some (Inr h') \<and>
     packet h' p ps (take (unat todo) (drop (unat copied) src) @ drop (unat todo) bs) \<and>
     (\<forall>R. rc_ok h R \<longrightarrow> rc_ok h' R) \<and> (\<forall>b. b \<notin> set ps \<longrightarrow> fmlookup h' b = fmlookup h b)"
  using assms
proof (induction ps arbitrary: p bs todo copied h)
  case Nil
  then show ?case by (subst pbuf_take_loop.simps) (auto simp: unat_eq_0)
next
  case (Cons a ps)
  from Cons.prems(1) obtain pb cs where pb: "p = Some a" "fmlookup h a = Some pb" "pb_wf pb" "unat (pb_tot_len pb) = length bs"
    "bs = pb_data pb @ cs" "packet h (pb_next pb) ps cs" by auto
  have a: "a \<notin> set ps" using packet_distinct [OF Cons.prems(1)] by simp
  show ?case
  proof (cases "todo = 0")
    case True
    then show ?thesis using Cons.prems(1) by (subst pbuf_take_loop.simps) simp
  next
    case False
    define n where "n = (if todo > pb_len pb then pb_len pb else todo)"
    have n: "unat n = min (unat todo) (unat (pb_len pb))" by (auto simp: n_def min_def word_less_nat_alt)
    let ?xs = "take (unat n) (drop (unat copied) src)"
    have lx: "length ?xs = unat n" using n Cons.prems(3) by simp
    let ?pb = "pb\<lparr>pb_mem := blit (pb_mem pb) (pb_payload pb) ?xs\<rparr>"
    have d: "pb_data ?pb = ?xs @ drop (unat n) (pb_data pb)" "pb_wf ?pb"
      using pb_data_blit [OF pb(3), of ?xs] lx n by auto
    have mc: "memcpy (pb_mem pb) (pb_payload pb) (drop (unat copied) src) (unat n) = Inr (pb_mem ?pb)"
      using n Cons.prems(3) pb(3) by (auto simp: memcpy_def pb_wf_def min_def)
    have t: "unat (todo - n) = unat todo - unat n" using n by (simp add: unat_sub word_le_nat_alt)
    have c: "unat (copied + n) = unat copied + unat n" using n Cons.prems(4) by (simp add: unat_word_ariths(1))
    have "packet (fmupd a ?pb h) (pb_next pb) ps cs" using pb(6) a by simp
    moreover have "unat (todo - n) \<le> length cs" "unat (copied + n) + unat (todo - n) \<le> length src" "unat (copied + n) + unat (todo - n) < 65536"
      using Cons.prems(2-4) pb(3,5) t c n by auto
    ultimately obtain h' where h': "pbuf_take_loop src (todo - n) (copied + n) (pb_next pb) (fmupd a ?pb h) = Some (Inr h')"
      "packet h' (pb_next pb) ps (take (unat (todo - n)) (drop (unat (copied + n)) src) @ drop (unat (todo - n)) cs)"
      "\<forall>R. rc_ok (fmupd a ?pb h) R \<longrightarrow> rc_ok h' R" "\<forall>b. b \<notin> set ps \<longrightarrow> fmlookup h' b = fmlookup (fmupd a ?pb h) b"
      using Cons.IH [of "fmupd a ?pb h" "pb_next pb" cs "todo - n" "copied + n"] by blast
    have r: "pbuf_take_loop src todo copied p h = Some (Inr h')"
      using pb(1,2) False h'(1) mc unfolding n_def by (subst pbuf_take_loop.simps) (simp add: Let_def)
    have "fmlookup h' a = Some ?pb" using h'(4) a by simp
    moreover have e: "take (unat todo) (drop (unat copied) src) @ drop (unat todo) bs =
        pb_data ?pb @ take (unat (todo - n)) (drop (unat (copied + n)) src) @ drop (unat (todo - n)) cs"
    proof (cases "unat todo \<le> unat (pb_len pb)")
      case True
      then show ?thesis using n t c d(1) pb(3,5) by simp
    next
      case False
      then have "take (unat todo) (drop (unat copied) src) = ?xs @ take (unat todo - unat n) (drop (unat n) (drop (unat copied) src))"
        using n take_add [of "unat n" "unat todo - unat n" "drop (unat copied) src"] by simp
      then show ?thesis using n t c d(1) pb(3,5) False by (simp add: add.commute)
    qed
    moreover have "length (take (unat todo) (drop (unat copied) src) @ drop (unat todo) bs) = unat (pb_tot_len ?pb)"
      using Cons.prems(2,3) pb(4) by simp
    moreover have "pb_next ?pb = pb_next pb" by simp
    ultimately have "packet h' p (a # ps) (take (unat todo) (drop (unat copied) src) @ drop (unat todo) bs)"
      unfolding packet.simps using pb(1) d(2) h'(2) by metis
    moreover have "rc_ok h' R" if "rc_ok h R" for R
      using h'(3) rc_ok_upd_same [OF that pb(2), of ?pb] rc_okD(3) [OF that pb(2)] by simp
    ultimately show ?thesis using h'(4) r by auto
  qed
qed

lemma pbuf_take_ok:
  assumes "packet h (Some p) ps bs" "unat len \<le> length bs" "unat len \<le> length src"
  obtains h' where "pbuf_take (Some p) src len h = Some (Inr (ERR_OK, h'))"
    "packet h' (Some p) ps (take (unat len) src @ drop (unat len) bs)" "\<And>R. rc_ok h R \<Longrightarrow> rc_ok h' R"
    "\<And>b. b \<notin> set ps \<Longrightarrow> fmlookup h' b = fmlookup h b"
proof -
  obtain pb where pb: "fmlookup h p = Some pb" "unat (pb_tot_len pb) = length bs" using assms(1) by (auto simp: packet_Some)
  have "unat len < 65536" using unsigned_less [of len] by simp
  with pbuf_take_loop_ok [OF assms(1), of len 0 src] assms(2,3)
  obtain h' where h': "pbuf_take_loop src len 0 (Some p) h = Some (Inr h')"
    "packet h' (Some p) ps (take (unat len) src @ drop (unat len) bs)" "\<forall>R. rc_ok h R \<longrightarrow> rc_ok h' R"
    "\<forall>b. b \<notin> set ps \<longrightarrow> fmlookup h' b = fmlookup h b" by auto
  moreover have "\<not> pb_tot_len pb < len" using pb(2) assms(2) by (simp add: word_less_nat_alt)
  ultimately show thesis using pb(1) by (intro that [of h']) (simp_all add: pbuf_take_def)
qed

lemma pbuf_take_too_long:
  assumes "packet h (Some p) ps bs" "length bs < unat len"
  shows "pbuf_take (Some p) src len h = Some (Inr (ERR_ARG, h))"
  using assms by (auto simp: packet_Some pbuf_take_def word_less_nat_alt)

lemma get_at_loop_ok: "packet h p ps bs \<Longrightarrow> get_at_loop off p h = Some (Inr (if unat off < length bs then bs ! unat off else 0))"
proof (induction ps arbitrary: p bs off)
  case Nil
  then show ?case by (subst get_at_loop.simps) simp
next
  case (Cons a ps)
  from Cons.prems(1) obtain pb cs where pb: "p = Some a" "fmlookup h a = Some pb" "pb_wf pb"
    "bs = pb_data pb @ cs" "packet h (pb_next pb) ps cs" by auto
  show ?case
  proof (cases "pb_len pb \<le> off")
    case True
    then have "unat (off - pb_len pb) = unat off - unat (pb_len pb)" "unat (pb_len pb) \<le> unat off"
      by (auto simp: unat_sub word_le_nat_alt)
    then show ?thesis using pb True Cons.IH [OF pb(5), of "off - pb_len pb"]
      by (subst get_at_loop.simps) (auto simp: nth_append)
  next
    case False
    then have "unat off < unat (pb_len pb)" by (simp add: word_le_nat_alt)
    then show ?thesis using pb False
      by (subst get_at_loop.simps) (auto simp: nth_append load_def pb_wf_def pb_data_def)
  qed
qed

text \<open>Shortening: the packet keeps its first bytes, and the pbufs behind the new last one lose the pointer from the chain.\<close>

lemma pbuf_free_loop_frame:
  assumes "chain h p ps" "\<And>a pb. a \<in> set ps \<Longrightarrow> fmlookup h a = Some pb \<Longrightarrow> pb_ref pb \<noteq> 0 \<and> pb_flags pb AND PBUF_FLAG_IS_CUSTOM = 0"
  shows "\<exists>n h'. pbuf_free_loop L cnt p h = Some (Inr (n, h')) \<and> (\<forall>b. b \<notin> set ps \<longrightarrow> fmlookup h' b = fmlookup h b) \<and>
     (\<forall>q x. q \<notin> set ps \<longrightarrow> pbuf_free_loop L cnt p (fmupd q x h) = Some (Inr (n, fmupd q x h')))"
  using assms
proof (induction ps arbitrary: p cnt h)
  case (Cons a ps)
  from Cons.prems(1) obtain pb where pb: "p = Some a" "fmlookup h a = Some pb" "chain h (pb_next pb) ps" by auto
  have a: "a \<notin> set ps" using chain_distinct [OF Cons.prems(1)] by simp
  note wf = Cons.prems(2) [of a pb, simplified pb(2), simplified]
  have comm: "fmdrop a (fmupd q x h) = fmupd q x (fmdrop a h)" "fmupd a y (fmupd q x h) = fmupd q x (fmupd a y h)" if "q \<noteq> a" for q x y
    using that by (auto intro!: fmap_ext)
  show ?case
  proof (cases "pb_ref pb - 1 = 0")
    case True
    have "chain (fmdrop a h) (pb_next pb) ps" by (rule chain_frame [OF pb(3)]) (use a in auto)
    then have "\<exists>n h'. pbuf_free_loop L (cnt + 1) (pb_next pb) (fmdrop a h) = Some (Inr (n, h')) \<and> (\<forall>b. b \<notin> set ps \<longrightarrow> fmlookup h' b = fmlookup (fmdrop a h) b) \<and>
        (\<forall>q x. q \<notin> set ps \<longrightarrow> pbuf_free_loop L (cnt + 1) (pb_next pb) (fmupd q x (fmdrop a h)) = Some (Inr (n, fmupd q x h')))"
      by (rule Cons.IH) (use Cons.prems(2) in \<open>auto split: if_splits\<close>)
    then obtain n h' where h': "pbuf_free_loop L (cnt + 1) (pb_next pb) (fmdrop a h) = Some (Inr (n, h'))" "\<forall>b. b \<notin> set ps \<longrightarrow> fmlookup h' b = fmlookup (fmdrop a h) b"
        "\<forall>q x. q \<notin> set ps \<longrightarrow> pbuf_free_loop L (cnt + 1) (pb_next pb) (fmupd q x (fmdrop a h)) = Some (Inr (n, fmupd q x h'))" by blast
    show ?thesis
    proof (intro exI [of _ n] exI [of _ h'] conjI allI impI)
      show "pbuf_free_loop L cnt p h = Some (Inr (n, h'))" using pb(1,2) wf True h'(1) by (simp add: pbuf_free_loop_Some)
      show "fmlookup h' b = fmlookup h b" if "b \<notin> set (a # ps)" for b using h'(2) that by auto
      show "pbuf_free_loop L cnt p (fmupd q x h) = Some (Inr (n, fmupd q x h'))" if "q \<notin> set (a # ps)" for q x
        using pbuf_free_loop_Some [of "fmupd q x h" a pb L cnt] pb(1,2) wf True h'(3) that comm(1) [of q x] by simp
    qed
  next
    case False
    show ?thesis
    proof (intro exI [of _ cnt] exI [of _ "fmupd a (pb\<lparr>pb_ref := pb_ref pb - 1\<rparr>) h"] conjI allI impI)
      show "pbuf_free_loop L cnt p h = Some (Inr (cnt, fmupd a (pb\<lparr>pb_ref := pb_ref pb - 1\<rparr>) h))"
        using pb(1,2) wf False by (simp add: pbuf_free_loop_Some)
      show "pbuf_free_loop L cnt p (fmupd q x h) = Some (Inr (cnt, fmupd q x (fmupd a (pb\<lparr>pb_ref := pb_ref pb - 1\<rparr>) h)))"
        if "q \<notin> set (a # ps)" for q x
        using pbuf_free_loop_Some [of "fmupd q x h" a pb L cnt] pb(1,2) wf False that comm(2) [of q] by simp
    qed auto
  qed
qed simp

lemma unat_u16: "unat (w :: u16) < 65536"
  by simp

lemma pb_data_shrink: "pb_wf pb \<Longrightarrow> n \<le> pb_len pb \<Longrightarrow> pb_data (pb\<lparr>pb_len := n, pb_tot_len := t, pb_next := q\<rparr>) = take (unat n) (pb_data pb)"
  by (simp add: pb_data_def word_le_nat_alt min_def)

lemma pb_wf_shrink: "pb_wf pb \<Longrightarrow> n \<le> pb_len pb \<Longrightarrow> pb_wf (pb\<lparr>pb_len := n, pb_tot_len := t, pb_next := q\<rparr>)"
  by (simp add: pb_wf_def word_le_nat_alt)

lemma realloc_last_ok:
  assumes "packet h (Some q) (q # qs) bs" "rc_ok h R" "fmlookup h q = Some qb" "n \<le> pb_len qb"
  obtains h' where "realloc_last L n q h = Some (Inr h')" "rc_ok h' R" "packet h' (Some q) [q] (take (unat n) bs)"
    "\<And>b. b \<notin> set (q # qs) \<Longrightarrow> fmlookup h' b = fmlookup h b"
proof -
  let ?qb = "qb\<lparr>pb_len := n, pb_tot_len := n\<rparr>"
  let ?qn = "qb\<lparr>pb_len := n, pb_tot_len := n, pb_next := None\<rparr>"
  from assms(1,3) obtain cs where qb: "pb_wf qb" "bs = pb_data qb @ cs" "packet h (pb_next qb) qs cs" by auto
  have q: "q \<notin> set qs" using packet_distinct [OF assms(1)] by simp
  have fl: "pb_flags qb AND PBUF_FLAG_IS_CUSTOM = 0" by (rule rc_okD(3) [OF assms(2,3)])
  have tk: "take (unat n) bs = pb_data ?qn" using pb_data_shrink [OF qb(1) assms(4)] qb(1,2) assms(4) by (simp add: word_le_nat_alt)
  have P: "packet h' (Some q) [q] (take (unat n) bs)" if "fmlookup h' q = Some ?qn" for h'
    using that pb_wf_shrink [OF qb(1) assms(4)] unfolding tk by simp
  show thesis
  proof (cases "pb_next qb")
    case None
    have "realloc_last L n q h = Some (Inr (fmupd q ?qn h))" using assms(3) None by (simp add: realloc_last_def set_next_def)
    moreover have "rc_ok (fmupd q ?qn h) R" by (rule rc_ok_upd_same [OF assms(2,3)]) (simp_all add: None fl)
    ultimately show thesis using P [of "fmupd q ?qn h"] by (intro that [of "fmupd q ?qn h"]) auto
  next
    case (Some r)
    have ch: "chain (fmupd q ?qn h) (Some r) qs"
      using packet_chain [OF qb(3)] Some q by (auto elim: chain_frame)
    have R: "rc_ok (fmupd q ?qn h) (add_mset r R)" by (rule rc_ok_unlink [OF assms(2,3) Some]) simp_all
    obtain m h' where h': "pbuf_free L (Some r) (fmupd q ?qn h) = Some (Inr (m, h'))" "rc_ok h' R" by (rule pbuf_free_ok [OF R])
    have "\<exists>n h'. pbuf_free_loop L 0 (Some r) (fmupd q ?qn h) = Some (Inr (n, h')) \<and>
        (\<forall>b. b \<notin> set qs \<longrightarrow> fmlookup h' b = fmlookup (fmupd q ?qn h) b) \<and>
        (\<forall>q' x. q' \<notin> set qs \<longrightarrow> pbuf_free_loop L 0 (Some r) (fmupd q' x (fmupd q ?qn h)) = Some (Inr (n, fmupd q' x h')))"
      by (rule pbuf_free_loop_frame [OF ch]) (use rc_okD(2,3) [OF R] in auto)
    then have f: "\<And>b. b \<notin> set qs \<Longrightarrow> fmlookup h' b = fmlookup (fmupd q ?qn h) b"
      "pbuf_free_loop L 0 (Some r) (fmupd q ?qb (fmupd q ?qn h)) = Some (Inr (m, fmupd q ?qb h'))"
      using h'(1) q by (auto simp: pbuf_free_def)
    have "fmlookup h' q = Some ?qn" using f(1) [OF q] by simp
    then have "fmupd q ?qn h' = h'" by (intro fmap_ext) auto
    then have "realloc_last L n q h = Some (Inr h')"
      using assms(3) Some f(2) by (simp add: realloc_last_def set_next_def pbuf_free_def)
    then show thesis using P [OF \<open>fmlookup h' q = Some ?qn\<close>] h'(2) f(1) by (intro that [of h']) auto
  qed
qed

lemma realloc_loop_ok:
  "packet h (Some q) (q # qs) bs \<Longrightarrow> rc_ok h R \<Longrightarrow> fmlookup h q = Some qb \<Longrightarrow> pb_tot_len qb + grow = rem \<Longrightarrow> unat rem \<le> length bs \<Longrightarrow>
   \<exists>h' ps. realloc_loop L grow rem q h = Some (Inr h') \<and> rc_ok h' R \<and> packet h' (Some q) ps (take (unat rem) bs) \<and> set ps \<subseteq> set (q # qs) \<and>
     (\<forall>b. b \<notin> set (q # qs) \<longrightarrow> fmlookup h' b = fmlookup h b)"
proof (induction qs arbitrary: q bs qb rem h)
  case Nil
  then have "\<not> rem > pb_len qb" by (auto simp: word_less_nat_alt)
  then have le: "rem \<le> pb_len qb" by simp
  obtain h' where "realloc_last L rem q h = Some (Inr h')" "rc_ok h' R" "packet h' (Some q) [q] (take (unat rem) bs)"
    "\<And>b. b \<notin> set [q] \<Longrightarrow> fmlookup h' b = fmlookup h b"
    by (rule realloc_last_ok [OF Nil(1-3) le]) blast
  moreover have "realloc_loop L grow rem q h = realloc_last L rem q h" using Nil(3) le by (subst realloc_loop.simps) (simp add: leD)
  ultimately show ?case by (intro exI [of _ h'] exI [of _ "[q]"]) auto
next
  case (Cons r rs)
  note P = Cons.prems(1) and R = Cons.prems(2) and qb = Cons.prems(3)
  show ?case
  proof (cases "rem > pb_len qb")
    case False
    then have le: "rem \<le> pb_len qb" by simp
    obtain h' where "realloc_last L rem q h = Some (Inr h')" "rc_ok h' R" "packet h' (Some q) [q] (take (unat rem) bs)"
      "\<And>b. b \<notin> set (q # r # rs) \<Longrightarrow> fmlookup h' b = fmlookup h b"
      by (rule realloc_last_ok [OF P R qb le]) blast
    moreover have "realloc_loop L grow rem q h = realloc_last L rem q h" using qb le by (subst realloc_loop.simps) (simp add: leD)
    ultimately show ?thesis by (intro exI [of _ h'] exI [of _ "[q]"]) auto
  next
    case True
    let ?qb = "qb\<lparr>pb_tot_len := pb_tot_len qb + grow\<rparr>"
    let ?h = "fmupd q ?qb h"
    from P qb obtain cs where c: "pb_wf qb" "unat (pb_tot_len qb) = length bs" "bs = pb_data qb @ cs" "pb_next qb = Some r"
      "packet h (Some r) (r # rs) cs" by auto
    then obtain rb where rb: "fmlookup h r = Some rb" "unat (pb_tot_len rb) = length cs" by auto
    have d: "q \<notin> set (r # rs)" using packet_distinct [OF P] by simp
    have tl: "pb_tot_len qb = pb_len qb + pb_tot_len rb"
    proof -
      have "length bs < 65536" using c(2) unat_u16 [of "pb_tot_len qb"] by metis
      then show ?thesis using c(1-3) rb(2) by (simp add: word_unat_eq_iff unat_word_ariths(1))
    qed
    have ur: "unat (rem - pb_len qb) = unat rem - unat (pb_len qb)" using True by (simp add: unat_sub)
    have p': "packet ?h (Some r) (r # rs) cs" using c(5) d by (simp del: packet.simps)
    have r': "rc_ok ?h R" by (rule rc_ok_upd_same [OF R qb]) (simp_all add: rc_okD(3) [OF R qb])
    have e: "pb_tot_len rb + grow = rem - pb_len qb" using Cons.prems(4) tl by (simp add: algebra_simps)
    have rl: "fmlookup ?h r = Some rb" using rb(1) d by auto
    have lc: "unat (rem - pb_len qb) \<le> length cs" using ur Cons.prems(5) c(1,3) by simp
    from Cons.IH [OF p' r' rl e lc]
    obtain h' ps where h': "realloc_loop L grow (rem - pb_len qb) r ?h = Some (Inr h')" "rc_ok h' R"
      "packet h' (Some r) ps (take (unat (rem - pb_len qb)) cs)" "set ps \<subseteq> set (r # rs)"
      "\<forall>b. b \<notin> set (r # rs) \<longrightarrow> fmlookup h' b = fmlookup ?h b" by blast
    have "realloc_loop L grow rem q h = Some (Inr h')" using qb True c(4) h'(1) by (subst realloc_loop.simps) simp
    moreover have hq: "fmlookup h' q = Some ?qb" using h'(5) d by simp
    have "take (unat rem) bs = pb_data ?qb @ take (unat (rem - pb_len qb)) cs" "length (take (unat rem) bs) = unat (pb_tot_len ?qb)" "pb_wf ?qb"
      using c(1,3) ur True Cons.prems(4,5) by (auto simp: word_less_nat_alt pb_data_def pb_wf_def)
    then have "packet h' (Some q) (q # ps) (take (unat rem) bs)" using hq h'(3) c(4) by auto
    ultimately show ?thesis using h'(2,4,5) by (intro exI [of _ h'] exI [of _ "q # ps"]) auto
  qed
qed

lemma pbuf_realloc_ok:
  assumes "packet h (Some p) ps bs" "rc_ok h R"
  obtains h' qs where "pbuf_realloc L p n h = Some (Inr h')" "rc_ok h' R" "packet h' (Some p) qs (take (unat n) bs)"
proof -
  obtain pb qs where pb: "ps = p # qs" "fmlookup h p = Some pb" "unat (pb_tot_len pb) = length bs" using assms(1) by (auto simp: packet_Some)
  show thesis
  proof (cases "n \<ge> pb_tot_len pb")
    case True
    then have "pbuf_realloc L p n h = Some (Inr h)" "take (unat n) bs = bs" using pb by (simp_all add: pbuf_realloc_def word_le_nat_alt)
    then show thesis using assms that by auto
  next
    case False
    then have "unat n \<le> length bs" using pb(3) by (simp add: word_le_nat_alt)
    then show thesis
      using realloc_loop_ok [OF assms(1) [unfolded pb(1)] assms(2) pb(2), of "n - pb_tot_len pb" n L] False pb(2) that
      by (auto simp: pbuf_realloc_def)
  qed
qed

section \<open>A user of packets\<close>

lemma pbuf_alloc_one_from_pool:
  assumes "malloc_ok L" "rc_ok h R" "unat len \<le> PBUF_POOL_BUFSIZE_ALIGNED - LWIP_MEM_ALIGN_SIZE (layer_offset layer)"
  shows "pbuf_alloc L layer len PBUF_POOL h = Some (Inr (None, h)) \<or>
    (\<exists>p h'. pbuf_alloc L layer len PBUF_POOL h = Some (Inr (Some p, h')) \<and> allocated h R (unat len) p h')"
proof (cases "malloc L (SIZEOF_STRUCT_PBUF + PBUF_POOL_BUFSIZE_ALIGNED) h")
  case None
  then show ?thesis by (simp add: pbuf_alloc_def)
next
  case (Some pbs)
  then obtain p bs where p: "malloc L (SIZEOF_STRUCT_PBUF + PBUF_POOL_BUFSIZE_ALIGNED) h = Some (p, bs)" by (cases pbs) auto
  let ?o = "LWIP_MEM_ALIGN_SIZE (layer_offset layer)"
  define pb where "pb = (raw_pbuf bs)\<lparr>pb_type := PBUF_POOL, pb_next := None, pb_payload := ?o, pb_tot_len := len, pb_len := len, pb_ref := 1\<rparr>"
  have m: "min (unat len) (PBUF_POOL_BUFSIZE_ALIGNED - ?o) = unat len" using assms(3) by simp
  have "?o \<le> PBUF_POOL_BUFSIZE_ALIGNED" by (cases layer) (simp_all add: pbuf_consts)
  then have "pb_wf pb" using malloc_okD(2) [OF assms(1) p] assms(3) by (simp add: pb_wf_def raw_pbuf_def pb_def)
  then have "allocated h R (unat len) p (fmupd p (pb\<lparr>pb_ref := 1, pb_flags := 0\<rparr>) h)"
    by (intro pbuf_alloc_single [OF assms(2) malloc_okD(1) [OF assms(1) p]]) (simp_all add: pb_def pb_wf_def)
  moreover have "pbuf_alloc L layer len PBUF_POOL h = Some (Inr (Some p, fmupd p (pb\<lparr>pb_ref := 1, pb_flags := 0\<rparr>) h))"
    using p m by (simp add: pbuf_alloc_def Let_def pool_tail.simps [of _ _ _ 0] pb_def)
  ultimately show ?thesis by blast
qed

text \<open>
  The allocations that are safe with any library: from the heap, from the pool when one buffer is enough, and from the pool in any case
  when new blocks do not look like custom pbufs.
\<close>

definition safe_alloc :: "memlib \<Rightarrow> pbuf_layer \<Rightarrow> u16 \<Rightarrow> pbuf_type \<Rightarrow> bool" where
  "safe_alloc L layer len type \<longleftrightarrow> type = PBUF_RAM \<or>
     type = PBUF_POOL \<and> (unat len \<le> PBUF_POOL_BUFSIZE_ALIGNED - LWIP_MEM_ALIGN_SIZE (layer_offset layer) \<or> malloc_clean L)"

lemma pbuf_alloc_safe:
  assumes "malloc_ok L" "rc_ok h R" "safe_alloc L layer len type"
  shows "pbuf_alloc L layer len type h = Some (Inr (None, h)) \<or>
    (\<exists>p h'. pbuf_alloc L layer len type h = Some (Inr (Some p, h')) \<and> allocated h R (unat len) p h')"
  using assms pbuf_alloc_RAM [OF assms(1,2)] pbuf_alloc_one_from_pool [OF assms(1,2)] pbuf_alloc_POOL [OF assms(1) _ assms(2)]
  unfolding safe_alloc_def by blast

text \<open>
  A user that starts with the heap \<open>h0\<close>, allocates packets, takes further references to its packets and gives up its
  pointers, in any order; \<open>M\<close> are the pointers it holds.
\<close>

inductive pbuf_user :: "memlib \<Rightarrow> heap \<Rightarrow> heap \<Rightarrow> nat multiset \<Rightarrow> bool" for L h0 where
  start: "pbuf_user L h0 h0 {#}"
| alloc: "pbuf_user L h0 h M \<Longrightarrow> safe_alloc L layer len type \<Longrightarrow> pbuf_alloc L layer len type h = Some (Inr (p, h')) \<Longrightarrow>
     pbuf_user L h0 h' (M + owner p)"
| share: "pbuf_user L h0 h M \<Longrightarrow> a \<in># M \<Longrightarrow> refs h a < 65535 \<Longrightarrow> pbuf_ref (Some a) h = Inr h' \<Longrightarrow> pbuf_user L h0 h' (add_mset a M)"
| release: "pbuf_user L h0 h (add_mset a M) \<Longrightarrow> pbuf_free L (Some a) h = Some (Inr (n, h')) \<Longrightarrow> pbuf_user L h0 h' M"

text \<open>The pbufs of \<open>h0\<close> are as they were, and the chains of the new ones are new.\<close>

definition extends :: "heap \<Rightarrow> heap \<Rightarrow> bool" where
  "extends h0 h \<longleftrightarrow> (\<forall>q pb. fmlookup h0 q = Some pb \<longrightarrow> fmlookup h q = Some pb) \<and>
     (\<forall>q. fmlookup h q \<noteq> None \<longrightarrow> fmlookup h0 q = None \<longrightarrow> (\<exists>ps. chain h (Some q) ps \<and> (\<forall>a\<in>set ps. fmlookup h0 a = None)))"

lemma extends_refl [simp]: "extends h h"
  by (auto simp: extends_def)

lemma chain_part: "chain h p ps \<Longrightarrow> q \<in> set ps \<Longrightarrow> \<exists>qs. chain h (Some q) qs \<and> set qs \<subseteq> set ps"
proof (induction ps arbitrary: p)
  case (Cons a ps)
  then obtain pb where pb: "p = Some a" "fmlookup h a = Some pb" "chain h (pb_next pb) ps" by auto
  show ?case
  proof (cases "q = a")
    case True
    then show ?thesis using Cons.prems(1) pb(1) by blast
  next
    case False
    then obtain qs where "chain h (Some q) qs \<and> set qs \<subseteq> set ps" using Cons.IH [OF pb(3)] Cons.prems(2) by auto
    then show ?thesis by auto
  qed
qed simp

lemma extends_alloc:
  assumes e: "extends h0 h" and pk: "chain h' (Some p) ps" "fmdrop_set (set ps) h' = h"
  shows "extends h0 h'" "fmlookup h0 p = None"
proof -
  have same: "fmlookup h a = (if a \<in> set ps then None else fmlookup h' a)" for a using pk(2) by auto
  have old: "fmlookup h0 a = None" if "fmlookup h a = None" for a using e that unfolding extends_def by (cases "fmlookup h0 a") auto
  show "fmlookup h0 p = None" by (rule old) (use same [of p] pk(1) in \<open>auto simp: chain_Some\<close>)
  show "extends h0 h'"
    unfolding extends_def
  proof (intro conjI allI impI)
    show "fmlookup h' q = Some pb" if "fmlookup h0 q = Some pb" for q pb
      using e that same [of q] unfolding extends_def by (auto split: if_splits)
    fix q assume q: "fmlookup h' q \<noteq> None" "fmlookup h0 q = None"
    show "\<exists>qs. chain h' (Some q) qs \<and> (\<forall>a\<in>set qs. fmlookup h0 a = None)"
    proof (cases "q \<in> set ps")
      case True
      then obtain qs where "chain h' (Some q) qs" "set qs \<subseteq> set ps" using chain_part [OF pk(1)] by blast
      then show ?thesis using old same by (metis subsetD)
    next
      case False
      then have "fmlookup h q \<noteq> None" using q(1) same [of q] by simp
      then obtain qs where qs: "chain h (Some q) qs" "\<forall>a\<in>set qs. fmlookup h0 a = None"
        using e q(2) unfolding extends_def by blast
      have "fmlookup h' a = fmlookup h a" if "a \<in> set qs" for a
        using chain_dom [OF qs(1) that] same [of a] by (auto simp: fmlookup_dom'_iff split: if_splits)
      then have "chain h' (Some q) qs" by (rule chain_frame [OF qs(1)])
      then show ?thesis using qs(2) by blast
    qed
  qed
qed

lemma chain_same_but_refs:
  assumes "same_but_refs h' h"
  shows "chain h p ps \<Longrightarrow> set ps \<subseteq> fmdom' h' \<Longrightarrow> chain h' p ps"
proof (induction ps arbitrary: p)
  case (Cons a ps)
  then obtain pb pb' where pb: "p = Some a" "fmlookup h a = Some pb" "chain h (pb_next pb) ps" "fmlookup h' a = Some pb'"
    by (auto simp: fmlookup_dom'_iff)
  then obtain r where "pb' = pb\<lparr>pb_ref := r\<rparr>" using same_but_refsE [OF assms pb(4,2)] by blast
  then show ?case using pb Cons by auto
qed simp

text \<open>A change of the reference counts or a release within the new chains.\<close>

lemma extends_change:
  assumes e: "extends h0 h" and s: "same_but_refs h' h" "rc_ok h' R'" and f: "\<And>q. fmlookup h0 q \<noteq> None \<Longrightarrow> fmlookup h' q = fmlookup h q"
  shows "extends h0 h'"
  unfolding extends_def
proof (intro conjI allI impI)
  show "fmlookup h' q = Some pb" if "fmlookup h0 q = Some pb" for q pb using e f [of q] that unfolding extends_def by auto
  fix q assume q: "fmlookup h' q \<noteq> None" "fmlookup h0 q = None"
  then have "fmlookup h q \<noteq> None" using s(1) unfolding same_but_refs_def by auto
  then obtain qs where qs: "chain h (Some q) qs" "\<forall>a\<in>set qs. fmlookup h0 a = None" using e q(2) unfolding extends_def by blast
  have "set qs \<subseteq> fmdom' h'" by (rule rc_ok_chain_dom [OF s qs(1)]) (use q(1) in \<open>auto simp: fmlookup_dom'_iff\<close>)
  then show "\<exists>ps. chain h' (Some q) ps \<and> (\<forall>a\<in>set ps. fmlookup h0 a = None)" using chain_same_but_refs [OF s(1) qs(1)] qs(2) by blast
qed

lemma pbuf_user_inv:
  assumes L: "malloc_ok L" and h0: "rc_ok h0 R"
  shows "pbuf_user L h0 h M \<Longrightarrow> rc_ok h (R + M) \<and> extends h0 h \<and> (\<forall>a\<in>#M. fmlookup h0 a = None)"
proof (induction rule: pbuf_user.induct)
  case start
  then show ?case using h0 by simp
next
  case (alloc h M layer len type p h')
  have rc: "rc_ok h (R + M)" using alloc.IH by simp
  show ?case
  proof (cases p)
    case None
    then show ?thesis using pbuf_alloc_safe [OF L rc alloc.hyps(2)] alloc.hyps(3) alloc.IH by auto
  next
    case (Some a)
    then have "allocated h (R + M) (unat len) a h'" using pbuf_alloc_safe [OF L rc alloc.hyps(2)] alloc.hyps(3) by auto
    then obtain ps bs where ps: "packet h' (Some a) ps bs" "fmdrop_set (set ps) h' = h" "rc_ok h' (add_mset a (R + M))" by (auto simp: allocated_def)
    note E = extends_alloc [OF _ packet_chain [OF ps(1)] ps(2), of h0]
    show ?thesis using E alloc.IH ps(3) Some by auto
  qed
next
  case (share h M a h')
  then obtain h1 where "pbuf_ref (Some a) h = Inr h1" "rc_ok h1 (add_mset a (R + M))" "same_but_refs h1 h"
    using pbuf_ref_ok [of h "R + M" a] by auto
  then have h': "rc_ok h' (R + add_mset a M)" "same_but_refs h' h" using share.hyps(4) by auto
  have a: "fmlookup h0 a = None" using share by blast
  have f: "fmlookup h' q = fmlookup h q" if "fmlookup h0 q \<noteq> None" for q
    using that a share.hyps(4) by (cases "q = a") (auto simp: pbuf_ref_def split: option.splits)
  show ?case using extends_change [OF _ h'(2,1) f] h'(1) a share.IH by auto
next
  case (release h a M n h')
  have rc: "rc_ok h (add_mset a (R + M))" and a: "fmlookup h0 a = None" and e: "extends h0 h" using release.IH by auto
  obtain m h1 where "pbuf_free L (Some a) h = Some (Inr (m, h1))" "rc_ok h1 (R + M)" "same_but_refs h1 h" by (rule pbuf_free_ok [OF rc])
  then have h': "rc_ok h' (R + M)" "same_but_refs h' h" using release.hyps(2) by auto
  obtain pb where "fmlookup h a = Some pb" by (rule rc_ok_owner [OF rc, of a]) simp_all
  then obtain ps where ps: "chain h (Some a) ps" "\<forall>b\<in>set ps. fmlookup h0 b = None" using e a unfolding extends_def by blast
  have "\<exists>n h''. pbuf_free_loop L 0 (Some a) h = Some (Inr (n, h'')) \<and> (\<forall>b. b \<notin> set ps \<longrightarrow> fmlookup h'' b = fmlookup h b) \<and>
     (\<forall>q x. q \<notin> set ps \<longrightarrow> pbuf_free_loop L 0 (Some a) (fmupd q x h) = Some (Inr (n, fmupd q x h'')))"
    by (rule pbuf_free_loop_frame [OF ps(1)]) (use rc_okD(2,3) [OF rc] in blast)
  then have "\<forall>b. b \<notin> set ps \<longrightarrow> fmlookup h' b = fmlookup h b" using release.hyps(2) by (auto simp: pbuf_free_def)
  then have f: "fmlookup h' q = fmlookup h q" if "fmlookup h0 q \<noteq> None" for q using ps(2) that by (cases "q \<in> set ps") auto
  show ?case using extends_change [OF e h'(2,1) f] h'(1) release.IH by auto
qed

text \<open>Without a pointer from outside, no new chain is left: the first pbuf of a longest one would have no reference.\<close>

lemma extends_no_leak:
  assumes e: "extends h0 h" and rc: "rc_ok h R" "rc_ok h0 R"
  shows "h = h0"
proof -
  have dom: "fmlookup h0 q \<noteq> None" if "fmlookup h q \<noteq> None" for q
  proof (rule ccontr)
    define N where "N = {q. fmlookup h q \<noteq> None \<and> fmlookup h0 q = None}"
    define len where "len q = length (THE ps. chain h (Some q) ps)" for q
    have len: "len q = length ps" if "chain h (Some q) ps" for q ps
      unfolding len_def using that chain_unique by (metis the_equality)
    assume "\<not> fmlookup h0 q \<noteq> None"
    then have "N \<noteq> {}" using that by (auto simp: N_def)
    moreover have "finite N" by (rule finite_subset [of _ "fmdom' h"]) (auto simp: N_def fmlookup_dom'_iff)
    ultimately obtain a where a: "a \<in> N" "\<forall>b\<in>N. len b \<le> len a" using Max_in [of "len ` N"] Max_ge [of "len ` N"] by fastforce
    then obtain pb where pb: "fmlookup h a = Some pb" "fmlookup h0 a = None" by (auto simp: N_def)
    have "a \<notin># R" using rc_ok_owner_dom [OF rc(2), of a] pb(2) by (auto simp: fmlookup_dom'_iff)
    then have "count (ptrs h) a > 0" using rc_okD(1,2) [OF rc(1)] pb(1)
      by (metis (no_types, lifting) add.right_neutral gr0I not_in_iff option.simps(5) refs_def unat_eq_zero)
    then obtain b bb where b: "fmlookup h b = Some bb" "a \<in># next_ptrs bb"
      by (auto simp: ptrs_def fmlookup_dom'_iff set_mset_sum dest!: count_greater_zero_iff [THEN iffD1])
    then have n: "pb_next bb = Some a" by (auto simp: next_ptrs_owner owner_def split: option.splits)
    have "fmlookup h0 b = None"
    proof (rule ccontr)
      assume "fmlookup h0 b \<noteq> None"
      then have "fmlookup h0 b = Some bb" using e b(1) unfolding extends_def by force
      then show False using rc_ok_next_dom [OF rc(2) _ n] pb(2) by (auto simp: fmlookup_dom'_iff)
    qed
    then have "b \<in> N" using b(1) by (simp add: N_def)
    obtain ps where ps: "chain h (Some a) ps" using e pb unfolding extends_def by blast
    then have "chain h (Some b) (b # ps)" using b(1) n by simp
    then have "len b = Suc (len a)" using len [OF ps] len [of b "b # ps"] by simp
    then show False using a(2) \<open>b \<in> N\<close> by force
  qed
  show ?thesis
  proof (rule fmap_ext)
    show "fmlookup h q = fmlookup h0 q" for q
      using dom [of q] e unfolding extends_def by (cases "fmlookup h q"; cases "fmlookup h0 q") auto
  qed
qed

section \<open>Properties\<close>

text \<open>
  An allocation from the heap or from the pool returns the null pointer and the heap as it was, or a new
  packet of the requested length, owned by the caller, beside the unchanged other pbufs.
\<close>

lemma pbuf_alloc_packet:
  assumes "malloc_ok L" "malloc_clean L" "rc_ok h R" "type = PBUF_RAM \<or> type = PBUF_POOL"
  shows "pbuf_alloc L layer len type h = Some (Inr (None, h)) \<or>
    (\<exists>p h' ps bs. pbuf_alloc L layer len type h = Some (Inr (Some p, h')) \<and> packet h' (Some p) ps bs \<and> length bs = unat len \<and>
       fmdrop_set (set ps) h' = h \<and> rc_ok h' (add_mset p R))"
  using assms pbuf_alloc_RAM [OF assms(1,3), of layer len] pbuf_alloc_POOL [OF assms(1-3), of layer len]
  unfolding allocated_def by metis

lemma pbuf_alloc_packet_example:
  "pbuf_alloc ex_lib PBUF_TRANSPORT 1440 PBUF_POOL ex_heap = Some (Inr (None, ex_heap)) \<or>
    (\<exists>p h' ps bs. pbuf_alloc ex_lib PBUF_TRANSPORT 1440 PBUF_POOL ex_heap = Some (Inr (Some p, h')) \<and>
       packet h' (Some p) ps bs \<and> length bs = unat (1440 :: u16) \<and> fmdrop_set (set ps) h' = ex_heap \<and> rc_ok h' (add_mset p {#1#}))"
  by (rule pbuf_alloc_packet [OF ex_lib_ok heap_okD [OF ex_heap_ok]]) simp

text \<open>
  C27: a user that allocates packets from the heap or from the pool, takes references to them and gives up all its pointers
  again, in any order, leaves the heap exactly as it was before: nothing leaks and nothing else is changed, also when
  allocations fail. As long as it runs, the pbufs of the others are unchanged, and every \<open>pbuf_free\<close> of a pointer that it holds returns. (An
  allocation from the pool that needs several buffers is included under the assumption on the library of \<open>safe_alloc\<close>: when it
  fails in the middle, \<open>pbuf_free\<close> reads flags that have not been set.)
\<close>

theorem pbuf_no_leak:
  assumes "malloc_ok L" "rc_ok h0 R" "pbuf_user L h0 h M"
  shows "(\<forall>q pb. fmlookup h0 q = Some pb \<longrightarrow> fmlookup h q = Some pb) \<and>
    (\<forall>a. a \<in># M \<longrightarrow> (\<exists>n h'. pbuf_free L (Some a) h = Some (Inr (n, h')))) \<and> (M = {#} \<longrightarrow> h = h0)"
proof -
  have I: "rc_ok h (R + M)" "extends h0 h" using pbuf_user_inv [OF assms] by simp_all
  have "\<exists>n h'. pbuf_free L (Some a) h = Some (Inr (n, h'))" if "a \<in># M" for a
  proof -
    have "M = add_mset a (M - {#a#})" using that by simp
    then obtain M' where "M = add_mset a M'" ..
    then have "rc_ok h (add_mset a (R + M'))" using I(1) by simp
    then show ?thesis by (rule pbuf_free_ok) blast
  qed
  then show ?thesis using I assms(2) extends_no_leak [OF I(2)] unfolding extends_def by auto
qed

theorem pbuf_no_leak_witness:
  "\<exists>p h n. pbuf_alloc ex_lib PBUF_TRANSPORT 100 PBUF_POOL ex_heap = Some (Inr (Some p, h)) \<and> pbuf_free ex_lib (Some p) h = Some (Inr (n, ex_heap))"
proof -
  note start = pbuf_user.start [of ex_lib ex_heap]
  note no_leak = pbuf_no_leak [OF ex_lib_ok(1) heap_okD [OF ex_heap_ok]]
  have s: "safe_alloc ex_lib PBUF_TRANSPORT 100 PBUF_POOL" using ex_lib_ok(2) by (simp add: safe_alloc_def)
  have "pbuf_alloc ex_lib PBUF_TRANSPORT 100 PBUF_POOL ex_heap \<noteq> Some (Inr (None, ex_heap))"
    by (simp add: pbuf_alloc_def ex_lib_def Let_def pbuf_consts pool_tail.simps [of _ _ _ 0])
  then obtain p h where h: "pbuf_alloc ex_lib PBUF_TRANSPORT 100 PBUF_POOL ex_heap = Some (Inr (Some p, h))"
    using pbuf_alloc_safe [OF ex_lib_ok(1) heap_okD [OF ex_heap_ok] s] by blast
  have u: "pbuf_user ex_lib ex_heap h {#p#}" using pbuf_user.alloc [OF start s h] by simp
  then obtain n h' where f: "pbuf_free ex_lib (Some p) h = Some (Inr (n, h'))" using no_leak [OF u] by auto
  have "pbuf_user ex_lib ex_heap h' {#}" by (rule pbuf_user.release [OF u f])
  then have "h' = ex_heap" using no_leak by blast
  then show ?thesis using h f by blast
qed

text \<open>
  C28: data put into a packet with \<open>pbuf_take\<close> come out of it with \<open>pbuf_copy_partial\<close>, from any offset into the packet and for
  any length, however the packet is cut into pbufs: the copy has the bytes of the packet from the offset on, the new
  ones first and then the old ones behind them, as many as there are or were asked for, and this number is returned; the rest of the array of the application, the
  bytes of the packet behind the new ones and the reference counts stay as they are.
\<close>

theorem pbuf_take_copy_roundtrip:
  assumes "packet h (Some p) ps bs" "unat len \<le> length bs" "unat len \<le> length src"
    "unat off \<le> length bs" "unat n \<le> length dst" "length dst < 65536"
  shows "\<exists>h'. pbuf_take (Some p) src len h = Some (Inr (ERR_OK, h')) \<and>
     packet h' (Some p) ps (take (unat len) src @ drop (unat len) bs) \<and> (\<forall>R. rc_ok h R \<longrightarrow> rc_ok h' R) \<and>
     pbuf_copy_partial (Some p) dst n off h' = Some (Inr (of_nat (min (unat n) (length bs - unat off)),
       blit dst 0 (take (unat n) (drop (unat off) (take (unat len) src @ drop (unat len) bs)))))"
proof -
  obtain h' where h': "pbuf_take (Some p) src len h = Some (Inr (ERR_OK, h'))"
    "packet h' (Some p) ps (take (unat len) src @ drop (unat len) bs)" "\<forall>R. rc_ok h R \<longrightarrow> rc_ok h' R"
    by (rule pbuf_take_ok [OF assms(1-3)]) blast
  have l: "length (take (unat len) src @ drop (unat len) bs) = length bs" using assms(2,3) by simp
  show ?thesis
    using h' pbuf_copy_partial_ok [OF h'(2) _ assms(5,6), of off] assms(4) unfolding l by blast
qed

theorem pbuf_take_copy_roundtrip_witness:
  "\<exists>h'. pbuf_take (Some 1) [1, 2] 2 ex_heap = Some (Inr (ERR_OK, h')) \<and>
     pbuf_copy_partial (Some 1) [0, 0, 0, 0] 4 1 h' = Some (Inr (2, blit [0, 0, 0, 0] 0 [2, 12]))"
  using pbuf_take_copy_roundtrip [OF ex_packet, of 2 "[1, 2]" 1 4 "[0, 0, 0, 0]"] by auto

text \<open>
  \<open>pbuf_realloc\<close> shortens a packet to its first \<open>n\<close> bytes, in every pbuf with the right total length,
  and gives up the pbufs that are no longer needed without disturbing other references to them.
\<close>

lemma pbuf_realloc_shortens:
  assumes "packet h (Some p) ps bs" "rc_ok h R"
  shows "\<exists>h' qs. pbuf_realloc L p n h = Some (Inr h') \<and> rc_ok h' R \<and> packet h' (Some p) qs (take (unat n) bs)"
  using pbuf_realloc_ok [OF assms] by metis

lemma pbuf_realloc_shortens_example:
  "\<exists>h' qs. pbuf_realloc ex_lib 1 2 ex_heap = Some (Inr h') \<and> rc_ok h' {#1#} \<and> packet h' (Some 1) qs [10, 11]"
  using pbuf_realloc_shortens [OF ex_packet heap_okD [OF ex_heap_ok], of ex_lib 2] by simp

end
