(* ===== verification/Inet.thy ===== *)
theory Inet
  imports Packets
begin

text \<open>
  Byte order (\<^verbatim>\<open>src/lwip/src/core/def.c\<close>) and the Internet checksum (\<^verbatim>\<open>src/lwip/src/core/ipv4/inet_chksum.c\<close>, with
  algorithm 1, which \<^verbatim>\<open>arch/cc.h\<close> selects). The reference is the sum of the words of 16 bits in one's
  complement arithmetic, which is arithmetic modulo 65535 without a zero for sums that are not zero.
\<close>

section \<open>Byte order\<close>

definition lwip_htons :: "u16 \<Rightarrow> u16" where
  "lwip_htons n = push_bit 8 (n AND 0xff) OR drop_bit 8 (n AND 0xff00)"

definition lwip_ntohs :: "u16 \<Rightarrow> u16" where "lwip_ntohs n = lwip_htons n"

definition lwip_htonl :: "u32 \<Rightarrow> u32" where
  "lwip_htonl n = push_bit 24 (n AND 0xff) OR push_bit 8 (n AND 0xff00) OR drop_bit 8 (n AND 0xff0000) OR drop_bit 24 (n AND 0xff000000)"

definition lwip_ntohl :: "u32 \<Rightarrow> u32" where "lwip_ntohl n = lwip_htonl n"

section \<open>The checksum routines\<close>

fun chksum_loop :: "u32 \<Rightarrow> u8 list \<Rightarrow> u32" where
  "chksum_loop acc (a # b # r) = chksum_loop (acc + ucast (push_bit 8 (ucast a) OR ucast b :: u16)) r"
| "chksum_loop acc [a] = acc + ucast (push_bit 8 (ucast a) :: u16)"
| "chksum_loop acc [] = acc"

definition FOLD_U32T :: "u32 \<Rightarrow> u32" where "FOLD_U32T u = drop_bit 16 u + (u AND 0xffff)"

definition SWAP_BYTES_IN_WORD :: "u32 \<Rightarrow> u32" where
  "SWAP_BYTES_IN_WORD w = push_bit 8 (w AND 0xff) OR drop_bit 8 (w AND 0xff00)"

text \<open>The argument are the \<open>len\<close> bytes from the pointer on.\<close>

definition lwip_standard_chksum :: "u8 list \<Rightarrow> u16" where
  "lwip_standard_chksum bs =
     (let acc = chksum_loop 0 bs;
          acc = drop_bit 16 acc + (acc AND 0xffff);
          acc = (if acc AND 0xffff0000 \<noteq> 0 then drop_bit 16 acc + (acc AND 0xffff) else acc)
      in lwip_htons (ucast acc))"

definition inet_chksum :: "u8 list \<Rightarrow> u16" where "inet_chksum bs = NOT (lwip_standard_chksum bs)"

definition read_bytes :: "u8 list \<Rightarrow> nat \<Rightarrow> nat \<Rightarrow> u8 list res" where
  "read_bytes m a n = (if a + n \<le> length m then Inr (take n (drop a m)) else Inl OutOfBounds)"

text \<open>The loop over the pbufs; the result is the accumulator and the flag \<open>swapped\<close>.\<close>

partial_function (option) chksum_pbufs :: "u32 \<Rightarrow> bool \<Rightarrow> nat option \<Rightarrow> heap \<Rightarrow> (u32 \<times> bool) res option" where
  "chksum_pbufs acc swapped q h =
     (case q of
        None \<Rightarrow> Some (Inr (acc, swapped))
      | Some a \<Rightarrow>
          (case fmlookup h a of
             None \<Rightarrow> Some (Inl OutOfBounds)
           | Some pb \<Rightarrow>
               (case read_bytes (pb_mem pb) (pb_payload pb) (unat (pb_len pb)) of
                  Inl e \<Rightarrow> Some (Inl e)
                | Inr bs \<Rightarrow>
                    let acc = FOLD_U32T (acc + ucast (lwip_standard_chksum bs))
                    in if pb_len pb mod 2 \<noteq> 0
                       then chksum_pbufs (SWAP_BYTES_IN_WORD acc) (\<not> swapped) (pb_next pb) h
                       else chksum_pbufs acc swapped (pb_next pb) h)))"

definition inet_chksum_pbuf :: "nat option \<Rightarrow> heap \<Rightarrow> u16 res option" where
  "inet_chksum_pbuf p h =
     (case chksum_pbufs 0 False p h of
        None \<Rightarrow> None
      | Some (Inl e) \<Rightarrow> Some (Inl e)
      | Some (Inr (acc, swapped)) \<Rightarrow>
          let acc = (if swapped then SWAP_BYTES_IN_WORD acc else acc) in Some (Inr (ucast (NOT (acc AND 0xffff)))))"

definition pseudo_header :: "u32 \<Rightarrow> u32 \<Rightarrow> u32 \<Rightarrow> u8 \<Rightarrow> u16 \<Rightarrow> u16" where
  "pseudo_header acc src dest proto proto_len =
     (let acc = acc + (src AND 0xffff) + (drop_bit 16 src AND 0xffff) + (dest AND 0xffff) + (drop_bit 16 dest AND 0xffff)
                + ucast (lwip_htons (ucast proto)) + ucast (lwip_htons proto_len);
          acc = FOLD_U32T acc;
          acc = FOLD_U32T acc
      in ucast (NOT (acc AND 0xffff)))"

definition inet_chksum_pseudo :: "nat option \<Rightarrow> u32 \<Rightarrow> u32 \<Rightarrow> u8 \<Rightarrow> u16 \<Rightarrow> heap \<Rightarrow> u16 res option" where
  "inet_chksum_pseudo p src dest proto proto_len h =
     (case chksum_pbufs 0 False p h of
        None \<Rightarrow> None
      | Some (Inl e) \<Rightarrow> Some (Inl e)
      | Some (Inr (acc, swapped)) \<Rightarrow>
          let acc = (if swapped then SWAP_BYTES_IN_WORD acc else acc) in Some (Inr (pseudo_header acc src dest proto proto_len)))"

text \<open>The variant that stops after \<open>chksum_len\<close> bytes; a violated assertion does not return.\<close>

partial_function (option) chksum_partial :: "u32 \<Rightarrow> bool \<Rightarrow> u16 \<Rightarrow> nat option \<Rightarrow> heap \<Rightarrow> (u32 \<times> bool) res option" where
  "chksum_partial acc swapped chksum_len q h =
     (case q of
        None \<Rightarrow> Some (Inr (acc, swapped))
      | Some a \<Rightarrow>
          if \<not> chksum_len > 0 then Some (Inr (acc, swapped))
          else
            (case fmlookup h a of
               None \<Rightarrow> Some (Inl OutOfBounds)
             | Some pb \<Rightarrow>
                 let chklen = (if pb_len pb > chksum_len then chksum_len else pb_len pb)
                 in (case read_bytes (pb_mem pb) (pb_payload pb) (unat chklen) of
                       Inl e \<Rightarrow> Some (Inl e)
                     | Inr bs \<Rightarrow>
                         let acc = acc + ucast (lwip_standard_chksum bs); chksum_len = chksum_len - chklen
                         in if \<not> chksum_len < 0x7fff then None
                            else let acc = FOLD_U32T acc
                                 in if pb_len pb mod 2 \<noteq> 0
                                    then chksum_partial (SWAP_BYTES_IN_WORD acc) (\<not> swapped) chksum_len (pb_next pb) h
                                    else chksum_partial acc swapped chksum_len (pb_next pb) h)))"

definition inet_chksum_pseudo_partial :: "nat option \<Rightarrow> u32 \<Rightarrow> u32 \<Rightarrow> u8 \<Rightarrow> u16 \<Rightarrow> u16 \<Rightarrow> heap \<Rightarrow> u16 res option" where
  "inet_chksum_pseudo_partial p src dest proto proto_len chksum_len h =
     (case chksum_partial 0 False chksum_len p h of
        None \<Rightarrow> None
      | Some (Inl e) \<Rightarrow> Some (Inl e)
      | Some (Inr (acc, swapped)) \<Rightarrow>
          let acc = (if swapped then SWAP_BYTES_IN_WORD acc else acc) in Some (Inr (pseudo_header acc src dest proto proto_len)))"

definition lwip_chksum_copy :: "u8 list \<Rightarrow> nat \<Rightarrow> u8 list \<Rightarrow> u16 \<Rightarrow> (u16 \<times> u8 list) res" where
  "lwip_chksum_copy dst off src len =
     rbind (memcpy dst off src (unat len)) (\<lambda>dst.
     rbind (read_bytes dst off (unat len)) (\<lambda>bs. Inr (lwip_standard_chksum bs, dst)))"

section \<open>One's complement sums\<close>

definition oc :: "nat \<Rightarrow> nat" where
  "oc n = (if n = 0 then 0 else (n - 1) mod 65535 + 1)"

lemma oc_le: "oc n \<le> 65535"
proof (cases "n = 0")
  case False
  then have "oc n = Suc ((n - 1) mod 65535)" by (simp add: oc_def)
  moreover have "(n - 1) mod 65535 < 65535" by (rule mod_less_divisor) simp
  ultimately show ?thesis by (simp only: Suc_le_eq)
qed (simp add: oc_def)

lemma oc_zero [simp]: "oc n = 0 \<longleftrightarrow> n = 0" "oc 0 = 0"
  by (simp_all add: oc_def)

lemma oc_cong: "oc n mod 65535 = n mod 65535"
  by (cases n) (simp_all add: oc_def mod_Suc_eq)

lemma oc_self: "n \<le> 65535 \<Longrightarrow> oc n = n"
  by (simp add: oc_def)

text \<open>The normal form is determined by the value modulo 65535.\<close>

lemma oc_unique:
  assumes "m mod 65535 = n mod 65535" "m = 0 \<longleftrightarrow> n = 0"
  shows "oc m = oc n"
proof (cases m)
  case (Suc k)
  then obtain l where n: "n = Suc l" using assms(2) by (cases n) auto
  have s: "k mod 65535 = (Suc k mod 65535 + 65534) mod 65535" for k :: nat by (simp add: mod_add_left_eq)
  have "k mod 65535 = l mod 65535" using assms(1) s [of k] s [of l] by (simp only: Suc n)
  then show ?thesis by (simp add: oc_def Suc n)
qed (use assms in simp)

lemma oc_eqI: "x \<le> 65535 \<Longrightarrow> x mod 65535 = n mod 65535 \<Longrightarrow> (x = 0 \<longleftrightarrow> n = 0) \<Longrightarrow> x = oc n"
  using oc_unique [of x n] by (simp add: oc_self)

lemma oc_add: "oc (oc m + n) = oc (m + n)" "oc (m + oc n) = oc (m + n)"
proof -
  have "(oc m + n) mod 65535 = (m + n) mod 65535" "(m + oc n) mod 65535 = (m + n) mod 65535"
    by (metis mod_add_left_eq oc_cong, metis mod_add_right_eq oc_cong)
  then show "oc (oc m + n) = oc (m + n)" "oc (m + oc n) = oc (m + n)" by (auto intro: oc_unique)
qed

lemma oc_mult: "oc (k * oc n) = oc (k * n)"
proof -
  have "(k * oc n) mod 65535 = (k * n) mod 65535" by (metis mod_mult_right_eq oc_cong)
  then show ?thesis by (rule oc_unique) simp
qed

text \<open>One folding of a number keeps the value modulo 65535; two give the normal form.\<close>

lemma fold_cong: "(n div 65536 + n mod 65536) mod 65535 = n mod (65535 :: nat)"
proof -
  have "n = 65535 * (n div 65536) + (n div 65536 + n mod 65536)" by (simp add: div_mod_decomp_int [symmetric])
  then show ?thesis by (metis mod_mult_self4)
qed

lemma fold_zero: "n div 65536 + n mod 65536 = 0 \<longleftrightarrow> n = (0 :: nat)"
  using div_mult_mod_eq [of n 65536] by auto

lemma unat_low16: "unat (u AND 0xffff) = unat (u :: u32) mod 65536"
proof -
  have "u AND 0xffff = take_bit 16 u" by (simp add: take_bit_eq_mask mask_eq_exp_minus_1)
  then have "unat (u AND 0xffff) = take_bit 16 (unat u)" by (simp only: unsigned_take_bit_eq)
  then show ?thesis by (simp add: take_bit_eq_mod)
qed

lemma unat_fold: "unat (FOLD_U32T u) = unat u div 65536 + unat u mod 65536"
proof -
  have d: "unat (drop_bit 16 u) = unat u div 65536" unfolding unat_drop_bit_eq by (simp add: drop_bit_eq_div)
  have m: "unat (u AND 0xffff) = unat u mod 65536" by (rule unat_low16)
  have "unat u < 2 ^ 32" using unsigned_less [of u, where 'a = nat] by simp
  then have "unat u div 65536 < 65536" by (simp add: less_mult_imp_div_less)
  moreover have "unat u mod 65536 < 65536" by simp
  ultimately show ?thesis unfolding FOLD_U32T_def unat_word_ariths(1) d m by simp
qed

lemma fold_oc:
  assumes "unat u \<le> 131070"
  shows "unat (FOLD_U32T u) = oc (unat u)"
proof (rule oc_eqI)
  show "unat (FOLD_U32T u) mod 65535 = unat u mod 65535" unfolding unat_fold by (rule fold_cong)
  have "unat u div 65536 \<le> 1" using assms by simp
  then consider "unat u div 65536 = 0" | "unat u div 65536 = 1" by linarith
  then show "unat (FOLD_U32T u) \<le> 65535"
  proof cases
    case 2
    then have "unat u = 65536 + unat u mod 65536" by (metis div_mult_mod_eq mult_1)
    then show ?thesis using assms 2 unfolding unat_fold by linarith
  qed (simp add: unat_fold less_Suc_eq_le [symmetric])
  show "unat (FOLD_U32T u) = 0 \<longleftrightarrow> unat u = 0" unfolding unat_fold by (rule fold_zero)
qed

lemma fold_fold_oc: "unat (FOLD_U32T (FOLD_U32T u)) = oc (unat u)"
proof -
  have "unat u < 2 ^ 32" using unsigned_less [of u, where 'a = nat] by simp
  then have "unat u div 65536 \<le> 65535" by (simp add: less_mult_imp_div_less less_Suc_eq_le [symmetric])
  moreover have "unat u mod 65536 \<le> 65535" by (simp add: less_Suc_eq_le [symmetric])
  ultimately have "unat (FOLD_U32T u) \<le> 131070" unfolding unat_fold by linarith
  then have "unat (FOLD_U32T (FOLD_U32T u)) = oc (unat (FOLD_U32T u))" by (rule fold_oc)
  also have "\<dots> = oc (unat u)"
    by (rule oc_unique) (simp_all only: unat_fold fold_cong fold_zero)
  finally show ?thesis .
qed

section \<open>The sum of the words\<close>

text \<open>The sum of the words, with the first byte of a word as the more significant one and as the less significant one.\<close>

fun besum :: "u8 list \<Rightarrow> nat" where
  "besum (a # b # r) = 256 * unat a + unat b + besum r"
| "besum [a] = 256 * unat a"
| "besum [] = 0"

fun lesum :: "u8 list \<Rightarrow> nat" where
  "lesum (a # b # r) = unat a + 256 * unat b + lesum r"
| "lesum [a] = unat a"
| "lesum [] = 0"

lemma besum_lesum: "(256 * besum bs) mod 65535 = lesum bs mod 65535"
proof (induction bs rule: besum.induct)
  case (1 a b r)
  have "256 * (256 * unat a + unat b + besum r) = (unat a + 256 * unat b + 256 * besum r) + 65535 * unat a" by simp
  then have "(256 * besum (a # b # r)) mod 65535 = (unat a + 256 * unat b + 256 * besum r) mod 65535" by (metis besum.simps(1) mod_mult_self2)
  also have "\<dots> = (unat a + 256 * unat b + lesum r) mod 65535" using 1 by (metis mod_add_right_eq)
  finally show ?case by simp
next
  case (2 a)
  have "256 * (256 * unat a) = unat a + 65535 * unat a" by simp
  then show ?case by (metis besum.simps(2) lesum.simps(2) mod_mult_self2)
qed simp

lemma lesum_zero: "lesum bs = 0 \<longleftrightarrow> besum bs = 0"
  by (induction bs rule: besum.induct) auto

lemma lesum_Cons: "lesum (a # bs) mod 65535 = (unat a + 256 * lesum bs) mod 65535"
proof (induction bs arbitrary: a rule: lesum.induct)
  case (1 c d r)
  have "lesum (a # c # d # r) mod 65535 = (unat a + 256 * unat c + (unat d + 256 * lesum r)) mod 65535"
    using 1 [of d] by (metis lesum.simps(1) mod_add_right_eq)
  also have "\<dots> = (unat a + 256 * unat c + (unat d + 256 * lesum r) + 65535 * unat d) mod 65535" by (simp only: mod_mult_self2)
  also have "unat a + 256 * unat c + (unat d + 256 * lesum r) + 65535 * unat d = unat a + 256 * lesum (c # d # r)" by simp
  finally show ?case .
qed simp_all

lemma lesum_append: "lesum (as @ bs) mod 65535 = (lesum as + 256 ^ (length as mod 2) * lesum bs) mod 65535"
proof (induction as rule: lesum.induct)
  case (1 a b r)
  have "lesum ((a # b # r) @ bs) mod 65535 = (unat a + 256 * unat b + lesum (r @ bs)) mod 65535" by simp
  also have "\<dots> = (unat a + 256 * unat b + (lesum r + 256 ^ (length r mod 2) * lesum bs)) mod 65535" using 1 by (metis mod_add_right_eq)
  finally show ?case by (simp add: ac_simps)
next
  case (2 a)
  show ?case using lesum_Cons [of a bs] by simp
qed simp

lemma lesum_append_zero: "lesum (as @ bs) = 0 \<longleftrightarrow> lesum as = 0 \<and> lesum bs = 0"
proof -
  have "lesum bs = 0 \<longleftrightarrow> (\<forall>b\<in>set bs. b = 0)" for bs
    by (induction bs rule: lesum.induct) (auto simp: unat_eq_zero)
  then show ?thesis by auto
qed

lemma besum_bound: "besum bs \<le> 65535 * ((length bs + 1) div 2)"
proof (induction bs rule: besum.induct)
  case (1 a b r)
  have "256 * unat a + unat b \<le> 65535" using unat_lt_256 [of a] unat_lt_256 [of b] by linarith
  then show ?case using 1 by simp
next
  case (2 a)
  have "256 * unat a \<le> 65535" using unat_lt_256 [of a] by linarith
  then show ?case by simp
qed simp

lemma unat_ucast_u16_u32: "unat (ucast (x :: u16) :: u32) = unat x"
  by (simp add: unsigned_ucast_eq take_bit_nat_eq_self_iff less_trans [OF unat_lt_65536])

lemma unat_push8: "unat (push_bit 8 (ucast a) :: u16) = 256 * unat a" for a :: u8
proof -
  have "256 * unat a < 65536" using unat_lt_256 [of a] by linarith
  then show ?thesis by (simp add: push_bit_eq_mult unat_word_ariths(2) mult.commute)
qed

lemma unat_word_be: "unat (push_bit 8 (ucast a) OR ucast b :: u16) = 256 * unat a + unat b" for a b :: u8
proof -
  have "push_bit 8 (ucast a) OR ucast b = (push_bit 8 (ucast a) + ucast b :: u16)"
    by (rule disjunctive_add [symmetric]) (auto simp: bit_simps bit_word8_ge)
  moreover have "256 * unat a + unat b < 65536" using unat_lt_256 [of a] unat_lt_256 [of b] by linarith
  ultimately show ?thesis by (simp add: unat_word_ariths(1) unat_push8)
qed

lemma unat_chksum_loop: "unat acc + besum bs < 2 ^ 32 \<Longrightarrow> unat (chksum_loop acc bs) = unat acc + besum bs"
proof (induction acc bs rule: chksum_loop.induct)
  case (1 acc a b r)
  have "unat (acc + ucast (push_bit 8 (ucast a) OR ucast b :: u16)) = unat acc + (256 * unat a + unat b)"
    using 1(2) by (simp add: unat_word_ariths(1) unat_ucast_u16_u32 unat_word_be)
  then show ?case using 1 by simp
next
  case (2 acc a)
  then show ?case by (simp add: unat_word_ariths(1) unat_ucast_u16_u32 unat_push8)
qed simp

lemma htons_bytes: "lwip_htons v = push_bit 8 (ucast (lo8 v)) OR ucast (hi8 v)"
proof -
  have m: "(0xff :: u16) = mask 8" "(0xff00 :: u16) = push_bit 8 (mask 8)" by (simp_all add: mask_eq_exp_minus_1)
  show ?thesis unfolding lwip_htons_def m lo8_def hi8_def by (rule bit_word_eqI) (auto simp: bit_simps bit_word16_ge)
qed

lemma lesum_htons: "unat (lwip_htons v) = lesum [hi8 v, lo8 v]"
  by (simp add: htons_bytes unat_word_be)

lemma unat_htons: "unat (lwip_htons v) = oc (256 * unat v)"
proof -
  define a where "a = unat v mod 256"
  define b where "b = unat v div 256"
  have v: "unat v = 256 * b + a" "a < 256" "b < 256" using unat_lt_65536 [of v] by (simp_all add: a_def b_def less_mult_imp_div_less)
  have "unat (lwip_htons v) = 256 * unat (ucast v :: u8) + unat (ucast (drop_bit 8 v) :: u8)" by (simp add: lesum_htons lo8_def hi8_def)
  moreover have "unat (ucast v :: u8) = a" by (simp add: unsigned_ucast_eq take_bit_eq_mod a_def)
  moreover have "unat (ucast (drop_bit 8 v) :: u8) = b"
    unfolding unsigned_ucast_eq unat_drop_bit_eq using v(3) by (simp add: take_bit_eq_mod drop_bit_eq_div b_def)
  ultimately have u: "unat (lwip_htons v) = 256 * a + b" by simp
  show ?thesis
  proof (rule oc_eqI)
    show "unat (lwip_htons v) \<le> 65535" using u v(2,3) by simp
    have "256 * unat v = 256 * a + b + 65535 * b" using v(1) by simp
    then show "unat (lwip_htons v) mod 65535 = 256 * unat v mod 65535" using u by (metis mod_mult_self2)
    show "unat (lwip_htons v) = 0 \<longleftrightarrow> 256 * unat v = 0" using u v(1) by auto
  qed
qed

section \<open>The routines compute the sum\<close>

lemma chksum_fold: "(if u AND 0xffff0000 \<noteq> 0 then FOLD_U32T u else u) = FOLD_U32T u"
proof (cases "u AND 0xffff0000 = 0")
  case True
  have m: "(0xffff0000 :: u32) = push_bit 16 (mask 16)" by (simp add: mask_eq_exp_minus_1)
  have "\<not> bit u n" if "16 \<le> n" for n
  proof
    assume b: "bit u n"
    then have "n < 32" using bit_imp_le_length [of u n] by simp
    then have "bit (u AND push_bit 16 (mask 16)) n" using b that by (auto simp: bit_simps)
    then show False using True unfolding m by simp
  qed
  then have t: "n < 16" if "bit u n" for n using that not_less by blast
  then have "u = take_bit 16 u" by (intro bit_word_eqI) (auto simp: bit_simps dest: t)
  then have "unat u = unat u mod 65536" using unsigned_take_bit_eq [of 16 u, where 'a = nat] by (simp add: take_bit_eq_mod)
  then have "unat u div 65536 = 0" by (metis mod_div_trivial)
  then have "unat (FOLD_U32T u) = unat u" unfolding unat_fold using \<open>unat u = unat u mod 65536\<close> by simp
  then show ?thesis using True by (simp add: word_unat_eq_iff)
qed simp

lemma lwip_standard_chksum_oc:
  assumes "length bs \<le> 65535"
  shows "unat (lwip_standard_chksum bs) = oc (lesum bs)"
proof -
  define u where "u = chksum_loop 0 bs"
  have "(length bs + 1) div 2 \<le> 32768" using assms by simp
  then have "besum bs \<le> 65535 * 32768" using besum_bound [of bs] by (meson le_trans mult_le_mono2)
  then have u: "unat u = besum bs" using unat_chksum_loop [of 0 bs] by (simp add: u_def)
  have "lwip_standard_chksum bs = lwip_htons (ucast (FOLD_U32T (FOLD_U32T u)))"
    unfolding lwip_standard_chksum_def Let_def u_def [symmetric] FOLD_U32T_def [of u, symmetric] FOLD_U32T_def [of "FOLD_U32T u", symmetric] chksum_fold ..
  moreover have "unat (ucast (FOLD_U32T (FOLD_U32T u)) :: u16) = oc (besum bs)"
  proof -
    have "unat (FOLD_U32T (FOLD_U32T u)) = oc (besum bs)" by (simp add: fold_fold_oc u)
    then show ?thesis using oc_le [of "besum bs"] by (simp add: unsigned_ucast_eq take_bit_eq_mod)
  qed
  ultimately have "unat (lwip_standard_chksum bs) = oc (256 * oc (besum bs))" by (simp add: unat_htons)
  also have "\<dots> = oc (lesum bs)" unfolding oc_mult by (rule oc_unique) (simp_all add: besum_lesum lesum_zero)
  finally show ?thesis .
qed

lemma unat_SWAP:
  assumes "unat w \<le> 65535"
  shows "unat (SWAP_BYTES_IN_WORD w) = oc (256 * unat w)"
proof -
  have m: "(0xff :: u16) = mask 8" "(0xff00 :: u16) = push_bit 8 (mask 8)" "(0xff :: u32) = mask 8" "(0xff00 :: u32) = push_bit 8 (mask 8)"
    by (simp_all add: mask_eq_exp_minus_1)
  have "SWAP_BYTES_IN_WORD w = ucast (lwip_htons (ucast w))"
    unfolding SWAP_BYTES_IN_WORD_def lwip_htons_def m by (rule bit_word_eqI) (auto simp: bit_simps)
  moreover have "unat (ucast w :: u16) = unat w" using assms by (simp add: unsigned_ucast_eq take_bit_eq_mod)
  ultimately show ?thesis by (simp add: unat_ucast_u16_u32 unat_htons)
qed

text \<open>The state of the loop after the bytes \<open>ds\<close>.\<close>

definition chk_state :: "u8 list \<Rightarrow> bool \<Rightarrow> u32 \<Rightarrow> bool" where
  "chk_state ds sw acc \<longleftrightarrow> sw = odd (length ds) \<and> unat acc = oc (256 ^ (length ds mod 2) * lesum ds)"

lemma chk_step:
  assumes "chk_state ds sw acc" "length bs \<le> 65535"
  shows "unat (FOLD_U32T (acc + ucast (lwip_standard_chksum bs))) = oc (256 ^ (length ds mod 2) * lesum (ds @ bs))"
proof -
  let ?k = "256 ^ (length ds mod 2) :: nat"
  have a: "unat acc = oc (?k * lesum ds)" using assms(1) by (simp add: chk_state_def)
  have c: "unat (ucast (lwip_standard_chksum bs) :: u32) = oc (lesum bs)" by (simp add: unat_ucast_u16_u32 lwip_standard_chksum_oc [OF assms(2)])
  have b: "unat acc + oc (lesum bs) \<le> 131070" using a oc_le [of "?k * lesum ds"] oc_le [of "lesum bs"] by simp
  then have s: "unat (acc + ucast (lwip_standard_chksum bs)) = oc (?k * lesum ds) + oc (lesum bs)" using a c by (simp add: unat_word_ariths(1))
  then have "unat (FOLD_U32T (acc + ucast (lwip_standard_chksum bs))) = oc (oc (?k * lesum ds) + oc (lesum bs))" using b a by (simp add: fold_oc)
  also have "\<dots> = oc (?k * lesum ds + lesum bs)" by (simp only: oc_add)
  also have "\<dots> = oc (?k * lesum (ds @ bs))"
  proof (rule oc_unique)
    have kk: "(?k * ?k * n) mod 65535 = n mod 65535" for n
      by (cases "even (length ds)") (simp_all add: odd_iff_mod_2_eq_one mod_mult_left_eq [of 65536, symmetric])
    have "(?k * lesum (ds @ bs)) mod 65535 = (?k * (lesum ds + ?k * lesum bs)) mod 65535" using lesum_append [of ds bs] by (metis mod_mult_right_eq)
    also have "\<dots> = (?k * lesum ds + ?k * ?k * lesum bs) mod 65535" by (simp add: algebra_simps)
    also have "\<dots> = (?k * lesum ds + lesum bs) mod 65535" using kk [of "lesum bs"] by (metis mod_add_right_eq)
    finally show "(?k * lesum ds + lesum bs) mod 65535 = (?k * lesum (ds @ bs)) mod 65535" ..
    show "?k * lesum ds + lesum bs = 0 \<longleftrightarrow> ?k * lesum (ds @ bs) = 0" by (simp add: lesum_append_zero)
  qed
  finally show ?thesis .
qed

lemma chk_state_swap:
  assumes "chk_state ds sw acc" "length bs \<le> 65535" "acc' = FOLD_U32T (acc + ucast (lwip_standard_chksum bs))"
  shows "odd (length bs) \<Longrightarrow> chk_state (ds @ bs) (\<not> sw) (SWAP_BYTES_IN_WORD acc')"
    "even (length bs) \<Longrightarrow> chk_state (ds @ bs) sw acc'"
proof -
  let ?k = "256 ^ (length ds mod 2) :: nat"
  have a: "unat acc' = oc (?k * lesum (ds @ bs))" using chk_step [OF assms(1,2)] assms(3) by simp
  have sw: "sw = odd (length ds)" using assms(1) by (simp add: chk_state_def)
  show "chk_state (ds @ bs) sw acc'" if "even (length bs)"
  proof -
    have "length (ds @ bs) mod 2 = length ds mod 2" using that by (simp add: even_iff_mod_2_eq_zero mod_add_eq [symmetric])
    then show ?thesis using a sw that by (simp add: chk_state_def)
  qed
  show "chk_state (ds @ bs) (\<not> sw) (SWAP_BYTES_IN_WORD acc')" if "odd (length bs)"
  proof -
    have "unat (SWAP_BYTES_IN_WORD acc') = oc (256 * oc (?k * lesum (ds @ bs)))" using unat_SWAP [of acc'] a oc_le [of "?k * lesum (ds @ bs)"] by simp
    also have "\<dots> = oc (256 * ?k * lesum (ds @ bs))" by (simp only: oc_mult mult.assoc)
    also have "\<dots> = oc (256 ^ (length (ds @ bs) mod 2) * lesum (ds @ bs))"
    proof (cases "even (length ds)")
      case True
      then have "(length ds + length bs) mod 2 = 1" "length ds mod 2 = 0" using that by presburger+
      then show ?thesis by simp
    next
      case False
      have m: "(65536 * n) mod 65535 = n mod 65535" for n :: nat using mod_mult_self1 [of n n 65535] by (simp add: add.commute)
      have "oc (65536 * lesum (ds @ bs)) = oc (lesum (ds @ bs))" by (rule oc_unique) (simp_all add: m)
      moreover have "length ds mod 2 = 1" "length (ds @ bs) mod 2 = 0" using False that unfolding length_append by presburger+
      ultimately show ?thesis by simp
    qed
    finally show ?thesis using sw that by (simp add: chk_state_def)
  qed
qed

lemma chksum_pbufs_ok:
  "packet h q ps cs \<Longrightarrow> chk_state ds sw acc \<Longrightarrow>
   \<exists>acc' sw'. chksum_pbufs acc sw q h = Some (Inr (acc', sw')) \<and> chk_state (ds @ cs) sw' acc'"
proof (induction ps arbitrary: q cs ds sw acc)
  case Nil
  then show ?case by (subst chksum_pbufs.simps) simp
next
  case (Cons a ps)
  obtain pb es where pb: "q = Some a" "fmlookup h a = Some pb" "pb_wf pb" "cs = pb_data pb @ es" "packet h (pb_next pb) ps es"
    using Cons.prems(1) by auto
  let ?bs = "pb_data pb"
  define acc1 where "acc1 = FOLD_U32T (acc + ucast (lwip_standard_chksum ?bs))"
  have len: "length ?bs = unat (pb_len pb)" by (rule length_pb_data [OF pb(3)])
  then have le: "length ?bs \<le> 65535" using unat_lt_65536 [of "pb_len pb"] by linarith
  have rd: "read_bytes (pb_mem pb) (pb_payload pb) (unat (pb_len pb)) = Inr ?bs"
    using pb(3) by (simp add: read_bytes_def pb_wf_def pb_data_def)
  have par: "pb_len pb mod 2 \<noteq> 0 \<longleftrightarrow> odd (length ?bs)"
  proof -
    have "unat (pb_len pb mod 2) = length ?bs mod 2" by (simp add: unat_mod len)
    then show ?thesis by (metis even_iff_mod_2_eq_zero unat_eq_zero)
  qed
  note st = chk_state_swap [OF Cons.prems(2) le acc1_def]
  show ?case
  proof (cases "odd (length ?bs)")
    case True
    obtain acc' sw' where r: "chksum_pbufs (SWAP_BYTES_IN_WORD acc1) (\<not> sw) (pb_next pb) h = Some (Inr (acc', sw'))" "chk_state ((ds @ ?bs) @ es) sw' acc'"
      using Cons.IH [OF pb(5) st(1) [OF True]] by blast
    have "chksum_pbufs acc sw q h = Some (Inr (acc', sw'))"
      using pb(1,2) rd par True r(1) by (subst chksum_pbufs.simps) (simp add: acc1_def Let_def)
    then show ?thesis using r(2) pb(4) by simp
  next
    case False
    obtain acc' sw' where r: "chksum_pbufs acc1 sw (pb_next pb) h = Some (Inr (acc', sw'))" "chk_state ((ds @ ?bs) @ es) sw' acc'"
      using Cons.IH [OF pb(5) st(2)] False by blast
    have "chksum_pbufs acc sw q h = Some (Inr (acc', sw'))"
      using pb(1,2) rd par False r(1) by (subst chksum_pbufs.simps) (simp add: acc1_def Let_def)
    then show ?thesis using r(2) pb(4) by simp
  qed
qed

lemma chk_final:
  assumes "chk_state cs sw acc"
  shows "unat (if sw then SWAP_BYTES_IN_WORD acc else acc) = oc (lesum cs)"
proof (cases "odd (length cs)")
  case True
  then have "length cs mod 2 = 1" by (simp add: odd_iff_mod_2_eq_one)
  then have a: "unat acc = oc (256 * lesum cs)" using assms by (simp add: chk_state_def)
  then have "unat (SWAP_BYTES_IN_WORD acc) = oc (256 * (256 * lesum cs))" using unat_SWAP [of acc] oc_le [of "256 * lesum cs"] by (simp add: oc_mult)
  also have "\<dots> = oc (lesum cs)"
  proof (rule oc_unique)
    have "256 * (256 * lesum cs) = lesum cs + 65535 * lesum cs" by simp
    then show "256 * (256 * lesum cs) mod 65535 = lesum cs mod 65535" by (metis mod_mult_self2)
  qed simp
  finally show ?thesis using assms True by (simp add: chk_state_def)
next
  case False
  then show ?thesis using assms by (simp add: chk_state_def even_iff_mod_2_eq_zero)
qed

lemma not_of_nat: "NOT x = (of_nat (65535 - unat x) :: u16)"
proof -
  have "(of_nat (65535 - unat x) :: u16) = of_nat 65535 - of_nat (unat x)"
    by (rule of_nat_diff) (use unat_lt_65536 [of x] in linarith)
  then show ?thesis by (simp add: not_eq_complement)
qed

lemma ucast_not_low:
  assumes "unat acc \<le> 65535"
  shows "(ucast (NOT ((acc :: u32) AND 0xffff)) :: u16) = of_nat (65535 - unat acc)"
proof -
  have m: "(0xffff :: u32) = mask 16" by (simp add: mask_eq_exp_minus_1)
  have "(ucast (NOT (acc AND 0xffff)) :: u16) = NOT (ucast acc)"
    unfolding m by (rule bit_word_eqI) (auto simp: bit_simps)
  moreover have "unat (ucast acc :: u16) = unat acc" using assms by (simp add: unsigned_ucast_eq take_bit_eq_mod)
  ultimately show ?thesis by (simp add: not_of_nat)
qed

text \<open>The checksum of a list of bytes: the complement of their sum.\<close>

definition internet_checksum :: "u8 list \<Rightarrow> u16" where
  "internet_checksum bs = of_nat (65535 - oc (lesum bs))"

lemma inet_chksum_law: "length bs \<le> 65535 \<Longrightarrow> inet_chksum bs = internet_checksum bs"
  by (simp add: inet_chksum_def internet_checksum_def not_of_nat lwip_standard_chksum_oc)

lemma chk_state_0: "chk_state [] False 0"
  by (simp add: chk_state_def)

lemma inet_chksum_pbuf_law:
  assumes "packet h p ps bs"
  shows "inet_chksum_pbuf p h = Some (Inr (internet_checksum bs))"
proof -
  obtain acc sw where c: "chksum_pbufs 0 False p h = Some (Inr (acc, sw))" "chk_state bs sw acc"
    using chksum_pbufs_ok [OF assms chk_state_0] by auto
  have "unat (if sw then SWAP_BYTES_IN_WORD acc else acc) = oc (lesum bs)" by (rule chk_final [OF c(2)])
  then show ?thesis using ucast_not_low [of "if sw then SWAP_BYTES_IN_WORD acc else acc"] oc_le [of "lesum bs"] c(1)
    by (simp add: inet_chksum_pbuf_def internet_checksum_def Let_def)
qed

section \<open>The pseudo header\<close>

lemma lesum_even: "even (length as) \<Longrightarrow> lesum (as @ bs) = lesum as + lesum bs"
  by (induction as rule: lesum.induct) auto

lemma unat_ucast_u32_u8: "unat (ucast (drop_bit k w) :: u8) = unat w div 2 ^ k mod 256" for w :: u32
  unfolding unsigned_ucast_eq unat_drop_bit_eq by (simp add: take_bit_eq_mod drop_bit_eq_div)

lemma lesum_bytes32: "lesum (bytes32 w) = unat (w AND 0xffff) + unat (drop_bit 16 w AND 0xffff)"
proof -
  have u: "unat (drop_bit k w AND 0xffff) = unat w div 2 ^ k mod 65536" for k
    unfolding unat_low16 unat_drop_bit_eq by (simp add: drop_bit_eq_div)
  have s: "n mod 256 + 256 * (n div 256 mod 256) = n mod 65536" for n :: nat using mod_mult2_eq [of n 256 256] by simp
  have "unat w div 16777216 = unat w div 65536 div 256" by (simp add: div_mult2_eq)
  then have "lesum (bytes32 w) = unat w mod 65536 + unat w div 65536 mod 65536"
    using unat_ucast_u32_u8 [of 0 w] unat_ucast_u32_u8 [of 8 w] unat_ucast_u32_u8 [of 16 w] unat_ucast_u32_u8 [of 24 w] s [of "unat w"] s [of "unat w div 65536"]
    by (simp add: bytes32_def)
  then show ?thesis using u [of 0] u [of 16] by simp
qed

definition pseudo_bytes :: "u32 \<Rightarrow> u32 \<Rightarrow> u8 \<Rightarrow> u16 \<Rightarrow> u8 list" where
  "pseudo_bytes src dest proto proto_len = bytes32 src @ bytes32 dest @ [0, proto] @ [hi8 proto_len, lo8 proto_len]"

lemma lesum_pseudo: "lesum (pseudo_bytes src dest proto proto_len @ bs) = lesum (bytes32 src) + lesum (bytes32 dest) + 256 * unat proto +
    lesum [hi8 proto_len, lo8 proto_len] + lesum bs"
  by (simp add: pseudo_bytes_def lesum_even)

lemma pseudo_header_law:
  assumes "unat acc = oc (lesum bs)"
  shows "pseudo_header acc src dest proto proto_len = internet_checksum (pseudo_bytes src dest proto proto_len @ bs)"
proof -
  have lt: "unat (x AND 0xffff) \<le> 65535" for x :: u32 unfolding unat_low16 by (simp add: less_Suc_eq_le [symmetric])
  have lt16: "unat (ucast (x :: u16) :: u32) \<le> 65535" for x using unat_lt_65536 [of x] unfolding unat_ucast_u16_u32 by linarith
  let ?s = "acc + (src AND 0xffff) + (drop_bit 16 src AND 0xffff) + (dest AND 0xffff) + (drop_bit 16 dest AND 0xffff)
      + ucast (lwip_htons (ucast proto)) + ucast (lwip_htons proto_len)"
  have "unat acc + unat (src AND 0xffff) + unat (drop_bit 16 src AND 0xffff) + unat (dest AND 0xffff) + unat (drop_bit 16 dest AND 0xffff)
      + unat (ucast (lwip_htons (ucast proto)) :: u32) + unat (ucast (lwip_htons proto_len) :: u32) \<le> 7 * 65535"
    using oc_le [of "lesum bs"] assms lt [of src] lt [of "drop_bit 16 src"] lt [of dest] lt [of "drop_bit 16 dest"] lt16 [of "lwip_htons (ucast proto)"]
      lt16 [of "lwip_htons proto_len"] by linarith
  then have "unat ?s = unat acc + unat (src AND 0xffff) + unat (drop_bit 16 src AND 0xffff) + unat (dest AND 0xffff) + unat (drop_bit 16 dest AND 0xffff)
      + unat (ucast (lwip_htons (ucast proto)) :: u32) + unat (ucast (lwip_htons proto_len) :: u32)"
    unfolding unat_word_ariths(1) by (simp only: mod_add_left_eq) (rule mod_less, simp)
  also have "\<dots> = oc (lesum bs) + (lesum (bytes32 src) + lesum (bytes32 dest) + 256 * unat proto + lesum [hi8 proto_len, lo8 proto_len])"
  proof -
    have "hi8 (ucast proto) = 0" "lo8 (ucast proto) = proto" unfolding hi8_def lo8_def by (rule bit_word_eqI, auto simp: bit_simps bit_word8_ge)+
    then show ?thesis unfolding unat_ucast_u16_u32 lesum_htons lesum_bytes32 assms by simp
  qed
  finally have "unat (FOLD_U32T (FOLD_U32T ?s)) = oc (lesum (pseudo_bytes src dest proto proto_len @ bs))"
    unfolding fold_fold_oc by (simp only: oc_add lesum_pseudo) (simp add: ac_simps)
  then show ?thesis
    using ucast_not_low [of "FOLD_U32T (FOLD_U32T ?s)"] oc_le [of "lesum (pseudo_bytes src dest proto proto_len @ bs)"]
    unfolding pseudo_header_def Let_def internet_checksum_def by simp
qed

lemma packet_length: "packet h p ps bs \<Longrightarrow> length bs \<le> 65535"
proof (cases ps)
  case (Cons a qs)
  assume "packet h p ps bs"
  then obtain pb :: pbuf where "unat (pb_tot_len pb) = length bs" unfolding Cons packet.simps by blast
  then show ?thesis using unat_lt_65536 [of "pb_tot_len pb"] by linarith
qed simp

lemma inet_chksum_pseudo_law:
  assumes "packet h p ps bs"
  shows "inet_chksum_pseudo p src dest proto proto_len h = Some (Inr (internet_checksum (pseudo_bytes src dest proto proto_len @ bs)))"
proof -
  obtain acc sw where c: "chksum_pbufs 0 False p h = Some (Inr (acc, sw))" "chk_state bs sw acc"
    using chksum_pbufs_ok [OF assms chk_state_0] by auto
  show ?thesis using pseudo_header_law [OF chk_final [OF c(2)], of src dest proto proto_len] c(1) by (simp add: inet_chksum_pseudo_def Let_def)
qed

text \<open>The partial sum: only the last pbuf that is read may be cut, so the order of the bytes stays right.\<close>

lemma chk_swap_weak:
  assumes "unat acc = oc (256 ^ (if sw then 1 else 0) * lesum ds)"
  shows "unat (if sw then SWAP_BYTES_IN_WORD acc else acc) = oc (lesum ds)"
    "unat (SWAP_BYTES_IN_WORD acc) = oc (256 ^ (if \<not> sw then 1 else 0) * lesum ds)"
proof -
  have m: "oc (256 * (256 * n)) = oc n" for n
  proof (rule oc_unique)
    have "256 * (256 * n) = n + 65535 * n" by simp
    then show "256 * (256 * n) mod 65535 = n mod 65535" by (metis mod_mult_self2)
  qed simp
  have "unat acc \<le> 65535" using assms oc_le by simp
  then have s: "unat (SWAP_BYTES_IN_WORD acc) = oc (256 * (256 ^ (if sw then 1 else 0) * lesum ds))" using unat_SWAP [of acc] assms by (simp add: oc_mult)
  then show "unat (if sw then SWAP_BYTES_IN_WORD acc else acc) = oc (lesum ds)"
    "unat (SWAP_BYTES_IN_WORD acc) = oc (256 ^ (if \<not> sw then 1 else 0) * lesum ds)" using m assms by simp_all
qed

lemma chksum_partial_ok:
  "packet h q ps cs \<Longrightarrow> chk_state ds sw acc \<Longrightarrow> unat n \<le> length cs \<Longrightarrow> n < 0x7fff \<Longrightarrow>
   \<exists>acc' sw'. chksum_partial acc sw n q h = Some (Inr (acc', sw')) \<and> unat (if sw' then SWAP_BYTES_IN_WORD acc' else acc') = oc (lesum (ds @ take (unat n) cs))"
proof (induction ps arbitrary: q cs ds sw acc n)
  case Nil
  then show ?case using chk_final [OF Nil.prems(2)] by (subst chksum_partial.simps) simp
next
  case (Cons a ps)
  obtain pb es where pb: "q = Some a" "fmlookup h a = Some pb" "pb_wf pb" "cs = pb_data pb @ es" "packet h (pb_next pb) ps es"
    using Cons.prems(1) by auto
  show ?case
  proof (cases "n = 0")
    case True
    then show ?thesis using chk_final [OF Cons.prems(2)] pb(1) by (subst chksum_partial.simps) simp
  next
    case False
    then have pos: "n > 0" by (simp add: word_neq_0_conv)
    have len: "length (pb_data pb) = unat (pb_len pb)" by (rule length_pb_data [OF pb(3)])
    define k where "k = (if pb_len pb > n then n else pb_len pb)"
    define bs where "bs = take (unat k) (pb_data pb)"
    have k: "unat k \<le> unat (pb_len pb)" "unat k \<le> unat n" by (auto simp: k_def word_less_nat_alt)
    have l: "length bs = unat k" using k(1) len by (simp add: bs_def)
    then have lk: "length bs \<le> 65535" using unat_lt_65536 [of k] by linarith
    have rd: "read_bytes (pb_mem pb) (pb_payload pb) (unat k) = Inr bs"
      using pb(3) k(1) by (simp add: read_bytes_def pb_wf_def bs_def pb_data_def)
    have nk: "unat (n - k) = unat n - unat k" using k(2) by (simp add: unat_sub word_le_nat_alt)
    have lt: "n - k < 0x7fff" using Cons.prems(4) nk by (simp add: word_less_nat_alt)
    define acc1 where "acc1 = FOLD_U32T (acc + ucast (lwip_standard_chksum bs))"
    have step: "chksum_partial acc sw n q h = (if pb_len pb mod 2 \<noteq> 0 then chksum_partial (SWAP_BYTES_IN_WORD acc1) (\<not> sw) (n - k) (pb_next pb) h
        else chksum_partial acc1 sw (n - k) (pb_next pb) h)"
      using pb(1,2) pos rd lt unfolding acc1_def k_def by (subst chksum_partial.simps) (simp add: Let_def)
    show ?thesis
    proof (cases "pb_len pb > n")
      case True
      then have kn: "k = n" by (simp add: k_def)
      have sw: "sw \<longleftrightarrow> length ds mod 2 = 1" using Cons.prems(2) by (simp add: chk_state_def odd_iff_mod_2_eq_one)
      have "length ds mod 2 = (if sw then 1 else 0)" using sw by presburger
      then have w: "unat acc1 = oc (256 ^ (if sw then 1 else 0) * lesum (ds @ bs))" using chk_step [OF Cons.prems(2) lk] by (simp add: acc1_def)
      have stop: "chksum_partial x y 0 z h = Some (Inr (x, y))" for x y z by (subst chksum_partial.simps) (simp split: option.split)
      have "bs = take (unat n) cs" using k len kn pb(4) by (simp add: bs_def)
      then show ?thesis using step stop kn chk_swap_weak(1) [OF w] chk_swap_weak(1) [OF chk_swap_weak(2) [OF w]] by (cases "pb_len pb mod 2 = 0") simp_all
    next
      case False
      then have kl: "k = pb_len pb" by (simp add: k_def)
      then have bs: "bs = pb_data pb" using len by (simp add: bs_def)
      have tk: "take (unat n) cs = bs @ take (unat (n - k)) es" using pb(4) bs nk kl len k(2) by simp
      have par: "pb_len pb mod 2 \<noteq> 0 \<longleftrightarrow> odd (length bs)"
      proof -
        have "unat (pb_len pb mod 2) = length bs mod 2" by (simp add: unat_mod len bs)
        then show ?thesis by (metis even_iff_mod_2_eq_zero unat_eq_zero)
      qed
      have n': "unat (n - k) \<le> length es" using nk Cons.prems(3) pb(4) len kl by simp
      note st = chk_state_swap [OF Cons.prems(2) lk acc1_def]
      show ?thesis
      proof (cases "odd (length bs)")
        case True
        then show ?thesis using Cons.IH [OF pb(5) st(1) [OF True] n' lt] step par tk by simp
      next
        case False
        then show ?thesis using Cons.IH [OF pb(5) st(2) n' lt] step par tk by simp
      qed
    qed
  qed
qed

lemma inet_chksum_pseudo_partial_law:
  assumes "packet h p ps bs" "unat n \<le> length bs" "n < 0x7fff"
  shows "inet_chksum_pseudo_partial p src dest proto proto_len n h =
    Some (Inr (internet_checksum (pseudo_bytes src dest proto proto_len @ take (unat n) bs)))"
proof -
  obtain acc sw where c: "chksum_partial 0 False n p h = Some (Inr (acc, sw))" "unat (if sw then SWAP_BYTES_IN_WORD acc else acc) = oc (lesum (take (unat n) bs))"
    using chksum_partial_ok [OF assms(1) chk_state_0 assms(2,3)] by auto
  show ?thesis using pseudo_header_law [OF c(2), of src dest proto proto_len] c(1) by (simp add: inet_chksum_pseudo_partial_def Let_def)
qed

section \<open>Properties\<close>

text \<open>
  C18: the checksum over a chain of buffers does not depend on where the chain is cut: it is the checksum of
  the bytes in one piece, and with the pseudo header that of the header's bytes followed by the data.
\<close>

theorem checksum_of_chain:
  assumes "packet h p ps bs"
  shows "inet_chksum_pbuf p h = Some (Inr (inet_chksum bs)) \<and>
    inet_chksum_pseudo p src dest proto proto_len h = Some (Inr (internet_checksum (pseudo_bytes src dest proto proto_len @ bs)))"
  using inet_chksum_pbuf_law [OF assms] inet_chksum_pseudo_law [OF assms] inet_chksum_law [OF packet_length [OF assms]] by simp_all

theorem checksum_of_chain_witness:
  "inet_chksum_pbuf (Some 1) ex_heap = Some (Inr 0xf4e9)"
proof -
  have "inet_chksum [10, 11, 12] = 0xf4e9" by code_simp
  then show ?thesis using checksum_of_chain [OF ex_packet] by simp
qed

text \<open>A change of one byte and of one word.\<close>

lemma lesum_update: "i < length bs \<Longrightarrow> lesum (bs[i := b]) + 256 ^ (i mod 2) * unat (bs ! i) = lesum bs + 256 ^ (i mod 2) * unat b"
proof (induction bs arbitrary: i rule: lesum.induct)
  case (1 c d r)
  consider "i = 0" | "i = 1" | j where "i = Suc (Suc j)" by (metis One_nat_def not0_implies_Suc)
  then show ?case
  proof cases
    case (3 j)
    then show ?thesis using 1 by simp
  qed simp_all
qed (auto split: nat.split)

lemma lesum_put16:
  assumes "even k" "Suc k < length bs" "bs ! k = 0" "bs ! Suc k = 0"
  shows "lesum (put16 bs k w) = lesum bs + unat w"
proof -
  have "unat w = unat (mk16 (lo8 w) (hi8 w))" by simp
  also have "\<dots> = unat (lo8 w) + 256 * unat (hi8 w)" unfolding mk16_def or.commute [of "ucast (lo8 w)"] unat_word_be by simp
  finally have "unat w = unat (lo8 w) + 256 * unat (hi8 w)" .
  moreover have "lesum (bs[k := lo8 w, Suc k := hi8 w]) = lesum (bs[k := lo8 w]) + 256 * unat (hi8 w)"
  proof -
    have "Suc k mod 2 = 1" using assms(1) by presburger
    then show ?thesis using lesum_update [of "Suc k" "bs[k := lo8 w]" "hi8 w"] assms by simp
  qed
  moreover have "lesum (bs[k := lo8 w]) = lesum bs + unat (lo8 w)" using lesum_update [of k bs "lo8 w"] assms by simp
  ultimately show ?thesis by (simp add: put16_def)
qed

lemma internet_checksum_zero: "internet_checksum bs = 0 \<longleftrightarrow> oc (lesum bs) = 65535"
proof -
  have "unat (internet_checksum bs) = 65535 - oc (lesum bs)"
    unfolding internet_checksum_def by (rule unat_of_nat_u16) simp
  then show ?thesis using oc_le [of "lesum bs"] by (metis diff_is_0_eq le_antisym order_refl unat_eq_zero)
qed

text \<open>
  C19: a header whose checksum field holds the checksum computed over it with a zero field is accepted, and
  after a change of any one byte it is rejected.
\<close>

theorem checksum_field_roundtrip:
  assumes "even k" "Suc k < length bs" "length bs \<le> 65535" "bs ! k = 0" "bs ! Suc k = 0" "hdr = put16 bs k (inet_chksum bs)"
    and "i < length bs" "b \<noteq> hdr ! i"
  shows "inet_chksum hdr = 0 \<and> inet_chksum (hdr[i := b]) \<noteq> 0"
proof
  let ?S = "lesum bs"
  have len: "length hdr = length bs" using assms(6) by simp
  have "unat (inet_chksum bs) = 65535 - oc ?S"
    unfolding inet_chksum_law [OF assms(3)] internet_checksum_def by (rule unat_of_nat_u16) simp
  then have S: "lesum hdr = ?S + (65535 - oc ?S)" using lesum_put16 [OF assms(1,2,4,5)] assms(6) by simp
  have m: "lesum hdr mod 65535 = 0"
  proof -
    have "(?S + (65535 - oc ?S)) mod 65535 = (oc ?S + (65535 - oc ?S)) mod 65535" by (metis mod_add_left_eq oc_cong)
    then show ?thesis unfolding S using oc_le [of ?S] by simp
  qed
  have pos: "lesum hdr \<noteq> 0" unfolding S using oc_le [of ?S] oc_zero(1) [of ?S] by (cases "?S = 0") auto
  have "oc (lesum hdr) = 65535" using m pos oc_cong [of "lesum hdr"] oc_le [of "lesum hdr"] by (metis dvd_imp_le le_antisym mod_0_imp_dvd neq0_conv oc_zero(1))
  then show "inet_chksum hdr = 0" using inet_chksum_law [of hdr] len assms(3) by (simp add: internet_checksum_zero)
  show "inet_chksum (hdr[i := b]) \<noteq> 0"
  proof
    assume "inet_chksum (hdr[i := b]) = 0"
    then have "oc (lesum (hdr[i := b])) = 65535" using inet_chksum_law [of "hdr[i := b]"] len assms(3) by (simp add: internet_checksum_zero)
    then have m2: "lesum (hdr[i := b]) mod 65535 = 0" using oc_cong [of "lesum (hdr[i := b])"] by simp
    let ?w = "256 ^ (i mod 2) :: nat"
    have e: "lesum (hdr[i := b]) + ?w * unat (hdr ! i) = lesum hdr + ?w * unat b" by (rule lesum_update) (use assms(7) len in simp)
    have "(?w * unat (hdr ! i)) mod 65535 = (?w * unat b) mod 65535"
      using e m m2 by (metis add.left_neutral mod_add_left_eq)
    moreover have w: "?w = 1 \<or> ?w = 256" by (cases "i mod 2 = 0") auto
    moreover have "?w * unat x < 65535" for x :: u8
    proof -
      have "unat x < 65535" "256 * unat x < 65535" using unat_lt_256 [of x] by linarith+
      then show ?thesis using w by (metis mult_1)
    qed
    ultimately have "?w * unat (hdr ! i) = ?w * unat b" by (simp only: mod_less)
    then have "unat (hdr ! i) = unat b" using w by auto
    then show False using assms(8) by (simp add: word_unat_eq_iff)
  qed
qed

theorem checksum_field_roundtrip_witness:
  "inet_chksum (put16 [0x45, 0, 0, 0, 1, 2] 2 (inet_chksum [0x45, 0, 0, 0, 1, 2])) = 0 \<and>
   inet_chksum ((put16 [0x45, 0, 0, 0, 1, 2] 2 (inet_chksum [0x45, 0, 0, 0, 1, 2]))[5 := 3]) \<noteq> 0"
  by (rule checksum_field_roundtrip [OF _ _ _ _ _ refl]) (simp_all add: put16_def)

end
