(* ===== verification/PbufCopy.thy ===== *)
theory PbufCopy
  imports Inet
begin

text \<open>
  The operations of \<^verbatim>\<open>src/lwip/src/core/pbuf.c\<close> that read and write the contents of packets: copies between chains,
  joining a chain, copying with a checksum, comparison and search; and the access to the headers at the payload
  pointer, which the protocol layers share.
\<close>

section \<open>Access through the payload pointer\<close>

definition pl_get :: "nat \<Rightarrow> nat \<Rightarrow> nat \<Rightarrow> heap \<Rightarrow> u8 list res" where
  "pl_get p off n h =
     (case fmlookup h p of None \<Rightarrow> Inl OutOfBounds | Some pb \<Rightarrow> read_bytes (pb_mem pb) (pb_payload pb + off) n)"

definition pl_put :: "nat \<Rightarrow> nat \<Rightarrow> u8 list \<Rightarrow> heap \<Rightarrow> heap res" where
  "pl_put p off bs h =
     (case fmlookup h p of
        None \<Rightarrow> Inl OutOfBounds
      | Some pb \<Rightarrow>
          rbind (memcpy (pb_mem pb) (pb_payload pb + off) bs (length bs)) (\<lambda>m. Inr (fmupd p (pb\<lparr>pb_mem := m\<rparr>) h)))"

section \<open>Copies between chains\<close>

text \<open>
  The check of a pointer to a packet that must not be followed by another one; a violation does not return.
\<close>

definition one_packet :: "nat option \<Rightarrow> heap \<Rightarrow> bool res" where
  "one_packet p h =
     (case p of
        None \<Rightarrow> Inr True
      | Some a \<Rightarrow>
          (case fmlookup h a of
             None \<Rightarrow> Inl OutOfBounds
           | Some pb \<Rightarrow> Inr (pb_len pb = pb_tot_len pb \<longrightarrow> pb_next pb = None)))"

partial_function (option) pbuf_copy_loop :: "nat \<Rightarrow> nat \<Rightarrow> u16 \<Rightarrow> u16 \<Rightarrow> heap \<Rightarrow> (err_t \<times> heap) res option" where
  "pbuf_copy_loop p_to p_from offset_to offset_from h =
     (case fmlookup h p_to of
        None \<Rightarrow> Some (Inl OutOfBounds)
      | Some tb \<Rightarrow>
          (case fmlookup h p_from of
             None \<Rightarrow> Some (Inl OutOfBounds)
           | Some fb \<Rightarrow>
               let len = (if uint (pb_len tb) - uint offset_to \<ge> uint (pb_len fb) - uint offset_from
                          then pb_len fb - offset_from else pb_len tb - offset_to)
               in (case read_bytes (pb_mem fb) (pb_payload fb + unat offset_from) (unat len) of
                     Inl e \<Rightarrow> Some (Inl e)
                   | Inr bs \<Rightarrow>
                       (case pl_put p_to (unat offset_to) bs h of
                          Inl e \<Rightarrow> Some (Inl e)
                        | Inr h \<Rightarrow>
                            let offset_to = offset_to + len; offset_from = offset_from + len
                            in if \<not> (offset_to \<le> pb_len tb \<and> offset_from \<le> pb_len fb) then None
                               else
                                 let (offset_from, q_from) = (if offset_from \<ge> pb_len fb then (0, pb_next fb) else (offset_from, Some p_from));
                                     (offset_to, q_to) = (if offset_to = pb_len tb then (0, pb_next tb) else (offset_to, Some p_to))
                                 in if q_to = None \<and> q_from \<noteq> None then None
                                    else (case one_packet q_from h of
                                            Inl e \<Rightarrow> Some (Inl e)
                                          | Inr ok1 \<Rightarrow>
                                              (case one_packet q_to h of
                                                 Inl e \<Rightarrow> Some (Inl e)
                                               | Inr ok2 \<Rightarrow>
                                                   if \<not> ok1 \<or> \<not> ok2 then None
                                                   else (case q_from of
                                                           None \<Rightarrow> Some (Inr (ERR_OK, h))
                                                         | Some f \<Rightarrow> pbuf_copy_loop (the q_to) f offset_to offset_from h)))))))"

definition pbuf_copy :: "nat option \<Rightarrow> nat option \<Rightarrow> heap \<Rightarrow> (err_t \<times> heap) res option" where
  "pbuf_copy p_to p_from h =
     (case (p_to, p_from) of
        (Some t, Some f) \<Rightarrow>
          (case fmlookup h t of
             None \<Rightarrow> Some (Inl OutOfBounds)
           | Some tb \<Rightarrow>
               (case fmlookup h f of
                  None \<Rightarrow> Some (Inl OutOfBounds)
                | Some fb \<Rightarrow> if pb_tot_len tb \<ge> pb_tot_len fb then pbuf_copy_loop t f 0 0 h else None))
      | _ \<Rightarrow> None)"

definition pbuf_coalesce :: "memlib \<Rightarrow> nat \<Rightarrow> pbuf_layer \<Rightarrow> heap \<Rightarrow> (nat \<times> heap) res option" where
  "pbuf_coalesce L p layer h =
     (case fmlookup h p of
        None \<Rightarrow> Some (Inl OutOfBounds)
      | Some pb \<Rightarrow>
          if pb_next pb = None then Some (Inr (p, h))
          else xbind (pbuf_alloc L layer (pb_tot_len pb) PBUF_RAM h) (\<lambda>(q, h).
               case q of
                 None \<Rightarrow> Some (Inr (p, h))
               | Some q \<Rightarrow>
                   xbind (pbuf_copy (Some q) (Some p) h) (\<lambda>(err, h).
                   if err \<noteq> ERR_OK then None
                   else xbind (pbuf_free L (Some p) h) (\<lambda>(_, h). Some (Inr (q, h))))))"

text \<open>The checksum is updated only when the data fit into the first pbuf; \<open>len = 0\<close> does not return.\<close>

definition pbuf_fill_chksum :: "nat \<Rightarrow> u16 \<Rightarrow> u8 list \<Rightarrow> u16 \<Rightarrow> u16 \<Rightarrow> heap \<Rightarrow> (err_t \<times> u16 \<times> heap) res option" where
  "pbuf_fill_chksum p start_offset dataptr len chksum h =
     (if len = 0 then None
      else
        (case fmlookup h p of
           None \<Rightarrow> Some (Inl OutOfBounds)
         | Some pb \<Rightarrow>
             if start_offset \<ge> pb_len pb \<or> unat start_offset + unat len > unat (pb_len pb) then Some (Inr (ERR_ARG, chksum, h))
             else xbind (Some (lwip_chksum_copy (pb_mem pb) (pb_payload pb + unat start_offset) dataptr len)) (\<lambda>(copy_chksum, m).
                  let copy_chksum = (if start_offset AND 1 \<noteq> 0 then ucast (SWAP_BYTES_IN_WORD (ucast copy_chksum)) else copy_chksum);
                      acc = ucast chksum + ucast copy_chksum :: u32
                  in Some (Inr (ERR_OK, ucast (FOLD_U32T acc), fmupd p (pb\<lparr>pb_mem := m\<rparr>) h)))))"

section \<open>Comparison and search\<close>

text \<open>The loops of \<open>pbuf_memcmp\<close>: to the pbuf with the start, and over the bytes; \<open>s2\<close> is the memory to compare with.\<close>

partial_function (option) memcmp_seek :: "u16 \<Rightarrow> nat option \<Rightarrow> heap \<Rightarrow> (u16 \<times> nat option) res option" where
  "memcmp_seek start q h =
     (case q of
        None \<Rightarrow> Some (Inr (start, None))
      | Some a \<Rightarrow>
          (case fmlookup h a of
             None \<Rightarrow> Some (Inl OutOfBounds)
           | Some pb \<Rightarrow> if pb_len pb \<le> start then memcmp_seek (start - pb_len pb) (pb_next pb) h else Some (Inr (start, q))))"

partial_function (option) memcmp_bytes :: "nat option \<Rightarrow> u16 \<Rightarrow> u8 list \<Rightarrow> u16 \<Rightarrow> u16 \<Rightarrow> heap \<Rightarrow> u16 res option" where
  "memcmp_bytes q start s2 n i h =
     (if i < n
      then (case pbuf_get_at q (start + i) h of
              None \<Rightarrow> None
            | Some (Inl e) \<Rightarrow> Some (Inl e)
            | Some (Inr a) \<Rightarrow>
                (case load s2 (unat i) of
                   Inl e \<Rightarrow> Some (Inl e)
                 | Inr b \<Rightarrow> if a \<noteq> b then Some (Inr (i + 1)) else memcmp_bytes q start s2 n (i + 1) h))
      else Some (Inr 0))"

definition pbuf_memcmp :: "nat option \<Rightarrow> u16 \<Rightarrow> u8 list \<Rightarrow> u16 \<Rightarrow> heap \<Rightarrow> u16 res option" where
  "pbuf_memcmp p offset s2 n h =
     xbind (memcmp_seek offset p h) (\<lambda>(start, q).
     if q = None then Some (Inr 0xffff) else memcmp_bytes q start s2 n 0 h)"

partial_function (option) memfind_loop :: "nat \<Rightarrow> u8 list \<Rightarrow> u16 \<Rightarrow> u16 \<Rightarrow> u16 \<Rightarrow> heap \<Rightarrow> u16 res option" where
  "memfind_loop p mem mem_len mx i h =
     (if i \<le> mx
      then (case pbuf_memcmp (Some p) i mem mem_len h of
              None \<Rightarrow> None
            | Some (Inl e) \<Rightarrow> Some (Inl e)
            | Some (Inr pls) \<Rightarrow> if pls = 0 then Some (Inr i) else memfind_loop p mem mem_len mx (i + pls) h)
      else Some (Inr 0xFFFF))"

definition pbuf_memfind :: "nat \<Rightarrow> u8 list \<Rightarrow> u16 \<Rightarrow> u16 \<Rightarrow> heap \<Rightarrow> u16 res option" where
  "pbuf_memfind p mem mem_len start_offset h =
     (case fmlookup h p of
        None \<Rightarrow> Some (Inl OutOfBounds)
      | Some pb \<Rightarrow>
          let mx = pb_tot_len pb - mem_len
          in if unat (pb_tot_len pb) \<ge> unat mem_len + unat start_offset
             then memfind_loop p mem mem_len mx start_offset h else Some (Inr 0xFFFF))"

fun strlen :: "u8 list \<Rightarrow> nat res" where
  "strlen [] = Inl OutOfBounds"
| "strlen (c # s) = (if c = 0 then Inr 0 else rbind (strlen s) (\<lambda>n. Inr (Suc n)))"

definition pbuf_strstr :: "nat \<Rightarrow> u8 list option \<Rightarrow> heap \<Rightarrow> u16 res option" where
  "pbuf_strstr p substr h =
     (case substr of
        None \<Rightarrow> Some (Inr 0xFFFF)
      | Some s \<Rightarrow>
          xbind (Some (load s 0)) (\<lambda>c.
          if c = 0 then Some (Inr 0xFFFF)
          else (case fmlookup h p of
                  None \<Rightarrow> Some (Inl OutOfBounds)
                | Some pb \<Rightarrow>
                    if pb_tot_len pb = 0xFFFF then Some (Inr 0xFFFF)
                    else xbind (Some (strlen s)) (\<lambda>n.
                         if n \<ge> 0xFFFF then Some (Inr 0xFFFF) else pbuf_memfind p s (of_nat n) 0 h))))"

section \<open>Exclusive buffers\<close>

text \<open>A buffer with a single reference is not touched when others are released.\<close>

lemma ptrs_mono:
  assumes "same_but_refs h' h"
  shows "count (ptrs h') a \<le> count (ptrs h) a"
proof -
  have sub: "fmdom' h' \<subseteq> fmdom' h"
  proof
    fix x assume "x \<in> fmdom' h'"
    then obtain y where "fmlookup h' x = Some y" by (auto simp: fmlookup_dom'_iff)
    then show "x \<in> fmdom' h" using assms unfolding same_but_refs_def by (meson fmdom'I)
  qed
  have "next_ptrs (the (fmlookup h' b)) = next_ptrs (the (fmlookup h b))" if b0: "b \<in> fmdom' h'" for b
  proof -
    obtain pb' where b: "fmlookup h' b = Some pb'" using b0 by (auto simp: fmlookup_dom'_iff)
    obtain pb where pb: "fmlookup h b = Some pb" using assms b unfolding same_but_refs_def by blast
    obtain r where "pb' = pb\<lparr>pb_ref := r\<rparr>" by (rule same_but_refsE [OF assms b pb])
    then show ?thesis using b pb by (simp add: next_ptrs_def)
  qed
  then have "ptrs h' = (\<Sum>b\<in>fmdom' h'. next_ptrs (the (fmlookup h b)))" unfolding ptrs_def by (rule sum.cong [OF refl])
  then have "ptrs h = ptrs h' + (\<Sum>b\<in>fmdom' h - fmdom' h'. next_ptrs (the (fmlookup h b)))"
    unfolding ptrs_def [of h] by (simp add: sum.subset_diff [OF sub] add.commute)
  then show ?thesis by simp
qed

text \<open>A buffer with one reference stays as it is while its owner keeps it.\<close>

lemma exclusive_kept:
  assumes "heap_ok h R1" "heap_ok h' R2" "same_but_refs h' h" "fmlookup h p = Some pb" "pb_ref pb = 1" "p \<in># R2" "count R2 p \<le> count R1 p"
  shows "fmlookup h' p = Some pb"
proof -
  obtain pb' where pb': "fmlookup h' p = Some pb'" using rc_ok_owner_dom [OF heap_okD [OF assms(2)] assms(6)] by (auto simp: fmlookup_dom'_iff)
  obtain r where r: "pb' = pb\<lparr>pb_ref := r\<rparr>" by (rule same_but_refsE [OF assms(3) pb' assms(4)])
  have "refs h' p \<le> refs h p" using rc_okD(1) [OF heap_okD [OF assms(1)]] rc_okD(1) [OF heap_okD [OF assms(2)]] ptrs_mono [OF assms(3)] assms(7)
    by (metis add_mono)
  then have "unat (pb_ref pb') \<le> 1" using pb' assms(4,5) by (simp add: refs_def)
  moreover have "pb_ref pb' \<noteq> 0" by (rule rc_okD(2) [OF heap_okD [OF assms(2)] pb'])
  ultimately have "pb_ref pb' = 1" by (metis One_nat_def le_Suc_eq le_zero_eq unat_1 unat_eq_zero word_unat_eq_iff)
  then show ?thesis using pb' r assms(5) by (cases pb) simp
qed

section \<open>Reading and writing a header\<close>

lemma pl_get_ok: "fmlookup h p = Some pb \<Longrightarrow> pb_wf pb \<Longrightarrow> off + n \<le> unat (pb_len pb) \<Longrightarrow> pl_get p off n h = Inr (take n (drop off (pb_data pb)))"
  by (simp add: pl_get_def read_bytes_def pb_wf_def pb_data_def drop_take drop_drop ac_simps min_def)

lemma pl_put_ok:
  assumes "fmlookup h p = Some pb" "pb_wf pb" "off + length bs \<le> unat (pb_len pb)"
  shows "pl_put p off bs h = Inr (fmupd p (pb\<lparr>pb_mem := blit (pb_mem pb) (pb_payload pb + off) bs\<rparr>) h)"
  using assms by (simp add: pl_put_def pb_wf_def memcpy_def)

lemma pb_data_put:
  assumes "pb_wf pb" "off + length xs \<le> unat (pb_len pb)"
  shows "pb_data (pb\<lparr>pb_mem := blit (pb_mem pb) (pb_payload pb + off) xs\<rparr>) = blit (pb_data pb) off xs"
    "pb_wf (pb\<lparr>pb_mem := blit (pb_mem pb) (pb_payload pb + off) xs\<rparr>)"
proof -
  show "pb_wf (pb\<lparr>pb_mem := blit (pb_mem pb) (pb_payload pb + off) xs\<rparr>)" using assms by (simp add: pb_wf_def)
  let ?d = "drop (pb_payload pb) (pb_mem pb)"
  have "drop (pb_payload pb) (blit (pb_mem pb) (pb_payload pb + off) xs) = blit ?d off xs"
    using assms by (simp add: pb_wf_def blit_def min_def drop_take add.commute add.left_commute)
  moreover have "take n (blit ds off xs) = blit (take n ds) off xs" if "off + length xs \<le> n" "n \<le> length ds" for n and ds :: "u8 list"
    using that by (cases "n = off") (auto simp: blit_def min_def take_drop)
  ultimately show "pb_data (pb\<lparr>pb_mem := blit (pb_mem pb) (pb_payload pb + off) xs\<rparr>) = blit (pb_data pb) off xs"
    using assms by (simp add: pb_data_def pb_wf_def)
qed

text \<open>The bytes of a packet after a write into its first pbuf.\<close>

lemma packet_put:
  assumes "packet h (Some p) (p # ps) bs" "fmlookup h p = Some pb" "off + length xs \<le> unat (pb_len pb)"
  shows "packet (fmupd p (pb\<lparr>pb_mem := blit (pb_mem pb) (pb_payload pb + off) xs\<rparr>) h) (Some p) (p # ps) (blit bs off xs)"
proof -
  from assms obtain cs where c: "pb_wf pb" "unat (pb_tot_len pb) = length bs" "bs = pb_data pb @ cs" "packet h (pb_next pb) ps cs" by auto
  have "p \<notin> set ps" using chain_distinct [OF packet_chain [OF assms(1)]] by simp
  then have "packet (fmupd p (pb\<lparr>pb_mem := blit (pb_mem pb) (pb_payload pb + off) xs\<rparr>) h) (pb_next pb) ps cs" using c(4) by simp
  moreover have "blit bs off xs = blit (pb_data pb) off xs @ cs" using c assms(3) by (simp add: blit_def)
  ultimately show ?thesis using c pb_data_put [OF c(1) assms(3)] assms(3) by simp
qed

section \<open>Copies\<close>

definition full_tail :: "heap \<Rightarrow> nat list \<Rightarrow> bool" where
  "full_tail h ps \<longleftrightarrow> (\<forall>a\<in>set (tl ps). \<forall>pb. fmlookup h a = Some pb \<longrightarrow> pb_len pb \<noteq> 0)"

lemma full_tail_next: "full_tail h (a # ps) \<Longrightarrow> full_tail h ps"
  unfolding full_tail_def by (cases ps) auto

lemma packet_nonempty:
  assumes "packet h (Some b) ps cs" "full_tail h (a # ps)"
  shows "cs \<noteq> []"
proof -
  obtain pb qs es where p: "ps = b # qs" "fmlookup h b = Some pb" "pb_wf pb" "cs = pb_data pb @ es" using assms(1) by (auto simp: packet_Some)
  then have "pb_len pb \<noteq> 0" using assms(2) by (simp add: full_tail_def)
  then have "length (pb_data pb) \<noteq> 0" using p(3) by (simp add: unat_eq_zero)
  then show ?thesis using p(4) by auto
qed

lemma one_packet_ok:
  assumes "packet h q ps cs" "full_tail h (a # ps)"
  shows "one_packet q h = Inr True"
proof (cases q)
  case (Some b)
  obtain pb qs es where p: "ps = b # qs" "fmlookup h b = Some pb" "pb_wf pb" "unat (pb_tot_len pb) = length cs" "cs = pb_data pb @ es" "packet h (pb_next pb) qs es"
    using assms(1) Some by (auto simp: packet_Some)
  have "pb_next pb = None" if "pb_len pb = pb_tot_len pb"
  proof (rule ccontr)
    assume "pb_next pb \<noteq> None"
    then obtain c where "pb_next pb = Some c" by auto
    then have "es \<noteq> []" using packet_nonempty [of h c qs es b] p(1,6) full_tail_next [OF assms(2)] by simp
    then show False using that p(3-5) by auto
  qed
  then show ?thesis using Some p(2) by (simp add: one_packet_def)
qed (simp add: one_packet_def)

lemma pbuf_copy_loop_single:
  "packet h (Some f) ps bs \<Longrightarrow> full_tail h ps \<Longrightarrow> t \<notin> set ps \<Longrightarrow> fmlookup h t = Some tb \<Longrightarrow> pb_wf tb \<Longrightarrow> pb_next tb = None \<Longrightarrow>
   unat k + length bs \<le> unat (pb_len tb) \<Longrightarrow>
   pbuf_copy_loop t f k 0 h = Some (Inr (ERR_OK, fmupd t (tb\<lparr>pb_mem := blit (pb_mem tb) (pb_payload tb + unat k) bs\<rparr>) h))"
proof (induction ps arbitrary: f bs k h tb)
  case (Cons a ps)
  obtain fb cs where fb: "a = f" "fmlookup h f = Some fb" "pb_wf fb" "bs = pb_data fb @ cs" "packet h (pb_next fb) ps cs"
    using Cons.prems(1) by auto
  let ?d = "pb_data fb"
  have ld: "length ?d = unat (pb_len fb)" by (rule length_pb_data [OF fb(3)])
  have le: "unat k + unat (pb_len fb) + length cs \<le> unat (pb_len tb)" using Cons.prems(7) fb(4) ld by simp
  have tl: "unat (pb_len tb) < 65536" by (rule unat_lt_65536)
  have "unat k + unat (pb_len fb) < 65536" using le tl by linarith
  then have uk: "unat (k + pb_len fb) = unat k + unat (pb_len fb)" by (simp add: unat_word_ariths(1) mod_less)
  define tb1 where "tb1 = tb\<lparr>pb_mem := blit (pb_mem tb) (pb_payload tb + unat k) ?d\<rparr>"
  define h1 where "h1 = fmupd t tb1 h"
  have len: "(if uint (pb_len tb) - uint k \<ge> uint (pb_len fb) - uint (0 :: u16) then pb_len fb - 0 else pb_len tb - k) = pb_len fb"
  proof -
    have "unat k + unat (pb_len fb) \<le> unat (pb_len tb)" using le by linarith
    then have "uint (pb_len tb) \<ge> uint k + uint (pb_len fb)" by (simp only: uint_nat of_nat_add [symmetric] of_nat_le_iff)
    then show ?thesis by simp
  qed
  have rd: "read_bytes (pb_mem fb) (pb_payload fb + unat (0 :: u16)) (unat (pb_len fb)) = Inr ?d"
    using fb(3) by (simp add: read_bytes_def pb_wf_def pb_data_def)
  have put: "pl_put t (unat k) ?d h = Inr h1" using pl_put_ok [OF Cons.prems(4,5), of "unat k" ?d] le ld by (simp add: h1_def tb1_def)
  have as: "k + pb_len fb \<le> pb_len tb" "\<not> (0 + pb_len fb < pb_len fb)" using le uk by (simp_all add: word_le_nat_alt)
  have ft: "full_tail h (a # ps)" using Cons.prems(2) .
  have pk1: "packet h1 (pb_next fb) ps cs" using fb(5) Cons.prems(3) unfolding h1_def by simp
  have ft1: "full_tail h1 (a # ps)" using ft Cons.prems(3) by (auto simp: full_tail_def h1_def)
  have o1: "one_packet (pb_next fb) h1 = Inr True" by (rule one_packet_ok [OF pk1 ft1])
  have o2: "one_packet None h1 = Inr True" "one_packet (Some t) h1 = Inr True"
    using Cons.prems(6) by (simp_all add: one_packet_def h1_def tb1_def)
  show ?case
  proof (cases "pb_next fb")
    case None
    then have "cs = []" using fb(5) by simp
    then show ?thesis using fb Cons.prems(4,6) len rd put as o1 o2 None
      by (subst pbuf_copy_loop.simps) (simp add: Let_def, simp add: h1_def tb1_def)
  next
    case (Some g)
    then have "cs \<noteq> []" using packet_nonempty [of h g ps cs a] fb(5) ft by simp
    then have ne: "k + pb_len fb \<noteq> pb_len tb" using le uk by (metis add_cancel_right_right le_add1 le_antisym length_0_conv)
    have w1: "pb_wf tb1" "pb_len tb1 = pb_len tb" "pb_next tb1 = None"
      using pb_data_put(2) [OF Cons.prems(5), of "unat k" ?d] le ld Cons.prems(6) by (simp_all add: tb1_def)
    have "pbuf_copy_loop t g (k + pb_len fb) 0 h1 = Some (Inr (ERR_OK, fmupd t (tb1\<lparr>pb_mem := blit (pb_mem tb1) (pb_payload tb1 + unat (k + pb_len fb)) cs\<rparr>) h1))"
      by (rule Cons.IH) (use pk1 Some full_tail_next [OF ft1] Cons.prems(3) w1 le uk in \<open>simp_all add: h1_def\<close>)
    moreover have "blit (pb_mem tb1) (pb_payload tb1 + unat (k + pb_len fb)) cs = blit (pb_mem tb) (pb_payload tb + unat k) bs"
      using blit_append [of "pb_payload tb + unat k" ?d cs "pb_mem tb"] Cons.prems(5) le ld uk fb(4) by (simp add: tb1_def pb_wf_def ac_simps)
    ultimately have "pbuf_copy_loop t g (k + pb_len fb) 0 h1 = Some (Inr (ERR_OK, fmupd t (tb\<lparr>pb_mem := blit (pb_mem tb) (pb_payload tb + unat k) bs\<rparr>) h))"
      by (simp add: h1_def tb1_def)
    then show ?thesis using fb Cons.prems(4,6) len rd put as o1 o2 Some ne
      by (subst pbuf_copy_loop.simps) (simp add: Let_def)
  qed
qed simp

lemma pbuf_copy_single:
  assumes "packet h (Some f) ps bs" "full_tail h ps" "t \<notin> set ps" "fmlookup h t = Some tb" "pb_wf tb" "pb_next tb = None"
    "pb_tot_len tb = pb_len tb" "unat (pb_len tb) = length bs"
  shows "pbuf_copy (Some t) (Some f) h = Some (Inr (ERR_OK, fmupd t (tb\<lparr>pb_mem := blit (pb_mem tb) (pb_payload tb) bs\<rparr>) h))"
proof -
  obtain fb where fb: "fmlookup h f = Some fb" "unat (pb_tot_len fb) = length bs" using assms(1) by (auto simp: packet_Some)
  then have "pb_tot_len tb \<ge> pb_tot_len fb" using assms(7,8) by (simp add: word_le_nat_alt)
  then show ?thesis using pbuf_copy_loop_single [OF assms(1-6), of 0] fb(1) assms(4,8) by (simp add: pbuf_copy_def)
qed

text \<open>Room in a fresh buffer: the copy is a packet of one pbuf.\<close>

lemma copy_to_fresh:
  assumes "malloc_ok L" "packet h (Some f) ps bs" "full_tail h ps" "unat n = length bs" "pbuf_alloc L layer n PBUF_RAM h = Some (Inr (Some t, h1))"
  obtains pb where "pbuf_copy (Some t) (Some f) h1 = Some (Inr (ERR_OK, fmupd t pb h))" "fmlookup h t = None" "pb_next pb = None" "pb_ref pb = 1"
    "pb_flags pb = 0" "pb_type pb = PBUF_RAM" "packet (fmupd t pb h) (Some t) [t] bs"
proof -
  obtain tb where tb: "h1 = fmupd t tb h" "pb_next tb = None" "fmlookup h t = None" "pb_type tb = PBUF_RAM" "pb_ref tb = 1" "pb_flags tb = 0"
    "pb_len tb = n" "pb_tot_len tb = n" "unat n + pb_payload tb \<le> length (pb_mem tb)"
    using allocated_single_links [OF assms(5,1)] by blast
  have fresh: "t \<notin> set ps" using chain_fresh [OF packet_chain [OF assms(2)] tb(3)] .
  let ?pb = "tb\<lparr>pb_mem := blit (pb_mem tb) (pb_payload tb) bs\<rparr>"
  have wf: "pb_wf tb" using tb by (simp add: pb_wf_def add.commute)
  have "t \<notin> set (tl ps)" using fresh by (cases ps) auto
  then have ft: "full_tail h1 ps" using assms(3) tb(1) by (auto simp: full_tail_def)
  have "pbuf_copy (Some t) (Some f) h1 = Some (Inr (ERR_OK, fmupd t ?pb h1))"
    by (rule pbuf_copy_single) (use assms(2) ft fresh tb wf assms(4) in simp_all)
  moreover have "packet (fmupd t ?pb h) (Some t) [t] bs"
    using pb_data_blit [OF wf, of bs] tb(2,7,8) assms(4) wf by simp
  ultimately show ?thesis using that [of ?pb] tb by simp
qed

lemma heap_ok_new:
  assumes "heap_ok h R" "fmlookup h a = None" "pb_ref pb = 1" "pb_next pb = None" "pb_flags pb = 0"
  shows "heap_ok (fmupd a pb h) (add_mset a R)"
proof -
  have "links (fmupd a pb h) = links h" using assms(2,4) by (auto simp: links_def split: if_splits)
  then show ?thesis using assms rc_ok_new [of h R a pb] by (simp add: heap_ok_def)
qed

lemma pbuf_coalesce_ok:
  assumes "malloc_ok L" "heap_ok h (add_mset p R)" "packet h (Some p) ps bs" "full_tail h ps"
  shows "\<exists>q h' qs. pbuf_coalesce L p layer h = Some (Inr (q, h')) \<and> heap_ok h' (add_mset q R) \<and> packet h' (Some q) qs bs \<and> (q = p \<or> qs = [q])"
proof -
  obtain pb where pb: "fmlookup h p = Some pb" "unat (pb_tot_len pb) = length bs" using assms(3) by (auto simp: packet_Some)
  show ?thesis
  proof (cases "pb_next pb = None")
    case True
    then show ?thesis using pb assms by (auto simp: pbuf_coalesce_def)
  next
    case False
    from heap_ok_alloc [OF assms(1,2), of layer "pb_tot_len pb"] obtain r h1 where
      r: "pbuf_alloc L layer (pb_tot_len pb) PBUF_RAM h = Some (Inr (r, h1))" by blast
    show ?thesis
    proof (cases r)
      case None
      then have "h1 = h" using r by (simp add: pbuf_alloc_def Let_def split: option.splits prod.splits)
      then show ?thesis using r None False pb assms by (auto simp: pbuf_coalesce_def)
    next
      case (Some t)
      from copy_to_fresh [OF assms(1,3,4) pb(2) r [unfolded Some]] obtain tb where
        c: "pbuf_copy (Some t) (Some p) h1 = Some (Inr (ERR_OK, fmupd t tb h))" "fmlookup h t = None" "pb_next tb = None" "pb_ref tb = 1"
        "pb_flags tb = 0" "pb_type tb = PBUF_RAM" "packet (fmupd t tb h) (Some t) [t] bs" .
      have "heap_ok (fmupd t tb h) (add_mset p (add_mset t R))"
        using heap_ok_new [OF assms(2) c(2,4,3,5)] by (simp add: add_mset_commute)
      from heap_ok_free [OF this] obtain n h' where
        f: "pbuf_free L (Some p) (fmupd t tb h) = Some (Inr (n, h'))" "heap_ok h' (add_mset t R)" "same_but_refs h' (fmupd t tb h)" .
      have "packet h' (Some t) [t] bs" using packet_survives [OF c(7) f(3)] f(2) by (auto simp: heap_ok_def)
      moreover have "pbuf_coalesce L p layer h = Some (Inr (t, h'))" using r Some False pb c(1) f(1) by (auto simp: pbuf_coalesce_def)
      ultimately show ?thesis using f(2) by blast
    qed
  qed
qed

lemma pbuf_fill_chksum_ok:
  assumes "packet h (Some p) (p # ps) bs" "fmlookup h p = Some pb" "len \<noteq> 0" "unat off + unat len \<le> unat (pb_len pb)" "unat len \<le> length src"
  shows "\<exists>chk' h'. pbuf_fill_chksum p off src len chk h = Some (Inr (ERR_OK, chk', h')) \<and>
     packet h' (Some p) (p # ps) (blit bs (unat off) (take (unat len) src)) \<and>
     unat chk' = oc (unat chk + 256 ^ (unat off mod 2) * lesum (take (unat len) src))"
proof -
  have wf: "pb_wf pb" using assms(1,2) by auto
  have pos: "unat len \<noteq> 0" using assms(3) by (simp add: unat_eq_zero)
  let ?d = "take (unat len) src" and ?o = "pb_payload pb + unat off"
  have ld: "length ?d = unat len" "length ?d \<le> 65535" using assms(5) unat_lt_65536 [of len] by (simp, simp, linarith)
  have cp: "lwip_chksum_copy (pb_mem pb) ?o src len = Inr (lwip_standard_chksum ?d, blit (pb_mem pb) ?o ?d)"
    using wf assms(4,5) by (simp add: lwip_chksum_copy_def pb_wf_def read_bytes_def blit_def)
  define cc :: u16 where "cc = (if off AND 1 \<noteq> 0 then ucast (SWAP_BYTES_IN_WORD (ucast (lwip_standard_chksum ?d))) else lwip_standard_chksum ?d)"
  have fits: "\<not> (off \<ge> pb_len pb \<or> unat off + unat len > unat (pb_len pb))" using assms(4) pos by (simp add: word_le_nat_alt not_le)
  have run: "pbuf_fill_chksum p off src len chk h =
      Some (Inr (ERR_OK, ucast (FOLD_U32T (ucast chk + ucast cc)), fmupd p (pb\<lparr>pb_mem := blit (pb_mem pb) ?o ?d\<rparr>) h))"
    using assms(2,3) fits cp by (simp add: pbuf_fill_chksum_def Let_def cc_def del: de_Morgan_disj)
  have s: "unat (lwip_standard_chksum ?d) = oc (lesum ?d)" by (rule lwip_standard_chksum_oc [OF ld(2)])
  have odd: "off AND 1 \<noteq> 0 \<longleftrightarrow> unat off mod 2 = 1" 
  proof -
    have "unat (off AND 1) = unat off mod 2" by (simp only: and_one_eq unat_mod) simp
    then show ?thesis by (metis not_mod_2_eq_0_eq_1 unat_eq_zero)
  qed
  have c: "unat cc = oc (256 ^ (unat off mod 2) * lesum ?d)"
  proof (cases "off AND 1 \<noteq> 0")
    case True
    have "unat (SWAP_BYTES_IN_WORD (ucast (lwip_standard_chksum ?d))) = oc (256 * oc (lesum ?d))"
      using unat_SWAP [of "ucast (lwip_standard_chksum ?d)"] s oc_le [of "lesum ?d"] by (simp add: unat_ucast_u16_u32)
    moreover have "oc (256 * oc (lesum ?d)) \<le> 65535" by (rule oc_le)
    ultimately show ?thesis using True odd by (simp add: cc_def unsigned_ucast_eq take_bit_eq_mod oc_mult)
  next
    case False
    then have "unat off mod 2 = 0" using odd by (metis not_mod_2_eq_1_eq_0)
    then show ?thesis using False s by (simp add: cc_def)
  qed
  have b: "unat chk + unat cc \<le> 131070" using unat_lt_65536 [of chk] unat_lt_65536 [of cc] by linarith
  then have sum: "unat (ucast chk + ucast cc :: u32) = unat chk + unat cc" by (simp add: unat_word_ariths(1) unat_ucast_u16_u32 mod_less)
  with b have "unat (FOLD_U32T (ucast chk + ucast cc)) = oc (unat chk + unat cc)" using fold_oc [of "ucast chk + ucast cc"] sum by simp
  then have "unat (ucast (FOLD_U32T (ucast chk + ucast cc)) :: u16) = oc (unat chk + 256 ^ (unat off mod 2) * lesum ?d)"
    using oc_le [of "unat chk + unat cc"] c by (simp add: unsigned_ucast_eq take_bit_eq_mod oc_add)
  moreover have "packet (fmupd p (pb\<lparr>pb_mem := blit (pb_mem pb) ?o ?d\<rparr>) h) (Some p) (p # ps) (blit bs (unat off) ?d)"
    by (rule packet_put [OF assms(1,2)]) (use ld assms(4) in simp)
  ultimately show ?thesis using run by blast
qed

section \<open>Comparison and search\<close>

text \<open>The byte at a position of a packet as \<open>pbuf_get_at\<close> returns it.\<close>

definition byte_at :: "u8 list \<Rightarrow> nat \<Rightarrow> u8" where
  "byte_at bs k = (if k < length bs then bs ! k else 0)"

lemma memcmp_seek_ok:
  "packet h q ps bs \<Longrightarrow> \<exists>start q' qs cs. memcmp_seek off q h = Some (Inr (start, q')) \<and> packet h q' qs cs \<and> start \<le> off \<and>
     (\<forall>j. byte_at cs (unat start + j) = byte_at bs (unat off + j)) \<and> (q' = None \<longleftrightarrow> length bs \<le> unat off)"
proof (induction ps arbitrary: q bs off)
  case Nil
  then have n: "q = None" "bs = []" by simp_all
  have "memcmp_seek off q h = Some (Inr (off, None))" by (subst memcmp_seek.simps) (simp add: n)
  then show ?case using n by (intro exI [of _ off] exI [of _ None] exI [of _ "[] :: nat list"] exI [of _ "[] :: u8 list"]) simp
next
  case (Cons a ps)
  obtain pb cs where pb: "q = Some a" "fmlookup h a = Some pb" "pb_wf pb" "bs = pb_data pb @ cs" "packet h (pb_next pb) ps cs"
    using Cons.prems by auto
  have len: "length (pb_data pb) = unat (pb_len pb)" by (rule length_pb_data [OF pb(3)])
  show ?case
  proof (cases "pb_len pb \<le> off")
    case True
    then have u: "unat (off - pb_len pb) = unat off - unat (pb_len pb)" "unat (pb_len pb) \<le> unat off"
      by (simp_all add: unat_sub word_le_nat_alt)
    from Cons.IH [OF pb(5), of "off - pb_len pb"] obtain st q' qs ds where
      r: "memcmp_seek (off - pb_len pb) (pb_next pb) h = Some (Inr (st, q'))" "packet h q' qs ds" "st \<le> off - pb_len pb"
        "\<forall>j. byte_at ds (unat st + j) = byte_at cs (unat (off - pb_len pb) + j)" "q' = None \<longleftrightarrow> length cs \<le> unat (off - pb_len pb)" by blast
    have "memcmp_seek off q h = Some (Inr (st, q'))" using r(1) True pb(1,2) by (subst memcmp_seek.simps) simp
    moreover have "st \<le> off" using r(3) u by (simp add: word_le_nat_alt)
    moreover have "byte_at ds (unat st + j) = byte_at bs (unat off + j)" for j
    proof -
      obtain d where d: "unat off = unat (pb_len pb) + d" using u(2) le_iff_add by blast
      then have "byte_at ds (unat st + j) = byte_at cs (d + j)" using r(4) u(1) by simp
      then show ?thesis using d len pb(4) by (simp add: byte_at_def nth_append)
    qed
    moreover have "q' = None \<longleftrightarrow> length bs \<le> unat off" using r(5) u len pb(4) by auto
    ultimately show ?thesis using r(2) by blast
  next
    case False
    then have "memcmp_seek off q h = Some (Inr (off, q))" using pb(1,2) by (subst memcmp_seek.simps) simp
    moreover have "\<not> length bs \<le> unat off" using False len pb(4) by (simp add: word_le_nat_alt)
    ultimately show ?thesis using Cons.prems pb(1) by blast
  qed
qed

lemma pbuf_get_at_byte: "packet h q ps bs \<Longrightarrow> pbuf_get_at q off h = Some (Inr (byte_at bs (unat off)))"
  by (simp add: pbuf_get_at_def get_at_loop_ok byte_at_def)

text \<open>The comparison returns 0 for equal bytes and the position behind the first difference otherwise.\<close>

definition cmp_result :: "u8 list \<Rightarrow> nat \<Rightarrow> u8 list \<Rightarrow> nat \<Rightarrow> nat \<Rightarrow> nat \<Rightarrow> bool" where
  "cmp_result bs off s2 n i r \<longleftrightarrow>
     (if r = 0 then \<forall>j. i \<le> j \<and> j < n \<longrightarrow> byte_at bs (off + j) = s2 ! j
      else i < r \<and> r \<le> n \<and> byte_at bs (off + (r - 1)) \<noteq> s2 ! (r - 1) \<and> (\<forall>j. i \<le> j \<and> j < r - 1 \<longrightarrow> byte_at bs (off + j) = s2 ! j))"

lemma memcmp_bytes_ok:
  assumes p: "packet h q ps bs" and s2: "unat n \<le> length s2" and ov: "unat start + unat n \<le> 65536"
  shows "i \<le> n \<Longrightarrow> \<exists>r. memcmp_bytes q start s2 n i h = Some (Inr r) \<and> cmp_result bs (unat start) s2 (unat n) (unat i) (unat r)"
proof (induction "unat n - unat i" arbitrary: i)
  case 0
  then have "i = n" by (simp add: word_le_nat_alt word_unat_eq_iff)
  then have "memcmp_bytes q start s2 n i h = Some (Inr 0)" by (subst memcmp_bytes.simps) simp
  then show ?case using \<open>i = n\<close> by (auto simp: cmp_result_def)
next
  case (Suc k)
  then have lt: "unat i < unat n" by simp
  then have b: "unat start + unat i < 65536" "Suc (unat i) < 65536" using ov unat_lt_65536 [of n] by linarith+
  then have u: "unat (start + i) = unat start + unat i" "unat (i + 1) = unat i + 1" by (simp_all add: unat_word_ariths(1) mod_less)
  have l: "load s2 (unat i) = Inr (s2 ! unat i)" using lt s2 by (simp add: load_def)
  have g: "pbuf_get_at q (start + i) h = Some (Inr (byte_at bs (unat start + unat i)))" using pbuf_get_at_byte [OF p, of "start + i"] u by simp
  have in_range: "i < n" using lt by (simp add: word_less_nat_alt)
  show ?case
  proof (cases "byte_at bs (unat start + unat i) = s2 ! unat i")
    case False
    then have "memcmp_bytes q start s2 n i h = Some (Inr (i + 1))" using g l in_range by (subst memcmp_bytes.simps) simp
    then show ?thesis using False u lt by (auto simp: cmp_result_def)
  next
    case True
    have "k = unat n - unat (i + 1)" "i + 1 \<le> n" using Suc.hyps(2) u lt by (simp_all add: word_le_nat_alt)
    from Suc.hyps(1) [OF this] obtain r where r: "memcmp_bytes q start s2 n (i + 1) h = Some (Inr r)"
      "cmp_result bs (unat start) s2 (unat n) (unat i + 1) (unat r)" using u(2) by auto
    have "memcmp_bytes q start s2 n i h = Some (Inr r)" using g l in_range True r(1) by (subst memcmp_bytes.simps) simp
    moreover have "cmp_result bs (unat start) s2 (unat n) (unat i) (unat r)"
      using r(2) True unfolding cmp_result_def by (auto split: if_splits) (metis Suc_leI le_neq_implies_less)+
    ultimately show ?thesis by blast
  qed
qed

lemma cmp_result_cong:
  "cmp_result cs k s2 n 0 r \<Longrightarrow> (\<And>j. byte_at cs (k + j) = byte_at bs (l + j)) \<Longrightarrow> cmp_result bs l s2 n 0 r"
  unfolding cmp_result_def by (simp only:)

lemma pbuf_memcmp_ok:
  assumes p: "packet h q ps bs" and s2: "unat n \<le> length s2" and ov: "unat off + unat n \<le> 65536"
  shows "\<exists>r. pbuf_memcmp q off s2 n h = Some (Inr r) \<and> (if length bs \<le> unat off then r = 0xffff else cmp_result bs (unat off) s2 (unat n) 0 (unat r))"
proof -
  from memcmp_seek_ok [OF p, of off] obtain st q' qs cs where
    s: "memcmp_seek off q h = Some (Inr (st, q'))" "packet h q' qs cs" "st \<le> off" "\<And>j. byte_at cs (unat st + j) = byte_at bs (unat off + j)"
      "q' = None \<longleftrightarrow> length bs \<le> unat off" by blast
  have "unat st + unat n \<le> 65536" using s(3) ov by (simp add: word_le_nat_alt)
  from memcmp_bytes_ok [OF s(2) s2 this, of 0] obtain r where
    r: "memcmp_bytes q' st s2 n 0 h = Some (Inr r)" "cmp_result cs (unat st) s2 (unat n) 0 (unat r)" by auto
  show ?thesis
  proof (cases "q' = None")
    case True
    then show ?thesis using s by (simp add: pbuf_memcmp_def)
  next
    case False
    then obtain b where "q' = Some b" by auto
    then show ?thesis using s(1,5) r(1) cmp_result_cong [OF r(2) s(4)] by (simp add: pbuf_memcmp_def)
  qed
qed

lemma memfind_loop_sound:
  assumes p: "packet h (Some p) ps bs" and m: "unat n \<le> length mem" "0 < unat n" and mx: "unat mx + unat n = length bs" and le: "length bs \<le> 65535"
  shows "unat i \<le> length bs \<Longrightarrow> \<exists>r. memfind_loop p mem n mx i h = Some (Inr r) \<and>
     (r = 0xFFFF \<or> (unat i \<le> unat r \<and> take (unat n) (drop (unat r) bs) = take (unat n) mem))"
proof (induction "length bs - unat i" arbitrary: i rule: less_induct)
  case less
  show ?case
  proof (cases "i \<le> mx")
    case False
    then show ?thesis by (subst memfind_loop.simps) auto
  next
    case True
    then have i: "unat i + unat n \<le> length bs" using mx by (simp add: word_le_nat_alt)
    then have ov: "unat i + unat n \<le> 65536" "\<not> length bs \<le> unat i" using le m(2) by simp_all
    from pbuf_memcmp_ok [OF p m(1) ov(1)] obtain r where
      r: "pbuf_memcmp (Some p) i mem n h = Some (Inr r)" "cmp_result bs (unat i) mem (unat n) 0 (unat r)" using ov(2) by auto
    show ?thesis
    proof (cases "r = 0")
      case r0: True
      then have "memfind_loop p mem n mx i h = Some (Inr i)" using True r(1) by (subst memfind_loop.simps) simp
      moreover have "take (unat n) (drop (unat i) bs) = take (unat n) mem"
        using r(2) r0 i m(1) by (intro nth_equalityI) (auto simp: cmp_result_def byte_at_def)
      ultimately show ?thesis by blast
    next
      case False
      then have rr: "0 < unat r" "unat r \<le> unat n" using r(2) unat_gt_0 [of r] by (simp_all add: cmp_result_def unat_eq_zero)
      then have u: "unat (i + r) = unat i + unat r" using i le by (simp add: unat_word_ariths(1) mod_less)
      have "length bs - unat (i + r) < length bs - unat i" "unat (i + r) \<le> length bs" using u rr i m(2) by simp_all
      from less.hyps [OF this] obtain r' where
        r': "memfind_loop p mem n mx (i + r) h = Some (Inr r')" "r' = 0xFFFF \<or> (unat (i + r) \<le> unat r' \<and> take (unat n) (drop (unat r') bs) = take (unat n) mem)" by blast
      have "memfind_loop p mem n mx i h = Some (Inr r')" using True False r(1) r'(1) by (subst memfind_loop.simps) simp
      then show ?thesis using r'(2) u by auto
    qed
  qed
qed

section \<open>Properties\<close>

definition ex_text :: heap where
  "ex_text = fmupd 1 (ex_pb None [97, 97, 97, 98] 4) fmempty"

lemma ex_text_packet: "packet ex_text (Some 1) [1] [97, 97, 97, 98]"
  by (simp add: ex_text_def ex_pb_def pb_wf_def pb_data_def)

text \<open>
  The search in a packet ends, and a position that it returns is one of the pattern.
\<close>

lemma pbuf_memfind_sound:
  assumes "packet h (Some p) ps bs" "unat n \<le> length mem" "0 < unat n"
  shows "\<exists>r. pbuf_memfind p mem n start h = Some (Inr r) \<and>
     (r = 0xFFFF \<or> (unat start \<le> unat r \<and> take (unat n) (drop (unat r) bs) = take (unat n) mem))"
proof -
  obtain pb where pb: "fmlookup h p = Some pb" "unat (pb_tot_len pb) = length bs" using assms(1) by (auto simp: packet_Some)
  show ?thesis
  proof (cases "unat (pb_tot_len pb) \<ge> unat n + unat start")
    case True
    then have "unat (pb_tot_len pb - n) + unat n = length bs" using pb(2) by (simp add: unat_sub word_le_nat_alt)
    moreover have "length bs \<le> 65535" using packet_length [OF assms(1)] .
    ultimately show ?thesis using memfind_loop_sound [OF assms(1-3), of "pb_tot_len pb - n" start] True pb by (simp add: pbuf_memfind_def)
  next
    case False
    then show ?thesis using pb(1) by (simp add: pbuf_memfind_def)
  qed
qed

lemma pbuf_memfind_sound_example:
  "\<exists>r. pbuf_memfind 1 [97, 98] 2 0 ex_text = Some (Inr r) \<and>
     (r = 0xFFFF \<or> (unat (0 :: u16) \<le> unat r \<and> take (unat (2 :: u16)) (drop (unat r) [97, 97, 97, 98]) = take (unat (2 :: u16)) [97, 98 :: u8]))"
  by (rule pbuf_memfind_sound [OF ex_text_packet]) simp_all

text \<open>The search goes on behind the first difference, so that it misses \<^verbatim>\<open>aab\<close> in \<^verbatim>\<open>aaab\<close>.\<close>

lemma pbuf_memfind_misses:
  "pbuf_memfind 1 [97, 97, 98] 3 0 ex_text = Some (Inr 0xFFFF) \<and> take 3 (drop 1 [97, 97, 97, 98]) = [97, 97, 98 :: u8]"
proof -
  obtain r where r: "pbuf_memcmp (Some 1) 0 [97, 97, 98] 3 ex_text = Some (Inr r)" "cmp_result [97, 97, 97, 98] 0 [97, 97, 98] 3 0 (unat r)"
    using pbuf_memcmp_ok [OF ex_text_packet, of 3 "[97, 97, 98]" 0] by auto
  have "unat r \<noteq> 0"
  proof
    assume "unat r = 0"
    then have "byte_at [97, 97, 97, 98] (0 + 2) = [97, 97, 98] ! 2" using r(2) unfolding cmp_result_def by simp
    then show False by (simp add: byte_at_def)
  qed
  moreover have "unat r \<noteq> 1" "unat r \<noteq> 2" using r(2) by (auto simp: cmp_result_def byte_at_def)
  ultimately have "unat r = 3" using r(2) by (simp add: cmp_result_def)
  then have "r = 3" by (simp add: word_unat_eq_iff)
  then have "memfind_loop 1 [97, 97, 98] 3 1 0 ex_text = Some (Inr 0xFFFF)"
    using r(1) by (subst memfind_loop.simps) (simp add: memfind_loop.simps [of _ _ _ _ 3] word_le_nat_alt)
  then show ?thesis by (simp add: pbuf_memfind_def ex_text_def ex_pb_def)
qed

end
