(* ===== verification/IpAddr.thy ===== *)
theory IpAddr
  imports Inet
begin

text \<open>
  IP addresses (\<^verbatim>\<open>src/lwip/src/core/ipv4/ip_addr.c\<close>, \<^verbatim>\<open>src/lwip/inc/ipv4/lwip/ip_addr.h\<close>): an address is a \<open>u32_t\<close> in
  network order, so that its bytes in the memory of the little-endian processor are the four parts from left to
  right. A string is the memory from its first byte on; reading past its end is a fault.
\<close>

section \<open>Addresses and masks\<close>

definition IPADDR_NONE :: u32 where "IPADDR_NONE = 0xffffffff"
definition IPADDR_ANY :: u32 where "IPADDR_ANY = 0"
definition IPADDR_BROADCAST :: u32 where "IPADDR_BROADCAST = 0xffffffff"

lemmas ipaddr_consts [simp] = IPADDR_NONE_def IPADDR_ANY_def IPADDR_BROADCAST_def

definition IP4_ADDR :: "u32 \<Rightarrow> u32 \<Rightarrow> u32 \<Rightarrow> u32 \<Rightarrow> u32" where
  "IP4_ADDR a b c d = push_bit 24 (d AND 0xff) OR push_bit 16 (c AND 0xff) OR push_bit 8 (b AND 0xff) OR (a AND 0xff)"

definition ip_addr_netcmp :: "u32 \<Rightarrow> u32 \<Rightarrow> u32 \<Rightarrow> bool" where
  "ip_addr_netcmp addr1 addr2 nm \<longleftrightarrow> addr1 AND nm = addr2 AND nm"

definition ip_addr_ismulticast :: "u32 \<Rightarrow> bool" where
  "ip_addr_ismulticast addr \<longleftrightarrow> addr AND lwip_htonl 0xf0000000 = lwip_htonl 0xe0000000"

definition ip_addr_islinklocal :: "u32 \<Rightarrow> bool" where
  "ip_addr_islinklocal addr \<longleftrightarrow> addr AND lwip_htonl 0xffff0000 = lwip_htonl 0xa9fe0000"

definition NETIF_FLAG_BROADCAST :: u8 where "NETIF_FLAG_BROADCAST = 2"

text \<open>The interface is given by its flags, its address and its mask.\<close>

definition ip4_addr_isbroadcast :: "u32 \<Rightarrow> u8 \<Rightarrow> u32 \<Rightarrow> u32 \<Rightarrow> bool" where
  "ip4_addr_isbroadcast addr flags ip_addr netmask =
     (if NOT addr = IPADDR_ANY \<or> addr = IPADDR_ANY then True
      else if flags AND NETIF_FLAG_BROADCAST = 0 then False
      else if addr = ip_addr then False
      else ip_addr_netcmp addr ip_addr netmask \<and> addr AND NOT netmask = IPADDR_BROADCAST AND NOT netmask)"

text \<open>The two loops of \<open>ip4_addr_netmask_valid\<close>: to the first zero, and to the first one after it.\<close>

function netmask_ones :: "u32 \<Rightarrow> u32 \<Rightarrow> u32" where
  "netmask_ones nm m = (if m \<noteq> 0 \<and> nm AND m \<noteq> 0 then netmask_ones nm (drop_bit 1 m) else m)"
  by pat_completeness auto

lemma drop_bit_1_less: "m \<noteq> 0 \<Longrightarrow> unat (drop_bit 1 m) < unat (m :: u32)"
  unfolding unat_drop_bit_eq by (simp add: drop_bit_eq_div unat_gt_0)

termination netmask_ones
  by (relation "measure (\<lambda>(nm, m). unat m)") (auto dest: drop_bit_1_less)

function netmask_zeros :: "u32 \<Rightarrow> u32 \<Rightarrow> bool" where
  "netmask_zeros nm m = (if m \<noteq> 0 then if nm AND m \<noteq> 0 then False else netmask_zeros nm (drop_bit 1 m) else True)"
  by pat_completeness auto

termination netmask_zeros
  by (relation "measure (\<lambda>(nm, m). unat m)") (auto dest: drop_bit_1_less)

declare netmask_ones.simps [simp del] netmask_zeros.simps [simp del]

definition ip4_addr_netmask_valid :: "u32 \<Rightarrow> bool" where
  "ip4_addr_netmask_valid netmask =
     (let nm = lwip_htonl netmask in netmask_zeros nm (netmask_ones nm (push_bit 31 1)))"

section \<open>From text to address\<close>

definition in_range :: "u8 \<Rightarrow> u8 \<Rightarrow> u8 \<Rightarrow> bool" where "in_range c lo up \<longleftrightarrow> c \<ge> lo \<and> c \<le> up"
definition isdigit :: "u8 \<Rightarrow> bool" where "isdigit c \<longleftrightarrow> in_range c 48 57"
definition isxdigit :: "u8 \<Rightarrow> bool" where "isxdigit c \<longleftrightarrow> isdigit c \<or> in_range c 97 102 \<or> in_range c 65 70"
definition islower :: "u8 \<Rightarrow> bool" where "islower c \<longleftrightarrow> in_range c 97 122"
definition isspace :: "u8 \<Rightarrow> bool" where "isspace c \<longleftrightarrow> c = 32 \<or> c = 12 \<or> c = 10 \<or> c = 13 \<or> c = 9 \<or> c = 11"

text \<open>The base of a number and the text from its first digit on; \<open>c\<close> is the current character.\<close>

definition aton_base :: "u8 \<Rightarrow> u8 list \<Rightarrow> (u8 \<times> u8 list) res" where
  "aton_base c cp =
     (if c = 48
      then (case cp of
              [] \<Rightarrow> Inl OutOfBounds
            | c' # cp' \<Rightarrow> if c' = 120 \<or> c' = 88 then Inr (16, cp') else Inr (8, cp))
      else Inr (10, c # cp))"

fun aton_digits :: "u8 \<Rightarrow> u32 \<Rightarrow> u8 list \<Rightarrow> (u32 \<times> u8 list) res" where
  "aton_digits base val [] = Inl OutOfBounds"
| "aton_digits base val (c # cp) =
     (if isdigit c then aton_digits base (val * ucast base + (ucast c - 48)) cp
      else if base = 16 \<and> isxdigit c
      then aton_digits base (push_bit 4 val OR (ucast c + 10 - (if islower c then 97 else 65))) cp
      else Inr (val, c # cp))"

text \<open>
  The parts before the last one, the last number and the character behind it; \<open>None\<close> is the return value 0.
\<close>

function aton_parts :: "u32 list \<Rightarrow> u8 list \<Rightarrow> (u32 list \<times> u32 \<times> u8) option res" where
  "aton_parts parts cp =
     (case cp of
        [] \<Rightarrow> Inl OutOfBounds
      | c # cp \<Rightarrow>
          if \<not> isdigit c then Inr None
          else (case aton_base c cp of
                  Inl e \<Rightarrow> Inl e
                | Inr (base, cp) \<Rightarrow>
                    (case aton_digits base 0 cp of
                       Inl e \<Rightarrow> Inl e
                     | Inr (val, []) \<Rightarrow> Inl OutOfBounds
                     | Inr (val, c # cp) \<Rightarrow>
                         if c = 46 then if length parts \<ge> 3 then Inr None else aton_parts (parts @ [val]) cp
                         else Inr (Some (parts, val, c)))))"
  by pat_completeness auto

termination aton_parts
  by (relation "measure (\<lambda>(parts, cp). 4 - length parts)") auto

declare aton_parts.simps [simp del]

text \<open>
  \<open>Some a\<close> is the return value 1 with the address \<open>a\<close> stored. There are at most three parts before the last one,
  so that the default of the \<open>switch\<close> is not reached.
\<close>

definition ipaddr_aton :: "u8 list \<Rightarrow> u32 option res" where
  "ipaddr_aton cp =
     rbind (aton_parts [] cp) (\<lambda>r.
     case r of
       None \<Rightarrow> Inr None
     | Some (parts, val, c) \<Rightarrow>
         if c \<noteq> 0 \<and> \<not> isspace c then Inr None
         else (case parts of
                 [] \<Rightarrow> Inr (Some (lwip_htonl val))
               | [a] \<Rightarrow> if val > 0xffffff then Inr None else Inr (Some (lwip_htonl (val OR push_bit 24 a)))
               | [a, b] \<Rightarrow> if val > 0xffff then Inr None else Inr (Some (lwip_htonl (val OR (push_bit 24 a OR push_bit 16 b))))
               | [a, b, c] \<Rightarrow>
                   if val > 0xff then Inr None
                   else Inr (Some (lwip_htonl (val OR (push_bit 24 a OR push_bit 16 b OR push_bit 8 c))))
               | _ \<Rightarrow> Inr None))"

definition ipaddr_addr :: "u8 list \<Rightarrow> u32 res" where
  "ipaddr_addr cp = rbind (ipaddr_aton cp) (\<lambda>r. case r of Some a \<Rightarrow> Inr a | None \<Rightarrow> Inr IPADDR_NONE)"

section \<open>From address to text\<close>

text \<open>The digits of one byte, last one first, into the array \<open>inv\<close> (here \<open>invs\<close>); the result is their number and the array.\<close>

function ntoa_digits :: "u8 \<Rightarrow> nat \<Rightarrow> u8 list \<Rightarrow> (nat \<times> u8 list) res" where
  "ntoa_digits ap i invs =
     (if i < length invs
      then let rm = ap mod 10; ap = ap div 10; invs = invs[i := 48 + rm]
           in if ap \<noteq> 0 then ntoa_digits ap (i + 1) invs else Inr (i + 1, invs)
      else Inl OutOfBounds)"
  by pat_completeness auto

termination ntoa_digits
  by (relation "measure (\<lambda>(ap, i, invs). length invs - i)") auto

declare ntoa_digits.simps [simp del]

text \<open>One character into the buffer; \<open>rp\<close> is always \<open>buf + len\<close>, and \<open>None\<close> is the return value \<open>NULL\<close>.\<close>

definition ntoa_put :: "int \<Rightarrow> u8 \<Rightarrow> nat \<times> u8 list \<Rightarrow> (nat \<times> u8 list) option res" where
  "ntoa_put buflen c s =
     (case s of (len, buf) \<Rightarrow>
      if int len \<ge> buflen then Inr None else rbind (store buf len c) (\<lambda>buf. Inr (Some (len + 1, buf))))"

fun ntoa_copy :: "int \<Rightarrow> nat \<Rightarrow> u8 list \<Rightarrow> nat \<times> u8 list \<Rightarrow> (nat \<times> u8 list) option res" where
  "ntoa_copy buflen 0 invs s = Inr (Some s)"
| "ntoa_copy buflen (Suc i) invs s =
     rbind (load invs i) (\<lambda>c.
     rbind (ntoa_put buflen c s) (\<lambda>r. case r of None \<Rightarrow> Inr None | Some s \<Rightarrow> ntoa_copy buflen i invs s))"

fun ntoa_bytes :: "int \<Rightarrow> u8 list \<Rightarrow> u8 list \<Rightarrow> nat \<times> u8 list \<Rightarrow> (nat \<times> u8 list) option res" where
  "ntoa_bytes buflen invs [] s = Inr (Some s)"
| "ntoa_bytes buflen invs (ap # aps) s =
     rbind (ntoa_digits ap 0 invs) (\<lambda>(i, invs).
     rbind (ntoa_copy buflen i invs s) (\<lambda>r.
     case r of
       None \<Rightarrow> Inr None
     | Some s \<Rightarrow>
         rbind (ntoa_put buflen 46 s) (\<lambda>r. case r of None \<Rightarrow> Inr None | Some s \<Rightarrow> ntoa_bytes buflen invs aps s)))"

definition ipaddr_ntoa_r :: "u32 \<Rightarrow> u8 list \<Rightarrow> u8 list \<Rightarrow> int \<Rightarrow> u8 list option res" where
  "ipaddr_ntoa_r addr invs buf buflen =
     rbind (ntoa_bytes buflen invs (bytes32 addr) (0, buf)) (\<lambda>r.
     case r of
       None \<Rightarrow> Inr None
     | Some (len, buf) \<Rightarrow> rbind (store buf (len - 1) 0) (\<lambda>buf. Inr (Some buf)))"

text \<open>\<open>str\<close> is the static buffer, \<open>invs\<close> the array on the stack before it is written.\<close>

definition ipaddr_ntoa :: "u32 \<Rightarrow> u8 list \<Rightarrow> u8 list \<Rightarrow> u8 list option res" where
  "ipaddr_ntoa addr invs str = ipaddr_ntoa_r addr invs str 16"

section \<open>The digits of a byte\<close>

definition dec :: "u8 \<Rightarrow> u8 list" where
  "dec x = (let a = x div 10; b = a div 10
            in if a = 0 then [48 + x mod 10] else if b = 0 then [48 + a mod 10, 48 + x mod 10] else [48 + b mod 10, 48 + a mod 10, 48 + x mod 10])"

lemma unat_div_10: "unat (x div 10) = unat x div 10" "unat (x mod 10) = unat x mod 10" for x :: u8
  by (simp_all add: unat_div unat_mod)

lemma div_1000: "x div 10 div 10 div 10 = 0" for x :: u8
proof -
  have "unat x < 256" using unat_lt_256 [of x] .
  then have "unat x div (10 * 10 * 10) = 0" by (intro div_less) linarith
  then have "unat (x div 10 div 10 div 10) = 0" unfolding unat_div_10 div_mult2_eq .
  then show ?thesis by (simp add: unat_eq_zero)
qed

lemma dec_length: "length (dec x) \<le> 3" "dec x \<noteq> []"
  by (simp_all add: dec_def Let_def)

lemma ntoa_digits_dec:
  assumes "length invs = 3"
  shows "\<exists>invs'. length invs' = 3 \<and> ntoa_digits x 0 invs = Inr (length (dec x), invs') \<and> rev (take (length (dec x)) invs') = dec x"
proof -
  obtain i0 i1 i2 where invs: "invs = [i0, i1, i2]" using assms by (auto simp: numeral_3_eq_3 length_Suc_conv)
  show ?thesis
    by (cases "x div 10 = 0"; cases "x div 10 div 10 = 0") (simp_all add: invs ntoa_digits.simps dec_def Let_def div_1000)
qed

lemma ntoa_copy_ok:
  "i \<le> length invs \<Longrightarrow> int (len + i) \<le> buflen \<Longrightarrow> len + i \<le> length buf \<Longrightarrow>
   ntoa_copy buflen i invs (len, buf) = Inr (Some (len + i, blit buf len (rev (take i invs))))"
proof (induction i arbitrary: len buf)
  case (Suc i)
  have t: "rev (take (Suc i) invs) = invs ! i # rev (take i invs)" using Suc.prems(1) by (simp add: take_Suc_conv_app_nth)
  have "ntoa_copy buflen i invs (Suc len, buf[len := invs ! i]) = Inr (Some (Suc len + i, blit (buf[len := invs ! i]) (Suc len) (rev (take i invs))))"
    using Suc.prems by (intro Suc.IH) simp_all
  moreover have "blit (buf[len := invs ! i]) (Suc len) (rev (take i invs)) = blit buf len (invs ! i # rev (take i invs))"
    using Suc.prems by (simp add: blit_def upd_conv_take_nth_drop min_def add.commute add.left_commute)
  ultimately show ?case using Suc.prems unfolding t by (simp add: load_def store_def ntoa_put_def)
qed simp

fun dotted :: "u8 list \<Rightarrow> u8 list" where
  "dotted [] = []"
| "dotted (x # xs) = dec x @ [46] @ dotted xs"

lemma ntoa_bytes_ok:
  "length invs = 3 \<Longrightarrow> int (len + length (dotted xs)) \<le> buflen \<Longrightarrow> len + length (dotted xs) \<le> length buf \<Longrightarrow>
   ntoa_bytes buflen invs xs (len, buf) = Inr (Some (len + length (dotted xs), blit buf len (dotted xs)))"
proof (induction xs arbitrary: invs len buf)
  case (Cons x xs)
  obtain invs' where invs': "length invs' = 3" "ntoa_digits x 0 invs = Inr (length (dec x), invs')" "rev (take (length (dec x)) invs') = dec x"
    using ntoa_digits_dec [OF Cons.prems(1)] by blast
  let ?n = "length (dec x)" and ?b = "blit buf len (dec x)"
  have c: "ntoa_copy buflen ?n invs' (len, buf) = Inr (Some (len + ?n, ?b))"
    using ntoa_copy_ok [of ?n invs' len buflen buf] invs' dec_length(1) [of x] Cons.prems by simp
  have lb: "length ?b = length buf" using Cons.prems by simp
  have p: "ntoa_put buflen 46 (len + ?n, ?b) = Inr (Some (len + ?n + 1, ?b[len + ?n := 46]))"
    using Cons.prems lb by (simp add: ntoa_put_def store_def)
  have "ntoa_bytes buflen invs' xs (len + ?n + 1, ?b[len + ?n := 46]) = Inr (Some (len + ?n + 1 + length (dotted xs), blit (?b[len + ?n := 46]) (len + ?n + 1) (dotted xs)))"
    using Cons.prems lb by (intro Cons.IH invs'(1)) simp_all
  moreover have "blit (?b[len + ?n := 46]) (len + ?n + 1) (dotted xs) = blit buf len (dotted (x # xs))"
    using Cons.prems by (simp add: blit_def upd_conv_take_nth_drop min_def add.commute add.left_commute)
  ultimately show ?case using invs'(2) c p by (simp add: add.assoc)
qed simp

section \<open>Reading the digits\<close>

lemma unat_ucast_8_32: "unat (ucast (x :: u8) :: u32) = unat x"
  by (simp add: unsigned_ucast_eq take_bit_nat_eq_self_iff less_trans [OF unat_lt_256])

lemma word8_lt_10: "isdigit (48 + d)" "d = 0 \<longleftrightarrow> 48 + d = (48 :: u8)" "unat (ucast (48 + d) - 48 :: u32) = unat d" if "unat d < 10" for d :: u8
proof -
  have u: "unat (48 + d) = 48 + unat d" using that by (simp add: unat_word_ariths(1))
  show "isdigit (48 + d)" using that u by (simp add: isdigit_def in_range_def word_le_nat_alt)
  show "d = 0 \<longleftrightarrow> 48 + d = (48 :: u8)" by simp
  have "unat (ucast (48 + d) :: u32) = 48 + unat d" unfolding unat_ucast_8_32 by (rule u)
  then show "unat (ucast (48 + d) - 48 :: u32) = unat d" by (simp add: unat_sub word_le_nat_alt)
qed

lemma mod_10: "unat (x mod 10) < 10" for x :: u8
  unfolding unat_div_10 by simp

lemma step_10:
  assumes "unat (v :: u32) = unat (a :: u8)" "unat a * 10 + unat (d :: u8) < 256" "unat d < 10"
  shows "unat (v * ucast (10 :: u8) + (ucast (48 + d) - 48)) = unat a * 10 + unat d"
  using assms word8_lt_10(3) [OF assms(3)] by (simp add: unat_word_ariths(1,2))

lemma digits_back: "unat x = unat (x div 10) * 10 + unat (x mod 10)" for x :: u8
  unfolding unat_div_10 by simp

lemma aton_dec:
  assumes "\<not> isdigit c" "c \<noteq> 120" "c \<noteq> 88" "dec x = d # ds"
  shows "isdigit d \<and> (\<exists>base cp. aton_base d (ds @ c # r) = Inr (base, cp) \<and> aton_digits base 0 cp = Inr (ucast x, c # r))"
proof -
  let ?a = "x div 10" and ?b = "x div 10 div 10"
  let ?v0 = "\<lambda>y :: u8. ucast (48 + y) - 48 :: u32"
  have eq: "v = ucast x" if "unat v = unat x" for v :: u32 using that by (simp add: word_unat_eq_iff unat_ucast_8_32)
  have nz: "(48 + y mod 10 = 48) = (y = 0)" if "y div 10 = 0" for y :: u8
  proof -
    have "unat y = unat (y mod 10)" using digits_back [of y] that by simp
    then show ?thesis using word8_lt_10(2) [OF mod_10, of y] by (metis unat_eq_zero)
  qed
  note dg = word8_lt_10(1) [OF mod_10]
  have lt: "unat x < 256" using unat_lt_256 [of x] .
  consider (1) "?a = 0" | (2) "?a \<noteq> 0" "?b = 0" | (3) "?a \<noteq> 0" "?b \<noteq> 0" by blast
  then show ?thesis
  proof cases
    case 1
    then have d: "d = 48 + x mod 10" "ds = []" using assms(4) by (simp_all add: dec_def)
    have x: "unat (x mod 10) = unat x" using digits_back [of x] 1 by simp
    show ?thesis
    proof (cases "x = 0")
      case True
      then show ?thesis using d assms(1-3) dg [of x] by (simp add: aton_base_def)
    next
      case False
      then have "aton_base d (ds @ c # r) = Inr (10, d # c # r)" using d nz [OF 1] by (simp add: aton_base_def)
      moreover have "aton_digits 10 0 (d # c # r) = Inr (ucast x, c # r)" using d assms(1) dg [of x] word8_lt_10(3) [OF mod_10 [of x]] x by (simp add: eq)
      ultimately show ?thesis using d dg by blast
    qed
  next
    case 2
    then have d: "d = 48 + ?a mod 10" "ds = [48 + x mod 10]" using assms(4) by (simp_all add: dec_def Let_def)
    have a: "unat (?a mod 10) = unat ?a" using digits_back [of ?a] 2 by simp
    have v0: "unat (?v0 (?a mod 10)) = unat ?a" using word8_lt_10(3) [OF mod_10 [of ?a]] a by simp
    have v1: "unat (?v0 (?a mod 10) * ucast (10 :: u8) + ?v0 (x mod 10)) = unat x"
      using step_10 [OF v0, of "x mod 10"] digits_back [of x] lt mod_10 [of x] by simp
    have "aton_base d (ds @ c # r) = Inr (10, d # ds @ c # r)" using d nz [of ?a] 2 by (simp add: aton_base_def)
    moreover have "aton_digits 10 0 (d # ds @ c # r) = Inr (ucast x, c # r)" using d assms(1) dg [of x] dg [of ?a] eq [OF v1] by simp
    ultimately show ?thesis using d dg by blast
  next
    case 3
    then have d: "d = 48 + ?b mod 10" "ds = [48 + ?a mod 10, 48 + x mod 10]" using assms(4) by (simp_all add: dec_def Let_def)
    have b: "unat (?b mod 10) = unat ?b" using digits_back [of ?b] div_1000 [of x] by simp
    have v0: "unat (?v0 (?b mod 10)) = unat ?b" using word8_lt_10(3) [OF mod_10 [of ?b]] b by simp
    have la: "unat ?a < 256" using unat_lt_256 [of ?a] .
    have v1: "unat (?v0 (?b mod 10) * ucast (10 :: u8) + ?v0 (?a mod 10)) = unat ?a"
      using step_10 [OF v0, of "?a mod 10"] digits_back [of ?a] la mod_10 [of ?a] by simp
    have v2: "unat ((?v0 (?b mod 10) * ucast (10 :: u8) + ?v0 (?a mod 10)) * ucast (10 :: u8) + ?v0 (x mod 10)) = unat x"
      using step_10 [OF v1, of "x mod 10"] digits_back [of x] lt mod_10 [of x] by simp
    have "aton_base d (ds @ c # r) = Inr (10, d # ds @ c # r)" using d nz [of ?b] div_1000 [of x] 3 by (simp add: aton_base_def)
    moreover have "aton_digits 10 0 (d # ds @ c # r) = Inr (ucast x, c # r)" using d assms(1) dg [of x] dg [of ?a] dg [of ?b] eq [OF v2] by simp
    ultimately show ?thesis using d dg by blast
  qed
qed

lemma aton_parts_last:
  assumes "\<not> isdigit c" "c \<noteq> 120" "c \<noteq> 88" "c \<noteq> 46"
  shows "aton_parts ps (dec x @ c # r) = Inr (Some (ps, ucast x, c))"
proof -
  obtain d ds where d: "dec x = d # ds" using dec_length(2) [of x] by (cases "dec x") auto
  then show ?thesis using aton_dec [OF assms(1-3) d, of r] assms(4) by (subst aton_parts.simps) auto
qed

lemma aton_parts_dot:
  assumes "length ps < 3"
  shows "aton_parts ps (dec x @ 46 # r) = aton_parts (ps @ [ucast x]) r"
proof -
  obtain d ds where d: "dec x = d # ds" using dec_length(2) [of x] by (cases "dec x") auto
  have "\<not> isdigit 46" by (simp add: isdigit_def in_range_def)
  then show ?thesis using aton_dec [OF _ _ _ d, of 46 r] assms d by (subst aton_parts.simps) auto
qed

lemma ucast_8_32_le: "\<not> (ucast (x :: u8) :: u32) > 0xff"
proof -
  have "unat x \<le> 255" using unat_lt_256 [of x] by linarith
  then show ?thesis by (simp add: not_less word_le_nat_alt unat_ucast_8_32)
qed

lemma htonl_masks:
  "(0xff :: u32) = mask 8" "(0xff00 :: u32) = push_bit 8 (mask 8)" "(0xff0000 :: u32) = push_bit 16 (mask 8)" "(0xff000000 :: u32) = push_bit 24 (mask 8)"
  by (simp_all add: mask_eq_exp_minus_1)

lemma bytes32_htonl: "bytes32 (lwip_htonl w) = rev (bytes32 w)"
proof -
  have "(ucast (lwip_htonl w) :: u8) = ucast (drop_bit 24 w)"
    unfolding lwip_htonl_def htonl_masks by (rule bit_word_eqI) (simp add: bit_simps)
  moreover have "(ucast (drop_bit 8 (lwip_htonl w)) :: u8) = ucast (drop_bit 16 w)"
    unfolding lwip_htonl_def htonl_masks by (rule bit_word_eqI) (simp add: bit_simps)
  moreover have "(ucast (drop_bit 16 (lwip_htonl w)) :: u8) = ucast (drop_bit 8 w)"
    unfolding lwip_htonl_def htonl_masks by (rule bit_word_eqI) (simp add: bit_simps)
  moreover have "(ucast (drop_bit 24 (lwip_htonl w)) :: u8) = ucast w"
    unfolding lwip_htonl_def htonl_masks by (rule bit_word_eqI) (simp add: bit_simps)
  ultimately show ?thesis by (simp add: bytes32_def)
qed

lemma bytes32_mk32: "bytes32 (mk32 b0 b1 b2 b3) = [b0, b1, b2, b3]"
proof -
  have "(ucast (mk32 b0 b1 b2 b3) :: u8) = b0" "(ucast (drop_bit 8 (mk32 b0 b1 b2 b3)) :: u8) = b1"
    "(ucast (drop_bit 16 (mk32 b0 b1 b2 b3)) :: u8) = b2" "(ucast (drop_bit 24 (mk32 b0 b1 b2 b3)) :: u8) = b3"
    unfolding mk32_def by (rule bit_word_eqI, simp add: bit_simps bit_word8_ge)+
  then show ?thesis by (simp add: bytes32_def)
qed

lemma bytes32_inject: "bytes32 v = bytes32 w \<Longrightarrow> v = w"
  by (metis (no_types) bytes32_def list.inject mk32_bytes32)

lemma htonl_invol [simp]: "lwip_htonl (lwip_htonl w) = w"
  by (rule bytes32_inject) (simp add: bytes32_htonl)

lemma htonl_parts:
  assumes "bytes32 addr = [b0, b1, b2, b3]"
  shows "lwip_htonl (ucast b3 OR (push_bit 24 (ucast b0) OR push_bit 16 (ucast b1) OR push_bit 8 (ucast b2))) = addr"
proof (rule bytes32_inject)
  have "ucast b3 OR (push_bit 24 (ucast b0) OR push_bit 16 (ucast b1) OR push_bit 8 (ucast b2)) = mk32 b3 b2 b1 b0"
    by (simp add: mk32_def ac_simps)
  then show "bytes32 (lwip_htonl (ucast b3 OR (push_bit 24 (ucast b0) OR push_bit 16 (ucast b1) OR push_bit 8 (ucast b2)))) = bytes32 addr"
    using assms by (simp add: bytes32_htonl bytes32_mk32)
qed

lemma length_dotted: "length (dotted xs) \<le> 4 * length xs"
proof (induction xs)
  case (Cons x xs)
  then show ?case using dec_length(1) [of x] by simp
qed simp

section \<open>Masks\<close>

lemma and_bit: "nm AND push_bit k 1 \<noteq> 0 \<longleftrightarrow> bit nm k" for nm :: u32
  by (simp add: bit_iff_and_push_bit_not_eq_0)

lemma drop_push_1: "drop_bit 1 (push_bit (Suc k) 1) = (push_bit k 1 :: u32)" if "k < 31"
  using that by (intro bit_word_eqI) (auto simp: bit_simps)

lemma push_1_nz: "k < 32 \<Longrightarrow> push_bit k 1 \<noteq> (0 :: u32)"
  using bit_push_bit_iff [of k "1 :: u32" k] by auto

lemma netmask_zeros_bits: "k < 32 \<Longrightarrow> netmask_zeros nm (push_bit k 1) \<longleftrightarrow> (\<forall>i\<le>k. \<not> bit nm i)"
proof (induction k)
  case 0
  have "drop_bit 1 1 = (0 :: u32)" by simp
  then show ?case using and_bit [of nm 0] by (simp add: netmask_zeros.simps)
next
  case (Suc k)
  then show ?case using and_bit [of nm "Suc k"] push_1_nz [of "Suc k"] drop_push_1 [of k]
    by (subst netmask_zeros.simps) (auto simp: le_Suc_eq)
qed

text \<open>The bits up to \<open>k\<close> are ones from some position on and zeros below it.\<close>

lemma netmask_bits:
  "k < 32 \<Longrightarrow> netmask_zeros nm (netmask_ones nm (push_bit k 1)) \<longleftrightarrow> (\<exists>n\<le>Suc k. \<forall>i\<le>k. bit nm i \<longleftrightarrow> n \<le> i)"
proof (induction k)
  case 0
  have z: "drop_bit 1 1 = (0 :: u32)" by simp
  have "netmask_zeros nm (netmask_ones nm (push_bit 0 1))"
    using and_bit [of nm 0] z by (subst netmask_ones.simps) (auto simp: netmask_ones.simps [of nm 0] netmask_zeros.simps)
  moreover have "\<exists>n\<le>Suc 0. \<forall>i\<le>0. bit nm i \<longleftrightarrow> n \<le> i" by (cases "bit nm 0") auto
  ultimately show ?case by blast
next
  case (Suc k)
  let ?P = "\<lambda>n k. \<forall>i\<le>k. bit nm i \<longleftrightarrow> n \<le> i"
  show ?case
  proof (cases "bit nm (Suc k)")
    case True
    then have "netmask_ones nm (push_bit (Suc k) 1) = netmask_ones nm (push_bit k 1)"
      using and_bit [of nm "Suc k"] push_1_nz [of "Suc k"] drop_push_1 [of k] Suc.prems by (subst netmask_ones.simps) simp
    moreover have "(\<exists>n\<le>Suc k. ?P n k) \<longleftrightarrow> (\<exists>n\<le>Suc (Suc k). ?P n (Suc k))"
    proof
      assume "\<exists>n\<le>Suc k. ?P n k"
      then show "\<exists>n\<le>Suc (Suc k). ?P n (Suc k)" using True by (auto simp: le_Suc_eq)
    next
      assume "\<exists>n\<le>Suc (Suc k). ?P n (Suc k)"
      then obtain n where n: "?P n (Suc k)" by blast
      then have "n \<le> Suc k" using True by auto
      then show "\<exists>n\<le>Suc k. ?P n k" using n by auto
    qed
    ultimately show ?thesis using Suc by simp
  next
    case False
    then have "netmask_ones nm (push_bit (Suc k) 1) = push_bit (Suc k) 1"
      using and_bit [of nm "Suc k"] by (subst netmask_ones.simps) simp
    moreover have "(\<forall>i\<le>Suc k. \<not> bit nm i) \<longleftrightarrow> (\<exists>n\<le>Suc (Suc k). ?P n (Suc k))"
    proof
      assume "\<forall>i\<le>Suc k. \<not> bit nm i"
      then show "\<exists>n\<le>Suc (Suc k). ?P n (Suc k)" by (intro exI [of _ "Suc (Suc k)"]) auto
    next
      assume "\<exists>n\<le>Suc (Suc k). ?P n (Suc k)"
      then obtain n where n: "?P n (Suc k)" by blast
      then have "Suc k < n" using False by (metis le_refl not_le)
      then show "\<forall>i\<le>Suc k. \<not> bit nm i" using n by (meson le_less_trans not_le)
    qed
    ultimately show ?thesis using netmask_zeros_bits [OF Suc.prems] by simp
  qed
qed

section \<open>Properties\<close>

text \<open>
  C20: an address that is printed into the static buffer of 16 bytes is read back as the same address; the buffer
  is never too small, and the text ends with a zero byte in it.
\<close>

theorem ipaddr_ntoa_aton:
  assumes "length str = 16" "length invs = 3"
  shows "\<exists>buf. ipaddr_ntoa addr invs str = Inr (Some buf) \<and> length buf = 16 \<and> ipaddr_aton buf = Inr (Some addr) \<and> ipaddr_addr buf = Inr addr"
proof -
  obtain b0 b1 b2 b3 where b: "bytes32 addr = [b0, b1, b2, b3]" by (simp add: bytes32_def)
  let ?t = "dotted [b0, b1, b2, b3]"
  have len: "length ?t \<le> 16" using length_dotted [of "[b0, b1, b2, b3]"] by simp
  then have w: "ntoa_bytes 16 invs (bytes32 addr) (0, str) = Inr (Some (length ?t, blit str 0 ?t))"
    using ntoa_bytes_ok [of invs 0 "[b0, b1, b2, b3]" 16 str] assms b by simp
  define buf where "buf = (blit str 0 ?t)[length ?t - 1 := 0]"
  have r: "ipaddr_ntoa addr invs str = Inr (Some buf)" "length buf = 16"
    using w len assms by (simp_all add: ipaddr_ntoa_def ipaddr_ntoa_r_def store_def buf_def)
  have "buf = dec b0 @ 46 # dec b1 @ 46 # dec b2 @ 46 # dec b3 @ 0 # drop (length ?t) str"
    using len assms(1) by (simp add: buf_def blit_def list_update_append)
  moreover have "\<not> isdigit 0" by (simp add: isdigit_def in_range_def)
  ultimately have "aton_parts [] buf = Inr (Some ([ucast b0, ucast b1, ucast b2], ucast b3, 0))"
    by (simp add: aton_parts_dot aton_parts_last)
  then have "ipaddr_aton buf = Inr (Some addr)"
    using htonl_parts [OF b] by (simp add: ipaddr_aton_def ucast_8_32_le)
  then show ?thesis using r by (simp add: ipaddr_addr_def)
qed

theorem ipaddr_ntoa_aton_witness:
  "\<exists>buf. ipaddr_ntoa 0x8800A8C0 [0, 0, 0] (replicate 16 0) = Inr (Some buf) \<and> length buf = 16 \<and>
     ipaddr_aton buf = Inr (Some 0x8800A8C0) \<and> ipaddr_addr buf = Inr 0x8800A8C0"
  by (rule ipaddr_ntoa_aton) simp_all

text \<open>
  C21: a mask is accepted exactly when it is a prefix of ones followed by zeros, read in the order of the network.
\<close>

theorem netmask_valid_prefix:
  "ip4_addr_netmask_valid netmask \<longleftrightarrow> (\<exists>n\<le>32. lwip_htonl netmask = NOT (mask n))"
proof -
  let ?nm = "lwip_htonl netmask"
  have "ip4_addr_netmask_valid netmask \<longleftrightarrow> (\<exists>n\<le>Suc 31. \<forall>i\<le>31. bit ?nm i \<longleftrightarrow> n \<le> i)"
    using netmask_bits [of 31 ?nm] by (simp add: ip4_addr_netmask_valid_def Let_def)
  also have "\<dots> \<longleftrightarrow> (\<exists>n\<le>32. ?nm = NOT (mask n))"
  proof -
    have "(\<forall>i\<le>31. bit ?nm i \<longleftrightarrow> n \<le> i) \<longleftrightarrow> ?nm = NOT (mask n)" for n
    proof -
      have "(\<forall>i\<le>31. bit ?nm i \<longleftrightarrow> n \<le> i) \<longleftrightarrow> (\<forall>i<32. bit ?nm i \<longleftrightarrow> bit (NOT (mask n) :: u32) i)"
        by (auto simp: bit_simps less_Suc_eq_le [symmetric])
      also have "\<dots> \<longleftrightarrow> ?nm = NOT (mask n)" by (auto intro: bit_word_eqI)
      finally show ?thesis .
    qed
    then show ?thesis by simp
  qed
  finally show ?thesis .
qed

text \<open>The parts before the last one are not checked: \<^verbatim>\<open>256.1.1.1\<close> is read as \<^verbatim>\<open>0.1.1.1\<close>, and \<^verbatim>\<open>09\<close> as an octal number.\<close>

lemma aton_part_overflow:
  "ipaddr_aton [50, 53, 54, 46, 49, 46, 49, 46, 49, 0] = Inr (Some (IP4_ADDR 0 1 1 1))" "ipaddr_aton [48, 57, 0] = Inr (Some (IP4_ADDR 0 0 0 9))"
  by code_simp+

end
