(* ===== verification/Netif.thy ===== *)
theory Netif
  imports PbufCopy IpAddr
begin

text \<open>
  The network interfaces (\<^verbatim>\<open>src/lwip/inc/lwip/netif.h\<close>, \<^verbatim>\<open>src/lwip/src/core/netif.c\<close>) and the state that the layers of
  the network stack share. Interfaces are numbered: \<open>sk_netif n\<close> is the structure of the interface \<open>n\<close>, and the
  linked list of them is the list of their numbers. \<open>sk_dev\<close> is the state of the driver below; its output
  function, which the structure holds as \<open>linkoutput\<close>, is an argument of the operations that send.
\<close>

section \<open>Interfaces\<close>

record netif_t =
  ni_ip_addr :: u32
  ni_netmask :: u32
  ni_gw :: u32
  ni_mtu :: u16
  ni_hwaddr_len :: u8
  ni_hwaddr :: "u8 list"
  ni_flags :: u8
  ni_name :: "u8 \<times> u8"
  ni_num :: u8

datatype etharp_state = ETHARP_STATE_EMPTY | ETHARP_STATE_PENDING | ETHARP_STATE_STABLE | ETHARP_STATE_STABLE_REREQUESTING

text \<open>An entry of the ARP cache (\<open>struct etharp_entry\<close> without \<open>ARP_QUEUEING\<close>): at most one packet waits for it.\<close>

record etharp_entry =
  ae_q :: "nat option"
  ae_ipaddr :: u32
  ae_netif :: "nat option"
  ae_ethaddr :: "u8 list"
  ae_state :: etharp_state
  ae_ctime :: u8

record 'd stack =
  sk_heap :: heap
  sk_dev :: 'd
  sk_netif :: "nat \<Rightarrow> netif_t"
  netif_list :: "nat list"
  netif_default :: "nat option"
  netif_num :: u8
  arp_table :: "etharp_entry list"
  etharp_cached_entry :: u8

type_synonym 'd linkout = "nat \<Rightarrow> nat \<Rightarrow> heap \<times> 'd \<Rightarrow> (err_t \<times> heap \<times> 'd) res option"

definition NETIF_FLAG_UP :: u8 where "NETIF_FLAG_UP = 1"
definition NETIF_FLAG_ETHARP :: u8 where "NETIF_FLAG_ETHARP = 0x20"
definition ETHTYPE_IP :: u16 where "ETHTYPE_IP = 0x0800"
definition ETHTYPE_ARP :: u16 where "ETHTYPE_ARP = 0x0806"
definition NETIF_FLAG_LINK_UP :: u8 where "NETIF_FLAG_LINK_UP = 0x10"

definition linkoutput :: "'d linkout \<Rightarrow> nat \<Rightarrow> nat \<Rightarrow> ('d, 'z) stack_scheme \<Rightarrow> (err_t \<times> ('d, 'z) stack_scheme) res option" where
  "linkoutput lo n p s =
     xbind (lo n p (sk_heap s, sk_dev s)) (\<lambda>(e, h, d). Some (Inr (e, s\<lparr>sk_heap := h, sk_dev := d\<rparr>)))"

definition set_netif :: "nat \<Rightarrow> netif_t \<Rightarrow> ('d, 'z) stack_scheme \<Rightarrow> ('d, 'z) stack_scheme" where
  "set_netif n x s = s\<lparr>sk_netif := (sk_netif s)(n := x)\<rparr>"

text \<open>An address argument is a pointer; a null pointer stands for the address 0 (\<open>ip_addr_set\<close>).\<close>

definition ip_addr_set :: "u32 option \<Rightarrow> u32" where
  "ip_addr_set src = (case src of None \<Rightarrow> 0 | Some a \<Rightarrow> a)"

definition netif_set_ipaddr :: "nat \<Rightarrow> u32 option \<Rightarrow> ('d, 'z) stack_scheme \<Rightarrow> ('d, 'z) stack_scheme" where
  "netif_set_ipaddr n ipaddr s = set_netif n ((sk_netif s n)\<lparr>ni_ip_addr := ip_addr_set ipaddr\<rparr>) s"

definition netif_set_gw :: "nat \<Rightarrow> u32 option \<Rightarrow> ('d, 'z) stack_scheme \<Rightarrow> ('d, 'z) stack_scheme" where
  "netif_set_gw n gw s = set_netif n ((sk_netif s n)\<lparr>ni_gw := ip_addr_set gw\<rparr>) s"

definition netif_set_netmask :: "nat \<Rightarrow> u32 option \<Rightarrow> ('d, 'z) stack_scheme \<Rightarrow> ('d, 'z) stack_scheme" where
  "netif_set_netmask n netmask s = set_netif n ((sk_netif s n)\<lparr>ni_netmask := ip_addr_set netmask\<rparr>) s"

definition netif_set_addr :: "nat \<Rightarrow> u32 option \<Rightarrow> u32 option \<Rightarrow> u32 option \<Rightarrow> ('d, 'z) stack_scheme \<Rightarrow> ('d, 'z) stack_scheme" where
  "netif_set_addr n ipaddr netmask gw s = netif_set_gw n gw (netif_set_netmask n netmask (netif_set_ipaddr n ipaddr s))"

definition netif_set_default :: "nat option \<Rightarrow> ('d, 'z) stack_scheme \<Rightarrow> ('d, 'z) stack_scheme" where
  "netif_set_default n s = s\<lparr>netif_default := n\<rparr>"

text \<open>
  \<open>init\<close> is the initialisation function of the driver; the result is the flag of success. The debugging output
  of the source has no effect.
\<close>

definition netif_add ::
  "(nat \<Rightarrow> ('d, 'z) stack_scheme \<Rightarrow> (err_t \<times> ('d, 'z) stack_scheme) res option) \<Rightarrow> nat \<Rightarrow> u32 option \<Rightarrow> u32 option \<Rightarrow> u32 option \<Rightarrow>
   ('d, 'z) stack_scheme \<Rightarrow> (bool \<times> ('d, 'z) stack_scheme) res option" where
  "netif_add init n ipaddr netmask gw s =
     (let s = set_netif n ((sk_netif s n)\<lparr>ni_ip_addr := 0, ni_netmask := 0, ni_gw := 0, ni_flags := 0, ni_num := netif_num s\<rparr>)
                (s\<lparr>netif_num := netif_num s + 1\<rparr>);
          s = netif_set_addr n ipaddr netmask gw s
      in xbind (init n s) (\<lambda>(err, s).
         if err \<noteq> ERR_OK then Some (Inr (False, s)) else Some (Inr (True, s\<lparr>netif_list := n # netif_list s\<rparr>))))"

text \<open>\<open>netif_find\<close>; the argument is the name with its number as a digit.\<close>

definition netif_find :: "u8 list \<Rightarrow> ('d, 'z) stack_scheme \<Rightarrow> nat option res" where
  "netif_find name s =
     rbind (load name 2) (\<lambda>c2. rbind (load name 0) (\<lambda>c0. rbind (load name 1) (\<lambda>c1.
       Inr (find (\<lambda>n. c2 - 48 = ni_num (sk_netif s n) \<and> c0 = fst (ni_name (sk_netif s n)) \<and> c1 = snd (ni_name (sk_netif s n))) (netif_list s)))))"

definition netif_is_up :: "netif_t \<Rightarrow> bool" where "netif_is_up x \<longleftrightarrow> ni_flags x AND NETIF_FLAG_UP \<noteq> 0"

definition netif_is_link_up :: "netif_t \<Rightarrow> bool" where "netif_is_link_up x \<longleftrightarrow> ni_flags x AND NETIF_FLAG_LINK_UP \<noteq> 0"

definition netif_set_link_down :: "nat \<Rightarrow> ('d, 'z) stack_scheme \<Rightarrow> ('d, 'z) stack_scheme" where
  "netif_set_link_down n s =
     (let x = sk_netif s n
      in if ni_flags x AND NETIF_FLAG_LINK_UP \<noteq> 0 then set_netif n (x\<lparr>ni_flags := ni_flags x AND NOT NETIF_FLAG_LINK_UP\<rparr>) s else s)"

definition ip_addr_isbroadcast :: "u32 \<Rightarrow> netif_t \<Rightarrow> bool" where
  "ip_addr_isbroadcast addr x = ip4_addr_isbroadcast addr (ni_flags x) (ni_ip_addr x) (ni_netmask x)"

end
