(* ===== verification/Etharp.thy ===== *)
theory Etharp
  imports Netif
begin

text \<open>
  Address resolution and Ethernet input (\<^verbatim>\<open>src/lwip/src/netif/etharp.c\<close>) in the configuration of
  \<^verbatim>\<open>src/lwip/inc/lwip/opt.h\<close> and \<^verbatim>\<open>src/inc/lwipopts.h\<close>: a cache of 32 entries, one queued packet per entry, no
  static entries, no VLANs; \<open>LWIP_DEBUG\<close> is not defined. \<open>L\<close> is the memory library, \<open>lo\<close> the output function of
  the driver. Addresses of Ethernet are lists of six bytes.
\<close>

section \<open>The cache\<close>

definition ARP_TABLE_SIZE :: nat where "ARP_TABLE_SIZE = 32"
definition ARP_MAXAGE :: u8 where "ARP_MAXAGE = 240"
definition ARP_AGE_REREQUEST_USED :: u8 where "ARP_AGE_REREQUEST_USED = ARP_MAXAGE - 12"
definition ARP_MAXPENDING :: u8 where "ARP_MAXPENDING = 2"
definition ETHARP_FLAG_TRY_HARD :: u8 where "ETHARP_FLAG_TRY_HARD = 1"
definition ETHARP_FLAG_FIND_ONLY :: u8 where "ETHARP_FLAG_FIND_ONLY = 2"
definition ETHARP_HWADDR_LEN :: u8 where "ETHARP_HWADDR_LEN = 6"
definition HWTYPE_ETHERNET :: u16 where "HWTYPE_ETHERNET = 1"
definition ARP_REQUEST :: u16 where "ARP_REQUEST = 1"
definition ARP_REPLY :: u16 where "ARP_REPLY = 2"
definition SIZEOF_ETH_HDR :: nat where "SIZEOF_ETH_HDR = 14"
definition SIZEOF_ETHARP_PACKET :: nat where "SIZEOF_ETHARP_PACKET = 14 + 28"
definition PBUF_FLAG_LLBCAST :: u8 where "PBUF_FLAG_LLBCAST = 8"
definition PBUF_FLAG_LLMCAST :: u8 where "PBUF_FLAG_LLMCAST = 0x10"

lemmas arp_consts = ARP_TABLE_SIZE_def ARP_MAXAGE_def ARP_AGE_REREQUEST_USED_def ARP_MAXPENDING_def ETHARP_FLAG_TRY_HARD_def
  ETHARP_FLAG_FIND_ONLY_def ETHARP_HWADDR_LEN_def ETHTYPE_IP_def ETHTYPE_ARP_def HWTYPE_ETHERNET_def ARP_REQUEST_def ARP_REPLY_def
  SIZEOF_ETH_HDR_def SIZEOF_ETHARP_PACKET_def PBUF_FLAG_LLBCAST_def PBUF_FLAG_LLMCAST_def

definition ethbroadcast :: "u8 list" where "ethbroadcast = replicate 6 0xff"
definition ethzero :: "u8 list" where "ethzero = replicate 6 0"

definition stable :: "etharp_state \<Rightarrow> bool" where
  "stable st \<longleftrightarrow> st = ETHARP_STATE_STABLE \<or> st = ETHARP_STATE_STABLE_REREQUESTING"

definition set_entry :: "nat \<Rightarrow> etharp_entry \<Rightarrow> ('d, 'z) stack_scheme \<Rightarrow> ('d, 'z) stack_scheme" where
  "set_entry i e s = s\<lparr>arp_table := (arp_table s)[i := e]\<rparr>"

definition get_entry :: "nat \<Rightarrow> ('d, 'z) stack_scheme \<Rightarrow> etharp_entry res option" where
  "get_entry i s = Some (load (arp_table s) i)"

definition free_pbuf :: "memlib \<Rightarrow> nat \<Rightarrow> ('d, 'z) stack_scheme \<Rightarrow> ('d, 'z) stack_scheme res option" where
  "free_pbuf L p s = xbind (pbuf_free L (Some p) (sk_heap s)) (\<lambda>(_, h). Some (Inr (s\<lparr>sk_heap := h\<rparr>)))"

definition etharp_free_entry :: "memlib \<Rightarrow> nat \<Rightarrow> ('d, 'z) stack_scheme \<Rightarrow> ('d, 'z) stack_scheme res option" where
  "etharp_free_entry L i s =
     xbind (get_entry i s) (\<lambda>e.
     xbind (case ae_q e of None \<Rightarrow> Some (Inr s) | Some p \<Rightarrow> free_pbuf L p s) (\<lambda>s.
     Some (Inr (set_entry i (e\<lparr>ae_q := None, ae_state := ETHARP_STATE_EMPTY\<rparr>) s))))"

text \<open>A loop over the entries.\<close>

fun for_entries :: "(nat \<Rightarrow> 's \<Rightarrow> 's res option) \<Rightarrow> nat list \<Rightarrow> 's \<Rightarrow> 's res option" where
  "for_entries f [] s = Some (Inr s)"
| "for_entries f (i # is) s = xbind (f i s) (for_entries f is)"

definition tmr_entry :: "memlib \<Rightarrow> nat \<Rightarrow> ('d, 'z) stack_scheme \<Rightarrow> ('d, 'z) stack_scheme res option" where
  "tmr_entry L i s =
     xbind (get_entry i s) (\<lambda>e.
     if ae_state e \<noteq> ETHARP_STATE_EMPTY
     then let e = e\<lparr>ae_ctime := ae_ctime e + 1\<rparr>; s = set_entry i e s
          in if ae_ctime e \<ge> ARP_MAXAGE \<or> (ae_state e = ETHARP_STATE_PENDING \<and> ae_ctime e \<ge> ARP_MAXPENDING)
             then etharp_free_entry L i s
             else if ae_state e = ETHARP_STATE_STABLE_REREQUESTING
             then Some (Inr (set_entry i (e\<lparr>ae_state := ETHARP_STATE_STABLE\<rparr>) s))
             else Some (Inr s)
     else Some (Inr s))"

definition etharp_tmr :: "memlib \<Rightarrow> ('d, 'z) stack_scheme \<Rightarrow> ('d, 'z) stack_scheme res option" where
  "etharp_tmr L s = for_entries (tmr_entry L) [0..<ARP_TABLE_SIZE] s"

text \<open>The candidates that the search through the cache remembers.\<close>

record arp_cand =
  ca_empty :: nat
  ca_old_pending :: nat
  ca_old_stable :: nat
  ca_old_queue :: nat
  ca_age_pending :: u8
  ca_age_stable :: u8
  ca_age_queue :: u8

definition no_cand :: arp_cand where
  "no_cand = \<lparr>ca_empty = ARP_TABLE_SIZE, ca_old_pending = ARP_TABLE_SIZE, ca_old_stable = ARP_TABLE_SIZE, ca_old_queue = ARP_TABLE_SIZE,
              ca_age_pending = 0, ca_age_stable = 0, ca_age_queue = 0\<rparr>"

definition remember :: "nat \<Rightarrow> etharp_entry \<Rightarrow> arp_cand \<Rightarrow> arp_cand" where
  "remember i e c =
     (if ae_state e = ETHARP_STATE_PENDING
      then if ae_q e \<noteq> None
           then if ae_ctime e \<ge> ca_age_queue c then c\<lparr>ca_old_queue := i, ca_age_queue := ae_ctime e\<rparr> else c
           else if ae_ctime e \<ge> ca_age_pending c then c\<lparr>ca_old_pending := i, ca_age_pending := ae_ctime e\<rparr> else c
      else if ae_ctime e \<ge> ca_age_stable c then c\<lparr>ca_old_stable := i, ca_age_stable := ae_ctime e\<rparr> else c)"

text \<open>The search: \<open>Inl i\<close> is a match, \<open>Inr c\<close> are the candidates after all entries.\<close>

fun find_scan :: "u32 option \<Rightarrow> nat \<Rightarrow> etharp_entry list \<Rightarrow> arp_cand \<Rightarrow> nat + arp_cand" where
  "find_scan ipaddr i [] c = Inr c"
| "find_scan ipaddr i (e # es) c =
     (if ca_empty c = ARP_TABLE_SIZE \<and> ae_state e = ETHARP_STATE_EMPTY then find_scan ipaddr (i + 1) es (c\<lparr>ca_empty := i\<rparr>)
      else if ae_state e \<noteq> ETHARP_STATE_EMPTY
      then if ipaddr = Some (ae_ipaddr e) then Inl i else find_scan ipaddr (i + 1) es (remember i e c)
      else find_scan ipaddr (i + 1) es c)"

text \<open>The entry found or made for an address; \<open>None\<close> is \<open>ERR_MEM\<close>.\<close>

definition new_entry :: "u32 option \<Rightarrow> nat \<Rightarrow> ('d, 'z) stack_scheme \<Rightarrow> (nat option \<times> ('d, 'z) stack_scheme) res option" where
  "new_entry ipaddr i s =
     (if \<not> i < ARP_TABLE_SIZE then None
      else xbind (get_entry i s) (\<lambda>e.
           if ae_state e \<noteq> ETHARP_STATE_EMPTY then None
           else let e = (case ipaddr of None \<Rightarrow> e | Some a \<Rightarrow> e\<lparr>ae_ipaddr := a\<rparr>)
                in Some (Inr (Some i, set_entry i (e\<lparr>ae_ctime := 0\<rparr>) s))))"

definition etharp_find_entry ::
  "memlib \<Rightarrow> u32 option \<Rightarrow> u8 \<Rightarrow> ('d, 'z) stack_scheme \<Rightarrow> (nat option \<times> ('d, 'z) stack_scheme) res option" where
  "etharp_find_entry L ipaddr flags s =
     (case find_scan ipaddr 0 (arp_table s) no_cand of
        Inl i \<Rightarrow> Some (Inr (Some i, s))
      | Inr c \<Rightarrow>
          if flags AND ETHARP_FLAG_FIND_ONLY \<noteq> 0 \<or> (ca_empty c = ARP_TABLE_SIZE \<and> flags AND ETHARP_FLAG_TRY_HARD = 0)
          then Some (Inr (None, s))
          else if ca_empty c < ARP_TABLE_SIZE then new_entry ipaddr (ca_empty c) s
          else if ca_old_stable c < ARP_TABLE_SIZE
          then xbind (get_entry (ca_old_stable c) s) (\<lambda>e.
               if ae_q e \<noteq> None then None
               else xbind (etharp_free_entry L (ca_old_stable c) s) (new_entry ipaddr (ca_old_stable c)))
          else if ca_old_pending c < ARP_TABLE_SIZE
          then xbind (etharp_free_entry L (ca_old_pending c) s) (new_entry ipaddr (ca_old_pending c))
          else if ca_old_queue c < ARP_TABLE_SIZE
          then xbind (etharp_free_entry L (ca_old_queue c) s) (new_entry ipaddr (ca_old_queue c))
          else Some (Inr (None, s)))"

section \<open>Sending\<close>

definition put_bytes :: "nat \<Rightarrow> nat \<Rightarrow> u8 list \<Rightarrow> ('d, 'z) stack_scheme \<Rightarrow> ('d, 'z) stack_scheme res option" where
  "put_bytes p off bs s = xbind (Some (pl_put p off bs (sk_heap s))) (\<lambda>h. Some (Inr (s\<lparr>sk_heap := h\<rparr>)))"

definition get_bytes :: "nat \<Rightarrow> nat \<Rightarrow> nat \<Rightarrow> ('d, 'z) stack_scheme \<Rightarrow> u8 list res option" where
  "get_bytes p off n s = Some (pl_get p off n (sk_heap s))"

definition etharp_send_ip ::
  "'d linkout \<Rightarrow> nat \<Rightarrow> nat \<Rightarrow> u8 list \<Rightarrow> u8 list \<Rightarrow> ('d, 'z) stack_scheme \<Rightarrow> (err_t \<times> ('d, 'z) stack_scheme) res option" where
  "etharp_send_ip lo n p src dst s =
     (if ni_hwaddr_len (sk_netif s n) \<noteq> ETHARP_HWADDR_LEN then None
      else xbind (put_bytes p 0 dst s) (\<lambda>s.
           xbind (put_bytes p 6 src s) (\<lambda>s.
           xbind (put_bytes p 12 (bytes16 (lwip_htons ETHTYPE_IP)) s) (\<lambda>s.
           linkoutput lo n p s))))"

text \<open>The entry \<open>i\<close> gets the address; a packet that waits for it is sent.\<close>

definition update_entry ::
  "memlib \<Rightarrow> 'd linkout \<Rightarrow> nat \<Rightarrow> u8 list \<Rightarrow> nat \<Rightarrow> ('d, 'z) stack_scheme \<Rightarrow> (err_t \<times> ('d, 'z) stack_scheme) res option" where
  "update_entry L lo n ethaddr i s =
     xbind (get_entry i s) (\<lambda>e.
     let s = set_entry i (e\<lparr>ae_state := ETHARP_STATE_STABLE, ae_netif := Some n, ae_ethaddr := ethaddr, ae_ctime := 0, ae_q := None\<rparr>) s
     in case ae_q e of
          None \<Rightarrow> Some (Inr (ERR_OK, s))
        | Some p \<Rightarrow>
            xbind (etharp_send_ip lo n p (ni_hwaddr (sk_netif s n)) ethaddr s) (\<lambda>(_, s).
            xbind (free_pbuf L p s) (\<lambda>s. Some (Inr (ERR_OK, s)))))"

definition etharp_update_arp_entry ::
  "memlib \<Rightarrow> 'd linkout \<Rightarrow> nat \<Rightarrow> u32 \<Rightarrow> u8 list \<Rightarrow> u8 \<Rightarrow> ('d, 'z) stack_scheme \<Rightarrow> (err_t \<times> ('d, 'z) stack_scheme) res option" where
  "etharp_update_arp_entry L lo n ipaddr ethaddr flags s =
     (let x = sk_netif s n in
      if ni_hwaddr_len x \<noteq> ETHARP_HWADDR_LEN then None
      else if ipaddr = IPADDR_ANY \<or> ip_addr_isbroadcast ipaddr x \<or> ip_addr_ismulticast ipaddr then Some (Inr (ERR_ARG, s))
      else xbind (etharp_find_entry L (Some ipaddr) flags s) (\<lambda>(r, s).
           case r of None \<Rightarrow> Some (Inr (ERR_MEM, s)) | Some i \<Rightarrow> update_entry L lo n ethaddr i s))"

definition cleanup_entry :: "memlib \<Rightarrow> nat \<Rightarrow> nat \<Rightarrow> ('d, 'z) stack_scheme \<Rightarrow> ('d, 'z) stack_scheme res option" where
  "cleanup_entry L n i s =
     xbind (get_entry i s) (\<lambda>e.
     if ae_state e \<noteq> ETHARP_STATE_EMPTY \<and> ae_netif e = Some n then etharp_free_entry L i s else Some (Inr s))"

definition etharp_cleanup_netif :: "memlib \<Rightarrow> nat \<Rightarrow> ('d, 'z) stack_scheme \<Rightarrow> ('d, 'z) stack_scheme res option" where
  "etharp_cleanup_netif L n s = for_entries (cleanup_entry L n) [0..<ARP_TABLE_SIZE] s"

text \<open>\<open>Some (i, eth, ip)\<close> is the index with the addresses of the entry, \<open>None\<close> the return value -1.\<close>

definition etharp_find_addr :: "memlib \<Rightarrow> u32 \<Rightarrow> ('d, 'z) stack_scheme \<Rightarrow> ((nat \<times> u8 list \<times> u32) option \<times> ('d, 'z) stack_scheme) res option" where
  "etharp_find_addr L ipaddr s =
     xbind (etharp_find_entry L (Some ipaddr) ETHARP_FLAG_FIND_ONLY s) (\<lambda>(r, s).
     case r of
       None \<Rightarrow> Some (Inr (None, s))
     | Some i \<Rightarrow>
         xbind (get_entry i s) (\<lambda>e.
         Some (Inr (if stable (ae_state e) then Some (i, ae_ethaddr e, ae_ipaddr e) else None, s))))"

definition etharp_raw ::
  "memlib \<Rightarrow> 'd linkout \<Rightarrow> nat \<Rightarrow> u8 list \<Rightarrow> u8 list \<Rightarrow> u8 list \<Rightarrow> u32 \<Rightarrow> u8 list \<Rightarrow> u32 \<Rightarrow> u16 \<Rightarrow>
   ('d, 'z) stack_scheme \<Rightarrow> (err_t \<times> ('d, 'z) stack_scheme) res option" where
  "etharp_raw L lo n ethsrc_addr ethdst_addr hwsrc_addr ipsrc_addr hwdst_addr ipdst_addr opcode s =
     xbind (pbuf_alloc L PBUF_RAW (of_nat SIZEOF_ETHARP_PACKET) PBUF_RAM (sk_heap s)) (\<lambda>(r, h).
     let s = s\<lparr>sk_heap := h\<rparr>
     in case r of
          None \<Rightarrow> Some (Inr (ERR_MEM, s))
        | Some p \<Rightarrow>
            (case fmlookup h p of
               None \<Rightarrow> Some (Inl OutOfBounds)
             | Some pb \<Rightarrow>
                 if \<not> unat (pb_len pb) \<ge> SIZEOF_ETHARP_PACKET then None
                 else xbind (put_bytes p 20 (bytes16 (lwip_htons opcode)) s) (\<lambda>s.
                 if ni_hwaddr_len (sk_netif s n) \<noteq> ETHARP_HWADDR_LEN then None
                 else xbind (put_bytes p 22 hwsrc_addr s) (\<lambda>s.
                      xbind (put_bytes p 32 hwdst_addr s) (\<lambda>s.
                      xbind (put_bytes p 0 ethdst_addr s) (\<lambda>s.
                      xbind (put_bytes p 6 ethsrc_addr s) (\<lambda>s.
                      xbind (put_bytes p 28 (bytes32 ipsrc_addr) s) (\<lambda>s.
                      xbind (put_bytes p 38 (bytes32 ipdst_addr) s) (\<lambda>s.
                      xbind (put_bytes p 14 (bytes16 (lwip_htons HWTYPE_ETHERNET)) s) (\<lambda>s.
                      xbind (put_bytes p 16 (bytes16 (lwip_htons ETHTYPE_IP)) s) (\<lambda>s.
                      xbind (put_bytes p 18 [ETHARP_HWADDR_LEN] s) (\<lambda>s.
                      xbind (put_bytes p 19 [4] s) (\<lambda>s.
                      xbind (put_bytes p 12 (bytes16 (lwip_htons ETHTYPE_ARP)) s) (\<lambda>s.
                      xbind (linkoutput lo n p s) (\<lambda>(result, s).
                      xbind (free_pbuf L p s) (\<lambda>s. Some (Inr (result, s))))))))))))))))))"

definition etharp_request :: "memlib \<Rightarrow> 'd linkout \<Rightarrow> nat \<Rightarrow> u32 \<Rightarrow> ('d, 'z) stack_scheme \<Rightarrow> (err_t \<times> ('d, 'z) stack_scheme) res option" where
  "etharp_request L lo n ipaddr s =
     (let x = sk_netif s n
      in etharp_raw L lo n (ni_hwaddr x) ethbroadcast (ni_hwaddr x) (ni_ip_addr x) ethzero ipaddr ARP_REQUEST s)"

text \<open>\<open>etharp_gratuitous\<close> is a macro of \<^verbatim>\<open>src/lwip/inc/netif/etharp.h\<close>.\<close>

definition etharp_gratuitous :: "memlib \<Rightarrow> 'd linkout \<Rightarrow> nat \<Rightarrow> ('d, 'z) stack_scheme \<Rightarrow> (err_t \<times> ('d, 'z) stack_scheme) res option" where
  "etharp_gratuitous L lo n s = etharp_request L lo n (ni_ip_addr (sk_netif s n)) s"

definition etharp_output_to_arp_index ::
  "memlib \<Rightarrow> 'd linkout \<Rightarrow> nat \<Rightarrow> nat \<Rightarrow> nat \<Rightarrow> ('d, 'z) stack_scheme \<Rightarrow> (err_t \<times> ('d, 'z) stack_scheme) res option" where
  "etharp_output_to_arp_index L lo n q arp_idx s =
     xbind (get_entry arp_idx s) (\<lambda>e.
     if \<not> stable (ae_state e) then None
     else xbind (if ae_state e = ETHARP_STATE_STABLE \<and> ae_ctime e \<ge> ARP_AGE_REREQUEST_USED
                 then xbind (etharp_request L lo n (ae_ipaddr e) s) (\<lambda>(err, s).
                      if err = ERR_OK
                      then xbind (get_entry arp_idx s) (\<lambda>e.
                           Some (Inr (set_entry arp_idx (e\<lparr>ae_state := ETHARP_STATE_STABLE_REREQUESTING\<rparr>) s)))
                      else Some (Inr s))
                 else Some (Inr s)) (\<lambda>s.
          etharp_send_ip lo n q (ni_hwaddr (sk_netif s n)) (ae_ethaddr e) s))"

text \<open>The loop of \<open>etharp_query\<close> that looks for a pbuf whose data may change: the first one that is not \<open>PBUF_ROM\<close>.\<close>

partial_function (option) query_copy_needed :: "nat option \<Rightarrow> heap \<Rightarrow> nat option res option" where
  "query_copy_needed p h =
     (case p of
        None \<Rightarrow> Some (Inr None)
      | Some a \<Rightarrow>
          (case fmlookup h a of
             None \<Rightarrow> Some (Inl OutOfBounds)
           | Some pb \<Rightarrow>
               if \<not> (pb_len pb \<noteq> pb_tot_len pb \<or> pb_next pb = None) then None
               else if pb_type pb \<noteq> PBUF_ROM then Some (Inr (Some a))
               else query_copy_needed (pb_next pb) h))"

text \<open>The packet that is queued for \<open>q\<close>: a copy, or \<open>q\<close> itself with one more reference.\<close>

definition query_take :: "memlib \<Rightarrow> nat \<Rightarrow> heap \<Rightarrow> (nat option \<times> heap) res option" where
  "query_take L q h =
     xbind (query_copy_needed (Some q) h) (\<lambda>r.
     case r of
       None \<Rightarrow> xbind (Some (pbuf_ref (Some q) h)) (\<lambda>h. Some (Inr (Some q, h)))
     | Some a \<Rightarrow>
         (case fmlookup h a of
            None \<Rightarrow> Some (Inl OutOfBounds)
          | Some pb \<Rightarrow>
              xbind (pbuf_alloc L PBUF_RAW (pb_tot_len pb) PBUF_RAM h) (\<lambda>(p, h).
              case p of
                None \<Rightarrow> Some (Inr (None, h))
              | Some p \<Rightarrow>
                  xbind (pbuf_copy (Some p) (Some q) h) (\<lambda>(err, h).
                  if err \<noteq> ERR_OK then xbind (pbuf_free L (Some p) h) (\<lambda>(_, h). Some (Inr (None, h)))
                  else Some (Inr (Some p, h))))))"

text \<open>The packet \<open>q\<close> is queued at the pending entry \<open>i\<close>, in place of one that waits there already.\<close>

definition query_queue ::
  "memlib \<Rightarrow> nat \<Rightarrow> nat \<Rightarrow> ('d, 'z) stack_scheme \<Rightarrow> (err_t \<times> ('d, 'z) stack_scheme) res option" where
  "query_queue L q i s =
     xbind (query_take L q (sk_heap s)) (\<lambda>(p, h).
     let s = s\<lparr>sk_heap := h\<rparr>
     in case p of
          None \<Rightarrow> Some (Inr (ERR_MEM, s))
        | Some p \<Rightarrow>
            xbind (get_entry i s) (\<lambda>e.
            xbind (case ae_q e of None \<Rightarrow> Some (Inr s) | Some old \<Rightarrow> free_pbuf L old s) (\<lambda>s.
            Some (Inr (ERR_OK, set_entry i (e\<lparr>ae_q := Some p\<rparr>) s)))))"

definition query_entry ::
  "memlib \<Rightarrow> 'd linkout \<Rightarrow> nat \<Rightarrow> u32 \<Rightarrow> nat option \<Rightarrow> nat \<Rightarrow> ('d, 'z) stack_scheme \<Rightarrow> (err_t \<times> ('d, 'z) stack_scheme) res option" where
  "query_entry L lo n ipaddr q i s =
     xbind (get_entry i s) (\<lambda>e.
     let e = (if ae_state e = ETHARP_STATE_EMPTY then e\<lparr>ae_state := ETHARP_STATE_PENDING\<rparr> else e);
         s = set_entry i e s
     in xbind (if ae_state e = ETHARP_STATE_PENDING \<or> q = None then etharp_request L lo n ipaddr s else Some (Inr (ERR_MEM, s))) (\<lambda>(result, s).
        case q of
          None \<Rightarrow> Some (Inr (result, s))
        | Some q \<Rightarrow>
            xbind (get_entry i s) (\<lambda>e.
            if stable (ae_state e)
            then etharp_send_ip lo n q (ni_hwaddr (sk_netif s n)) (ae_ethaddr e) (s\<lparr>etharp_cached_entry := of_nat i\<rparr>)
            else if ae_state e = ETHARP_STATE_PENDING then query_queue L q i s
            else Some (Inr (result, s)))))"

definition etharp_query ::
  "memlib \<Rightarrow> 'd linkout \<Rightarrow> nat \<Rightarrow> u32 \<Rightarrow> nat option \<Rightarrow> ('d, 'z) stack_scheme \<Rightarrow> (err_t \<times> ('d, 'z) stack_scheme) res option" where
  "etharp_query L lo n ipaddr q s =
     (let x = sk_netif s n in
      if ip_addr_isbroadcast ipaddr x \<or> ip_addr_ismulticast ipaddr \<or> ipaddr = IPADDR_ANY then Some (Inr (ERR_ARG, s))
      else xbind (etharp_find_entry L (Some ipaddr) ETHARP_FLAG_TRY_HARD s) (\<lambda>(r, s).
           case r of None \<Rightarrow> Some (Inr (ERR_MEM, s)) | Some i \<Rightarrow> query_entry L lo n ipaddr q i s))"

text \<open>The search for a stable entry in \<open>etharp_output\<close>.\<close>

fun stable_index :: "u32 \<Rightarrow> nat \<Rightarrow> etharp_entry list \<Rightarrow> nat option" where
  "stable_index a i [] = None"
| "stable_index a i (e # es) = (if stable (ae_state e) \<and> a = ae_ipaddr e then Some i else stable_index a (i + 1) es)"

definition multicast_addr :: "u32 \<Rightarrow> u8 list" where
  "multicast_addr ipaddr = [0x01, 0x00, 0x5e, ucast (drop_bit 8 ipaddr) AND 0x7f, ucast (drop_bit 16 ipaddr), ucast (drop_bit 24 ipaddr)]"

text \<open>The last part of \<open>etharp_output\<close>: the packet goes to the host \<open>dst_addr\<close> of the local network.\<close>

definition output_unicast ::
  "memlib \<Rightarrow> 'd linkout \<Rightarrow> nat \<Rightarrow> nat \<Rightarrow> u32 \<Rightarrow> ('d, 'z) stack_scheme \<Rightarrow> (err_t \<times> ('d, 'z) stack_scheme) res option" where
  "output_unicast L lo n q dst_addr s =
     xbind (get_entry (unat (etharp_cached_entry s)) s) (\<lambda>e.
     if stable (ae_state e) \<and> dst_addr = ae_ipaddr e
     then etharp_output_to_arp_index L lo n q (unat (etharp_cached_entry s)) s
     else (case stable_index dst_addr 0 (arp_table s) of
             Some i \<Rightarrow> etharp_output_to_arp_index L lo n q i (s\<lparr>etharp_cached_entry := of_nat i\<rparr>)
           | None \<Rightarrow> etharp_query L lo n dst_addr (Some q) s))"

definition etharp_output ::
  "memlib \<Rightarrow> 'd linkout \<Rightarrow> nat \<Rightarrow> nat \<Rightarrow> u32 \<Rightarrow> ('d, 'z) stack_scheme \<Rightarrow> (err_t \<times> ('d, 'z) stack_scheme) res option" where
  "etharp_output L lo n q ipaddr s =
     xbind (pbuf_header q (int SIZEOF_ETH_HDR) (sk_heap s)) (\<lambda>(fail, h).
     let s = s\<lparr>sk_heap := h\<rparr>; x = sk_netif s n
     in if fail then Some (Inr (ERR_BUF, s))
        else if ip_addr_isbroadcast ipaddr x then etharp_send_ip lo n q (ni_hwaddr x) ethbroadcast s
        else if ip_addr_ismulticast ipaddr then etharp_send_ip lo n q (ni_hwaddr x) (multicast_addr ipaddr) s
        else
          let outside = \<not> ip_addr_netcmp ipaddr (ni_ip_addr x) (ni_netmask x) \<and> \<not> ip_addr_islinklocal ipaddr
          in if outside \<and> ni_gw x = IPADDR_ANY then Some (Inr (ERR_RTE, s))
             else output_unicast L lo n q (if outside then ni_gw x else ipaddr) s)"

section \<open>Input\<close>

text \<open>The fields of an ARP packet, as the little-endian processor reads them.\<close>

definition get_u16 :: "nat \<Rightarrow> nat \<Rightarrow> ('d, 'z) stack_scheme \<Rightarrow> u16 res option" where
  "get_u16 p off s = xbind (get_bytes p off 2 s) (\<lambda>bs. Some (Inr (mk16 (bs ! 0) (bs ! 1))))"

definition get_u32 :: "nat \<Rightarrow> nat \<Rightarrow> ('d, 'z) stack_scheme \<Rightarrow> u32 res option" where
  "get_u32 p off s = xbind (get_bytes p off 4 s) (\<lambda>bs. Some (Inr (mk32 (bs ! 0) (bs ! 1) (bs ! 2) (bs ! 3))))"

definition get_u8 :: "nat \<Rightarrow> nat \<Rightarrow> ('d, 'z) stack_scheme \<Rightarrow> u8 res option" where
  "get_u8 p off s = xbind (get_bytes p off 1 s) (\<lambda>bs. Some (Inr (bs ! 0)))"

text \<open>The reply to a request for our address, made in the received packet.\<close>

definition arp_reply ::
  "'d linkout \<Rightarrow> nat \<Rightarrow> u8 list \<Rightarrow> nat \<Rightarrow> ('d, 'z) stack_scheme \<Rightarrow> ('d, 'z) stack_scheme res option" where
  "arp_reply lo n ethaddr p s =
     xbind (put_bytes p 20 (bytes16 (lwip_htons ARP_REPLY)) s) (\<lambda>s.
     xbind (get_bytes p 28 4 s) (\<lambda>sip.
     xbind (put_bytes p 38 sip s) (\<lambda>s.
     xbind (put_bytes p 28 (bytes32 (ni_ip_addr (sk_netif s n))) s) (\<lambda>s.
     if ni_hwaddr_len (sk_netif s n) \<noteq> ETHARP_HWADDR_LEN then None
     else xbind (get_bytes p 22 6 s) (\<lambda>shw.
          xbind (put_bytes p 32 shw s) (\<lambda>s.
          xbind (put_bytes p 0 shw s) (\<lambda>s.
          xbind (put_bytes p 22 ethaddr s) (\<lambda>s.
          xbind (put_bytes p 6 ethaddr s) (\<lambda>s.
          xbind (linkoutput lo n p s) (\<lambda>(_, s). Some (Inr s)))))))))))"

text \<open>An ARP packet whose header has been checked.\<close>

definition arp_message ::
  "memlib \<Rightarrow> 'd linkout \<Rightarrow> nat \<Rightarrow> u8 list \<Rightarrow> nat \<Rightarrow> ('d, 'z) stack_scheme \<Rightarrow> ('d, 'z) stack_scheme res option" where
  "arp_message L lo n ethaddr p s =
     xbind (get_u32 p 28 s) (\<lambda>sipaddr.
     xbind (get_u32 p 38 s) (\<lambda>dipaddr.
     let own = ni_ip_addr (sk_netif s n);
         for_us = own \<noteq> IPADDR_ANY \<and> dipaddr = own
     in xbind (get_bytes p 22 6 s) (\<lambda>shwaddr.
        xbind (etharp_update_arp_entry L lo n sipaddr shwaddr (if for_us then ETHARP_FLAG_TRY_HARD else ETHARP_FLAG_FIND_ONLY) s) (\<lambda>(_, s).
        xbind (get_u16 p 20 s) (\<lambda>opcode.
        xbind (if opcode = lwip_htons ARP_REQUEST \<and> for_us then arp_reply lo n ethaddr p s else Some (Inr s)) (\<lambda>s.
        free_pbuf L p s))))))"

definition etharp_arp_input ::
  "memlib \<Rightarrow> 'd linkout \<Rightarrow> nat \<Rightarrow> u8 list \<Rightarrow> nat \<Rightarrow> ('d, 'z) stack_scheme \<Rightarrow> ('d, 'z) stack_scheme res option" where
  "etharp_arp_input L lo n ethaddr p s =
     (case fmlookup (sk_heap s) p of
        None \<Rightarrow> Some (Inl OutOfBounds)
      | Some pb \<Rightarrow>
          if unat (pb_len pb) < SIZEOF_ETHARP_PACKET then free_pbuf L p s
          else
            xbind (get_u16 p 14 s) (\<lambda>hwtype.
            xbind (get_u8 p 18 s) (\<lambda>hwlen.
            xbind (get_u8 p 19 s) (\<lambda>protolen.
            xbind (get_u16 p 16 s) (\<lambda>proto.
            if hwtype \<noteq> lwip_htons HWTYPE_ETHERNET \<or> hwlen \<noteq> ETHARP_HWADDR_LEN \<or> protolen \<noteq> 4 \<or> proto \<noteq> lwip_htons ETHTYPE_IP
            then free_pbuf L p s
            else arp_message L lo n ethaddr p s)))))"

text \<open>The flags of the pbuf for frames to a group or to all.\<close>

definition eth_flags :: "u8 list \<Rightarrow> u8 \<Rightarrow> u8" where
  "eth_flags dest flags =
     (if dest ! 0 AND 1 \<noteq> 0
      then if dest ! 0 = 0x01 then if dest ! 1 = 0x00 \<and> dest ! 2 = 0x5e then flags OR PBUF_FLAG_LLMCAST else flags
           else if dest = ethbroadcast then flags OR PBUF_FLAG_LLBCAST else flags
      else flags)"

text \<open>\<open>ip_in\<close> is \<open>ip_input\<close>; a failure to hide the header does not return.\<close>

definition ethernet_input ::
  "memlib \<Rightarrow> 'd linkout \<Rightarrow> (nat \<Rightarrow> nat \<Rightarrow> ('d, 'z) stack_scheme \<Rightarrow> (err_t \<times> ('d, 'z) stack_scheme) res option) \<Rightarrow> nat \<Rightarrow> nat \<Rightarrow>
   ('d, 'z) stack_scheme \<Rightarrow> (err_t \<times> ('d, 'z) stack_scheme) res option" where
  "ethernet_input L lo ip_in p n s =
     (let free_and_return = xbind (free_pbuf L p s) (\<lambda>s. Some (Inr (ERR_OK, s)))
      in case fmlookup (sk_heap s) p of
           None \<Rightarrow> Some (Inl OutOfBounds)
         | Some pb \<Rightarrow>
             if unat (pb_len pb) \<le> SIZEOF_ETH_HDR then free_and_return
             else
               xbind (get_u16 p 12 s) (\<lambda>ty.
               xbind (get_bytes p 0 6 s) (\<lambda>dest.
               let s = s\<lparr>sk_heap := fmupd p (pb\<lparr>pb_flags := eth_flags dest (pb_flags pb)\<rparr>) (sk_heap s)\<rparr>;
                   free_and_return = xbind (free_pbuf L p s) (\<lambda>s. Some (Inr (ERR_OK, s)));
                   x = sk_netif s n
               in if ty = lwip_htons ETHTYPE_IP
                  then if ni_flags x AND NETIF_FLAG_ETHARP = 0 then free_and_return
                       else xbind (pbuf_header p (- int SIZEOF_ETH_HDR) (sk_heap s)) (\<lambda>(fail, h).
                            if fail then None
                            else xbind (ip_in p n (s\<lparr>sk_heap := h\<rparr>)) (\<lambda>(_, s). Some (Inr (ERR_OK, s))))
                  else if ty = lwip_htons ETHTYPE_ARP
                  then if ni_flags x AND NETIF_FLAG_ETHARP = 0 then free_and_return
                       else xbind (etharp_arp_input L lo n (ni_hwaddr x) p s) (\<lambda>s. Some (Inr (ERR_OK, s)))
                  else free_and_return)))"

end
