(* ===== verification/EtharpInv.thy ===== *)
theory EtharpInv
  imports Etharp
begin

text \<open>
  The invariant of the ARP cache: every packet in it is owned by it alone, packets wait only on pending entries,
  and no address occurs twice. The driver below is an interface: it may keep references to the packets that it
  sends, and its own exclusive buffers are not touched by the stack.
\<close>

section \<open>Exclusive buffers\<close>

text \<open>The exclusive buffers of the owner \<open>F\<close> are the same in both heaps.\<close>

definition kept :: "nat multiset \<Rightarrow> heap \<Rightarrow> heap \<Rightarrow> bool" where
  "kept F h h' \<longleftrightarrow> (\<forall>q pb. q \<in># F \<longrightarrow> fmlookup h q = Some pb \<longrightarrow> pb_ref pb = 1 \<longrightarrow> fmlookup h' q = Some pb)"

lemma kept_refl [simp]: "kept F h h"
  by (simp add: kept_def)

lemma kept_trans: "kept F h h' \<Longrightarrow> kept F h' h'' \<Longrightarrow> kept F h h''"
  unfolding kept_def by metis

lemma kept_subset: "kept F h h' \<Longrightarrow> G \<subseteq># F \<Longrightarrow> kept G h h'"
  unfolding kept_def using mset_subset_eqD by metis

lemma kept_union [simp]: "kept (F + G) h h' \<longleftrightarrow> kept F h h' \<and> kept G h h'"
  by (auto simp: kept_def)

lemma keptD: "kept F h h' \<Longrightarrow> q \<in># F \<Longrightarrow> fmlookup h q = Some pb \<Longrightarrow> pb_ref pb = 1 \<Longrightarrow> fmlookup h' q = Some pb"
  by (auto simp: kept_def)

lemma exclusive_not_owned:
  assumes "heap_ok h (add_mset p T)" "q \<in># T" "fmlookup h q = Some pb" "pb_ref pb = 1"
  shows "q \<noteq> p"
proof
  assume "q = p"
  have "refs h q = count (ptrs h) q + count (add_mset p T) q" using assms(1) rc_okD(1) by (auto simp: heap_ok_def)
  moreover have "refs h q = 1" using assms(3,4) by (simp add: refs_def)
  moreover have "0 < count T q" using assms(2) by simp
  ultimately show False using \<open>q = p\<close> by simp
qed

lemma kept_upd: "heap_ok h (add_mset p T) \<Longrightarrow> kept T h (fmupd p pb' h)"
  unfolding kept_def using exclusive_not_owned by fastforce

lemma kept_free:
  assumes "heap_ok h (add_mset p T)" "heap_ok h' T" "same_but_refs h' h"
  shows "kept T h h'"
  unfolding kept_def by (intro allI impI, rule exclusive_kept [OF assms(1,2,3)]) auto

lemma kept_new: "fmlookup h a = None \<Longrightarrow> kept T h (fmupd a pb h)"
  by (auto simp: kept_def)

text \<open>The packets of the owner \<open>F\<close> are the same, up to the numbers of references.\<close>

definition pkept :: "nat multiset \<Rightarrow> heap \<Rightarrow> heap \<Rightarrow> bool" where
  "pkept F h h' \<longleftrightarrow> (\<forall>q ps a pb. q \<in># F \<longrightarrow> chain h (Some q) ps \<longrightarrow> a \<in> set ps \<longrightarrow> fmlookup h a = Some pb \<longrightarrow>
     (\<exists>r. fmlookup h' a = Some (pb\<lparr>pb_ref := r\<rparr>)))"

lemma pkept_refl [simp]: "pkept F h h"
  unfolding pkept_def by (metis pbuf.surjective pbuf.update_convs(8))

lemma chain_sim:
  "chain h p ps \<Longrightarrow> (\<And>a pb. a \<in> set ps \<Longrightarrow> fmlookup h a = Some pb \<Longrightarrow> \<exists>r. fmlookup h' a = Some (pb\<lparr>pb_ref := r\<rparr>)) \<Longrightarrow> chain h' p ps"
proof (induction ps arbitrary: p)
  case (Cons a ps)
  then obtain pb where pb: "p = Some a" "fmlookup h a = Some pb" "chain h (pb_next pb) ps" by auto
  obtain r where "fmlookup h' a = Some (pb\<lparr>pb_ref := r\<rparr>)" using Cons.prems(2) pb(2) by auto
  moreover have "chain h' (pb_next pb) ps" by (rule Cons.IH [OF pb(3)]) (use Cons.prems(2) in auto)
  ultimately show ?case using pb(1) by simp
qed simp

lemma pkept_chain: "pkept F h h' \<Longrightarrow> q \<in># F \<Longrightarrow> chain h (Some q) ps \<Longrightarrow> chain h' (Some q) ps"
  by (rule chain_sim) (auto simp: pkept_def)

lemma pkept_trans:
  assumes "pkept F h h'" "pkept F h' h''"
  shows "pkept F h h''"
  unfolding pkept_def
proof (intro allI impI)
  fix q ps a pb assume q: "q \<in># F" "chain h (Some q) ps" "a \<in> set ps" "fmlookup h a = Some pb"
  then obtain r where r: "fmlookup h' a = Some (pb\<lparr>pb_ref := r\<rparr>)" using assms(1) unfolding pkept_def by blast
  have "chain h' (Some q) ps" by (rule pkept_chain [OF assms(1) q(1,2)])
  then obtain r' where "fmlookup h'' a = Some (pb\<lparr>pb_ref := r, pb_ref := r'\<rparr>)" using assms(2) q(1,3) r unfolding pkept_def by blast
  then show "\<exists>r. fmlookup h'' a = Some (pb\<lparr>pb_ref := r\<rparr>)" by auto
qed

lemma pkept_union [simp]: "pkept (F + G) h h' \<longleftrightarrow> pkept F h h' \<and> pkept G h h'"
  unfolding pkept_def by auto

lemma chain_avoids:
  assumes "heap_ok h (add_mset p T)" "fmlookup h p = Some pb" "pb_ref pb = 1"
  shows "chain h q ps \<Longrightarrow> q \<noteq> Some p \<Longrightarrow> p \<notin> set ps"
proof (induction ps arbitrary: q)
  case (Cons a ps)
  then obtain ab where ab: "q = Some a" "fmlookup h a = Some ab" "chain h (pb_next ab) ps" by auto
  have "refs h p = count (ptrs h) p + count (add_mset p T) p" using assms(1) rc_okD(1) by (auto simp: heap_ok_def)
  then have "count (ptrs h) p = 0" using assms(2,3) by (simp add: refs_def)
  moreover have "p \<in># ptrs h" if "pb_next ab = Some p"
    using ptrs_drop [OF ab(2)] that by (simp add: next_ptrs_owner)
  ultimately have "pb_next ab \<noteq> Some p" by (metis count_eq_zero_iff)
  then show ?case using Cons.IH [OF ab(3)] Cons.prems(2) ab(1) by simp
qed simp

lemma pkept_upd:
  assumes "heap_ok h (add_mset p T)" "fmlookup h p = Some pb" "pb_ref pb = 1"
  shows "pkept T h (fmupd p pb' h)"
  unfolding pkept_def
proof (intro allI impI)
  fix q ps a ab assume q: "q \<in># T" "chain h (Some q) ps" "a \<in> set ps" "fmlookup h a = Some ab"
  have "q \<noteq> p" using exclusive_not_owned [OF assms(1) q(1)] assms(2,3) by auto
  then have "p \<notin> set ps" using chain_avoids [OF assms q(2)] by simp
  then have "fmlookup (fmupd p pb' h) a = Some ab" using q(3,4) by auto
  then show "\<exists>r. fmlookup (fmupd p pb' h) a = Some (ab\<lparr>pb_ref := r\<rparr>)" by (metis pbuf.surjective pbuf.update_convs(8))
qed

lemma pkept_new: "fmlookup h a = None \<Longrightarrow> pkept T h (fmupd a pb h)"
  unfolding pkept_def using chain_fresh by (metis fmupd_lookup pbuf.surjective pbuf.update_convs(8) option.distinct(1))

lemma pkept_same:
  assumes "heap_ok h' R" "same_but_refs h' h" "\<And>q. q \<in># T \<Longrightarrow> q \<in># R"
  shows "pkept T h h'"
  unfolding pkept_def
proof (intro allI impI)
  fix q ps a pb assume q: "q \<in># T" "chain h (Some q) ps" "a \<in> set ps" "fmlookup h a = Some pb"
  have "q \<in> fmdom' h'" using rc_ok_owner_dom [of h' R q] assms(1,3) q(1) by (auto simp: heap_ok_def)
  then have "set ps \<subseteq> fmdom' h'" using rc_ok_chain_dom [OF assms(2) _ q(2)] assms(1) by (auto simp: heap_ok_def)
  then have "a \<in> fmdom' h'" using q(3) by blast
  then obtain pb' where pb': "fmlookup h' a = Some pb'" by (auto simp: fmlookup_dom'_iff)
  obtain r where "pb' = pb\<lparr>pb_ref := r\<rparr>" by (rule same_but_refsE [OF assms(2) pb' q(4)])
  then show "\<exists>r. fmlookup h' a = Some (pb\<lparr>pb_ref := r\<rparr>)" using pb' by blast
qed

lemma pkept_packet:
  assumes "pkept F h h'" "q \<in># F" "packet h (Some q) ps bs"
  shows "packet h' (Some q) ps bs"
proof -
  have "packet h p ps bs \<Longrightarrow> (\<And>a pb. a \<in> set ps \<Longrightarrow> fmlookup h a = Some pb \<Longrightarrow> \<exists>r. fmlookup h' a = Some (pb\<lparr>pb_ref := r\<rparr>)) \<Longrightarrow> packet h' p ps bs" for p
  proof (induction ps arbitrary: p bs)
    case (Cons a ps)
    then obtain pb cs where pb: "p = Some a" "fmlookup h a = Some pb" "pb_wf pb" "unat (pb_tot_len pb) = length bs" "bs = pb_data pb @ cs" "packet h (pb_next pb) ps cs" by auto
    obtain r where "fmlookup h' a = Some (pb\<lparr>pb_ref := r\<rparr>)" using Cons.prems(2) pb(2) by auto
    moreover have "packet h' (pb_next pb) ps cs" by (rule Cons.IH [OF pb(6)]) (use Cons.prems(2) in auto)
    ultimately show ?case using pb by (simp add: pb_wf_def pb_data_def)
  qed simp
  from this [OF assms(3)] show ?thesis using assms packet_chain [OF assms(3)] by (auto simp: pkept_def)
qed

lemma pkept_full_tail:
  assumes "pkept F h h'" "q \<in># F" "chain h (Some q) ps" "full_tail h ps"
  shows "full_tail h' ps"
  unfolding full_tail_def
proof (intro ballI allI impI)
  fix a pb' assume a: "a \<in> set (tl ps)" "fmlookup h' a = Some pb'"
  then have in_ps: "a \<in> set ps" by (cases ps) auto
  then obtain pb where pb: "fmlookup h a = Some pb" using chain_dom [OF assms(3)] by (auto simp: fmlookup_dom'_iff)
  then obtain r where "fmlookup h' a = Some (pb\<lparr>pb_ref := r\<rparr>)" using assms(1-3) in_ps unfolding pkept_def by blast
  then show "pb_len pb' \<noteq> 0" using assms(4) a pb by (auto simp: full_tail_def)
qed

text \<open>A packet that waits for an address: a single buffer of the cache alone, with room for the Ethernet header.\<close>

definition queued_ok :: "heap \<Rightarrow> nat \<Rightarrow> bool" where
  "queued_ok h p \<longleftrightarrow> (\<exists>pb. fmlookup h p = Some pb \<and> pb_ref pb = 1 \<and> pb_next pb = None \<and> pb_wf pb \<and> pb_tot_len pb = pb_len pb \<and> 14 \<le> unat (pb_len pb))"

definition qrefs :: "etharp_entry list \<Rightarrow> nat multiset" where
  "qrefs es = owned (map ae_q es)"

definition entry_ok :: "heap \<Rightarrow> etharp_entry \<Rightarrow> bool" where
  "entry_ok h e \<longleftrightarrow> (ae_state e \<noteq> ETHARP_STATE_PENDING \<longrightarrow> ae_q e = None) \<and> length (ae_ethaddr e) = 6 \<and> (\<forall>p. ae_q e = Some p \<longrightarrow> queued_ok h p) \<and>
     (ae_state e \<noteq> ETHARP_STATE_EMPTY \<longrightarrow> ae_ctime e < ARP_MAXAGE) \<and> (ae_state e = ETHARP_STATE_PENDING \<longrightarrow> ae_ctime e < ARP_MAXPENDING)"

text \<open>The addresses of the entries in use.\<close>

definition used_ips :: "etharp_entry list \<Rightarrow> u32 list" where
  "used_ips es = map ae_ipaddr (filter (\<lambda>e. ae_state e \<noteq> ETHARP_STATE_EMPTY) es)"

definition tbl_ok :: "heap \<Rightarrow> etharp_entry list \<Rightarrow> bool" where
  "tbl_ok h es \<longleftrightarrow> length es = ARP_TABLE_SIZE \<and> distinct (used_ips es) \<and> (\<forall>e\<in>set es. entry_ok h e)"

lemma owned_update: "i < length xs \<Longrightarrow> owned (xs[i := y]) + owner (xs ! i) = owned xs + owner y"
proof (induction xs arbitrary: i)
  case (Cons x xs)
  show ?case
  proof (cases i)
    case (Suc j)
    then show ?thesis using Cons.IH [of j] Cons.prems by (simp add: add.assoc)
  qed (simp add: ac_simps)
qed simp

lemma qrefs_update: "i < length es \<Longrightarrow> qrefs (es[i := e]) + owner (ae_q (es ! i)) = qrefs es + owner (ae_q e)"
  using owned_update [of i "map ae_q es" "ae_q e"] by (simp add: qrefs_def map_update)

lemma qrefs_update_same: "i < length es \<Longrightarrow> ae_q e = ae_q (es ! i) \<Longrightarrow> qrefs (es[i := e]) = qrefs es"
  using qrefs_update [of i es e] by simp

lemma qrefs_member: "i < length es \<Longrightarrow> ae_q (es ! i) = Some p \<Longrightarrow> p \<in># qrefs es"
  unfolding qrefs_def by (rule Some_owned) (metis in_set_conv_nth length_map nth_map)

lemma entry_ok_kept: "entry_ok h e \<Longrightarrow> kept (owner (ae_q e)) h h' \<Longrightarrow> entry_ok h' e"
  by (auto simp: entry_ok_def queued_ok_def kept_def)

lemma tbl_ok_kept:
  assumes "tbl_ok h es" "kept (qrefs es) h h'"
  shows "tbl_ok h' es"
proof -
  have "entry_ok h' e" if e: "e \<in> set es" for e
  proof (rule entry_ok_kept)
    show "entry_ok h e" using assms(1) e by (simp add: tbl_ok_def)
    obtain i where i: "i < length es" "e = es ! i" using e unfolding in_set_conv_nth by blast
    then have "q \<in># qrefs es" if "q \<in># owner (ae_q e)" for q
      using that qrefs_member [of i es q] by (cases "ae_q e") auto
    then show "kept (owner (ae_q e)) h h'" using assms(2) by (auto simp: kept_def)
  qed
  then show ?thesis using assms(1) by (simp add: tbl_ok_def)
qed

lemma used_ips_nth: "i < length es \<Longrightarrow> ae_state (es ! i) \<noteq> ETHARP_STATE_EMPTY \<Longrightarrow> ae_ipaddr (es ! i) \<in> set (used_ips es)"
  by (auto simp: used_ips_def)

lemma used_ips_update:
  assumes "i < length es" "distinct (used_ips es)"
    and "ae_state e \<noteq> ETHARP_STATE_EMPTY \<Longrightarrow>
           (ae_state (es ! i) \<noteq> ETHARP_STATE_EMPTY \<and> ae_ipaddr e = ae_ipaddr (es ! i)) \<or> ae_ipaddr e \<notin> set (used_ips es)"
  shows "distinct (used_ips (es[i := e]))"
proof -
  let ?P = "\<lambda>e. ae_state e \<noteq> ETHARP_STATE_EMPTY"
  let ?a = "take i es" and ?b = "drop (Suc i) es"
  have es: "es = ?a @ es ! i # ?b" using assms(1) by (rule id_take_nth_drop)
  have es': "es[i := e] = ?a @ e # ?b" using assms(1) by (rule upd_conv_take_nth_drop)
  have u: "used_ips es = used_ips ?a @ used_ips [es ! i] @ used_ips ?b" by (subst es) (simp add: used_ips_def)
  have u': "used_ips (es[i := e]) = used_ips ?a @ used_ips [e] @ used_ips ?b" unfolding es' by (simp add: used_ips_def)
  have one: "used_ips [x] = (if ?P x then [ae_ipaddr x] else [])" for x by (simp add: used_ips_def)
  show ?thesis using assms(2,3) unfolding u u' one by (auto split: if_splits)
qed

section \<open>The invariant and the interface of the driver\<close>

text \<open>
  \<open>R\<close> are the references of the callers, \<open>drv\<close> those of the driver, and \<open>loc\<close> is what the driver relies on of its
  exclusive buffers.
\<close>

definition arp_ok :: "('d \<Rightarrow> nat multiset) \<Rightarrow> (heap \<Rightarrow> 'd \<Rightarrow> bool) \<Rightarrow> ('d, 'z) stack_scheme \<Rightarrow> nat multiset \<Rightarrow> bool" where
  "arp_ok drv loc s R \<longleftrightarrow>
     heap_ok (sk_heap s) (R + qrefs (arp_table s) + drv (sk_dev s)) \<and> loc (sk_heap s) (sk_dev s) \<and>
     tbl_ok (sk_heap s) (arp_table s) \<and> unat (etharp_cached_entry s) < ARP_TABLE_SIZE"

definition same_env :: "('d, 'z) stack_scheme \<Rightarrow> ('d, 'z) stack_scheme \<Rightarrow> bool" where
  "same_env s' s \<longleftrightarrow> sk_netif s' = sk_netif s \<and> netif_list s' = netif_list s \<and> netif_default s' = netif_default s \<and>
     netif_num s' = netif_num s \<and> stack.more s' = stack.more s"

lemma same_env_refl [simp]: "same_env s s"
  by (simp add: same_env_def)

lemma same_env_trans: "same_env s'' s' \<Longrightarrow> same_env s' s \<Longrightarrow> same_env s'' s"
  by (simp add: same_env_def)

lemma same_env_upd [simp]:
  "same_env (s\<lparr>sk_heap := h\<rparr>) s' = same_env s s'" "same_env (s\<lparr>sk_dev := d\<rparr>) s' = same_env s s'"
  "same_env (s\<lparr>arp_table := es\<rparr>) s' = same_env s s'" "same_env (s\<lparr>etharp_cached_entry := c\<rparr>) s' = same_env s s'"
  "same_env (set_entry i e s) s' = same_env s s'"
  by (simp_all add: same_env_def set_entry_def)

text \<open>What an operation leaves: the invariant for \<open>R\<close>, the interfaces and the exclusive buffers of \<open>F\<close>.\<close>

definition arp_post ::
  "('d \<Rightarrow> nat multiset) \<Rightarrow> (heap \<Rightarrow> 'd \<Rightarrow> bool) \<Rightarrow> nat multiset \<Rightarrow> nat multiset \<Rightarrow> ('d, 'z) stack_scheme \<Rightarrow> ('d, 'z) stack_scheme \<Rightarrow> bool" where
  "arp_post drv loc R F s s' \<longleftrightarrow> arp_ok drv loc s' R \<and> same_env s' s \<and> kept F (sk_heap s) (sk_heap s') \<and> pkept F (sk_heap s) (sk_heap s')"

lemma arp_post_refl: "arp_ok drv loc s R \<Longrightarrow> arp_post drv loc R F s s"
  by (simp add: arp_post_def)

lemma arp_post_trans: "arp_post drv loc R F s s' \<Longrightarrow> arp_post drv loc R' F s' s'' \<Longrightarrow> arp_post drv loc R' F s s''"
  unfolding arp_post_def by (meson kept_trans pkept_trans same_env_trans)

definition nif_ok :: "netif_t \<Rightarrow> bool" where
  "nif_ok x \<longleftrightarrow> ni_hwaddr_len x = ETHARP_HWADDR_LEN \<and> length (ni_hwaddr x) = 6"

text \<open>The state while the first pbuf of a packet of the caller, of length \<open>k\<close>, is being written or read.\<close>

definition holding ::
  "('d \<Rightarrow> nat multiset) \<Rightarrow> (heap \<Rightarrow> 'd \<Rightarrow> bool) \<Rightarrow> nat \<Rightarrow> nat list \<Rightarrow> u16 \<Rightarrow> u8 list \<Rightarrow> nat multiset \<Rightarrow>
   ('d, 'z) stack_scheme \<Rightarrow> ('d, 'z) stack_scheme \<Rightarrow> bool" where
  "holding drv loc p ps k bs R s0 s \<longleftrightarrow>
     arp_post drv loc (add_mset p R) R s0 s \<and> arp_table s = arp_table s0 \<and> sk_dev s = sk_dev s0 \<and>
     packet (sk_heap s) (Some p) (p # ps) bs \<and> length ps < 255 \<and>
     (\<exists>pb. fmlookup (sk_heap s) p = Some pb \<and> pb_len pb = k \<and> pb_ref pb = 1)"

locale netdrv =
  fixes t :: bool and lo :: "'d linkout" and drv :: "'d \<Rightarrow> nat multiset" and loc :: "heap \<Rightarrow> 'd \<Rightarrow> bool"
  assumes loc_law: "loc h d \<Longrightarrow> kept (drv d) h h' \<Longrightarrow> loc h' d"
    and lo_law: "heap_ok h (add_mset p R + drv d) \<Longrightarrow> loc h d \<Longrightarrow> packet h (Some p) ps bs \<Longrightarrow> length ps < 256 \<Longrightarrow> refs h p < 65535 \<Longrightarrow>
      wp t (\<lambda>(e, h', d'). heap_ok h' (add_mset p R + drv d') \<and> loc h' d' \<and> same_but_refs h' h \<and> (\<forall>q. q \<noteq> p \<longrightarrow> count (drv d') q \<le> count (drv d) q))
        (lo n p (h, d))"
begin

text \<open>A change of the heap that keeps the exclusive buffers of the cache and of the driver.\<close>

lemma arp_ok_heap:
  assumes "arp_ok drv loc s R" "heap_ok h (R' + qrefs (arp_table s) + drv (sk_dev s))" "kept (qrefs (arp_table s) + drv (sk_dev s)) (sk_heap s) h"
  shows "arp_ok drv loc (s\<lparr>sk_heap := h\<rparr>) R'"
  using assms loc_law [of "sk_heap s" "sk_dev s" h] tbl_ok_kept [of "sk_heap s" "arp_table s" h] by (simp add: arp_ok_def)

lemma free_pbuf_ok:
  assumes "arp_ok drv loc s (add_mset p R)"
  shows "wp t (\<lambda>s'. arp_post drv loc R R s s' \<and> arp_table s' = arp_table s) (free_pbuf L p s)"
proof -
  let ?T = "R + qrefs (arp_table s) + drv (sk_dev s)"
  have h: "heap_ok (sk_heap s) (add_mset p ?T)" using assms by (simp add: arp_ok_def)
  from heap_ok_free [OF h] obtain n h' where f: "pbuf_free L (Some p) (sk_heap s) = Some (Inr (n, h'))" "heap_ok h' ?T" "same_but_refs h' (sk_heap s)" .
  have k: "kept ?T (sk_heap s) h'" by (rule kept_free [OF h f(2,3)])
  then have "arp_ok drv loc (s\<lparr>sk_heap := h'\<rparr>) R" using arp_ok_heap [OF assms f(2)] by simp
  moreover have "pkept R (sk_heap s) h'" by (rule pkept_same [OF f(2,3)]) simp
  ultimately show ?thesis using f(1) k by (simp add: free_pbuf_def arp_post_def)
qed

text \<open>A change of a packet of the caller that keeps its links and references.\<close>

lemma upd_pbuf_ok:
  assumes "arp_ok drv loc s (add_mset p R)" "fmlookup (sk_heap s) p = Some pb" "pb_next pb' = pb_next pb" "pb_ref pb' = pb_ref pb"
    "pb_flags pb' AND PBUF_FLAG_IS_CUSTOM = 0" "pb_ref pb = 1"
  shows "arp_post drv loc (add_mset p R) R s (s\<lparr>sk_heap := fmupd p pb' (sk_heap s)\<rparr>)"
proof -
  let ?T = "R + qrefs (arp_table s) + drv (sk_dev s)"
  have h: "heap_ok (sk_heap s) (add_mset p ?T)" using assms(1) by (simp add: arp_ok_def)
  have k: "kept ?T (sk_heap s) (fmupd p pb' (sk_heap s))" by (rule kept_upd [OF h])
  have "heap_ok (fmupd p pb' (sk_heap s)) (add_mset p ?T)" by (rule heap_ok_upd_same [OF h assms(2-5)])
  then show ?thesis using arp_ok_heap [OF assms(1), of "fmupd p pb' (sk_heap s)" "add_mset p R"] k pkept_upd [OF h assms(2,6)]
    by (simp add: arp_post_def)
qed

lemma put_bytes_ok:
  assumes "holding drv loc p ps k bs R s0 s" "off + length xs \<le> unat k"
  shows "wp t (holding drv loc p ps k (blit bs off xs) R s0) (put_bytes p off xs s)"
proof -
  obtain pb where pb: "fmlookup (sk_heap s) p = Some pb" "pb_len pb = k" "pb_ref pb = 1" "arp_post drv loc (add_mset p R) R s0 s"
    "arp_table s = arp_table s0" "packet (sk_heap s) (Some p) (p # ps) bs" "length ps < 255" "sk_dev s = sk_dev s0" using assms(1) by (auto simp: holding_def)
  have ok: "arp_ok drv loc s (add_mset p R)" using pb(4) by (simp add: arp_post_def)
  have wf: "pb_wf pb" using pb(1,6) by auto
  have len: "off + length xs \<le> unat (pb_len pb)" using assms(2) pb(2) by simp
  define pb' where "pb' = pb\<lparr>pb_mem := blit (pb_mem pb) (pb_payload pb + off) xs\<rparr>"
  have fl: "pb_flags pb' AND PBUF_FLAG_IS_CUSTOM = 0"
    using rc_okD(3) [of "sk_heap s" _ p pb] ok pb(1) by (auto simp: arp_ok_def heap_ok_def pb'_def)
  have "arp_post drv loc (add_mset p R) R s (s\<lparr>sk_heap := fmupd p pb' (sk_heap s)\<rparr>)"
    by (rule upd_pbuf_ok [OF ok pb(1) _ _ fl pb(3)]) (simp_all add: pb'_def)
  then have "arp_post drv loc (add_mset p R) R s0 (s\<lparr>sk_heap := fmupd p pb' (sk_heap s)\<rparr>)" by (rule arp_post_trans [OF pb(4)])
  then show ?thesis
    using pl_put_ok [OF pb(1) wf len] packet_put [OF pb(6,1) len] pb(2,3,5,7,8) by (simp add: put_bytes_def holding_def pb'_def)
qed

lemma get_bytes_ok:
  assumes "holding drv loc p ps k bs R s0 s" "off + n \<le> unat k"
  shows "get_bytes p off n s = Some (Inr (take n (drop off bs)))"
proof -
  obtain pb cs where c: "fmlookup (sk_heap s) p = Some pb" "pb_len pb = k" "pb_wf pb" "bs = pb_data pb @ cs" using assms(1) by (auto simp: holding_def)
  then have "take n (drop off bs) = take n (drop off (pb_data pb))" using assms(2) by simp
  then show ?thesis using pl_get_ok [OF c(1,3), of off n] c(2) assms(2) by (simp add: get_bytes_def)
qed

lemma linkoutput_ok:
  assumes "arp_ok drv loc s (add_mset p R)" "packet (sk_heap s) (Some p) ps bs" "length ps < 256" "refs (sk_heap s) p < 65535"
  shows "wp t (\<lambda>(e, s'). arp_post drv loc (add_mset p R) R s s' \<and> arp_table s' = arp_table s) (linkoutput lo n p s)"
proof -
  let ?Q = "R + qrefs (arp_table s)" and ?h = "sk_heap s" and ?d = "sk_dev s"
  have h: "heap_ok ?h (add_mset p ?Q + drv ?d)" "loc ?h ?d" using assms(1) by (simp_all add: arp_ok_def)
  show ?thesis unfolding linkoutput_def
  proof (rule wp_xbindI [OF lo_law [OF h assms(2-4)]], clarsimp)
    fix h' d' assume r: "heap_ok h' (add_mset p (?Q + drv d'))" "loc h' d'" "same_but_refs h' ?h" "\<forall>q. q \<noteq> p \<longrightarrow> count (drv d') q \<le> count (drv ?d) q"
    have k: "kept ?Q ?h h'" unfolding kept_def
    proof (intro allI impI)
      fix q pb assume q: "q \<in># ?Q" "fmlookup ?h q = Some pb" "pb_ref pb = 1"
      then have ne: "q \<noteq> p" using exclusive_not_owned [of ?h p "?Q + drv ?d" q pb] h(1) by simp
      show "fmlookup h' q = Some pb" by (rule exclusive_kept [OF h(1) r(1,3) q(2,3)]) (use q(1) ne r(4) in auto)
    qed
    then have "tbl_ok h' (arp_table s)" using tbl_ok_kept assms(1) by (auto simp: arp_ok_def)
    moreover have "pkept R ?h h'" by (rule pkept_same [OF r(1,3)]) simp
    ultimately show "arp_post drv loc (add_mset p R) R s (s\<lparr>sk_heap := h', sk_dev := d'\<rparr>)"
      using r k assms(1) by (simp add: arp_post_def arp_ok_def add.assoc)
  qed
qed

text \<open>The same for a packet that is held; afterwards the driver may have a reference to it.\<close>

lemma linkoutput_holding:
  assumes "holding drv loc p ps k bs R s0 s"
  shows "wp t (\<lambda>(e, s'). arp_post drv loc (add_mset p R) R s0 s' \<and> arp_table s' = arp_table s0) (linkoutput lo n p s)"
proof -
  have pb: "arp_post drv loc (add_mset p R) R s0 s" "arp_table s = arp_table s0" "packet (sk_heap s) (Some p) (p # ps) bs" "length (p # ps) < 256" "refs (sk_heap s) p < 65535"
    using assms by (auto simp: holding_def refs_def)
  have "arp_ok drv loc s (add_mset p R)" using pb(1) by (simp add: arp_post_def)
  from linkoutput_ok [OF this pb(3-5), of n] show ?thesis by (rule wp_mono) (use pb(1,2) arp_post_trans in auto)
qed

lemma etharp_send_ip_ok:
  assumes h: "holding drv loc p ps k bs R s0 s" and len: "14 \<le> unat k" and nif: "nif_ok (sk_netif s n)" and a: "length src = 6" "length dst = 6"
  shows "wp t (\<lambda>(e, s'). arp_post drv loc (add_mset p R) R s0 s' \<and> arp_table s' = arp_table s0) (etharp_send_ip lo n p src dst s)"
proof -
  have "wp t (\<lambda>(e, s'). arp_post drv loc (add_mset p R) R s0 s' \<and> arp_table s' = arp_table s0)
    (xbind (put_bytes p 0 dst s) (\<lambda>s. xbind (put_bytes p 6 src s) (\<lambda>s. xbind (put_bytes p 12 (bytes16 (lwip_htons ETHTYPE_IP)) s) (\<lambda>s. linkoutput lo n p s))))"
    by (rule wp_xbindI [OF put_bytes_ok [OF h]], use len a in simp, rule wp_xbindI [OF put_bytes_ok], assumption, use len a in simp,
        rule wp_xbindI [OF put_bytes_ok], assumption, use len in simp, erule linkoutput_holding)
  then show ?thesis using nif by (simp add: etharp_send_ip_def nif_ok_def)
qed

end

section \<open>The search\<close>

lemma find_scan_Inl:
  "find_scan (Some a) k es c = Inl i \<Longrightarrow> k \<le> i \<and> i < k + length es \<and> ae_state (es ! (i - k)) \<noteq> ETHARP_STATE_EMPTY \<and> ae_ipaddr (es ! (i - k)) = a"
proof (induction es arbitrary: k c)
  case (Cons e es)
  show ?case
  proof (cases "ae_state e \<noteq> ETHARP_STATE_EMPTY \<and> a = ae_ipaddr e")
    case True
    then show ?thesis using Cons.prems by (auto split: if_splits)
  next
    case False
    then obtain c' where "find_scan (Some a) (k + 1) es c' = Inl i" using Cons.prems by (auto split: if_splits)
    from Cons.IH [OF this] show ?thesis by (auto simp: nth_Cons')
  qed
qed simp

lemma find_scan_Inr: "find_scan (Some a) k es c = Inr c' \<Longrightarrow> a \<notin> set (used_ips es)"
proof (induction es arbitrary: k c)
  case (Cons e es)
  show ?case
  proof (cases "ae_state e = ETHARP_STATE_EMPTY")
    case True
    then obtain c'' where "find_scan (Some a) (k + 1) es c'' = Inr c'" using Cons.prems by (auto split: if_splits)
    from Cons.IH [OF this] show ?thesis using True by (simp add: used_ips_def)
  next
    case False
    then have "a \<noteq> ae_ipaddr e" "find_scan (Some a) (k + 1) es (remember k e c) = Inr c'" using Cons.prems by (auto split: if_splits)
    then show ?thesis using Cons.IH [of "k + 1" "remember k e c"] False by (simp add: used_ips_def)
  qed
qed (simp add: used_ips_def)

text \<open>The candidates after \<open>k\<close> entries of the table \<open>T\<close>; there is at least one when \<open>k\<close> is not 0.\<close>

definition slot_ok :: "(etharp_state \<Rightarrow> bool) \<Rightarrow> etharp_entry list \<Rightarrow> nat \<Rightarrow> nat \<Rightarrow> bool" where
  "slot_ok P T k i \<longleftrightarrow> i = 32 \<or> (i < k \<and> P (ae_state (T ! i)))"

definition some_cand :: "nat \<Rightarrow> arp_cand \<Rightarrow> bool" where
  "some_cand k c \<longleftrightarrow> ca_empty c < k \<or> ca_old_stable c < k \<or> ca_old_pending c < k \<or> ca_old_queue c < k"

definition cand_ok :: "etharp_entry list \<Rightarrow> nat \<Rightarrow> arp_cand \<Rightarrow> bool" where
  "cand_ok T k c \<longleftrightarrow>
     slot_ok (\<lambda>st. st = ETHARP_STATE_EMPTY) T k (ca_empty c) \<and> slot_ok stable T k (ca_old_stable c) \<and>
     slot_ok (\<lambda>st. st = ETHARP_STATE_PENDING) T k (ca_old_pending c) \<and> slot_ok (\<lambda>st. st = ETHARP_STATE_PENDING) T k (ca_old_queue c) \<and>
     (ca_old_stable c = 32 \<longrightarrow> ca_age_stable c = 0) \<and> (ca_old_pending c = 32 \<longrightarrow> ca_age_pending c = 0) \<and>
     (ca_old_queue c = 32 \<longrightarrow> ca_age_queue c = 0) \<and> (0 < k \<longrightarrow> some_cand k c)"

lemma stable_other: "st \<noteq> ETHARP_STATE_EMPTY \<Longrightarrow> st \<noteq> ETHARP_STATE_PENDING \<Longrightarrow> stable st"
  by (cases st) (simp_all add: stable_def)

lemma slot_ok_Suc: "slot_ok P T k i \<Longrightarrow> slot_ok P T (Suc k) i" "P (ae_state (T ! k)) \<Longrightarrow> slot_ok P T (Suc k) k"
  by (auto simp: slot_ok_def)

lemma slot_used: "slot_ok P T k i \<Longrightarrow> i \<noteq> 32 \<Longrightarrow> i < Suc k"
  by (auto simp: slot_ok_def)

lemma cand_ok_empty: "cand_ok T k c \<Longrightarrow> ae_state (T ! k) = ETHARP_STATE_EMPTY \<Longrightarrow> cand_ok T (Suc k) (c\<lparr>ca_empty := k\<rparr>)"
  by (simp add: cand_ok_def slot_ok_Suc some_cand_def)

lemma cand_ok_later: "cand_ok T k c \<Longrightarrow> some_cand (Suc k) c \<Longrightarrow> cand_ok T (Suc k) c"
  by (simp add: cand_ok_def slot_ok_Suc)

lemma cand_ok_skip:
  assumes "cand_ok T k c" "ca_empty c \<noteq> 32"
  shows "cand_ok T (Suc k) c"
proof (rule cand_ok_later [OF assms(1)])
  have "slot_ok (\<lambda>st. st = ETHARP_STATE_EMPTY) T k (ca_empty c)" using assms(1) by (simp add: cand_ok_def)
  from slot_used [OF this assms(2)] show "some_cand (Suc k) c" by (simp add: some_cand_def)
qed

lemma slot_lt: "slot_ok P T k i \<Longrightarrow> i = 32 \<or> i < k"
  by (auto simp: slot_ok_def)

lemma not_older: "i = 32 \<or> i < k \<Longrightarrow> i = 32 \<longrightarrow> age = 0 \<Longrightarrow> \<not> age \<le> (x :: u8) \<Longrightarrow> i < Suc k"
  by auto

lemma cand_ok_remember:
  assumes c: "cand_ok T k c" and u: "ae_state (T ! k) \<noteq> ETHARP_STATE_EMPTY" and k: "k < 32"
  shows "cand_ok T (Suc k) (remember k (T ! k) c)"
proof -
  note S = c [unfolded cand_ok_def]
  let ?t = "ae_ctime (T ! k)"
  consider (queue) "ae_state (T ! k) = ETHARP_STATE_PENDING" "ae_q (T ! k) \<noteq> None" | (pending) "ae_state (T ! k) = ETHARP_STATE_PENDING" "ae_q (T ! k) = None"
    | (stable) "ae_state (T ! k) \<noteq> ETHARP_STATE_PENDING" "stable (ae_state (T ! k))" using stable_other [OF u] by blast
  then show ?thesis
  proof cases
    case queue
    show ?thesis
    proof (cases "ca_age_queue c \<le> ?t")
      case True
      then have "remember k (T ! k) c = c\<lparr>ca_old_queue := k, ca_age_queue := ?t\<rparr>" using queue by (simp add: remember_def)
      then show ?thesis using S queue k by (simp add: cand_ok_def slot_ok_Suc some_cand_def)
    next
      case False
      then have "remember k (T ! k) c = c" using queue by (simp add: remember_def)
      moreover have "ca_old_queue c < Suc k" by (rule not_older [OF _ _ False]) (use S slot_lt in blast)+
      ultimately show ?thesis using cand_ok_later [OF c] by (simp add: some_cand_def)
    qed
  next
    case pending
    show ?thesis
    proof (cases "ca_age_pending c \<le> ?t")
      case True
      then have "remember k (T ! k) c = c\<lparr>ca_old_pending := k, ca_age_pending := ?t\<rparr>" using pending by (simp add: remember_def)
      then show ?thesis using S pending k by (simp add: cand_ok_def slot_ok_Suc some_cand_def)
    next
      case False
      then have "remember k (T ! k) c = c" using pending by (simp add: remember_def)
      moreover have "ca_old_pending c < Suc k" by (rule not_older [OF _ _ False]) (use S slot_lt in blast)+
      ultimately show ?thesis using cand_ok_later [OF c] by (simp add: some_cand_def)
    qed
  next
    case stable
    show ?thesis
    proof (cases "ca_age_stable c \<le> ?t")
      case True
      then have "remember k (T ! k) c = c\<lparr>ca_old_stable := k, ca_age_stable := ?t\<rparr>" using stable by (simp add: remember_def)
      then show ?thesis using S stable k by (simp add: cand_ok_def slot_ok_Suc some_cand_def)
    next
      case False
      then have "remember k (T ! k) c = c" using stable by (simp add: remember_def)
      moreover have "ca_old_stable c < Suc k" by (rule not_older [OF _ _ False]) (use S slot_lt in blast)+
      ultimately show ?thesis using cand_ok_later [OF c] by (simp add: some_cand_def)
    qed
  qed
qed

lemma find_scan_cands:
  "find_scan a k (drop k T) c = Inr c' \<Longrightarrow> cand_ok T k c \<Longrightarrow> k \<le> length T \<Longrightarrow> length T \<le> 32 \<Longrightarrow> cand_ok T (length T) c'"
proof (induction "length T - k" arbitrary: k c)
  case (Suc n)
  then have k: "k < length T" by simp
  then have d: "drop k T = T ! k # drop (Suc k) T" by (simp add: Cons_nth_drop_Suc)
  obtain c1 where "find_scan a (Suc k) (drop (Suc k) T) c1 = Inr c'" "cand_ok T (Suc k) c1"
  proof (cases "ae_state (T ! k) = ETHARP_STATE_EMPTY")
    case True
    show ?thesis
    proof (cases "ca_empty c = ARP_TABLE_SIZE")
      case e: True
      then show ?thesis using that [OF _ cand_ok_empty [OF Suc.prems(2) True]] Suc.prems(1) True by (simp add: d)
    next
      case False
      then show ?thesis using that [OF _ cand_ok_skip [OF Suc.prems(2)]] Suc.prems(1) True by (simp add: d ARP_TABLE_SIZE_def)
    qed
  next
    case False
    then show ?thesis using that [OF _ cand_ok_remember [OF Suc.prems(2) False]] Suc.prems(1,4) k by (simp add: d split: if_splits)
  qed
  then show ?case using Suc.hyps(1) [of "Suc k" c1] Suc.hyps(2) Suc.prems(4) k by simp
qed simp

lemma no_cand_ok: "cand_ok T 0 no_cand"
  by (simp add: cand_ok_def slot_ok_def no_cand_def ARP_TABLE_SIZE_def)

section \<open>Changes of the cache\<close>

lemma free_pbuf_set_entry: "xbind (free_pbuf L p s) (\<lambda>s. Some (Inr (set_entry i e s))) = free_pbuf L p (set_entry i e s)"
  by (simp add: free_pbuf_def set_entry_def xbind_def split: option.split sum.split prod.split)

lemma set_entry_simps [simp]:
  "sk_heap (set_entry i e s) = sk_heap s" "sk_dev (set_entry i e s) = sk_dev s" "sk_netif (set_entry i e s) = sk_netif s"
  "arp_table (set_entry i e s) = (arp_table s)[i := e]" "etharp_cached_entry (set_entry i e s) = etharp_cached_entry s"
  by (simp_all add: set_entry_def)

definition fits :: "etharp_entry list \<Rightarrow> nat \<Rightarrow> etharp_entry \<Rightarrow> bool" where
  "fits es i e \<longleftrightarrow> (ae_state e \<noteq> ETHARP_STATE_EMPTY \<longrightarrow>
     (ae_state (es ! i) \<noteq> ETHARP_STATE_EMPTY \<and> ae_ipaddr e = ae_ipaddr (es ! i)) \<or> ae_ipaddr e \<notin> set (used_ips es))"

lemma arp_ok_set_entry:
  assumes "arp_ok drv loc s (R + owner (ae_q e))" "i < ARP_TABLE_SIZE" "entry_ok (sk_heap s) e" "fits (arp_table s) i e"
  shows "arp_ok drv loc (set_entry i e s) (R + owner (ae_q (arp_table s ! i)))"
proof -
  let ?es = "arp_table s"
  have len: "length ?es = ARP_TABLE_SIZE" "distinct (used_ips ?es)" using assms(1) by (simp_all add: arp_ok_def tbl_ok_def)
  have "R + owner (ae_q (?es ! i)) + qrefs (?es[i := e]) = R + owner (ae_q e) + qrefs ?es"
    using qrefs_update [of i ?es e] assms(2) len(1) by (simp add: ac_simps)
  moreover have "distinct (used_ips (?es[i := e]))" using used_ips_update [of i ?es e] assms(2,4) len by (simp add: fits_def)
  moreover have "\<forall>x\<in>set (?es[i := e]). entry_ok (sk_heap s) x"
    using assms(1,3) by (auto simp: arp_ok_def tbl_ok_def dest: set_update_subset_insert [THEN subsetD])
  ultimately show ?thesis using assms(1) by (simp only: arp_ok_def tbl_ok_def set_entry_simps length_list_update simp_thms)
qed

lemma arp_ok_entry: "arp_ok drv loc s R \<Longrightarrow> i < ARP_TABLE_SIZE \<Longrightarrow> entry_ok (sk_heap s) (arp_table s ! i)"
  by (auto simp: arp_ok_def tbl_ok_def)

lemma arp_ok_get_entry: "arp_ok drv loc s R \<Longrightarrow> i < ARP_TABLE_SIZE \<Longrightarrow> get_entry i s = Some (Inr (arp_table s ! i))"
  by (simp add: arp_ok_def tbl_ok_def get_entry_def load_def)

lemma arp_ok_length: "arp_ok drv loc s R \<Longrightarrow> length (arp_table s) = ARP_TABLE_SIZE"
  by (simp add: arp_ok_def tbl_ok_def)

text \<open>A change of an entry that keeps its packet.\<close>

lemma arp_post_set_entry:
  assumes "arp_ok drv loc s R" "i < ARP_TABLE_SIZE" "entry_ok (sk_heap s) e" "fits (arp_table s) i e" "ae_q e = ae_q (arp_table s ! i)"
  shows "arp_post drv loc R F s (set_entry i e s)"
proof -
  have "qrefs ((arp_table s)[i := e]) = qrefs (arp_table s)" by (rule qrefs_update_same) (use assms arp_ok_length [OF assms(1)] in simp_all)
  moreover have "distinct (used_ips ((arp_table s)[i := e]))"
    using used_ips_update [of i "arp_table s" e] assms by (simp add: fits_def arp_ok_def tbl_ok_def)
  ultimately show ?thesis
    using assms(1,3) by (auto simp: arp_post_def arp_ok_def tbl_ok_def dest: set_update_subset_insert [THEN subsetD])
qed

definition freed :: "etharp_entry \<Rightarrow> etharp_entry" where
  "freed e = e\<lparr>ae_q := None, ae_state := ETHARP_STATE_EMPTY\<rparr>"

text \<open>What a call of \<open>etharp_tmr\<close> makes of an entry.\<close>

definition aged :: "etharp_entry \<Rightarrow> etharp_entry" where
  "aged e =
     (if ae_state e = ETHARP_STATE_EMPTY then e
      else let e = e\<lparr>ae_ctime := ae_ctime e + 1\<rparr>
           in if ae_ctime e \<ge> ARP_MAXAGE \<or> (ae_state e = ETHARP_STATE_PENDING \<and> ae_ctime e \<ge> ARP_MAXPENDING) then freed e
              else if ae_state e = ETHARP_STATE_STABLE_REREQUESTING then e\<lparr>ae_state := ETHARP_STATE_STABLE\<rparr> else e)"

text \<open>A loop that changes every entry on its own.\<close>

definition changes :: "(etharp_entry \<Rightarrow> etharp_entry) \<Rightarrow> nat list \<Rightarrow> etharp_entry list \<Rightarrow> etharp_entry list" where
  "changes g is es = fold (\<lambda>i es. es[i := g (es ! i)]) is es"

lemma changes_all: "n \<le> length es \<Longrightarrow> changes g [0..<n] es = map g (take n es) @ drop n es"
proof (induction n)
  case (Suc n)
  then have "changes g [0..<Suc n] es = (map g (take n es) @ drop n es)[n := g ((map g (take n es) @ drop n es) ! n)]" by (simp add: changes_def)
  moreover have "drop n es = es ! n # drop (Suc n) es" using Suc.prems by (simp add: Cons_nth_drop_Suc)
  ultimately show ?case using Suc.prems by (simp add: take_Suc_conv_app_nth nth_append list_update_append min_def)
qed (simp add: changes_def)

lemma set_entry_twice: "set_entry i e (set_entry i e' s) = set_entry i e s"
  by (simp add: set_entry_def)

context netdrv
begin

lemma free_changed_entry_ok:
  assumes ok: "arp_ok drv loc s R" and i: "i < ARP_TABLE_SIZE" and e: "ae_q e = ae_q (arp_table s ! i)" "length (ae_ethaddr e) = 6"
  shows "wp t (\<lambda>s'. arp_post drv loc R R s s' \<and> arp_table s' = (arp_table s)[i := freed e]) (etharp_free_entry L i (set_entry i e s))"
proof -
  let ?e = "arp_table s ! i"
  have len: "i < length (arp_table s)" using i arp_ok_length [OF ok] by simp
  have eok: "entry_ok (sk_heap s) (freed e)" using e by (simp add: entry_ok_def freed_def)
  have ok': "arp_ok drv loc (set_entry i (freed e) s) (R + owner (ae_q ?e))"
    using arp_ok_set_entry [of drv loc s R "freed e" i] ok i eok by (simp add: fits_def freed_def)
  have g: "get_entry i (set_entry i e s) = Some (Inr e)" using len by (simp add: get_entry_def load_def)
  have fr: "set_entry i (e\<lparr>ae_q := None, ae_state := ETHARP_STATE_EMPTY\<rparr>) (set_entry i e s) = set_entry i (freed e) s" by (simp add: set_entry_twice freed_def)
  show ?thesis
  proof (cases "ae_q ?e")
    case None
    then show ?thesis using g ok' e fr by (simp add: etharp_free_entry_def arp_post_def)
  next
    case (Some p)
    have "wp t (\<lambda>s'. arp_post drv loc R R (set_entry i (freed e) s) s' \<and> arp_table s' = arp_table (set_entry i (freed e) s)) (free_pbuf L p (set_entry i (freed e) s))"
      by (rule free_pbuf_ok) (use ok' Some in simp)
    then have "wp t (\<lambda>s'. arp_post drv loc R R s s' \<and> arp_table s' = (arp_table s)[i := freed e]) (free_pbuf L p (set_entry i (freed e) s))"
      by (rule wp_mono) (auto simp: arp_post_def same_env_def set_entry_def)
    then show ?thesis using g Some e fr by (simp add: etharp_free_entry_def free_pbuf_set_entry)
  qed
qed

lemma etharp_free_entry_ok:
  assumes ok: "arp_ok drv loc s R" and i: "i < ARP_TABLE_SIZE"
  shows "wp t (\<lambda>s'. arp_post drv loc R R s s' \<and> arp_table s' = (arp_table s)[i := freed (arp_table s ! i)]) (etharp_free_entry L i s)"
proof -
  have "set_entry i (arp_table s ! i) s = s" by (simp add: set_entry_def)
  then show ?thesis using free_changed_entry_ok [OF ok i, of "arp_table s ! i"] arp_ok_entry [OF ok i] by (simp add: entry_ok_def)
qed

lemma tmr_entry_ok:
  assumes ok: "arp_ok drv loc s R" and i: "i < ARP_TABLE_SIZE"
  shows "wp t (\<lambda>s'. arp_post drv loc R R s s' \<and> arp_table s' = (arp_table s)[i := aged (arp_table s ! i)]) (tmr_entry L i s)"
    (is "wp t ?P _")
proof -
  let ?e = "arp_table s ! i"
  define e1 where "e1 = ?e\<lparr>ae_ctime := ae_ctime ?e + 1\<rparr>"
  have eok: "entry_ok (sk_heap s) ?e" by (rule arp_ok_entry [OF ok i])
  have g: "get_entry i s = Some (Inr ?e)" by (rule arp_ok_get_entry [OF ok i])
  show ?thesis
  proof (cases "ae_state ?e = ETHARP_STATE_EMPTY")
    case True
    then show ?thesis using g arp_post_refl [OF ok] by (simp add: tmr_entry_def aged_def)
  next
    case used: False
    show ?thesis
    proof (cases "ae_ctime e1 \<ge> ARP_MAXAGE \<or> (ae_state e1 = ETHARP_STATE_PENDING \<and> ae_ctime e1 \<ge> ARP_MAXPENDING)")
      case True
      have "wp t ?P (etharp_free_entry L i (set_entry i e1 s))"
        using free_changed_entry_ok [OF ok i, of e1] eok True used by (simp add: e1_def entry_ok_def aged_def Let_def)
      then show ?thesis using g True used by (simp add: tmr_entry_def Let_def e1_def)
    next
      case False
      have post: "arp_post drv loc R R s (set_entry i e2 s)" if "e2 = e1 \<or> (ae_state e1 = ETHARP_STATE_STABLE_REREQUESTING \<and> e2 = e1\<lparr>ae_state := ETHARP_STATE_STABLE\<rparr>)" for e2
        by (rule arp_post_set_entry [OF ok i]) (use eok that False used in \<open>auto simp: e1_def entry_ok_def fits_def not_le\<close>)
      have ag: "aged ?e = (if ae_state e1 = ETHARP_STATE_STABLE_REREQUESTING then e1\<lparr>ae_state := ETHARP_STATE_STABLE\<rparr> else e1)"
        using used False by (auto simp add: aged_def Let_def e1_def)
      have "tmr_entry L i s = Some (Inr (if ae_state e1 = ETHARP_STATE_STABLE_REREQUESTING then set_entry i (e1\<lparr>ae_state := ETHARP_STATE_STABLE\<rparr>) s else set_entry i e1 s))"
        using g used False by (auto simp add: tmr_entry_def Let_def e1_def [symmetric] set_entry_twice)
      then show ?thesis using post ag by simp
    qed
  qed
qed

lemma cleanup_entry_ok:
  assumes ok: "arp_ok drv loc s R" and i: "i < ARP_TABLE_SIZE"
  shows "wp t (\<lambda>s'. arp_post drv loc R R s s' \<and>
      arp_table s' = (arp_table s)[i := (\<lambda>e. if ae_state e \<noteq> ETHARP_STATE_EMPTY \<and> ae_netif e = Some n then freed e else e) (arp_table s ! i)]) (cleanup_entry L n i s)"
  using arp_ok_get_entry [OF ok i] arp_post_refl [OF ok, of R] etharp_free_entry_ok [OF ok i] by (simp add: cleanup_entry_def)

lemma for_entries_ok:
  assumes "\<And>i s. i \<in> set is \<Longrightarrow> arp_ok drv loc s R \<Longrightarrow> wp t (\<lambda>s'. arp_post drv loc R R s s' \<and> arp_table s' = (arp_table s)[i := g (arp_table s ! i)]) (f i s)"
  shows "arp_ok drv loc s R \<Longrightarrow> wp t (\<lambda>s'. arp_post drv loc R R s s' \<and> arp_table s' = changes g is (arp_table s)) (for_entries f is s)"
  using assms
proof (induction "is" arbitrary: s)
  case Nil
  then show ?case by (simp add: arp_post_refl changes_def)
next
  case (Cons i "is")
  have "wp t (\<lambda>s'. arp_post drv loc R R s s' \<and> arp_table s' = (arp_table s)[i := g (arp_table s ! i)]) (f i s)" using Cons.prems by simp
  then show ?case unfolding for_entries.simps
  proof (rule wp_xbindI)
    fix s' assume p: "arp_post drv loc R R s s' \<and> arp_table s' = (arp_table s)[i := g (arp_table s ! i)]"
    then have ok: "arp_ok drv loc s' R" by (simp add: arp_post_def)
    have "wp t (\<lambda>s''. arp_post drv loc R R s' s'' \<and> arp_table s'' = changes g is (arp_table s')) (for_entries f is s')" by (rule Cons.IH [OF ok]) (use Cons.prems(2) in simp)
    then show "wp t (\<lambda>s''. arp_post drv loc R R s s'' \<and> arp_table s'' = changes g (i # is) (arp_table s)) (for_entries f is s')"
      by (rule wp_mono) (use p arp_post_trans in \<open>auto simp: changes_def\<close>)
  qed
qed

lemma etharp_tmr_ok:
  assumes "arp_ok drv loc s R"
  shows "wp t (\<lambda>s'. arp_post drv loc R R s s' \<and> arp_table s' = map aged (arp_table s)) (etharp_tmr L s)"
proof -
  have c: "changes aged [0..<ARP_TABLE_SIZE] (arp_table s) = map aged (arp_table s)" using changes_all [of ARP_TABLE_SIZE "arp_table s" aged] arp_ok_length [OF assms] by simp
  show ?thesis unfolding etharp_tmr_def c [symmetric] by (rule for_entries_ok [OF tmr_entry_ok assms]) simp_all
qed

lemma etharp_cleanup_netif_ok:
  assumes "arp_ok drv loc s R"
  shows "wp t (\<lambda>s'. arp_post drv loc R R s s' \<and>
      arp_table s' = map (\<lambda>e. if ae_state e \<noteq> ETHARP_STATE_EMPTY \<and> ae_netif e = Some n then freed e else e) (arp_table s)) (etharp_cleanup_netif L n s)"
proof -
  let ?g = "\<lambda>e. if ae_state e \<noteq> ETHARP_STATE_EMPTY \<and> ae_netif e = Some n then freed e else e"
  have c: "changes ?g [0..<ARP_TABLE_SIZE] (arp_table s) = map ?g (arp_table s)" using changes_all [of ARP_TABLE_SIZE "arp_table s" ?g] arp_ok_length [OF assms] by simp
  show ?thesis unfolding etharp_cleanup_netif_def c [symmetric] by (rule for_entries_ok [OF cleanup_entry_ok assms]) simp_all
qed

end

section \<open>Looking up and making entries\<close>

text \<open>The entry \<open>i\<close> is for the address \<open>a\<close>: in use, or new and still empty.\<close>

definition found :: "u32 \<Rightarrow> nat \<Rightarrow> etharp_entry list \<Rightarrow> bool" where
  "found a i es \<longleftrightarrow> i < ARP_TABLE_SIZE \<and> ae_ipaddr (es ! i) = a \<and>
     (ae_state (es ! i) = ETHARP_STATE_EMPTY \<longrightarrow> ae_q (es ! i) = None \<and> ae_ctime (es ! i) = 0 \<and> a \<notin> set (used_ips es))"

definition fresh :: "u32 \<Rightarrow> nat \<Rightarrow> etharp_entry list \<Rightarrow> bool" where
  "fresh a i es \<longleftrightarrow> found a i es \<and> ae_state (es ! i) = ETHARP_STATE_EMPTY"

lemma used_ips_update_empty:
  "i < length es \<Longrightarrow> ae_state e = ETHARP_STATE_EMPTY \<Longrightarrow> set (used_ips (es[i := e])) \<subseteq> set (used_ips es)"
  by (auto simp: used_ips_def dest: set_update_subset_insert [THEN subsetD])

lemma new_entry_ok:
  assumes ok: "arp_ok drv loc s R" and i: "i < ARP_TABLE_SIZE" and e: "ae_state (arp_table s ! i) = ETHARP_STATE_EMPTY"
    and a: "a \<notin> set (used_ips (arp_table s))"
  obtains s' where "new_entry (Some a) i s = Some (Inr (Some i, s'))" "arp_post drv loc R F s s'" "fresh a i (arp_table s')"
proof -
  let ?e = "(arp_table s ! i)\<lparr>ae_ipaddr := a, ae_ctime := 0\<rparr>"
  have len: "i < length (arp_table s)" using i arp_ok_length [OF ok] by simp
  have q: "ae_q (arp_table s ! i) = None" "entry_ok (sk_heap s) ?e" using arp_ok_entry [OF ok i] e by (simp_all add: entry_ok_def)
  have "arp_post drv loc R F s (set_entry i ?e s)" by (rule arp_post_set_entry [OF ok i q(2)]) (simp_all add: fits_def e)
  moreover have "fresh a i ((arp_table s)[i := ?e])"
    using i len q a e used_ips_update_empty [OF len, of ?e] by (auto simp: fresh_def found_def)
  ultimately show ?thesis using that [of "set_entry i ?e s"] arp_ok_get_entry [OF ok i] e i by (simp add: new_entry_def Let_def)
qed

context netdrv
begin

lemma recycle_ok:
  assumes ok: "arp_ok drv loc s R" and i: "i < ARP_TABLE_SIZE" and a: "a \<notin> set (used_ips (arp_table s))"
  shows "wp t (\<lambda>(r, s'). r = Some i \<and> arp_post drv loc R R s s' \<and> fresh a i (arp_table s')) (xbind (etharp_free_entry L i s) (new_entry (Some a) i))"
proof (rule wp_xbindI [OF etharp_free_entry_ok [OF ok i]])
  let ?e = "freed (arp_table s ! i)"
  fix s1 assume s1: "arp_post drv loc R R s s1 \<and> arp_table s1 = (arp_table s)[i := ?e]"
  have len: "i < length (arp_table s)" using i arp_ok_length [OF ok] by simp
  have e: "ae_state (arp_table s1 ! i) = ETHARP_STATE_EMPTY" using s1 len by (simp add: freed_def)
  have a1: "a \<notin> set (used_ips (arp_table s1))" using used_ips_update_empty [OF len, of ?e] a s1 by (auto simp: freed_def)
  have ok1: "arp_ok drv loc s1 R" using s1 by (simp add: arp_post_def)
  obtain s2 where "new_entry (Some a) i s1 = Some (Inr (Some i, s2))" "arp_post drv loc R R s1 s2" "fresh a i (arp_table s2)"
    by (rule new_entry_ok [OF ok1 i e a1])
  then show "wp t (\<lambda>(r, s'). r = Some i \<and> arp_post drv loc R R s s' \<and> fresh a i (arp_table s')) (new_entry (Some a) i s1)"
    using s1 arp_post_trans by auto
qed

text \<open>With \<open>ETHARP_FLAG_TRY_HARD\<close> there is always an entry.\<close>

lemma etharp_find_entry_ok:
  assumes ok: "arp_ok drv loc s R"
  shows "wp t (\<lambda>(r, s'). arp_post drv loc R R s s' \<and>
      (case r of None \<Rightarrow> s' = s \<and> flags \<noteq> ETHARP_FLAG_TRY_HARD | Some i \<Rightarrow> found a i (arp_table s') \<and>
         (ae_state (arp_table s' ! i) \<noteq> ETHARP_STATE_EMPTY \<longrightarrow> s' = s))) (etharp_find_entry L (Some a) flags s)"
    (is "wp t ?P _")
proof (cases "find_scan (Some a) 0 (arp_table s) no_cand")
  case (Inl i)
  then have "i < length (arp_table s)" "ae_state (arp_table s ! i) \<noteq> ETHARP_STATE_EMPTY" "ae_ipaddr (arp_table s ! i) = a"
    using find_scan_Inl [OF Inl] by simp_all
  then show ?thesis using Inl arp_post_refl [OF ok] arp_ok_length [OF ok] by (simp add: etharp_find_entry_def found_def)
next
  case (Inr c)
  have a: "a \<notin> set (used_ips (arp_table s))" by (rule find_scan_Inr [OF Inr])
  have len: "length (arp_table s) = 32" using arp_ok_length [OF ok] by (simp add: ARP_TABLE_SIZE_def)
  have c: "cand_ok (arp_table s) 32 c" using find_scan_cands [of "Some a" 0 "arp_table s" no_cand c] Inr no_cand_ok len by simp
  have sz: "ARP_TABLE_SIZE = 32" by (simp add: ARP_TABLE_SIZE_def)
  have new: "wp t ?P m" if "wp t (\<lambda>(r, s'). r = Some i \<and> arp_post drv loc R R s s' \<and> fresh a i (arp_table s')) m" for i m
    using that by (rule wp_mono) (auto simp: fresh_def)
  show ?thesis
  proof (cases "flags AND ETHARP_FLAG_FIND_ONLY \<noteq> 0 \<or> (ca_empty c = ARP_TABLE_SIZE \<and> flags AND ETHARP_FLAG_TRY_HARD = 0)")
    case True
    then have "flags \<noteq> ETHARP_FLAG_TRY_HARD" by (auto simp: ETHARP_FLAG_FIND_ONLY_def ETHARP_FLAG_TRY_HARD_def)
    then show ?thesis using Inr True arp_post_refl [OF ok] by (simp add: etharp_find_entry_def)
  next
    case False
    note run = etharp_find_entry_def [of L "Some a" flags s, unfolded Inr sum.case if_not_P [OF False]]
    have e: "wp t ?P (new_entry (Some a) (ca_empty c) s)" if e: "ca_empty c < ARP_TABLE_SIZE"
    proof -
      have "ae_state (arp_table s ! ca_empty c) = ETHARP_STATE_EMPTY" using c e sz by (simp add: cand_ok_def slot_ok_def)
      from new_entry_ok [OF ok e this a] obtain s' where
        "new_entry (Some a) (ca_empty c) s = Some (Inr (Some (ca_empty c), s'))" "arp_post drv loc R R s s'" "fresh a (ca_empty c) (arp_table s')" .
      then show ?thesis by (intro new [of "ca_empty c"]) simp
    qed
    have r: "wp t ?P (xbind (etharp_free_entry L i s) (new_entry (Some a) i))" if "i < ARP_TABLE_SIZE" for i
      by (rule new [OF recycle_ok [OF ok that a]])
    have st: "get_entry (ca_old_stable c) s = Some (Inr (arp_table s ! ca_old_stable c))" "ae_q (arp_table s ! ca_old_stable c) = None"
      if "ca_old_stable c < ARP_TABLE_SIZE"
    proof -
      have "stable (ae_state (arp_table s ! ca_old_stable c))" using c that sz by (simp add: cand_ok_def slot_ok_def)
      then show "ae_q (arp_table s ! ca_old_stable c) = None" using arp_ok_entry [OF ok that] by (auto simp: entry_ok_def stable_def)
    qed (rule arp_ok_get_entry [OF ok that])
    have "some_cand 32 c" using c by (simp add: cand_ok_def)
    then show ?thesis unfolding run using e r st sz by (auto simp: some_cand_def)
  qed
qed

end

end
