(* ===== verification/EtharpOps.thy ===== *)
theory EtharpOps
  imports EtharpInv
begin

text \<open>
  The operations of the ARP layer keep the invariant of its cache, for every driver of the interface \<open>netdrv\<close>:
  requests and updates, output, input, and the contents of the frames.
\<close>

section \<open>Requests and updates\<close>

definition resolved :: "u32 \<Rightarrow> u8 list \<Rightarrow> etharp_entry list \<Rightarrow> bool" where
  "resolved a eth es \<longleftrightarrow> (\<exists>i<ARP_TABLE_SIZE. ae_state (es ! i) = ETHARP_STATE_STABLE \<and> ae_ipaddr (es ! i) = a \<and> ae_ethaddr (es ! i) = eth \<and> ae_ctime (es ! i) = 0)"

definition unicast :: "u32 \<Rightarrow> netif_t \<Rightarrow> bool" where
  "unicast a x \<longleftrightarrow> \<not> (a = IPADDR_ANY \<or> ip_addr_isbroadcast a x \<or> ip_addr_ismulticast a)"

lemma pbuf_alloc_RAM_None: "pbuf_alloc L layer n PBUF_RAM h = Some (Inr (None, h')) \<Longrightarrow> h' = h"
  by (simp add: pbuf_alloc_def Let_def split: option.splits prod.splits)

lemma used_ips_unique:
  "distinct (used_ips es) \<Longrightarrow> i < length es \<Longrightarrow> j < length es \<Longrightarrow> ae_state (es ! i) \<noteq> ETHARP_STATE_EMPTY \<Longrightarrow>
   ae_state (es ! j) \<noteq> ETHARP_STATE_EMPTY \<Longrightarrow> ae_ipaddr (es ! i) = ae_ipaddr (es ! j) \<Longrightarrow> i = j"
proof (induction es arbitrary: i j)
  case (Cons e es)
  have d: "distinct (used_ips es)" "ae_state e \<noteq> ETHARP_STATE_EMPTY \<Longrightarrow> ae_ipaddr e \<notin> set (used_ips es)"
    using Cons.prems(1) by (auto simp: used_ips_def split: if_splits)
  show ?case
  proof (cases i; cases j)
    fix i' j' assume "i = Suc i'" "j = Suc j'"
    then show ?thesis using Cons.IH [OF d(1), of i' j'] Cons.prems by simp
  next
    fix j' assume "i = 0" "j = Suc j'"
    then show ?thesis using Cons.prems d(2) used_ips_nth [of j' es] by simp
  next
    fix i' assume "i = Suc i'" "j = 0"
    then show ?thesis using Cons.prems d(2) used_ips_nth [of i' es] by simp
  qed simp
qed simp

context netdrv
begin

text \<open>A new packet of one buffer.\<close>

lemma alloc_ok:
  assumes ml: "malloc_ok L" and ok: "arp_ok drv loc s R"
  shows "pbuf_alloc L layer n PBUF_RAM (sk_heap s) = Some (Inr (None, sk_heap s)) \<or>
    (\<exists>p h' bs. pbuf_alloc L layer n PBUF_RAM (sk_heap s) = Some (Inr (Some p, h')) \<and> holding drv loc p [] n bs R s (s\<lparr>sk_heap := h'\<rparr>) \<and>
       length bs = unat n \<and> fmlookup (sk_heap s) p = None)"
proof -
  let ?T = "R + qrefs (arp_table s) + drv (sk_dev s)"
  have h: "heap_ok (sk_heap s) ?T" using ok by (simp add: arp_ok_def)
  from heap_ok_alloc [OF ml h, of layer n] obtain r h' where r: "pbuf_alloc L layer n PBUF_RAM (sk_heap s) = Some (Inr (r, h'))" by blast
  show ?thesis
  proof (cases r)
    case None
    then show ?thesis using r pbuf_alloc_RAM_None by blast
  next
    case (Some p)
    then obtain pb where pb: "h' = fmupd p pb (sk_heap s)" "pb_next pb = None" "fmlookup (sk_heap s) p = None" "pb_type pb = PBUF_RAM" "pb_ref pb = 1" "pb_flags pb = 0"
      "pb_len pb = n" "pb_tot_len pb = n" "unat n + pb_payload pb \<le> length (pb_mem pb)"
      using allocated_single_links [OF _ ml] r by blast
    have wf: "pb_wf pb" using pb(7,9) by (simp add: pb_wf_def add.commute)
    have "heap_ok h' (add_mset p R + qrefs (arp_table s) + drv (sk_dev s))" using heap_ok_new [OF h pb(3,5,2,6)] pb(1) by simp
    then have "arp_ok drv loc (s\<lparr>sk_heap := h'\<rparr>) (add_mset p R)" using arp_ok_heap [OF ok, of h' "add_mset p R"] kept_new [OF pb(3)] pb(1) by simp
    then have "holding drv loc p [] n (pb_data pb) R s (s\<lparr>sk_heap := h'\<rparr>)"
      using pb wf kept_new [OF pb(3)] pkept_new [OF pb(3)] by (simp add: holding_def arp_post_def)
    then show ?thesis using r Some pb(3,7) wf by auto
  qed
qed

lemma holding_post: "holding drv loc p ps k bs R s0 s \<Longrightarrow> arp_post drv loc (add_mset p R) R s0 s" "holding drv loc p ps k bs R s0 s \<Longrightarrow> arp_table s = arp_table s0"
  "holding drv loc p ps k bs R s0 s \<Longrightarrow> sk_netif s = sk_netif s0"
  by (simp_all add: holding_def arp_post_def same_env_def)

text \<open>Sending a packet of our own and releasing it.\<close>

lemma send_and_free:
  assumes "wp t (\<lambda>(e, s'). arp_post drv loc (add_mset p R) R s0 s' \<and> arp_table s' = arp_table s0) m"
  shows "wp t (\<lambda>(e, s'). arp_post drv loc R R s0 s' \<and> arp_table s' = arp_table s0) (xbind m (\<lambda>(e, s). xbind (free_pbuf L p s) (\<lambda>s. Some (Inr (f e, s)))))"
proof (rule wp_xbindI [OF assms], clarsimp)
  fix s' assume s': "arp_post drv loc (add_mset p R) R s0 s'" "arp_table s' = arp_table s0"
  then have "arp_ok drv loc s' (add_mset p R)" by (simp add: arp_post_def)
  from free_pbuf_ok [OF this]
  show "wp t (\<lambda>(e, s'). arp_post drv loc R R s0 s' \<and> arp_table s' = arp_table s0) (xbind (free_pbuf L p s') (\<lambda>s. Some (Inr (f e, s))))" for e
    by (rule wp_xbindI) (use s' arp_post_trans in auto)
qed

lemma etharp_raw_ok:
  assumes ml: "malloc_ok L" and ok: "arp_ok drv loc s R" and nif: "nif_ok (sk_netif s n)"
    and a: "length ethsrc = 6" "length ethdst = 6" "length hwsrc = 6" "length hwdst = 6"
  shows "wp t (\<lambda>(e, s'). arp_post drv loc R R s s' \<and> arp_table s' = arp_table s) (etharp_raw L lo n ethsrc ethdst hwsrc ipsrc hwdst ipdst opcode s)"
proof -
  have sz: "SIZEOF_ETHARP_PACKET = 42" by (simp add: SIZEOF_ETHARP_PACKET_def)
  from alloc_ok [OF ml ok, of PBUF_RAW "of_nat SIZEOF_ETHARP_PACKET"] show ?thesis
  proof (elim disjE exE conjE)
    assume "pbuf_alloc L PBUF_RAW (of_nat SIZEOF_ETHARP_PACKET) PBUF_RAM (sk_heap s) = Some (Inr (None, sk_heap s))"
    then show ?thesis using arp_post_refl [OF ok] by (simp add: etharp_raw_def)
  next
    fix p h' bs
    assume al: "pbuf_alloc L PBUF_RAW (of_nat SIZEOF_ETHARP_PACKET) PBUF_RAM (sk_heap s) = Some (Inr (Some p, h'))"
      and h: "holding drv loc p [] (of_nat SIZEOF_ETHARP_PACKET) bs R s (s\<lparr>sk_heap := h'\<rparr>)"
    have k: "unat (of_nat SIZEOF_ETHARP_PACKET :: u16) = 42" by (simp add: sz)
    obtain pb where pb: "fmlookup h' p = Some pb" "pb_len pb = of_nat SIZEOF_ETHARP_PACKET" using h by (auto simp: holding_def)
    have hw: "ni_hwaddr_len (sk_netif s' n) = ETHARP_HWADDR_LEN" if "holding drv loc p [] (of_nat SIZEOF_ETHARP_PACKET) bs' R s s'" for bs' s'
      using nif holding_post(3) [OF that] by (simp add: nif_ok_def)
    have ge: "\<not> \<not> SIZEOF_ETHARP_PACKET \<le> unat (pb_len pb)" using pb(2) k sz by simp
    note put = wp_xbindI [OF put_bytes_ok]
    show ?thesis unfolding etharp_raw_def al xbind_simps prod.case Let_def option.case pb(1) if_not_P [OF ge]
      by (rule wp_xbindI [OF put_bytes_ok [OF h]], simp add: k, simp only: hw if_False not_True_eq_False simp_thms,
          (rule put, assumption, simp add: k a)+, rule send_and_free [OF linkoutput_holding])
  qed
qed

lemma etharp_request_ok:
  assumes ml: "malloc_ok L" and "arp_ok drv loc s R" "nif_ok (sk_netif s n)"
  shows "wp t (\<lambda>(e, s'). arp_post drv loc R R s s' \<and> arp_table s' = arp_table s) (etharp_request L lo n a s)"
  unfolding etharp_request_def Let_def
  by (rule etharp_raw_ok [OF assms]) (use assms(3) in \<open>simp_all add: nif_ok_def ethbroadcast_def ethzero_def\<close>)

text \<open>A packet that waited, taken out of the cache.\<close>

lemma queued_holding:
  assumes "arp_ok drv loc s (add_mset p R)" "queued_ok (sk_heap s) p"
  obtains k bs where "holding drv loc p [] k bs R s s" "14 \<le> unat k"
proof -
  obtain pb where pb: "fmlookup (sk_heap s) p = Some pb" "pb_ref pb = 1" "pb_next pb = None" "pb_wf pb" "pb_tot_len pb = pb_len pb" "14 \<le> unat (pb_len pb)"
    using assms(2) by (auto simp: queued_ok_def)
  then have "packet (sk_heap s) (Some p) [p] (pb_data pb)" by simp
  then show ?thesis using that [of "pb_len pb" "pb_data pb"] pb assms(1) by (simp add: holding_def arp_post_def)
qed

lemma update_entry_ok:
  assumes ok: "arp_ok drv loc s R" and nif: "nif_ok (sk_netif s n)" and eth: "length eth = 6" and f: "found a i (arp_table s)"
  shows "wp t (\<lambda>(e, s'). e = ERR_OK \<and> arp_post drv loc R R s s' \<and> resolved a eth (arp_table s')) (update_entry L lo n eth i s)"
proof -
  have i: "i < ARP_TABLE_SIZE" using f by (simp add: found_def)
  let ?e = "arp_table s ! i"
  let ?e' = "?e\<lparr>ae_state := ETHARP_STATE_STABLE, ae_netif := Some n, ae_ethaddr := eth, ae_ctime := 0, ae_q := None\<rparr>"
  let ?s = "set_entry i ?e' s"
  have fit: "fits (arp_table s) i ?e'" using f by (auto simp: fits_def found_def)
  have ok1: "arp_ok drv loc ?s (R + owner (ae_q ?e))"
    using arp_ok_set_entry [of drv loc s R ?e' i] ok i eth fit by (simp add: entry_ok_def ARP_MAXAGE_def)
  have res: "resolved a eth (arp_table ?s)"
    unfolding resolved_def by (rule exI [of _ i]) (use f i arp_ok_length [OF ok] in \<open>simp add: found_def\<close>)
  show ?thesis
  proof (cases "ae_q ?e")
    case None
    then show ?thesis using arp_ok_get_entry [OF ok i] ok1 res by (simp add: update_entry_def arp_post_def)
  next
    case (Some p)
    have "queued_ok (sk_heap s) p" using arp_ok_entry [OF ok i] Some by (simp add: entry_ok_def)
    then obtain k bs where h: "holding drv loc p [] k bs R ?s ?s" "14 \<le> unat k" using queued_holding [of ?s p R] ok1 Some by auto
    have nif1: "nif_ok (sk_netif ?s n)" "length (ni_hwaddr (sk_netif ?s n)) = 6" using nif by (simp_all add: nif_ok_def)
    note S = etharp_send_ip_ok [OF h nif1 eth]
    have "wp t (\<lambda>(e, s'). e = ERR_OK \<and> arp_post drv loc R R ?s s' \<and> arp_table s' = arp_table ?s)
        (xbind (etharp_send_ip lo n p (ni_hwaddr (sk_netif ?s n)) eth ?s) (\<lambda>(_, s). xbind (free_pbuf L p s) (\<lambda>s. Some (Inr (ERR_OK, s)))))"
    proof (rule wp_xbindI [OF S], clarsimp)
      fix s' assume s': "arp_post drv loc (add_mset p R) R ?s s'" "arp_table s' = (arp_table s)[i := ?e']"
      then have "arp_ok drv loc s' (add_mset p R)" by (simp add: arp_post_def)
      from free_pbuf_ok [OF this] show "wp t (\<lambda>(e, s'). e = ERR_OK \<and> arp_post drv loc R R ?s s' \<and> arp_table s' = (arp_table s)[i := ?e'])
          (xbind (free_pbuf L p s') (\<lambda>s. Some (Inr (ERR_OK, s))))" by (rule wp_xbindI) (use s' arp_post_trans in auto)
    qed
    then have "wp t (\<lambda>(e, s'). e = ERR_OK \<and> arp_post drv loc R R s s' \<and> resolved a eth (arp_table s'))
        (xbind (etharp_send_ip lo n p (ni_hwaddr (sk_netif ?s n)) eth ?s) (\<lambda>(_, s). xbind (free_pbuf L p s) (\<lambda>s. Some (Inr (ERR_OK, s)))))"
      by (rule wp_mono) (use res in \<open>auto simp: arp_post_def same_env_def set_entry_def\<close>)
    then show ?thesis using arp_ok_get_entry [OF ok i] Some by (simp add: update_entry_def)
  qed
qed

lemma etharp_update_arp_entry_ok:
  assumes ok: "arp_ok drv loc s R" and nif: "nif_ok (sk_netif s n)" and eth: "length eth = 6"
  shows "wp t (\<lambda>(e, s'). arp_post drv loc R R s s' \<and> (e = ERR_OK \<longrightarrow> resolved a eth (arp_table s')) \<and>
      (unicast a (sk_netif s n) \<and> flags = ETHARP_FLAG_TRY_HARD \<longrightarrow> e = ERR_OK)) (etharp_update_arp_entry L lo n a eth flags s)"
    (is "wp t ?P _")
proof (cases "unicast a (sk_netif s n)")
  case False
  then show ?thesis using nif arp_post_refl [OF ok] by (auto simp: etharp_update_arp_entry_def unicast_def nif_ok_def Let_def)
next
  case True
  have g: "\<not> ni_hwaddr_len (sk_netif s n) \<noteq> ETHARP_HWADDR_LEN" using nif by (simp add: nif_ok_def)
  have c: "\<not> (a = IPADDR_ANY \<or> ip_addr_isbroadcast a (sk_netif s n) \<or> ip_addr_ismulticast a)" using True by (simp add: unicast_def)
  show ?thesis unfolding etharp_update_arp_entry_def Let_def if_not_P [OF g] if_not_P [OF c]
  proof (rule wp_xbindI [OF etharp_find_entry_ok [OF ok]], clarify)
    fix r s1 assume p: "arp_post drv loc R R s s1" and r: "case r of None \<Rightarrow> s1 = s \<and> flags \<noteq> ETHARP_FLAG_TRY_HARD
        | Some i \<Rightarrow> found a i (arp_table s1) \<and> (ae_state (arp_table s1 ! i) \<noteq> ETHARP_STATE_EMPTY \<longrightarrow> s1 = s)"
    have ok1: "arp_ok drv loc s1 R" "nif_ok (sk_netif s1 n)" using p nif by (simp_all add: arp_post_def same_env_def)
    show "wp t ?P (case r of None \<Rightarrow> Some (Inr (ERR_MEM, s1)) | Some i \<Rightarrow> update_entry L lo n eth i s1)"
    proof (cases r)
      case None
      then show ?thesis using r p by simp
    next
      case (Some i)
      then have "found a i (arp_table s1)" using r by simp
      from update_entry_ok [OF ok1 eth this] show ?thesis unfolding Some option.case by (rule wp_mono) (use p arp_post_trans in auto)
    qed
  qed
qed

lemma etharp_find_addr_ok:
  assumes ok: "arp_ok drv loc s R" and r: "resolved a eth (arp_table s)"
  shows "\<exists>i. etharp_find_addr L a s = Some (Inr (Some (i, eth, a), s))"
proof -
  obtain j where j: "j < ARP_TABLE_SIZE" "ae_state (arp_table s ! j) = ETHARP_STATE_STABLE" "ae_ipaddr (arp_table s ! j) = a" "ae_ethaddr (arp_table s ! j) = eth"
    using r by (auto simp: resolved_def)
  have len: "length (arp_table s) = ARP_TABLE_SIZE" by (rule arp_ok_length [OF ok])
  show ?thesis
  proof (cases "find_scan (Some a) 0 (arp_table s) no_cand")
    case (Inl i)
    from find_scan_Inl [OF Inl] have i: "i < length (arp_table s)" "ae_state (arp_table s ! i) \<noteq> ETHARP_STATE_EMPTY" "ae_ipaddr (arp_table s ! i) = a" by simp_all
    have "i = j" by (rule used_ips_unique [OF _ i(1) _ i(2)]) (use ok j i(3) len in \<open>simp_all add: arp_ok_def tbl_ok_def\<close>)
    then show ?thesis using Inl arp_ok_get_entry [OF ok j(1)] j by (simp add: etharp_find_addr_def etharp_find_entry_def stable_def)
  next
    case (Inr c)
    then show ?thesis using find_scan_Inr [OF Inr] used_ips_nth [of j "arp_table s"] j len by simp
  qed
qed

end

section \<open>Output\<close>

text \<open>Room for a header in front of the data.\<close>

lemma pbuf_header_show:
  assumes pk: "packet h (Some p) (p # ps) bs" and pb: "fmlookup h p = Some pb" and ty: "pb_type pb = PBUF_RAM \<or> pb_type pb = PBUF_POOL"
    and k: "0 < k" "k \<le> pb_payload pb" "length bs + k < 65536"
    and pb': "pb' = pb\<lparr>pb_payload := pb_payload pb - k, pb_len := pb_len pb + of_nat k, pb_tot_len := pb_tot_len pb + of_nat k\<rparr>"
  shows "pbuf_header p (int k) h = Some (Inr (False, fmupd p pb' h))"
    "packet (fmupd p pb' h) (Some p) (p # ps) (take k (drop (pb_payload pb - k) (pb_mem pb)) @ bs)" "unat (pb_len pb') = unat (pb_len pb) + k"
proof -
  obtain cs where c: "pb_wf pb" "unat (pb_tot_len pb) = length bs" "bs = pb_data pb @ cs" "packet h (pb_next pb) ps cs" using pk pb by auto
  have le: "unat (pb_len pb) \<le> length bs" using c(1,3) by simp
  have ku: "unat (of_nat k :: u16) = k" using k(3) by (simp add: unat_of_nat)
  have u: "unat (pb_len pb + of_nat k) = unat (pb_len pb) + k" "unat (pb_tot_len pb + of_nat k) = length bs + k"
    using k(3) le ku c(2) by (simp_all add: unat_word_ariths(1) mod_less)
  then show "unat (pb_len pb') = unat (pb_len pb) + k" by (simp add: pb')
  have off: "nat (int (pb_payload pb) - int k) = pb_payload pb - k" "\<not> int (pb_payload pb) - int k < 0" using k(2) by simp_all
  then show "pbuf_header p (int k) h = Some (Inr (False, fmupd p pb' h))" using pb ty k by (auto simp: pbuf_header_def Let_def pb')
  have wf': "pb_wf pb'" using c(1) k(2) u by (simp add: pb' pb_wf_def)
  have "pb_data pb' = take k (drop (pb_payload pb - k) (pb_mem pb)) @ pb_data pb"
  proof -
    have "pb_data pb' = take (k + unat (pb_len pb)) (drop (pb_payload pb - k) (pb_mem pb))" using u(1) by (simp add: pb_data_def pb' add.commute)
    also have "\<dots> = take k (drop (pb_payload pb - k) (pb_mem pb)) @ take (unat (pb_len pb)) (drop k (drop (pb_payload pb - k) (pb_mem pb)))" by (rule take_add)
    finally show ?thesis using k(2) by (simp add: pb_data_def)
  qed
  moreover have "p \<notin> set ps" using chain_distinct [OF packet_chain [OF pk]] by simp
  moreover have "length (take k (drop (pb_payload pb - k) (pb_mem pb))) = k" using c(1) k(2) by (simp add: pb_wf_def)
  ultimately show "packet (fmupd p pb' h) (Some p) (p # ps) (take k (drop (pb_payload pb - k) (pb_mem pb)) @ bs)"
    using wf' c u by (simp add: pb')
qed

lemma arp_post_cached: "i < ARP_TABLE_SIZE \<Longrightarrow> arp_ok drv loc s R \<Longrightarrow> arp_post drv loc R F s (s\<lparr>etharp_cached_entry := of_nat i\<rparr>)"
  by (simp add: arp_post_def arp_ok_def ARP_TABLE_SIZE_def unat_of_nat)

context netdrv
begin

text \<open>Other operations keep a packet that is held.\<close>

definition held :: "nat \<Rightarrow> nat list \<Rightarrow> u16 \<Rightarrow> u8 list \<Rightarrow> nat multiset \<Rightarrow> ('d, 'z) stack_scheme \<Rightarrow> bool" where
  "held p ps k bs R s \<longleftrightarrow> holding drv loc p ps k bs R s s"

lemma held_iff:
  "held p ps k bs R s \<longleftrightarrow> arp_ok drv loc s (add_mset p R) \<and> packet (sk_heap s) (Some p) (p # ps) bs \<and> length ps < 255 \<and> (\<exists>pb. fmlookup (sk_heap s) p = Some pb \<and> pb_len pb = k \<and> pb_ref pb = 1)"
  by (auto simp: held_def holding_def arp_post_def)

lemma held_post:
  assumes "held p ps k bs R s" "arp_post drv loc (add_mset p R) (add_mset p R) s s'"
  shows "held p ps k bs R s'"
proof -
  obtain pb where pb: "fmlookup (sk_heap s) p = Some pb" "pb_len pb = k" "pb_ref pb = 1" "packet (sk_heap s) (Some p) (p # ps) bs" using assms(1) by (auto simp: held_iff)
  have "fmlookup (sk_heap s') p = Some pb" using assms(2) pb(1,3) by (auto simp: arp_post_def dest: keptD)
  moreover have "packet (sk_heap s') (Some p) (p # ps) bs" using pkept_packet [OF _ _ pb(4)] assms(2) by (auto simp: arp_post_def)
  moreover have "length ps < 255" using assms(1) by (simp add: held_iff)
  ultimately show ?thesis using assms(2) pb(2,3) by (simp add: held_iff arp_post_def)
qed

lemma arp_post_weaken: "arp_post drv loc R (add_mset p F) s s' \<Longrightarrow> arp_post drv loc R F s s'"
  by (auto simp: arp_post_def kept_def pkept_def)

lemma send_ip_held:
  assumes "held p ps k bs R s" "14 \<le> unat k" "nif_ok (sk_netif s n)" "length src = 6" "length dst = 6"
  shows "wp t (\<lambda>(e, s'). arp_post drv loc (add_mset p R) R s s') (etharp_send_ip lo n p src dst s)"
  using etharp_send_ip_ok [OF assms(1) [unfolded held_def] assms(2-5)] by (rule wp_mono) auto

lemma output_to_arp_index_ok:
  assumes ml: "malloc_ok L" and h: "held q ps k bs R s" and k: "14 \<le> unat k" and nif: "nif_ok (sk_netif s n)" and i: "i < ARP_TABLE_SIZE" and st: "stable (ae_state (arp_table s ! i))"
  shows "wp t (\<lambda>(e, s'). arp_post drv loc (add_mset q R) R s s') (etharp_output_to_arp_index L lo n q i s)"
proof -
  let ?e = "arp_table s ! i" and ?T = "add_mset q R"
  have ok: "arp_ok drv loc s ?T" using h by (simp add: held_iff)
  have g: "get_entry i s = Some (Inr ?e)" by (rule arp_ok_get_entry [OF ok i])
  have eth: "length (ae_ethaddr ?e) = 6" using arp_ok_entry [OF ok i] by (simp add: entry_ok_def)
  have send: "wp t (\<lambda>(e, s'). arp_post drv loc ?T R s s') (etharp_send_ip lo n q (ni_hwaddr (sk_netif s' n)) (ae_ethaddr ?e) s')"
    if p: "arp_post drv loc ?T ?T s s'" for s'
  proof -
    have x: "nif_ok (sk_netif s' n)" "length (ni_hwaddr (sk_netif s' n)) = 6" using nif p by (simp_all add: arp_post_def same_env_def nif_ok_def)
    from send_ip_held [OF held_post [OF h p] k x eth] show ?thesis by (rule wp_mono) (auto intro: arp_post_trans [OF arp_post_weaken [OF p]])
  qed
  have rereq: "wp t (arp_post drv loc ?T ?T s) (xbind (etharp_request L lo n (ae_ipaddr ?e) s) (\<lambda>(err, s).
      if err = ERR_OK then xbind (get_entry i s) (\<lambda>e. Some (Inr (set_entry i (e\<lparr>ae_state := ETHARP_STATE_STABLE_REREQUESTING\<rparr>) s))) else Some (Inr s)))"
  proof (rule wp_xbindI [OF etharp_request_ok [OF ml ok nif]], clarify)
    fix err s1 assume p: "arp_post drv loc ?T ?T s s1" and tb: "arp_table s1 = arp_table s"
    let ?e' = "?e\<lparr>ae_state := ETHARP_STATE_STABLE_REREQUESTING\<rparr>"
    have ok1: "arp_ok drv loc s1 ?T" using p by (simp add: arp_post_def)
    have "arp_post drv loc ?T ?T s1 (set_entry i ?e' s1)"
      by (rule arp_post_set_entry [OF ok1 i]) (use arp_ok_entry [OF ok1 i] st tb in \<open>auto simp: entry_ok_def fits_def stable_def\<close>)
    then show "wp t (arp_post drv loc ?T ?T s) (if err = ERR_OK then xbind (get_entry i s1) (\<lambda>e. Some (Inr (set_entry i (e\<lparr>ae_state := ETHARP_STATE_STABLE_REREQUESTING\<rparr>) s1))) else Some (Inr s1))"
      using p arp_ok_get_entry [OF ok1 i] tb arp_post_trans [OF p] by simp
  qed
  have "wp t (arp_post drv loc ?T ?T s) (if ae_state ?e = ETHARP_STATE_STABLE \<and> ae_ctime ?e \<ge> ARP_AGE_REREQUEST_USED
      then xbind (etharp_request L lo n (ae_ipaddr ?e) s) (\<lambda>(err, s).
        if err = ERR_OK then xbind (get_entry i s) (\<lambda>e. Some (Inr (set_entry i (e\<lparr>ae_state := ETHARP_STATE_STABLE_REREQUESTING\<rparr>) s))) else Some (Inr s))
      else Some (Inr s))" using rereq arp_post_refl [OF ok] by simp
  then show ?thesis unfolding etharp_output_to_arp_index_def g xbind_simps using st send by (simp add: wp_xbindI)
qed

text \<open>The copy that is queued.\<close>

lemma query_take_ok:
  assumes ml: "malloc_ok L" and h: "held q ps k bs R s" and ft: "full_tail (sk_heap s) (q # ps)" and rom: "\<And>pb. fmlookup (sk_heap s) q = Some pb \<Longrightarrow> pb_type pb \<noteq> PBUF_ROM"
    and len: "14 \<le> length bs"
  shows "wp t (\<lambda>(p, h'). case p of None \<Rightarrow> h' = sk_heap s
      | Some p \<Rightarrow> arp_post drv loc (add_mset p (add_mset q R)) (add_mset q R) s (s\<lparr>sk_heap := h'\<rparr>) \<and> queued_ok h' p) (query_take L q (sk_heap s))"
proof -
  let ?h = "sk_heap s" and ?T = "add_mset q R + qrefs (arp_table s) + drv (sk_dev s)"
  obtain pb where pb: "fmlookup ?h q = Some pb" "packet ?h (Some q) (q # ps) bs" "arp_ok drv loc s (add_mset q R)" using h by (auto simp: held_iff)
  obtain cs where c: "pb_wf pb" "unat (pb_tot_len pb) = length bs" "bs = pb_data pb @ cs" "packet ?h (pb_next pb) ps cs" using pb(1,2) by auto
  have "pb_len pb \<noteq> pb_tot_len pb \<or> pb_next pb = None"
  proof (rule ccontr)
    assume n: "\<not> (pb_len pb \<noteq> pb_tot_len pb \<or> pb_next pb = None)"
    then obtain b where "pb_next pb = Some b" by auto
    then have "cs \<noteq> []" using packet_nonempty [of ?h b ps cs q] c(4) ft by simp
    then show False using n c(1-3) by auto
  qed
  then have need: "query_copy_needed (Some q) ?h = Some (Inr (Some q))" using pb(1) rom by (subst query_copy_needed.simps) simp
  have hp: "heap_ok ?h ?T" using pb(3) by (simp add: arp_ok_def)
  from heap_ok_alloc [OF ml hp, of PBUF_RAW "pb_tot_len pb"] obtain r h1 where r: "pbuf_alloc L PBUF_RAW (pb_tot_len pb) PBUF_RAM ?h = Some (Inr (r, h1))" by blast
  show ?thesis
  proof (cases r)
    case None
    then show ?thesis using r need pb(1) pbuf_alloc_RAM_None [of L PBUF_RAW "pb_tot_len pb" ?h h1] by (simp add: query_take_def)
  next
    case (Some p)
    from copy_to_fresh [OF ml pb(2) ft c(2) r [unfolded Some]] obtain tb where
      f: "pbuf_copy (Some p) (Some q) h1 = Some (Inr (ERR_OK, fmupd p tb ?h))" "fmlookup ?h p = None" "pb_next tb = None" "pb_ref tb = 1"
        "pb_flags tb = 0" "pb_type tb = PBUF_RAM" "packet (fmupd p tb ?h) (Some p) [p] bs" .
    have "heap_ok (fmupd p tb ?h) (add_mset p (add_mset q R) + qrefs (arp_table s) + drv (sk_dev s))" using heap_ok_new [OF hp f(2,4,3,5)] by simp
    from arp_ok_heap [OF pb(3) this] have "arp_ok drv loc (s\<lparr>sk_heap := fmupd p tb ?h\<rparr>) (add_mset p (add_mset q R))" using kept_new [OF f(2)] by simp
    moreover have "queued_ok (fmupd p tb ?h) p" using f(3,4,7) len by (auto simp: queued_ok_def word_unat_eq_iff)
    ultimately show ?thesis using r Some need pb(1) f(1) kept_new [OF f(2)] pkept_new [OF f(2)] by (simp add: query_take_def arp_post_def)
  qed
qed

lemma query_queue_ok:
  assumes ml: "malloc_ok L" and h: "held q ps k bs R s" and ft: "full_tail (sk_heap s) (q # ps)" and rom: "\<And>pb. fmlookup (sk_heap s) q = Some pb \<Longrightarrow> pb_type pb \<noteq> PBUF_ROM"
    and len: "14 \<le> length bs" and i: "i < ARP_TABLE_SIZE" and st: "ae_state (arp_table s ! i) = ETHARP_STATE_PENDING"
  shows "wp t (\<lambda>(e, s'). arp_post drv loc (add_mset q R) (add_mset q R) s s') (query_queue L q i s)"
  unfolding query_queue_def Let_def
proof (rule wp_xbindI [OF query_take_ok [OF ml h ft rom len]], assumption, clarify)
  fix r h' assume r: "case r of None \<Rightarrow> h' = sk_heap s
      | Some p \<Rightarrow> arp_post drv loc (add_mset p (add_mset q R)) (add_mset q R) s (s\<lparr>sk_heap := h'\<rparr>) \<and> queued_ok h' p"
  let ?T = "add_mset q R" and ?s = "s\<lparr>sk_heap := h'\<rparr>" and ?e = "arp_table s ! i"
  show "wp t (\<lambda>(e, s'). arp_post drv loc ?T ?T s s') (case r of None \<Rightarrow> Some (Inr (ERR_MEM, ?s))
      | Some p \<Rightarrow> xbind (get_entry i ?s) (\<lambda>e. xbind (case ae_q e of None \<Rightarrow> Some (Inr ?s) | Some old \<Rightarrow> free_pbuf L old ?s) (\<lambda>s. Some (Inr (ERR_OK, set_entry i (e\<lparr>ae_q := Some p\<rparr>) s)))))"
  proof (cases r)
    case None
    then show ?thesis using r h by (simp add: held_iff arp_post_def)
  next
    case (Some p)
    then have p: "arp_post drv loc (add_mset p ?T) ?T s ?s" "queued_ok h' p" using r by simp_all
    let ?e' = "?e\<lparr>ae_q := Some p\<rparr>"
    have ok1: "arp_ok drv loc ?s (?T + owner (ae_q ?e'))" using p(1) by (simp add: arp_post_def)
    have en: "entry_ok (sk_heap ?s) ?e'" using arp_ok_entry [OF ok1 i] st p(2) by (simp add: entry_ok_def)
    have ok2: "arp_ok drv loc (set_entry i ?e' ?s) (?T + owner (ae_q ?e))"
      using arp_ok_set_entry [OF ok1 i en] by (simp add: fits_def)
    have g: "get_entry i ?s = Some (Inr ?e)" using arp_ok_get_entry [OF ok1 i] by simp
    show ?thesis
    proof (cases "ae_q ?e")
      case None
      then show ?thesis using Some g ok2 p(1) by (simp add: arp_post_def)
    next
      case (Some old)
      have "wp t (\<lambda>s'. arp_post drv loc ?T ?T (set_entry i ?e' ?s) s' \<and> arp_table s' = arp_table (set_entry i ?e' ?s)) (free_pbuf L old (set_entry i ?e' ?s))"
        by (rule free_pbuf_ok) (use ok2 Some in simp)
      then have "wp t (arp_post drv loc ?T ?T s) (free_pbuf L old (set_entry i ?e' ?s))"
        by (rule wp_mono) (use p(1) in \<open>auto simp: arp_post_def same_env_def set_entry_def intro: kept_trans pkept_trans\<close>)
      then have "wp t (\<lambda>(e, s'). arp_post drv loc ?T ?T s s') (xbind (xbind (free_pbuf L old ?s) (\<lambda>s. Some (Inr (set_entry i ?e' s)))) (\<lambda>s. Some (Inr (ERR_OK, s))))"
        unfolding free_pbuf_set_entry by (rule wp_xbindI) simp
      then show ?thesis using \<open>r = Some p\<close> g Some by (simp add: wp_xbind)
    qed
  qed
qed

end

section \<open>Queries and output\<close>

text \<open>A packet of the caller that \<open>etharp_query\<close> can copy: full buffers behind the first one, which is not \<open>PBUF_ROM\<close>.\<close>

definition copyable :: "heap \<Rightarrow> nat \<Rightarrow> nat list \<Rightarrow> bool" where
  "copyable h q ps \<longleftrightarrow> full_tail h (q # ps) \<and> (\<exists>pb. fmlookup h q = Some pb \<and> pb_type pb \<noteq> PBUF_ROM)"

text \<open>A packet of the caller, before the Ethernet header: with room in front of the data of its first pbuf.\<close>

definition outgoing :: "heap \<Rightarrow> nat \<Rightarrow> nat list \<Rightarrow> u8 list \<Rightarrow> bool" where
  "outgoing h q ps bs \<longleftrightarrow> packet h (Some q) (q # ps) bs \<and> full_tail h (q # ps) \<and> length ps < 255 \<and> length bs + 14 < 65536 \<and>
     (\<exists>pb. fmlookup h q = Some pb \<and> pb_ref pb = 1 \<and> (pb_type pb = PBUF_RAM \<or> pb_type pb = PBUF_POOL) \<and> 14 \<le> pb_payload pb)"

lemma stable_index_Some:
  "stable_index a k es = Some i \<Longrightarrow> k \<le> i \<and> i < k + length es \<and> stable (ae_state (es ! (i - k))) \<and> ae_ipaddr (es ! (i - k)) = a"
proof (induction es arbitrary: k)
  case (Cons e es)
  show ?case
  proof (cases "stable (ae_state e) \<and> a = ae_ipaddr e")
    case False
    then have "stable_index a (k + 1) es = Some i" using Cons.prems by auto
    from Cons.IH [OF this] show ?thesis by (auto simp: nth_Cons')
  qed (use Cons.prems in auto)
qed simp

lemma found_fits: "found a i es \<Longrightarrow> ae_ipaddr e = ae_ipaddr (es ! i) \<Longrightarrow> fits es i e"
  by (auto simp: found_def fits_def)

context netdrv
begin

lemma copyable_post:
  assumes h: "held q ps k bs R s" and c: "copyable (sk_heap s) q ps" and p: "arp_post drv loc (add_mset q R) (add_mset q R) s s'"
  shows "copyable (sk_heap s') q ps"
proof -
  have pk: "pkept (add_mset q R) (sk_heap s) (sk_heap s')" "kept (add_mset q R) (sk_heap s) (sk_heap s')" using p by (simp_all add: arp_post_def)
  have ch: "chain (sk_heap s) (Some q) (q # ps)" using h packet_chain by (auto simp: held_iff)
  obtain pb where pb: "fmlookup (sk_heap s) q = Some pb" "pb_ref pb = 1" using h by (auto simp: held_iff)
  then have "fmlookup (sk_heap s') q = Some pb" using keptD [OF pk(2)] by simp
  moreover have "pb_type pb \<noteq> PBUF_ROM" using c pb(1) by (simp add: copyable_def)
  ultimately show ?thesis using pkept_full_tail [OF pk(1) _ ch] c by (simp add: copyable_def)
qed

lemma held_len: "held q ps k bs R s \<Longrightarrow> unat k \<le> length bs"
  by (auto simp: held_iff)

lemma query_entry_ok:
  assumes ml: "malloc_ok L" and h: "held q ps k bs R s" and c: "copyable (sk_heap s) q ps" and k: "14 \<le> unat k" and nif: "nif_ok (sk_netif s n)"
    and f: "found a i (arp_table s)"
  shows "wp t (\<lambda>(e, s'). arp_post drv loc (add_mset q R) R s s') (query_entry L lo n a (Some q) i s)"
proof -
  let ?T = "add_mset q R" and ?e = "arp_table s ! i"
  let ?e' = "if ae_state ?e = ETHARP_STATE_EMPTY then ?e\<lparr>ae_state := ETHARP_STATE_PENDING\<rparr> else ?e"
  let ?s = "set_entry i ?e' s"
  have i: "i < ARP_TABLE_SIZE" using f by (simp add: found_def)
  have ok: "arp_ok drv loc s ?T" using h by (simp add: held_iff)
  have g: "get_entry i s = Some (Inr ?e)" by (rule arp_ok_get_entry [OF ok i])
  have len: "14 \<le> length bs" using held_len [OF h] k by simp
  have p1: "arp_post drv loc ?T ?T s ?s"
    by (rule arp_post_set_entry [OF ok i]) (use arp_ok_entry [OF ok i] found_fits [OF f] f in \<open>auto simp: entry_ok_def found_def ARP_MAXAGE_def ARP_MAXPENDING_def\<close>)
  have tb: "arp_table ?s ! i = ?e'" using i arp_ok_length [OF ok] by simp
  have rest: "wp t (\<lambda>(e, s'). arp_post drv loc ?T R s s') (xbind (get_entry i s1) (\<lambda>e.
            if stable (ae_state e)
            then etharp_send_ip lo n q (ni_hwaddr (sk_netif s1 n)) (ae_ethaddr e) (s1\<lparr>etharp_cached_entry := of_nat i\<rparr>)
            else if ae_state e = ETHARP_STATE_PENDING then query_queue L q i s1
            else Some (Inr (r, s1))))" if p: "arp_post drv loc ?T ?T s s1" and t1: "arp_table s1 = arp_table ?s" for s1 r
  proof -
    have h1: "held q ps k bs R s1" by (rule held_post [OF h p])
    have ok1: "arp_ok drv loc s1 ?T" using p by (simp add: arp_post_def)
    have x: "nif_ok (sk_netif s1 n)" "length (ni_hwaddr (sk_netif s1 n)) = 6" using nif p by (simp_all add: arp_post_def same_env_def nif_ok_def)
    have c1: "copyable (sk_heap s1) q ps" by (rule copyable_post [OF h c p])
    have eth: "length (ae_ethaddr (arp_table s1 ! i)) = 6" using arp_ok_entry [OF ok1 i] by (simp add: entry_ok_def)
    have pw: "arp_post drv loc ?T R s s1" by (rule arp_post_weaken [OF p])
    have send: "wp t (\<lambda>(e, s'). arp_post drv loc ?T R s s')
        (etharp_send_ip lo n q (ni_hwaddr (sk_netif s1 n)) (ae_ethaddr (arp_table s1 ! i)) (s1\<lparr>etharp_cached_entry := of_nat i\<rparr>))"
    proof -
      have pc: "arp_post drv loc ?T ?T s (s1\<lparr>etharp_cached_entry := of_nat i\<rparr>)" by (rule arp_post_trans [OF p arp_post_cached [OF i ok1]])
      from send_ip_held [OF held_post [OF h pc] k, of n] x eth show ?thesis
        by (auto intro: wp_mono arp_post_trans [OF arp_post_weaken [OF pc]] elim!: wp_mono)
    qed
    have queue: "wp t (\<lambda>(e, s'). arp_post drv loc ?T R s s') (query_queue L q i s1)" if st: "ae_state (arp_table s1 ! i) = ETHARP_STATE_PENDING"
    proof -
      have "wp t (\<lambda>(e, s'). arp_post drv loc ?T ?T s1 s') (query_queue L q i s1)"
        by (rule query_queue_ok [OF ml h1 _ _ len i st]) (use c1 in \<open>auto simp: copyable_def\<close>)
      then show ?thesis by (rule wp_mono) (auto intro: arp_post_trans [OF pw arp_post_weaken])
    qed
    show ?thesis unfolding arp_ok_get_entry [OF ok1 i] xbind_simps using send queue pw by simp
  qed
  have req: "wp t (\<lambda>(e, s'). arp_post drv loc ?T ?T s s' \<and> arp_table s' = arp_table ?s)
      (if ae_state ?e' = ETHARP_STATE_PENDING \<or> Some q = None then etharp_request L lo n a ?s else Some (Inr (ERR_MEM, ?s)))"
  proof -
    have "arp_ok drv loc ?s ?T" "nif_ok (sk_netif ?s n)" using p1 nif by (simp_all add: arp_post_def)
    from etharp_request_ok [OF ml this] have "wp t (\<lambda>(e, s'). arp_post drv loc ?T ?T s s' \<and> arp_table s' = arp_table ?s) (etharp_request L lo n a ?s)"
      by (rule wp_mono) (use arp_post_trans [OF p1] in auto)
    then show ?thesis using p1 by simp
  qed
  show ?thesis unfolding query_entry_def g xbind_simps Let_def option.case
    by (rule wp_xbindI [OF req]) (use rest in auto)
qed

lemma etharp_query_ok:
  assumes ml: "malloc_ok L" and h: "held q ps k bs R s" and c: "copyable (sk_heap s) q ps" and k: "14 \<le> unat k" and nif: "nif_ok (sk_netif s n)"
  shows "wp t (\<lambda>(e, s'). arp_post drv loc (add_mset q R) R s s') (etharp_query L lo n a (Some q) s)"
proof -
  let ?T = "add_mset q R"
  have ok: "arp_ok drv loc s ?T" using h by (simp add: held_iff)
  have "wp t (\<lambda>(e, s'). arp_post drv loc ?T R s s') (xbind (etharp_find_entry L (Some a) ETHARP_FLAG_TRY_HARD s) (\<lambda>(r, s).
      case r of None \<Rightarrow> Some (Inr (ERR_MEM, s)) | Some i \<Rightarrow> query_entry L lo n a (Some q) i s))"
  proof (rule wp_xbindI [OF etharp_find_entry_ok [OF ok]], clarify)
    fix r s1 assume p: "arp_post drv loc ?T ?T s s1" and r: "case r of None \<Rightarrow> s1 = s \<and> ETHARP_FLAG_TRY_HARD \<noteq> ETHARP_FLAG_TRY_HARD
        | Some i \<Rightarrow> found a i (arp_table s1) \<and> (ae_state (arp_table s1 ! i) \<noteq> ETHARP_STATE_EMPTY \<longrightarrow> s1 = s)"
    obtain i where i: "r = Some i" "found a i (arp_table s1)" using r by (cases r) auto
    have nif1: "nif_ok (sk_netif s1 n)" using p nif by (simp add: arp_post_def same_env_def)
    from query_entry_ok [OF ml held_post [OF h p] copyable_post [OF h c p] k nif1 i(2)]
    have "wp t (\<lambda>(e, s'). arp_post drv loc ?T R s s') (query_entry L lo n a (Some q) i s1)"
      by (rule wp_mono) (use arp_post_weaken [OF p] arp_post_trans in auto)
    then show "wp t (\<lambda>(e, s'). arp_post drv loc ?T R s s') (case r of None \<Rightarrow> Some (Inr (ERR_MEM, s1)) | Some i \<Rightarrow> query_entry L lo n a (Some q) i s1)"
      using i(1) by simp
  qed
  then show ?thesis using arp_post_refl [OF ok] by (simp add: etharp_query_def Let_def)
qed

lemma output_unicast_ok:
  assumes ml: "malloc_ok L" and h: "held q ps k bs R s" and c: "copyable (sk_heap s) q ps" and k: "14 \<le> unat k" and nif: "nif_ok (sk_netif s n)"
  shows "wp t (\<lambda>(e, s'). arp_post drv loc (add_mset q R) R s s') (output_unicast L lo n q a s)"
proof -
  let ?T = "add_mset q R" and ?c = "unat (etharp_cached_entry s)"
  have ok: "arp_ok drv loc s ?T" and ci: "?c < ARP_TABLE_SIZE" using h by (simp_all add: held_iff arp_ok_def)
  have other: "wp t (\<lambda>(e, s'). arp_post drv loc ?T R s s') (etharp_output_to_arp_index L lo n q i (s\<lparr>etharp_cached_entry := of_nat i\<rparr>))"
    if "stable_index a 0 (arp_table s) = Some i" for i
  proof -
    from stable_index_Some [OF that] have i: "i < ARP_TABLE_SIZE" "stable (ae_state (arp_table s ! i))" using arp_ok_length [OF ok] by simp_all
    have p: "arp_post drv loc ?T ?T s (s\<lparr>etharp_cached_entry := of_nat i\<rparr>)" by (rule arp_post_cached [OF i(1) ok])
    from output_to_arp_index_ok [OF ml held_post [OF h p] k _ i(1), of n] nif i(2) show ?thesis
      by (auto elim!: wp_mono intro: arp_post_trans [OF arp_post_weaken [OF p]])
  qed
  show ?thesis unfolding output_unicast_def arp_ok_get_entry [OF ok ci] xbind_simps
    using output_to_arp_index_ok [OF ml h k nif ci] other etharp_query_ok [OF ml h c k nif] by (auto split: option.split)
qed

text \<open>Room is made for the Ethernet header.\<close>

lemma output_header:
  assumes ok: "arp_ok drv loc s (add_mset q R)" and o: "outgoing (sk_heap s) q ps bs"
  obtains h1 k hs where "pbuf_header q (int SIZEOF_ETH_HDR) (sk_heap s) = Some (Inr (False, h1))" "held q ps k (hs @ bs) R (s\<lparr>sk_heap := h1\<rparr>)"
    "length hs = 14" "14 \<le> unat k" "copyable h1 q ps" "arp_post drv loc (add_mset q R) R s (s\<lparr>sk_heap := h1\<rparr>)"
proof -
  let ?T = "add_mset q R" and ?h = "sk_heap s"
  obtain pb where pb: "packet ?h (Some q) (q # ps) bs" "fmlookup ?h q = Some pb" "pb_ref pb = 1" "pb_type pb = PBUF_RAM \<or> pb_type pb = PBUF_POOL"
    "14 \<le> pb_payload pb" "length bs + 14 < 65536" "full_tail ?h (q # ps)" "pb_wf pb" using o by (auto simp: outgoing_def)
  define pb' where "pb' = pb\<lparr>pb_payload := pb_payload pb - 14, pb_len := pb_len pb + of_nat 14, pb_tot_len := pb_tot_len pb + of_nat 14\<rparr>"
  let ?hs = "take 14 (drop (pb_payload pb - 14) (pb_mem pb))" and ?s1 = "s\<lparr>sk_heap := fmupd q pb' ?h\<rparr>"
  have z: "(0 :: nat) < 14" by simp
  note H = pbuf_header_show [OF pb(1,2,4) z pb(5,6) pb'_def]
  have fl: "pb_flags pb' AND PBUF_FLAG_IS_CUSTOM = 0"
    using rc_okD(3) [of ?h _ q pb] ok pb(2) by (auto simp: arp_ok_def heap_ok_def pb'_def)
  have p1: "arp_post drv loc ?T R s ?s1" by (rule upd_pbuf_ok [OF ok pb(2) _ _ fl pb(3)]) (simp_all add: pb'_def)
  have "held q ps (pb_len pb') (?hs @ bs) R ?s1"
    using p1 H(2) pb(3) o by (simp add: held_iff arp_post_def pb'_def outgoing_def)
  moreover have "copyable (fmupd q pb' ?h) q ps"
    using pb(4,7) packet_distinct [OF pb(1)] by (auto simp: copyable_def pb'_def full_tail_def)
  moreover have "length ?hs = 14" using pb(5,8) by (simp add: pb_wf_def)
  ultimately show ?thesis using that [of "fmupd q pb' ?h" "pb_len pb'" ?hs] H(1,3) p1 by (simp add: SIZEOF_ETH_HDR_def)
qed

lemma etharp_output_ok:
  assumes ml: "malloc_ok L" and ok: "arp_ok drv loc s (add_mset q R)" and o: "outgoing (sk_heap s) q ps bs" and nif: "nif_ok (sk_netif s n)"
  shows "wp t (\<lambda>(e, s'). arp_post drv loc (add_mset q R) R s s') (etharp_output L lo n q a s)"
proof -
  let ?T = "add_mset q R" and ?x = "sk_netif s n"
  obtain h1 k hs where hd: "pbuf_header q (int SIZEOF_ETH_HDR) (sk_heap s) = Some (Inr (False, h1))" "held q ps k (hs @ bs) R (s\<lparr>sk_heap := h1\<rparr>)"
    "14 \<le> unat k" "copyable h1 q ps" "arp_post drv loc ?T R s (s\<lparr>sk_heap := h1\<rparr>)" by (rule output_header [OF ok o])
  define s1 where "s1 = s\<lparr>sk_heap := h1\<rparr>"
  note h1 = hd(2) [folded s1_def] and p1 = hd(5) [folded s1_def]
  have c1: "copyable (sk_heap s1) q ps" using hd(4) by (simp add: s1_def)
  have x: "nif_ok (sk_netif s1 n)" "sk_netif s1 n = ?x" "length (ni_hwaddr ?x) = 6" using nif by (simp_all add: s1_def nif_ok_def)
  have tr: "wp t (\<lambda>(e, s'). arp_post drv loc ?T R s s') m" if "wp t (\<lambda>(e, s'). arp_post drv loc ?T R s1 s') m" for m :: "(err_t \<times> _) res option"
    using that by (rule wp_mono) (auto intro: arp_post_trans [OF p1])
  have send: "wp t (\<lambda>(e, s'). arp_post drv loc ?T R s s') (etharp_send_ip lo n q (ni_hwaddr ?x) d s1)" if "length d = 6" for d
    by (rule tr [OF send_ip_held [OF h1 hd(3) x(1,3) that]])
  have m: "length ethbroadcast = 6" "length (multicast_addr a) = 6" by (simp_all add: ethbroadcast_def multicast_addr_def)
  show ?thesis unfolding etharp_output_def hd(1) xbind_simps prod.case Let_def if_False s1_def [symmetric] x(2)
    using send [OF m(1)] send [OF m(2)] tr [OF output_unicast_ok [OF ml h1 c1 hd(3) x(1)]] p1 by simp
qed

end

section \<open>Input\<close>

text \<open>Room in front of the data.\<close>

definition headroom :: "nat \<Rightarrow> heap \<Rightarrow> nat \<Rightarrow> bool" where
  "headroom j h p \<longleftrightarrow> (\<exists>pb. fmlookup h p = Some pb \<and> (pb_type pb = PBUF_RAM \<or> pb_type pb = PBUF_POOL) \<and> j \<le> pb_payload pb)"

lemma holding_held_iff: "holding drv loc p ps k bs R s0 s \<Longrightarrow> holding drv loc p ps k bs R s s"
  by (simp add: holding_def arp_post_def)

context netdrv
begin

lemma get_u16_ok: "held p ps k bs R s \<Longrightarrow> off + 2 \<le> unat k \<Longrightarrow> get_u16 p off s = Some (Inr (mk16 (bs ! off) (bs ! (off + 1))))"
  using get_bytes_ok [of p ps k bs R s s off 2] held_len [of p ps k bs R s] by (simp add: held_def get_u16_def)

lemma get_u8_ok: "held p ps k bs R s \<Longrightarrow> off + 1 \<le> unat k \<Longrightarrow> get_u8 p off s = Some (Inr (bs ! off))"
  using get_bytes_ok [of p ps k bs R s s off 1] held_len [of p ps k bs R s] by (simp add: held_def get_u8_def)

lemma get_u32_ok:
  "held p ps k bs R s \<Longrightarrow> off + 4 \<le> unat k \<Longrightarrow> get_u32 p off s = Some (Inr (mk32 (bs ! off) (bs ! (off + 1)) (bs ! (off + 2)) (bs ! (off + 3))))"
  using get_bytes_ok [of p ps k bs R s s off 4] held_len [of p ps k bs R s] by (simp add: held_def get_u32_def)

lemma get_then:
  assumes h: "holding drv loc p ps k bs R s0 s" and off: "off + n \<le> unat k" and f: "\<And>xs. length xs = n \<Longrightarrow> wp t P (f xs)"
  shows "wp t P (xbind (get_bytes p off n s) f)"
proof -
  have "unat k \<le> length bs" using held_len [of p ps k bs R s] holding_held_iff [OF h] by (simp add: held_def)
  then show ?thesis unfolding get_bytes_ok [OF h off] xbind_simps by (intro f) (use off in simp)
qed

lemma arp_reply_ok:
  assumes h: "held p ps k bs R s" and k: "42 \<le> unat k" and nif: "nif_ok (sk_netif s n)" and eth: "length eth = 6"
  shows "wp t (\<lambda>s'. arp_post drv loc (add_mset p R) R s s') (arp_reply lo n eth p s)"
proof -
  note put = wp_xbindI [OF put_bytes_ok]
  have hw: "ni_hwaddr_len (sk_netif s' n) = ETHARP_HWADDR_LEN" if "holding drv loc p ps k bs' R s s'" for bs' s'
    using nif holding_post(3) [OF that] by (simp add: nif_ok_def)
  have send: "wp t (\<lambda>s'. arp_post drv loc (add_mset p R) R s s') (xbind (linkoutput lo n p s') (\<lambda>(_, s). Some (Inr s)))"
    if "holding drv loc p ps k bs' R s s'" for bs' s' by (rule wp_xbindI [OF linkoutput_holding [OF that]]) auto
  show ?thesis unfolding arp_reply_def
    by (rule put [OF h [unfolded held_def]], use k in simp, rule get_then, assumption, use k in simp,
        rule put, assumption, use k in simp, rule put, assumption, use k in simp,
        simp only: hw if_False not_True_eq_False simp_thms, rule get_then, assumption, use k in simp,
        (rule put, assumption, use k eth in simp)+, erule send)
qed

lemma arp_message_ok:
  assumes h: "held p ps k bs R s" and k: "42 \<le> unat k" and nif: "nif_ok (sk_netif s n)" and eth: "length eth = 6"
  shows "wp t (arp_post drv loc R R s) (arp_message L lo n eth p s)"
proof -
  let ?T = "add_mset p R" and ?hw = "take 6 (drop 22 bs)" and ?a = "mk32 (bs ! 28) (bs ! 29) (bs ! 30) (bs ! 31)" and ?d = "mk32 (bs ! 38) (bs ! 39) (bs ! 40) (bs ! 41)"
  let ?us = "ni_ip_addr (sk_netif s n) \<noteq> IPADDR_ANY \<and> ?d = ni_ip_addr (sk_netif s n)"
  have ok: "arp_ok drv loc s ?T" using h by (simp add: held_iff)
  have g: "get_u32 p 28 s = Some (Inr ?a)" "get_u32 p 38 s = Some (Inr ?d)" "get_bytes p 22 6 s = Some (Inr ?hw)" "length ?hw = 6"
    using get_u32_ok [OF h, of 28] get_u32_ok [OF h, of 38] get_bytes_ok [OF h [unfolded held_def], of 22 6] held_len [OF h] k by simp_all
  have fin: "wp t (arp_post drv loc R R s) (free_pbuf L p s')" if "arp_post drv loc ?T R s s'" for s'
  proof -
    have "arp_ok drv loc s' ?T" using that by (simp add: arp_post_def)
    from free_pbuf_ok [OF this] show ?thesis by (rule wp_mono) (use that arp_post_trans in auto)
  qed
  have rest: "wp t (arp_post drv loc R R s) (xbind (get_u16 p 20 s1) (\<lambda>opcode.
        xbind (if opcode = lwip_htons ARP_REQUEST \<and> ?us then arp_reply lo n eth p s1 else Some (Inr s1)) (free_pbuf L p)))"
    if p1: "arp_post drv loc ?T ?T s s1" for s1
  proof -
    have h1: "held p ps k bs R s1" by (rule held_post [OF h p1])
    have x: "nif_ok (sk_netif s1 n)" using p1 nif by (simp add: arp_post_def same_env_def)
    have w: "arp_post drv loc ?T R s s1" by (rule arp_post_weaken [OF p1])
    have "wp t (arp_post drv loc ?T R s) (arp_reply lo n eth p s1)"
      using arp_reply_ok [OF h1 k x eth] by (rule wp_mono) (auto intro: arp_post_trans [OF w])
    then have r: "wp t (arp_post drv loc R R s) (xbind (arp_reply lo n eth p s1) (free_pbuf L p))" by (rule wp_xbindI) (rule fin)
    have u: "get_u16 p 20 s1 = Some (Inr (mk16 (bs ! 20) (bs ! 21)))" using get_u16_ok [OF h1, of 20] k by simp
    show ?thesis unfolding u xbind_simps using r fin [OF w] by simp
  qed
  show ?thesis unfolding arp_message_def g(1-3) xbind_simps Let_def
    by (rule wp_xbindI [OF etharp_update_arp_entry_ok [OF ok nif g(4)]]) (use rest in auto)
qed

text \<open>A frame of the protocol ARP is consumed, whatever it holds.\<close>

lemma etharp_arp_input_ok:
  assumes h: "held p ps k bs R s" and nif: "nif_ok (sk_netif s n)" and eth: "length eth = 6"
  shows "wp t (arp_post drv loc R R s) (etharp_arp_input L lo n eth p s)"
proof -
  obtain pb where pb: "fmlookup (sk_heap s) p = Some pb" "pb_len pb = k" and ok: "arp_ok drv loc s (add_mset p R)" using h by (auto simp: held_iff)
  have fin: "wp t (arp_post drv loc R R s) (free_pbuf L p s)" using free_pbuf_ok [OF ok] by (rule wp_mono) simp
  show ?thesis
  proof (cases "unat k < SIZEOF_ETHARP_PACKET")
    case True
    then show ?thesis using pb fin by (simp add: etharp_arp_input_def)
  next
    case False
    then have k: "42 \<le> unat k" by (simp add: SIZEOF_ETHARP_PACKET_def)
    have g: "get_u16 p 14 s = Some (Inr (mk16 (bs ! 14) (bs ! 15)))" "get_u16 p 16 s = Some (Inr (mk16 (bs ! 16) (bs ! 17)))"
      "get_u8 p 18 s = Some (Inr (bs ! 18))" "get_u8 p 19 s = Some (Inr (bs ! 19))"
      using get_u16_ok [OF h, of 14] get_u16_ok [OF h, of 16] get_u8_ok [OF h, of 18] get_u8_ok [OF h, of 19] k by simp_all
    show ?thesis unfolding etharp_arp_input_def pb(1) option.case pb(2) if_not_P [OF False] g xbind_simps
      using fin arp_message_ok [OF h k nif eth] by simp
  qed
qed

text \<open>A header of \<open>j\<close> bytes of a packet of the caller is hidden.\<close>

lemma held_change:
  assumes h: "held p ps k bs R s" and pb: "fmlookup (sk_heap s) p = Some pb" and pb': "pb_next pb' = pb_next pb" "pb_ref pb' = pb_ref pb"
    "pb_flags pb' AND PBUF_FLAG_IS_CUSTOM = pb_flags pb AND PBUF_FLAG_IS_CUSTOM"
    and pk: "packet (fmupd p pb' (sk_heap s)) (Some p) (p # ps) bs'"
  shows "held p ps (pb_len pb') bs' R (s\<lparr>sk_heap := fmupd p pb' (sk_heap s)\<rparr>)"
    "arp_post drv loc (add_mset p R) R s (s\<lparr>sk_heap := fmupd p pb' (sk_heap s)\<rparr>)"
proof -
  have ok: "arp_ok drv loc s (add_mset p R)" and ref: "pb_ref pb = 1" using h pb by (auto simp: held_iff)
  have "pb_flags pb' AND PBUF_FLAG_IS_CUSTOM = 0" using rc_okD(3) [of "sk_heap s" _ p pb] ok pb pb'(3) by (auto simp: arp_ok_def heap_ok_def)
  then show p: "arp_post drv loc (add_mset p R) R s (s\<lparr>sk_heap := fmupd p pb' (sk_heap s)\<rparr>)"
    by (rule upd_pbuf_ok [OF ok pb pb'(1,2) _ ref])
  show "held p ps (pb_len pb') bs' R (s\<lparr>sk_heap := fmupd p pb' (sk_heap s)\<rparr>)"
    using p pk pb'(2) ref h by (simp add: held_iff arp_post_def)
qed

lemma pbuf_header_hide_held:
  assumes h: "held p ps k bs R s" and pb: "fmlookup (sk_heap s) p = Some pb" and j: "0 < j" "j \<le> unat k"
    and pb': "pb' = pb\<lparr>pb_payload := pb_payload pb + j, pb_len := pb_len pb - of_nat j, pb_tot_len := pb_tot_len pb - of_nat j\<rparr>"
  shows "pbuf_header p (- int j) (sk_heap s) = Some (Inr (False, fmupd p pb' (sk_heap s)))"
    "held p ps (k - of_nat j) (drop j bs) R (s\<lparr>sk_heap := fmupd p pb' (sk_heap s)\<rparr>)"
    "arp_post drv loc (add_mset p R) R s (s\<lparr>sk_heap := fmupd p pb' (sk_heap s)\<rparr>)"
proof -
  have pk: "packet (sk_heap s) (Some p) (p # ps) bs" "pb_len pb = k" using h pb by (auto simp: held_iff)
  obtain h' where h': "pbuf_header p (- int j) (sk_heap s) = Some (Inr (False, h'))" "packet h' (Some p) (p # ps) (drop j bs)"
    using pbuf_header_hide [OF pk(1) pb j(1)] j(2) pk(2) by metis
  have ju: "int j \<le> uint (pb_len pb)" using j(2) pk(2) by (simp only: uint_nat of_nat_le_iff)
  then show 1: "pbuf_header p (- int j) (sk_heap s) = Some (Inr (False, fmupd p pb' (sk_heap s)))"
    using pb j(1) by (auto simp: pbuf_header_def Let_def nat_add_distrib pb')
  then have "packet (fmupd p pb' (sk_heap s)) (Some p) (p # ps) (drop j bs)" using h' by simp
  from held_change [OF h pb _ _ _ this] show "held p ps (k - of_nat j) (drop j bs) R (s\<lparr>sk_heap := fmupd p pb' (sk_heap s)\<rparr>)"
    "arp_post drv loc (add_mset p R) R s (s\<lparr>sk_heap := fmupd p pb' (sk_heap s)\<rparr>)" using pk(2) by (simp_all add: pb')
qed

text \<open>
  A frame of the driver. \<open>ip_in\<close> is \<open>ip_input\<close>: it takes a packet of the caller, without the Ethernet header, and
  releases it.
\<close>

definition takes_packet :: "(nat \<Rightarrow> nat \<Rightarrow> ('d, 'z) stack_scheme \<Rightarrow> (err_t \<times> ('d, 'z) stack_scheme) res option) \<Rightarrow> bool" where
  "takes_packet f \<longleftrightarrow> (\<forall>p n s ps k bs R. held p ps k bs R s \<longrightarrow> headroom SIZEOF_ETH_HDR (sk_heap s) p \<longrightarrow> nif_ok (sk_netif s n) \<longrightarrow>
     wp t (\<lambda>(e, s'). arp_ok drv loc s' R) (f p n s))"

lemma free_and_return_ok:
  "arp_ok drv loc s (add_mset p R) \<Longrightarrow> wp t (\<lambda>(e, s'). arp_ok drv loc s' R) (xbind (free_pbuf L p s) (\<lambda>s. Some (Inr (ERR_OK, s))))"
  by (rule wp_xbindI [OF free_pbuf_ok]) (auto simp: arp_post_def)

lemma eth_flags_custom: "eth_flags dest fl AND PBUF_FLAG_IS_CUSTOM = fl AND PBUF_FLAG_IS_CUSTOM"
  by (simp add: eth_flags_def PBUF_FLAG_LLMCAST_def PBUF_FLAG_LLBCAST_def PBUF_FLAG_IS_CUSTOM_def bit.conj_disj_distrib2)

lemma ethernet_input_ok:
  assumes h: "held p ps k bs R s" and nif: "nif_ok (sk_netif s n)" and ip: "takes_packet ip_in" and hr: "headroom 0 (sk_heap s) p"
  shows "wp t (\<lambda>(e, s'). arp_ok drv loc s' R) (ethernet_input L lo ip_in p n s)"
proof -
  obtain pb where pb: "fmlookup (sk_heap s) p = Some pb" "pb_len pb = k" "packet (sk_heap s) (Some p) (p # ps) bs"
    "pb_type pb = PBUF_RAM \<or> pb_type pb = PBUF_POOL"
    and ok: "arp_ok drv loc s (add_mset p R)" using h hr by (auto simp: held_iff headroom_def)
  show ?thesis
  proof (cases "unat k \<le> SIZEOF_ETH_HDR")
    case True
    then show ?thesis using pb free_and_return_ok [OF ok] by (simp add: ethernet_input_def)
  next
    case False
    then have k: "14 < unat k" by (simp add: SIZEOF_ETH_HDR_def)
    let ?dest = "take 6 bs" and ?ty = "mk16 (bs ! 12) (bs ! 13)"
    have g: "get_u16 p 12 s = Some (Inr ?ty)" "get_bytes p 0 6 s = Some (Inr ?dest)"
      using get_u16_ok [OF h, of 12] get_bytes_ok [OF h [unfolded held_def], of 0 6] k by simp_all
    define pb1 where "pb1 = pb\<lparr>pb_flags := eth_flags ?dest (pb_flags pb)\<rparr>"
    define s1 where "s1 = s\<lparr>sk_heap := fmupd p pb1 (sk_heap s)\<rparr>"
    have pk1: "packet (fmupd p pb1 (sk_heap s)) (Some p) (p # ps) bs"
      using pb(1,3) packet_distinct [OF pb(3)] by (auto simp: pb1_def pb_wf_def pb_data_def)
    have h1: "held p ps k bs R s1"
      unfolding s1_def using held_change(1) [OF h pb(1) _ _ _ pk1] pb(2) by (simp add: pb1_def eth_flags_custom)
    have ok1: "arp_ok drv loc s1 (add_mset p R)" and x: "nif_ok (sk_netif s1 n)" using h1 nif by (simp_all add: held_iff s1_def)
    have pb1: "fmlookup (sk_heap s1) p = Some pb1" by (simp add: s1_def)
    let ?pb2 = "pb1\<lparr>pb_payload := pb_payload pb1 + 14, pb_len := pb_len pb1 - of_nat 14, pb_tot_len := pb_tot_len pb1 - of_nat 14\<rparr>"
    let ?s2 = "s1\<lparr>sk_heap := fmupd p ?pb2 (sk_heap s1)\<rparr>"
    have z: "(0::nat) < 14" "14 \<le> unat k" using k by simp_all
    note hide = pbuf_header_hide_held [OF h1 pb1 z refl]
    have hh: "pbuf_header p (- int SIZEOF_ETH_HDR) (sk_heap s1) = Some (Inr (False, fmupd p ?pb2 (sk_heap s1)))" using hide(1) by (simp add: SIZEOF_ETH_HDR_def)
    have "headroom SIZEOF_ETH_HDR (sk_heap ?s2) p" using pb(4) by (simp add: headroom_def SIZEOF_ETH_HDR_def pb1_def)
    then have ip2: "wp t (\<lambda>(e, s'). arp_ok drv loc s' R) (ip_in p n ?s2)" using ip hide(2) x by (auto simp: takes_packet_def)
    have ip3: "wp t (\<lambda>(e, s'). arp_ok drv loc s' R) (xbind (ip_in p n ?s2) (\<lambda>(_, s). Some (Inr (ERR_OK, s))))" by (rule wp_xbindI [OF ip2]) auto
    have "length (ni_hwaddr (sk_netif s1 n)) = 6" using x by (simp add: nif_ok_def)
    note arp = etharp_arp_input_ok [OF h1 x this]
    have arp3: "wp t (\<lambda>(e, s'). arp_ok drv loc s' R) (xbind (etharp_arp_input L lo n (ni_hwaddr (sk_netif s1 n)) p s1) (\<lambda>s. Some (Inr (ERR_OK, s))))"
      by (rule wp_xbindI [OF arp]) (simp add: arp_post_def)
    show ?thesis
      unfolding ethernet_input_def Let_def pb(1) option.case pb(2) if_not_P [OF False] g xbind_simps pb1_def [symmetric] s1_def [symmetric] hh prod.case if_False
      using ip3 arp3 free_and_return_ok [OF ok1] by simp
  qed
qed

end

section \<open>Frames\<close>

definition eth_frame :: "u8 list \<Rightarrow> u8 list \<Rightarrow> u16 \<Rightarrow> u8 list \<Rightarrow> u8 list" where
  "eth_frame dst src ty data = dst @ src @ [ucast (drop_bit 8 ty), ucast ty] @ data"

text \<open>The fields of an ARP packet, in the order of the wire.\<close>

definition arp_data :: "u16 \<Rightarrow> u8 list \<Rightarrow> u32 \<Rightarrow> u8 list \<Rightarrow> u32 \<Rightarrow> u8 list" where
  "arp_data opcode hwsrc ipsrc hwdst ipdst =
     [0, 1, 8, 0, 6, 4, ucast (drop_bit 8 opcode), ucast opcode] @ hwsrc @ bytes32 ipsrc @ hwdst @ bytes32 ipdst"

lemma bytes16_htons: "bytes16 (lwip_htons x) = [ucast (drop_bit 8 x), ucast x]"
proof -
  have "lwip_htons x = mk16 (hi8 x) (lo8 x)" unfolding htons_bytes mk16_def by (simp add: or.commute)
  then show ?thesis by (simp add: bytes16_def lo8_def [of x] hi8_def [of x])
qed

context netdrv
begin

text \<open>The Ethernet header in front of a packet, for any output function.\<close>

lemma send_ip_run:
  assumes h: "holding drv loc p ps k (hs @ bs) R s0 s" and hs: "length hs = 14" "14 \<le> unat k" and nif: "nif_ok (sk_netif s n)" and a: "length src = 6" "length dst = 6"
    and run: "\<And>s1. holding drv loc p ps k (eth_frame dst src ETHTYPE_IP bs) R s0 s1 \<Longrightarrow> sk_dev s1 = sk_dev s \<Longrightarrow> wp t P (linkoutput lo' n p s1)"
  shows "wp t P (etharp_send_ip lo' n p src dst s)"
proof -
  note put = wp_xbindI [OF put_bytes_ok]
  have c: "ni_hwaddr_len (sk_netif s n) = ETHARP_HWADDR_LEN" using nif by (simp add: nif_ok_def)
  have b: "blit (blit (blit (hs @ bs) 0 dst) 6 src) 12 (bytes16 (lwip_htons ETHTYPE_IP)) = eth_frame dst src ETHTYPE_IP bs"
    using hs(1) a by (simp add: blit_def bytes16_htons eth_frame_def)
  have dev: "sk_dev s1 = sk_dev s" if "holding drv loc p ps k bs' R s0 s1" for s1 bs' using that h by (simp add: holding_def)
  have "wp t P (xbind (put_bytes p 0 dst s) (\<lambda>s. xbind (put_bytes p 6 src s) (\<lambda>s. xbind (put_bytes p 12 (bytes16 (lwip_htons ETHTYPE_IP)) s) (\<lambda>s. linkoutput lo' n p s))))"
    by (rule put [OF h], use hs a in simp, rule put, assumption, use hs a in simp, rule put, assumption, use hs in simp, unfold b, rule run, assumption, erule dev)
  then show ?thesis using c by (simp add: etharp_send_ip_def)
qed

text \<open>An ARP packet that is made and sent, for any output function.\<close>

lemma raw_run:
  assumes ml: "malloc_ok L" and ok: "arp_ok drv loc s R" and nif: "nif_ok (sk_netif s n)"
    and a: "length ethsrc = 6" "length ethdst = 6" "length hwsrc = 6" "length hwdst = 6"
    and mem: "P (ERR_MEM, s)"
    and run: "\<And>p s1. holding drv loc p [] 42 (eth_frame ethdst ethsrc ETHTYPE_ARP (arp_data opcode hwsrc ipsrc hwdst ipdst)) R s s1 \<Longrightarrow>
        fmlookup (sk_heap s) p = None \<Longrightarrow> wp t P (xbind (linkoutput lo' n p s1) (\<lambda>(result, s). xbind (free_pbuf L p s) (\<lambda>s. Some (Inr (result, s)))))"
  shows "wp t P (etharp_raw L lo' n ethsrc ethdst hwsrc ipsrc hwdst ipdst opcode s)"
proof -
  have sz: "SIZEOF_ETHARP_PACKET = 42" by (simp add: SIZEOF_ETHARP_PACKET_def)
  from alloc_ok [OF ml ok, of PBUF_RAW "of_nat SIZEOF_ETHARP_PACKET"] show ?thesis
  proof (elim disjE exE conjE)
    assume "pbuf_alloc L PBUF_RAW (of_nat SIZEOF_ETHARP_PACKET) PBUF_RAM (sk_heap s) = Some (Inr (None, sk_heap s))"
    then show ?thesis using mem by (simp add: etharp_raw_def)
  next
    fix p h' bs
    assume al: "pbuf_alloc L PBUF_RAW (of_nat SIZEOF_ETHARP_PACKET) PBUF_RAM (sk_heap s) = Some (Inr (Some p, h'))"
      and h: "holding drv loc p [] (of_nat SIZEOF_ETHARP_PACKET) bs R s (s\<lparr>sk_heap := h'\<rparr>)" and len: "length bs = unat (of_nat SIZEOF_ETHARP_PACKET :: u16)"
      and new: "fmlookup (sk_heap s) p = None"
    have k: "unat (of_nat SIZEOF_ETHARP_PACKET :: u16) = 42" "(of_nat SIZEOF_ETHARP_PACKET :: u16) = 42" by (simp_all add: sz)
    obtain pb where pb: "fmlookup h' p = Some pb" "pb_len pb = of_nat SIZEOF_ETHARP_PACKET" using h by (auto simp: holding_def)
    have hw: "ni_hwaddr_len (sk_netif s' n) = ETHARP_HWADDR_LEN" if "holding drv loc p [] (of_nat SIZEOF_ETHARP_PACKET) bs' R s s'" for bs' s'
      using nif holding_post(3) [OF that] by (simp add: nif_ok_def)
    have ge: "\<not> \<not> SIZEOF_ETHARP_PACKET \<le> unat (pb_len pb)" using pb(2) k sz by simp
    note put = wp_xbindI [OF put_bytes_ok]
    let ?bs = "blit (blit (blit (blit (blit (blit (blit (blit (blit (blit (blit (blit bs 20 (bytes16 (lwip_htons opcode))) 22 hwsrc) 32 hwdst) 0 ethdst) 6 ethsrc)
        28 (bytes32 ipsrc)) 38 (bytes32 ipdst)) 14 (bytes16 (lwip_htons HWTYPE_ETHERNET))) 16 (bytes16 (lwip_htons ETHTYPE_IP))) 18 [ETHARP_HWADDR_LEN]) 19 [4])
        12 (bytes16 (lwip_htons ETHTYPE_ARP))"
    have bs: "?bs = eth_frame ethdst ethsrc ETHTYPE_ARP (arp_data opcode hwsrc ipsrc hwdst ipdst)"
      using a len k by (simp add: blit_def bytes16_htons eth_frame_def arp_data_def HWTYPE_ETHERNET_def ETHTYPE_IP_def ETHARP_HWADDR_LEN_def)
    show ?thesis unfolding etharp_raw_def al xbind_simps prod.case Let_def option.case pb(1) if_not_P [OF ge]
      by (rule wp_xbindI [OF put_bytes_ok [OF h]], simp add: k, simp only: hw if_False not_True_eq_False simp_thms,
          (rule put, assumption, simp add: k a)+, rule run [OF _ new], simp only: bs k)
  qed
qed

end

end
