(* ===== verification/Phy.thy ===== *)
theory Phy
  imports Protocol
begin

text \<open>
  The driver of the Ethernet PHY (\<^verbatim>\<open>src/src/lpc_phy_smsc87x0.c\<close>, in the variant that is compiled, without
  \<open>DEBUG_ETH_PHY\<close>) and the link part of the network application (\<^verbatim>\<open>src/src/emac_app.cpp\<close>). The MAC of the
  chip is a parameter, the record \<open>enet\<close> of the functions of the chip library and of the network stack on
  a state of type \<open>'h\<close>, together with the delay function given to \<open>lpc_phy_init\<close>.
\<close>

section \<open>The MII bus\<close>

record 'h enet =
  StartMIIWrite :: "u8 \<Rightarrow> u16 \<Rightarrow> 'h \<Rightarrow> 'h"
  StartMIIRead :: "u8 \<Rightarrow> 'h \<Rightarrow> 'h"
  IsMIIBusy :: "'h \<Rightarrow> bool \<times> 'h"
  ReadMIIData :: "'h \<Rightarrow> u16 \<times> 'h"
  pDelayMs :: "nat \<Rightarrow> 'h \<Rightarrow> 'h"
  SetSpeed :: "bool \<Rightarrow> 'h \<Rightarrow> 'h"
  SetDuplex :: "bool \<Rightarrow> 'h \<Rightarrow> 'h"
  set_link :: "bool \<Rightarrow> 'h \<Rightarrow> 'h"

datatype status = ERROR | SUCCESS

definition LAN8_BCR_REG :: u8 where "LAN8_BCR_REG = 0"
definition LAN8_BSR_REG :: u8 where "LAN8_BSR_REG = 1"
definition LAN8_PHYSPLCTL_REG :: u8 where "LAN8_PHYSPLCTL_REG = 0x1F"

definition LAN8_RESET :: u16 where "LAN8_RESET = 0x8000"
definition LAN8_AUTONEG :: u16 where "LAN8_AUTONEG = 0x1000"
definition LAN8_POWER_DOWN :: u16 where "LAN8_POWER_DOWN = 0x0800"
definition LAN8_LINK_STATUS :: u16 where "LAN8_LINK_STATUS = 0x0004"
definition LAN8_SPEEDMASK :: u16 where "LAN8_SPEEDMASK = 0x1C"
definition LAN8_SPEED100F :: u16 where "LAN8_SPEED100F = 0x18"
definition LAN8_SPEED10F :: u16 where "LAN8_SPEED10F = 0x14"
definition LAN8_SPEED100H :: u16 where "LAN8_SPEED100H = 0x08"
definition LAN8_SPEED10H :: u16 where "LAN8_SPEED10H = 0x04"

definition PHY_LINK_BUSY :: u32 where "PHY_LINK_BUSY = 2"
definition PHY_LINK_CHANGED :: u32 where "PHY_LINK_CHANGED = 4"
definition PHY_LINK_CONNECTED :: u32 where "PHY_LINK_CONNECTED = 8"
definition PHY_LINK_SPEED100 :: u32 where "PHY_LINK_SPEED100 = 16"
definition PHY_LINK_FULLDUPLX :: u32 where "PHY_LINK_FULLDUPLX = 32"

lemmas phy_consts = LAN8_LINK_STATUS_def LAN8_SPEEDMASK_def LAN8_SPEED100F_def LAN8_SPEED10F_def LAN8_SPEED100H_def
  LAN8_SPEED10H_def PHY_LINK_BUSY_def PHY_LINK_CHANGED_def PHY_LINK_CONNECTED_def PHY_LINK_SPEED100_def PHY_LINK_FULLDUPLX_def

text \<open>The wait for the bus: \<open>mst\<close> counts down from 250 milliseconds.\<close>

fun mii_wait :: "'h enet \<Rightarrow> nat \<Rightarrow> 'h \<Rightarrow> status \<times> 'h" where
  "mii_wait k 0 h = (ERROR, h)"
| "mii_wait k (Suc mst) h =
     (case IsMIIBusy k h of
        (True, h) \<Rightarrow> mii_wait k mst (pDelayMs k 1 h)
      | (False, h) \<Rightarrow> (SUCCESS, h))"

definition lpc_mii_write :: "'h enet \<Rightarrow> u8 \<Rightarrow> u16 \<Rightarrow> 'h \<Rightarrow> status \<times> 'h" where
  "lpc_mii_write k reg data h = mii_wait k 250 (StartMIIWrite k reg data h)"

text \<open>The variable behind the pointer keeps its value when the read fails.\<close>

definition lpc_mii_read :: "'h enet \<Rightarrow> u8 \<Rightarrow> u16 \<Rightarrow> 'h \<Rightarrow> status \<times> u16 \<times> 'h" where
  "lpc_mii_read k reg data h =
     (case mii_wait k 250 (StartMIIRead k reg h) of
        (ERROR, h) \<Rightarrow> (ERROR, data, h)
      | (SUCCESS, h) \<Rightarrow> (case ReadMIIData k h of (v, h) \<Rightarrow> (SUCCESS, v, h)))"

section \<open>The driver\<close>

record phy =
  physts :: u32
  olddphysts :: u32
  phyustate :: nat
  phy_sts :: u16

text \<open>The wait for the end of the reset; the result tells a timeout and a failed read.\<close>

fun phy_reset_wait :: "'h enet \<Rightarrow> nat \<Rightarrow> u16 \<Rightarrow> 'h \<Rightarrow> status \<times> 'h" where
  "phy_reset_wait k 0 regv h = (ERROR, h)"
| "phy_reset_wait k (Suc i) regv h =
     (case lpc_mii_read k LAN8_BCR_REG regv h of
        (ERROR, regv, h) \<Rightarrow> (ERROR, h)
      | (SUCCESS, regv, h) \<Rightarrow>
          if regv AND (LAN8_RESET OR LAN8_POWER_DOWN) = 0 then (SUCCESS, h)
          else phy_reset_wait k i regv (pDelayMs k 1 h))"

text \<open>\<open>stk\<close> is the uninitialised local variable \<open>regv\<close>.\<close>

definition lpc_phy_init :: "'h enet \<Rightarrow> u16 \<Rightarrow> phy \<Rightarrow> 'h \<Rightarrow> status \<times> phy \<times> 'h" where
  "lpc_phy_init k stk p h =
     (let p = p\<lparr>physts := 0, olddphysts := 0, phyustate := 0\<rparr> in
      case lpc_mii_write k LAN8_BCR_REG LAN8_RESET h of
        (ERROR, h) \<Rightarrow> (ERROR, p, h)
      | (SUCCESS, h) \<Rightarrow>
          (case phy_reset_wait k 500 stk h of
             (ERROR, h) \<Rightarrow> (ERROR, p, h)
           | (SUCCESS, h) \<Rightarrow> (SUCCESS, p, snd (lpc_mii_write k LAN8_BCR_REG LAN8_AUTONEG h))))"

definition smsc_update_phy_sts :: "u16 \<Rightarrow> u16 \<Rightarrow> phy \<Rightarrow> phy" where
  "smsc_update_phy_sts linksts sdsts p =
     (let s = physts p;
          s = (if linksts AND LAN8_LINK_STATUS \<noteq> 0 then s OR PHY_LINK_CONNECTED else s AND NOT PHY_LINK_CONNECTED);
          m = sdsts AND LAN8_SPEEDMASK;
          s = (if m = LAN8_SPEED10F then (s AND NOT PHY_LINK_SPEED100) OR PHY_LINK_FULLDUPLX
               else if m = LAN8_SPEED100H then (s OR PHY_LINK_SPEED100) AND NOT PHY_LINK_FULLDUPLX
               else if m = LAN8_SPEED10H then (s AND NOT PHY_LINK_SPEED100) AND NOT PHY_LINK_FULLDUPLX
               else (s OR PHY_LINK_SPEED100) OR PHY_LINK_FULLDUPLX);
          flags = PHY_LINK_SPEED100 OR PHY_LINK_FULLDUPLX OR PHY_LINK_CONNECTED
      in if s AND flags \<noteq> olddphysts p AND flags
         then p\<lparr>physts := s OR PHY_LINK_CHANGED, olddphysts := s\<rparr>
         else p\<lparr>physts := s\<rparr>)"

definition lpcPHYStsPoll :: "'h enet \<Rightarrow> phy \<Rightarrow> 'h \<Rightarrow> u32 \<times> phy \<times> 'h" where
  "lpcPHYStsPoll k p h =
     (case (if phyustate p = 1 then
              (case IsMIIBusy k h of
                 (True, h) \<Rightarrow> (p, h)
               | (False, h) \<Rightarrow> (case ReadMIIData k h of (v, h) \<Rightarrow>
                   (p\<lparr>phy_sts := v, phyustate := 2\<rparr>, StartMIIRead k LAN8_PHYSPLCTL_REG h)))
            else if phyustate p = 2 then
              (case IsMIIBusy k h of
                 (True, h) \<Rightarrow> (p, h)
               | (False, h) \<Rightarrow> (case ReadMIIData k h of (v, h) \<Rightarrow>
                   ((smsc_update_phy_sts (phy_sts p) v (p\<lparr>physts := physts p AND NOT PHY_LINK_BUSY\<rparr>))\<lparr>phyustate := 0\<rparr>, h)))
            else (p\<lparr>physts := (physts p AND NOT PHY_LINK_CHANGED) OR PHY_LINK_BUSY, phyustate := 1\<rparr>,
                  StartMIIRead k LAN8_BSR_REG h)) of
        (p, h) \<Rightarrow> (physts p, p, h))"

section \<open>The link of the network application\<close>

record emac =
  em_macAddress :: "u8 list"
  em_ipaddr :: u32
  em_netmask :: u32
  em_gw :: u32
  em_linkStatus :: u32
  em_phy :: phy

definition setMacAddress :: "u32 \<Rightarrow> u32 \<Rightarrow> emac \<Rightarrow> emac" where
  "setMacAddress hi lo e =
     e\<lparr>em_macAddress := [ucast (drop_bit 8 hi), ucast hi, ucast (drop_bit 24 lo), ucast (drop_bit 16 lo),
                         ucast (drop_bit 8 lo), ucast lo]\<rparr>"

definition setIpAddress :: "u32 \<Rightarrow> u32 \<Rightarrow> u32 \<Rightarrow> emac \<Rightarrow> emac" where
  "setIpAddress ip gw smask e = e\<lparr>em_ipaddr := ip, em_gw := gw, em_netmask := smask\<rparr>"

definition getLinkStatus :: "emac \<Rightarrow> u32" where "getLinkStatus e = em_linkStatus e"

text \<open>
  \<open>init\<close> up to the network stack: \<open>netif_add\<close> calls the driver, which initialises the PHY; its result is not
  looked at here.
\<close>

definition emac_init :: "'h enet \<Rightarrow> u16 \<Rightarrow> emac \<Rightarrow> 'h \<Rightarrow> emac \<times> 'h" where
  "emac_init k stk e h =
     (case lpc_phy_init k stk (em_phy e) h of (_, p, h) \<Rightarrow> (e\<lparr>em_linkStatus := 0, em_phy := p\<rparr>, h))"

definition processLinkStatus :: "'h enet \<Rightarrow> emac \<Rightarrow> 'h \<Rightarrow> bool \<times> emac \<times> 'h" where
  "processLinkStatus k e h =
     (case lpcPHYStsPoll k (em_phy e) h of (s, p, h) \<Rightarrow>
        let e = e\<lparr>em_phy := p\<rparr> in
        if s AND PHY_LINK_CHANGED \<noteq> 0 then
          (if s AND PHY_LINK_CONNECTED \<noteq> 0 then
             (True, e\<lparr>em_linkStatus := 1\<rparr>,
              set_link k True (SetDuplex k (s AND PHY_LINK_FULLDUPLX \<noteq> 0) (SetSpeed k (s AND PHY_LINK_SPEED100 \<noteq> 0) h)))
           else (True, e\<lparr>em_linkStatus := 0\<rparr>, set_link k False h))
        else (False, e, h))"


section \<open>Status bits\<close>

lemma phy_consts_exp:
  "PHY_LINK_BUSY = 2 ^ 1" "PHY_LINK_CHANGED = 2 ^ 2" "PHY_LINK_CONNECTED = 2 ^ 3" "PHY_LINK_SPEED100 = 2 ^ 4"
  "PHY_LINK_FULLDUPLX = 2 ^ 5" "LAN8_LINK_STATUS = 2 ^ 2"
  by (simp_all add: phy_consts)

text \<open>Connection, speed and duplex mode of a status word.\<close>

definition link_bits :: "u32 \<Rightarrow> bool \<times> bool \<times> bool" where
  "link_bits s = (bit s 3, bit s 4, bit s 5)"

definition speed_bits :: "u16 \<Rightarrow> bool \<times> bool" where
  "speed_bits v =
     (let m = v AND LAN8_SPEEDMASK in
      if m = LAN8_SPEED10F then (False, True) else if m = LAN8_SPEED100H then (True, False)
      else if m = LAN8_SPEED10H then (False, False) else (True, True))"

lemma and_flag [simp]:
  "(s AND PHY_LINK_CHANGED = 0) = (\<not> bit s 2)" "(s AND PHY_LINK_CONNECTED = 0) = (\<not> bit s 3)"
  "(s AND PHY_LINK_SPEED100 = 0) = (\<not> bit s 4)" "(s AND PHY_LINK_FULLDUPLX = 0) = (\<not> bit s 5)"
  "(v AND LAN8_LINK_STATUS = 0) = (\<not> bit v 2)"
  unfolding phy_consts_exp by (rule and_exp_eq_0_iff_not_bit)+

lemma bit_flags:
  "bit PHY_LINK_BUSY n = (n = 1)" "bit PHY_LINK_CHANGED n = (n = 2)" "bit PHY_LINK_CONNECTED n = (n = 3)"
  "bit PHY_LINK_SPEED100 n = (n = 4)" "bit PHY_LINK_FULLDUPLX n = (n = 5)"
  unfolding phy_consts_exp bit_exp_iff by auto

lemma and_flags_eq:
  "(s AND (PHY_LINK_SPEED100 OR PHY_LINK_FULLDUPLX OR PHY_LINK_CONNECTED) =
    t AND (PHY_LINK_SPEED100 OR PHY_LINK_FULLDUPLX OR PHY_LINK_CONNECTED)) = (link_bits s = link_bits t)"
  (is "?l = ?r")
proof
  assume ?l
  then have "bit (s AND (PHY_LINK_SPEED100 OR PHY_LINK_FULLDUPLX OR PHY_LINK_CONNECTED)) n =
      bit (t AND (PHY_LINK_SPEED100 OR PHY_LINK_FULLDUPLX OR PHY_LINK_CONNECTED)) n" for n by simp
  from this [of 3] this [of 4] this [of 5] show ?r by (simp add: link_bits_def bit_and_iff bit_or_iff bit_flags)
next
  assume ?r
  then show ?l by (intro bit_word_eqI) (auto simp: link_bits_def bit_and_iff bit_or_iff bit_flags)
qed

lemma smsc_update_law:
  assumes "smsc_update_phy_sts v w p = p'"
  shows "link_bits (physts p') = (bit v 2, fst (speed_bits w), snd (speed_bits w))"
    and "link_bits (olddphysts p') = link_bits (physts p')"
    and "\<not> bit (physts p) 2 \<Longrightarrow> bit (physts p') 2 = (link_bits (physts p') \<noteq> link_bits (olddphysts p))"
    and "phyustate p' = phyustate p"
proof -
  define s where "s = (let s = physts p;
          s = (if v AND LAN8_LINK_STATUS \<noteq> 0 then s OR PHY_LINK_CONNECTED else s AND NOT PHY_LINK_CONNECTED);
          m = w AND LAN8_SPEEDMASK
     in if m = LAN8_SPEED10F then (s AND NOT PHY_LINK_SPEED100) OR PHY_LINK_FULLDUPLX
               else if m = LAN8_SPEED100H then (s OR PHY_LINK_SPEED100) AND NOT PHY_LINK_FULLDUPLX
               else if m = LAN8_SPEED10H then (s AND NOT PHY_LINK_SPEED100) AND NOT PHY_LINK_FULLDUPLX
               else (s OR PHY_LINK_SPEED100) OR PHY_LINK_FULLDUPLX)"
  have p': "p' = (if link_bits s \<noteq> link_bits (olddphysts p)
         then p\<lparr>physts := s OR PHY_LINK_CHANGED, olddphysts := s\<rparr> else p\<lparr>physts := s\<rparr>)"
    using assms unfolding smsc_update_phy_sts_def Let_def and_flags_eq s_def by simp
  have bits: "link_bits s = (bit v 2, fst (speed_bits w), snd (speed_bits w))"
    by (auto simp: s_def Let_def speed_bits_def link_bits_def bit_and_iff bit_or_iff bit_not_iff bit_flags)
  have b2: "bit s 2 = bit (physts p) 2"
    by (auto simp: s_def Let_def bit_and_iff bit_or_iff bit_not_iff bit_flags)
  have ch: "link_bits (s OR PHY_LINK_CHANGED) = link_bits s" by (simp add: link_bits_def bit_or_iff bit_flags)
  show "link_bits (physts p') = (bit v 2, fst (speed_bits w), snd (speed_bits w))"
    "link_bits (olddphysts p') = link_bits (physts p')" "phyustate p' = phyustate p"
    using p' bits ch by (auto split: if_splits)
  show "bit (physts p') 2 = (link_bits (physts p') \<noteq> link_bits (olddphysts p))" if "\<not> bit (physts p) 2"
    using p' b2 ch that by (auto simp: bit_or_iff bit_flags)
qed


section \<open>The state machine\<close>

definition phy_inv :: "phy \<Rightarrow> bool" where
  "phy_inv p \<longleftrightarrow> link_bits (olddphysts p) = link_bits (physts p) \<and> (phyustate p = 1 \<or> phyustate p = 2 \<longrightarrow> \<not> bit (physts p) 2)"

text \<open>One call: it completes a cycle (and compares), or it keeps the reported link and reports no change.\<close>

lemma lpcPHYStsPoll_law:
  assumes inv: "phy_inv p" and run: "lpcPHYStsPoll k p h = (s, p', h')"
  shows "s = physts p'" and "phy_inv p'" and "bit s 2 = (link_bits (physts p') \<noteq> link_bits (physts p))"
proof -
  show s: "s = physts p'" using run by (auto simp: lpcPHYStsPoll_def split: prod.splits)
  have same: "phy_inv p' \<and> bit (physts p') 2 = (link_bits (physts p') \<noteq> link_bits (physts p))"
  proof -
    consider (start) "p' = p\<lparr>physts := (physts p AND NOT PHY_LINK_CHANGED) OR PHY_LINK_BUSY, phyustate := 1\<rparr>"
      | (wait) "p' = p" "phyustate p = 1 \<or> phyustate p = 2"
      | (read) v where "p' = p\<lparr>phy_sts := v, phyustate := 2\<rparr>" "phyustate p = 1"
      | (update) v where "p' = (smsc_update_phy_sts (phy_sts p) v (p\<lparr>physts := physts p AND NOT PHY_LINK_BUSY\<rparr>))\<lparr>phyustate := 0\<rparr>"
          "phyustate p = 2"
      using run by (auto simp: lpcPHYStsPoll_def split: prod.splits if_splits bool.splits)
    then show ?thesis
    proof cases
      case start
      then show ?thesis using inv by (auto simp: phy_inv_def link_bits_def bit_and_iff bit_or_iff bit_not_iff bit_flags)
    next
      case (update v)
      let ?q = "p\<lparr>physts := physts p AND NOT PHY_LINK_BUSY\<rparr>"
      note u = smsc_update_law [of "phy_sts p" v ?q, OF refl]
      have "\<not> bit (physts ?q) 2" using inv update(2) by (simp add: phy_inv_def bit_and_iff)
      then show ?thesis using u update(1) inv by (simp add: phy_inv_def)
    qed (use inv in \<open>auto simp: phy_inv_def\<close>)
  qed
  then show "phy_inv p'" "bit s 2 = (link_bits (physts p') \<noteq> link_bits (physts p))" using s by simp_all
qed

lemma mii_wait_time:
  assumes "\<And>h. t (snd (IsMIIBusy k h)) = t h" and "\<And>n h. t (pDelayMs k n h) = t h + n"
  shows "t (snd (mii_wait k mst h)) \<le> t h + mst"
proof (induction mst arbitrary: h)
  case (Suc mst)
  obtain b g where b: "IsMIIBusy k h = (b, g)" by fastforce
  then have "t g = t h" using assms(1) [of h] by simp
  then show ?case using Suc.IH [of "pDelayMs k 1 g"] assms(2) [of 1 g] b by (cases b) simp_all
qed simp

section \<open>Reachable states of the link\<close>

inductive link_reach :: "'h enet \<Rightarrow> emac \<Rightarrow> bool" for k where
  start: "emac_init k stk e h = (e', h') \<Longrightarrow> link_reach k e'"
| poll: "link_reach k e \<Longrightarrow> processLinkStatus k e h = (r, e', h') \<Longrightarrow> link_reach k e'"

lemma processLinkStatus_law:
  assumes inv: "phy_inv (em_phy e)" and ls: "em_linkStatus e = (if bit (physts (em_phy e)) 3 then 1 else 0)"
    and run: "processLinkStatus k e h = (r, e', h')"
  shows "phy_inv (em_phy e')" and "em_linkStatus e' = (if bit (physts (em_phy e')) 3 then 1 else 0)"
    and "r = (link_bits (physts (em_phy e')) \<noteq> link_bits (physts (em_phy e)))"
proof -
  obtain s p g where p: "lpcPHYStsPoll k (em_phy e) h = (s, p, g)" by (metis prod_cases3)
  note l = lpcPHYStsPoll_law [OF inv p]
  have e': "em_phy e' = p" "r = bit s 2" "em_linkStatus e' = (if bit s 2 then (if bit s 3 then 1 else 0) else em_linkStatus e)"
    using run p by (auto simp: processLinkStatus_def Let_def split: if_splits)
  show "phy_inv (em_phy e')" "r = (link_bits (physts (em_phy e')) \<noteq> link_bits (physts (em_phy e)))"
    using e' l by simp_all
  show "em_linkStatus e' = (if bit (physts (em_phy e')) 3 then 1 else 0)"
    using e' l ls by (auto simp: link_bits_def)
qed

lemma link_reach_inv:
  "link_reach k e \<Longrightarrow> phy_inv (em_phy e) \<and> em_linkStatus e = (if bit (physts (em_phy e)) 3 then 1 else 0)"
proof (induction rule: link_reach.induct)
  case (start stk e h e' h')
  then have "physts (em_phy e') = 0" "olddphysts (em_phy e') = 0" "phyustate (em_phy e') = 0" "em_linkStatus e' = 0"
    by (auto simp: emac_init_def lpc_phy_init_def Let_def split: prod.splits status.splits)
  then show ?case by (simp add: phy_inv_def)
next
  case (poll e h r e' h')
  then show ?case using processLinkStatus_law [of e k h r e' h'] by simp
qed

section \<open>An instance\<close>

text \<open>A bus that is never busy and returns the given register values one after the other, with a clock.\<close>

definition ex_enet :: "(nat \<times> u16 list) enet" where
  "ex_enet = \<lparr>StartMIIWrite = (\<lambda>r v h. h), StartMIIRead = (\<lambda>r h. h), IsMIIBusy = (\<lambda>h. (False, h)),
     ReadMIIData = (\<lambda>(t, vs). (case vs of [] \<Rightarrow> (0, (t, [])) | v # vs \<Rightarrow> (v, (t, vs)))),
     pDelayMs = (\<lambda>n (t, vs). (t + n, vs)), SetSpeed = (\<lambda>b h. h), SetDuplex = (\<lambda>b h. h), set_link = (\<lambda>b h. h)\<rparr>"

definition ex_phy :: phy where "ex_phy = \<lparr>physts = 0, olddphysts = 0, phyustate = 0, phy_sts = 0\<rparr>"

definition ex_emac :: emac where
  "ex_emac = \<lparr>em_macAddress = [], em_ipaddr = 0, em_netmask = 0, em_gw = 0, em_linkStatus = 0, em_phy = ex_phy\<rparr>"

definition ex_emac2 :: emac where
  "ex_emac2 = ex_emac\<lparr>em_phy := ex_phy\<lparr>phy_sts := 4, phyustate := 2, physts := 2\<rparr>\<rparr>"

lemma ex_link_reach: "link_reach ex_enet ex_emac2"
proof -
  have i: "emac_init ex_enet 0 ex_emac (0, [0]) = (ex_emac, (0, []))"
    by (simp add: emac_init_def lpc_phy_init_def lpc_mii_write_def lpc_mii_read_def ex_enet_def ex_emac_def ex_phy_def
      eval_nat_numeral)
  define e1 where "e1 = ex_emac\<lparr>em_phy := ex_phy\<lparr>physts := 2, phyustate := 1\<rparr>\<rparr>"
  have p1: "processLinkStatus ex_enet ex_emac (0, [4]) = (False, e1, (0, [4]))"
    by (simp add: processLinkStatus_def lpcPHYStsPoll_def ex_emac_def ex_phy_def e1_def ex_enet_def phy_consts)
  have p2: "processLinkStatus ex_enet e1 (0, [4]) = (False, ex_emac2, (0, []))"
    by (simp add: processLinkStatus_def lpcPHYStsPoll_def ex_emac2_def ex_emac_def ex_phy_def e1_def ex_enet_def phy_consts)
  show ?thesis by (rule link_reach.poll [OF link_reach.poll [OF link_reach.start [OF i] p1] p2])
qed

section \<open>Properties\<close>

text \<open>
  In every state that calls of the polling state machine reach from the initialisation, whatever the
  bus answers, the link status of the application is the connection bit of the last completed status
  reading, and a call reports a change exactly when connection, speed or duplex mode of the reading
  differ from the reading before.
\<close>

lemma link_status_follows_phy:
  assumes "link_reach k e" and "processLinkStatus k e h = (r, e', h')"
  shows "getLinkStatus e' = (if bit (physts (em_phy e')) 3 then 1 else 0) \<and>
     r = (link_bits (physts (em_phy e')) \<noteq> link_bits (physts (em_phy e)))"
proof -
  have "phy_inv (em_phy e)" "em_linkStatus e = (if bit (physts (em_phy e)) 3 then 1 else 0)"
    using link_reach_inv [OF assms(1)] by simp_all
  from processLinkStatus_law [OF this assms(2)] show ?thesis by (simp add: getLinkStatus_def)
qed


lemma link_status_follows_phy_example:
  "\<exists>e'. processLinkStatus ex_enet ex_emac2 (0, [0x18]) = (True, e', (0, [])) \<and> getLinkStatus e' = 1 \<and>
     link_bits (physts (em_phy e')) = (True, True, True)"
proof -
  obtain r e' h' where run: "processLinkStatus ex_enet ex_emac2 (0, [0x18]) = (r, e', h')" by (metis prod_cases3)
  have v: "physts (em_phy e') = 0x3C" "r = True" "h' = (0, [])"
    using run by (auto simp: processLinkStatus_def lpcPHYStsPoll_def ex_emac2_def ex_emac_def ex_phy_def ex_enet_def
      smsc_update_phy_sts_def phy_consts Let_def)
  have "bit (0x3C :: u32) 3" "bit (0x3C :: u32) 4" "bit (0x3C :: u32) 5" by (simp_all add: bit_numeral_rec)
  then show ?thesis using link_status_follows_phy [OF ex_link_reach run] run v by (simp add: link_bits_def)
qed

text \<open>
  C38: the initialisation of the PHY returns, and it waits for at most 126 seconds: with a clock that only
  the delay function advances, the clock has advanced by at most 126000 milliseconds.
\<close>

theorem phy_init_bounded:
  assumes "\<And>h. t (snd (IsMIIBusy k h)) = t h" and "\<And>n h. t (pDelayMs k n h) = t h + n"
    and "\<And>h. t (snd (ReadMIIData k h)) = t h" and "\<And>r h. t (StartMIIRead k r h) = t h"
    and "\<And>r v h. t (StartMIIWrite k r v h) = t h"
  shows "t (snd (snd (lpc_phy_init k stk p h))) \<le> t h + 126000"
proof -
  note w = mii_wait_time [where t = t, OF assms(1,2)]
  have wr: "t (snd (lpc_mii_write k r v h)) \<le> t h + 250" for r v h
    using w [of 250 "StartMIIWrite k r v h"] assms(5) by (simp add: lpc_mii_write_def)
  have rd: "t (snd (snd (lpc_mii_read k r v h))) \<le> t h + 250" for r v h
    using w [of 250 "StartMIIRead k r h"] assms(4) [of r h] assms(3)
    by (auto simp: lpc_mii_read_def split: prod.splits status.splits) (metis snd_conv)
  have rs: "t (snd (phy_reset_wait k n v h)) \<le> t h + 251 * n" for n v h
  proof (induction n arbitrary: v h)
    case (Suc n)
    obtain st x g where g: "lpc_mii_read k LAN8_BCR_REG v h = (st, x, g)" by (metis prod_cases3)
    have "t g \<le> t h + 250" using rd [of LAN8_BCR_REG v h] g by simp
    moreover have "t (snd (phy_reset_wait k n x (pDelayMs k 1 g))) \<le> t g + 1 + 251 * n"
      using Suc.IH [of x "pDelayMs k 1 g"] assms(2) [of 1 g] by simp
    ultimately show ?case using g by (cases st) simp_all
  qed simp
  obtain s1 h1 where h1: "lpc_mii_write k LAN8_BCR_REG LAN8_RESET h = (s1, h1)" by fastforce
  obtain s2 h2 where h2: "phy_reset_wait k 500 stk h1 = (s2, h2)" by fastforce
  have "t h1 \<le> t h + 250" "t h2 \<le> t h1 + 125500" "t (snd (lpc_mii_write k LAN8_BCR_REG LAN8_AUTONEG h2)) \<le> t h2 + 250"
    using wr [of LAN8_BCR_REG LAN8_RESET h] h1 rs [of 500 stk h1] h2 wr [of LAN8_BCR_REG LAN8_AUTONEG h2] by simp_all
  then show ?thesis using h1 h2 by (cases s1; cases s2) (simp_all add: lpc_phy_init_def Let_def)
qed

theorem phy_init_bounded_witness:
  "fst (snd (snd (lpc_phy_init ex_enet 0 ex_phy (5, [0x8000, 0])))) \<le> 5 + 126000"
  using phy_init_bounded [of fst ex_enet 0 ex_phy "(5, [0x8000, 0])"]
  by (auto simp: ex_enet_def split: prod.splits list.splits)

end
