(* ===== verification/Emac.thy ===== *)
theory Emac
  imports Netif Phy Ring
begin

text \<open>
  The driver of the Ethernet controller below the network stack (\<^verbatim>\<open>src/lwip/src/arch/lpc18xx_43xx_emac.c\<close>)
  as it is compiled: without an operating system (\<open>NO_SYS\<close> is 1), without the relocation of slow memory,
  four receive and four transmit descriptors (\<^verbatim>\<open>src/inc/lpc_18xx43xx_emac_config.h\<close>). The controller reads
  and writes the buffers of the descriptors it owns on its own: its steps are part of the transition
  relation below. The bits of the descriptors and registers, the calls of the chip library and the network
  stack are parameters.
\<close>

section \<open>The chip\<close>

record chip =
  RDES_OWN :: u32
  RDES_ES :: u32
  RDES_LE :: u32
  RDES_FT :: u32
  RDES_CE :: u32
  RDES_LS :: u32
  RDES_DE :: u32
  RDES_RE :: u32
  RDES_RWT :: u32
  RDES_LC :: u32
  RDES_OE :: u32
  RDES_SAF :: u32
  RDES_AFM :: u32
  RDES_ENH_RCH :: u32
  RDES_ENH_RER :: u32
  RDES_ENH_BS1 :: "u32 \<Rightarrow> u32"
  RDES_FLMSK :: "u32 \<Rightarrow> u32"
  TDES_OWN :: u32
  TDES_ENH_TCH :: u32
  TDES_ENH_TER :: u32
  TDES_ENH_FS :: u32
  TDES_ENH_LS :: u32
  TDES_ENH_IC :: u32
  TDES_ENH_CIC :: "u32 \<Rightarrow> u32"
  TDES_ENH_BS1 :: "u32 \<Rightarrow> u32"
  MAC_CFG_DM :: u32
  MAC_CFG_FES :: u32
  MAC_CFG_INIT :: u32
  MAC_CFG_RE_TE :: u32
  EMAC_ETH_MAX_FLEN :: u16
  USE_RMII :: bool
  STATUS_ERROR :: err_t

text \<open>
  \<open>MAC_CFG_INIT\<close> is the value of \<open>MAC_CFG_BL(0) | MAC_CFG_IPC | MAC_CFG_DM | MAC_CFG_DO | MAC_CFG_FES |
  MAC_CFG_PS | MAC_CFG_IFG(3)\<close>, \<open>MAC_CFG_RE_TE\<close> that of \<open>MAC_CFG_RE | MAC_CFG_TE\<close>, and \<open>STATUS_ERROR\<close> is the
  constant \<open>ERROR\<close> of the chip library, read as an \<open>err_t\<close>.
\<close>

record eth =
  MAC_CONFIG :: u32
  DMA_REC_POLL_DEMAND :: u32
  DMA_TRANS_POLL_DEMAND :: u32

record rxdesc =
  rd_STATUS :: u32
  rd_CTRL :: u32
  rd_B1ADD :: "(nat \<times> nat) option"
  rd_B2ADD :: nat

record txdesc =
  td_CTRLSTAT :: u32
  td_BSIZE :: u32
  td_B1ADD :: "(nat \<times> nat) option"
  td_B2ADD :: nat

text \<open>
  A buffer address is a pbuf and an offset in its memory; the address of the next descriptor is its index.
\<close>

record enetdata =
  ptdesc :: "txdesc list"
  prdesc :: "rxdesc list"
  txpbufs :: "nat option list"
  tx_free_descs :: u32
  tx_fill_idx :: u32
  tx_reclaim_idx :: u32
  rxpbufs :: "nat option list"
  rx_free_descs :: u32
  rx_get_idx :: u32
  rx_next_idx :: u32
  intMask :: u32
  en_eth :: eth
  en_heap :: heap

definition LPC_NUM_BUFF_RXDESCS :: u32 where "LPC_NUM_BUFF_RXDESCS = 4"
definition LPC_NUM_BUFF_TXDESCS :: u32 where "LPC_NUM_BUFF_TXDESCS = 4"

lemmas emac_consts [simp] = LPC_NUM_BUFF_RXDESCS_def LPC_NUM_BUFF_TXDESCS_def

section \<open>Receive descriptors\<close>

definition next_idx :: "u32 \<Rightarrow> u32 \<Rightarrow> u32" where
  "next_idx n idx = (if idx + 1 \<ge> n then 0 else idx + 1)"

definition lpc_rxqueue_pbuf :: "chip \<Rightarrow> nat \<Rightarrow> enetdata \<Rightarrow> enetdata res" where
  "lpc_rxqueue_pbuf C p d =
     (let idx = rx_next_idx d in
      rbind (store (rxpbufs d) (unat idx) (Some p)) (\<lambda>rxp.
      rbind (load (prdesc d) (unat idx)) (\<lambda>de.
        case fmlookup (en_heap d) p of
          None \<Rightarrow> Inl OutOfBounds
        | Some pb \<Rightarrow>
            let ctrl = RDES_ENH_BS1 C (ucast (pb_len pb)) OR RDES_ENH_RCH C;
                ctrl = (if idx = LPC_NUM_BUFF_RXDESCS - 1 then ctrl OR RDES_ENH_RER C else ctrl)
            in rbind (store (prdesc d) (unat idx)
                        (de\<lparr>rd_CTRL := ctrl, rd_B1ADD := Some (p, pb_payload pb), rd_STATUS := RDES_OWN C\<rparr>)) (\<lambda>prd.
               Inr (d\<lparr>rxpbufs := rxp, prdesc := prd, rx_free_descs := rx_free_descs d - 1,
                      rx_next_idx := next_idx LPC_NUM_BUFF_RXDESCS idx\<rparr>)))))"

partial_function (option) rx_queue_loop :: "chip \<Rightarrow> memlib \<Rightarrow> nat \<Rightarrow> enetdata \<Rightarrow> (nat \<times> enetdata) res option" where
  "rx_queue_loop C L queued d =
     (if rx_free_descs d > 0
      then (case pbuf_alloc L PBUF_RAW (EMAC_ETH_MAX_FLEN C) PBUF_RAM (en_heap d) of
              None \<Rightarrow> None
            | Some (Inl e) \<Rightarrow> Some (Inl e)
            | Some (Inr (None, h)) \<Rightarrow> Some (Inr (queued, d\<lparr>en_heap := h\<rparr>))
            | Some (Inr (Some p, h)) \<Rightarrow>
                (case pbuf_clen (Some p) h of
                   None \<Rightarrow> None
                 | Some (Inl e) \<Rightarrow> Some (Inl e)
                 | Some (Inr n) \<Rightarrow>
                     if \<not> n \<le> 1 then None
                     else (case lpc_rxqueue_pbuf C p (d\<lparr>en_heap := h\<rparr>) of
                             Inl e \<Rightarrow> Some (Inl e)
                           | Inr d \<Rightarrow> rx_queue_loop C L (queued + 1) d)))
      else Some (Inr (queued, d)))"

definition lpc_rx_queue :: "chip \<Rightarrow> memlib \<Rightarrow> enetdata \<Rightarrow> (nat \<times> enetdata) res option" where
  "lpc_rx_queue C L d = rx_queue_loop C L 0 d"

definition rx_clear :: rxdesc where
  "rx_clear = \<lparr>rd_STATUS = 0, rd_CTRL = 0, rd_B1ADD = None, rd_B2ADD = 0\<rparr>"

text \<open>The array of the descriptors is cleared and linked to a ring, then filled.\<close>

definition lpc_rx_setup :: "chip \<Rightarrow> memlib \<Rightarrow> enetdata \<Rightarrow> (err_t \<times> enetdata) res option" where
  "lpc_rx_setup C L d =
     (let n = unat LPC_NUM_BUFF_RXDESCS;
          ds = map (\<lambda>i. rx_clear\<lparr>rd_CTRL := RDES_ENH_RCH C, rd_B2ADD := i + 1\<rparr>) [0..<n];
          ds = ds[n - 1 := (ds ! (n - 1))\<lparr>rd_CTRL := RDES_ENH_RCH C OR RDES_ENH_RER C, rd_B2ADD := 0\<rparr>];
          d = d\<lparr>rx_get_idx := 0, rx_next_idx := 0, rx_free_descs := LPC_NUM_BUFF_RXDESCS, prdesc := ds\<rparr>
      in xbind (lpc_rx_queue C L d) (\<lambda>(_, d). Some (Inr (ERR_OK, d))))"

text \<open>The checks of the status of a received frame.\<close>

definition rx_error :: "chip \<Rightarrow> u32 \<Rightarrow> u32 \<Rightarrow> u32 \<Rightarrow> bool" where
  "rx_error C msk cfg status =
     (status AND RDES_ES C \<noteq> 0 \<and>
      ((if status AND msk \<noteq> 0 then True
        else if status AND (RDES_LE C OR RDES_FT C) = RDES_LE C then True
        else status AND (RDES_CE C OR RDES_LS C) = RDES_CE C OR RDES_LS C) \<or>
       (if status AND (RDES_DE C OR RDES_LS C) = RDES_DE C OR RDES_LS C then True
        else status AND RDES_DE C \<noteq> 0 \<and> cfg AND MAC_CFG_DM C = 0)))"

definition set_len :: "u16 \<Rightarrow> nat \<Rightarrow> heap \<Rightarrow> heap res" where
  "set_len n p h =
     (case fmlookup h p of
        None \<Rightarrow> Inl OutOfBounds
      | Some pb \<Rightarrow> Inr (fmupd p (pb\<lparr>pb_tot_len := n, pb_len := n\<rparr>) h))"

definition lpc_low_level_input :: "chip \<Rightarrow> memlib \<Rightarrow> enetdata \<Rightarrow> (nat option \<times> enetdata) res option" where
  "lpc_low_level_input C L d =
     (if rx_free_descs d = LPC_NUM_BUFF_RXDESCS then xbind (lpc_rx_queue C L d) (\<lambda>(_, d). Some (Inr (None, d)))
      else
        xbind (Some (load (prdesc d) (unat (rx_get_idx d)))) (\<lambda>de.
        if rd_STATUS de AND RDES_OWN C \<noteq> 0 then Some (Inr (None, d))
        else
          xbind (Some (load (rxpbufs d) (unat (rx_get_idx d)))) (\<lambda>p.
            let status = rd_STATUS de;
                rxerr = rx_error C (intMask d) (MAC_CONFIG (en_eth d)) status;
                d = d\<lparr>rx_free_descs := rx_free_descs d + 1, rx_get_idx := next_idx LPC_NUM_BUFF_RXDESCS (rx_get_idx d)\<rparr>;
                restart = (\<lambda>d. d\<lparr>en_eth := (en_eth d)\<lparr>DMA_REC_POLL_DEMAND := 1\<rparr>\<rparr>)
            in if rxerr
               then (case p of
                       None \<Rightarrow> Some (Inl NullPointer)
                     | Some a \<Rightarrow> xbind (Some (lpc_rxqueue_pbuf C a d)) (\<lambda>d. Some (Inr (None, restart d))))
               else xbind (lpc_rx_queue C L d) (\<lambda>(_, d).
                      case p of
                        None \<Rightarrow> Some (Inl NullPointer)
                      | Some a \<Rightarrow>
                          xbind (Some (set_len (ucast (RDES_FLMSK C status)) a (en_heap d))) (\<lambda>h.
                          Some (Inr (Some a, restart (d\<lparr>en_heap := h\<rparr>))))))))"

section \<open>Transmit descriptors\<close>

definition tx_clear :: txdesc where
  "tx_clear = \<lparr>td_CTRLSTAT = 0, td_BSIZE = 0, td_B1ADD = None, td_B2ADD = 0\<rparr>"

definition lpc_tx_setup :: "chip \<Rightarrow> enetdata \<Rightarrow> err_t \<times> enetdata" where
  "lpc_tx_setup C d =
     (let n = unat LPC_NUM_BUFF_TXDESCS;
          ds = map (\<lambda>i. tx_clear\<lparr>td_CTRLSTAT := TDES_ENH_TCH C OR TDES_ENH_CIC C 3, td_B2ADD := i + 1\<rparr>) [0..<n];
          ds = ds[n - 1 := (ds ! (n - 1))\<lparr>td_CTRLSTAT := TDES_ENH_TCH C OR TDES_ENH_TER C OR TDES_ENH_CIC C 3, td_B2ADD := 0\<rparr>]
      in (ERR_OK, d\<lparr>ptdesc := ds, tx_free_descs := LPC_NUM_BUFF_TXDESCS, tx_fill_idx := 0, tx_reclaim_idx := 0\<rparr>))"

definition lpc_tx_ready :: "enetdata \<Rightarrow> u32" where "lpc_tx_ready d = tx_free_descs d"

text \<open>
  The wait for free descriptors; \<open>delay\<close> is what happens to the driver's data during \<open>msDelay(1)\<close> (the
  controller works on the descriptors and the tick interrupt counts).
\<close>

partial_function (option) tx_wait :: "(enetdata \<Rightarrow> enetdata) \<Rightarrow> u32 \<Rightarrow> enetdata \<Rightarrow> enetdata option" where
  "tx_wait delay dn d = (if dn > lpc_tx_ready d then tx_wait delay dn (delay d) else Some d)"

definition tx_or :: "u32 \<Rightarrow> nat \<Rightarrow> enetdata \<Rightarrow> enetdata res" where
  "tx_or bits idx d =
     rbind (load (ptdesc d) idx) (\<lambda>de.
     rbind (store (ptdesc d) idx (de\<lparr>td_CTRLSTAT := td_CTRLSTAT de OR bits\<rparr>)) (\<lambda>ptd. Inr (d\<lparr>ptdesc := ptd\<rparr>)))"

text \<open>The loop that fills the descriptors, one for each pbuf of the chain; \<open>dn\<close> is the number still to fill.\<close>

fun tx_fill :: "chip \<Rightarrow> nat \<Rightarrow> u32 \<Rightarrow> u32 \<Rightarrow> nat \<Rightarrow> nat option \<Rightarrow> enetdata \<Rightarrow> (u32 \<times> enetdata) res" where
  "tx_fill C 0 idx fidx sendp p d = Inr (idx, d)"
| "tx_fill C (Suc dn) idx fidx sendp p d =
     (case p of
        None \<Rightarrow> Inl NullPointer
      | Some a \<Rightarrow>
          (case fmlookup (en_heap d) a of
             None \<Rightarrow> Inl OutOfBounds
           | Some pb \<Rightarrow>
               rbind (load (ptdesc d) (unat idx)) (\<lambda>de.
               rbind (store (ptdesc d) (unat idx)
                        (de\<lparr>td_B1ADD := Some (a, pb_payload pb), td_BSIZE := TDES_ENH_BS1 C (ucast (pb_len pb))\<rparr>)) (\<lambda>ptd.
               let d = d\<lparr>ptdesc := ptd, tx_free_descs := tx_free_descs d - 1\<rparr> in
               rbind (if idx = fidx
                      then rbind (tx_or (TDES_ENH_FS C) (unat idx) d) (\<lambda>d.
                           rbind (pbuf_ref (Some a) (en_heap d)) (\<lambda>h. Inr (d\<lparr>en_heap := h\<rparr>)))
                      else tx_or (TDES_OWN C) (unat idx) d) (\<lambda>d.
               rbind (store (txpbufs d) (unat idx) (if dn = 0 then Some sendp else None)) (\<lambda>txp.
               rbind (if dn = 0 then tx_or (TDES_ENH_LS C OR TDES_ENH_IC C) (unat idx) (d\<lparr>txpbufs := txp\<rparr>)
                      else Inr (d\<lparr>txpbufs := txp\<rparr>)) (\<lambda>d.
               rbind (tx_or (TDES_ENH_CIC C 3) (unat idx) d) (\<lambda>d.
               tx_fill C dn (next_idx LPC_NUM_BUFF_TXDESCS idx) fidx sendp (pb_next pb) d))))))))"

definition lpc_low_level_output :: "chip \<Rightarrow> (enetdata \<Rightarrow> enetdata) \<Rightarrow> nat \<Rightarrow> enetdata \<Rightarrow> (err_t \<times> enetdata) res option" where
  "lpc_low_level_output C delay sendp d =
     xbind (pbuf_clen (Some sendp) (en_heap d)) (\<lambda>dn.
     case tx_wait delay (ucast dn) d of
       None \<Rightarrow> None
     | Some d \<Rightarrow>
         let fidx = tx_fill_idx d in
         Some (rbind (tx_fill C (unat dn) fidx fidx sendp (Some sendp) d) (\<lambda>(idx, d).
               rbind (tx_or (TDES_OWN C) (unat fidx) (d\<lparr>tx_fill_idx := idx\<rparr>)) (\<lambda>d.
               Inr (ERR_OK, d\<lparr>en_eth := (en_eth d)\<lparr>DMA_TRANS_POLL_DEMAND := 1\<rparr>\<rparr>)))))"

text \<open>\<open>ridx\<close> is the local variable of \<open>lpc_tx_reclaim\<close>, written back at the end.\<close>

partial_function (option) tx_reclaim_loop :: "chip \<Rightarrow> memlib \<Rightarrow> u32 \<Rightarrow> enetdata \<Rightarrow> (u32 \<times> enetdata) res option" where
  "tx_reclaim_loop C L ridx d =
     (if tx_free_descs d < LPC_NUM_BUFF_TXDESCS
      then (case load (ptdesc d) (unat ridx) of
              Inl e \<Rightarrow> Some (Inl e)
            | Inr de \<Rightarrow>
                if td_CTRLSTAT de AND TDES_OWN C = 0
                then let ctl = (if ridx = LPC_NUM_BUFF_TXDESCS - 1 then TDES_ENH_TCH C OR TDES_ENH_TER C else TDES_ENH_TCH C);
                         d = d\<lparr>ptdesc := (ptdesc d)[unat ridx := de\<lparr>td_CTRLSTAT := ctl\<rparr>]\<rparr>
                     in (case load (txpbufs d) (unat ridx) of
                           Inl e \<Rightarrow> Some (Inl e)
                         | Inr p \<Rightarrow>
                             (case (if p = None then Some (Inr (0, en_heap d)) else pbuf_free L p (en_heap d)) of
                                None \<Rightarrow> None
                              | Some r \<Rightarrow>
                                  (case r of
                                     Inl e \<Rightarrow> Some (Inl e)
                                   | Inr (n, h) \<Rightarrow>
                                       tx_reclaim_loop C L (next_idx LPC_NUM_BUFF_TXDESCS ridx)
                                         (d\<lparr>en_heap := h, tx_free_descs := tx_free_descs d + 1\<rparr>))))
                else Some (Inr (ridx, d)))
      else Some (Inr (ridx, d)))"

definition lpc_tx_reclaim :: "chip \<Rightarrow> memlib \<Rightarrow> enetdata \<Rightarrow> enetdata res option" where
  "lpc_tx_reclaim C L d =
     xbind (tx_reclaim_loop C L (tx_reclaim_idx d) d) (\<lambda>(ridx, d). Some (Inr (d\<lparr>tx_reclaim_idx := ridx\<rparr>)))"

section \<open>The interface to the network stack\<close>

record 'n netif =
  nif_input :: "nat \<Rightarrow> 'n \<times> enetdata \<Rightarrow> (err_t \<times> 'n \<times> enetdata) res option"

text \<open>The field \<open>type\<close> of the Ethernet header, the bytes 12 and 13, as the little-endian processor reads it.\<close>

definition eth_type :: "pbuf \<Rightarrow> u16 res" where
  "eth_type pb =
     rbind (load (pb_mem pb) (pb_payload pb + 12)) (\<lambda>b0.
     rbind (load (pb_mem pb) (pb_payload pb + 13)) (\<lambda>b1. Inr (push_bit 8 (ucast b1) OR ucast b0)))"

definition drop_frame :: "memlib \<Rightarrow> nat \<Rightarrow> 'n \<times> enetdata \<Rightarrow> ('n \<times> enetdata) res option" where
  "drop_frame L p s =
     xbind (pbuf_free L (Some p) (en_heap (snd s))) (\<lambda>(_, h). Some (Inr (fst s, (snd s)\<lparr>en_heap := h\<rparr>)))"

definition lpc_enetif_input :: "chip \<Rightarrow> memlib \<Rightarrow> 'n netif \<Rightarrow> 'n \<times> enetdata \<Rightarrow> ('n \<times> enetdata) res option" where
  "lpc_enetif_input C L nif s =
     xbind (lpc_low_level_input C L (snd s)) (\<lambda>(p, d).
     case p of
       None \<Rightarrow> Some (Inr (fst s, d))
     | Some a \<Rightarrow>
         (case fmlookup (en_heap d) a of
            None \<Rightarrow> Some (Inl OutOfBounds)
          | Some pb \<Rightarrow>
              xbind (Some (eth_type pb)) (\<lambda>ty.
              if lwip_htons ty = ETHTYPE_IP \<or> lwip_htons ty = ETHTYPE_ARP
              then xbind (nif_input nif a (fst s, d)) (\<lambda>(err, s).
                   if err \<noteq> ERR_OK then drop_frame L a s else Some (Inr s))
              else drop_frame L a (fst s, d))))"

text \<open>\<open>flags\<close> are the flags of the interface; \<open>etharp_out\<close> is \<open>etharp_output\<close> on it, which works on the state \<open>'s\<close> of the stack.\<close>

definition lpc_etharp_output :: "(nat \<Rightarrow> u32 \<Rightarrow> 's \<Rightarrow> (err_t \<times> 's) res option) \<Rightarrow> u8 \<Rightarrow> nat \<Rightarrow> u32 \<Rightarrow> 's \<Rightarrow> (err_t \<times> 's) res option" where
  "lpc_etharp_output etharp_out flags q ipaddr s =
     (if flags AND NETIF_FLAG_LINK_UP \<noteq> 0 then etharp_out q ipaddr s else Some (Inr (ERR_CONN, s)))"

definition lpc_emac_set_duplex :: "chip \<Rightarrow> bool \<Rightarrow> enetdata \<Rightarrow> enetdata" where
  "lpc_emac_set_duplex C full d =
     d\<lparr>en_eth := (en_eth d)\<lparr>MAC_CONFIG :=
         (if full then MAC_CONFIG (en_eth d) OR MAC_CFG_DM C else MAC_CONFIG (en_eth d) AND NOT (MAC_CFG_DM C))\<rparr>\<rparr>"

definition lpc_emac_set_speed :: "chip \<Rightarrow> bool \<Rightarrow> enetdata \<Rightarrow> enetdata" where
  "lpc_emac_set_speed C mbs_100 d =
     d\<lparr>en_eth := (en_eth d)\<lparr>MAC_CONFIG :=
         (if mbs_100 then MAC_CONFIG (en_eth d) OR MAC_CFG_FES C else MAC_CONFIG (en_eth d) AND NOT (MAC_CFG_FES C))\<rparr>\<rparr>"

section \<open>Initialisation\<close>

text \<open>
  \<open>low_level_init\<close> after \<open>Chip_ENET_Init\<close> and \<open>Chip_ENET_SetADDR\<close>; of the registers those are kept that the
  driver reads again. The PHY is the model of its driver.
\<close>

definition low_level_init :: "chip \<Rightarrow> memlib \<Rightarrow> 'h enet \<Rightarrow> u16 \<Rightarrow> phy \<times> 'h \<times> enetdata \<Rightarrow> (err_t \<times> phy \<times> 'h \<times> enetdata) res option" where
  "low_level_init C L k stk s =
     (case s of (p, hw, d) \<Rightarrow>
      let d = d\<lparr>en_eth := (en_eth d)\<lparr>MAC_CONFIG := MAC_CFG_INIT C\<rparr>\<rparr> in
      case lpc_phy_init k stk p hw of
        (ERROR, p, hw) \<Rightarrow> Some (Inr (STATUS_ERROR C, p, hw, d))
      | (SUCCESS, p, hw) \<Rightarrow>
          let m = RDES_CE C OR (if USE_RMII C then RDES_DE C else 0) OR RDES_RE C OR RDES_RWT C OR RDES_LC C OR RDES_OE C OR
                  RDES_SAF C OR RDES_AFM C;
              d = d\<lparr>intMask := m\<rparr>
          in case lpc_tx_setup C d of (e, d) \<Rightarrow>
             if e \<noteq> ERR_OK then Some (Inr (ERR_BUF, p, hw, d))
             else xbind (lpc_rx_setup C L d) (\<lambda>(e, d).
                  if e \<noteq> ERR_OK then Some (Inr (ERR_BUF, p, hw, d))
                  else Some (Inr (ERR_OK, p, hw,
                    d\<lparr>en_eth := (en_eth d)\<lparr>MAC_CONFIG := MAC_CONFIG (en_eth d) OR MAC_CFG_RE_TE C,
                                            DMA_REC_POLL_DEMAND := 1\<rparr>\<rparr>))))"

text \<open>\<open>lpc_enetif_init\<close>; the second component tells whether the output functions have been installed.\<close>

definition lpc_enetif_init :: "chip \<Rightarrow> memlib \<Rightarrow> 'h enet \<Rightarrow> u16 \<Rightarrow> phy \<times> 'h \<times> enetdata \<Rightarrow> (err_t \<times> bool \<times> phy \<times> 'h \<times> enetdata) res option" where
  "lpc_enetif_init C L k stk s =
     xbind (low_level_init C L k stk s) (\<lambda>(err, s). Some (Inr (if err \<noteq> ERR_OK then err else ERR_OK, err = ERR_OK, s)))"

section \<open>The invariant of the descriptor rings\<close>

lemma next_idx_4: "unat i < 4 \<Longrightarrow> unat (next_idx 4 i) = (unat i + 1) mod 4"
proof -
  assume a: "unat i < 4"
  then have u: "unat (i + 1) = unat i + 1" by (simp add: unat_word_ariths(1))
  then have "(4 \<le> i + 1) = (4 \<le> unat i + 1)" by (simp add: word_le_nat_alt)
  then show ?thesis using a u by (auto simp: next_idx_def mod_Suc)
qed

definition rx_used :: "enetdata \<Rightarrow> nat" where "rx_used d = 4 - unat (rx_free_descs d)"
definition tx_used :: "enetdata \<Rightarrow> nat" where "tx_used d = 4 - unat (tx_free_descs d)"

text \<open>The buffers queued for reception and the packets being sent, oldest first.\<close>

definition rx_cont :: "enetdata \<Rightarrow> nat option list" where
  "rx_cont d = ring (rxpbufs d) (unat (rx_get_idx d)) (rx_used d)"

definition tx_cont :: "enetdata \<Rightarrow> nat option list" where
  "tx_cont d = ring (txpbufs d) (unat (tx_reclaim_idx d)) (tx_used d)"

text \<open>
  A queued slot of the receive ring: its buffer is a pbuf to which nobody else has a pointer, and the
  address in the descriptor is that of its payload, with room for a maximal frame.
\<close>

definition rx_slot :: "chip \<Rightarrow> heap \<Rightarrow> nat option \<Rightarrow> (nat \<times> nat) option \<Rightarrow> bool" where
  "rx_slot C h x b \<longleftrightarrow> (\<exists>p pb. x = Some p \<and> fmlookup h p = Some pb \<and> pb_len pb = EMAC_ETH_MAX_FLEN C \<and> pb_ref pb = 1 \<and>
     unat (EMAC_ETH_MAX_FLEN C) + pb_payload pb \<le> length (pb_mem pb) \<and> b = Some (p, pb_payload pb))"

definition rx_inv :: "chip \<Rightarrow> enetdata \<Rightarrow> bool" where
  "rx_inv C d \<longleftrightarrow>
     length (prdesc d) = 4 \<and> length (rxpbufs d) = 4 \<and> unat (rx_free_descs d) \<le> 4 \<and> unat (rx_get_idx d) < 4 \<and>
     unat (rx_next_idx d) = (unat (rx_get_idx d) + rx_used d) mod 4 \<and>
     (\<forall>k<4. let i = (unat (rx_get_idx d) + k) mod 4 in
        if k < rx_used d then rx_slot C (en_heap d) (rxpbufs d ! i) (rd_B1ADD (prdesc d ! i))
        else rd_STATUS (prdesc d ! i) AND RDES_OWN C = 0)"

definition tx_inv :: "chip \<Rightarrow> enetdata \<Rightarrow> bool" where
  "tx_inv C d \<longleftrightarrow>
     length (ptdesc d) = 4 \<and> length (txpbufs d) = 4 \<and> unat (tx_free_descs d) \<le> 4 \<and> unat (tx_reclaim_idx d) < 4 \<and>
     unat (tx_fill_idx d) = (unat (tx_reclaim_idx d) + tx_used d) mod 4 \<and>
     (\<forall>k<4. tx_used d \<le> k \<longrightarrow> td_CTRLSTAT (ptdesc d ! ((unat (tx_reclaim_idx d) + k) mod 4)) AND TDES_OWN C = 0)"

text \<open>\<open>R\<close> are the pointers to pbufs that the rest of the program holds.\<close>

definition emac_ok :: "chip \<Rightarrow> enetdata \<Rightarrow> nat multiset \<Rightarrow> bool" where
  "emac_ok C d R \<longleftrightarrow> rx_inv C d \<and> tx_inv C d \<and> heap_ok (en_heap d) (R + owned (rx_cont d) + owned (tx_cont d))"

section \<open>Reception\<close>

definition rx_buffer :: "chip \<Rightarrow> heap \<Rightarrow> nat \<Rightarrow> bool" where
  "rx_buffer C h p \<longleftrightarrow> (\<exists>pb. fmlookup h p = Some pb \<and> pb_len pb = EMAC_ETH_MAX_FLEN C \<and> pb_ref pb = 1 \<and>
     unat (EMAC_ETH_MAX_FLEN C) + pb_payload pb \<le> length (pb_mem pb))"

text \<open>The transmit side, the registers and the heap, which the receive ring does not touch.\<close>

definition same_tx :: "enetdata \<Rightarrow> enetdata \<Rightarrow> bool" where
  "same_tx d' d \<longleftrightarrow> ptdesc d' = ptdesc d \<and> txpbufs d' = txpbufs d \<and> tx_free_descs d' = tx_free_descs d \<and>
     tx_fill_idx d' = tx_fill_idx d \<and> tx_reclaim_idx d' = tx_reclaim_idx d"

lemma same_tx_refl [simp]: "same_tx d d"
  by (simp add: same_tx_def)

lemma same_tx_trans: "same_tx d'' d' \<Longrightarrow> same_tx d' d \<Longrightarrow> same_tx d'' d"
  by (simp add: same_tx_def)

lemma same_tx_inv: "same_tx d' d \<Longrightarrow> tx_inv C d' = tx_inv C d \<and> tx_cont d' = tx_cont d"
  by (simp add: same_tx_def tx_inv_def tx_cont_def tx_used_def)

lemma rx_invD:
  assumes "rx_inv C d"
  shows "length (prdesc d) = 4" "length (rxpbufs d) = 4" "unat (rx_free_descs d) \<le> 4" "unat (rx_get_idx d) < 4"
    "unat (rx_next_idx d) = (unat (rx_get_idx d) + rx_used d) mod 4" "rx_used d \<le> 4"
    "\<And>k. k < rx_used d \<Longrightarrow> rx_slot C (en_heap d) (rxpbufs d ! ((unat (rx_get_idx d) + k) mod 4)) (rd_B1ADD (prdesc d ! ((unat (rx_get_idx d) + k) mod 4)))"
    "\<And>k. k < 4 \<Longrightarrow> rx_used d \<le> k \<Longrightarrow> rd_STATUS (prdesc d ! ((unat (rx_get_idx d) + k) mod 4)) AND RDES_OWN C = 0"
  using assms by (auto simp: rx_inv_def Let_def rx_used_def)

lemma lpc_rxqueue_pbuf_ok:
  assumes inv: "rx_inv C d" and free: "0 < unat (rx_free_descs d)" and p: "rx_buffer C (en_heap d) p"
  obtains d' where "lpc_rxqueue_pbuf C p d = Inr d'" "rx_inv C d'" "rx_cont d' = rx_cont d @ [Some p]" "same_tx d' d"
    "en_heap d' = en_heap d" "rx_get_idx d' = rx_get_idx d" "rx_free_descs d' = rx_free_descs d - 1" "intMask d' = intMask d"
proof -
  note D = rx_invD [OF inv]
  obtain pb where pb: "fmlookup (en_heap d) p = Some pb" "pb_len pb = EMAC_ETH_MAX_FLEN C" "pb_ref pb = 1"
    "unat (EMAC_ETH_MAX_FLEN C) + pb_payload pb \<le> length (pb_mem pb)" using p by (auto simp: rx_buffer_def)
  define i where "i = unat (rx_next_idx d)"
  have i: "i < 4" "i = (unat (rx_get_idx d) + rx_used d) mod 4" using D(5) by (simp_all add: i_def)
  have used: "rx_used d < 4" using free by (simp add: rx_used_def)
  let ?c = "RDES_ENH_BS1 C (ucast (pb_len pb)) OR RDES_ENH_RCH C"
  define ctrl where "ctrl = (if rx_next_idx d = LPC_NUM_BUFF_RXDESCS - 1 then ?c OR RDES_ENH_RER C else ?c)"
  define de where "de = (prdesc d ! i)\<lparr>rd_CTRL := ctrl, rd_B1ADD := Some (p, pb_payload pb), rd_STATUS := RDES_OWN C\<rparr>"
  define d' where "d' = d\<lparr>rxpbufs := (rxpbufs d)[i := Some p], prdesc := (prdesc d)[i := de],
    rx_free_descs := rx_free_descs d - 1, rx_next_idx := next_idx 4 (rx_next_idx d)\<rparr>"
  have r: "lpc_rxqueue_pbuf C p d = Inr d'"
    using i(1) D(1,2) pb(1) by (simp add: lpc_rxqueue_pbuf_def Let_def store_def load_def d'_def de_def ctrl_def i_def)
  have uf: "unat (rx_free_descs d - 1) = unat (rx_free_descs d) - 1" using free by (intro unat_minus_1) auto
  have ru: "rx_used d' = Suc (rx_used d)" using uf free D(3) by (simp add: rx_used_def d'_def)
  have c: "rx_cont d' = rx_cont d @ [Some p]"
    using ring_snoc [of "rx_used d" "rxpbufs d" "unat (rx_get_idx d)" "Some p"] used D(2) i(2)
    unfolding rx_cont_def ru by (simp add: d'_def)
  have "rx_inv C d'"
  proof -
    have nx: "unat (rx_next_idx d') = (unat (rx_get_idx d') + rx_used d') mod 4"
      using next_idx_4 [of "rx_next_idx d"] i ru unfolding i_def by (simp add: d'_def mod_Suc_eq)
    have "let j = (unat (rx_get_idx d') + k) mod 4 in if k < rx_used d' then rx_slot C (en_heap d') (rxpbufs d' ! j) (rd_B1ADD (prdesc d' ! j))
        else rd_STATUS (prdesc d' ! j) AND RDES_OWN C = 0" if "k < 4" for k
    proof (cases "k = rx_used d")
      case True
      then show ?thesis using i D(1,2) pb ru by (simp add: d'_def de_def rx_slot_def Let_def)
    next
      case False
      then have "(unat (rx_get_idx d) + k) mod 4 \<noteq> i"
        using mod_add_ne [of k "rx_used d" 4 "unat (rx_get_idx d)"] mod_add_ne [of "rx_used d" k 4 "unat (rx_get_idx d)"] that used i(2)
        by (metis linorder_neqE_nat)
      then show ?thesis using D(7,8) [of k] that False ru by (auto simp: d'_def Let_def)
    qed
    then show ?thesis using D nx uf unfolding rx_inv_def by (auto simp: d'_def)
  qed
  then show thesis using r c by (intro that [of d']) (simp_all add: d'_def same_tx_def)
qed

text \<open>Pointers are only lost when references are given up.\<close>

lemma rx_slot_cong: "(\<And>p. x = Some p \<Longrightarrow> fmlookup h' p = fmlookup h p) \<Longrightarrow> rx_slot C h x b \<Longrightarrow> rx_slot C h' x b"
  by (auto simp: rx_slot_def)

lemma rx_inv_heap:
  assumes "rx_inv C d" "\<And>p. Some p \<in> set (rx_cont d) \<Longrightarrow> fmlookup h p = fmlookup (en_heap d) p"
  shows "rx_inv C (d\<lparr>en_heap := h\<rparr>)"
proof -
  note D = rx_invD [OF assms(1)]
  have "rx_slot C h (rxpbufs d ! ((unat (rx_get_idx d) + k) mod 4)) (rd_B1ADD (prdesc d ! ((unat (rx_get_idx d) + k) mod 4)))" if "k < rx_used d" for k
  proof (rule rx_slot_cong [OF _ D(7) [OF that]])
    fix p assume "rxpbufs d ! ((unat (rx_get_idx d) + k) mod 4) = Some p"
    then have "rx_cont d ! k = Some p" using that D(2) by (simp add: rx_cont_def)
    moreover have "k < length (rx_cont d)" using that by (simp add: rx_cont_def)
    ultimately show "fmlookup h p = fmlookup (en_heap d) p" using assms(2) by (metis nth_mem)
  qed
  then show ?thesis using assms(1) by (auto simp: rx_inv_def Let_def rx_used_def)
qed

lemma rx_cont_slot:
  assumes "rx_inv C d" "Some p \<in> set (rx_cont d)"
  shows "rx_buffer C (en_heap d) p"
proof -
  note D = rx_invD [OF assms(1)]
  obtain k where k: "k < rx_used d" "rx_cont d ! k = Some p" using assms(2) by (auto simp: in_set_conv_nth rx_cont_def)
  then show ?thesis using D(7) [OF k(1)] D(2) by (auto simp: rx_cont_def rx_slot_def rx_buffer_def)
qed

lemma rx_cont_Some: "rx_inv C d \<Longrightarrow> x \<in> set (rx_cont d) \<Longrightarrow> \<exists>p. x = Some p"
  using rx_invD(7) [of C d] rx_invD(2) [of C d] by (fastforce simp: in_set_conv_nth rx_cont_def rx_slot_def)

text \<open>Nobody else has a pointer to a queued buffer.\<close>

lemma rx_exclusive:
  assumes "heap_ok h (R + R')" "p \<in># R'" "rx_buffer C h p"
  shows "p \<notin># R"
proof -
  obtain pb where "fmlookup h p = Some pb" "pb_ref pb = 1" using assms(3) by (auto simp: rx_buffer_def)
  then have "count (R + R') p \<le> 1" using rc_okD(1) [OF heap_okD [OF assms(1)], of p] by (simp add: refs_def)
  moreover have "0 < count R' p" using assms(2) by simp
  ultimately have "count R p = 0" unfolding count_union by linarith
  then show ?thesis by (simp add: not_in_iff)
qed

lemma pbuf_alloc_RAM_buffer:
  assumes "malloc_ok L" "pbuf_alloc L PBUF_RAW n PBUF_RAM h = Some (Inr (Some p, h'))" "n = EMAC_ETH_MAX_FLEN C"
  shows "rx_buffer C h' p" "\<And>q. fmlookup h q \<noteq> None \<Longrightarrow> fmlookup h' q = fmlookup h q" "pbuf_clen (Some p) h' = Some (Inr 1)"
proof -
  obtain pb where pb: "h' = fmupd p pb h" "pb_next pb = None" "fmlookup h p = None" "pb_ref pb = 1" "pb_len pb = n"
    "unat n + pb_payload pb \<le> length (pb_mem pb)"
    by (rule allocated_single_links [OF assms(2,1)]) blast
  show "rx_buffer C h' p" "\<And>q. fmlookup h q \<noteq> None \<Longrightarrow> fmlookup h' q = fmlookup h q" using pb assms(3) by (auto simp: rx_buffer_def)
  have "chain h' (Some p) [p]" using pb by simp
  from pbuf_clen_chain [OF this] show "pbuf_clen (Some p) h' = Some (Inr 1)" by simp
qed

text \<open>Requeueing: the ring is filled with new buffers until it is full or no memory is left.\<close>

lemma rx_queue_loop_ok:
  assumes "malloc_ok L"
  shows "emac_ok C d R \<Longrightarrow> \<exists>q d' ps. rx_queue_loop C L n d = Some (Inr (q, d')) \<and> emac_ok C d' R \<and> rx_cont d' = rx_cont d @ map Some ps \<and>
     same_tx d' d \<and> rx_get_idx d' = rx_get_idx d \<and> intMask d' = intMask d \<and> (\<forall>p. fmlookup (en_heap d) p \<noteq> None \<longrightarrow> fmlookup (en_heap d') p = fmlookup (en_heap d) p) \<and>
     (\<forall>p\<in>set ps. fmlookup (en_heap d) p = None)"
proof (induction "unat (rx_free_descs d)" arbitrary: d n)
  case 0
  then have "rx_free_descs d = 0" by (metis unat_eq_zero)
  then have "rx_queue_loop C L n d = Some (Inr (n, d))" by (subst rx_queue_loop.simps) simp
  then show ?case using 0 by (intro exI [of _ n] exI [of _ d] exI [of _ "[]"]) auto
next
  case (Suc f)
  have pos: "0 < rx_free_descs d" using Suc(2) by (simp add: word_less_nat_alt)
  have rx: "rx_inv C d" and tx: "tx_inv C d" and h: "heap_ok (en_heap d) (R + owned (rx_cont d) + owned (tx_cont d))"
    using Suc.prems by (auto simp: emac_ok_def)
  obtain p h' where a: "pbuf_alloc L PBUF_RAW (EMAC_ETH_MAX_FLEN C) PBUF_RAM (en_heap d) = Some (Inr (p, h'))"
    "heap_ok h' (R + owned (rx_cont d) + owned (tx_cont d) + owner p)" using heap_ok_alloc [OF assms h] by blast
  show ?case
  proof (cases p)
    case None
    then have "rx_queue_loop C L n d = Some (Inr (n, d\<lparr>en_heap := h'\<rparr>))" using a(1) pos by (subst rx_queue_loop.simps) simp
    moreover have "h' = en_heap d" using a(1) None pbuf_alloc_RAM [OF assms heap_okD [OF h], of PBUF_RAW "EMAC_ETH_MAX_FLEN C"] by auto
    ultimately have "rx_queue_loop C L n d = Some (Inr (n, d))" by simp
    then show ?thesis using Suc.prems by (intro exI [of _ n] exI [of _ d] exI [of _ "[]"]) auto
  next
    case (Some b)
    have new: "fmlookup (en_heap d) b = None" using a(1) Some by (metis allocated_single_links assms)
    note B = pbuf_alloc_RAM_buffer [OF assms a(1) [unfolded Some] refl]
    have rx': "rx_inv C (d\<lparr>en_heap := h'\<rparr>)"
    proof (rule rx_inv_heap [OF rx B(2)])
      fix q assume "Some q \<in> set (rx_cont d)"
      from rx_cont_slot [OF rx this] show "fmlookup (en_heap d) q \<noteq> None" by (auto simp: rx_buffer_def)
    qed
    obtain d' where d': "lpc_rxqueue_pbuf C b (d\<lparr>en_heap := h'\<rparr>) = Inr d'" "rx_inv C d'" "rx_cont d' = rx_cont (d\<lparr>en_heap := h'\<rparr>) @ [Some b]"
      "same_tx d' (d\<lparr>en_heap := h'\<rparr>)" "en_heap d' = h'" "rx_get_idx d' = rx_get_idx d" "rx_free_descs d' = rx_free_descs d - 1" "intMask d' = intMask d"
      by (rule lpc_rxqueue_pbuf_ok [OF rx', of b]) (use Suc(2) B(1) in auto)
    have c: "rx_cont (d\<lparr>en_heap := h'\<rparr>) = rx_cont d" by (simp add: rx_cont_def rx_used_def)
    have st: "same_tx d' d" using d'(4) by (simp add: same_tx_def)
    have ok: "emac_ok C d' R" using d'(2,3,5) c tx a(2) Some same_tx_inv [OF st] by (simp add: emac_ok_def ac_simps)
    have "f = unat (rx_free_descs d')" using d'(7) Suc(2) pos by (simp add: unat_minus_1)
    from Suc.hyps(1) [OF this ok, of "n + 1"] obtain q d'' ps where r: "rx_queue_loop C L (n + 1) d' = Some (Inr (q, d''))" "emac_ok C d'' R"
      "rx_cont d'' = rx_cont d' @ map Some ps" "same_tx d'' d'" "rx_get_idx d'' = rx_get_idx d'" "intMask d'' = intMask d'"
      "\<forall>p. fmlookup (en_heap d') p \<noteq> None \<longrightarrow> fmlookup (en_heap d'') p = fmlookup (en_heap d') p" "\<forall>p\<in>set ps. fmlookup (en_heap d') p = None" by blast
    have "rx_queue_loop C L n d = Some (Inr (q, d''))" using pos a(1) Some B(3) d'(1) r(1) by (subst rx_queue_loop.simps) simp
    moreover have "rx_cont d'' = rx_cont d @ map Some (b # ps)" using r(3) d'(3) c by simp
    moreover have "\<forall>p\<in>set (b # ps). fmlookup (en_heap d) p = None"
    proof
      fix p assume "p \<in> set (b # ps)"
      then show "fmlookup (en_heap d) p = None" using r(8) new B(2) [of p] d'(5) by (cases "fmlookup (en_heap d) p") auto
    qed
    moreover have "\<forall>p. fmlookup (en_heap d) p \<noteq> None \<longrightarrow> fmlookup (en_heap d'') p = fmlookup (en_heap d) p"
      using r(7) B(2) d'(5) by auto
    ultimately show ?thesis using r(2,5,6) d'(6,8) same_tx_trans [OF r(4) st]
      by (intro exI [of _ q] exI [of _ d''] exI [of _ "b # ps"]) simp
  qed
qed

text \<open>Taking the oldest buffer off the ring.\<close>

definition rx_advance :: "enetdata \<Rightarrow> enetdata" where
  "rx_advance d = d\<lparr>rx_free_descs := rx_free_descs d + 1, rx_get_idx := next_idx LPC_NUM_BUFF_RXDESCS (rx_get_idx d)\<rparr>"

lemma mod4_shift: "((g + 1) mod 4 + k) mod 4 = (g + Suc k) mod (4 :: nat)"
  by presburger

lemma rx_advance_ok:
  assumes inv: "rx_inv C d" and used: "rx_free_descs d \<noteq> 4"
    and own: "rd_STATUS (prdesc d ! unat (rx_get_idx d)) AND RDES_OWN C = 0"
  obtains p where "rx_inv C (rx_advance d)" "rx_cont d = Some p # rx_cont (rx_advance d)" "rxpbufs d ! unat (rx_get_idx d) = Some p"
    "rx_buffer C (en_heap d) p" "unat (rx_free_descs (rx_advance d)) = unat (rx_free_descs d) + 1"
proof -
  note D = rx_invD [OF inv]
  have f4: "unat (rx_free_descs d) \<noteq> 4" using used by (simp add: word_unat_eq_iff)
  then have f: "unat (rx_free_descs d) < 4" using D(3) by simp
  have uf: "unat (rx_free_descs d + 1) = unat (rx_free_descs d) + 1" using f by (simp add: unat_word_ariths(1))
  have g: "unat (next_idx 4 (rx_get_idx d)) = (unat (rx_get_idx d) + 1) mod 4" by (rule next_idx_4 [OF D(4)])
  let ?d = "rx_advance d"
  have u: "rx_used d = Suc (rx_used ?d)" using uf f by (simp add: rx_used_def rx_advance_def)
  have r: "rx_cont d = rxpbufs d ! unat (rx_get_idx d) # rx_cont ?d"
    unfolding rx_cont_def u ring_Suc using D(2,4) g by (simp add: rx_advance_def)
  then obtain p where p: "rxpbufs d ! unat (rx_get_idx d) = Some p" using rx_cont_Some [OF inv] by (metis list.set_intros(1))
  have "rx_inv C ?d"
    unfolding rx_inv_def
  proof (intro conjI allI impI)
    show "unat (rx_next_idx ?d) = (unat (rx_get_idx ?d) + rx_used ?d) mod 4"
      using D(5) u g mod4_shift [of "unat (rx_get_idx d)" "rx_used ?d"] by (simp add: rx_advance_def)
    fix k :: nat assume k: "k < 4"
    have idx: "(unat (rx_get_idx ?d) + k) mod 4 = (unat (rx_get_idx d) + Suc k) mod 4"
      using g mod4_shift by (simp add: rx_advance_def)
    show "let i = (unat (rx_get_idx ?d) + k) mod 4 in if k < rx_used ?d then rx_slot C (en_heap ?d) (rxpbufs ?d ! i) (rd_B1ADD (prdesc ?d ! i))
        else rd_STATUS (prdesc ?d ! i) AND RDES_OWN C = 0"
    proof (cases "k = 3")
      case True
      then show ?thesis using own D(4,6) u unfolding Let_def idx by (simp add: rx_advance_def)
    next
      case False
      then show ?thesis using D(7,8) [of "Suc k"] k u unfolding Let_def idx by (auto simp: rx_advance_def)
    qed
  qed (use D uf f g in \<open>simp_all add: rx_advance_def\<close>)
  then show thesis using r p rx_cont_slot [OF inv, of p] uf by (intro that [of p]) (auto simp: rx_advance_def)
qed

lemma emac_ok_eth [simp]: "emac_ok C (d\<lparr>en_eth := e\<rparr>) R = emac_ok C d R"
  by (simp add: emac_ok_def rx_inv_def tx_inv_def rx_cont_def tx_cont_def rx_used_def tx_used_def)

lemma set_len_ok:
  assumes ok: "emac_ok C d (add_mset p R)" and pb: "fmlookup (en_heap d) p = Some pb"
  obtains h where "set_len n p (en_heap d) = Inr h" "emac_ok C (d\<lparr>en_heap := h\<rparr>) (add_mset p R)"
    "fmlookup h p = Some (pb\<lparr>pb_tot_len := n, pb_len := n\<rparr>)" "\<And>q. q \<noteq> p \<Longrightarrow> fmlookup h q = fmlookup (en_heap d) q"
proof -
  let ?h = "fmupd p (pb\<lparr>pb_tot_len := n, pb_len := n\<rparr>) (en_heap d)"
  have rx: "rx_inv C d" and tx: "tx_inv C d" and h: "heap_ok (en_heap d) (add_mset p R + owned (rx_cont d) + owned (tx_cont d))"
    using ok by (auto simp: emac_ok_def)
  have "heap_ok ?h (add_mset p R + owned (rx_cont d) + owned (tx_cont d))"
    by (rule heap_ok_upd_same [OF h pb]) (simp_all add: rc_okD(3) [OF heap_okD [OF h] pb])
  moreover have "rx_inv C (d\<lparr>en_heap := ?h\<rparr>)"
  proof (rule rx_inv_heap [OF rx])
    fix q assume q: "Some q \<in> set (rx_cont d)"
    have "q \<notin># add_mset p R + owned (tx_cont d)"
      by (rule rx_exclusive [OF _ Some_owned [OF q] rx_cont_slot [OF rx q]]) (use h in \<open>simp add: ac_simps\<close>)
    then show "fmlookup ?h q = fmlookup (en_heap d) q" by auto
  qed
  ultimately have "emac_ok C (d\<lparr>en_heap := ?h\<rparr>) (add_mset p R)"
    using tx by (simp add: emac_ok_def tx_inv_def rx_cont_def tx_cont_def rx_used_def tx_used_def)
  then show thesis using pb by (intro that [of ?h]) (auto simp: set_len_def)
qed

lemma lpc_rx_queue_ok:
  assumes "malloc_ok L" "emac_ok C d R"
  obtains q d' ps where "lpc_rx_queue C L d = Some (Inr (q, d'))" "emac_ok C d' R" "rx_cont d' = rx_cont d @ map Some ps" "same_tx d' d"
    "\<And>p. fmlookup (en_heap d) p \<noteq> None \<Longrightarrow> fmlookup (en_heap d') p = fmlookup (en_heap d) p"
  using rx_queue_loop_ok [OF assms, of 0] unfolding lpc_rx_queue_def by blast

text \<open>
  What the input function does: nothing but fill the ring when it is empty or its oldest descriptor belongs to the
  controller; requeue the oldest buffer when the frame in it has an error; otherwise return the oldest buffer, with the
  length that the controller reports, and fill the ring.
\<close>

definition rx_outcome :: "chip \<Rightarrow> enetdata \<Rightarrow> nat option \<Rightarrow> enetdata \<Rightarrow> bool" where
  "rx_outcome C d p d' \<longleftrightarrow>
     (let status = rd_STATUS (prdesc d ! unat (rx_get_idx d)); n = ucast (RDES_FLMSK C status)
      in if rx_cont d = [] \<or> status AND RDES_OWN C \<noteq> 0
         then p = None \<and> (\<exists>ps. rx_cont d' = rx_cont d @ map Some ps)
         else if rx_error C (intMask d) (MAC_CONFIG (en_eth d)) status
         then p = None \<and> rx_cont d' = tl (rx_cont d) @ [hd (rx_cont d)]
         else (\<exists>a pb ps. p = Some a \<and> hd (rx_cont d) = Some a \<and> rx_cont d' = tl (rx_cont d) @ map Some ps \<and>
           fmlookup (en_heap d) a = Some pb \<and> fmlookup (en_heap d') a = Some (pb\<lparr>pb_tot_len := n, pb_len := n\<rparr>)))"

lemma rx_cont_other [simp]: "rx_cont (d\<lparr>en_eth := e\<rparr>) = rx_cont d" "rx_cont (d\<lparr>en_heap := h\<rparr>) = rx_cont d"
  by (simp_all add: rx_cont_def rx_used_def)

lemma rx_cont_empty: "rx_inv C d \<Longrightarrow> rx_cont d = [] \<longleftrightarrow> rx_free_descs d = 4"
  using rx_invD(3) [of C d] by (auto simp: rx_cont_def rx_used_def word_unat_eq_iff)

text \<open>
  The input function returns; a frame it returns was in the oldest buffer of the ring and belongs to the
  caller, with the length the controller reported.
\<close>

lemma lpc_low_level_input_ok:
  assumes L: "malloc_ok L" and ok: "emac_ok C d R"
  shows "\<exists>p d'. lpc_low_level_input C L d = Some (Inr (p, d')) \<and> emac_ok C d' (R + owner p) \<and> same_tx d' d \<and> rx_outcome C d p d' \<and>
    (\<forall>a. p = Some a \<longrightarrow> hd (rx_cont d) = Some a \<and> rx_buffer C (en_heap d) a \<and>
       (\<exists>pb n. fmlookup (en_heap d) a = Some pb \<and> n = ucast (RDES_FLMSK C (rd_STATUS (prdesc d ! unat (rx_get_idx d)))) \<and>
          fmlookup (en_heap d') a = Some (pb\<lparr>pb_tot_len := n, pb_len := n\<rparr>)))"
proof (cases "rx_free_descs d = 4")
  case True
  obtain q d' ps where "lpc_rx_queue C L d = Some (Inr (q, d'))" "emac_ok C d' R" "same_tx d' d" "rx_cont d' = rx_cont d @ map Some ps"
    by (rule lpc_rx_queue_ok [OF L ok])
  moreover have "rx_cont d = []" using True ok rx_cont_empty [of C d] by (simp add: emac_ok_def)
  ultimately show ?thesis using True by (simp add: lpc_low_level_input_def rx_outcome_def)
next
  case used: False
  have rx: "rx_inv C d" and tx: "tx_inv C d" and h: "heap_ok (en_heap d) (R + owned (rx_cont d) + owned (tx_cont d))"
    using ok by (auto simp: emac_ok_def)
  note D = rx_invD [OF rx]
  define de where "de = prdesc d ! unat (rx_get_idx d)"
  have ld: "load (prdesc d) (unat (rx_get_idx d)) = Inr de" using D(1,4) by (simp add: load_def de_def)
  have ne: "rx_cont d \<noteq> []" using used rx_cont_empty [OF rx] by simp
  show ?thesis
  proof (cases "rd_STATUS de AND RDES_OWN C = 0")
    case False
    then have "rx_outcome C d None d" by (simp add: rx_outcome_def de_def Let_def)
    then show ?thesis using False ok used ld by (simp add: lpc_low_level_input_def)
  next
    case own: True
    obtain p where p: "rx_inv C (rx_advance d)" "rx_cont d = Some p # rx_cont (rx_advance d)" "rxpbufs d ! unat (rx_get_idx d) = Some p"
      "rx_buffer C (en_heap d) p" "unat (rx_free_descs (rx_advance d)) = unat (rx_free_descs d) + 1"
      using rx_advance_ok [OF rx used own [unfolded de_def]] by blast
    have ld2: "load (rxpbufs d) (unat (rx_get_idx d)) = Inr (Some p)" using D(2,4) p(3) by (simp add: load_def)
    let ?d = "rx_advance d"
    have st: "same_tx ?d d" "en_heap ?d = en_heap d" by (simp_all add: rx_advance_def same_tx_def)
    have ok1: "emac_ok C ?d (add_mset p R)" using p(1,2) tx h same_tx_inv [OF st(1)] st(2) by (simp add: emac_ok_def ac_simps)
    show ?thesis
    proof (cases "rx_error C (intMask d) (MAC_CONFIG (en_eth d)) (rd_STATUS de)")
      case True
      obtain d' where d': "lpc_rxqueue_pbuf C p ?d = Inr d'" "rx_inv C d'" "rx_cont d' = rx_cont ?d @ [Some p]" "same_tx d' ?d" "en_heap d' = en_heap ?d"
        by (rule lpc_rxqueue_pbuf_ok [OF p(1), of p]) (use p(4,5) st in auto)
      have "emac_ok C d' R" using ok1 d' same_tx_inv [OF d'(4)] by (simp add: emac_ok_def ac_simps)
      moreover have "rx_outcome C d None (d'\<lparr>en_eth := e\<rparr>)" for e
        using ne own True p(2) d'(3) by (simp add: rx_outcome_def de_def Let_def)
      ultimately show ?thesis using True used ld own ld2 d'(1,4) same_tx_trans [OF d'(4) st(1)]
        by (simp add: lpc_low_level_input_def Let_def rx_advance_def same_tx_def)
    next
      case False
      obtain q d' ps where d': "lpc_rx_queue C L ?d = Some (Inr (q, d'))" "emac_ok C d' (add_mset p R)" "same_tx d' ?d" "rx_cont d' = rx_cont ?d @ map Some ps"
        "fmlookup (en_heap d) p \<noteq> None \<Longrightarrow> fmlookup (en_heap d') p = fmlookup (en_heap d) p"
        using lpc_rx_queue_ok [OF L ok1] st(2) by metis
      obtain pb where pb: "fmlookup (en_heap d) p = Some pb" using p(4) by (auto simp: rx_buffer_def)
      let ?n = "ucast (RDES_FLMSK C (rd_STATUS de))"
      have pb': "fmlookup (en_heap d') p = Some pb" using d'(5) pb by simp
      obtain h' where h': "set_len ?n p (en_heap d') = Inr h'" "emac_ok C (d'\<lparr>en_heap := h'\<rparr>) (add_mset p R)"
        "fmlookup h' p = Some (pb\<lparr>pb_tot_len := ?n, pb_len := ?n\<rparr>)"
        by (rule set_len_ok [OF d'(2) pb']) blast
      have s: "same_tx (d'\<lparr>en_heap := h', en_eth := e\<rparr>) d" for e using d'(3) st(1) by (simp add: same_tx_def)
      have "lpc_low_level_input C L d = Some (Inr (Some p, d'\<lparr>en_heap := h', en_eth := (en_eth d')\<lparr>DMA_REC_POLL_DEMAND := 1\<rparr>\<rparr>))"
        using used ld own ld2 False d'(1) h'(1) by (simp add: lpc_low_level_input_def Let_def rx_advance_def)
      moreover have "rx_outcome C d (Some p) (d'\<lparr>en_heap := h', en_eth := e\<rparr>)" for e
        using ne own False p(2) d'(4) pb h'(3) by (simp add: rx_outcome_def de_def Let_def)
      ultimately show ?thesis using h'(2,3) s p(2,4) pb unfolding de_def by simp
    qed
  qed
qed

end
