(* ===== verification/EmacTx.thy ===== *)
theory EmacTx
  imports Emac
begin

text \<open>
  The transmit ring of the Ethernet driver: sending a packet, the wait for free descriptors, and the release of
  the packets that the controller has sent.
\<close>

section \<open>Transmission\<close>

definition same_rx :: "enetdata \<Rightarrow> enetdata \<Rightarrow> bool" where
  "same_rx d' d \<longleftrightarrow> prdesc d' = prdesc d \<and> rxpbufs d' = rxpbufs d \<and> rx_free_descs d' = rx_free_descs d \<and>
     rx_next_idx d' = rx_next_idx d \<and> rx_get_idx d' = rx_get_idx d"

lemma same_rx_refl [simp]: "same_rx d d"
  by (simp add: same_rx_def)

lemma same_rx_trans: "same_rx d'' d' \<Longrightarrow> same_rx d' d \<Longrightarrow> same_rx d'' d"
  by (simp add: same_rx_def)

lemma same_rx_cont: "same_rx d' d \<Longrightarrow> rx_cont d' = rx_cont d"
  by (simp add: same_rx_def rx_cont_def rx_used_def)

lemma same_rx_inv: "same_rx d' d \<Longrightarrow> rx_inv C (d\<lparr>en_heap := en_heap d'\<rparr>) \<Longrightarrow> rx_inv C d'"
  by (auto simp: same_rx_def rx_inv_def rx_used_def Let_def)

lemma tx_invD:
  assumes "tx_inv C d"
  shows "length (ptdesc d) = 4" "length (txpbufs d) = 4" "unat (tx_free_descs d) \<le> 4" "unat (tx_reclaim_idx d) < 4"
    "unat (tx_fill_idx d) = (unat (tx_reclaim_idx d) + tx_used d) mod 4" "tx_used d \<le> 4"
    "\<And>k. k < 4 \<Longrightarrow> tx_used d \<le> k \<Longrightarrow> td_CTRLSTAT (ptdesc d ! ((unat (tx_reclaim_idx d) + k) mod 4)) AND TDES_OWN C = 0"
  using assms by (auto simp: tx_inv_def tx_used_def)

lemma tx_or_ok:
  "i < length (ptdesc d) \<Longrightarrow>
   tx_or bits i d = Inr (d\<lparr>ptdesc := (ptdesc d)[i := (ptdesc d ! i)\<lparr>td_CTRLSTAT := td_CTRLSTAT (ptdesc d ! i) OR bits\<rparr>]\<rparr>)"
  by (simp add: tx_or_def load_def store_def)

text \<open>One slot more is filled.\<close>

lemma tx_put_ok:
  assumes inv: "tx_inv C (d\<lparr>tx_fill_idx := idx\<rparr>)" and free: "0 < unat (tx_free_descs d)"
    and d': "d' = d\<lparr>ptdesc := (ptdesc d)[unat idx := de], txpbufs := (txpbufs d)[unat idx := x], tx_free_descs := tx_free_descs d - 1, en_heap := h\<rparr>"
  shows "tx_inv C (d'\<lparr>tx_fill_idx := next_idx 4 idx\<rparr>)" "tx_cont d' = tx_cont d @ [x]" "tx_used d' = Suc (tx_used d)"
proof -
  note D = tx_invD [OF inv, simplified]
  have u4: "tx_used (d\<lparr>tx_fill_idx := idx\<rparr>) = tx_used d" by (simp add: tx_used_def)
  have i: "unat idx < 4" "unat idx = (unat (tx_reclaim_idx d) + tx_used d) mod 4" using D(5) u4 by simp_all
  have used: "tx_used d < 4" using free by (simp add: tx_used_def)
  have uf: "unat (tx_free_descs d - 1) = unat (tx_free_descs d) - 1" using free by (intro unat_minus_1) auto
  show ru: "tx_used d' = Suc (tx_used d)" using uf free D(3) by (simp add: tx_used_def d')
  show "tx_cont d' = tx_cont d @ [x]"
    using ring_snoc [of "tx_used d" "txpbufs d" "unat (tx_reclaim_idx d)" x] used D(2) i(2)
    unfolding tx_cont_def ru by (simp add: d')
  have "td_CTRLSTAT (ptdesc d' ! ((unat (tx_reclaim_idx d) + k) mod 4)) AND TDES_OWN C = 0" if k: "k < 4" "Suc (tx_used d) \<le> k" for k
  proof -
    have "(unat (tx_reclaim_idx d) + k) mod 4 \<noteq> unat idx"
      using mod_add_ne [of "tx_used d" k 4 "unat (tx_reclaim_idx d)"] k i(2) by simp
    then show ?thesis using D(7) [of k] k u4 by (simp add: d')
  qed
  moreover have "unat (next_idx 4 idx) = (unat (tx_reclaim_idx d) + Suc (tx_used d)) mod 4"
    using next_idx_4 [OF i(1)] i(2) by (simp add: mod_Suc_eq)
  moreover have "tx_used (d'\<lparr>tx_fill_idx := next_idx 4 idx\<rparr>) = Suc (tx_used d)" using ru by (simp add: tx_used_def)
  ultimately show "tx_inv C (d'\<lparr>tx_fill_idx := next_idx 4 idx\<rparr>)"
    using D uf unfolding tx_inv_def by (simp add: d')
qed

definition tx_desc_for :: "chip \<Rightarrow> nat \<Rightarrow> bool \<Rightarrow> nat \<Rightarrow> pbuf \<Rightarrow> txdesc \<Rightarrow> txdesc" where
  "tx_desc_for C dn first a pb de =
     (let s = td_CTRLSTAT de OR (if first then TDES_ENH_FS C else TDES_OWN C);
          s = (if dn = 0 then s OR (TDES_ENH_LS C OR TDES_ENH_IC C) else s)
      in de\<lparr>td_B1ADD := Some (a, pb_payload pb), td_BSIZE := TDES_ENH_BS1 C (ucast (pb_len pb)), td_CTRLSTAT := s OR TDES_ENH_CIC C 3\<rparr>)"

lemma tx_fill_step:
  assumes "fmlookup (en_heap d) a = Some pb" "unat idx < length (ptdesc d)" "unat idx < length (txpbufs d)"
  shows "tx_fill C (Suc dn) idx fidx sendp (Some a) d = tx_fill C dn (next_idx 4 idx) fidx sendp (pb_next pb)
     (d\<lparr>ptdesc := (ptdesc d)[unat idx := tx_desc_for C dn (idx = fidx) a pb (ptdesc d ! unat idx)],
        txpbufs := (txpbufs d)[unat idx := (if dn = 0 then Some sendp else None)],
        tx_free_descs := tx_free_descs d - 1, en_heap := (if idx = fidx then fmupd a (pb\<lparr>pb_ref := pb_ref pb + 1\<rparr>) (en_heap d) else en_heap d)\<rparr>)"
  using assms by (cases d; cases "idx = fidx"; cases "dn = 0") (simp_all add: Let_def load_def store_def tx_or_ok pbuf_ref_def tx_desc_for_def)

lemma tx_fill_rest:
  "tx_inv C (d\<lparr>tx_fill_idx := idx\<rparr>) \<Longrightarrow> chain (en_heap d) p ps \<Longrightarrow> length ps \<le> unat (tx_free_descs d) \<Longrightarrow>
   f < tx_used d \<Longrightarrow> unat fidx = (unat (tx_reclaim_idx d) + f) mod 4 \<Longrightarrow>
   \<exists>idx' d'. tx_fill C (length ps) idx fidx sendp p d = Inr (idx', d') \<and> tx_inv C (d'\<lparr>tx_fill_idx := idx'\<rparr>) \<and>
     tx_cont d' = tx_cont d @ (if ps = [] then [] else replicate (length ps - 1) None @ [Some sendp]) \<and>
     en_heap d' = en_heap d \<and> same_rx d' d \<and> tx_reclaim_idx d' = tx_reclaim_idx d \<and> tx_used d' = tx_used d + length ps"
proof (induction ps arbitrary: idx p d)
  case (Cons a ps)
  from Cons.prems(2) obtain pb where pb: "p = Some a" "fmlookup (en_heap d) a = Some pb" "chain (en_heap d) (pb_next pb) ps" by auto
  note D = tx_invD [OF Cons.prems(1), simplified]
  have u4: "tx_used (d\<lparr>tx_fill_idx := idx\<rparr>) = tx_used d" by (simp add: tx_used_def)
  have i: "unat idx < 4" "unat idx = (unat (tx_reclaim_idx d) + tx_used d) mod 4" using D(5) u4 by simp_all
  have used: "tx_used d < 4" using Cons.prems(3) by (simp add: tx_used_def)
  have ne: "idx \<noteq> fidx" using mod_add_ne [OF Cons.prems(4) used, of "unat (tx_reclaim_idx d)"] Cons.prems(5) i(2) by auto
  define de where "de = tx_desc_for C (length ps) False a pb (ptdesc d ! unat idx)"
  have s: "tx_fill C (length (a # ps)) idx fidx sendp p d = tx_fill C (length ps) (next_idx 4 idx) fidx sendp (pb_next pb)
     (d\<lparr>ptdesc := (ptdesc d)[unat idx := de], txpbufs := (txpbufs d)[unat idx := (if length ps = 0 then Some sendp else None)],
        tx_free_descs := tx_free_descs d - 1, en_heap := en_heap d\<rparr>)" (is "_ = tx_fill C (length ps) _ _ _ _ ?d")
    using tx_fill_step [OF pb(2), of idx C "length ps" fidx sendp] i(1) D(1,2) pb(1) ne by (simp add: de_def)
  have fr: "0 < unat (tx_free_descs d)" using Cons.prems(3) by simp
  note P = tx_put_ok [OF Cons.prems(1) fr refl, where de = de and x = "if length ps = 0 then Some sendp else None" and h = "en_heap d"]
  have uf: "unat (tx_free_descs d - 1) = unat (tx_free_descs d) - 1" using fr by (intro unat_minus_1) auto
  have "\<exists>idx' d'. tx_fill C (length ps) (next_idx 4 idx) fidx sendp (pb_next pb) ?d = Inr (idx', d') \<and> tx_inv C (d'\<lparr>tx_fill_idx := idx'\<rparr>) \<and>
     tx_cont d' = tx_cont ?d @ (if ps = [] then [] else replicate (length ps - 1) None @ [Some sendp]) \<and>
     en_heap d' = en_heap ?d \<and> same_rx d' ?d \<and> tx_reclaim_idx d' = tx_reclaim_idx ?d \<and> tx_used d' = tx_used ?d + length ps"
    by (rule Cons.IH [OF P(1)]) (use pb(3) Cons.prems uf P(3) in simp_all)
  then obtain idx' d' where r: "tx_fill C (length ps) (next_idx 4 idx) fidx sendp (pb_next pb) ?d = Inr (idx', d')" "tx_inv C (d'\<lparr>tx_fill_idx := idx'\<rparr>)"
     "tx_cont d' = tx_cont ?d @ (if ps = [] then [] else replicate (length ps - 1) None @ [Some sendp])"
     "en_heap d' = en_heap d" "same_rx d' ?d" "tx_reclaim_idx d' = tx_reclaim_idx d" "tx_used d' = tx_used ?d + length ps" by auto
  have "tx_cont d' = tx_cont d @ replicate (length (a # ps) - 1) None @ [Some sendp]"
    using r(3) P(2) by (cases ps) simp_all
  moreover have "same_rx d' d" using r(5) by (simp add: same_rx_def)
  ultimately show ?case using s r P(3) by (intro exI [of _ idx'] exI [of _ d']) simp
qed simp

text \<open>The wait ends at once when there are enough descriptors, and never otherwise.\<close>

lemma tx_wait_enough: "dn \<le> tx_free_descs d \<Longrightarrow> tx_wait delay dn d = Some d"
  by (subst tx_wait.simps) (simp add: lpc_tx_ready_def leD)

lemma tx_wait_never:
  assumes "\<And>x. tx_free_descs (delay x) = tx_free_descs x" "tx_free_descs d < dn"
  shows "tx_wait delay dn d = None"
proof -
  have "tx_wait dl n x = Some y \<Longrightarrow> dl = delay \<longrightarrow> \<not> tx_free_descs x < n" for dl n x y
  proof (erule tx_wait.raw_induct [where P = "\<lambda>dl n x y. dl = delay \<longrightarrow> \<not> tx_free_descs x < n", rotated], rule impI)
    fix w dl n x y
    assume ih: "\<And>dl n x y. w dl n x = Some y \<Longrightarrow> dl = delay \<longrightarrow> \<not> tx_free_descs x < n"
      and eq: "(if lpc_tx_ready x < n then w dl n (dl x) else Some x) = Some y" and dl: "dl = delay"
    show "\<not> tx_free_descs x < n"
    proof
      assume "tx_free_descs x < n"
      then have "w dl n (dl x) = Some y" using eq by (simp add: lpc_tx_ready_def)
      from ih [OF this] show False using dl assms(1) \<open>tx_free_descs x < n\<close> by simp
    qed
  qed
  then show ?thesis using assms(2) by (cases "tx_wait delay dn d") auto
qed

lemma unat_ucast_u8_u32 [simp]: "unat (ucast (x :: u8) :: u32) = unat x"
proof -
  have "unat x < 256" by simp
  then have "unat x < 4294967296" by linarith
  then show ?thesis by (simp add: unsigned_ucast_eq take_bit_nat_eq_self_iff)
qed

text \<open>The buffers of the receive ring are not touched by the rest of the program.\<close>

lemma rx_inv_other:
  assumes rx: "rx_inv C d" and h: "heap_ok (en_heap d) (R + owned (rx_cont d))"
    and eq: "\<And>q. q \<notin># R \<Longrightarrow> fmlookup (en_heap d) q \<noteq> None \<Longrightarrow> rx_buffer C (en_heap d) q \<Longrightarrow> q \<in># owned (rx_cont d) \<Longrightarrow> fmlookup h' q = fmlookup (en_heap d) q"
  shows "rx_inv C (d\<lparr>en_heap := h'\<rparr>)"
proof (rule rx_inv_heap [OF rx])
  fix q assume q: "Some q \<in> set (rx_cont d)"
  note b = rx_cont_slot [OF rx q]
  have "q \<notin># R" by (rule rx_exclusive [OF h Some_owned [OF q] b])
  moreover have "fmlookup (en_heap d) q \<noteq> None" using b by (auto simp: rx_buffer_def)
  ultimately show "fmlookup h' q = fmlookup (en_heap d) q" using eq b Some_owned [OF q] by blast
qed

text \<open>A change of a descriptor that is in use.\<close>

lemma tx_inv_used:
  assumes inv: "tx_inv C d" and f: "f < tx_used d" and i: "i = (unat (tx_reclaim_idx d) + f) mod 4"
  shows "tx_inv C (d\<lparr>ptdesc := (ptdesc d)[i := de]\<rparr>)" "tx_cont (d\<lparr>ptdesc := (ptdesc d)[i := de]\<rparr>) = tx_cont d"
proof -
  note D = tx_invD [OF inv]
  have "td_CTRLSTAT ((ptdesc d)[i := de] ! ((unat (tx_reclaim_idx d) + k) mod 4)) AND TDES_OWN C = 0" if "k < 4" "tx_used d \<le> k" for k
    using D(7) [OF that] mod_add_ne [of f k 4 "unat (tx_reclaim_idx d)"] f that i by simp
  then show "tx_inv C (d\<lparr>ptdesc := (ptdesc d)[i := de]\<rparr>)" using D unfolding tx_inv_def tx_used_def by auto
  show "tx_cont (d\<lparr>ptdesc := (ptdesc d)[i := de]\<rparr>) = tx_cont d" by (simp add: tx_cont_def tx_used_def)
qed

lemma lpc_low_level_output_ok:
  assumes ok: "emac_ok C d R" and own: "sendp \<in># R" and ch: "chain (en_heap d) (Some sendp) ps"
    and free: "length ps \<le> unat (tx_free_descs d)" and rf: "refs (en_heap d) sendp < 65535"
  shows "\<exists>d'. lpc_low_level_output C delay sendp d = Some (Inr (ERR_OK, d')) \<and> emac_ok C d' R \<and>
     tx_cont d' = tx_cont d @ replicate (length ps - 1) None @ [Some sendp] \<and> rx_cont d' = rx_cont d \<and>
     (\<exists>pb. fmlookup (en_heap d) sendp = Some pb \<and> en_heap d' = fmupd sendp (pb\<lparr>pb_ref := pb_ref pb + 1\<rparr>) (en_heap d))"
proof -
  have rx: "rx_inv C d" and tx: "tx_inv C d" and h: "heap_ok (en_heap d) (R + owned (rx_cont d) + owned (tx_cont d))"
    using ok by (auto simp: emac_ok_def)
  note D = tx_invD [OF tx]
  obtain pb qs where qs: "ps = sendp # qs" "fmlookup (en_heap d) sendp = Some pb" "chain (en_heap d) (pb_next pb) qs"
    using ch by (auto simp: chain_Some)
  have l4: "length ps \<le> 4" using free D(3) by simp
  define dn :: u8 where "dn = of_nat (length ps)"
  have dn: "unat dn = length ps" "unat (ucast dn :: u32) = length ps"
    using l4 by (simp_all add: dn_def unat_of_nat)
  have w: "tx_wait delay (ucast dn) d = Some d" by (rule tx_wait_enough) (simp add: word_le_nat_alt dn free)
  let ?f = "tx_fill_idx d"
  have i: "unat ?f < 4" using D(5) by simp
  define h1 where "h1 = fmupd sendp (pb\<lparr>pb_ref := pb_ref pb + 1\<rparr>) (en_heap d)"
  define d1 where "d1 = d\<lparr>ptdesc := (ptdesc d)[unat ?f := tx_desc_for C (length qs) True sendp pb (ptdesc d ! unat ?f)],
      txpbufs := (txpbufs d)[unat ?f := (if length qs = 0 then Some sendp else None)], tx_free_descs := tx_free_descs d - 1, en_heap := h1\<rparr>"
  have step: "tx_fill C (length ps) ?f ?f sendp (Some sendp) d = tx_fill C (length qs) (next_idx 4 ?f) ?f sendp (pb_next pb) d1"
    using tx_fill_step [OF qs(2), of ?f C "length qs" ?f sendp] i D(1,2) qs(1) by (simp add: d1_def h1_def)
  have fr: "0 < unat (tx_free_descs d)" using free qs(1) by simp
  have "tx_inv C (d\<lparr>tx_fill_idx := ?f\<rparr>)" using tx by simp
  note P = tx_put_ok [OF this fr d1_def]
  have ne: "sendp \<notin> set qs" using chain_distinct [OF ch] qs(1) by simp
  have ch1: "chain (en_heap d1) (pb_next pb) qs" by (rule chain_frame [OF qs(3)]) (use ne in \<open>auto simp: d1_def h1_def\<close>)
  have uf: "unat (tx_free_descs d - 1) = unat (tx_free_descs d) - 1" using fr by (intro unat_minus_1) auto
  have "\<exists>idx' d'. tx_fill C (length qs) (next_idx 4 ?f) ?f sendp (pb_next pb) d1 = Inr (idx', d') \<and> tx_inv C (d'\<lparr>tx_fill_idx := idx'\<rparr>) \<and>
     tx_cont d' = tx_cont d1 @ (if qs = [] then [] else replicate (length qs - 1) None @ [Some sendp]) \<and>
     en_heap d' = en_heap d1 \<and> same_rx d' d1 \<and> tx_reclaim_idx d' = tx_reclaim_idx d1 \<and> tx_used d' = tx_used d1 + length qs"
    by (rule tx_fill_rest [OF P(1) ch1, of "tx_used d"]) (use free qs(1) uf P(3) D(5) in \<open>simp_all add: d1_def\<close>)
  then obtain idx' d2 where r: "tx_fill C (length qs) (next_idx 4 ?f) ?f sendp (pb_next pb) d1 = Inr (idx', d2)" "tx_inv C (d2\<lparr>tx_fill_idx := idx'\<rparr>)"
     "tx_cont d2 = tx_cont d1 @ (if qs = [] then [] else replicate (length qs - 1) None @ [Some sendp])"
     "en_heap d2 = h1" "same_rx d2 d" "tx_reclaim_idx d2 = tx_reclaim_idx d" "tx_used d2 = tx_used d1 + length qs"
    by (auto simp: d1_def same_rx_def)
  let ?d2 = "d2\<lparr>tx_fill_idx := idx'\<rparr>"
  define d3 where "d3 = ?d2\<lparr>ptdesc := (ptdesc ?d2)[unat ?f := (ptdesc ?d2 ! unat ?f)\<lparr>td_CTRLSTAT := td_CTRLSTAT (ptdesc ?d2 ! unat ?f) OR TDES_OWN C\<rparr>]\<rparr>"
  have or: "tx_or (TDES_OWN C) (unat ?f) ?d2 = Inr d3" unfolding d3_def by (rule tx_or_ok) (use tx_invD(1) [OF r(2)] i in simp)
  have "tx_used d < tx_used ?d2" using r(7) P(3) by (simp add: tx_used_def)
  from tx_inv_used [OF r(2) this, of "unat ?f"] D(5) r(6) have t3: "tx_inv C d3" "tx_cont d3 = tx_cont ?d2" by (simp_all add: d3_def)
  have c2: "tx_cont d3 = tx_cont d @ replicate (length ps - 1) None @ [Some sendp]"
    using t3(2) r(3) P(2) qs(1) by (cases qs) (simp_all add: tx_cont_def tx_used_def)
  have rx3: "same_rx d3 d" "en_heap d3 = h1" using r(4,5) by (simp_all add: d3_def same_rx_def)
  have pr: "pbuf_ref (Some sendp) (en_heap d) = Inr h1" using qs(2) by (simp add: pbuf_ref_def h1_def)
  have own': "sendp \<in># R + owned (rx_cont d) + owned (tx_cont d)" using own by simp
  have h3: "heap_ok h1 (add_mset sendp (R + owned (rx_cont d) + owned (tx_cont d)))"
    by (rule heap_ok_ref [OF h own' rf]) (use pr in auto)
  have "rx_inv C (d\<lparr>en_heap := h1\<rparr>)"
    by (rule rx_inv_other [OF rx, of "R + owned (tx_cont d)"]) (use h own in \<open>auto simp: h1_def ac_simps\<close>)
  then have "rx_inv C d3" using same_rx_inv [OF rx3(1)] rx3(2) by simp
  moreover have "owned (tx_cont d3) = add_mset sendp (owned (tx_cont d))"
  proof -
    have "owned (replicate n None) = {#}" for n by (induction n) simp_all
    then show ?thesis unfolding c2 by simp
  qed
  ultimately have ok3: "emac_ok C d3 R" using t3(1) h3 rx3(2) same_rx_cont [OF rx3(1)] by (simp add: emac_ok_def ac_simps)
  have "lpc_low_level_output C delay sendp d = Some (Inr (ERR_OK, d3\<lparr>en_eth := (en_eth d3)\<lparr>DMA_TRANS_POLL_DEMAND := 1\<rparr>\<rparr>))"
    using pbuf_clen_chain [OF ch] w step r(1) or by (simp add: lpc_low_level_output_def dn_def [symmetric] dn(1) Let_def)
  moreover have "tx_cont (d3\<lparr>en_eth := e\<rparr>) = tx_cont d3" "rx_cont (d3\<lparr>en_eth := e\<rparr>) = rx_cont d" for e
    using same_rx_cont [OF rx3(1)] by (simp_all add: tx_cont_def tx_used_def rx_cont_def rx_used_def)
  ultimately show ?thesis using ok3 c2 rx3(2) qs(2) by (simp add: h1_def)
qed

lemma lpc_low_level_output_blocks:
  assumes ch: "chain (en_heap d) (Some sendp) ps" and n: "length ps < 256" and free: "unat (tx_free_descs d) < length ps"
    and delay: "\<And>x. tx_free_descs (delay x) = tx_free_descs x"
  shows "lpc_low_level_output C delay sendp d = None"
proof -
  have "unat (ucast (of_nat (length ps) :: u8) :: u32) = length ps" using n by (simp add: unat_of_nat)
  then have "tx_wait delay (ucast (of_nat (length ps) :: u8)) d = None"
    using free by (intro tx_wait_never [OF delay]) (simp add: word_less_nat_alt)
  then show ?thesis using pbuf_clen_chain [OF ch] by (simp add: lpc_low_level_output_def)
qed

text \<open>What the driver relies on of the descriptors' bits.\<close>

definition chip_ok :: "chip \<Rightarrow> bool" where
  "chip_ok C \<longleftrightarrow> TDES_ENH_TCH C AND TDES_OWN C = 0 \<and> TDES_ENH_TER C AND TDES_OWN C = 0 \<and> TDES_ENH_CIC C 3 AND TDES_OWN C = 0 \<and>
     TDES_OWN C \<noteq> 0 \<and> RDES_OWN C \<noteq> 0"

lemma or_and_0: "a AND c = 0 \<Longrightarrow> b AND c = 0 \<Longrightarrow> (a OR b) AND c = (0 :: u32)"
  by (simp add: bit.conj_disj_distrib2)

text \<open>The oldest descriptor in use is given back.\<close>

lemma tx_release_ok:
  assumes inv: "tx_inv C (d\<lparr>tx_reclaim_idx := ridx\<rparr>)" and used: "unat (tx_free_descs d) < 4"
    and own: "td_CTRLSTAT de AND TDES_OWN C = 0"
    and d': "d' = d\<lparr>ptdesc := (ptdesc d)[unat ridx := de], en_heap := h, tx_free_descs := tx_free_descs d + 1\<rparr>"
  shows "tx_inv C (d'\<lparr>tx_reclaim_idx := next_idx 4 ridx\<rparr>)"
    "tx_cont (d\<lparr>tx_reclaim_idx := ridx\<rparr>) = txpbufs d ! unat ridx # tx_cont (d'\<lparr>tx_reclaim_idx := next_idx 4 ridx\<rparr>)"
    "tx_used d = Suc (tx_used d')"
proof -
  let ?d = "d\<lparr>tx_reclaim_idx := ridx\<rparr>"
  note D = tx_invD [OF inv, simplified]
  have uf: "unat (tx_free_descs d + 1) = unat (tx_free_descs d) + 1" using used by (simp add: unat_word_ariths(1))
  have g: "unat (next_idx 4 ridx) = (unat ridx + 1) mod 4" by (rule next_idx_4 [OF D(4)])
  have ud: "tx_used ?d = tx_used d" by (simp add: tx_used_def)
  show u: "tx_used d = Suc (tx_used d')" using uf used by (simp add: tx_used_def d')
  let ?e = "d'\<lparr>tx_reclaim_idx := next_idx 4 ridx\<rparr>"
  have ue: "tx_used ?e = tx_used d'" by (simp add: tx_used_def)
  show "tx_cont ?d = txpbufs d ! unat ridx # tx_cont ?e"
    unfolding tx_cont_def ud ue u ring_Suc using D(2,4) g by (simp add: d')
  have "td_CTRLSTAT (ptdesc ?e ! ((unat (tx_reclaim_idx ?e) + k) mod 4)) AND TDES_OWN C = 0" if k: "k < 4" "tx_used ?e \<le> k" for k
  proof -
    have idx: "(unat (tx_reclaim_idx ?e) + k) mod 4 = (unat ridx + Suc k) mod 4" using g mod4_shift by simp
    show ?thesis
    proof (cases "k = 3")
      case True
      then show ?thesis unfolding idx using D(1,4) own by (simp add: d')
    next
      case False
      have "(unat ridx + Suc k) mod 4 \<noteq> unat ridx"
        using mod_add_ne [of 0 "Suc k" 4 "unat ridx"] False k(1) D(4) by simp
      then show ?thesis unfolding idx using D(7) [of "Suc k"] False k u ue ud by (simp add: d')
    qed
  qed
  moreover have "unat (tx_fill_idx ?e) = (unat (tx_reclaim_idx ?e) + tx_used ?e) mod 4"
    using D(5) u ue ud g mod4_shift [of "unat ridx" "tx_used d'"] by (simp add: d')
  ultimately show "tx_inv C ?e" using D uf used g unfolding tx_inv_def by (simp add: d')
qed

lemma tx_reclaim_step:
  assumes "tx_free_descs d < 4" "unat ridx < length (ptdesc d)" "unat ridx < length (txpbufs d)"
    "td_CTRLSTAT (ptdesc d ! unat ridx) AND TDES_OWN C = 0"
    and f: "(if txpbufs d ! unat ridx = None then Some (Inr (0, en_heap d)) else pbuf_free L (txpbufs d ! unat ridx) (en_heap d)) = Some (Inr (m, h))"
    and ctl: "ctl = (if ridx = LPC_NUM_BUFF_TXDESCS - 1 then TDES_ENH_TCH C OR TDES_ENH_TER C else TDES_ENH_TCH C)"
  shows "tx_reclaim_loop C L ridx d = tx_reclaim_loop C L (next_idx 4 ridx)
    (d\<lparr>ptdesc := (ptdesc d)[unat ridx := (ptdesc d ! unat ridx)\<lparr>td_CTRLSTAT := ctl\<rparr>], en_heap := h, tx_free_descs := tx_free_descs d + 1\<rparr>)"
proof (cases "txpbufs d ! unat ridx")
  case None
  then have "h = en_heap d" using f by simp
  then show ?thesis using assms(1-4) None unfolding ctl by (subst tx_reclaim_loop.simps) (simp add: load_def Let_def)
next
  case (Some a)
  then have "pbuf_free L (Some a) (en_heap d) = Some (Inr (m, h))" using f by simp
  then show ?thesis using assms(1-4) Some unfolding ctl by (subst tx_reclaim_loop.simps) (simp add: load_def Let_def)
qed

text \<open>The number of packets and parts of packets that the controller has sent: the descriptors in use before the first one that it owns.\<close>

definition tx_sent :: "chip \<Rightarrow> enetdata \<Rightarrow> nat" where
  "tx_sent C d =
     length (takeWhile (\<lambda>k. td_CTRLSTAT (ptdesc d ! ((unat (tx_reclaim_idx d) + k) mod 4)) AND TDES_OWN C = 0) [0..<tx_used d])"

lemma tx_sent_none: "tx_used d = 0 \<or> unat (tx_reclaim_idx d) < 4 \<and> td_CTRLSTAT (ptdesc d ! unat (tx_reclaim_idx d)) AND TDES_OWN C \<noteq> 0 \<Longrightarrow> tx_sent C d = 0"
  by (cases "tx_used d") (auto simp: tx_sent_def upt_conv_Cons simp del: upt_Suc)

lemma takeWhile_upt_Suc: "P 0 \<Longrightarrow> length (takeWhile P [0..<Suc n]) = Suc (length (takeWhile (\<lambda>k. P (Suc k)) [0..<n]))"
proof -
  assume P: "P 0"
  have "[0..<Suc n] = 0 # map Suc [0..<n]" by (simp add: upt_conv_Cons map_Suc_upt del: upt_Suc)
  then show ?thesis using P by (simp add: takeWhile_map comp_def del: upt_Suc)
qed

lemma tx_sent_release:
  assumes d: "tx_used d = Suc (tx_used e)" "tx_used d \<le> 4" "unat (tx_reclaim_idx d) < 4" "length (ptdesc d) = 4"
    and own: "td_CTRLSTAT (ptdesc d ! unat (tx_reclaim_idx d)) AND TDES_OWN C = 0"
    and e: "ptdesc e = (ptdesc d)[unat (tx_reclaim_idx d) := de]" "unat (tx_reclaim_idx e) = (unat (tx_reclaim_idx d) + 1) mod 4"
  shows "tx_sent C d = Suc (tx_sent C e)"
proof -
  let ?i = "unat (tx_reclaim_idx d)"
  have "takeWhile (\<lambda>k. td_CTRLSTAT (ptdesc d ! ((?i + Suc k) mod 4)) AND TDES_OWN C = 0) [0..<tx_used e] =
      takeWhile (\<lambda>k. td_CTRLSTAT (ptdesc e ! ((unat (tx_reclaim_idx e) + k) mod 4)) AND TDES_OWN C = 0) [0..<tx_used e]"
  proof (rule takeWhile_cong [OF refl])
    fix k assume "k \<in> set [0..<tx_used e]"
    then have k: "Suc k < 4" using d(1,2) by simp
    have "(?i + Suc k) mod 4 \<noteq> ?i" using mod_add_ne [of 0 "Suc k" 4 ?i] k d(3) by simp
    then show "(td_CTRLSTAT (ptdesc d ! ((?i + Suc k) mod 4)) AND TDES_OWN C = 0) =
        (td_CTRLSTAT (ptdesc e ! ((unat (tx_reclaim_idx e) + k) mod 4)) AND TDES_OWN C = 0)"
      unfolding e mod4_shift by simp
  qed
  then show ?thesis unfolding tx_sent_def d(1) using own d(3) by (subst takeWhile_upt_Suc) simp_all
qed

lemma tx_reclaim_loop_ok:
  assumes C: "chip_ok C"
  shows "emac_ok C (d\<lparr>tx_reclaim_idx := ridx\<rparr>) R \<Longrightarrow>
    \<exists>ridx' d'. tx_reclaim_loop C L ridx d = Some (Inr (ridx', d')) \<and> emac_ok C (d'\<lparr>tx_reclaim_idx := ridx'\<rparr>) R \<and>
      tx_cont (d'\<lparr>tx_reclaim_idx := ridx'\<rparr>) = drop (tx_sent C (d\<lparr>tx_reclaim_idx := ridx\<rparr>)) (tx_cont (d\<lparr>tx_reclaim_idx := ridx\<rparr>)) \<and> same_rx d' d"
proof (induction "tx_used d" arbitrary: d ridx)
  case 0
  have "unat (tx_free_descs d) \<le> 4" using 0(2) tx_invD(3) [of C "d\<lparr>tx_reclaim_idx := ridx\<rparr>"] by (simp add: emac_ok_def)
  then have "\<not> tx_free_descs d < 4" using 0(1) by (simp add: tx_used_def word_less_nat_alt)
  then have "tx_reclaim_loop C L ridx d = Some (Inr (ridx, d))" by (subst tx_reclaim_loop.simps) simp
  moreover have "tx_sent C (d\<lparr>tx_reclaim_idx := ridx\<rparr>) = 0" by (rule tx_sent_none) (use 0(1) in \<open>simp add: tx_used_def\<close>)
  ultimately show ?case using 0 by (intro exI [of _ ridx] exI [of _ d]) simp
next
  case (Suc n)
  let ?d = "d\<lparr>tx_reclaim_idx := ridx\<rparr>"
  have rx: "rx_inv C ?d" and tx: "tx_inv C ?d" and h: "heap_ok (en_heap d) (R + owned (rx_cont ?d) + owned (tx_cont ?d))"
    using Suc.prems by (auto simp: emac_ok_def)
  note D = tx_invD [OF tx, simplified]
  have fr: "unat (tx_free_descs d) < 4" using Suc(2) by (simp add: tx_used_def)
  then have lt: "tx_free_descs d < 4" by (simp add: word_less_nat_alt)
  define de where "de = ptdesc d ! unat ridx"
  have ld: "load (ptdesc d) (unat ridx) = Inr de" using D(1,4) by (simp add: load_def de_def)
  show ?case
  proof (cases "td_CTRLSTAT de AND TDES_OWN C = 0")
    case False
    then have "tx_reclaim_loop C L ridx d = Some (Inr (ridx, d))" using lt ld by (subst tx_reclaim_loop.simps) simp
    moreover have "tx_sent C ?d = 0" by (rule tx_sent_none) (use False D(4) in \<open>simp add: de_def\<close>)
    ultimately show ?thesis using Suc.prems by (intro exI [of _ ridx] exI [of _ d]) simp
  next
    case True
    define ctl where "ctl = (if ridx = LPC_NUM_BUFF_TXDESCS - 1 then TDES_ENH_TCH C OR TDES_ENH_TER C else TDES_ENH_TCH C)"
    have ctl: "ctl AND TDES_OWN C = 0" using C or_and_0 by (auto simp: ctl_def chip_ok_def)
    define p where "p = txpbufs d ! unat ridx"
    define d1 where "d1 h = d\<lparr>ptdesc := (ptdesc d)[unat ridx := de\<lparr>td_CTRLSTAT := ctl\<rparr>], en_heap := h, tx_free_descs := tx_free_descs d + 1\<rparr>" for h
    have own: "td_CTRLSTAT (de\<lparr>td_CTRLSTAT := ctl\<rparr>) AND TDES_OWN C = 0" using ctl by simp
    note P = tx_release_ok [OF tx fr own d1_def, folded p_def]
    have sr: "same_rx (d1 h) d" for h by (simp add: d1_def same_rx_def)
    have h0: "heap_ok (en_heap d) (R + owned (rx_cont ?d) + owned (tx_cont ((d1 h)\<lparr>tx_reclaim_idx := next_idx 4 ridx\<rparr>)) + owner p)" for h
      using h P(2) [of h] by (simp add: ac_simps)
    have rc: "rx_cont ((d1 h)\<lparr>tx_reclaim_idx := r\<rparr>) = rx_cont ?d" for h r by (simp add: rx_cont_def rx_used_def d1_def)
    obtain m h' where f: "(if p = None then Some (Inr (0, en_heap d)) else pbuf_free L p (en_heap d)) = Some (Inr (m, h'))"
      "heap_ok h' (R + owned (rx_cont ?d) + owned (tx_cont ((d1 h')\<lparr>tx_reclaim_idx := next_idx 4 ridx\<rparr>)))" "same_but_refs h' (en_heap d)"
    proof (cases p)
      case None
      then show thesis using h0 [of "en_heap d"] by (intro that [of 0 "en_heap d"]) simp_all
    next
      case (Some a)
      have tc: "tx_cont ((d1 h)\<lparr>tx_reclaim_idx := r\<rparr>) = tx_cont ((d1 h')\<lparr>tx_reclaim_idx := r\<rparr>)" for h h' r by (simp add: tx_cont_def tx_used_def d1_def)
      have "heap_ok (en_heap d) (add_mset a (R + owned (rx_cont ?d) + owned (tx_cont ((d1 (en_heap d))\<lparr>tx_reclaim_idx := next_idx 4 ridx\<rparr>))))"
        using h0 [of "en_heap d"] Some by simp
      then obtain m h' where "pbuf_free L (Some a) (en_heap d) = Some (Inr (m, h'))"
          "heap_ok h' (R + owned (rx_cont ?d) + owned (tx_cont ((d1 (en_heap d))\<lparr>tx_reclaim_idx := next_idx 4 ridx\<rparr>)))" "same_but_refs h' (en_heap d)"
        by (rule heap_ok_free)
      then show thesis using Some tc [where h = "en_heap d" and h' = h'] by (intro that [of m h']) simp_all
    qed
    let ?e = "(d1 h')\<lparr>tx_reclaim_idx := next_idx 4 ridx\<rparr>"
    have "rx_inv C (?d\<lparr>en_heap := h'\<rparr>)"
    proof (rule rx_inv_other [OF rx, of "R + owned (tx_cont ?d)"])
      show "heap_ok (en_heap ?d) (R + owned (tx_cont ?d) + owned (rx_cont ?d))" using h by (simp add: ac_simps)
      fix q assume q: "q \<in># owned (rx_cont ?d)" "rx_buffer C (en_heap ?d) q"
      then obtain qb where qb: "fmlookup (en_heap d) q = Some qb" "pb_ref qb = 1" by (auto simp: rx_buffer_def)
      have m: "q \<in># R + owned (rx_cont ?d) + owned (tx_cont ?e)" using q(1) by (simp only: union_iff simp_thms)
      have "owned (tx_cont ?d) = owner p + owned (tx_cont ?e)" by (simp only: P(2) [of h'] owned_simps)
      then have "count (R + owned (rx_cont ?d) + owned (tx_cont ?e)) q \<le> count (R + owned (rx_cont ?d) + owned (tx_cont ?d)) q"
        by (simp only: count_union)
      from exclusive_kept [OF h f(2,3) qb m this] show "fmlookup h' q = fmlookup (en_heap ?d) q" using qb(1) by (cases d) simp
    qed
    moreover have e: "en_heap ?e = h'" "same_rx ?e ?d" by (simp_all add: d1_def same_rx_def)
    ultimately have "rx_inv C ?e" using same_rx_inv [OF e(2)] by (simp only: e(1))
    then have ok: "emac_ok C ?e R" using P(1) [of h'] f(2) by (simp only: emac_ok_def e(1) rc simp_thms)
    have "n = tx_used (d1 h')" using P(3) [of h'] Suc(2) by simp
    from Suc.hyps(1) [OF this ok] obtain ridx' d' where r: "tx_reclaim_loop C L (next_idx 4 ridx) (d1 h') = Some (Inr (ridx', d'))"
      "emac_ok C (d'\<lparr>tx_reclaim_idx := ridx'\<rparr>) R" "tx_cont (d'\<lparr>tx_reclaim_idx := ridx'\<rparr>) = drop (tx_sent C ?e) (tx_cont ?e)" "same_rx d' (d1 h')" by blast
    have "tx_sent C ?d = Suc (tx_sent C ?e)"
    proof (rule tx_sent_release [where de = "de\<lparr>td_CTRLSTAT := ctl\<rparr>"])
      show "tx_used ?d = Suc (tx_used ?e)" using P(3) [of h'] by (simp add: tx_used_def)
      show "unat (tx_reclaim_idx ?e) = (unat (tx_reclaim_idx ?d) + 1) mod 4" using next_idx_4 [OF D(4)] by simp
    qed (use D(1,4,6) True in \<open>simp_all add: de_def d1_def\<close>)
    moreover have "tx_reclaim_loop C L ridx d = Some (Inr (ridx', d'))"
      using tx_reclaim_step [OF lt _ _ True [unfolded de_def] f(1) [unfolded p_def] ctl_def] r(1) D(1,2,4)
      unfolding d1_def de_def by simp
    moreover from calculation have "tx_cont (d'\<lparr>tx_reclaim_idx := ridx'\<rparr>) = drop (tx_sent C ?d) (tx_cont ?d)" using r(3) P(2) [of h'] by simp
    ultimately show ?thesis using r(2) same_rx_trans [OF r(4) sr] by (intro exI [of _ ridx'] exI [of _ d']) simp
  qed
qed

lemma lpc_tx_reclaim_ok:
  assumes "chip_ok C" "emac_ok C d R"
  obtains d' where "lpc_tx_reclaim C L d = Some (Inr d')" "emac_ok C d' R" "tx_cont d' = drop (tx_sent C d) (tx_cont d)" "same_rx d' d"
proof -
  have "emac_ok C (d\<lparr>tx_reclaim_idx := tx_reclaim_idx d\<rparr>) R" using assms(2) by simp
  from tx_reclaim_loop_ok [OF assms(1) this, of L] obtain ridx' d' where
    "tx_reclaim_loop C L (tx_reclaim_idx d) d = Some (Inr (ridx', d'))" "emac_ok C (d'\<lparr>tx_reclaim_idx := ridx'\<rparr>) R"
      "tx_cont (d'\<lparr>tx_reclaim_idx := ridx'\<rparr>) = drop (tx_sent C d) (tx_cont d)" "same_rx d' d" by auto
  then show thesis by (intro that [of "d'\<lparr>tx_reclaim_idx := ridx'\<rparr>"]) (simp_all add: lpc_tx_reclaim_def same_rx_def)
qed

end
