(* ===== verification/EmacSystem.thy ===== *)
theory EmacSystem
  imports EmacTx
begin

text \<open>
  The Ethernet driver together with the controller: the initialisation, the steps of the controller, the states
  that can be reached, and what holds in all of them.
\<close>

section \<open>Initialisation\<close>

text \<open>The static data of the driver before the initialisation.\<close>

definition enet_zero :: "heap \<Rightarrow> enetdata" where
  "enet_zero h = \<lparr>ptdesc = replicate 4 tx_clear, prdesc = replicate 4 rx_clear, txpbufs = replicate 4 None, tx_free_descs = 0,
     tx_fill_idx = 0, tx_reclaim_idx = 0, rxpbufs = replicate 4 None, rx_free_descs = 0, rx_get_idx = 0, rx_next_idx = 0, intMask = 0,
     en_eth = \<lparr>MAC_CONFIG = 0, DMA_REC_POLL_DEMAND = 0, DMA_TRANS_POLL_DEMAND = 0\<rparr>, en_heap = h\<rparr>"

lemma less_4: "(k :: nat) < 4 \<longleftrightarrow> k = 0 \<or> k = 1 \<or> k = 2 \<or> k = 3"
  by auto

lemma lpc_tx_setup_ok:
  assumes "chip_ok C" "length (txpbufs d) = 4"
  shows "tx_inv C (snd (lpc_tx_setup C d))" "tx_cont (snd (lpc_tx_setup C d)) = []"
proof -
  have a: "(TDES_ENH_TCH C OR TDES_ENH_CIC C 3) AND TDES_OWN C = 0" "(TDES_ENH_TCH C OR TDES_ENH_TER C OR TDES_ENH_CIC C 3) AND TDES_OWN C = 0"
    using assms(1) unfolding chip_ok_def by (auto intro!: or_and_0)
  show "tx_inv C (snd (lpc_tx_setup C d))"
    using assms(2) a by (auto simp: tx_inv_def lpc_tx_setup_def Let_def tx_used_def less_4 nth_list_update)
  show "tx_cont (snd (lpc_tx_setup C d)) = []" by (simp add: lpc_tx_setup_def Let_def tx_cont_def tx_used_def)
qed

lemma lpc_rx_setup_ok:
  assumes L: "malloc_ok L" and tx: "tx_inv C d" "tx_cont d = []" and len: "length (rxpbufs d) = 4" and h: "heap_ok (en_heap d) R"
  obtains d' where "lpc_rx_setup C L d = Some (Inr (ERR_OK, d'))" "emac_ok C d' R"
proof -
  let ?n = "unat LPC_NUM_BUFF_RXDESCS"
  define ds where "ds = map (\<lambda>i. rx_clear\<lparr>rd_CTRL := RDES_ENH_RCH C, rd_B2ADD := i + 1\<rparr>) [0..<?n]"
  define ds' where "ds' = ds[?n - 1 := (ds ! (?n - 1))\<lparr>rd_CTRL := RDES_ENH_RCH C OR RDES_ENH_RER C, rd_B2ADD := 0\<rparr>]"
  define d1 where "d1 = d\<lparr>rx_get_idx := 0, rx_next_idx := 0, rx_free_descs := LPC_NUM_BUFF_RXDESCS, prdesc := ds'\<rparr>"
  have st: "\<forall>i<4. rd_STATUS (ds' ! i) = 0" "length ds' = 4" by (auto simp: ds'_def ds_def less_4 nth_list_update rx_clear_def)
  have "rx_inv C d1" using st len by (auto simp: rx_inv_def d1_def rx_used_def Let_def)
  moreover have "tx_inv C d1 \<and> tx_cont d1 = []" using tx by (simp add: d1_def tx_inv_def tx_cont_def tx_used_def)
  moreover have "rx_cont d1 = []" by (simp add: d1_def rx_cont_def rx_used_def)
  ultimately have "emac_ok C d1 R" using h by (simp add: emac_ok_def d1_def)
  then obtain q d' where "lpc_rx_queue C L d1 = Some (Inr (q, d'))" "emac_ok C d' R"
    using lpc_rx_queue_ok [OF L] by metis
  then show thesis by (intro that [of d']) (simp_all add: lpc_rx_setup_def Let_def d1_def ds'_def ds_def)
qed

lemma low_level_init_ok:
  assumes "chip_ok C" "malloc_ok L" "heap_ok h R" "lpc_phy_init k stk p hw = (SUCCESS, p', hw')"
  obtains d' where "low_level_init C L k stk (p, hw, enet_zero h) = Some (Inr (ERR_OK, p', hw', d'))" "emac_ok C d' R"
proof -
  define m where "m = RDES_CE C OR (if USE_RMII C then RDES_DE C else 0) OR RDES_RE C OR RDES_RWT C OR RDES_LC C OR RDES_OE C OR RDES_SAF C OR RDES_AFM C"
  define d0 where "d0 = (enet_zero h)\<lparr>en_eth := (en_eth (enet_zero h))\<lparr>MAC_CONFIG := MAC_CFG_INIT C\<rparr>, intMask := m\<rparr>"
  have z: "length (txpbufs d0) = 4" "length (rxpbufs d0) = 4" "en_heap d0 = h" by (simp_all add: d0_def enet_zero_def)
  note T = lpc_tx_setup_ok [OF assms(1) z(1)]
  have t: "fst (lpc_tx_setup C d0) = ERR_OK" "length (rxpbufs (snd (lpc_tx_setup C d0))) = 4" "en_heap (snd (lpc_tx_setup C d0)) = h"
    using z by (simp_all add: lpc_tx_setup_def Let_def)
  obtain d' where d': "lpc_rx_setup C L (snd (lpc_tx_setup C d0)) = Some (Inr (ERR_OK, d'))" "emac_ok C d' R"
    by (rule lpc_rx_setup_ok [OF assms(2) T t(2)]) (use t(3) assms(3) in auto)
  have "low_level_init C L k stk (p, hw, enet_zero h) =
      Some (Inr (ERR_OK, p', hw', d'\<lparr>en_eth := (en_eth d')\<lparr>MAC_CONFIG := MAC_CONFIG (en_eth d') OR MAC_CFG_RE_TE C, DMA_REC_POLL_DEMAND := 1\<rparr>\<rparr>))"
    using assms(4) d'(1) t(1) by (simp add: low_level_init_def Let_def split_beta d0_def m_def)
  then show thesis by (rule that) (use d'(2) in simp)
qed

section \<open>The controller and the rest of the program\<close>

text \<open>
  The steps of the controller: it writes a frame into the buffer of a receive descriptor it owns and gives
  the descriptor back with a status, or it gives back a transmit descriptor.
\<close>

inductive dma_step :: "chip \<Rightarrow> enetdata \<Rightarrow> enetdata \<Rightarrow> bool" for C where
  receive: "i < length (prdesc d) \<Longrightarrow> rd_STATUS (prdesc d ! i) AND RDES_OWN C \<noteq> 0 \<Longrightarrow> rd_B1ADD (prdesc d ! i) = Some (p, off) \<Longrightarrow>
    fmlookup (en_heap d) p = Some pb \<Longrightarrow> length fr \<le> unat (EMAC_ETH_MAX_FLEN C) \<Longrightarrow>
    dma_step C d (d\<lparr>prdesc := (prdesc d)[i := (prdesc d ! i)\<lparr>rd_STATUS := status\<rparr>],
                    en_heap := fmupd p (pb\<lparr>pb_mem := blit (pb_mem pb) off fr\<rparr>) (en_heap d)\<rparr>)"
| transmit: "i < length (ptdesc d) \<Longrightarrow> td_CTRLSTAT (ptdesc d ! i) AND TDES_OWN C \<noteq> 0 \<Longrightarrow>
    dma_step C d (d\<lparr>ptdesc := (ptdesc d)[i := (ptdesc d ! i)\<lparr>td_CTRLSTAT := status\<rparr>]\<rparr>)"

lemma slot_index: "g < 4 \<Longrightarrow> i < 4 \<Longrightarrow> \<exists>k<4. i = (g + k) mod (4 :: nat)"
  by (intro exI [of _ "(i + 4 - g) mod 4"]) (simp add: mod_add_right_eq)

lemma rx_owned_slot:
  assumes inv: "rx_inv C d" and i: "i < 4" and own: "rd_STATUS (prdesc d ! i) AND RDES_OWN C \<noteq> 0"
  obtains k p pb where "k < rx_used d" "i = (unat (rx_get_idx d) + k) mod 4" "rxpbufs d ! i = Some p" "fmlookup (en_heap d) p = Some pb"
    "pb_len pb = EMAC_ETH_MAX_FLEN C" "pb_ref pb = 1" "unat (EMAC_ETH_MAX_FLEN C) + pb_payload pb \<le> length (pb_mem pb)"
    "rd_B1ADD (prdesc d ! i) = Some (p, pb_payload pb)" "Some p \<in> set (rx_cont d)"
proof -
  note D = rx_invD [OF inv]
  obtain k where k: "k < 4" "i = (unat (rx_get_idx d) + k) mod 4" using slot_index [OF D(4) i] by blast
  have u: "k < rx_used d" using D(8) [OF k(1)] own k(2) by (cases "k < rx_used d") auto
  have "rx_cont d ! k = rxpbufs d ! i" "k < length (rx_cont d)" using u k(2) D(2) by (simp_all add: rx_cont_def)
  then have "rxpbufs d ! i \<in> set (rx_cont d)" by (metis nth_mem)
  then show thesis using D(7) [OF u] u k(2) unfolding rx_slot_def by (auto intro: that)
qed

lemma dma_step_ok:
  assumes "dma_step C d d'" "emac_ok C d R"
  shows "emac_ok C d' R"
  using assms
proof (induction rule: dma_step.induct)
  case (receive i d p off pb fr status)
  have rx: "rx_inv C d" and tx: "tx_inv C d" and h: "heap_ok (en_heap d) (R + owned (rx_cont d) + owned (tx_cont d))"
    using receive.prems by (auto simp: emac_ok_def)
  note D = rx_invD [OF rx]
  have i: "i < 4" using receive.hyps(1) D(1) by simp
  obtain k where k: "k < rx_used d" "i = (unat (rx_get_idx d) + k) mod 4" and pb: "pb_len pb = EMAC_ETH_MAX_FLEN C" "pb_ref pb = 1"
    "unat (EMAC_ETH_MAX_FLEN C) + pb_payload pb \<le> length (pb_mem pb)" "off = pb_payload pb"
    using rx_owned_slot [OF rx i receive.hyps(2)] receive.hyps(3,4) by (metis (no_types, lifting) option.inject prod.inject)
  let ?pb = "pb\<lparr>pb_mem := blit (pb_mem pb) off fr\<rparr>"
  let ?h = "fmupd p ?pb (en_heap d)"
  have len: "length (pb_mem ?pb) = length (pb_mem pb)" using pb(3,4) receive.hyps(5) by simp
  have slot: "rx_slot C ?h x b" if "rx_slot C (en_heap d) x b" for x b
    using that receive.hyps(4) len by (auto simp: rx_slot_def)
  let ?d = "d\<lparr>prdesc := (prdesc d)[i := (prdesc d ! i)\<lparr>rd_STATUS := status\<rparr>], en_heap := ?h\<rparr>"
  have "rx_inv C ?d"
    unfolding rx_inv_def Let_def
  proof (intro conjI allI impI)
    fix j :: nat assume j: "j < 4"
    let ?j = "(unat (rx_get_idx d) + j) mod 4"
    have ne: "?j \<noteq> i" if "\<not> j < rx_used d" using mod_add_ne [of k j 4 "unat (rx_get_idx d)"] k j that by simp
    have b: "rd_B1ADD ((prdesc d)[i := (prdesc d ! i)\<lparr>rd_STATUS := status\<rparr>] ! ?j) = rd_B1ADD (prdesc d ! ?j)"
      using D(1) by (cases "?j = i") simp_all
    show "if j < rx_used ?d then rx_slot C (en_heap ?d) (rxpbufs ?d ! ((unat (rx_get_idx ?d) + j) mod 4)) (rd_B1ADD (prdesc ?d ! ((unat (rx_get_idx ?d) + j) mod 4)))
        else rd_STATUS (prdesc ?d ! ((unat (rx_get_idx ?d) + j) mod 4)) AND RDES_OWN C = 0"
      using slot [OF D(7) [of j]] D(8) [of j] j ne b by (auto simp: rx_used_def)
  qed (use D in \<open>simp_all add: rx_used_def\<close>)
  moreover have "heap_ok ?h (R + owned (rx_cont d) + owned (tx_cont d))"
    by (rule heap_ok_upd_same [OF h receive.hyps(4)]) (simp_all add: rc_okD(3) [OF heap_okD [OF h] receive.hyps(4)])
  ultimately show ?case using tx by (simp add: emac_ok_def tx_inv_def rx_cont_def tx_cont_def rx_used_def tx_used_def)
next
  case (transmit i d status)
  have rx: "rx_inv C d" and tx: "tx_inv C d" using transmit.prems by (auto simp: emac_ok_def)
  note D = tx_invD [OF tx]
  have i: "i < 4" using transmit.hyps(1) D(1) by simp
  obtain k where k: "k < 4" "i = (unat (tx_reclaim_idx d) + k) mod 4" using slot_index [OF D(4) i] by blast
  have u: "k < tx_used d" using D(7) [OF k(1)] transmit.hyps(2) k(2) by (cases "k < tx_used d") auto
  let ?d = "d\<lparr>ptdesc := (ptdesc d)[i := (ptdesc d ! i)\<lparr>td_CTRLSTAT := status\<rparr>]\<rparr>"
  have r: "rx_inv C ?d = rx_inv C d" "rx_cont ?d = rx_cont d" by (simp_all add: rx_inv_def rx_cont_def rx_used_def)
  show ?case using tx_inv_used [OF tx u k(2)] transmit.prems r by (simp add: emac_ok_def)
qed

text \<open>
  The states of driver, controller and heap. \<open>R\<close> are the pointers to pbufs that the program holds outside the
  driver. In a step \<open>other\<close> the stack or the application uses its own pbufs: it leaves the buffers queued for
  reception alone, to which it has no pointers, and keeps the counts right.
\<close>

inductive emac_reach :: "chip \<Rightarrow> memlib \<Rightarrow> 'h enet \<Rightarrow> enetdata \<Rightarrow> nat multiset \<Rightarrow> bool" for C L k where
  start: "heap_ok h R \<Longrightarrow> lpc_phy_init k stk p hw = (SUCCESS, p', hw') \<Longrightarrow>
    low_level_init C L k stk (p, hw, enet_zero h) = Some (Inr (e, p', hw', d)) \<Longrightarrow> emac_reach C L k d R"
| dma: "emac_reach C L k d R \<Longrightarrow> dma_step C d d' \<Longrightarrow> emac_reach C L k d' R"
| input: "emac_reach C L k d R \<Longrightarrow> lpc_low_level_input C L d = Some (Inr (p, d')) \<Longrightarrow> emac_reach C L k d' (R + owner p)"
| rx_queue: "emac_reach C L k d R \<Longrightarrow> lpc_rx_queue C L d = Some (Inr (q, d')) \<Longrightarrow> emac_reach C L k d' R"
| send: "emac_reach C L k d R \<Longrightarrow> a \<in># R \<Longrightarrow> chain (en_heap d) (Some a) ps \<Longrightarrow> length ps \<le> unat (tx_free_descs d) \<Longrightarrow> refs (en_heap d) a < 65535 \<Longrightarrow>
    lpc_low_level_output C delay a d = Some (Inr (e, d')) \<Longrightarrow> emac_reach C L k d' R"
| reclaim: "emac_reach C L k d R \<Longrightarrow> lpc_tx_reclaim C L d = Some (Inr d') \<Longrightarrow> emac_reach C L k d' R"
| other: "emac_reach C L k d R \<Longrightarrow> heap_ok h (R' + owned (rx_cont d) + owned (tx_cont d)) \<Longrightarrow>
    (\<And>p. p \<in># owned (rx_cont d) \<Longrightarrow> fmlookup h p = fmlookup (en_heap d) p) \<Longrightarrow> emac_reach C L k (d\<lparr>en_heap := h\<rparr>) R'"

lemma emac_reach_ok:
  assumes "chip_ok C" "malloc_ok L"
  shows "emac_reach C L k d R \<Longrightarrow> emac_ok C d R"
proof (induction rule: emac_reach.induct)
  case (start h R stk p hw p' hw' e d)
  then show ?case using low_level_init_ok [OF assms start(1,2)] by (metis Inr_inject option.inject prod.inject)
next
  case (dma d R d')
  then show ?case by (blast intro: dma_step_ok)
next
  case (input d R p d')
  then show ?case using lpc_low_level_input_ok [OF assms(2) input(3)] by fastforce
next
  case (rx_queue d R q d')
  then show ?case using lpc_rx_queue_ok [OF assms(2) rx_queue(3)] by (metis Inr_inject option.inject prod.inject)
next
  case (send d R a ps delay e d')
  then show ?case using lpc_low_level_output_ok [OF send(7,2-5), of delay] by fastforce
next
  case (reclaim d R d')
  then show ?case using lpc_tx_reclaim_ok [OF assms(1) reclaim(3)] by (metis Inr_inject option.inject)
next
  case (other d R h R')
  then have rx: "rx_inv C d" and tx: "tx_inv C d" by (auto simp: emac_ok_def)
  have "rx_inv C (d\<lparr>en_heap := h\<rparr>)" by (rule rx_inv_heap [OF rx]) (use other(3) Some_owned in blast)
  then show ?case using tx other(2) by (simp add: emac_ok_def tx_inv_def rx_cont_def tx_cont_def rx_used_def tx_used_def)
qed

section \<open>The input function\<close>

lemma emac_ok_free:
  assumes "emac_ok C d (add_mset a R)"
  obtains n h' where "pbuf_free L (Some a) (en_heap d) = Some (Inr (n, h'))" "emac_ok C (d\<lparr>en_heap := h'\<rparr>) R" "same_but_refs h' (en_heap d)"
proof -
  have rx: "rx_inv C d" and tx: "tx_inv C d" and h: "heap_ok (en_heap d) (add_mset a (R + owned (rx_cont d) + owned (tx_cont d)))"
    using assms by (auto simp: emac_ok_def)
  from heap_ok_free [OF h] obtain n h' where f: "pbuf_free L (Some a) (en_heap d) = Some (Inr (n, h'))"
    "heap_ok h' (R + owned (rx_cont d) + owned (tx_cont d))" "same_but_refs h' (en_heap d)" by metis
  have "rx_inv C (d\<lparr>en_heap := h'\<rparr>)"
  proof (rule rx_inv_other [OF rx, of "add_mset a R + owned (tx_cont d)"])
    show "heap_ok (en_heap d) (add_mset a R + owned (tx_cont d) + owned (rx_cont d))" using h by (simp add: ac_simps)
    fix q assume q: "q \<in># owned (rx_cont d)" "rx_buffer C (en_heap d) q"
    then obtain qb where qb: "fmlookup (en_heap d) q = Some qb" "pb_ref qb = 1" by (auto simp: rx_buffer_def)
    show "fmlookup h' q = fmlookup (en_heap d) q" using exclusive_kept [OF h f(2,3) qb] q(1) qb(1) by simp
  qed
  then have "emac_ok C (d\<lparr>en_heap := h'\<rparr>) R"
    using tx f(2) by (simp add: emac_ok_def tx_inv_def rx_cont_def tx_cont_def rx_used_def tx_used_def)
  then show thesis using that f by blast
qed

text \<open>
  The contract of the stack's input function: a packet that it accepts belongs to it afterwards, any other
  still to the caller; \<open>held\<close> are the pointers that the stack keeps.
\<close>

definition input_contract :: "chip \<Rightarrow> 'n netif \<Rightarrow> ('n \<Rightarrow> nat multiset) \<Rightarrow> bool" where
  "input_contract C nif held \<longleftrightarrow> (\<forall>a n d R. emac_ok C d (add_mset a (R + held n)) \<longrightarrow>
     (\<exists>err n' d'. nif_input nif a (n, d) = Some (Inr (err, n', d')) \<and>
        emac_ok C d' ((if err = ERR_OK then R else add_mset a R) + held n')))"

lemma drop_frame_ok:
  assumes "emac_ok C (snd s) (add_mset a R)"
  obtains d' where "drop_frame L a s = Some (Inr (fst s, d'))" "emac_ok C d' R"
proof -
  obtain n h' where "pbuf_free L (Some a) (en_heap (snd s)) = Some (Inr (n, h'))" "emac_ok C ((snd s)\<lparr>en_heap := h'\<rparr>) R"
    by (rule emac_ok_free [OF assms])
  then show thesis by (intro that) (simp_all add: drop_frame_def)
qed

lemma lpc_enetif_input_ok:
  assumes L: "malloc_ok L" and fl: "14 \<le> unat (EMAC_ETH_MAX_FLEN C)" and ok: "emac_ok C d (R + held n)" and nif: "input_contract C nif held"
  shows "\<exists>n' d'. lpc_enetif_input C L nif (n, d) = Some (Inr (n', d')) \<and> emac_ok C d' (R + held n')"
proof -
  obtain p d1 where p: "lpc_low_level_input C L d = Some (Inr (p, d1))" "emac_ok C d1 (R + held n + owner p)"
    "\<And>a. p = Some a \<Longrightarrow> rx_buffer C (en_heap d) a \<and> (\<exists>pb n. fmlookup (en_heap d) a = Some pb \<and> fmlookup (en_heap d1) a = Some (pb\<lparr>pb_tot_len := n, pb_len := n\<rparr>))"
    using lpc_low_level_input_ok [OF L ok] by metis
  show ?thesis
  proof (cases p)
    case None
    then show ?thesis using p(1,2) by (simp add: lpc_enetif_input_def)
  next
    case (Some a)
    obtain pb where pb: "fmlookup (en_heap d1) a = Some pb" "14 + pb_payload pb \<le> length (pb_mem pb)"
      using p(3) [OF Some] fl by (auto simp: rx_buffer_def)
    obtain ty where ty: "eth_type pb = Inr ty" using pb(2) by (simp add: eth_type_def load_def)
    have ok1: "emac_ok C d1 (add_mset a (R + held n))" using p(2) Some by simp
    show ?thesis
    proof (cases "lwip_htons ty = ETHTYPE_IP \<or> lwip_htons ty = ETHTYPE_ARP")
      case True
      obtain err n' d2 where i: "nif_input nif a (n, d1) = Some (Inr (err, n', d2))" "emac_ok C d2 ((if err = ERR_OK then R else add_mset a R) + held n')"
        using nif ok1 unfolding input_contract_def by blast
      show ?thesis
      proof (cases "err = ERR_OK")
        case True
        then show ?thesis using i p(1) Some pb(1) ty \<open>lwip_htons ty = ETHTYPE_IP \<or> lwip_htons ty = ETHTYPE_ARP\<close>
          by (auto simp: lpc_enetif_input_def)
      next
        case False
        then obtain d' where "drop_frame L a (n', d2) = Some (Inr (n', d'))" "emac_ok C d' (R + held n')"
          using drop_frame_ok [of C "(n', d2)" a "R + held n'" L] i(2) by auto
        then show ?thesis using False i(1) p(1) Some pb(1) ty True by (auto simp: lpc_enetif_input_def)
      qed
    next
      case False
      obtain d' where "drop_frame L a (n, d1) = Some (Inr (n, d'))" "emac_ok C d' (R + held n)"
        using drop_frame_ok [of C "(n, d1)" a "R + held n" L] ok1 by auto
      then show ?thesis using False p(1) Some pb(1) ty by (auto simp: lpc_enetif_input_def)
    qed
  qed
qed

section \<open>Examples\<close>

text \<open>A chip with the bits of the LPC43xx, an allocator with a single block, and a heap with one packet.\<close>

definition ex_chip :: chip where
  "ex_chip = \<lparr>RDES_OWN = 0x80000000, RDES_ES = 0x8000, RDES_LE = 0x1000, RDES_FT = 0x20, RDES_CE = 2, RDES_LS = 0x100, RDES_DE = 4,
     RDES_RE = 8, RDES_RWT = 0x10, RDES_LC = 0x40, RDES_OE = 0x800, RDES_SAF = 0x2000, RDES_AFM = 0x40000000, RDES_ENH_RCH = 0x4000,
     RDES_ENH_RER = 0x8000, RDES_ENH_BS1 = (\<lambda>n. n AND 0x1FFF), RDES_FLMSK = (\<lambda>s. drop_bit 16 s AND 0x3FFF), TDES_OWN = 0x80000000,
     TDES_ENH_TCH = 0x100000, TDES_ENH_TER = 0x200000, TDES_ENH_FS = 0x10000000, TDES_ENH_LS = 0x20000000, TDES_ENH_IC = 0x40000000,
     TDES_ENH_CIC = (\<lambda>n. push_bit 22 n), TDES_ENH_BS1 = (\<lambda>n. n AND 0x1FFF), MAC_CFG_DM = 0x800, MAC_CFG_FES = 0x4000, MAC_CFG_INIT = 0x6ECC00,
     MAC_CFG_RE_TE = 0xC, EMAC_ETH_MAX_FLEN = 1536, USE_RMII = True, STATUS_ERROR = ERR_OK\<rparr>"

lemma ex_chip_ok: "chip_ok ex_chip"
  by (simp add: chip_ok_def ex_chip_def)

definition ex_lib1 :: memlib where
  "ex_lib1 = \<lparr>malloc = (\<lambda>n h. if fmlookup h 7 = None then Some (7, replicate n 0) else None), custom_free_function = (\<lambda>a h. Some (Inr h))\<rparr>"

lemma ex_lib1_ok: "malloc_ok ex_lib1"
  by (simp add: malloc_ok_def ex_lib1_def)

definition ex_heap1 :: heap where "ex_heap1 = fmupd 5 (ex_pb None [1, 2, 3] 3) fmempty"

lemma ex_heap1_ok: "heap_ok ex_heap1 {#5#}"
proof -
  have "ptrs ex_heap1 = {#}"
    unfolding ex_heap1_def by (simp add: ptrs_upd_new next_ptrs_def ex_pb_def) (simp add: ptrs_def)
  moreover have "links ex_heap1 = {}" by (auto simp: links_def ex_heap1_def ex_pb_def split: if_splits)
  ultimately show ?thesis
    by (auto simp: heap_ok_def rc_ok_def refs_def ex_heap1_def ex_pb_def acyclic_def split: if_splits)
qed

lemma ex_phy_init: "lpc_phy_init ex_enet 0 ex_phy (0, [0]) = (SUCCESS, ex_phy, (0, []))"
  by (simp add: lpc_phy_init_def lpc_mii_write_def lpc_mii_read_def ex_enet_def ex_phy_def eval_nat_numeral)

definition ex_frame :: pbuf where
  "ex_frame = \<lparr>pb_next = None, pb_mem = replicate 1536 0, pb_payload = 0, pb_tot_len = 1536, pb_len = 1536, pb_type = PBUF_RAM, pb_flags = 0, pb_ref = 1\<rparr>"

lemma ex_alloc:
  "pbuf_alloc ex_lib1 PBUF_RAW 1536 PBUF_RAM h = (if fmlookup h 7 = None then Some (Inr (Some 7, fmupd 7 ex_frame h)) else Some (Inr (None, h)))"
  by (simp add: pbuf_alloc_def ex_lib1_def Let_def raw_pbuf_def LWIP_MEM_ALIGN_SIZE_def SIZEOF_STRUCT_PBUF_def ex_frame_def)

text \<open>The state after the initialisation: one buffer is queued.\<close>

definition ex_started :: "heap \<Rightarrow> enetdata" where
  "ex_started h = (case low_level_init ex_chip ex_lib1 ex_enet 0 (ex_phy, (0, [0]), enet_zero h) of
     Some (Inr (e, p, hw, d)) \<Rightarrow> d | _ \<Rightarrow> enet_zero h)"

lemma ex_rx_queue:
  assumes "fmlookup (en_heap d) 7 = None" "rx_free_descs d = 4" "rx_next_idx d = 0" "length (prdesc d) = 4" "length (rxpbufs d) = 4"
  shows "lpc_rx_queue ex_chip ex_lib1 d = Some (Inr (1, d\<lparr>rxpbufs := (rxpbufs d)[0 := Some 7],
     prdesc := (prdesc d)[0 := (prdesc d ! 0)\<lparr>rd_CTRL := 0x4600, rd_B1ADD := Some (7, 0), rd_STATUS := 0x80000000\<rparr>],
     rx_free_descs := 3, rx_next_idx := 1, en_heap := fmupd 7 ex_frame (en_heap d)\<rparr>))"
proof -
  have fl: "EMAC_ETH_MAX_FLEN ex_chip = 1536" by (simp add: ex_chip_def)
  have cl: "pbuf_clen (Some 7) (fmupd 7 ex_frame h) = Some (Inr 1)" for h
    by (rule pbuf_clen_chain [of _ _ "[7]", simplified]) (simp_all add: ex_frame_def)
  have stop: "rx_queue_loop ex_chip ex_lib1 n e = Some (Inr (n, e))" if "fmlookup (en_heap e) 7 = Some pb" for n e pb
    using that by (subst rx_queue_loop.simps) (simp add: fl ex_alloc)
  have ni: "next_idx 4 0 = 1" by (simp add: next_idx_def word_le_nat_alt)
  have bits: "RDES_ENH_BS1 ex_chip 1536 OR RDES_ENH_RCH ex_chip = 0x4600" "RDES_OWN ex_chip = 0x80000000" by (simp_all add: ex_chip_def)
  have "lpc_rxqueue_pbuf ex_chip 7 (d\<lparr>en_heap := fmupd 7 ex_frame (en_heap d)\<rparr>) = Inr (d\<lparr>rxpbufs := (rxpbufs d)[0 := Some 7],
     prdesc := (prdesc d)[0 := (prdesc d ! 0)\<lparr>rd_CTRL := 0x4600, rd_B1ADD := Some (7, 0), rd_STATUS := 0x80000000\<rparr>],
     rx_free_descs := 3, rx_next_idx := 1, en_heap := fmupd 7 ex_frame (en_heap d)\<rparr>)"
    using assms bits ni by (cases d) (simp add: lpc_rxqueue_pbuf_def load_def store_def Let_def ex_frame_def)
  then show ?thesis
    unfolding lpc_rx_queue_def using assms by (subst rx_queue_loop.simps) (simp add: fl ex_alloc cl stop)
qed

lemma ex_init:
  assumes "fmlookup h 7 = None"
  shows "low_level_init ex_chip ex_lib1 ex_enet 0 (ex_phy, (0, [0]), enet_zero h) = Some (Inr (ERR_OK, ex_phy, (0, []), ex_started h))"
    "rd_STATUS (prdesc (ex_started h) ! 0) = 0x80000000" "tx_free_descs (ex_started h) = 4" "en_heap (ex_started h) = fmupd 7 ex_frame h"
proof -
  note ex = low_level_init_def ex_phy_init lpc_tx_setup_def lpc_rx_setup_def ex_rx_queue assms enet_zero_def Let_def
  show 1: "low_level_init ex_chip ex_lib1 ex_enet 0 (ex_phy, (0, [0]), enet_zero h) = Some (Inr (ERR_OK, ex_phy, (0, []), ex_started h))"
    by (simp add: ex_started_def ex)
  show "rd_STATUS (prdesc (ex_started h) ! 0) = 0x80000000" "tx_free_descs (ex_started h) = 4" "en_heap (ex_started h) = fmupd 7 ex_frame h"
    by (simp_all add: ex_started_def ex)
qed

lemma ex_emac_reach: "heap_ok h R \<Longrightarrow> fmlookup h 7 = None \<Longrightarrow> emac_reach ex_chip ex_lib1 ex_enet (ex_started h) R"
  by (rule emac_reach.start [OF _ ex_phy_init ex_init(1)])

section \<open>Properties\<close>

text \<open>
  C24: in every reachable state the controller can only write into a buffer that the driver has queued: the
  address in a receive descriptor it owns is the payload of a live pbuf, with room for a maximal frame, to
  which nobody else in the program has a pointer.
\<close>

theorem dma_writes_queued_buffers:
  assumes "chip_ok C" "malloc_ok L" "emac_reach C L k d R" "i < 4" "rd_STATUS (prdesc d ! i) AND RDES_OWN C \<noteq> 0"
  shows "\<exists>p pb. rd_B1ADD (prdesc d ! i) = Some (p, pb_payload pb) \<and> Some p \<in> set (rx_cont d) \<and> fmlookup (en_heap d) p = Some pb \<and>
     unat (EMAC_ETH_MAX_FLEN C) + pb_payload pb \<le> length (pb_mem pb) \<and> p \<notin># R"
proof -
  have ok: "emac_ok C d R" by (rule emac_reach_ok [OF assms(1-3)])
  then have rx: "rx_inv C d" and h: "heap_ok (en_heap d) ((R + owned (tx_cont d)) + owned (rx_cont d))" by (auto simp: emac_ok_def ac_simps)
  from rx_owned_slot [OF rx assms(4,5)] obtain p pb where p: "rd_B1ADD (prdesc d ! i) = Some (p, pb_payload pb)" "Some p \<in> set (rx_cont d)"
    "fmlookup (en_heap d) p = Some pb" "unat (EMAC_ETH_MAX_FLEN C) + pb_payload pb \<le> length (pb_mem pb)" by metis
  have "p \<notin># R + owned (tx_cont d)" by (rule rx_exclusive [OF h Some_owned [OF p(2)] rx_cont_slot [OF rx p(2)]])
  then show ?thesis using p by auto
qed

theorem dma_writes_queued_buffers_witness:
  "\<exists>p pb. rd_B1ADD (prdesc (ex_started ex_heap1) ! 0) = Some (p, pb_payload pb) \<and> Some p \<in> set (rx_cont (ex_started ex_heap1)) \<and>
     fmlookup (en_heap (ex_started ex_heap1)) p = Some pb \<and> unat (EMAC_ETH_MAX_FLEN ex_chip) + pb_payload pb \<le> length (pb_mem pb) \<and> p \<notin># {#5#}"
proof (rule dma_writes_queued_buffers [OF ex_chip_ok ex_lib1_ok])
  show "emac_reach ex_chip ex_lib1 ex_enet (ex_started ex_heap1) {#5#}"
    by (rule ex_emac_reach [OF ex_heap1_ok]) (simp add: ex_heap1_def)
  show "rd_STATUS (prdesc (ex_started ex_heap1) ! 0) AND RDES_OWN ex_chip \<noteq> 0"
    by (subst ex_init(2)) (simp_all add: ex_heap1_def ex_chip_def)
qed simp

text \<open>
  C25: in every reachable state the functions of the driver return without a fault, and the reference count of every pbuf
  stays the number of pointers to it. The input function takes a frame exactly when the ring is not empty and its oldest
  descriptor does not belong to the controller: it then gives the oldest buffer, with the length that the controller reports,
  to its caller, or requeues it when the status reports an error; in all other cases it only adds buffers to the ring. The reclaim function gives up exactly the packets of the
  descriptors in use before the first one that belongs to the controller, none that is still being sent, and leaves the other ring alone.
\<close>

theorem driver_returns:
  assumes "chip_ok C" "malloc_ok L" "emac_reach C L k d R"
  shows "(\<exists>p d'. lpc_low_level_input C L d = Some (Inr (p, d')) \<and> rx_outcome C d p d' \<and> tx_cont d' = tx_cont d \<and>
            heap_ok (en_heap d') (R + owner p + owned (rx_cont d') + owned (tx_cont d'))) \<and>
         (\<exists>d'. lpc_tx_reclaim C L d = Some (Inr d') \<and> tx_cont d' = drop (tx_sent C d) (tx_cont d) \<and> rx_cont d' = rx_cont d \<and>
            heap_ok (en_heap d') (R + owned (rx_cont d') + owned (tx_cont d')))"
proof (rule conjI)
  have ok: "emac_ok C d R" by (rule emac_reach_ok [OF assms])
  obtain p d' where "lpc_low_level_input C L d = Some (Inr (p, d'))" "emac_ok C d' (R + owner p)" "rx_outcome C d p d'" "same_tx d' d"
    using lpc_low_level_input_ok [OF assms(2) ok] by blast
  then show "\<exists>p d'. lpc_low_level_input C L d = Some (Inr (p, d')) \<and> rx_outcome C d p d' \<and> tx_cont d' = tx_cont d \<and>
            heap_ok (en_heap d') (R + owner p + owned (rx_cont d') + owned (tx_cont d'))"
    using same_tx_inv [of d' d C] unfolding emac_ok_def by blast
  obtain d' where "lpc_tx_reclaim C L d = Some (Inr d')" "emac_ok C d' R" "tx_cont d' = drop (tx_sent C d) (tx_cont d)" "same_rx d' d"
    by (rule lpc_tx_reclaim_ok [OF assms(1) ok])
  then show "\<exists>d'. lpc_tx_reclaim C L d = Some (Inr d') \<and> tx_cont d' = drop (tx_sent C d) (tx_cont d) \<and> rx_cont d' = rx_cont d \<and>
            heap_ok (en_heap d') (R + owned (rx_cont d') + owned (tx_cont d'))"
    using same_rx_cont [of d' d] unfolding emac_ok_def by blast
qed

theorem driver_returns_witness:
  "(\<exists>p d'. lpc_low_level_input ex_chip ex_lib1 (ex_started ex_heap1) = Some (Inr (p, d')) \<and> rx_outcome ex_chip (ex_started ex_heap1) p d' \<and>
      tx_cont d' = tx_cont (ex_started ex_heap1) \<and> heap_ok (en_heap d') ({#5#} + owner p + owned (rx_cont d') + owned (tx_cont d'))) \<and>
   (\<exists>d'. lpc_tx_reclaim ex_chip ex_lib1 (ex_started ex_heap1) = Some (Inr d') \<and>
      tx_cont d' = drop (tx_sent ex_chip (ex_started ex_heap1)) (tx_cont (ex_started ex_heap1)) \<and> rx_cont d' = rx_cont (ex_started ex_heap1) \<and>
      heap_ok (en_heap d') ({#5#} + owned (rx_cont d') + owned (tx_cont d')))"
  by (rule driver_returns [OF ex_chip_ok ex_lib1_ok ex_emac_reach [OF ex_heap1_ok]]) (simp add: ex_heap1_def)

text \<open>Frames sent one after the other, without a call of \<open>lpc_tx_reclaim\<close> between them.\<close>

fun send_frames :: "chip \<Rightarrow> (enetdata \<Rightarrow> enetdata) \<Rightarrow> nat list \<Rightarrow> enetdata \<Rightarrow> enetdata res option" where
  "send_frames C delay [] d = Some (Inr d)"
| "send_frames C delay (p # ps) d = xbind (lpc_low_level_output C delay p d) (\<lambda>(_, d). send_frames C delay ps d)"

lemma tx_free_cont: "tx_inv C d \<Longrightarrow> unat (tx_free_descs d) + length (tx_cont d) = 4"
  using tx_invD(3) [of C d] by (simp add: tx_cont_def tx_used_def)

lemma send_frames_blocks:
  assumes delay: "\<And>x. tx_free_descs (delay x) = tx_free_descs x"
  shows "emac_ok C d R \<Longrightarrow> length ps = Suc (unat (tx_free_descs d)) \<Longrightarrow> (\<And>p. p \<in> set ps \<Longrightarrow> p \<in># R \<and> chain (en_heap d) (Some p) [p]) \<Longrightarrow>
     (\<And>p. refs (en_heap d) p + length ps \<le> 65535) \<Longrightarrow> send_frames C delay ps d = None"
proof (induction ps arbitrary: d)
  case (Cons p ps)
  have p: "p \<in># R" "chain (en_heap d) (Some p) [p]" using Cons.prems(3) by auto
  show ?case
  proof (cases "unat (tx_free_descs d) = 0")
    case True
    have "lpc_low_level_output C delay p d = None"
      by (rule lpc_low_level_output_blocks [OF p(2)]) (use True delay in auto)
    then show ?thesis by simp
  next
    case False
    obtain d' pb where d': "lpc_low_level_output C delay p d = Some (Inr (ERR_OK, d'))" "emac_ok C d' R" "tx_cont d' = tx_cont d @ [Some p]"
      "fmlookup (en_heap d) p = Some pb" "en_heap d' = fmupd p (pb\<lparr>pb_ref := pb_ref pb + 1\<rparr>) (en_heap d)"
      using lpc_low_level_output_ok [OF Cons.prems(1) p, of delay] False Cons.prems(4) [of p] by auto
    have "unat (tx_free_descs d) = Suc (unat (tx_free_descs d'))"
      using tx_free_cont [of C d] tx_free_cont [of C d'] Cons.prems(1) d'(2,3) by (simp add: emac_ok_def)
    then have 1: "length ps = Suc (unat (tx_free_descs d'))" using Cons.prems(2) by simp
    have 2: "q \<in># R \<and> chain (en_heap d') (Some q) [q]" if "q \<in> set ps" for q
      using Cons.prems(3) [of q] that d'(4,5) by (cases "q = p") auto
    have 3: "refs (en_heap d') q + length ps \<le> 65535" for q
    proof -
      have "unat (pb_ref pb + 1) \<le> unat (pb_ref pb) + 1" by (simp add: unat_word_ariths(1))
      then show ?thesis using Cons.prems(4) [of q] d'(4,5) by (auto simp: refs_def)
    qed
    show ?thesis using Cons.IH [OF d'(2) 1 2 3] d'(1) by simp
  qed
qed simp

text \<open>
  C39: between two calls of \<open>lpc_tx_reclaim\<close> at most as many frames can be sent as descriptors are free: the call
  for one frame more never returns, whatever the controller does meanwhile, because only \<open>lpc_tx_reclaim\<close> raises the
  count on which the wait depends.
\<close>

theorem one_frame_too_many_hangs:
  assumes "chip_ok C" "malloc_ok L" "emac_reach C L k d R" "\<forall>x. tx_free_descs (delay x) = tx_free_descs x"
    "length ps = Suc (unat (tx_free_descs d))" "\<forall>p\<in>set ps. p \<in># R \<and> chain (en_heap d) (Some p) [p]" "\<forall>p. refs (en_heap d) p \<le> 65530"
  shows "send_frames C delay ps d = None"
proof (rule send_frames_blocks [OF _ emac_reach_ok [OF assms(1-3)] assms(5)])
  have "tx_inv C d" using emac_reach_ok [OF assms(1-3)] by (simp add: emac_ok_def)
  then have "unat (tx_free_descs d) \<le> 4" by (rule tx_invD(3))
  then have l: "length ps \<le> 5" using assms(5) by simp
  show "refs (en_heap d) p + length ps \<le> 65535" for p using spec [OF assms(7), of p] l by linarith
qed (use assms(4,6) in auto)

theorem one_frame_too_many_hangs_witness:
  "send_frames ex_chip id [5, 5, 5, 5, 5] (ex_started ex_heap1) = None"
proof (rule one_frame_too_many_hangs [OF ex_chip_ok ex_lib1_ok ex_emac_reach [OF ex_heap1_ok]])
  have n: "fmlookup ex_heap1 7 = None" by (simp add: ex_heap1_def)
  note i = ex_init [OF n]
  show "fmlookup ex_heap1 7 = None" by (rule n)
  show "length [5, 5, 5, 5, 5 :: nat] = Suc (unat (tx_free_descs (ex_started ex_heap1)))" by (simp add: i)
  show "\<forall>p\<in>set [5, 5, 5, 5, 5]. p \<in># {#5#} \<and> chain (en_heap (ex_started ex_heap1)) (Some p) [p]"
    unfolding i by (simp add: ex_heap1_def ex_pb_def)
  show "\<forall>p. refs (en_heap (ex_started ex_heap1)) p \<le> 65530"
    unfolding i by (simp add: ex_heap1_def ex_pb_def ex_frame_def refs_def)
qed simp

text \<open>
  C40: when the PHY does not answer, the initialisation reports success, because \<open>ERROR\<close> is 0 and \<open>ERR_OK\<close> is 0; the
  driver's data are still zero, and the first call of the input function writes through a null pointer.
\<close>

theorem phy_failure_faults:
  assumes "STATUS_ERROR C = ERR_OK" "malloc_ok L" "heap_ok h R" "lpc_phy_init k stk p hw = (ERROR, p', hw')"
  shows "\<exists>d. lpc_enetif_init C L k stk (p, hw, enet_zero h) = Some (Inr (ERR_OK, True, p', hw', d)) \<and>
     lpc_enetif_input C L nif (n, d) = Some (Inl NullPointer)"
proof -
  define d where "d = (enet_zero h)\<lparr>en_eth := (en_eth (enet_zero h))\<lparr>MAC_CONFIG := MAC_CFG_INIT C\<rparr>\<rparr>"
  define d1 where "d1 = d\<lparr>rx_free_descs := 1, rx_get_idx := 1\<rparr>"
  have i: "lpc_enetif_init C L k stk (p, hw, enet_zero h) = Some (Inr (ERR_OK, True, p', hw', d))"
    using assms(1,4) by (simp add: lpc_enetif_init_def low_level_init_def d_def Let_def)
  have q: "\<exists>m d2. lpc_rx_queue C L d1 = Some (Inr (m, d2))"
  proof -
    consider "pbuf_alloc L PBUF_RAW (EMAC_ETH_MAX_FLEN C) PBUF_RAM h = Some (Inr (None, h))"
      | a h' where "pbuf_alloc L PBUF_RAW (EMAC_ETH_MAX_FLEN C) PBUF_RAM h = Some (Inr (Some a, h'))"
      using pbuf_alloc_RAM [OF assms(2), of h R PBUF_RAW "EMAC_ETH_MAX_FLEN C"] assms(3) by (auto simp: heap_ok_def)
    then show ?thesis
    proof cases
      case 1
      then show ?thesis by (subst lpc_rx_queue_def, subst rx_queue_loop.simps) (simp add: d1_def d_def enet_zero_def)
    next
      case (2 a h')
      note b = pbuf_alloc_RAM_buffer [OF assms(2) 2 refl]
      obtain pb where pb: "fmlookup h' a = Some pb" using b(1) by (auto simp: rx_buffer_def)
      obtain d2 where d2: "lpc_rxqueue_pbuf C a (d1\<lparr>en_heap := h'\<rparr>) = Inr d2" "rx_free_descs d2 = 0"
        using pb by (simp add: lpc_rxqueue_pbuf_def d1_def d_def enet_zero_def load_def store_def Let_def)
      have "rx_queue_loop C L 1 d2 = Some (Inr (1, d2))" using d2(2) by (subst rx_queue_loop.simps) simp
      moreover have "rx_free_descs d1 = 1" "en_heap d1 = h" by (simp_all add: d1_def d_def enet_zero_def)
      ultimately show ?thesis using 2 b(3) d2(1) by (subst lpc_rx_queue_def, subst rx_queue_loop.simps) simp
    qed
  qed
  have "next_idx 4 0 = 1" by (simp add: next_idx_def word_le_nat_alt)
  then have "lpc_low_level_input C L d = xbind (lpc_rx_queue C L d1) (\<lambda>(m, d2). Some (Inl NullPointer))"
    by (simp add: lpc_low_level_input_def d_def d1_def enet_zero_def load_def rx_clear_def rx_error_def Let_def split_beta)
  then have "lpc_low_level_input C L d = Some (Inl NullPointer)" using q by auto
  then show ?thesis using i by (simp add: lpc_enetif_input_def)
qed

text \<open>A bus that is always busy.\<close>

definition ex_dead :: "nat enet" where
  "ex_dead = \<lparr>StartMIIWrite = (\<lambda>r v h. h), StartMIIRead = (\<lambda>r h. h), IsMIIBusy = (\<lambda>h. (True, h)), ReadMIIData = (\<lambda>h. (0, h)),
     pDelayMs = (\<lambda>n h. h + n), SetSpeed = (\<lambda>b h. h), SetDuplex = (\<lambda>b h. h), set_link = (\<lambda>b h. h)\<rparr>"

lemma ex_dead_wait: "mii_wait ex_dead m h = (ERROR, h + m)"
  by (induction m arbitrary: h) (simp_all add: ex_dead_def)

definition ex_netif :: "unit netif" where
  "ex_netif = \<lparr>nif_input = (\<lambda>p s. Some (Inr (ERR_OK, s)))\<rparr>"

theorem phy_failure_faults_witness:
  "\<exists>d. lpc_enetif_init ex_chip ex_lib1 ex_dead 0 (ex_phy, 0, enet_zero ex_heap1) = Some (Inr (ERR_OK, True, ex_phy, 250, d)) \<and>
     lpc_enetif_input ex_chip ex_lib1 ex_netif ((), d) = Some (Inl NullPointer)"
proof (rule phy_failure_faults [OF _ ex_lib1_ok ex_heap1_ok])
  have "StartMIIWrite ex_dead r v h = h" for r v h by (simp add: ex_dead_def)
  then show "lpc_phy_init ex_dead 0 ex_phy 0 = (ERROR, ex_phy, 250)"
    by (simp add: lpc_phy_init_def lpc_mii_write_def ex_dead_wait ex_phy_def)
qed (simp add: ex_chip_def)

end
