(* ===== verification/EtharpEmac.thy ===== *)
theory EtharpEmac
  imports EtharpOps EmacSystem
begin

text \<open>
  The ARP layer on the Ethernet driver: the driver fulfils the interface that the ARP layer relies on, and the
  invariant of the cache holds in every state that the operations reach.
\<close>

section \<open>The driver below\<close>

text \<open>\<open>linkoutput\<close> of the interface is \<open>lpc_low_level_output\<close>; the driver and the stack share the heap of pbufs.\<close>

definition emac_out :: "chip \<Rightarrow> (enetdata \<Rightarrow> enetdata) \<Rightarrow> enetdata linkout" where
  "emac_out C delay n p = (\<lambda>(h, d). xbind (lpc_low_level_output C delay p (d\<lparr>en_heap := h\<rparr>)) (\<lambda>(e, d). Some (Inr (e, en_heap d, d))))"

text \<open>\<open>output\<close> of the interface is \<open>lpc_etharp_output\<close>, which looks at the flags of the interface first.\<close>

definition emac_output :: "memlib \<Rightarrow> chip \<Rightarrow> (enetdata \<Rightarrow> enetdata) \<Rightarrow> nat \<Rightarrow> nat \<Rightarrow> u32 \<Rightarrow> (enetdata, 'z) stack_scheme \<Rightarrow>
    (err_t \<times> (enetdata, 'z) stack_scheme) res option" where
  "emac_output L C delay n q ipaddr s = lpc_etharp_output (etharp_output L (emac_out C delay) n) (ni_flags (sk_netif s n)) q ipaddr s"

definition emac_refs :: "enetdata \<Rightarrow> nat multiset" where
  "emac_refs d = owned (rx_cont d) + owned (tx_cont d)"

definition emac_loc :: "chip \<Rightarrow> heap \<Rightarrow> enetdata \<Rightarrow> bool" where
  "emac_loc C h d \<longleftrightarrow> rx_inv C (d\<lparr>en_heap := h\<rparr>) \<and> tx_inv C d"

lemma cont_heap [simp]: "rx_cont (d\<lparr>en_heap := h\<rparr>) = rx_cont d" "tx_cont (d\<lparr>en_heap := h\<rparr>) = tx_cont d" "tx_inv C (d\<lparr>en_heap := h\<rparr>) = tx_inv C d"
  by (simp_all add: rx_cont_def tx_cont_def rx_used_def tx_used_def tx_inv_def)

lemma emac_ok_iff: "emac_ok C (d\<lparr>en_heap := h\<rparr>) R \<longleftrightarrow> heap_ok h (R + emac_refs d) \<and> emac_loc C h d"
  by (auto simp: emac_ok_def emac_loc_def emac_refs_def add.assoc)

lemma emac_loc_kept:
  assumes "emac_loc C h d" "kept (emac_refs d) h h'"
  shows "emac_loc C h' d"
proof -
  have rx: "rx_inv C (d\<lparr>en_heap := h\<rparr>)" using assms(1) by (simp add: emac_loc_def)
  have "rx_inv C (d\<lparr>en_heap := h, en_heap := h'\<rparr>)"
  proof (rule rx_inv_heap [OF rx], simp)
    fix p assume p: "Some p \<in> set (rx_cont d)"
    then have "rx_buffer C h p" using rx_cont_slot [OF rx, of p] by simp
    moreover have "p \<in># emac_refs d" using Some_owned [OF p] by (simp add: emac_refs_def)
    ultimately show "fmlookup h' p = fmlookup h p" using keptD [OF assms(2)] by (auto simp: rx_buffer_def)
  qed
  then show ?thesis using assms(1) by (simp add: emac_loc_def)
qed

lemma owned_Nones [simp]: "owned (replicate k None) = {#}"
  by (induction k) simp_all

text \<open>With enough descriptors a packet is handed to the controller at once.\<close>

lemma emac_out_sends:
  assumes h: "heap_ok h (add_mset p R + emac_refs d)" and loc: "emac_loc C h d" and pk: "packet h (Some p) ps bs" and r: "refs h p < 65535"
    and free: "length ps \<le> unat (tx_free_descs d)"
  obtains d' pb where "emac_out C delay n p (h, d) = Some (Inr (ERR_OK, en_heap d', d'))" "heap_ok (en_heap d') (add_mset p R + emac_refs d')"
    "emac_loc C (en_heap d') d'" "fmlookup h p = Some pb" "en_heap d' = fmupd p (pb\<lparr>pb_ref := pb_ref pb + 1\<rparr>) h"
    "tx_cont d' = tx_cont d @ replicate (length ps - 1) None @ [Some p]" "emac_refs d' = add_mset p (emac_refs d)"
proof -
  have ok: "emac_ok C (d\<lparr>en_heap := h\<rparr>) (add_mset p R)" using h loc by (simp add: emac_ok_iff)
  have "\<exists>d'. lpc_low_level_output C delay p (d\<lparr>en_heap := h\<rparr>) = Some (Inr (ERR_OK, d')) \<and> emac_ok C d' (add_mset p R) \<and>
     tx_cont d' = tx_cont (d\<lparr>en_heap := h\<rparr>) @ replicate (length ps - 1) None @ [Some p] \<and> rx_cont d' = rx_cont (d\<lparr>en_heap := h\<rparr>) \<and>
     (\<exists>pb. fmlookup (en_heap (d\<lparr>en_heap := h\<rparr>)) p = Some pb \<and> en_heap d' = fmupd p (pb\<lparr>pb_ref := pb_ref pb + 1\<rparr>) (en_heap (d\<lparr>en_heap := h\<rparr>)))"
    by (rule lpc_low_level_output_ok [OF ok]) (use packet_chain [OF pk] r free in auto)
  then obtain d' pb where d': "lpc_low_level_output C delay p (d\<lparr>en_heap := h\<rparr>) = Some (Inr (ERR_OK, d'))" "emac_ok C d' (add_mset p R)"
    "tx_cont d' = tx_cont d @ replicate (length ps - 1) None @ [Some p]" "rx_cont d' = rx_cont d"
    "fmlookup h p = Some pb" "en_heap d' = fmupd p (pb\<lparr>pb_ref := pb_ref pb + 1\<rparr>) h" by auto
  have "heap_ok (en_heap d') (add_mset p R + emac_refs d') \<and> emac_loc C (en_heap d') d'"
    using d'(2) emac_ok_iff [where d = d' and h = "en_heap d'" and C = C and R = "add_mset p R"] by simp
  moreover have "emac_refs d' = add_mset p (emac_refs d)" using d'(3,4) by (simp add: emac_refs_def)
  ultimately show ?thesis using d' by (intro that [of d' pb]) (simp_all add: emac_out_def)
qed

text \<open>The driver fulfils the interface; \<open>delay\<close> waits and does not release descriptors.\<close>

lemma emac_netdrv:
  assumes delay: "\<And>x. tx_free_descs (delay x) = tx_free_descs x"
  shows "netdrv False (emac_out C delay) emac_refs (emac_loc C)"
proof
  show "emac_loc C h d \<Longrightarrow> kept (emac_refs d) h h' \<Longrightarrow> emac_loc C h' d" for h d h' by (rule emac_loc_kept)
  fix h p R d ps bs n
  assume h: "heap_ok h (add_mset p R + emac_refs d)" "emac_loc C h d" "packet h (Some p) ps bs" "length ps < 256" "refs h p < 65535"
  show "wp False (\<lambda>(e, h', d'). heap_ok h' (add_mset p R + emac_refs d') \<and> emac_loc C h' d' \<and> same_but_refs h' h \<and>
      (\<forall>q. q \<noteq> p \<longrightarrow> count (emac_refs d') q \<le> count (emac_refs d) q)) (emac_out C delay n p (h, d))"
  proof (cases "length ps \<le> unat (tx_free_descs d)")
    case True
    obtain d' pb where d': "emac_out C delay n p (h, d) = Some (Inr (ERR_OK, en_heap d', d'))" "heap_ok (en_heap d') (add_mset p R + emac_refs d')"
      "emac_loc C (en_heap d') d'" "fmlookup h p = Some pb" "en_heap d' = fmupd p (pb\<lparr>pb_ref := pb_ref pb + 1\<rparr>) h" "emac_refs d' = add_mset p (emac_refs d)"
      by (rule emac_out_sends [OF h(1-3,5) True])
    have "same_but_refs (en_heap d') h" using d'(4,5) by (auto simp: same_but_refs_def)
    then show ?thesis using d' by simp
  next
    case False
    have "lpc_low_level_output C delay p (d\<lparr>en_heap := h\<rparr>) = None"
      by (rule lpc_low_level_output_blocks) (use packet_chain [OF h(3)] h(4) False delay in auto)
    then show ?thesis by (simp add: emac_out_def)
  qed
qed

interpretation emac_net: netdrv False "emac_out C id" emac_refs "emac_loc C" for C
  by (rule emac_netdrv) simp

section \<open>Reachable states\<close>

text \<open>The cache is a static array: its bytes are 0 at the start.\<close>

definition arp_zero :: etharp_entry where
  "arp_zero = \<lparr>ae_q = None, ae_ipaddr = 0, ae_netif = None, ae_ethaddr = ethzero, ae_state = ETHARP_STATE_EMPTY, ae_ctime = 0\<rparr>"

text \<open>
  The states of the stack with the references \<open>R\<close> of the layers above: from an empty cache, by the timer, by the
  operations of the ARP layer, and by any step of other code (\<open>other\<close>) that respects the ownership of the pbufs.
\<close>

inductive arp_reach :: "chip \<Rightarrow> (enetdata \<Rightarrow> enetdata) \<Rightarrow> memlib \<Rightarrow> enetdata stack \<Rightarrow> nat multiset \<Rightarrow> bool" for C delay L where
  start: "emac_ok C ((sk_dev s)\<lparr>en_heap := sk_heap s\<rparr>) R \<Longrightarrow> arp_table s = replicate ARP_TABLE_SIZE arp_zero \<Longrightarrow> etharp_cached_entry s = 0 \<Longrightarrow>
    arp_reach C delay L s R"
| tmr: "arp_reach C delay L s R \<Longrightarrow> etharp_tmr L s = Some (Inr s') \<Longrightarrow> arp_reach C delay L s' R"
| cleanup: "arp_reach C delay L s R \<Longrightarrow> etharp_cleanup_netif L n s = Some (Inr s') \<Longrightarrow> arp_reach C delay L s' R"
| request: "arp_reach C delay L s R \<Longrightarrow> nif_ok (sk_netif s n) \<Longrightarrow> etharp_request L (emac_out C delay) n a s = Some (Inr (e, s')) \<Longrightarrow> arp_reach C delay L s' R"
| send: "arp_reach C delay L s (add_mset q R) \<Longrightarrow> nif_ok (sk_netif s n) \<Longrightarrow> outgoing (sk_heap s) q ps bs \<Longrightarrow>
    etharp_output L (emac_out C delay) n q a s = Some (Inr (e, s')) \<Longrightarrow> arp_reach C delay L s' (add_mset q R)"
| update: "arp_reach C delay L s R \<Longrightarrow> nif_ok (sk_netif s n) \<Longrightarrow> length eth = 6 \<Longrightarrow>
    etharp_update_arp_entry L (emac_out C delay) n a eth flags s = Some (Inr (e, s')) \<Longrightarrow> arp_reach C delay L s' R"
| input: "arp_reach C delay L s (add_mset p R) \<Longrightarrow> nif_ok (sk_netif s n) \<Longrightarrow> packet (sk_heap s) (Some p) (p # ps) bs \<Longrightarrow> length ps < 255 \<Longrightarrow>
    refs (sk_heap s) p = 1 \<Longrightarrow> etharp_arp_input L (emac_out C delay) n (ni_hwaddr (sk_netif s n)) p s = Some (Inr s') \<Longrightarrow> arp_reach C delay L s' R"
| other: "arp_reach C delay L s R \<Longrightarrow> emac_ok C (d\<lparr>en_heap := h\<rparr>) (R' + qrefs (arp_table s)) \<Longrightarrow> kept (qrefs (arp_table s)) (sk_heap s) h \<Longrightarrow>
    arp_reach C delay L (s\<lparr>sk_heap := h, sk_dev := d, sk_netif := nf\<rparr>) R'"

abbreviation "arp_inv C s R \<equiv> arp_ok emac_refs (emac_loc C) s R"

lemma arp_inv_emac: "emac_ok C ((sk_dev s)\<lparr>en_heap := sk_heap s\<rparr>) (R + qrefs (arp_table s)) \<longleftrightarrow>
   heap_ok (sk_heap s) (R + qrefs (arp_table s) + emac_refs (sk_dev s)) \<and> emac_loc C (sk_heap s) (sk_dev s)"
  by (simp add: emac_ok_iff)

lemma qrefs_zero: "qrefs (replicate k arp_zero) = {#}"
  by (simp add: qrefs_def arp_zero_def)

lemma tbl_ok_zero: "tbl_ok h (replicate ARP_TABLE_SIZE arp_zero)"
  by (simp add: tbl_ok_def used_ips_def arp_zero_def entry_ok_def ethzero_def)

lemma arp_inv_wp: "wp t Q m \<Longrightarrow> m = Some (Inr x) \<Longrightarrow> Q x"
  by simp

text \<open>The driver that drops its frames; it stands for the operations that do not send.\<close>

interpretation quiet_net: netdrv True "\<lambda>n p (h, d). Some (Inr (ERR_OK, h, d))" emac_refs "emac_loc C" for C
  by unfold_locales (auto intro: emac_loc_kept)

lemma arp_reach_inv:
  assumes delay: "\<And>x. tx_free_descs (delay x) = tx_free_descs x" and ml: "malloc_ok L"
  shows "arp_reach C delay L s R \<Longrightarrow> arp_inv C s R"
proof (induction rule: arp_reach.induct)
  case (start s R)
  then show ?case using emac_ok_iff [where C = C and d = "sk_dev s" and h = "sk_heap s" and R = R] by (simp add: arp_ok_def qrefs_zero tbl_ok_zero [unfolded ARP_TABLE_SIZE_def] ARP_TABLE_SIZE_def)
next
  case (tmr s R s')
  from arp_inv_wp [OF quiet_net.etharp_tmr_ok [OF tmr.IH] tmr.hyps(2)] show ?case by (simp add: arp_post_def)
next
  case (cleanup s R n s')
  from arp_inv_wp [OF quiet_net.etharp_cleanup_netif_ok [OF cleanup.IH] cleanup.hyps(2)] show ?case by (simp add: arp_post_def)
next
  case (request s R n a e s')
  from arp_inv_wp [OF netdrv.etharp_request_ok [OF emac_netdrv ml request.IH] request.hyps(3)] show ?case using delay request.hyps(2) by (simp add: arp_post_def)
next
  case (send s q R n ps bs a e s')
  from arp_inv_wp [OF netdrv.etharp_output_ok [OF emac_netdrv ml send.IH] send.hyps(4)] show ?case using delay send.hyps(2,3) by (simp add: arp_post_def)
next
  case (update s R n eth a flags e s')
  from arp_inv_wp [OF netdrv.etharp_update_arp_entry_ok [OF emac_netdrv update.IH] update.hyps(4)] show ?case using delay update.hyps(2,3) by (simp add: arp_post_def)
next
  case (input s p R n ps bs s')
  obtain pb where pb: "fmlookup (sk_heap s) p = Some pb" using input.hyps(3) by auto
  have h: "netdrv.held emac_refs (emac_loc C) p ps (pb_len pb) bs R s"
    unfolding netdrv.held_iff [OF emac_netdrv [OF delay]] using input pb by (auto simp: refs_def word_unat_eq_iff)
  have eth: "length (ni_hwaddr (sk_netif s n)) = 6" using input.hyps(2) by (simp add: nif_ok_def)
  from arp_inv_wp [OF netdrv.etharp_arp_input_ok [OF emac_netdrv [OF delay] h input.hyps(2) eth] input.hyps(6)] show ?case by (simp add: arp_post_def)
next
  case (other s R h d R' nf)
  then show ?case using tbl_ok_kept [of "sk_heap s" "arp_table s" h] by (simp add: arp_ok_def emac_ok_iff)
qed

section \<open>Transmission by the driver\<close>

text \<open>A packet that the driver takes; the caller releases it afterwards, or keeps it.\<close>

lemma emac_linkoutput:
  assumes ok: "arp_inv C s (add_mset p R)" and pk: "packet (sk_heap s) (Some p) ps bs" and r: "refs (sk_heap s) p < 65535"
    and free: "length ps \<le> unat (tx_free_descs (sk_dev s))"
  obtains s1 where "linkoutput (emac_out C delay) n p s = Some (Inr (ERR_OK, s1))"
    "heap_ok (sk_heap s1) (add_mset p (R + qrefs (arp_table s1)) + emac_refs (sk_dev s1))"
    "tx_cont (sk_dev s1) = tx_cont (sk_dev s) @ replicate (length ps - 1) None @ [Some p]" "p \<in># emac_refs (sk_dev s1)"
    "packet (sk_heap s1) (Some p) ps bs" "arp_table s1 = arp_table s" "same_env s1 s"
proof -
  have h: "heap_ok (sk_heap s) (add_mset p (R + qrefs (arp_table s)) + emac_refs (sk_dev s))" "emac_loc C (sk_heap s) (sk_dev s)"
    using ok by (simp_all add: arp_ok_def)
  obtain d' pb where d': "emac_out C delay n p (sk_heap s, sk_dev s) = Some (Inr (ERR_OK, en_heap d', d'))"
    "heap_ok (en_heap d') (add_mset p (R + qrefs (arp_table s)) + emac_refs d')"
    "fmlookup (sk_heap s) p = Some pb" "en_heap d' = fmupd p (pb\<lparr>pb_ref := pb_ref pb + 1\<rparr>) (sk_heap s)"
    "tx_cont d' = tx_cont (sk_dev s) @ replicate (length ps - 1) None @ [Some p]" "emac_refs d' = add_mset p (emac_refs (sk_dev s))"
    by (rule emac_out_sends [OF h pk r free])
  have "packet (en_heap d') (Some p) ps bs"
  proof -
    obtain qs where qs: "ps = p # qs" using pk by (cases ps) auto
    show ?thesis using pk d'(3,4) packet_distinct [OF pk [unfolded qs]] unfolding qs by (auto simp: pb_wf_def pb_data_def)
  qed
  then show ?thesis using d' by (intro that [of "s\<lparr>sk_heap := en_heap d', sk_dev := d'\<rparr>"]) (simp_all add: linkoutput_def)
qed

lemma emac_send_free:
  assumes ok: "arp_inv C s (add_mset p R)" and pk: "packet (sk_heap s) (Some p) ps bs" and r: "refs (sk_heap s) p < 65535"
    and free: "length ps \<le> unat (tx_free_descs (sk_dev s))"
  obtains s1 s2 where "linkoutput (emac_out C delay) n p s = Some (Inr (ERR_OK, s1))" "free_pbuf L p s1 = Some (Inr s2)"
    "tx_cont (sk_dev s2) = tx_cont (sk_dev s) @ replicate (length ps - 1) None @ [Some p]"
    "packet (sk_heap s2) (Some p) ps bs" "arp_table s2 = arp_table s"
proof -
  obtain s1 where s1: "linkoutput (emac_out C delay) n p s = Some (Inr (ERR_OK, s1))"
    "heap_ok (sk_heap s1) (add_mset p (R + qrefs (arp_table s1)) + emac_refs (sk_dev s1))"
    "tx_cont (sk_dev s1) = tx_cont (sk_dev s) @ replicate (length ps - 1) None @ [Some p]" "p \<in># emac_refs (sk_dev s1)"
    "packet (sk_heap s1) (Some p) ps bs" "arp_table s1 = arp_table s"
    by (rule emac_linkoutput [OF assms])
  let ?T = "R + qrefs (arp_table s1) + emac_refs (sk_dev s1)"
  have h1: "heap_ok (sk_heap s1) (add_mset p ?T)" using s1(2) by (simp add: add.assoc)
  from heap_ok_free [OF h1] obtain k h2 where f: "pbuf_free L (Some p) (sk_heap s1) = Some (Inr (k, h2))" "heap_ok h2 ?T" "same_but_refs h2 (sk_heap s1)" .
  have "pkept ?T (sk_heap s1) h2" by (rule pkept_same [OF f(2,3)])
  then have "packet h2 (Some p) ps bs" by (rule pkept_packet [OF _ _ s1(5)]) (use s1(4) in simp)
  then show ?thesis using s1 f by (intro that [of s1 "s1\<lparr>sk_heap := h2\<rparr>"]) (simp_all add: free_pbuf_def)
qed

section \<open>Properties\<close>

text \<open>
  C12: in every state that the operations reach, the cache has 32 entries, no address occurs in two entries in use, and
  a packet waits only for an entry that is pending, in a buffer that nobody else refers to. The age of an
  entry in use is below 240, that of a pending one below 2; every reference to a pbuf is counted: those of the
  callers, of the cache and of the driver.
\<close>

theorem arp_cache_invariant:
  assumes "malloc_ok L" "\<forall>x. tx_free_descs (delay x) = tx_free_descs x" "arp_reach C delay L s R"
  shows "length (arp_table s) = 32 \<and> distinct (map ae_ipaddr (filter (\<lambda>e. ae_state e \<noteq> ETHARP_STATE_EMPTY) (arp_table s))) \<and>
    (\<forall>e\<in>set (arp_table s).
       (\<forall>p. ae_q e = Some p \<longrightarrow> ae_state e = ETHARP_STATE_PENDING \<and> refs (sk_heap s) p = 1 \<and> (\<exists>bs. packet (sk_heap s) (Some p) [p] bs)) \<and>
       (ae_state e \<noteq> ETHARP_STATE_EMPTY \<longrightarrow> ae_ctime e < 240) \<and> (ae_state e = ETHARP_STATE_PENDING \<longrightarrow> ae_ctime e < 2)) \<and>
    heap_ok (sk_heap s) (R + qrefs (arp_table s) + owned (rx_cont (sk_dev s)) + owned (tx_cont (sk_dev s)))"
proof -
  have ok: "arp_inv C s R" by (rule arp_reach_inv [OF spec [OF assms(2)] assms(1,3)])
  have q: "refs (sk_heap s) p = 1 \<and> (\<exists>bs. packet (sk_heap s) (Some p) [p] bs)" if "queued_ok (sk_heap s) p" for p
    using that by (auto simp: queued_ok_def refs_def)
  have e: "\<forall>e\<in>set (arp_table s). entry_ok (sk_heap s) e" using ok by (simp add: arp_ok_def tbl_ok_def)
  show ?thesis
    using ok e q by (fastforce simp: arp_ok_def tbl_ok_def ARP_TABLE_SIZE_def used_ips_def entry_ok_def ARP_MAXAGE_def ARP_MAXPENDING_def emac_refs_def add.assoc)
qed

text \<open>
  C15: \<open>etharp_request\<close> returns when a descriptor is free: without memory it reports \<open>ERR_MEM\<close> and changes nothing,
  otherwise a frame to all stations that asks for the address is queued for transmission, and nothing else of it is left.
\<close>

theorem arp_request_frame:
  assumes "malloc_ok L" "\<forall>x. tx_free_descs (delay x) = tx_free_descs x" "arp_reach C delay L s R" "nif_ok (sk_netif s n)"
    "1 \<le> unat (tx_free_descs (sk_dev s))"
  shows "\<exists>s'. etharp_request L (emac_out C delay) n a s = Some (Inr (ERR_MEM, s)) \<or>
    etharp_request L (emac_out C delay) n a s = Some (Inr (ERR_OK, s')) \<and>
    (\<exists>p. tx_cont (sk_dev s') = tx_cont (sk_dev s) @ [Some p] \<and>
       packet (sk_heap s') (Some p) [p] (eth_frame (replicate 6 0xff) (ni_hwaddr (sk_netif s n)) 0x0806
         (arp_data 1 (ni_hwaddr (sk_netif s n)) (ni_ip_addr (sk_netif s n)) (replicate 6 0) a)))"
proof -
  let ?x = "sk_netif s n" and ?lo = "emac_out C delay"
  let ?bs = "eth_frame ethbroadcast (ni_hwaddr ?x) ETHTYPE_ARP (arp_data ARP_REQUEST (ni_hwaddr ?x) (ni_ip_addr ?x) ethzero a)"
  let ?P = "\<lambda>(e, s'). (e = ERR_MEM \<and> s' = s) \<or> e = ERR_OK \<and> (\<exists>p. tx_cont (sk_dev s') = tx_cont (sk_dev s) @ [Some p] \<and> packet (sk_heap s') (Some p) [p] ?bs)"
  have ok: "arp_inv C s R" by (rule arp_reach_inv [OF spec [OF assms(2)] assms(1,3)])
  have hw: "length (ni_hwaddr ?x) = 6" using assms(4) by (simp add: nif_ok_def)
  have "wp True ?P (etharp_raw L ?lo n (ni_hwaddr ?x) ethbroadcast (ni_hwaddr ?x) (ni_ip_addr ?x) ethzero a ARP_REQUEST s)"
  proof (rule quiet_net.raw_run [OF assms(1) ok assms(4) hw _ hw])
    fix p s1 assume h: "holding emac_refs (emac_loc C) p [] 42 ?bs R s s1"
    then have pk: "arp_inv C s1 (add_mset p R)" "packet (sk_heap s1) (Some p) [p] ?bs" "refs (sk_heap s1) p < 65535" "sk_dev s1 = sk_dev s"
      by (auto simp: holding_def arp_post_def refs_def)
    have free: "length [p] \<le> unat (tx_free_descs (sk_dev s1))" using assms(5) pk(4) by simp
    obtain s2 s3 where r: "linkoutput ?lo n p s1 = Some (Inr (ERR_OK, s2))" "free_pbuf L p s2 = Some (Inr s3)"
      "tx_cont (sk_dev s3) = tx_cont (sk_dev s1) @ replicate (length [p] - 1) None @ [Some p]" "packet (sk_heap s3) (Some p) [p] ?bs"
      by (rule emac_send_free [OF pk(1-3) free])
    then show "wp True ?P (xbind (linkoutput ?lo n p s1) (\<lambda>(result, s). xbind (free_pbuf L p s) (\<lambda>s. Some (Inr (result, s)))))"
      using pk(4) by auto
  qed (simp_all add: ethbroadcast_def ethzero_def)
  then have "wp True ?P (etharp_request L ?lo n a s)" by (simp add: etharp_request_def Let_def)
  then show ?thesis unfolding ethbroadcast_def ethzero_def ETHTYPE_ARP_def ARP_REQUEST_def
    by (cases "etharp_request L ?lo n a s" rule: option.exhaust) (auto simp: wp_def split: sum.splits)
qed

lemma free_pbuf_dev: "free_pbuf L p s = Some (Inr s') \<Longrightarrow> sk_dev s' = sk_dev s"
  by (auto simp: free_pbuf_def xbind_Inr_iff)

lemma free_entry_dev: "etharp_free_entry L i s = Some (Inr s') \<Longrightarrow> sk_dev s' = sk_dev s"
  by (auto simp: etharp_free_entry_def xbind_Inr_iff split: option.splits dest!: free_pbuf_dev)

lemma new_entry_dev: "new_entry a i s = Some (Inr (r, s')) \<Longrightarrow> sk_dev s' = sk_dev s"
  by (auto simp: new_entry_def xbind_Inr_iff Let_def split: if_splits option.splits)

lemma recycle_dev: "xbind (etharp_free_entry L i s) (new_entry a i) = Some (Inr (r, s')) \<Longrightarrow> sk_dev s' = sk_dev s"
  by (auto simp: xbind_Inr_iff dest!: free_entry_dev new_entry_dev)

lemma find_entry_dev:
  assumes "etharp_find_entry L a fl s = Some (Inr (r, s'))"
  shows "sk_dev s' = sk_dev s"
proof (cases "find_scan a 0 (arp_table s) no_cand")
  case (Inr c)
  then show ?thesis using assms unfolding etharp_find_entry_def
    by (auto simp: xbind_Inr_iff [of "get_entry _ _"] split: if_splits dest: recycle_dev new_entry_dev)
qed (use assms in \<open>simp add: etharp_find_entry_def\<close>)

text \<open>An update returns when a descriptor is free.\<close>

lemma update_entry_returns:
  assumes ok: "arp_inv C s R" and nif: "nif_ok (sk_netif s n)" and eth: "length eth = 6" and f: "found a i (arp_table s)"
    and free: "1 \<le> unat (tx_free_descs (sk_dev s))"
  shows "wp True (\<lambda>_. True) (update_entry L (emac_out C delay) n eth i s)"
proof -
  have i: "i < ARP_TABLE_SIZE" using f by (simp add: found_def)
  let ?e = "arp_table s ! i"
  let ?e' = "?e\<lparr>ae_state := ETHARP_STATE_STABLE, ae_netif := Some n, ae_ethaddr := eth, ae_ctime := 0, ae_q := None\<rparr>"
  let ?s = "set_entry i ?e' s"
  have fit: "fits (arp_table s) i ?e'" using f by (auto simp: fits_def found_def)
  have ok1: "arp_inv C ?s (R + owner (ae_q ?e))"
    using arp_ok_set_entry [of emac_refs "emac_loc C" s R ?e' i] ok i eth fit by (simp add: entry_ok_def ARP_MAXAGE_def)
  show ?thesis
  proof (cases "ae_q ?e")
    case None
    then show ?thesis using arp_ok_get_entry [OF ok i] by (simp add: update_entry_def)
  next
    case (Some p)
    have "queued_ok (sk_heap s) p" using arp_ok_entry [OF ok i] Some by (simp add: entry_ok_def)
    then obtain k bs where h: "holding emac_refs (emac_loc C) p [] k bs R ?s ?s" "14 \<le> unat k"
      using quiet_net.queued_holding [of C ?s p R] ok1 Some by auto
    then have len: "14 \<le> length bs" by (auto simp: holding_def)
    have h': "holding emac_refs (emac_loc C) p [] k (take 14 bs @ drop 14 bs) R ?s ?s" using h(1) by simp
    have l14: "length (take 14 bs) = 14" using len by simp
    have nif1: "nif_ok (sk_netif ?s n)" "length (ni_hwaddr (sk_netif ?s n)) = 6" using nif by (simp_all add: nif_ok_def)
    have "wp True (\<lambda>(e, s'). \<exists>T. heap_ok (sk_heap s') (add_mset p T)) (etharp_send_ip (emac_out C delay) n p (ni_hwaddr (sk_netif ?s n)) eth ?s)"
    proof (rule quiet_net.send_ip_run [OF h' l14 h(2) nif1 eth])
      fix s1 assume s1: "holding emac_refs (emac_loc C) p [] k (eth_frame eth (ni_hwaddr (sk_netif ?s n)) ETHTYPE_IP (drop 14 bs)) R ?s s1" "sk_dev s1 = sk_dev ?s"
      then have pk: "arp_inv C s1 (add_mset p R)" "packet (sk_heap s1) (Some p) [p] (eth_frame eth (ni_hwaddr (sk_netif ?s n)) ETHTYPE_IP (drop 14 bs))"
        "refs (sk_heap s1) p < 65535" by (auto simp: holding_def arp_post_def refs_def)
      have fr: "length [p] \<le> unat (tx_free_descs (sk_dev s1))" using free s1(2) by simp
      obtain s2 where "linkoutput (emac_out C delay) n p s1 = Some (Inr (ERR_OK, s2))"
        "heap_ok (sk_heap s2) (add_mset p (R + qrefs (arp_table s2)) + emac_refs (sk_dev s2))" by (rule emac_linkoutput [OF pk fr])
      then show "wp True (\<lambda>(e, s'). \<exists>T. heap_ok (sk_heap s') (add_mset p T)) (linkoutput (emac_out C delay) n p s1)"
        by (auto intro: exI [of _ "R + qrefs (arp_table s2) + emac_refs (sk_dev s2)"])
    qed
    then have "wp True (\<lambda>_. True) (xbind (etharp_send_ip (emac_out C delay) n p (ni_hwaddr (sk_netif ?s n)) eth ?s) (\<lambda>(_, s). xbind (free_pbuf L p s) (\<lambda>s. Some (Inr (ERR_OK, s)))))"
      by (rule wp_xbindI) (auto simp: free_pbuf_def elim!: heap_ok_free [of _ p _ L])
    then show ?thesis using arp_ok_get_entry [OF ok i] Some by (simp add: update_entry_def)
  qed
qed

lemma arp_update_ok:
  assumes delay: "\<And>x. tx_free_descs (delay x) = tx_free_descs x" and ok: "arp_inv C s R" and nif: "nif_ok (sk_netif s n)" and eth: "length eth = 6"
    and a: "unicast a (sk_netif s n)" and free: "1 \<le> unat (tx_free_descs (sk_dev s))"
  obtains s' where "etharp_update_arp_entry L (emac_out C delay) n a eth ETHARP_FLAG_TRY_HARD s = Some (Inr (ERR_OK, s'))"
    "arp_post emac_refs (emac_loc C) R R s s'" "resolved a eth (arp_table s')"
proof -
  let ?m = "etharp_update_arp_entry L (emac_out C delay) n a eth ETHARP_FLAG_TRY_HARD s"
  from wpD [OF quiet_net.etharp_find_entry_ok [OF ok, where a = a and flags = ETHARP_FLAG_TRY_HARD and L = L]] obtain r s1 where
    f: "etharp_find_entry L (Some a) ETHARP_FLAG_TRY_HARD s = Some (Inr (r, s1))" "arp_post emac_refs (emac_loc C) R R s s1"
      "case r of None \<Rightarrow> s1 = s \<and> ETHARP_FLAG_TRY_HARD \<noteq> ETHARP_FLAG_TRY_HARD | Some i \<Rightarrow> found a i (arp_table s1) \<and>
         (ae_state (arp_table s1 ! i) \<noteq> ETHARP_STATE_EMPTY \<longrightarrow> s1 = s)" by auto
  then obtain i where i: "r = Some i" "found a i (arp_table s1)" by (cases r) auto
  have nif1: "nif_ok (sk_netif s1 n)" "arp_inv C s1 R" using f(2) nif by (simp_all add: arp_post_def same_env_def)
  have "wp True (\<lambda>_. True) (update_entry L (emac_out C delay) n eth i s1)"
    by (rule update_entry_returns [OF nif1(2,1) eth i(2)]) (use free find_entry_dev [OF f(1)] in simp)
  then have "wp True (\<lambda>_. True) ?m"
    using f(1) i(1) a nif by (simp add: etharp_update_arp_entry_def Let_def unicast_def nif_ok_def)
  moreover have "wp False (\<lambda>(e, s'). e = ERR_OK \<and> arp_post emac_refs (emac_loc C) R R s s' \<and> resolved a eth (arp_table s')) ?m"
    by (rule wp_mono [OF netdrv.etharp_update_arp_entry_ok [OF emac_netdrv [OF delay] ok nif eth, where a = a and flags = ETHARP_FLAG_TRY_HARD and L = L]])
      (use a in auto)
  ultimately obtain s' where "?m = Some (Inr (ERR_OK, s'))" "arp_post emac_refs (emac_loc C) R R s s'" "resolved a eth (arp_table s')"
    by (auto simp: wp_def split: option.splits sum.splits)
  then show ?thesis by (rule that)
qed

text \<open>
  C13: an address that has been learned is found: after \<open>etharp_update_arp_entry\<close> with \<open>ETHARP_FLAG_TRY_HARD\<close> for the address of a
  single host, which returns \<open>ERR_OK\<close> when a descriptor is free, \<open>etharp_find_addr\<close> gives the hardware
  address, however full the cache was.
\<close>

theorem arp_update_find:
  assumes "malloc_ok L" "\<forall>x. tx_free_descs (delay x) = tx_free_descs x" "arp_reach C delay L s R" "nif_ok (sk_netif s n)" "length eth = 6"
    "unicast a (sk_netif s n)" "1 \<le> unat (tx_free_descs (sk_dev s))"
  shows "\<exists>i s'. etharp_update_arp_entry L (emac_out C delay) n a eth ETHARP_FLAG_TRY_HARD s = Some (Inr (ERR_OK, s')) \<and>
    etharp_find_addr L a s' = Some (Inr (Some (i, eth, a), s'))"
proof -
  have ok: "arp_inv C s R" by (rule arp_reach_inv [OF spec [OF assms(2)] assms(1,3)])
  obtain s' where s': "etharp_update_arp_entry L (emac_out C delay) n a eth ETHARP_FLAG_TRY_HARD s = Some (Inr (ERR_OK, s'))"
    "arp_post emac_refs (emac_loc C) R R s s'" "resolved a eth (arp_table s')"
    by (rule arp_update_ok [OF spec [OF assms(2)] ok assms(4-7)])
  have "arp_inv C s' R" using s'(2) by (simp add: arp_post_def)
  from quiet_net.etharp_find_addr_ok [OF this s'(3)] s'(1) show ?thesis by blast
qed

lemma stable_index_found:
  assumes "i < length es" "stable (ae_state (es ! i))" "ae_ipaddr (es ! i) = a"
  shows "\<exists>j. stable_index a k es = Some j"
  using assms
proof (induction es arbitrary: i k)
  case (Cons e es)
  then show ?case by (cases i) auto
qed simp

lemma stable_unique:
  assumes ok: "arp_inv C s R" and i: "i < ARP_TABLE_SIZE" "stable (ae_state (arp_table s ! i))" and j: "j < ARP_TABLE_SIZE" "stable (ae_state (arp_table s ! j))"
    and eq: "ae_ipaddr (arp_table s ! i) = ae_ipaddr (arp_table s ! j)"
  shows "i = j"
  by (rule used_ips_unique [of "arp_table s"]) (use assms arp_ok_length [OF ok] in \<open>auto simp: arp_ok_def tbl_ok_def stable_def\<close>)

text \<open>A packet to a host whose address is in the cache.\<close>

lemma etharp_output_sends:
  assumes ok: "arp_inv C s (add_mset q R)" and nif: "nif_ok (sk_netif s n)"
    and o: "outgoing (sk_heap s) q ps bs" and room: "Suc (length ps) \<le> unat (tx_free_descs (sk_dev s))"
    and e: "e \<in> set (arp_table s)" "stable (ae_state e)" "ae_ctime e < 228"
    and a: "unicast (ae_ipaddr e) (sk_netif s n)" "ip_addr_netcmp (ae_ipaddr e) (ni_ip_addr (sk_netif s n)) (ni_netmask (sk_netif s n))"
  shows "\<exists>s'. etharp_output L (emac_out C delay) n q (ae_ipaddr e) s = Some (Inr (ERR_OK, s')) \<and>
    tx_cont (sk_dev s') = tx_cont (sk_dev s) @ replicate (length ps) None @ [Some q] \<and>
    packet (sk_heap s') (Some q) (q # ps) (eth_frame (ae_ethaddr e) (ni_hwaddr (sk_netif s n)) 0x0800 bs)"
proof -
  let ?x = "sk_netif s n" and ?lo = "emac_out C delay" and ?T = "add_mset q R"
  obtain i where i: "i < ARP_TABLE_SIZE" "e = arp_table s ! i" using e(1) arp_ok_length [OF ok] by (auto simp: in_set_conv_nth)
  obtain h1 k hs where hd: "pbuf_header q (int SIZEOF_ETH_HDR) (sk_heap s) = Some (Inr (False, h1))"
    "netdrv.held emac_refs (emac_loc C) q ps k (hs @ bs) R (s\<lparr>sk_heap := h1\<rparr>)" "length hs = 14" "14 \<le> unat k"
    by (rule quiet_net.output_header [OF ok o])
  define s1 where "s1 = s\<lparr>sk_heap := h1\<rparr>"
  let ?P = "\<lambda>(e', s'). e' = ERR_OK \<and> tx_cont (sk_dev s') = tx_cont (sk_dev s) @ replicate (length ps) None @ [Some q] \<and>
      packet (sk_heap s') (Some q) (q # ps) (eth_frame (ae_ethaddr e) (ni_hwaddr ?x) ETHTYPE_IP bs)"
  have eth: "length (ae_ethaddr e) = 6" "length (ni_hwaddr ?x) = 6" using arp_ok_entry [OF ok i(1)] i(2) nif by (simp_all add: entry_ok_def nif_ok_def)
  have go: "wp True ?P (etharp_output_to_arp_index L ?lo n q i s2)" if s2: "s2 = s1\<lparr>etharp_cached_entry := c\<rparr>" "unat c < ARP_TABLE_SIZE" for s2 c
  proof -
    have h2: "holding emac_refs (emac_loc C) q ps k (hs @ bs) R s2 s2"
      using hd(2) s2 unfolding quiet_net.held_iff s1_def [symmetric] by (auto simp: holding_def arp_post_def arp_ok_def)
    have g: "get_entry i s2 = Some (Inr e)" using arp_ok_get_entry [OF ok i(1)] s2(1) i(2) by (simp add: get_entry_def s1_def)
    have nif2: "nif_ok (sk_netif s2 n)" using nif s2(1) by (simp add: s1_def)
    have "wp True ?P (etharp_send_ip ?lo n q (ni_hwaddr ?x) (ae_ethaddr e) s2)"
    proof (rule quiet_net.send_ip_run [OF h2 hd(3,4) nif2 eth(2,1)])
      fix s3 assume s3: "holding emac_refs (emac_loc C) q ps k (eth_frame (ae_ethaddr e) (ni_hwaddr ?x) ETHTYPE_IP bs) R s2 s3" "sk_dev s3 = sk_dev s2"
      then have pk: "arp_inv C s3 ?T" "packet (sk_heap s3) (Some q) (q # ps) (eth_frame (ae_ethaddr e) (ni_hwaddr ?x) ETHTYPE_IP bs)" "refs (sk_heap s3) q < 65535"
        by (auto simp: holding_def arp_post_def refs_def)
      have dev: "sk_dev s3 = sk_dev s" using s3(2) s2(1) by (simp add: s1_def)
      have fr: "length (q # ps) \<le> unat (tx_free_descs (sk_dev s3))" using room dev by simp
      obtain s4 where "linkoutput ?lo n q s3 = Some (Inr (ERR_OK, s4))"
        "tx_cont (sk_dev s4) = tx_cont (sk_dev s3) @ replicate (length (q # ps) - 1) None @ [Some q]"
        "packet (sk_heap s4) (Some q) (q # ps) (eth_frame (ae_ethaddr e) (ni_hwaddr ?x) ETHTYPE_IP bs)" by (rule emac_linkoutput [OF pk fr])
      then show "wp True ?P (linkoutput ?lo n q s3)" using dev by simp
    qed
    moreover have "\<not> ae_ctime e \<ge> ARP_AGE_REREQUEST_USED" using e(3) by (simp add: ARP_AGE_REREQUEST_USED_def ARP_MAXAGE_def not_le)
    moreover have "sk_netif s2 n = ?x" using s2(1) by (simp add: s1_def)
    ultimately show ?thesis using g e(2) by (simp add: etharp_output_to_arp_index_def)
  qed
  let ?c = "unat (etharp_cached_entry s1)"
  have ok1: "arp_inv C s1 ?T" using hd(2) by (simp add: quiet_net.held_iff s1_def)
  have ci: "?c < ARP_TABLE_SIZE" using ok1 by (simp add: arp_ok_def)
  have tb: "arp_table s1 = arp_table s" by (simp add: s1_def)
  have "wp True ?P (output_unicast L ?lo n q (ae_ipaddr e) s1)"
  proof (cases "stable (ae_state (arp_table s ! ?c)) \<and> ae_ipaddr e = ae_ipaddr (arp_table s ! ?c)")
    case True
    then have "?c = i" using stable_unique [OF ok ci _ i(1)] i(2) e(2) by auto
    then show ?thesis using go [of s1 "etharp_cached_entry s1"] arp_ok_get_entry [OF ok1 ci] True tb ci by (simp add: output_unicast_def)
  next
    case False
    have len: "i < length (arp_table s)" using i(1) arp_ok_length [OF ok] by simp
    obtain j where j: "stable_index (ae_ipaddr e) 0 (arp_table s) = Some j" using stable_index_found [OF len, of "ae_ipaddr e" 0] e(2) i(2) by auto
    have "j = i" using stable_index_Some [OF j] stable_unique [OF ok, of j i] i e(2) arp_ok_length [OF ok] by simp
    moreover have "unat (of_nat i :: u8) < ARP_TABLE_SIZE" using i(1) by (simp add: ARP_TABLE_SIZE_def unat_of_nat)
    ultimately show ?thesis unfolding output_unicast_def arp_ok_get_entry [OF ok1 ci] xbind_simps tb if_not_P [OF False] j option.case
      using go [of "s1\<lparr>etharp_cached_entry := of_nat i\<rparr>" "of_nat i"] by simp
  qed
  then have "wp True ?P (etharp_output L ?lo n q (ae_ipaddr e) s)"
    unfolding etharp_output_def hd(1) using a by (simp add: unicast_def Let_def s1_def)
  then show ?thesis by (auto simp: wp_def ETHTYPE_IP_def split: option.splits sum.splits)
qed

text \<open>
  A packet to a host of the local network whose address is in the cache and was confirmed less than 228 timer calls ago leaves at
  once, when there are descriptors for it: the frame is its Ethernet header, with the address of the cache
  and that of the interface, in front of the packet.
\<close>

lemma arp_output_frame:
  assumes "malloc_ok L" "\<forall>x. tx_free_descs (delay x) = tx_free_descs x" "arp_reach C delay L s (add_mset q R)" "nif_ok (sk_netif s n)"
    "outgoing (sk_heap s) q ps bs" "Suc (length ps) \<le> unat (tx_free_descs (sk_dev s))"
    "e \<in> set (arp_table s)" "stable (ae_state e)" "ae_ctime e < 228"
    "unicast (ae_ipaddr e) (sk_netif s n)" "ip_addr_netcmp (ae_ipaddr e) (ni_ip_addr (sk_netif s n)) (ni_netmask (sk_netif s n))"
  shows "\<exists>s'. etharp_output L (emac_out C delay) n q (ae_ipaddr e) s = Some (Inr (ERR_OK, s')) \<and>
    tx_cont (sk_dev s') = tx_cont (sk_dev s) @ replicate (length ps) None @ [Some q] \<and>
    packet (sk_heap s') (Some q) (q # ps) (eth_frame (ae_ethaddr e) (ni_hwaddr (sk_netif s n)) 0x0800 bs)"
  by (rule etharp_output_sends [OF arp_reach_inv [OF spec [OF assms(2)] assms(1,3)] assms(4-11)])

fun etharp_tmr_times :: "memlib \<Rightarrow> nat \<Rightarrow> ('d, 'z) stack_scheme \<Rightarrow> ('d, 'z) stack_scheme res option" where
  "etharp_tmr_times L 0 s = Some (Inr s)"
| "etharp_tmr_times L (Suc k) s = xbind (etharp_tmr L s) (etharp_tmr_times L k)"

lemma aged_step:
  assumes "ae_state e \<noteq> ETHARP_STATE_EMPTY" "ae_ctime e < ARP_MAXAGE" "ae_state (aged e) \<noteq> ETHARP_STATE_EMPTY"
  shows "unat (ae_ctime (aged e)) = unat (ae_ctime e) + 1" "ae_ctime (aged e) < ARP_MAXAGE"
    "ae_state e = ETHARP_STATE_PENDING \<Longrightarrow> ae_state (aged e) = ETHARP_STATE_PENDING \<and> ae_ctime (aged e) < ARP_MAXPENDING"
proof -
  have "unat (ae_ctime e) < 240" using assms(2) by (simp add: ARP_MAXAGE_def word_less_nat_alt)
  then have "unat (ae_ctime e + 1) = unat (ae_ctime e) + 1" by (simp add: unat_word_ariths(1))
  then show "unat (ae_ctime (aged e)) = unat (ae_ctime e) + 1" using assms(1,3) by (auto simp: aged_def Let_def freed_def split: if_splits)
  show "ae_ctime (aged e) < ARP_MAXAGE" "ae_state e = ETHARP_STATE_PENDING \<Longrightarrow> ae_state (aged e) = ETHARP_STATE_PENDING \<and> ae_ctime (aged e) < ARP_MAXPENDING"
    using assms(1,3) by (auto simp: aged_def Let_def freed_def not_le split: if_splits)
qed

lemma aged_times:
  assumes "ae_state e \<noteq> ETHARP_STATE_EMPTY \<longrightarrow> ae_ctime e < ARP_MAXAGE"
  shows "ae_state ((aged ^^ k) e) = ETHARP_STATE_EMPTY \<or> (ae_state e \<noteq> ETHARP_STATE_EMPTY \<and> ae_ctime ((aged ^^ k) e) < ARP_MAXAGE \<and>
     unat (ae_ctime ((aged ^^ k) e)) = unat (ae_ctime e) + k \<and>
     (ae_state e = ETHARP_STATE_PENDING \<longrightarrow> ae_state ((aged ^^ k) e) = ETHARP_STATE_PENDING \<and> (0 < k \<longrightarrow> ae_ctime ((aged ^^ k) e) < ARP_MAXPENDING)))"
proof (induction k)
  case (Suc k)
  show ?case
  proof (cases "ae_state (aged ((aged ^^ k) e)) = ETHARP_STATE_EMPTY")
    case False
    then have "ae_state ((aged ^^ k) e) \<noteq> ETHARP_STATE_EMPTY" by (auto simp: aged_def)
    then show ?thesis using Suc aged_step [OF _ _ False] by auto
  qed simp
qed (use assms in auto)

lemma tmr_times_ok:
  "arp_inv C s R \<Longrightarrow> \<exists>s'. etharp_tmr_times L k s = Some (Inr s') \<and> arp_post emac_refs (emac_loc C) R R s s' \<and> arp_table s' = map (aged ^^ k) (arp_table s)"
proof (induction k arbitrary: s)
  case 0
  then show ?case by (simp add: arp_post_refl)
next
  case (Suc k)
  obtain s1 where s1: "etharp_tmr L s = Some (Inr s1)" "arp_post emac_refs (emac_loc C) R R s s1" "arp_table s1 = map aged (arp_table s)"
    using wpD [OF quiet_net.etharp_tmr_ok [OF Suc.prems, of L]] by auto
  have "arp_inv C s1 R" using s1(2) by (simp add: arp_post_def)
  from Suc.IH [OF this] obtain s2 where s2: "etharp_tmr_times L k s1 = Some (Inr s2)" "arp_post emac_refs (emac_loc C) R R s1 s2"
    "arp_table s2 = map (aged ^^ k) (arp_table s1)" by blast
  then have "arp_table s2 = map (aged ^^ Suc k) (arp_table s)" using s1(3) by (simp add: funpow_swap1)
  then show ?case using s1(1) s2(1) arp_post_trans [OF s1(2) s2(2)] by auto
qed

text \<open>
  C14: the timer ends every entry: each call returns, after two of them nothing is left of an entry that was pending, its packet
  included, and after 240 the cache is empty unless something is learned anew.
\<close>

theorem arp_ageing:
  assumes "malloc_ok L" "\<forall>x. tx_free_descs (delay x) = tx_free_descs x" "arp_reach C delay L s R"
  shows "\<exists>s'. etharp_tmr_times L k s = Some (Inr s') \<and>
    (\<forall>i<32. (2 \<le> k \<and> ae_state (arp_table s ! i) = ETHARP_STATE_PENDING) \<or> 240 \<le> k \<longrightarrow>
       ae_state (arp_table s' ! i) = ETHARP_STATE_EMPTY \<and> ae_q (arp_table s' ! i) = None)"
proof -
  have ok: "arp_inv C s R" by (rule arp_reach_inv [OF spec [OF assms(2)] assms(1,3)])
  from tmr_times_ok [OF ok] obtain s' where s': "etharp_tmr_times L k s = Some (Inr s')" "arp_inv C s' R" "arp_table s' = map (aged ^^ k) (arp_table s)"
    by (auto simp: arp_post_def)
  have "ae_state (arp_table s' ! i) = ETHARP_STATE_EMPTY \<and> ae_q (arp_table s' ! i) = None"
    if i: "i < 32" and c: "(2 \<le> k \<and> ae_state (arp_table s ! i) = ETHARP_STATE_PENDING) \<or> 240 \<le> k" for i
  proof -
    let ?e = "arp_table s ! i" and ?e' = "arp_table s' ! i"
    have i': "i < ARP_TABLE_SIZE" using i by (simp add: ARP_TABLE_SIZE_def)
    have e': "?e' = (aged ^^ k) ?e" using s'(3) i' arp_ok_length [OF ok] by simp
    have b: "ae_state ?e \<noteq> ETHARP_STATE_EMPTY \<longrightarrow> ae_ctime ?e < ARP_MAXAGE" using arp_ok_entry [OF ok i'] by (simp add: entry_ok_def)
    have "ae_state ?e' = ETHARP_STATE_EMPTY"
      using aged_times [OF b, of k] c unfolding e' by (auto simp: ARP_MAXAGE_def ARP_MAXPENDING_def word_less_nat_alt)
    then show ?thesis using arp_ok_entry [OF s'(2) i'] by (auto simp: entry_ok_def)
  qed
  then show ?thesis using s'(1) by blast
qed

section \<open>A state of the stack\<close>

definition ex_nif :: netif_t where
  "ex_nif = \<lparr>ni_ip_addr = IP4_ADDR 192 168 1 20, ni_netmask = IP4_ADDR 255 255 255 0, ni_gw = IP4_ADDR 192 168 1 1, ni_mtu = 1500, ni_hwaddr_len = 6,
     ni_hwaddr = [2, 0, 0, 0, 0, 1], ni_flags = 0x33, ni_name = (101, 110), ni_num = 0\<rparr>"

definition ex_stack :: "heap \<Rightarrow> enetdata stack" where
  "ex_stack h = \<lparr>sk_heap = fmupd 7 ex_frame h, sk_dev = ex_started h, sk_netif = (\<lambda>_. ex_nif), netif_list = [0], netif_default = Some 0, netif_num = 1,
     arp_table = replicate ARP_TABLE_SIZE arp_zero, etharp_cached_entry = 0\<rparr>"

lemma ex_stack_reach:
  assumes "heap_ok h R" "fmlookup h 7 = None"
  shows "arp_reach ex_chip id ex_lib1 (ex_stack h) R"
proof -
  have "emac_ok ex_chip (ex_started h) R" by (rule emac_reach_ok [OF ex_chip_ok ex_lib1_ok ex_emac_reach [OF assms]])
  moreover have "(ex_started h)\<lparr>en_heap := fmupd 7 ex_frame h\<rparr> = ex_started h" using ex_init(4) [OF assms(2)] by (simp add: enetdata.splits)
  ultimately show ?thesis by (intro arp_reach.start) (simp_all add: ex_stack_def)
qed

lemma ex_stack_room: "fmlookup h 7 = None \<Longrightarrow> unat (tx_free_descs (sk_dev (ex_stack h))) = 4" "nif_ok (sk_netif (ex_stack h) n)"
  by (simp_all add: ex_stack_def ex_init(3) nif_ok_def ex_nif_def ETHARP_HWADDR_LEN_def)

lemma ex_heap1_7: "fmlookup ex_heap1 7 = None"
  by (simp add: ex_heap1_def)

lemma ex_unicast: "unicast (IP4_ADDR 192 168 1 30) ex_nif"
  by (simp add: unicast_def ex_nif_def IP4_ADDR_def ip_addr_isbroadcast_def ip4_addr_isbroadcast_def ip_addr_ismulticast_def lwip_htonl_def)

text \<open>A packet with room for the headers, and the cache after the address of a host has been learned.\<close>

definition ex_out :: pbuf where
  "ex_out = \<lparr>pb_next = None, pb_mem = replicate 42 0 @ [1, 2, 3], pb_payload = 42, pb_tot_len = 3, pb_len = 3, pb_type = PBUF_RAM, pb_flags = 0, pb_ref = 1\<rparr>"

definition ex_heap2 :: heap where "ex_heap2 = fmupd 5 ex_out fmempty"

lemma ex_heap2_ok: "heap_ok ex_heap2 {#5#}" "fmlookup ex_heap2 7 = None"
proof -
  have "ptrs ex_heap2 = {#}"
    unfolding ex_heap2_def by (simp add: ptrs_upd_new next_ptrs_def ex_out_def) (simp add: ptrs_def)
  moreover have "links ex_heap2 = {}" by (auto simp: links_def ex_heap2_def ex_out_def split: if_splits)
  ultimately show "heap_ok ex_heap2 {#5#}"
    by (auto simp: heap_ok_def rc_ok_def refs_def ex_heap2_def ex_out_def acyclic_def split: if_splits)
qed (simp add: ex_heap2_def)

definition ex_host :: etharp_entry where
  "ex_host = \<lparr>ae_q = None, ae_ipaddr = IP4_ADDR 192 168 1 30, ae_netif = Some 0, ae_ethaddr = [2, 0, 0, 0, 0, 9], ae_state = ETHARP_STATE_STABLE, ae_ctime = 0\<rparr>"

definition ex_resolved :: "enetdata stack" where
  "ex_resolved = set_entry 0 ex_host (ex_stack ex_heap2)"

lemma find_scan_zero: "find_scan a k (replicate m arp_zero) c = Inr (if m = 0 \<or> ca_empty c \<noteq> ARP_TABLE_SIZE then c else c\<lparr>ca_empty := k\<rparr>)"
  if "k + m \<le> ARP_TABLE_SIZE"
  using that by (induction m arbitrary: k c) (auto simp: arp_zero_def)

lemma ex_learned:
  "etharp_update_arp_entry ex_lib1 (emac_out ex_chip id) 0 (IP4_ADDR 192 168 1 30) [2, 0, 0, 0, 0, 9] ETHARP_FLAG_TRY_HARD (ex_stack ex_heap2) = Some (Inr (ERR_OK, ex_resolved))"
proof -
  have fs: "find_scan (Some (IP4_ADDR 192 168 1 30)) 0 (replicate ARP_TABLE_SIZE arp_zero) no_cand = Inr (no_cand\<lparr>ca_empty := 0\<rparr>)"
    by (subst find_scan_zero) (simp_all add: no_cand_def ARP_TABLE_SIZE_def)
  have u: "unicast (IP4_ADDR 192 168 1 30) (sk_netif (ex_stack ex_heap2) 0)" using ex_unicast by (simp add: ex_stack_def)
  have n: "new_entry (Some (IP4_ADDR 192 168 1 30)) 0 (ex_stack ex_heap2) = Some (Inr (Some 0, set_entry 0 (arp_zero\<lparr>ae_ipaddr := IP4_ADDR 192 168 1 30\<rparr>) (ex_stack ex_heap2)))"
    by (simp add: new_entry_def get_entry_def load_def ex_stack_def ARP_TABLE_SIZE_def Let_def) (simp add: arp_zero_def)
  have "etharp_find_entry ex_lib1 (Some (IP4_ADDR 192 168 1 30)) ETHARP_FLAG_TRY_HARD (ex_stack ex_heap2) =
      Some (Inr (Some 0, set_entry 0 (arp_zero\<lparr>ae_ipaddr := IP4_ADDR 192 168 1 30\<rparr>) (ex_stack ex_heap2)))"
    unfolding etharp_find_entry_def using fs n by (simp add: ex_stack_def ETHARP_FLAG_FIND_ONLY_def ETHARP_FLAG_TRY_HARD_def ARP_TABLE_SIZE_def)
  moreover have "update_entry ex_lib1 (emac_out ex_chip id) 0 [2, 0, 0, 0, 0, 9] 0 (set_entry 0 (arp_zero\<lparr>ae_ipaddr := IP4_ADDR 192 168 1 30\<rparr>) (ex_stack ex_heap2)) = Some (Inr (ERR_OK, ex_resolved))"
    by (simp add: update_entry_def get_entry_def load_def ex_stack_def ARP_TABLE_SIZE_def set_entry_twice ex_resolved_def ex_host_def) (simp add: arp_zero_def)
  ultimately show ?thesis using u ex_stack_room(2) [of ex_heap2 0] by (simp add: etharp_update_arp_entry_def Let_def unicast_def nif_ok_def)
qed

lemma ex_resolved_reach: "arp_reach ex_chip id ex_lib1 ex_resolved {#5#}"
  by (rule arp_reach.update [OF ex_stack_reach [OF ex_heap2_ok] ex_stack_room(2) _ ex_learned]) simp

section \<open>Examples\<close>

theorem arp_cache_invariant_witness:
  "length (arp_table ex_resolved) = 32 \<and> heap_ok (sk_heap ex_resolved) ({#5#} + qrefs (arp_table ex_resolved) + owned (rx_cont (sk_dev ex_resolved)) + owned (tx_cont (sk_dev ex_resolved)))"
  using arp_cache_invariant [OF ex_lib1_ok _ ex_resolved_reach] by simp

theorem arp_request_frame_witness:
  "\<exists>s'. etharp_request ex_lib1 (emac_out ex_chip id) 0 1 (ex_stack ex_heap1) = Some (Inr (ERR_MEM, ex_stack ex_heap1)) \<or>
    etharp_request ex_lib1 (emac_out ex_chip id) 0 1 (ex_stack ex_heap1) = Some (Inr (ERR_OK, s')) \<and>
    (\<exists>p. tx_cont (sk_dev s') = tx_cont (sk_dev (ex_stack ex_heap1)) @ [Some p] \<and>
       packet (sk_heap s') (Some p) [p] (eth_frame (replicate 6 0xff) (ni_hwaddr (sk_netif (ex_stack ex_heap1) 0)) 0x0806
         (arp_data 1 (ni_hwaddr (sk_netif (ex_stack ex_heap1) 0)) (ni_ip_addr (sk_netif (ex_stack ex_heap1) 0)) (replicate 6 0) 1)))"
  by (rule arp_request_frame [OF ex_lib1_ok _ ex_stack_reach [OF ex_heap1_ok ex_heap1_7] ex_stack_room(2)])
    (simp_all add: ex_stack_room(1) [OF ex_heap1_7])

theorem arp_update_find_witness:
  "\<exists>i s'. etharp_update_arp_entry ex_lib1 (emac_out ex_chip id) 0 (IP4_ADDR 192 168 1 30) [2, 0, 0, 0, 0, 9] ETHARP_FLAG_TRY_HARD (ex_stack ex_heap1) = Some (Inr (ERR_OK, s')) \<and>
    etharp_find_addr ex_lib1 (IP4_ADDR 192 168 1 30) s' = Some (Inr (Some (i, [2, 0, 0, 0, 0, 9], IP4_ADDR 192 168 1 30), s'))"
  by (rule arp_update_find [OF ex_lib1_ok _ ex_stack_reach [OF ex_heap1_ok ex_heap1_7] ex_stack_room(2)])
    (use ex_unicast in \<open>simp_all add: ex_init(3) [OF ex_heap1_7] ex_stack_def\<close>)

lemma ex_resolved_simps:
  "sk_netif ex_resolved n = ex_nif" "sk_heap ex_resolved = fmupd 7 ex_frame ex_heap2" "sk_dev ex_resolved = ex_started ex_heap2" "ex_host \<in> set (arp_table ex_resolved)"
  by (simp_all add: ex_resolved_def ex_stack_def ARP_TABLE_SIZE_def eval_nat_numeral)

lemma ex_outgoing: "outgoing (sk_heap ex_resolved) 5 [] [1, 2, 3]"
  by (simp add: ex_resolved_simps outgoing_def ex_heap2_def ex_out_def pb_wf_def pb_data_def full_tail_def)

lemma arp_output_frame_example:
  "\<exists>s'. etharp_output ex_lib1 (emac_out ex_chip id) 0 5 (IP4_ADDR 192 168 1 30) ex_resolved = Some (Inr (ERR_OK, s')) \<and>
    tx_cont (sk_dev s') = tx_cont (sk_dev ex_resolved) @ [Some 5] \<and>
    packet (sk_heap s') (Some 5) [5] ([2, 0, 0, 0, 0, 9, 2, 0, 0, 0, 0, 1, 8, 0, 1, 2, 3])"
proof -
  have nif: "nif_ok (sk_netif ex_resolved 0)" "unicast (ae_ipaddr ex_host) (sk_netif ex_resolved 0)"
    "ip_addr_netcmp (ae_ipaddr ex_host) (ni_ip_addr (sk_netif ex_resolved 0)) (ni_netmask (sk_netif ex_resolved 0))"
    using ex_stack_room(2) [of ex_heap2 0] ex_unicast by (simp_all add: ex_resolved_simps ex_stack_def ex_host_def ex_nif_def ip_addr_netcmp_def IP4_ADDR_def)
  have z: "(2048 :: u8) = 0" by code_simp
  show ?thesis
    using arp_output_frame [OF ex_lib1_ok _ ex_resolved_reach nif(1) ex_outgoing _ ex_resolved_simps(4) _ _ nif(2,3)] ex_init(3) [OF ex_heap2_ok(2)]
    by (simp add: ex_host_def ex_nif_def ex_resolved_simps stable_def eth_frame_def z)
qed

theorem arp_ageing_witness:
  "\<exists>s'. etharp_tmr_times ex_lib1 240 ex_resolved = Some (Inr s') \<and> ae_state (arp_table s' ! 0) = ETHARP_STATE_EMPTY"
proof -
  obtain s' where "etharp_tmr_times ex_lib1 240 ex_resolved = Some (Inr s')" and
    a: "\<forall>i<32. (2 \<le> (240 :: nat) \<and> ae_state (arp_table ex_resolved ! i) = ETHARP_STATE_PENDING) \<or> 240 \<le> (240 :: nat) \<longrightarrow>
       ae_state (arp_table s' ! i) = ETHARP_STATE_EMPTY \<and> ae_q (arp_table s' ! i) = None"
    using arp_ageing [OF ex_lib1_ok _ ex_resolved_reach, of 240] by auto
  moreover have "ae_state (arp_table s' ! 0) = ETHARP_STATE_EMPTY" using spec [OF a, of 0] by simp
  ultimately show ?thesis by blast
qed

end
