(* ===== verification/NetifUp.thy ===== *)
theory NetifUp
  imports EtharpEmac
begin

text \<open>
  Bringing interfaces up and down (\<^verbatim>\<open>src/lwip/src/core/netif.c\<close>): the operations that use the ARP layer. There are no
  callbacks for the status, the link or the removal of an interface in this configuration.
\<close>

definition gratuitous_arp :: "memlib \<Rightarrow> 'd linkout \<Rightarrow> nat \<Rightarrow> ('d, 'z) stack_scheme \<Rightarrow> ('d, 'z) stack_scheme res option" where
  "gratuitous_arp L lo n s =
     (if ni_flags (sk_netif s n) AND NETIF_FLAG_ETHARP \<noteq> 0 then xbind (etharp_gratuitous L lo n s) (\<lambda>(_, s). Some (Inr s)) else Some (Inr s))"

definition netif_set_up :: "memlib \<Rightarrow> 'd linkout \<Rightarrow> nat \<Rightarrow> ('d, 'z) stack_scheme \<Rightarrow> ('d, 'z) stack_scheme res option" where
  "netif_set_up L lo n s =
     (let x = sk_netif s n
      in if ni_flags x AND NETIF_FLAG_UP = 0
         then let s = set_netif n (x\<lparr>ni_flags := ni_flags x OR NETIF_FLAG_UP\<rparr>) s
              in if ni_flags (sk_netif s n) AND NETIF_FLAG_LINK_UP \<noteq> 0 then gratuitous_arp L lo n s else Some (Inr s)
         else Some (Inr s))"

definition netif_set_link_up :: "memlib \<Rightarrow> 'd linkout \<Rightarrow> nat \<Rightarrow> ('d, 'z) stack_scheme \<Rightarrow> ('d, 'z) stack_scheme res option" where
  "netif_set_link_up L lo n s =
     (let x = sk_netif s n
      in if ni_flags x AND NETIF_FLAG_LINK_UP = 0
         then let s = set_netif n (x\<lparr>ni_flags := ni_flags x OR NETIF_FLAG_LINK_UP\<rparr>) s
              in if ni_flags (sk_netif s n) AND NETIF_FLAG_UP \<noteq> 0 then gratuitous_arp L lo n s else Some (Inr s)
         else Some (Inr s))"

definition netif_set_down :: "memlib \<Rightarrow> nat \<Rightarrow> ('d, 'z) stack_scheme \<Rightarrow> ('d, 'z) stack_scheme res option" where
  "netif_set_down L n s =
     (let x = sk_netif s n
      in if ni_flags x AND NETIF_FLAG_UP \<noteq> 0
         then let s = set_netif n (x\<lparr>ni_flags := ni_flags x AND NOT NETIF_FLAG_UP\<rparr>) s
              in if ni_flags (sk_netif s n) AND NETIF_FLAG_ETHARP \<noteq> 0 then etharp_cleanup_netif L n s else Some (Inr s)
         else Some (Inr s))"

text \<open>A null pointer as argument is \<open>None\<close>; the interface is taken out of the list of interfaces.\<close>

definition netif_remove :: "memlib \<Rightarrow> nat option \<Rightarrow> ('d, 'z) stack_scheme \<Rightarrow> ('d, 'z) stack_scheme res option" where
  "netif_remove L netif s =
     (case netif of
        None \<Rightarrow> Some (Inr s)
      | Some n \<Rightarrow>
          xbind (if netif_is_up (sk_netif s n) then netif_set_down L n s else Some (Inr s)) (\<lambda>s.
          if n \<in> set (netif_list s)
          then let s = s\<lparr>netif_list := remove1 n (netif_list s)\<rparr>
               in Some (Inr (if netif_default s = Some n then netif_set_default None s else s))
          else Some (Inr s)))"

section \<open>What is left of an interface\<close>

lemma set_netif_simps [simp]:
  "sk_heap (set_netif n x s) = sk_heap s" "sk_dev (set_netif n x s) = sk_dev s" "arp_table (set_netif n x s) = arp_table s"
  "sk_netif (set_netif n x s) n = x" "etharp_cached_entry (set_netif n x s) = etharp_cached_entry s" "netif_list (set_netif n x s) = netif_list s"
  by (simp_all add: set_netif_def)

lemma arp_ok_set_netif [simp]: "arp_ok drv loc (set_netif n x s) R = arp_ok drv loc s R"
  by (simp add: arp_ok_def)

lemma netif_set_down_ok:
  assumes ok: "arp_inv C s R" and up: "ni_flags (sk_netif s n) AND NETIF_FLAG_UP \<noteq> 0" and eth: "ni_flags (sk_netif s n) AND NETIF_FLAG_ETHARP \<noteq> 0"
  obtains s' where "netif_set_down L n s = Some (Inr s')" "arp_inv C s' R" "\<not> netif_is_up (sk_netif s' n)" "netif_list s' = netif_list s"
    "arp_table s' = map (\<lambda>e. if ae_state e \<noteq> ETHARP_STATE_EMPTY \<and> ae_netif e = Some n then freed e else e) (arp_table s)"
proof -
  let ?fl = "ni_flags (sk_netif s n) AND NOT NETIF_FLAG_UP"
  let ?s = "set_netif n ((sk_netif s n)\<lparr>ni_flags := ?fl\<rparr>) s"
  have e: "?fl AND NETIF_FLAG_ETHARP = ni_flags (sk_netif s n) AND NETIF_FLAG_ETHARP" "?fl AND NETIF_FLAG_UP = 0"
    by (simp_all add: NETIF_FLAG_ETHARP_def NETIF_FLAG_UP_def and.assoc)
  have ok1: "arp_inv C ?s R" using ok by simp
  obtain s' where s': "etharp_cleanup_netif L n ?s = Some (Inr s')" "arp_post emac_refs (emac_loc C) R R ?s s'"
    "arp_table s' = map (\<lambda>e. if ae_state e \<noteq> ETHARP_STATE_EMPTY \<and> ae_netif e = Some n then freed e else e) (arp_table s)"
    using wpD [OF quiet_net.etharp_cleanup_netif_ok [OF ok1, where n = n and L = L]] by auto
  have "sk_netif s' n = (sk_netif s n)\<lparr>ni_flags := ?fl\<rparr>" "netif_list s' = netif_list s" using s'(2) by (simp_all add: arp_post_def same_env_def)
  then show ?thesis using s' up eth e by (intro that [of s']) (simp_all add: netif_set_down_def Let_def arp_post_def netif_is_up_def)
qed

text \<open>
  Taking down an Ethernet interface always returns, takes the interface out of service and removes every entry of the ARP cache
  that was learned through it; entries of other interfaces stay as they are. A pending entry, which does not know its
  interface yet, stays too.
\<close>

lemma netif_down_forgets:
  assumes "malloc_ok L" "\<forall>x. tx_free_descs (delay x) = tx_free_descs x" "arp_reach C delay L s R"
    "netif_is_up (sk_netif s n)" "ni_flags (sk_netif s n) AND NETIF_FLAG_ETHARP \<noteq> 0"
  shows "\<exists>s'. netif_set_down L n s = Some (Inr s') \<and> \<not> netif_is_up (sk_netif s' n) \<and>
    (\<forall>e\<in>set (arp_table s'). ae_netif e = Some n \<longrightarrow> ae_state e = ETHARP_STATE_EMPTY \<and> ae_q e = None) \<and>
    (\<forall>i<32. ae_netif (arp_table s ! i) \<noteq> Some n \<longrightarrow> arp_table s' ! i = arp_table s ! i)"
proof -
  have ok: "arp_inv C s R" by (rule arp_reach_inv [OF spec [OF assms(2)] assms(1,3)])
  have up: "ni_flags (sk_netif s n) AND NETIF_FLAG_UP \<noteq> 0" using assms(4) by (simp add: netif_is_up_def)
  obtain s' where s': "netif_set_down L n s = Some (Inr s')" "arp_inv C s' R" "\<not> netif_is_up (sk_netif s' n)"
    "arp_table s' = map (\<lambda>e. if ae_state e \<noteq> ETHARP_STATE_EMPTY \<and> ae_netif e = Some n then freed e else e) (arp_table s)"
    by (rule netif_set_down_ok [OF ok up assms(5)])
  have q: "ae_q e = None" if "e \<in> set (arp_table s')" "ae_state e = ETHARP_STATE_EMPTY" for e
    using that s'(2) by (auto simp: arp_ok_def tbl_ok_def entry_ok_def)
  have "\<forall>e\<in>set (arp_table s'). ae_netif e = Some n \<longrightarrow> ae_state e = ETHARP_STATE_EMPTY" using s'(4) by (auto simp: freed_def)
  moreover have "\<forall>i<32. ae_netif (arp_table s ! i) \<noteq> Some n \<longrightarrow> arp_table s' ! i = arp_table s ! i"
    using s'(4) arp_ok_length [OF ok] by (auto simp: ARP_TABLE_SIZE_def)
  ultimately show ?thesis using s'(1,3) q by blast
qed

lemma netif_down_forgets_example:
  "\<exists>s'. netif_set_down ex_lib1 0 ex_resolved = Some (Inr s') \<and> \<not> netif_is_up (sk_netif s' 0)"
  using netif_down_forgets [OF ex_lib1_ok _ ex_resolved_reach, of 0]
  by (auto simp: ex_resolved_simps ex_nif_def netif_is_up_def NETIF_FLAG_UP_def NETIF_FLAG_ETHARP_def)

end
