(* ===== verification/Ip.thy ===== *)
theory Ip
  imports EtharpEmac
begin

text \<open>
  The Internet layer, output side (\<^verbatim>\<open>src/lwip/src/core/ipv4/ip.c\<close>), and the state of the layers above ARP. The configuration is
  that of \<^verbatim>\<open>src/lwip/inc/lwip/opt.h\<close> and \<^verbatim>\<open>src/inc/lwipopts.h\<close>: no forwarding, no multicast groups, no TCP, no UDP-Lite, no loop
  interface, checksums in software. What a structure holds as a pointer to a function is a field of the record
  \<open>ipenv\<close>: the output function of the interfaces and the callbacks of the applications; so are fragmentation
  and reassembly (\<^verbatim>\<open>ip_frag.c\<close>), which keep pointers in the payload of packets.
\<close>

section \<open>State\<close>

record udp_pcb =
  up_local_ip :: u32
  up_remote_ip :: u32
  up_so_options :: u8
  up_tos :: u8
  up_ttl :: u8
  up_flags :: u8
  up_local_port :: u16
  up_remote_port :: u16
  up_recv :: bool

record raw_pcb =
  rp_local_ip :: u32
  rp_remote_ip :: u32
  rp_so_options :: u8
  rp_tos :: u8
  rp_ttl :: u8
  rp_protocol :: u8
  rp_recv :: bool

text \<open>
  The control blocks live at addresses; the linked lists \<open>udp_pcbs\<close> and \<open>raw_pcbs\<close> are lists of addresses. \<open>current_header\<close> is the
  pbuf and the offset of the header in it.
\<close>

record 'd ipstack = "'d stack" +
  ip_id :: u16
  current_netif :: "nat option"
  current_header :: "(nat \<times> nat) option"
  current_iphdr_src :: u32
  current_iphdr_dest :: u32
  udp_mem :: "(nat, udp_pcb) fmap"
  udp_pcbs :: "nat list"
  udp_port :: u16
  raw_mem :: "(nat, raw_pcb) fmap"
  raw_pcbs :: "nat list"

record 's ipenv =
  netif_output :: "nat \<Rightarrow> nat \<Rightarrow> u32 \<Rightarrow> 's \<Rightarrow> (err_t \<times> 's) res option"
  ip_frag :: "nat \<Rightarrow> nat \<Rightarrow> u32 \<Rightarrow> 's \<Rightarrow> (err_t \<times> 's) res option"
  ip_reass :: "nat \<Rightarrow> 's \<Rightarrow> (nat option \<times> 's) res option"
  udp_recv_fn :: "nat \<Rightarrow> nat \<Rightarrow> u32 \<Rightarrow> u16 \<Rightarrow> 's \<Rightarrow> 's res option"
  raw_recv_fn :: "nat \<Rightarrow> nat \<Rightarrow> u32 \<Rightarrow> 's \<Rightarrow> (bool \<times> 's) res option"
  memlib_of :: memlib
  memp_malloc :: "nat set \<Rightarrow> nat option"

definition IP_HLEN :: nat where "IP_HLEN = 20"
definition IP_PROTO_ICMP :: u8 where "IP_PROTO_ICMP = 1"
definition IP_PROTO_UDP :: u8 where "IP_PROTO_UDP = 17"
definition SOF_BROADCAST :: u8 where "SOF_BROADCAST = 0x20"
definition IP_MF :: u16 where "IP_MF = 0x2000"
definition IP_OFFMASK :: u16 where "IP_OFFMASK = 0x1fff"
definition IP_DEFAULT_TTL :: u8 where "IP_DEFAULT_TTL = 255"

lemmas ip_consts = IP_HLEN_def IP_PROTO_ICMP_def IP_PROTO_UDP_def SOF_BROADCAST_def IP_MF_def IP_OFFMASK_def IP_DEFAULT_TTL_def

definition LWIP_MAKE_U16 :: "u8 \<Rightarrow> u8 \<Rightarrow> u32" where
  "LWIP_MAKE_U16 a b = push_bit 8 (ucast a) OR ucast b"

section \<open>Routing\<close>

definition ip_route :: "u32 \<Rightarrow> ('d, 'z) stack_scheme \<Rightarrow> nat option" where
  "ip_route dest s =
     (case find (\<lambda>n. netif_is_up (sk_netif s n) \<and> ip_addr_netcmp dest (ni_ip_addr (sk_netif s n)) (ni_netmask (sk_netif s n))) (netif_list s) of
        Some n \<Rightarrow> Some n
      | None \<Rightarrow> (case netif_default s of None \<Rightarrow> None | Some n \<Rightarrow> if netif_is_up (sk_netif s n) then Some n else None))"

section \<open>Output\<close>

text \<open>
  The header that \<open>ip_output_if\<close> writes, with the checksum summed up on the way; \<open>n\<close> is the interface, a null pointer as source
  or the address 0 stands for the address of the interface.
\<close>

definition ip_chksum_inline :: "u8 \<Rightarrow> u8 \<Rightarrow> u32 \<Rightarrow> u8 \<Rightarrow> u8 \<Rightarrow> u16 \<Rightarrow> u16 \<Rightarrow> u32 \<Rightarrow> u16" where
  "ip_chksum_inline proto ttl dest tos v_hl len ident src =
     (let chk_sum = LWIP_MAKE_U16 proto ttl;
          chk_sum = chk_sum + (dest AND 0xffff);
          chk_sum = chk_sum + drop_bit 16 dest;
          chk_sum = chk_sum + LWIP_MAKE_U16 tos v_hl;
          chk_sum = chk_sum + ucast len;
          chk_sum = chk_sum + ucast ident;
          chk_sum = chk_sum + (src AND 0xffff);
          chk_sum = chk_sum + drop_bit 16 src;
          chk_sum = drop_bit 16 chk_sum + (chk_sum AND 0xffff);
          chk_sum = drop_bit 16 chk_sum + chk_sum
      in ucast (NOT chk_sum))"

definition ip_header ::
  "nat \<Rightarrow> u32 \<Rightarrow> u32 \<Rightarrow> u8 \<Rightarrow> u8 \<Rightarrow> u8 \<Rightarrow> ('d, 'z) ipstack_scheme \<Rightarrow> ('d, 'z) ipstack_scheme res option" where
  "ip_header p src dest ttl tos proto s =
     (case fmlookup (sk_heap s) p of
        None \<Rightarrow> Some (Inl OutOfBounds)
      | Some pb \<Rightarrow>
          if \<not> IP_HLEN \<le> unat (pb_len pb) then None
          else
          let v_hl = 0x45; len = lwip_htons (pb_tot_len pb); ident = lwip_htons (ip_id s)
          in xbind (put_bytes p 8 [ttl] s) (\<lambda>s.
             xbind (put_bytes p 9 [proto] s) (\<lambda>s.
             xbind (put_bytes p 16 (bytes32 dest) s) (\<lambda>s.
             xbind (put_bytes p 0 [v_hl] s) (\<lambda>s.
             xbind (put_bytes p 1 [tos] s) (\<lambda>s.
             xbind (put_bytes p 2 (bytes16 len) s) (\<lambda>s.
             xbind (put_bytes p 6 (bytes16 0) s) (\<lambda>s.
             xbind (put_bytes p 4 (bytes16 ident) s) (\<lambda>s.
             xbind (put_bytes p 12 (bytes32 src) (s\<lparr>ip_id := ip_id s + 1\<rparr>)) (\<lambda>s.
             put_bytes p 10 (bytes16 (ip_chksum_inline proto ttl dest tos v_hl len ident src)) s))))))))))"

text \<open>The last part: a packet that is longer than the interface can send is fragmented.\<close>

definition ip_transmit ::
  "('d, 'z) ipstack_scheme ipenv \<Rightarrow> nat \<Rightarrow> u32 \<Rightarrow> nat \<Rightarrow> ('d, 'z) ipstack_scheme \<Rightarrow> (err_t \<times> ('d, 'z) ipstack_scheme) res option" where
  "ip_transmit E p dest n s =
     (case fmlookup (sk_heap s) p of
        None \<Rightarrow> Some (Inl OutOfBounds)
      | Some pb \<Rightarrow>
          if ni_mtu (sk_netif s n) \<noteq> 0 \<and> pb_tot_len pb > ni_mtu (sk_netif s n) then ip_frag E p n dest s
          else netif_output E n p dest s)"

text \<open>\<open>dest = None\<close> is \<open>IP_HDRINCL\<close>: the header is in the packet. A packet with other references does not return.\<close>

definition ip_output_if ::
  "('d, 'z) ipstack_scheme ipenv \<Rightarrow> nat \<Rightarrow> u32 option \<Rightarrow> u32 option \<Rightarrow> u8 \<Rightarrow> u8 \<Rightarrow> u8 \<Rightarrow> nat \<Rightarrow> ('d, 'z) ipstack_scheme \<Rightarrow>
   (err_t \<times> ('d, 'z) ipstack_scheme) res option" where
  "ip_output_if E p src dest ttl tos proto n s =
     (case fmlookup (sk_heap s) p of
        None \<Rightarrow> Some (Inl OutOfBounds)
      | Some pb \<Rightarrow>
          if pb_ref pb \<noteq> 1 then None
          else
            (case dest of
               Some a \<Rightarrow>
                 xbind (pbuf_header p (int IP_HLEN) (sk_heap s)) (\<lambda>(fail, h).
                 let s = s\<lparr>sk_heap := h\<rparr>;
                     source = (case src of None \<Rightarrow> ni_ip_addr (sk_netif s n) | Some b \<Rightarrow> if b = IPADDR_ANY then ni_ip_addr (sk_netif s n) else b)
                 in if fail then Some (Inr (ERR_BUF, s))
                    else xbind (ip_header p source a ttl tos proto s) (\<lambda>s. ip_transmit E p a n s))
             | None \<Rightarrow> xbind (get_u32 p 16 s) (\<lambda>a. ip_transmit E p a n s)))"

definition ip_output ::
  "('d, 'z) ipstack_scheme ipenv \<Rightarrow> nat \<Rightarrow> u32 option \<Rightarrow> u32 \<Rightarrow> u8 \<Rightarrow> u8 \<Rightarrow> u8 \<Rightarrow> ('d, 'z) ipstack_scheme \<Rightarrow>
   (err_t \<times> ('d, 'z) ipstack_scheme) res option" where
  "ip_output E p src dest ttl tos proto s =
     (case fmlookup (sk_heap s) p of
        None \<Rightarrow> Some (Inl OutOfBounds)
      | Some pb \<Rightarrow>
          if pb_ref pb \<noteq> 1 then None
          else (case ip_route dest s of
                  None \<Rightarrow> Some (Inr (ERR_RTE, s))
                | Some n \<Rightarrow> ip_output_if E p src (Some dest) ttl tos proto n s))"

end
