(* ===== verification/Icmp.thy ===== *)
theory Icmp
  imports Ip
begin

text \<open>
  Control messages (\<^verbatim>\<open>src/lwip/src/core/ipv4/icmp.c\<close>): the answer to echo requests and the messages about packets that cannot
  be delivered. A header that is not at the payload pointer is given by its offset in the memory of the pbuf.
\<close>

definition ICMP_ER :: u8 where "ICMP_ER = 0"
definition ICMP_DUR :: u8 where "ICMP_DUR = 3"
definition ICMP_ECHO :: u8 where "ICMP_ECHO = 8"
definition ICMP_TE :: u8 where "ICMP_TE = 11"
definition ICMP_DUR_PROTO :: u8 where "ICMP_DUR_PROTO = 2"
definition ICMP_DUR_PORT :: u8 where "ICMP_DUR_PORT = 3"
definition ICMP_TTL :: u8 where "ICMP_TTL = IP_DEFAULT_TTL"

definition get_pbuf :: "nat \<Rightarrow> ('d, 'z) stack_scheme \<Rightarrow> pbuf res option" where
  "get_pbuf p s = Some (case fmlookup (sk_heap s) p of None \<Rightarrow> Inl OutOfBounds | Some pb \<Rightarrow> Inr pb)"

definition move_header :: "nat \<Rightarrow> int \<Rightarrow> ('d, 'z) stack_scheme \<Rightarrow> (bool \<times> ('d, 'z) stack_scheme) res option" where
  "move_header p inc s = xbind (pbuf_header p inc (sk_heap s)) (\<lambda>(fail, h). Some (Inr (fail, s\<lparr>sk_heap := h\<rparr>)))"

definition put_mem :: "nat \<Rightarrow> nat \<Rightarrow> u8 list \<Rightarrow> ('d, 'z) stack_scheme \<Rightarrow> ('d, 'z) stack_scheme res option" where
  "put_mem p pos bs s =
     xbind (get_pbuf p s) (\<lambda>pb.
     xbind (Some (memcpy (pb_mem pb) pos bs (length bs))) (\<lambda>m.
     Some (Inr (s\<lparr>sk_heap := fmupd p (pb\<lparr>pb_mem := m\<rparr>) (sk_heap s)\<rparr>))))"

definition get_mem :: "nat \<Rightarrow> nat \<Rightarrow> nat \<Rightarrow> ('d, 'z) stack_scheme \<Rightarrow> u8 list res option" where
  "get_mem p pos n s = xbind (get_pbuf p s) (\<lambda>pb. Some (read_bytes (pb_mem pb) pos n))"

definition icmp_send_response ::
  "('d, 'z) ipstack_scheme ipenv \<Rightarrow> nat \<Rightarrow> u8 \<Rightarrow> u8 \<Rightarrow> ('d, 'z) ipstack_scheme \<Rightarrow> ('d, 'z) ipstack_scheme res option" where
  "icmp_send_response E p type code s =
     xbind (pbuf_alloc (memlib_of E) PBUF_IP (8 + of_nat IP_HLEN + 8) PBUF_RAM (sk_heap s)) (\<lambda>(r, h).
     let s = s\<lparr>sk_heap := h\<rparr>
     in case r of
          None \<Rightarrow> Some (Inr s)
        | Some q \<Rightarrow>
            xbind (get_pbuf q s) (\<lambda>qb.
            if \<not> unat (pb_len qb) \<ge> 8 + IP_HLEN + 8 then None
            else
              xbind (put_bytes q 0 [type] s) (\<lambda>s.
              xbind (put_bytes q 1 [code] s) (\<lambda>s.
              xbind (put_bytes q 4 (bytes16 0) s) (\<lambda>s.
              xbind (put_bytes q 6 (bytes16 0) s) (\<lambda>s.
              xbind (get_bytes p 0 (IP_HLEN + 8) s) (\<lambda>orig.
              xbind (put_bytes q 8 orig s) (\<lambda>s.
              xbind (put_bytes q 2 (bytes16 0) s) (\<lambda>s.
              xbind (get_bytes q 0 (unat (pb_len qb)) s) (\<lambda>msg.
              xbind (put_bytes q 2 (bytes16 (inet_chksum msg)) s) (\<lambda>s.
              xbind (get_u32 p 12 s) (\<lambda>src.
              xbind (ip_output E q None src ICMP_TTL 0 IP_PROTO_ICMP s) (\<lambda>(_, s).
              free_pbuf (memlib_of E) q s)))))))))))))"

definition icmp_dest_unreach ::
  "('d, 'z) ipstack_scheme ipenv \<Rightarrow> nat \<Rightarrow> u8 \<Rightarrow> ('d, 'z) ipstack_scheme \<Rightarrow> ('d, 'z) ipstack_scheme res option" where
  "icmp_dest_unreach E p t s = icmp_send_response E p ICMP_DUR t s"

definition icmp_time_exceeded ::
  "('d, 'z) ipstack_scheme ipenv \<Rightarrow> nat \<Rightarrow> u8 \<Rightarrow> ('d, 'z) ipstack_scheme \<Rightarrow> ('d, 'z) ipstack_scheme res option" where
  "icmp_time_exceeded E p t s = icmp_send_response E p ICMP_TE t s"

text \<open>
  The request as it is answered: the packet itself, or a copy when there is no room for the headers in front of
  it. The result are the pbuf and the offset of the IP header in it, \<open>None\<close> without memory.
\<close>

definition echo_room ::
  "memlib \<Rightarrow> nat \<Rightarrow> nat \<Rightarrow> nat \<Rightarrow> ('d, 'z) stack_scheme \<Rightarrow> ((nat \<times> nat) option \<times> ('d, 'z) stack_scheme) res option" where
  "echo_room L p iphdr hlen s =
     xbind (move_header p (20 + 14) s) (\<lambda>(fail, s).
     if fail
     then xbind (move_header p (int hlen) s) (\<lambda>(fail, s).
          if fail then None
          else
            xbind (get_pbuf p s) (\<lambda>pb.
            xbind (pbuf_alloc L PBUF_LINK (pb_tot_len pb) PBUF_RAM (sk_heap s)) (\<lambda>(r, h).
            let s = s\<lparr>sk_heap := h\<rparr>
            in case r of
                 None \<Rightarrow> Some (Inr (None, s))
               | Some r \<Rightarrow>
                   xbind (get_pbuf r s) (\<lambda>rb.
                   if \<not> unat (pb_len rb) \<ge> hlen + 8 then None
                   else
                     xbind (pbuf_copy (Some r) (Some p) (sk_heap s)) (\<lambda>(err, h).
                     if err \<noteq> ERR_OK then None
                     else
                       xbind (move_header r (- int hlen) (s\<lparr>sk_heap := h\<rparr>)) (\<lambda>(fail, s).
                       if fail then None
                       else xbind (free_pbuf L p s) (\<lambda>s. Some (Inr (Some (r, pb_payload rb), s)))))))))
     else xbind (move_header p (- (20 + 14)) s) (\<lambda>(fail, s).
          if fail then None else Some (Inr (Some (p, iphdr), s))))"

definition echo_chksum :: "u16 \<Rightarrow> u16" where
  "echo_chksum c = (if c \<ge> lwip_htons (0xffff - 0x800) then c + (lwip_htons 0x800 + 1) else c + lwip_htons 0x800)"

text \<open>The reply is made in place; the addresses are those of the packet being processed.\<close>

definition echo_reply ::
  "('d, 'z) ipstack_scheme ipenv \<Rightarrow> nat \<Rightarrow> nat \<Rightarrow> nat \<Rightarrow> nat \<Rightarrow> ('d, 'z) ipstack_scheme \<Rightarrow> ('d, 'z) ipstack_scheme res option" where
  "echo_reply E p iphdr hlen inp s =
     xbind (put_mem p (iphdr + 12) (bytes32 (current_iphdr_dest s)) s) (\<lambda>s.
     xbind (put_mem p (iphdr + 16) (bytes32 (current_iphdr_src s)) s) (\<lambda>s.
     xbind (put_bytes p 0 [ICMP_ER] s) (\<lambda>s.
     xbind (get_u16 p 2 s) (\<lambda>c.
     xbind (put_bytes p 2 (bytes16 (echo_chksum c)) s) (\<lambda>s.
     xbind (put_mem p (iphdr + 8) [ICMP_TTL] s) (\<lambda>s.
     xbind (put_mem p (iphdr + 10) (bytes16 0) s) (\<lambda>s.
     xbind (get_mem p iphdr IP_HLEN s) (\<lambda>hdr.
     xbind (put_mem p (iphdr + 10) (bytes16 (inet_chksum hdr)) s) (\<lambda>s.
     xbind (move_header p (int hlen) s) (\<lambda>(fail, s).
     if fail then None
     else xbind (ip_output_if E p (Some (current_iphdr_dest s)) None ICMP_TTL 0 IP_PROTO_ICMP inp s) (\<lambda>(_, s). Some (Inr s))))))))))))"

definition icmp_input ::
  "('d, 'z) ipstack_scheme ipenv \<Rightarrow> nat \<Rightarrow> nat \<Rightarrow> ('d, 'z) ipstack_scheme \<Rightarrow> ('d, 'z) ipstack_scheme res option" where
  "icmp_input E p inp s =
     (let L = memlib_of E
      in xbind (get_pbuf p s) (\<lambda>pb.
         xbind (get_u8 p 0 s) (\<lambda>v_hl.
         let iphdr = pb_payload pb; hlen = unat (v_hl AND 0x0f) * 4
         in xbind (move_header p (- int hlen) s) (\<lambda>(fail, s).
            xbind (get_pbuf p s) (\<lambda>pb.
            if fail \<or> unat (pb_tot_len pb) < 2 * 2 then free_pbuf L p s
            else
              xbind (get_u8 p 0 s) (\<lambda>type.
              if type = ICMP_ECHO
              then if ip_addr_ismulticast (current_iphdr_dest s) then free_pbuf L p s
                   else if unat (pb_tot_len pb) < 8 then free_pbuf L p s
                   else
                     xbind (inet_chksum_pbuf (Some p) (sk_heap s)) (\<lambda>sum.
                     if sum \<noteq> 0 then free_pbuf L p s
                     else
                       xbind (echo_room L p iphdr hlen s) (\<lambda>(r, s).
                       case r of
                         None \<Rightarrow> free_pbuf L p s
                       | Some (p, iphdr) \<Rightarrow> xbind (echo_reply E p iphdr hlen inp s) (free_pbuf L p)))
              else free_pbuf L p s))))))"

end
