(* ===== verification/Udp.thy ===== *)
theory Udp
  imports Icmp
begin

text \<open>
  Datagrams (\<^verbatim>\<open>src/lwip/src/core/udp.c\<close>). A pointer to an address that may be null is an option; the local port 0 stands for a block
  that is not bound.
\<close>

definition UDP_HLEN :: nat where "UDP_HLEN = 8"
definition UDP_FLAGS_NOCHKSUM :: u8 where "UDP_FLAGS_NOCHKSUM = 1"
definition UDP_FLAGS_CONNECTED :: u8 where "UDP_FLAGS_CONNECTED = 4"
definition UDP_TTL :: u8 where "UDP_TTL = IP_DEFAULT_TTL"
definition UDP_LOCAL_PORT_RANGE_START :: u16 where "UDP_LOCAL_PORT_RANGE_START = 0xc000"
definition UDP_LOCAL_PORT_RANGE_END :: u16 where "UDP_LOCAL_PORT_RANGE_END = 0xffff"

lemmas udp_consts = UDP_HLEN_def UDP_FLAGS_NOCHKSUM_def UDP_FLAGS_CONNECTED_def UDP_TTL_def UDP_LOCAL_PORT_RANGE_START_def UDP_LOCAL_PORT_RANGE_END_def

definition ip_addr_isany :: "u32 option \<Rightarrow> bool" where
  "ip_addr_isany a \<longleftrightarrow> a = None \<or> a = Some IPADDR_ANY"

definition get_pcb :: "nat \<Rightarrow> ('d, 'z) ipstack_scheme \<Rightarrow> udp_pcb res option" where
  "get_pcb pcb s = Some (case fmlookup (udp_mem s) pcb of None \<Rightarrow> Inl OutOfBounds | Some u \<Rightarrow> Inr u)"

definition set_pcb :: "nat \<Rightarrow> udp_pcb \<Rightarrow> ('d, 'z) ipstack_scheme \<Rightarrow> ('d, 'z) ipstack_scheme" where
  "set_pcb pcb u s = s\<lparr>udp_mem := fmupd pcb u (udp_mem s)\<rparr>"

section \<open>Ports\<close>

definition next_port :: "u16 \<Rightarrow> u16" where
  "next_port port = (if port = UDP_LOCAL_PORT_RANGE_END then UDP_LOCAL_PORT_RANGE_START else port + 1)"

text \<open>\<open>n\<close> is the number of conflicts so far; the results are the new port, or 0, and the value of \<open>udp_port\<close>.\<close>

function new_port_loop :: "u16 list \<Rightarrow> nat \<Rightarrow> u16 \<Rightarrow> u16 \<times> u16" where
  "new_port_loop used n port =
     (let port = next_port port
      in if port \<in> set used
         then if n + 1 > unat (UDP_LOCAL_PORT_RANGE_END - UDP_LOCAL_PORT_RANGE_START) then (0, port) else new_port_loop used (n + 1) port
         else (port, port))"
  by pat_completeness auto
termination
  by (relation "measure (\<lambda>(used, n, port). 0x4000 - n)") (auto simp: udp_consts)

declare new_port_loop.simps [simp del]

definition ports_of :: "('d, 'z) ipstack_scheme \<Rightarrow> u16 list res" where
  "ports_of s = rfold (\<lambda>pcb ps. case fmlookup (udp_mem s) pcb of None \<Rightarrow> Inl OutOfBounds | Some u \<Rightarrow> Inr (ps @ [up_local_port u])) (udp_pcbs s) []"

definition udp_new_port :: "('d, 'z) ipstack_scheme \<Rightarrow> (u16 \<times> ('d, 'z) ipstack_scheme) res option" where
  "udp_new_port s =
     xbind (Some (ports_of s)) (\<lambda>used. let (port, udp_port') = new_port_loop used 0 (udp_port s) in Some (Inr (port, s\<lparr>udp_port := udp_port'\<rparr>)))"

section \<open>Control blocks\<close>

text \<open>
  The loop of \<open>udp_bind\<close> over the active blocks: \<open>Some rebind\<close> when there is no conflict. A block that is found twice does not
  return.
\<close>

fun bind_scan :: "(nat, udp_pcb) fmap \<Rightarrow> nat \<Rightarrow> u32 option \<Rightarrow> u16 \<Rightarrow> bool \<Rightarrow> nat list \<Rightarrow> bool option res option" where
  "bind_scan m pcb ipaddr port rebind [] = Some (Inr (Some rebind))"
| "bind_scan m pcb ipaddr port rebind (ipcb # is) =
     (if pcb = ipcb then if rebind then None else bind_scan m pcb ipaddr port True is
      else (case fmlookup m ipcb of
              None \<Rightarrow> Some (Inl OutOfBounds)
            | Some u \<Rightarrow>
                if up_local_port u = port \<and> (up_local_ip u = IPADDR_ANY \<or> ip_addr_isany ipaddr \<or> Some (up_local_ip u) = ipaddr)
                then Some (Inr None) else bind_scan m pcb ipaddr port rebind is))"

definition udp_bind ::
  "nat \<Rightarrow> u32 option \<Rightarrow> u16 \<Rightarrow> ('d, 'z) ipstack_scheme \<Rightarrow> (err_t \<times> ('d, 'z) ipstack_scheme) res option" where
  "udp_bind pcb ipaddr port s =
     xbind (bind_scan (udp_mem s) pcb ipaddr port False (udp_pcbs s)) (\<lambda>r.
     case r of
       None \<Rightarrow> Some (Inr (ERR_USE, s))
     | Some rebind \<Rightarrow>
         xbind (get_pcb pcb s) (\<lambda>u.
         let s = set_pcb pcb (u\<lparr>up_local_ip := ip_addr_set ipaddr\<rparr>) s
         in xbind (if port = 0 then udp_new_port s else Some (Inr (port, s))) (\<lambda>(port, s).
            if port = 0 then Some (Inr (ERR_USE, s))
            else xbind (get_pcb pcb s) (\<lambda>u.
                 let s = set_pcb pcb (u\<lparr>up_local_port := port\<rparr>) s
                 in Some (Inr (ERR_OK, if \<not> rebind then s\<lparr>udp_pcbs := pcb # udp_pcbs s\<rparr> else s))))))"

definition bind_if_needed :: "nat \<Rightarrow> ('d, 'z) ipstack_scheme \<Rightarrow> (err_t \<times> ('d, 'z) ipstack_scheme) res option" where
  "bind_if_needed pcb s =
     xbind (get_pcb pcb s) (\<lambda>u.
     if up_local_port u = 0 then udp_bind pcb (Some (up_local_ip u)) (up_local_port u) s else Some (Inr (ERR_OK, s)))"

definition udp_connect ::
  "nat \<Rightarrow> u32 option \<Rightarrow> u16 \<Rightarrow> ('d, 'z) ipstack_scheme \<Rightarrow> (err_t \<times> ('d, 'z) ipstack_scheme) res option" where
  "udp_connect pcb ipaddr port s =
     xbind (bind_if_needed pcb s) (\<lambda>(err, s).
     if err \<noteq> ERR_OK then Some (Inr (err, s))
     else xbind (get_pcb pcb s) (\<lambda>u.
          let s = set_pcb pcb (u\<lparr>up_remote_ip := ip_addr_set ipaddr, up_remote_port := port, up_flags := up_flags u OR UDP_FLAGS_CONNECTED\<rparr>) s
          in Some (Inr (ERR_OK, if pcb \<in> set (udp_pcbs s) then s else s\<lparr>udp_pcbs := pcb # udp_pcbs s\<rparr>))))"

definition udp_disconnect :: "nat \<Rightarrow> ('d, 'z) ipstack_scheme \<Rightarrow> ('d, 'z) ipstack_scheme res option" where
  "udp_disconnect pcb s =
     xbind (get_pcb pcb s) (\<lambda>u.
     Some (Inr (set_pcb pcb (u\<lparr>up_remote_ip := IPADDR_ANY, up_remote_port := 0, up_flags := up_flags u AND NOT UDP_FLAGS_CONNECTED\<rparr>) s)))"

definition udp_recv :: "nat \<Rightarrow> bool \<Rightarrow> ('d, 'z) ipstack_scheme \<Rightarrow> ('d, 'z) ipstack_scheme res option" where
  "udp_recv pcb recv s = xbind (get_pcb pcb s) (\<lambda>u. Some (Inr (set_pcb pcb (u\<lparr>up_recv := recv\<rparr>) s)))"

definition udp_remove :: "nat \<Rightarrow> ('d, 'z) ipstack_scheme \<Rightarrow> ('d, 'z) ipstack_scheme" where
  "udp_remove pcb s = s\<lparr>udp_pcbs := remove1 pcb (udp_pcbs s), udp_mem := fmdrop pcb (udp_mem s)\<rparr>"

definition udp_new :: "('d, 'z) ipstack_scheme ipenv \<Rightarrow> ('d, 'z) ipstack_scheme \<Rightarrow> nat option \<times> ('d, 'z) ipstack_scheme" where
  "udp_new E s =
     (case memp_malloc E (fmdom' (udp_mem s)) of
        None \<Rightarrow> (None, s)
      | Some pcb \<Rightarrow>
          (Some pcb, set_pcb pcb \<lparr>up_local_ip = 0, up_remote_ip = 0, up_so_options = 0, up_tos = 0, up_ttl = UDP_TTL, up_flags = 0,
             up_local_port = 0, up_remote_port = 0, up_recv = False\<rparr> s))"

section \<open>Output\<close>

text \<open>The pbuf for the header: \<open>p\<close> itself when it has room, otherwise a new one in front of it; \<open>None\<close> without memory.\<close>

definition udp_header_pbuf ::
  "('d, 'z) ipstack_scheme ipenv \<Rightarrow> nat \<Rightarrow> ('d, 'z) ipstack_scheme \<Rightarrow> (nat option \<times> ('d, 'z) ipstack_scheme) res option" where
  "udp_header_pbuf E p s =
     xbind (move_header p (int UDP_HLEN) s) (\<lambda>(fail, s).
     if fail
     then xbind (pbuf_alloc (memlib_of E) PBUF_IP (of_nat UDP_HLEN) PBUF_RAM (sk_heap s)) (\<lambda>(r, h).
          let s = s\<lparr>sk_heap := h\<rparr>
          in case r of
               None \<Rightarrow> Some (Inr (None, s))
             | Some q \<Rightarrow>
                 xbind (get_pbuf p s) (\<lambda>pb.
                 if pb_tot_len pb \<noteq> 0 then xbind (pbuf_chain (Some q) (Some p) (sk_heap s)) (\<lambda>h. Some (Inr (Some q, s\<lparr>sk_heap := h\<rparr>)))
                 else Some (Inr (Some q, s))))
     else Some (Inr (Some p, s)))"

text \<open>The checksum of the datagram; with \<open>chksum\<close> that of the data is known. The sum 0 is sent as \<open>0xffff\<close>.\<close>

definition udp_chksum :: "nat \<Rightarrow> u32 \<Rightarrow> u32 \<Rightarrow> u16 \<Rightarrow> u16 option \<Rightarrow> heap \<Rightarrow> u16 res option" where
  "udp_chksum q src dst tot_len chksum h =
     xbind (case chksum of
              Some c \<Rightarrow>
                xbind (inet_chksum_pseudo_partial (Some q) src dst IP_PROTO_UDP tot_len (of_nat UDP_HLEN) h) (\<lambda>sum.
                Some (Inr (ucast (FOLD_U32T (ucast sum + ucast (NOT c))))))
            | None \<Rightarrow> inet_chksum_pseudo (Some q) src dst IP_PROTO_UDP tot_len h) (\<lambda>sum.
     Some (Inr (if sum = 0 then 0xffff else sum)))"

text \<open>
  The datagram \<open>q\<close> gets its header and is sent; \<open>pcb\<close> is bound. The local address of the block must be that of the interface.
\<close>

definition free_header :: "memlib \<Rightarrow> nat \<Rightarrow> nat \<Rightarrow> ('d, 'z) stack_scheme \<Rightarrow> ('d, 'z) stack_scheme res option" where
  "free_header L q p s = (if q \<noteq> p then free_pbuf L q s else Some (Inr s))"

definition udp_datagram ::
  "('d, 'z) ipstack_scheme ipenv \<Rightarrow> udp_pcb \<Rightarrow> nat \<Rightarrow> nat \<Rightarrow> u32 \<Rightarrow> u16 \<Rightarrow> nat \<Rightarrow> u16 option \<Rightarrow> ('d, 'z) ipstack_scheme \<Rightarrow>
   (err_t \<times> ('d, 'z) ipstack_scheme) res option" where
  "udp_datagram E u q p dst_ip dst_port n chksum s =
     xbind (get_pbuf q s) (\<lambda>qb.
     if \<not> UDP_HLEN \<le> unat (pb_len qb) then None
     else
       xbind (put_bytes q 0 (bytes16 (lwip_htons (up_local_port u))) s) (\<lambda>s.
       xbind (put_bytes q 2 (bytes16 (lwip_htons dst_port)) s) (\<lambda>s.
       xbind (put_bytes q 6 (bytes16 0) s) (\<lambda>s.
       let x = sk_netif s n
       in if up_local_ip u \<noteq> IPADDR_ANY \<and> up_local_ip u \<noteq> ni_ip_addr x
          then xbind (free_header (memlib_of E) q p s) (\<lambda>s. Some (Inr (ERR_VAL, s)))
          else
            let src_ip = (if up_local_ip u = IPADDR_ANY then ni_ip_addr x else up_local_ip u)
            in xbind (put_bytes q 4 (bytes16 (lwip_htons (pb_tot_len qb))) s) (\<lambda>s.
               xbind (if up_flags u AND UDP_FLAGS_NOCHKSUM = 0
                      then xbind (udp_chksum q src_ip dst_ip (pb_tot_len qb) chksum (sk_heap s)) (\<lambda>sum. put_bytes q 6 (bytes16 sum) s)
                      else Some (Inr s)) (\<lambda>s.
               xbind (ip_output_if E q (Some src_ip) (Some dst_ip) (up_ttl u) (up_tos u) IP_PROTO_UDP n s) (\<lambda>(err, s).
               xbind (free_header (memlib_of E) q p s) (\<lambda>s. Some (Inr (err, s))))))))))"

text \<open>\<open>chksum\<close> is \<open>Some c\<close> for \<open>have_chksum = 1\<close>.\<close>

definition udp_sendto_if_chksum ::
  "('d, 'z) ipstack_scheme ipenv \<Rightarrow> nat \<Rightarrow> nat \<Rightarrow> u32 \<Rightarrow> u16 \<Rightarrow> nat \<Rightarrow> u16 option \<Rightarrow> ('d, 'z) ipstack_scheme \<Rightarrow>
   (err_t \<times> ('d, 'z) ipstack_scheme) res option" where
  "udp_sendto_if_chksum E pcb p dst_ip dst_port n chksum s =
     xbind (get_pcb pcb s) (\<lambda>u.
     if up_so_options u AND SOF_BROADCAST = 0 \<and> ip_addr_isbroadcast dst_ip (sk_netif s n) then Some (Inr (ERR_VAL, s))
     else
       xbind (bind_if_needed pcb s) (\<lambda>(err, s).
       if err \<noteq> ERR_OK then Some (Inr (err, s))
       else
         xbind (udp_header_pbuf E p s) (\<lambda>(r, s).
         case r of
           None \<Rightarrow> Some (Inr (ERR_MEM, s))
         | Some q \<Rightarrow> xbind (get_pcb pcb s) (\<lambda>u. udp_datagram E u q p dst_ip dst_port n chksum s))))"

definition udp_sendto_if ::
  "('d, 'z) ipstack_scheme ipenv \<Rightarrow> nat \<Rightarrow> nat \<Rightarrow> u32 \<Rightarrow> u16 \<Rightarrow> nat \<Rightarrow> ('d, 'z) ipstack_scheme \<Rightarrow> (err_t \<times> ('d, 'z) ipstack_scheme) res option" where
  "udp_sendto_if E pcb p dst_ip dst_port n s = udp_sendto_if_chksum E pcb p dst_ip dst_port n None s"

definition udp_sendto_chksum ::
  "('d, 'z) ipstack_scheme ipenv \<Rightarrow> nat \<Rightarrow> nat \<Rightarrow> u32 \<Rightarrow> u16 \<Rightarrow> u16 option \<Rightarrow> ('d, 'z) ipstack_scheme \<Rightarrow> (err_t \<times> ('d, 'z) ipstack_scheme) res option" where
  "udp_sendto_chksum E pcb p dst_ip dst_port chksum s =
     (case ip_route dst_ip s of
        None \<Rightarrow> Some (Inr (ERR_RTE, s))
      | Some n \<Rightarrow> udp_sendto_if_chksum E pcb p dst_ip dst_port n chksum s)"

definition udp_sendto ::
  "('d, 'z) ipstack_scheme ipenv \<Rightarrow> nat \<Rightarrow> nat \<Rightarrow> u32 \<Rightarrow> u16 \<Rightarrow> ('d, 'z) ipstack_scheme \<Rightarrow> (err_t \<times> ('d, 'z) ipstack_scheme) res option" where
  "udp_sendto E pcb p dst_ip dst_port s = udp_sendto_chksum E pcb p dst_ip dst_port None s"

definition udp_send_chksum ::
  "('d, 'z) ipstack_scheme ipenv \<Rightarrow> nat \<Rightarrow> nat \<Rightarrow> u16 option \<Rightarrow> ('d, 'z) ipstack_scheme \<Rightarrow> (err_t \<times> ('d, 'z) ipstack_scheme) res option" where
  "udp_send_chksum E pcb p chksum s =
     xbind (get_pcb pcb s) (\<lambda>u. udp_sendto_chksum E pcb p (up_remote_ip u) (up_remote_port u) chksum s)"

definition udp_send ::
  "('d, 'z) ipstack_scheme ipenv \<Rightarrow> nat \<Rightarrow> nat \<Rightarrow> ('d, 'z) ipstack_scheme \<Rightarrow> (err_t \<times> ('d, 'z) ipstack_scheme) res option" where
  "udp_send E pcb p s = xbind (get_pcb pcb s) (\<lambda>u. udp_sendto E pcb p (up_remote_ip u) (up_remote_port u) s)"

section \<open>Input\<close>

definition udp_local_match :: "u32 \<Rightarrow> u16 \<Rightarrow> bool \<Rightarrow> u32 \<Rightarrow> udp_pcb \<Rightarrow> bool" where
  "udp_local_match dest_ip dest broadcast netmask u \<longleftrightarrow>
     up_local_port u = dest \<and>
     ((\<not> broadcast \<and> up_local_ip u = IPADDR_ANY) \<or> up_local_ip u = dest_ip \<or>
      (broadcast \<and> up_so_options u AND SOF_BROADCAST \<noteq> 0 \<and> (up_local_ip u = IPADDR_ANY \<or> ip_addr_netcmp (up_local_ip u) dest_ip netmask)))"

definition udp_remote_match :: "u32 \<Rightarrow> u16 \<Rightarrow> udp_pcb \<Rightarrow> bool" where
  "udp_remote_match src_ip src u \<longleftrightarrow> up_remote_port u = src \<and> (up_remote_ip u = IPADDR_ANY \<or> up_remote_ip u = src_ip)"

text \<open>The search for the block: a full match, which moves to the front, or else the first one that is not connected.\<close>

fun udp_find ::
  "(udp_pcb \<Rightarrow> bool) \<Rightarrow> (udp_pcb \<Rightarrow> bool) \<Rightarrow> (nat, udp_pcb) fmap \<Rightarrow> nat list \<Rightarrow> nat option \<Rightarrow> nat list \<Rightarrow> (nat option \<times> nat list) res" where
  "udp_find lm rm m all uncon [] = Inr (uncon, all)"
| "udp_find lm rm m all uncon (pcb # ps) =
     (case fmlookup m pcb of
        None \<Rightarrow> Inl OutOfBounds
      | Some u \<Rightarrow>
          let uncon = (if lm u \<and> uncon = None \<and> up_flags u AND UDP_FLAGS_CONNECTED = 0 then Some pcb else uncon)
          in if lm u \<and> rm u then Inr (Some pcb, pcb # remove1 pcb all) else udp_find lm rm m all uncon ps)"

text \<open>A datagram that has been checked: it goes to the block, or its sender is told that there is none.\<close>

definition udp_deliver ::
  "('d, 'z) ipstack_scheme ipenv \<Rightarrow> nat \<Rightarrow> nat \<Rightarrow> nat option \<Rightarrow> u16 \<Rightarrow> bool \<Rightarrow> ('d, 'z) ipstack_scheme \<Rightarrow> ('d, 'z) ipstack_scheme res option" where
  "udp_deliver E p hlen pcb src broadcast s =
     xbind (move_header p (- int UDP_HLEN) s) (\<lambda>(fail, s).
     if fail then None
     else
       (case pcb of
          Some pcb \<Rightarrow>
            xbind (get_pcb pcb s) (\<lambda>u.
            if up_recv u then udp_recv_fn E pcb p (current_iphdr_src s) src s else free_pbuf (memlib_of E) p s)
        | None \<Rightarrow>
            xbind (if \<not> broadcast \<and> \<not> ip_addr_ismulticast (current_iphdr_dest s)
                   then xbind (move_header p (int (hlen + UDP_HLEN)) s) (\<lambda>(fail, s). if fail then None else icmp_dest_unreach E p ICMP_DUR_PORT s)
                   else Some (Inr s)) (free_pbuf (memlib_of E) p)))"

definition udp_input ::
  "('d, 'z) ipstack_scheme ipenv \<Rightarrow> nat \<Rightarrow> nat \<Rightarrow> ('d, 'z) ipstack_scheme \<Rightarrow> ('d, 'z) ipstack_scheme res option" where
  "udp_input E p inp s =
     (let L = memlib_of E
      in xbind (get_pbuf p s) (\<lambda>pb.
         xbind (get_u8 p 0 s) (\<lambda>v_hl.
         let hlen = unat (v_hl AND 0x0f) * 4
         in if unat (pb_tot_len pb) < hlen + UDP_HLEN then free_pbuf L p s
            else
              xbind (move_header p (- int hlen) s) (\<lambda>(fail, s).
              if fail then free_pbuf L p s
              else
                xbind (get_u16 p 0 s) (\<lambda>src.
                xbind (get_u16 p 2 s) (\<lambda>dest.
                let broadcast = ip_addr_isbroadcast (current_iphdr_dest s) (sk_netif s inp);
                    src = lwip_ntohs src;
                    dest = lwip_ntohs dest
                in xbind (Some (udp_find (udp_local_match (current_iphdr_dest s) dest broadcast (ni_netmask (sk_netif s inp)))
                            (udp_remote_match (current_iphdr_src s) src) (udp_mem s) (udp_pcbs s) None (udp_pcbs s))) (\<lambda>(pcb, pcbs).
                   let s = s\<lparr>udp_pcbs := pcbs\<rparr>
                   in if pcb \<noteq> None \<or> ni_ip_addr (sk_netif s inp) = current_iphdr_dest s
                      then
                        xbind (get_u16 p 6 s) (\<lambda>chksum.
                        xbind (get_pbuf p s) (\<lambda>pb.
                        xbind (if chksum \<noteq> 0
                               then inet_chksum_pseudo (Some p) (current_iphdr_src s) (current_iphdr_dest s) IP_PROTO_UDP (pb_tot_len pb) (sk_heap s)
                               else Some (Inr 0)) (\<lambda>sum.
                        if sum \<noteq> 0 then free_pbuf L p s else udp_deliver E p hlen pcb src broadcast s)))
                      else free_pbuf L p s)))))))"

end
