(* ===== verification/IpInput.thy ===== *)
theory IpInput
  imports Udp
begin

text \<open>
  Raw control blocks (\<^verbatim>\<open>src/lwip/src/core/raw.c\<close>) and the input side of the Internet layer (\<^verbatim>\<open>ip_input\<close> of \<^verbatim>\<open>src/lwip/src/core/ipv4/ip.c\<close>).
\<close>

section \<open>Raw control blocks\<close>

definition RAW_TTL :: u8 where "RAW_TTL = IP_DEFAULT_TTL"

definition get_raw :: "nat \<Rightarrow> ('d, 'z) ipstack_scheme \<Rightarrow> raw_pcb res option" where
  "get_raw pcb s = Some (case fmlookup (raw_mem s) pcb of None \<Rightarrow> Inl OutOfBounds | Some u \<Rightarrow> Inr u)"

definition set_raw :: "nat \<Rightarrow> raw_pcb \<Rightarrow> ('d, 'z) ipstack_scheme \<Rightarrow> ('d, 'z) ipstack_scheme" where
  "set_raw pcb u s = s\<lparr>raw_mem := fmupd pcb u (raw_mem s)\<rparr>"

fun next_in :: "nat \<Rightarrow> nat list \<Rightarrow> nat option" where
  "next_in a [] = None"
| "next_in a (x # xs) = (if x = a then (case xs of [] \<Rightarrow> None | y # _ \<Rightarrow> Some y) else next_in a xs)"

definition raw_match :: "u8 \<Rightarrow> nat \<Rightarrow> raw_pcb \<Rightarrow> ('d, 'z) ipstack_scheme \<Rightarrow> bool" where
  "raw_match proto inp u s \<longleftrightarrow>
     rp_protocol u = proto \<and> (rp_local_ip u = IPADDR_ANY \<or> rp_local_ip u = current_iphdr_dest s) \<and>
     (rp_so_options u AND SOF_BROADCAST \<noteq> 0 \<or> \<not> ip_addr_isbroadcast (current_iphdr_dest s) (sk_netif s inp)) \<and> rp_recv u"

text \<open>The loop over the blocks; the callback may change the list.\<close>

partial_function (option) raw_input_loop ::
  "('d, 'z) ipstack_scheme ipenv \<Rightarrow> u8 \<Rightarrow> nat \<Rightarrow> nat \<Rightarrow> nat option \<Rightarrow> ('d, 'z) ipstack_scheme \<Rightarrow> (bool \<times> ('d, 'z) ipstack_scheme) res option" where
  "raw_input_loop E proto p inp pcb s =
     (case pcb of
        None \<Rightarrow> Some (Inr (False, s))
      | Some a \<Rightarrow>
          (case fmlookup (raw_mem s) a of
             None \<Rightarrow> Some (Inl OutOfBounds)
           | Some u \<Rightarrow>
               if raw_match proto inp u s
               then (case raw_recv_fn E a p (current_iphdr_src s) s of
                       None \<Rightarrow> None
                     | Some (Inl e) \<Rightarrow> Some (Inl e)
                     | Some (Inr (eaten, s)) \<Rightarrow>
                         if eaten then Some (Inr (True, s\<lparr>raw_pcbs := a # remove1 a (raw_pcbs s)\<rparr>))
                         else raw_input_loop E proto p inp (next_in a (raw_pcbs s)) s)
               else raw_input_loop E proto p inp (next_in a (raw_pcbs s)) s))"

definition raw_input ::
  "('d, 'z) ipstack_scheme ipenv \<Rightarrow> nat \<Rightarrow> nat \<Rightarrow> ('d, 'z) ipstack_scheme \<Rightarrow> (bool \<times> ('d, 'z) ipstack_scheme) res option" where
  "raw_input E p inp s =
     xbind (get_u8 p 9 s) (\<lambda>proto. raw_input_loop E proto p inp (case raw_pcbs s of [] \<Rightarrow> None | a # _ \<Rightarrow> Some a) s)"

definition raw_bind :: "nat \<Rightarrow> u32 option \<Rightarrow> ('d, 'z) ipstack_scheme \<Rightarrow> (err_t \<times> ('d, 'z) ipstack_scheme) res option" where
  "raw_bind pcb ipaddr s = xbind (get_raw pcb s) (\<lambda>u. Some (Inr (ERR_OK, set_raw pcb (u\<lparr>rp_local_ip := ip_addr_set ipaddr\<rparr>) s)))"

definition raw_connect :: "nat \<Rightarrow> u32 option \<Rightarrow> ('d, 'z) ipstack_scheme \<Rightarrow> (err_t \<times> ('d, 'z) ipstack_scheme) res option" where
  "raw_connect pcb ipaddr s = xbind (get_raw pcb s) (\<lambda>u. Some (Inr (ERR_OK, set_raw pcb (u\<lparr>rp_remote_ip := ip_addr_set ipaddr\<rparr>) s)))"

definition raw_recv :: "nat \<Rightarrow> bool \<Rightarrow> ('d, 'z) ipstack_scheme \<Rightarrow> ('d, 'z) ipstack_scheme res option" where
  "raw_recv pcb recv s = xbind (get_raw pcb s) (\<lambda>u. Some (Inr (set_raw pcb (u\<lparr>rp_recv := recv\<rparr>) s)))"

definition raw_header_pbuf ::
  "('d, 'z) ipstack_scheme ipenv \<Rightarrow> nat \<Rightarrow> ('d, 'z) ipstack_scheme \<Rightarrow> (nat option \<times> ('d, 'z) ipstack_scheme) res option" where
  "raw_header_pbuf E p s =
     xbind (move_header p (int IP_HLEN) s) (\<lambda>(fail, s).
     if fail
     then xbind (pbuf_alloc (memlib_of E) PBUF_IP 0 PBUF_RAM (sk_heap s)) (\<lambda>(r, h).
          let s = s\<lparr>sk_heap := h\<rparr>
          in case r of
               None \<Rightarrow> Some (Inr (None, s))
             | Some q \<Rightarrow>
                 xbind (get_pbuf p s) (\<lambda>pb.
                 if pb_tot_len pb \<noteq> 0 then xbind (pbuf_chain (Some q) (Some p) (sk_heap s)) (\<lambda>h. Some (Inr (Some q, s\<lparr>sk_heap := h\<rparr>)))
                 else Some (Inr (Some q, s))))
     else xbind (move_header p (- int IP_HLEN) s) (\<lambda>(fail, s). if fail then None else Some (Inr (Some p, s))))"

definition raw_sendto ::
  "('d, 'z) ipstack_scheme ipenv \<Rightarrow> nat \<Rightarrow> nat \<Rightarrow> u32 \<Rightarrow> ('d, 'z) ipstack_scheme \<Rightarrow> (err_t \<times> ('d, 'z) ipstack_scheme) res option" where
  "raw_sendto E pcb p ipaddr s =
     xbind (raw_header_pbuf E p s) (\<lambda>(r, s).
     case r of
       None \<Rightarrow> Some (Inr (ERR_MEM, s))
     | Some q \<Rightarrow>
         (case ip_route ipaddr s of
            None \<Rightarrow> xbind (free_header (memlib_of E) q p s) (\<lambda>s. Some (Inr (ERR_RTE, s)))
          | Some n \<Rightarrow>
              xbind (get_raw pcb s) (\<lambda>u.
              let x = sk_netif s n
              in if rp_so_options u AND SOF_BROADCAST = 0 \<and> ip_addr_isbroadcast ipaddr x
                 then xbind (free_header (memlib_of E) q p s) (\<lambda>s. Some (Inr (ERR_VAL, s)))
                 else
                   xbind (ip_output_if E q (Some (if rp_local_ip u = IPADDR_ANY then ni_ip_addr x else rp_local_ip u)) (Some ipaddr)
                            (rp_ttl u) (rp_tos u) (rp_protocol u) n s) (\<lambda>(err, s).
                   xbind (free_header (memlib_of E) q p s) (\<lambda>s. Some (Inr (err, s)))))))"

definition raw_send ::
  "('d, 'z) ipstack_scheme ipenv \<Rightarrow> nat \<Rightarrow> nat \<Rightarrow> ('d, 'z) ipstack_scheme \<Rightarrow> (err_t \<times> ('d, 'z) ipstack_scheme) res option" where
  "raw_send E pcb p s = xbind (get_raw pcb s) (\<lambda>u. raw_sendto E pcb p (rp_remote_ip u) s)"

definition raw_remove :: "nat \<Rightarrow> ('d, 'z) ipstack_scheme \<Rightarrow> ('d, 'z) ipstack_scheme" where
  "raw_remove pcb s = s\<lparr>raw_pcbs := remove1 pcb (raw_pcbs s), raw_mem := fmdrop pcb (raw_mem s)\<rparr>"

definition raw_new :: "('d, 'z) ipstack_scheme ipenv \<Rightarrow> u8 \<Rightarrow> ('d, 'z) ipstack_scheme \<Rightarrow> nat option \<times> ('d, 'z) ipstack_scheme" where
  "raw_new E proto s =
     (case memp_malloc E (fmdom' (raw_mem s)) of
        None \<Rightarrow> (None, s)
      | Some pcb \<Rightarrow>
          (Some pcb, set_raw pcb \<lparr>rp_local_ip = 0, rp_remote_ip = 0, rp_so_options = 0, rp_tos = 0, rp_ttl = RAW_TTL, rp_protocol = proto, rp_recv = False\<rparr>
             (s\<lparr>raw_pcbs := pcb # raw_pcbs s\<rparr>)))"

section \<open>Input\<close>

text \<open>The interface that accepts the packet: the one it came from, or the first of the list with the address.\<close>

definition ip_accepts :: "u32 \<Rightarrow> netif_t \<Rightarrow> bool" where
  "ip_accepts dest x \<longleftrightarrow> netif_is_up x \<and> ni_ip_addr x \<noteq> IPADDR_ANY \<and> (dest = ni_ip_addr x \<or> ip_addr_isbroadcast dest x)"

definition ip_accept :: "u32 \<Rightarrow> nat \<Rightarrow> ('d, 'z) stack_scheme \<Rightarrow> nat option" where
  "ip_accept dest inp s = find (\<lambda>n. ip_accepts dest (sk_netif s n)) (inp # remove1 inp (netif_list s))"

text \<open>The packet goes to the layer above; afterwards there is no current packet.\<close>

definition ip_protocol ::
  "('d, 'z) ipstack_scheme ipenv \<Rightarrow> nat \<Rightarrow> nat \<Rightarrow> ('d, 'z) ipstack_scheme \<Rightarrow> ('d, 'z) ipstack_scheme res option" where
  "ip_protocol E p inp s =
     xbind (get_pbuf p s) (\<lambda>pb.
     let iphdr = pb_payload pb; s = s\<lparr>current_netif := Some inp, current_header := Some (p, iphdr)\<rparr>
     in xbind (raw_input E p inp s) (\<lambda>(eaten, s).
        xbind (if eaten then Some (Inr s)
               else
                 xbind (get_mem p (iphdr + 9) 1 s) (\<lambda>b.
                 let proto = b ! 0
                 in if proto = IP_PROTO_UDP then udp_input E p inp s
                    else if proto = IP_PROTO_ICMP then icmp_input E p inp s
                    else
                      xbind (if \<not> ip_addr_isbroadcast (current_iphdr_dest s) (sk_netif s inp) \<and> \<not> ip_addr_ismulticast (current_iphdr_dest s)
                             then xbind (get_pbuf p s) (\<lambda>pb.
                                  icmp_dest_unreach E p ICMP_DUR_PROTO (s\<lparr>sk_heap := fmupd p (pb\<lparr>pb_payload := iphdr\<rparr>) (sk_heap s)\<rparr>))
                             else Some (Inr s)) (free_pbuf (memlib_of E) p))) (\<lambda>s.
        Some (Inr (s\<lparr>current_netif := None, current_header := None, current_iphdr_src := 0, current_iphdr_dest := 0\<rparr>)))))"

text \<open>The second part of \<open>ip_input\<close>, for a packet whose header is right and whose addresses have been copied.\<close>

definition ip_for_us ::
  "('d, 'z) ipstack_scheme ipenv \<Rightarrow> nat \<Rightarrow> nat \<Rightarrow> ('d, 'z) ipstack_scheme \<Rightarrow> ('d, 'z) ipstack_scheme res option" where
  "ip_for_us E p inp s =
     (let netif = ip_accept (current_iphdr_dest s) inp s; src = current_iphdr_src s
      in if ip_addr_isbroadcast src (sk_netif s inp) \<or> ip_addr_ismulticast src \<or> netif = None then free_pbuf (memlib_of E) p s
         else
           xbind (get_u16 p 6 s) (\<lambda>offset.
           if offset AND lwip_htons (IP_OFFMASK OR IP_MF) \<noteq> 0
           then xbind (ip_reass E p s) (\<lambda>(r, s). case r of None \<Rightarrow> Some (Inr s) | Some p \<Rightarrow> ip_protocol E p inp s)
           else ip_protocol E p inp s))"

definition ip_input ::
  "('d, 'z) ipstack_scheme ipenv \<Rightarrow> nat \<Rightarrow> nat \<Rightarrow> ('d, 'z) ipstack_scheme \<Rightarrow> (err_t \<times> ('d, 'z) ipstack_scheme) res option" where
  "ip_input E p inp s =
     (let L = memlib_of E; drop_packet = xbind (free_pbuf L p s) (\<lambda>s. Some (Inr (ERR_OK, s)))
      in xbind (get_pbuf p s) (\<lambda>pb.
         xbind (get_u8 p 0 s) (\<lambda>v_hl.
         if drop_bit 4 v_hl \<noteq> 4 then drop_packet
         else
           xbind (get_u16 p 2 s) (\<lambda>len.
           let iphdr_hlen = unat (v_hl AND 0x0f) * 4; iphdr_len = lwip_ntohs len
           in if iphdr_hlen > unat (pb_len pb) \<or> iphdr_len > pb_tot_len pb then drop_packet
              else
                xbind (get_bytes p 0 iphdr_hlen s) (\<lambda>hdr.
                if inet_chksum hdr \<noteq> 0 then drop_packet
                else
                  xbind (pbuf_realloc L p iphdr_len (sk_heap s)) (\<lambda>h.
                  let s = s\<lparr>sk_heap := h\<rparr>
                  in xbind (get_u32 p 16 s) (\<lambda>dest.
                     xbind (get_u32 p 12 s) (\<lambda>src.
                     xbind (ip_for_us E p inp (s\<lparr>current_iphdr_dest := dest, current_iphdr_src := src\<rparr>)) (\<lambda>s.
                     Some (Inr (ERR_OK, s)))))))))))"

end
