(* ===== verification/IpWire.thy ===== *)
theory IpWire
  imports IpInput
begin

text \<open>
  The format of the packets that the stack sends, and its output path: a datagram of the application becomes a frame in the
  ring of the driver.
\<close>

section \<open>Formats\<close>

definition be16 :: "u16 \<Rightarrow> u8 list" where "be16 x = [ucast (drop_bit 8 x), ucast x]"

text \<open>The header of an IP packet with the data \<open>bs\<close>, before the checksum is filled in.\<close>

definition ip_fields :: "u32 \<Rightarrow> u32 \<Rightarrow> u8 \<Rightarrow> u8 \<Rightarrow> u8 \<Rightarrow> u16 \<Rightarrow> u16 \<Rightarrow> u8 list" where
  "ip_fields src dest ttl tos proto ident len = [0x45, tos] @ be16 len @ be16 ident @ [0, 0, ttl, proto, 0, 0] @ bytes32 src @ bytes32 dest"

definition ip_packet :: "u32 \<Rightarrow> u32 \<Rightarrow> u8 \<Rightarrow> u8 \<Rightarrow> u8 \<Rightarrow> u16 \<Rightarrow> u8 list \<Rightarrow> u8 list" where
  "ip_packet src dest ttl tos proto ident bs =
     (let hdr = ip_fields src dest ttl tos proto ident (of_nat (20 + length bs)) in put16 hdr 10 (inet_chksum hdr) @ bs)"

definition udp_fields :: "u16 \<Rightarrow> u16 \<Rightarrow> u8 list \<Rightarrow> u8 list" where
  "udp_fields sport dport bs = be16 sport @ be16 dport @ be16 (of_nat (8 + length bs)) @ [0, 0] @ bs"

definition udp_sum :: "u32 \<Rightarrow> u32 \<Rightarrow> u8 list \<Rightarrow> u16" where
  "udp_sum src dest bs =
     (let c = internet_checksum (pseudo_bytes src dest 17 (of_nat (length bs)) @ bs) in if c = 0 then 0xffff else c)"

definition udp_packet :: "u32 \<Rightarrow> u32 \<Rightarrow> u16 \<Rightarrow> u16 \<Rightarrow> u8 list \<Rightarrow> u8 list" where
  "udp_packet src dest sport dport bs = put16 (udp_fields sport dport bs) 6 (udp_sum src dest (udp_fields sport dport bs))"

lemma length_ip_fields [simp]: "length (ip_fields src dest ttl tos proto ident len) = 20"
  by (simp add: ip_fields_def be16_def bytes32_def)

lemma length_ip_packet [simp]: "length (ip_packet src dest ttl tos proto ident bs) = 20 + length bs"
  by (simp add: ip_packet_def Let_def)

lemma length_udp_packet [simp]: "length (udp_packet src dest sport dport bs) = 8 + length bs"
  by (simp add: udp_packet_def udp_fields_def be16_def)

section \<open>The checksum of the IP header\<close>

lemma unat_MAKE_U16: "unat (LWIP_MAKE_U16 a b) = 256 * unat a + unat b"
proof -
  have "LWIP_MAKE_U16 a b = ucast (push_bit 8 (ucast a) OR ucast b :: u16)"
    unfolding LWIP_MAKE_U16_def by (rule bit_word_eqI) (auto simp: bit_simps dest: bit_imp_le_length)
  then show ?thesis by (simp add: unat_ucast_u16_u32 unat_word_be)
qed

lemma fold_trunc: "(ucast (drop_bit 16 c + c) :: u16) = ucast (FOLD_U32T c)" if "unat c < 2 ^ 20" for c :: u32
proof -
  have u: "(ucast w :: u16) = of_nat (unat w)" for w :: u32 by (simp add: unsigned_ucast_eq)
  have d: "unat (drop_bit 16 c) = unat c div 65536" unfolding unat_drop_bit_eq by (simp add: drop_bit_eq_div)
  have s: "unat (drop_bit 16 c + c) = unat c div 65536 + unat c" using that d by (simp add: unat_word_ariths(1))
  have "unat c = unat c div 65536 * 65536 + unat c mod 65536" by simp
  then have "(of_nat (unat c) :: u16) = of_nat (unat c div 65536) * 65536 + of_nat (unat c mod 65536)" by (metis of_nat_add of_nat_mult of_nat_numeral)
  moreover have "(65536 :: u16) = 0" by simp
  ultimately show ?thesis unfolding u s unat_fold by simp
qed

lemma ip_chksum_inline_law:
  "ip_chksum_inline proto ttl dest tos 0x45 (lwip_htons len) (lwip_htons ident) src = inet_chksum (ip_fields src dest ttl tos proto ident len)"
proof -
  let ?f = "ip_fields src dest ttl tos proto ident len"
  have low: "drop_bit 16 w = drop_bit 16 w AND 0xffff" for w :: u32
  proof -
    have m: "(0xffff :: u32) = mask 16" by (simp add: mask_eq_exp_minus_1)
    show ?thesis unfolding m by (rule bit_word_eqI) (auto simp: bit_simps dest: bit_imp_le_length)
  qed
  have lt: "unat (x AND 0xffff) \<le> 65535" for x :: u32 unfolding unat_low16 by (simp add: less_Suc_eq_le [symmetric])
  have lt16: "unat (ucast (x :: u16) :: u32) \<le> 65535" for x using unat_lt_65536 [of x] unfolding unat_ucast_u16_u32 by linarith
  have mk: "unat (LWIP_MAKE_U16 a b) \<le> 65535" for a b using unat_lt_256 [of a] unat_lt_256 [of b] unfolding unat_MAKE_U16 by linarith
  let ?s = "LWIP_MAKE_U16 proto ttl + (dest AND 0xffff) + (drop_bit 16 dest AND 0xffff) + LWIP_MAKE_U16 tos 0x45 + ucast (lwip_htons len) + ucast (lwip_htons ident)
      + (src AND 0xffff) + (drop_bit 16 src AND 0xffff)"
  let ?n = "unat (LWIP_MAKE_U16 proto ttl) + unat (dest AND 0xffff) + unat (drop_bit 16 dest AND 0xffff) + unat (LWIP_MAKE_U16 tos 0x45) + unat (ucast (lwip_htons len) :: u32)
      + unat (ucast (lwip_htons ident) :: u32) + unat (src AND 0xffff) + unat (drop_bit 16 src AND 0xffff)"
  have b: "?n \<le> 8 * 65535" using lt [of dest] lt [of "drop_bit 16 dest"] lt [of src] lt [of "drop_bit 16 src"] lt16 [of "lwip_htons len"] lt16 [of "lwip_htons ident"]
      mk [of proto ttl] mk [of tos "0x45"] by linarith
  then have n: "unat ?s = ?n" unfolding unat_word_ariths(1) by (simp only: mod_add_left_eq) (rule mod_less, simp)
  have sum: "lesum ?f = ?n"
    unfolding unat_MAKE_U16 unat_ucast_u16_u32 lesum_htons by (simp add: ip_fields_def be16_def hi8_def lo8_def lesum_even lesum_bytes32)
  have F: "unat (FOLD_U32T ?s) < 2 ^ 20" using b n unfolding unat_fold by simp
  have "ip_chksum_inline proto ttl dest tos 0x45 (lwip_htons len) (lwip_htons ident) src = ucast (NOT (drop_bit 16 (FOLD_U32T ?s) + FOLD_U32T ?s))"
    unfolding ip_chksum_inline_def Let_def FOLD_U32T_def low [symmetric] ..
  also have "\<dots> = NOT (ucast (drop_bit 16 (FOLD_U32T ?s) + FOLD_U32T ?s))" by (rule bit_word_eqI) (auto simp: bit_simps)
  also have "\<dots> = NOT (ucast (FOLD_U32T (FOLD_U32T ?s)))" unfolding fold_trunc [OF F] ..
  also have "\<dots> = internet_checksum ?f"
  proof -
    have u: "unat (FOLD_U32T (FOLD_U32T ?s)) = oc (lesum ?f)" unfolding fold_fold_oc n sum ..
    then have "unat (ucast (FOLD_U32T (FOLD_U32T ?s)) :: u16) = oc (lesum ?f)" using oc_le [of "lesum ?f"] by (simp add: unsigned_ucast_eq take_bit_eq_mod)
    then show ?thesis unfolding not_of_nat internet_checksum_def by simp
  qed
  finally show ?thesis by (simp add: inet_chksum_law)
qed

section \<open>The way of a packet downwards\<close>

definition onto :: "('d, 'z) stack_scheme \<Rightarrow> ('d, 'z) stack_scheme \<Rightarrow> bool" where
  "onto s0 s \<longleftrightarrow> (\<exists>h. s = s0\<lparr>sk_heap := h\<rparr>)"

lemma onto_refl [simp]: "onto s s"
  unfolding onto_def by (rule exI [of _ "sk_heap s"]) simp

lemma onto_heap [simp]: "onto s0 s \<Longrightarrow> onto s0 (s\<lparr>sk_heap := h\<rparr>)"
  by (auto simp: onto_def)

context netdrv
begin

text \<open>
  A packet of the caller, with room for \<open>j\<close> bytes in front of its data, while headers are put in front of it; only the heap has
  changed since \<open>s0\<close>.
\<close>

definition sending :: "nat \<Rightarrow> nat list \<Rightarrow> u16 \<Rightarrow> u8 list \<Rightarrow> nat \<Rightarrow> nat multiset \<Rightarrow> ('d, 'z) stack_scheme \<Rightarrow> ('d, 'z) stack_scheme \<Rightarrow> bool" where
  "sending p ps k bs j R s0 s \<longleftrightarrow> held p ps k bs R s \<and> headroom j (sk_heap s) p \<and> full_tail (sk_heap s) (p # ps) \<and> onto s0 s"

lemma sendingD:
  assumes "sending p ps k bs j R s0 s"
  shows "held p ps k bs R s" "headroom j (sk_heap s) p" "full_tail (sk_heap s) (p # ps)" "onto s0 s"
  using assms by (simp_all add: sending_def)

text \<open>A change of the first pbuf.\<close>

lemma sending_change:
  assumes s: "sending p ps k bs j R s0 s" and pb: "fmlookup (sk_heap s) p = Some pb" and pb': "pb_next pb' = pb_next pb" "pb_ref pb' = pb_ref pb"
    "pb_flags pb' = pb_flags pb" "pb_type pb' = pb_type pb" "j' \<le> pb_payload pb'"
    and pk: "packet (fmupd p pb' (sk_heap s)) (Some p) (p # ps) bs'"
  shows "sending p ps (pb_len pb') bs' j' R s0 (s\<lparr>sk_heap := fmupd p pb' (sk_heap s)\<rparr>)"
proof -
  note D = sendingD [OF s]
  have "held p ps (pb_len pb') bs' R (s\<lparr>sk_heap := fmupd p pb' (sk_heap s)\<rparr>)"
    by (rule held_change(1) [OF D(1) pb pb'(1,2) _ pk]) (simp add: pb'(3))
  moreover have "p \<notin> set ps" using packet_distinct [OF pk] by simp
  then have "full_tail (fmupd p pb' (sk_heap s)) (p # ps)" using D(3) by (auto simp: full_tail_def)
  moreover have "headroom j' (fmupd p pb' (sk_heap s)) p" using D(2) pb pb'(4,5) by (auto simp: headroom_def)
  ultimately show ?thesis using D(4) by (simp add: sending_def)
qed

lemma put_run:
  assumes s: "sending p ps k bs j R s0 s" and off: "off + length xs \<le> unat k"
    and f: "\<And>s'. sending p ps k (blit bs off xs) j R s0 s' \<Longrightarrow> wp t P (f s')"
  shows "wp t P (xbind (put_bytes p off xs s) f)"
proof -
  obtain pb where pb: "fmlookup (sk_heap s) p = Some pb" "pb_len pb = k" "packet (sk_heap s) (Some p) (p # ps) bs" "j \<le> pb_payload pb"
    using s by (auto simp: sending_def held_iff headroom_def)
  then have wf: "pb_wf pb" by auto
  have len: "off + length xs \<le> unat (pb_len pb)" using off pb(2) by simp
  let ?pb = "pb\<lparr>pb_mem := blit (pb_mem pb) (pb_payload pb + off) xs\<rparr>"
  have "sending p ps (pb_len ?pb) (blit bs off xs) j R s0 (s\<lparr>sk_heap := fmupd p ?pb (sk_heap s)\<rparr>)"
    by (rule sending_change [OF s pb(1)]) (use packet_put [OF pb(3,1) len] pb(4) in simp_all)
  then show ?thesis using f pl_put_ok [OF pb(1) wf len] pb(2) by (simp add: put_bytes_def)
qed

lemma header_run:
  assumes s: "sending p ps k bs (i + j) R s0 s" and i: "0 < i" "length bs + i < 65536"
  obtains h' hs where "pbuf_header p (int i) (sk_heap s) = Some (Inr (False, h'))" "length hs = i" "unat (k + of_nat i) = unat k + i"
    "sending p ps (k + of_nat i) (hs @ bs) j R s0 (s\<lparr>sk_heap := h'\<rparr>)"
proof -
  obtain pb where pb: "fmlookup (sk_heap s) p = Some pb" "pb_len pb = k" "packet (sk_heap s) (Some p) (p # ps) bs" "i + j \<le> pb_payload pb"
    "pb_type pb = PBUF_RAM \<or> pb_type pb = PBUF_POOL" using s by (auto simp: sending_def held_iff headroom_def)
  have wf: "pb_wf pb" using pb(1,3) by auto
  define pb' where "pb' = pb\<lparr>pb_payload := pb_payload pb - i, pb_len := pb_len pb + of_nat i, pb_tot_len := pb_tot_len pb + of_nat i\<rparr>"
  have le: "i \<le> pb_payload pb" using pb(4) by simp
  note H = pbuf_header_show [OF pb(3,1,5) i(1) le i(2) pb'_def]
  have "sending p ps (pb_len pb') (take i (drop (pb_payload pb - i) (pb_mem pb)) @ bs) j R s0 (s\<lparr>sk_heap := fmupd p pb' (sk_heap s)\<rparr>)"
    by (rule sending_change [OF s pb(1)]) (use H(2) pb(4) in \<open>simp_all add: pb'_def\<close>)
  then have S: "sending p ps (k + of_nat i) (take i (drop (pb_payload pb - i) (pb_mem pb)) @ bs) j R s0 (s\<lparr>sk_heap := fmupd p pb' (sk_heap s)\<rparr>)"
    using pb(2) by (simp add: pb'_def)
  have L: "length (take i (drop (pb_payload pb - i) (pb_mem pb))) = i" using wf le by (simp add: pb_wf_def)
  have U: "unat (k + of_nat i) = unat k + i" using H(3) pb(2) by (simp add: pb'_def)
  show ?thesis by (rule that [OF H(1) L U S])
qed

lemma sending_ip_id:
  fixes s :: "('d, 'z) ipstack_scheme"
  assumes "sending p ps k bs j R s0 s"
  shows "sending p ps k bs j R (s0\<lparr>ip_id := x\<rparr>) (s\<lparr>ip_id := x\<rparr>)"
proof -
  have "held p ps k bs R (s\<lparr>ip_id := x\<rparr>)" using assms by (simp add: sending_def held_iff arp_ok_def)
  moreover have "onto (s0\<lparr>ip_id := x\<rparr>) (s\<lparr>ip_id := x\<rparr>)"
    using assms unfolding sending_def onto_def by (auto intro!: exI [of _ "sk_heap s"])
  ultimately show ?thesis using assms by (simp add: sending_def)
qed

lemma ip_header_run:
  fixes s :: "('d, 'z) ipstack_scheme"
  assumes s: "sending p ps k (hs @ bs) j R s s" and hs: "length hs = 20" "20 \<le> unat k"
    and run: "\<And>s'. sending p ps k (ip_packet src dest ttl tos proto (ip_id s) bs) j R (s\<lparr>ip_id := ip_id s + 1\<rparr>) s' \<Longrightarrow> wp t P (f s')"
  shows "wp t P (xbind (ip_header p src dest ttl tos proto s) f)"
proof -
  obtain pb where pb: "fmlookup (sk_heap s) p = Some pb" "pb_len pb = k" "unat (pb_tot_len pb) = 20 + length bs"
    using s hs(1) by (auto simp: sending_def held_iff)
  have tot: "pb_tot_len pb = of_nat (20 + length bs)" using pb(3) by (metis of_nat_unat ucast_id)
  let ?len = "lwip_htons (pb_tot_len pb)" and ?id = "lwip_htons (ip_id s)"
  let ?b = "blit (blit (blit (blit (blit (blit (blit (blit (blit (blit (hs @ bs) 8 [ttl]) 9 [proto]) 16 (bytes32 dest)) 0 [0x45]) 1 [tos]) 2 (bytes16 ?len)) 6 (bytes16 0))
      4 (bytes16 ?id)) 12 (bytes32 src)) 10 (bytes16 (ip_chksum_inline proto ttl dest tos 0x45 ?len ?id src))"
  have z: "bytes16 0 = [0, 0]" by (simp add: bytes16_def lo8_def hi8_def)
  have b: "?b = ip_packet src dest ttl tos proto (ip_id s) bs"
    using hs(1) by (simp add: blit_def bytes16_htons z tot ip_packet_def ip_fields_def be16_def ip_chksum_inline_law [unfolded ip_fields_def be16_def] Let_def)
      (simp add: bytes16_def bytes32_def put16_def lo8_def hi8_def)
  have ident: "ip_id s' = ip_id s" if "sending p ps k c j R s s'" for c s' using that by (auto simp: sending_def onto_def)
  have ge: "\<not> \<not> IP_HLEN \<le> unat (pb_len pb)" using pb(2) hs(2) by (simp add: IP_HLEN_def)
  have k: "n \<le> 20 \<Longrightarrow> n \<le> unat k" for n using hs(2) by simp
  have fin: "wp t P (xbind (put_bytes p 12 (bytes32 src) (s'\<lparr>ip_id := ip_id s' + 1\<rparr>)) (\<lambda>s. xbind (put_bytes p 10 (bytes16 (ip_chksum_inline proto ttl dest tos 0x45 ?len ?id src)) s) f))"
    if "sending p ps k (blit (blit (blit (blit (blit (blit (blit (blit (hs @ bs) 8 [ttl]) 9 [proto]) 16 (bytes32 dest)) 0 [0x45]) 1 [tos]) 2 (bytes16 ?len)) 6 (bytes16 0)) 4 (bytes16 ?id)) j R s s'" for s'
    by (rule put_run [OF sending_ip_id [OF that]], rule k, simp, rule put_run, assumption, rule k, simp, unfold b ident [OF that], erule run)
  have assoc: "xbind (xbind m g) f = xbind m (\<lambda>x. xbind (g x) f)" for m g by (simp add: xbind_def split: option.split sum.split)
  show ?thesis unfolding ip_header_def pb(1) option.case if_not_P [OF ge] Let_def assoc
    by (rule put_run [OF s], rule k, simp, (rule put_run, assumption, rule k, simp)+, erule fin)
qed

end

context netdrv
begin

lemma sending_self: "sending p ps k bs j R s0 s \<Longrightarrow> sending p ps k bs j R s s"
  by (simp add: sending_def)

lemma sending_trans: "sending p ps k bs j R s s' \<Longrightarrow> onto s0 s \<Longrightarrow> sending p ps k bs j R s0 s'"
  by (auto simp: sending_def onto_def)

lemma ip_output_if_run:
  fixes s :: "('d, 'z) ipstack_scheme"
  assumes s: "sending p ps k bs (20 + j) R s0 s" and len: "length bs + 20 < 65536"
    and mtu: "ni_mtu (sk_netif s0 n) = 0 \<or> 20 + length bs \<le> unat (ni_mtu (sk_netif s0 n))"
    and src: "src \<noteq> IPADDR_ANY \<or> src = ni_ip_addr (sk_netif s0 n)"
    and run: "\<And>s'. sending p ps (k + 20) (ip_packet src dest ttl tos proto (ip_id s0) bs) j R (s0\<lparr>ip_id := ip_id s0 + 1\<rparr>) s' \<Longrightarrow> wp t P (netif_output E n p dest s')"
  shows "wp t P (ip_output_if E p (Some src) (Some dest) ttl tos proto n s)"
proof -
  obtain pb where pb: "fmlookup (sk_heap s) p = Some pb" "pb_ref pb = 1" using s by (auto simp: sending_def held_iff)
  obtain h' hs where H: "pbuf_header p (int 20) (sk_heap s) = Some (Inr (False, h'))" "length hs = 20" "unat (k + of_nat 20) = unat k + 20"
    "sending p ps (k + of_nat 20) (hs @ bs) j R s0 (s\<lparr>sk_heap := h'\<rparr>)" by (rule header_run [OF s _ len]) simp
  define s1 where "s1 = s\<lparr>sk_heap := h'\<rparr>"
  have on: "onto s0 s1" using sendingD(4) [OF H(4)] by (simp add: s1_def)
  then have eq: "ip_id s1 = ip_id s0" "sk_netif s1 n = sk_netif s0 n" by (auto simp: onto_def)
  have S1: "sending p ps (k + 20) (hs @ bs) j R s1 s1" using sending_self [OF H(4)] by (simp add: s1_def)
  have k20: "20 \<le> unat (k + 20)" using H(3) by simp
  have "wp t P (xbind (ip_header p src dest ttl tos proto s1) (ip_transmit E p dest n))"
  proof (rule ip_header_run [OF S1 H(2) k20])
    fix s' assume s': "sending p ps (k + 20) (ip_packet src dest ttl tos proto (ip_id s1) bs) j R (s1\<lparr>ip_id := ip_id s1 + 1\<rparr>) s'"
    have on2: "onto (s0\<lparr>ip_id := ip_id s0 + 1\<rparr>) (s1\<lparr>ip_id := ip_id s1 + 1\<rparr>)" using on unfolding eq onto_def by (auto intro!: exI [of _ "sk_heap s1"])
    have S2: "sending p ps (k + 20) (ip_packet src dest ttl tos proto (ip_id s0) bs) j R (s0\<lparr>ip_id := ip_id s0 + 1\<rparr>) s'"
      using sending_trans [OF s' on2] unfolding eq .
    obtain pb' where pb': "fmlookup (sk_heap s') p = Some pb'" "unat (pb_tot_len pb') = 20 + length bs" using S2 by (auto simp: sending_def held_iff)
    have "sk_netif s' n = sk_netif s0 n" using sendingD(4) [OF S2] by (auto simp: onto_def)
    then have "\<not> (ni_mtu (sk_netif s' n) \<noteq> 0 \<and> pb_tot_len pb' > ni_mtu (sk_netif s' n))" using mtu pb'(2) by (auto simp: word_less_nat_alt)
    then show "wp t P (ip_transmit E p dest n s')" using run [OF S2] pb'(1) unfolding ip_transmit_def by (simp only: option.case if_False)
  qed
  moreover have "(if src = IPADDR_ANY then ni_ip_addr (sk_netif s1 n) else src) = src" using src eq(2) by auto
  ultimately show ?thesis using pb H(1) unfolding s1_def by (simp add: ip_output_if_def IP_HLEN_def Let_def)
qed

text \<open>The header of a datagram.\<close>

lemma udp_datagram_run:
  fixes s :: "('d, 'z) ipstack_scheme"
  assumes s: "sending p ps k (hs @ bs) (20 + j) R s0 s" and hs: "length hs = 8" "8 \<le> unat k" and len: "length bs + 28 < 65536"
    and mtu: "ni_mtu (sk_netif s0 n) = 0 \<or> 28 + length bs \<le> unat (ni_mtu (sk_netif s0 n))"
    and src: "src = ni_ip_addr (sk_netif s0 n)" "up_local_ip u = IPADDR_ANY \<or> up_local_ip u = src" and fl: "up_flags u AND UDP_FLAGS_NOCHKSUM = 0"
    and run: "\<And>s'. sending p ps (k + 20) (ip_packet src dest (up_ttl u) (up_tos u) 17 (ip_id s0) (udp_packet src dest (up_local_port u) dport bs)) j R
        (s0\<lparr>ip_id := ip_id s0 + 1\<rparr>) s' \<Longrightarrow> wp t P (netif_output E n p dest s')"
  shows "wp t P (udp_datagram E u p p dest dport n None s)"
proof -
  obtain pb where pb: "fmlookup (sk_heap s) p = Some pb" "pb_len pb = k" "unat (pb_tot_len pb) = 8 + length bs"
    using s hs(1) by (auto simp: sending_def held_iff)
  have tot: "pb_tot_len pb = of_nat (8 + length bs)" using pb(3) by (metis of_nat_unat ucast_id)
  have k: "m \<le> 8 \<Longrightarrow> m \<le> unat k" for m using hs(2) by simp
  let ?F = "udp_fields (up_local_port u) dport bs"
  have z: "bytes16 0 = [0, 0]" by (simp add: bytes16_def lo8_def hi8_def)
  have b: "blit (blit (blit (blit (hs @ bs) 0 (bytes16 (lwip_htons (up_local_port u)))) 2 (bytes16 (lwip_htons dport))) 6 (bytes16 0)) 4 (bytes16 (lwip_htons (pb_tot_len pb))) = ?F"
    using hs(1) by (simp add: blit_def bytes16_htons z tot udp_fields_def be16_def)
  have fin: "wp t P (xbind (udp_chksum p src dest (pb_tot_len pb) None (sk_heap s')) (\<lambda>sum. xbind (put_bytes p 6 (bytes16 sum) s')
      (ip_output_if E p (Some src) (Some dest) (up_ttl u) (up_tos u) IP_PROTO_UDP n)))" if S: "sending p ps k ?F (20 + j) R s0 s'" for s'
  proof -
    have pk: "packet (sk_heap s') (Some p) (p # ps) ?F" using S by (auto simp: sending_def held_iff)
    have lf: "length ?F = 8 + length bs" by (simp add: udp_fields_def be16_def)
    have c: "udp_chksum p src dest (pb_tot_len pb) None (sk_heap s') = Some (Inr (udp_sum src dest ?F))"
      using inet_chksum_pseudo_law [OF pk, of src dest 17 "pb_tot_len pb"] lf by (simp add: udp_chksum_def udp_sum_def IP_PROTO_UDP_def tot Let_def)
    have p: "blit ?F 6 (bytes16 (udp_sum src dest ?F)) = udp_packet src dest (up_local_port u) dport bs"
      by (simp add: udp_packet_def blit_def put16_def bytes16_def udp_fields_def be16_def)
    show ?thesis unfolding c xbind_simps
    proof (rule put_run [OF S], rule k, simp, unfold p, rule ip_output_if_run, assumption)
      show "length (udp_packet src dest (up_local_port u) dport bs) + 20 < 65536" using len by simp
      show "ni_mtu (sk_netif s0 n) = 0 \<or> 20 + length (udp_packet src dest (up_local_port u) dport bs) \<le> unat (ni_mtu (sk_netif s0 n))" using mtu by simp
      show "src \<noteq> IPADDR_ANY \<or> src = ni_ip_addr (sk_netif s0 n)" using src(1) by simp
    qed (unfold IP_PROTO_UDP_def, erule run)
  qed
  have nif: "sk_netif s' n = sk_netif s0 n" if "sending p ps k c i R s0 s'" for c i s' using that by (auto simp: sending_def onto_def)
  have ge: "\<not> \<not> UDP_HLEN \<le> unat (pb_len pb)" using pb(2) hs(2) by (simp add: UDP_HLEN_def)
  have assoc: "xbind (xbind m g) f = xbind m (\<lambda>x. xbind (g x) f)" for m f and g :: "'x \<Rightarrow> 'y res option" by (simp add: xbind_def split: option.split sum.split)
  have ret: "(\<lambda>(err, s). Some (Inr (err, s))) = (\<lambda>r. Some (Inr r))" "xbind m (\<lambda>r. Some (Inr r)) = m" for m :: "'y res option"
    by (auto simp: xbind_def split: option.split sum.split)
  have tail: "wp t P (let x = sk_netif s' n
       in if up_local_ip u \<noteq> IPADDR_ANY \<and> up_local_ip u \<noteq> ni_ip_addr x
          then xbind (free_header (memlib_of E) p p s') (\<lambda>s. Some (Inr (ERR_VAL, s)))
          else
            let src_ip = (if up_local_ip u = IPADDR_ANY then ni_ip_addr x else up_local_ip u)
            in xbind (put_bytes p 4 (bytes16 (lwip_htons (pb_tot_len pb))) s') (\<lambda>s.
               xbind (if up_flags u AND UDP_FLAGS_NOCHKSUM = 0
                      then xbind (udp_chksum p src_ip dest (pb_tot_len pb) None (sk_heap s)) (\<lambda>sum. put_bytes p 6 (bytes16 sum) s)
                      else Some (Inr s)) (\<lambda>s.
               xbind (ip_output_if E p (Some src_ip) (Some dest) (up_ttl u) (up_tos u) IP_PROTO_UDP n s) (\<lambda>(err, s).
               xbind (free_header (memlib_of E) p p s) (\<lambda>s. Some (Inr (err, s)))))))"
    if S: "sending p ps k (blit (blit (blit (hs @ bs) 0 (bytes16 (lwip_htons (up_local_port u)))) 2 (bytes16 (lwip_htons dport))) 6 (bytes16 0)) (20 + j) R s0 s'" for s'
  proof -
    have a: "up_local_ip u \<noteq> IPADDR_ANY \<and> up_local_ip u \<noteq> src \<longleftrightarrow> False" "(if up_local_ip u = IPADDR_ANY then src else up_local_ip u) = src" using src(2) by auto
    have m: "4 + length (bytes16 (lwip_htons (pb_tot_len pb))) \<le> unat k" by (rule k) simp
    show ?thesis unfolding Let_def nif [OF S] src(1) [symmetric] a if_False fl if_True free_header_def simp_thms if_True xbind_simps ret assoc
      by (rule put_run [OF S m], unfold b, erule fin)
  qed
  show ?thesis unfolding udp_datagram_def get_pbuf_def pb(1) option.case xbind_simps if_not_P [OF ge]
    by (rule put_run [OF s], rule k, simp, (rule put_run, assumption, rule k, simp)+, erule tail)
qed

end

context netdrv
begin

text \<open>A datagram of a bound block, on its way to the interface.\<close>

lemma udp_sendto_run:
  fixes s :: "('d, 'z) ipstack_scheme"
  assumes s: "sending p ps k bs (28 + j) R s s" and len: "length bs + 28 < 65536" and route: "ip_route dest s = Some n"
    and u: "fmlookup (udp_mem s) pcb = Some u" "up_local_port u \<noteq> 0" "up_flags u AND UDP_FLAGS_NOCHKSUM = 0"
      "up_so_options u AND SOF_BROADCAST \<noteq> 0 \<or> \<not> ip_addr_isbroadcast dest (sk_netif s n)"
    and mtu: "ni_mtu (sk_netif s n) = 0 \<or> 28 + length bs \<le> unat (ni_mtu (sk_netif s n))"
    and src: "src = ni_ip_addr (sk_netif s n)" "up_local_ip u = IPADDR_ANY \<or> up_local_ip u = src"
    and run: "\<And>k s'. sending p ps k (ip_packet src dest (up_ttl u) (up_tos u) 17 (ip_id s) (udp_packet src dest (up_local_port u) dport bs)) j R
        (s\<lparr>ip_id := ip_id s + 1\<rparr>) s' \<Longrightarrow> wp t P (netif_output E n p dest s')"
  shows "wp t P (udp_sendto E pcb p dest dport s)"
proof -
  have S: "sending p ps k bs (8 + (20 + j)) R s s" using s by simp
  obtain h' hs where H: "pbuf_header p (int 8) (sk_heap s) = Some (Inr (False, h'))" "length hs = 8" "unat (k + of_nat 8) = unat k + 8"
    "sending p ps (k + of_nat 8) (hs @ bs) (20 + j) R s (s\<lparr>sk_heap := h'\<rparr>)" by (rule header_run [OF S]) (use len in simp_all)
  have "wp t P (udp_datagram E u p p dest dport n None (s\<lparr>sk_heap := h'\<rparr>))"
    by (rule udp_datagram_run [OF H(4,2) _ len mtu src u(3)]) (use H(3) run in simp_all)
  then show ?thesis using route u(1,2,4) H(1)
    by (auto simp: udp_sendto_def udp_sendto_chksum_def udp_sendto_if_chksum_def get_pcb_def bind_if_needed_def udp_header_pbuf_def move_header_def UDP_HLEN_def)
qed

end

section \<open>From the application to the wire\<close>

lemma wp_True:
  assumes "wp True P m"
  obtains r where "m = Some (Inr r)" "P r"
  using assms by (auto simp: wp_def split: option.splits sum.splits)

lemma udp_sendto_sends:
  fixes s :: "(enetdata, 'z) ipstack_scheme"
  assumes E: "netif_output E = emac_output L C delay" and ok: "arp_inv C s (add_mset p R)" and nif: "nif_ok (sk_netif s n)"
    and o: "outgoing (sk_heap s) p ps bs" "headroom 42 (sk_heap s) p" "length bs + 42 < 65536" and room: "Suc (length ps) \<le> unat (tx_free_descs (sk_dev s))"
    and mtu: "ni_mtu (sk_netif s n) = 0 \<or> 28 + length bs \<le> unat (ni_mtu (sk_netif s n))" and route: "ip_route (ae_ipaddr e) s = Some n"
    and u: "fmlookup (udp_mem s) pcb = Some u" "up_local_port u \<noteq> 0" "up_flags u AND UDP_FLAGS_NOCHKSUM = 0"
      "up_local_ip u = IPADDR_ANY \<or> up_local_ip u = ni_ip_addr (sk_netif s n)"
    and e: "e \<in> set (arp_table s)" "stable (ae_state e)" "ae_ctime e < 228"
    and a: "unicast (ae_ipaddr e) (sk_netif s n)" "ip_addr_netcmp (ae_ipaddr e) (ni_ip_addr (sk_netif s n)) (ni_netmask (sk_netif s n))"
  shows "\<exists>err s'. udp_sendto E pcb p (ae_ipaddr e) dport s = Some (Inr (err, s')) \<and>
    (if ni_flags (sk_netif s n) AND NETIF_FLAG_LINK_UP \<noteq> 0
     then err = ERR_OK \<and> tx_cont (sk_dev s') = tx_cont (sk_dev s) @ replicate (length ps) None @ [Some p] \<and>
       packet (sk_heap s') (Some p) (p # ps) (eth_frame (ae_ethaddr e) (ni_hwaddr (sk_netif s n)) 0x0800
         (ip_packet (ni_ip_addr (sk_netif s n)) (ae_ipaddr e) (up_ttl u) (up_tos u) 17 (ip_id s)
           (udp_packet (ni_ip_addr (sk_netif s n)) (ae_ipaddr e) (up_local_port u) dport bs)))
     else err = ERR_CONN \<and> sk_dev s' = sk_dev s \<and> arp_table s' = arp_table s)"
proof -
  let ?x = "sk_netif s n" and ?d = "ae_ipaddr e"
  let ?pkt = "ip_packet (ni_ip_addr ?x) ?d (up_ttl u) (up_tos u) 17 (ip_id s) (udp_packet (ni_ip_addr ?x) ?d (up_local_port u) dport bs)"
  let ?P = "\<lambda>(e', s'). if ni_flags ?x AND NETIF_FLAG_LINK_UP \<noteq> 0
      then e' = ERR_OK \<and> tx_cont (sk_dev s') = tx_cont (sk_dev s) @ replicate (length ps) None @ [Some p] \<and>
        packet (sk_heap s') (Some p) (p # ps) (eth_frame (ae_ethaddr e) (ni_hwaddr ?x) 0x0800 ?pkt)
      else e' = ERR_CONN \<and> sk_dev s' = sk_dev s \<and> arp_table s' = arp_table s"
  obtain pb where pb: "fmlookup (sk_heap s) p = Some pb" "pb_ref pb = 1" using o(1) by (auto simp: outgoing_def)
  have S: "netdrv.sending emac_refs (emac_loc C) p ps (pb_len pb) bs (28 + 14) R s s"
    using ok o(1,2) pb by (auto simp: quiet_net.sending_def quiet_net.held_iff outgoing_def)
  have u4: "up_so_options u AND SOF_BROADCAST \<noteq> 0 \<or> \<not> ip_addr_isbroadcast ?d ?x" using a(1) by (simp add: unicast_def)
  have "wp True ?P (udp_sendto E pcb p ?d dport s)"
  proof (rule quiet_net.udp_sendto_run [OF S _ route u(1,2,3) u4 mtu refl u(4)])
    fix k s' assume s': "netdrv.sending emac_refs (emac_loc C) p ps k ?pkt 14 R (s\<lparr>ip_id := ip_id s + 1\<rparr>) s'"
    note D = quiet_net.sendingD [OF s']
    have eq: "sk_netif s' n = ?x" "arp_table s' = arp_table s" "sk_dev s' = sk_dev s" using D(4) by (auto simp: onto_def)
    have ok': "arp_inv C s' (add_mset p R)" using D(1) by (simp add: quiet_net.held_iff)
    have o': "outgoing (sk_heap s') p ps ?pkt" using D o(3) by (auto simp: outgoing_def quiet_net.held_iff headroom_def)
    have "\<exists>s''. etharp_output L (emac_out C delay) n p ?d s' = Some (Inr (ERR_OK, s'')) \<and>
      tx_cont (sk_dev s'') = tx_cont (sk_dev s') @ replicate (length ps) None @ [Some p] \<and>
      packet (sk_heap s'') (Some p) (p # ps) (eth_frame (ae_ethaddr e) (ni_hwaddr (sk_netif s' n)) 0x0800 ?pkt)"
      by (rule etharp_output_sends [OF ok' _ o']) (use eq nif room e a in simp_all)
    then show "wp True ?P (netif_output E n p ?d s')" unfolding E emac_output_def lpc_etharp_output_def eq by (auto simp: eq(2,3))
  qed (use o(3) in simp)
  then obtain r where r: "udp_sendto E pcb p ?d dport s = Some (Inr r)" "?P r" by (rule wp_True)
  show ?thesis by (rule exI [of _ "fst r"], rule exI [of _ "snd r"]) (use r in \<open>simp only: case_prod_unfold prod.collapse simp_thms\<close>)
qed

text \<open>
  C10: A datagram of the application is sent: when the control block is bound, its address is that of the interface or any, the datagram is
  the only reference to a chain with room for 42 bytes in front of the data and fits into a frame, the interface is the
  one of the route and of this driver, the receiver is a neighbour with an entry in the ARP cache that is not about to expire, and there
  is a free transmit descriptor for each pbuf, then, if the link is up, \<open>udp_sendto\<close> returns \<open>ERR_OK\<close> and the driver has queued the frame: the
  Ethernet header, the IP header with its checksum and the next identification, the UDP header with the checksum over the pseudo header, and
  the data unchanged. If the link is down, \<open>udp_sendto\<close> returns \<open>ERR_CONN\<close> and neither the driver nor the ARP cache has changed.
\<close>

theorem udp_datagram_on_wire:
  fixes s :: "(enetdata, 'z) ipstack_scheme"
  assumes "netif_output E = emac_output L C delay" "arp_inv C s (add_mset p R)" "nif_ok (sk_netif s n)"
    "outgoing (sk_heap s) p ps bs" "headroom 42 (sk_heap s) p" "length bs + 42 < 65536" "Suc (length ps) \<le> unat (tx_free_descs (sk_dev s))"
    "ni_mtu (sk_netif s n) = 0 \<or> 28 + length bs \<le> unat (ni_mtu (sk_netif s n))" "ip_route (ae_ipaddr e) s = Some n"
    "fmlookup (udp_mem s) pcb = Some u" "up_local_port u \<noteq> 0" "up_flags u AND UDP_FLAGS_NOCHKSUM = 0"
    "up_local_ip u = IPADDR_ANY \<or> up_local_ip u = ni_ip_addr (sk_netif s n)"
    "e \<in> set (arp_table s)" "stable (ae_state e)" "ae_ctime e < 228"
    "unicast (ae_ipaddr e) (sk_netif s n)" "ip_addr_netcmp (ae_ipaddr e) (ni_ip_addr (sk_netif s n)) (ni_netmask (sk_netif s n))"
  shows "\<exists>err s'. udp_sendto E pcb p (ae_ipaddr e) dport s = Some (Inr (err, s')) \<and>
    (if ni_flags (sk_netif s n) AND NETIF_FLAG_LINK_UP \<noteq> 0
     then err = ERR_OK \<and> tx_cont (sk_dev s') = tx_cont (sk_dev s) @ replicate (length ps) None @ [Some p] \<and>
       packet (sk_heap s') (Some p) (p # ps) (eth_frame (ae_ethaddr e) (ni_hwaddr (sk_netif s n)) 0x0800
         (ip_packet (ni_ip_addr (sk_netif s n)) (ae_ipaddr e) (up_ttl u) (up_tos u) 17 (ip_id s)
           (udp_packet (ni_ip_addr (sk_netif s n)) (ae_ipaddr e) (up_local_port u) dport bs)))
     else err = ERR_CONN \<and> sk_dev s' = sk_dev s \<and> arp_table s' = arp_table s)"
  by (rule udp_sendto_sends [OF assms])

section \<open>Examples\<close>

definition ex_pcb :: udp_pcb where
  "ex_pcb = \<lparr>up_local_ip = 0, up_remote_ip = 0, up_so_options = 0, up_tos = 0, up_ttl = 255, up_flags = 0, up_local_port = 5000, up_remote_port = 0, up_recv = True\<rparr>"

definition ex_ip :: "enetdata ipstack" where
  "ex_ip = stack.extend ex_resolved \<lparr>ip_id = 7, current_netif = None, current_header = None, current_iphdr_src = 0, current_iphdr_dest = 0,
     udp_mem = fmupd 0 ex_pcb fmempty, udp_pcbs = [0], udp_port = 0xc000, raw_mem = fmempty, raw_pcbs = []\<rparr>"

lemma ex_ip_simps:
  "sk_heap ex_ip = sk_heap ex_resolved" "sk_dev ex_ip = sk_dev ex_resolved" "arp_table ex_ip = arp_table ex_resolved" "sk_netif ex_ip n = ex_nif"
  "udp_mem ex_ip = fmupd 0 ex_pcb fmempty" "udp_pcbs ex_ip = [0]" "ip_id ex_ip = 7" "netif_list ex_ip = [0]" "raw_pcbs ex_ip = []"
  by (simp_all add: ex_ip_def stack.defs ex_resolved_simps) (simp add: ex_resolved_def ex_stack_def set_entry_def)

lemma ex_ip_inv: "arp_inv ex_chip ex_ip {#5#}"
proof -
  have "arp_inv ex_chip ex_resolved {#5#}" by (rule arp_reach_inv [OF _ ex_lib1_ok ex_resolved_reach]) simp
  then show ?thesis by (simp add: arp_ok_def ex_ip_simps) (simp add: ex_ip_def stack.defs)
qed

definition ex_env :: "enetdata ipstack ipenv" where
  "ex_env = \<lparr>netif_output = emac_output ex_lib1 ex_chip id, ip_frag = (\<lambda>p n a s. Some (Inr (ERR_OK, s))), ip_reass = (\<lambda>p s. Some (Inr (None, s))),
     udp_recv_fn = (\<lambda>pcb p a port s. Some (Inr s)), raw_recv_fn = (\<lambda>pcb p a s. Some (Inr (False, s))), memlib_of = ex_lib1, memp_malloc = (\<lambda>_. None)\<rparr>"

theorem udp_datagram_on_wire_witness:
  "\<exists>s'. udp_sendto ex_env 0 5 (IP4_ADDR 192 168 1 30) 5001 ex_ip = Some (Inr (ERR_OK, s')) \<and> tx_cont (sk_dev s') = tx_cont (sk_dev ex_ip) @ [Some 5] \<and>
    packet (sk_heap s') (Some 5) [5] (eth_frame [2, 0, 0, 0, 0, 9] [2, 0, 0, 0, 0, 1] 0x0800
      (ip_packet (IP4_ADDR 192 168 1 20) (IP4_ADDR 192 168 1 30) 255 0 17 7 (udp_packet (IP4_ADDR 192 168 1 20) (IP4_ADDR 192 168 1 30) 5000 5001 [1, 2, 3])))"
proof -
  have x: "nif_ok ex_nif" "unicast (ae_ipaddr ex_host) ex_nif" "ip_addr_netcmp (ae_ipaddr ex_host) (ni_ip_addr ex_nif) (ni_netmask ex_nif)"
    using ex_stack_room(2) [of ex_heap2 0] ex_unicast by (simp_all add: ex_stack_def ex_host_def ex_nif_def ip_addr_netcmp_def IP4_ADDR_def)
  have up: "netif_is_up ex_nif" by (simp add: netif_is_up_def ex_nif_def NETIF_FLAG_UP_def)
  have room: "headroom 42 (sk_heap ex_ip) 5" by (simp add: ex_ip_simps ex_resolved_simps headroom_def ex_heap2_def ex_out_def)
  have route: "ip_route (ae_ipaddr ex_host) ex_ip = Some 0" using x(3) up by (simp add: ip_route_def ex_ip_simps)
  have o: "outgoing (sk_heap ex_ip) 5 [] [1, 2, 3]" using ex_outgoing by (simp add: ex_ip_simps)
  have link: "ni_flags (sk_netif ex_ip 0) AND NETIF_FLAG_LINK_UP \<noteq> 0" by (simp add: ex_ip_simps ex_nif_def NETIF_FLAG_LINK_UP_def)
  have "\<exists>err s'. udp_sendto ex_env 0 5 (ae_ipaddr ex_host) 5001 ex_ip = Some (Inr (err, s')) \<and>
    (if ni_flags (sk_netif ex_ip 0) AND NETIF_FLAG_LINK_UP \<noteq> 0
     then err = ERR_OK \<and> tx_cont (sk_dev s') = tx_cont (sk_dev ex_ip) @ replicate (length ([] :: nat list)) None @ [Some 5] \<and>
       packet (sk_heap s') (Some 5) [5] (eth_frame (ae_ethaddr ex_host) (ni_hwaddr (sk_netif ex_ip 0)) 0x0800
         (ip_packet (ni_ip_addr (sk_netif ex_ip 0)) (ae_ipaddr ex_host) (up_ttl ex_pcb) (up_tos ex_pcb) 17 (ip_id ex_ip)
           (udp_packet (ni_ip_addr (sk_netif ex_ip 0)) (ae_ipaddr ex_host) (up_local_port ex_pcb) 5001 [1, 2, 3])))
     else err = ERR_CONN \<and> sk_dev s' = sk_dev ex_ip \<and> arp_table s' = arp_table ex_ip)"
    by (rule udp_datagram_on_wire [where L = ex_lib1 and C = ex_chip and delay = id, OF _ _ _ o room _ _ _ route])
      (use ex_ip_inv x ex_init(3) [OF ex_heap2_ok(2)] in \<open>simp_all add: ex_env_def ex_ip_simps ex_resolved_simps, simp_all add: ex_pcb_def ex_nif_def stable_def ex_host_def\<close>)
  then show ?thesis unfolding if_P [OF link] by (simp add: ex_ip_simps ex_pcb_def ex_host_def ex_nif_def)
qed

end
