(* ===== verification/IpRecv.thy ===== *)
theory IpRecv
  imports IpWire
begin

text \<open>
  The input path of the stack: a frame in the format of the output path reaches the callback of its control block, and a packet
  with a wrong total length stops the stack.
\<close>

section \<open>The way of a packet upwards\<close>

text \<open>The packet \<open>p\<close> is one pbuf with the bytes \<open>bs\<close>; nothing else has changed in the heap since \<open>h0\<close>.\<close>

definition lone :: "heap \<Rightarrow> nat \<Rightarrow> u8 list \<Rightarrow> heap \<Rightarrow> bool" where
  "lone h0 p bs h \<longleftrightarrow> (\<exists>pb pb'. fmlookup h0 p = Some pb \<and> h = fmupd p pb' h0 \<and> pb_ref pb' = pb_ref pb \<and> packet h (Some p) [p] bs)"

lemma lone_self: "packet h (Some p) [p] bs \<Longrightarrow> lone h p bs h"
proof -
  assume pk: "packet h (Some p) [p] bs"
  then obtain pb where pb: "fmlookup h p = Some pb" by auto
  then have "h = fmupd p pb h" by (intro fmap_ext) auto
  then show "lone h p bs h" using pk pb unfolding lone_def by blast
qed

lemma lone_pbuf:
  assumes "lone h0 p bs h"
  obtains pb where "fmlookup h p = Some pb" "pb_wf pb" "pb_data pb = bs" "pb_next pb = None" "unat (pb_tot_len pb) = length bs" "pb_len pb = pb_tot_len pb"
    "\<And>pb'. pb_ref pb' = pb_ref pb \<Longrightarrow> packet (fmupd p pb' h) (Some p) [p] cs \<Longrightarrow> lone h0 p cs (fmupd p pb' h)"
proof -
  obtain pb0 pb where pb: "fmlookup h0 p = Some pb0" "h = fmupd p pb h0" "pb_ref pb = pb_ref pb0" "packet h (Some p) [p] bs" using assms by (auto simp: lone_def)
  then have a: "pb_wf pb" "pb_data pb = bs" "pb_next pb = None" "unat (pb_tot_len pb) = length bs" by auto
  moreover have "pb_len pb = pb_tot_len pb" using a by (auto simp: word_unat_eq_iff)
  moreover have "lone h0 p cs (fmupd p pb' h)" if "pb_ref pb' = pb_ref pb" "packet (fmupd p pb' h) (Some p) [p] cs" for pb'
    using that pb by (auto simp: lone_def)
  ultimately show thesis using that [of pb] pb(2) by simp
qed

lemma lone_get: "lone h0 p bs (sk_heap s) \<Longrightarrow> off + n \<le> length bs \<Longrightarrow> get_bytes p off n s = Some (Inr (take n (drop off bs)))"
  by (erule lone_pbuf) (simp add: get_bytes_def pl_get_ok)

lemma lone_get_pbuf:
  assumes "lone h0 p bs (sk_heap s)"
  shows "\<exists>pb. get_pbuf p s = Some (Inr pb) \<and> fmlookup (sk_heap s) p = Some pb \<and> unat (pb_tot_len pb) = length bs \<and> pb_len pb = pb_tot_len pb"
  using assms by (auto elim: lone_pbuf simp: get_pbuf_def)

lemma get_mem_payload: "get_pbuf p s = Some (Inr pb) \<Longrightarrow> get_mem p (pb_payload pb + off) n s = get_bytes p off n s"
  by (auto simp: get_pbuf_def get_mem_def get_bytes_def pl_get_def split: option.splits)

lemma lone_move:
  assumes h: "lone h0 p bs (sk_heap s)" and k: "0 < k" "k \<le> length bs"
  shows "\<exists>h'. move_header p (- int k) s = Some (Inr (False, s\<lparr>sk_heap := h'\<rparr>)) \<and> lone h0 p (drop k bs) h'"
proof -
  obtain pb where pb: "fmlookup (sk_heap s) p = Some pb" "unat (pb_tot_len pb) = length bs" "pb_len pb = pb_tot_len pb"
    "\<And>pb'. pb_ref pb' = pb_ref pb \<Longrightarrow> packet (fmupd p pb' (sk_heap s)) (Some p) [p] (drop k bs) \<Longrightarrow> lone h0 p (drop k bs) (fmupd p pb' (sk_heap s))"
    using lone_pbuf [OF h, of "drop k bs"] by metis
  have pk: "packet (sk_heap s) (Some p) [p] bs" using h by (auto simp: lone_def)
  obtain h' where h': "pbuf_header p (- int k) (sk_heap s) = Some (Inr (False, h'))" "packet h' (Some p) [p] (drop k bs)"
    by (rule pbuf_header_hide [OF pk pb(1) k(1)]) (use k(2) pb(2,3) in simp_all)
  then have "\<exists>pb'. h' = fmupd p pb' (sk_heap s) \<and> pb_ref pb' = pb_ref pb"
    using pb(1) k(1) by (auto simp: pbuf_header_def Let_def split: if_splits intro!: exI [where P = "\<lambda>x. fmupd p _ (sk_heap s) = fmupd p x (sk_heap s) \<and> pb_ref x = pb_ref pb", OF conjI [OF refl]])
  then show ?thesis using h' pb(4) by (auto simp: move_header_def)
qed

lemma lone_realloc:
  assumes h: "lone h0 p bs h" and k: "k \<le> length bs"
  shows "\<exists>h'. pbuf_realloc L p (of_nat k) h = Some (Inr h') \<and> lone h0 p (take k bs) h'"
proof -
  obtain pb where pb: "fmlookup h p = Some pb" "pb_wf pb" "pb_data pb = bs" "pb_next pb = None" "unat (pb_tot_len pb) = length bs" "pb_len pb = pb_tot_len pb"
    "\<And>pb'. pb_ref pb' = pb_ref pb \<Longrightarrow> packet (fmupd p pb' h) (Some p) [p] (take k bs) \<Longrightarrow> lone h0 p (take k bs) (fmupd p pb' h)"
    using lone_pbuf [OF h, of "take k bs"] by metis
  have ku: "unat (of_nat k :: u16) = k" using k pb(5) unat_lt_65536 [of "pb_tot_len pb"] by (intro unat_of_nat_u16) linarith
  show ?thesis
  proof (cases "k < length bs")
    case False
    then have "\<not> of_nat k < pb_tot_len pb" "take k bs = bs" using ku pb(5) by (simp_all add: word_less_nat_alt)
    then show ?thesis using h pb(1) by (auto simp: pbuf_realloc_def not_less)
  next
    case True
    let ?pb = "pb\<lparr>pb_len := of_nat k, pb_tot_len := of_nat k, pb_next := None\<rparr>"
    have lt: "of_nat k < pb_tot_len pb" using True ku pb(5) by (simp add: word_less_nat_alt)
    then have r: "pbuf_realloc L p (of_nat k) h = Some (Inr (fmupd p ?pb h))"
      using pb(1,4,6) by (auto simp: pbuf_realloc_def not_le realloc_loop.simps realloc_last_def set_next_def Let_def)
    have "take k bs = take k (drop (pb_payload pb) (pb_mem pb))" unfolding pb(3) [symmetric] pb_data_def using pb(5,6) True by (simp add: min_def)
    then have "packet (fmupd p ?pb h) (Some p) [p] (take k bs)" using pb(2,5,6) True ku by (simp add: pb_wf_def pb_data_def)
    then show ?thesis using r pb(7) by auto
  qed
qed

section \<open>Checksums of received packets\<close>

lemma checksum_with_field:
  assumes "even k" "Suc k < length bs" "bs ! k = 0" "bs ! Suc k = 0" "unat w mod 65535 = (65535 - oc (lesum bs)) mod 65535" "w \<noteq> 0 \<or> lesum bs \<noteq> 0"
  shows "internet_checksum (put16 bs k w) = 0"
proof -
  have S: "lesum (put16 bs k w) = lesum bs + unat w" by (rule lesum_put16 [OF assms(1-4)])
  have "(lesum bs + unat w) mod 65535 = (oc (lesum bs) + (65535 - oc (lesum bs))) mod 65535" using assms(5) by (metis mod_add_cong oc_cong)
  then have "(lesum bs + unat w) mod 65535 = 65535 mod 65535" using oc_le [of "lesum bs"] by simp
  moreover have "lesum bs + unat w \<noteq> 0" using assms(6) by (auto simp: unat_eq_zero)
  ultimately have "oc (lesum bs + unat w) = oc 65535" by (intro oc_unique) auto
  then show ?thesis unfolding internet_checksum_zero S by (simp add: oc_self)
qed

lemma unat_internet_checksum: "unat (internet_checksum bs) = 65535 - oc (lesum bs)"
  unfolding internet_checksum_def by (rule unat_of_nat_u16) simp

lemma ip_header_accepted:
  "inet_chksum (put16 (ip_fields src dest ttl tos proto ident len) 10 (inet_chksum (ip_fields src dest ttl tos proto ident len))) = 0"
proof -
  let ?f = "ip_fields src dest ttl tos proto ident len"
  have "lesum ?f \<noteq> 0" by (simp add: ip_fields_def be16_def)
  then have "internet_checksum (put16 ?f 10 (internet_checksum ?f)) = 0"
    by (intro checksum_with_field) (simp_all add: unat_internet_checksum ip_fields_def be16_def bytes32_def)
  then show ?thesis by (simp add: inet_chksum_law)
qed

lemma udp_sum_accepted:
  "internet_checksum (pseudo_bytes src dest 17 (of_nat (8 + length bs)) @ udp_packet src dest sport dport bs) = 0" "udp_sum src dest (udp_fields sport dport bs) \<noteq> 0"
proof -
  let ?f = "udp_fields sport dport bs"
  let ?p = "pseudo_bytes src dest 17 (of_nat (8 + length bs))" and ?w = "udp_sum src dest ?f"
  have len: "length ?p = 12" "length ?f = 8 + length bs" by (simp_all add: pseudo_bytes_def bytes32_def udp_fields_def be16_def)
  let ?c = "internet_checksum (?p @ ?f)"
  have w: "?w = (if ?c = 0 then 0xffff else ?c)" using len by (simp add: udp_sum_def Let_def)
  then show "?w \<noteq> 0" by (simp split: if_splits)
  moreover have "unat ?w mod 65535 = (65535 - oc (lesum (?p @ ?f))) mod 65535"
    using unat_internet_checksum [of "?p @ ?f"] unfolding w by (cases "?c = 0") simp_all
  moreover have "(?p @ ?f) ! 18 = 0" "(?p @ ?f) ! Suc 18 = 0" unfolding nth_append len(1) by (simp_all add: udp_fields_def be16_def)
  ultimately have "internet_checksum (put16 (?p @ ?f) 18 ?w) = 0" by (intro checksum_with_field) (simp_all only: length_append len, simp_all)
  moreover have "put16 (?p @ ?f) 18 ?w = ?p @ put16 ?f 6 ?w" using len by (simp add: put16_def list_update_append)
  ultimately show "internet_checksum (?p @ udp_packet src dest sport dport bs) = 0" by (simp add: udp_packet_def)
qed

section \<open>From the wire to the application\<close>

lemma udp_find_unique:
  assumes "\<forall>q\<in>set ps. \<exists>v. fmlookup m q = Some v \<and> (lm v \<longleftrightarrow> q = pcb)" "fmlookup m pcb = Some u" "up_flags u AND UDP_FLAGS_CONNECTED = 0"
    "pcb \<in> set all" "uncon = Some pcb \<or> uncon = None \<and> pcb \<in> set ps"
  shows "\<exists>pcbs. udp_find lm rm m all uncon ps = Inr (Some pcb, pcbs) \<and> mset pcbs = mset all"
  using assms
proof (induction ps arbitrary: uncon)
  case (Cons q ps)
  obtain v where v: "fmlookup m q = Some v" "lm v \<longleftrightarrow> q = pcb" using Cons.prems(1) by auto
  let ?un = "if lm v \<and> uncon = None \<and> up_flags v AND UDP_FLAGS_CONNECTED = 0 then Some q else uncon"
  have un: "?un = Some pcb \<or> ?un = None \<and> pcb \<in> set ps" using Cons.prems(2,3,5) v by auto
  have "\<exists>pcbs. udp_find lm rm m all ?un ps = Inr (Some pcb, pcbs) \<and> mset pcbs = mset all" by (rule Cons.IH) (use Cons.prems un in auto)
  then show ?case using v Cons.prems(4) by (auto simp: Let_def)
qed auto

lemma get_be16: "bs = pre @ be16 x @ post \<Longrightarrow> lone h0 p bs (sk_heap s) \<Longrightarrow> get_u16 p (length pre) s = Some (Inr (lwip_htons x))"
proof -
  assume bs: "bs = pre @ be16 x @ post" and h: "lone h0 p bs (sk_heap s)"
  have "get_bytes p (length pre) 2 s = Some (Inr (bytes16 (lwip_htons x)))" using lone_get [OF h, of "length pre" 2] bs by (simp add: be16_def bytes16_htons)
  then show ?thesis by (simp add: get_u16_def bytes16_def)
qed

lemma get_le32: "bs = pre @ bytes32 x @ post \<Longrightarrow> lone h0 p bs (sk_heap s) \<Longrightarrow> get_u32 p (length pre) s = Some (Inr x)"
proof -
  assume bs: "bs = pre @ bytes32 x @ post" and h: "lone h0 p bs (sk_heap s)"
  have "get_bytes p (length pre) 4 s = Some (Inr (bytes32 x))" using lone_get [OF h, of "length pre" 4] bs by simp
  then show ?thesis using mk32_bytes32 [of x] by (simp add: get_u32_def bytes32_def)
qed

lemma get_byte: "lone h0 p bs (sk_heap s) \<Longrightarrow> i < length bs \<Longrightarrow> get_u8 p i s = Some (Inr (bs ! i))"
  using lone_get [of h0 p bs s i 1] by (simp add: get_u8_def take_Suc_conv_app_nth)

lemma ip_packet_bytes:
  "ip_packet src dest ttl tos proto ident bs =
    [0x45, tos] @ be16 (of_nat (20 + length bs)) @ be16 ident @ be16 0 @ [ttl, proto] @
      bytes16 (inet_chksum (ip_fields src dest ttl tos proto ident (of_nat (20 + length bs)))) @ bytes32 src @ bytes32 dest @ bs"
  by (simp add: ip_packet_def Let_def ip_fields_def be16_def put16_def bytes16_def bytes32_def)

lemma udp_packet_bytes:
  "udp_packet src dest sport dport bs = be16 sport @ be16 dport @ be16 (of_nat (8 + length bs)) @ bytes16 (udp_sum src dest (udp_fields sport dport bs)) @ bs"
  by (simp add: udp_packet_def udp_fields_def put16_def be16_def bytes16_def)

lemma ntohs_htons [simp]: "lwip_ntohs (lwip_htons x) = x"
proof -
  have "bytes16 (lwip_htons (lwip_htons x)) = bytes16 x" unfolding bytes16_htons [of "lwip_htons x"]
    using bytes16_htons [of x] by (simp add: bytes16_def lo8_def hi8_def)
  then show ?thesis by (simp add: lwip_ntohs_def bytes16_def) (metis mk16_lo8_hi8)
qed

lemma udp_input_delivers:
  fixes s :: "('d, 'z) ipstack_scheme"
  assumes h: "lone h0 p (ip_packet src dst ttl tos 17 ident (udp_packet src dst sport dport bs)) (sk_heap s)"
    and cur: "current_iphdr_src s = src" "current_iphdr_dest s = dst" and x: "x = sk_netif s inp"
    and pcb: "pcb \<in> set (udp_pcbs s)" "fmlookup (udp_mem s) pcb = Some u" "up_flags u AND UDP_FLAGS_CONNECTED = 0" "up_recv u"
      "\<forall>q\<in>set (udp_pcbs s). \<exists>v. fmlookup (udp_mem s) q = Some v \<and> (udp_local_match dst dport (ip_addr_isbroadcast dst x) (ni_netmask x) v \<longleftrightarrow> q = pcb)"
  shows "\<exists>h' pcbs. udp_input E p inp s = udp_recv_fn E pcb p src sport (s\<lparr>sk_heap := h', udp_pcbs := pcbs\<rparr>) \<and> lone h0 p bs h' \<and> mset pcbs = mset (udp_pcbs s)"
proof -
  let ?U = "udp_packet src dst sport dport bs" and ?sum = "udp_sum src dst (udp_fields sport dport bs)"
  obtain pb where pb: "get_pbuf p s = Some (Inr pb)" "unat (pb_tot_len pb) = 28 + length bs" using lone_get_pbuf [OF h] by auto
  have v: "get_u8 p 0 s = Some (Inr 0x45)" using get_byte [OF h, of 0] by (simp add: ip_packet_bytes)
  obtain h1 where h1: "move_header p (- int 20) s = Some (Inr (False, s\<lparr>sk_heap := h1\<rparr>))" "lone h0 p ?U h1"
    using lone_move [OF h, of 20] by (auto simp: ip_packet_def Let_def)
  define s1 where "s1 = s\<lparr>sk_heap := h1\<rparr>"
  have L1: "lone h0 p ?U (sk_heap s1)" using h1(2) by (simp add: s1_def)
  have p: "get_u16 p 0 s1 = Some (Inr (lwip_htons sport))" "get_u16 p 2 s1 = Some (Inr (lwip_htons dport))"
    using get_be16 [OF _ L1, of "[]" sport] get_be16 [OF _ L1, of "be16 sport" dport] by (simp_all add: udp_packet_bytes) (simp_all add: be16_def numeral_2_eq_2)
  obtain pcbs where f: "udp_find (udp_local_match dst dport (ip_addr_isbroadcast dst x) (ni_netmask x)) (udp_remote_match src sport) (udp_mem s) (udp_pcbs s) None (udp_pcbs s) =
      Inr (Some pcb, pcbs)" "mset pcbs = mset (udp_pcbs s)" using udp_find_unique [OF pcb(5,2,3,1)] pcb(1) by blast
  define s2 where "s2 = s1\<lparr>udp_pcbs := pcbs\<rparr>"
  have L2: "lone h0 p ?U (sk_heap s2)" using L1 by (simp add: s2_def)
  have c: "get_u16 p 6 s2 = Some (Inr ?sum)"
    using lone_get [OF L2, of 6 2] by (simp add: get_u16_def udp_packet_bytes be16_def bytes16_def)
  obtain pb2 where pb2: "get_pbuf p s2 = Some (Inr pb2)" "unat (pb_tot_len pb2) = 8 + length bs" using lone_get_pbuf [OF L2] by auto
  have "pb_tot_len pb2 = of_nat (8 + length bs)" using pb2(2) by (metis of_nat_unat ucast_id)
  moreover have "packet (sk_heap s2) (Some p) [p] ?U" using L2 by (auto simp: lone_def)
  ultimately have z: "inet_chksum_pseudo (Some p) src dst 17 (pb_tot_len pb2) (sk_heap s2) = Some (Inr 0)"
    using inet_chksum_pseudo_law udp_sum_accepted(1) by metis
  obtain h3 where h3: "move_header p (- int 8) s2 = Some (Inr (False, s2\<lparr>sk_heap := h3\<rparr>))" "lone h0 p bs h3"
    using lone_move [OF L2, of 8] by (auto simp: udp_packet_bytes be16_def bytes16_def)
  have d: "udp_deliver E p 20 (Some pcb) sport (ip_addr_isbroadcast dst x) s2 = udp_recv_fn E pcb p src sport (s2\<lparr>sk_heap := h3\<rparr>)"
    using h3(1) pcb(2,4) cur by (simp add: udp_deliver_def UDP_HLEN_def get_pcb_def s2_def s1_def)
  have same: "current_iphdr_src s1 = src" "current_iphdr_dest s1 = dst" "sk_netif s1 inp = x" "udp_mem s1 = udp_mem s" "udp_pcbs s1 = udp_pcbs s"
    "current_iphdr_src s2 = src" "current_iphdr_dest s2 = dst" using cur x by (simp_all add: s2_def s1_def)
  have hl: "unat (0x45 AND 0x0f :: u8) * 4 = 20" by simp
  have "udp_input E p inp s = udp_recv_fn E pcb p src sport (s2\<lparr>sk_heap := h3\<rparr>)"
    using pb f(1) c pb2(1) z d udp_sum_accepted(2) [of src dst sport dport bs]
    by (simp add: udp_input_def UDP_HLEN_def Let_def IP_PROTO_UDP_def v hl h1(1) [folded s1_def, simplified] p same flip: s2_def)
  moreover have "s2\<lparr>sk_heap := h3\<rparr> = s\<lparr>sk_heap := h3, udp_pcbs := pcbs\<rparr>" by (simp add: s2_def s1_def)
  ultimately show ?thesis using h3(2) f(2) by auto
qed

lemma ip_input_delivers:
  fixes s :: "('d, 'z) ipstack_scheme"
  assumes pk: "packet (sk_heap s) (Some p) [p] (ip_packet src dst ttl tos 17 ident (udp_packet src dst sport dport bs) @ pad)"
    and raw: "raw_pcbs s = []" and acc: "ip_accept dst inp s \<noteq> None" and x: "x = sk_netif s inp" and src: "\<not> ip_addr_isbroadcast src x" "\<not> ip_addr_ismulticast src"
    and pcb: "pcb \<in> set (udp_pcbs s)" "fmlookup (udp_mem s) pcb = Some u" "up_flags u AND UDP_FLAGS_CONNECTED = 0" "up_recv u"
      "\<forall>q\<in>set (udp_pcbs s). \<exists>v. fmlookup (udp_mem s) q = Some v \<and> (udp_local_match dst dport (ip_addr_isbroadcast dst x) (ni_netmask x) v \<longleftrightarrow> q = pcb)"
  shows "\<exists>h' pcbs off. ip_input E p inp s =
      xbind (udp_recv_fn E pcb p src sport
               (s\<lparr>sk_heap := h', current_iphdr_dest := dst, current_iphdr_src := src, current_netif := Some inp, current_header := Some (p, off), udp_pcbs := pcbs\<rparr>))
        (\<lambda>s. Some (Inr (ERR_OK, s\<lparr>current_netif := None, current_header := None, current_iphdr_src := 0, current_iphdr_dest := 0\<rparr>))) \<and>
      lone (sk_heap s) p bs h' \<and> mset pcbs = mset (udp_pcbs s)"
proof -
  let ?U = "udp_packet src dst sport dport bs"
  let ?I = "ip_packet src dst ttl tos 17 ident ?U" and ?len = "of_nat (28 + length bs) :: u16"
  have L: "lone (sk_heap s) p (?I @ pad) (sk_heap s)" by (rule lone_self [OF pk])
  obtain pb where pb: "get_pbuf p s = Some (Inr pb)" "unat (pb_tot_len pb) = 28 + length bs + length pad" "pb_len pb = pb_tot_len pb" using lone_get_pbuf [OF L] by auto
  have u: "unat ?len = 28 + length bs" using pb(2) unat_lt_65536 [of "pb_tot_len pb"] by (intro unat_of_nat_u16) linarith
  have v: "get_u8 p 0 s = Some (Inr 0x45)" using get_byte [OF L, of 0] by (simp add: ip_packet_bytes)
  have l: "get_u16 p 2 s = Some (Inr (lwip_htons ?len))"
    using get_be16 [OF _ L, of "[0x45, tos]" ?len] by (simp add: ip_packet_bytes numeral_2_eq_2)
  have hd: "get_bytes p 0 20 s = Some (Inr (put16 (ip_fields src dst ttl tos 17 ident ?len) 10 (inet_chksum (ip_fields src dst ttl tos 17 ident ?len))))"
    using lone_get [OF L, of 0 20] by (simp add: ip_packet_def Let_def)
  obtain h1 where h1: "pbuf_realloc (memlib_of E) p ?len (sk_heap s) = Some (Inr h1)" "lone (sk_heap s) p ?I h1"
    using lone_realloc [OF L, of "28 + length bs" "memlib_of E"] by auto
  define s1 where "s1 = s\<lparr>sk_heap := h1\<rparr>"
  have L1: "lone (sk_heap s) p ?I (sk_heap s1)" using h1(2) by (simp add: s1_def)
  have a: "get_u32 p 16 s1 = Some (Inr dst)" "get_u32 p 12 s1 = Some (Inr src)"
    using get_le32 [OF _ L1, of "take 16 ?I" dst ?U] get_le32 [OF _ L1, of "take 12 ?I" src "bytes32 dst @ ?U"]
    by (simp_all add: ip_packet_bytes be16_def bytes16_def bytes32_def) (simp_all add: eval_nat_numeral)
  define s2 where "s2 = s1\<lparr>current_iphdr_dest := dst, current_iphdr_src := src\<rparr>"
  have L2: "lone (sk_heap s) p ?I (sk_heap s2)" using L1 by (simp add: s2_def)
  have o: "get_u16 p 6 s2 = Some (Inr 0)" using lone_get [OF L2, of 6 2] by (simp add: get_u16_def ip_packet_bytes be16_def mk16_def)
  obtain pb2 where pb2: "get_pbuf p s2 = Some (Inr pb2)" using lone_get_pbuf [OF L2] by auto
  define s3 where "s3 = s2\<lparr>current_netif := Some inp, current_header := Some (p, pb_payload pb2)\<rparr>"
  have L3: "lone (sk_heap s) p ?I (sk_heap s3)" using L2 by (simp add: s3_def)
  have "get_pbuf p s3 = Some (Inr pb2)" using pb2 by (simp add: get_pbuf_def s3_def)
  then have pr: "get_mem p (pb_payload pb2 + 9) 1 s3 = Some (Inr [17])"
    using lone_get [OF L3, of 9 1] get_mem_payload [of p s3 pb2 9 1] by (simp add: ip_packet_bytes be16_def)
  have r: "raw_input E p inp s3 = Some (Inr (False, s3))"
    using get_byte [OF L3, of 9] raw by (simp add: raw_input_def raw_input_loop.simps s3_def s2_def s1_def)
  obtain h' pcbs where d: "udp_input E p inp s3 = udp_recv_fn E pcb p src sport (s3\<lparr>sk_heap := h', udp_pcbs := pcbs\<rparr>)" "lone (sk_heap s) p bs h'" "mset pcbs = mset (udp_pcbs s3)"
    using udp_input_delivers [OF L3, of x inp pcb u E] pcb x by (auto simp: s3_def s2_def s1_def)
  have proto: "ip_protocol E p inp s2 = xbind (udp_recv_fn E pcb p src sport (s3\<lparr>sk_heap := h', udp_pcbs := pcbs\<rparr>))
      (\<lambda>s. Some (Inr (s\<lparr>current_netif := None, current_header := None, current_iphdr_src := 0, current_iphdr_dest := 0\<rparr>)))"
    using pb2 pr r d(1) by (simp add: ip_protocol_def IP_PROTO_UDP_def Let_def flip: s3_def)
  have "ip_accept dst inp s2 = ip_accept dst inp s" by (simp add: ip_accept_def s2_def s1_def)
  then have us: "ip_for_us E p inp s2 = ip_protocol E p inp s2" using acc src x o by (auto simp: ip_for_us_def s2_def s1_def Let_def)
  have fit: "\<not> pb_tot_len pb < ?len" using u pb(2) by (simp add: word_less_nat_alt)
  have i: "ip_input E p inp s = xbind (ip_for_us E p inp s2) (\<lambda>s. Some (Inr (ERR_OK, s)))"
    using pb v l hd h1(1) a fit ip_header_accepted [of src dst ttl tos 17 ident ?len] by (simp add: ip_input_def Let_def flip: s1_def) (simp add: s2_def)
  have e: "s3\<lparr>sk_heap := h', udp_pcbs := pcbs\<rparr> =
      s\<lparr>sk_heap := h', current_iphdr_dest := dst, current_iphdr_src := src, current_netif := Some inp, current_header := Some (p, pb_payload pb2), udp_pcbs := pcbs\<rparr>"
    by (simp add: s3_def s2_def s1_def)
  have assoc: "xbind (xbind m g) f = xbind m (\<lambda>x. xbind (g x) f)" for m f and g :: "'x \<Rightarrow> 'y res option" by (simp add: xbind_def split: option.split sum.split)
  have "mset pcbs = mset (udp_pcbs s)" using d(3) by (simp add: s3_def s2_def s1_def)
  then show ?thesis using d(2) unfolding i us proto e assoc xbind_simps by blast
qed

lemma lone_trans: "lone h0 p bs h1 \<Longrightarrow> lone h1 p cs h2 \<Longrightarrow> lone h0 p cs h2"
  by (auto simp: lone_def)

lemma lone_flags:
  assumes "lone h0 p bs h" "fmlookup h p = Some pb"
  shows "lone h0 p bs (fmupd p (pb\<lparr>pb_flags := fl\<rparr>) h)"
proof -
  obtain pb' where pb': "fmlookup h p = Some pb'" "pb_wf pb'" "pb_data pb' = bs" "pb_next pb' = None" "unat (pb_tot_len pb') = length bs"
    "\<And>qb. pb_ref qb = pb_ref pb' \<Longrightarrow> packet (fmupd p qb h) (Some p) [p] bs \<Longrightarrow> lone h0 p bs (fmupd p qb h)"
    using lone_pbuf [OF assms(1), of bs] by metis
  then have "pb' = pb" using assms(2) by simp
  moreover have "packet (fmupd p (pb'\<lparr>pb_flags := fl\<rparr>) h) (Some p) [p] bs" using pb'(2-5) by (simp add: pb_wf_def pb_data_def)
  ultimately show ?thesis using pb'(6) [of "pb'\<lparr>pb_flags := fl\<rparr>"] by simp
qed

text \<open>
  C11: A frame in the format that \<open>udp_sendto\<close> sends is delivered: when it is one pbuf, possibly with padding at the end, an interface that speaks ARP
  has received it, some interface accepts the destination address, the source is no broadcast or multicast address, no raw control block exists, and
  there is exactly one control block for the destination, which is not connected and has a callback, then \<open>ethernet_input\<close> calls that
  callback once, with the address and the port of the sender and with a pbuf that holds exactly the data; the rest
  of the heap is unchanged, the list of control blocks is only rearranged, and after the callback no packet is current.
\<close>

theorem udp_frame_delivered:
  fixes s :: "('d, 'z) ipstack_scheme"
  assumes "packet (sk_heap s) (Some p) [p] (eth_frame hwdst hwsrc 0x0800 (ip_packet src dst ttl tos 17 ident (udp_packet src dst sport dport bs)) @ pad)"
    "length hwdst = 6" "length hwsrc = 6" "ni_flags x AND NETIF_FLAG_ETHARP \<noteq> 0"
    "raw_pcbs s = []" "ip_accept dst inp s \<noteq> None" "x = sk_netif s inp" "\<not> ip_addr_isbroadcast src x" "\<not> ip_addr_ismulticast src"
    "pcb \<in> set (udp_pcbs s)" "fmlookup (udp_mem s) pcb = Some u" "up_flags u AND UDP_FLAGS_CONNECTED = 0" "up_recv u"
    "\<forall>q\<in>set (udp_pcbs s). \<exists>v. fmlookup (udp_mem s) q = Some v \<and> (udp_local_match dst dport (ip_addr_isbroadcast dst x) (ni_netmask x) v \<longleftrightarrow> q = pcb)"
  shows "\<exists>h' pcbs off. ethernet_input (memlib_of E) lo (ip_input E) p inp s =
      xbind (udp_recv_fn E pcb p src sport
               (s\<lparr>sk_heap := h', current_iphdr_dest := dst, current_iphdr_src := src, current_netif := Some inp, current_header := Some (p, off), udp_pcbs := pcbs\<rparr>))
        (\<lambda>s. Some (Inr (ERR_OK, s\<lparr>current_netif := None, current_header := None, current_iphdr_src := 0, current_iphdr_dest := 0\<rparr>))) \<and>
      lone (sk_heap s) p bs h' \<and> mset pcbs = mset (udp_pcbs s)"
proof -
  let ?I = "ip_packet src dst ttl tos 17 ident (udp_packet src dst sport dport bs)"
  let ?F = "eth_frame hwdst hwsrc 0x0800 ?I @ pad"
  have L: "lone (sk_heap s) p ?F (sk_heap s)" by (rule lone_self [OF assms(1)])
  obtain pb where pb: "fmlookup (sk_heap s) p = Some pb" "unat (pb_tot_len pb) = length ?F" "pb_len pb = pb_tot_len pb" using lone_get_pbuf [OF L] by auto
  have len: "length ?F = 42 + length bs + length pad" using assms(2,3) by (simp add: eth_frame_def)
  have ty: "get_u16 p 12 s = Some (Inr (lwip_htons ETHTYPE_IP))"
    using get_be16 [OF _ L, of "hwdst @ hwsrc" "0x0800" "?I @ pad"] assms(2,3) by (simp add: eth_frame_def be16_def ETHTYPE_IP_def)
  have gd: "get_bytes p 0 6 s = Some (Inr hwdst)" using lone_get [OF L, of 0 6] assms(2) len by (simp add: eth_frame_def)
  define s1 where "s1 = s\<lparr>sk_heap := fmupd p (pb\<lparr>pb_flags := eth_flags hwdst (pb_flags pb)\<rparr>) (sk_heap s)\<rparr>"
  have L1: "lone (sk_heap s) p ?F (sk_heap s1)" using lone_flags [OF L pb(1)] by (simp add: s1_def)
  obtain h2 where h2: "move_header p (- int 14) s1 = Some (Inr (False, s1\<lparr>sk_heap := h2\<rparr>))" "lone (sk_heap s) p (drop 14 ?F) h2"
    using lone_move [OF L1, of 14] len by auto
  have ph: "pbuf_header p (- int SIZEOF_ETH_HDR) (sk_heap s1) = Some (Inr (False, h2))"
    using h2(1) by (auto simp: move_header_def xbind_Inr_iff SIZEOF_ETH_HDR_def dest!: arg_cong [where f = sk_heap])
  define s2 where "s2 = s1\<lparr>sk_heap := h2\<rparr>"
  have "drop 14 ?F = ?I @ pad" using assms(2,3) by (simp add: eth_frame_def)
  then have L2: "lone (sk_heap s) p (?I @ pad) (sk_heap s2)" using h2(2) by (simp add: s2_def)
  then have pk2: "packet (sk_heap s2) (Some p) [p] (?I @ pad)" by (auto simp: lone_def)
  have same: "raw_pcbs s2 = raw_pcbs s" "sk_netif s2 = sk_netif s" "udp_pcbs s2 = udp_pcbs s" "udp_mem s2 = udp_mem s" "ip_accept dst inp s2 = ip_accept dst inp s"
    by (simp_all add: s2_def s1_def ip_accept_def)
  obtain h' pcbs off where d: "ip_input E p inp s2 =
      xbind (udp_recv_fn E pcb p src sport
               (s2\<lparr>sk_heap := h', current_iphdr_dest := dst, current_iphdr_src := src, current_netif := Some inp, current_header := Some (p, off), udp_pcbs := pcbs\<rparr>))
        (\<lambda>s. Some (Inr (ERR_OK, s\<lparr>current_netif := None, current_header := None, current_iphdr_src := 0, current_iphdr_dest := 0\<rparr>)))"
      "lone (sk_heap s2) p bs h'" "mset pcbs = mset (udp_pcbs s2)"
    using ip_input_delivers [OF pk2, of inp x pcb u E] assms(5-) unfolding same by blast
  have e: "s2\<lparr>sk_heap := h', current_iphdr_dest := dst, current_iphdr_src := src, current_netif := Some inp, current_header := Some (p, off), udp_pcbs := pcbs\<rparr> =
      s\<lparr>sk_heap := h', current_iphdr_dest := dst, current_iphdr_src := src, current_netif := Some inp, current_header := Some (p, off), udp_pcbs := pcbs\<rparr>"
    by (simp add: s2_def s1_def)
  have ge: "\<not> unat (pb_len pb) \<le> SIZEOF_ETH_HDR" using pb(2,3) len by (simp add: SIZEOF_ETH_HDR_def)
  have "ethernet_input (memlib_of E) lo (ip_input E) p inp s = xbind (ip_input E p inp s2) (\<lambda>(_, s). Some (Inr (ERR_OK, s)))"
    using pb(1) ge ty gd ph assms(4,7) by (simp add: ethernet_input_def Let_def s2_def flip: s1_def) (simp add: s1_def)
  moreover have assoc: "xbind (xbind m g) f = xbind m (\<lambda>x. xbind (g x) f)" for m f and g :: "'x \<Rightarrow> 'y res option" by (simp add: xbind_def split: option.split sum.split)
  ultimately have "ethernet_input (memlib_of E) lo (ip_input E) p inp s =
      xbind (udp_recv_fn E pcb p src sport
               (s\<lparr>sk_heap := h', current_iphdr_dest := dst, current_iphdr_src := src, current_netif := Some inp, current_header := Some (p, off), udp_pcbs := pcbs\<rparr>))
        (\<lambda>s. Some (Inr (ERR_OK, s\<lparr>current_netif := None, current_header := None, current_iphdr_src := 0, current_iphdr_dest := 0\<rparr>)))"
    unfolding d(1) e assoc by simp
  then show ?thesis using lone_trans [OF L2 d(2)] d(3) same(3) by auto
qed

definition ex_rx :: "u8 list \<Rightarrow> enetdata ipstack" where
  "ex_rx bs = ex_ip\<lparr>sk_heap := fmupd 5 \<lparr>pb_next = None, pb_mem = bs, pb_payload = 0, pb_tot_len = of_nat (length bs), pb_len = of_nat (length bs), pb_type = PBUF_RAM,
     pb_flags = 0, pb_ref = 1\<rparr> fmempty\<rparr>"

lemma ex_rx_packet: "length bs < 65536 \<Longrightarrow> packet (sk_heap (ex_rx bs)) (Some 5) [5] bs"
  by (simp add: ex_rx_def pb_wf_def pb_data_def unat_of_nat_u16)

definition ex_datagram :: "u8 list" where
  "ex_datagram = eth_frame [2, 0, 0, 0, 0, 1] [2, 0, 0, 0, 0, 9] 0x0800 (ip_packet (IP4_ADDR 192 168 1 30) (IP4_ADDR 192 168 1 20) 255 0 17 1
     (udp_packet (IP4_ADDR 192 168 1 30) (IP4_ADDR 192 168 1 20) 5001 5000 [1, 2, 3])) @ [0, 0]"

theorem udp_frame_delivered_witness:
  "\<exists>h' off. ethernet_input ex_lib1 (emac_out ex_chip id) (ip_input (ex_env\<lparr>udp_recv_fn := \<lambda>pcb p a port s. Some (Inr (s\<lparr>udp_port := port\<rparr>))\<rparr>)) 5 0 (ex_rx ex_datagram) =
      Some (Inr (ERR_OK, (ex_rx ex_datagram)\<lparr>sk_heap := h', udp_port := 5001\<rparr>)) \<and>
    lone (sk_heap (ex_rx ex_datagram)) 5 [1, 2, 3] h'"
proof -
  let ?E = "ex_env\<lparr>udp_recv_fn := \<lambda>pcb p a port s. Some (Inr (s\<lparr>udp_port := port\<rparr>))\<rparr>"
  have pk: "packet (sk_heap (ex_rx ex_datagram)) (Some 5) [5] (eth_frame [2, 0, 0, 0, 0, 1] [2, 0, 0, 0, 0, 9] 0x0800 (ip_packet (IP4_ADDR 192 168 1 30) (IP4_ADDR 192 168 1 20) 255 0 17 1
      (udp_packet (IP4_ADDR 192 168 1 30) (IP4_ADDR 192 168 1 20) 5001 5000 [1, 2, 3])) @ [0, 0])"
    using ex_rx_packet [of ex_datagram] by (simp add: ex_datagram_def eth_frame_def)
  have x: "sk_netif (ex_rx b) 0 = ex_nif" "raw_pcbs (ex_rx b) = []" "udp_pcbs (ex_rx b) = [0]" "udp_mem (ex_rx b) = fmupd 0 ex_pcb fmempty" for b
    by (simp_all add: ex_rx_def ex_ip_simps)
  have acc: "ip_accept (IP4_ADDR 192 168 1 20) 0 (ex_rx ex_datagram) \<noteq> None"
    by (simp add: ip_accept_def ip_accepts_def x netif_is_up_def NETIF_FLAG_UP_def ex_nif_def IPADDR_ANY_def IP4_ADDR_def)
  have src: "\<not> ip_addr_isbroadcast (IP4_ADDR 192 168 1 30) ex_nif" "\<not> ip_addr_ismulticast (IP4_ADDR 192 168 1 30)"
    using ex_unicast by (simp_all add: unicast_def)
  have nb: "\<not> ip_addr_isbroadcast (IP4_ADDR 192 168 1 20) ex_nif"
    by (simp add: ex_nif_def IP4_ADDR_def ip_addr_isbroadcast_def ip4_addr_isbroadcast_def)
  have arp: "ni_flags ex_nif AND NETIF_FLAG_ETHARP \<noteq> 0" by (simp add: ex_nif_def NETIF_FLAG_ETHARP_def)
  obtain h' pcbs off where d: "ethernet_input (memlib_of ?E) (emac_out ex_chip id) (ip_input ?E) 5 0 (ex_rx ex_datagram) =
      xbind (udp_recv_fn ?E 0 5 (IP4_ADDR 192 168 1 30) 5001 ((ex_rx ex_datagram)\<lparr>sk_heap := h', current_iphdr_dest := IP4_ADDR 192 168 1 20,
         current_iphdr_src := IP4_ADDR 192 168 1 30, current_netif := Some 0, current_header := Some (5, off), udp_pcbs := pcbs\<rparr>))
       (\<lambda>s. Some (Inr (ERR_OK, s\<lparr>current_netif := None, current_header := None, current_iphdr_src := 0, current_iphdr_dest := 0\<rparr>)))"
    "lone (sk_heap (ex_rx ex_datagram)) 5 [1, 2, 3] h'" "mset pcbs = mset (udp_pcbs (ex_rx ex_datagram))"
    using udp_frame_delivered [OF pk _ _ arp x(2) acc x(1) [symmetric] src, of 0 ex_pcb ?E "emac_out ex_chip id"] x nb
    by (auto simp: x udp_local_match_def ex_pcb_def UDP_FLAGS_CONNECTED_def IPADDR_ANY_def)
  have "pcbs = [0]" using d(3) by (simp add: x)
  moreover have "memlib_of ?E = ex_lib1" by (simp add: ex_env_def)
  ultimately show ?thesis using d(1,2) by (auto simp: ex_rx_def ex_ip_def stack.defs)
qed

section \<open>A packet that stops the stack\<close>

text \<open>The bytes of the packet are still in the memory of the pbuf after it has been cut.\<close>

definition in_mem :: "nat \<Rightarrow> u8 list \<Rightarrow> heap \<Rightarrow> bool" where
  "in_mem p bs h \<longleftrightarrow> (\<exists>pb. fmlookup h p = Some pb \<and> pb_payload pb + length bs \<le> length (pb_mem pb) \<and> take (length bs) (drop (pb_payload pb) (pb_mem pb)) = bs)"

lemma in_mem_get:
  assumes "in_mem p bs (sk_heap s)" "off + n \<le> length bs"
  shows "get_bytes p off n s = Some (Inr (take n (drop off bs)))"
proof -
  obtain pb where pb: "fmlookup (sk_heap s) p = Some pb" "pb_payload pb + length bs \<le> length (pb_mem pb)" "take (length bs) (drop (pb_payload pb) (pb_mem pb)) = bs"
    using assms(1) by (auto simp: in_mem_def)
  have "take n (drop off (take (length bs) (drop (pb_payload pb) (pb_mem pb)))) = take n (drop off (drop (pb_payload pb) (pb_mem pb)))"
    using assms(2) by (simp add: drop_take min_def)
  then have "take n (drop off bs) = take n (drop off (drop (pb_payload pb) (pb_mem pb)))" unfolding pb(3) .
  then show ?thesis using pb(1,2) assms(2) by (simp add: get_bytes_def pl_get_def read_bytes_def drop_drop ac_simps)
qed

lemma in_mem_u8: "in_mem p bs (sk_heap s) \<Longrightarrow> i < length bs \<Longrightarrow> get_u8 p i s = Some (Inr (bs ! i))"
  using in_mem_get [of p bs s i 1] by (simp add: get_u8_def take_Suc_conv_app_nth)

lemma in_mem_u16: "in_mem p bs (sk_heap s) \<Longrightarrow> Suc i < length bs \<Longrightarrow> get_u16 p i s = Some (Inr (mk16 (bs ! i) (bs ! Suc i)))"
  using in_mem_get [of p bs s i 2] by (simp add: get_u16_def)

lemma in_mem_u32: "in_mem p bs (sk_heap s) \<Longrightarrow> i + 3 < length bs \<Longrightarrow> get_u32 p i s = Some (Inr (mk32 (bs ! i) (bs ! (i + 1)) (bs ! (i + 2)) (bs ! (i + 3))))"
  using in_mem_get [of p bs s i 4] by (simp add: get_u32_def)

lemma icmp_short_stops:
  fixes s :: "('d, 'z) ipstack_scheme"
  assumes pk: "packet (sk_heap s) (Some p) [p] bs" "20 \<le> length bs" "inet_chksum (take 20 bs) = 0"
    and hd: "bs ! 0 = 0x45" "bs ! 2 = 0" "unat (bs ! 3) < 20" "bs ! 6 = 0" "bs ! 7 = 0" "bs ! 9 = 1"
    and raw: "raw_pcbs s = []" and dst: "ip_accept (mk32 (bs ! 16) (bs ! 17) (bs ! 18) (bs ! 19)) inp s \<noteq> None"
    and src: "src = mk32 (bs ! 12) (bs ! 13) (bs ! 14) (bs ! 15)" "\<not> ip_addr_isbroadcast src (sk_netif s inp)" "\<not> ip_addr_ismulticast src"
  shows "ip_input E p inp s = None"
proof -
  let ?dst = "mk32 (bs ! 16) (bs ! 17) (bs ! 18) (bs ! 19)" and ?len = "ucast (bs ! 3) :: u16"
  have L: "lone (sk_heap s) p bs (sk_heap s)" by (rule lone_self [OF pk(1)])
  obtain pb where pb: "fmlookup (sk_heap s) p = Some pb" "pb_wf pb" "pb_data pb = bs" "pb_next pb = None" "unat (pb_tot_len pb) = length bs" "pb_len pb = pb_tot_len pb"
    by (rule lone_pbuf [OF L])
  have m: "in_mem p bs (sk_heap s)" using pb by (auto simp: in_mem_def pb_wf_def pb_data_def)
  have i: "i < 20 \<Longrightarrow> i < length bs" for i using pk(2) by simp
  have u8: "in_mem p bs (sk_heap s') \<Longrightarrow> get_u8 p 0 s' = Some (Inr 0x45)" "in_mem p bs (sk_heap s') \<Longrightarrow> get_u8 p 9 s' = Some (Inr 1)"
    for s' :: "('d, 'z) ipstack_scheme" using in_mem_u8 [of p bs s', OF _ i] hd(1,6) by fastforce+
  have n: "lwip_ntohs (mk16 0 (bs ! 3)) = ?len"
  proof -
    have "mk16 0 (bs ! 3) = lwip_htons ?len" by (simp add: htons_bytes mk16_def lo8_def hi8_def or.commute) (rule bit_word_eqI, auto simp: bit_simps dest: bit_imp_le_length)
    then show ?thesis by simp
  qed
  have lt: "unat ?len < 20" "?len < pb_tot_len pb" using hd(3) pk(2) pb(5) by (simp_all add: word_less_nat_alt unat_ucast_u8_u16)
  define h1 where "h1 = fmupd p (pb\<lparr>pb_len := ?len, pb_tot_len := ?len, pb_next := None\<rparr>) (sk_heap s)"
  have r: "pbuf_realloc (memlib_of E) p ?len (sk_heap s) = Some (Inr h1)"
    using pb(1,4,6) lt(2) by (auto simp: h1_def pbuf_realloc_def not_le realloc_loop.simps realloc_last_def set_next_def Let_def)
  define s1 where "s1 = s\<lparr>sk_heap := h1\<rparr>"
  have m1: "in_mem p bs (sk_heap s1)" using m pb(1) by (auto simp: s1_def h1_def in_mem_def)
  define s2 where "s2 = s1\<lparr>current_iphdr_dest := ?dst, current_iphdr_src := src\<rparr>"
  have m2: "in_mem p bs (sk_heap s2)" using m1 by (simp add: s2_def)
  define s3 where "s3 = s2\<lparr>current_netif := Some inp, current_header := Some (p, pb_payload pb)\<rparr>"
  have m3: "in_mem p bs (sk_heap s3)" using m2 by (simp add: s3_def)
  have p3: "fmlookup (sk_heap s3) p = Some (pb\<lparr>pb_len := ?len, pb_tot_len := ?len, pb_next := None\<rparr>)" by (simp add: s3_def s2_def s1_def h1_def)
  have "pbuf_header p (- int 20) (sk_heap s3) = None"
  proof -
    have "\<not> int 20 \<le> uint ?len" using lt(1) by (simp only: uint_nat of_nat_le_iff)
    then show ?thesis using p3 by (simp add: pbuf_header_def)
  qed
  then have "icmp_input E p inp s3 = None"
    using p3 by (simp add: u8(1) [OF m3] icmp_input_def get_pbuf_def move_header_def Let_def)
  moreover have "raw_input E p inp s3 = Some (Inr (False, s3))"
    using raw u8(2) [OF m3] by (simp add: raw_input_def raw_input_loop.simps s3_def s2_def s1_def)
  moreover have "get_pbuf p s2 = Some (Inr (pb\<lparr>pb_len := ?len, pb_tot_len := ?len, pb_next := None\<rparr>))" by (simp add: get_pbuf_def s2_def s1_def h1_def)
  moreover have "get_mem p (pb_payload pb + 9) 1 s3 = Some (Inr [1])"
  proof -
    have "get_mem p (pb_payload pb + 9) 1 s3 = get_bytes p 9 1 s3" using p3 get_mem_payload [of p s3 _ 9 1] by (simp add: get_pbuf_def)
    also have "\<dots> = Some (Inr (take 1 (drop 9 bs)))" using in_mem_get [OF m3, of 9 1] pk(2) by simp
    also have "take 1 (drop 9 bs) = [1]" using hd(6) i [of 9] by (simp add: take_Suc_conv_app_nth)
    finally show ?thesis .
  qed
  ultimately have proto: "ip_protocol E p inp s2 = None"
    by (simp add: ip_protocol_def IP_PROTO_UDP_def IP_PROTO_ICMP_def Let_def flip: s3_def)
  have "ip_accept ?dst inp s2 = ip_accept ?dst inp s" by (simp add: ip_accept_def s2_def s1_def)
  then have us: "ip_for_us E p inp s2 = None"
    using dst src(2,3) in_mem_u16 [OF m2, of 6] pk(2) hd(4,5) proto by (auto simp: ip_for_us_def Let_def mk16_def) (simp_all add: s2_def s1_def)
  have hl: "unat (0x45 AND 0x0f :: u8) * 4 = 20" by simp
  have len: "\<not> 20 > unat (pb_len pb)" "\<not> pb_tot_len pb < ?len" using pk(2) pb(5,6) lt(2) by simp_all
  have get: "get_u8 p 0 s = Some (Inr 0x45)" "get_u16 p 2 s = Some (Inr (mk16 0 (bs ! 3)))" "get_bytes p 0 20 s = Some (Inr (take 20 bs))"
    "get_u32 p 16 s1 = Some (Inr ?dst)" "get_u32 p 12 s1 = Some (Inr src)"
    using u8(1) [OF m] in_mem_u16 [OF m, of 2] in_mem_get [OF m, of 0 20] in_mem_u32 [OF m1, of 16] in_mem_u32 [OF m1, of 12] pk(2) hd(1,2) src(1)
    by (simp_all add: eval_nat_numeral)
  show ?thesis using pb(1) get len pk(3) r us by (simp add: ip_input_def get_pbuf_def hl n Let_def flip: s1_def) (simp add: s2_def)
qed

text \<open>
  C16: An ICMP packet for the device with a correct header of 20 bytes whose total length field says less than 20 is not rejected: \<open>ip_input\<close> cuts
  the pbuf to that length, and the assertion of \<open>pbuf_header\<close>, called by \<open>icmp_input\<close> to step over the header, loops for ever. One frame
  of a neighbour stops the main loop.
\<close>

theorem icmp_short_total_length_hangs:
  fixes s :: "('d, 'z) ipstack_scheme"
  assumes "packet (sk_heap s) (Some p) [p] bs" "20 \<le> length bs" "inet_chksum (take 20 bs) = 0"
    "bs ! 0 = 0x45" "bs ! 2 = 0" "unat (bs ! 3) < 20" "bs ! 6 = 0" "bs ! 7 = 0" "bs ! 9 = 1" "raw_pcbs s = []"
    "ip_accept (mk32 (bs ! 16) (bs ! 17) (bs ! 18) (bs ! 19)) inp s \<noteq> None" "src = mk32 (bs ! 12) (bs ! 13) (bs ! 14) (bs ! 15)"
    "\<not> ip_addr_isbroadcast src (sk_netif s inp)" "\<not> ip_addr_ismulticast src"
  shows "ip_input E p inp s = None"
  by (rule icmp_short_stops [OF assms])

definition ex_short :: "u8 list" where
  "ex_short = put16 (ip_fields (IP4_ADDR 192 168 1 30) (IP4_ADDR 192 168 1 20) 255 0 1 1 10) 10
     (inet_chksum (ip_fields (IP4_ADDR 192 168 1 30) (IP4_ADDR 192 168 1 20) 255 0 1 1 10))"

lemma ex_short_bytes:
  "length ex_short = 20" "ex_short ! 0 = 0x45" "ex_short ! 2 = 0" "ex_short ! 3 = 10" "ex_short ! 6 = 0" "ex_short ! 7 = 0" "ex_short ! 9 = 1"
  "mk32 (ex_short ! 16) (ex_short ! 17) (ex_short ! 18) (ex_short ! 19) = IP4_ADDR 192 168 1 20"
  "mk32 (ex_short ! 12) (ex_short ! 13) (ex_short ! 14) (ex_short ! 15) = IP4_ADDR 192 168 1 30"
  by (simp_all add: ex_short_def) (simp_all add: ip_fields_def be16_def put16_def bytes32_def IP4_ADDR_def mk32_def)

theorem icmp_short_total_length_hangs_witness: "ip_input ex_env 5 0 (ex_rx ex_short) = None"
proof -
  have x: "sk_netif (ex_rx b) 0 = ex_nif" "raw_pcbs (ex_rx b) = []" for b by (simp_all add: ex_rx_def ex_ip_simps)
  have acc: "ip_accept (IP4_ADDR 192 168 1 20) 0 (ex_rx ex_short) \<noteq> None"
    by (simp add: ip_accept_def ip_accepts_def x netif_is_up_def NETIF_FLAG_UP_def ex_nif_def IPADDR_ANY_def IP4_ADDR_def)
  have c: "inet_chksum (take 20 ex_short) = 0" using ip_header_accepted by (simp add: ex_short_def)
  show ?thesis
    by (rule icmp_short_total_length_hangs [OF ex_rx_packet _ c ex_short_bytes(2,3) _ ex_short_bytes(5,6,7) x(2) _ refl])
      (use acc ex_unicast in \<open>simp_all add: ex_short_bytes x unicast_def\<close>)
qed

end
