(* ===== verification/UdpPorts.thy ===== *)
theory UdpPorts
  imports IpInput
begin

text \<open>
  The control blocks of UDP in every reachable state: the active list, the ports, and the search for a free port.
\<close>

section \<open>Free ports\<close>

definition port_index :: "u16 \<Rightarrow> nat" where "port_index port = unat port - 0xc000"

lemma next_port_index:
  assumes "0xc000 \<le> unat port"
  shows "0xc000 \<le> unat (next_port port)" "port_index (next_port port) = Suc (port_index port) mod 0x4000"
proof -
  have lt: "unat port < 0x10000" using unat_lt_65536 [of port] by simp
  have "unat (next_port port) = (if unat port = 0xffff then 0xc000 else unat port + 1)"
  proof (cases "port = 0xffff")
    case False
    then have "unat port \<noteq> 0xffff" by (simp add: word_unat_eq_iff)
    then have "unat port + 1 < 0x10000" using lt by linarith
    then have "unat (port + 1) = unat port + 1" by (simp add: unat_word_ariths(1))
    then show ?thesis using False \<open>unat port \<noteq> 0xffff\<close> by (simp add: next_port_def udp_consts)
  qed (simp add: next_port_def udp_consts)
  moreover have "Suc (port_index port) < 0x4000" if "unat port \<noteq> 0xffff" using assms lt that unfolding port_index_def by linarith
  ultimately show "0xc000 \<le> unat (next_port port)" "port_index (next_port port) = Suc (port_index port) mod 0x4000"
    using assms by (auto simp: port_index_def)
qed

lemma new_port_loop_ok:
  assumes "0xc000 \<le> unat port" "n \<le> 0x3fff" "new_port_loop used n port = (r, q)"
  shows "0xc000 \<le> unat q" "r = 0 \<or> r \<notin> set used \<and> r = q"
    "r = 0 \<Longrightarrow> k \<le> 0x3fff - n \<Longrightarrow> \<exists>v\<in>set used. 0xc000 \<le> unat v \<and> port_index v = (port_index port + Suc k) mod 0x4000"
proof -
  let ?P = "\<lambda>used n port. 0xc000 \<le> unat port \<longrightarrow> n \<le> 0x3fff \<longrightarrow> (\<forall>r q. new_port_loop used n port = (r, q) \<longrightarrow>
      0xc000 \<le> unat q \<and> (r = 0 \<or> r \<notin> set used \<and> r = q) \<and>
      (r = 0 \<longrightarrow> (\<forall>k \<le> 0x3fff - n. \<exists>v\<in>set used. 0xc000 \<le> unat v \<and> port_index v = (port_index port + Suc k) mod 0x4000)))"
  have "?P used n port"
  proof (induction used n port rule: new_port_loop.induct)
    case (1 used n port)
    show ?case
    proof (intro impI allI)
      fix r q assume p: "0xc000 \<le> unat port" "n \<le> 0x3fff" and e: "new_port_loop used n port = (r, q)"
      let ?p = "next_port port"
      note N = next_port_index [OF p(1)]
      have m: "unat (UDP_LOCAL_PORT_RANGE_END - UDP_LOCAL_PORT_RANGE_START) = 0x3fff" by (simp add: udp_consts)
      have nz: "?p \<noteq> 0" using N(1) by auto
      consider "?p \<notin> set used" "(r, q) = (?p, ?p)" | "?p \<in> set used" "n = 0x3fff" "(r, q) = (0, ?p)"
        | "?p \<in> set used" "n + 1 \<le> 0x3fff" "new_port_loop used (n + 1) ?p = (r, q)"
        using e p(2) unfolding new_port_loop.simps [of used n port] Let_def m by (auto split: if_splits)
      then show "0xc000 \<le> unat q \<and> (r = 0 \<or> r \<notin> set used \<and> r = q) \<and>
        (r = 0 \<longrightarrow> (\<forall>k \<le> 0x3fff - n. \<exists>v\<in>set used. 0xc000 \<le> unat v \<and> port_index v = (port_index port + Suc k) mod 0x4000))"
      proof cases
        case 3
        have IH: "0xc000 \<le> unat q \<and> (r = 0 \<or> r \<notin> set used \<and> r = q) \<and>
            (r = 0 \<longrightarrow> (\<forall>k \<le> 0x3fff - (n + 1). \<exists>v\<in>set used. 0xc000 \<le> unat v \<and> port_index v = (port_index ?p + Suc k) mod 0x4000))"
          using 1 [OF refl 3(1)] 3(2,3) N(1) m by auto
        have "\<exists>v\<in>set used. 0xc000 \<le> unat v \<and> port_index v = (port_index port + Suc k) mod 0x4000" if "r = 0" "k \<le> 0x3fff - n" for k
        proof (cases k)
          case (Suc j)
          then have "\<exists>v\<in>set used. 0xc000 \<le> unat v \<and> port_index v = (port_index ?p + Suc j) mod 0x4000" using IH that by auto
          moreover have "(port_index ?p + Suc j) mod 0x4000 = (port_index port + Suc k) mod 0x4000"
            unfolding N(2) Suc mod_add_left_eq by simp
          ultimately show ?thesis by simp
        qed (use 3(1) N in auto)
        then show ?thesis using IH by blast
      qed (use N nz in auto)
    qed
  qed
  then show "0xc000 \<le> unat q" "r = 0 \<or> r \<notin> set used \<and> r = q"
    "r = 0 \<Longrightarrow> k \<le> 0x3fff - n \<Longrightarrow> \<exists>v\<in>set used. 0xc000 \<le> unat v \<and> port_index v = (port_index port + Suc k) mod 0x4000"
    using assms by blast+
qed

lemma new_port_found:
  assumes "0xc000 \<le> unat port" "length used < 0x4000" "new_port_loop used 0 port = (r, q)"
  shows "r \<notin> set used" "0xc000 \<le> unat r" "q = r"
proof -
  note L = new_port_loop_ok [OF assms(1) _ assms(3)]
  have "r \<noteq> 0"
  proof
    assume r: "r = 0"
    have "{..<0x4000} \<subseteq> port_index ` set used"
    proof
      fix i :: nat assume "i \<in> {..<0x4000}"
      then have i: "i < 0x4000" by simp
      let ?a = "port_index port"
      define k where "k = (i + 0x4000 - Suc ?a mod 0x4000) mod 0x4000"
      have "k \<le> 0x3fff - 0" by (simp add: k_def less_Suc_eq_le [symmetric])
      then obtain v where v: "v \<in> set used" "port_index v = (?a + Suc k) mod 0x4000" using L(3) [OF _ r, of k] by auto
      have "(?a + Suc k) mod 0x4000 = (Suc ?a mod 0x4000 + k) mod 0x4000" unfolding mod_add_left_eq by simp
      also have "\<dots> = (Suc ?a mod 0x4000 + (i + 0x4000 - Suc ?a mod 0x4000)) mod 0x4000" unfolding k_def by (rule mod_add_right_eq)
      also have "Suc ?a mod 0x4000 + (i + 0x4000 - Suc ?a mod 0x4000) = i + 0x4000" by (simp add: less_imp_le trans_less_add2)
      finally have "port_index v = i" using v(2) i by simp
      then show "i \<in> port_index ` set used" using v(1) by auto
    qed
    then have "card {..<0x4000 :: nat} \<le> card (port_index ` set used)" by (rule card_mono [rotated]) simp
    also have "\<dots> \<le> length used" using card_image_le [of "set used" port_index] card_length [of used] by simp
    finally show False using assms(2) by simp
  qed
  then show "r \<notin> set used" "0xc000 \<le> unat r" "q = r" using L(1,2) by auto
qed

section \<open>Well-formed control blocks\<close>

text \<open>Two blocks with the same port whose addresses overlap.\<close>

definition clash :: "udp_pcb \<Rightarrow> udp_pcb \<Rightarrow> bool" where
  "clash u v \<longleftrightarrow> up_local_port u = up_local_port v \<and> (up_local_ip u = IPADDR_ANY \<or> up_local_ip v = IPADDR_ANY \<or> up_local_ip u = up_local_ip v)"

text \<open>The active blocks are those with a port; each is once in the list, and no two of them clash.\<close>

definition blocks_ok :: "(nat, udp_pcb) fmap \<Rightarrow> nat list \<Rightarrow> bool" where
  "blocks_ok m pcbs \<longleftrightarrow>
     distinct pcbs \<and> (\<forall>a. a \<in> set pcbs \<longleftrightarrow> (\<exists>u. fmlookup m a = Some u \<and> up_local_port u \<noteq> 0)) \<and>
     (\<forall>a b u v. a \<in> set pcbs \<longrightarrow> b \<in> set pcbs \<longrightarrow> a \<noteq> b \<longrightarrow> fmlookup m a = Some u \<longrightarrow> fmlookup m b = Some v \<longrightarrow> \<not> clash u v) \<and>
     card (fmdom' m) < 0x4000"

definition udp_ok :: "('d, 'z) ipstack_scheme \<Rightarrow> bool" where
  "udp_ok s \<longleftrightarrow> blocks_ok (udp_mem s) (udp_pcbs s) \<and> 0xc000 \<le> unat (udp_port s)"

lemma blocks_ok_short: "blocks_ok m pcbs \<Longrightarrow> length pcbs < 0x4000"
proof -
  assume a: "blocks_ok m pcbs"
  have "set pcbs \<subseteq> fmdom' m"
  proof
    fix x assume "x \<in> set pcbs"
    then show "x \<in> fmdom' m" using a unfolding blocks_ok_def by (metis fmdom'I)
  qed
  then have "card (set pcbs) \<le> card (fmdom' m)" by (intro card_mono) simp_all
  moreover have "card (fmdom' m) < 0x4000" using a by (simp add: blocks_ok_def)
  moreover have "card (set pcbs) = length pcbs" using a by (auto simp: blocks_ok_def distinct_card)
  ultimately show ?thesis by simp
qed

text \<open>A block gets its port and its address.\<close>

lemma blocks_ok_bind:
  assumes ok: "blocks_ok m pcbs" and u: "fmlookup m pcb = Some u" and port: "up_local_port u' \<noteq> 0"
    and free: "\<And>b v. b \<in> set pcbs \<Longrightarrow> b \<noteq> pcb \<Longrightarrow> fmlookup m b = Some v \<Longrightarrow> \<not> clash u' v"
  shows "blocks_ok (fmupd pcb u' m) (if pcb \<in> set pcbs then pcbs else pcb # pcbs)"
proof -
  let ?l = "if pcb \<in> set pcbs then pcbs else pcb # pcbs"
  have c: "clash x y \<longleftrightarrow> clash y x" for x y by (auto simp: clash_def)
  have "fmdom' (fmupd pcb u' m) = fmdom' m" using u by (auto simp: fmdom'I)
  moreover have "set ?l = insert pcb (set pcbs)" by auto
  moreover have "distinct ?l" using ok by (auto simp: blocks_ok_def)
  moreover have "\<not> clash x y" if t: "a \<in> set ?l" "b \<in> set ?l" "a \<noteq> b" "fmlookup (fmupd pcb u' m) a = Some x" "fmlookup (fmupd pcb u' m) b = Some y" for a b x y
  proof -
    consider "a = pcb" "b \<noteq> pcb" | "b = pcb" "a \<noteq> pcb" | "a \<noteq> pcb" "b \<noteq> pcb" using t(3) by blast
    then show ?thesis
    proof cases
      case 1
      then show ?thesis using free [of b y] t by (auto split: if_splits)
    next
      case 2
      then show ?thesis using free [of a x] t c [of x y] by (auto split: if_splits)
    next
      case 3
      then have "a \<in> set pcbs" "b \<in> set pcbs" "fmlookup m a = Some x" "fmlookup m b = Some y" using t by (auto split: if_splits)
      then show ?thesis using ok t(3) unfolding blocks_ok_def by blast
    qed
  qed
  ultimately show ?thesis using ok port unfolding blocks_ok_def by auto
qed

text \<open>A change that keeps port and address of a block.\<close>

lemma blocks_ok_same:
  assumes "blocks_ok m pcbs" "fmlookup m pcb = Some u" "up_local_port u' = up_local_port u" "up_local_ip u' = up_local_ip u"
  shows "blocks_ok (fmupd pcb u' m) pcbs"
proof -
  have c: "clash u' v \<longleftrightarrow> clash u v" "clash v u' \<longleftrightarrow> clash v u" for v using assms(3,4) by (simp_all add: clash_def)
  have "fmdom' (fmupd pcb u' m) = fmdom' m" using assms(2) by (auto simp: fmdom'I)
  then show ?thesis using assms unfolding blocks_ok_def by (auto simp: c) (blast+)?
qed

lemma blocks_ok_perm: "blocks_ok m pcbs \<Longrightarrow> mset pcbs' = mset pcbs \<Longrightarrow> blocks_ok m pcbs'"
  unfolding blocks_ok_def by (metis (no_types, lifting) mset_eq_imp_distinct_iff mset_eq_setD)

section \<open>The operations\<close>

lemma scan_ok:
  assumes "distinct pcbs" "\<forall>a\<in>set pcbs. fmlookup m a \<noteq> None" "rebind \<longrightarrow> pcb \<notin> set pcbs"
  shows "bind_scan m pcb ipaddr port rebind pcbs =
    Some (Inr (if \<exists>b v. b \<in> set pcbs \<and> b \<noteq> pcb \<and> fmlookup m b = Some v \<and> up_local_port v = port \<and> (up_local_ip v = IPADDR_ANY \<or> ip_addr_isany ipaddr \<or> Some (up_local_ip v) = ipaddr)
               then None else Some (rebind \<or> pcb \<in> set pcbs)))"
  using assms
proof (induction pcbs arbitrary: rebind)
  case (Cons a pcbs)
  show ?case
  proof (cases "a = pcb")
    case True
    then show ?thesis using Cons by auto
  next
    case False
    obtain v where v: "fmlookup m a = Some v" using Cons.prems(2) by auto
    show ?thesis
    proof (cases "up_local_port v = port \<and> (up_local_ip v = IPADDR_ANY \<or> ip_addr_isany ipaddr \<or> Some (up_local_ip v) = ipaddr)")
      case True
      then show ?thesis using v False by auto
    next
      case free: False
      have "bind_scan m pcb ipaddr port rebind pcbs =
        Some (Inr (if \<exists>b v. b \<in> set pcbs \<and> b \<noteq> pcb \<and> fmlookup m b = Some v \<and> up_local_port v = port \<and> (up_local_ip v = IPADDR_ANY \<or> ip_addr_isany ipaddr \<or> Some (up_local_ip v) = ipaddr)
               then None else Some (rebind \<or> pcb \<in> set pcbs)))" using Cons by auto
      then show ?thesis using v False free by (simp only: bind_scan.simps option.case if_False list.set) (auto simp: v)
    qed
  qed
qed simp

lemma ports_of_ok:
  assumes "\<forall>a\<in>set (udp_pcbs s). fmlookup (udp_mem s) a \<noteq> None"
  shows "ports_of s = Inr (map (\<lambda>a. up_local_port (the (fmlookup (udp_mem s) a))) (udp_pcbs s))"
proof -
  have "\<forall>a\<in>set l. fmlookup m a \<noteq> None \<Longrightarrow>
      rfold (\<lambda>pcb ps. case fmlookup m pcb of None \<Rightarrow> Inl OutOfBounds | Some u \<Rightarrow> Inr (ps @ [up_local_port u])) l acc = Inr (acc @ map (\<lambda>a. up_local_port (the (fmlookup m a))) l)" for m l acc
    by (induction l arbitrary: acc) auto
  from this [OF assms, of "[]"] show ?thesis by (simp add: ports_of_def)
qed

text \<open>
  \<open>udp_bind\<close> returns \<open>ERR_USE\<close> only when another block has the port; the block then keeps its port and its address.
\<close>

definition taken :: "nat \<Rightarrow> u32 option \<Rightarrow> u16 \<Rightarrow> ('d, 'z) ipstack_scheme \<Rightarrow> bool" where
  "taken pcb ipaddr port s \<longleftrightarrow> (\<exists>b v. b \<in> set (udp_pcbs s) \<and> b \<noteq> pcb \<and> fmlookup (udp_mem s) b = Some v \<and> up_local_port v = port \<and>
     (up_local_ip v = IPADDR_ANY \<or> ip_addr_isany ipaddr \<or> Some (up_local_ip v) = ipaddr))"

lemma udp_bind_ok:
  assumes ok: "udp_ok s" and u: "fmlookup (udp_mem s) pcb = Some u"
  obtains "taken pcb ipaddr port s" "port \<noteq> 0" "udp_bind pcb ipaddr port s = Some (Inr (ERR_USE, s))"
    | s' port' where "\<not> taken pcb ipaddr port s" "udp_bind pcb ipaddr port s = Some (Inr (ERR_OK, s'))" "udp_ok s'"
      "fmlookup (udp_mem s') pcb = Some (u\<lparr>up_local_ip := ip_addr_set ipaddr, up_local_port := port'\<rparr>)" "port \<noteq> 0 \<longrightarrow> port' = port"
      "port = 0 \<longrightarrow> 0xc000 \<le> unat port' \<and> (\<forall>b v. fmlookup (udp_mem s) b = Some v \<longrightarrow> up_local_port v \<noteq> port')"
      "pcb \<in> set (udp_pcbs s')"
proof -
  have B: "blocks_ok (udp_mem s) (udp_pcbs s)" "0xc000 \<le> unat (udp_port s)" using ok by (auto simp: udp_ok_def)
  have dom: "\<forall>a\<in>set (udp_pcbs s). fmlookup (udp_mem s) a \<noteq> None" "distinct (udp_pcbs s)" using B(1) by (auto simp: blocks_ok_def)
  have scan: "bind_scan (udp_mem s) pcb ipaddr port False (udp_pcbs s) = Some (Inr (if taken pcb ipaddr port s then None else Some (pcb \<in> set (udp_pcbs s))))"
    unfolding taken_def using scan_ok [OF dom(2,1), of False pcb ipaddr port] by (simp only: simp_thms)
  show thesis
  proof (cases "taken pcb ipaddr port s")
    case True
    moreover have "port \<noteq> 0" using True B(1) unfolding taken_def blocks_ok_def by fastforce
    ultimately show thesis using that(1) scan by (simp add: udp_bind_def)
  next
    case free: False
    let ?l = "if pcb \<in> set (udp_pcbs s) then udp_pcbs s else pcb # udp_pcbs s"
    let ?u = "\<lambda>q. u\<lparr>up_local_ip := ip_addr_set ipaddr, up_local_port := q\<rparr>"
    let ?s = "\<lambda>q n. s\<lparr>udp_mem := fmupd pcb (?u q) (udp_mem s), udp_port := n, udp_pcbs := ?l\<rparr>"
    have ok': "udp_ok (?s q n)" if "q \<noteq> 0" "0xc000 \<le> unat n" "\<And>b v. b \<in> set (udp_pcbs s) \<Longrightarrow> b \<noteq> pcb \<Longrightarrow> fmlookup (udp_mem s) b = Some v \<Longrightarrow> \<not> clash (?u q) v" for q n
      using blocks_ok_bind [OF B(1) u, of "?u q"] that unfolding udp_ok_def by auto
    show thesis
    proof (cases "port = 0")
      case False
      have "udp_bind pcb ipaddr port s = Some (Inr (ERR_OK, ?s port (udp_port s)))"
        using scan free u False by (simp add: udp_bind_def get_pcb_def set_pcb_def Let_def)
      moreover have "\<not> clash (?u port) v" if "b \<in> set (udp_pcbs s)" "b \<noteq> pcb" "fmlookup (udp_mem s) b = Some v" for b v
        using free that unfolding taken_def clash_def by (auto simp: ip_addr_set_def ip_addr_isany_def IPADDR_ANY_def split: option.splits)
      ultimately show thesis using that(2) [OF free, of "?s port (udp_port s)" port] ok' [of port "udp_port s"] B(2) False by auto
    next
      case True
      let ?s1 = "set_pcb pcb (u\<lparr>up_local_ip := ip_addr_set ipaddr\<rparr>) s"
      let ?used = "map (\<lambda>a. up_local_port (the (fmlookup (udp_mem ?s1) a))) (udp_pcbs s)"
      have po: "ports_of ?s1 = Inr ?used" using ports_of_ok [of ?s1] dom(1) by (simp add: set_pcb_def)
      obtain r n where loop: "new_port_loop ?used 0 (udp_port s) = (r, n)" by fastforce
      have len: "length ?used < 0x4000" using blocks_ok_short [OF B(1)] by simp
      note F = new_port_found [OF B(2) len loop]
      have r0: "r \<noteq> 0" using F(2) by auto
      have un: "up_local_port v \<noteq> r" if v: "fmlookup (udp_mem s) b = Some v" for b v
      proof (cases "b \<in> set (udp_pcbs s)")
        case True
        moreover have "up_local_port v = up_local_port (the (fmlookup (udp_mem ?s1) b))" using v u by (auto simp: set_pcb_def)
        ultimately have "up_local_port v \<in> set ?used" unfolding set_map by (rule image_eqI [rotated])
        then show ?thesis using F(1) by auto
      next
        case False
        then have "up_local_port v = 0" using v B(1) by (auto simp: blocks_ok_def)
        then show ?thesis using r0 by simp
      qed
      have "udp_bind pcb ipaddr port s = Some (Inr (ERR_OK, ?s r n))"
        using scan free u True po loop r0 by (simp add: udp_bind_def get_pcb_def udp_new_port_def Let_def) (simp add: set_pcb_def get_pcb_def)
      moreover have "udp_ok (?s r n)" by (rule ok' [OF r0]) (use F un in \<open>auto simp: clash_def\<close>)
      ultimately show thesis using that(2) [OF free, of "?s r n" r] F(2) un True by auto
    qed
  qed
qed

lemma udp_same_ok:
  assumes "udp_ok s" "fmlookup (udp_mem s) pcb = Some u" "up_local_port u' = up_local_port u" "up_local_ip u' = up_local_ip u"
  shows "udp_ok (set_pcb pcb u' s)"
  using assms blocks_ok_same [of "udp_mem s" "udp_pcbs s" pcb u u'] by (simp add: udp_ok_def set_pcb_def)

lemma udp_connect_ok:
  assumes ok: "udp_ok s" and u: "fmlookup (udp_mem s) pcb = Some u"
  shows "\<exists>e s'. udp_connect pcb ipaddr port s = Some (Inr (e, s')) \<and> udp_ok s'"
proof -
  have go: "udp_ok s1 \<Longrightarrow> fmlookup (udp_mem s1) pcb = Some v \<Longrightarrow> pcb \<in> set (udp_pcbs s1) \<Longrightarrow>
      udp_ok (set_pcb pcb (v\<lparr>up_remote_ip := ip_addr_set ipaddr, up_remote_port := port, up_flags := up_flags v OR UDP_FLAGS_CONNECTED\<rparr>) s1)" for s1 :: "('a, 'b) ipstack_scheme" and v
    by (rule udp_same_ok) simp_all
  show ?thesis
  proof (cases "up_local_port u = 0")
    case False
    then have "pcb \<in> set (udp_pcbs s)" using ok u by (auto simp: udp_ok_def blocks_ok_def)
    then show ?thesis using go [OF ok u] False u by (auto simp: udp_connect_def bind_if_needed_def get_pcb_def Let_def set_pcb_def)
  next
    case True
    then have b: "bind_if_needed pcb s = udp_bind pcb (Some (up_local_ip u)) 0 s" using u by (simp add: bind_if_needed_def get_pcb_def)
    show ?thesis
    proof (rule udp_bind_ok [OF ok u, of "Some (up_local_ip u)" 0])
      fix s' port' assume s': "udp_bind pcb (Some (up_local_ip u)) 0 s = Some (Inr (ERR_OK, s'))" "udp_ok s'"
        "fmlookup (udp_mem s') pcb = Some (u\<lparr>up_local_ip := ip_addr_set (Some (up_local_ip u)), up_local_port := port'\<rparr>)" "pcb \<in> set (udp_pcbs s')"
      then show ?thesis using go [OF s'(2,3,4)] by (auto simp: udp_connect_def b get_pcb_def Let_def set_pcb_def)
    qed simp
  qed
qed

lemma udp_remove_ok: "udp_ok s \<Longrightarrow> udp_ok (udp_remove pcb s)"
proof -
  assume ok: "udp_ok s"
  have "fmdom' (fmdrop pcb (udp_mem s)) \<subseteq> fmdom' (udp_mem s)" by auto
  then have "card (fmdom' (fmdrop pcb (udp_mem s))) \<le> card (fmdom' (udp_mem s))" by (rule card_mono [rotated]) simp
  then show ?thesis using ok unfolding udp_ok_def blocks_ok_def by (auto simp: udp_remove_def) blast
qed

lemma udp_new_ok:
  assumes "\<And>A a. memp_malloc E A = Some a \<Longrightarrow> a \<notin> A \<and> card A < 0x3fff" "udp_ok s"
  shows "udp_ok (snd (udp_new E s))"
proof (cases "memp_malloc E (fmdom' (udp_mem s))")
  case (Some a)
  then have a: "fmlookup (udp_mem s) a = None" "card (fmdom' (udp_mem s)) < 0x3fff" "a \<notin> fmdom' (udp_mem s)" using assms(1) by (auto simp: fmdom'_notD)
  then have "a \<notin> set (udp_pcbs s)" using assms(2) by (auto simp: udp_ok_def blocks_ok_def)
  then show ?thesis using Some a assms(2) unfolding udp_ok_def blocks_ok_def by (auto simp: udp_new_def set_pcb_def)
qed (simp add: udp_new_def assms(2))

section \<open>Reachable states\<close>

text \<open>
  The calls of the applications, and the search of \<open>udp_input\<close>, which moves a block to the front. The remaining functions of
  the stack change the blocks only through these.
\<close>

inductive udp_reach :: "('d, 'z) ipstack_scheme ipenv \<Rightarrow> ('d, 'z) ipstack_scheme \<Rightarrow> bool" for E where
  start: "udp_mem s = fmempty \<Longrightarrow> udp_pcbs s = [] \<Longrightarrow> udp_port s = UDP_LOCAL_PORT_RANGE_START \<Longrightarrow> udp_reach E s"
| create: "udp_reach E s \<Longrightarrow> udp_new E s = (r, s') \<Longrightarrow> udp_reach E s'"
| bind: "udp_reach E s \<Longrightarrow> udp_bind pcb ipaddr port s = Some (Inr (e, s')) \<Longrightarrow> udp_reach E s'"
| connect: "udp_reach E s \<Longrightarrow> udp_connect pcb ipaddr port s = Some (Inr (e, s')) \<Longrightarrow> udp_reach E s'"
| disconnect: "udp_reach E s \<Longrightarrow> udp_disconnect pcb s = Some (Inr s') \<Longrightarrow> udp_reach E s'"
| recv: "udp_reach E s \<Longrightarrow> udp_recv pcb r s = Some (Inr s') \<Longrightarrow> udp_reach E s'"
| remove: "udp_reach E s \<Longrightarrow> udp_reach E (udp_remove pcb s)"
| search: "udp_reach E s \<Longrightarrow> udp_find lm rm (udp_mem s) (udp_pcbs s) None (udp_pcbs s) = Inr (r, pcbs) \<Longrightarrow> udp_reach E (s\<lparr>udp_pcbs := pcbs\<rparr>)"
| other: "udp_reach E s \<Longrightarrow> udp_mem s' = udp_mem s \<Longrightarrow> udp_pcbs s' = udp_pcbs s \<Longrightarrow> udp_port s' = udp_port s \<Longrightarrow> udp_reach E s'"

lemma udp_find_perm: "udp_find lm rm m all uncon ps = Inr (r, pcbs) \<Longrightarrow> set ps \<subseteq> set all \<Longrightarrow> mset pcbs = mset all"
  by (induction ps arbitrary: uncon) (auto simp: Let_def split: option.splits if_splits)

lemma get_pcb_Inr: "xbind (get_pcb pcb s) f = Some (Inr y) \<longleftrightarrow> (\<exists>u. fmlookup (udp_mem s) pcb = Some u \<and> f u = Some (Inr y))"
  by (auto simp: get_pcb_def split: option.splits)

lemma udp_bind_needs: "udp_bind pcb ipaddr port s = Some (Inr (e, s')) \<Longrightarrow> s' = s \<or> fmlookup (udp_mem s) pcb \<noteq> None"
  unfolding udp_bind_def xbind_Inr_iff [of "bind_scan _ _ _ _ _ _"] by (auto simp: get_pcb_Inr split: option.splits)

lemma udp_reach_ok:
  assumes pool: "\<And>A a. memp_malloc E A = Some a \<Longrightarrow> a \<notin> A \<and> card A < 0x3fff"
  shows "udp_reach E s \<Longrightarrow> udp_ok s"
proof (induction rule: udp_reach.induct)
  case (start s)
  then show ?case by (simp add: udp_ok_def blocks_ok_def udp_consts)
next
  case (create s r s')
  then show ?case using udp_new_ok [where E = E, OF pool create.IH] by simp
next
  case (bind s pcb ipaddr port e s')
  show ?case
  proof (cases "fmlookup (udp_mem s) pcb")
    case None
    then show ?thesis using udp_bind_needs [OF bind.hyps(2)] bind.IH by auto
  next
    case (Some u)
    show ?thesis by (rule udp_bind_ok [OF bind.IH Some, of ipaddr port]) (use bind in auto)
  qed
next
  case (connect s pcb ipaddr port e s')
  then obtain u where "fmlookup (udp_mem s) pcb = Some u" by (auto simp: udp_connect_def bind_if_needed_def xbind_Inr_iff get_pcb_def split: option.splits)
  then show ?case using udp_connect_ok [OF connect.IH, of pcb u ipaddr port] connect.hyps(2) by auto
next
  case (disconnect s pcb s')
  then show ?case by (auto simp: udp_disconnect_def get_pcb_Inr intro: udp_same_ok)
next
  case (recv s pcb r s')
  then show ?case by (auto simp: udp_recv_def get_pcb_Inr intro: udp_same_ok)
next
  case (remove s pcb)
  then show ?case by (intro udp_remove_ok)
next
  case (search s lm rm r pcbs)
  then show ?case using udp_find_perm [OF search.hyps(2)] blocks_ok_perm by (auto simp: udp_ok_def)
qed (simp add: udp_ok_def)

text \<open>
  C9: The control blocks are well formed in every reachable state, when an allocation returns an unused address and the memory of the chip holds
  fewer than 16384 blocks: the list of the active blocks has no block twice, a block is in it exactly when it
  is allocated and has a port, and no two active blocks have the same port and overlapping local addresses. So a datagram has at most
  one receiver.
\<close>

theorem udp_blocks_wellformed:
  assumes "\<forall>A a. memp_malloc E A = Some a \<longrightarrow> a \<notin> A \<and> card A < 0x3fff" "udp_reach E s"
  shows "distinct (udp_pcbs s) \<and> (\<forall>a. a \<in> set (udp_pcbs s) \<longleftrightarrow> (\<exists>u. fmlookup (udp_mem s) a = Some u \<and> up_local_port u \<noteq> 0)) \<and>
    (\<forall>a b u v. a \<in> set (udp_pcbs s) \<longrightarrow> b \<in> set (udp_pcbs s) \<longrightarrow> a \<noteq> b \<longrightarrow> fmlookup (udp_mem s) a = Some u \<longrightarrow> fmlookup (udp_mem s) b = Some v \<longrightarrow> \<not> clash u v)"
  using udp_reach_ok [of E s] assms by (simp add: udp_ok_def blocks_ok_def)

text \<open>
  C17: \<open>udp_bind\<close> with port 0 always finds a port: in a reachable state, with fewer than 16384 blocks, it returns \<open>ERR_OK\<close>, the block then has the given address and a port of the
  dynamic range from 0xc000 to 0xffff that no other block has, and it is in the list of the active blocks.
\<close>

theorem udp_bind_finds_port:
  assumes "\<forall>A a. memp_malloc E A = Some a \<longrightarrow> a \<notin> A \<and> card A < 0x3fff" "udp_reach E s" "fmlookup (udp_mem s) pcb = Some u"
  shows "\<exists>s' port. udp_bind pcb ipaddr 0 s = Some (Inr (ERR_OK, s')) \<and> pcb \<in> set (udp_pcbs s') \<and>
    fmlookup (udp_mem s') pcb = Some (u\<lparr>up_local_ip := ip_addr_set ipaddr, up_local_port := port\<rparr>) \<and> 0xc000 \<le> unat port \<and>
    (\<forall>b v. fmlookup (udp_mem s) b = Some v \<longrightarrow> up_local_port v \<noteq> port)"
proof -
  have ok: "udp_ok s" using udp_reach_ok [of E s] assms(1,2) by blast
  show ?thesis by (rule udp_bind_ok [OF ok assms(3), of ipaddr 0]) auto
qed

section \<open>Examples\<close>

definition ex_start :: "unit ipstack" where
  "ex_start = \<lparr>sk_heap = fmempty, sk_dev = (), sk_netif = (\<lambda>_. ex_nif), netif_list = [0], netif_default = Some 0, netif_num = 1,
     arp_table = replicate ARP_TABLE_SIZE arp_zero, etharp_cached_entry = 0, ip_id = 0, current_netif = None, current_header = None, current_iphdr_src = 0, current_iphdr_dest = 0,
     udp_mem = fmempty, udp_pcbs = [], udp_port = 0xc000, raw_mem = fmempty, raw_pcbs = []\<rparr>"

definition ex_pool :: "unit ipstack ipenv" where
  "ex_pool = \<lparr>netif_output = (\<lambda>n p a s. Some (Inr (ERR_OK, s))), ip_frag = (\<lambda>p n a s. Some (Inr (ERR_OK, s))), ip_reass = (\<lambda>p s. Some (Inr (None, s))),
     udp_recv_fn = (\<lambda>pcb p a port s. Some (Inr s)), raw_recv_fn = (\<lambda>pcb p a s. Some (Inr (False, s))), memlib_of = ex_lib1,
     memp_malloc = (\<lambda>A. if A = {} then Some 0 else None)\<rparr>"

definition ex_created :: "unit ipstack" where "ex_created = snd (udp_new ex_pool ex_start)"

lemma ex_pool_law: "\<forall>A a. memp_malloc ex_pool A = Some a \<longrightarrow> a \<notin> A \<and> card A < 0x3fff"
proof (intro allI impI)
  fix A a assume a: "memp_malloc ex_pool A = Some a"
  then have "A \<noteq> {} \<longrightarrow> a \<notin> A \<and> card A < 0x3fff" by (simp add: ex_pool_def split: if_splits)
  then show "a \<notin> A \<and> card A < 0x3fff" by (cases "A = {}") simp_all
qed

lemma ex_created_reach: "udp_reach ex_pool ex_created"
proof -
  have "udp_reach ex_pool ex_start" by (rule udp_reach.start) (simp_all add: ex_start_def udp_consts)
  then show ?thesis unfolding ex_created_def by (rule udp_reach.create) (rule prod.collapse [symmetric])
qed

lemma ex_created_pcb: "fmlookup (udp_mem ex_created) 0 \<noteq> None"
  by (simp add: ex_created_def udp_new_def ex_pool_def ex_start_def set_pcb_def)

theorem udp_blocks_wellformed_witness:
  "distinct (udp_pcbs ex_created) \<and> (0 \<in> set (udp_pcbs ex_created) \<longleftrightarrow> (\<exists>u. fmlookup (udp_mem ex_created) 0 = Some u \<and> up_local_port u \<noteq> 0))"
  using udp_blocks_wellformed [OF ex_pool_law ex_created_reach] by blast

theorem udp_bind_finds_port_witness:
  "\<exists>s' port. udp_bind 0 None 0 ex_created = Some (Inr (ERR_OK, s')) \<and> 0 \<in> set (udp_pcbs s') \<and> 0xc000 \<le> unat (port :: u16)"
proof -
  obtain u where "fmlookup (udp_mem ex_created) 0 = Some u" using ex_created_pcb by auto
  then show ?thesis using udp_bind_finds_port [OF ex_pool_law ex_created_reach, of 0 u None] by blast
qed

end
