(* ===== verification/UdpIO.thy ===== *)
theory UdpIO
  imports TQueue
begin

text \<open>
  Exchange of datagrams with the host: the pool of transmit buffers \<open>TBuffersPool\<close>
  (\<^verbatim>\<open>src/inc/udp_io/tbufferspool.h\<close>), the module \<open>udp_io\<close> (\<^verbatim>\<open>src/src/udp_io/udp_io.cpp\<close>) with its callback
  for received datagrams, and the interface to it (\<^verbatim>\<open>src/src/udp_io/udp_io_if.cpp\<close>). Outgoing datagrams are
  copied into a buffer of the pool and queued; a received datagram stays in the packet buffer of the
  network stack until it has been processed.

  The network stack is a parameter, the record \<open>lwip\<close> of its functions on a state of type \<open>'n\<close>; packet
  buffers and connections are numbers. The packet buffers handed to the application, which the
  application has to free, are part of the module's state with their contents (\<open>ui_pbufs\<close>).
\<close>

section \<open>The pool of buffers\<close>

text \<open>An address of the raw block of the pool, the payload of a packet buffer, or the null pointer.\<close>

datatype bufptr = NullBuf | RawBuf nat | Payload nat

datatype buffer_state = kStFree | kStBusy

record pool =
  bp_buffers :: "bufptr list"
  bp_state :: "buffer_state list"
  bp_size :: nat
  bp_freeN :: nat

text \<open>The loop that looks for the first element with a property among \<open>n\<close> elements from index \<open>i\<close> on.\<close>

fun scan :: "('a \<Rightarrow> bool) \<Rightarrow> 'a list \<Rightarrow> nat \<Rightarrow> nat \<Rightarrow> nat option res" where
  "scan P xs i 0 = Inr None"
| "scan P xs i (Suc n) = rbind (load xs i) (\<lambda>x. if P x then Inr (Some i) else scan P xs (Suc i) n)"

definition pool_reset :: "pool \<Rightarrow> pool res" where
  "pool_reset p =
     rbind (rfold (\<lambda>i st. store st i kStFree) [0..<bp_size p] (bp_state p)) (\<lambda>st.
       Inr (p\<lparr>bp_state := st, bp_freeN := bp_size p\<rparr>))"

definition pool_new :: "bufptr list \<Rightarrow> buffer_state list \<Rightarrow> nat \<Rightarrow> pool res" where
  "pool_new abuffers astate asize =
     pool_reset \<lparr>bp_buffers = abuffers, bp_state = astate, bp_size = asize, bp_freeN = 0\<rparr>"

definition pool_free :: "pool \<Rightarrow> nat" where "pool_free p = bp_freeN p"

definition pool_capacity :: "pool \<Rightarrow> nat" where "pool_capacity p = bp_size p"

definition pool_get :: "pool \<Rightarrow> (bufptr \<times> pool) res" where
  "pool_get p =
     (if bp_freeN p = 0 then Inr (NullBuf, p)
      else rbind (scan (\<lambda>s. s = kStFree) (bp_state p) 0 (bp_size p)) (\<lambda>r.
        case r of
          Some i \<Rightarrow> rbind (load (bp_buffers p) i) (\<lambda>b.
            Inr (b, p\<lparr>bp_state := (bp_state p)[i := kStBusy], bp_freeN := bp_freeN p - 1\<rparr>))
        | None \<Rightarrow> Inr (NullBuf, p\<lparr>bp_freeN := 0\<rparr>)))"

definition pool_release :: "bufptr \<Rightarrow> pool \<Rightarrow> pool res" where
  "pool_release b p =
     rbind (scan (\<lambda>x. x = b) (bp_buffers p) 0 (bp_size p)) (\<lambda>r.
       case r of
         Some i \<Rightarrow> rbind (store (bp_state p) i kStFree) (\<lambda>st.
           Inr (p\<lparr>bp_state := st, bp_freeN := (if bp_freeN p < bp_size p then bp_freeN p + 1 else bp_freeN p)\<rparr>))
       | None \<Rightarrow> Inr p)"

section \<open>The network stack and the state of the module\<close>

text \<open>Results of type \<open>err_t\<close> are numbers, \<open>ERR_OK\<close> is 0; the callbacks are numbered 1 and 2.\<close>

record 'n lwip =
  pbuf_alloc :: "nat \<Rightarrow> 'n \<Rightarrow> nat option \<times> 'n"
  pbuf_free :: "nat \<Rightarrow> 'n \<Rightarrow> 'n"
  pbuf_set_len :: "nat \<Rightarrow> u16 \<Rightarrow> 'n \<Rightarrow> 'n"
  pbuf_take :: "nat \<Rightarrow> u8 list \<Rightarrow> 'n \<Rightarrow> 'n"
  udp_new :: "'n \<Rightarrow> nat option \<times> 'n"
  udp_remove :: "nat \<Rightarrow> 'n \<Rightarrow> 'n"
  udp_bind :: "nat \<Rightarrow> u16 \<Rightarrow> 'n \<Rightarrow> int \<times> 'n"
  udp_recv :: "nat \<Rightarrow> nat \<Rightarrow> 'n \<Rightarrow> 'n"
  udp_connect :: "nat \<Rightarrow> u32 \<Rightarrow> u16 \<Rightarrow> 'n \<Rightarrow> int \<times> 'n"
  udp_disconnect :: "nat \<Rightarrow> 'n \<Rightarrow> 'n"
  udp_send :: "nat \<Rightarrow> nat \<Rightarrow> 'n \<Rightarrow> int \<times> 'n"

record UdpData =
  ud_buffer :: bufptr
  ud_size :: u16
  ud_conn :: "nat option"
  ud_ex :: "nat option"

record udp_tx_data_t =
  td_upcb :: "nat option"
  td_pbuffer :: "nat option"
  td_raddr :: u32
  td_connected :: bool
  td_update :: bool

record 'n udpio =
  ui_lport :: u16
  ui_rport :: u16
  ui_txData :: udp_tx_data_t
  ui_inited :: bool
  ui_txQueue :: "UdpData tqueue"
  ui_rxQueue :: "UdpData tqueue"
  ui_raw :: "u8 list"
  ui_udpBuffers :: pool
  ui_pbufs :: "nat \<Rightarrow> u8 list option"
  ui_net :: 'n

definition UDP_DATA_MAX_SZ :: nat where "UDP_DATA_MAX_SZ = 1440"
definition UDP_TX_Q_SIZE :: nat where "UDP_TX_Q_SIZE = 4"
definition UDP_BUFFERS_N :: nat where "UDP_BUFFERS_N = UDP_TX_Q_SIZE"

definition kRcOk :: int where "kRcOk = 0"
definition kRcNetErr :: int where "kRcNetErr = -1"
definition kRcAllocErr :: int where "kRcAllocErr = -2"
definition kRcTxQueueFull :: int where "kRcTxQueueFull = -4"
definition kRcTxBufferFull :: int where "kRcTxBufferFull = -5"

lemmas udp_consts = UDP_DATA_MAX_SZ_def UDP_TX_Q_SIZE_def UDP_BUFFERS_N_def kRcOk_def kRcNetErr_def
  kRcAllocErr_def kRcTxQueueFull_def kRcTxBufferFull_def

section \<open>Operations\<close>

text \<open>The pointers of the pool are set by \<open>init\<close>; the pool and its states are not reset there.\<close>

definition udp_init :: "'n lwip \<Rightarrow> u16 \<Rightarrow> u16 \<Rightarrow> 'n udpio \<Rightarrow> int \<times> 'n udpio" where
  "udp_init k alport arport u =
     (let u = u\<lparr>ui_inited := False, ui_lport := alport, ui_rport := arport,
               ui_udpBuffers := (ui_udpBuffers u)\<lparr>bp_buffers :=
                 map (\<lambda>i. RawBuf (UDP_DATA_MAX_SZ * i)) [0..<UDP_BUFFERS_N]\<rparr>\<rparr>
      in case pbuf_alloc k UDP_DATA_MAX_SZ (ui_net u) of (pb, n) \<Rightarrow>
         let u = u\<lparr>ui_net := n, ui_txData := (ui_txData u)\<lparr>td_pbuffer := pb\<rparr>\<rparr> in
         (case pb of
            None \<Rightarrow> (kRcAllocErr, u)
          | Some pb \<Rightarrow>
              (case udp_new k (ui_net u) of (pcb, n) \<Rightarrow>
               let u = u\<lparr>ui_net := n, ui_txData := (ui_txData u)\<lparr>td_upcb := pcb\<rparr>\<rparr> in
               (case pcb of
                  None \<Rightarrow> (kRcAllocErr, u\<lparr>ui_net := pbuf_free k pb (ui_net u)\<rparr>)
                | Some pcb \<Rightarrow>
                    (case udp_new k (ui_net u) of (upcb, n) \<Rightarrow>
                     let u = u\<lparr>ui_net := n\<rparr> in
                     (case upcb of
                        None \<Rightarrow> (kRcAllocErr, u)
                      | Some upcb \<Rightarrow>
                          (case udp_bind k upcb (ui_lport u) (ui_net u) of (rc, n) \<Rightarrow>
                           let u = u\<lparr>ui_net := n\<rparr> in
                           if rc = 0
                           then (kRcOk, u\<lparr>ui_net := udp_recv k upcb 1 (ui_net u), ui_inited := True\<rparr>)
                           else (kRcNetErr, u\<lparr>ui_net :=
                                  udp_remove k pcb (pbuf_free k pb (udp_remove k upcb (ui_net u)))\<rparr>))))))))"

text \<open>A datagram in the packet buffer \<open>pb\<close> has arrived from \<open>addr\<close>; its \<open>len\<close> is a \<open>uint16_t\<close>.\<close>

definition udp_receive_callback :: "nat \<Rightarrow> u8 list \<Rightarrow> u32 \<Rightarrow> 'n udpio \<Rightarrow> 'n udpio res" where
  "udp_receive_callback pb bytes addr u =
     (let u = u\<lparr>ui_pbufs := (ui_pbufs u)(pb \<mapsto> bytes)\<rparr>;
          t = ui_txData u;
          u = (if td_raddr t \<noteq> addr \<or> \<not> td_connected t
               then u\<lparr>ui_txData := t\<lparr>td_raddr := addr, td_update := True\<rparr>\<rparr> else u)
      in rbind (tqueue_push \<lparr>ud_buffer = Payload pb, ud_size = of_nat (length bytes), ud_conn = None, ud_ex = Some pb\<rparr>
                  (ui_rxQueue u)) (\<lambda>q.
           Inr (u\<lparr>ui_rxQueue := q\<rparr>)))"

text \<open>The callback of the connected transmit socket does nothing with the datagram.\<close>

definition udp_receive_callback2 :: "nat \<Rightarrow> u8 list \<Rightarrow> u32 \<Rightarrow> 'n udpio \<Rightarrow> 'n udpio" where
  "udp_receive_callback2 pb bytes addr u = u\<lparr>ui_pbufs := (ui_pbufs u)(pb \<mapsto> bytes)\<rparr>"

text \<open>The bytes a queued datagram points to.\<close>

definition ud_bytes :: "'n udpio \<Rightarrow> UdpData \<Rightarrow> u8 list res" where
  "ud_bytes u d =
     (case ud_buffer d of
        NullBuf \<Rightarrow> Inl NullPointer
      | RawBuf off \<Rightarrow> if off + unat (ud_size d) \<le> length (ui_raw u)
                       then Inr (take (unat (ud_size d)) (drop off (ui_raw u))) else Inl OutOfBounds
      | Payload pb \<Rightarrow> (case ui_pbufs u pb of
                         None \<Rightarrow> Inl OutOfBounds
                       | Some bs \<Rightarrow> if unat (ud_size d) \<le> length bs then Inr (take (unat (ud_size d)) bs)
                                    else Inl OutOfBounds))"

text \<open>Connection of the transmit socket to the sender of the last datagram, when that has changed.\<close>

definition udp_reconnect :: "'n lwip \<Rightarrow> 'n udpio \<Rightarrow> (bool \<times> 'n udpio) res" where
  "udp_reconnect k u =
     (if \<not> td_update (ui_txData u) then Inr (True, u)
      else case td_upcb (ui_txData u) of
        None \<Rightarrow> Inl NullPointer
      | Some pcb \<Rightarrow>
          let u = (if td_connected (ui_txData u)
                   then u\<lparr>ui_net := udp_disconnect k pcb (ui_net u),
                          ui_txData := (ui_txData u)\<lparr>td_connected := False\<rparr>\<rparr> else u)
          in case udp_connect k pcb (td_raddr (ui_txData u)) (ui_rport u) (ui_net u) of (rc, n) \<Rightarrow>
             let u = u\<lparr>ui_net := n\<rparr> in
             if rc \<noteq> 0 then Inr (False, u)
             else Inr (True, u\<lparr>ui_net := udp_recv k pcb 2 (ui_net u),
                               ui_txData := (ui_txData u)\<lparr>td_connected := True, td_update := False\<rparr>\<rparr>))"

definition udp_io_send :: "'n lwip \<Rightarrow> UdpData \<Rightarrow> 'n udpio \<Rightarrow> (u32 \<times> 'n udpio) res" where
  "udp_io_send k data u =
     (if ui_inited u then
        rbind (udp_reconnect k u) (\<lambda>(ok, u).
          if ok \<and> td_connected (ui_txData u) then
            (case (td_pbuffer (ui_txData u), td_upcb (ui_txData u)) of
               (Some pb, Some pcb) \<Rightarrow>
                 let u = u\<lparr>ui_net := pbuf_set_len k pb (ud_size data) (ui_net u)\<rparr> in
                 rbind (ud_bytes u data) (\<lambda>bytes.
                   let u = u\<lparr>ui_net := pbuf_take k pb bytes (ui_net u)\<rparr> in
                   (case udp_send k pcb pb (ui_net u) of (rc, n) \<Rightarrow>
                      Inr (if rc = 0 then ucast (ud_size data) else 0, u\<lparr>ui_net := n\<rparr>)))
             | _ \<Rightarrow> Inl NullPointer)
          else Inr (0, u))
      else Inr (0, u))"

definition getMaxAppDataSize :: nat where "getMaxAppDataSize = UDP_DATA_MAX_SZ"

definition udp_getTxFree :: "'n udpio \<Rightarrow> nat" where
  "udp_getTxFree u = (UDP_TX_Q_SIZE - tqueue_size (ui_txQueue u)) * getMaxAppDataSize"

text \<open>\<open>memcpy\<close> into the buffer; the buffers of the pool lie in the raw block.\<close>

definition addTxData :: "u8 list \<Rightarrow> u16 \<Rightarrow> 'n udpio \<Rightarrow> (int \<times> 'n udpio) res" where
  "addTxData data sz u =
     (if isFull (ui_txQueue u) then Inr (kRcTxQueueFull, u)
      else rbind (pool_get (ui_udpBuffers u)) (\<lambda>(buffer, p).
        let u = u\<lparr>ui_udpBuffers := p\<rparr> in
        case buffer of
          RawBuf off \<Rightarrow>
            let n = (if unat sz > getMaxAppDataSize then getMaxAppDataSize else unat sz) in
            rbind (memcpy (ui_raw u) off data n) (\<lambda>raw.
            rbind (tqueue_push \<lparr>ud_buffer = buffer, ud_size = of_nat n, ud_conn = None, ud_ex = None\<rparr> (ui_txQueue u)) (\<lambda>q.
              Inr (int n, u\<lparr>ui_raw := raw, ui_txQueue := q\<rparr>)))
        | Payload _ \<Rightarrow> Inl OutOfBounds
        | NullBuf \<Rightarrow> Inr (kRcTxBufferFull, u)))"

text \<open>
  The handler of received data gets the bytes and their number, and may change the state of the
  application \<open>'a\<close> and queue outgoing datagrams. \<open>None\<close> is a handler that does not return.
\<close>

type_synonym ('a, 'n) udp_handler = "u8 list \<Rightarrow> u16 \<Rightarrow> 'a \<times> 'n udpio \<Rightarrow> ('a \<times> 'n udpio) res option"

definition udp_finishRx :: "'n lwip \<Rightarrow> UdpData \<Rightarrow> 'n udpio \<Rightarrow> 'n udpio res" where
  "udp_finishRx k d u =
     (let u = (case ud_ex d of
                 None \<Rightarrow> u
               | Some pb \<Rightarrow> u\<lparr>ui_net := pbuf_free k pb (ui_net u), ui_pbufs := (ui_pbufs u)(pb := None)\<rparr>)
      in rbind (pool_release (ud_buffer d) (ui_udpBuffers u)) (\<lambda>p.
           Inr (u\<lparr>ui_udpBuffers := p, ui_rxQueue := tqueue_pop (ui_rxQueue u)\<rparr>)))"

fun processRxQueue :: "'n lwip \<Rightarrow> ('a, 'n) udp_handler \<Rightarrow> nat \<Rightarrow> 'a \<times> 'n udpio \<Rightarrow> ('a \<times> 'n udpio) res option" where
  "processRxQueue k h 0 s = Some (Inr s)"
| "processRxQueue k h (Suc n) s =
     (case tqueue_peek (ui_rxQueue (snd s)) of
        None \<Rightarrow> Some (Inr s)
      | Some d \<Rightarrow>
          (case ud_bytes (snd s) d of
             Inl e \<Rightarrow> Some (Inl e)
           | Inr bytes \<Rightarrow>
               (case h bytes (ud_size d) s of
                  None \<Rightarrow> None
                | Some (Inl e) \<Rightarrow> Some (Inl e)
                | Some (Inr (a, u)) \<Rightarrow>
                    (case udp_finishRx k d u of
                       Inl e \<Rightarrow> Some (Inl e)
                     | Inr u \<Rightarrow> processRxQueue k h n (a, u)))))"

fun processTxQueue :: "'n lwip \<Rightarrow> nat \<Rightarrow> 'n udpio \<Rightarrow> 'n udpio res" where
  "processTxQueue k 0 u = Inr u"
| "processTxQueue k (Suc n) u =
     (case tqueue_peek (ui_txQueue u) of
        None \<Rightarrow> Inr u
      | Some d \<Rightarrow>
          rbind (udp_io_send k d u) (\<lambda>(sent, u).
            rbind (if sent > 0
                   then rbind (pool_release (ud_buffer d) (ui_udpBuffers u)) (\<lambda>p.
                          Inr (u\<lparr>ui_udpBuffers := p, ui_txQueue := tqueue_pop (ui_txQueue u)\<rparr>))
                   else Inr u) (processTxQueue k n)))"


section \<open>The interface of a buffer pool\<close>

text \<open>
  What the transmit queue relies on: \<open>get\<close> returns a buffer that nobody uses, or the null pointer when
  every buffer is in use, and \<open>release\<close> gives exactly this buffer back.
\<close>

locale buffer_pool =
  fixes pinv :: "'p \<Rightarrow> bool"
    and all :: "'p \<Rightarrow> 'r set"
    and used :: "'p \<Rightarrow> 'r set"
    and null :: 'r
    and get :: "'p \<Rightarrow> ('r \<times> 'p) res"
    and release :: "'r \<Rightarrow> 'p \<Rightarrow> 'p res"
  assumes finite_all: "pinv p \<Longrightarrow> finite (all p)"
    and used_all: "pinv p \<Longrightarrow> used p \<subseteq> all p"
    and null_law: "pinv p \<Longrightarrow> null \<notin> all p"
    and get_law: "pinv p \<Longrightarrow> used p \<noteq> all p \<Longrightarrow> \<exists>r p'. get p = Inr (r, p') \<and> pinv p' \<and> all p' = all p \<and>
           r \<in> all p \<and> r \<notin> used p \<and> used p' = insert r (used p)"
    and exhausted_law: "pinv p \<Longrightarrow> used p = all p \<Longrightarrow> get p = Inr (null, p)"
    and release_law: "pinv p \<Longrightarrow> r \<in> used p \<Longrightarrow> \<exists>p'. release r p = Inr p' \<and> pinv p' \<and> all p' = all p \<and>
           used p' = used p - {r}"
    and foreign_law: "pinv p \<Longrightarrow> r \<notin> all p \<Longrightarrow> release r p = Inr p"
begin

text \<open>A client that holds the buffers \<open>rs\<close> and nothing else uses any gets a fresh one.\<close>

lemma get_fresh:
  assumes "pinv p" and "used p = set rs" and "distinct rs" and "length rs < card (all p)"
  shows "\<exists>r p'. get p = Inr (r, p') \<and> pinv p' \<and> all p' = all p \<and> used p' = set (rs @ [r]) \<and>
     distinct (rs @ [r]) \<and> r \<in> all p \<and> r \<noteq> null"
proof -
  have "used p \<noteq> all p" using assms by (metis distinct_card nat_neq_iff)
  then obtain r p' where "get p = Inr (r, p')" "pinv p'" "all p' = all p" "r \<in> all p" "r \<notin> used p"
      "used p' = insert r (used p)"
    using get_law [OF assms(1)] by blast
  then show ?thesis using assms null_law [OF assms(1)] by auto
qed

lemma release_first:
  assumes "pinv p" and "used p = set (r # rs)" and "distinct (r # rs)"
  shows "\<exists>p'. release r p = Inr p' \<and> pinv p' \<and> all p' = all p \<and> used p' = set rs"
  using release_law [OF assms(1), of r] assms(2,3) by auto

end

subsection \<open>\<open>TBuffersPool\<close> provides it\<close>

lemma scan_spec:
  "i + n \<le> length xs \<Longrightarrow> scan P xs i n = Inr None \<and> (\<forall>j. i \<le> j \<and> j < i + n \<longrightarrow> \<not> P (xs ! j)) \<or>
     (\<exists>j. scan P xs i n = Inr (Some j) \<and> i \<le> j \<and> j < i + n \<and> P (xs ! j))"
proof (induction n arbitrary: i)
  case (Suc n)
  show ?case
  proof (cases "P (xs ! i)")
    case False
    have "(\<forall>j. Suc i \<le> j \<and> j < Suc i + n \<longrightarrow> \<not> P (xs ! j)) \<Longrightarrow> (\<forall>j. i \<le> j \<and> j < i + Suc n \<longrightarrow> \<not> P (xs ! j))"
      using False by (metis Suc_leI add_Suc_right add_Suc_shift order_le_less)
    then show ?thesis using Suc.IH [of "Suc i"] Suc.prems False by auto
  qed (use Suc.prems in auto)
qed auto

definition pool_inv :: "pool \<Rightarrow> bool" where
  "pool_inv p \<longleftrightarrow> length (bp_buffers p) = bp_size p \<and> length (bp_state p) = bp_size p \<and>
     distinct (bp_buffers p) \<and> NullBuf \<notin> set (bp_buffers p) \<and>
     bp_freeN p = card {i. i < bp_size p \<and> bp_state p ! i = kStFree}"

definition pool_all :: "pool \<Rightarrow> bufptr set" where "pool_all p = set (bp_buffers p)"

definition pool_used :: "pool \<Rightarrow> bufptr set" where
  "pool_used p = {bp_buffers p ! i |i. i < bp_size p \<and> bp_state p ! i = kStBusy}"

lemma pool_nth_eq:
  "pool_inv p \<Longrightarrow> i < bp_size p \<Longrightarrow> j < bp_size p \<Longrightarrow> bp_buffers p ! i = bp_buffers p ! j \<longleftrightarrow> i = j"
  by (simp add: pool_inv_def nth_eq_iff_index_eq)

lemma pool_used_iff:
  "pool_inv p \<Longrightarrow> i < bp_size p \<Longrightarrow> bp_buffers p ! i \<in> pool_used p \<longleftrightarrow> bp_state p ! i = kStBusy"
  by (auto simp: pool_used_def pool_nth_eq)

lemma busy_iff: "s = kStBusy \<longleftrightarrow> s \<noteq> kStFree"
  by (cases s) simp_all

lemma pool_busy_all: "pool_inv p \<Longrightarrow> pool_used p = pool_all p \<longleftrightarrow> bp_freeN p = 0"
proof -
  assume p: "pool_inv p"
  have len: "length (bp_buffers p) = bp_size p" using p by (simp add: pool_inv_def)
  have "pool_used p = pool_all p \<longleftrightarrow> (\<forall>i < bp_size p. bp_buffers p ! i \<in> pool_used p)"
  proof
    assume "\<forall>i < bp_size p. bp_buffers p ! i \<in> pool_used p"
    then have "pool_all p \<subseteq> pool_used p" using len unfolding pool_all_def by (metis in_set_conv_nth subsetI)
    then show "pool_used p = pool_all p" using len by (auto simp: pool_used_def pool_all_def)
  qed (use len in \<open>simp add: pool_all_def\<close>)
  also have "\<dots> \<longleftrightarrow> (\<forall>i < bp_size p. bp_state p ! i = kStBusy)" using pool_used_iff [OF p] by blast
  also have "\<dots> \<longleftrightarrow> {i. i < bp_size p \<and> bp_state p ! i = kStFree} = {}"
    by (auto simp: busy_iff)
  finally show ?thesis using p by (simp add: pool_inv_def)
qed

lemma pool_update:
  assumes p: "pool_inv p" and i: "i < bp_size p" and s: "bp_state p ! i \<noteq> s"
  defines "p' \<equiv> p\<lparr>bp_state := (bp_state p)[i := s],
                  bp_freeN := (if s = kStFree then bp_freeN p + 1 else bp_freeN p - 1)\<rparr>"
  shows "pool_inv p'" and "pool_all p' = pool_all p"
    and "pool_used p' = (if s = kStFree then pool_used p - {bp_buffers p ! i} else insert (bp_buffers p ! i) (pool_used p))"
proof -
  let ?F = "{j. j < bp_size p \<and> bp_state p ! j = kStFree}"
  have len: "length (bp_state p) = bp_size p" using p by (simp add: pool_inv_def)
  have F: "{j. j < bp_size p \<and> (bp_state p)[i := s] ! j = kStFree} = (if s = kStFree then insert i ?F else ?F - {i})"
    using i len s by (auto simp: nth_list_update)
  have "card {j. j < bp_size p \<and> (bp_state p)[i := s] ! j = kStFree} =
      (if s = kStFree then card ?F + 1 else card ?F - 1)"
  proof (cases "s = kStFree")
    case True
    then show ?thesis using F s by (simp add: card_insert_disjoint)
  next
    case False
    then have "i \<in> ?F" using s i busy_iff [of s] busy_iff [of "bp_state p ! i"] by auto
    then show ?thesis using F False by simp
  qed
  then show "pool_inv p'" using p len by (simp add: pool_inv_def p'_def)
  show "pool_all p' = pool_all p" by (simp add: pool_all_def p'_def)
  show "pool_used p' = (if s = kStFree then pool_used p - {bp_buffers p ! i} else insert (bp_buffers p ! i) (pool_used p))"
    using i len pool_nth_eq [OF p] unfolding pool_used_def p'_def
    by (cases s) (auto simp: nth_list_update split: if_splits)
qed


lemma pool_get_law:
  assumes p: "pool_inv p" and ne: "pool_used p \<noteq> pool_all p"
  shows "\<exists>r p'. pool_get p = Inr (r, p') \<and> pool_inv p' \<and> pool_all p' = pool_all p \<and>
     r \<in> pool_all p \<and> r \<notin> pool_used p \<and> pool_used p' = insert r (pool_used p)"
proof -
  have len: "length (bp_buffers p) = bp_size p" "length (bp_state p) = bp_size p" using p by (simp_all add: pool_inv_def)
  have fn: "bp_freeN p \<noteq> 0" using pool_busy_all [OF p] ne by simp
  then have "{i. i < bp_size p \<and> bp_state p ! i = kStFree} \<noteq> {}" using p unfolding pool_inv_def by (metis card.empty)
  then obtain j where "j < bp_size p" "bp_state p ! j = kStFree" by blast
  then obtain i where i: "scan (\<lambda>s. s = kStFree) (bp_state p) 0 (bp_size p) = Inr (Some i)" "i < bp_size p"
      "bp_state p ! i = kStFree"
    using scan_spec [of 0 "bp_size p" "bp_state p" "\<lambda>s. s = kStFree"] len by auto
  have "bp_buffers p ! i \<notin> pool_used p" using pool_used_iff [OF p i(2)] i(3) by simp
  then show ?thesis
    using i fn len pool_update [OF p i(2), of kStBusy] by (simp add: pool_get_def pool_all_def)
qed

lemma pool_release_law:
  assumes p: "pool_inv p" and r: "r \<in> pool_used p"
  shows "\<exists>p'. pool_release r p = Inr p' \<and> pool_inv p' \<and> pool_all p' = pool_all p \<and> pool_used p' = pool_used p - {r}"
proof -
  have len: "length (bp_buffers p) = bp_size p" "length (bp_state p) = bp_size p" using p by (simp_all add: pool_inv_def)
  obtain i where i: "i < bp_size p" "r = bp_buffers p ! i" "bp_state p ! i = kStBusy" using r by (auto simp: pool_used_def)
  have sc: "scan (\<lambda>x. x = r) (bp_buffers p) 0 (bp_size p) = Inr (Some i)"
  proof -
    have "(\<exists>j. scan (\<lambda>x. x = r) (bp_buffers p) 0 (bp_size p) = Inr (Some j) \<and> j < bp_size p \<and> bp_buffers p ! j = r)"
      using scan_spec [of 0 "bp_size p" "bp_buffers p" "\<lambda>x. x = r"] len(1) i(1,2) by simp blast
    then show ?thesis using pool_nth_eq [OF p _ i(1)] i(2) by auto
  qed
  have "card {j. j < bp_size p \<and> bp_state p ! j = kStFree} < card {..<bp_size p}"
  proof (rule psubset_card_mono)
    have "i \<notin> {j. j < bp_size p \<and> bp_state p ! j = kStFree}" "i \<in> {..<bp_size p}" using i by simp_all
    then show "{j. j < bp_size p \<and> bp_state p ! j = kStFree} \<subset> {..<bp_size p}" by blast
  qed simp
  then have lt: "bp_freeN p < bp_size p" using p by (simp add: pool_inv_def)
  have "bp_state p ! i \<noteq> kStFree" using i(3) by simp
  then show ?thesis
    using sc lt i len pool_update [OF p i(1), of kStFree] by (simp add: pool_release_def store_def)
qed

lemma pool_foreign_law:
  assumes "pool_inv p" and "r \<notin> pool_all p"
  shows "pool_release r p = Inr p"
  using assms scan_spec [of 0 "bp_size p" "bp_buffers p" "\<lambda>x. x = r"]
  by (auto simp: pool_release_def pool_all_def pool_inv_def)

interpretation bp: buffer_pool pool_inv pool_all pool_used NullBuf pool_get pool_release
proof unfold_locales
  show "pool_used p = pool_all p \<Longrightarrow> pool_inv p \<Longrightarrow> pool_get p = Inr (NullBuf, p)" for p
    by (simp add: pool_get_def pool_busy_all)
  show "pool_inv p \<Longrightarrow> pool_used p \<subseteq> pool_all p" for p by (auto simp: pool_inv_def pool_used_def pool_all_def)
  show "pool_inv p \<Longrightarrow> NullBuf \<notin> pool_all p" for p by (simp add: pool_inv_def pool_all_def)
qed (blast intro: pool_get_law pool_release_law pool_foreign_law | simp add: pool_all_def)+

section \<open>The transmit queue as a queue of datagrams\<close>

text \<open>The datagrams that wait for transmission, oldest first.\<close>

definition ud_data :: "u8 list \<Rightarrow> UdpData \<Rightarrow> u8 list" where
  "ud_data raw d = (case ud_buffer d of RawBuf off \<Rightarrow> take (unat (ud_size d)) (drop off raw) | _ \<Rightarrow> [])"

definition udp_tx :: "'n udpio \<Rightarrow> u8 list list" where
  "udp_tx u = map (ud_data (ui_raw u)) (tqueue_cont (ui_txQueue u))"

definition raw_slots :: "bufptr list" where
  "raw_slots = map (\<lambda>i. RawBuf (UDP_DATA_MAX_SZ * i)) [0..<UDP_BUFFERS_N]"

definition udp_tx_inv :: "'n udpio \<Rightarrow> bool" where
  "udp_tx_inv u \<longleftrightarrow> tqueue_inv (ui_txQueue u) \<and> msgBufferSize (ui_txQueue u) = UDP_TX_Q_SIZE \<and>
     length (ui_raw u) = UDP_DATA_MAX_SZ * UDP_BUFFERS_N \<and>
     pool_inv (ui_udpBuffers u) \<and> bp_buffers (ui_udpBuffers u) = raw_slots \<and>
     pool_used (ui_udpBuffers u) = set (map ud_buffer (tqueue_cont (ui_txQueue u))) \<and>
     distinct (map ud_buffer (tqueue_cont (ui_txQueue u))) \<and>
     (\<forall>d \<in> set (tqueue_cont (ui_txQueue u)). unat (ud_size d) \<le> UDP_DATA_MAX_SZ)"

lemma raw_slots_simps: "raw_slots = [RawBuf 0, RawBuf 1440, RawBuf 2880, RawBuf 4320]"
  by (simp add: raw_slots_def udp_consts upt_rec)

lemma pool_all_udp: "udp_tx_inv u \<Longrightarrow> pool_all (ui_udpBuffers u) = {RawBuf 0, RawBuf 1440, RawBuf 2880, RawBuf 4320}"
  by (simp add: udp_tx_inv_def pool_all_def raw_slots_simps)

lemma udp_tx_slot:
  assumes "udp_tx_inv u" and "d \<in> set (tqueue_cont (ui_txQueue u))"
  shows "ud_buffer d \<in> {RawBuf 0, RawBuf 1440, RawBuf 2880, RawBuf 4320}" and "unat (ud_size d) \<le> 1440"
proof -
  have "ud_buffer d \<in> pool_used (ui_udpBuffers u)" using assms by (simp add: udp_tx_inv_def)
  also have "\<dots> \<subseteq> pool_all (ui_udpBuffers u)" using assms bp.used_all by (auto simp: udp_tx_inv_def)
  finally show "ud_buffer d \<in> {RawBuf 0, RawBuf 1440, RawBuf 2880, RawBuf 4320}" using pool_all_udp [OF assms(1)] by simp
  show "unat (ud_size d) \<le> 1440" using assms by (simp add: udp_tx_inv_def udp_consts)
qed

text \<open>A write into one buffer of the pool leaves the datagrams in the other buffers as they are.\<close>

lemma ud_data_other:
  assumes "ud_buffer d \<in> {RawBuf 0, RawBuf 1440, RawBuf 2880, RawBuf 4320}" and "unat (ud_size d) \<le> 1440"
    and "RawBuf off \<in> {RawBuf 0, RawBuf 1440, RawBuf 2880, RawBuf 4320}" and "ud_buffer d \<noteq> RawBuf off"
    and "length src \<le> 1440" and "length raw = 5760"
  shows "ud_data (blit raw off src) d = ud_data raw d"
proof -
  obtain b where b: "ud_buffer d = RawBuf b" "b \<in> {0, 1440, 2880, 4320}" using assms(1) by auto
  have o: "off \<in> {0, 1440, 2880, 4320}" "b \<noteq> off" using assms(3,4) b(1) by auto
  have "b + unat (ud_size d) \<le> off \<or> off + length src \<le> b" using o b(2) assms(2,5) by auto
  moreover have "off + length src \<le> length raw" using o(1) assms(5,6) by auto
  ultimately show ?thesis using b(1) by (simp add: ud_data_def take_drop_blit_other)
qed


lemma length_udp_tx: "udp_tx_inv u \<Longrightarrow> length (udp_tx u) = tqueue_size (ui_txQueue u)"
  by (simp add: udp_tx_def tqueue_cont_def)

lemma addTxData_law:
  assumes inv: "udp_tx_inv u" and len: "unat n \<le> length data"
  shows "length (udp_tx u) = UDP_TX_Q_SIZE \<and> addTxData data n u = Inr (kRcTxQueueFull, u) \<or>
     (\<exists>u'. length (udp_tx u) < UDP_TX_Q_SIZE \<and>
       addTxData data n u = Inr (int (min (unat n) UDP_DATA_MAX_SZ), u') \<and> udp_tx_inv u' \<and>
       udp_tx u' = udp_tx u @ [take (min (unat n) UDP_DATA_MAX_SZ) data] \<and>
       ui_rxQueue u' = ui_rxQueue u \<and> ui_pbufs u' = ui_pbufs u \<and> ui_txData u' = ui_txData u \<and>
       ui_inited u' = ui_inited u \<and> ui_rport u' = ui_rport u \<and> ui_net u' = ui_net u)"
proof -
  let ?q = "ui_txQueue u" and ?p = "ui_udpBuffers u" and ?c = "tqueue_cont (ui_txQueue u)"
  have q: "tqueue_inv ?q" "msgBufferSize ?q = 4" and raw: "length (ui_raw u) = 5760" and pi: "pool_inv ?p"
      and us: "pool_used ?p = set (map ud_buffer ?c)" "distinct (map ud_buffer ?c)"
    using inv by (auto simp: udp_tx_inv_def udp_consts)
  show ?thesis
  proof (cases "isFull ?q")
    case True
    then show ?thesis
      using tqueue_full_iff [OF q(1)] q(2) length_udp_tx [OF inv] by (simp add: addTxData_def udp_consts)
  next
    case False
    then have lt: "length ?c < 4"
      using tqueue_full_iff [OF q(1)] q(2) tqueue_size_le [OF q(1)] by (simp add: tqueue_cont_def)
    obtain r p' where r: "pool_get ?p = Inr (r, p')" "pool_inv p'" "pool_all p' = pool_all ?p"
        "pool_used p' = set (map ud_buffer ?c @ [r])" "distinct (map ud_buffer ?c @ [r])" "r \<in> pool_all ?p"
      using bp.get_fresh [OF pi us] lt pool_all_udp [OF inv] by auto
    obtain off where off: "r = RawBuf off" "off \<in> {0, 1440, 2880, 4320}" using r(6) pool_all_udp [OF inv] by auto
    define m where "m = min (unat n) 1440"
    define d where "d = \<lparr>ud_buffer = r, ud_size = of_nat m, ud_conn = None, ud_ex = None\<rparr>"
    define rw where "rw = blit (ui_raw u) off (take m data)"
    have m: "m \<le> 1440" "(if 1440 < unat n then 1440 else unat n) = m" by (auto simp: m_def)
    have m16: "unat (of_nat m :: u16) = m" using m(1) by simp
    have mc: "memcpy (ui_raw u) off data m = Inr rw"
      unfolding rw_def using off(2) m(1) raw len by (intro memcpy_in) (auto simp: m_def)
    obtain q' where q': "tqueue_push d ?q = Inr q'" "tqueue_inv q'" "msgBufferSize q' = 4" "tqueue_cont q' = ?c @ [d]"
      using tqueue_push_law [OF q(1), of d] lt q(2) by auto
    define u' where "u' = u\<lparr>ui_udpBuffers := p', ui_raw := rw, ui_txQueue := q'\<rparr>"
    have add: "addTxData data n u = Inr (int m, u')"
      using False r(1) mc q'(1) unfolding addTxData_def getMaxAppDataSize_def UDP_DATA_MAX_SZ_def Let_def m(2)
      by (simp add: off(1) u'_def d_def)
    have lrw: "length rw = 5760" unfolding rw_def using off(2) m(1) raw by (subst length_blit) auto
    have bb: "bp_buffers p' = raw_slots"
      using r(1) inv by (auto simp: pool_get_def res_elims udp_tx_inv_def split: if_splits option.splits)
    have inv': "udp_tx_inv u'"
      using inv q' r lrw bb m16 m(1) by (auto simp: udp_tx_inv_def u'_def d_def udp_consts)
    have "ud_data rw x = ud_data (ui_raw u) x" if "x \<in> set ?c" for x
      unfolding rw_def using udp_tx_slot [OF inv that] off r(5) that raw m(1)
      by (intro ud_data_other) (auto simp: image_iff)
    moreover have "ud_data rw d = take m data"
    proof -
      have "take m (drop off rw) = take m data"
        unfolding rw_def using len off(2) raw by (intro drop_take_blit_len) (auto simp: m_def)
      then show ?thesis using m16 by (simp add: ud_data_def d_def off(1))
    qed
    ultimately have "udp_tx u' = udp_tx u @ [take m data]" using q'(4) by (simp add: udp_tx_def u'_def)
    then show ?thesis using add inv' lt by (auto simp: u'_def udp_consts m_def udp_tx_def)
  qed
qed

text \<open>Transmission changes the network and the connection only.\<close>

definition udp_same :: "'n udpio \<Rightarrow> 'n udpio \<Rightarrow> bool" where
  "udp_same u u' \<longleftrightarrow> ui_txQueue u' = ui_txQueue u \<and> ui_raw u' = ui_raw u \<and> ui_udpBuffers u' = ui_udpBuffers u \<and>
     ui_rxQueue u' = ui_rxQueue u \<and> ui_pbufs u' = ui_pbufs u \<and> ui_inited u' = ui_inited u \<and>
     ui_lport u' = ui_lport u \<and> ui_rport u' = ui_rport u"

lemma udp_same_trans: "udp_same u v \<Longrightarrow> udp_same v w \<Longrightarrow> udp_same u w"
  by (simp add: udp_same_def)

lemma udp_io_send_frame:
  assumes "udp_io_send k d u = Inr (r, u')"
  shows "udp_same u u'"
proof (cases "ui_inited u")
  case True
  then obtain ok v where v: "udp_reconnect k u = Inr (ok, v)"
    using assms by (auto simp: udp_io_send_def rbind_Inr_iff)
  have "udp_same u v"
    using v by (auto simp: udp_reconnect_def udp_same_def Let_def split: if_split_asm option.splits prod.splits)
  moreover have "udp_same v u'"
    using assms True v
    by (auto simp: udp_io_send_def rbind_Inr_iff udp_same_def Let_def case_prod_beta split: if_split_asm option.splits)
  ultimately show ?thesis by (rule udp_same_trans)
qed (use assms in \<open>simp add: udp_io_send_def udp_same_def\<close>)

lemma udp_tx_inv_cong:
  assumes "ui_txQueue u' = ui_txQueue u" and "ui_raw u' = ui_raw u" and "ui_udpBuffers u' = ui_udpBuffers u"
  shows "udp_tx_inv u' = udp_tx_inv u" and "udp_tx u' = udp_tx u"
  using assms by (simp_all add: udp_tx_inv_def udp_tx_def)

lemma ud_bytes_cong:
  "ui_raw u' = ui_raw u \<Longrightarrow> ui_pbufs u' = ui_pbufs u \<Longrightarrow> ud_bytes u' d = ud_bytes u d"
  by (cases "ud_buffer d") (simp_all add: ud_bytes_def)

lemma udp_front:
  assumes inv: "udp_tx_inv u" and d: "tqueue_peek (ui_txQueue u) = Some d"
  shows "\<exists>ds. tqueue_cont (ui_txQueue u) = d # ds \<and> udp_tx u = ud_data (ui_raw u) d # map (ud_data (ui_raw u)) ds"
    and "ud_bytes u d = Inr (hd (udp_tx u))" and "length (hd (udp_tx u)) = unat (ud_size d)"
proof -
  have q: "tqueue_inv (ui_txQueue u)" using inv by (simp add: udp_tx_inv_def)
  obtain ds where ds: "tqueue_cont (ui_txQueue u) = d # ds"
    using d tqueue_peek_law [OF q] by (auto split: list.splits)
  then show "\<exists>ds. tqueue_cont (ui_txQueue u) = d # ds \<and> udp_tx u = ud_data (ui_raw u) d # map (ud_data (ui_raw u)) ds"
    by (simp add: udp_tx_def)
  have mem: "d \<in> set (tqueue_cont (ui_txQueue u))" using ds by simp
  obtain off where off: "ud_buffer d = RawBuf off" "off \<in> {0, 1440, 2880, 4320}" "unat (ud_size d) \<le> 1440"
    using udp_tx_slot [OF inv mem] by auto
  have raw: "length (ui_raw u) = 5760" using inv by (simp add: udp_tx_inv_def udp_consts)
  then have "off + unat (ud_size d) \<le> length (ui_raw u)" using off by auto
  then show "ud_bytes u d = Inr (hd (udp_tx u))" "length (hd (udp_tx u)) = unat (ud_size d)"
    using off(1) ds by (simp_all add: ud_bytes_def udp_tx_def ud_data_def)
qed

lemma udp_pop_law:
  assumes inv: "udp_tx_inv u" and d: "tqueue_peek (ui_txQueue u) = Some d"
  shows "\<exists>p. pool_release (ud_buffer d) (ui_udpBuffers u) = Inr p \<and>
     udp_tx_inv (u\<lparr>ui_udpBuffers := p, ui_txQueue := tqueue_pop (ui_txQueue u)\<rparr>) \<and>
     udp_tx (u\<lparr>ui_udpBuffers := p, ui_txQueue := tqueue_pop (ui_txQueue u)\<rparr>) = tl (udp_tx u) \<and>
     tqueue_pop (ui_txQueue u) \<noteq> ui_txQueue u"
proof -
  obtain ds where ds: "tqueue_cont (ui_txQueue u) = d # ds" using udp_front(1) [OF inv d] by blast
  have q: "tqueue_inv (ui_txQueue u)" and pi: "pool_inv (ui_udpBuffers u)" using inv by (simp_all add: udp_tx_inv_def)
  have us: "pool_used (ui_udpBuffers u) = set (ud_buffer d # map ud_buffer ds)" "distinct (ud_buffer d # map ud_buffer ds)"
    using inv ds by (simp_all add: udp_tx_inv_def)
  obtain p where p: "pool_release (ud_buffer d) (ui_udpBuffers u) = Inr p" "pool_inv p" "pool_used p = set (map ud_buffer ds)"
    using bp.release_first [OF pi us] by blast
  have "bp_buffers p = bp_buffers (ui_udpBuffers u)"
    using p(1) by (auto simp: pool_release_def res_elims split: option.splits)
  moreover have pop: "tqueue_inv (tqueue_pop (ui_txQueue u))" "msgBufferSize (tqueue_pop (ui_txQueue u)) = msgBufferSize (ui_txQueue u)"
      "tqueue_cont (tqueue_pop (ui_txQueue u)) = ds"
    using tqueue_pop_law [OF q] ds by simp_all
  ultimately have "udp_tx_inv (u\<lparr>ui_udpBuffers := p, ui_txQueue := tqueue_pop (ui_txQueue u)\<rparr>)"
    using inv p us ds by (simp add: udp_tx_inv_def)
  moreover have "tqueue_pop (ui_txQueue u) \<noteq> ui_txQueue u"
    using pop(3) ds by (metis not_Cons_self)
  ultimately show ?thesis using p pop(3) ds by (simp add: udp_tx_def)
qed

text \<open>One pass of the transmit loop.\<close>

lemma processTxQueue_pass:
  assumes inv: "udp_tx_inv u" and d: "tqueue_peek (ui_txQueue u) = Some d" and run: "processTxQueue k 1 u = Inr u'"
  shows "udp_tx_inv u' \<and> (udp_tx u' = udp_tx u \<and> ui_txQueue u' = ui_txQueue u \<or>
      udp_tx u' = tl (udp_tx u) \<and> ui_txQueue u' \<noteq> ui_txQueue u \<and> hd (udp_tx u) \<noteq> [])"
    and "ui_rxQueue u' = ui_rxQueue u" and "ui_pbufs u' = ui_pbufs u"
proof -
  obtain r v where v: "udp_io_send k d u = Inr (r, v)" using run d by (auto simp: rbind_Inr_iff)
  have eqs: "ui_txQueue v = ui_txQueue u" "ui_raw v = ui_raw u" "ui_udpBuffers v = ui_udpBuffers u"
      "ui_rxQueue v = ui_rxQueue u" "ui_pbufs v = ui_pbufs u"
    using udp_io_send_frame [OF v] by (simp_all add: udp_same_def)
  have iv: "udp_tx_inv v" "udp_tx v = udp_tx u" using udp_tx_inv_cong [OF eqs(1-3)] inv by simp_all
  have "hd (udp_tx u) \<noteq> []" if "r > 0"
  proof -
    have "ud_size d \<noteq> 0" using v that by (auto simp: udp_io_send_def rbind_Inr_iff Let_def case_prod_beta
        split: if_split_asm option.splits)
    then show ?thesis using udp_front(3) [OF inv d] by (metis list.size(3) unat_eq_zero)
  qed
  moreover obtain p where p: "pool_release (ud_buffer d) (ui_udpBuffers v) = Inr p"
     "udp_tx_inv (v\<lparr>ui_udpBuffers := p, ui_txQueue := tqueue_pop (ui_txQueue v)\<rparr>)"
     "udp_tx (v\<lparr>ui_udpBuffers := p, ui_txQueue := tqueue_pop (ui_txQueue v)\<rparr>) = tl (udp_tx v)"
     "tqueue_pop (ui_txQueue v) \<noteq> ui_txQueue v"
    using udp_pop_law [OF iv(1)] d eqs(1) by auto
  moreover have "u' = (if r > 0 then v\<lparr>ui_udpBuffers := p, ui_txQueue := tqueue_pop (ui_txQueue v)\<rparr> else v)"
    using run d v p(1) by (auto split: if_splits)
  ultimately show "udp_tx_inv u' \<and> (udp_tx u' = udp_tx u \<and> ui_txQueue u' = ui_txQueue u \<or>
      udp_tx u' = tl (udp_tx u) \<and> ui_txQueue u' \<noteq> ui_txQueue u \<and> hd (udp_tx u) \<noteq> [])"
    "ui_rxQueue u' = ui_rxQueue u" "ui_pbufs u' = ui_pbufs u"
    using iv eqs by (simp_all split: if_splits)
qed


section \<open>The network stack, observed\<close>

text \<open>
  An observer on top of any network stack \<open>k\<close>: it passes every call on, and keeps for each packet buffer its length and its
  memory, as \<open>pbuf_take\<close> and the assignments to \<open>len\<close> and \<open>tot_len\<close> leave them, and in \<open>wi_sent\<close> the contents
  of the packet buffer at each call of \<open>udp_send\<close> that the stack answers with \<open>ERR_OK\<close>.
\<close>

record 'n wire =
  wi_net :: 'n
  wi_len :: "nat \<Rightarrow> nat"
  wi_mem :: "nat \<Rightarrow> u8 list"
  wi_sent :: "u8 list list"

definition observed :: "'n lwip \<Rightarrow> 'n wire lwip" where
  "observed k = \<lparr>
     pbuf_alloc = (\<lambda>n w. case pbuf_alloc k n (wi_net w) of (p, m) \<Rightarrow> (p, w\<lparr>wi_net := m\<rparr>)),
     pbuf_free = (\<lambda>p w. w\<lparr>wi_net := pbuf_free k p (wi_net w)\<rparr>),
     pbuf_set_len = (\<lambda>p n w. w\<lparr>wi_net := pbuf_set_len k p n (wi_net w), wi_len := (wi_len w)(p := unat n)\<rparr>),
     pbuf_take = (\<lambda>p bs w. w\<lparr>wi_net := pbuf_take k p bs (wi_net w),
        wi_mem := (if length bs \<le> wi_len w p then (wi_mem w)(p := bs @ drop (length bs) (wi_mem w p)) else wi_mem w)\<rparr>),
     udp_new = (\<lambda>w. case udp_new k (wi_net w) of (c, m) \<Rightarrow> (c, w\<lparr>wi_net := m\<rparr>)),
     udp_remove = (\<lambda>c w. w\<lparr>wi_net := udp_remove k c (wi_net w)\<rparr>),
     udp_bind = (\<lambda>c n w. case udp_bind k c n (wi_net w) of (rc, m) \<Rightarrow> (rc, w\<lparr>wi_net := m\<rparr>)),
     udp_recv = (\<lambda>c n w. w\<lparr>wi_net := udp_recv k c n (wi_net w)\<rparr>),
     udp_connect = (\<lambda>c a n w. case udp_connect k c a n (wi_net w) of (rc, m) \<Rightarrow> (rc, w\<lparr>wi_net := m\<rparr>)),
     udp_disconnect = (\<lambda>c w. w\<lparr>wi_net := udp_disconnect k c (wi_net w)\<rparr>),
     udp_send = (\<lambda>c p w. case udp_send k c p (wi_net w) of (rc, m) \<Rightarrow>
        (rc, w\<lparr>wi_net := m, wi_sent := (if rc = 0 then wi_sent w @ [take (wi_len w p) (wi_mem w p)] else wi_sent w)\<rparr>))\<rparr>"

abbreviation sent_to_net :: "'n wire udpio \<Rightarrow> u8 list list" where
  "sent_to_net u \<equiv> wi_sent (ui_net u)"

text \<open>A module that has been initialised has its packet buffer and its socket.\<close>

definition udp_ready :: "'n udpio \<Rightarrow> bool" where
  "udp_ready u \<longleftrightarrow> (ui_inited u \<longrightarrow> td_pbuffer (ui_txData u) \<noteq> None \<and> td_upcb (ui_txData u) \<noteq> None)"

lemma udp_reconnect_observed:
  assumes "udp_reconnect (observed k) u = Inr (ok, v)"
  shows "sent_to_net v = sent_to_net u" "udp_same u v"
  using assms by (auto simp: udp_reconnect_def observed_def udp_same_def Let_def split: if_split_asm option.splits prod.splits)

lemma udp_reconnect_total:
  assumes "td_upcb (ui_txData u) = Some pcb"
  shows "\<exists>ok v. udp_reconnect k u = Inr (ok, v) \<and> td_upcb (ui_txData v) = Some pcb \<and> td_pbuffer (ui_txData v) = td_pbuffer (ui_txData u) \<and>
    ui_inited v = ui_inited u"
  using assms by (auto simp: udp_reconnect_def Let_def split: prod.splits)

lemma ucast_u16_pos: "(0 :: u32) < ucast (n :: u16) \<longleftrightarrow> n \<noteq> 0"
proof -
  have "unat n < 4294967296" using unat_lt_65536 [of n] by linarith
  then have "unat (ucast n :: u32) = unat n" by (simp add: unsigned_ucast_eq take_bit_eq_mod)
  then show ?thesis by (metis unat_eq_zero unat_gt_0 word_gt_0)
qed

text \<open>One call of \<open>send\<close>: it hands over the bytes of the datagram, or nothing, and reports which.\<close>

lemma udp_io_send_observed:
  assumes r: "udp_ready u" and bs: "ud_bytes u d = Inr bs" "length bs = unat (ud_size d)"
  shows "\<exists>n v ok. udp_io_send (observed k) d u = Inr (n, v) \<and> udp_same u v \<and> udp_ready v \<and>
    sent_to_net v = (if ok then sent_to_net u @ [bs] else sent_to_net u) \<and> (0 < n \<longleftrightarrow> ok \<and> bs \<noteq> [])"
proof (cases "ui_inited u")
  case False
  then have "udp_io_send (observed k) d u = Inr (0, u)" by (simp add: udp_io_send_def)
  then show ?thesis using r by (intro exI [of _ 0] exI [of _ u] exI [of _ False]) (simp add: udp_same_def)
next
  case True
  then obtain pb pcb where p: "td_pbuffer (ui_txData u) = Some pb" "td_upcb (ui_txData u) = Some pcb" using r by (auto simp: udp_ready_def)
  obtain ok v where v: "udp_reconnect (observed k) u = Inr (ok, v)" "td_upcb (ui_txData v) = Some pcb" "td_pbuffer (ui_txData v) = Some pb" "ui_inited v"
    using udp_reconnect_total [OF p(2), of "observed k"] p(1) True by auto
  note V = udp_reconnect_observed [OF v(1)]
  show ?thesis
  proof (cases "ok \<and> td_connected (ui_txData v)")
    case False
    then have "udp_io_send (observed k) d u = Inr (0, v)" using True v(1) by (auto simp: udp_io_send_def)
    then show ?thesis using V v(2,3) by (intro exI [of _ 0] exI [of _ v] exI [of _ False]) (simp add: udp_ready_def)
  next
    case con: True
    define w where "w = (ui_net v)\<lparr>wi_net := pbuf_take k pb bs (pbuf_set_len k pb (ud_size d) (wi_net (ui_net v))),
      wi_len := (wi_len (ui_net v))(pb := length bs), wi_mem := (wi_mem (ui_net v))(pb := bs @ drop (length bs) (wi_mem (ui_net v) pb))\<rparr>"
    have w: "pbuf_take (observed k) pb bs (pbuf_set_len (observed k) pb (ud_size d) (ui_net v)) = w"
      using bs(2) by (simp add: observed_def w_def)
    have dby: "ud_bytes (v\<lparr>ui_net := x\<rparr>) d = Inr bs" for x
      using bs(1) V(2) ud_bytes_cong [of "v\<lparr>ui_net := x\<rparr>" u d] by (simp add: udp_same_def)
    obtain rc m where m: "udp_send k pcb pb (wi_net w) = (rc, m)" by fastforce
    define w' where "w' = w\<lparr>wi_net := m, wi_sent := (if rc = 0 then wi_sent w @ [take (wi_len w pb) (wi_mem w pb)] else wi_sent w)\<rparr>"
    have s: "udp_send (observed k) pcb pb w = (rc, w')" using m by (simp add: observed_def w'_def)
    have "udp_io_send (observed k) d u = Inr (if rc = 0 then ucast (ud_size d) else 0, v\<lparr>ui_net := w'\<rparr>)"
      using True v con by (simp add: udp_io_send_def dby w s)
    moreover have "wi_sent w' = (if rc = 0 then sent_to_net u @ [bs] else sent_to_net u)" using V(1) by (simp add: w'_def w_def)
    moreover have "udp_same u (v\<lparr>ui_net := w'\<rparr>)" using V(2) by (simp add: udp_same_def)
    moreover have "udp_ready (v\<lparr>ui_net := w'\<rparr>)" using v(2,3) by (simp add: udp_ready_def)
    moreover have "bs = [] \<longleftrightarrow> ud_size d = 0" using bs(2) by (metis length_0_conv unat_eq_zero)
    ultimately show ?thesis
      by (intro exI [of _ "if rc = 0 then ucast (ud_size d) else 0"] exI [of _ "v\<lparr>ui_net := w'\<rparr>"] exI [of _ "rc = 0"]) (simp add: ucast_u16_pos)
  qed
qed

text \<open>
  The datagrams with data that the network stack has accepted, and those that wait: a pass of the transmit loop only
  moves the border between them.
\<close>

definition outgoing_datagrams :: "'n wire udpio \<Rightarrow> u8 list list" where
  "outgoing_datagrams u = [x \<leftarrow> sent_to_net u. x \<noteq> []] @ udp_tx u"

lemma processTxQueue_observed:
  "udp_tx_inv u \<Longrightarrow> udp_ready u \<Longrightarrow> \<exists>u'. processTxQueue (observed k) n u = Inr u' \<and> udp_tx_inv u' \<and> udp_ready u' \<and>
     ui_rxQueue u' = ui_rxQueue u \<and> ui_pbufs u' = ui_pbufs u \<and> outgoing_datagrams u' = outgoing_datagrams u"
proof (induction n arbitrary: u)
  case (Suc n)
  show ?case
  proof (cases "tqueue_peek (ui_txQueue u)")
    case None
    then show ?thesis using Suc.prems by simp
  next
    case (Some d)
    note F = udp_front [OF Suc.prems(1) Some]
    have ne: "udp_tx u \<noteq> []" using F(1) by auto
    obtain r v ok where v: "udp_io_send (observed k) d u = Inr (r, v)" "udp_same u v" "udp_ready v"
      "sent_to_net v = (if ok then sent_to_net u @ [hd (udp_tx u)] else sent_to_net u)" "0 < r \<longleftrightarrow> ok \<and> hd (udp_tx u) \<noteq> []"
      using udp_io_send_observed [OF Suc.prems(2) F(2,3)] by blast
    have e: "ui_txQueue v = ui_txQueue u" "ui_rxQueue v = ui_rxQueue u" "ui_pbufs v = ui_pbufs u" using v(2) by (simp_all add: udp_same_def)
    have iv: "udp_tx_inv v" "udp_tx v = udp_tx u" using udp_tx_inv_cong [of v u] v(2) Suc.prems(1) by (simp_all add: udp_same_def)
    obtain p where p: "pool_release (ud_buffer d) (ui_udpBuffers v) = Inr p"
      "udp_tx_inv (v\<lparr>ui_udpBuffers := p, ui_txQueue := tqueue_pop (ui_txQueue v)\<rparr>)"
      "udp_tx (v\<lparr>ui_udpBuffers := p, ui_txQueue := tqueue_pop (ui_txQueue v)\<rparr>) = tl (udp_tx u)"
      using udp_pop_law [OF iv(1)] Some e(1) iv(2) by auto
    define w where "w = (if 0 < r then v\<lparr>ui_udpBuffers := p, ui_txQueue := tqueue_pop (ui_txQueue v)\<rparr> else v)"
    have "udp_tx_inv w" "udp_ready w" using p(2) iv(1) v(3) by (simp_all add: w_def udp_ready_def)
    moreover have "ui_rxQueue w = ui_rxQueue u" "ui_pbufs w = ui_pbufs u" using e by (simp_all add: w_def)
    moreover have "outgoing_datagrams w = outgoing_datagrams u"
    proof (cases "0 < r")
      case True
      then have "sent_to_net w = sent_to_net u @ [hd (udp_tx u)]" "hd (udp_tx u) \<noteq> []" "udp_tx w = tl (udp_tx u)"
        using v(4,5) p(3) by (simp_all add: w_def)
      then show ?thesis using ne by (simp add: outgoing_datagrams_def)
    next
      case False
      then show ?thesis using v(4,5) iv(2) by (auto simp: outgoing_datagrams_def w_def)
    qed
    moreover have "processTxQueue (observed k) (Suc n) u = processTxQueue (observed k) n w" using Some v(1) p(1) by (simp add: w_def)
    ultimately show ?thesis using Suc.IH [of w] by simp
  qed
qed simp

section \<open>Runs of the module\<close>

text \<open>
  Every interleaving of the calls the firmware makes from power-on, with the list of the datagrams that \<open>addTxData\<close> has
  accepted, on an observed network stack. Of the reception the
  steps are the callbacks and the end of the processing of a datagram (the handler in between is a
  sequence of other steps).
\<close>

inductive udp_run :: "'n lwip \<Rightarrow> u8 list list \<Rightarrow> 'n wire udpio \<Rightarrow> bool" for k where
  initial: "udp_tx_inv u \<Longrightarrow> udp_tx u = [] \<Longrightarrow> tqueue_inv (ui_rxQueue u) \<Longrightarrow> tqueue_cont (ui_rxQueue u) = [] \<Longrightarrow>
     \<not> ui_inited u \<Longrightarrow> sent_to_net u = [] \<Longrightarrow> udp_run k [] u"
| reinit: "udp_run k acc u \<Longrightarrow> udp_init (observed k) lp rp u = (rc, u') \<Longrightarrow> udp_run k acc u'"
| add: "udp_run k acc u \<Longrightarrow> unat n \<le> length data \<Longrightarrow> addTxData data n u = Inr (rc, u') \<Longrightarrow>
     udp_run k (if rc \<ge> 0 then acc @ [take (nat rc) data] else acc) u'"
| transmit: "udp_run k acc u \<Longrightarrow> processTxQueue (observed k) n u = Inr u' \<Longrightarrow> udp_run k acc u'"
| receive: "udp_run k acc u \<Longrightarrow> udp_receive_callback pb bs addr u = Inr u' \<Longrightarrow> udp_run k acc u'"
| receive2: "udp_run k acc u \<Longrightarrow> udp_run k acc (udp_receive_callback2 pb bs addr u)"
| finish: "udp_run k acc u \<Longrightarrow> tqueue_peek (ui_rxQueue u) = Some d \<Longrightarrow> udp_finishRx (observed k) d u = Inr u' \<Longrightarrow> udp_run k acc u'"

definition udp_rx_inv :: "'n udpio \<Rightarrow> bool" where
  "udp_rx_inv u \<longleftrightarrow> tqueue_inv (ui_rxQueue u) \<and>
     (\<forall>d \<in> set (tqueue_cont (ui_rxQueue u)). \<exists>pb. ud_buffer d = Payload pb \<and> ud_ex d = Some pb)"

lemma udp_init_frame:
  assumes "udp_init k lp rp u = (rc, u')" and "bp_buffers (ui_udpBuffers u) = raw_slots"
  shows "ui_txQueue u' = ui_txQueue u" "ui_raw u' = ui_raw u" "ui_udpBuffers u' = ui_udpBuffers u"
    "ui_rxQueue u' = ui_rxQueue u" "ui_pbufs u' = ui_pbufs u"
proof -
  have "(ui_udpBuffers u)\<lparr>bp_buffers := raw_slots\<rparr> = ui_udpBuffers u" using assms(2) by simp
  then show "ui_txQueue u' = ui_txQueue u" "ui_raw u' = ui_raw u" "ui_udpBuffers u' = ui_udpBuffers u"
    "ui_rxQueue u' = ui_rxQueue u" "ui_pbufs u' = ui_pbufs u"
    using assms(1) unfolding udp_init_def raw_slots_def [symmetric]
    by (auto simp: Let_def split: prod.splits option.splits if_splits)
qed

lemma udp_receive_law:
  assumes "udp_rx_inv u" and "udp_receive_callback pb bs addr u = Inr u'"
  shows "udp_rx_inv u'" and "ui_txQueue u' = ui_txQueue u" "ui_raw u' = ui_raw u" "ui_udpBuffers u' = ui_udpBuffers u"
    and "ui_pbufs u' = (ui_pbufs u)(pb \<mapsto> bs)"
    and "tqueue_cont (ui_rxQueue u') = (if isFull (ui_rxQueue u) then tqueue_cont (ui_rxQueue u)
      else tqueue_cont (ui_rxQueue u) @ [\<lparr>ud_buffer = Payload pb, ud_size = of_nat (length bs), ud_conn = None, ud_ex = Some pb\<rparr>])"
proof -
  define d where "d = \<lparr>ud_buffer = Payload pb, ud_size = of_nat (length bs), ud_conn = None, ud_ex = Some pb\<rparr>"
  have q: "tqueue_inv (ui_rxQueue u)" using assms(1) by (simp add: udp_rx_inv_def)
  obtain q' where q': "tqueue_push d (ui_rxQueue u) = Inr q'" "tqueue_inv q'"
      "tqueue_cont q' = (if length (tqueue_cont (ui_rxQueue u)) < msgBufferSize (ui_rxQueue u)
        then tqueue_cont (ui_rxQueue u) @ [d] else tqueue_cont (ui_rxQueue u))"
    using tqueue_push_law [OF q, of d] by blast
  have f: "isFull (ui_rxQueue u) \<longleftrightarrow> \<not> length (tqueue_cont (ui_rxQueue u)) < msgBufferSize (ui_rxQueue u)"
    using tqueue_full_iff [OF q] tqueue_size_le [OF q] by (auto simp: tqueue_cont_def)
  have e: "ui_rxQueue u' = q'" "ui_txQueue u' = ui_txQueue u" "ui_raw u' = ui_raw u" "ui_udpBuffers u' = ui_udpBuffers u"
      "ui_pbufs u' = (ui_pbufs u)(pb \<mapsto> bs)"
    using assms(2) q'(1) by (auto simp: udp_receive_callback_def Let_def d_def res_elims split: if_split_asm)
  then show "ui_txQueue u' = ui_txQueue u" "ui_raw u' = ui_raw u" "ui_udpBuffers u' = ui_udpBuffers u"
    "ui_pbufs u' = (ui_pbufs u)(pb \<mapsto> bs)" by simp_all
  show "tqueue_cont (ui_rxQueue u') = (if isFull (ui_rxQueue u) then tqueue_cont (ui_rxQueue u)
      else tqueue_cont (ui_rxQueue u) @ [\<lparr>ud_buffer = Payload pb, ud_size = of_nat (length bs), ud_conn = None, ud_ex = Some pb\<rparr>])"
    using e(1) q'(3) f by (simp add: d_def)
  show "udp_rx_inv u'" using assms(1) e(1) q'(2,3) by (auto simp: udp_rx_inv_def d_def)
qed

lemma udp_receive_total:
  assumes "udp_rx_inv u"
  shows "\<exists>u'. udp_receive_callback pb bs addr u = Inr u'"
proof -
  have "tqueue_inv (ui_rxQueue u)" using assms by (simp add: udp_rx_inv_def)
  from tqueue_push_law [OF this] have "\<exists>q'. tqueue_push d (ui_rxQueue u) = Inr q'" for d by metis
  then obtain q' where "tqueue_push \<lparr>ud_buffer = Payload pb, ud_size = of_nat (length bs), ud_conn = None, ud_ex = Some pb\<rparr> (ui_rxQueue u) = Inr q'"
    by metis
  then show ?thesis by (simp add: udp_receive_callback_def Let_def)
qed

lemma udp_finishRx_law:
  assumes "udp_rx_inv u" and "pool_inv (ui_udpBuffers u)" and "bp_buffers (ui_udpBuffers u) = raw_slots"
    and "tqueue_peek (ui_rxQueue u) = Some d" and "udp_finishRx k d u = Inr u'"
  shows "udp_rx_inv u'" and "ui_txQueue u' = ui_txQueue u" "ui_raw u' = ui_raw u" "ui_udpBuffers u' = ui_udpBuffers u"
    and "\<exists>pb ds. ud_ex d = Some pb \<and> tqueue_cont (ui_rxQueue u) = d # ds \<and> tqueue_cont (ui_rxQueue u') = ds \<and>
      ui_pbufs u' = (ui_pbufs u)(pb := None)"
proof -
  have q: "tqueue_inv (ui_rxQueue u)" using assms(1) by (simp add: udp_rx_inv_def)
  obtain ds where ds: "tqueue_cont (ui_rxQueue u) = d # ds"
    using assms(4) tqueue_peek_law [OF q] by (auto split: list.splits)
  then obtain pb where pb: "ud_buffer d = Payload pb" "ud_ex d = Some pb" using assms(1) by (auto simp: udp_rx_inv_def)
  have "Payload pb \<notin> pool_all (ui_udpBuffers u)" using assms(3) by (simp add: pool_all_def raw_slots_simps)
  then have rel: "pool_release (Payload pb) (ui_udpBuffers u) = Inr (ui_udpBuffers u)" by (rule bp.foreign_law [OF assms(2)])
  have e: "ui_rxQueue u' = tqueue_pop (ui_rxQueue u)" "ui_txQueue u' = ui_txQueue u" "ui_raw u' = ui_raw u"
     "ui_udpBuffers u' = ui_udpBuffers u" "ui_pbufs u' = (ui_pbufs u)(pb := None)"
    using assms(5) pb rel by (auto simp: udp_finishRx_def)
  then show "ui_txQueue u' = ui_txQueue u" "ui_raw u' = ui_raw u" "ui_udpBuffers u' = ui_udpBuffers u" by simp_all
  have pop: "tqueue_inv (tqueue_pop (ui_rxQueue u))" "tqueue_cont (tqueue_pop (ui_rxQueue u)) = ds"
    using tqueue_pop_law [OF q] ds by simp_all
  show "\<exists>pb ds. ud_ex d = Some pb \<and> tqueue_cont (ui_rxQueue u) = d # ds \<and> tqueue_cont (ui_rxQueue u') = ds \<and>
      ui_pbufs u' = (ui_pbufs u)(pb := None)"
    using ds pb e pop by simp
  show "udp_rx_inv u'" using assms(1) ds e(1) pop by (simp add: udp_rx_inv_def)
qed

lemma udp_init_observed:
  assumes "udp_init (observed k) lp rp u = (rc, u')"
  shows "sent_to_net u' = sent_to_net u" "udp_ready u'"
  using assms unfolding udp_init_def observed_def udp_ready_def by (auto simp: Let_def split: prod.splits option.splits if_splits)

lemma udp_receive_observed:
  assumes "udp_receive_callback pb bs addr u = Inr u'"
  shows "sent_to_net u' = sent_to_net u" "udp_ready u' = udp_ready u"
  using assms by (auto simp: udp_receive_callback_def udp_ready_def Let_def res_elims split: if_split_asm)

lemma udp_finishRx_observed:
  assumes "udp_finishRx (observed k) d u = Inr u'"
  shows "sent_to_net u' = sent_to_net u" "udp_ready u' = udp_ready u"
  using assms by (auto simp: udp_finishRx_def udp_ready_def observed_def res_elims split: option.splits)

lemma udp_run_inv:
  "udp_run k acc u \<Longrightarrow> udp_tx_inv u \<and> udp_rx_inv u \<and> udp_ready u \<and> acc = outgoing_datagrams u"
proof (induction rule: udp_run.induct)
  case (initial u)
  then show ?case by (simp add: udp_rx_inv_def udp_ready_def outgoing_datagrams_def)
next
  case (reinit acc u lp rp rc u')
  have "bp_buffers (ui_udpBuffers u) = raw_slots" using reinit.IH by (simp add: udp_tx_inv_def)
  note e = udp_init_frame [OF reinit.hyps(2) this]
  show ?case using udp_tx_inv_cong [OF e(1-3)] reinit.IH e(4) udp_init_observed [OF reinit.hyps(2)]
    by (simp add: udp_rx_inv_def outgoing_datagrams_def)
next
  case (add acc u n data rc u')
  then show ?case using addTxData_law [of u n data]
    by (auto simp: udp_consts udp_rx_inv_def udp_ready_def outgoing_datagrams_def)
next
  case (transmit acc u n u')
  then show ?case using processTxQueue_observed [of u k n] by (auto simp: udp_rx_inv_def)
next
  case (receive acc u pb bs addr u')
  then show ?case using udp_receive_law [of u pb bs addr u'] udp_tx_inv_cong [of u' u] udp_receive_observed [OF receive.hyps(2)]
    by (simp add: outgoing_datagrams_def)
next
  case (receive2 acc u pb bs addr)
  then show ?case
    using udp_tx_inv_cong [of "udp_receive_callback2 pb bs addr u" u]
    by (simp add: udp_receive_callback2_def udp_rx_inv_def udp_ready_def outgoing_datagrams_def)
next
  case (finish acc u d u')
  then show ?case using udp_finishRx_law [of u d "observed k" u'] udp_tx_inv_cong [of u' u] udp_finishRx_observed [OF finish.hyps(3)]
    by (simp add: udp_tx_inv_def outgoing_datagrams_def)
qed


text \<open>
  The packet buffers of received datagrams: the network stack hands out only buffers that are not held
  by the application. \<open>L\<close> are the buffers that arrived when the queue was full or on the transmit socket.
\<close>

inductive udp_rx_run :: "'n lwip \<Rightarrow> nat set \<Rightarrow> 'n udpio \<Rightarrow> bool" for k where
  initial: "udp_tx_inv u \<Longrightarrow> udp_rx_inv u \<Longrightarrow> tqueue_cont (ui_rxQueue u) = [] \<Longrightarrow> ui_pbufs u = Map.empty \<Longrightarrow> udp_rx_run k {} u"
| add: "udp_rx_run k L u \<Longrightarrow> unat n \<le> length data \<Longrightarrow> addTxData data n u = Inr (rc, u') \<Longrightarrow> udp_rx_run k L u'"
| transmit: "udp_rx_run k L u \<Longrightarrow> tqueue_peek (ui_txQueue u) = Some d \<Longrightarrow> processTxQueue k 1 u = Inr u' \<Longrightarrow> udp_rx_run k L u'"
| receive: "udp_rx_run k L u \<Longrightarrow> ui_pbufs u pb = None \<Longrightarrow> udp_receive_callback pb bs addr u = Inr u' \<Longrightarrow>
     udp_rx_run k (if isFull (ui_rxQueue u) then insert pb L else L) u'"
| receive2: "udp_rx_run k L u \<Longrightarrow> ui_pbufs u pb = None \<Longrightarrow> udp_rx_run k (insert pb L) (udp_receive_callback2 pb bs addr u)"
| finish: "udp_rx_run k L u \<Longrightarrow> tqueue_peek (ui_rxQueue u) = Some d \<Longrightarrow> udp_finishRx k d u = Inr u' \<Longrightarrow> udp_rx_run k L u'"

definition rx_pbufs :: "'n udpio \<Rightarrow> nat list" where
  "rx_pbufs u = map (the \<circ> ud_ex) (tqueue_cont (ui_rxQueue u))"

lemma udp_rx_run_inv:
  "udp_rx_run k L u \<Longrightarrow> udp_tx_inv u \<and> udp_rx_inv u \<and> distinct (rx_pbufs u) \<and> set (rx_pbufs u) \<inter> L = {} \<and>
     dom (ui_pbufs u) = set (rx_pbufs u) \<union> L"
proof (induction rule: udp_rx_run.induct)
  case (initial u)
  then show ?case by (simp add: rx_pbufs_def)
next
  case (add L u n data rc u')
  then have "udp_tx_inv u' \<and> ui_rxQueue u' = ui_rxQueue u \<and> ui_pbufs u' = ui_pbufs u"
    using addTxData_law [of u n data] by auto
  then show ?case using add.IH by (simp add: udp_rx_inv_def rx_pbufs_def)
next
  case (transmit L u d u')
  then show ?case using processTxQueue_pass [of u d k u'] by (simp add: udp_rx_inv_def rx_pbufs_def)
next
  case (receive L u pb bs addr u')
  have rx: "udp_rx_inv u" using receive.IH by simp
  note r = udp_receive_law [OF rx receive.hyps(3)]
  have new: "pb \<notin> set (rx_pbufs u) \<union> L" using receive.IH receive.hyps(2) by blast
  have "rx_pbufs u' = (if isFull (ui_rxQueue u) then rx_pbufs u else rx_pbufs u @ [pb])"
    using r(6) by (simp add: rx_pbufs_def)
  moreover have "dom (ui_pbufs u') = insert pb (dom (ui_pbufs u))" using r(5) by simp
  ultimately show ?case using receive.IH r(1) new udp_tx_inv_cong(1) [OF r(2-4)] by simp
next
  case (receive2 L u pb bs addr)
  have new: "pb \<notin> set (rx_pbufs u) \<union> L" using receive2 by blast
  let ?u = "udp_receive_callback2 pb bs addr u"
  have e: "ui_rxQueue ?u = ui_rxQueue u" "ui_txQueue ?u = ui_txQueue u" "ui_raw ?u = ui_raw u" "ui_udpBuffers ?u = ui_udpBuffers u"
    by (simp_all add: udp_receive_callback2_def)
  have "dom (ui_pbufs ?u) = insert pb (dom (ui_pbufs u))" unfolding udp_receive_callback2_def by simp
  moreover have "rx_pbufs ?u = rx_pbufs u" "udp_rx_inv ?u = udp_rx_inv u" using e by (simp_all add: rx_pbufs_def udp_rx_inv_def)
  ultimately show ?case using receive2.IH new udp_tx_inv_cong(1) [OF e(2-4)] by simp
next
  case (finish L u d u')
  have i: "udp_rx_inv u" "pool_inv (ui_udpBuffers u)" "bp_buffers (ui_udpBuffers u) = raw_slots"
    using finish.IH by (simp_all add: udp_tx_inv_def)
  note f = udp_finishRx_law [OF i finish.hyps(2,3)]
  obtain pb ds where pb: "ud_ex d = Some pb" "tqueue_cont (ui_rxQueue u) = d # ds" "tqueue_cont (ui_rxQueue u') = ds"
      "ui_pbufs u' = (ui_pbufs u)(pb := None)" using f(5) by blast
  have "rx_pbufs u = pb # rx_pbufs u'" using pb by (simp add: rx_pbufs_def)
  moreover have "dom (ui_pbufs u') = dom (ui_pbufs u) - {pb}" using pb(4) by simp
  ultimately show ?case using finish.IH f(1) udp_tx_inv_cong(1) [OF f(2-4)] by auto
qed

section \<open>An instance\<close>

text \<open>A network stack that keeps the payload of the transmit buffer and the datagrams sent.\<close>

definition ex_lwip :: "(u8 list \<times> u8 list list) lwip" where
  "ex_lwip = \<lparr>pbuf_alloc = (\<lambda>n w. (Some 7, w)), pbuf_free = (\<lambda>p w. w), pbuf_set_len = (\<lambda>p n w. w),
     pbuf_take = (\<lambda>p bs w. (bs, snd w)), udp_new = (\<lambda>w. (Some 1, w)), udp_remove = (\<lambda>p w. w),
     udp_bind = (\<lambda>p n w. (0, w)), udp_recv = (\<lambda>p n w. w), udp_connect = (\<lambda>p a n w. (0, w)),
     udp_disconnect = (\<lambda>p w. w), udp_send = (\<lambda>c p w. (0, (fst w, snd w @ [fst w])))\<rparr>"

definition ex_ud :: UdpData where "ex_ud = \<lparr>ud_buffer = NullBuf, ud_size = 0, ud_conn = None, ud_ex = None\<rparr>"

definition ex_udp :: "(u8 list \<times> u8 list list) udpio" where
  "ex_udp = \<lparr>ui_lport = 3000, ui_rport = 4023,
     ui_txData = \<lparr>td_upcb = Some 1, td_pbuffer = Some 7, td_raddr = 5, td_connected = False, td_update = True\<rparr>,
     ui_inited = True, ui_txQueue = tqueue_new (replicate 4 ex_ud) 4, ui_rxQueue = tqueue_new (replicate 4 ex_ud) 4,
     ui_raw = replicate 5760 0,
     ui_udpBuffers = \<lparr>bp_buffers = raw_slots, bp_state = replicate 4 kStFree, bp_size = 4, bp_freeN = 4\<rparr>,
     ui_pbufs = Map.empty, ui_net = ([], [])\<rparr>"

lemma ex_udp_queues:
  "tqueue_inv (ui_txQueue ex_udp)" "tqueue_cont (ui_txQueue ex_udp) = []"
  "tqueue_inv (ui_rxQueue ex_udp)" "tqueue_cont (ui_rxQueue ex_udp) = []"
  using tqueue_inv_new [of "replicate 4 ex_ud" 4] by (simp_all add: ex_udp_def)

lemma ex_udp_pool:
  "pool_inv (ui_udpBuffers ex_udp)" "pool_used (ui_udpBuffers ex_udp) = {}" "bp_buffers (ui_udpBuffers ex_udp) = raw_slots"
proof -
  have "{i. i < 4 \<and> replicate 4 kStFree ! i = kStFree} = {..<4}" by auto
  then show "pool_inv (ui_udpBuffers ex_udp)" by (simp add: pool_inv_def ex_udp_def raw_slots_simps)
  show "pool_used (ui_udpBuffers ex_udp) = {}" by (auto simp: pool_used_def ex_udp_def)
  show "bp_buffers (ui_udpBuffers ex_udp) = raw_slots" by (simp add: ex_udp_def)
qed

lemma ex_udp_inv: "udp_tx_inv ex_udp" "udp_tx ex_udp = []" "udp_rx_inv ex_udp"
proof -
  have "length (ui_raw ex_udp) = 5760" "msgBufferSize (ui_txQueue ex_udp) = 4" by (simp_all add: ex_udp_def tqueue_new_def)
  then show "udp_tx_inv ex_udp" "udp_tx ex_udp = []" "udp_rx_inv ex_udp"
    using ex_udp_queues ex_udp_pool by (simp_all add: udp_tx_inv_def udp_tx_def udp_rx_inv_def udp_consts)
qed

lemma ex_udp_add:
  "\<exists>u. addTxData [1, 2, 3] 3 ex_udp = Inr (3, u) \<and> udp_tx_inv u \<and> udp_tx u = [[1, 2, 3]] \<and>
     ui_txData u = ui_txData ex_udp \<and> ui_inited u \<and> ui_rport u = 4023 \<and> ui_net u = ([], [])"
  using addTxData_law [OF ex_udp_inv(1), of 3 "[1, 2, 3]"] ex_udp_inv(2)
  by (auto simp: udp_consts ex_udp_def)


lemma ex_lwip_ok:
  "udp_tx_inv u \<Longrightarrow> td_pbuffer (ui_txData u) = Some 7 \<Longrightarrow> td_upcb (ui_txData u) = Some 1 \<Longrightarrow>
   \<exists>u2. processTxQueue ex_lwip n u = Inr u2"
proof (induction n arbitrary: u)
  case (Suc n)
  show ?case
  proof (cases "tqueue_peek (ui_txQueue u)")
    case (Some d)
    have "\<exists>r v. udp_io_send ex_lwip d u = Inr (r, v) \<and> td_pbuffer (ui_txData v) = Some 7 \<and> td_upcb (ui_txData v) = Some 1"
      using udp_front(2) [OF Suc.prems(1) Some] Suc.prems(2,3)
        ud_bytes_cong [of "u\<lparr>ui_txData := t\<rparr>" u d for t] ud_bytes_cong [of "u\<lparr>ui_txData := t, ui_net := n\<rparr>" u d for t n] ud_bytes_cong [of "u\<lparr>ui_net := n\<rparr>" u d for n]
      by (auto simp: udp_io_send_def udp_reconnect_def ex_lwip_def Let_def)
    then obtain r v where v: "udp_io_send ex_lwip d u = Inr (r, v)" "td_pbuffer (ui_txData v) = Some 7"
        "td_upcb (ui_txData v) = Some 1" by blast
    have same: "udp_same u v" by (rule udp_io_send_frame [OF v(1)])
    then have iv: "udp_tx_inv v" "tqueue_peek (ui_txQueue v) = Some d"
      using udp_tx_inv_cong(1) [of v u] Suc.prems(1) Some by (simp_all add: udp_same_def)
    obtain p where "pool_release (ud_buffer d) (ui_udpBuffers v) = Inr p"
        "udp_tx_inv (v\<lparr>ui_udpBuffers := p, ui_txQueue := tqueue_pop (ui_txQueue v)\<rparr>)"
      using udp_pop_law [OF iv] by blast
    then show ?thesis using Some v iv(1) Suc.IH by simp
  qed simp
qed simp

section \<open>Properties\<close>

text \<open>
  C30: under every interleaving, from power-on, of initialisation, queueing, transmission passes and reception, and whatever the network
  stack answers, the accepted datagrams are exactly those that the stack has been given and has accepted, in the packet buffer
  and with the length at the call of \<open>udp_send\<close>, followed by those that wait, in order and byte for byte;
  only datagrams without data, which are given to the stack and stay in the queue, have to be left out of
  the former. A transmission pass never faults, at most four datagrams wait, and \<open>getTxFree\<close> reports the buffers that are left.
\<close>

theorem udp_datagrams_in_order:
  assumes "udp_run k acc u"
  shows "acc = [x \<leftarrow> sent_to_net u. x \<noteq> []] @ udp_tx u \<and> (\<exists>u'. processTxQueue (observed k) n u = Inr u') \<and>
    length (udp_tx u) \<le> 4 \<and> udp_getTxFree u = (4 - length (udp_tx u)) * 1440"
proof -
  have inv: "udp_tx_inv u" "udp_ready u" "acc = outgoing_datagrams u" using udp_run_inv [OF assms] by simp_all
  then have "tqueue_size (ui_txQueue u) \<le> 4"
    using tqueue_size_le [of "ui_txQueue u"] by (simp add: udp_tx_inv_def udp_consts)
  moreover have "\<exists>u'. processTxQueue (observed k) n u = Inr u'" using processTxQueue_observed [OF inv(1,2)] by blast
  ultimately show ?thesis
    using inv length_udp_tx [OF inv(1)] by (simp add: udp_getTxFree_def getMaxAppDataSize_def udp_consts outgoing_datagrams_def)
qed

text \<open>The module at power-on; it is initialised, a datagram arrives and one is queued and sent.\<close>

definition ex_off :: "(u8 list \<times> u8 list list) wire udpio" where
  "ex_off = \<lparr>ui_lport = 0, ui_rport = 0,
     ui_txData = \<lparr>td_upcb = None, td_pbuffer = None, td_raddr = 0, td_connected = False, td_update = False\<rparr>,
     ui_inited = False, ui_txQueue = ui_txQueue ex_udp, ui_rxQueue = ui_rxQueue ex_udp, ui_raw = ui_raw ex_udp,
     ui_udpBuffers = ui_udpBuffers ex_udp, ui_pbufs = Map.empty,
     ui_net = \<lparr>wi_net = ([], []), wi_len = (\<lambda>p. 0), wi_mem = (\<lambda>p. []), wi_sent = []\<rparr>\<rparr>"

lemma ex_off_run: "udp_run k [] ex_off"
proof (rule udp_run.initial)
  have e: "ui_txQueue ex_off = ui_txQueue ex_udp" "ui_raw ex_off = ui_raw ex_udp" "ui_udpBuffers ex_off = ui_udpBuffers ex_udp"
    by (simp_all add: ex_off_def)
  show "udp_tx_inv ex_off" "udp_tx ex_off = []"
    using ex_udp_inv by (simp_all add: udp_tx_inv_def udp_tx_def e)
qed (use ex_udp_queues in \<open>simp_all add: ex_off_def\<close>)

theorem udp_datagrams_in_order_witness:
  "\<exists>rc u1 u2 u3 u4. udp_init (observed ex_lwip) 3000 4023 ex_off = (rc, u1) \<and> udp_receive_callback 3 [9] 5 u1 = Inr u2 \<and>
     addTxData [1, 2, 3] 3 u2 = Inr (3, u3) \<and> processTxQueue (observed ex_lwip) 1 u3 = Inr u4 \<and>
     [x \<leftarrow> sent_to_net u4. x \<noteq> []] @ udp_tx u4 = [[1, 2, 3]]"
proof -
  obtain rc u1 where u1: "udp_init (observed ex_lwip) 3000 4023 ex_off = (rc, u1)" by fastforce
  have r1: "udp_run ex_lwip [] u1" by (rule udp_run.reinit [OF ex_off_run u1])
  have e1: "ui_txQueue u1 = ui_txQueue ex_udp" "ui_rxQueue u1 = ui_rxQueue ex_udp" "udp_rx_inv u1"
    using udp_init_frame(1,4) [OF u1] ex_udp_pool(3) ex_udp_inv(3) by (simp_all add: ex_off_def udp_rx_inv_def)
  obtain u2 where u2: "udp_receive_callback 3 [9] 5 u1 = Inr u2" using udp_receive_total [OF e1(3)] by blast
  have r2: "udp_run ex_lwip [] u2" by (rule udp_run.receive [OF r1 u2])
  have "udp_tx u2 = []" using udp_receive_law(2,3) [OF e1(3) u2] e1(1) ex_udp_queues(2) by (simp add: udp_tx_def)
  then obtain u3 where u3: "addTxData [1, 2, 3] 3 u2 = Inr (3, u3)"
    using addTxData_law [of u2 3 "[1, 2, 3]"] udp_run_inv [OF r2] by (auto simp: udp_consts)
  have "udp_run ex_lwip (if (3 :: int) \<ge> 0 then [] @ [take (nat 3) [1, 2, 3]] else []) u3"
    by (rule udp_run.add [OF r2 _ u3]) simp
  then have r3: "udp_run ex_lwip [[1, 2, 3]] u3" by (simp add: numeral_3_eq_3)
  obtain u4 where u4: "processTxQueue (observed ex_lwip) 1 u3 = Inr u4" using udp_datagrams_in_order [OF r3, of 1] by blast
  have "udp_run ex_lwip [[1, 2, 3]] u4" by (rule udp_run.transmit [OF r3 u4])
  then show ?thesis using udp_datagrams_in_order [of ex_lwip "[[1, 2, 3]]" u4 0] u1 u2 u3 u4 by metis
qed

text \<open>
  A pass of the transmit loop over a queue with a non-empty first datagram, once the socket is
  connected (again), hands exactly the bytes of this datagram to the network stack, and takes it off
  the queue if and only if the stack accepts it.
\<close>

lemma udp_send_delivers:
  assumes inv: "udp_tx_inv u" and x: "udp_tx u = x # xs" "x \<noteq> []" and ini: "ui_inited u"
    and con: "udp_reconnect k u = Inr (True, v)" "td_connected (ui_txData v)"
    and pb: "td_pbuffer (ui_txData v) = Some pb" and pcb: "td_upcb (ui_txData v) = Some pcb"
    and snd: "udp_send k pcb pb (pbuf_take k pb x (pbuf_set_len k pb (of_nat (length x)) (ui_net v))) = (rc, net)"
  shows "\<exists>u'. processTxQueue k 1 u = Inr u' \<and> ui_net u' = net \<and> udp_tx_inv u' \<and>
     udp_tx u' = (if rc = 0 then xs else x # xs)"
proof -
  have q: "tqueue_inv (ui_txQueue u)" using inv by (simp add: udp_tx_inv_def)
  obtain d where d: "tqueue_peek (ui_txQueue u) = Some d"
    using x(1) tqueue_peek_law [OF q] by (auto simp: udp_tx_def split: list.splits)
  note f = udp_front [OF inv d]
  have sz: "ud_size d = of_nat (length x)" using f(3) x(1) by simp
  have nz: "ud_size d \<noteq> 0" using f(3) x by auto
  have "udp_same u v"
    using con(1) by (auto simp: udp_reconnect_def udp_same_def Let_def split: if_split_asm option.splits prod.splits)
  then have sv: "ui_txQueue v = ui_txQueue u" "ui_raw v = ui_raw u" "ui_udpBuffers v = ui_udpBuffers u"
      "ui_pbufs v = ui_pbufs u" by (simp_all add: udp_same_def)
  then have dby: "ud_bytes (v\<lparr>ui_net := n\<rparr>) d = Inr x" for n
    using f(2) x(1) ud_bytes_cong [of "v\<lparr>ui_net := n\<rparr>" u d] by simp
  have s: "udp_io_send k d u = Inr (if rc = 0 then ucast (ud_size d) else 0, v\<lparr>ui_net := net\<rparr>)"
    using ini con pb pcb snd by (simp add: udp_io_send_def dby sz)
  have "unat (ud_size d) < 4294967296" using unat_lt_65536 [of "ud_size d"] by linarith
  then have "unat (ucast (ud_size d) :: u32) = unat (ud_size d)" by (simp add: unsigned_ucast_eq take_bit_eq_mod)
  then have gt: "(ucast (ud_size d) :: u32) > 0" using nz by (metis unat_eq_zero unat_gt_0 word_gt_0)
  have iv: "udp_tx_inv (v\<lparr>ui_net := net\<rparr>)" "udp_tx (v\<lparr>ui_net := net\<rparr>) = udp_tx u"
    using udp_tx_inv_cong [of "v\<lparr>ui_net := net\<rparr>" u] sv inv by simp_all
  obtain p where p: "pool_release (ud_buffer d) (ui_udpBuffers (v\<lparr>ui_net := net\<rparr>)) = Inr p"
     "udp_tx_inv ((v\<lparr>ui_net := net\<rparr>)\<lparr>ui_udpBuffers := p, ui_txQueue := tqueue_pop (ui_txQueue u)\<rparr>)"
     "udp_tx ((v\<lparr>ui_net := net\<rparr>)\<lparr>ui_udpBuffers := p, ui_txQueue := tqueue_pop (ui_txQueue u)\<rparr>) = tl (udp_tx u)"
    using udp_pop_law [OF iv(1)] d sv(1) iv(2) by auto
  show ?thesis
  proof (cases "rc = 0")
    case True
    then show ?thesis using d s gt p x(1) sv(1) by simp
  next
    case False
    then show ?thesis using d s iv x(1) by simp
  qed
qed

lemma udp_send_delivers_example:
  "\<exists>u u'. addTxData [1, 2, 3] 3 ex_udp = Inr (3, u) \<and> processTxQueue ex_lwip 1 u = Inr u' \<and>
     snd (ui_net u') = [[1, 2, 3]] \<and> udp_tx u' = []"
proof -
  obtain u where u: "addTxData [1, 2, 3] 3 ex_udp = Inr (3, u)" "udp_tx_inv u" "udp_tx u = [1, 2, 3] # []"
      "ui_txData u = ui_txData ex_udp" "ui_inited u" "ui_net u = ([], [])" using ex_udp_add by blast
  define v where "v = u\<lparr>ui_txData := (ui_txData u)\<lparr>td_connected := True, td_update := False\<rparr>\<rparr>"
  have "udp_reconnect ex_lwip u = Inr (True, v)"
    using u(4) by (simp add: udp_reconnect_def v_def ex_udp_def ex_lwip_def)
  moreover have "td_connected (ui_txData v)" "td_pbuffer (ui_txData v) = Some 7" "td_upcb (ui_txData v) = Some 1"
      "ui_net v = ([], [])"
    using u(4,6) by (simp_all add: v_def ex_udp_def)
  ultimately obtain u' where "processTxQueue ex_lwip 1 u = Inr u'" "ui_net u' = ([1, 2, 3], [[1, 2, 3]])"
      "udp_tx u' = (if (0 :: int) = 0 then [] else [1, 2, 3] # [])"
    using udp_send_delivers [OF u(2,3) _ u(5), of ex_lwip v 7 1 0 "([1, 2, 3], [[1, 2, 3]])"]
    by (auto simp: ex_lwip_def)
  then show ?thesis using u(1) by simp
qed

text \<open>
  A datagram without data is accepted for transmission and then blocks the queue for ever: no number
  of passes of the transmit loop removes it, whatever the network stack does.
\<close>

lemma udp_empty_datagram_blocks:
  assumes "udp_tx_inv u" and "udp_tx u = []"
  shows "\<exists>u1. addTxData data 0 u = Inr (0, u1) \<and> udp_tx u1 = [[]] \<and>
     (\<forall>n u2. processTxQueue k n u1 = Inr u2 \<longrightarrow> udp_tx u2 = [[]])"
proof -
  obtain u1 where u1: "addTxData data 0 u = Inr (0, u1)" "udp_tx_inv u1" "udp_tx u1 = [[]]"
    using addTxData_law [OF assms(1), of 0 data] assms(2) by (auto simp: udp_consts)
  have "udp_tx_inv u \<Longrightarrow> udp_tx u = [[]] \<Longrightarrow> processTxQueue k n u = Inr u2 \<Longrightarrow> udp_tx u2 = [[]]" for n u2 u
  proof (induction n arbitrary: u)
    case (Suc n)
    have q: "tqueue_inv (ui_txQueue u)" using Suc.prems(1) by (simp add: udp_tx_inv_def)
    obtain d where d: "tqueue_peek (ui_txQueue u) = Some d"
      using Suc.prems(2) tqueue_peek_law [OF q] by (auto simp: udp_tx_def split: list.splits)
    obtain v where v: "processTxQueue k 1 u = Inr v" "processTxQueue k n v = Inr u2"
      using Suc.prems(3) d by (auto simp: rbind_Inr_iff)
    have "udp_tx_inv v \<and> udp_tx v = [[]]" using processTxQueue_pass(1) [OF Suc.prems(1) d v(1)] Suc.prems(2) by auto
    then show ?case using Suc.IH v(2) by blast
  qed simp
  then show ?thesis using u1 by blast
qed

lemma udp_empty_datagram_blocks_example:
  "\<exists>u1 u2. addTxData [] 0 ex_udp = Inr (0, u1) \<and> processTxQueue ex_lwip 5 u1 = Inr u2 \<and> udp_tx u2 = [[]]"
proof -
  obtain u1 where u1: "addTxData [] 0 ex_udp = Inr (0, u1)" "udp_tx u1 = [[]]"
     "\<forall>n u2. processTxQueue ex_lwip n u1 = Inr u2 \<longrightarrow> udp_tx u2 = [[]]"
    using udp_empty_datagram_blocks [OF ex_udp_inv(1,2)] by blast
  obtain e where e: "u1 = e \<and> udp_tx_inv e \<and> ui_txData e = ui_txData ex_udp \<and> ui_inited e"
    using addTxData_law [OF ex_udp_inv(1), of 0 "[]"] ex_udp_inv(2) u1(1) by (auto simp: ex_udp_def udp_consts)
  have "td_pbuffer (ui_txData u1) = Some 7" "td_upcb (ui_txData u1) = Some 1" "udp_tx_inv u1"
    using e by (auto simp: ex_udp_def)
  then obtain u2 where "processTxQueue ex_lwip 5 u1 = Inr u2" using ex_lwip_ok by blast
  then show ?thesis using u1 by blast
qed

text \<open>
  Of the packet buffers handed to the application, those of queued datagrams are freed after they
  have been processed; a datagram that arrives when the queue is full, or on the transmit socket, keeps
  its packet buffer for ever.
\<close>

lemma udp_rx_buffers_accounted:
  assumes "udp_rx_run k L u"
  shows "dom (ui_pbufs u) = set (rx_pbufs u) \<union> L \<and> set (rx_pbufs u) \<inter> L = {} \<and> distinct (rx_pbufs u)"
  using udp_rx_run_inv [OF assms] by simp

lemma udp_rx_buffers_accounted_example:
  "dom (ui_pbufs (udp_receive_callback2 3 [1] 5 ex_udp)) = {3}"
proof -
  have p0: "ui_pbufs ex_udp = Map.empty" by (simp add: ex_udp_def)
  have "udp_rx_run ex_lwip {} ex_udp" using ex_udp_inv ex_udp_queues(4) p0 by (intro udp_rx_run.initial)
  then have "udp_rx_run ex_lwip (insert 3 {}) (udp_receive_callback2 3 [1] 5 ex_udp)"
    by (rule udp_rx_run.receive2) (simp add: p0)
  from udp_rx_buffers_accounted [OF this] show ?thesis
    using ex_udp_queues(4) by (simp add: rx_pbufs_def udp_receive_callback2_def)
qed

end
