(* ===== verification/Supervisor.thy ===== *)
theory Supervisor
  imports TQueue
begin

text \<open>
  The cooperative scheduler: \<open>TCMessage\<close> and \<open>TBaseTask\<close> (\<^verbatim>\<open>src/inc/supervisor/basetask.h\<close>) and
  \<open>TSupervisor\<close> (\<^verbatim>\<open>src/inc/supervisor/supervisor.h\<close>, \<^verbatim>\<open>src/src/supervisor/supervisor.cpp\<close>). The state of a
  system is the message queue of the supervisor and the state \<open>'s\<close> of its tasks; the virtual methods of a
  task are the fields of a record.
\<close>

section \<open>Messages and tasks\<close>

record TCMessage =
  cm_msgGroup :: u32
  cm_Param1 :: u32
  cm_Param2 :: u32
  cm_msgNo :: u16
  cm_discard :: bool

definition mkMessage :: "u32 \<Rightarrow> u16 \<Rightarrow> u32 \<Rightarrow> u32 \<Rightarrow> TCMessage" where
  "mkMessage g no p1 p2 =
     \<lparr>cm_msgGroup = g, cm_Param1 = p1, cm_Param2 = p2, cm_msgNo = no, cm_discard = False\<rparr>"

type_synonym 's sup = "TCMessage tqueue \<times> 's"

text \<open>
  \<open>handleEvent\<close> gets a pointer to the message, so it returns the message; \<open>process\<close> may fail to return
  (\<open>None\<close>). \<open>setActive\<close> is \<open>activate\<close> or \<open>deactivate\<close>.
\<close>

record 's task =
  tk_eventMask :: u32
  tk_isActive :: "'s \<Rightarrow> bool"
  tk_setActive :: "bool \<Rightarrow> 's sup \<Rightarrow> 's sup res"
  tk_handleEvent :: "TCMessage \<Rightarrow> 's sup \<Rightarrow> (TCMessage \<times> 's sup) res"
  tk_process :: "'s sup \<Rightarrow> 's sup res option"

section \<open>The supervisor\<close>

definition sendMessage :: "u32 \<Rightarrow> u16 \<Rightarrow> u32 \<Rightarrow> u32 \<Rightarrow> TCMessage tqueue \<Rightarrow> (bool \<times> TCMessage tqueue) res" where
  "sendMessage g no p1 p2 q =
     (if \<not> isFull q then rbind (tqueue_push (mkMessage g no p1 p2) q) (\<lambda>q. Inr (True, q)) else Inr (False, q))"

definition isTaskActive :: "'s task list \<Rightarrow> nat \<Rightarrow> 's sup \<Rightarrow> bool res" where
  "isTaskActive ts i s = rbind (load ts i) (\<lambda>t. Inr (tk_isActive t (snd s)))"

definition activateTask :: "'s task list \<Rightarrow> nat \<Rightarrow> 's sup \<Rightarrow> 's sup res" where
  "activateTask ts i s =
     rbind (load ts i) (\<lambda>t. if \<not> tk_isActive t (snd s) then tk_setActive t True s else Inr s)"

definition deactivateTask :: "'s task list \<Rightarrow> nat \<Rightarrow> 's sup \<Rightarrow> 's sup res" where
  "deactivateTask ts i s = rbind (load ts i) (\<lambda>t. tk_setActive t False s)"

fun processTasks :: "'s task list \<Rightarrow> 's sup \<Rightarrow> 's sup res option" where
  "processTasks [] s = Some (Inr s)"
| "processTasks (t # ts) s =
     (if tk_isActive t (snd s) then
        (case tk_process t s of
           None \<Rightarrow> None
         | Some (Inl e) \<Rightarrow> Some (Inl e)
         | Some (Inr s) \<Rightarrow> processTasks ts s)
      else processTasks ts s)"

text \<open>The loop over the tasks for one message.\<close>

fun dispatch :: "'s task list \<Rightarrow> TCMessage \<Rightarrow> 's sup \<Rightarrow> 's sup res" where
  "dispatch [] msg s = Inr s"
| "dispatch (t # ts) msg s =
     (if cm_discard msg then Inr s
      else if tk_isActive t (snd s) \<and> tk_eventMask t AND cm_msgGroup msg \<noteq> 0
      then rbind (tk_handleEvent t msg s) (\<lambda>(msg, s). dispatch ts msg s)
      else dispatch ts msg s)"

text \<open>\<open>None\<close> is a loop that does not end: handlers may send messages.\<close>

partial_function (option) processMessages :: "'s task list \<Rightarrow> 's sup \<Rightarrow> 's sup res option" where
  "processMessages ts s =
     (case tqueue_peek (fst s) of
        None \<Rightarrow> Some (Inr s)
      | Some msg \<Rightarrow>
          (case dispatch ts msg s of
             Inl e \<Rightarrow> Some (Inl e)
           | Inr s \<Rightarrow> processMessages ts (tqueue_pop (fst s), snd s)))"

section \<open>What the tasks keep\<close>

lemma processTasks_steps:
  assumes "processTasks ts (q, x) = Some (Inr (q', x'))" and "R 0 q x"
    and "\<And>i q x. i < length ts \<Longrightarrow> R i q x \<Longrightarrow> R (Suc i) q x"
    and "\<And>i q x q' x'. i < length ts \<Longrightarrow> R i q x \<Longrightarrow> tk_process (ts ! i) (q, x) = Some (Inr (q', x')) \<Longrightarrow> R (Suc i) q' x'"
  shows "R (length ts) q' x'"
  using assms
proof (induction ts arbitrary: q x R)
  case (Cons t ts)
  obtain q1 x1 where 1: "(q1, x1) = (q, x) \<or> tk_process t (q, x) = Some (Inr (q1, x1))" "processTasks ts (q1, x1) = Some (Inr (q', x'))"
    using Cons.prems(1) by (auto split: if_split_asm option.splits sum.splits)
  have "R (Suc 0) q1 x1" using 1(1)
  proof
    assume "(q1, x1) = (q, x)"
    then show ?thesis using Cons.prems(3) [of 0 q x] Cons.prems(2) by simp
  next
    assume "tk_process t (q, x) = Some (Inr (q1, x1))"
    then show ?thesis using Cons.prems(4) [of 0 q x q1 x1] Cons.prems(2) by simp
  qed
  then have "(\<lambda>i. R (Suc i)) (length ts) q' x'"
    by (rule Cons.IH [OF 1(2)]) (use Cons.prems(3) [of "Suc _"] Cons.prems(4) [of "Suc _"] in simp_all)
  then show ?case by simp
qed simp

section \<open>Tasks whose handlers send no messages\<close>

lemma sendMessage_law:
  assumes "tqueue_inv q"
  shows "\<exists>r q'. sendMessage g no p1 p2 q = Inr (r, q') \<and> tqueue_inv q' \<and> msgBufferSize q' = msgBufferSize q \<and>
     tqueue_cont q' = (if r then tqueue_cont q @ [mkMessage g no p1 p2] else tqueue_cont q) \<and> r = (\<not> isFull q)"
proof (cases "isFull q")
  case False
  then have "length (tqueue_cont q) < msgBufferSize q"
    using tqueue_full_iff [OF assms] tqueue_size_le [OF assms] by (simp add: tqueue_cont_def)
  then obtain q' where "tqueue_push (mkMessage g no p1 p2) q = Inr q'" "tqueue_inv q'" "msgBufferSize q' = msgBufferSize q"
      "tqueue_cont q' = tqueue_cont q @ [mkMessage g no p1 p2]"
    using tqueue_push_law [OF assms, of "mkMessage g no p1 p2"] by auto
  then show ?thesis using False by (intro exI [of _ True] exI [of _ q']) (simp add: sendMessage_def)
next
  case True
  then show ?thesis using assms by (intro exI [of _ False] exI [of _ q]) (simp add: sendMessage_def)
qed

text \<open>The effect of one message on the tasks: every active task with a matching mask handles it, in order.\<close>

definition handle_one :: "TCMessage \<Rightarrow> 's task \<Rightarrow> 's \<Rightarrow> 's res" where
  "handle_one msg t s =
     (if tk_isActive t s \<and> tk_eventMask t AND cm_msgGroup msg \<noteq> 0
      then rbind (tk_handleEvent t msg (tqueue_new [] 0, s)) (\<lambda>(_, _, s'). Inr s') else Inr s)"

definition handled :: "'s task list \<Rightarrow> TCMessage \<Rightarrow> 's \<Rightarrow> 's res" where
  "handled ts msg = rfold (handle_one msg) ts"

text \<open>
  The contract of a set of tasks in which a handler neither changes the message nor sends messages, and
  does not depend on the queue. Then the effect of a message is a function on the state of the tasks.
\<close>

locale quiet_tasks =
  fixes ts :: "'s task list"
  assumes quiet: "t \<in> set ts \<Longrightarrow> tk_handleEvent t msg (q, s) = rbind (tk_handleEvent t msg (q0, s)) (\<lambda>(m, _, s'). Inr (msg, q, s'))"
begin

lemma dispatch_quiet:
  assumes "\<not> cm_discard msg" and "set us \<subseteq> set ts"
  shows "dispatch us msg (q, s) = rbind (handled us msg s) (\<lambda>s. Inr (q, s))"
  using assms(2)
proof (induction us arbitrary: s)
  case (Cons t us)
  have t: "tk_handleEvent t msg (q, s) = rbind (tk_handleEvent t msg (tqueue_new [] 0, s)) (\<lambda>(m, _, s'). Inr (msg, q, s'))"
    using Cons.prems by (intro quiet) simp
  show ?case
  proof (cases "tk_isActive t s \<and> tk_eventMask t AND cm_msgGroup msg \<noteq> 0")
    case True
    then show ?thesis using assms(1) t Cons by (cases "tk_handleEvent t msg (tqueue_new [] 0, s)") (auto simp: handled_def handle_one_def split: prod.splits)
  next
    case False
    then show ?thesis using assms(1) Cons by (auto simp: handled_def handle_one_def)
  qed
qed (simp add: handled_def)

text \<open>The message loop ends; it handles the queued messages in order and leaves the queue empty.\<close>

lemma messages_in_order:
  assumes "tqueue_inv q" and "\<forall>m \<in> set (tqueue_cont q). \<not> cm_discard m"
  shows "(\<exists>e. rfold (handled ts) (tqueue_cont q) s = Inl e \<and> processMessages ts (q, s) = Some (Inl e)) \<or>
     (\<exists>s' q'. rfold (handled ts) (tqueue_cont q) s = Inr s' \<and> processMessages ts (q, s) = Some (Inr (q', s')) \<and>
        tqueue_inv q' \<and> tqueue_cont q' = [] \<and> msgBufferSize q' = msgBufferSize q)"
  using assms
proof (induction "tqueue_cont q" arbitrary: q s)
  case Nil
  then have "tqueue_peek q = None" using tqueue_peek_law by (metis list.simps(4))
  then show ?case using Nil by (subst processMessages.simps, subst processMessages.simps) auto
next
  case (Cons m ms)
  have peek: "tqueue_peek q = Some m" using Cons.hyps(2) Cons.prems(1) tqueue_peek_law by (metis list.simps(5))
  have pop: "tqueue_inv (tqueue_pop q)" "tqueue_cont (tqueue_pop q) = ms" "msgBufferSize (tqueue_pop q) = msgBufferSize q"
    using tqueue_pop_law [OF Cons.prems(1)] Cons.hyps(2) by (metis list.sel(3))+
  have d: "dispatch ts m (q, s) = rbind (handled ts m s) (\<lambda>s. Inr (q, s))"
    using Cons.hyps(2) Cons.prems(2) by (intro dispatch_quiet) (metis list.set_intros(1), simp)
  have nd: "\<forall>m \<in> set (tqueue_cont (tqueue_pop q)). \<not> cm_discard m"
    using Cons.hyps(2) Cons.prems(2) pop(2) by (metis list.set_intros(2))
  show ?case
  proof (cases "handled ts m s")
    case (Inl e)
    then have "processMessages ts (q, s) = Some (Inl e)" using peek d by (subst processMessages.simps) simp
    moreover have "rfold (handled ts) (tqueue_cont q) s = Inl e" using Inl Cons.hyps(2) [symmetric] by simp
    ultimately show ?thesis by blast
  next
    case (Inr s1)
    then have "processMessages ts (q, s) = processMessages ts (tqueue_pop q, s1)"
      using peek d by (subst processMessages.simps) simp
    moreover have "rfold (handled ts) (tqueue_cont q) s = rfold (handled ts) ms s1" using Inr Cons.hyps(2) [symmetric] by simp
    ultimately show ?thesis using Cons.hyps(1) [OF pop(2) [symmetric] pop(1) nd, of s1] pop(2,3) by simp
  qed
qed

end

end
