(* ===== verification/Tasks.thy ===== *)
theory Tasks
  imports SlaveHandlers UdpIO Phy Supervisor
begin

text \<open>
  The tasks of the firmware (\<^verbatim>\<open>src/src/tasks.cpp\<close>, \<^verbatim>\<open>ts_init.cpp\<close>, \<^verbatim>\<open>ts_monitor.cpp\<close>, \<^verbatim>\<open>ts_emac_service.cpp\<close>,
  \<^verbatim>\<open>ts_udp_service.cpp\<close>) under the supervisor. The state joins the states of the components: the polling
  automaton and the master's transmitter of the local bus, the host's protocol engine with its registers,
  the UDP module, and the Ethernet link. The surroundings of one pass of the main loop (tick counter,
  chip, network stack, datagrams and bytes that arrive) are a record \<open>env\<close>.
\<close>

section \<open>State\<close>

datatype mac_state = macIdle | macError | macInitStart | macInitWait | macInitWaitTimeout | macInitComplete
  | macControlLinkStatus | macLinkOff | macLinkWait

record mac_task =
  mc_state :: mac_state
  mc_timer :: u32
  mc_timer2 :: u32
  mc_timer3 :: u32
  mc_connected :: bool

datatype udp_state = udpIdle | udpInit | udpInitOk | udpProcess | udpProcessRx | udpProcessTx

text \<open>\<open>ut_appTx\<close> tells whether the transmit callback is installed in the host's protocol.\<close>

record udp_task =
  ut_state :: udp_state
  ut_UDP_initOk :: bool
  ut_connected :: bool
  ut_appTx :: bool

text \<open>
  The host's protocol instance works on the UDP module; a fault of the module inside the transmit
  callback is kept in its state and raised when the callback's caller returns.
\<close>

type_synonym 'n host = "dev \<times> 'n udpio res proto \<times> protocolType"

record ('w, 'n, 'h) sys =
  sy_active :: "bool list"
  sy_initState :: nat
  sy_initTimer :: u32
  sy_monTimer :: u32
  sy_mac :: mac_task
  sy_udp :: udp_task
  sy_emac :: emac
  sy_hw :: 'h
  sy_poll :: poll
  sy_master :: "'w master"
  sy_host :: "'n host"
  sy_udpio :: "'n udpio"

record ('w, 'n, 'h) env =
  en_now :: u32
  en_henv :: henv
  en_stk8 :: u8
  en_stk16 :: u16
  en_raw :: "nat \<Rightarrow> TDataBuffer"
  en_links :: "'w links"
  en_hostLinks :: "'n udpio res links"
  en_lwip :: "'n lwip"
  en_enet :: "'h enet"
  en_rx :: "(nat \<times> u8 list \<times> u32) list"
  en_timeouts :: "'n \<Rightarrow> 'n"
  en_rs485 :: "u8 list"
  en_rs485b :: "u8 list"
  en_echo :: "u8 list \<Rightarrow> 'w \<Rightarrow> 'w"

definition task_Monitor :: nat where "task_Monitor = 0"
definition task_MAC_Service :: nat where "task_MAC_Service = 1"
definition task_UDP_Service :: nat where "task_UDP_Service = 2"
definition task_Init :: nat where "task_Init = 3"

definition grpNet :: u32 where "grpNet = 0x00000200"
definition grpSystem :: u32 where "grpSystem = 0x10000010"
definition grpNetState :: u32 where "grpNetState = 0x00000200"
definition TaskMask :: u32 where "TaskMask = 0xffffffff"

definition msgSysInit :: u16 where "msgSysInit = 1101"
definition msgNetInitStart :: u16 where "msgNetInitStart = 1200"
definition msgNetInitOk :: u16 where "msgNetInitOk = 1201"
definition msgNetConnected :: u16 where "msgNetConnected = 1203"
definition msgNetDisconnected :: u16 where "msgNetDisconnected = 1204"
definition msgNetError :: u16 where "msgNetError = 1205"
definition msgUDP_InitOk :: u16 where "msgUDP_InitOk = 1206"
definition msgUDP_InitError :: u16 where "msgUDP_InitError = 1207"

lemmas task_consts = task_Monitor_def task_MAC_Service_def task_UDP_Service_def task_Init_def grpNet_def grpSystem_def
  grpNetState_def TaskMask_def msgSysInit_def msgNetInitStart_def msgNetInitOk_def msgNetConnected_def
  msgNetDisconnected_def msgNetError_def msgUDP_InitOk_def msgUDP_InitError_def

type_synonym ('w, 'n, 'h) st = "('w, 'n, 'h) sys sup"

text \<open>\<open>sendMessage\<close> from a task; the result is ignored everywhere.\<close>

definition send_msg :: "u32 \<Rightarrow> u16 \<Rightarrow> ('w, 'n, 'h) st \<Rightarrow> ('w, 'n, 'h) st res" where
  "send_msg g no s = rbind (sendMessage g no 0 0 (fst s)) (\<lambda>(_, q). Inr (q, snd s))"

definition set_active :: "nat \<Rightarrow> bool \<Rightarrow> ('w, 'n, 'h) sys \<Rightarrow> ('w, 'n, 'h) sys" where
  "set_active i b x = x\<lparr>sy_active := (sy_active x)[i := b]\<rparr>"

text \<open>
  No \<open>handleEvent\<close> of the firmware changes the message or sends messages: the handlers are given by
  functions on the state of the tasks.
\<close>

definition event_handler :: "(TCMessage \<Rightarrow> 's \<Rightarrow> 's) \<Rightarrow> TCMessage \<Rightarrow> 's sup \<Rightarrow> (TCMessage \<times> 's sup) res" where
  "event_handler f msg s = Inr (msg, fst s, f msg (snd s))"

section \<open>The bytes of the local bus\<close>

text \<open>
  \<open>hal::uarts::process\<close> for the RS485 line: the chip's driver gives the bytes \<open>en_rs485\<close>, which are sent
  back; then it is asked again, and only the bytes \<open>en_rs485b\<close> of this second call go to the protocol
  engine, over the array in which they were stored. (The bytes of the RS232 line go to the console.)
\<close>

definition uart_process :: "('w, 'n, 'h) env \<Rightarrow> ('w, 'n, 'h) sys \<Rightarrow> ('w, 'n, 'h) sys res option" where
  "uart_process E x =
     (if en_rs485 E = [] then Some (Inr x)
      else
        let m = sy_master x;
            m = m\<lparr>mt_protocol := (mt_protocol m)\<lparr>pr_world := en_echo E (en_rs485 E) (pr_world (mt_protocol m))\<rparr>\<rparr>;
            nn = length (en_rs485b E);
            b = tbuffer_new (en_rs485b E) (int nn)
        in case sy_host x of (d, p, ty) \<Rightarrow>
             (case loc_processInputData (en_links E) (en_now E) (of_nat nn)
                     \<lparr>lo_poll = sy_poll x, lo_queue = mt_txQueue m, lo_data = dv_data d\<rparr> m b of
                None \<Rightarrow> None
              | Some (Inl e) \<Rightarrow> Some (Inl e)
              | Some (Inr (r, s, m)) \<Rightarrow>
                  Some (Inr (x\<lparr>sy_poll := lo_poll s, sy_master := m, sy_host := (d\<lparr>dv_data := lo_data s\<rparr>, p, ty)\<rparr>))))"

section \<open>The monitor\<close>

definition mon_setActive :: "bool \<Rightarrow> ('w, 'n, 'h) st \<Rightarrow> ('w, 'n, 'h) st res" where
  "mon_setActive b s =
     (let s = (fst s, set_active task_Monitor b (snd s)) in
      if b then send_msg grpSystem msgSysInit s else Inr s)"

definition slave_init :: "poll \<Rightarrow> poll" where
  "slave_init p = sp_setup [1, 2, 0, 0] (sp_configure 200 50 p)"

definition mon_event :: "TCMessage \<Rightarrow> ('w, 'n, 'h) sys \<Rightarrow> ('w, 'n, 'h) sys" where
  "mon_event msg x =
     (if cm_msgNo msg = msgSysInit then x\<lparr>sy_poll := slave_init (sy_poll x)\<rparr>
      else if cm_msgNo msg = msgNetConnected then x\<lparr>sy_poll := sp_start (sy_poll x)\<rparr>
      else if cm_msgNo msg = msgNetDisconnected then x\<lparr>sy_poll := sp_stop (sy_poll x)\<rparr>
      else x)"

definition mon_process :: "('w, 'n, 'h) env \<Rightarrow> ('w, 'n, 'h) st \<Rightarrow> ('w, 'n, 'h) st res option" where
  "mon_process E s =
     (case s of (q, x) \<Rightarrow>
      (case mt_process (en_links E) (en_stk8 E) (en_now E) (sy_master x) of
         None \<Rightarrow> None
       | Some (Inl e) \<Rightarrow> Some (Inl e)
       | Some (Inr m) \<Rightarrow>
           Some (Inr (q, x\<lparr>sy_master := m,
             sy_monTimer := (if TIMEOUT (en_now E) (sy_monTimer x) 5 then en_now E else sy_monTimer x)\<rparr>))))"

section \<open>The Ethernet service\<close>

definition mac_set :: "mac_state \<Rightarrow> ('w, 'n, 'h) sys \<Rightarrow> ('w, 'n, 'h) sys" where
  "mac_set st x = x\<lparr>sy_mac := (sy_mac x)\<lparr>mc_state := st\<rparr>\<rparr>"

definition mac_timer :: "u32 \<Rightarrow> ('w, 'n, 'h) sys \<Rightarrow> ('w, 'n, 'h) sys" where
  "mac_timer t x = x\<lparr>sy_mac := (sy_mac x)\<lparr>mc_timer := t\<rparr>\<rparr>"

definition mac_conn :: "bool \<Rightarrow> ('w, 'n, 'h) sys \<Rightarrow> ('w, 'n, 'h) sys" where
  "mac_conn b x = x\<lparr>sy_mac := (sy_mac x)\<lparr>mc_connected := b\<rparr>\<rparr>"

definition mac_setActive :: "('w, 'n, 'h) env \<Rightarrow> bool \<Rightarrow> ('w, 'n, 'h) st \<Rightarrow> ('w, 'n, 'h) st res" where
  "mac_setActive E b s =
     (case s of (q, x) \<Rightarrow>
      Inr (q, set_active task_MAC_Service b
        (if b then x\<lparr>sy_mac := \<lparr>mc_state = macIdle, mc_timer = en_now E, mc_timer2 = en_now E, mc_timer3 = en_now E,
                                mc_connected = False\<rparr>\<rparr>
         else mac_set macIdle x)))"

definition mac_event :: "TCMessage \<Rightarrow> ('w, 'n, 'h) sys \<Rightarrow> ('w, 'n, 'h) sys" where
  "mac_event msg x = (if cm_msgNo msg = msgSysInit then mac_set macInitStart x else x)"

text \<open>
  \<open>emac_app::process\<close>: frames that have arrived are given to the network stack, which calls the callback
  of the UDP module for the datagrams to its port.
\<close>

definition emac_process :: "('w, 'n, 'h) env \<Rightarrow> ('w, 'n, 'h) sys \<Rightarrow> ('w, 'n, 'h) sys res" where
  "emac_process E x =
     (if ui_inited (sy_udpio x)
      then rbind (rfold (\<lambda>(pb, bs, a). udp_receive_callback pb bs a) (en_rx E) (sy_udpio x)) (\<lambda>u. Inr (x\<lparr>sy_udpio := u\<rparr>))
      else Inr x)"

definition emac_processTimers :: "('w, 'n, 'h) env \<Rightarrow> ('w, 'n, 'h) sys \<Rightarrow> ('w, 'n, 'h) sys" where
  "emac_processTimers E x = x\<lparr>sy_udpio := (sy_udpio x)\<lparr>ui_net := en_timeouts E (ui_net (sy_udpio x))\<rparr>\<rparr>"

text \<open>The second \<open>switch\<close> of \<open>process\<close>.\<close>

definition mac_switch :: "('w, 'n, 'h) env \<Rightarrow> ('w, 'n, 'h) st \<Rightarrow> ('w, 'n, 'h) st res" where
  "mac_switch E s =
     (let x = snd s; up = (getLinkStatus (sy_emac x) \<noteq> 0); nw = en_now E in
      case mc_state (sy_mac x) of
        macIdle \<Rightarrow> Inr s
      | macInitStart \<Rightarrow>
          rbind (send_msg grpNet msgNetInitStart s) (\<lambda>(q, x).
            let e = setMacAddress 0x60 (0x37120000 OR (52975 AND 0xFFFF)) (sy_emac x);
                e = setIpAddress 0x8800A8C0 0x0100A8C0 0x00FFFFFF e
            in case emac_init (en_enet E) (en_stk16 E) e (sy_hw x) of (e, h) \<Rightarrow>
                 Inr (q, mac_timer nw (mac_set macInitWait (x\<lparr>sy_emac := e, sy_hw := h\<rparr>))))
      | macInitWait \<Rightarrow>
          Inr (fst s, if up then mac_set macInitComplete x
                      else if TIMEOUT nw (mc_timer (sy_mac x)) 8000 then mac_set macInitWaitTimeout x else x)
      | macInitWaitTimeout \<Rightarrow> Inr (fst s, mac_set macInitStart x)
      | macInitComplete \<Rightarrow>
          rbind (send_msg grpNet msgNetInitOk s) (\<lambda>s.
          rbind (send_msg grpNet msgNetConnected s) (\<lambda>(q, x).
            Inr (q, mac_timer nw (mac_set macControlLinkStatus (mac_conn True x)))))
      | macControlLinkStatus \<Rightarrow> Inr (fst s, if \<not> up then mac_set macLinkOff x else x)
      | macLinkOff \<Rightarrow>
          rbind (send_msg grpNet msgNetDisconnected s) (\<lambda>(q, x).
            Inr (q, mac_timer nw (mac_set macLinkWait (mac_conn False x))))
      | macLinkWait \<Rightarrow>
          (if up then rbind (send_msg grpNet msgNetConnected s) (\<lambda>(q, x).
                        Inr (q, mac_set macControlLinkStatus (mac_conn True x)))
           else Inr s)
      | macError \<Rightarrow> rbind (send_msg grpNet msgNetError s) (\<lambda>(q, x). Inr (q, mac_set macIdle x)))"

text \<open>The part of \<open>process\<close> that runs once per tick.\<close>

definition mac_tick :: "('w, 'n, 'h) env \<Rightarrow> ('w, 'n, 'h) st \<Rightarrow> ('w, 'n, 'h) st res" where
  "mac_tick E s =
     (case s of (q, x) \<Rightarrow>
      let nw = en_now E; x = x\<lparr>sy_mac := (sy_mac x)\<lparr>mc_timer2 := nw\<rparr>\<rparr> in
      if mc_state (sy_mac x) \<in> {macInitWait, macControlLinkStatus, macLinkWait} then
        (if TIMEOUT nw (mc_timer (sy_mac x)) 20
         then (case processLinkStatus (en_enet E) (sy_emac x) (sy_hw x) of (_, e, h) \<Rightarrow>
                 mac_switch E (q, mac_timer nw (x\<lparr>sy_emac := e, sy_hw := h\<rparr>)))
         else Inr (q, x))
      else mac_switch E (q, x))"

definition mac_process :: "('w, 'n, 'h) env \<Rightarrow> ('w, 'n, 'h) st \<Rightarrow> ('w, 'n, 'h) st res" where
  "mac_process E s =
     (case s of (q, x) \<Rightarrow>
      rbind (if mc_state (sy_mac x) = macControlLinkStatus
             then rbind (emac_process E x) (\<lambda>x.
                    Inr (if TIMEOUT (en_now E) (mc_timer3 (sy_mac x)) 10
                         then (emac_processTimers E x)\<lparr>sy_mac := (sy_mac x)\<lparr>mc_timer3 := en_now E\<rparr>\<rparr> else x))
             else Inr x) (\<lambda>x.
        if mc_timer2 (sy_mac x) = en_now E then Inr (q, x) else mac_tick E (q, x)))"

section \<open>The UDP service\<close>

definition udp_set :: "udp_state \<Rightarrow> ('w, 'n, 'h) sys \<Rightarrow> ('w, 'n, 'h) sys" where
  "udp_set st x = x\<lparr>sy_udp := (sy_udp x)\<lparr>ut_state := st\<rparr>\<rparr>"

definition udps_setActive :: "bool \<Rightarrow> ('w, 'n, 'h) st \<Rightarrow> ('w, 'n, 'h) st res" where
  "udps_setActive b s =
     (case s of (q, x) \<Rightarrow>
      Inr (q, set_active task_UDP_Service b
        (x\<lparr>sy_udp := (if b then \<lparr>ut_state = udpIdle, ut_UDP_initOk = False, ut_connected = False, ut_appTx = True\<rparr>
                      else (sy_udp x)\<lparr>ut_state := udpIdle, ut_appTx := False\<rparr>)\<rparr>)))"

definition udps_event :: "TCMessage \<Rightarrow> ('w, 'n, 'h) sys \<Rightarrow> ('w, 'n, 'h) sys" where
  "udps_event msg x =
     (let no = cm_msgNo msg in
      if no = msgNetInitStart then udp_set udpIdle x
      else if no = msgNetInitOk then udp_set udpInit x
      else if no = msgNetConnected then
        (let x = x\<lparr>sy_udp := (sy_udp x)\<lparr>ut_connected := True\<rparr>\<rparr> in
         if ut_UDP_initOk (sy_udp x) then udp_set udpProcess x
         else if ut_state (sy_udp x) \<noteq> udpInit then udp_set udpInit x else x)
      else if no = msgNetDisconnected then udp_set udpIdle (x\<lparr>sy_udp := (sy_udp x)\<lparr>ut_connected := False\<rparr>\<rparr>)
      else if no = msgNetError then udp_set udpIdle x
      else x)"

text \<open>\<open>processTxData\<close>, as the transmit callback of the host's protocol.\<close>

definition processTxData :: "bool \<Rightarrow> u8 list \<Rightarrow> 'n udpio res \<Rightarrow> int \<times> 'n udpio res" where
  "processTxData connected data w =
     (case w of
        Inl e \<Rightarrow> (0, Inl e)
      | Inr u \<Rightarrow> if connected
                 then (case addTxData data (of_nat (length data)) u of Inl e \<Rightarrow> (0, Inl e) | Inr (rc, u) \<Rightarrow> (rc, Inr u))
                 else (0, Inr u))"

definition host_links :: "('w, 'n, 'h) env \<Rightarrow> udp_task \<Rightarrow> 'n udpio res links" where
  "host_links E t = (en_hostLinks E)\<lparr>processTxAppData := (if ut_appTx t then Some (processTxData (ut_connected t)) else None)\<rparr>"

text \<open>\<open>processRxData\<close>: the addresses are the constants of the source.\<close>

definition processRxData :: "('w, 'n, 'h) env \<Rightarrow> udp_task \<Rightarrow> ('n host, 'n) udp_handler" where
  "processRxData E t bytes n s =
     (case s of ((d, p, ty), u) \<Rightarrow>
      (case hi_processInputAppData (en_henv E) (host_links E t) bytes n 1 2 ty d (p\<lparr>pr_world := Inr u\<rparr>) of
         (None, ty) \<Rightarrow> None
       | (Some (Inl e), ty) \<Rightarrow> Some (Inl e)
       | (Some (Inr (cnt, d, p)), ty) \<Rightarrow>
           (case pr_world p of Inl e \<Rightarrow> Some (Inl e) | Inr u \<Rightarrow> Some (Inr ((d, p, ty), u)))))"

definition DEFAULT_LOCAL_PORT :: u16 where "DEFAULT_LOCAL_PORT = 3000"
definition DEFAULT_DEST_PORT :: u16 where "DEFAULT_DEST_PORT = 4023"

definition udps_process :: "('w, 'n, 'h) env \<Rightarrow> ('w, 'n, 'h) st \<Rightarrow> ('w, 'n, 'h) st res option" where
  "udps_process E s =
     (case s of (q, x) \<Rightarrow>
      (case ut_state (sy_udp x) of
         udpIdle \<Rightarrow> Some (Inr s)
       | udpInit \<Rightarrow>
           (case udp_init (en_lwip E) DEFAULT_LOCAL_PORT DEFAULT_DEST_PORT (sy_udpio x) of (rc, u) \<Rightarrow>
              let x = x\<lparr>sy_udpio := u\<rparr> in
              if rc = kRcOk
              then Some (send_msg grpNet msgUDP_InitOk
                     (q, x\<lparr>sy_udp := (sy_udp x)\<lparr>ut_UDP_initOk := True, ut_state := udpInitOk\<rparr>\<rparr>))
              else Some (send_msg grpNet msgUDP_InitError
                     (q, x\<lparr>sy_udp := (sy_udp x)\<lparr>ut_UDP_initOk := False, ut_state := udpIdle\<rparr>\<rparr>)))
       | udpInitOk \<Rightarrow> Some (Inr (q, udp_set (if ut_connected (sy_udp x) then udpProcess else udpIdle) x))
       | udpProcess \<Rightarrow> Some (Inr (q, udp_set udpProcessRx x))
       | udpProcessRx \<Rightarrow>
           (case processRxQueue (en_lwip E) (processRxData E (sy_udp x)) 1 (sy_host x, sy_udpio x) of
              None \<Rightarrow> None
            | Some (Inl e) \<Rightarrow> Some (Inl e)
            | Some (Inr (h, u)) \<Rightarrow> Some (Inr (q, udp_set udpProcessTx (x\<lparr>sy_host := h, sy_udpio := u\<rparr>))))
       | udpProcessTx \<Rightarrow>
           Some (rbind (processTxQueue (en_lwip E) 1 (sy_udpio x)) (\<lambda>u. Inr (q, udp_set udpProcess (x\<lparr>sy_udpio := u\<rparr>))))))"

section \<open>The start task\<close>

definition ini_setActive :: "('w, 'n, 'h) env \<Rightarrow> bool \<Rightarrow> ('w, 'n, 'h) st \<Rightarrow> ('w, 'n, 'h) st res" where
  "ini_setActive E b s =
     (case s of (q, x) \<Rightarrow>
      Inr (q, set_active task_Init b (if b then x\<lparr>sy_initState := 0, sy_initTimer := en_now E\<rparr> else x)))"

definition host_protocol_init :: "'n host \<Rightarrow> 'n host" where
  "host_protocol_init h = (case h of (d, p, ty) \<Rightarrow> (d, proto_configure 9 PROTOCOL_BROADCAST_ADDRESS 5 p, ty))"

text \<open>\<open>supervisor.activateTask\<close> on the tasks by their numbers, and the whole \<open>process\<close>.\<close>

definition ini_activate :: "nat \<Rightarrow> (bool \<Rightarrow> ('w, 'n, 'h) st \<Rightarrow> ('w, 'n, 'h) st res) \<Rightarrow> ('w, 'n, 'h) st \<Rightarrow> ('w, 'n, 'h) st res" where
  "ini_activate i f s = (if \<not> sy_active (snd s) ! i then f True s else Inr s)"

definition ini_process :: "('w, 'n, 'h) env \<Rightarrow> ('w, 'n, 'h) st \<Rightarrow> ('w, 'n, 'h) st res" where
  "ini_process E s =
     (case s of (q, x) \<Rightarrow>
      if sy_initState x = 0 then
        Inr (q, x\<lparr>sy_host := host_protocol_init (sy_host x),
                  sy_master := (sy_master x)\<lparr>mt_protocol := proto_configure 1 PROTOCOL_BROADCAST_ADDRESS 5 (mt_protocol (sy_master x))\<rparr>,
                  sy_initTimer := en_now E, sy_initState := 2\<rparr>)
      else if sy_initState x = 2 then
        (case sy_host x of (d, p, ty) \<Rightarrow>
           rbind (data_init (en_raw E) (dv_data d)) (\<lambda>c.
             Inr (q, x\<lparr>sy_host := (d\<lparr>dv_data := c\<rparr>, p, ty), sy_initState := 3\<rparr>)))
      else if sy_initState x = 3 then
        rbind (ini_activate task_MAC_Service (mac_setActive E) s) (\<lambda>s.
        rbind (ini_activate task_UDP_Service udps_setActive s) (\<lambda>s.
        rbind (ini_activate task_Monitor mon_setActive s) (\<lambda>s. ini_setActive E False s)))
      else Inr s)"

section \<open>The task list and the main loop\<close>

definition sys_tasks :: "('w, 'n, 'h) env \<Rightarrow> ('w, 'n, 'h) sys task list" where
  "sys_tasks E =
     [\<lparr>tk_eventMask = TaskMask, tk_isActive = (\<lambda>x. sy_active x ! task_Monitor), tk_setActive = mon_setActive,
       tk_handleEvent = event_handler mon_event, tk_process = mon_process E\<rparr>,
      \<lparr>tk_eventMask = grpSystem OR grpNet, tk_isActive = (\<lambda>x. sy_active x ! task_MAC_Service), tk_setActive = mac_setActive E,
       tk_handleEvent = event_handler mac_event, tk_process = (\<lambda>s. Some (mac_process E s))\<rparr>,
      \<lparr>tk_eventMask = grpSystem OR grpNetState, tk_isActive = (\<lambda>x. sy_active x ! task_UDP_Service), tk_setActive = udps_setActive,
       tk_handleEvent = event_handler udps_event, tk_process = udps_process E\<rparr>,
      \<lparr>tk_eventMask = TaskMask, tk_isActive = (\<lambda>x. sy_active x ! task_Init), tk_setActive = ini_setActive E,
       tk_handleEvent = event_handler (\<lambda>msg x. x), tk_process = (\<lambda>s. Some (ini_process E s))\<rparr>]"

definition initTasks :: "('w, 'n, 'h) env \<Rightarrow> ('w, 'n, 'h) st \<Rightarrow> ('w, 'n, 'h) st res" where
  "initTasks E s = activateTask (sys_tasks E) task_Init s"

text \<open>\<open>processTasks\<close> of \<^verbatim>\<open>tasks.cpp\<close>: the tasks, then the messages.\<close>

definition sys_processTasks :: "('w, 'n, 'h) env \<Rightarrow> ('w, 'n, 'h) st \<Rightarrow> ('w, 'n, 'h) st res option" where
  "sys_processTasks E s =
     (case processTasks (sys_tasks E) s of
        None \<Rightarrow> None
      | Some (Inl e) \<Rightarrow> Some (Inl e)
      | Some (Inr s) \<Rightarrow> processMessages (sys_tasks E) s)"

text \<open>One round of the loop of \<open>main\<close>, without the console.\<close>

definition main_pass :: "('w, 'n, 'h) env \<Rightarrow> ('w, 'n, 'h) st \<Rightarrow> ('w, 'n, 'h) st res option" where
  "main_pass E s =
     (case uart_process E (snd s) of
        None \<Rightarrow> None
      | Some (Inl e) \<Rightarrow> Some (Inl e)
      | Some (Inr x) \<Rightarrow> sys_processTasks E (fst s, x))"

section \<open>Messages\<close>

lemma sys_handlers:
  "t \<in> set (sys_tasks E) \<Longrightarrow> tk_handleEvent t = event_handler mon_event \<or> tk_handleEvent t = event_handler mac_event \<or>
     tk_handleEvent t = event_handler udps_event \<or> tk_handleEvent t = event_handler (\<lambda>msg x. x)"
  unfolding sys_tasks_def by (simp, elim disjE) simp_all

interpretation qt: quiet_tasks "sys_tasks E" for E
proof
  show "t \<in> set (sys_tasks E) \<Longrightarrow>
      tk_handleEvent t msg (q, s) = rbind (tk_handleEvent t msg (q0, s)) (\<lambda>(m, _, s'). Inr (msg, q, s'))" for t msg q s q0
    using sys_handlers [of t E] by (auto simp: event_handler_def)
qed

text \<open>The handlers of the system cannot fail, and what they keep, every message keeps.\<close>

lemma handled_law:
  assumes step: "\<And>t x y. t \<in> set (sys_tasks E) \<Longrightarrow> R x \<Longrightarrow> handle_one msg t x = Inr y \<Longrightarrow> R y" and "R x"
  shows "\<exists>y. handled (sys_tasks E) msg x = Inr y \<and> R y"
  unfolding handled_def
proof (rule rfold_inv)
  fix t x assume "R x" "t \<in> set (sys_tasks E)"
  moreover have "\<exists>y. handle_one msg t x = Inr y"
    using sys_handlers [OF \<open>t \<in> set (sys_tasks E)\<close>] by (auto simp: handle_one_def event_handler_def)
  ultimately show "\<exists>s'. handle_one msg t x = Inr s' \<and> R s'" using step by blast
qed (rule assms(2))

lemma messages_law:
  assumes "\<And>msg t x y. t \<in> set (sys_tasks E) \<Longrightarrow> R x \<Longrightarrow> handle_one msg t x = Inr y \<Longrightarrow> R y" and "R x"
  shows "\<exists>y. rfold (handled (sys_tasks E)) ms x = Inr y \<and> R y"
  using assms by (intro rfold_inv handled_law)

end
