(* ===== verification/System.thy ===== *)
theory System
  imports Tasks
begin

text \<open>
  The whole firmware: an invariant of the tasks and their messages over all rounds of the main loop
  (\<^verbatim>\<open>src/src/main.cpp\<close>), and what follows for the start, the messages between the tasks, the polling of the
  local bus and the requests of the host.
\<close>

section \<open>An invariant of the system\<close>

definition MESSAGE_QUEUE_SIZE :: nat where "MESSAGE_QUEUE_SIZE = 32"

text \<open>At most \<open>n\<close> messages, none of them marked as discarded.\<close>

definition queue_ok :: "nat \<Rightarrow> TCMessage tqueue \<Rightarrow> bool" where
  "queue_ok n q \<longleftrightarrow> tqueue_inv q \<and> msgBufferSize q = MESSAGE_QUEUE_SIZE \<and> length (tqueue_cont q) \<le> n \<and> (\<forall>m \<in> set (tqueue_cont q). \<not> cm_discard m)"

definition mac_ok :: "mac_task \<Rightarrow> bool" where
  "mac_ok m \<longleftrightarrow> mc_state m \<noteq> macError \<and> mc_state m \<noteq> macInitWaitTimeout"

definition udp_ok :: "udp_task \<Rightarrow> bool" where
  "udp_ok t \<longleftrightarrow> (ut_state t \<in> {udpProcess, udpProcessRx, udpProcessTx} \<longrightarrow> ut_UDP_initOk t \<and> ut_connected t) \<and>
     (ut_state t = udpInitOk \<longrightarrow> ut_UDP_initOk t)"

definition poll_idle :: "poll \<Rightarrow> bool" where
  "poll_idle p \<longleftrightarrow> sp_state p \<in> {kStIdle, kStStart, kStStop}"

definition sys_ok :: "('w, 'n, 'h) sys \<Rightarrow> bool" where
  "sys_ok x \<longleftrightarrow> length (sy_active x) = 4 \<and> mac_ok (sy_mac x) \<and> udp_ok (sy_udp x) \<and> poll_idle (sy_poll x) \<and>
     acks_only (mt_txQueue (sy_master x))"

lemmas sys_ok_defs = sys_ok_def mac_ok_def udp_ok_def poll_idle_def

lemmas mac_upd = mac_set_def mac_timer_def mac_conn_def

lemma queue_ok_mono: "queue_ok n q \<Longrightarrow> n \<le> k \<Longrightarrow> queue_ok k q"
  by (auto simp: queue_ok_def)

lemma send_msg_law:
  assumes "send_msg g no s = Inr (q', x')" and "queue_ok n (fst s)"
  shows "queue_ok (Suc n) q'" and "x' = snd s"
proof -
  obtain r q1 where r: "sendMessage g no 0 0 (fst s) = Inr (r, q1)" "tqueue_inv q1" "msgBufferSize q1 = msgBufferSize (fst s)"
      "tqueue_cont q1 = (if r then tqueue_cont (fst s) @ [mkMessage g no 0 0] else tqueue_cont (fst s))"
    using sendMessage_law [of "fst s" g no 0 0] assms(2) by (auto simp: queue_ok_def)
  then show "x' = snd s" using assms(1) by (simp add: send_msg_def)
  have "q' = q1" using r(1) assms(1) by (simp add: send_msg_def)
  then show "queue_ok (Suc n) q'" using r(2,3,4) assms(2) by (auto simp: queue_ok_def mkMessage_def split: if_splits)
qed

lemma events_ok:
  assumes "sys_ok x"
  shows "sys_ok (mon_event msg x)" "sys_ok (mac_event msg x)" "sys_ok (udps_event msg x)"
proof -
  show "sys_ok (mon_event msg x)" using assms
    by (simp add: mon_event_def sys_ok_defs slave_init_def sp_setup_def sp_configure_def sp_start_def sp_stop_def)
  show "sys_ok (mac_event msg x)" using assms by (simp add: mac_event_def sys_ok_defs mac_set_def)
  show "sys_ok (udps_event msg x)" using assms by (simp add: udps_event_def sys_ok_defs udp_set_def Let_def) blast
qed

lemma handle_one_ok:
  assumes "t \<in> set (sys_tasks E)" and "sys_ok x" and "handle_one msg t x = Inr y"
  shows "sys_ok y"
  using sys_handlers [OF assms(1)] assms(2,3) events_ok [OF assms(2)]
  by (auto simp: handle_one_def event_handler_def split: if_split_asm)

lemma mon_process_ok:
  assumes "mon_process E (q, x) = Some (Inr (q', x'))" and "sys_ok x"
  shows "q' = q \<and> sys_ok x'"
proof -
  obtain m where m: "mt_process (en_links E) (en_stk8 E) (en_now E) (sy_master x) = Some (Inr m)" "q' = q" "sy_master x' = m"
      "sy_active x' = sy_active x" "sy_mac x' = sy_mac x" "sy_udp x' = sy_udp x" "sy_poll x' = sy_poll x"
    using assms(1) unfolding mon_process_def by (auto split: option.splits sum.splits)
  then show ?thesis using assms(2) acks_only_sub [OF mt_process_queue [OF m(1)]] by (simp add: sys_ok_def)
qed

lemma uart_process_ok:
  assumes "uart_process E x = Some (Inr x')" and "sys_ok x"
  shows "sys_ok x'"
proof (cases "en_rs485 E = []")
  case False
  define m where "m = (sy_master x)\<lparr>mt_protocol := (mt_protocol (sy_master x))\<lparr>pr_world := en_echo E (en_rs485 E) (pr_world (mt_protocol (sy_master x)))\<rparr>\<rparr>"
  obtain d p ty where h: "sy_host x = (d, p, ty)" by (metis prod_cases3)
  obtain r s m' where run: "loc_processInputData (en_links E) (en_now E) (of_nat (length (en_rs485b E)))
      \<lparr>lo_poll = sy_poll x, lo_queue = mt_txQueue m, lo_data = dv_data d\<rparr> m
      (tbuffer_new (en_rs485b E) (int (length (en_rs485b E)))) = Some (Inr (r, s, m'))"
      "x' = x\<lparr>sy_poll := lo_poll s, sy_master := m', sy_host := (d\<lparr>dv_data := lo_data s\<rparr>, p, ty)\<rparr>"
    using assms(1) False h unfolding uart_process_def Let_def m_def by (auto split: option.splits sum.splits)
  have "acks_only (mt_txQueue m)" using assms(2) by (simp add: sys_ok_def m_def)
  then show ?thesis using loc_processInputData_keeps [OF run(1)] assms(2) run(2) by (simp add: sys_ok_def poll_idle_def)
qed (use assms in \<open>simp add: uart_process_def\<close>)

lemma difftime_self [simp]: "difftime t t = 0"
  by (simp add: difftime_def)

text \<open>The parts of the state that the Ethernet service leaves alone.\<close>

lemma sys_ok_mac_cong:
  assumes "sys_ok x" and "sy_active y = sy_active x" and "sy_udp y = sy_udp x" and "sy_poll y = sy_poll x"
    and "sy_master y = sy_master x" and "mac_ok (sy_mac y)"
  shows "sys_ok y"
  using assms by (simp add: sys_ok_def)

lemma mac_switch_ok:
  assumes "mac_switch E (q, x) = Inr (q', x')" and "queue_ok n q" and "sys_ok x"
    and "mc_state (sy_mac x) = macInitWait \<longrightarrow> mc_timer (sy_mac x) = en_now E"
  shows "queue_ok (n + 2) q' \<and> sys_ok x'"
proof -
  have ok: "mac_ok (sy_mac x)" using assms(3) by (simp add: sys_ok_def)
  have keep: "queue_ok (n + 2) q" using assms(2) by (rule queue_ok_mono) simp
  show ?thesis
  proof (cases "mc_state (sy_mac x)")
    case macInitStart
    then obtain q1 x1 where s: "send_msg grpNet msgNetInitStart (q, x) = Inr (q1, x1)"
      using assms(1) by (auto simp: mac_switch_def Let_def rbind_Inr_iff)
    have q1: "queue_ok (n + 2) q1" "x1 = x" using send_msg_law [OF s] assms(2) queue_ok_mono [of "Suc n" q1 "n + 2"] by simp_all
    let ?i = "emac_init (en_enet E) (en_stk16 E) (setIpAddress 0x8800A8C0 0x0100A8C0 0x00FFFFFF
      (setMacAddress 0x60 (0x37120000 OR (52975 AND 0xFFFF)) (sy_emac x))) (sy_hw x)"
    obtain e h where "?i = (e, h)" by (cases ?i)
    then have "q' = q1" "x' = mac_timer (en_now E) (mac_set macInitWait (x\<lparr>sy_emac := e, sy_hw := h\<rparr>))"
      using assms(1) macInitStart s q1(2) unfolding mac_switch_def Let_def by simp_all
    then show ?thesis using q1 by (auto simp: mac_upd mac_ok_def intro!: sys_ok_mac_cong [OF assms(3)])
  next
    case macInitComplete
    then obtain s1 q1 x1 where s: "send_msg grpNet msgNetInitOk (q, x) = Inr s1" "send_msg grpNet msgNetConnected s1 = Inr (q1, x1)"
       and x': "q' = q1" "x' = mac_timer (en_now E) (mac_set macControlLinkStatus (mac_conn True x1))"
      using assms(1) by (auto simp: mac_switch_def Let_def rbind_Inr_iff split: prod.splits)
    obtain q0 x0 where s1: "s1 = (q0, x0)" by (cases s1)
    have "queue_ok (Suc n) q0" "x0 = x" using send_msg_law [OF s(1) [unfolded s1]] assms(2) by simp_all
    then have "queue_ok (n + 2) q1" "x1 = x" using send_msg_law [OF s(2)] s1 by simp_all
    then show ?thesis using x' by (auto simp: mac_upd mac_ok_def intro!: sys_ok_mac_cong [OF assms(3)])
  next
    case macLinkOff
    then obtain q1 x1 where s: "send_msg grpNet msgNetDisconnected (q, x) = Inr (q1, x1)"
       and x': "q' = q1" "x' = mac_timer (en_now E) (mac_set macLinkWait (mac_conn False x1))"
      using assms(1) by (auto simp: mac_switch_def Let_def rbind_Inr_iff split: prod.splits)
    have "queue_ok (n + 2) q1" "x1 = x" using send_msg_law [OF s] assms(2) queue_ok_mono [of "Suc n" q1 "n + 2"] by simp_all
    then show ?thesis using x' by (auto simp: mac_upd mac_ok_def intro!: sys_ok_mac_cong [OF assms(3)])
  next
    case macLinkWait
    then consider "q' = q" "x' = x"
      | q1 x1 where "send_msg grpNet msgNetConnected (q, x) = Inr (q1, x1)" "q' = q1" "x' = mac_set macControlLinkStatus (mac_conn True x1)"
      using assms(1) by (auto simp: mac_switch_def Let_def rbind_Inr_iff split: prod.splits if_splits)
    then show ?thesis
    proof cases
      case 2
      have "queue_ok (n + 2) q1" "x1 = x" using send_msg_law [OF 2(1)] assms(2) queue_ok_mono [of "Suc n" q1 "n + 2"] by simp_all
      then show ?thesis using 2 by (auto simp: mac_upd mac_ok_def intro!: sys_ok_mac_cong [OF assms(3)])
    qed (use keep assms(3) in simp)
  next
    case macInitWait
    then have "q' = q" "x' = (if getLinkStatus (sy_emac x) \<noteq> 0 then mac_set macInitComplete x else x)"
      using assms(1,4) by (auto simp: mac_switch_def Let_def TIMEOUT_def)
    then show ?thesis using keep assms(3) by (auto simp: mac_upd mac_ok_def intro!: sys_ok_mac_cong [OF assms(3)])
  next
    case macControlLinkStatus
    then have "q' = q" "x' = (if getLinkStatus (sy_emac x) = 0 then mac_set macLinkOff x else x)"
      using assms(1) by (auto simp: mac_switch_def Let_def)
    then show ?thesis using keep assms(3) by (auto simp: mac_upd mac_ok_def intro!: sys_ok_mac_cong [OF assms(3)])
  qed (use assms keep ok in \<open>auto simp: mac_switch_def Let_def mac_ok_def\<close>)
qed

lemma mac_tick_ok:
  assumes run: "mac_tick E (q, x) = Inr (q', x')" and "queue_ok n q" and ok: "sys_ok x"
  shows "queue_ok (n + 2) q' \<and> sys_ok x'"
proof -
  define y where "y = x\<lparr>sy_mac := (sy_mac x)\<lparr>mc_timer2 := en_now E\<rparr>\<rparr>"
  have y: "sys_ok y" using ok by (simp add: y_def sys_ok_def mac_ok_def)
  show ?thesis
  proof (cases "mc_state (sy_mac y) \<in> {macInitWait, macControlLinkStatus, macLinkWait}")
    case False
    then have "mac_switch E (q, y) = Inr (q', x')" using run by (auto simp: mac_tick_def Let_def y_def)
    then show ?thesis using False by (intro mac_switch_ok [OF _ assms(2) y]) auto
  next
    case True
    show ?thesis
    proof (cases "TIMEOUT (en_now E) (mc_timer (sy_mac y)) 20")
      case False
      then have "q' = q" "x' = y" using True run by (auto simp: mac_tick_def Let_def y_def)
      then show ?thesis using y assms(2) queue_ok_mono [of n q] by simp
    next
      case to: True
      obtain r e h where p: "processLinkStatus (en_enet E) (sy_emac y) (sy_hw y) = (r, e, h)" by (metis prod_cases3)
      define z where "z = mac_timer (en_now E) (y\<lparr>sy_emac := e, sy_hw := h\<rparr>)"
      have "mac_switch E (q, z) = Inr (q', x')" using run True to p by (simp add: mac_tick_def Let_def y_def z_def)
      moreover have "sys_ok z" using y by (simp add: z_def mac_upd sys_ok_def mac_ok_def)
      moreover have "mc_timer (sy_mac z) = en_now E" by (simp add: z_def mac_upd)
      ultimately show ?thesis using assms(2) by (intro mac_switch_ok) auto
    qed
  qed
qed

lemma emac_process_ok: "emac_process E x = Inr y \<Longrightarrow> sys_ok x \<Longrightarrow> sys_ok y \<and> sy_mac y = sy_mac x"
  by (auto simp: emac_process_def rbind_Inr_iff sys_ok_def split: if_split_asm)

lemma mac_process_ok:
  assumes run: "mac_process E (q, x) = Inr (q', x')" and "queue_ok n q" and ok: "sys_ok x"
  shows "queue_ok (n + 2) q' \<and> sys_ok x'"
proof -
  obtain y where y: "sys_ok y" "(if mc_timer2 (sy_mac y) = en_now E then Inr (q, y) else mac_tick E (q, y)) = Inr (q', x')"
  proof (cases "mc_state (sy_mac x) = macControlLinkStatus")
    case True
    then obtain x1 where x1: "emac_process E x = Inr x1" using run by (auto simp: mac_process_def rbind_Inr_iff)
    let ?y = "if TIMEOUT (en_now E) (mc_timer3 (sy_mac x1)) 10
                then (emac_processTimers E x1)\<lparr>sy_mac := (sy_mac x1)\<lparr>mc_timer3 := en_now E\<rparr>\<rparr> else x1"
    have "sys_ok x1" using emac_process_ok [OF x1 ok] by blast
    then have "sys_ok ?y" by (simp add: sys_ok_def mac_ok_def emac_processTimers_def)
    then show thesis using that [of ?y] run True x1 by (simp add: mac_process_def)
  next
    case False
    then show thesis using that [of x] run ok by (simp add: mac_process_def)
  qed
  then show ?thesis using mac_tick_ok [of E q y q' x' n] assms(2) queue_ok_mono [of n q "n + 2"] by (auto split: if_splits)
qed

lemma udps_process_ok:
  assumes run: "udps_process E (q, x) = Some (Inr (q', x'))" and "queue_ok n q" and ok: "sys_ok x"
  shows "queue_ok (n + 1) q' \<and> sys_ok x'"
proof -
  have keep: "queue_ok (n + 1) q" using assms(2) by (rule queue_ok_mono) simp
  show ?thesis
  proof (cases "ut_state (sy_udp x)")
    case udpInit
    obtain rc u where u: "udp_init (en_lwip E) DEFAULT_LOCAL_PORT DEFAULT_DEST_PORT (sy_udpio x) = (rc, u)" by fastforce
    define t where "t = (if rc = kRcOk then (sy_udp x)\<lparr>ut_UDP_initOk := True, ut_state := udpInitOk\<rparr>
                         else (sy_udp x)\<lparr>ut_UDP_initOk := False, ut_state := udpIdle\<rparr>)"
    obtain no where s: "send_msg grpNet no (q, x\<lparr>sy_udpio := u, sy_udp := t\<rparr>) = Inr (q', x')"
      using run udpInit u by (auto simp: udps_process_def Let_def t_def split: if_splits)
    have "queue_ok (n + 1) q'" "x' = x\<lparr>sy_udpio := u, sy_udp := t\<rparr>" using send_msg_law [OF s] assms(2) by simp_all
    then show ?thesis using ok by (simp add: sys_ok_def t_def udp_ok_def)
  next
    case udpInitOk
    then show ?thesis using run ok keep by (cases "ut_connected (sy_udp x)") (auto simp: udps_process_def sys_ok_def udp_ok_def udp_set_def)
  next
    case udpProcess
    then show ?thesis using run ok keep by (auto simp: udps_process_def sys_ok_def udp_ok_def udp_set_def)
  next
    case udpProcessRx
    then obtain h u where "q' = q" "x' = udp_set udpProcessTx (x\<lparr>sy_host := h, sy_udpio := u\<rparr>)"
      using run by (auto simp: udps_process_def split: option.splits sum.splits)
    then show ?thesis using ok keep udpProcessRx by (simp add: sys_ok_def udp_ok_def udp_set_def)
  next
    case udpProcessTx
    then obtain u where "q' = q" "x' = udp_set udpProcess (x\<lparr>sy_udpio := u\<rparr>)"
      using run by (auto simp: udps_process_def rbind_Inr_iff)
    then show ?thesis using ok keep udpProcessTx by (simp add: sys_ok_def udp_ok_def udp_set_def)
  qed (use run ok keep in \<open>simp add: udps_process_def\<close>)
qed

lemma setActive_ok:
  assumes "queue_ok n q" and "sys_ok x"
  shows "mac_setActive E b (q, x) = Inr (q', x') \<Longrightarrow> queue_ok n q' \<and> sys_ok x'"
    and "udps_setActive b (q, x) = Inr (q', x') \<Longrightarrow> queue_ok n q' \<and> sys_ok x'"
    and "ini_setActive E b (q, x) = Inr (q', x') \<Longrightarrow> queue_ok n q' \<and> sys_ok x'"
    and "mon_setActive b (q, x) = Inr (q', x') \<Longrightarrow> queue_ok (n + 1) q' \<and> sys_ok x'"
proof -
  show "mac_setActive E b (q, x) = Inr (q', x') \<Longrightarrow> queue_ok n q' \<and> sys_ok x'"
    using assms by (cases b) (auto simp: mac_setActive_def set_active_def mac_set_def sys_ok_def mac_ok_def)
  show "udps_setActive b (q, x) = Inr (q', x') \<Longrightarrow> queue_ok n q' \<and> sys_ok x'"
    using assms by (cases b) (auto simp: udps_setActive_def set_active_def sys_ok_def udp_ok_def)
  show "ini_setActive E b (q, x) = Inr (q', x') \<Longrightarrow> queue_ok n q' \<and> sys_ok x'"
    using assms by (cases b) (auto simp: ini_setActive_def set_active_def sys_ok_def)
  have "sys_ok (set_active task_Monitor b x)" using assms(2) by (simp add: set_active_def sys_ok_def)
  then show "mon_setActive b (q, x) = Inr (q', x') \<Longrightarrow> queue_ok (n + 1) q' \<and> sys_ok x'"
    using assms send_msg_law [of grpSystem msgSysInit "(q, set_active task_Monitor b x)" q' x']
    queue_ok_mono [of n q "n + 1"] by (cases b) (simp_all add: mon_setActive_def Let_def)
qed

lemma ini_activate_ok:
  assumes "\<And>q x q' x'. queue_ok n q \<Longrightarrow> sys_ok x \<Longrightarrow> f True (q, x) = Inr (q', x') \<Longrightarrow> queue_ok k q' \<and> sys_ok x'" and "n \<le> k"
    and "ini_activate i f (q, x) = Inr (q', x')" and "queue_ok n q" and "sys_ok x"
  shows "queue_ok k q' \<and> sys_ok x'"
proof (cases "sy_active x ! i")
  case True
  then show ?thesis using assms(2-) queue_ok_mono by (simp add: ini_activate_def)
next
  case False
  then have "f True (q, x) = Inr (q', x')" using assms(3) by (simp add: ini_activate_def)
  then show ?thesis using assms(1) assms(4,5) by blast
qed

lemma ini_process_ok:
  assumes run: "ini_process E (q, x) = Inr (q', x')" and "queue_ok n q" and ok: "sys_ok x"
  shows "queue_ok (n + 1) q' \<and> sys_ok x'"
proof -
  have keep: "queue_ok (n + 1) q" using assms(2) by (rule queue_ok_mono) simp
  consider (s0) "sy_initState x = 0" | (s2) "sy_initState x = 2" | (s3) "sy_initState x = 3"
    | (other) "sy_initState x \<notin> {0, 2, 3}" by auto
  then show ?thesis
  proof cases
    case s3
    then obtain q1 x1 q2 x2 q3 x3 where a: "ini_activate task_MAC_Service (mac_setActive E) (q, x) = Inr (q1, x1)"
        "ini_activate task_UDP_Service udps_setActive (q1, x1) = Inr (q2, x2)"
        "ini_activate task_Monitor mon_setActive (q2, x2) = Inr (q3, x3)" "ini_setActive E False (q3, x3) = Inr (q', x')"
      using run by (auto simp: ini_process_def rbind_Inr_iff)
    have 1: "queue_ok n q1 \<and> sys_ok x1" by (rule ini_activate_ok [where n = n and k = n, OF setActive_ok(1) _ a(1) assms(2) ok]) simp_all
    have 2: "queue_ok n q2 \<and> sys_ok x2" using 1 by (intro ini_activate_ok [where n = n and k = n, OF setActive_ok(2) _ a(2)]) simp_all
    have 3: "queue_ok (n + 1) q3 \<and> sys_ok x3" using 2 by (intro ini_activate_ok [where n = n and k = "n + 1", OF setActive_ok(4) _ a(3)]) simp_all
    show ?thesis using 3 by (intro setActive_ok(3) [OF _ _ a(4)]) simp_all
  next
    case s2
    then show ?thesis using run ok keep by (auto simp: ini_process_def rbind_Inr_iff sys_ok_def split: prod.splits)
  next
    case s0
    then show ?thesis using run ok keep by (auto simp: ini_process_def sys_ok_def)
  qed (use run ok keep in \<open>auto simp: ini_process_def\<close>)
qed

section \<open>Rounds of the main loop\<close>

lemma tasks_ok:
  assumes run: "processTasks (sys_tasks E) (q, x) = Some (Inr (q', x'))" and q: "queue_ok n q" and x: "sys_ok x"
  shows "queue_ok (n + 4) q' \<and> sys_ok x'"
proof -
  define R where "R i q x \<longleftrightarrow> queue_ok (n + [0, 0, 2, 3, 4] ! i) q \<and> sys_ok x" for i and q :: "TCMessage tqueue" and x :: "('a, 'b, 'c) sys"
  have four: "i < length (sys_tasks E) \<longleftrightarrow> i = 0 \<or> i = 1 \<or> i = 2 \<or> i = 3" for i by (auto simp: sys_tasks_def)
  have "R (length (sys_tasks E)) q' x'"
  proof (rule processTasks_steps [OF run])
    show "R 0 q x" using q x by (simp add: R_def)
    show "R (Suc i) q x" if "i < length (sys_tasks E)" "R i q x" for i q x
      using that unfolding four R_def by (elim disjE) (auto elim: queue_ok_mono)
    show "R (Suc i) q' x'" if "i < length (sys_tasks E)" "R i q x" "tk_process (sys_tasks E ! i) (q, x) = Some (Inr (q', x'))" for i q x q' x'
      using that mon_process_ok [of E q x q' x'] mac_process_ok [of E q x q' x' n] udps_process_ok [of E q x q' x' "n + 2"]
        ini_process_ok [of E q x q' x' "n + 3"]
      unfolding four R_def by (elim disjE) (auto simp: sys_tasks_def numeral_3_eq_3 numeral_2_eq_2 eval_nat_numeral)
  qed
  then show ?thesis by (simp add: R_def sys_tasks_def)
qed

lemma messages_ok:
  assumes "queue_ok n q" and "sys_ok x"
  shows "\<exists>q' x'. processMessages (sys_tasks E) (q, x) = Some (Inr (q', x')) \<and>
     rfold (handled (sys_tasks E)) (tqueue_cont q) x = Inr x' \<and> queue_ok 0 q' \<and> sys_ok x'"
proof -
  obtain y where y: "rfold (handled (sys_tasks E)) (tqueue_cont q) x = Inr y" "sys_ok y"
    using messages_law [of E sys_ok x "tqueue_cont q"] handle_one_ok [of _ E] assms(2) by blast
  then show ?thesis using qt.messages_in_order [of q E x] assms(1) by (auto simp: queue_ok_def)
qed

definition power_on :: "('w, 'n, 'h) st \<Rightarrow> bool" where
  "power_on s \<longleftrightarrow> queue_ok 0 (fst s) \<and> sy_active (snd s) = replicate 4 False \<and> mc_state (sy_mac (snd s)) = macIdle \<and>
     ut_state (sy_udp (snd s)) = udpIdle \<and> sp_state (sy_poll (snd s)) = kStIdle \<and>
     tqueue_inv (mt_txQueue (sy_master (snd s))) \<and> tqueue_cont (mt_txQueue (sy_master (snd s))) = []"

text \<open>
  The states between two rounds of the main loop, under every behaviour of the surroundings; the console
  (\<open>processConsoleInput\<close>) can write registers.
\<close>

inductive sys_reach :: "('w, 'n, 'h) st \<Rightarrow> bool" where
  boot: "power_on s \<Longrightarrow> initTasks E s = Inr s' \<Longrightarrow> sys_reach s'"
| pass: "sys_reach s \<Longrightarrow> main_pass E s = Some (Inr s') \<Longrightarrow> sys_reach s'"
| console: "sys_reach (q, x) \<Longrightarrow> sy_host x = (d, p, ty) \<Longrightarrow>
    sys_reach (q, x\<lparr>sy_host := (snd (Parameters_write i v d), p, ty)\<rparr>)"

lemma main_pass_cases:
  assumes "main_pass E s = Some (Inr s')" and "queue_ok 0 (fst s)" and "sys_ok (snd s)"
  obtains x1 q2 x2 where "uart_process E (snd s) = Some (Inr x1)" and "processTasks (sys_tasks E) (fst s, x1) = Some (Inr (q2, x2))"
    and "queue_ok 4 q2" and "sys_ok x2" and "processMessages (sys_tasks E) (q2, x2) = Some (Inr s')"
proof -
  obtain x1 where 1: "uart_process E (snd s) = Some (Inr x1)" "sys_processTasks E (fst s, x1) = Some (Inr s')"
    using assms(1) by (auto simp: main_pass_def split: option.splits sum.splits)
  obtain q2 x2 where 2: "processTasks (sys_tasks E) (fst s, x1) = Some (Inr (q2, x2))"
      "processMessages (sys_tasks E) (q2, x2) = Some (Inr s')"
    using 1(2) by (auto simp: sys_processTasks_def split: option.splits sum.splits)
  have "sys_ok x1" by (rule uart_process_ok [OF 1(1) assms(3)])
  from tasks_ok [OF 2(1) assms(2) this] show thesis using that 1(1) 2 by simp
qed

lemma initTasks_ok:
  assumes "initTasks E s = Inr s'" and "queue_ok 0 (fst s)" and "sys_ok (snd s)"
  shows "queue_ok 0 (fst s') \<and> sys_ok (snd s')"
proof -
  obtain q x where s: "s = (q, x)" by (cases s)
  obtain q' x' where s': "s' = (q', x')" by (cases s')
  have "(q', x') = (q, x) \<or> ini_setActive E True (q, x) = Inr (q', x')"
    using assms(1) s s' by (auto simp: initTasks_def activateTask_def sys_tasks_def load_def task_Init_def split: if_split_asm)
  then show ?thesis using setActive_ok(3) [of 0 q x E True q' x'] assms(2,3) s s' by auto
qed

lemma sys_reach_ok:
  assumes "sys_reach s"
  shows "queue_ok 0 (fst s) \<and> sys_ok (snd s)"
  using assms
proof induction
  case (boot s E s')
  have "sys_ok (snd s)" using boot(1) by (simp add: power_on_def sys_ok_defs acks_only_def)
  then show ?case using initTasks_ok [OF boot(2)] boot(1) by (simp add: power_on_def)
next
  case (pass s E s')
  then obtain q2 x2 where 2: "queue_ok 4 q2" "sys_ok x2" "processMessages (sys_tasks E) (q2, x2) = Some (Inr s')"
    by (elim conjE main_pass_cases) blast
  then show ?case using messages_ok [OF 2(1,2), of E] by auto
next
  case (console q x d p ty i v)
  then show ?case by (simp add: sys_ok_def)
qed

end
