(* ===== verification/Firmware.thy ===== *)
theory Firmware
  imports System
begin

text \<open>
  What the firmware does from power-on: the start of the tasks, the messages between them, the polling of
  the local bus, and the requests for registers that the host sends in datagrams.
\<close>

section \<open>The start\<close>

text \<open>Several rounds of the main loop, one for each of the given surroundings.\<close>

fun main_rounds :: "('w, 'n, 'h) env list \<Rightarrow> ('w, 'n, 'h) st \<Rightarrow> ('w, 'n, 'h) st res option" where
  "main_rounds [] s = Some (Inr s)"
| "main_rounds (E # Es) s =
     (case main_pass E s of None \<Rightarrow> None | Some (Inl e) \<Rightarrow> Some (Inl e) | Some (Inr s) \<Rightarrow> main_rounds Es s)"

lemma no_messages:
  assumes "queue_ok 0 q"
  shows "processMessages ts (q, x) = Some (Inr (q, x))"
proof -
  have "tqueue_peek q = None" using assms tqueue_peek_law [of q] by (simp add: queue_ok_def)
  then show ?thesis by (subst processMessages.simps) simp
qed

text \<open>A round in which only the start task is active and no byte has arrived.\<close>

lemma init_pass:
  assumes "sy_active x = [False, False, False, True]" and "en_rs485 E = []" and "ini_process E (q, x) = Inr (q1, x1)"
  shows "main_pass E (q, x) = processMessages (sys_tasks E) (q1, x1)"
  using assms by (simp add: main_pass_def uart_process_def sys_processTasks_def sys_tasks_def task_Monitor_def
      task_MAC_Service_def task_UDP_Service_def task_Init_def)

lemma send_msg_room:
  assumes "queue_ok n q" and "n < MESSAGE_QUEUE_SIZE"
  shows "\<exists>q'. send_msg g no (q, x) = Inr (q', x) \<and> queue_ok (Suc n) q' \<and> tqueue_cont q' = tqueue_cont q @ [mkMessage g no 0 0]"
proof -
  have q: "tqueue_inv q" "msgBufferSize q = MESSAGE_QUEUE_SIZE" "length (tqueue_cont q) \<le> n" using assms(1) by (simp_all add: queue_ok_def)
  then have "\<not> isFull q" using tqueue_full_iff [OF q(1)] assms(2) by (simp add: tqueue_cont_def)
  then obtain q' where s: "sendMessage g no 0 0 q = Inr (True, q')" "tqueue_cont q' = tqueue_cont q @ [mkMessage g no 0 0]"
    using sendMessage_law [OF q(1), of g no 0 0] by auto
  then have m: "send_msg g no (q, x) = Inr (q', x)" by (simp add: send_msg_def)
  then show ?thesis using send_msg_law(1) [OF m, of n] assms(1) s(2) by auto
qed

text \<open>The message of the monitor's start, as the tasks handle it.\<close>

lemma sysinit_handled:
  assumes "sy_active x = [True, True, True, False]"
  shows "handled (sys_tasks E) (mkMessage grpSystem msgSysInit 0 0) x =
    Inr (mac_set macInitStart (x\<lparr>sy_poll := slave_init (sy_poll x)\<rparr>))"
proof -
  have a: "grpSystem AND TaskMask \<noteq> 0" "TaskMask AND grpSystem \<noteq> 0" "(grpSystem OR grpNet) AND grpSystem \<noteq> 0"
      "(grpSystem OR grpNetState) AND grpSystem \<noteq> 0"
    by (simp_all add: task_consts)
  have u: "udps_event (mkMessage grpSystem msgSysInit 0 0) y = y" for y :: "('a, 'b, 'c) sys"
    by (simp add: udps_event_def mkMessage_def task_consts Let_def)
  show ?thesis using assms a u
    by (simp add: handled_def sys_tasks_def handle_one_def event_handler_def mon_event_def mac_event_def mac_set_def
        mkMessage_def task_Monitor_def task_MAC_Service_def task_UDP_Service_def task_Init_def)
qed

text \<open>The third round of the start task: the services and the monitor become active.\<close>

lemma ini_activates:
  assumes "queue_ok 0 q" and "sy_active x = [False, False, False, True]" and "sy_initState x = 3"
  shows "\<exists>q' x'. ini_process E (q, x) = Inr (q', x') \<and> queue_ok 1 q' \<and> tqueue_cont q' = [mkMessage grpSystem msgSysInit 0 0] \<and>
     sy_active x' = [True, True, True, False] \<and> ut_state (sy_udp x') = udpIdle \<and> sy_poll x' = sy_poll x \<and>
     sy_host x' = sy_host x \<and> sy_master x' = sy_master x"
proof -
  let ?m = "x\<lparr>sy_mac := \<lparr>mc_state = macIdle, mc_timer = en_now E, mc_timer2 = en_now E, mc_timer3 = en_now E, mc_connected = False\<rparr>,
              sy_active := [False, True, False, True]\<rparr>"
  let ?u = "?m\<lparr>sy_udp := \<lparr>ut_state = udpIdle, ut_UDP_initOk = False, ut_connected = False, ut_appTx = True\<rparr>,
              sy_active := [False, True, True, True]\<rparr>"
  let ?o = "?u\<lparr>sy_active := [True, True, True, True]\<rparr>"
  have 1: "ini_activate task_MAC_Service (mac_setActive E) (q, x) = Inr (q, ?m)"
    using assms(2) by (simp add: ini_activate_def mac_setActive_def set_active_def task_MAC_Service_def)
  have 2: "ini_activate task_UDP_Service udps_setActive (q, ?m) = Inr (q, ?u)"
    by (simp add: ini_activate_def udps_setActive_def set_active_def task_UDP_Service_def)
  have c: "tqueue_cont q = []" using assms(1) by (simp add: queue_ok_def)
  obtain q' where q': "send_msg grpSystem msgSysInit (q, ?o) = Inr (q', ?o)" "queue_ok 1 q'" "tqueue_cont q' = [mkMessage grpSystem msgSysInit 0 0]"
    using send_msg_room [OF assms(1), of grpSystem msgSysInit ?o] c by (auto simp: MESSAGE_QUEUE_SIZE_def)
  have 3: "ini_activate task_Monitor mon_setActive (q, ?u) = Inr (q', ?o)"
    using q'(1) by (simp add: ini_activate_def mon_setActive_def set_active_def task_Monitor_def)
  have "ini_process E (q, x) = ini_setActive E False (q', ?o)"
    using assms(3) 1 2 3 by (simp add: ini_process_def)
  then show ?thesis using q'(2,3) by (simp add: ini_setActive_def set_active_def task_Init_def)
qed

lemma one_message:
  assumes "queue_ok n q" and "tqueue_cont q = [m]" and "handled (sys_tasks E) m x = Inr x'"
  shows "\<exists>q'. processMessages (sys_tasks E) (q, x) = Some (Inr (q', x')) \<and> queue_ok 0 q'"
  using qt.messages_in_order [of q E x] assms by (auto simp: queue_ok_def)

section \<open>Requests of the host\<close>

definition read_request :: "u8 \<times> u16 \<Rightarrow> u8 list" where
  "read_request r = TMsgParameterRead (fst r) (snd r)"

text \<open>The answer to the request of one register; for an unknown register the value is the contents of the stack.\<close>

definition read_answer :: "henv \<Rightarrow> dev \<Rightarrow> u8 \<times> u16 \<Rightarrow> u8 list" where
  "read_answer e d r =
     (case param_read e (snd r) d of
        Some v \<Rightarrow> TMsgParameterValue (fst r) (snd r) v 0 (ucast (he_stack e))
      | None \<Rightarrow> TMsgParameterValue (fst r) (snd r) (he_stack e) (-1) (ucast (he_stack e)))"

lemma length_read [simp]: "length (read_request r) = 4" "length (read_answer e d r) = 12"
  by (auto simp: read_request_def TMsgParameterRead_def read_answer_def TMsgParameterValue_def split: option.splits)

lemma read_msg_ok: "msg_ok (read_request r) []" "msg_ok (read_answer e d r) []"
  by (auto simp: msg_ok_def read_request_def TMsgParameterRead_def read_answer_def TMsgParameterValue_def fixedSize_def msg_ids
      split: option.splits)

lemma get16_bytes16: "get16 (x # y # bytes16 w @ zs) 2 = w"
  using get16_put16 [of 2 "x # y # 0 # 0 # zs" w] by (simp add: put16_def bytes16_def)

lemma hi_read:
  assumes "ptr = read_request r @ rest" and "l3_tx_inv (pr_layer3 p)"
    and "unat (l3_txIndex (pr_layer3 p)) + 12 \<le> unat (l3_maxTxAppSize (pr_layer3 p))"
  shows "\<exists>l. hi_RxMessageHandler e k ptr dest src d p = Inr (d, p\<lparr>pr_layer3 := l\<rparr>) \<and> l3_tx_inv l \<and>
     l3_txData l = l3_txData (pr_layer3 p) @ read_answer e d r \<and> rx_same (pr_layer3 p) l \<and>
     l3_maxTxAppSize l = l3_maxTxAppSize (pr_layer3 p) \<and> length (l3_txPacket l) = length (l3_txPacket (pr_layer3 p))"
proof -
  have g: "load ptr 0 = Inr MsgParameterRead" "load ptr 1 = Inr (fst r)" "load16 ptr 2 = Inr (snd r)"
    using assms(1) get16_bytes16 [of MsgParameterRead "fst r" "snd r" rest]
    by (simp_all add: read_request_def TMsgParameterRead_def load_def)
  obtain l where l: "l3_addMessage (read_answer e d r) [] (pr_layer3 p) = Inr (0, l)" "l3_tx_inv l"
      "l3_txData l = l3_txData (pr_layer3 p) @ read_answer e d r"
      "l = (pr_layer3 p)\<lparr>l3_txPacket := l3_txPacket l, l3_txIndex := l3_txIndex l\<rparr>"
      "length (l3_txPacket l) = length (l3_txPacket (pr_layer3 p))"
    using l3_addMessage_ok [OF assms(2) read_msg_ok(2) [of e d r]] assms(3) by auto
  have "handleMsgPRead e k ptr dest d p =
      rbind (proto_addMessage k (read_answer e d r) [] p) (\<lambda>(_, p). Inr (d, p))"
    using g by (cases "param_read e (snd r) d")
      (simp_all add: handleMsgPRead_def Parameters_read_def read_answer_def resultCode_def)
  then have "handleMsgPRead e k ptr dest d p = Inr (d, p\<lparr>pr_layer3 := l\<rparr>)"
    using l(1) by (simp add: proto_addMessage_def)
  then have "hi_RxMessageHandler e k ptr dest src d p = Inr (d, p\<lparr>pr_layer3 := l\<rparr>)"
    using g(1) by (simp add: hi_RxMessageHandler_def msg_ids)
  moreover have "rx_same (pr_layer3 p) l" "l3_maxTxAppSize l = l3_maxTxAppSize (pr_layer3 p)"
    using arg_cong [OF l(4), of l3_rxData] arg_cong [OF l(4), of l3_rxIndex] arg_cong [OF l(4), of l3_rxSize]
      arg_cong [OF l(4), of l3_maxTxAppSize] by (simp_all add: rx_same_def)
  ultimately show ?thesis using l(2,3,5) by blast
qed

lemma reads_deliver:
  assumes "l3_tx_inv (pr_layer3 p)" and "l3_rx_inv (pr_layer3 p)" and "l3_rxRest (pr_layer3 p) = concat (map read_request rs)"
    and "unat (l3_txIndex (pr_layer3 p)) + 12 * length rs \<le> unat (l3_maxTxAppSize (pr_layer3 p))"
  shows "\<exists>n' l. rxDeliver (hi_RxMessageHandler e k) dest src (map (\<lambda>_. 4) rs) n d p = Inr (n', d, p\<lparr>pr_layer3 := l\<rparr>) \<and>
     l3_tx_inv l \<and> l3_txData l = l3_txData (pr_layer3 p) @ concat (map (read_answer e d) rs) \<and>
     l3_maxTxAppSize l = l3_maxTxAppSize (pr_layer3 p) \<and> length (l3_txPacket l) = length (l3_txPacket (pr_layer3 p))"
  using assms
proof (induction rs arbitrary: n p)
  case Nil
  then show ?case by (intro exI [of _ n] exI [of _ "pr_layer3 p"]) simp
next
  case (Cons r rs)
  let ?l = "pr_layer3 p"
  let ?l1 = "?l\<lparr>l3_rxIndex := l3_rxIndex ?l + 4\<rparr>"
  let ?ptr = "drop (unat (l3_rxIndex ?l)) (l3_rxData ?l)"
  have rest: "l3_rxRest ?l = read_request r @ [] @ concat (map read_request rs)" using Cons.prems(3) by simp
  have l1: "l3_rx_inv ?l1" "l3_rxRest ?l1 = concat (map read_request rs)"
    using l3_getMessagePtr_exact(2,3) [OF Cons.prems(2) read_msg_ok(1) rest] by simp_all
  have "take 4 ?ptr = read_request r"
    using rest length_l3_rxRest [OF Cons.prems(2)] by (auto simp: l3_rxRest_def dest: arg_cong [of _ _ "take 4"])
  then have ptr: "?ptr = read_request r @ drop 4 ?ptr" by (metis append_take_drop_id)
  have tx: "l3_tx_inv ?l1" "unat (l3_txIndex ?l1) + 12 \<le> unat (l3_maxTxAppSize ?l1)" "l3_txData ?l1 = l3_txData ?l"
    using Cons.prems(1,4) by (simp_all add: l3_tx_inv_def l3_txData_def)
  obtain l where l: "hi_RxMessageHandler e k ?ptr dest src d (p\<lparr>pr_layer3 := ?l1\<rparr>) = Inr (d, p\<lparr>pr_layer3 := l\<rparr>)" "l3_tx_inv l"
      "l3_txData l = l3_txData ?l @ read_answer e d r" "rx_same ?l1 l" "l3_maxTxAppSize l = l3_maxTxAppSize ?l"
      "length (l3_txPacket l) = length (l3_txPacket ?l)"
    using hi_read [OF ptr, of "p\<lparr>pr_layer3 := ?l1\<rparr>" e k dest src d] tx by auto
  have len: "unat (l3_txIndex l) = unat (l3_txIndex ?l) + 12"
    using arg_cong [OF l(3), of length] l(2) Cons.prems(1) by simp
  obtain n' l' where l': "rxDeliver (hi_RxMessageHandler e k) dest src (map (\<lambda>_. 4) rs) (to_i16 (n + 1)) d (p\<lparr>pr_layer3 := l\<rparr>) =
        Inr (n', d, p\<lparr>pr_layer3 := l'\<rparr>)" "l3_tx_inv l'"
      "l3_txData l' = l3_txData l @ concat (map (read_answer e d) rs)" "l3_maxTxAppSize l' = l3_maxTxAppSize l"
      "length (l3_txPacket l') = length (l3_txPacket l)"
    using Cons.IH [of "p\<lparr>pr_layer3 := l\<rparr>" "to_i16 (n + 1)"] l(2,5) len l1 rx_same_simps [OF l(4)] Cons.prems(4) by auto
  show ?case using l(1,3,5,6) l' by (intro exI [of _ n'] exI [of _ l']) (simp add: Let_def)
qed

text \<open>A state of the host's engine in which an answer to a datagram fits into its packet.\<close>

definition host_ok :: "'w proto \<Rightarrow> protocolType \<Rightarrow> bool" where
  "host_ok p ty \<longleftrightarrow> 1482 \<le> length (l3_txPacket (pr_layer3 p)) \<and>
     (ty = kProtocolApp \<longrightarrow> l3_maxTxAppSize (pr_layer3 p) = 1472)"

lemma length_reads [simp]: "length (concat (map read_request rs)) = 4 * length rs"
  "length (concat (map (read_answer e d) rs)) = 12 * length rs"
  by (induction rs) simp_all

lemma hi_reads:
  assumes "host_ok p ty" and "rs \<noteq> []" and "12 * length rs \<le> 1472" and "processTxAppData k = Some f"
    and "f (concat (map (read_answer e d) rs)) (pr_world p) = (rc, w)"
  shows "\<exists>n p'. hi_processInputAppData e k (concat (map read_request rs)) (of_nat (4 * length rs)) dest src ty d p =
      (Some (Inr (n, d, p')), kProtocolApp) \<and> host_ok p' kProtocolApp \<and> pr_world p' = w"
proof -
  let ?bytes = "concat (map read_request rs)"
  define p1 where "p1 = (if ty \<noteq> kProtocolApp then proto_setPayload 1472 p else p)"
  define p2 where "p2 = (onBeginRxPacketProcess (p1\<lparr>pr_linkID := LINK_ID_1, pr_srcAddress := src\<rparr>))"
  define p3 where "p3 = p2\<lparr>pr_layer3 := l3_setRxAppData ?bytes (of_nat (4 * length rs)) (pr_layer3 p2)\<rparr>"
  have mx: "l3_maxTxAppSize (pr_layer3 p3) = 1472" "1482 \<le> length (l3_txPacket (pr_layer3 p3))" "l3_txIndex (pr_layer3 p3) = 0"
      "pr_linkID p3 = LINK_ID_1" "pr_world p3 = pr_world p"
    using assms(1) by (auto simp: p3_def p2_def p1_def host_ok_def l3_setRxAppData_def onBeginRxPacketProcess_def
        proto_startTxPacket_def l3_startTxPacket_def proto_setPayload_def l3_setTxAppSize_def)
  have tx: "l3_tx_inv (pr_layer3 p3)" "l3_txData (pr_layer3 p3) = []" using mx by (simp_all add: l3_tx_inv_def l3_txData_def)
  have sz: "unat (of_nat (4 * length rs) :: u16) = 4 * length rs" using assms(3) by (intro unat_of_nat_u16) simp
  have rx: "l3_rx_inv (pr_layer3 p3)" "l3_rxRest (pr_layer3 p3) = ?bytes"
    using sz by (simp_all add: p3_def l3_setRxAppData_def l3_rx_inv_def l3_rxRest_def)
  obtain n l where l: "rxDeliver (hi_RxMessageHandler e k) dest src (map (\<lambda>_. 4) rs) 0 d p3 = Inr (n, d, p3\<lparr>pr_layer3 := l\<rparr>)"
      "l3_tx_inv l" "l3_txData l = concat (map (read_answer e d) rs)" "l3_maxTxAppSize l = 1472" "1482 \<le> length (l3_txPacket l)"
    using reads_deliver [OF tx(1) rx, of e k dest src 0 d] tx(2) mx assms(3) by auto
  have loop: "rxMsgLoop (hi_RxMessageHandler e k) dest src 0 d p3 = Some (Inr (n, d, p3\<lparr>pr_layer3 := l\<rparr>))"
    using host_rx.loop_delivers [of p3 "map (\<lambda>r. (read_request r, [])) rs" e k dest src 0 d] rx l(1) read_msg_ok(1)
    by (simp add: comp_def)
  have idx: "unat (l3_txIndex l) = 12 * length rs" using length_l3_txData [OF l(2)] l(3) by simp
  then have nz: "l3_txIndex l \<noteq> 0" using assms(2) by (metis length_0_conv mult_eq_0_iff unat_0 zero_neq_numeral)
  have dat: "take (unat (l3_txIndex l)) (drop 10 (l3_txPacket l)) = concat (map (read_answer e d) rs)"
    using l(3) by (simp add: l3_txData_def)
  have "onEndRxPacketProcess k (p3\<lparr>pr_layer3 := l\<rparr>) = Inr (proto_startTxPacket (p3\<lparr>pr_layer3 := l, pr_world := w\<rparr>))"
    using nz dat idx l(5) mx(4,5) assms(3-5)
    by (simp add: onEndRxPacketProcess_def sendPacket_def getTxDataSize_def Let_def LINK_ID_0_def LINK_ID_1_def)
  then have "hi_processInputAppData e k ?bytes (of_nat (4 * length rs)) dest src ty d p =
      (Some (Inr (n, d, proto_startTxPacket (p3\<lparr>pr_layer3 := l, pr_world := w\<rparr>))), kProtocolApp)"
    using loop by (simp add: hi_processInputAppData_def inst_processInputAppData_def proto_processInputAppData_def
        Let_def p1_def [symmetric] p2_def [symmetric] p3_def [symmetric]
        del: of_nat_mult)
  then show ?thesis using l(4,5) by (simp add: host_ok_def proto_startTxPacket_def l3_startTxPacket_def)
qed

text \<open>The datagram at the head of the receive queue, and what the module does with it after the handler.\<close>

lemma finishRx_ok:
  assumes "udp_rx_inv u" and "udp_tx_inv u" and "tqueue_cont (ui_rxQueue u) = dg # ds"
  shows "\<exists>u'. udp_finishRx k dg u = Inr u' \<and> udp_tx u' = udp_tx u \<and> udp_tx_inv u' \<and> udp_rx_inv u' \<and> tqueue_cont (ui_rxQueue u') = ds"
proof -
  obtain pb where pb: "ud_buffer dg = Payload pb" "ud_ex dg = Some pb" using assms(1,3) by (auto simp: udp_rx_inv_def)
  have pool: "pool_inv (ui_udpBuffers u)" "bp_buffers (ui_udpBuffers u) = raw_slots" using assms(2) by (simp_all add: udp_tx_inv_def)
  then have "Payload pb \<notin> pool_all (ui_udpBuffers u)" by (simp add: pool_all_def raw_slots_simps)
  then have "pool_release (Payload pb) (ui_udpBuffers u) = Inr (ui_udpBuffers u)" by (rule bp.foreign_law [OF pool(1)])
  then obtain u' where u': "udp_finishRx k dg u = Inr u'" using pb by (simp add: udp_finishRx_def)
  have peek: "tqueue_peek (ui_rxQueue u) = Some dg" using assms(1,3) tqueue_peek_law [of "ui_rxQueue u"] by (simp add: udp_rx_inv_def)
  note f = udp_finishRx_law [OF assms(1) pool peek u']
  show ?thesis using u' f assms(2,3) udp_tx_inv_cong [OF f(2,3,4)] by auto
qed

text \<open>\<open>processRxData\<close> on a datagram of requests: the answers are queued as one datagram.\<close>

lemma processRxData_reads:
  assumes "host_ok p ty" and "rs \<noteq> []" and "12 * length rs \<le> 1472" and "ut_appTx t" and "ut_connected t"
    and "addTxData (concat (map (read_answer (en_henv E) d) rs)) (of_nat (12 * length rs)) u = Inr (rc, u')"
  shows "\<exists>p'. processRxData E t (concat (map read_request rs)) (of_nat (4 * length rs)) ((d, p, ty), u) =
     Some (Inr ((d, p', kProtocolApp), u')) \<and> host_ok p' kProtocolApp"
proof -
  have f: "processTxAppData (host_links E t) = Some (processTxData True)" using assms(4,5) by (simp add: host_links_def)
  have "processTxData True (concat (map (read_answer (en_henv E) d) rs)) (pr_world (p\<lparr>pr_world := Inr u\<rparr>)) = (rc, Inr u')"
    using assms(6) by (simp add: processTxData_def del: of_nat_mult)
  moreover have "host_ok (p\<lparr>pr_world := Inr u\<rparr>) ty" using assms(1) by (simp add: host_ok_def)
  ultimately obtain n p' where "hi_processInputAppData (en_henv E) (host_links E t) (concat (map read_request rs)) (of_nat (4 * length rs)) 1 2
        ty d (p\<lparr>pr_world := Inr u\<rparr>) = (Some (Inr (n, d, p')), kProtocolApp)" "host_ok p' kProtocolApp" "pr_world p' = Inr u'"
    using hi_reads [OF _ assms(2,3) f, of "p\<lparr>pr_world := Inr u\<rparr>" ty "en_henv E" d rc "Inr u'" 1 2] by blast
  then show ?thesis by (simp add: processRxData_def del: of_nat_mult)
qed

section \<open>An example system\<close>

definition ex_sys :: "(u8 list, u8 list \<times> u8 list list, nat \<times> u16 list) sys" where
  "ex_sys = \<lparr>sy_active = [False, False, False, False], sy_initState = 0, sy_initTimer = 0, sy_monTimer = 0,
     sy_mac = \<lparr>mc_state = macIdle, mc_timer = 0, mc_timer2 = 0, mc_timer3 = 0, mc_connected = False\<rparr>,
     sy_udp = \<lparr>ut_state = udpIdle, ut_UDP_initOk = False, ut_connected = False, ut_appTx = False\<rparr>,
     sy_emac = ex_emac, sy_hw = (0, []), sy_poll = ex_poll, sy_master = ex_master\<lparr>mt_txQueue := ex_queue\<rparr>,
     sy_host = (ex_dev\<lparr>dv_data := dc_new\<rparr>,
       \<lparr>pr_layer2 = l2_new (replicate 254 0) 0 9 0xff,
        pr_layer3 = \<lparr>l3_txPacket = replicate 1482 0, l3_txIndex = 0, l3_rxData = [], l3_rxIndex = 0, l3_rxSize = 0,
          l3_maxTxAppSize = 244\<rparr>, pr_rxTimeout = 5, pr_rxTicks = 0, pr_broadcastAddress = 0xff,
        pr_srcAddress = 0, pr_layer1Number = 3, pr_linkID = 0, pr_world = Inr ex_udp\<rparr>, kProtocolDataIO),
     sy_udpio = ex_udp\<rparr>"

definition ex_env :: "u32 \<Rightarrow> (u8 list, u8 list \<times> u8 list list, nat \<times> u16 list) env" where
  "ex_env t = \<lparr>en_now = t, en_henv = ex_henv, en_stk8 = 0, en_stk16 = 0, en_raw = (\<lambda>_. ex_block), en_links = ex_links,
     en_hostLinks = \<lparr>RingBuffer_GetFree = (\<lambda>_ _. 256), Chip_UART_SendRB = (\<lambda>_ bs w. (of_nat (length bs), w)), processTxAppData = None\<rparr>,
     en_lwip = ex_lwip, en_enet = ex_enet, en_rx = [], en_timeouts = (\<lambda>n. n), en_rs485 = [], en_rs485b = [],
     en_echo = (\<lambda>bs w. w @ bs)\<rparr>"

definition ex_messages :: "TCMessage tqueue" where
  "ex_messages = tqueue_new (replicate 32 (mkMessage 0 0 0 0)) 32"

lemma ex_messages_ok: "queue_ok 0 ex_messages"
  using tqueue_inv_new [of "replicate 32 (mkMessage 0 0 0 0)" 32]
  by (simp add: queue_ok_def ex_messages_def MESSAGE_QUEUE_SIZE_def) (simp add: tqueue_new_def)

lemma ex_power_on: "power_on (ex_messages, ex_sys)"
  using ex_messages_ok ex_queue_ok by (simp add: power_on_def ex_sys_def ex_poll_def eval_nat_numeral)

definition ex_booted :: "(u8 list, u8 list \<times> u8 list list, nat \<times> u16 list) sys" where
  "ex_booted = ex_sys\<lparr>sy_initState := 0, sy_initTimer := 0, sy_active := [False, False, False, True]\<rparr>"

lemma ex_reach: "sys_reach (ex_messages, ex_booted)"
proof -
  have "initTasks (ex_env 0) (ex_messages, ex_sys) = Inr (ex_messages, ex_booted)"
    by (simp add: initTasks_def activateTask_def sys_tasks_def load_def task_Init_def ini_setActive_def set_active_def
        ex_booted_def ex_sys_def ex_env_def)
  from sys_reach.boot [OF ex_power_on this] show ?thesis .
qed

section \<open>Properties\<close>

text \<open>
  C23: the start. After power-on, three rounds of the main loop without bytes from the local bus bring the
  system up, whatever the time and the network do: both protocol engines are configured (the host's with
  address 9, the local one with address 1), the data buffers are set up, the monitor and the two
  services are active and the start task is not, the polling automaton knows the devices 1 and 2 and
  the Ethernet service is about to start the initialisation; no message is left.
\<close>

theorem boot_sequence:
  assumes "power_on (q, x)" and "sy_host x = (d, p, ty)" and "data_init (en_raw E2) (dv_data d) = Inr c"
    and "en_rs485 E1 = []" and "en_rs485 E2 = []" and "en_rs485 E3 = []"
  shows "\<exists>s0 q' x'. initTasks E0 (q, x) = Inr s0 \<and> main_rounds [E1, E2, E3] s0 = Some (Inr (q', x')) \<and>
     tqueue_cont q' = [] \<and> sy_active x' = [True, True, True, False] \<and> mc_state (sy_mac x') = macInitStart \<and>
     ut_state (sy_udp x') = udpIdle \<and> sy_poll x' = sp_setup [1, 2, 0, 0] (sp_configure 200 50 (sy_poll x)) \<and>
     sy_host x' = (d\<lparr>dv_data := c\<rparr>, proto_configure 9 PROTOCOL_BROADCAST_ADDRESS 5 p, ty) \<and>
     mt_protocol (sy_master x') = proto_configure 1 PROTOCOL_BROADCAST_ADDRESS 5 (mt_protocol (sy_master x))"
proof -
  have q0: "queue_ok 0 q" and act: "sy_active x = [False, False, False, False]"
    using assms(1) by (simp_all add: power_on_def numeral_eq_Suc)
  define x0 where "x0 = x\<lparr>sy_initState := 0, sy_initTimer := en_now E0, sy_active := [False, False, False, True]\<rparr>"
  define x1 where "x1 = x0\<lparr>sy_host := host_protocol_init (sy_host x0),
      sy_master := (sy_master x0)\<lparr>mt_protocol := proto_configure 1 PROTOCOL_BROADCAST_ADDRESS 5 (mt_protocol (sy_master x0))\<rparr>,
      sy_initTimer := en_now E1, sy_initState := 2\<rparr>"
  define x2 where "x2 = x1\<lparr>sy_host := (d\<lparr>dv_data := c\<rparr>, proto_configure 9 PROTOCOL_BROADCAST_ADDRESS 5 p, ty), sy_initState := 3\<rparr>"
  have i: "initTasks E0 (q, x) = Inr (q, x0)"
    using act by (simp add: initTasks_def activateTask_def sys_tasks_def load_def task_Init_def ini_setActive_def set_active_def x0_def)
  have "ini_process E1 (q, x0) = Inr (q, x1)" by (simp add: ini_process_def x0_def x1_def)
  then have 1: "main_pass E1 (q, x0) = Some (Inr (q, x1))"
    using init_pass [of x0 E1 q q x1] assms(4) no_messages [OF q0] by (simp add: x0_def)
  have "ini_process E2 (q, x1) = Inr (q, x2)"
    using assms(2,3) by (simp add: ini_process_def x0_def x1_def x2_def host_protocol_init_def)
  then have 2: "main_pass E2 (q, x1) = Some (Inr (q, x2))"
    using init_pass [of x1 E2 q q x2] assms(5) no_messages [OF q0] by (simp add: x0_def x1_def)
  obtain q3 x3 where 3: "ini_process E3 (q, x2) = Inr (q3, x3)" "queue_ok 1 q3" "tqueue_cont q3 = [mkMessage grpSystem msgSysInit 0 0]"
      "sy_active x3 = [True, True, True, False]" "ut_state (sy_udp x3) = udpIdle" "sy_poll x3 = sy_poll x2"
      "sy_host x3 = sy_host x2" "sy_master x3 = sy_master x2"
    using ini_activates [OF q0, of x2 E3] by (auto simp: x0_def x1_def x2_def)
  obtain q4 where 4: "processMessages (sys_tasks E3) (q3, x3) =
      Some (Inr (q4, mac_set macInitStart (x3\<lparr>sy_poll := slave_init (sy_poll x3)\<rparr>)))" "queue_ok 0 q4"
    using one_message [OF 3(2,3) sysinit_handled [OF 3(4)]] by blast
  have "main_pass E3 (q, x2) = processMessages (sys_tasks E3) (q3, x3)"
    using init_pass [OF _ assms(6) 3(1)] by (simp add: x0_def x1_def x2_def)
  then have "main_rounds [E1, E2, E3] (q, x0) = Some (Inr (q4, mac_set macInitStart (x3\<lparr>sy_poll := slave_init (sy_poll x3)\<rparr>)))"
    using 1 2 4(1) by simp
  then show ?thesis using i 4(2) 3(4-)
    by (intro exI [of _ "(q, x0)"] exI [of _ q4] exI [of _ "mac_set macInitStart (x3\<lparr>sy_poll := slave_init (sy_poll x3)\<rparr>)"])
      (simp add: mac_set_def queue_ok_def slave_init_def x0_def x1_def x2_def)
qed

theorem boot_sequence_witness:
  "\<exists>c s0 q' x'. data_init (\<lambda>_. ex_block) dc_new = Inr c \<and> initTasks (ex_env 0) (ex_messages, ex_sys) = Inr s0 \<and>
     main_rounds [ex_env 1, ex_env 2, ex_env 3] s0 = Some (Inr (q', x')) \<and> sy_active x' = [True, True, True, False] \<and>
     mc_state (sy_mac x') = macInitStart"
proof -
  obtain c where c: "data_init (\<lambda>_. ex_block) dc_new = Inr c" using data_init_ok [of "\<lambda>_. ex_block"] ex_block_len by auto
  then show ?thesis
    using boot_sequence [OF ex_power_on, of "ex_dev\<lparr>dv_data := dc_new\<rparr>" _ kProtocolDataIO "ex_env 2" c "ex_env 1" "ex_env 3" "ex_env 0"]
    by (fastforce simp: ex_sys_def ex_env_def)
qed

text \<open>
  C22: in every state between two rounds of the main loop the message queue is empty; the Ethernet
  service is in none of its error states (its timeout for the first link, 8 s, cannot expire, because the
  timer is restarted every 20 ms just before it is tested); and the UDP service handles datagrams
  only after the module has been initialised and while the network is connected.
\<close>

theorem system_invariant:
  assumes "sys_reach (q, x)"
  shows "tqueue_cont q = [] \<and> mc_state (sy_mac x) \<notin> {macError, macInitWaitTimeout} \<and>
     (ut_state (sy_udp x) \<in> {udpProcess, udpProcessRx, udpProcessTx} \<longrightarrow> ut_UDP_initOk (sy_udp x) \<and> ut_connected (sy_udp x))"
  using sys_reach_ok [OF assms] by (auto simp: queue_ok_def sys_ok_defs)

theorem system_invariant_witness:
  "sys_reach (ex_messages, ex_booted) \<and> tqueue_cont ex_messages = [] \<and>
     mc_state (sy_mac ex_booted) \<notin> {macError, macInitWaitTimeout}"
  using ex_reach system_invariant [OF ex_reach] by blast

text \<open>
  C8: the firmware never asks a device on the local bus for data. Under every behaviour of the
  surroundings (time, link, datagrams, bytes on the bus, console) the polling automaton is never
  run: it stays idle, started or stopped, and the only requests in the queue of the local bus are
  acknowledgements of blocks that a device has sent unasked.
\<close>

theorem never_polls:
  assumes "sys_reach (q, x)"
  shows "sp_state (sy_poll x) \<in> {kStIdle, kStStart, kStStop} \<and> tqueue_inv (mt_txQueue (sy_master x)) \<and>
     (\<forall>r \<in> set (tqueue_cont (mt_txQueue (sy_master x))). rq_type r = ucast MsgAppType \<and>
        (ucast (drop_bit 16 (rq_parameter0 r)) :: u16) = MsgApp_DataAcknowledge)"
proof -
  have "acks_only (mt_txQueue (sy_master x))" "poll_idle (sy_poll x)" using sys_reach_ok [OF assms] by (simp_all add: sys_ok_def)
  moreover have "(ucast (drop_bit 16 (push_bit 16 (ucast MsgApp_DataAcknowledge) OR (2 :: u32))) :: u16) = MsgApp_DataAcknowledge"
    by (simp add: MsgApp_DataAcknowledge_def)
  ultimately show ?thesis by (simp add: acks_only_def is_ack_def poll_idle_def)
qed

theorem never_polls_witness:
  "sys_reach (ex_messages, ex_booted) \<and> sp_state (sy_poll ex_booted) \<in> {kStIdle, kStStart, kStStop} \<and>
     tqueue_inv (mt_txQueue (sy_master ex_booted))"
  using ex_reach never_polls [OF ex_reach] by blast

text \<open>
  C5: no message between the tasks is lost, and none is handled twice or out of order. In a round of the
  main loop the tasks send at most four messages, and the queue has room for 32; the message loop then
  ends without a fault, every active task with a matching mask has handled the messages in the
  order in which they were sent, and the queue is empty.
\<close>

theorem messages_handled_in_order:
  assumes "sys_reach (q, x)" and "uart_process E x = Some (Inr x1)" and "processTasks (sys_tasks E) (q, x1) = Some (Inr (q2, x2))"
  shows "length (tqueue_cont q2) \<le> 4 \<and> msgBufferSize q2 = 32 \<and>
     (\<exists>q3 x3. processMessages (sys_tasks E) (q2, x2) = Some (Inr (q3, x3)) \<and>
        rfold (handled (sys_tasks E)) (tqueue_cont q2) x2 = Inr x3 \<and> tqueue_cont q3 = [] \<and> main_pass E (q, x) = Some (Inr (q3, x3)))"
proof -
  have ok: "queue_ok 0 q" "sys_ok x1" using sys_reach_ok [OF assms(1)] uart_process_ok [OF assms(2)] by simp_all
  have "queue_ok (0 + 4) q2 \<and> sys_ok x2" by (rule tasks_ok [OF assms(3) ok])
  then have 2: "queue_ok 4 q2" "sys_ok x2" by simp_all
  obtain q3 x3 where 3: "processMessages (sys_tasks E) (q2, x2) = Some (Inr (q3, x3))"
      "rfold (handled (sys_tasks E)) (tqueue_cont q2) x2 = Inr x3" "queue_ok 0 q3"
    using messages_ok [OF 2, of E] by blast
  have "main_pass E (q, x) = Some (Inr (q3, x3))"
    using assms(2,3) 3(1) by (simp add: main_pass_def sys_processTasks_def)
  then show ?thesis using 2(1) 3 by (auto simp: queue_ok_def MESSAGE_QUEUE_SIZE_def)
qed

theorem messages_handled_in_order_witness:
  "\<exists>q2 x2 q3 x3. processTasks (sys_tasks (ex_env 1)) (ex_messages, ex_booted) = Some (Inr (q2, x2)) \<and>
     processMessages (sys_tasks (ex_env 1)) (q2, x2) = Some (Inr (q3, x3)) \<and> tqueue_cont q3 = []"
proof -
  have u: "uart_process (ex_env 1) ex_booted = Some (Inr ex_booted)" by (simp add: uart_process_def ex_env_def)
  have "\<exists>x2. processTasks (sys_tasks (ex_env 1)) (ex_messages, ex_booted) = Some (Inr (ex_messages, x2))"
    by (simp add: sys_tasks_def ini_process_def task_Monitor_def task_MAC_Service_def task_UDP_Service_def task_Init_def ex_booted_def)
  then obtain x2 where t: "processTasks (sys_tasks (ex_env 1)) (ex_messages, ex_booted) = Some (Inr (ex_messages, x2))" by blast
  show ?thesis using messages_handled_in_order [OF ex_reach u t] t by blast
qed

text \<open>
  C2: the registers over the network. When the UDP service handles a datagram that holds up to 122
  requests for registers, and the transmit queue has room, then one datagram with the answers, one
  for every request in the order of the requests, is queued: the value of the register, or an error
  for a register that does not exist. The datagram that was handled is removed. Answers beyond byte
  1440, that is the 121st and 122nd, are cut off.
\<close>

theorem registers_read_over_udp:
  assumes "ut_state (sy_udp x) = udpProcessRx" and "ut_appTx (sy_udp x)" and "ut_connected (sy_udp x)"
    and "sy_host x = (d, p, ty)" and "host_ok p ty" and "udp_rx_inv (sy_udpio x)" and "udp_tx_inv (sy_udpio x)"
    and "tqueue_cont (ui_rxQueue (sy_udpio x)) = dg # ds" and "ud_bytes (sy_udpio x) dg = Inr (concat (map read_request rs))"
    and "ud_size dg = of_nat (4 * length rs)" and "rs \<noteq> []" and "length rs \<le> 122" and "length (udp_tx (sy_udpio x)) < UDP_TX_Q_SIZE"
  shows "\<exists>x'. udps_process E (q, x) = Some (Inr (q, x')) \<and> ut_state (sy_udp x') = udpProcessTx \<and>
     udp_tx (sy_udpio x') = udp_tx (sy_udpio x) @ [take 1440 (concat (map (read_answer (en_henv E) d) rs))] \<and>
     tqueue_cont (ui_rxQueue (sy_udpio x')) = ds \<and> udp_tx_inv (sy_udpio x') \<and> udp_rx_inv (sy_udpio x') \<and>
     (\<exists>p' ty'. sy_host x' = (d, p', ty') \<and> host_ok p' ty')"
proof -
  let ?u = "sy_udpio x" and ?ans = "concat (map (read_answer (en_henv E) d) rs)"
  have n: "unat (of_nat (12 * length rs) :: u16) = 12 * length rs" using assms(12) by (intro unat_of_nat_u16) simp
  obtain u1 where u1: "addTxData ?ans (of_nat (12 * length rs)) ?u = Inr (int (min (12 * length rs) UDP_DATA_MAX_SZ), u1)"
      "udp_tx_inv u1" "udp_tx u1 = udp_tx ?u @ [take (min (12 * length rs) UDP_DATA_MAX_SZ) ?ans]" "ui_rxQueue u1 = ui_rxQueue ?u"
    using addTxData_law [OF assms(7), of "of_nat (12 * length rs)" ?ans] assms(13) n by (auto simp del: of_nat_mult)
  have cut: "take (min (12 * length rs) UDP_DATA_MAX_SZ) ?ans = take 1440 ?ans" by (simp add: UDP_DATA_MAX_SZ_def min_def)
  obtain p' where p': "processRxData E (sy_udp x) (concat (map read_request rs)) (of_nat (4 * length rs)) ((d, p, ty), ?u) =
      Some (Inr ((d, p', kProtocolApp), u1))" "host_ok p' kProtocolApp"
    using processRxData_reads [OF assms(5,11) _ assms(2,3) u1(1)] assms(12) by auto
  have rx1: "udp_rx_inv u1" "tqueue_cont (ui_rxQueue u1) = dg # ds" using assms(6,8) u1(4) by (simp_all add: udp_rx_inv_def)
  obtain u2 where u2: "udp_finishRx (en_lwip E) dg u1 = Inr u2" "udp_tx u2 = udp_tx u1" "udp_tx_inv u2" "udp_rx_inv u2" "tqueue_cont (ui_rxQueue u2) = ds"
    using finishRx_ok [OF rx1(1) u1(2) rx1(2), of "en_lwip E"] by blast
  have peek: "tqueue_peek (ui_rxQueue ?u) = Some dg" using assms(6,8) tqueue_peek_law [of "ui_rxQueue ?u"] by (simp add: udp_rx_inv_def)
  have "processRxQueue (en_lwip E) (processRxData E (sy_udp x)) 1 (sy_host x, ?u) = Some (Inr ((d, p', kProtocolApp), u2))"
    using peek assms(4,9,10) p'(1) u2(1) by simp
  then have "udps_process E (q, x) = Some (Inr (q, udp_set udpProcessTx (x\<lparr>sy_host := (d, p', kProtocolApp), sy_udpio := u2\<rparr>)))"
    using assms(1) by (simp add: udps_process_def)
  then show ?thesis using u1(3) u2 cut p'(2)
    by (intro exI [of _ "udp_set udpProcessTx (x\<lparr>sy_host := (d, p', kProtocolApp), sy_udpio := u2\<rparr>)"]) (simp add: udp_set_def)
qed

theorem registers_read_over_udp_witness:
  "\<exists>u x'. udp_receive_callback 9 (read_request (1, 3)) 5 ex_udp = Inr u \<and>
     udps_process (ex_env 7) (ex_messages, ex_sys\<lparr>sy_udp := \<lparr>ut_state = udpProcessRx, ut_UDP_initOk = True, ut_connected = True,
       ut_appTx = True\<rparr>, sy_udpio := u\<rparr>) = Some (Inr (ex_messages, x')) \<and>
     udp_tx (sy_udpio x') = [TMsgParameterValue 1 3 9 0 0]"
proof -
  let ?bs = "concat (map read_request [(1, 3)])" and ?d = "ex_dev\<lparr>dv_data := dc_new\<rparr>"
  define dg where "dg = \<lparr>ud_buffer = Payload 9, ud_size = of_nat (length ?bs), ud_conn = None, ud_ex = Some 9\<rparr>"
  obtain u where u: "udp_receive_callback 9 ?bs 5 ex_udp = Inr u"
    using tqueue_push_law [OF ex_udp_queues(3), of dg]
    by (cases "td_raddr (ui_txData ex_udp) = 5 \<longrightarrow> \<not> td_connected (ui_txData ex_udp)")
      (auto simp: udp_receive_callback_def Let_def dg_def)
  note r = udp_receive_law [OF ex_udp_inv(3) u]
  have nf: "\<not> isFull (ui_rxQueue ex_udp)" by (simp add: ex_udp_def tqueue_new_def)
  have c: "tqueue_cont (ui_rxQueue u) = dg # []" using r(6) nf ex_udp_queues(4) by (simp add: dg_def)
  have b: "ud_bytes u dg = Inr ?bs" using r(5) by (simp add: ud_bytes_def dg_def)
  define x where "x = ex_sys\<lparr>sy_udp := \<lparr>ut_state = udpProcessRx, ut_UDP_initOk = True, ut_connected = True, ut_appTx = True\<rparr>, sy_udpio := u\<rparr>"
  obtain p where p: "sy_host x = (?d, p, kProtocolDataIO)" "host_ok p kProtocolDataIO" by (simp add: x_def ex_sys_def host_ok_def)
  have tx: "udp_tx_inv u" "udp_tx u = []" using udp_tx_inv_cong [OF r(2,3,4)] ex_udp_inv by simp_all
  obtain x' where "udps_process (ex_env 7) (ex_messages, x) = Some (Inr (ex_messages, x'))"
      "udp_tx (sy_udpio x') = udp_tx u @ [take 1440 (concat (map (read_answer (en_henv (ex_env 7)) ?d) [(1, 3)]))]"
    using registers_read_over_udp [of x ?d p kProtocolDataIO dg "[]" "[(1, 3)]" "ex_env 7" ex_messages] p r(1) tx c b
    by (auto simp: x_def dg_def UDP_TX_Q_SIZE_def)
  then show ?thesis using u tx(2) by (auto simp: x_def read_answer_def param_read_def ex_env_def ex_henv_def TMsgParameterValue_def)
qed

end
