(* ===== verification/Spec2Isabelle.thy ===== *)
theory Spec2Isabelle
  imports Crc16 TQueue TBuffer ConsoleHex MovAvg Timers NetifUp IpRecv UdpPorts Firmware
begin

text \<open>
  A verification of the firmware of the P-KS3-1 concentrator (an LPC43xx controller, C and C++ under
  \<^verbatim>\<open>src/\<close>). The device collects data blocks from devices on a local RS485 bus and answers the requests of
  a host, which arrive in UDP datagrams over Ethernet.

  \<^bold>\<open>The parts and how they interact.\<close> \<open>main\<close> calls, in an endless loop, the UART driver, the tasks of a
  cooperative supervisor and the console. The tasks exchange messages over a queue: the start task
  configures the modules and activates the others; the Ethernet service starts the interface, watches the
  link through the PHY and reports it; the UDP service moves datagrams between the network stack and the
  protocol engine of the host; the monitor runs the transmitter of the local bus and starts and stops the
  polling. A protocol engine (one instance for each of the two links) consists of layer 2, which frames
  packets with a preamble, addresses and two CRCs, and layer 3, which packs messages into packets and
  takes them apart. Messages of the host go to the handlers of the registers and of the stored data
  blocks; messages of the devices go to the polling automaton, which stores blocks.

  \<^bold>\<open>The theories and the code.\<close>

  \<^item> \<open>Prelude\<close>: machine integers, arrays with bounds, results with errors (\<open>res\<close>: an access outside an
    array or through a null pointer is the value \<open>Inl\<close>), bytes of words, and the lemmas all share.
  \<^item> \<open>Crc16\<close>: \<^verbatim>\<open>src/src/comm/CRC16.C\<close>. The table is division by the CCITT polynomial; two adjacent wrong
    bytes are always detected.
  \<^item> \<open>Fifo_Spec\<close>, \<open>Ring\<close>: the interface of a bounded queue (locale \<open>bounded_fifo\<close>) and the contents of a ring; \<open>TQueue\<close>
    (\<^verbatim>\<open>inc/comm/tqueue.h\<close>) and \<open>TBuffer\<close> (\<^verbatim>\<open>inc/comm/tbuffer.h\<close>) interpret them and are shown to refine a list.
  \<^item> \<open>DataIO_Layer2\<close>, \<open>DataIO_Layer3\<close>: \<^verbatim>\<open>inc/dataio/dataio3.h\<close>. The receiver stays inside its array unless
    a header announces no data; what one node frames another receives; messages are added and parsed
    without leaving the packet, with the exceptions that the size arithmetic makes.
  \<^item> \<open>Protocol\<close>: \<^verbatim>\<open>src/src/protocol_app\<close>, \<^verbatim>\<open>inc/protocol/p_tapprotocol_app_packets.h\<close>. Locale
    \<open>rx_message_handler\<close> is the contract of a message handler (it leaves the block being parsed alone); in
    it the loop delivers every message in order, and its termination is characterised.
  \<^item> \<open>MasterTx\<close>: \<^verbatim>\<open>inc/protocol/p_tmastertx.h\<close> and the request functions of \<^verbatim>\<open>protocol.cpp\<close>. One packet per call
    holds the oldest requests to one address; the automaton is safe under every sequence of calls.
  \<^item> \<open>DataBuffers\<close>: \<^verbatim>\<open>inc/tdatabufferscontainer.h\<close>, \<^verbatim>\<open>src/src/data_buffers.cpp\<close>; \<open>SlavePoll\<close>:
    \<^verbatim>\<open>inc/p_slave_poll.h\<close> and the handlers of the local bus; \<open>SlaveHandlers\<close>: the host's handlers, the
    registers (\<^verbatim>\<open>device_parameters.cpp\<close>) and the dispatch of the two links (\<^verbatim>\<open>protocol.cpp\<close>).
  \<^item> \<open>UdpIO\<close>: \<^verbatim>\<open>src/src/udp_io\<close> with its pool of buffers (locale \<open>buffer_pool\<close>). Any network stack can be observed
    (\<open>observed\<close>): what it is given to send and accepts are the accepted datagrams, in order and unchanged; packet buffers are accounted for.
  \<^item> \<open>Phy\<close>: \<^verbatim>\<open>src/src/lpc_phy_smsc87x0.c\<close> and \<^verbatim>\<open>src/src/emac_app.cpp\<close>. The link status is that of the last reading of
    the chip; the initialisation has a bounded delay.
  \<^item> \<open>Supervisor\<close>: \<^verbatim>\<open>src/src/supervisor\<close>. Locale \<open>quiet_tasks\<close> is the contract of tasks whose handlers send no
    messages; in it the message loop ends and handles the messages in order.
  \<^item> \<open>Console\<close>: \<^verbatim>\<open>src/src/comm/constrinput.c\<close>, \<^verbatim>\<open>putx.c\<close>, \<^verbatim>\<open>src/src/coninput.cpp\<close>. The line editor refines, on every input, editing of a
    list of characters that ends at a carriage return or with the 128th character; the search for commands is the position in a list; numbers are printed in
    decimal notation, which the commands read back. \<open>ConsoleHex\<close>: the hexadecimal output, which is read back too.
  \<^item> \<open>MovAvg\<close>: \<^verbatim>\<open>inc/comm/tmavrgfilt.h\<close>. The filter with a running sum gives the average of the last values.
  \<^item> \<open>Tasks\<close>, \<open>System\<close>, \<open>Firmware\<close>: \<^verbatim>\<open>src/src/tasks.cpp\<close>, \<^verbatim>\<open>ts_init.cpp\<close>, \<^verbatim>\<open>ts_monitor.cpp\<close>, \<^verbatim>\<open>ts_emac_service.cpp\<close>,
    \<^verbatim>\<open>ts_udp_service.cpp\<close>, \<^verbatim>\<open>main.cpp\<close>: the tasks over the states of all components, an invariant over all
    rounds of the main loop (\<open>sys_reach\<close>), and the properties of the whole: the start, no lost messages,
    the host's requests from datagram to datagram, and that the local bus is never polled.

  \<^item> \<open>Pbuf\<close>, \<open>Packets\<close>: \<^verbatim>\<open>src/lwip/src/core/pbuf.c\<close>. The heap of packet buffers is a finite map; the invariant
    \<open>heap_ok h R\<close> says that every reference count is the number of pointers to the buffer, from other buffers
    and from the multiset \<open>R\<close> of the pointers that the program holds. Locale \<open>buffer_store\<close> is the contract of
    allocation and release; a user that releases what it has allocated (\<open>pbuf_user\<close>) leaves the heap as it was. Chains are
    allocated, shortened, filled and read as the list of bytes they hold.
  \<^item> \<open>Emac\<close>, \<open>EmacTx\<close>, \<open>EmacSystem\<close>: \<^verbatim>\<open>src/lwip/src/arch/lpc18xx_43xx_emac.c\<close>, the driver below the network stack. The rings
    of descriptors for reception and for transmission, an invariant over both and the heap of buffers, the
    steps of the controller, and the states reachable by all of them (\<open>emac_reach\<close>): the controller writes
    only into queued buffers, no buffer is freed while somebody uses it, and the functions hand out and give up exactly the packets that the
    controller has finished.
  \<^item> \<open>Timers\<close>: \<^verbatim>\<open>src/lwip/src/core/timers.c\<close> and \<open>msDelay\<close>. The list of time differences is a list of deadlines; the
    two cyclic timers are called as often as their periods fit into the time of a check, as long as \<open>malloc\<close> succeeds.

  \<^item> \<open>Inet\<close>, \<open>IpAddr\<close>, \<open>PbufCopy\<close>: \<^verbatim>\<open>src/lwip/src/core/ipv4/inet_chksum.c\<close>, \<^verbatim>\<open>def.c\<close>, \<^verbatim>\<open>ip_addr.c\<close> and the remaining functions of \<^verbatim>\<open>pbuf.c\<close>. The checksum over a chain with
    its swapped bytes is the sum of the words modulo \<open>2\<^sup>1\<^sup>6 - 1\<close> of the bytes in one piece; addresses are printed and read back; masks are
    prefixes; copies, comparisons and searches are those of byte lists.
  \<^item> \<open>Netif\<close>, \<open>NetifUp\<close>, \<open>Etharp\<close>: \<^verbatim>\<open>src/lwip/src/core/netif.c\<close> and \<^verbatim>\<open>src/lwip/src/netif/etharp.c\<close>. \<open>EtharpInv\<close> holds the invariant of the cache and the locale \<open>netdrv\<close>, the
    contract of the output function of an interface (it keeps the accounting of references); \<open>EtharpOps\<close> proves in it that every operation
    keeps the invariant and which frames are built; \<open>EtharpEmac\<close> interprets it on the driver of \<open>EmacSystem\<close> and states the properties for all
    reachable states (\<open>arp_reach\<close>).
  \<^item> \<open>Ip\<close>, \<open>Icmp\<close>, \<open>Udp\<close>, \<open>IpInput\<close>: \<^verbatim>\<open>src/lwip/src/core/ipv4/ip.c\<close>, \<^verbatim>\<open>icmp.c\<close>, \<^verbatim>\<open>src/lwip/src/core/udp.c\<close>, \<^verbatim>\<open>raw.c\<close>. The state \<open>ipstack\<close> extends that of the ARP layer by the
    control blocks and the current packet. \<open>IpWire\<close> follows a datagram from \<open>udp_sendto\<close> into the ring of the driver, through the test of the link (\<open>emac_output\<close>), \<open>IpRecv\<close> a frame from
    \<open>ethernet_input\<close> to the callback, \<open>UdpPorts\<close> the control blocks under all calls (\<open>udp_reach\<close>).

  \<^bold>\<open>State, errors and loops.\<close> Objects are records, pointers between them are resolved by keeping them in one
  record. Operations pass the state and return \<open>res\<close>. Loops over a fixed number of steps are functions
  on lists or numbers; loops that need not end (\<open>rxMsgLoop\<close>, \<open>mt_collect\<close>, \<open>processMessages\<close>, the walks over chains of buffers, the waits of
  the Ethernet driver) are partial
  functions into \<open>option\<close> where \<open>None\<close> means that the loop does not end, and theorems state when they do. No
  fuel is used. Uninitialised variables are arguments (\<open>stk\<close>, \<open>he_stack\<close>, the argument of constructors).

  \<^bold>\<open>Parameters.\<close> Code outside the program is a record of functions on an abstract state: the chip
  library's UART ring buffers (\<open>links\<close>), the functions of the network stack that the UDP module calls (\<open>lwip\<close>), the
  callbacks of the applications, fragmentation and reassembly (\<open>ipenv\<close>), the MAC registers (\<open>enet\<close>, \<open>chip\<close>), the allocator (\<open>memlib\<close>) and,
  for one round of the main loop, the time and everything that arrives (\<open>env\<close>).

  \<^bold>\<open>Not modelled.\<close> In \<open>sys_reach\<close> the console is the step that writes an arbitrary register; \<open>console_registers\<close>
  shows that its commands do nothing else to the registers. Its output to a full UART buffer waits for the
  chip and is taken to return. Of lwIP under \<^verbatim>\<open>src/lwip\<close>, fragmentation
  and reassembly (\<^verbatim>\<open>ip_frag.c\<close>) are parameters: they keep pointers in the bytes of received packets and use pbufs with a callback, while the memory of a pbuf is a
  list of bytes here. The allocators (\<^verbatim>\<open>mem.c\<close>, \<^verbatim>\<open>memp.c\<close>) are configured to call \<open>malloc\<close>. TCP, DHCP, DNS, IGMP, AUTOIP, SNMP and the
  sequential and socket APIs are not compiled into the firmware. The UDP module of the firmware (\<open>UdpIO\<close>) is connected to
  its parameter \<open>lwip\<close>, not to the state of \<open>Ip\<close>: its rounds of the main loop see the stack as arriving datagrams and accepted packets.
  Start-up code, clocks and board setup only access registers. Printing and indication
  only produce output. The older protocol headers (\<^verbatim>\<open>dataio.h\<close>, \<^verbatim>\<open>dataio2.h\<close>, \<^verbatim>\<open>dataio_lt.h\<close>) and the template \<^verbatim>\<open>tbuffer_t.h\<close> are not used by the
  firmware. Interrupts enter as what the driver has stored when a round begins.
\<close>

end
